(* ===== verification/Prelude.thy ===== *)
theory Prelude
  imports Complex_Main "HOL-Library.AList" "HOL-Library.Multiset"
begin

text \<open>
  Shared vocabulary of the development: the reading of JavaScript numbers, the
  insertion-ordered \<open>Map\<close>, and the generic lemmas the components share.

  Numbers: a JavaScript number that only ever holds a whole value (a time stamp of
  \<open>Date.now\<close>, a count) is an \<open>int\<close> or a \<open>nat\<close>; one that can be fractional
  (token levels, rates, scores) is a \<open>rat\<close>. Double rounding, NaN and overflow of the
  double range are not modelled; \<open>Infinity\<close> is written out where the code returns it.

  Maps: \<open>Map\<close> keeps insertion order, overwrites in place and appends new keys, which is
  \<open>AList.update\<close> on an association list with distinct keys.
\<close>

named_theorems js_map \<open>laws of the insertion-ordered map\<close>

type_synonym ('k, 'v) jsmap = "('k \<times> 'v) list"
type_synonym time = int

datatype js_error = RangeError

abbreviation jm_get :: "('k, 'v) jsmap \<Rightarrow> 'k \<Rightarrow> 'v option" where
  "jm_get m k \<equiv> map_of m k"

abbreviation jm_has :: "('k, 'v) jsmap \<Rightarrow> 'k \<Rightarrow> bool" where
  "jm_has m k \<equiv> map_of m k \<noteq> None"

abbreviation jm_set :: "'k \<Rightarrow> 'v \<Rightarrow> ('k, 'v) jsmap \<Rightarrow> ('k, 'v) jsmap" where
  "jm_set k v m \<equiv> AList.update k v m"

abbreviation jm_delete :: "'k \<Rightarrow> ('k, 'v) jsmap \<Rightarrow> ('k, 'v) jsmap" where
  "jm_delete k m \<equiv> AList.delete k m"

abbreviation jm_keys :: "('k, 'v) jsmap \<Rightarrow> 'k list" where
  "jm_keys m \<equiv> map fst m"

text \<open>Well-formed maps hold each key once.\<close>

definition jm_wf :: "('k, 'v) jsmap \<Rightarrow> bool" where
  "jm_wf m \<longleftrightarrow> distinct (map fst m)"

lemma jm_wf_Nil [simp]: "jm_wf []"
  by (simp add: jm_wf_def)

lemma jm_wf_set [simp, js_map]: "jm_wf m \<Longrightarrow> jm_wf (jm_set k v m)"
  by (simp add: jm_wf_def distinct_update)

lemma jm_wf_delete [simp, js_map]: "jm_wf m \<Longrightarrow> jm_wf (jm_delete k m)"
  by (simp add: jm_wf_def distinct_delete)

lemma jm_wf_filter [simp, js_map]: "jm_wf m \<Longrightarrow> jm_wf (filter P m)"
  by (simp add: jm_wf_def distinct_map_filter)

lemma jm_get_set [js_map]: "jm_get (jm_set k v m) k' = (if k' = k then Some v else jm_get m k')"
  by (simp add: update_conv')

lemma jm_get_delete [js_map]: "jm_get (jm_delete k m) k' = (if k' = k then None else jm_get m k')"
  by (simp add: delete_conv')

lemma jm_get_filter [js_map]:
  "jm_wf m \<Longrightarrow> jm_get (filter P m) k =
     (case jm_get m k of None \<Rightarrow> None | Some v \<Rightarrow> if P (k, v) then Some v else None)"
proof (induction m)
  case Nil
  then show ?case by simp
next
  case (Cons p m)
  obtain k' v' where p: "p = (k', v')" by (cases p)
  have wf: "jm_wf m" and notin: "k' \<notin> fst ` set m"
    using Cons.prems by (simp_all add: jm_wf_def p)
  have none: "jm_get (filter P m) k' = None"
    using notin by (auto simp: map_of_eq_None_iff)
  show ?case
    using Cons.IH [OF wf] none by (cases "k = k'") (auto simp: p)
qed

lemma jm_get_map_at [js_map]:
  "jm_get (map (\<lambda>(k, v). (k, if k = i then f v else v)) m) k' = map_option (\<lambda>v. if k' = i then f v else v) (jm_get m k')"
  by (induction m) auto

lemma jm_get_set_mem: "jm_wf m \<Longrightarrow> jm_get m k = Some v \<longleftrightarrow> (k, v) \<in> set m"
  by (simp add: jm_wf_def)

lemma length_jm_set:
  "length (jm_set k v m) = (if jm_has m k then length m else Suc (length m))"
  by (induction m) auto

lemma jm_set_new: "jm_get m k = None \<Longrightarrow> jm_set k v m = m @ [(k, v)]"
  by (induction m) (auto split: if_splits)

lemma jm_keys_set: "fst ` set (jm_set k v m) = insert k (fst ` set m)"
  by (simp add: dom_update)

text \<open>A set of the language, in insertion order.\<close>

definition js_set_add :: "'k \<Rightarrow> 'k list \<Rightarrow> 'k list" where
  "js_set_add x s = (if x \<in> set s then s else s @ [x])"

lemma set_js_set_add [simp]: "set (js_set_add x s) = insert x (set s)"
  by (auto simp: js_set_add_def)

lemma distinct_js_set_add [simp]: "distinct s \<Longrightarrow> distinct (js_set_add x s)"
  by (simp add: js_set_add_def)

section \<open>Rounding\<close>

abbreviation js_floor :: "rat \<Rightarrow> int" where
  "js_floor x \<equiv> floor x"

abbreviation js_ceil :: "rat \<Rightarrow> int" where
  "js_ceil x \<equiv> ceiling x"

text \<open>\<open>Math.round\<close> rounds halves up.\<close>

definition js_round :: "rat \<Rightarrow> int" where
  "js_round x = floor (x + 1 / 2)"

lemma js_round_int [simp]: "js_round (of_int n) = n"
  unfolding js_round_def by (rule floor_unique) simp_all

lemma js_round_mono: "x \<le> y \<Longrightarrow> js_round x \<le> js_round y"
  unfolding js_round_def by (rule floor_mono) simp

section \<open>Lists\<close>

lemma mset_swap_hole:
  "i < length xs \<Longrightarrow> j < length xs \<Longrightarrow> i \<noteq> j \<Longrightarrow>
     mset ((xs[i := xs ! j])[j := v]) = mset (xs[i := v])"
proof -
  assume ij: "i < length xs" "j < length xs" "i \<noteq> j"
  have "mset ((xs[i := xs ! j])[j := v]) = mset (((xs[i := v])[i := xs[i := v] ! j])[j := xs[i := v] ! i])"
    using ij by simp
  also have "\<dots> = mset (xs[i := v])"
    using ij by (intro mset_swap) simp_all
  finally show ?thesis .
qed

text \<open>A stable sort by a comparison that need not be total: \<open>Array.sort\<close> with a comparator.\<close>

fun insert_by :: "('a \<Rightarrow> 'a \<Rightarrow> bool) \<Rightarrow> 'a \<Rightarrow> 'a list \<Rightarrow> 'a list" where
  "insert_by le x [] = [x]"
| "insert_by le x (y # ys) = (if le x y then x # y # ys else y # insert_by le x ys)"

definition sort_by :: "('a \<Rightarrow> 'a \<Rightarrow> bool) \<Rightarrow> 'a list \<Rightarrow> 'a list" where
  "sort_by le xs = foldr (insert_by le) xs []"

lemma mset_sort_by [simp]: "mset (sort_by le xs) = mset xs"
proof (induction xs)
  case (Cons x xs)
  have "mset (insert_by le x ys) = add_mset x (mset ys)" for ys by (induction ys) auto
  then show ?case using Cons by (simp add: sort_by_def)
qed (simp add: sort_by_def)

lemma sorted_sort_by:
  assumes "\<And>a b. le a b \<or> le b a" and "\<And>a b c. le a b \<Longrightarrow> le b c \<Longrightarrow> le a c"
  shows "sorted_wrt le (sort_by le xs)"
proof (induction xs)
  case (Cons x xs)
  have "sorted_wrt le (insert_by le x ys)" if "sorted_wrt le ys" for ys
    using that
  proof (induction ys)
    case (Cons y ys)
    have "set (insert_by le x ys) = insert x (set ys)" by (induction ys) auto
    then show ?case using Cons assms(1) [of x y] by (auto intro: assms(2))
  qed simp
  then show ?case using Cons by (simp add: sort_by_def)
qed (simp add: sort_by_def)

text \<open>Two sorted arrangements of the same elements agree where the order is antisymmetric.\<close>

lemma sorted_wrt_unique:
  assumes "mset xs = mset ys" and "sorted_wrt le xs" and "sorted_wrt le ys"
    and "\<And>a b. a \<in> set xs \<Longrightarrow> b \<in> set xs \<Longrightarrow> le a b \<Longrightarrow> le b a \<Longrightarrow> a = b"
  shows "xs = ys"
  using assms
proof (induction xs arbitrary: ys)
  case (Cons x xs)
  then obtain y ys' where ys: "ys = y # ys'" by (cases ys) auto
  have "set ys = set (x # xs)" using Cons.prems(1) by (metis set_mset_mset)
  then have "x \<in> set ys" "y \<in> set (x # xs)" by (auto simp: ys)
  then have "x = y"
    using Cons.prems(2-4) by (auto simp: ys)
  then show ?case using Cons.IH [of ys'] Cons.prems by (auto simp: ys)
qed simp

section \<open>Runs\<close>

text \<open>
  A component is driven by a sequence of operations: \<open>run_after\<close> is the state they lead to,
  \<open>run_replies\<close> what they return, for a step function \<open>state, operation \<mapsto> state, reply\<close>.
\<close>

fun run_after :: "('s \<Rightarrow> 'o \<Rightarrow> 's \<times> 'r) \<Rightarrow> 's \<Rightarrow> 'o list \<Rightarrow> 's" where
  "run_after step s [] = s"
| "run_after step s (x # xs) = run_after step (fst (step s x)) xs"

fun run_replies :: "('s \<Rightarrow> 'o \<Rightarrow> 's \<times> 'r) \<Rightarrow> 's \<Rightarrow> 'o list \<Rightarrow> 'r list" where
  "run_replies step s [] = []"
| "run_replies step s (x # xs) = snd (step s x) # run_replies step (fst (step s x)) xs"

lemma run_after_append: "run_after step s (xs @ ys) = run_after step (run_after step s xs) ys"
  by (induction xs arbitrary: s) auto

lemma run_replies_append:
  "run_replies step s (xs @ ys) = run_replies step s xs @ run_replies step (run_after step s xs) ys"
  by (induction xs arbitrary: s) auto

lemma length_run_replies [simp]: "length (run_replies step s xs) = length xs"
  by (induction xs arbitrary: s) auto

text \<open>A simulation between two step functions makes their replies equal.\<close>

lemma run_simulation:
  assumes "R s t" and "\<And>s t x. R s t \<Longrightarrow> x \<in> set xs \<Longrightarrow>
      snd (f s x) = snd (g t x) \<and> R (fst (f s x)) (fst (g t x))"
  shows "run_replies f s xs = run_replies g t xs \<and> R (run_after f s xs) (run_after g t xs)"
  using assms by (induction xs arbitrary: s t) auto

text \<open>An invariant every step keeps holds after a run.\<close>

lemma run_invariant:
  assumes "I s" and "\<And>s x. I s \<Longrightarrow> x \<in> set xs \<Longrightarrow> I (fst (step s x))"
  shows "I (run_after step s xs)"
  using assms by (induction xs arbitrary: s) auto

text \<open>A nondecreasing clock, for the simulations and invariants that follow it.\<close>

lemma run_timed_simulation:
  assumes "R now s t" and "sorted (map time_of xs)" and "\<forall>x\<in>set xs. now \<le> time_of x"
    and "\<And>now s t x. R now s t \<Longrightarrow> x \<in> set xs \<Longrightarrow> now \<le> time_of x \<Longrightarrow>
      snd (f s x) = snd (g t x) \<and> R (time_of x) (fst (f s x)) (fst (g t x))"
  shows "run_replies f s xs = run_replies g t xs \<and>
    (\<exists>now'\<ge>now. (\<forall>x\<in>set xs. time_of x \<le> now') \<and> (xs \<noteq> [] \<longrightarrow> now' = time_of (last xs)) \<and>
       R now' (run_after f s xs) (run_after g t xs))"
  using assms
proof (induction xs arbitrary: now s t)
  case Nil
  then show ?case by auto
next
  case (Cons x xs)
  have "snd (f s x) = snd (g t x) \<and> R (time_of x) (fst (f s x)) (fst (g t x))"
    using Cons.prems by simp
  moreover have "run_replies f (fst (f s x)) xs = run_replies g (fst (g t x)) xs \<and>
      (\<exists>now'\<ge>time_of x. (\<forall>x\<in>set xs. time_of x \<le> now') \<and> (xs \<noteq> [] \<longrightarrow> now' = time_of (last xs)) \<and>
         R now' (run_after f (fst (f s x)) xs) (run_after g (fst (g t x)) xs))"
    using Cons.prems calculation by (intro Cons.IH) auto
  ultimately show ?case using Cons.prems(3)
    by (cases "xs = []") (auto intro: order_trans)
qed

text \<open>A stable sort puts a new last value after every smaller or equal one.\<close>

lemma dropWhile_key_gt:
  "sorted (map f xs) \<Longrightarrow> y \<in> set (dropWhile (\<lambda>x. f x \<le> (c :: 'k :: linorder)) xs) \<Longrightarrow> c < f y"
  by (induction xs) (auto split: if_splits)

lemma sort_key_snoc:
  fixes f :: "'a \<Rightarrow> 'k :: linorder"
  shows "sort_key f (xs @ [x]) =
    takeWhile (\<lambda>y. f y \<le> f x) (sort_key f xs) @ x # dropWhile (\<lambda>y. f y \<le> f x) (sort_key f xs)"
    (is "_ = ?ins")
proof (rule properties_for_sort_key)
  let ?s = "sort_key f xs" and ?P = "\<lambda>y. f y \<le> f x"
  show "mset ?ins = mset (xs @ [x])"
    by simp (metis mset_append mset_sort takeWhile_dropWhile_id)
  have "sorted (map f (takeWhile ?P zs @ x # dropWhile ?P zs))" if "sorted (map f zs)" for zs
    using that by (induction zs) (auto dest: set_takeWhileD set_dropWhileD)
  then show "sorted (map f ?ins)" by simp
  fix k
  have drop: "f k \<noteq> f x \<or> filter (\<lambda>y. f k = f y) (dropWhile ?P ?s) = []"
  proof -
    have "\<forall>y\<in>set (dropWhile ?P ?s). f x < f y"
      using dropWhile_key_gt [of f ?s _ "f x"] by simp
    then show ?thesis by (cases "f k = f x") (auto simp: filter_empty_conv)
  qed
  have split: "filter (\<lambda>y. f k = f y) ?s =
      filter (\<lambda>y. f k = f y) (takeWhile ?P ?s) @ filter (\<lambda>y. f k = f y) (dropWhile ?P ?s)"
    by (metis filter_append takeWhile_dropWhile_id)
  have "filter (\<lambda>y. f k = f y) ?s = filter (\<lambda>y. f k = f y) xs"
    using sort_key_stable [of f "f k" xs] by (simp add: eq_commute)
  then show "filter (\<lambda>y. f k = f y) ?ins = filter (\<lambda>y. f k = f y) (xs @ [x])"
    using drop split by auto
qed

end
