(* ===== verification/Heap.thy ===== *)
theory Heap
  imports Prelude
begin

text \<open>
  The array-backed binary heap and the stable priority queue of
  \<open>packages/algorithms/src/binary-heap.ts\<close>. The heap's array is a list; the sift
  loops carry the \<open>hole\<close> exactly as the code does (the moved value is written once, at
  the end). What the heap needs of its comparator is the locale \<open>comparator\<close>.
\<close>

section \<open>The heap's operations\<close>

type_synonym 'a cmp = "'a \<Rightarrow> 'a \<Rightarrow> rat"

definition parent :: "nat \<Rightarrow> nat" where
  "parent i = (i - 1) div 2"

lemma parent_less [simp]: "0 < i \<Longrightarrow> parent i < i"
  by (simp add: parent_def)

lemma parent_neq [simp]: "0 < i \<Longrightarrow> parent i \<noteq> i" "0 < i \<Longrightarrow> i \<noteq> parent i"
  using parent_less [of i] by linarith+

function sift_up_loop :: "'a cmp \<Rightarrow> 'a \<Rightarrow> 'a list \<Rightarrow> nat \<Rightarrow> 'a list \<times> nat" where
  "sift_up_loop cmp value items index =
     (if 0 < index
      then let parent_value = items ! parent index in
           if 0 \<le> cmp value parent_value then (items, index)
           else sift_up_loop cmp value (items[index := parent_value]) (parent index)
      else (items, index))"
  by pat_completeness auto
termination
  by (relation "measure (\<lambda>(c, v, xs, i). i)") auto

declare sift_up_loop.simps [simp del]

definition sift_up :: "'a cmp \<Rightarrow> 'a list \<Rightarrow> nat \<Rightarrow> 'a list" where
  "sift_up cmp items start =
     (let value = items ! start;
          (items', index) = sift_up_loop cmp value items start
      in items'[index := value])"

text \<open>The child the sift-down loop compares with: the right one only when it is smaller.\<close>

definition smaller_child :: "'a cmp \<Rightarrow> 'a list \<Rightarrow> nat \<Rightarrow> nat" where
  "smaller_child cmp items index =
     (let left = index * 2 + 1; right = left + 1 in
      if right < length items \<and> cmp (items ! right) (items ! left) < 0 then right else left)"

lemma smaller_child_cases:
  "smaller_child cmp items index = index * 2 + 1 \<or>
   smaller_child cmp items index = index * 2 + 2 \<and> index * 2 + 2 < length items"
  by (simp add: smaller_child_def Let_def)

function sift_down_loop :: "'a cmp \<Rightarrow> 'a \<Rightarrow> 'a list \<Rightarrow> nat \<Rightarrow> 'a list \<times> nat" where
  "sift_down_loop cmp value items index =
     (if length items \<le> index * 2 + 1 then (items, index)
      else let child = smaller_child cmp items index in
           if 0 \<le> cmp (items ! child) value then (items, index)
           else sift_down_loop cmp value (items[index := items ! child]) child)"
  by pat_completeness auto
termination
proof (relation "measure (\<lambda>(c, v, xs, i). length xs - i)", goal_cases)
  case (2 cmp v items index child)
  then show ?case
    using smaller_child_cases [of cmp items index] by auto
qed simp

declare sift_down_loop.simps [simp del]

definition sift_down :: "'a cmp \<Rightarrow> 'a list \<Rightarrow> nat \<Rightarrow> 'a list" where
  "sift_down cmp items start =
     (let value = items ! start;
          (items', index) = sift_down_loop cmp value items start
      in items'[index := value])"

text \<open>Floyd's build-heap: \<open>i\<close> counts from the last internal node down to 0.\<close>

fun heapify_from :: "'a cmp \<Rightarrow> nat \<Rightarrow> 'a list \<Rightarrow> 'a list" where
  "heapify_from cmp 0 items = items"
| "heapify_from cmp (Suc i) items = heapify_from cmp i (sift_down cmp items i)"

definition heap_new :: "'a cmp \<Rightarrow> 'a list \<Rightarrow> 'a list" where
  "heap_new cmp init = (if 0 < length init then heapify_from cmp (length init div 2) init else [])"

definition heap_size :: "'a list \<Rightarrow> nat" where
  "heap_size items = length items"

definition heap_is_empty :: "'a list \<Rightarrow> bool" where
  "heap_is_empty items \<longleftrightarrow> length items = 0"

definition heap_to_array :: "'a list \<Rightarrow> 'a list" where
  "heap_to_array items = items"

definition heap_clear :: "'a list \<Rightarrow> 'a list" where
  "heap_clear items = []"

definition heap_peek :: "'a list \<Rightarrow> 'a option" where
  "heap_peek items = (case items of [] \<Rightarrow> None | x # _ \<Rightarrow> Some x)"

definition heap_push :: "'a cmp \<Rightarrow> 'a list \<Rightarrow> 'a \<Rightarrow> 'a list" where
  "heap_push cmp items value = sift_up cmp (items @ [value]) (length items)"

definition heap_pop :: "'a cmp \<Rightarrow> 'a list \<Rightarrow> 'a option \<times> 'a list" where
  "heap_pop cmp items =
     (case items of
        [] \<Rightarrow> (None, [])
      | first # _ \<Rightarrow>
          let lst = last items; rest = butlast items in
          (Some first, if 0 < length rest then sift_down cmp (rest[0 := lst]) 0 else rest))"

definition heap_replace_top :: "'a cmp \<Rightarrow> 'a list \<Rightarrow> 'a \<Rightarrow> 'a option \<times> 'a list" where
  "heap_replace_top cmp items value =
     (case items of
        [] \<Rightarrow> (None, heap_push cmp items value)
      | first # _ \<Rightarrow> (Some first, sift_down cmp (items[0 := value]) 0))"

lemma length_sift_down_loop [simp]:
  "length (fst (sift_down_loop cmp v xs i)) = length xs"
proof (induction cmp v xs i rule: sift_down_loop.induct)
  case (1 cmp v xs i)
  then show ?case
    by (subst sift_down_loop.simps) (auto simp: Let_def)
qed

lemma length_sift_up_loop [simp]:
  "length (fst (sift_up_loop cmp v xs i)) = length xs"
proof (induction cmp v xs i rule: sift_up_loop.induct)
  case (1 cmp v xs i)
  then show ?case
    by (subst sift_up_loop.simps) (auto simp: Let_def)
qed

lemma length_sift_down [simp]: "length (sift_down cmp xs i) = length xs"
  by (simp add: sift_down_def Let_def split: prod.split) (metis fst_conv length_sift_down_loop)

lemma length_sift_up [simp]: "length (sift_up cmp xs i) = length xs"
  by (simp add: sift_up_def Let_def split: prod.split) (metis fst_conv length_sift_up_loop)

lemma length_heap_pop:
  "items \<noteq> [] \<Longrightarrow> length (snd (heap_pop cmp items)) = length items - 1"
  by (cases items) (auto simp: heap_pop_def Let_def)

text \<open>Draining pops until the array is empty; each pop shortens it by one.\<close>

function drain_sorted :: "'a cmp \<Rightarrow> 'a list \<Rightarrow> 'a list" where
  "drain_sorted cmp items =
     (case heap_pop cmp items of
        (None, _) \<Rightarrow> []
      | (Some x, rest) \<Rightarrow> x # drain_sorted cmp rest)"
  by pat_completeness auto
termination
proof (relation "measure (\<lambda>(c, xs). length xs)", goal_cases)
  case (2 cmp items p y)
  then have "items \<noteq> []"
    by (auto simp: heap_pop_def)
  then show ?case
    using 2 length_heap_pop [of items cmp] by (cases items) (auto dest: sym [of _ "heap_pop cmp items"] sym)
qed simp

declare drain_sorted.simps [simp del]

section \<open>Contents: no operation loses or duplicates an element\<close>

lemma mset_sift_up_loop:
  "i < length xs \<Longrightarrow> sift_up_loop cmp v xs i = (ys, j) \<Longrightarrow>
     j < length xs \<and> mset (ys[j := v]) = mset (xs[i := v])"
proof (induction cmp v xs i arbitrary: ys j rule: sift_up_loop.induct)
  case (1 cmp v xs i)
  show ?case
  proof (cases "0 < i \<and> cmp v (xs ! parent i) < 0")
    case True
    then have step: "sift_up_loop cmp v (xs[i := xs ! parent i]) (parent i) = (ys, j)"
      using "1.prems" by (simp add: sift_up_loop.simps [of cmp v xs i] Let_def)
    have p: "parent i < i" using True by simp
    have "j < length xs \<and> mset (ys[j := v]) = mset ((xs[i := xs ! parent i])[parent i := v])"
      using "1.IH" [OF _ refl _ _ step] True p "1.prems" by simp
    moreover have "mset ((xs[i := xs ! parent i])[parent i := v]) = mset (xs[i := v])"
      using p "1.prems" by (intro mset_swap_hole) auto
    ultimately show ?thesis by simp
  next
    case False
    then show ?thesis
      using "1.prems" by (auto simp: sift_up_loop.simps [of cmp v xs i] Let_def split: if_splits)
  qed
qed

lemma mset_sift_up: "i < length xs \<Longrightarrow> mset (sift_up cmp xs i) = mset xs"
  using mset_sift_up_loop [of i xs cmp "xs ! i"]
  by (cases "sift_up_loop cmp (xs ! i) xs i") (simp add: sift_up_def)

lemma mset_sift_down_loop:
  "i < length xs \<Longrightarrow> sift_down_loop cmp v xs i = (ys, j) \<Longrightarrow>
     j < length xs \<and> mset (ys[j := v]) = mset (xs[i := v])"
proof (induction cmp v xs i arbitrary: ys j rule: sift_down_loop.induct)
  case (1 cmp v xs i)
  let ?c = "smaller_child cmp xs i"
  show ?case
  proof (cases "i * 2 + 1 < length xs \<and> cmp (xs ! ?c) v < 0")
    case True
    then have step: "sift_down_loop cmp v (xs[i := xs ! ?c]) ?c = (ys, j)"
      using "1.prems" by (simp add: sift_down_loop.simps [of cmp v xs i] Let_def)
    have c: "i < ?c" "?c < length xs"
      using smaller_child_cases [of cmp xs i] True by auto
    have "j < length xs \<and> mset (ys[j := v]) = mset ((xs[i := xs ! ?c])[?c := v])"
      using "1.IH" [OF _ refl _ _ step] True c by simp
    moreover have "mset ((xs[i := xs ! ?c])[?c := v]) = mset (xs[i := v])"
      using c by (intro mset_swap_hole) auto
    ultimately show ?thesis by simp
  next
    case False
    then show ?thesis
      using "1.prems" by (auto simp: sift_down_loop.simps [of cmp v xs i] Let_def split: if_splits)
  qed
qed

lemma mset_sift_down: "i < length xs \<Longrightarrow> mset (sift_down cmp xs i) = mset xs"
  using mset_sift_down_loop [of i xs cmp "xs ! i"]
  by (cases "sift_down_loop cmp (xs ! i) xs i") (simp add: sift_down_def)

lemma mset_heapify_from: "i \<le> length xs \<Longrightarrow> mset (heapify_from cmp i xs) = mset xs"
  by (induction i arbitrary: xs) (simp_all add: mset_sift_down)

lemma mset_heap_new: "mset (heap_new cmp xs) = mset xs"
  by (simp add: heap_new_def mset_heapify_from)

lemma mset_heap_push: "mset (heap_push cmp xs v) = add_mset v (mset xs)"
  by (simp add: heap_push_def mset_sift_up)

lemma set_heap_push [simp]: "set (heap_push cmp xs v) = insert v (set xs)"
  by (metis mset_heap_push set_mset_add_mset_insert set_mset_mset)

lemma mset_heap_pop:
  "heap_pop cmp xs = (Some x, ys) \<Longrightarrow> mset xs = add_mset x (mset ys)"
proof -
  assume pop: "heap_pop cmp xs = (Some x, ys)"
  then obtain t where xs: "xs = x # t"
    by (auto simp: heap_pop_def Let_def split: list.splits)
  show ?thesis
  proof (cases "t = []")
    case True
    with pop xs show ?thesis by (auto simp: heap_pop_def)
  next
    case False
    then have b: "butlast xs = x # butlast t" "last xs = last t"
      using xs by simp_all
    have "ys = sift_down cmp (last t # butlast t) 0"
      using pop by (simp add: heap_pop_def Let_def b xs False)
    then have "mset ys = mset (last t # butlast t)"
      by (simp add: mset_sift_down)
    also have "\<dots> = mset t"
      using False append_butlast_last_id [of t]
      by (metis mset_append add_mset_add_single mset.simps union_commute)
    finally show ?thesis by (simp add: xs)
  qed
qed

lemma mset_heap_replace_top:
  "xs \<noteq> [] \<Longrightarrow> heap_replace_top cmp xs v = (Some x, ys) \<Longrightarrow>
     mset xs + {#v#} = add_mset x (mset ys)"
  by (cases xs) (auto simp: heap_replace_top_def mset_sift_down)

section \<open>Order\<close>

text \<open>
  What the heap asks of a comparator: the sign is antisymmetric and \<open>\<le> 0\<close> is
  transitive, a total preorder.
\<close>

locale comparator =
  fixes cmp :: "'a cmp"
  assumes cmp_flip: "cmp a b < 0 \<longleftrightarrow> 0 < cmp b a"
    and cmp_trans: "cmp a b \<le> 0 \<Longrightarrow> cmp b c \<le> 0 \<Longrightarrow> cmp a c \<le> 0"

text \<open>
  \<open>heap_from s\<close>: every element whose parent has index at least \<open>s\<close> is not smaller
  than its parent. \<open>heap_from 0\<close> is the heap property.
\<close>

definition heap_from :: "'a cmp \<Rightarrow> nat \<Rightarrow> 'a list \<Rightarrow> bool" where
  "heap_from cmp s xs \<longleftrightarrow>
     (\<forall>i<length xs. 0 < i \<longrightarrow> s \<le> parent i \<longrightarrow> cmp (xs ! parent i) (xs ! i) \<le> 0)"

abbreviation heap_inv :: "'a cmp \<Rightarrow> 'a list \<Rightarrow> bool" where
  "heap_inv cmp \<equiv> heap_from cmp 0"

lemma heap_from_Nil [simp]: "heap_from cmp s []"
  by (simp add: heap_from_def)

lemma heap_from_half: "length xs \<le> 2 * s + 1 \<Longrightarrow> heap_from cmp s xs"
  by (auto simp: heap_from_def parent_def)

text \<open>The array seen through the hole: the moved value sits at index \<open>h\<close>.\<close>

text \<open>
  Sift-up invariant: only the pair (parent of the hole, hole) may be out of order, and the
  hole's children are above the hole's parent.
\<close>

definition up_ok :: "'a cmp \<Rightarrow> 'a list \<Rightarrow> nat \<Rightarrow> bool" where
  "up_ok cmp A h \<longleftrightarrow>
     (\<forall>i<length A. 0 < i \<longrightarrow> i \<noteq> h \<longrightarrow> cmp (A ! parent i) (A ! i) \<le> 0) \<and>
     (\<forall>i<length A. 0 < i \<longrightarrow> 0 < h \<longrightarrow> parent i = h \<longrightarrow> cmp (A ! parent h) (A ! i) \<le> 0)"

text \<open>
  Sift-down invariant from \<open>s\<close>: only pairs (hole, child) may be out of order, and the
  hole's children are above the hole's parent.
\<close>

definition down_ok :: "'a cmp \<Rightarrow> nat \<Rightarrow> 'a list \<Rightarrow> nat \<Rightarrow> bool" where
  "down_ok cmp s A h \<longleftrightarrow>
     (\<forall>i<length A. 0 < i \<longrightarrow> s \<le> parent i \<longrightarrow> parent i \<noteq> h \<longrightarrow> cmp (A ! parent i) (A ! i) \<le> 0) \<and>
     (\<forall>i<length A. 0 < i \<longrightarrow> s < h \<longrightarrow> s \<le> parent h \<longrightarrow> parent i = h \<longrightarrow>
        cmp (A ! parent h) (A ! i) \<le> 0)"

context comparator
begin

lemma cmp_refl: "cmp a a \<le> 0"
  using cmp_flip [of a a] by linarith

lemma cmp_total: "cmp a b \<le> 0 \<or> cmp b a \<le> 0"
  using cmp_flip [of a b] by linarith

lemma cmp_ge0D: "0 \<le> cmp a b \<Longrightarrow> cmp b a \<le> 0"
  using cmp_flip [of a b] cmp_flip [of b a] by linarith

lemma cmp_lt0D: "cmp a b < 0 \<Longrightarrow> cmp a b \<le> 0"
  by simp

lemma heap_root_min:
  assumes "heap_inv cmp xs" and "i < length xs"
  shows "cmp (xs ! 0) (xs ! i) \<le> 0"
  using assms(2)
proof (induction i rule: less_induct)
  case (less i)
  show ?case
  proof (cases "i = 0")
    case True
    then show ?thesis by (simp add: cmp_refl)
  next
    case False
    then have p: "parent i < i" by simp
    with less have "cmp (xs ! 0) (xs ! parent i) \<le> 0" by simp
    moreover have "cmp (xs ! parent i) (xs ! i) \<le> 0"
      using assms(1) less.prems False by (simp add: heap_from_def)
    ultimately show ?thesis by (rule cmp_trans)
  qed
qed

lemma up_ok_step:
  assumes ok: "up_ok cmp (xs[h := v]) h" and h: "0 < h" "h < length xs"
    and lt: "cmp v (xs ! parent h) < 0"
  shows "up_ok cmp ((xs[h := xs ! parent h])[parent h := v]) (parent h)"
proof -
  let ?A = "xs[h := v]"
  let ?p = "parent h"
  let ?B = "(xs[h := xs ! ?p])[?p := v]"
  have p: "?p < h" "?p < length xs" using h parent_less [of h] by (simp, linarith)
  have ne: "?p \<noteq> h" "h \<noteq> ?p" using p by simp_all
  have A: "?A ! h = v" "?A ! ?p = xs ! ?p" using p h ne by simp_all
  have B: "?B ! h = xs ! ?p" "?B ! ?p = v" "\<And>i. i \<noteq> h \<Longrightarrow> i \<noteq> ?p \<Longrightarrow> ?B ! i = ?A ! i"
    using p h by simp_all
  have ord: "cmp (?A ! parent i) (?A ! i) \<le> 0" if "i < length xs" "0 < i" "i \<noteq> h" for i
    using ok that by (simp add: up_ok_def)
  have child: "cmp (xs ! ?p) (?A ! i) \<le> 0" if "i < length xs" "0 < i" "parent i = h" for i
    using ok that h A by (auto simp: up_ok_def)
  have "cmp (?B ! parent i) (?B ! i) \<le> 0" if i: "i < length xs" "0 < i" "i \<noteq> ?p" for i
  proof (cases "i = h")
    case True
    then show ?thesis using B lt by simp
  next
    case False
    then have Bi: "?B ! i = ?A ! i" using B i by simp
    consider "parent i = h" | "parent i = ?p" | "parent i \<noteq> h" "parent i \<noteq> ?p" by blast
    then show ?thesis
    proof cases
      case 1
      then show ?thesis using child [OF i(1,2)] Bi B by simp
    next
      case 2
      have "cmp (xs ! ?p) (?A ! i) \<le> 0" using ord [OF i(1,2) False] 2 A by simp
      then show ?thesis using 2 B Bi cmp_trans [OF cmp_lt0D [OF lt]] by simp
    next
      case 3
      then show ?thesis using ord [OF i(1,2) False] B Bi by simp
    qed
  qed
  moreover have "cmp (?B ! parent ?p) (?B ! i) \<le> 0"
    if i: "i < length xs" "0 < i" "0 < ?p" "parent i = ?p" for i
  proof -
    have pp: "parent ?p < ?p" using i by simp
    have up: "cmp (?A ! parent ?p) (xs ! ?p) \<le> 0"
      using ord [OF p(2) i(3)] p A by simp
    have Bpp: "?B ! parent ?p = ?A ! parent ?p" using B pp p by simp
    show ?thesis
    proof (cases "i = h")
      case True
      then show ?thesis using up Bpp B by simp
    next
      case False
      have "?B ! i = ?A ! i" using B False i parent_less [of i] by auto
      moreover have "cmp (xs ! ?p) (?A ! i) \<le> 0" using ord [OF i(1,2) False] i A by simp
      ultimately show ?thesis using Bpp cmp_trans [OF up] by simp
    qed
  qed
  ultimately show ?thesis by (simp add: up_ok_def)
qed

lemma up_ok_done:
  assumes "up_ok cmp A h" and "h = 0 \<or> cmp (A ! parent h) (A ! h) \<le> 0"
  shows "heap_inv cmp A"
  using assms by (auto simp: up_ok_def heap_from_def)

lemma sift_up_loop_heap:
  "h < length xs \<Longrightarrow> up_ok cmp (xs[h := v]) h \<Longrightarrow> sift_up_loop cmp v xs h = (ys, j) \<Longrightarrow>
     heap_inv cmp (ys[j := v])"
proof (induction h arbitrary: xs rule: less_induct)
  case (less h)
  show ?case
  proof (cases "0 < h \<and> cmp v (xs ! parent h) < 0")
    case True
    then have step: "sift_up_loop cmp v (xs[h := xs ! parent h]) (parent h) = (ys, j)"
      using less.prems(3) by (simp add: sift_up_loop.simps [of cmp v xs h] Let_def)
    have p: "parent h < h" using True by simp
    show ?thesis
      by (rule less.IH [OF p _ _ step])
        (use less.prems True p up_ok_step [OF less.prems(2) _ less.prems(1)] in auto)
  next
    case False
    then have stop: "ys = xs" "j = h"
      using less.prems(3)
      by (auto simp: sift_up_loop.simps [of cmp v xs h] Let_def split: if_splits)
    have "cmp (xs ! parent h) v \<le> 0" if "0 < h"
      using False that cmp_ge0D by simp
    then have "h = 0 \<or> cmp (xs[h := v] ! parent h) (xs[h := v] ! h) \<le> 0"
      using less.prems(1) parent_less [of h] by (cases "h = 0") auto
    then show ?thesis using up_ok_done [OF less.prems(2)] stop by simp
  qed
qed

lemma heap_push_inv:
  assumes "heap_inv cmp xs"
  shows "heap_inv cmp (heap_push cmp xs v)"
proof -
  let ?ys = "xs @ [v]"
  obtain zs j where loop: "sift_up_loop cmp v ?ys (length xs) = (zs, j)"
    by (cases "sift_up_loop cmp v ?ys (length xs)")
  have "up_ok cmp ?ys (length xs)"
  proof -
    have "cmp (?ys ! parent i) (?ys ! i) \<le> 0" if "i < length xs" "0 < i" for i
    proof -
      have "parent i < length xs" using that parent_less [of i] by linarith
      then show ?thesis using assms that by (simp add: heap_from_def nth_append)
    qed
    moreover have "parent i < length xs" if "i < Suc (length xs)" "0 < i" for i
      using that parent_less [of i] by linarith
    ultimately show ?thesis by (fastforce simp: up_ok_def less_Suc_eq)
  qed
  then have "heap_inv cmp (zs[j := v])"
    using loop by (intro sift_up_loop_heap [of "length xs" ?ys v]) simp_all
  then show ?thesis
    using loop by (simp add: heap_push_def sift_up_def nth_append)
qed

lemma smaller_child_min:
  assumes "0 < i" "i < length xs" "parent i = h"
  shows "cmp (xs ! smaller_child cmp xs h) (xs ! i) \<le> 0"
proof -
  have "i = h * 2 + 1 \<or> i = h * 2 + 2"
    using assms(1,3) by (auto simp: parent_def)
  then show ?thesis
    using assms(2) cmp_refl cmp_ge0D cmp_lt0D
    by (fastforce simp: smaller_child_def Let_def)
qed

lemma down_ok_step:
  assumes ok: "down_ok cmp s (xs[h := v]) h" and h: "h * 2 + 1 < length xs" "s \<le> h"
    and lt: "cmp (xs ! smaller_child cmp xs h) v < 0"
  shows "down_ok cmp s ((xs[h := xs ! smaller_child cmp xs h])[smaller_child cmp xs h := v])
           (smaller_child cmp xs h)"
proof -
  let ?c = "smaller_child cmp xs h"
  let ?A = "xs[h := v]"
  let ?B = "(xs[h := xs ! ?c])[?c := v]"
  have c: "h < ?c" "?c < length xs" "parent ?c = h" "0 < ?c"
    using smaller_child_cases [of cmp xs h] h by (auto simp: parent_def)
  have ne: "?c \<noteq> h" "h \<noteq> ?c" using c by simp_all
  have A: "?A ! h = v" "?A ! ?c = xs ! ?c" using c h ne by simp_all
  have B: "?B ! h = xs ! ?c" "?B ! ?c = v" "\<And>i. i \<noteq> h \<Longrightarrow> i \<noteq> ?c \<Longrightarrow> ?B ! i = ?A ! i"
    using c h ne by simp_all
  have ord: "cmp (?A ! parent i) (?A ! i) \<le> 0"
    if "i < length xs" "0 < i" "s \<le> parent i" "parent i \<noteq> h" for i
    using ok that by (simp add: down_ok_def)
  have up: "cmp (?A ! parent h) (?A ! i) \<le> 0"
    if "i < length xs" "0 < i" "s < h" "s \<le> parent h" "parent i = h" for i
    using ok that by (simp add: down_ok_def)
  have "cmp (?B ! parent i) (?B ! i) \<le> 0"
    if i: "i < length xs" "0 < i" "s \<le> parent i" "parent i \<noteq> ?c" for i
  proof (cases "parent i = h")
    case True
    then have "cmp (xs ! ?c) (xs ! i) \<le> 0" using smaller_child_min i by simp
    moreover have "i \<noteq> h" using True i parent_less [of i] by auto
    ultimately show ?thesis using True lt B A by (cases "i = ?c") auto
  next
    case False
    then have "cmp (?A ! parent i) (?A ! i) \<le> 0" using ord i by simp
    moreover have "cmp (?A ! parent h) (xs ! ?c) \<le> 0" if "i = h"
      using up [of ?c] that i c A by (metis parent_less le_less_trans)
    moreover have "?B ! parent i = ?A ! parent i" using B False i by simp
    moreover have "i \<noteq> ?c" using False c by auto
    ultimately show ?thesis using B by (cases "i = h") auto
  qed
  moreover have "cmp (?B ! parent ?c) (?B ! i) \<le> 0"
    if i: "i < length xs" "0 < i" "parent i = ?c" for i
  proof -
    have "?c < i" using parent_less [of i] i by simp
    then have "?B ! i = ?A ! i" using B c by simp
    moreover have "cmp (?A ! ?c) (?A ! i) \<le> 0" using ord [of i] i ne h c by simp
    ultimately show ?thesis using B A c by simp
  qed
  ultimately show ?thesis unfolding down_ok_def length_list_update by blast
qed

lemma down_ok_done:
  assumes ok: "down_ok cmp s (xs[h := v]) h" and h: "h < length xs"
    and stop: "length xs \<le> h * 2 + 1 \<or> cmp v (xs ! smaller_child cmp xs h) \<le> 0"
  shows "heap_from cmp s (xs[h := v])"
proof -
  have "cmp (xs[h := v] ! parent i) (xs[h := v] ! i) \<le> 0"
    if i: "i < length xs" "0 < i" "s \<le> parent i" for i
  proof (cases "parent i = h")
    case True
    have ih: "i \<noteq> h" "h * 2 + 1 \<le> i"
      using True i parent_less [of i] by (auto simp: parent_def)
    with stop i have "cmp v (xs ! smaller_child cmp xs h) \<le> 0" by simp
    then have "cmp v (xs ! i) \<le> 0"
      by (rule cmp_trans [OF _ smaller_child_min [OF i(2,1) True]])
    then show ?thesis using True ih h by simp
  next
    case False
    then show ?thesis using ok i by (simp add: down_ok_def)
  qed
  then show ?thesis by (simp add: heap_from_def)
qed

lemma sift_down_loop_heap:
  "h < length xs \<Longrightarrow> s \<le> h \<Longrightarrow> down_ok cmp s (xs[h := v]) h \<Longrightarrow>
     sift_down_loop cmp v xs h = (ys, j) \<Longrightarrow> heap_from cmp s (ys[j := v])"
proof (induction "length xs - h" arbitrary: xs h rule: less_induct)
  case less
  let ?c = "smaller_child cmp xs h"
  show ?case
  proof (cases "h * 2 + 1 < length xs \<and> cmp (xs ! ?c) v < 0")
    case True
    then have step: "sift_down_loop cmp v (xs[h := xs ! ?c]) ?c = (ys, j)"
      using less.prems by (simp add: sift_down_loop.simps [of cmp v xs h] Let_def)
    have c: "h < ?c" "?c < length xs"
      using smaller_child_cases [of cmp xs h] True by auto
    have ok: "down_ok cmp s ((xs[h := xs ! ?c])[?c := v]) ?c"
      using down_ok_step less.prems True by blast
    show ?thesis
      by (rule less.hyps [OF _ _ _ ok step]) (use c less.prems in auto)
  next
    case False
    then have "ys = xs" "j = h"
      using less.prems
      by (auto simp: sift_down_loop.simps [of cmp v xs h] Let_def split: if_splits)
    moreover have "length xs \<le> h * 2 + 1 \<or> cmp v (xs ! ?c) \<le> 0"
      using False cmp_ge0D by force
    ultimately show ?thesis using down_ok_done less.prems by blast
  qed
qed

lemma sift_down_heap:
  assumes "s < length xs" and "heap_from cmp (Suc s) xs"
  shows "heap_from cmp s (sift_down cmp xs s)"
proof -
  obtain ys j where loop: "sift_down_loop cmp (xs ! s) xs s = (ys, j)"
    by (cases "sift_down_loop cmp (xs ! s) xs s")
  have "down_ok cmp s (xs[s := xs ! s]) s"
    using assms(2) by (auto simp: down_ok_def heap_from_def)
  then have "heap_from cmp s (ys[j := xs ! s])"
    using sift_down_loop_heap [OF assms(1) _ _ loop] by simp
  then show ?thesis using loop by (simp add: sift_down_def)
qed

lemma heapify_from_heap:
  "i \<le> length xs \<Longrightarrow> heap_from cmp i xs \<Longrightarrow> heap_inv cmp (heapify_from cmp i xs)"
  by (induction i arbitrary: xs) (simp_all add: sift_down_heap)

lemma heap_new_inv: "heap_inv cmp (heap_new cmp xs)"
  unfolding heap_new_def by (auto intro!: heapify_from_heap heap_from_half [of xs "length xs div 2"])

lemma heap_from_tail_cong:
  assumes "heap_inv cmp xs" and "length ys \<le> length xs"
    and "\<And>i. 0 < i \<Longrightarrow> i < length ys \<Longrightarrow> ys ! i = xs ! i"
  shows "heap_from cmp (Suc 0) ys"
  unfolding heap_from_def
proof (intro allI impI)
  fix i assume i: "i < length ys" "0 < i" "Suc 0 \<le> parent i"
  then have "parent i < length ys" using parent_less [of i] by linarith
  then show "cmp (ys ! parent i) (ys ! i) \<le> 0"
    using assms i by (simp add: heap_from_def)
qed

lemma heap_pop_inv:
  assumes "heap_inv cmp xs"
  shows "heap_inv cmp (snd (heap_pop cmp xs))"
proof (cases "length xs \<le> 1")
  case True
  then show ?thesis by (cases xs) (auto simp: heap_pop_def)
next
  case False
  let ?r = "(butlast xs)[0 := last xs]"
  have "heap_from cmp (Suc 0) ?r"
    by (rule heap_from_tail_cong [OF assms]) (simp_all add: nth_butlast)
  then have "heap_inv cmp (sift_down cmp ?r 0)"
    using False by (intro sift_down_heap) simp_all
  then show ?thesis
    using False by (cases xs) (auto simp: heap_pop_def Let_def)
qed

lemma heap_replace_top_inv:
  assumes "heap_inv cmp xs"
  shows "heap_inv cmp (snd (heap_replace_top cmp xs v))"
proof (cases xs)
  case Nil
  then show ?thesis using assms heap_push_inv by (simp add: heap_replace_top_def)
next
  case (Cons a t)
  have "heap_from cmp (Suc 0) (xs[0 := v])"
    by (rule heap_from_tail_cong [OF assms]) simp_all
  then have "heap_inv cmp (sift_down cmp (xs[0 := v]) 0)"
    using Cons by (intro sift_down_heap) simp_all
  then show ?thesis using Cons by (simp add: heap_replace_top_def)
qed

lemma heap_peek_min:
  "heap_inv cmp xs \<Longrightarrow> heap_peek xs = Some x \<Longrightarrow> y \<in> set xs \<Longrightarrow> cmp x y \<le> 0"
  using heap_root_min [of xs] by (auto simp: heap_peek_def in_set_conv_nth split: list.splits)

lemma heap_pop_min:
  "heap_inv cmp xs \<Longrightarrow> heap_pop cmp xs = (Some x, ys) \<Longrightarrow> y \<in> set xs \<Longrightarrow> cmp x y \<le> 0"
  by (rule heap_peek_min) (auto simp: heap_peek_def heap_pop_def Let_def split: list.splits)

lemma drain_sorted_correct:
  "heap_inv cmp xs \<Longrightarrow>
     mset (drain_sorted cmp xs) = mset xs \<and>
     sorted_wrt (\<lambda>a b. cmp a b \<le> 0) (drain_sorted cmp xs)"
proof (induction "length xs" arbitrary: xs rule: less_induct)
  case less
  show ?case
  proof (cases "heap_pop cmp xs")
    case (Pair p rest)
    show ?thesis
    proof (cases p)
      case None
      then have "xs = []"
        using Pair by (auto simp: heap_pop_def Let_def split: list.splits)
      then show ?thesis by (simp add: drain_sorted.simps [of cmp "[]"] heap_pop_def)
    next
      case (Some x)
      then have pop: "heap_pop cmp xs = (Some x, rest)" using Pair by simp
      then have step: "drain_sorted cmp xs = x # drain_sorted cmp rest"
        by (simp add: drain_sorted.simps [of cmp xs])
      have m: "mset xs = add_mset x (mset rest)" using pop by (rule mset_heap_pop)
      then have "length rest < length xs" by (metis lessI size_add_mset size_mset)
      moreover have "heap_inv cmp rest" using heap_pop_inv [OF less.prems] pop by simp
      ultimately have IH: "mset (drain_sorted cmp rest) = mset rest"
          "sorted_wrt (\<lambda>a b. cmp a b \<le> 0) (drain_sorted cmp rest)"
        using less.hyps by blast+
      have "set (drain_sorted cmp rest) \<subseteq> set xs"
        using IH(1) m by (metis mset_eq_setD set_mset_mset set_mset_add_mset_insert subset_insertI)
      then have "\<forall>y\<in>set (drain_sorted cmp rest). cmp x y \<le> 0"
        using heap_pop_min [OF less.prems pop] by blast
      then show ?thesis using step IH m by simp
    qed
  qed
qed

end

section \<open>Properties\<close>

text \<open>
  \<open>BinaryHeap\<close>: building a heap from any array (Floyd), and then pushing any values
  and draining it, gives exactly the given values, in the comparator's order.
\<close>

theorem heap_sort_correct:
  assumes "comparator cmp"
  shows "mset (drain_sorted cmp (fold (\<lambda>v h. heap_push cmp h v) vs (heap_new cmp xs))) = mset (xs @ vs) \<and>
    sorted_wrt (\<lambda>a b. cmp a b \<le> 0)
      (drain_sorted cmp (fold (\<lambda>v h. heap_push cmp h v) vs (heap_new cmp xs)))"
proof -
  have "heap_inv cmp (fold (\<lambda>v h. heap_push cmp h v) vs h)" if "heap_inv cmp h" for h
    using that by (induction vs arbitrary: h) (simp_all add: comparator.heap_push_inv [OF assms])
  moreover have "mset (fold (\<lambda>v h. heap_push cmp h v) vs h) = mset h + mset vs" for h
    by (induction vs arbitrary: h) (simp_all add: mset_heap_push)
  ultimately show ?thesis
    using comparator.heap_new_inv [OF assms] comparator.drain_sorted_correct [OF assms]
    by (simp add: mset_heap_new)
qed

theorem heap_sort_correct_witness:
  "mset (drain_sorted (\<lambda>a b. a - b) (fold (\<lambda>v h. heap_push (\<lambda>a b. a - b) h v) [2] (heap_new (\<lambda>a b. a - b) [3, 1 :: rat]))) = mset [3, 1, 2] \<and>
   sorted_wrt (\<lambda>a b. a - b \<le> 0)
     (drain_sorted (\<lambda>a b. a - b) (fold (\<lambda>v h. heap_push (\<lambda>a b. a - b) h v) [2] (heap_new (\<lambda>a b. a - b) [3, 1 :: rat])))"
proof -
  have "comparator (\<lambda>a b :: rat. a - b)" by unfold_locales auto
  then show ?thesis using heap_sort_correct [of "\<lambda>a b :: rat. a - b" "[2]" "[3, 1]"] by simp
qed

end
