(* ===== verification/PQueue.thy ===== *)
theory PQueue
  imports Heap
begin

text \<open>
  The stable priority queue of \<open>binary-heap.ts\<close> over the heap of theory \<open>Heap\<close>, its
  contract as the locale \<open>stable_queue\<close> (a list of values with priorities, new values
  after every equal or smaller priority) and the refinement proof.
\<close>

section \<open>Priority keys\<close>

text \<open>The order of the comparator in \<open>PriorityQueue\<close>: priority, then sequence number.\<close>

datatype prio_key = PKey (pk_prio: rat) (pk_seq: nat)

instantiation prio_key :: linorder
begin

definition less_eq_prio_key :: "prio_key \<Rightarrow> prio_key \<Rightarrow> bool" where
  "less_eq_prio_key a b \<longleftrightarrow> pk_prio a < pk_prio b \<or> pk_prio a = pk_prio b \<and> pk_seq a \<le> pk_seq b"

definition less_prio_key :: "prio_key \<Rightarrow> prio_key \<Rightarrow> bool" where
  "less_prio_key a b \<longleftrightarrow> pk_prio a < pk_prio b \<or> pk_prio a = pk_prio b \<and> pk_seq a < pk_seq b"

instance
  by standard (auto simp: less_eq_prio_key_def less_prio_key_def prio_key.expand)

end

section \<open>The queue\<close>

record 'a pentry =
  pe_value :: 'a
  pe_priority :: rat
  pe_sequence :: nat

record 'a pqueue =
  pq_heap :: "'a pentry list"
  pq_sequence :: nat

definition pq_cmp :: "'a pentry cmp" where
  "pq_cmp a b =
     (if pe_priority a \<noteq> pe_priority b then pe_priority a - pe_priority b
      else of_nat (pe_sequence a) - of_nat (pe_sequence b))"

definition pq_empty :: "'a pqueue" where
  "pq_empty = \<lparr>pq_heap = [], pq_sequence = 0\<rparr>"

definition pq_size :: "'a pqueue \<Rightarrow> nat" where
  "pq_size q = length (pq_heap q)"

definition pq_is_empty :: "'a pqueue \<Rightarrow> bool" where
  "pq_is_empty q \<longleftrightarrow> pq_heap q = []"

definition pq_enqueue :: "'a \<Rightarrow> rat \<Rightarrow> 'a pqueue \<Rightarrow> 'a pqueue" where
  "pq_enqueue v p q =
     (let s = pq_sequence q + 1 in
      \<lparr>pq_heap = heap_push pq_cmp (pq_heap q)
                  \<lparr>pe_value = v, pe_priority = p, pe_sequence = s\<rparr>,
       pq_sequence = s\<rparr>)"

definition pq_dequeue :: "'a pqueue \<Rightarrow> 'a option \<times> 'a pqueue" where
  "pq_dequeue q =
     (let (e, h) = heap_pop pq_cmp (pq_heap q)
      in (map_option pe_value e, q\<lparr>pq_heap := h\<rparr>))"

definition pq_peek :: "'a pqueue \<Rightarrow> 'a option" where
  "pq_peek q = map_option pe_value (heap_peek (pq_heap q))"

fun pq_dequeue_batch :: "nat \<Rightarrow> 'a pqueue \<Rightarrow> 'a list \<times> 'a pqueue" where
  "pq_dequeue_batch 0 q = ([], q)"
| "pq_dequeue_batch (Suc n) q =
     (case pq_dequeue q of
        (None, q') \<Rightarrow> ([], q')
      | (Some v, q') \<Rightarrow> let (vs, q'') = pq_dequeue_batch n q' in (v # vs, q''))"

definition pq_clear :: "'a pqueue \<Rightarrow> 'a pqueue" where
  "pq_clear q = q\<lparr>pq_heap := [], pq_sequence := 0\<rparr>"

section \<open>The contract of a stable priority queue\<close>

text \<open>A new value goes after every value of smaller or equal priority.\<close>

definition insert_after :: "'a \<times> rat \<Rightarrow> ('a \<times> rat) list \<Rightarrow> ('a \<times> rat) list" where
  "insert_after e xs =
     takeWhile (\<lambda>x. snd x \<le> snd e) xs @ e # dropWhile (\<lambda>x. snd x \<le> snd e) xs"

lemma insert_after_sorted_last:
  "\<forall>x\<in>set xs. snd x \<le> snd e \<Longrightarrow> insert_after e xs = xs @ [e]"
  by (simp add: insert_after_def takeWhile_eq_all_conv [THEN iffD2]
        dropWhile_eq_Nil_conv [THEN iffD2])

lemma insort_key_insert_after:
  "sorted (map snd xs) \<Longrightarrow> sorted (map snd (insert_after e xs))"
  unfolding insert_after_def
  by (induction xs) (auto dest: set_takeWhileD set_dropWhileD)

locale stable_queue =
  fixes empty :: 'q
    and enqueue :: "'a \<Rightarrow> rat \<Rightarrow> 'q \<Rightarrow> 'q"
    and dequeue :: "'q \<Rightarrow> 'a option \<times> 'q"
    and contents :: "'q \<Rightarrow> ('a \<times> rat) list"
    and invar :: "'q \<Rightarrow> bool"
  assumes invar_empty: "invar empty"
    and contents_empty: "contents empty = []"
    and invar_enqueue: "invar q \<Longrightarrow> invar (enqueue v p q)"
    and contents_enqueue: "invar q \<Longrightarrow> contents (enqueue v p q) = insert_after (v, p) (contents q)"
    and invar_dequeue: "invar q \<Longrightarrow> invar (snd (dequeue q))"
    and dequeue_none: "invar q \<Longrightarrow> contents q = [] \<Longrightarrow> fst (dequeue q) = None"
    and dequeue_some: "invar q \<Longrightarrow> contents q = (v, p) # xs \<Longrightarrow> fst (dequeue q) = Some v"
    and contents_dequeue: "invar q \<Longrightarrow> contents (snd (dequeue q)) = tl (contents q)"
begin

lemma dequeue_eq_None: "invar q \<Longrightarrow> fst (dequeue q) = None \<longleftrightarrow> contents q = []"
  using dequeue_none dequeue_some by (cases "contents q") fastforce+

lemma mset_enqueue: "invar q \<Longrightarrow> mset (contents (enqueue v p q)) = add_mset (v, p) (mset (contents q))"
  by (simp add: contents_enqueue insert_after_def)
    (metis mset_append takeWhile_dropWhile_id)

lemma sorted_enqueue:
  "invar q \<Longrightarrow> sorted (map snd (contents q)) \<Longrightarrow> sorted (map snd (contents (enqueue v p q)))"
  by (simp add: contents_enqueue insort_key_insert_after)

lemma fifo_same_priority:
  assumes "invar q" and "\<forall>x\<in>set (contents q). snd x \<le> p"
  shows "contents (enqueue v p q) = contents q @ [(v, p)]"
  using assms by (simp add: contents_enqueue insert_after_sorted_last)

text \<open>Enqueueing a list of values into an empty queue gives the stable sort by priority.\<close>

definition enqueue_all :: "('a \<times> rat) list \<Rightarrow> 'q" where
  "enqueue_all xs = fold (\<lambda>(v, p). enqueue v p) xs empty"

lemma enqueue_all_snoc: "enqueue_all (xs @ [(v, p)]) = enqueue v p (enqueue_all xs)"
  by (simp add: enqueue_all_def)

lemma invar_enqueue_all: "invar (enqueue_all xs)"
proof (induction xs rule: rev_induct)
  case Nil
  then show ?case by (simp add: enqueue_all_def invar_empty)
next
  case (snoc x xs)
  then show ?case by (cases x) (simp add: enqueue_all_snoc invar_enqueue)
qed

lemma contents_enqueue_all: "contents (enqueue_all xs) = sort_key snd xs"
proof (induction xs rule: rev_induct)
  case Nil
  then show ?case by (simp add: enqueue_all_def contents_empty)
next
  case (snoc x xs)
  obtain v p where x: "x = (v, p)" by (cases x)
  let ?s = "sort_key snd xs"
  have "contents (enqueue_all (xs @ [x])) = insert_after x ?s"
    using snoc invar_enqueue_all by (simp add: x enqueue_all_snoc contents_enqueue)
  then show ?case by (simp only: sort_key_snoc insert_after_def)
qed

end

section \<open>Refinement: the heap-based queue is a stable queue\<close>

text \<open>The abstract contents: the heap's entries in key order, with their priorities.\<close>

definition pe_key :: "'a pentry \<Rightarrow> prio_key" where
  "pe_key e = PKey (pe_priority e) (pe_sequence e)"

definition pq_entries :: "'a pqueue \<Rightarrow> 'a pentry list" where
  "pq_entries q = sort_key pe_key (pq_heap q)"

definition pe_pair :: "'a pentry \<Rightarrow> 'a \<times> rat" where
  "pe_pair e = (pe_value e, pe_priority e)"

definition pq_contents :: "'a pqueue \<Rightarrow> ('a \<times> rat) list" where
  "pq_contents q = map pe_pair (pq_entries q)"

definition pq_invar :: "'a pqueue \<Rightarrow> bool" where
  "pq_invar q \<longleftrightarrow>
     heap_inv pq_cmp (pq_heap q) \<and> distinct (map pe_sequence (pq_heap q)) \<and>
     (\<forall>e\<in>set (pq_heap q). pe_sequence e \<le> pq_sequence q)"

lemma pq_cmp_key: "pq_cmp a b \<le> 0 \<longleftrightarrow> pe_key a \<le> pe_key b"
  by (auto simp: pq_cmp_def pe_key_def less_eq_prio_key_def)

lemma pq_cmp_key_less: "pq_cmp a b < 0 \<longleftrightarrow> pe_key a < pe_key b"
  by (auto simp: pq_cmp_def pe_key_def less_prio_key_def)

lemma pq_cmp_key_greater: "0 < pq_cmp a b \<longleftrightarrow> pe_key b < pe_key a"
  by (auto simp: pq_cmp_def pe_key_def less_prio_key_def)

interpretation pqc: comparator pq_cmp
  by unfold_locales (auto simp: pq_cmp_key_less pq_cmp_key_greater pq_cmp_key)

text \<open>A list sorted by a key that is injective on it is determined by its multiset.\<close>

lemma sorted_key_unique:
  assumes m: "mset xs = mset ys" and inj: "inj_on f (set xs)"
    and s: "sorted (map f xs)" "sorted (map f ys)"
  shows "xs = ys"
proof -
  have "map f xs = map f ys"
    using s m by (metis mset_map properties_for_sort)
  moreover have "set xs = set ys" using m by (rule mset_eq_setD)
  ultimately show ?thesis using inj by (auto intro: map_inj_on)
qed

lemma pe_key_inj:
  "distinct (map pe_sequence es) \<Longrightarrow> inj_on pe_key (set es)"
  by (auto simp: distinct_map inj_on_def pe_key_def)

lemma pq_entries_unique:
  assumes "pq_invar q" and "mset es = mset (pq_heap q)" and "sorted (map pe_key es)"
  shows "pq_entries q = es"
  unfolding pq_entries_def
proof (rule sorted_key_unique [of _ _ pe_key])
  show "inj_on pe_key (set (sort_key pe_key (pq_heap q)))"
    using assms(1) pe_key_inj by (auto simp: pq_invar_def)
qed (use assms in simp_all)

lemma pq_invar_empty: "pq_invar pq_empty"
  by (simp add: pq_invar_def pq_empty_def)

lemma pq_invar_enqueue:
  assumes "pq_invar q"
  shows "pq_invar (pq_enqueue v p q)"
proof -
  let ?e = "\<lparr>pe_value = v, pe_priority = p, pe_sequence = pq_sequence q + 1\<rparr>"
  let ?h = "heap_push pq_cmp (pq_heap q) ?e"
  have m: "mset ?h = add_mset ?e (mset (pq_heap q))" by (rule mset_heap_push)
  then have st: "set ?h = insert ?e (set (pq_heap q))"
    by (metis set_mset_add_mset_insert set_mset_mset)
  have "mset (map pe_sequence ?h) = mset (map pe_sequence (?e # pq_heap q))"
    using m by simp
  moreover have "distinct (map pe_sequence (?e # pq_heap q))"
    using assms by (fastforce simp: pq_invar_def)
  ultimately have "distinct (map pe_sequence ?h)"
    by (metis mset_eq_imp_distinct_iff)
  then show ?thesis
    using assms pqc.heap_push_inv st by (fastforce simp: pq_invar_def pq_enqueue_def Let_def)
qed

lemma sorted_map_insert:
  "sorted (map f (xs @ ys)) \<Longrightarrow> (\<And>x. x \<in> set xs \<Longrightarrow> f x \<le> f e) \<Longrightarrow>
     (\<And>y. y \<in> set ys \<Longrightarrow> f e \<le> f y) \<Longrightarrow> sorted (map f (xs @ e # ys))"
  by (auto simp: sorted_append)

lemma takeWhile_prio_key:
  assumes "pq_invar q"
  shows "sorted (map pe_key
    (takeWhile (\<lambda>e. pe_priority e \<le> p) (pq_entries q) @
     \<lparr>pe_value = v, pe_priority = p, pe_sequence = pq_sequence q + 1\<rparr> #
     dropWhile (\<lambda>e. pe_priority e \<le> p) (pq_entries q)))"
proof -
  let ?P = "\<lambda>e. pe_priority e \<le> p"
  let ?es = "pq_entries q"
  let ?e = "\<lparr>pe_value = v, pe_priority = p, pe_sequence = pq_sequence q + 1\<rparr>"
  have srt: "sorted (map pe_key (takeWhile ?P ?es @ dropWhile ?P ?es))"
    by (simp add: pq_entries_def)
  have st: "set ?es = set (pq_heap q)" by (simp add: pq_entries_def)
  have lo: "pe_key x \<le> pe_key ?e" if "x \<in> set (takeWhile ?P ?es)" for x
    using that assms st set_takeWhileD [OF that]
    by (fastforce simp: pe_key_def less_eq_prio_key_def pq_invar_def)
  have hi: "pe_key ?e \<le> pe_key x" if x: "x \<in> set (dropWhile ?P ?es)" for x
  proof (cases "dropWhile ?P ?es")
    case Nil
    then show ?thesis using x by (simp only: list.set empty_iff)
  next
    case (Cons d ds)
    then have "\<not> ?P d" by (simp add: dropWhile_eq_Cons_conv)
    then have "pe_key ?e < pe_key d" by (simp add: pe_key_def less_prio_key_def)
    also have "pe_key d \<le> pe_key x"
      using srt x Cons by (auto simp: sorted_append)
    finally show ?thesis by simp
  qed
  show ?thesis by (rule sorted_map_insert [OF srt]) (use lo hi in blast)+
qed

lemma map_pair_takeWhile:
  "map pe_pair (takeWhile (\<lambda>e. pe_priority e \<le> p) es) = takeWhile (\<lambda>x. snd x \<le> p) (map pe_pair es)"
  "map pe_pair (dropWhile (\<lambda>e. pe_priority e \<le> p) es) = dropWhile (\<lambda>x. snd x \<le> p) (map pe_pair es)"
  by (simp_all add: takeWhile_map dropWhile_map comp_def pe_pair_def)

lemma pq_contents_enqueue:
  assumes "pq_invar q"
  shows "pq_contents (pq_enqueue v p q) = insert_after (v, p) (pq_contents q)"
proof -
  let ?P = "\<lambda>e. pe_priority e \<le> p"
  let ?es = "pq_entries q"
  let ?e = "\<lparr>pe_value = v, pe_priority = p, pe_sequence = pq_sequence q + 1\<rparr>"
  let ?new = "takeWhile ?P ?es @ ?e # dropWhile ?P ?es"
  have "mset ?new = add_mset ?e (mset ?es)"
    by simp (metis mset_append takeWhile_dropWhile_id)
  also have "\<dots> = mset (pq_heap (pq_enqueue v p q))"
    by (simp add: pq_entries_def pq_enqueue_def Let_def mset_heap_push)
  finally have "pq_entries (pq_enqueue v p q) = ?new"
    using pq_entries_unique [OF pq_invar_enqueue [OF assms]] takeWhile_prio_key [OF assms] by blast
  then show ?thesis
    by (simp add: pq_contents_def insert_after_def map_pair_takeWhile) (simp add: pe_pair_def)
qed

lemma pq_dequeue_none:
  "pq_contents q = [] \<Longrightarrow> pq_dequeue q = (None, q)"
proof -
  assume "pq_contents q = []"
  then have "mset (pq_heap q) = {#}"
    by (metis mset_sort mset_zero_iff pq_contents_def pq_entries_def map_is_Nil_conv)
  then show ?thesis by (simp add: pq_dequeue_def heap_pop_def)
qed

lemma pq_dequeue_step:
  assumes inv: "pq_invar q" and es: "pq_entries q = e # es"
  shows "fst (pq_dequeue q) = Some (pe_value e)" "pq_invar (snd (pq_dequeue q))"
    "pq_entries (snd (pq_dequeue q)) = es"
proof -
  have st: "mset (pq_heap q) = add_mset e (mset es)"
    by (metis es mset.simps(2) mset_sort pq_entries_def)
  have srt: "sorted (map pe_key (e # es))"
    using es by (metis pq_entries_def sorted_sort_key)
  obtain x h where pop: "heap_pop pq_cmp (pq_heap q) = (Some x, h)"
    using st by (cases "pq_heap q") (auto simp: heap_pop_def Let_def)
  have m: "mset (pq_heap q) = add_mset x (mset h)" using pop by (rule mset_heap_pop)
  have heap: "heap_inv pq_cmp (pq_heap q)" and dist: "distinct (map pe_sequence (pq_heap q))"
    using inv by (simp_all add: pq_invar_def)
  have mem: "e \<in> set (pq_heap q)" "x \<in> set (pq_heap q)"
    using st m by (metis set_mset_mset union_single_eq_member)+
  have "pe_key x \<le> pe_key e"
    using pqc.heap_pop_min [OF heap pop mem(1)] by (simp add: pq_cmp_key)
  moreover have "pe_key e \<le> pe_key x"
  proof -
    have "set (e # es) = set (pq_heap q)" using st by (metis mset.simps(2) mset_eq_setD)
    then show ?thesis using srt mem by auto
  qed
  ultimately have "x = e"
    using inj_onD [OF pe_key_inj [OF dist]] mem by (simp add: order_antisym)
  then have mh: "mset h = mset es" using m st by simp
  have dq: "pq_dequeue q = (Some (pe_value e), q\<lparr>pq_heap := h\<rparr>)"
    using pop \<open>x = e\<close> by (simp add: pq_dequeue_def)
  have "distinct (map pe_sequence h)"
  proof -
    have "mset (map pe_sequence (x # h)) = mset (map pe_sequence (pq_heap q))"
      using m by simp
    then have "distinct (map pe_sequence (x # h))" using dist by (metis mset_eq_imp_distinct_iff)
    then show ?thesis by simp
  qed
  moreover have "set h \<subseteq> set (pq_heap q)"
    using m by (metis set_mset_add_mset_insert set_mset_mset subset_insertI)
  moreover have "heap_inv pq_cmp h"
    using pqc.heap_pop_inv [OF heap] pop by simp
  ultimately have inv': "pq_invar (q\<lparr>pq_heap := h\<rparr>)"
    using inv by (auto simp: pq_invar_def)
  then show "fst (pq_dequeue q) = Some (pe_value e)" "pq_invar (snd (pq_dequeue q))"
    "pq_entries (snd (pq_dequeue q)) = es"
    using dq pq_entries_unique [OF inv', of es] mh srt by simp_all
qed

interpretation pq: stable_queue pq_empty pq_enqueue pq_dequeue pq_contents pq_invar
proof
  show "pq_invar pq_empty" by (rule pq_invar_empty)
  show "pq_contents pq_empty = []"
    by (simp add: pq_contents_def pq_entries_def pq_empty_def)
  show "\<And>q v p. pq_invar q \<Longrightarrow> pq_invar (pq_enqueue v p q)" by (rule pq_invar_enqueue)
  show "\<And>q v p. pq_invar q \<Longrightarrow>
      pq_contents (pq_enqueue v p q) = insert_after (v, p) (pq_contents q)"
    by (rule pq_contents_enqueue)
  fix q :: "'a pqueue" assume inv: "pq_invar q"
  show "fst (pq_dequeue q) = None" if "pq_contents q = []"
    using pq_dequeue_none [OF that] by simp
  show "fst (pq_dequeue q) = Some v" if "pq_contents q = (v, p) # xs" for v p xs
    using that pq_dequeue_step [OF inv] by (auto simp: pq_contents_def pe_pair_def)
  show "pq_invar (snd (pq_dequeue q))"
    using inv pq_dequeue_none [of q] pq_dequeue_step(2) [OF inv]
    by (cases "pq_entries q") (auto simp: pq_contents_def)
  show "pq_contents (snd (pq_dequeue q)) = tl (pq_contents q)"
    using inv pq_dequeue_none [of q] pq_dequeue_step(3) [OF inv]
    by (cases "pq_entries q") (auto simp: pq_contents_def)
qed

lemma pq_dequeue_batch_contents:
  "pq_invar q \<Longrightarrow> fst (pq_dequeue_batch n q) = map fst (take n (pq_contents q)) \<and>
     pq_invar (snd (pq_dequeue_batch n q)) \<and>
     pq_contents (snd (pq_dequeue_batch n q)) = drop n (pq_contents q)"
proof (induction n arbitrary: q)
  case (Suc n)
  show ?case
  proof (cases "pq_contents q")
    case Nil
    then show ?thesis using Suc.prems by (simp add: pq_dequeue_none)
  next
    case (Cons x xs)
    obtain v p where x: "x = (v, p)" by (cases x)
    obtain q' where dq: "pq_dequeue q = (Some v, q')"
      using pq.dequeue_some [OF Suc.prems] Cons x by (cases "pq_dequeue q") auto
    then have "pq_invar q'" "pq_contents q' = xs"
      using pq.invar_dequeue [OF Suc.prems] pq.contents_dequeue [OF Suc.prems] Cons by simp_all
    then show ?thesis
      using Suc.IH [of q'] dq Cons x by (cases "pq_dequeue_batch n q'") simp
  qed
qed simp

section \<open>Properties\<close>

text \<open>
  C2: \<open>PriorityQueue\<close> is stable: enqueueing any values and taking a batch of them gives
  the first ones of the stable sort by priority (lower first, first come first served
  among equal priorities), and leaves the others in that order.
\<close>

theorem priority_queue_stable:
  "pq_dequeue_batch n (fold (\<lambda>(v, p). pq_enqueue v p) xs pq_empty) = (out, q) \<Longrightarrow>
     out = map fst (take n (sort_key snd xs)) \<and> pq_contents q = drop n (sort_key snd xs)"
  using pq_dequeue_batch_contents [OF pq.invar_enqueue_all, of n xs] pq.contents_enqueue_all [of xs]
  by (simp add: pq.enqueue_all_def)

theorem priority_queue_stable_witness:
  "fst (pq_dequeue_batch 2 (fold (\<lambda>(v, p). pq_enqueue v p) [(''a'', 5), (''b'', 1), (''c'', 5)] pq_empty))
     = [''b'', ''a'']"
  using priority_queue_stable [of 2 "[(''a'', 5), (''b'', 1), (''c'', 5)]"]
  by (cases "pq_dequeue_batch 2 (fold (\<lambda>(v, p). pq_enqueue v p)
        [(''a'', 5), (''b'', 1), (''c'', 5)] pq_empty)") (simp add: numeral_2_eq_2)

end
