(* ===== verification/TopK.thy ===== *)
theory TopK
  imports Heap
begin

text \<open>
  Bounded selection of \<open>packages/algorithms/src/top-k.ts\<close>: \<open>topK\<close> over a size-K
  min-heap, \<open>mergeTopK\<close> over sorted lists and reciprocal rank fusion. A selection is
  specified by \<open>selects\<close>: what is kept and what is left make up the input, and nothing
  left beats anything kept.
\<close>

record 'a scored =
  sc_item :: 'a
  sc_score :: rat

definition topk_cmp :: "'a cmp option \<Rightarrow> 'a scored cmp" where
  "topk_cmp tie a b =
     (if sc_score a \<noteq> sc_score b then sc_score a - sc_score b
      else case tie of None \<Rightarrow> 0 | Some t \<Rightarrow> - t (sc_item a) (sc_item b))"

text \<open>The guard of the replacement: a strictly better score, or an equal one that wins the tie.\<close>

definition topk_beats :: "'a cmp option \<Rightarrow> 'a \<Rightarrow> rat \<Rightarrow> 'a scored \<Rightarrow> bool" where
  "topk_beats tie item score worst \<longleftrightarrow>
     sc_score worst < score \<or>
     score = sc_score worst \<and>
       (case tie of None \<Rightarrow> False | Some t \<Rightarrow> t item (sc_item worst) < 0)"

fun topk_loop :: "'a cmp option \<Rightarrow> nat \<Rightarrow> ('a \<Rightarrow> rat) \<Rightarrow> 'a list \<Rightarrow> 'a scored list \<Rightarrow> 'a scored list" where
  "topk_loop tie k score_of [] heap = heap"
| "topk_loop tie k score_of (item # items) heap =
     (let score = score_of item; entry = \<lparr>sc_item = item, sc_score = score\<rparr> in
      if length heap < k
      then topk_loop tie k score_of items (heap_push (topk_cmp tie) heap entry)
      else case heap_peek heap of
             None \<Rightarrow> topk_loop tie k score_of items heap
           | Some worst \<Rightarrow>
               if topk_beats tie item score worst
               then topk_loop tie k score_of items (snd (heap_replace_top (topk_cmp tie) heap entry))
               else topk_loop tie k score_of items heap)"

definition topK :: "'a list \<Rightarrow> int \<Rightarrow> ('a \<Rightarrow> rat) \<Rightarrow> 'a cmp option \<Rightarrow> 'a scored list" where
  "topK items k score_of tie =
     (if k \<le> 0 \<or> length items = 0 then []
      else rev (drain_sorted (topk_cmp tie) (topk_loop tie (nat k) score_of items [])))"

definition topKScored :: "'a scored list \<Rightarrow> int \<Rightarrow> 'a scored list" where
  "topKScored entries k = map sc_item (topK entries k sc_score None)"

section \<open>Selection\<close>

text \<open>
  \<open>selects cmp n xs kept rest\<close>: \<open>kept\<close> holds \<open>n\<close> of the elements of \<open>xs\<close> (all, when
  there are fewer), \<open>rest\<close> the others, and nothing of \<open>rest\<close> is above anything kept.
\<close>

definition selects :: "'a cmp \<Rightarrow> nat \<Rightarrow> 'a multiset \<Rightarrow> 'a multiset \<Rightarrow> 'a multiset \<Rightarrow> bool" where
  "selects cmp n xs kept rest \<longleftrightarrow>
     xs = kept + rest \<and> size kept \<le> n \<and> (rest = {#} \<or> size kept = n) \<and>
     (\<forall>r\<in>#rest. \<forall>x\<in>#kept. cmp r x \<le> 0)"

definition score_entry :: "('a \<Rightarrow> rat) \<Rightarrow> 'a \<Rightarrow> 'a scored" where
  "score_entry score_of x = \<lparr>sc_item = x, sc_score = score_of x\<rparr>"

definition tie_ok :: "'a cmp option \<Rightarrow> bool" where
  "tie_ok tie = (case tie of None \<Rightarrow> True | Some t \<Rightarrow> comparator t)"

lemma topk_beats_cmp:
  "topk_beats tie item score worst \<longleftrightarrow>
     0 < topk_cmp tie \<lparr>sc_item = item, sc_score = score\<rparr> worst"
  by (auto simp: topk_beats_def topk_cmp_def split: option.splits)

lemma comparator_topk:
  assumes "tie_ok tie"
  shows "comparator (topk_cmp tie)"
proof (cases tie)
  case None
  then show ?thesis by unfold_locales (auto simp: topk_cmp_def split: if_splits)
next
  case (Some t)
  then have ct: "comparator t" using assms by (simp add: tie_ok_def)
  show ?thesis
  proof
    show "topk_cmp tie a b < 0 \<longleftrightarrow> 0 < topk_cmp tie b a" for a b
      using comparator.cmp_flip [OF ct] by (auto simp: topk_cmp_def Some)
    show "topk_cmp tie a c \<le> 0" if "topk_cmp tie a b \<le> 0" "topk_cmp tie b c \<le> 0" for a b c
    proof -
      have "0 \<le> t (sc_item a) (sc_item c)"
        if "0 \<le> t (sc_item a) (sc_item b)" "0 \<le> t (sc_item b) (sc_item c)"
        using that comparator.cmp_trans [OF ct, of "sc_item c" "sc_item b" "sc_item a"]
          comparator.cmp_flip [OF ct] by (meson not_less)
      then show ?thesis using that by (auto simp: topk_cmp_def Some split: if_splits)
    qed
  qed
qed

lemma heap_peek_Some_iff: "heap_peek h = Some w \<longleftrightarrow> (\<exists>t. h = w # t)"
  by (auto simp: heap_peek_def split: list.splits)

text \<open>The loop's invariant, one item at a time.\<close>

lemma selects_push:
  assumes "selects cmp k xs kept rest" and "size kept < k"
  shows "selects cmp k (add_mset e xs) (add_mset e kept) rest"
proof -
  have "rest = {#}" using assms by (auto simp: selects_def)
  then show ?thesis using assms by (auto simp: selects_def)
qed

lemma selects_replace:
  assumes "comparator cmp" and "selects cmp k xs (add_mset w kept) rest" and "k \<le> size (add_mset w kept)"
    and "cmp w e \<le> 0" and "\<forall>x\<in>#kept. cmp w x \<le> 0"
  shows "selects cmp k (add_mset e xs) (add_mset e kept) (add_mset w rest)"
proof -
  have xs: "xs = add_mset w kept + rest" and sz: "size (add_mset w kept) = k"
    and old: "\<forall>r\<in>#rest. cmp r w \<le> 0 \<and> (\<forall>x\<in>#kept. cmp r x \<le> 0)"
    using assms(2,3) by (auto simp: selects_def)
  have "\<forall>r\<in>#add_mset w rest. \<forall>x\<in>#add_mset e kept. cmp r x \<le> 0"
    using old assms(4,5) comparator.cmp_trans [OF assms(1) _ assms(4)] by simp
  then show ?thesis using xs sz unfolding selects_def by (intro conjI) simp_all
qed

lemma selects_drop:
  assumes "selects cmp k xs kept rest" and "k \<le> size kept" and "\<forall>x\<in>#kept. cmp e x \<le> 0"
  shows "selects cmp k (add_mset e xs) kept (add_mset e rest)"
  using assms by (auto simp: selects_def)

lemma topk_loop_selects:
  assumes tie: "tie_ok tie" and k: "0 < k"
  shows "heap_inv (topk_cmp tie) heap \<Longrightarrow> selects (topk_cmp tie) k xs (mset heap) rest \<Longrightarrow>
     \<exists>rest'. heap_inv (topk_cmp tie) (topk_loop tie k score_of items heap) \<and>
       selects (topk_cmp tie) k (xs + mset (map (score_entry score_of) items))
         (mset (topk_loop tie k score_of items heap)) rest'"
proof (induction items arbitrary: heap xs rest)
  case Nil
  then show ?case by auto
next
  case (Cons item items)
  note cmp = comparator_topk [OF tie]
  let ?e = "\<lparr>sc_item = item, sc_score = score_of item\<rparr>"
  have e: "score_entry score_of item = ?e" by (simp add: score_entry_def)
  have more: "\<exists>rest'. heap_inv (topk_cmp tie) (topk_loop tie k score_of items h) \<and>
       selects (topk_cmp tie) k (xs + mset (map (score_entry score_of) (item # items)))
         (mset (topk_loop tie k score_of items h)) rest'"
    if "heap_inv (topk_cmp tie) h" "selects (topk_cmp tie) k (add_mset ?e xs) (mset h) r" for h r
    using Cons.IH [OF that] by (simp add: e)
  show ?case
  proof (cases "length heap < k")
    case True
    then have "selects (topk_cmp tie) k (add_mset ?e xs)
        (mset (heap_push (topk_cmp tie) heap ?e)) rest"
      using selects_push [OF Cons.prems(2)] by (simp add: mset_heap_push)
    then show ?thesis
      using more comparator.heap_push_inv [OF cmp Cons.prems(1)] True by (simp add: Let_def)
  next
    case False
    with k obtain w t where heap: "heap = w # t" by (cases heap) auto
    have peek: "heap_peek heap = Some w" by (simp add: heap heap_peek_def)
    have least: "\<forall>x\<in>set heap. topk_cmp tie w x \<le> 0"
      using comparator.heap_peek_min [OF cmp Cons.prems(1) peek] by blast
    show ?thesis
    proof (cases "topk_beats tie item (score_of item) w")
      case True
      let ?h = "snd (heap_replace_top (topk_cmp tie) heap ?e)"
      have we: "topk_cmp tie w ?e \<le> 0"
        using True comparator.cmp_flip [OF cmp, of w ?e] by (simp add: topk_beats_cmp)
      have "fst (heap_replace_top (topk_cmp tie) heap ?e) = Some w"
        by (simp add: heap heap_replace_top_def)
      then have "mset heap + {#?e#} = add_mset w (mset ?h)"
        using mset_heap_replace_top [of heap "topk_cmp tie" ?e w ?h] heap
        by (metis list.distinct(1) prod.collapse)
      then have "mset ?h = add_mset ?e (mset t)" by (simp add: heap)
      moreover have "selects (topk_cmp tie) k (add_mset ?e xs) (add_mset ?e (mset t)) (add_mset w rest)"
        by (rule selects_replace [OF cmp]) (use Cons.prems(2) False least we heap in auto)
      ultimately have "selects (topk_cmp tie) k (add_mset ?e xs) (mset ?h) (add_mset w rest)"
        by simp
      then show ?thesis
        using more comparator.heap_replace_top_inv [OF cmp Cons.prems(1)] True False peek
        by (simp add: Let_def)
    next
      case no: False
      then have "topk_cmp tie ?e w \<le> 0" by (simp add: topk_beats_cmp)
      then have "\<forall>x\<in>#mset heap. topk_cmp tie ?e x \<le> 0"
        using least comparator.cmp_trans [OF cmp] by auto
      then have "selects (topk_cmp tie) k (add_mset ?e xs) (mset heap) (add_mset ?e rest)"
        using selects_drop [OF Cons.prems(2)] False by simp
      then show ?thesis using more Cons.prems(1) no False peek by (simp add: Let_def)
    qed
  qed
qed

lemma sorted_wrt_rev_flip: "sorted_wrt R (rev xs) \<longleftrightarrow> sorted_wrt (\<lambda>a b. R b a) xs"
  by (simp add: sorted_wrt_rev)

lemma topK_selects:
  assumes "tie_ok tie"
  shows "\<exists>rest. selects (topk_cmp tie) (nat k) (mset (map (score_entry score_of) items))
           (mset (topK items k score_of tie)) rest"
    and "sorted_wrt (\<lambda>a b. topk_cmp tie b a \<le> 0) (topK items k score_of tie)"
proof -
  note cmp = comparator_topk [OF assms]
  let ?h = "topk_loop tie (nat k) score_of items []"
  have "\<exists>rest. heap_inv (topk_cmp tie) ?h \<and> selects (topk_cmp tie) (nat k)
      ({#} + mset (map (score_entry score_of) items)) (mset ?h) rest" if "0 < k"
    using that by (intro topk_loop_selects [OF assms, where rest = "{#}"]) (auto simp: selects_def)
  then have sel: "\<exists>rest. selects (topk_cmp tie) (nat k)
      (mset (map (score_entry score_of) items)) (mset ?h) rest" "heap_inv (topk_cmp tie) ?h" if "0 < k"
    using that by auto
  then have drain: "mset (drain_sorted (topk_cmp tie) ?h) = mset ?h"
      "sorted_wrt (\<lambda>a b. topk_cmp tie a b \<le> 0) (drain_sorted (topk_cmp tie) ?h)" if "0 < k"
    using comparator.drain_sorted_correct [OF cmp] that by blast+
  show "\<exists>rest. selects (topk_cmp tie) (nat k) (mset (map (score_entry score_of) items))
      (mset (topK items k score_of tie)) rest"
  proof (cases "k \<le> 0 \<or> items = []")
    case True
    then show ?thesis by (auto simp: topK_def selects_def)
  next
    case False
    then have "mset (topK items k score_of tie) = mset ?h"
      using drain by (simp add: topK_def)
    then show ?thesis using sel False by (metis not_le)
  qed
  show "sorted_wrt (\<lambda>a b. topk_cmp tie b a \<le> 0) (topK items k score_of tie)"
    using drain by (auto simp: topK_def sorted_wrt_rev)
qed

section \<open>Merging sorted lists\<close>

record 'a cursor =
  cu_list :: nat
  cu_item :: nat
  cu_entry :: "'a scored"

definition merge_cmp :: "'a cursor cmp" where
  "merge_cmp a b = sc_score (cu_entry b) - sc_score (cu_entry a)"

fun merge_heads :: "nat \<Rightarrow> 'a scored list list \<Rightarrow> 'a cursor list \<Rightarrow> 'a cursor list" where
  "merge_heads i [] heap = heap"
| "merge_heads i (l # ls) heap =
     merge_heads (Suc i) ls
       (case l of
          [] \<Rightarrow> heap
        | e # _ \<Rightarrow> heap_push merge_cmp heap \<lparr>cu_list = i, cu_item = 0, cu_entry = e\<rparr>)"

text \<open>The loop's bound \<open>out.length < k\<close> is the first argument: what may still be output.\<close>

fun merge_loop :: "nat \<Rightarrow> 'a scored list list \<Rightarrow> 'a cursor list \<Rightarrow> 'a scored list" where
  "merge_loop 0 lsts heap = []"
| "merge_loop (Suc n) lsts heap =
     (case heap_pop merge_cmp heap of
        (None, _) \<Rightarrow> []
      | (Some c, heap') \<Rightarrow>
          let l = lsts ! cu_list c; j = cu_item c + 1 in
          cu_entry c #
          merge_loop n lsts
            (if j < length l
             then heap_push merge_cmp heap' \<lparr>cu_list = cu_list c, cu_item = j, cu_entry = l ! j\<rparr>
             else heap'))"

definition mergeTopK :: "'a scored list list \<Rightarrow> int \<Rightarrow> 'a scored list" where
  "mergeTopK lsts k = (if k \<le> 0 then [] else merge_loop (nat k) lsts (merge_heads 0 lsts []))"

interpretation mgc: comparator merge_cmp
  by unfold_locales (auto simp: merge_cmp_def)

definition cursor_ok :: "'a scored list list \<Rightarrow> 'a cursor \<Rightarrow> bool" where
  "cursor_ok lsts c \<longleftrightarrow>
     cu_list c < length lsts \<and> cu_item c < length (lsts ! cu_list c) \<and>
     cu_entry c = lsts ! cu_list c ! cu_item c"

text \<open>What the cursors of a heap have not output yet.\<close>

definition pending :: "'a scored list list \<Rightarrow> 'a cursor multiset \<Rightarrow> 'a scored multiset" where
  "pending lsts cs = (\<Sum>c\<in>#cs. mset (drop (cu_item c) (lsts ! cu_list c)))"

definition desc :: "'a scored list \<Rightarrow> bool" where
  "desc = sorted_wrt (\<lambda>a b. sc_score b \<le> sc_score a)"

lemma pending_add: "pending lsts (add_mset c cs) =
    mset (drop (cu_item c) (lsts ! cu_list c)) + pending lsts cs"
  by (simp add: pending_def)

lemma cursor_top:
  assumes "cursor_ok lsts c" and "desc (lsts ! cu_list c)"
    and "x \<in># mset (drop (cu_item c) (lsts ! cu_list c))"
  shows "sc_score x \<le> sc_score (cu_entry c)"
proof -
  let ?l = "lsts ! cu_list c"
  have "drop (cu_item c) ?l = cu_entry c # drop (Suc (cu_item c)) ?l"
    using assms(1) by (simp add: cursor_ok_def Cons_nth_drop_Suc)
  moreover have "desc (drop (cu_item c) ?l)"
    using assms(2) by (simp add: desc_def sorted_wrt_drop)
  ultimately show ?thesis using assms(3) by (auto simp: desc_def)
qed

lemma pending_top:
  assumes "\<forall>c\<in>#cs. cursor_ok lsts c" and "\<forall>l\<in>set lsts. desc l"
    and "\<forall>c\<in>#cs. sc_score (cu_entry c) \<le> b" and "x \<in># pending lsts cs"
  shows "sc_score x \<le> b"
proof -
  obtain c where c: "c \<in># cs" "x \<in># mset (drop (cu_item c) (lsts ! cu_list c))"
    using assms(4) by (auto simp: pending_def)
  moreover have "desc (lsts ! cu_list c)"
    using assms(1,2) c(1) by (auto simp: cursor_ok_def)
  ultimately show ?thesis using cursor_top assms(1,3) order_trans by blast
qed

lemma selects_Cons:
  assumes "selects cmp n xs kept rest" and "\<forall>x\<in>#xs. cmp x e \<le> 0"
  shows "selects cmp (Suc n) (add_mset e xs) (add_mset e kept) rest"
  using assms by (auto simp: selects_def)

lemma merge_loop_selects:
  assumes srt: "\<forall>l\<in>set lsts. desc l"
  shows "heap_inv merge_cmp heap \<Longrightarrow> \<forall>c\<in>set heap. cursor_ok lsts c \<Longrightarrow>
     desc (merge_loop n lsts heap) \<and>
     (\<exists>rest. selects (topk_cmp None) n (pending lsts (mset heap)) (mset (merge_loop n lsts heap)) rest)"
proof (induction n arbitrary: heap)
  case 0
  then show ?case by (auto simp: selects_def desc_def)
next
  case (Suc n)
  show ?case
  proof (cases heap)
    case Nil
    then show ?thesis by (auto simp: selects_def desc_def heap_pop_def pending_def)
  next
    case (Cons c0 t)
    obtain c h where pop: "heap_pop merge_cmp heap = (Some c, h)"
      using Cons by (auto simp: heap_pop_def Let_def)
    let ?l = "lsts ! cu_list c" and ?j = "cu_item c + 1"
    let ?h = "if ?j < length ?l
       then heap_push merge_cmp h \<lparr>cu_list = cu_list c, cu_item = ?j, cu_entry = ?l ! ?j\<rparr> else h"
    have m: "mset heap = add_mset c (mset h)" using pop by (rule mset_heap_pop)
    then have hs: "set h \<subseteq> set heap" "c \<in> set heap"
      by (metis set_mset_add_mset_insert set_mset_mset subset_insertI insertI1)+
    have c: "cursor_ok lsts c" using hs Suc.prems by blast
    have ok: "\<forall>d\<in>set ?h. cursor_ok lsts d"
    proof -
      have "set ?h \<subseteq> set h \<union> {d. d = \<lparr>cu_list = cu_list c, cu_item = ?j, cu_entry = ?l ! ?j\<rparr> \<and> ?j < length ?l}"
        by auto
      moreover have "cursor_ok lsts \<lparr>cu_list = cu_list c, cu_item = ?j, cu_entry = ?l ! ?j\<rparr>"
        if "?j < length ?l"
        using that c by (simp add: cursor_ok_def)
      ultimately show ?thesis using hs Suc.prems by blast
    qed
    have inv: "heap_inv merge_cmp ?h"
    proof -
      have "heap_inv merge_cmp h" using mgc.heap_pop_inv [OF Suc.prems(1)] pop by simp
      then show ?thesis using mgc.heap_push_inv [of h] by (cases "?j < length ?l") simp_all
    qed
    have pend: "pending lsts (mset heap) = add_mset (cu_entry c) (pending lsts (mset ?h))"
      using c by (auto simp: m pending_add mset_heap_push cursor_ok_def Cons_nth_drop_Suc [symmetric])
    obtain rest where rest: "selects (topk_cmp None) n (pending lsts (mset ?h))
        (mset (merge_loop n lsts ?h)) rest" and d: "desc (merge_loop n lsts ?h)"
      using Suc.IH [OF inv ok] by blast
    have top: "sc_score x \<le> sc_score (cu_entry c)" if "x \<in># pending lsts (mset heap)" for x
      using mgc.heap_pop_min [OF Suc.prems(1) pop] that
      by (intro pending_top [OF _ srt _ that]) (auto simp: merge_cmp_def Suc.prems)
    have step: "merge_loop (Suc n) lsts heap = cu_entry c # merge_loop n lsts ?h"
      by (simp add: pop Let_def)
    have "selects (topk_cmp None) (Suc n) (add_mset (cu_entry c) (pending lsts (mset ?h)))
        (add_mset (cu_entry c) (mset (merge_loop n lsts ?h))) rest"
      using top pend by (intro selects_Cons [OF rest]) (auto simp: topk_cmp_def)
    moreover have "\<forall>x\<in>set (merge_loop n lsts ?h). sc_score x \<le> sc_score (cu_entry c)"
      using top rest pend by (auto simp: selects_def)
    ultimately show ?thesis
      using d unfolding step pend by (auto simp: desc_def)
  qed
qed

lemma merge_heads_pending:
  "heap_inv merge_cmp heap \<Longrightarrow> \<forall>c\<in>set heap. cursor_ok (pre @ ls) c \<Longrightarrow>
     heap_inv merge_cmp (merge_heads (length pre) ls heap) \<and>
     (\<forall>c\<in>set (merge_heads (length pre) ls heap). cursor_ok (pre @ ls) c) \<and>
     pending (pre @ ls) (mset (merge_heads (length pre) ls heap)) =
       pending (pre @ ls) (mset heap) + mset (concat ls)"
proof (induction ls arbitrary: pre heap)
  case Nil
  then show ?case by simp
next
  case (Cons l ls)
  let ?h = "case l of [] \<Rightarrow> heap
    | e # _ \<Rightarrow> heap_push merge_cmp heap \<lparr>cu_list = length pre, cu_item = 0, cu_entry = e\<rparr>"
  have inv: "heap_inv merge_cmp ?h"
    using Cons.prems(1) mgc.heap_push_inv by (auto split: list.split)
  have ok: "\<forall>c\<in>set ?h. cursor_ok ((pre @ [l]) @ ls) c"
    using Cons.prems(2) by (cases l) (simp_all add: cursor_ok_def nth_append)
  have "pending ((pre @ [l]) @ ls) (mset ?h) = pending (pre @ l # ls) (mset heap) + mset l"
    by (cases l) (simp_all add: mset_heap_push pending_add nth_append)
  then show ?case using Cons.IH [of ?h "pre @ [l]"] inv ok by (simp add: add.assoc)
qed

lemma mergeTopK_selects:
  assumes "\<forall>l\<in>set lsts. desc l"
  shows "desc (mergeTopK lsts k)"
    and "\<exists>rest. selects (topk_cmp None) (nat k) (mset (concat lsts)) (mset (mergeTopK lsts k)) rest"
proof -
  have "heap_inv merge_cmp (merge_heads 0 lsts [])"
    "\<forall>c\<in>set (merge_heads 0 lsts []). cursor_ok lsts c"
    "pending lsts (mset (merge_heads 0 lsts [])) = mset (concat lsts)"
    using merge_heads_pending [of "[]" "[]" lsts] by (simp_all add: pending_def)
  then show "desc (mergeTopK lsts k)"
    "\<exists>rest. selects (topk_cmp None) (nat k) (mset (concat lsts)) (mset (mergeTopK lsts k)) rest"
    using merge_loop_selects [OF assms, of "merge_heads 0 lsts []" "nat k"]
    by (auto simp: mergeTopK_def desc_def selects_def)
qed

section \<open>Reciprocal rank fusion\<close>

type_synonym ('k, 'a) rrf = "('k, 'a) jsmap \<times> ('k, rat) jsmap"

definition rrf_item :: "rat \<Rightarrow> ('a \<Rightarrow> 'k) \<Rightarrow> nat \<times> 'a \<Rightarrow> ('k, 'a) rrf \<Rightarrow> ('k, 'a) rrf" where
  "rrf_item k_constant identify p st =
     (let (index, item) = p; (seen, scores) = st; i = identify item;
          old = (case jm_get scores i of None \<Rightarrow> 0 | Some s \<Rightarrow> s)
      in (if jm_has seen i then seen else jm_set i item seen,
          jm_set i (old + 1 / (k_constant + of_nat index + 1)) scores))"

definition rrf_list :: "rat \<Rightarrow> ('a \<Rightarrow> 'k) \<Rightarrow> 'a list \<Rightarrow> ('k, 'a) rrf \<Rightarrow> ('k, 'a) rrf" where
  "rrf_list k_constant identify l st = fold (rrf_item k_constant identify) (enumerate 0 l) st"

definition rrf_merged :: "rat \<Rightarrow> ('a \<Rightarrow> 'k) \<Rightarrow> 'a list list \<Rightarrow> 'a scored list" where
  "rrf_merged k_constant identify lsts =
     (let (seen, scores) = fold (rrf_list k_constant identify) lsts ([], [])
      in List.map_filter
           (\<lambda>(i, s). map_option (\<lambda>item. \<lparr>sc_item = item, sc_score = s\<rparr>) (jm_get seen i)) scores)"

definition reciprocalRankFusion ::
  "'a list list \<Rightarrow> ('a \<Rightarrow> 'k) \<Rightarrow> int \<Rightarrow> rat \<Rightarrow> 'a scored list" where
  "reciprocalRankFusion lsts identify k k_constant =
     map sc_item (topK (rrf_merged k_constant identify lsts) k sc_score None)"

text \<open>The score an identifier is due: one term for each of its occurrences.\<close>

definition rrf_term :: "rat \<Rightarrow> ('a \<Rightarrow> 'k) \<Rightarrow> 'k \<Rightarrow> nat \<times> 'a \<Rightarrow> rat" where
  "rrf_term k_constant identify i p =
     (if identify (snd p) = i then 1 / (k_constant + of_nat (fst p) + 1) else 0)"

definition rrf_score :: "rat \<Rightarrow> ('a \<Rightarrow> 'k) \<Rightarrow> 'a list list \<Rightarrow> 'k \<Rightarrow> rat" where
  "rrf_score k_constant identify lsts i =
     sum_list (map (rrf_term k_constant identify i) (concat (map (enumerate 0) lsts)))"

definition rrf_ok :: "rat \<Rightarrow> ('a \<Rightarrow> 'k) \<Rightarrow> (nat \<times> 'a) list \<Rightarrow> ('k, 'a) rrf \<Rightarrow> bool" where
  "rrf_ok k_constant identify ps st \<longleftrightarrow>
     jm_wf (snd st) \<and>
     (\<forall>i. jm_get (snd st) i =
        (if i \<in> (identify \<circ> snd) ` set ps
         then Some (sum_list (map (rrf_term k_constant identify i) ps)) else None)) \<and>
     (\<forall>i. i \<in> (identify \<circ> snd) ` set ps \<longrightarrow> (\<exists>x. jm_get (fst st) i = Some x)) \<and>
     (\<forall>i x. jm_get (fst st) i = Some x \<longrightarrow> identify x = i \<and> x \<in> snd ` set ps)"

lemma rrf_term_zero:
  "i \<notin> (\<lambda>p. identify (snd p)) ` set ps \<Longrightarrow> sum_list (map (rrf_term k0 identify i) ps) = 0"
  by (induction ps) (auto simp: rrf_term_def)

lemma rrf_item_ok:
  assumes "rrf_ok k0 identify ps st"
  shows "rrf_ok k0 identify (ps @ [p]) (rrf_item k0 identify p st)"
proof -
  obtain idx x where p: "p = (idx, x)" by (cases p)
  obtain seen scores where st: "st = (seen, scores)" by (cases st)
  have zero: "sum_list (map (rrf_term k0 identify (identify x)) ps) = 0"
    if "identify x \<notin> (identify \<circ> snd) ` set ps"
    using that by (intro rrf_term_zero) auto
  show ?thesis
    using assms zero
    by (auto simp: rrf_ok_def rrf_item_def Let_def p st jm_get_set rrf_term_def split: option.splits)
qed

lemma rrf_fold_ok:
  "rrf_ok k0 identify ps st \<Longrightarrow> rrf_ok k0 identify (ps @ qs) (fold (rrf_item k0 identify) qs st)"
proof (induction qs arbitrary: ps st)
  case (Cons q qs)
  show ?case using Cons.IH [OF rrf_item_ok [OF Cons.prems, of q]] by simp
qed simp

lemma rrf_fold_concat:
  "fold (rrf_list k0 identify) lsts st = fold (rrf_item k0 identify) (concat (map (enumerate 0) lsts)) st"
  by (induction lsts arbitrary: st) (simp_all add: rrf_list_def)

lemma snd_concat_enumerate: "snd ` set (concat (map (enumerate 0) lsts)) = (\<Union>l\<in>set lsts. set l)"
  by (induction lsts) (simp_all add: image_Un flip: set_map)

lemma rrf_merged_spec:
  "\<forall>e\<in>set (rrf_merged k0 identify lsts). sc_score e = rrf_score k0 identify lsts (identify (sc_item e))"
  "distinct (map (identify \<circ> sc_item) (rrf_merged k0 identify lsts))"
  "(identify \<circ> sc_item) ` set (rrf_merged k0 identify lsts) = identify ` (\<Union>l\<in>set lsts. set l)"
proof -
  let ?ps = "concat (map (enumerate 0) lsts)"
  obtain seen scores where st: "fold (rrf_list k0 identify) lsts ([], []) = (seen, scores)"
    by (cases "fold (rrf_list k0 identify) lsts ([], [])")
  have ok: "rrf_ok k0 identify ?ps (seen, scores)"
    using rrf_fold_ok [of k0 identify "[]" "([], [])" ?ps] st
    by (simp add: rrf_fold_concat rrf_ok_def)
  have wf: "jm_wf scores" using ok by (simp add: rrf_ok_def)
  let ?ids = "(identify \<circ> snd) ` set ?ps"
  have get: "jm_get scores i = (if i \<in> ?ids then Some (rrf_score k0 identify lsts i) else None)" for i
    using ok by (simp only: rrf_ok_def snd_conv rrf_score_def)
  have sn: "i \<in> ?ids \<Longrightarrow> \<exists>x. jm_get seen i = Some x \<and> identify x = i" for i
    using ok unfolding rrf_ok_def fst_conv by blast
  have entry: "s = rrf_score k0 identify lsts i \<and> (\<exists>x. jm_get seen i = Some x \<and> identify x = i)"
    if "(i, s) \<in> set scores" for i s
  proof -
    have "jm_get scores i = Some s" using that jm_get_set_mem [OF wf] by simp
    then have "i \<in> ?ids" "s = rrf_score k0 identify lsts i"
      unfolding get by (simp_all only: option.inject option.distinct split: if_splits)
    then show ?thesis using sn by blast
  qed
  have keys: "fst ` set scores = identify ` (\<Union>l\<in>set lsts. set l)"
  proof -
    have "fst ` set scores = {i. jm_get scores i \<noteq> None}"
      by (auto simp: map_of_eq_None_iff)
    also have "\<dots> = ?ids"
      unfolding get by (simp only: option.distinct split: if_splits) blast
    finally show ?thesis by (simp only: image_comp [symmetric] snd_concat_enumerate)
  qed
  let ?f = "\<lambda>(i, s). map_option (\<lambda>item. \<lparr>sc_item = item, sc_score = s\<rparr>) (jm_get seen i)"
  have merged: "rrf_merged k0 identify lsts = List.map_filter ?f scores"
    by (simp add: rrf_merged_def st)
  have ids: "map (identify \<circ> sc_item) (List.map_filter ?f xs) = map fst xs"
    if "set xs \<subseteq> set scores" for xs
    using that
  proof (induction xs)
    case (Cons x xs)
    then show ?case using entry [of "fst x" "snd x"] by (auto simp: List.map_filter_simps split: prod.splits)
  qed (simp add: List.map_filter_simps)
  show "\<forall>e\<in>set (rrf_merged k0 identify lsts). sc_score e = rrf_score k0 identify lsts (identify (sc_item e))"
    using entry by (fastforce simp: merged List.map_filter_def)
  have idm: "map (identify \<circ> sc_item) (rrf_merged k0 identify lsts) = map fst scores"
    using ids [of scores] by (simp add: merged)
  show "distinct (map (identify \<circ> sc_item) (rrf_merged k0 identify lsts))"
    using wf idm by (simp add: jm_wf_def)
  show "(identify \<circ> sc_item) ` set (rrf_merged k0 identify lsts) = identify ` (\<Union>l\<in>set lsts. set l)"
    using keys idm by (metis set_map)
qed

lemma topKScored_selects:
  "desc (topKScored es k)"
  "\<exists>rest. selects (topk_cmp None) (nat k) (mset es) (mset (topKScored es k)) rest"
proof -
  let ?r = "topK es k sc_score None"
  obtain rest where sel: "selects (topk_cmp None) (nat k) (mset (map (score_entry sc_score) es)) (mset ?r) rest"
    and srt: "sorted_wrt (\<lambda>a b. topk_cmp None b a \<le> 0) ?r"
    using topK_selects [where tie = None and items = es and k = k and score_of = sc_score]
    by (auto simp: tie_ok_def)
  have eqs: "mset es = image_mset sc_item (mset (map (score_entry sc_score) es))"
    by (simp add: multiset.map_comp comp_def score_entry_def)
  have sc: "sc_score x = sc_score (sc_item x)" if "x \<in># mset ?r + rest" for x
  proof -
    have "x \<in># mset (map (score_entry sc_score) es)"
      using sel that by (simp only: selects_def)
    then show ?thesis by (auto simp: score_entry_def)
  qed
  have "sorted_wrt (\<lambda>a b. sc_score (sc_item b) \<le> sc_score (sc_item a)) ?r"
    using srt by (rule sorted_wrt_mono_rel [rotated]) (use sc in \<open>auto simp: topk_cmp_def split: if_splits\<close>)
  then show "desc (topKScored es k)"
    by (simp add: desc_def topKScored_def sorted_wrt_map)
  have "mset es = image_mset sc_item (mset ?r) + image_mset sc_item rest"
    using eqs sel by (simp add: selects_def)
  moreover have "\<forall>r\<in>#rest. \<forall>x\<in>#mset ?r. sc_score (sc_item r) \<le> sc_score (sc_item x)"
  proof (intro ballI)
    fix r x assume "r \<in># rest" "x \<in># mset ?r"
    then show "sc_score (sc_item r) \<le> sc_score (sc_item x)"
      using sel sc [of r] sc [of x] by (fastforce simp: selects_def topk_cmp_def split: if_splits)
  qed
  ultimately have "selects (topk_cmp None) (nat k) (mset es) (mset (topKScored es k)) (image_mset sc_item rest)"
    using sel by (auto simp: selects_def topKScored_def topk_cmp_def)
  then show "\<exists>rest. selects (topk_cmp None) (nat k) (mset es) (mset (topKScored es k)) rest" ..
qed

lemma rrf_topKScored:
  "reciprocalRankFusion lsts identify k k0 = topKScored (rrf_merged k0 identify lsts) k"
  by (simp add: reciprocalRankFusion_def topKScored_def)

section \<open>Properties\<close>

text \<open>
  \<open>topK\<close> returns the K best items: its result and what it leaves out are together the
  scored input, it returns min(K, number of items) of them in descending order, and no
  item left out beats one returned (by score, then by the tie-break if one is given).
\<close>

theorem topK_best:
  assumes "tie_ok tie"
  shows "\<exists>rest. selects (topk_cmp tie) (nat k) (mset (map (score_entry score_of) items))
           (mset (topK items k score_of tie)) rest \<and>
         length (topK items k score_of tie) = min (nat k) (length items) \<and>
         sorted_wrt (\<lambda>a b. topk_cmp tie b a \<le> 0) (topK items k score_of tie)"
proof -
  obtain rest where sel: "selects (topk_cmp tie) (nat k) (mset (map (score_entry score_of) items))
      (mset (topK items k score_of tie)) rest"
    using topK_selects(1) [OF assms] by blast
  then have "length items = length (topK items k score_of tie) + size rest"
    by (metis length_map selects_def size_mset size_union)
  then have "length (topK items k score_of tie) = min (nat k) (length items)"
    using sel by (auto simp: selects_def min_def)
  then show ?thesis using sel topK_selects(2) [OF assms] by blast
qed

theorem topK_best_witness:
  "\<exists>rest. selects (topk_cmp (Some (\<lambda>a b. of_nat a - of_nat b))) 2
      (mset (map (score_entry (\<lambda>n. of_nat (n mod 3))) [4, 1, 2, 5]))
      (mset (topK [4, 1, 2, 5 :: nat] 2 (\<lambda>n. of_nat (n mod 3)) (Some (\<lambda>a b. of_nat a - of_nat b)))) rest"
proof -
  have "tie_ok (Some (\<lambda>a b :: nat. of_nat a - of_nat b))"
    by (simp add: tie_ok_def) (unfold_locales, auto)
  from topK_best [OF this, of 2 "\<lambda>n. of_nat (n mod 3)" "[4, 1, 2, 5]"] show ?thesis
    by auto
qed

text \<open>
  \<open>mergeTopK\<close>, given lists in descending score order, returns the global top K of all
  of them in descending order, although it looks at one head of each list at a time.
\<close>

theorem mergeTopK_best:
  assumes "\<forall>l\<in>set lsts. desc l"
  shows "desc (mergeTopK lsts k) \<and>
    (\<exists>rest. selects (topk_cmp None) (nat k) (mset (concat lsts)) (mset (mergeTopK lsts k)) rest)"
  using mergeTopK_selects [OF assms] by blast

theorem mergeTopK_best_witness:
  "desc (mergeTopK [[\<lparr>sc_item = ''a'', sc_score = 9\<rparr>, \<lparr>sc_item = ''b'', sc_score = 2\<rparr>],
                    [\<lparr>sc_item = ''c'', sc_score = 5\<rparr>]] 2)"
  using mergeTopK_best [of "[[\<lparr>sc_item = ''a'', sc_score = 9\<rparr>, \<lparr>sc_item = ''b'', sc_score = 2\<rparr>],
                    [\<lparr>sc_item = ''c'', sc_score = 5\<rparr>]]" 2]
  by (simp add: desc_def)

text \<open>
  \<open>reciprocalRankFusion\<close> scores every identifier with one reciprocal-rank term per
  occurrence, over all lists, holds each identifier once, and returns the K best in
  descending order of that score.
\<close>

theorem rrf_correct:
  "(\<forall>e\<in>set (reciprocalRankFusion lsts identify k k0).
      sc_score e = rrf_score k0 identify lsts (identify (sc_item e))) \<and>
   desc (reciprocalRankFusion lsts identify k k0) \<and>
   (\<exists>rest merged. selects (topk_cmp None) (nat k) (mset merged)
        (mset (reciprocalRankFusion lsts identify k k0)) rest \<and>
      distinct (map (identify \<circ> sc_item) merged) \<and>
      (identify \<circ> sc_item) ` set merged = identify ` (\<Union>l\<in>set lsts. set l))"
proof -
  let ?m = "rrf_merged k0 identify lsts"
  obtain rest where sel: "selects (topk_cmp None) (nat k) (mset ?m) (mset (topKScored ?m k)) rest"
    using topKScored_selects(2) by blast
  then have "mset ?m = mset (topKScored ?m k) + rest" by (simp only: selects_def)
  then have "set (topKScored ?m k) \<subseteq> set ?m"
    by (metis mset_subset_eq_add_left set_mset_mono set_mset_mset)
  then have "\<forall>e\<in>set (topKScored ?m k). sc_score e = rrf_score k0 identify lsts (identify (sc_item e))"
    using rrf_merged_spec(1) by blast
  moreover have "distinct (map (identify \<circ> sc_item) ?m)"
    "(identify \<circ> sc_item) ` set ?m = identify ` (\<Union>l\<in>set lsts. set l)"
    by (fact rrf_merged_spec)+
  moreover have "desc (topKScored ?m k)" by (rule topKScored_selects)
  ultimately show ?thesis
    unfolding rrf_topKScored using sel by (intro conjI exI [of _ ?m] exI [of _ rest])
qed

theorem rrf_correct_witness:
  "desc (reciprocalRankFusion [[''a'', ''b''], [''b'', ''c'']] id 2 60) \<and>
   list_all (\<lambda>e. sc_score e = rrf_score 60 id [[''a'', ''b''], [''b'', ''c'']] (sc_item e))
     (reciprocalRankFusion [[''a'', ''b''], [''b'', ''c'']] id 2 60)"
  using rrf_correct [of "[[''a'', ''b''], [''b'', ''c'']]" id 2 60] by (simp add: list_all_iff)

end
