(* ===== verification/Lru.thy ===== *)
theory Lru
  imports Prelude
begin

text \<open>
  The LRU cache of \<open>packages/algorithms/src/lru-cache.ts\<close> with its intrusive doubly linked
  list: nodes live in a store and are shared between the map and the list, so every pointer
  assignment of the code is a store update. The refinement shows that the pointer structure
  behaves as a list of entries in recency order. The clock is read once per operation and
  passed as an argument.
\<close>

section \<open>State and pointer operations\<close>

type_synonym addr = nat

record ('k, 'v) lnode =
  ln_key :: 'k
  ln_value :: 'v
  ln_expires :: time
  ln_prev :: "addr option"
  ln_next :: "addr option"

text \<open>
  \<open>lr_store\<close> is the object store (addresses from \<open>lr_fresh\<close> on are unallocated), \<open>lr_map\<close>
  the \<open>Map\<close> from keys to nodes.
\<close>

record ('k, 'v) lru =
  lr_store :: "addr \<Rightarrow> ('k, 'v) lnode"
  lr_fresh :: addr
  lr_map :: "('k, addr) jsmap"
  lr_head :: "addr option"
  lr_tail :: "addr option"
  lr_max :: int
  lr_ttl :: time
  lr_hits :: nat
  lr_misses :: nat
  lr_evictions :: nat
  lr_expirations :: nat

definition lru_new :: "int \<Rightarrow> time option \<Rightarrow> js_error + ('k, 'v) lru" where
  "lru_new max_size ttl =
     (if max_size \<le> 0 then Inl RangeError
      else Inr \<lparr>lr_store = (\<lambda>_. undefined), lr_fresh = 0, lr_map = [], lr_head = None, lr_tail = None,
                lr_max = max_size, lr_ttl = (case ttl of None \<Rightarrow> 0 | Some t \<Rightarrow> t),
                lr_hits = 0, lr_misses = 0, lr_evictions = 0, lr_expirations = 0\<rparr>)"

definition lru_size :: "('k, 'v) lru \<Rightarrow> nat" where
  "lru_size s = length (lr_map s)"

text \<open>Assignment to a field of the node at an address.\<close>

definition upd_node :: "addr \<Rightarrow> (('k, 'v) lnode \<Rightarrow> ('k, 'v) lnode) \<Rightarrow> ('k, 'v) lru \<Rightarrow> ('k, 'v) lru" where
  "upd_node a f s = s\<lparr>lr_store := (lr_store s)(a := f (lr_store s a))\<rparr>"

definition is_expired :: "time \<Rightarrow> ('k, 'v) lnode \<Rightarrow> bool" where
  "is_expired now n \<longleftrightarrow> ln_expires n \<noteq> 0 \<and> ln_expires n \<le> now"

definition add_to_front :: "addr \<Rightarrow> ('k, 'v) lru \<Rightarrow> ('k, 'v) lru" where
  "add_to_front a s =
     (let s1 = upd_node a (\<lambda>n. n\<lparr>ln_prev := None\<rparr>) s;
          s2 = upd_node a (\<lambda>n. n\<lparr>ln_next := lr_head s1\<rparr>) s1;
          s3 = (case lr_head s2 of None \<Rightarrow> s2 | Some h \<Rightarrow> upd_node h (\<lambda>n. n\<lparr>ln_prev := Some a\<rparr>) s2);
          s4 = s3\<lparr>lr_head := Some a\<rparr>
      in if lr_tail s4 = None then s4\<lparr>lr_tail := Some a\<rparr> else s4)"

definition remove_node :: "addr \<Rightarrow> ('k, 'v) lru \<Rightarrow> ('k, 'v) lru" where
  "remove_node a s =
     (let s1 = (case ln_prev (lr_store s a) of
                  Some p \<Rightarrow> upd_node p (\<lambda>n. n\<lparr>ln_next := ln_next (lr_store s a)\<rparr>) s
                | None \<Rightarrow> s\<lparr>lr_head := ln_next (lr_store s a)\<rparr>);
          s2 = (case ln_next (lr_store s1 a) of
                  Some q \<Rightarrow> upd_node q (\<lambda>n. n\<lparr>ln_prev := ln_prev (lr_store s1 a)\<rparr>) s1
                | None \<Rightarrow> s1\<lparr>lr_tail := ln_prev (lr_store s1 a)\<rparr>);
          s3 = upd_node a (\<lambda>n. n\<lparr>ln_prev := None\<rparr>) s2
      in upd_node a (\<lambda>n. n\<lparr>ln_next := None\<rparr>) s3)"

definition move_to_front :: "addr \<Rightarrow> ('k, 'v) lru \<Rightarrow> ('k, 'v) lru" where
  "move_to_front a s = (if lr_head s = Some a then s else add_to_front a (remove_node a s))"

definition evict :: "('k, 'v) lru \<Rightarrow> ('k, 'v) lru" where
  "evict s =
     (case lr_tail s of
        None \<Rightarrow> s
      | Some victim \<Rightarrow>
          let s1 = remove_node victim s
          in s1\<lparr>lr_map := jm_delete (ln_key (lr_store s1 victim)) (lr_map s1),
                lr_evictions := lr_evictions s1 + 1\<rparr>)"

section \<open>Operations\<close>

definition lru_get :: "time \<Rightarrow> 'k \<Rightarrow> ('k, 'v) lru \<Rightarrow> 'v option \<times> ('k, 'v) lru" where
  "lru_get now key s =
     (case jm_get (lr_map s) key of
        None \<Rightarrow> (None, s\<lparr>lr_misses := lr_misses s + 1\<rparr>)
      | Some a \<Rightarrow>
          if is_expired now (lr_store s a)
          then let s1 = remove_node a s in
               (None, s1\<lparr>lr_map := jm_delete key (lr_map s1),
                         lr_expirations := lr_expirations s1 + 1, lr_misses := lr_misses s1 + 1\<rparr>)
          else let s1 = move_to_front a s in
               (Some (ln_value (lr_store s1 a)), s1\<lparr>lr_hits := lr_hits s1 + 1\<rparr>))"

definition lru_has :: "time \<Rightarrow> 'k \<Rightarrow> ('k, 'v) lru \<Rightarrow> bool \<times> ('k, 'v) lru" where
  "lru_has now key s =
     (case jm_get (lr_map s) key of
        None \<Rightarrow> (False, s)
      | Some a \<Rightarrow>
          if is_expired now (lr_store s a)
          then let s1 = remove_node a s in
               (False, s1\<lparr>lr_map := jm_delete key (lr_map s1),
                          lr_expirations := lr_expirations s1 + 1\<rparr>)
          else (True, s))"

definition expiry_for :: "time \<Rightarrow> time \<Rightarrow> time" where
  "expiry_for now ttl = (if 0 < ttl then now + ttl else 0)"

definition lru_put :: "time \<Rightarrow> 'k \<Rightarrow> 'v \<Rightarrow> time option \<Rightarrow> ('k, 'v) lru \<Rightarrow> ('k, 'v) lru" where
  "lru_put now key v ttl_ms s =
     (let ttl = (case ttl_ms of None \<Rightarrow> lr_ttl s | Some t \<Rightarrow> t);
          expires = expiry_for now ttl
      in case jm_get (lr_map s) key of
           Some a \<Rightarrow>
             move_to_front a
               (upd_node a (\<lambda>n. n\<lparr>ln_expires := expires\<rparr>) (upd_node a (\<lambda>n. n\<lparr>ln_value := v\<rparr>) s))
         | None \<Rightarrow>
             let a = lr_fresh s;
                 node = \<lparr>ln_key = key, ln_value = v, ln_expires = expires, ln_prev = None, ln_next = None\<rparr>;
                 s1 = s\<lparr>lr_store := (lr_store s)(a := node), lr_fresh := a + 1,
                        lr_map := jm_set key a (lr_map s)\<rparr>;
                 s2 = add_to_front a s1
             in if lr_max s2 < int (length (lr_map s2)) then evict s2 else s2)"

definition lru_delete :: "'k \<Rightarrow> ('k, 'v) lru \<Rightarrow> bool \<times> ('k, 'v) lru" where
  "lru_delete key s =
     (case jm_get (lr_map s) key of
        None \<Rightarrow> (False, s)
      | Some a \<Rightarrow>
          let s1 = remove_node a s in
          (jm_has (lr_map s1) key, s1\<lparr>lr_map := jm_delete key (lr_map s1)\<rparr>))"

definition lru_clear :: "('k, 'v) lru \<Rightarrow> ('k, 'v) lru" where
  "lru_clear s = s\<lparr>lr_map := [], lr_head := None, lr_tail := None\<rparr>"

text \<open>The sweep iterates over a copy of the map's values.\<close>

fun prune_loop :: "time \<Rightarrow> addr list \<Rightarrow> nat \<Rightarrow> ('k, 'v) lru \<Rightarrow> nat \<times> ('k, 'v) lru" where
  "prune_loop now [] removed s = (removed, s)"
| "prune_loop now (a # as) removed s =
     (if is_expired now (lr_store s a)
      then let s1 = remove_node a s in
           prune_loop now as (removed + 1)
             (s1\<lparr>lr_map := jm_delete (ln_key (lr_store s1 a)) (lr_map s1)\<rparr>)
      else prune_loop now as removed s)"

definition lru_prune :: "time \<Rightarrow> ('k, 'v) lru \<Rightarrow> nat \<times> ('k, 'v) lru" where
  "lru_prune now s =
     (let (removed, s1) = prune_loop now (map snd (lr_map s)) 0 s
      in (removed, s1\<lparr>lr_expirations := lr_expirations s1 + removed\<rparr>))"

text \<open>\<open>keys\<close> follows \<open>next\<close> from the head; the walk ends because the list is well formed.\<close>

partial_function (option) walk_keys ::
  "(addr \<Rightarrow> ('k, 'v) lnode) \<Rightarrow> addr option \<Rightarrow> 'k list option" where
  "walk_keys st n =
     (case n of
        None \<Rightarrow> Some []
      | Some a \<Rightarrow> Option.bind (walk_keys st (ln_next (st a))) (\<lambda>ks. Some (ln_key (st a) # ks)))"

definition lru_keys :: "('k, 'v) lru \<Rightarrow> 'k list option" where
  "lru_keys s = walk_keys (lr_store s) (lr_head s)"

record lru_stats =
  st_size :: nat
  st_hits :: nat
  st_misses :: nat
  st_evictions :: nat
  st_expirations :: nat
  st_hit_rate :: rat

definition lru_stats_of :: "('k, 'v) lru \<Rightarrow> lru_stats" where
  "lru_stats_of s =
     (let total = lr_hits s + lr_misses s in
      \<lparr>st_size = length (lr_map s), st_hits = lr_hits s, st_misses = lr_misses s,
       st_evictions = lr_evictions s, st_expirations = lr_expirations s,
       st_hit_rate = (if total = 0 then 0 else of_nat (lr_hits s) / of_nat total)\<rparr>)"

section \<open>Doubly linked lists in the store\<close>

definition first_or :: "'a list \<Rightarrow> 'a option \<Rightarrow> 'a option" where
  "first_or xs q = (case xs of [] \<Rightarrow> q | x # _ \<Rightarrow> Some x)"

definition last_or :: "'a option \<Rightarrow> 'a list \<Rightarrow> 'a option" where
  "last_or p xs = (if xs = [] then p else Some (last xs))"

lemma first_or_simps [simp]: "first_or [] q = q" "first_or (x # xs) q = Some x"
  by (simp_all add: first_or_def)

lemma last_or_simps [simp]: "last_or p [] = p" "last_or p (xs @ [x]) = Some x"
  "last_or p (x # xs) = last_or (Some x) xs"
  by (simp_all add: last_or_def)

lemma first_or_append [simp]: "first_or (xs @ ys) q = first_or xs (first_or ys q)"
  by (cases xs) simp_all

lemma last_or_append [simp]: "last_or p (xs @ ys) = last_or (last_or p xs) ys"
  by (simp add: last_or_def)

lemma first_or_None [simp]: "first_or xs None = None \<longleftrightarrow> xs = []"
  by (cases xs) simp_all

lemma last_or_None [simp]: "last_or None xs = None \<longleftrightarrow> xs = []"
  by (simp add: last_or_def)

lemma last_or_Some [simp]: "\<exists>y. last_or (Some x) xs = Some y"
  by (simp add: last_or_def)

text \<open>\<open>dll st p as q\<close>: the nodes \<open>as\<close> are linked in this order, between \<open>p\<close> and \<open>q\<close>.\<close>

fun dll :: "(addr \<Rightarrow> ('k, 'v) lnode) \<Rightarrow> addr option \<Rightarrow> addr list \<Rightarrow> addr option \<Rightarrow> bool" where
  "dll st p [] q \<longleftrightarrow> True"
| "dll st p (a # as) q \<longleftrightarrow>
     ln_prev (st a) = p \<and> ln_next (st a) = first_or as q \<and> dll st (Some a) as q"

lemma dll_append [simp]:
  "dll st p (as @ bs) q \<longleftrightarrow> dll st p as (first_or bs q) \<and> dll st (last_or p as) bs q"
  by (induction as arbitrary: p) auto

text \<open>Stores that agree on the links of a segment agree on it being a list.\<close>

lemma dll_cong:
  "(\<And>a. a \<in> set as \<Longrightarrow> ln_prev (st a) = ln_prev (st' a) \<and> ln_next (st a) = ln_next (st' a)) \<Longrightarrow>
     dll st p as q = dll st' p as q"
  by (induction as arbitrary: p) auto

lemma dll_frame [simp]: "a \<notin> set as \<Longrightarrow> dll (st(a := n)) p as q = dll st p as q"
  by (rule dll_cong) auto

text \<open>Relinking the two ends of a segment.\<close>

lemma dll_set_prev:
  "dll st p (a # as) q \<Longrightarrow> a \<notin> set as \<Longrightarrow> dll (st(a := (st a)\<lparr>ln_prev := p'\<rparr>)) p' (a # as) q"
  by simp

lemma dll_set_next:
  "dll st p (as @ [a]) q \<Longrightarrow> a \<notin> set as \<Longrightarrow> dll (st(a := (st a)\<lparr>ln_next := q'\<rparr>)) p (as @ [a]) q'"
  by simp

section \<open>The pointer operations on a linked list\<close>

definition links :: "('k, 'v) lru \<Rightarrow> addr list \<Rightarrow> bool" where
  "links s as \<longleftrightarrow>
     distinct as \<and> dll (lr_store s) None as None \<and>
     lr_head s = first_or as None \<and> lr_tail s = last_or None as"

text \<open>What the links do not touch: the payload of every node and the other fields.\<close>

definition payload :: "('k, 'v) lnode \<Rightarrow> 'k \<times> 'v \<times> time" where
  "payload n = (ln_key n, ln_value n, ln_expires n)"

definition same_frame :: "('k, 'v) lru \<Rightarrow> ('k, 'v) lru \<Rightarrow> bool" where
  "same_frame s t \<longleftrightarrow>
     (\<forall>a. payload (lr_store t a) = payload (lr_store s a)) \<and> lr_fresh t = lr_fresh s \<and>
     lr_map t = lr_map s \<and> lr_max t = lr_max s \<and> lr_ttl t = lr_ttl s \<and> lr_hits t = lr_hits s \<and>
     lr_misses t = lr_misses s \<and> lr_evictions t = lr_evictions s \<and> lr_expirations t = lr_expirations s"

lemma same_frame_refl [simp]: "same_frame s s"
  by (simp add: same_frame_def)

lemma same_frame_trans: "same_frame s t \<Longrightarrow> same_frame t u \<Longrightarrow> same_frame s u"
  by (simp add: same_frame_def)

lemma remove_node_frame [simp]: "same_frame s (remove_node a s)"
  by (simp add: same_frame_def remove_node_def upd_node_def Let_def payload_def split: option.split)

lemma add_to_front_frame [simp]: "same_frame s (add_to_front a s)"
  by (simp add: same_frame_def add_to_front_def upd_node_def Let_def payload_def split: option.split)

lemma move_to_front_frame [simp]: "same_frame s (move_to_front a s)"
  using same_frame_trans [OF remove_node_frame [of s a] add_to_front_frame [of _ a]]
  by (simp add: move_to_front_def)

lemma snoc_cases: obtains "xs = []" | ys y where "xs = ys @ [y]"
  by (cases xs rule: rev_cases) auto

lemma remove_node_links:
  assumes "links s (xs @ a # ys)"
  shows "links (remove_node a s) (xs @ ys)"
proof -
  have d: "distinct (xs @ a # ys)" and l: "dll (lr_store s) None (xs @ a # ys) None"
    using assms by (simp_all add: links_def)
  have prev: "ln_prev (lr_store s a) = last_or None xs"
    and succ: "ln_next (lr_store s a) = first_or ys None"
    using l by simp_all
  show ?thesis
  proof (cases xs rule: snoc_cases)
    case 1
    then show ?thesis
      using assms d prev succ
      by (cases ys) (auto simp: links_def remove_node_def upd_node_def Let_def)
  next
    case (2 xs' p)
    then show ?thesis
      using assms d prev succ
      by (cases ys) (auto simp: links_def remove_node_def upd_node_def Let_def)
  qed
qed

lemma add_to_front_links:
  assumes "links s as" and "a \<notin> set as"
  shows "links (add_to_front a s) (a # as)"
  using assms by (cases as) (auto simp: links_def add_to_front_def upd_node_def Let_def)

lemma move_to_front_links:
  assumes "links s (xs @ a # ys)"
  shows "links (move_to_front a s) (a # xs @ ys)"
proof (cases "lr_head s = Some a")
  case True
  then have "xs = []" using assms by (cases xs) (auto simp: links_def)
  then show ?thesis using assms True by (simp add: move_to_front_def)
next
  case False
  then show ?thesis
    using add_to_front_links [OF remove_node_links [OF assms]] assms
    by (simp add: move_to_front_def links_def)
qed

lemma walk_keys_dll:
  "dll st p as None \<Longrightarrow> walk_keys st (first_or as None) = Some (map (\<lambda>a. ln_key (st a)) as)"
proof (induction as arbitrary: p)
  case Nil
  then show ?case by (simp add: walk_keys.simps)
next
  case (Cons a as)
  then have "walk_keys st (first_or as None) = Some (map (\<lambda>a. ln_key (st a)) as)"
    and "ln_next (st a) = first_or as None"
    by auto
  then show ?case by (simp add: walk_keys.simps [of st "Some a"])
qed

section \<open>The specification: entries in recency order\<close>

type_synonym ('k, 'v) entries = "('k \<times> 'v \<times> time) list"

definition entry_expired :: "time \<Rightarrow> 'k \<times> 'v \<times> time \<Rightarrow> bool" where
  "entry_expired now e \<longleftrightarrow> snd (snd e) \<noteq> 0 \<and> snd (snd e) \<le> now"

definition without :: "'k \<Rightarrow> ('k, 'v) entries \<Rightarrow> ('k, 'v) entries" where
  "without k es = filter (\<lambda>e. fst e \<noteq> k) es"

definition spec_get :: "time \<Rightarrow> 'k \<Rightarrow> ('k, 'v) entries \<Rightarrow> 'v option \<times> ('k, 'v) entries" where
  "spec_get now k es =
     (case map_of es k of
        None \<Rightarrow> (None, es)
      | Some (v, x) \<Rightarrow>
          if entry_expired now (k, v, x) then (None, without k es)
          else (Some v, (k, v, x) # without k es))"

definition spec_has :: "time \<Rightarrow> 'k \<Rightarrow> ('k, 'v) entries \<Rightarrow> bool \<times> ('k, 'v) entries" where
  "spec_has now k es =
     (case map_of es k of
        None \<Rightarrow> (False, es)
      | Some (v, x) \<Rightarrow> if entry_expired now (k, v, x) then (False, without k es) else (True, es))"

text \<open>A new key that exceeds the capacity pushes out the least recently used entry.\<close>

definition spec_put ::
  "nat \<Rightarrow> time \<Rightarrow> 'k \<Rightarrow> 'v \<Rightarrow> time \<Rightarrow> ('k, 'v) entries \<Rightarrow> ('k, 'v) entries" where
  "spec_put cap now k v ttl es =
     (let e = (k, v, expiry_for now ttl) in
      if k \<in> fst ` set es then e # without k es
      else if cap < Suc (length es) then butlast (e # es) else e # es)"

definition spec_delete :: "'k \<Rightarrow> ('k, 'v) entries \<Rightarrow> bool \<times> ('k, 'v) entries" where
  "spec_delete k es = (k \<in> fst ` set es, without k es)"

definition spec_prune :: "time \<Rightarrow> ('k, 'v) entries \<Rightarrow> nat \<times> ('k, 'v) entries" where
  "spec_prune now es =
     (length (filter (entry_expired now) es), filter (\<lambda>e. \<not> entry_expired now e) es)"

section \<open>Refinement\<close>

definition lru_rel :: "('k, 'v) lru \<Rightarrow> addr list \<Rightarrow> bool" where
  "lru_rel s as \<longleftrightarrow>
     links s as \<and> (\<forall>a\<in>set as. a < lr_fresh s) \<and> jm_wf (lr_map s) \<and>
     (\<forall>k a. jm_get (lr_map s) k = Some a \<longleftrightarrow> a \<in> set as \<and> ln_key (lr_store s a) = k)"

definition entries_at :: "('k, 'v) lru \<Rightarrow> addr list \<Rightarrow> ('k, 'v) entries" where
  "entries_at s as = map (\<lambda>a. payload (lr_store s a)) as"

text \<open>\<open>lru_sim s es\<close>: the pointer state \<open>s\<close> represents the entries \<open>es\<close>, most recent first.\<close>

definition lru_sim :: "('k, 'v) lru \<Rightarrow> ('k, 'v) entries \<Rightarrow> bool" where
  "lru_sim s es \<longleftrightarrow> (\<exists>as. lru_rel s as \<and> es = entries_at s as)"

lemma same_frame_entries: "same_frame s t \<Longrightarrow> entries_at t as = entries_at s as"
  by (simp add: entries_at_def same_frame_def)

lemma same_frame_key: "same_frame s t \<Longrightarrow> ln_key (lr_store t a) = ln_key (lr_store s a)"
  by (simp add: same_frame_def payload_def)

lemma rel_distinct: "lru_rel s as \<Longrightarrow> distinct as"
  by (simp add: lru_rel_def links_def)

lemma rel_keys_distinct:
  assumes "lru_rel s as"
  shows "distinct (map (\<lambda>a. ln_key (lr_store s a)) as)"
proof -
  have "inj_on (\<lambda>a. ln_key (lr_store s a)) (set as)"
    using assms unfolding lru_rel_def inj_on_def by (metis option.inject)
  then show ?thesis using rel_distinct [OF assms] by (simp add: distinct_map)
qed

lemma entries_keys: "map fst (entries_at s as) = map (\<lambda>a. ln_key (lr_store s a)) as"
  by (simp add: entries_at_def payload_def)

lemma map_of_entries:
  assumes rel: "lru_rel s as"
  shows "map_of (entries_at s as) k =
    map_option (\<lambda>a. (ln_value (lr_store s a), ln_expires (lr_store s a))) (jm_get (lr_map s) k)"
proof (cases "jm_get (lr_map s) k")
  case None
  then have "k \<notin> set (map fst (entries_at s as))"
    using rel unfolding entries_keys lru_rel_def by force
  then have "map_of (entries_at s as) k = None" by (simp only: map_of_eq_None_iff set_map not_False_eq_True)
  then show ?thesis using None by simp
next
  case (Some a)
  then have a: "a \<in> set as" "ln_key (lr_store s a) = k" using rel by (simp_all add: lru_rel_def)
  then have "(k, ln_value (lr_store s a), ln_expires (lr_store s a)) \<in> set (entries_at s as)"
    by (force simp: entries_at_def payload_def)
  moreover have "distinct (map fst (entries_at s as))"
    using rel_keys_distinct [OF rel] by (simp only: entries_keys)
  ultimately show ?thesis using Some by simp
qed

lemma rel_lookup_split:
  assumes rel: "lru_rel s as" and get: "jm_get (lr_map s) k = Some a"
  obtains xs ys where "as = xs @ a # ys" "ln_key (lr_store s a) = k"
    "\<forall>b\<in>set (xs @ ys). ln_key (lr_store s b) \<noteq> k"
proof -
  have a: "a \<in> set as" "ln_key (lr_store s a) = k"
    using assms by (simp_all add: lru_rel_def)
  then obtain xs ys where as: "as = xs @ a # ys" by (metis split_list)
  have "\<forall>b\<in>set (xs @ ys). ln_key (lr_store s b) \<noteq> k"
    using rel_keys_distinct [OF rel] a(2) by (force simp: as image_iff)
  then show ?thesis using that as a by blast
qed

lemma without_entries:
  assumes "\<forall>b\<in>set (xs @ ys). ln_key (lr_store s b) \<noteq> k" and "ln_key (lr_store s a) = k"
  shows "without k (entries_at s (xs @ a # ys)) = entries_at s (xs @ ys)"
  using assms by (auto simp: without_def entries_at_def payload_def filter_id_conv)

text \<open>Unlinking a node and forgetting its key.\<close>

lemma rel_remove:
  assumes rel: "lru_rel s (xs @ a # ys)" and key: "ln_key (lr_store s a) = k"
    and t: "links t (xs @ ys)" "same_frame s t"
  shows "lru_rel (t\<lparr>lr_map := jm_delete k (lr_map t)\<rparr>) (xs @ ys)"
proof -
  have dist: "distinct (map (\<lambda>a. ln_key (lr_store s a)) (xs @ a # ys))"
    using rel by (rule rel_keys_distinct)
  have "jm_get (jm_delete k (lr_map s)) k' = Some b \<longleftrightarrow>
      b \<in> set (xs @ ys) \<and> ln_key (lr_store s b) = k'" for k' b
  proof -
    have "\<forall>b\<in>set (xs @ ys). ln_key (lr_store s b) \<noteq> k" using dist key by (force simp: image_iff)
    then show ?thesis using rel key by (auto simp: lru_rel_def jm_get_delete)
  qed
  then show ?thesis
    using rel t same_frame_key [OF t(2)] by (auto simp: lru_rel_def same_frame_def links_def)
qed

lemma rel_move:
  assumes "lru_rel s (xs @ a # ys)" and "links t (a # xs @ ys)" "same_frame s t"
  shows "lru_rel t (a # xs @ ys)"
  using assms same_frame_key [OF assms(3)] by (auto simp: lru_rel_def same_frame_def)

lemma rel_counters [simp]:
  "lru_rel (s\<lparr>lr_hits := h\<rparr>) as = lru_rel s as" "lru_rel (s\<lparr>lr_misses := h\<rparr>) as = lru_rel s as"
  "lru_rel (s\<lparr>lr_evictions := h\<rparr>) as = lru_rel s as" "lru_rel (s\<lparr>lr_expirations := h\<rparr>) as = lru_rel s as"
  by (simp_all add: lru_rel_def links_def)

lemma entries_counters [simp]:
  "entries_at (s\<lparr>lr_hits := h\<rparr>) as = entries_at s as" "entries_at (s\<lparr>lr_misses := h\<rparr>) as = entries_at s as"
  "entries_at (s\<lparr>lr_evictions := h\<rparr>) as = entries_at s as"
  "entries_at (s\<lparr>lr_expirations := h\<rparr>) as = entries_at s as"
  "entries_at (s\<lparr>lr_map := m\<rparr>) as = entries_at s as"
  by (simp_all add: entries_at_def)

lemma length_map_rel:
  assumes rel: "lru_rel s as"
  shows "length (lr_map s) = length as"
proof -
  have wf: "jm_wf (lr_map s)" using rel by (simp add: lru_rel_def)
  have "set (lr_map s) = (\<lambda>a. (ln_key (lr_store s a), a)) ` set as"
    using rel jm_get_set_mem [OF wf] by (auto simp: lru_rel_def)
  then have "card (set (lr_map s)) = card (set as)"
    by (simp add: card_image inj_on_def)
  moreover have "distinct (lr_map s)" using wf by (simp add: jm_wf_def distinct_map)
  ultimately show ?thesis using rel_distinct [OF rel] by (simp add: distinct_card)
qed

lemma entries_Cons: "entries_at s (a # as) = payload (lr_store s a) # entries_at s as"
  by (simp add: entries_at_def)

lemma expired_entry: "is_expired now n \<longleftrightarrow> entry_expired now (payload n)"
  by (simp add: is_expired_def entry_expired_def payload_def)

lemma sim_counters [simp]:
  "lru_sim (s\<lparr>lr_hits := h\<rparr>) es = lru_sim s es" "lru_sim (s\<lparr>lr_misses := h\<rparr>) es = lru_sim s es"
  "lru_sim (s\<lparr>lr_evictions := h\<rparr>) es = lru_sim s es" "lru_sim (s\<lparr>lr_expirations := h\<rparr>) es = lru_sim s es"
  by (simp_all add: lru_sim_def)

text \<open>The two outcomes of the map lookup every operation starts with.\<close>

lemma sim_miss:
  assumes "lru_rel s as" and "jm_get (lr_map s) k = None"
  shows "map_of (entries_at s as) k = None" "k \<notin> fst ` set (entries_at s as)"
    "without k (entries_at s as) = entries_at s as"
proof -
  show "map_of (entries_at s as) k = None"
    using map_of_entries [OF assms(1), of k] assms(2) by simp
  then show notin: "k \<notin> fst ` set (entries_at s as)"
    by (simp only: map_of_eq_None_iff not_False_eq_True)
  then show "without k (entries_at s as) = entries_at s as"
    by (force simp: without_def filter_id_conv)
qed

lemma sim_hit:
  assumes rel: "lru_rel s as" and get: "jm_get (lr_map s) k = Some a"
  shows "map_of (entries_at s as) k = Some (ln_value (lr_store s a), ln_expires (lr_store s a))"
    and "payload (lr_store s a) = (k, ln_value (lr_store s a), ln_expires (lr_store s a))"
    and "k \<in> fst ` set (entries_at s as)"
    and "lru_sim ((remove_node a s)\<lparr>lr_map := jm_delete k (lr_map (remove_node a s))\<rparr>)
           (without k (entries_at s as))"
    and "lru_sim (move_to_front a s) (payload (lr_store s a) # without k (entries_at s as))"
proof -
  obtain xs ys where as: "as = xs @ a # ys" and key: "ln_key (lr_store s a) = k"
      and others: "\<forall>b\<in>set (xs @ ys). ln_key (lr_store s b) \<noteq> k"
    using rel_lookup_split [OF rel get] by blast
  have links: "links s (xs @ a # ys)" using rel as by (simp add: lru_rel_def)
  have wo: "without k (entries_at s as) = entries_at s (xs @ ys)"
    using without_entries [OF others key] as by simp
  show mo: "map_of (entries_at s as) k = Some (ln_value (lr_store s a), ln_expires (lr_store s a))"
    using map_of_entries [OF rel, of k] get by simp
  show "payload (lr_store s a) = (k, ln_value (lr_store s a), ln_expires (lr_store s a))"
    by (simp add: payload_def key)
  show "k \<in> fst ` set (entries_at s as)"
    using map_of_SomeD [OF mo] by force
  show "lru_sim ((remove_node a s)\<lparr>lr_map := jm_delete k (lr_map (remove_node a s))\<rparr>)
      (without k (entries_at s as))"
    using rel_remove [OF rel [unfolded as] key remove_node_links [OF links] remove_node_frame]
    by (auto simp: lru_sim_def wo same_frame_entries [OF remove_node_frame] intro!: exI [of _ "xs @ ys"])
  show "lru_sim (move_to_front a s) (payload (lr_store s a) # without k (entries_at s as))"
    unfolding lru_sim_def wo entries_Cons [symmetric]
    using rel_move [OF rel [unfolded as] move_to_front_links [OF links] move_to_front_frame]
      same_frame_entries [OF move_to_front_frame [of s a]] by metis
qed

lemma frame_payload: "same_frame s t \<Longrightarrow> payload (lr_store t a) = payload (lr_store s a)"
  by (simp add: same_frame_def)

lemma frame_map: "same_frame s t \<Longrightarrow> lr_map t = lr_map s"
  by (simp add: same_frame_def)

lemma move_value [simp]: "ln_value (lr_store (move_to_front a s) b) = ln_value (lr_store s b)"
  using frame_payload [OF move_to_front_frame [of s a], of b] by (simp add: payload_def)

lemma lru_get_sim:
  assumes "lru_sim s es"
  shows "fst (lru_get now k s) = fst (spec_get now k es)"
    and "lru_sim (snd (lru_get now k s)) (snd (spec_get now k es))"
proof -
  obtain as where rel: "lru_rel s as" and es: "es = entries_at s as"
    using assms by (auto simp: lru_sim_def)
  show "fst (lru_get now k s) = fst (spec_get now k es)"
    "lru_sim (snd (lru_get now k s)) (snd (spec_get now k es))"
    using sim_miss [OF rel] sim_hit [OF rel] assms
    by (cases "jm_get (lr_map s) k"; simp add: lru_get_def spec_get_def es Let_def expired_entry)+
qed

lemma lru_has_sim:
  assumes "lru_sim s es"
  shows "fst (lru_has now k s) = fst (spec_has now k es)"
    and "lru_sim (snd (lru_has now k s)) (snd (spec_has now k es))"
proof -
  obtain as where rel: "lru_rel s as" and es: "es = entries_at s as"
    using assms by (auto simp: lru_sim_def)
  show "fst (lru_has now k s) = fst (spec_has now k es)"
    "lru_sim (snd (lru_has now k s)) (snd (spec_has now k es))"
    using sim_miss [OF rel] sim_hit [OF rel] assms
    by (cases "jm_get (lr_map s) k"; simp add: lru_has_def spec_has_def es Let_def expired_entry)+
qed

lemma lru_delete_sim:
  assumes "lru_sim s es"
  shows "fst (lru_delete k s) = fst (spec_delete k es)"
    and "lru_sim (snd (lru_delete k s)) (snd (spec_delete k es))"
proof -
  obtain as where rel: "lru_rel s as" and es: "es = entries_at s as"
    using assms by (auto simp: lru_sim_def)
  show "fst (lru_delete k s) = fst (spec_delete k es)"
    "lru_sim (snd (lru_delete k s)) (snd (spec_delete k es))"
    using sim_miss [OF rel] sim_hit [OF rel] assms frame_map [OF remove_node_frame [of s]]
    by (cases "jm_get (lr_map s) k"; simp add: lru_delete_def spec_delete_def es Let_def)+
qed

lemma lru_clear_sim: "lru_sim (lru_clear s) []"
  by (auto simp: lru_sim_def lru_rel_def links_def lru_clear_def entries_at_def)

lemma lru_new_sim: "lru_new max_size ttl = Inr s \<Longrightarrow> lru_sim s []"
  by (auto simp: lru_sim_def lru_rel_def links_def lru_new_def entries_at_def split: if_splits)

text \<open>Eviction drops the last entry.\<close>

lemma evict_sim:
  assumes "lru_sim s es"
  shows "lru_sim (evict s) (butlast es)"
proof -
  obtain as where rel: "lru_rel s as" and es: "es = entries_at s as"
    using assms by (auto simp: lru_sim_def)
  have tail: "lr_tail s = last_or None as" using rel by (simp add: lru_rel_def links_def)
  show ?thesis
  proof (cases as rule: snoc_cases)
    case 1
    then show ?thesis using assms tail es by (simp add: evict_def entries_at_def)
  next
    case (2 ys a)
    have links: "links s (ys @ [a])" using rel 2 by (simp add: lru_rel_def)
    have key: "ln_key (lr_store (remove_node a s) a) = ln_key (lr_store s a)"
      using same_frame_key [OF remove_node_frame] by blast
    have "lru_rel ((remove_node a s)\<lparr>lr_map := jm_delete (ln_key (lr_store s a)) (lr_map (remove_node a s))\<rparr>) ys"
      using rel_remove [where xs = ys and ys = "[]", OF _ refl _ remove_node_frame] rel 2
        remove_node_links [where xs = ys and ys = "[]", OF links] by simp
    moreover have "butlast es = entries_at (remove_node a s) ys"
      by (simp add: es 2 same_frame_entries [OF remove_node_frame]) (simp add: entries_at_def butlast_append)
    ultimately show ?thesis
      using tail 2 key by (auto simp: evict_def Let_def lru_sim_def intro!: exI [of _ ys])
  qed
qed

lemma rel_frame:
  assumes "links t bs" and "same_frame s t" and "\<forall>a\<in>set bs. a < lr_fresh s" and "jm_wf (lr_map s)"
    and "\<And>k a. jm_get (lr_map s) k = Some a \<longleftrightarrow> a \<in> set bs \<and> ln_key (lr_store s a) = k"
  shows "lru_rel t bs"
  using assms same_frame_key [OF assms(2)] by (simp add: lru_rel_def same_frame_def)

lemma insert_new_rel:
  assumes rel: "lru_rel s as" and new: "jm_get (lr_map s) k = None"
    and n: "ln_key n = k"
  shows "lru_rel (add_to_front (lr_fresh s)
      (s\<lparr>lr_store := (lr_store s)(lr_fresh s := n), lr_fresh := lr_fresh s + 1,
         lr_map := jm_set k (lr_fresh s) (lr_map s)\<rparr>)) (lr_fresh s # as)" (is "lru_rel (add_to_front ?a ?s) _")
proof -
  have fresh: "?a \<notin> set as" using rel by (auto simp: lru_rel_def)
  then have "links ?s as" using rel by (simp add: lru_rel_def links_def)
  then have links: "links (add_to_front ?a ?s) (?a # as)" using fresh by (rule add_to_front_links)
  have frame: "same_frame ?s (add_to_front ?a ?s)" by simp
  have "jm_get (lr_map ?s) k' = Some b \<longleftrightarrow> b \<in> set (?a # as) \<and> ln_key (lr_store ?s b) = k'" for k' b
  proof -
    have "\<forall>b\<in>set as. ln_key (lr_store s b) \<noteq> k" using rel new by (force simp: lru_rel_def)
    then show ?thesis using rel n fresh by (auto simp: lru_rel_def jm_get_set)
  qed
  then show ?thesis
    using rel by (intro rel_frame [OF links frame]) (auto simp: lru_rel_def)
qed

lemma lru_put_sim:
  assumes sim: "lru_sim s es" and cap: "lr_max s = int cap"
  shows "lru_sim (lru_put now k v ttl s)
      (spec_put cap now k v (case ttl of None \<Rightarrow> lr_ttl s | Some t \<Rightarrow> t) es)"
proof -
  obtain as where rel: "lru_rel s as" and es: "es = entries_at s as"
    using sim by (auto simp: lru_sim_def)
  let ?x = "expiry_for now (case ttl of None \<Rightarrow> lr_ttl s | Some t \<Rightarrow> t)"
  show ?thesis
  proof (cases "jm_get (lr_map s) k")
    case None
    let ?a = "lr_fresh s"
    let ?n = "\<lparr>ln_key = k, ln_value = v, ln_expires = ?x, ln_prev = None, ln_next = None\<rparr>"
    let ?s = "s\<lparr>lr_store := (lr_store s)(?a := ?n), lr_fresh := ?a + 1, lr_map := jm_set k ?a (lr_map s)\<rparr>"
    let ?t = "add_to_front ?a ?s"
    have rel': "lru_rel ?t (?a # as)" using rel None by (intro insert_new_rel) simp_all
    have "entries_at ?t (?a # as) = (k, v, ?x) # es"
    proof -
      have "?a \<notin> set as" using rel by (auto simp: lru_rel_def)
      then have "entries_at ?s (?a # as) = (k, v, ?x) # es"
        by (auto simp: entries_at_def es payload_def)
      then show ?thesis
        using same_frame_entries [OF add_to_front_frame [of ?s ?a]] by metis
    qed
    then have sim': "lru_sim ?t ((k, v, ?x) # es)" using rel' by (auto simp: lru_sim_def)
    have len: "length (lr_map ?t) = Suc (length es)"
      using length_map_rel [OF rel'] by (simp add: es entries_at_def)
    have mx: "lr_max ?t = int cap" using add_to_front_frame [of ?s ?a] cap by (simp add: same_frame_def)
    have "k \<notin> fst ` set es" using sim_miss(2) [OF rel None] es by simp
    then show ?thesis
      using sim' evict_sim [OF sim'] None len mx by (simp add: lru_put_def spec_put_def Let_def)
  next
    case (Some a)
    let ?s = "upd_node a (\<lambda>n. n\<lparr>ln_expires := ?x\<rparr>) (upd_node a (\<lambda>n. n\<lparr>ln_value := v\<rparr>) s)"
    have key: "ln_key (lr_store s a) = k" using rel Some by (simp add: lru_rel_def)
    have "dll (lr_store ?s) None as None = dll (lr_store s) None as None"
      by (rule dll_cong) (simp add: upd_node_def)
    then have rel': "lru_rel ?s as"
      using rel by (auto simp: lru_rel_def links_def upd_node_def)
    have get': "jm_get (lr_map ?s) k = Some a" using Some by (simp add: upd_node_def)
    have "without k (entries_at ?s as) = without k es"
      using rel key by (auto simp: es entries_at_def without_def filter_map comp_def payload_def upd_node_def
          intro!: map_cong filter_cong)
    moreover have "payload (lr_store ?s a) = (k, v, ?x)" by (simp add: payload_def upd_node_def key)
    ultimately show ?thesis
      using sim_hit(5) [OF rel' get'] sim_hit(3) [OF rel Some] Some es
      by (simp add: lru_put_def spec_put_def Let_def)
  qed
qed

lemma filter_split_out:
  "distinct (xs @ a # ys) \<Longrightarrow> P a \<Longrightarrow>
     filter (\<lambda>b. \<not> ((b = a \<or> Q b) \<and> P b)) (xs @ a # ys) = filter (\<lambda>b. \<not> (Q b \<and> P b)) (xs @ ys)"
proof -
  assume "distinct (xs @ a # ys)" "P a"
  moreover have "filter (\<lambda>b. \<not> ((b = a \<or> Q b) \<and> P b)) zs = filter (\<lambda>b. \<not> (Q b \<and> P b)) zs"
    if "a \<notin> set zs" for zs
    using that by (intro filter_cong) auto
  ultimately show ?thesis by simp
qed

text \<open>The sweep removes exactly the expired ones among the nodes it visits.\<close>

lemma prune_loop_rel:
  "lru_rel s as \<Longrightarrow> distinct bs \<Longrightarrow> set bs \<subseteq> set as \<Longrightarrow>
     prune_loop now bs n s = (m, t) \<Longrightarrow>
     m = n + length (filter (\<lambda>a. is_expired now (lr_store s a)) bs) \<and>
     lru_rel t (filter (\<lambda>a. \<not> (a \<in> set bs \<and> is_expired now (lr_store s a))) as) \<and>
     (\<forall>a. payload (lr_store t a) = payload (lr_store s a)) \<and> lr_max t = lr_max s \<and> lr_ttl t = lr_ttl s"
proof (induction bs arbitrary: s as n)
  case Nil
  then show ?case by simp
next
  case (Cons a bs)
  show ?case
  proof (cases "is_expired now (lr_store s a)")
    case False
    then have "filter (\<lambda>b. \<not> (b \<in> set (a # bs) \<and> is_expired now (lr_store s b))) as =
        filter (\<lambda>b. \<not> (b \<in> set bs \<and> is_expired now (lr_store s b))) as"
      by (intro filter_cong) auto
    then show ?thesis using Cons.IH [OF Cons.prems(1)] Cons.prems False by simp
  next
    case True
    let ?r = "remove_node a s"
    let ?s = "?r\<lparr>lr_map := jm_delete (ln_key (lr_store ?r a)) (lr_map ?r)\<rparr>"
    obtain xs ys where as: "as = xs @ a # ys"
      using Cons.prems(3) by (metis list.set_intros(1) split_list subset_iff)
    have dist: "distinct (xs @ a # ys)" using rel_distinct [OF Cons.prems(1)] as by simp
    have frame: "same_frame s ?r" by simp
    have links: "links ?r (xs @ ys)"
      using Cons.prems(1) as by (auto simp: lru_rel_def intro: remove_node_links)
    have rel: "lru_rel ?s (xs @ ys)"
      using rel_remove [OF Cons.prems(1) [unfolded as] _ links frame] same_frame_key [OF frame] by simp
    have pl: "payload (lr_store ?s b) = payload (lr_store s b)" for b
      using frame_payload [OF frame] by simp
    then have ex: "is_expired now (lr_store ?s b) = is_expired now (lr_store s b)" for b
      by (simp add: expired_entry)
    have sub: "set bs \<subseteq> set (xs @ ys)" "distinct bs"
      using Cons.prems(2,3) as dist by auto
    have "prune_loop now bs (n + 1) ?s = (m, t)"
      using Cons.prems(4) True by (simp add: Let_def)
    from Cons.IH [OF rel sub(2,1) this]
    have IH: "m = n + 1 + length (filter (\<lambda>a. is_expired now (lr_store s a)) bs)"
      "lru_rel t (filter (\<lambda>a. \<not> (a \<in> set bs \<and> is_expired now (lr_store s a))) (xs @ ys))"
      "\<forall>a. payload (lr_store t a) = payload (lr_store s a)"
      "lr_max t = lr_max ?s" "lr_ttl t = lr_ttl ?s"
      unfolding ex pl by blast+
    moreover have "filter (\<lambda>b. \<not> (b \<in> set (a # bs) \<and> is_expired now (lr_store s b))) as =
        filter (\<lambda>b. \<not> (b \<in> set bs \<and> is_expired now (lr_store s b))) (xs @ ys)"
      using filter_split_out [OF dist, of "\<lambda>b. is_expired now (lr_store s b)" "\<lambda>b. b \<in> set bs"] True
      by (simp only: as list.set insert_iff)
    moreover have "lr_max ?s = lr_max s" "lr_ttl ?s = lr_ttl s"
      using frame by (simp_all add: same_frame_def)
    ultimately show ?thesis using True by simp
  qed
qed

lemma lru_prune_sim:
  assumes "lru_sim s es"
  shows "fst (lru_prune now s) = fst (spec_prune now es)"
    and "lru_sim (snd (lru_prune now s)) (snd (spec_prune now es))"
    and "lr_max (snd (lru_prune now s)) = lr_max s" "lr_ttl (snd (lru_prune now s)) = lr_ttl s"
proof -
  obtain as where rel: "lru_rel s as" and es: "es = entries_at s as"
    using assms by (auto simp: lru_sim_def)
  have wf: "jm_wf (lr_map s)" using rel by (simp add: lru_rel_def)
  let ?vs = "map snd (lr_map s)"
  have get: "jm_get (lr_map s) k = Some a \<longleftrightarrow> a \<in> set as \<and> ln_key (lr_store s a) = k" for k a
    using rel by (simp add: lru_rel_def)
  have set: "set ?vs = set as"
  proof (intro set_eqI iffI)
    fix a assume "a \<in> set ?vs"
    then obtain k where "(k, a) \<in> set (lr_map s)" by auto
    then show "a \<in> set as" using get [of k a] jm_get_set_mem [OF wf, of k a] by blast
  next
    fix a assume "a \<in> set as"
    then have "(ln_key (lr_store s a), a) \<in> set (lr_map s)"
      using get [of "ln_key (lr_store s a)" a] jm_get_set_mem [OF wf] by blast
    then show "a \<in> set ?vs" by force
  qed
  then have dist: "distinct ?vs"
    using length_map_rel [OF rel] rel_distinct [OF rel]
    by (metis card_distinct distinct_card length_map)
  obtain m t where loop: "prune_loop now ?vs 0 s = (m, t)" by fastforce
  note P = prune_loop_rel [OF rel dist equalityD1 [OF set] loop]
  let ?live = "filter (\<lambda>a. \<not> is_expired now (lr_store s a)) as"
  have flt: "filter (\<lambda>a. \<not> (a \<in> set ?vs \<and> is_expired now (lr_store s a))) as = ?live"
    unfolding set by (rule filter_cong) auto
  have "length (filter (\<lambda>a. is_expired now (lr_store s a)) ?vs) =
      length (filter (\<lambda>a. is_expired now (lr_store s a)) as)"
  proof -
    have "mset ?vs = mset as" using set dist rel_distinct [OF rel] by (simp only: set_eq_iff_mset_eq_distinct)
    then have "mset (filter (\<lambda>a. is_expired now (lr_store s a)) ?vs) =
        mset (filter (\<lambda>a. is_expired now (lr_store s a)) as)"
      by (simp only: mset_filter)
    then show ?thesis by (rule mset_eq_length)
  qed
  then have m: "m = fst (spec_prune now es)"
    using P by (simp add: es spec_prune_def entries_at_def filter_map comp_def expired_entry)
  have rel': "lru_rel t ?live" using P flt by simp
  have "entries_at t ?live = snd (spec_prune now es)"
    using P by (simp add: es spec_prune_def entries_at_def filter_map comp_def expired_entry)
  then have "lru_sim t (snd (spec_prune now es))" using rel' lru_sim_def by metis
  then show "fst (lru_prune now s) = fst (spec_prune now es)"
    "lru_sim (snd (lru_prune now s)) (snd (spec_prune now es))"
    "lr_max (snd (lru_prune now s)) = lr_max s" "lr_ttl (snd (lru_prune now s)) = lr_ttl s"
    using m P by (simp_all add: lru_prune_def loop)
qed

section \<open>Runs\<close>

datatype ('k, 'v) lru_op =
  OpGet 'k | OpHas 'k | OpPut 'k 'v "time option" | OpDelete 'k | OpPrune | OpClear

datatype 'v lru_result = RValue "'v option" | RBool bool | RCount nat | RUnit

definition lru_step :: "time \<Rightarrow> ('k, 'v) lru_op \<Rightarrow> ('k, 'v) lru \<Rightarrow> 'v lru_result \<times> ('k, 'v) lru" where
  "lru_step now oper s =
     (case oper of
        OpGet k \<Rightarrow> map_prod RValue id (lru_get now k s)
      | OpHas k \<Rightarrow> map_prod RBool id (lru_has now k s)
      | OpPut k v ttl \<Rightarrow> (RUnit, lru_put now k v ttl s)
      | OpDelete k \<Rightarrow> map_prod RBool id (lru_delete k s)
      | OpPrune \<Rightarrow> map_prod RCount id (lru_prune now s)
      | OpClear \<Rightarrow> (RUnit, lru_clear s))"

definition spec_step ::
  "nat \<Rightarrow> time \<Rightarrow> time \<Rightarrow> ('k, 'v) lru_op \<Rightarrow> ('k, 'v) entries \<Rightarrow> 'v lru_result \<times> ('k, 'v) entries" where
  "spec_step cap default_ttl now oper es =
     (case oper of
        OpGet k \<Rightarrow> map_prod RValue id (spec_get now k es)
      | OpHas k \<Rightarrow> map_prod RBool id (spec_has now k es)
      | OpPut k v ttl \<Rightarrow> (RUnit, spec_put cap now k v (case ttl of None \<Rightarrow> default_ttl | Some t \<Rightarrow> t) es)
      | OpDelete k \<Rightarrow> map_prod RBool id (spec_delete k es)
      | OpPrune \<Rightarrow> map_prod RCount id (spec_prune now es)
      | OpClear \<Rightarrow> (RUnit, []))"

fun run :: "(time \<Rightarrow> 'o \<Rightarrow> 's \<Rightarrow> 'r \<times> 's) \<Rightarrow> (time \<times> 'o) list \<Rightarrow> 's \<Rightarrow> 'r list \<times> 's" where
  "run step [] s = ([], s)"
| "run step ((now, oper) # ops) s =
     (let (r, s') = step now oper s; (rs, s'') = run step ops s' in (r # rs, s''))"

lemma upd_node_fixed [simp]: "lr_max (upd_node a f s) = lr_max s" "lr_ttl (upd_node a f s) = lr_ttl s"
  by (simp_all add: upd_node_def)

lemma node_ops_fixed [simp]:
  "lr_max (remove_node a s) = lr_max s" "lr_ttl (remove_node a s) = lr_ttl s"
  "lr_max (add_to_front a s) = lr_max s" "lr_ttl (add_to_front a s) = lr_ttl s"
  "lr_max (move_to_front a s) = lr_max s" "lr_ttl (move_to_front a s) = lr_ttl s"
  using remove_node_frame [of s a] add_to_front_frame [of s a] move_to_front_frame [of s a]
  by (simp_all add: same_frame_def)

lemma evict_fixed [simp]: "lr_max (evict s) = lr_max s" "lr_ttl (evict s) = lr_ttl s"
  by (simp_all add: evict_def Let_def split: option.split)

lemma lru_step_sim:
  assumes sim: "lru_sim s es" and cap: "lr_max s = int cap"
  shows "fst (lru_step now oper s) = fst (spec_step cap (lr_ttl s) now oper es)"
    and "lru_sim (snd (lru_step now oper s)) (snd (spec_step cap (lr_ttl s) now oper es))"
    and "lr_max (snd (lru_step now oper s)) = lr_max s" "lr_ttl (snd (lru_step now oper s)) = lr_ttl s"
proof -
  show "fst (lru_step now oper s) = fst (spec_step cap (lr_ttl s) now oper es)"
    "lru_sim (snd (lru_step now oper s)) (snd (spec_step cap (lr_ttl s) now oper es))"
    by (cases oper; simp add: lru_step_def spec_step_def lru_get_sim [OF sim] lru_has_sim [OF sim]
        lru_put_sim [OF sim cap] lru_delete_sim [OF sim] lru_prune_sim [OF sim] lru_clear_sim)+
  show "lr_max (snd (lru_step now oper s)) = lr_max s" "lr_ttl (snd (lru_step now oper s)) = lr_ttl s"
    by (cases oper; simp add: lru_step_def lru_get_def lru_has_def lru_put_def lru_delete_def
        lru_clear_def Let_def lru_prune_sim [OF sim] split: option.split)+
qed

lemma run_Cons:
  "fst (run step ((now, oper) # ops) s) =
     fst (step now oper s) # fst (run step ops (snd (step now oper s)))"
  "snd (run step ((now, oper) # ops) s) = snd (run step ops (snd (step now oper s)))"
  by (simp_all add: Let_def split: prod.split)

lemma lru_run_sim:
  "lru_sim s es \<Longrightarrow> lr_max s = int cap \<Longrightarrow>
     fst (run lru_step ops s) = fst (run (spec_step cap (lr_ttl s)) ops es) \<and>
     lru_sim (snd (run lru_step ops s)) (snd (run (spec_step cap (lr_ttl s)) ops es))"
proof (induction ops arbitrary: s es)
  case Nil
  then show ?case by simp
next
  case (Cons x ops)
  obtain now oper where x: "x = (now, oper)" by (cases x)
  note S = lru_step_sim [OF Cons.prems, of now oper]
  show ?case
    using Cons.IH [OF S(2)] S(1,3,4) Cons.prems(2)
    by (simp only: x run_Cons fst_conv snd_conv simp_thms)
qed

text \<open>Bounds of the specification.\<close>

lemma spec_distinct_step:
  "distinct (map fst es) \<Longrightarrow> distinct (map fst (snd (spec_step cap ttl now oper es)))"
  by (cases oper)
    (auto simp: spec_step_def spec_get_def spec_has_def spec_put_def spec_delete_def spec_prune_def
      without_def Let_def distinct_map_filter map_butlast distinct_butlast dest: in_set_butlastD split: option.splits)

lemma length_without: "k \<in> fst ` set es \<Longrightarrow> length (without k es) < length es"
  unfolding without_def using length_filter_less [of _ es "\<lambda>e. fst e \<noteq> k"] by blast

lemma spec_bound_step:
  assumes "length es \<le> cap" and "0 < cap"
  shows "length (snd (spec_step cap ttl now oper es)) \<le> cap"
proof -
  have wo: "length (without k es) \<le> cap" for k :: 'a
    using assms(1) order_trans [OF length_filter_le] by (simp add: without_def)
  have in_wo: "Suc (length (without k es)) \<le> cap" if "k \<in> fst ` set es" for k
    using length_without [OF that] assms(1) by simp
  have hit: "k \<in> fst ` set es" if "map_of es k = Some p" for k p
    using map_of_SomeD [OF that] by force
  have pr: "length (filter (\<lambda>e. \<not> entry_expired now e) es) \<le> cap"
    using assms(1) order_trans [OF length_filter_le] by blast
  have "length (snd (spec_get now k es)) \<le> cap" for k
    using assms wo [of k] in_wo [of k] hit [of k]
    by (cases "map_of es k") (simp_all add: spec_get_def split: prod.split)
  moreover have "length (snd (spec_has now k es)) \<le> cap" for k
    using assms wo by (auto simp: spec_has_def split: option.split)
  moreover have "length (spec_put cap now k v t es) \<le> cap" for k v t
    using assms in_wo [of k] by (auto simp: spec_put_def Let_def)
  moreover have "length (snd (spec_delete k es)) \<le> cap" for k
    using wo by (simp add: spec_delete_def)
  moreover have "length (snd (spec_prune now es)) \<le> cap"
    using pr by (simp add: spec_prune_def)
  ultimately show ?thesis
    using assms by (cases oper) (simp_all add: spec_step_def)
qed

lemma spec_run_inv:
  assumes "0 < cap"
  shows "distinct (map fst es) \<Longrightarrow> length es \<le> cap \<Longrightarrow>
     distinct (map fst (snd (run (spec_step cap ttl) ops es))) \<and>
     length (snd (run (spec_step cap ttl) ops es)) \<le> cap"
proof (induction ops arbitrary: es)
  case (Cons x ops)
  obtain now oper where x: "x = (now, oper)" by (cases x)
  show ?case
    unfolding x run_Cons
    by (rule Cons.IH [OF spec_distinct_step [OF Cons.prems(1)] spec_bound_step [OF Cons.prems(2) assms]])
qed simp

section \<open>Properties\<close>

text \<open>
  C1: \<open>LruCache\<close>: whatever sequence of operations runs on a new cache, the pointer
  implementation (shared nodes, doubly linked list, map) returns exactly what the list of
  entries in recency order returns, and afterwards holds the same entries: \<open>keys\<close>
  terminates and lists them most recent first, \<open>size\<close> counts them, no key occurs twice, and
  there are never more than \<open>maxSize\<close>.
\<close>

theorem lru_refines_recency_list:
  assumes "lru_new max_size ttl = Inr s0"
    and "run lru_step ops s0 = (results, s)"
    and "run (spec_step (nat max_size) (lr_ttl s0)) ops [] = (results', es)"
  shows "results = results' \<and> lru_keys s = Some (map fst es) \<and> lru_size s = length es \<and>
    distinct (map fst es) \<and> int (lru_size s) \<le> max_size"
proof -
  have max: "lr_max s0 = int (nat max_size)" "0 < nat max_size"
    using assms(1) by (auto simp: lru_new_def split: if_splits)
  have R: "fst (run lru_step ops s0) = fst (run (spec_step (nat max_size) (lr_ttl s0)) ops [])"
    "lru_sim (snd (run lru_step ops s0)) (snd (run (spec_step (nat max_size) (lr_ttl s0)) ops []))"
    using lru_run_sim [OF lru_new_sim [OF assms(1)] max(1), of ops] by blast+
  then obtain as where rel: "lru_rel s as" and es: "es = entries_at s as"
    using assms(2,3) by (auto simp: lru_sim_def)
  have "lru_keys s = Some (map fst es)"
    using rel walk_keys_dll [of "lr_store s" None as]
    by (simp add: lru_keys_def lru_rel_def links_def es entries_keys)
  moreover have "lru_size s = length es"
    using length_map_rel [OF rel] by (simp add: lru_size_def es entries_at_def)
  ultimately show ?thesis
    using R(1) assms(2,3) spec_run_inv [OF max(2), of "[]" "lr_ttl s0" ops] max(2)
    by (auto simp: le_nat_iff)
qed

text \<open>A cache of two entries: the least recently used key is pushed out, an expired one is a miss.\<close>

definition lru_example :: "(time \<times> (string, int) lru_op) list" where
  "lru_example =
     [(0, OpPut ''a'' 1 None), (1, OpPut ''b'' 2 (Some 5)), (2, OpGet ''a''),
      (3, OpPut ''c'' 3 (Some 2)), (4, OpGet ''b''), (9, OpGet ''c''), (9, OpGet ''a'')]"

theorem lru_refines_recency_list_witness:
  "\<exists>s0 :: (string, int) lru. lru_new 2 None = Inr s0 \<and>
     lru_keys (snd (run lru_step lru_example s0)) = Some [''a''] \<and>
     fst (run lru_step lru_example s0) =
       [RUnit, RUnit, RValue (Some 1), RUnit, RValue None, RValue None, RValue (Some 1)]"
proof -
  obtain s0 :: "(string, int) lru" where new: "lru_new 2 None = Inr s0"
    by (simp add: lru_new_def)
  then have ttl: "lr_ttl s0 = 0" by (auto simp: lru_new_def)
  have spec: "run (spec_step (nat 2) (lr_ttl s0)) lru_example [] =
      ([RUnit, RUnit, RValue (Some 1), RUnit, RValue None, RValue None, RValue (Some 1)],
       [(''a'', 1, 0)])"
    unfolding ttl lru_example_def
    by (simp add: spec_step_def spec_put_def spec_get_def without_def entry_expired_def expiry_for_def)
  from lru_refines_recency_list [OF new _ spec, of "fst (run lru_step lru_example s0)"
      "snd (run lru_step lru_example s0)"]
  show ?thesis using new by (intro exI [of _ s0]) simp
qed

end
