(* ===== verification/TokenBucket.thy ===== *)
theory TokenBucket
  imports Prelude
begin

text \<open>
  The token bucket of \<open>packages/algorithms/src/token-bucket.ts\<close>: the pure \<open>refill\<close> and
  \<open>consume\<close>, and \<open>TokenBucketLimiter\<close> with its map of buckets. Token levels, rates and
  costs are rationals, time is whole milliseconds and every operation reads the clock
  once. The lemmas follow one quantity, the level of a bucket at a time, of which both a
  stored bucket and a missing one (a full bucket) are representations.
\<close>

record tb_state =
  tb_tokens :: rat
  tb_updatedAt :: time

record tb_options =
  tb_capacity :: rat
  tb_refillPerSecond :: rat

text \<open>\<open>retryAfterMs\<close> is a number of milliseconds, or \<open>Infinity\<close>.\<close>

datatype delay = Ms int | Infinity

record rl_decision =
  rl_allowed :: bool
  rl_remaining :: int
  rl_retryAfterMs :: delay
  rl_resetAt :: rat

definition tb_refill :: "tb_state \<Rightarrow> tb_options \<Rightarrow> time \<Rightarrow> tb_state" where
  "tb_refill state options now =
     (let elapsedMs = max 0 (now - tb_updatedAt state) in
      if elapsedMs = 0 then state
      else let gained = (of_int elapsedMs / 1000) * tb_refillPerSecond options in
        \<lparr>tb_tokens = min (tb_capacity options) (tb_tokens state + gained), tb_updatedAt = now\<rparr>)"

definition tb_consume :: "tb_state \<Rightarrow> tb_options \<Rightarrow> time \<Rightarrow> rat \<Rightarrow> tb_state \<times> rl_decision" where
  "tb_consume state options now cost =
     (let refilled = tb_refill state options now;
          rate = tb_refillPerSecond options;
          deficitToFull = tb_capacity options - tb_tokens refilled;
          msToFull = (if 0 < rate then deficitToFull / rate * 1000 else 0)
      in if cost \<le> tb_tokens refilled
         then let next = \<lparr>tb_tokens = tb_tokens refilled - cost, tb_updatedAt = now\<rparr> in
           (next, \<lparr>rl_allowed = True, rl_remaining = js_floor (tb_tokens next),
                   rl_retryAfterMs = Ms 0, rl_resetAt = of_int now + msToFull\<rparr>)
         else let missing = cost - tb_tokens refilled;
                  retryAfterMs = (if 0 < rate then Ms (js_ceil (missing / rate * 1000)) else Infinity)
           in (refilled, \<lparr>rl_allowed = False, rl_remaining = js_floor (tb_tokens refilled),
                          rl_retryAfterMs = retryAfterMs, rl_resetAt = of_int now + msToFull\<rparr>))"

record tb_limiter =
  tbl_options :: tb_options
  tbl_buckets :: "(string, tb_state) jsmap"

definition tbl_new :: "tb_options \<Rightarrow> js_error + tb_limiter" where
  "tbl_new options =
     (if tb_capacity options \<le> 0 then Inl RangeError
      else if tb_refillPerSecond options \<le> 0 then Inl RangeError
      else Inr \<lparr>tbl_options = options, tbl_buckets = []\<rparr>)"

text \<open>The bucket of a key: the stored one, or a full one as of now.\<close>

definition tbl_current :: "tb_limiter \<Rightarrow> string \<Rightarrow> time \<Rightarrow> tb_state" where
  "tbl_current l key now =
     (case jm_get (tbl_buckets l) key of
        Some s \<Rightarrow> s
      | None \<Rightarrow> \<lparr>tb_tokens = tb_capacity (tbl_options l), tb_updatedAt = now\<rparr>)"

definition tbl_tryConsume :: "tb_limiter \<Rightarrow> string \<Rightarrow> rat \<Rightarrow> time \<Rightarrow> tb_limiter \<times> rl_decision" where
  "tbl_tryConsume l key cost now =
     (let (state, decision) = tb_consume (tbl_current l key now) (tbl_options l) now cost
      in (l\<lparr>tbl_buckets := jm_set key state (tbl_buckets l)\<rparr>, decision))"

definition tbl_peek :: "tb_limiter \<Rightarrow> string \<Rightarrow> time \<Rightarrow> int" where
  "tbl_peek l key now = js_floor (tb_tokens (tb_refill (tbl_current l key now) (tbl_options l) now))"

definition tbl_reset :: "tb_limiter \<Rightarrow> string \<Rightarrow> tb_limiter" where
  "tbl_reset l key = l\<lparr>tbl_buckets := jm_delete key (tbl_buckets l)\<rparr>"

definition tbl_idle :: "tb_options \<Rightarrow> time \<Rightarrow> tb_state \<Rightarrow> bool" where
  "tbl_idle options now state \<longleftrightarrow>
     tb_capacity options / tb_refillPerSecond options * 1000 < of_int (now - tb_updatedAt state)"

definition tbl_prune :: "tb_limiter \<Rightarrow> time \<Rightarrow> tb_limiter \<times> nat" where
  "tbl_prune l now =
     (let kept = filter (\<lambda>(key, state). \<not> tbl_idle (tbl_options l) now state) (tbl_buckets l)
      in (l\<lparr>tbl_buckets := kept\<rparr>, length (tbl_buckets l) - length kept))"

definition tbl_size :: "tb_limiter \<Rightarrow> nat" where
  "tbl_size l = length (tbl_buckets l)"

section \<open>The level of a bucket\<close>

definition tb_opts_ok :: "tb_options \<Rightarrow> bool" where
  "tb_opts_ok options \<longleftrightarrow> 0 < tb_capacity options \<and> 0 < tb_refillPerSecond options"

definition tb_ok :: "tb_options \<Rightarrow> time \<Rightarrow> tb_state \<Rightarrow> bool" where
  "tb_ok options now s \<longleftrightarrow>
     0 \<le> tb_tokens s \<and> tb_tokens s \<le> tb_capacity options \<and> tb_updatedAt s \<le> now"

definition tb_level :: "tb_options \<Rightarrow> tb_state \<Rightarrow> time \<Rightarrow> rat" where
  "tb_level options s now = tb_tokens (tb_refill s options now)"

definition tbl_ok :: "time \<Rightarrow> tb_limiter \<Rightarrow> bool" where
  "tbl_ok now l \<longleftrightarrow> tb_opts_ok (tbl_options l) \<and> jm_wf (tbl_buckets l) \<and>
     (\<forall>k s. jm_get (tbl_buckets l) k = Some s \<longrightarrow> tb_ok (tbl_options l) now s)"

definition tbl_level :: "tb_limiter \<Rightarrow> string \<Rightarrow> time \<Rightarrow> rat" where
  "tbl_level l k now = tb_level (tbl_options l) (tbl_current l k now) now"

lemma tb_level_eq:
  "tb_ok options now s \<Longrightarrow> tb_level options s now =
     min (tb_capacity options) (tb_tokens s + of_int (now - tb_updatedAt s) / 1000 * tb_refillPerSecond options)"
  by (auto simp: tb_level_def tb_refill_def tb_ok_def Let_def max_def)

lemma tb_ok_mono: "tb_ok options now s \<Longrightarrow> now \<le> now' \<Longrightarrow> tb_ok options now' s"
  by (simp add: tb_ok_def)

lemma tb_refill_ok:
  "tb_opts_ok options \<Longrightarrow> tb_ok options now s \<Longrightarrow> tb_ok options now (tb_refill s options now)"
  by (auto simp: tb_ok_def tb_refill_def tb_opts_ok_def Let_def max_def min_def)

text \<open>A refilled bucket is stamped with the time of the refill.\<close>

lemma tb_refill_stamp:
  "tb_ok options now s \<Longrightarrow>
     tb_refill s options now = \<lparr>tb_tokens = tb_level options s now, tb_updatedAt = now\<rparr>"
  by (cases s) (auto simp: tb_level_def tb_refill_def tb_ok_def Let_def max_def)

lemma tb_level_bounds:
  "tb_opts_ok options \<Longrightarrow> tb_ok options now s \<Longrightarrow>
     0 \<le> tb_level options s now \<and> tb_level options s now \<le> tb_capacity options"
  using tb_refill_ok [of options now s] by (simp add: tb_ok_def tb_level_def)

lemma tb_level_later:
  assumes "tb_ok options now s" "now \<le> now'"
  shows "tb_level options s now' = min (tb_capacity options)
    (tb_tokens s + (of_int (now - tb_updatedAt s) / 1000 * tb_refillPerSecond options +
       of_int (now' - now) / 1000 * tb_refillPerSecond options))"
proof -
  have "of_int (now' - tb_updatedAt s) / 1000 * tb_refillPerSecond options =
      of_int (now - tb_updatedAt s) / 1000 * tb_refillPerSecond options +
      of_int (now' - now) / 1000 * tb_refillPerSecond options"
    by (simp add: algebra_simps diff_divide_distrib)
  then show ?thesis by (simp only: tb_level_eq [OF tb_ok_mono [OF assms]])
qed

text \<open>Between two times a bucket gains at most the refill of the time between them.\<close>

lemma tb_level_gain:
  assumes "tb_opts_ok options" "tb_ok options now s" "now \<le> now'"
  shows "tb_level options s now' \<le>
    tb_level options s now + of_int (now' - now) / 1000 * tb_refillPerSecond options"
    and "tb_level options s now \<le> tb_level options s now'"
proof -
  let ?d = "of_int (now' - now) / 1000 * tb_refillPerSecond options"
  have "0 \<le> ?d" using assms by (simp add: tb_opts_ok_def)
  then show "tb_level options s now' \<le> tb_level options s now + ?d"
    "tb_level options s now \<le> tb_level options s now'"
    unfolding tb_level_eq [OF assms(2)] tb_level_later [OF assms(2,3)] by (simp_all only: min_def) auto
qed

text \<open>Refilling in two steps is refilling once.\<close>

lemma tb_level_refill:
  assumes "tb_opts_ok options" "tb_ok options now s" "now \<le> now'"
  shows "tb_level options (tb_refill s options now) now' = tb_level options s now'"
proof -
  let ?d = "of_int (now' - now) / 1000 * tb_refillPerSecond options"
  let ?u = "of_int (now - tb_updatedAt s) / 1000 * tb_refillPerSecond options"
  have d: "0 \<le> ?d" using assms by (simp add: tb_opts_ok_def)
  have "tb_level options (tb_refill s options now) now' =
      min (tb_capacity options) (min (tb_capacity options) (tb_tokens s + ?u) + ?d)"
    using tb_level_eq [OF tb_ok_mono [OF tb_refill_ok [OF assms(1,2)] assms(3)]]
    by (simp only: tb_refill_stamp [OF assms(2)] tb_level_eq [OF assms(2)] tb_state.simps)
  also have "\<dots> = min (tb_capacity options) (tb_tokens s + (?u + ?d))"
    using d by (simp only: min_def) auto
  finally show ?thesis by (simp only: tb_level_later [OF assms(2,3)])
qed

text \<open>\<open>consume\<close> in terms of the level.\<close>

lemma tb_consume_level:
  assumes "tb_opts_ok options" "tb_ok options now s"
  shows "tb_consume s options now cost =
    (if cost \<le> tb_level options s now
     then (\<lparr>tb_tokens = tb_level options s now - cost, tb_updatedAt = now\<rparr>,
           \<lparr>rl_allowed = True, rl_remaining = js_floor (tb_level options s now - cost),
            rl_retryAfterMs = Ms 0,
            rl_resetAt = of_int now +
              (tb_capacity options - tb_level options s now) / tb_refillPerSecond options * 1000\<rparr>)
     else (\<lparr>tb_tokens = tb_level options s now, tb_updatedAt = now\<rparr>,
           \<lparr>rl_allowed = False, rl_remaining = js_floor (tb_level options s now),
            rl_retryAfterMs = Ms (js_ceil ((cost - tb_level options s now) / tb_refillPerSecond options * 1000)),
            rl_resetAt = of_int now +
              (tb_capacity options - tb_level options s now) / tb_refillPerSecond options * 1000\<rparr>))"
  using assms tb_refill_stamp [OF assms(2)] by (simp add: tb_consume_def Let_def tb_opts_ok_def)

lemma tb_consume_ok:
  assumes "tb_opts_ok options" "tb_ok options now s" "0 \<le> cost"
  shows "tb_ok options now (fst (tb_consume s options now cost))"
  using tb_consume_level [OF assms(1,2), of cost] tb_level_bounds [OF assms(1,2)] assms(3)
  by (auto simp: tb_ok_def)

section \<open>Runs of a limiter\<close>

datatype tb_op = TryConsume string rat | Peek string | Reset string | Prune

datatype tb_reply = Decision rl_decision | Peeked int | Done | Pruned nat

fun tbl_step :: "tb_limiter \<Rightarrow> time \<Rightarrow> tb_op \<Rightarrow> tb_limiter \<times> tb_reply" where
  "tbl_step l now (TryConsume k c) = (let (l', d) = tbl_tryConsume l k c now in (l', Decision d))"
| "tbl_step l now (Peek k) = (l, Peeked (tbl_peek l k now))"
| "tbl_step l now (Reset k) = (tbl_reset l k, Done)"
| "tbl_step l now Prune = (let (l', n) = tbl_prune l now in (l', Pruned n))"

fun tbl_after :: "tb_limiter \<Rightarrow> (time \<times> tb_op) list \<Rightarrow> tb_limiter" where
  "tbl_after l [] = l"
| "tbl_after l ((now, oper) # es) = tbl_after (fst (tbl_step l now oper)) es"

fun tbl_replies :: "tb_limiter \<Rightarrow> (time \<times> tb_op) list \<Rightarrow> tb_reply list" where
  "tbl_replies l [] = []"
| "tbl_replies l ((now, oper) # es) = snd (tbl_step l now oper) # tbl_replies (fst (tbl_step l now oper)) es"

fun op_cost_ok :: "tb_op \<Rightarrow> bool" where
  "op_cost_ok (TryConsume k c) = (0 \<le> c)"
| "op_cost_ok _ = True"

text \<open>A run's clock does not go back and its costs are not negative.\<close>

definition tb_events_ok :: "(time \<times> tb_op) list \<Rightarrow> bool" where
  "tb_events_ok es \<longleftrightarrow> sorted (map fst es) \<and> list_all (op_cost_ok \<circ> snd) es"

text \<open>The cost a key was granted: what its allowed requests asked for.\<close>

fun granted_by :: "string \<Rightarrow> tb_op \<Rightarrow> tb_reply \<Rightarrow> rat" where
  "granted_by k (TryConsume k' c) (Decision d) = (if k' = k \<and> rl_allowed d then c else 0)"
| "granted_by k _ _ = 0"

definition granted :: "string \<Rightarrow> (time \<times> tb_op) list \<Rightarrow> tb_reply list \<Rightarrow> rat" where
  "granted k es rs = (\<Sum>(e, r)\<leftarrow>zip es rs. granted_by k (snd e) r)"

lemma tbl_current_ok:
  "tbl_ok now l \<Longrightarrow> now \<le> now' \<Longrightarrow> tb_ok (tbl_options l) now' (tbl_current l k now')"
  by (auto simp: tbl_ok_def tbl_current_def tb_ok_def tb_opts_ok_def split: option.splits) fastforce+

lemma tbl_ok_mono: "tbl_ok now l \<Longrightarrow> now \<le> now' \<Longrightarrow> tbl_ok now' l"
  by (simp add: tbl_ok_def) (blast intro: tb_ok_mono)

lemma tbl_step_options [simp]: "tbl_options (fst (tbl_step l now oper)) = tbl_options l"
  by (cases oper) (simp_all add: tbl_tryConsume_def tbl_reset_def tbl_prune_def Let_def split_beta)

lemma tbl_step_ok:
  assumes ok: "tbl_ok now l" and le: "now \<le> now'" and cost: "op_cost_ok oper"
  shows "tbl_ok now' (fst (tbl_step l now' oper))"
proof -
  have mono: "tb_ok (tbl_options l) now' s" if "jm_get (tbl_buckets l) k = Some s" for k s
    using ok that tb_ok_mono [OF _ le] by (simp add: tbl_ok_def)
  have opts: "tb_opts_ok (tbl_options l)" and wf: "jm_wf (tbl_buckets l)"
    using ok by (simp_all add: tbl_ok_def)
  show ?thesis
  proof (cases oper)
    case (TryConsume k c)
    then show ?thesis
      using opts wf mono cost tb_consume_ok [OF opts tbl_current_ok [OF ok le], of c k]
      by (auto simp: tbl_ok_def tbl_tryConsume_def split_beta jm_get_set split: if_splits)
  next
    case (Peek k)
    then show ?thesis using opts wf mono by (simp add: tbl_ok_def)
  next
    case (Reset k)
    then show ?thesis
      using opts wf mono by (simp add: tbl_ok_def tbl_reset_def jm_get_delete)
  next
    case Prune
    then show ?thesis
      using opts wf mono
      by (auto simp: tbl_ok_def tbl_prune_def Let_def jm_get_filter split: option.splits if_splits)
  qed
qed

text \<open>A bucket idle for longer than its refill time is full again.\<close>

lemma tbl_idle_full:
  assumes "tb_opts_ok options" "tb_ok options now s" "tbl_idle options now s"
  shows "tb_level options s now = tb_capacity options"
proof -
  have "tb_capacity options < of_int (now - tb_updatedAt s) / 1000 * tb_refillPerSecond options"
    using assms(1,3) by (simp add: tbl_idle_def tb_opts_ok_def field_simps)
  moreover have "0 \<le> tb_tokens s" using assms(2) by (simp add: tb_ok_def)
  ultimately show ?thesis
    unfolding tb_level_eq [OF assms(2)] by (simp only: min_def) auto
qed

text \<open>The level of a key after a step.\<close>

lemma tbl_level_new:
  "tb_opts_ok options \<Longrightarrow>
     tb_level options \<lparr>tb_tokens = tb_capacity options, tb_updatedAt = u\<rparr> now = tb_capacity options"
  by (auto simp: tb_level_def tb_refill_def tb_opts_ok_def Let_def max_def min_def)

lemma tbl_level_later:
  assumes "tbl_ok now l" "now \<le> now'"
  shows "tbl_level l k now' \<le>
    tbl_level l k now + of_int (now' - now) / 1000 * tb_refillPerSecond (tbl_options l)"
proof (cases "jm_get (tbl_buckets l) k")
  case None
  then show ?thesis
    using assms tbl_level_new [of "tbl_options l"]
    by (simp add: tbl_level_def tbl_current_def tbl_ok_def tb_opts_ok_def)
next
  case (Some s)
  then show ?thesis
    using assms tb_level_gain(1) [of "tbl_options l" now s now']
    by (auto simp: tbl_level_def tbl_current_def tbl_ok_def)
qed

lemma tb_consume_stamp:
  assumes "tb_opts_ok options" "tb_ok options now s"
  shows "tb_consume s options now cost =
    tb_consume \<lparr>tb_tokens = tb_level options s now, tb_updatedAt = now\<rparr> options now cost"
proof -
  have "tb_refill \<lparr>tb_tokens = tb_level options s now, tb_updatedAt = now\<rparr> options now =
      tb_refill s options now"
    using tb_refill_stamp [OF assms(2)] by (simp add: tb_refill_def)
  then show ?thesis by (simp only: tb_consume_def)
qed

lemma tbl_tryConsume_level:
  assumes "tbl_ok now l"
  shows "tbl_tryConsume l k c now =
    (let (b, d) = tb_consume \<lparr>tb_tokens = tbl_level l k now, tb_updatedAt = now\<rparr> (tbl_options l) now c
     in (l\<lparr>tbl_buckets := jm_set k b (tbl_buckets l)\<rparr>, d))"
  using assms tbl_current_ok [OF assms order_refl] tb_consume_stamp
  by (simp add: tbl_tryConsume_def tbl_level_def tbl_ok_def)

lemma tbl_peek_level: "tbl_peek l k now = js_floor (tbl_level l k now)"
  by (simp add: tbl_peek_def tbl_level_def tb_level_def)

lemma tbl_level_set:
  "tbl_level (l\<lparr>tbl_buckets := jm_set k b (tbl_buckets l)\<rparr>) k' now =
     (if k' = k then tb_level (tbl_options l) b now else tbl_level l k' now)"
  by (simp add: tbl_level_def tbl_current_def jm_get_set cong: option.case_cong)

lemma tbl_level_delete:
  assumes "tb_opts_ok (tbl_options l)"
  shows "tbl_level (l\<lparr>tbl_buckets := jm_delete k (tbl_buckets l)\<rparr>) k' now =
     (if k' = k then tb_capacity (tbl_options l) else tbl_level l k' now)"
  using tbl_level_new [OF assms] by (simp add: tbl_level_def tbl_current_def jm_get_delete cong: option.case_cong)

text \<open>Pruning leaves every level, now and later, as it was.\<close>

lemma tbl_level_prune:
  assumes ok: "tbl_ok now l" and le: "now \<le> t"
  shows "tbl_level (fst (tbl_prune l now)) k t = tbl_level l k t"
proof -
  let ?o = "tbl_options l"
  have opts: "tb_opts_ok ?o" and wf: "jm_wf (tbl_buckets l)" using ok by (simp_all add: tbl_ok_def)
  show ?thesis
  proof (cases "jm_get (tbl_buckets l) k")
    case None
    then show ?thesis
      using wf by (simp add: tbl_level_def tbl_current_def tbl_prune_def Let_def jm_get_filter)
  next
    case (Some s)
    then have s: "tb_ok ?o now s" using ok by (simp add: tbl_ok_def)
    have "tb_level ?o s t = tb_capacity ?o" if "tbl_idle ?o now s"
    proof -
      have "tbl_idle ?o t s" using that le by (simp add: tbl_idle_def)
      then show ?thesis by (rule tbl_idle_full [OF opts tb_ok_mono [OF s le]])
    qed
    then show ?thesis
      using wf Some tbl_level_new [OF opts]
      by (simp add: tbl_level_def tbl_current_def tbl_prune_def Let_def jm_get_filter)
  qed
qed

lemma tb_consume_grant:
  assumes "tb_opts_ok options" "0 \<le> v" "v \<le> tb_capacity options"
  shows "tb_level options (fst (tb_consume \<lparr>tb_tokens = v, tb_updatedAt = now\<rparr> options now c)) now =
    v - (if rl_allowed (snd (tb_consume \<lparr>tb_tokens = v, tb_updatedAt = now\<rparr> options now c)) then c else 0)"
  using assms by (simp add: tb_consume_def tb_refill_def tb_level_def Let_def)

text \<open>What a step grants a key it takes from the key's level.\<close>

lemma tbl_step_level:
  assumes ok: "tbl_ok now l" and not: "oper \<noteq> Reset k"
  shows "tbl_level (fst (tbl_step l now oper)) k now + granted_by k oper (snd (tbl_step l now oper)) =
    tbl_level l k now"
proof (cases oper)
  case (TryConsume k' c)
  have "0 \<le> tbl_level l k' now" "tbl_level l k' now \<le> tb_capacity (tbl_options l)"
    using ok tb_level_bounds [OF _ tbl_current_ok [OF ok order_refl]]
    by (simp_all add: tbl_level_def tbl_ok_def)
  then show ?thesis
    using ok tb_consume_grant [of "tbl_options l" "tbl_level l k' now" now c]
    by (auto simp: TryConsume tbl_tryConsume_level split_beta tbl_level_set tbl_ok_def)
next
  case (Reset k')
  then show ?thesis
    using ok not by (simp add: tbl_reset_def tbl_level_delete tbl_ok_def)
next
  case Prune
  then show ?thesis using tbl_level_prune [OF ok order_refl] by (simp add: split_beta)
qed simp

lemma granted_Cons: "granted k (e # es) (r # rs) = granted_by k (snd e) r + granted k es rs"
  by (simp add: granted_def)

lemma tb_events_ok_Cons:
  "tb_events_ok ((now, oper) # es) \<longleftrightarrow>
     op_cost_ok oper \<and> (\<forall>e\<in>set es. now \<le> fst e) \<and> tb_events_ok es"
  by (auto simp: tb_events_ok_def)

lemma granted_le_level:
  "tbl_ok now l \<Longrightarrow> tb_events_ok es \<Longrightarrow> \<forall>e\<in>set es. now \<le> fst e \<and> fst e \<le> t \<Longrightarrow> now \<le> t \<Longrightarrow>
     Reset k \<notin> snd ` set es \<Longrightarrow>
     granted k es (tbl_replies l es) \<le>
       tbl_level l k now + of_int (t - now) / 1000 * tb_refillPerSecond (tbl_options l)"
proof (induction es arbitrary: l now)
  case Nil
  have "0 \<le> tbl_level l k now"
    using Nil(1) tb_level_bounds [OF _ tbl_current_ok [OF Nil(1) order_refl]]
    by (simp add: tbl_level_def tbl_ok_def)
  then show ?case using Nil by (simp add: granted_def tbl_ok_def tb_opts_ok_def)
next
  case (Cons e es)
  obtain now' oper where e: "e = (now', oper)" by (cases e)
  let ?l = "fst (tbl_step l now' oper)"
  let ?rate = "tb_refillPerSecond (tbl_options l)"
  have le: "now \<le> now'" "now' \<le> t" and cost: "op_cost_ok oper"
    using Cons.prems by (simp_all add: e tb_events_ok_Cons)
  have ok: "tbl_ok now' ?l" by (rule tbl_step_ok [OF Cons.prems(1) le(1) cost])
  have ok0: "tbl_ok now' l"
    using Cons.prems(1) le(1) by (auto simp: tbl_ok_def intro: tb_ok_mono)
  have "granted k es (tbl_replies ?l es) \<le> tbl_level ?l k now' + of_int (t - now') / 1000 * ?rate"
    using Cons.IH [OF ok _ _ le(2)] Cons.prems by (simp add: e tb_events_ok_Cons)
  moreover have "tbl_level ?l k now' + granted_by k oper (snd (tbl_step l now' oper)) = tbl_level l k now'"
    using Cons.prems by (intro tbl_step_level [OF ok0]) (auto simp: e)
  moreover have "tbl_level l k now' \<le> tbl_level l k now + of_int (now' - now) / 1000 * ?rate"
    by (rule tbl_level_later [OF Cons.prems(1) le(1)])
  moreover have "of_int (t - now') / 1000 * ?rate + of_int (now' - now) / 1000 * ?rate =
      of_int (t - now) / 1000 * ?rate"
    by (simp add: algebra_simps diff_divide_distrib)
  ultimately show ?case by (simp only: e tbl_replies.simps granted_Cons snd_conv)
qed

lemma tbl_new_ok: "tbl_new options = Inr l \<Longrightarrow> tbl_ok now l"
  by (auto simp: tbl_new_def tbl_ok_def tb_opts_ok_def split: if_splits)

lemma tb_events_ok_append:
  "tb_events_ok (xs @ ys) \<longleftrightarrow>
     tb_events_ok xs \<and> tb_events_ok ys \<and> (\<forall>x\<in>set xs. \<forall>y\<in>set ys. fst x \<le> fst y)"
  by (auto simp: tb_events_ok_def sorted_append)

lemma tbl_after_ok:
  "tbl_ok now l \<Longrightarrow> tb_events_ok es \<Longrightarrow> \<forall>e\<in>set es. now \<le> fst e \<and> fst e \<le> t \<Longrightarrow> now \<le> t \<Longrightarrow>
     tbl_ok t (tbl_after l es) \<and> tbl_options (tbl_after l es) = tbl_options l"
proof (induction es arbitrary: l now)
  case Nil
  then show ?case by (auto simp: tbl_ok_def intro: tb_ok_mono)
next
  case (Cons e es)
  obtain now' oper where e: "e = (now', oper)" by (cases e)
  have "tbl_ok now' (fst (tbl_step l now' oper))"
    using Cons.prems by (intro tbl_step_ok) (auto simp: e tb_events_ok_Cons)
  then show ?case
    using Cons.IH [of now'] Cons.prems by (simp add: e tb_events_ok_Cons)
qed

lemma tbl_reachable_ok:
  assumes "tbl_new options = Inr l" "tb_events_ok es" "\<forall>e\<in>set es. fst e \<le> t"
  shows "tbl_ok t (tbl_after l es)" "tbl_options (tbl_after l es) = options"
proof -
  let ?s = "min t (case es of [] \<Rightarrow> t | e # _ \<Rightarrow> fst e)"
  have "\<forall>e\<in>set es. ?s \<le> fst e" using assms(2) by (cases es) (fastforce simp: tb_events_ok_def)+
  then have "tbl_ok t (tbl_after l es) \<and> tbl_options (tbl_after l es) = tbl_options l"
    using assms by (intro tbl_after_ok [OF tbl_new_ok [OF assms(1), of ?s]]) auto
  moreover have "tbl_options l = options" using assms(1) by (auto simp: tbl_new_def split: if_splits)
  ultimately show "tbl_ok t (tbl_after l es)" "tbl_options (tbl_after l es) = options" by simp_all
qed

text \<open>Two limiters that agree on every level from now on answer alike.\<close>

definition tbl_same :: "time \<Rightarrow> tb_limiter \<Rightarrow> tb_limiter \<Rightarrow> bool" where
  "tbl_same now l m \<longleftrightarrow> tbl_options l = tbl_options m \<and> tbl_ok now l \<and> tbl_ok now m \<and>
     (\<forall>k. \<forall>t\<ge>now. tbl_level l k t = tbl_level m k t)"

lemma tbl_same_step:
  assumes same: "tbl_same now l m" and le: "now \<le> now'" and cost: "op_cost_ok oper" and np: "oper \<noteq> Prune"
  shows "snd (tbl_step l now' oper) = snd (tbl_step m now' oper) \<and>
    tbl_same now' (fst (tbl_step l now' oper)) (fst (tbl_step m now' oper))"
proof -
  have ok: "tbl_ok now l" "tbl_ok now m" and o: "tbl_options l = tbl_options m"
    and lv: "\<And>k t. now' \<le> t \<Longrightarrow> tbl_level l k t = tbl_level m k t"
    using same le by (auto simp: tbl_same_def)
  have ok': "tbl_ok now' l" "tbl_ok now' m" and opts: "tb_opts_ok (tbl_options m)"
    using ok le tbl_ok_mono by (auto simp: tbl_ok_def)
  have step: "tbl_ok now' (fst (tbl_step l now' oper))" "tbl_ok now' (fst (tbl_step m now' oper))"
    using tbl_step_ok [OF _ le cost] ok by blast+
  show ?thesis
  proof (cases oper)
    case (TryConsume k c)
    then show ?thesis
      using step o lv by (simp add: tbl_same_def tbl_tryConsume_level [OF ok'(1)]
        tbl_tryConsume_level [OF ok'(2)] split_beta tbl_level_set)
  next
    case (Peek k)
    then show ?thesis using step o lv by (simp add: tbl_same_def tbl_peek_level)
  next
    case (Reset k)
    then show ?thesis
      using step o lv opts by (simp add: tbl_same_def tbl_reset_def tbl_level_delete)
  qed (use np in simp)
qed

lemma tbl_same_prune:
  assumes "tbl_same now l m" "now \<le> now'"
  shows "tbl_same now' (fst (tbl_step l now' Prune)) m"
proof -
  have ok': "tbl_ok now' l" "tbl_ok now' m"
    using assms tbl_ok_mono by (auto simp: tbl_same_def)
  then show ?thesis
    using assms tbl_step_ok [OF ok'(1) order_refl, of Prune] tbl_level_prune [OF ok'(1)]
      tbl_step_options [of l now' Prune]
    by (simp add: tbl_same_def split_beta)
qed

definition not_prune :: "time \<times> tb_op \<Rightarrow> bool" where
  "not_prune e \<longleftrightarrow> snd e \<noteq> Prune"

lemma tbl_replies_same:
  "tbl_same now l m \<Longrightarrow> tb_events_ok es \<Longrightarrow> \<forall>e\<in>set es. now \<le> fst e \<Longrightarrow>
     map snd (filter (not_prune \<circ> fst) (zip es (tbl_replies l es))) = tbl_replies m (filter not_prune es)"
proof (induction es arbitrary: l m now)
  case (Cons e es)
  obtain now' oper where e: "e = (now', oper)" by (cases e)
  have es: "tb_events_ok es" "\<forall>e\<in>set es. now' \<le> fst e" and le: "now \<le> now'" and c: "op_cost_ok oper"
    using Cons.prems by (simp_all add: e tb_events_ok_Cons)
  show ?case
  proof (cases "oper = Prune")
    case True
    then show ?thesis
      using Cons.IH [OF tbl_same_prune [OF Cons.prems(1) le] es] by (simp add: e not_prune_def)
  next
    case False
    then show ?thesis
      using tbl_same_step [OF Cons.prems(1) le c False] Cons.IH [OF _ es]
      by (simp add: e not_prune_def)
  qed
qed simp

section \<open>Properties\<close>

text \<open>
  C3: A limiter never admits more than its bucket: after any history, the cost granted to
  a key over a stretch of operations (requests of every key, peeks, pruning; no reset of
  the key) is at most the capacity plus what the rate yields over the stretch's time.
\<close>

theorem token_bucket_admission_bound:
  assumes "tbl_new options = Inr l" and "tb_events_ok (history @ stretch)"
    and "Reset k \<notin> snd ` set stretch" and "stretch \<noteq> []"
  shows "granted k stretch (tbl_replies (tbl_after l history) stretch) \<le>
    tb_capacity options +
    of_int (fst (last stretch) - fst (hd stretch)) / 1000 * tb_refillPerSecond options"
proof -
  let ?now = "fst (hd stretch)" and ?t = "fst (last stretch)" and ?l = "tbl_after l history"
  have ok: "tb_events_ok history" "tb_events_ok stretch" "\<forall>x\<in>set history. fst x \<le> ?now"
    using assms(2,4) by (auto simp: tb_events_ok_append)
  have srt: "sorted (map fst stretch)" using ok(2) by (simp add: tb_events_ok_def)
  have in_range: "\<forall>e\<in>set stretch. ?now \<le> fst e \<and> fst e \<le> ?t"
  proof
    fix e assume "e \<in> set stretch"
    then obtain i where i: "i < length stretch" "e = stretch ! i" by (auto simp: in_set_conv_nth)
    then show "?now \<le> fst e \<and> fst e \<le> ?t"
      using sorted_nth_mono [OF srt, of 0 i] sorted_nth_mono [OF srt, of i "length stretch - 1"] assms(4)
      by (simp add: hd_conv_nth last_conv_nth)
  qed
  note r = tbl_reachable_ok [OF assms(1) ok(1,3)]
  have "tbl_level ?l k ?now \<le> tb_capacity options"
    using r tb_level_bounds [OF _ tbl_current_ok [OF r(1) order_refl], of k]
    by (simp add: tbl_level_def tbl_ok_def)
  moreover have "?now \<le> ?t" using in_range assms(4) by (metis last_in_set)
  ultimately show ?thesis
    using granted_le_level [OF r(1) ok(2) in_range _ assms(3)] r(2) by simp
qed

theorem token_bucket_admission_bound_witness:
  "\<exists>l. tbl_new \<lparr>tb_capacity = 2, tb_refillPerSecond = 1\<rparr> = Inr l \<and>
     granted ''a'' [(5, TryConsume ''a'' 1), (6, Prune), (2005, TryConsume ''a'' 2)]
       (tbl_replies (tbl_after l [(0, TryConsume ''a'' 1)])
          [(5, TryConsume ''a'' 1), (6, Prune), (2005, TryConsume ''a'' 2)]) \<le> 4"
proof -
  let ?l = "\<lparr>tbl_options = \<lparr>tb_capacity = 2, tb_refillPerSecond = 1\<rparr>, tbl_buckets = []\<rparr>"
  have new: "tbl_new \<lparr>tb_capacity = 2, tb_refillPerSecond = 1\<rparr> = Inr ?l" by (simp add: tbl_new_def)
  show ?thesis
    using token_bucket_admission_bound [OF new, of "[(0, TryConsume ''a'' 1)]"
        "[(5, TryConsume ''a'' 1), (6, Prune), (2005, TryConsume ''a'' 2)]" "''a''"] new
    by (simp add: tb_events_ok_def)
qed

text \<open>
  The retry hint is exact: a denied request whose cost fits the capacity would be
  allowed \<open>retryAfterMs\<close> later, and at no whole millisecond before that.
\<close>

theorem token_bucket_retry_exact:
  assumes "tbl_new options = Inr l" and "tb_events_ok es" and "\<forall>e\<in>set es. fst e \<le> now"
    and "tbl_tryConsume (tbl_after l es) k c now = (l', d)"
    and "\<not> rl_allowed d" and "0 \<le> c" and "c \<le> tb_capacity options" and "now \<le> t"
  shows "\<exists>r. rl_retryAfterMs d = Ms r \<and> 0 < r \<and>
    (rl_allowed (snd (tbl_tryConsume l' k c t)) \<longleftrightarrow> now + r \<le> t)"
proof -
  let ?l = "tbl_after l es" and ?rate = "tb_refillPerSecond options"
  let ?v = "tbl_level ?l k now"
  note r = tbl_reachable_ok [OF assms(1-3)]
  have opts: "0 < ?rate" "tb_opts_ok options" using r by (auto simp: tbl_ok_def tb_opts_ok_def)
  have v: "0 \<le> ?v" "?v \<le> tb_capacity options"
    using r tb_level_bounds [OF _ tbl_current_ok [OF r(1) order_refl], of k]
    by (simp_all add: tbl_level_def tbl_ok_def)
  have dec: "tbl_tryConsume ?l k c now = (let (b, d) = tb_consume \<lparr>tb_tokens = ?v, tb_updatedAt = now\<rparr>
      options now c in (?l\<lparr>tbl_buckets := jm_set k b (tbl_buckets ?l)\<rparr>, d))"
    using tbl_tryConsume_level [OF r(1)] r(2) by simp
  have lt: "?v < c" using dec assms(4,5)
    by (auto simp: tb_consume_def tb_refill_def Let_def split: if_splits)
  let ?need = "(c - ?v) / ?rate * 1000"
  have d: "rl_retryAfterMs d = Ms (js_ceil ?need)"
    and l': "l' = ?l\<lparr>tbl_buckets := jm_set k \<lparr>tb_tokens = ?v, tb_updatedAt = now\<rparr> (tbl_buckets ?l)\<rparr>"
    using dec assms(4) lt opts by (auto simp: tb_consume_def tb_refill_def Let_def split: if_splits)
  have ok': "tbl_ok t l'"
    using tbl_step_ok [OF r(1) order_refl, of "TryConsume k c"] assms(4,6,8)
    by (auto simp: tbl_ok_def intro: tb_ok_mono)
  have b: "tb_ok options now \<lparr>tb_tokens = ?v, tb_updatedAt = now\<rparr>" using v by (simp add: tb_ok_def)
  have lvl: "tbl_level l' k t = min (tb_capacity options) (?v + of_int (t - now) / 1000 * ?rate)"
    using tb_level_eq [OF tb_ok_mono [OF b assms(8)]] r(2)
    by (simp only: l' tbl_level_set simp_thms if_True tb_state.simps)
  have "rl_allowed (snd (tbl_tryConsume l' k c t)) \<longleftrightarrow> c \<le> tbl_level l' k t"
    using tbl_tryConsume_level [OF ok', of k c]
    by (auto simp: tb_consume_def tb_refill_def Let_def split: if_splits)
  also have "\<dots> \<longleftrightarrow> c \<le> ?v + of_int (t - now) / 1000 * ?rate"
    unfolding lvl using assms(7) by (simp only: min_def) auto
  also have "\<dots> \<longleftrightarrow> ?need \<le> of_int (t - now)" using opts by (simp add: field_simps)
  also have "\<dots> \<longleftrightarrow> now + js_ceil ?need \<le> t" by (simp only: ceiling_le_iff [symmetric]) linarith
  finally have "rl_allowed (snd (tbl_tryConsume l' k c t)) \<longleftrightarrow> now + js_ceil ?need \<le> t" .
  moreover have "0 < js_ceil ?need" using lt opts by (simp add: zero_less_ceiling)
  ultimately show ?thesis using d by blast
qed

theorem token_bucket_retry_exact_witness:
  "\<exists>l l' d r. tbl_new \<lparr>tb_capacity = 1, tb_refillPerSecond = 3\<rparr> = Inr l \<and>
     tbl_tryConsume (tbl_after l [(0, TryConsume ''a'' 1)]) ''a'' 1 100 = (l', d) \<and>
     rl_retryAfterMs d = Ms r \<and> (rl_allowed (snd (tbl_tryConsume l' ''a'' 1 400)) \<longleftrightarrow> 100 + r \<le> 400)"
proof -
  let ?l = "\<lparr>tbl_options = \<lparr>tb_capacity = 1, tb_refillPerSecond = 3\<rparr>, tbl_buckets = []\<rparr>"
  have new: "tbl_new \<lparr>tb_capacity = 1, tb_refillPerSecond = 3\<rparr> = Inr ?l" by (simp add: tbl_new_def)
  obtain l' d where ld: "tbl_tryConsume (tbl_after ?l [(0, TryConsume ''a'' 1)]) ''a'' 1 100 = (l', d)"
    by (rule prod.exhaust)
  have "\<not> rl_allowed d"
    using ld by (auto simp: tbl_tryConsume_def tbl_current_def tb_consume_def tb_refill_def Let_def)
  then obtain r where "rl_retryAfterMs d = Ms r"
    "rl_allowed (snd (tbl_tryConsume l' ''a'' 1 400)) \<longleftrightarrow> 100 + r \<le> 400"
    using token_bucket_retry_exact [OF new _ _ ld, of 400] by (auto simp: tb_events_ok_def)
  then show ?thesis using new ld by blast
qed

text \<open>
  Pruning is unobservable: every request, peek and reset of a run gets the reply it
  would get if the run had never pruned.
\<close>

theorem token_bucket_prune_unobservable:
  assumes "tbl_new options = Inr l" and "tb_events_ok es"
  shows "map snd (filter (not_prune \<circ> fst) (zip es (tbl_replies l es))) =
    tbl_replies l (filter not_prune es)"
proof (cases es)
  case (Cons e es')
  have ok: "tbl_ok (fst e) l" by (rule tbl_new_ok [OF assms(1)])
  have "tbl_same (fst e) l l" using ok by (simp add: tbl_same_def)
  moreover have "\<forall>x\<in>set es. fst e \<le> fst x" using assms(2) by (auto simp: tb_events_ok_def Cons)
  ultimately show ?thesis using assms(2) by (intro tbl_replies_same)
qed simp

theorem token_bucket_prune_unobservable_witness:
  "\<exists>l. tbl_new \<lparr>tb_capacity = 1, tb_refillPerSecond = 1\<rparr> = Inr l \<and>
     map snd (filter (not_prune \<circ> fst)
       (zip [(0, TryConsume ''a'' 1), (5000, Prune), (5000, Peek ''a'')]
          (tbl_replies l [(0, TryConsume ''a'' 1), (5000, Prune), (5000, Peek ''a'')]))) =
     tbl_replies l [(0, TryConsume ''a'' 1), (5000, Peek ''a'')]"
proof -
  let ?l = "\<lparr>tbl_options = \<lparr>tb_capacity = 1, tb_refillPerSecond = 1\<rparr>, tbl_buckets = []\<rparr>"
  have new: "tbl_new \<lparr>tb_capacity = 1, tb_refillPerSecond = 1\<rparr> = Inr ?l" by (simp add: tbl_new_def)
  show ?thesis
    using token_bucket_prune_unobservable [OF new,
        of "[(0, TryConsume ''a'' 1), (5000, Prune), (5000, Peek ''a'')]"] new
    by (simp add: tb_events_ok_def not_prune_def)
qed

end
