(* ===== verification/SlidingWindow.thy ===== *)
theory SlidingWindow
  imports Prelude
begin

text \<open>
  The two sliding-window limiters of \<open>packages/algorithms/src/sliding-window.ts\<close>: the
  interpolating \<open>SlidingWindowCounter\<close> and the exact \<open>SlidingWindowLog\<close> with its ring
  buffer. Limits and costs of the counter are rationals; the log's limit is the length of
  its \<open>Float64Array\<close>. The clock is not negative, so that \<open>%\<close> is \<open>mod\<close>.
\<close>

record wdecision =
  wd_allowed :: bool
  wd_remaining :: int
  wd_retryAfterMs :: int
  wd_used :: rat

section \<open>The interpolating counter\<close>

record cstate =
  cs_windowIndex :: int
  cs_currentCount :: rat
  cs_previousCount :: rat

record swcounter =
  swc_limit :: rat
  swc_windowMs :: int
  swc_states :: "(string, cstate) jsmap"

definition swc_new :: "rat \<Rightarrow> int \<Rightarrow> js_error + swcounter" where
  "swc_new limit windowMs =
     (if limit \<le> 0 then Inl RangeError
      else if windowMs \<le> 0 then Inl RangeError
      else Inr \<lparr>swc_limit = limit, swc_windowMs = windowMs, swc_states = []\<rparr>)"

definition swc_roll :: "int \<Rightarrow> cstate \<Rightarrow> cstate" where
  "swc_roll windowIndex s =
     (if cs_windowIndex s \<noteq> windowIndex
      then \<lparr>cs_windowIndex = windowIndex, cs_currentCount = 0,
            cs_previousCount = (if windowIndex - cs_windowIndex s = 1 then cs_currentCount s else 0)\<rparr>
      else s)"

definition swc_hit :: "swcounter \<Rightarrow> time \<Rightarrow> string \<Rightarrow> rat \<Rightarrow> swcounter \<times> wdecision" where
  "swc_hit c now key cost =
     (let windowIndex = now div swc_windowMs c;
          elapsedFraction = of_int (now mod swc_windowMs c) / of_int (swc_windowMs c);
          state0 = (case jm_get (swc_states c) key of
                      Some s \<Rightarrow> s
                    | None \<Rightarrow> \<lparr>cs_windowIndex = windowIndex, cs_currentCount = 0, cs_previousCount = 0\<rparr>);
          state = swc_roll windowIndex state0;
          weighted = cs_previousCount state * (1 - elapsedFraction) + cs_currentCount state
      in if swc_limit c < weighted + cost
         then let overflow = weighted + cost - swc_limit c;
                  retryAfterMs = (if 0 < cs_previousCount state
                    then js_ceil (overflow / cs_previousCount state * of_int (swc_windowMs c))
                    else js_ceil (of_int (swc_windowMs c) * (1 - elapsedFraction)))
           in (c\<lparr>swc_states := jm_set key state (swc_states c)\<rparr>,
               \<lparr>wd_allowed = False, wd_remaining = max 0 (js_floor (swc_limit c - weighted)),
                wd_retryAfterMs = max 1 (min retryAfterMs (swc_windowMs c)), wd_used = weighted\<rparr>)
         else (c\<lparr>swc_states := jm_set key (state\<lparr>cs_currentCount := cs_currentCount state + cost\<rparr>) (swc_states c)\<rparr>,
               \<lparr>wd_allowed = True, wd_remaining = max 0 (js_floor (swc_limit c - weighted - cost)),
                wd_retryAfterMs = 0, wd_used = weighted + cost\<rparr>))"

definition swc_reset :: "swcounter \<Rightarrow> string \<Rightarrow> swcounter" where
  "swc_reset c key = c\<lparr>swc_states := jm_delete key (swc_states c)\<rparr>"

definition swc_prune :: "swcounter \<Rightarrow> time \<Rightarrow> swcounter \<times> nat" where
  "swc_prune c now =
     (let currentIndex = now div swc_windowMs c;
          kept = filter (\<lambda>(key, s). \<not> 1 < currentIndex - cs_windowIndex s) (swc_states c)
      in (c\<lparr>swc_states := kept\<rparr>, length (swc_states c) - length kept))"

definition swc_size :: "swcounter \<Rightarrow> nat" where
  "swc_size c = length (swc_states c)"

datatype swc_op = Hit string rat | CReset string | CPrune

fun swc_step :: "swcounter \<Rightarrow> time \<times> swc_op \<Rightarrow> swcounter \<times> wdecision option" where
  "swc_step c (now, Hit k cost) = (let (c', d) = swc_hit c now k cost in (c', Some d))"
| "swc_step c (now, CReset k) = (swc_reset c k, None)"
| "swc_step c (now, CPrune) = (fst (swc_prune c now), None)"

text \<open>The cost granted to a key in the window with a given index.\<close>

definition swc_grant :: "int \<Rightarrow> string \<Rightarrow> int \<Rightarrow> time \<times> swc_op \<Rightarrow> wdecision option \<Rightarrow> rat" where
  "swc_grant W k i x r =
     (case (snd x, r) of
        (Hit k' cost, Some d) \<Rightarrow> if k' = k \<and> wd_allowed d \<and> fst x div W = i then cost else 0
      | _ \<Rightarrow> 0)"

definition swc_granted :: "int \<Rightarrow> string \<Rightarrow> int \<Rightarrow> (time \<times> swc_op) list \<Rightarrow> wdecision option list \<Rightarrow> rat" where
  "swc_granted W k i xs rs = (\<Sum>(x, r)\<leftarrow>zip xs rs. swc_grant W k i x r)"

fun swc_cost_ok :: "swc_op \<Rightarrow> bool" where
  "swc_cost_ok (Hit k c) = (0 \<le> c)"
| "swc_cost_ok _ = True"

text \<open>
  The invariant of a key at a time: \<open>G i\<close> is what it was granted in window \<open>i\<close>; the stored
  state knows the grants of its window and of the one before.
\<close>

definition window_part :: "int \<Rightarrow> time \<Rightarrow> rat" where
  "window_part W now = of_int (now mod W) / of_int W"

definition swc_inv :: "swcounter \<Rightarrow> string \<Rightarrow> (int \<Rightarrow> rat) \<Rightarrow> time \<Rightarrow> bool" where
  "swc_inv c k G now \<longleftrightarrow>
     0 < swc_limit c \<and> 0 < swc_windowMs c \<and> jm_wf (swc_states c) \<and> (\<forall>i. 0 \<le> G i \<and> G i \<le> swc_limit c) \<and>
     (let i = now div swc_windowMs c in
      (\<forall>j>i. G j = 0) \<and>
      G (i - 1) * (1 - window_part (swc_windowMs c) now) + G i \<le> swc_limit c \<and>
      (case jm_get (swc_states c) k of
         None \<Rightarrow> G i = 0 \<and> G (i - 1) = 0
       | Some s \<Rightarrow> cs_windowIndex s \<le> i \<and> (\<forall>j>cs_windowIndex s. G j = 0) \<and>
           cs_currentCount s = G (cs_windowIndex s) \<and> cs_previousCount s = G (cs_windowIndex s - 1)))"

lemma window_part_bounds: "0 < W \<Longrightarrow> 0 \<le> window_part W now \<and> window_part W now < 1"
  by (simp add: window_part_def)

lemma window_part_mono:
  "0 < W \<Longrightarrow> now \<le> now' \<Longrightarrow> now div W = now' div W \<Longrightarrow> window_part W now \<le> window_part W now'"
proof -
  assume W: "0 < W" and le: "now \<le> now'" and d: "now div W = now' div W"
  have "now mod W = now - W * (now div W)" "now' mod W = now' - W * (now' div W)"
    by (simp_all add: minus_mult_div_eq_mod)
  then have "now mod W \<le> now' mod W" using le d by simp
  then show ?thesis using W by (simp add: window_part_def divide_right_mono)
qed

text \<open>The invariant survives the passing of time.\<close>

lemma swc_inv_later:
  assumes inv: "swc_inv c k G now" and le: "now \<le> now'"
  shows "swc_inv c k G now'"
proof -
  let ?W = "swc_windowMs c"
  let ?i = "now div ?W" and ?i' = "now' div ?W"
  have W: "0 < ?W" using inv by (simp add: swc_inv_def)
  have ii: "?i \<le> ?i'" using W le by (simp add: zdiv_mono1)
  have G: "\<forall>i. 0 \<le> G i \<and> G i \<le> swc_limit c" "\<forall>j>?i. G j = 0"
    using inv by (simp_all add: swc_inv_def Let_def)
  have p: "0 \<le> window_part ?W now'" "window_part ?W now' < 1" using window_part_bounds [OF W] by simp_all
  have "G (?i' - 1) * (1 - window_part ?W now') + G ?i' \<le> swc_limit c"
  proof (cases "?i' = ?i")
    case True
    have "G (?i - 1) * (1 - window_part ?W now') \<le> G (?i - 1) * (1 - window_part ?W now)"
      using window_part_mono [OF W le] True G by (intro mult_left_mono) simp_all
    then show ?thesis using inv True by (simp add: swc_inv_def Let_def)
  next
    case False
    then have "G ?i' = 0" using G ii by simp
    moreover have "G (?i' - 1) * (1 - window_part ?W now') \<le> G (?i' - 1) * 1"
      using p G by (intro mult_left_mono) simp_all
    ultimately show ?thesis using G by (metis add.right_neutral mult.right_neutral order_trans)
  qed
  moreover have "G ?i' = 0 \<and> G (?i' - 1) = 0" if "jm_get (swc_states c) k = None"
  proof -
    have "G ?i = 0" "G (?i - 1) = 0" using inv that by (simp_all add: swc_inv_def Let_def)
    then show ?thesis
      using G(2) ii by (cases "?i' = ?i"; cases "?i' - 1 = ?i") auto
  qed
  ultimately show ?thesis
    using inv ii by (auto simp: swc_inv_def Let_def split: option.splits)
qed

lemma swc_hit_shape [simp]:
  "swc_limit (fst (swc_step c x)) = swc_limit c" "swc_windowMs (fst (swc_step c x)) = swc_windowMs c"
proof -
  obtain now oper where "x = (now, oper)" by (cases x)
  then show "swc_limit (fst (swc_step c x)) = swc_limit c" "swc_windowMs (fst (swc_step c x)) = swc_windowMs c"
    by (cases oper; simp add: swc_hit_def swc_reset_def swc_prune_def Let_def)+
qed

text \<open>The rolled state knows the grants of the current window and of the one before.\<close>

lemma swc_rolled:
  assumes inv: "swc_inv c k G now"
  defines "i \<equiv> now div swc_windowMs c"
  defines "s \<equiv> swc_roll i (case jm_get (swc_states c) k of Some s \<Rightarrow> s
       | None \<Rightarrow> \<lparr>cs_windowIndex = i, cs_currentCount = 0, cs_previousCount = 0\<rparr>)"
  shows "s = \<lparr>cs_windowIndex = i, cs_currentCount = G i, cs_previousCount = G (i - 1)\<rparr>"
proof (cases "jm_get (swc_states c) k")
  case None
  then show ?thesis
    using inv by (simp add: s_def i_def swc_roll_def swc_inv_def Let_def)
next
  case (Some t)
  then have t: "cs_windowIndex t \<le> i" "\<forall>j>cs_windowIndex t. G j = 0"
    "cs_currentCount t = G (cs_windowIndex t)" "cs_previousCount t = G (cs_windowIndex t - 1)"
    using inv by (simp_all add: swc_inv_def Let_def i_def)
  show ?thesis
  proof (cases "i = cs_windowIndex t")
    case True
    then show ?thesis using t by (cases t) (simp add: s_def swc_roll_def Some)
  next
    case False
    then have "cs_windowIndex t < i" using t(1) by simp
    then have "G i = 0" "cs_windowIndex t \<noteq> i - 1 \<Longrightarrow> G (i - 1) = 0"
      "i - cs_windowIndex t = 1 \<longleftrightarrow> cs_windowIndex t = i - 1"
      using t(2) by auto
    then show ?thesis using t(3) False
      by (cases "cs_windowIndex t = i - 1") (simp_all add: s_def swc_roll_def Some)
  qed
qed

lemma swc_inv_set:
  assumes inv: "swc_inv c k G now" and G': "G' i = cs_currentCount s" "\<And>j. j \<noteq> i \<Longrightarrow> G' j = G j"
    and i: "i = now div swc_windowMs c" and s: "cs_windowIndex s = i" "cs_previousCount s = G (i - 1)"
    and b: "0 \<le> cs_currentCount s"
      "G (i - 1) * (1 - window_part (swc_windowMs c) now) + cs_currentCount s \<le> swc_limit c"
  shows "swc_inv (c\<lparr>swc_states := jm_set k s (swc_states c)\<rparr>) k G' now"
proof -
  have W: "0 < swc_windowMs c" and G: "\<forall>i. 0 \<le> G i \<and> G i \<le> swc_limit c" and hi: "\<forall>j>i. G j = 0"
    using inv i by (simp_all add: swc_inv_def Let_def)
  have "0 \<le> G (i - 1) * (1 - window_part (swc_windowMs c) now)"
    using G window_part_bounds [OF W, of now] by simp
  then have "cs_currentCount s \<le> swc_limit c" using b(2) by linarith
  then have "\<forall>j. 0 \<le> G' j \<and> G' j \<le> swc_limit c" using G' G b(1) by metis
  moreover have "\<forall>j>i. G' j = 0" using G'(2) hi by auto
  moreover have "G' (i - 1) = G (i - 1)" using G'(2) by simp
  ultimately show ?thesis
    using inv i s b G'(1) by (simp add: swc_inv_def Let_def jm_get_set)
qed

lemma swc_inv_other:
  assumes "swc_inv c k G now" and "jm_get m k = jm_get (swc_states c) k" and "jm_wf m"
  shows "swc_inv (c\<lparr>swc_states := m\<rparr>) k G now"
  using assms by (simp add: swc_inv_def Let_def)

definition bump :: "(int \<Rightarrow> rat) \<Rightarrow> int \<Rightarrow> rat \<Rightarrow> int \<Rightarrow> rat" where
  "bump G i v = (\<lambda>j. if j = i then G j + v else G j)"

lemma swc_inv_hit:
  assumes inv: "swc_inv c k G now" and cost: "0 \<le> cost"
  shows "swc_inv (fst (swc_hit c now k cost)) k
    (bump G (now div swc_windowMs c) (if wd_allowed (snd (swc_hit c now k cost)) then cost else 0)) now"
proof -
  let ?i = "now div swc_windowMs c"
  let ?s = "\<lparr>cs_windowIndex = ?i, cs_currentCount = G ?i, cs_previousCount = G (?i - 1)\<rparr>"
  let ?w = "G (?i - 1) * (1 - window_part (swc_windowMs c) now) + G ?i"
  have G: "\<forall>i. 0 \<le> G i" and lim: "?w \<le> swc_limit c" using inv by (simp_all add: swc_inv_def Let_def)
  note hit = swc_hit_def [of c now k cost, unfolded Let_def swc_rolled [OF inv],
      folded window_part_def, simplified cstate.simps]
  show ?thesis
  proof (cases "swc_limit c < ?w + cost")
    case True
    then have "fst (swc_hit c now k cost) = c\<lparr>swc_states := jm_set k ?s (swc_states c)\<rparr>"
      "\<not> wd_allowed (snd (swc_hit c now k cost))" by (simp_all add: hit)
    then show ?thesis
      using G lim by (auto simp: bump_def intro!: swc_inv_set [OF inv])
  next
    case False
    then have "fst (swc_hit c now k cost) =
        c\<lparr>swc_states := jm_set k (?s\<lparr>cs_currentCount := G ?i + cost\<rparr>) (swc_states c)\<rparr>"
      "wd_allowed (snd (swc_hit c now k cost))" by (simp_all add: hit)
    then show ?thesis
      using G False cost by (auto simp: bump_def algebra_simps intro!: swc_inv_set [OF inv])
  qed
qed

lemma swc_inv_step:
  assumes inv: "swc_inv c k G (fst x)" and cost: "swc_cost_ok (snd x)" and nr: "snd x \<noteq> CReset k"
  shows "\<exists>G'. swc_inv (fst (swc_step c x)) k G' (fst x) \<and>
    (\<forall>i. G' i = G i + swc_grant (swc_windowMs c) k i x (snd (swc_step c x)))"
proof -
  obtain now oper where x: "x = (now, oper)" by (cases x)
  have inv': "swc_inv c k G now" and wf: "jm_wf (swc_states c)"
    using inv by (simp_all add: x swc_inv_def Let_def)
  show ?thesis
  proof (cases oper)
    case (Hit k' cost)
    show ?thesis
    proof (cases "k' = k")
      case True
      then show ?thesis
        using swc_inv_hit [OF inv', of cost] cost
        by (intro exI conjI) (auto simp: x Hit split_beta bump_def swc_grant_def)
    next
      case False
      then have "swc_inv (fst (swc_hit c now k' cost)) k G now"
        using wf by (auto simp: swc_hit_def Let_def jm_get_set intro!: swc_inv_other [OF inv'])
      then show ?thesis
        using False by (intro exI [of _ G]) (simp add: x Hit split_beta swc_grant_def)
    qed
  next
    case (CReset k')
    then have "swc_inv (swc_reset c k') k G now"
      using wf nr by (auto simp: x swc_reset_def jm_get_delete intro!: swc_inv_other [OF inv'])
    then show ?thesis by (intro exI [of _ G]) (simp add: x CReset swc_grant_def)
  next
    case CPrune
    have "swc_inv (fst (swc_prune c now)) k G now"
    proof (cases "jm_get (swc_states c) k")
      case None
      then show ?thesis
        using wf by (auto simp: swc_prune_def Let_def jm_get_filter intro!: swc_inv_other [OF inv'])
    next
      case (Some s)
      then show ?thesis
        using inv' wf by (auto simp: swc_prune_def Let_def jm_get_filter swc_inv_def)
    qed
    then show ?thesis by (intro exI [of _ G]) (simp add: x CPrune swc_grant_def)
  qed
qed

lemma swc_inv_run:
  "swc_inv c k G now \<Longrightarrow> sorted (map fst xs) \<Longrightarrow> \<forall>x\<in>set xs. now \<le> fst x \<and> fst x \<le> t \<Longrightarrow> now \<le> t \<Longrightarrow>
     list_all (swc_cost_ok \<circ> snd) xs \<Longrightarrow> CReset k \<notin> snd ` set xs \<Longrightarrow>
     \<exists>G'. swc_inv (run_after swc_step c xs) k G' t \<and>
       (\<forall>i. G' i = G i + swc_granted (swc_windowMs c) k i xs (run_replies swc_step c xs))"
proof (induction xs arbitrary: c G now)
  case Nil
  then have "swc_inv c k G t" using swc_inv_later by simp
  then show ?case by (intro exI [of _ G]) (simp add: swc_granted_def)
next
  case (Cons x xs)
  have inv: "swc_inv c k G (fst x)" using Cons.prems swc_inv_later by auto
  obtain G1 where G1: "swc_inv (fst (swc_step c x)) k G1 (fst x)"
    "\<And>i. G1 i = G i + swc_grant (swc_windowMs c) k i x (snd (swc_step c x))"
    using swc_inv_step [OF inv] Cons.prems(5,6) by auto
  obtain G2 where "swc_inv (run_after swc_step (fst (swc_step c x)) xs) k G2 t"
    "\<And>i. G2 i = G1 i + swc_granted (swc_windowMs c) k i xs (run_replies swc_step (fst (swc_step c x)) xs)"
    using Cons.IH [OF G1(1)] Cons.prems by auto
  note G2 = this
  show ?case
  proof (intro exI conjI allI)
    show "swc_inv (run_after swc_step c (x # xs)) k G2 t" using G2(1) by (simp only: run_after.simps)
    show "G2 i = G i + swc_granted (swc_windowMs c) k i (x # xs) (run_replies swc_step c (x # xs))" for i
      using G2(2) [of i] G1(2) [of i] by (simp add: swc_granted_def)
  qed
qed

section \<open>The exact log\<close>

text \<open>
  A subject's entry: the ring buffer, the index where the next time stamp goes, and the
  number of live stamps, which end just before the head.
\<close>

record log_entry =
  le_buffer :: "time list"
  le_head :: nat
  le_count :: nat

record swlog =
  swl_limit :: nat
  swl_windowMs :: int
  swl_logs :: "(string, log_entry) jsmap"

definition swl_new :: "nat \<Rightarrow> int \<Rightarrow> js_error + swlog" where
  "swl_new limit windowMs =
     (if limit = 0 then Inl RangeError
      else Inr \<lparr>swl_limit = limit, swl_windowMs = windowMs, swl_logs = []\<rparr>)"

text \<open>The index of the oldest live stamp.\<close>

definition le_tail :: "nat \<Rightarrow> log_entry \<Rightarrow> nat" where
  "le_tail limit e = (le_head e + limit - le_count e) mod limit"

fun swl_evict :: "nat \<Rightarrow> time \<Rightarrow> nat \<Rightarrow> log_entry \<Rightarrow> log_entry" where
  "swl_evict limit cutoff 0 e = e"
| "swl_evict limit cutoff (Suc n) e =
     (if cutoff < le_buffer e ! le_tail limit e then e
      else swl_evict limit cutoff n (e\<lparr>le_count := le_count e - 1\<rparr>))"

definition swl_hit :: "swlog \<Rightarrow> time \<Rightarrow> string \<Rightarrow> swlog \<times> wdecision" where
  "swl_hit l now key =
     (let limit = swl_limit l; cutoff = now - swl_windowMs l;
          entry0 = (case jm_get (swl_logs l) key of
                      Some e \<Rightarrow> e
                    | None \<Rightarrow> \<lparr>le_buffer = replicate limit 0, le_head = 0, le_count = 0\<rparr>);
          entry = swl_evict limit cutoff (le_count entry0) entry0
      in if limit \<le> le_count entry
         then let oldest = le_buffer entry ! le_tail limit entry in
           (l\<lparr>swl_logs := jm_set key entry (swl_logs l)\<rparr>,
            \<lparr>wd_allowed = False, wd_remaining = 0,
             wd_retryAfterMs = max 1 (oldest + swl_windowMs l - now), wd_used = of_nat (le_count entry)\<rparr>)
         else let entry' = \<lparr>le_buffer = (le_buffer entry)[le_head entry := now],
                            le_head = (le_head entry + 1) mod limit, le_count = le_count entry + 1\<rparr> in
           (l\<lparr>swl_logs := jm_set key entry' (swl_logs l)\<rparr>,
            \<lparr>wd_allowed = True, wd_remaining = int limit - int (le_count entry'),
             wd_retryAfterMs = 0, wd_used = of_nat (le_count entry')\<rparr>))"

definition swl_reset :: "swlog \<Rightarrow> string \<Rightarrow> swlog" where
  "swl_reset l key = l\<lparr>swl_logs := jm_delete key (swl_logs l)\<rparr>"

definition swl_size :: "swlog \<Rightarrow> nat" where
  "swl_size l = length (swl_logs l)"

datatype swl_op = LHit string | LReset string

fun swl_step :: "swlog \<Rightarrow> time \<times> swl_op \<Rightarrow> swlog \<times> wdecision option" where
  "swl_step l (now, LHit k) = (let (l', d) = swl_hit l now k in (l', Some d))"
| "swl_step l (now, LReset k) = (swl_reset l k, None)"

text \<open>
  The reference keeps every allowed time stamp of every subject and counts those younger
  than the window.
\<close>

definition ref_hit :: "nat \<Rightarrow> int \<Rightarrow> (string \<Rightarrow> time list) \<Rightarrow> time \<Rightarrow> string \<Rightarrow>
    (string \<Rightarrow> time list) \<times> wdecision" where
  "ref_hit limit W h now key =
     (let live = filter (\<lambda>t. now - W < t) (h key) in
      if limit \<le> length live
      then (h, \<lparr>wd_allowed = False, wd_remaining = 0,
                wd_retryAfterMs = max 1 (hd live + W - now), wd_used = of_nat (length live)\<rparr>)
      else (h(key := h key @ [now]),
            \<lparr>wd_allowed = True, wd_remaining = int limit - int (length live + 1),
             wd_retryAfterMs = 0, wd_used = of_nat (length live + 1)\<rparr>))"

fun ref_step :: "nat \<Rightarrow> int \<Rightarrow> (string \<Rightarrow> time list) \<Rightarrow> time \<times> swl_op \<Rightarrow>
    (string \<Rightarrow> time list) \<times> wdecision option" where
  "ref_step limit W h (now, LHit k) = (let (h', d) = ref_hit limit W h now k in (h', Some d))"
| "ref_step limit W h (now, LReset k) = (h(k := []), None)"

text \<open>The live stamps of an entry, oldest first.\<close>

definition le_slot :: "nat \<Rightarrow> log_entry \<Rightarrow> nat \<Rightarrow> nat" where
  "le_slot limit e i = (le_head e + (limit - le_count e) + i) mod limit"

definition le_live :: "nat \<Rightarrow> log_entry \<Rightarrow> time list" where
  "le_live limit e = map (\<lambda>i. le_buffer e ! le_slot limit e i) [0..<le_count e]"

definition le_ok :: "nat \<Rightarrow> log_entry \<Rightarrow> bool" where
  "le_ok limit e \<longleftrightarrow> 0 < limit \<and> length (le_buffer e) = limit \<and> le_head e < limit \<and> le_count e \<le> limit"

lemma le_tail_slot: "le_ok limit e \<Longrightarrow> le_tail limit e = le_slot limit e 0"
  by (simp add: le_tail_def le_slot_def le_ok_def)

lemma length_le_live [simp]: "length (le_live limit e) = le_count e"
  by (simp add: le_live_def)

lemma le_live_Cons:
  assumes ok: "le_ok limit e" and n: "le_count e = Suc n"
  shows "le_live limit e = le_buffer e ! le_tail limit e # le_live limit (e\<lparr>le_count := n\<rparr>)"
proof -
  have "limit - Suc n + Suc i = limit - n + i" for i using ok n unfolding le_ok_def by arith
  moreover have "le_head (e\<lparr>le_count := n\<rparr>) = le_head e" "le_count (e\<lparr>le_count := n\<rparr>) = n" by simp_all
  ultimately have "le_slot limit e (Suc i) = le_slot limit (e\<lparr>le_count := n\<rparr>) i" for i
    by (simp only: le_slot_def n add.assoc)
  moreover have "[0..<Suc n] = 0 # map Suc [0..<n]" by (simp only: map_Suc_upt upt_conv_Cons zero_less_Suc)
  ultimately show ?thesis by (simp add: le_live_def n le_tail_slot [OF ok] del: upt_Suc)
qed

lemma swl_evict_live:
  "le_ok limit e \<Longrightarrow> le_count e = n \<Longrightarrow>
     le_ok limit (swl_evict limit cutoff n e) \<and>
     le_live limit (swl_evict limit cutoff n e) = dropWhile (\<lambda>t. t \<le> cutoff) (le_live limit e)"
proof (induction n arbitrary: e)
  case 0
  then show ?case by (simp add: le_live_def)
next
  case (Suc n)
  have ok: "le_ok limit (e\<lparr>le_count := n\<rparr>)" using Suc.prems by (simp add: le_ok_def)
  then show ?case
    using Suc.IH [OF ok] Suc.prems(1)
    by (simp add: not_less Suc.prems(2) le_live_Cons [OF Suc.prems])
qed

lemma mod_add_neq: "h < n \<Longrightarrow> 0 < a \<Longrightarrow> a < n \<Longrightarrow> (h + a) mod n \<noteq> (h :: nat)"
  by (cases "h + a < n") (auto simp: le_mod_geq)

lemma le_push:
  fixes now :: time
  assumes ok: "le_ok limit e" and room: "le_count e < limit"
  defines "e' \<equiv> \<lparr>le_buffer = (le_buffer e)[le_head e := now],
    le_head = (le_head e + 1) mod limit, le_count = le_count e + 1\<rparr>"
  shows "le_ok limit e'" and "le_live limit e' = le_live limit e @ [now]"
proof -
  show "le_ok limit e'" using ok room by (auto simp: le_ok_def e'_def)
  have pos: "le_slot limit e' i = le_slot limit e i" for i
  proof -
    have "le_slot limit e' i = (le_head e + 1 + (limit - (le_count e + 1)) + i) mod limit"
      by (simp only: le_slot_def e'_def log_entry.simps add.assoc mod_add_left_eq)
    also have "le_head e + 1 + (limit - (le_count e + 1)) = le_head e + (limit - le_count e)"
      using room by simp
    finally show ?thesis by (simp only: le_slot_def)
  qed
  have other: "le_slot limit e i \<noteq> le_head e" if "i < le_count e" for i
    unfolding le_slot_def add.assoc
    by (rule mod_add_neq) (use ok room that in \<open>auto simp: le_ok_def\<close>)
  have last: "le_slot limit e (le_count e) = le_head e"
    using ok by (simp add: le_slot_def le_ok_def)
  have "le_live limit e' = map (\<lambda>i. (le_buffer e)[le_head e := now] ! le_slot limit e i) [0..<Suc (le_count e)]"
    by (simp only: le_live_def pos) (simp add: e'_def)
  also have "\<dots> = map (\<lambda>i. (le_buffer e)[le_head e := now] ! le_slot limit e i) [0..<le_count e] @ [now]"
    using ok last by (simp add: le_ok_def)
  also have "map (\<lambda>i. (le_buffer e)[le_head e := now] ! le_slot limit e i) [0..<le_count e] = le_live limit e"
    using not_sym [OF other] by (simp add: le_live_def)
  finally show "le_live limit e' = le_live limit e @ [now]" .
qed

text \<open>The log agrees with a reference history: what the ring has dropped is too old.\<close>

definition log_live :: "swlog \<Rightarrow> string \<Rightarrow> time list" where
  "log_live l k = (case jm_get (swl_logs l) k of None \<Rightarrow> [] | Some e \<Rightarrow> le_live (swl_limit l) e)"

definition key_rep :: "int \<Rightarrow> time \<Rightarrow> time list \<Rightarrow> time list \<Rightarrow> bool" where
  "key_rep W now live hist \<longleftrightarrow> sorted hist \<and> (\<forall>t\<in>set hist. t \<le> now) \<and>
     (\<exists>old. hist = old @ live \<and> (\<forall>t\<in>set old. t \<le> now - W))"

lemma key_rep_mono: "key_rep W now live hist \<Longrightarrow> now \<le> now' \<Longrightarrow> key_rep W now' live hist"
  by (fastforce simp: key_rep_def)

definition log_rep :: "nat \<Rightarrow> int \<Rightarrow> time \<Rightarrow> swlog \<Rightarrow> (string \<Rightarrow> time list) \<Rightarrow> bool" where
  "log_rep limit W now l h \<longleftrightarrow>
     swl_limit l = limit \<and> swl_windowMs l = W \<and> 0 < limit \<and>
     (\<forall>k e. jm_get (swl_logs l) k = Some e \<longrightarrow> le_ok limit e) \<and>
     (\<forall>k. key_rep W now (log_live l k) (h k))"

lemma dropWhile_sorted_filter: "sorted (xs :: time list) \<Longrightarrow> dropWhile (\<lambda>t. t \<le> c) xs = filter (\<lambda>t. c < t) xs"
  by (induction xs) (auto simp: not_less intro!: filter_True [symmetric])

lemma swl_entry_live:
  fixes k :: string
  assumes rep: "log_rep limit W now l h" and le: "now \<le> now'"
  defines "e0 \<equiv> (case jm_get (swl_logs l) k of Some e \<Rightarrow> e
       | None \<Rightarrow> \<lparr>le_buffer = replicate limit 0, le_head = 0, le_count = 0\<rparr>)"
  defines "e \<equiv> swl_evict limit (now' - W) (le_count e0) e0"
  shows "le_ok limit e" and "le_live limit e = filter (\<lambda>t. now' - W < t) (h k)"
    and "\<exists>old. h k = old @ le_live limit e \<and> (\<forall>t\<in>set old. t \<le> now' - W)"
proof -
  have ok: "le_ok limit e0" and live: "le_live limit e0 = log_live l k"
    using rep by (auto simp: e0_def log_rep_def le_ok_def log_live_def le_live_def split: option.splits)
  obtain old where h: "h k = old @ log_live l k" "\<forall>t\<in>set old. t \<le> now' - W" and srt: "sorted (h k)"
    using key_rep_mono [OF _ le, of W "log_live l k" "h k"] rep
    unfolding log_rep_def key_rep_def by metis
  note ev = swl_evict_live [OF ok refl, of "now' - W", folded e_def]
  show "le_ok limit e" using ev by simp
  have "sorted (log_live l k)" using srt h(1) by (simp add: sorted_append)
  then have lv: "le_live limit e = filter (\<lambda>t. now' - W < t) (log_live l k)"
    using ev by (simp add: live dropWhile_sorted_filter)
  also have "\<dots> = filter (\<lambda>t. now' - W < t) (h k)"
    using h by (force simp: filter_empty_conv)
  finally show "le_live limit e = filter (\<lambda>t. now' - W < t) (h k)" .
  have "log_live l k = takeWhile (\<lambda>t. t \<le> now' - W) (log_live l k) @ le_live limit e"
    using ev by (simp add: live)
  then have "h k = (old @ takeWhile (\<lambda>t. t \<le> now' - W) (log_live l k)) @ le_live limit e"
    using h(1) by (metis append.assoc)
  moreover have "\<forall>t\<in>set (old @ takeWhile (\<lambda>t. t \<le> now' - W) (log_live l k)). t \<le> now' - W"
    using h(2) by (auto dest: set_takeWhileD)
  ultimately show "\<exists>old. h k = old @ le_live limit e \<and> (\<forall>t\<in>set old. t \<le> now' - W)" by blast
qed

lemma log_rep_set:
  assumes rep: "log_rep limit W now l h" and le: "now \<le> now'" and e: "le_ok limit e"
    and h': "\<And>k'. k' \<noteq> k \<Longrightarrow> h' k' = h k'" and k: "key_rep W now' (le_live limit e) (h' k)"
  shows "log_rep limit W now' (l\<lparr>swl_logs := jm_set k e (swl_logs l)\<rparr>) h'"
proof -
  have "key_rep W now' (log_live (l\<lparr>swl_logs := jm_set k e (swl_logs l)\<rparr>) k') (h' k')" for k'
  proof (cases "k' = k")
    case True
    then show ?thesis using k rep by (simp add: log_live_def jm_get_set log_rep_def)
  next
    case False
    have "key_rep W now (log_live l k') (h k')" using rep by (simp add: log_rep_def)
    then show ?thesis
      using key_rep_mono [OF _ le] h' [OF False] False by (simp add: log_live_def jm_get_set cong: option.case_cong)
  qed
  then show ?thesis using rep e by (auto simp: log_rep_def jm_get_set split: if_splits)
qed

lemma swl_step_sim:
  assumes rep: "log_rep limit W now l h" and le: "now \<le> fst x"
  shows "snd (swl_step l x) = snd (ref_step limit W h x) \<and>
    log_rep limit W (fst x) (fst (swl_step l x)) (fst (ref_step limit W h x))"
proof -
  obtain now' oper where x: "x = (now', oper)" by (cases x)
  have le': "now \<le> now'" using le by (simp add: x)
  have lim: "swl_limit l = limit" "swl_windowMs l = W" "0 < limit" using rep by (simp_all add: log_rep_def)
  show ?thesis
  proof (cases oper)
    case (LHit k)
    define e where "e = swl_evict limit (now' - W)
      (le_count (case jm_get (swl_logs l) k of Some e \<Rightarrow> e
         | None \<Rightarrow> \<lparr>le_buffer = replicate limit 0, le_head = 0, le_count = 0\<rparr>))
      (case jm_get (swl_logs l) k of Some e \<Rightarrow> e
         | None \<Rightarrow> \<lparr>le_buffer = replicate limit 0, le_head = 0, le_count = 0\<rparr>)"
    note ent = swl_entry_live [OF rep le', of k, folded e_def]
    have hk: "sorted (h k)" "\<forall>t\<in>set (h k). t \<le> now'" using key_rep_mono [OF _ le', of W "log_live l k" "h k"] rep by (simp_all add: log_rep_def key_rep_def)
    note hit = swl_hit_def [of l now' k, unfolded Let_def lim, folded e_def]
    have cnt: "le_count e = length (filter (\<lambda>t. now' - W < t) (h k))" by (metis ent(2) length_le_live)
    show ?thesis
    proof (cases "limit \<le> le_count e")
      case True
      then obtain n where n: "le_count e = Suc n" using lim(3) by (cases "le_count e") auto
      have "le_buffer e ! le_tail limit e = hd (filter (\<lambda>t. now' - W < t) (h k))"
        using le_live_Cons [OF ent(1) n] by (metis ent(2) list.sel(1))
      then show ?thesis
        using True cnt log_rep_set [OF rep le' ent(1), of k h] hk ent(3)
        by (simp add: x LHit hit ref_hit_def Let_def key_rep_def)
    next
      case False
      then have room: "le_count e < limit" by simp
      note push = le_push [OF ent(1) room, of now']
      have "log_rep limit W now' (l\<lparr>swl_logs := jm_set k \<lparr>le_buffer = (le_buffer e)[le_head e := now'],
          le_head = (le_head e + 1) mod limit, le_count = le_count e + 1\<rparr> (swl_logs l)\<rparr>) (h(k := h k @ [now']))"
        using hk ent(3) by (intro log_rep_set [OF rep le' push(1)]) (auto simp: push(2) [simplified] sorted_append key_rep_def)
      then show ?thesis
        using False cnt by (simp add: x LHit hit ref_hit_def Let_def)
    qed
  next
    case (LReset k)
    have "key_rep W now' (log_live (swl_reset l k) k') ((h(k := [])) k')" for k'
    proof (cases "k' = k")
      case True
      then show ?thesis by (simp add: log_live_def swl_reset_def jm_get_delete key_rep_def)
    next
      case False
      have "key_rep W now (log_live l k') (h k')" using rep by (simp add: log_rep_def)
      then show ?thesis
        using key_rep_mono [OF _ le'] False by (simp add: log_live_def swl_reset_def jm_get_delete cong: option.case_cong)
    qed
    then have "log_rep limit W now' (swl_reset l k) (h(k := []))"
      using rep by (auto simp: log_rep_def swl_reset_def jm_get_delete split: if_splits)
    then show ?thesis by (simp add: x LReset)
  qed
qed

section \<open>Properties\<close>

text \<open>
  \<open>SlidingWindowCounter\<close> smooths the window boundary: over any run without a reset of
  the key, at any time, the cost granted in the current window plus the share of the
  previous window's grants that has not yet decayed is within the limit, and so are the
  grants of every fixed window.
\<close>

theorem sliding_counter_smooth:
  assumes "swc_new limit W = Inr c" and "sorted (map fst xs)" and "\<forall>x\<in>set xs. fst x \<le> t"
    and "list_all (swc_cost_ok \<circ> snd) xs" and "CReset k \<notin> snd ` set xs"
  shows "swc_granted W k (t div W - 1) xs (run_replies swc_step c xs) * (1 - window_part W t) +
      swc_granted W k (t div W) xs (run_replies swc_step c xs) \<le> limit \<and>
    swc_granted W k i xs (run_replies swc_step c xs) \<le> limit"
proof -
  let ?s = "min t (case xs of [] \<Rightarrow> t | x # _ \<Rightarrow> fst x)"
  have s: "\<forall>x\<in>set xs. ?s \<le> fst x \<and> fst x \<le> t" using assms(2,3) by (cases xs) fastforce+
  have c: "swc_windowMs c = W" "swc_limit c = limit" and inv: "swc_inv c k (\<lambda>_. 0) ?s"
    using assms(1) by (auto simp: swc_new_def swc_inv_def split: if_splits)
  obtain G where "swc_inv (run_after swc_step c xs) k G t"
    "\<And>i. G i = swc_granted W k i xs (run_replies swc_step c xs)"
    using swc_inv_run [OF inv assms(2) s _ assms(4,5)] c by auto
  moreover have "swc_windowMs (run_after swc_step c xs) = W \<and> swc_limit (run_after swc_step c xs) = limit"
    by (rule run_invariant) (simp_all add: c)
  ultimately show ?thesis by (simp add: swc_inv_def Let_def)
qed

theorem sliding_counter_smooth_witness:
  "\<exists>c. swc_new 2 100 = Inr c \<and>
     swc_granted 100 ''a'' 1 [(90, Hit ''a'' 2), (110, Hit ''a'' 1), (160, Hit ''a'' 1)]
       (run_replies swc_step c [(90, Hit ''a'' 2), (110, Hit ''a'' 1), (160, Hit ''a'' 1)]) \<le> 2"
proof -
  let ?c = "\<lparr>swc_limit = 2, swc_windowMs = 100, swc_states = []\<rparr>"
  have new: "swc_new 2 100 = Inr ?c" by (simp add: swc_new_def)
  show ?thesis
    using sliding_counter_smooth [OF new, of "[(90, Hit ''a'' 2), (110, Hit ''a'' 1), (160, Hit ''a'' 1)]"
        160 "''a''" 1] new by simp
qed

text \<open>
  \<open>SlidingWindowLog\<close> is exact: over any run of hits and resets with a clock that does
  not go back, the ring buffer of \<open>limit\<close> time stamps decides, counts and computes the
  retry delay exactly as the unbounded list of all allowed time stamps would; a hit is
  allowed iff fewer than \<open>limit\<close> were allowed in the window before it.
\<close>

theorem sliding_log_exact:
  assumes "swl_new limit W = Inr l" and "sorted (map fst xs)"
  shows "run_replies swl_step l xs = run_replies (ref_step limit W) (\<lambda>_. []) xs"
proof -
  let ?s = "case xs of [] \<Rightarrow> 0 | x # _ \<Rightarrow> fst x"
  have "log_rep limit W ?s l (\<lambda>_. [])"
    using assms(1) by (auto simp: swl_new_def log_rep_def log_live_def key_rep_def split: if_splits)
  then show ?thesis
    using run_timed_simulation [where R = "log_rep limit W" and f = swl_step and g = "ref_step limit W"
        and time_of = fst and xs = xs, OF _ assms(2)] swl_step_sim assms(2)
    by (cases xs) auto
qed

theorem sliding_log_exact_witness:
  "\<exists>l. swl_new 1 10 = Inr l \<and>
     map (map_option wd_allowed) (run_replies swl_step l [(1, LHit ''a''), (5, LHit ''a''), (11, LHit ''a'')]) =
     [Some True, Some False, Some True]"
proof -
  let ?l = "\<lparr>swl_limit = 1, swl_windowMs = 10, swl_logs = []\<rparr>"
  have new: "swl_new 1 10 = Inr ?l" by (simp add: swl_new_def)
  show ?thesis
    using sliding_log_exact [OF new, of "[(1, LHit ''a''), (5, LHit ''a''), (11, LHit ''a'')]"] new
    by (simp add: ref_hit_def Let_def)
qed

end
