(* ===== verification/RollingWindow.thy ===== *)
theory RollingWindow
  imports Prelude "HOL-Library.Word"
begin

text \<open>
  The rolling outcome window of \<open>packages/algorithms/src/sliding-window.ts\<close>: two
  \<open>Uint32Array\<close>s of per-bucket counts that rotate as time advances. The counts are 32-bit
  words, so that incrementing wraps as the typed array does; \<open>rw_rep\<close> relates them to the
  list of all outcomes recorded so far.
\<close>

record rolling =
  rw_successes :: "32 word list"
  rw_failures :: "32 word list"
  rw_bucketMs :: int
  rw_lastBucketIndex :: int

definition rw_new :: "int \<Rightarrow> nat \<Rightarrow> js_error + rolling" where
  "rw_new windowMs bucketCount =
     (if bucketCount = 0 then Inl RangeError
      else Inr \<lparr>rw_successes = replicate bucketCount 0, rw_failures = replicate bucketCount 0,
                rw_bucketMs = max 1 (windowMs div int bucketCount), rw_lastBucketIndex = -1\<rparr>)"

text \<open>The clearing loop, for \<open>i\<close> from 0 up to \<open>toClear\<close>.\<close>

definition rw_clear :: "nat \<Rightarrow> nat \<Rightarrow> 32 word list \<Rightarrow> 32 word list" where
  "rw_clear slot toClear xs =
     fold (\<lambda>i ys. ys[(slot + length xs - i) mod length xs := 0]) [0..<toClear] xs"

definition rw_rotate :: "rolling \<Rightarrow> time \<Rightarrow> rolling \<times> nat" where
  "rw_rotate w now =
     (let n = length (rw_successes w);
          index = now div rw_bucketMs w;
          slot = nat (index mod int n)
      in if rw_lastBucketIndex w \<noteq> index
         then let elapsed = (if rw_lastBucketIndex w = -1 then int n else index - rw_lastBucketIndex w);
                  toClear = nat (min elapsed (int n))
           in (w\<lparr>rw_successes := rw_clear slot toClear (rw_successes w),
                 rw_failures := rw_clear slot toClear (rw_failures w),
                 rw_lastBucketIndex := index\<rparr>, slot)
         else (w, slot))"

definition rw_record :: "rolling \<Rightarrow> time \<Rightarrow> bool \<Rightarrow> rolling" where
  "rw_record w0 now success =
     (let (w, slot) = rw_rotate w0 now in
      if success then w\<lparr>rw_successes := (rw_successes w)[slot := rw_successes w ! slot + 1]\<rparr>
      else w\<lparr>rw_failures := (rw_failures w)[slot := rw_failures w ! slot + 1]\<rparr>)"

record rw_snap =
  sn_successes :: nat
  sn_failures :: nat
  sn_total :: nat
  sn_failureRate :: rat

definition rw_snapshot :: "rolling \<Rightarrow> time \<Rightarrow> rolling \<times> rw_snap" where
  "rw_snapshot w0 now =
     (let w = fst (rw_rotate w0 now);
          successes = sum_list (map unat (rw_successes w));
          failures = sum_list (map unat (rw_failures w));
          total = successes + failures
      in (w, \<lparr>sn_successes = successes, sn_failures = failures, sn_total = total,
              sn_failureRate = (if total = 0 then 0 else of_nat failures / of_nat total)\<rparr>))"

definition rw_reset :: "rolling \<Rightarrow> rolling" where
  "rw_reset w = w\<lparr>rw_successes := replicate (length (rw_successes w)) 0,
                 rw_failures := replicate (length (rw_failures w)) 0, rw_lastBucketIndex := -1\<rparr>"

section \<open>What the buckets stand for\<close>

type_synonym outcome = "time \<times> bool"

definition outcomes_at :: "int \<Rightarrow> bool \<Rightarrow> outcome list \<Rightarrow> int \<Rightarrow> nat" where
  "outcomes_at b s hist j = length (filter (\<lambda>x. snd x = s \<and> fst x div b = j) hist)"

definition rw_cells :: "rolling \<Rightarrow> bool \<Rightarrow> 32 word list" where
  "rw_cells w s = (if s then rw_successes w else rw_failures w)"

text \<open>The slots hold the counts of the last buckets, the oldest dropped.\<close>

definition rw_rep :: "rolling \<Rightarrow> outcome list \<Rightarrow> bool" where
  "rw_rep w hist \<longleftrightarrow>
     (let n = length (rw_successes w); b = rw_bucketMs w; last = rw_lastBucketIndex w in
      0 < n \<and> length (rw_failures w) = n \<and> 1 \<le> b \<and> (\<forall>x\<in>set hist. 0 \<le> fst x) \<and>
      (if last = -1 then hist = []
       else 0 \<le> last \<and> (\<forall>x\<in>set hist. fst x div b \<le> last) \<and>
         (\<forall>s j. last - int n < j \<and> j \<le> last \<longrightarrow>
            rw_cells w s ! nat (j mod int n) = of_nat (outcomes_at b s hist j))))"

lemma length_rw_clear [simp]: "length (rw_clear slot c xs) = length xs"
proof -
  have "length (fold (\<lambda>i ys. ys[f i := 0]) is xs) = length xs" for f :: "nat \<Rightarrow> nat" and "is"
    by (induction "is" arbitrary: xs) auto
  then show ?thesis by (simp add: rw_clear_def)
qed

lemma nth_fold_clear:
  "k < length xs \<Longrightarrow>
     fold (\<lambda>i ys. ys[f i := 0]) is xs ! k = (if k \<in> f ` set is then 0 else xs ! k)"
  by (induction "is" arbitrary: xs) (auto simp: nth_list_update)

lemma nth_rw_clear:
  "k < length xs \<Longrightarrow> rw_clear slot c xs ! k =
     (if \<exists>i<c. (slot + length xs - i) mod length xs = k then 0 else xs ! k)"
  by (auto simp: rw_clear_def nth_fold_clear)

text \<open>Which bucket a cleared slot belongs to.\<close>

lemma clear_slot_bucket:
  assumes n: "0 < n" and j: "index - int n < j" "j \<le> index" and c: "c \<le> n"
  shows "(\<exists>i<c. (nat (index mod int n) + n - i) mod n = nat (j mod int n)) \<longleftrightarrow> index - j < int c"
proof -
  have eq: "(nat (index mod int n) + n - i) mod n = nat (j mod int n) \<longleftrightarrow> int i = index - j"
    if i: "i < n" for i
  proof -
    have "int ((nat (index mod int n) + n - i) mod n) = (index mod int n + int n - int i) mod int n"
      using n i by (simp add: zmod_int of_nat_diff)
    also have "\<dots> = (index - int i) mod int n"
      by (metis diff_add_eq mod_add_self2 mod_diff_left_eq)
    finally have lhs: "int ((nat (index mod int n) + n - i) mod n) = (index - int i) mod int n" .
    have "(nat (index mod int n) + n - i) mod n = nat (j mod int n) \<longleftrightarrow>
        int ((nat (index mod int n) + n - i) mod n) = j mod int n"
      using n by (metis int_nat_eq nat_int pos_mod_sign of_nat_0_less_iff)
    also have "\<dots> \<longleftrightarrow> (index - int i) mod int n = j mod int n" by (simp only: lhs)
    also have "\<dots> \<longleftrightarrow> int n dvd (index - int i - j)" by (simp only: mod_eq_dvd_iff)
    also have "\<dots> \<longleftrightarrow> index - int i - j = 0"
    proof
      assume d: "int n dvd (index - int i - j)"
      have "\<bar>index - int i - j\<bar> < int n" using j i by linarith
      then show "index - int i - j = 0" using dvd_imp_le_int [OF _ d] by force
    qed simp
    finally show ?thesis by linarith
  qed
  show ?thesis
  proof
    assume "\<exists>i<c. (nat (index mod int n) + n - i) mod n = nat (j mod int n)"
    then obtain i where i: "i < c" "(nat (index mod int n) + n - i) mod n = nat (j mod int n)" by blast
    then have "int i = index - j" using eq c by simp
    then show "index - j < int c" using i(1) by simp
  next
    assume d: "index - j < int c"
    then have "nat (index - j) < c" "int (nat (index - j)) = index - j" using j by simp_all
    then show "\<exists>i<c. (nat (index mod int n) + n - i) mod n = nat (j mod int n)"
      using eq c by (meson order_less_le_trans)
  qed
qed

lemma rw_new_rep: "rw_new windowMs n = Inr w \<Longrightarrow> rw_rep w []"
  by (auto simp: rw_new_def rw_rep_def Let_def split: if_splits)

lemma rw_reset_rep: "rw_rep w hist \<Longrightarrow> rw_rep (rw_reset w) []"
  by (auto simp: rw_reset_def rw_rep_def Let_def)

lemma outcomes_later: "\<forall>x\<in>set hist. fst x div b \<le> i \<Longrightarrow> i < j \<Longrightarrow> outcomes_at b s hist j = 0"
  by (auto simp: outcomes_at_def filter_empty_conv)

lemma rw_rotate_slot:
  "snd (rw_rotate w now) = nat (now div rw_bucketMs w mod int (length (rw_successes w)))"
  by (simp add: rw_rotate_def Let_def)

lemma rw_rotate_shape [simp]:
  "length (rw_successes (fst (rw_rotate w now))) = length (rw_successes w)"
  "length (rw_failures (fst (rw_rotate w now))) = length (rw_failures w)"
  "rw_bucketMs (fst (rw_rotate w now)) = rw_bucketMs w"
  "rw_lastBucketIndex (fst (rw_rotate w now)) = now div rw_bucketMs w"
  by (simp_all add: rw_rotate_def Let_def)

lemma rw_rotate_cells:
  "rw_cells (fst (rw_rotate w now)) s =
     (let n = length (rw_successes w); index = now div rw_bucketMs w; last = rw_lastBucketIndex w in
      if last = index then rw_cells w s
      else rw_clear (nat (index mod int n))
        (nat (min (if last = -1 then int n else index - last) (int n))) (rw_cells w s))"
  by (simp add: rw_rotate_def rw_cells_def Let_def)

text \<open>Rotation clears exactly the buckets the clock has skipped.\<close>

lemma rw_rotate_rep:
  assumes rep: "rw_rep w hist" and t: "0 \<le> now" "\<forall>x\<in>set hist. fst x \<le> now"
    and fwd: "rw_lastBucketIndex w \<le> now div rw_bucketMs w"
  shows "rw_rep (fst (rw_rotate w now)) hist"
proof -
  let ?n = "length (rw_successes w)" and ?b = "rw_bucketMs w" and ?l = "rw_lastBucketIndex w"
  let ?index = "now div ?b"
  have n: "0 < ?n" "length (rw_failures w) = ?n" and b: "1 \<le> ?b" and h: "\<forall>x\<in>set hist. 0 \<le> fst x"
    and l: "?l = -1 \<Longrightarrow> hist = []"
    and cells: "\<And>s j. ?l \<noteq> -1 \<Longrightarrow> ?l - int ?n < j \<Longrightarrow> j \<le> ?l \<Longrightarrow>
        rw_cells w s ! nat (j mod int ?n) = of_nat (outcomes_at ?b s hist j)"
    and hl: "?l \<noteq> -1 \<Longrightarrow> 0 \<le> ?l \<and> (\<forall>x\<in>set hist. fst x div ?b \<le> ?l)"
    using rep by (auto simp: rw_rep_def Let_def split: if_splits)
  have index: "0 \<le> ?index" using t(1) b by (simp add: pos_imp_zdiv_nonneg_iff)
  have hi: "\<forall>x\<in>set hist. fst x div ?b \<le> ?index" using t(2) b by (auto intro: zdiv_mono1)
  have len: "length (rw_cells w s) = ?n" for s using n by (simp add: rw_cells_def)
  have "rw_cells (fst (rw_rotate w now)) s ! nat (j mod int ?n) = of_nat (outcomes_at ?b s hist j)"
    if j: "?index - int ?n < j" "j \<le> ?index" for s j
  proof -
    let ?c = "nat (min (if ?l = -1 then int ?n else ?index - ?l) (int ?n))"
    have k: "nat (j mod int ?n) < ?n" using n by (simp add: nat_less_iff)
    have cell: "rw_clear (nat (?index mod int ?n)) ?c (rw_cells w s) ! nat (j mod int ?n) =
        (if ?index - j < int ?c then 0 else rw_cells w s ! nat (j mod int ?n))"
      using nth_rw_clear [of "nat (j mod int ?n)" "rw_cells w s" "nat (?index mod int ?n)" ?c]
        clear_slot_bucket [OF n(1) j, of ?c] k by (simp add: len)
    show ?thesis
    proof (cases "?l = -1")
      case True
      then have "?index - j < int ?c" and "?l \<noteq> ?index" using j index by simp_all
      then show ?thesis using cell l [OF True]
        by (simp only: rw_rotate_cells Let_def if_False if_True) (simp add: outcomes_at_def)
    next
      case False
      show ?thesis
      proof (cases "?index - j < int ?c")
        case c: True
        then have "?index - j < ?index - ?l" using False fwd by (simp split: if_splits)
        then have lj: "?l < j" and "?l \<noteq> ?index" using j by simp_all
        then show ?thesis using cell c outcomes_later [of hist ?b ?l j s] hl [OF False]
          by (simp only: rw_rotate_cells Let_def if_False if_True) simp
      next
        case c: False
        then have "j \<le> ?l" "?l - int ?n < j" using False fwd j by (simp_all split: if_splits)
        then show ?thesis using cell c cells [OF False, of j s]
          by (cases "?l = ?index") (simp_all only: rw_rotate_cells Let_def if_False if_True simp_thms)
      qed
    qed
  qed
  then show ?thesis
    using n b h hi index by (simp add: rw_rep_def Let_def)
qed

text \<open>The window represents a history at a time the clock has reached.\<close>

definition rw_ok :: "rolling \<Rightarrow> outcome list \<Rightarrow> time \<Rightarrow> bool" where
  "rw_ok w hist now \<longleftrightarrow> rw_rep w hist \<and> 0 \<le> now \<and> (\<forall>x\<in>set hist. fst x \<le> now) \<and>
     rw_lastBucketIndex w \<le> now div rw_bucketMs w"

lemma rw_ok_mono: "rw_ok w hist now \<Longrightarrow> now \<le> now' \<Longrightarrow> rw_ok w hist now'"
proof -
  assume ok: "rw_ok w hist now" and le: "now \<le> now'"
  have "1 \<le> rw_bucketMs w" using ok by (simp add: rw_ok_def rw_rep_def Let_def)
  then have "now div rw_bucketMs w \<le> now' div rw_bucketMs w" using le by (intro zdiv_mono1) simp_all
  then show ?thesis using ok le by (force simp: rw_ok_def)
qed

lemma rw_new_ok: "rw_new windowMs n = Inr w \<Longrightarrow> 0 \<le> now \<Longrightarrow> rw_ok w [] now"
proof -
  assume w: "rw_new windowMs n = Inr w" and now: "0 \<le> now"
  have "0 \<le> now div rw_bucketMs w"
    using rw_new_rep [OF w] now by (simp add: rw_rep_def Let_def pos_imp_zdiv_nonneg_iff)
  then show ?thesis
    using w rw_new_rep [OF w] now by (auto simp: rw_ok_def rw_new_def split: if_splits)
qed

lemma rw_reset_ok: "rw_ok w hist now \<Longrightarrow> rw_ok (rw_reset w) [] now"
proof -
  assume ok: "rw_ok w hist now"
  have b: "1 \<le> rw_bucketMs w" using ok by (simp add: rw_ok_def rw_rep_def Let_def)
  then have "0 \<le> now div rw_bucketMs w"
    using ok by (simp add: rw_ok_def pos_imp_zdiv_nonneg_iff)
  then show ?thesis
    using ok rw_reset_rep [of w hist] by (simp add: rw_ok_def rw_reset_def)
qed

lemma rw_rotate_ok: "rw_ok w hist now \<Longrightarrow> rw_ok (fst (rw_rotate w now)) hist now"
  using rw_rotate_rep by (simp add: rw_ok_def)

lemma outcomes_at_snoc:
  "outcomes_at b s (hist @ [(t, u)]) j = outcomes_at b s hist j + (if u = s \<and> t div b = j then 1 else 0)"
  by (simp add: outcomes_at_def)

lemma rw_record_ok:
  assumes ok: "rw_ok w0 hist now"
  shows "rw_ok (rw_record w0 now success) (hist @ [(now, success)]) now"
proof -
  define w where "w = fst (rw_rotate w0 now)"
  let ?n = "length (rw_successes w)" and ?b = "rw_bucketMs w"
  let ?index = "now div ?b"
  let ?slot = "nat (?index mod int ?n)"
  let ?r = "rw_record w0 now success"
  have w: "rw_ok w hist now" unfolding w_def by (rule rw_rotate_ok [OF ok])
  have lst: "rw_lastBucketIndex w = ?index" by (simp add: w_def)
  have n: "0 < ?n" "length (rw_failures w) = ?n" and b: "1 \<le> ?b" and now: "0 \<le> now"
    and h: "\<forall>x\<in>set hist. 0 \<le> fst x \<and> fst x \<le> now"
    using w by (auto simp: rw_ok_def rw_rep_def Let_def)
  have index: "0 \<le> ?index" using now b by (simp add: pos_imp_zdiv_nonneg_iff)
  have hi: "\<forall>x\<in>set hist. fst x div ?b \<le> ?index" using h b by (auto intro: zdiv_mono1)
  have slot: "?slot < ?n" using n by (simp add: nat_less_iff)
  have cells: "rw_cells w s ! nat (j mod int ?n) = of_nat (outcomes_at ?b s hist j)"
    if "?index - int ?n < j" "j \<le> ?index" for s j
    using w lst index that by (auto simp: rw_ok_def rw_rep_def Let_def)
  have r: "?r = (if success then w\<lparr>rw_successes := (rw_successes w)[?slot := rw_successes w ! ?slot + 1]\<rparr>
      else w\<lparr>rw_failures := (rw_failures w)[?slot := rw_failures w ! ?slot + 1]\<rparr>)"
    using rw_rotate_slot [of w0 now]
    by (simp add: rw_record_def w_def split_beta)
  have rc: "rw_cells ?r s = (if s = success then (rw_cells w s)[?slot := rw_cells w s ! ?slot + 1] else rw_cells w s)" for s
    by (simp add: r rw_cells_def)
  have same: "nat (j mod int ?n) = ?slot \<longleftrightarrow> j = ?index" if j: "?index - int ?n < j" "j \<le> ?index" for j
  proof -
    have "nat (j mod int ?n) = ?slot \<longleftrightarrow> j mod int ?n = ?index mod int ?n"
      using n by (metis int_nat_eq pos_mod_sign of_nat_0_less_iff)
    also have "\<dots> \<longleftrightarrow> int ?n dvd ?index - j" by (metis mod_eq_dvd_iff)
    also have "\<dots> \<longleftrightarrow> j = ?index"
      using j dvd_imp_le_int [of "?index - j" "int ?n"] by auto
    finally show ?thesis .
  qed
  have len: "length (rw_cells w s) = ?n" for s using n by (simp add: rw_cells_def)
  have "rw_cells ?r s ! nat (j mod int ?n) = of_nat (outcomes_at ?b s (hist @ [(now, success)]) j)"
    if j: "?index - int ?n < j" "j \<le> ?index" for s j
  proof (cases "j = ?index \<and> s = success")
    case True
    then have j': "nat (j mod int ?n) = ?slot" by simp
    have "rw_cells ?r s ! ?slot = rw_cells w s ! ?slot + 1"
      using True slot by (simp only: rc len simp_thms if_True nth_list_update_eq)
    then show ?thesis using True cells [OF j, of s] j'
      by (simp only: outcomes_at_snoc) simp
  next
    case False
    have "rw_cells ?r s ! nat (j mod int ?n) = rw_cells w s ! nat (j mod int ?n)"
      using False same [OF j] by (auto simp only: rc nth_list_update_neq split: if_split)
    then show ?thesis using False cells [OF j, of s] by (auto simp: outcomes_at_snoc)
  qed
  moreover have "length (rw_successes ?r) = ?n" "length (rw_failures ?r) = ?n" "rw_bucketMs ?r = ?b"
    "rw_lastBucketIndex ?r = ?index"
    using n lst by (simp_all add: r)
  ultimately show ?thesis
    using n b h hi index now by (simp add: rw_ok_def rw_rep_def Let_def)
qed

text \<open>Summing the slots counts the outcomes of the last buckets.\<close>

definition in_window :: "rolling \<Rightarrow> time \<Rightarrow> outcome \<Rightarrow> bool" where
  "in_window w now x \<longleftrightarrow>
     now div rw_bucketMs w - int (length (rw_successes w)) < fst x div rw_bucketMs w"

definition window_count :: "rolling \<Rightarrow> outcome list \<Rightarrow> time \<Rightarrow> bool \<Rightarrow> nat" where
  "window_count w hist now s = length (filter (\<lambda>x. snd x = s \<and> in_window w now x) hist)"

lemma bij_window_slots:
  assumes "0 < (n::nat)"
  shows "bij_betw (\<lambda>j. nat (j mod int n)) {index - int n<..index} {0..<n}"
proof -
  have inj: "inj_on (\<lambda>j. nat (j mod int n)) {index - int n<..index}"
  proof (rule inj_onI)
    fix x y assume x: "x \<in> {index - int n<..index}" and y: "y \<in> {index - int n<..index}"
      and e: "nat (x mod int n) = nat (y mod int n)"
    have "x mod int n = y mod int n" using e assms by (metis int_nat_eq pos_mod_sign of_nat_0_less_iff)
    then have d: "int n dvd x - y" by (simp add: mod_eq_dvd_iff)
    have "\<bar>x - y\<bar> < int n" using x y by auto
    then show "x = y" using dvd_imp_le_int [OF _ d] by force
  qed
  have "(\<lambda>j. nat (j mod int n)) ` {index - int n<..index} = {0..<n}"
  proof (rule card_subset_eq)
    show "(\<lambda>j. nat (j mod int n)) ` {index - int n<..index} \<subseteq> {0..<n}"
      using assms by (auto simp: nat_less_iff)
    show "card ((\<lambda>j. nat (j mod int n)) ` {index - int n<..index}) = card {0..<n}"
      using card_image [OF inj] by simp
  qed simp
  then show ?thesis using inj by (simp add: bij_betw_def)
qed

lemma sum_outcomes_at:
  assumes "\<forall>x\<in>set hist. fst x div b \<le> hi"
  shows "(\<Sum>j\<in>{lo<..hi}. outcomes_at b s hist j) =
    length (filter (\<lambda>x. snd x = s \<and> lo < fst x div b) hist)"
  using assms
proof (induction hist)
  case Nil
  then show ?case by (simp add: outcomes_at_def)
next
  case (Cons x hist)
  have "outcomes_at b s (x # hist) j =
      outcomes_at b s hist j + (if j = fst x div b then (if snd x = s then 1 else 0) else 0)" for j
    by (simp add: outcomes_at_def)
  then show ?case using Cons by (simp add: sum.distrib sum.delta)
qed

lemma outcomes_at_le: "outcomes_at b s hist j \<le> length hist"
  by (simp add: outcomes_at_def)

lemma rw_sum_cells:
  assumes ok: "rw_ok w hist now" and lst: "rw_lastBucketIndex w = now div rw_bucketMs w"
    and len: "length hist < 2 ^ 32"
  shows "sum_list (map unat (rw_cells w s)) = window_count w hist now s"
proof -
  let ?n = "length (rw_successes w)" and ?b = "rw_bucketMs w"
  let ?index = "now div ?b"
  have n: "0 < ?n" "length (rw_failures w) = ?n" and b: "1 \<le> ?b" and h: "\<forall>x\<in>set hist. fst x \<le> now"
    using ok by (auto simp: rw_ok_def rw_rep_def Let_def)
  have index: "0 \<le> ?index" using ok b by (simp add: rw_ok_def pos_imp_zdiv_nonneg_iff)
  have hi: "\<forall>x\<in>set hist. fst x div ?b \<le> ?index" using h b by (auto intro: zdiv_mono1)
  have cell: "unat (rw_cells w s ! nat (j mod int ?n)) = outcomes_at ?b s hist j"
    if "j \<in> {?index - int ?n<..?index}" for j
  proof -
    have "outcomes_at ?b s hist j < 2 ^ 32" using outcomes_at_le len by (rule order_le_less_trans)
    then show ?thesis
      using ok lst index that by (auto simp: rw_ok_def rw_rep_def Let_def unsigned_of_nat take_bit_nat_eq_self)
  qed
  have "sum_list (map unat (rw_cells w s)) = (\<Sum>i\<in>{0..<?n}. unat (rw_cells w s ! i))"
    using n by (simp add: sum_list_sum_nth rw_cells_def)
  also have "\<dots> = (\<Sum>j\<in>{?index - int ?n<..?index}. unat (rw_cells w s ! nat (j mod int ?n)))"
    by (rule sum.reindex_bij_betw [OF bij_window_slots [OF n(1)], symmetric])
  also have "\<dots> = (\<Sum>j\<in>{?index - int ?n<..?index}. outcomes_at ?b s hist j)"
    by (rule sum.cong [OF refl cell])
  also have "\<dots> = window_count w hist now s"
    using sum_outcomes_at [OF hi] by (simp add: window_count_def in_window_def)
  finally show ?thesis .
qed

text \<open>What a snapshot reports.\<close>

definition snap_of :: "nat \<Rightarrow> nat \<Rightarrow> rw_snap" where
  "snap_of ok bad = \<lparr>sn_successes = ok, sn_failures = bad, sn_total = ok + bad,
     sn_failureRate = (if ok + bad = 0 then 0 else of_nat bad / of_nat (ok + bad))\<rparr>"

lemma window_count_rotate: "window_count (fst (rw_rotate w now)) hist t s = window_count w hist t s"
  by (simp add: window_count_def in_window_def)

lemma rw_snapshot_exact:
  assumes "rw_ok w hist now" and "length hist < 2 ^ 32"
  shows "snd (rw_snapshot w now) = snap_of (window_count w hist now True) (window_count w hist now False)"
    and "rw_ok (fst (rw_snapshot w now)) hist now"
proof -
  have ok: "rw_ok (fst (rw_rotate w now)) hist now" by (rule rw_rotate_ok [OF assms(1)])
  note sums = rw_sum_cells [OF ok _ assms(2), of True] rw_sum_cells [OF ok _ assms(2), of False]
  show "snd (rw_snapshot w now) = snap_of (window_count w hist now True) (window_count w hist now False)"
    using sums by (simp only: rw_snapshot_def Let_def snap_of_def rw_cells_def window_count_rotate
      rw_rotate_shape simp_thms if_True if_False snd_conv)
  show "rw_ok (fst (rw_snapshot w now)) hist now"
    using ok by (simp add: rw_snapshot_def Let_def)
qed

section \<open>Runs\<close>

datatype rw_op = Record bool | Snapshot | RwReset

definition rw_step :: "rolling \<Rightarrow> time \<times> rw_op \<Rightarrow> rolling \<times> rw_snap option" where
  "rw_step w x =
     (case snd x of
        Record s \<Rightarrow> (rw_record w (fst x) s, None)
      | Snapshot \<Rightarrow> (let (w', sn) = rw_snapshot w (fst x) in (w', Some sn))
      | RwReset \<Rightarrow> (rw_reset w, None))"

text \<open>The reference: the list of all outcomes, filtered by bucket at each snapshot.\<close>

definition hist_step :: "int \<Rightarrow> nat \<Rightarrow> outcome list \<Rightarrow> time \<times> rw_op \<Rightarrow> outcome list \<times> rw_snap option" where
  "hist_step b n hist x =
     (case snd x of
        Record s \<Rightarrow> (hist @ [(fst x, s)], None)
      | Snapshot \<Rightarrow>
          (let recent = filter (\<lambda>y. fst x div b - int n < fst y div b) hist in
           (hist, Some (snap_of (length (filter snd recent)) (length (filter (Not \<circ> snd) recent)))))
      | RwReset \<Rightarrow> ([], None))"

definition rw_shape :: "int \<Rightarrow> nat \<Rightarrow> rolling \<Rightarrow> bool" where
  "rw_shape b n w \<longleftrightarrow> rw_bucketMs w = b \<and> length (rw_successes w) = n"

lemma rw_step_shape: "rw_shape b n w \<Longrightarrow> rw_shape b n (fst (rw_step w x))"
  by (auto simp: rw_shape_def rw_step_def rw_record_def rw_snapshot_def rw_reset_def Let_def split_beta
      split: rw_op.splits)

lemma window_count_filter:
  "window_count w hist now True =
     length (filter snd (filter (\<lambda>y. now div rw_bucketMs w - int (length (rw_successes w)) < fst y div rw_bucketMs w) hist))"
  "window_count w hist now False =
     length (filter (Not \<circ> snd) (filter (\<lambda>y. now div rw_bucketMs w - int (length (rw_successes w)) < fst y div rw_bucketMs w) hist))"
  by (simp_all add: window_count_def in_window_def comp_def conj_commute)

lemma rw_step_sim:
  assumes ok: "rw_ok w hist (fst x)" and shape: "rw_shape b n w" and len: "length hist < 2 ^ 32"
  shows "snd (rw_step w x) = snd (hist_step b n hist x) \<and>
    rw_ok (fst (rw_step w x)) (fst (hist_step b n hist x)) (fst x)"
proof (cases "snd x")
  case (Record s)
  then show ?thesis using rw_record_ok [OF ok] by (simp add: rw_step_def hist_step_def)
next
  case Snapshot
  then show ?thesis
    using rw_snapshot_exact [OF ok len] shape
    by (simp add: rw_step_def hist_step_def split_beta Let_def window_count_filter rw_shape_def)
next
  case RwReset
  then show ?thesis using rw_reset_ok [OF ok] by (simp add: rw_step_def hist_step_def)
qed

lemma rw_runs_sim:
  "rw_ok w hist now \<Longrightarrow> rw_shape b n w \<Longrightarrow> length hist + length es < 2 ^ 32 \<Longrightarrow>
     sorted (map fst es) \<Longrightarrow> \<forall>x\<in>set es. now \<le> fst x \<Longrightarrow>
     run_replies rw_step w es = run_replies (hist_step b n) hist es"
proof (induction es arbitrary: w hist now)
  case (Cons x es)
  have ok: "rw_ok w hist (fst x)" using Cons.prems rw_ok_mono by auto
  have len: "length (fst (hist_step b n hist x)) \<le> Suc (length hist)"
    by (simp add: hist_step_def Let_def split: rw_op.splits)
  note step = rw_step_sim [OF ok Cons.prems(2)]
  have "run_replies rw_step (fst (rw_step w x)) es = run_replies (hist_step b n) (fst (hist_step b n hist x)) es"
    using step rw_step_shape [OF Cons.prems(2)] Cons.prems len
    by (intro Cons.IH [of _ _ "fst x"]) auto
  then show ?case using step Cons.prems by simp
qed simp

section \<open>Properties\<close>

text \<open>
  The rolling window never lies: over any run of fewer than $2^{32}$ operations with a
  clock that does not go back, every snapshot is the one computed from the full list of
  outcomes recorded since the last reset, restricted to the last \<open>bucketCount\<close> buckets of
  \<open>bucketMs\<close>, whatever the gaps between operations.
\<close>

theorem rolling_window_exact:
  assumes "rw_new windowMs n = Inr w" and "sorted (map fst es)" and "\<forall>x\<in>set es. 0 \<le> fst x"
    and "length es < 2 ^ 32"
  shows "run_replies rw_step w es = run_replies (hist_step (max 1 (windowMs div int n)) n) [] es"
  using assms rw_new_ok [OF assms(1), of 0]
  by (intro rw_runs_sim [where now = 0]) (auto simp: rw_shape_def rw_new_def split: if_splits)

theorem rolling_window_exact_witness:
  "\<exists>w. rw_new 30 3 = Inr w \<and>
     run_replies rw_step w [(5, Record True), (12, Record False), (33, Record False), (33, Snapshot)] =
     [None, None, None, Some (snap_of 0 (Suc (Suc 0)))]"
proof -
  let ?w = "\<lparr>rw_successes = replicate 3 0, rw_failures = replicate 3 0,
    rw_bucketMs = max 1 (30 div int 3), rw_lastBucketIndex = -1\<rparr>"
  have new: "rw_new 30 3 = Inr ?w" by (simp add: rw_new_def)
  then show ?thesis
    using rolling_window_exact [OF new,
        of "[(5, Record True), (12, Record False), (33, Record False), (33, Snapshot)]"]
    by (simp add: hist_step_def Let_def)
qed

end
