(* ===== verification/Breaker.thy ===== *)
theory Breaker
  imports RollingWindow
begin

text \<open>
  The circuit breaker of \<open>packages/runtime/src/resilience/circuit-breaker.ts\<close> on top of
  the rolling window: its state machine, \<open>execute\<close> split where the code awaits the
  operation (\<open>cb_begin\<close> before it, \<open>cb_finish\<close> after it), the registry, and a step
  relation in which any number of calls overlap. Logging is left out; the window snapshot
  taken for the log line of \<open>open\<close>, which rotates the window, is not.
\<close>

datatype circuit_state = Closed | Open | HalfOpen

record 'e cb_options =
  cbo_name :: string
  cbo_failureThreshold :: "rat option"
  cbo_volumeThreshold :: "nat option"
  cbo_windowMs :: "int option"
  cbo_resetTimeoutMs :: "int option"
  cbo_successesToClose :: "nat option"
  cbo_halfOpenMaxCalls :: "nat option"
  cbo_isFailure :: "('e \<Rightarrow> bool) option"

record 'e breaker =
  cb_name :: string
  cb_failureThreshold :: rat
  cb_volumeThreshold :: nat
  cb_resetTimeoutMs :: int
  cb_successesToClose :: nat
  cb_halfOpenMaxCalls :: nat
  cb_isFailure :: "'e \<Rightarrow> bool"
  cb_state :: circuit_state
  cb_openedAt :: "time option"
  cb_halfOpenSuccesses :: nat
  cb_halfOpenInFlight :: nat
  cb_window :: rolling

definition or_else :: "'a option \<Rightarrow> 'a \<Rightarrow> 'a" where
  "or_else x d = (case x of Some v \<Rightarrow> v | None \<Rightarrow> d)"

definition cb_new :: "'e cb_options \<Rightarrow> js_error + 'e breaker" where
  "cb_new options =
     (case rw_new (or_else (cbo_windowMs options) 60000) 10 of
        Inl e \<Rightarrow> Inl e
      | Inr w \<Rightarrow> Inr
          \<lparr>cb_name = cbo_name options,
           cb_failureThreshold = or_else (cbo_failureThreshold options) (1 / 2),
           cb_volumeThreshold = or_else (cbo_volumeThreshold options) 5,
           cb_resetTimeoutMs = or_else (cbo_resetTimeoutMs options) 30000,
           cb_successesToClose = or_else (cbo_successesToClose options) 2,
           cb_halfOpenMaxCalls = or_else (cbo_halfOpenMaxCalls options) 1,
           cb_isFailure = or_else (cbo_isFailure options) (\<lambda>_. True),
           cb_state = Closed, cb_openedAt = None, cb_halfOpenSuccesses = 0,
           cb_halfOpenInFlight = 0, cb_window = w\<rparr>)"

definition cb_maybeHalfOpen :: "'e breaker \<Rightarrow> time \<Rightarrow> 'e breaker" where
  "cb_maybeHalfOpen b now =
     (case (cb_state b, cb_openedAt b) of
        (Open, Some t) \<Rightarrow>
          if cb_resetTimeoutMs b \<le> now - t
          then b\<lparr>cb_state := HalfOpen, cb_halfOpenSuccesses := 0, cb_halfOpenInFlight := 0\<rparr> else b
      | _ \<Rightarrow> b)"

definition cb_retryAfterMs :: "'e breaker \<Rightarrow> time \<Rightarrow> int" where
  "cb_retryAfterMs b now =
     (case (cb_state b, cb_openedAt b) of
        (Open, Some t) \<Rightarrow> max 0 (cb_resetTimeoutMs b - (now - t))
      | _ \<Rightarrow> 0)"

definition cb_getState :: "'e breaker \<Rightarrow> time \<Rightarrow> 'e breaker \<times> circuit_state" where
  "cb_getState b now = (let b' = cb_maybeHalfOpen b now in (b', cb_state b'))"

definition cb_open :: "'e breaker \<Rightarrow> time \<Rightarrow> 'e breaker" where
  "cb_open b now =
     (if cb_state b = Open then b
      else b\<lparr>cb_state := Open, cb_openedAt := Some now, cb_halfOpenSuccesses := 0,
             cb_halfOpenInFlight := 0, cb_window := fst (rw_snapshot (cb_window b) now)\<rparr>)"

definition cb_close :: "'e breaker \<Rightarrow> 'e breaker" where
  "cb_close b = b\<lparr>cb_state := Closed, cb_openedAt := None, cb_halfOpenSuccesses := 0,
                  cb_window := rw_reset (cb_window b)\<rparr>"

definition cb_recordSuccess :: "'e breaker \<Rightarrow> time \<Rightarrow> 'e breaker" where
  "cb_recordSuccess b0 now =
     (let b = b0\<lparr>cb_window := rw_record (cb_window b0) now True\<rparr> in
      if cb_state b = HalfOpen
      then let b' = b\<lparr>cb_halfOpenSuccesses := cb_halfOpenSuccesses b + 1\<rparr> in
        (if cb_successesToClose b' \<le> cb_halfOpenSuccesses b' then cb_close b' else b')
      else b)"

definition cb_recordFailure :: "'e breaker \<Rightarrow> time \<Rightarrow> 'e breaker" where
  "cb_recordFailure b0 now =
     (let b = b0\<lparr>cb_window := rw_record (cb_window b0) now False\<rparr> in
      if cb_state b = HalfOpen then cb_open b now
      else if cb_state b = Closed
      then let (w, s) = rw_snapshot (cb_window b) now; b' = b\<lparr>cb_window := w\<rparr> in
        (if cb_volumeThreshold b' \<le> sn_total s \<and> cb_failureThreshold b' \<le> sn_failureRate s
         then cb_open b' now else b')
      else b)"

definition cb_reset :: "'e breaker \<Rightarrow> 'e breaker" where
  "cb_reset b = b\<lparr>cb_state := Closed, cb_openedAt := None, cb_halfOpenSuccesses := 0,
                  cb_halfOpenInFlight := 0, cb_window := rw_reset (cb_window b)\<rparr>"

text \<open>\<open>execute\<close> up to the await: the call is rejected, or the operation starts.\<close>

datatype 'e cb_error = CircuitOpenError string int | OperationError 'e

definition cb_begin :: "'e breaker \<Rightarrow> time \<Rightarrow> 'e breaker \<times> 'e cb_error option" where
  "cb_begin b0 now =
     (let b = cb_maybeHalfOpen b0 now in
      if cb_state b = Open
      then (b, Some (CircuitOpenError (cb_name b) (cb_retryAfterMs b now)))
      else if cb_state b = HalfOpen
      then if cb_halfOpenMaxCalls b \<le> cb_halfOpenInFlight b
           then (b, Some (CircuitOpenError (cb_name b) (cb_retryAfterMs b now)))
           else (b\<lparr>cb_halfOpenInFlight := cb_halfOpenInFlight b + 1\<rparr>, None)
      else (b, None))"

text \<open>\<open>execute\<close> after the await, with the operation's result, up to its \<open>finally\<close>.\<close>

definition cb_finally :: "'e breaker \<Rightarrow> 'e breaker" where
  "cb_finally b =
     (if cb_state b = HalfOpen \<and> 0 < cb_halfOpenInFlight b
      then b\<lparr>cb_halfOpenInFlight := cb_halfOpenInFlight b - 1\<rparr> else b)"

definition cb_finish :: "'e breaker \<Rightarrow> time \<Rightarrow> 'e + 'a \<Rightarrow> 'e breaker" where
  "cb_finish b now result =
     cb_finally
       (case result of
          Inr _ \<Rightarrow> cb_recordSuccess b now
        | Inl e \<Rightarrow> if cb_isFailure b e then cb_recordFailure b now else cb_recordSuccess b now)"

text \<open>A whole call that no other call overlaps: it starts at one time and ends at another.\<close>

definition cb_execute :: "'e breaker \<Rightarrow> time \<Rightarrow> time \<Rightarrow> 'e + 'a \<Rightarrow> 'e breaker \<times> ('e cb_error + 'a)" where
  "cb_execute b t0 t1 result =
     (case cb_begin b t0 of
        (b', Some e) \<Rightarrow> (b', Inl e)
      | (b', None) \<Rightarrow>
          (cb_finish b' t1 result,
           case result of Inr a \<Rightarrow> Inr a | Inl e \<Rightarrow> Inl (OperationError e)))"

definition cb_executeWithFallback ::
  "'e breaker \<Rightarrow> time \<Rightarrow> time \<Rightarrow> 'e + 'a \<Rightarrow> 'e cb_error + 'a \<Rightarrow> 'e breaker \<times> ('e cb_error + 'a)" where
  "cb_executeWithFallback b t0 t1 result fallback =
     (case cb_execute b t0 t1 result of
        (b', Inl (CircuitOpenError n ms)) \<Rightarrow> (b', fallback)
      | other \<Rightarrow> other)"

record cb_snapshot =
  cbs_name :: string
  cbs_state :: circuit_state
  cbs_failureRate :: rat
  cbs_total :: nat
  cbs_failures :: nat
  cbs_openedAt :: "time option"
  cbs_retryAfterMs :: int

definition cb_take_snapshot :: "'e breaker \<Rightarrow> time \<Rightarrow> 'e breaker \<times> cb_snapshot" where
  "cb_take_snapshot b0 now =
     (let (w, s) = rw_snapshot (cb_window b0) now;
          (b, st) = cb_getState (b0\<lparr>cb_window := w\<rparr>) now
      in (b, \<lparr>cbs_name = cb_name b, cbs_state = st, cbs_failureRate = sn_failureRate s,
              cbs_total = sn_total s, cbs_failures = sn_failures s, cbs_openedAt = cb_openedAt b,
              cbs_retryAfterMs = cb_retryAfterMs b now\<rparr>))"

section \<open>The registry\<close>

record 'e cb_registry =
  reg_defaults :: "'e cb_options"
  reg_breakers :: "(string, 'e breaker) jsmap"
  reg_lastUsed :: "(string, time) jsmap"

definition reg_new :: "'e cb_options \<Rightarrow> 'e cb_registry" where
  "reg_new defaults = \<lparr>reg_defaults = defaults, reg_breakers = [], reg_lastUsed = []\<rparr>"

definition reg_get :: "'e cb_registry \<Rightarrow> time \<Rightarrow> string \<Rightarrow> 'e cb_registry \<times> (js_error + 'e breaker)" where
  "reg_get r0 now name =
     (let r = r0\<lparr>reg_lastUsed := jm_set name now (reg_lastUsed r0)\<rparr> in
      case jm_get (reg_breakers r) name of
        Some b \<Rightarrow> (r, Inr b)
      | None \<Rightarrow>
          (case cb_new ((reg_defaults r)\<lparr>cbo_name := name\<rparr>) of
             Inl e \<Rightarrow> (r, Inl e)
           | Inr b \<Rightarrow> (r\<lparr>reg_breakers := jm_set name b (reg_breakers r)\<rparr>, Inr b)))"

text \<open>One turn of the pruning loop, over the entries of \<open>lastUsed\<close>.\<close>

definition reg_prune_entry :: "time \<Rightarrow> time \<Rightarrow> string \<times> time \<Rightarrow> 'e cb_registry \<times> nat \<Rightarrow> 'e cb_registry \<times> nat" where
  "reg_prune_entry now cutoff x rn =
     (let (name, used) = x; (r, removed) = rn in
      if cutoff \<le> used then (r, removed)
      else case jm_get (reg_breakers r) name of
             None \<Rightarrow> (r, removed)
           | Some b0 \<Rightarrow>
               (let (b, st) = cb_getState b0 now in
                if st \<noteq> Closed
                then (r\<lparr>reg_breakers := jm_set name b (reg_breakers r)\<rparr>, removed)
                else (r\<lparr>reg_breakers := jm_delete name (reg_breakers r),
                        reg_lastUsed := jm_delete name (reg_lastUsed r)\<rparr>, removed + 1)))"

definition reg_prune :: "'e cb_registry \<Rightarrow> time \<Rightarrow> int \<Rightarrow> 'e cb_registry \<times> nat" where
  "reg_prune r now maxIdleMs =
     fold (reg_prune_entry now (now - maxIdleMs)) (reg_lastUsed r) (r, 0)"

definition reg_unhealthy :: "'e cb_registry \<Rightarrow> time \<Rightarrow> 'e cb_registry \<times> cb_snapshot list" where
  "reg_unhealthy r now =
     (let snaps = map (\<lambda>(name, b). (name, cb_take_snapshot b now)) (reg_breakers r)
      in (r\<lparr>reg_breakers := map (\<lambda>(name, bs). (name, fst bs)) snaps\<rparr>,
          filter (\<lambda>s. cbs_state s \<noteq> Closed) (map (snd \<circ> snd) snaps)))"

definition reg_size :: "'e cb_registry \<Rightarrow> nat" where
  "reg_size r = length (reg_breakers r)"

definition reg_clear :: "'e cb_registry \<Rightarrow> 'e cb_registry" where
  "reg_clear r = r\<lparr>reg_breakers := [], reg_lastUsed := []\<rparr>"

section \<open>Overlapping calls\<close>

text \<open>
  A breaker with its callers: the calls in flight that were admitted in the current
  half-open phase (\<open>sys_trials\<close>) and before it (\<open>sys_others\<close>), the results of the latter
  delivered during the phase (\<open>sys_late\<close>), and all outcomes recorded since the window was
  last reset.
\<close>

record 'e cb_sys =
  sys_breaker :: "'e breaker"
  sys_clock :: time
  sys_trials :: nat
  sys_others :: nat
  sys_late :: nat
  sys_hist :: "outcome list"

definition result_ok :: "'e breaker \<Rightarrow> 'e + unit \<Rightarrow> bool" where
  "result_ok b result = (case result of Inr _ \<Rightarrow> True | Inl e \<Rightarrow> \<not> cb_isFailure b e)"

text \<open>The callers after the breaker became \<open>b'\<close>: a new state starts a new phase.\<close>

definition sys_to :: "'e cb_sys \<Rightarrow> time \<Rightarrow> 'e breaker \<Rightarrow> 'e cb_sys" where
  "sys_to s now b' =
     (if cb_state b' = cb_state (sys_breaker s)
      then s\<lparr>sys_breaker := b', sys_clock := now\<rparr>
      else s\<lparr>sys_breaker := b', sys_clock := now, sys_trials := 0,
             sys_others := sys_others s + sys_trials s, sys_late := 0\<rparr>)"

definition sys_admit :: "'e cb_sys \<Rightarrow> 'e cb_sys" where
  "sys_admit s =
     (if cb_state (sys_breaker s) = HalfOpen then s\<lparr>sys_trials := sys_trials s + 1\<rparr>
      else s\<lparr>sys_others := sys_others s + 1\<rparr>)"

definition sys_record :: "'e cb_sys \<Rightarrow> time \<Rightarrow> 'e + unit \<Rightarrow> 'e cb_sys" where
  "sys_record s now result =
     (let b = sys_breaker s; b' = cb_finish b now result in
      (sys_to s now b')
        \<lparr>sys_hist := (if cb_state b = HalfOpen \<and> cb_state b' = Closed then []
                     else sys_hist s @ [(now, result_ok b result)])\<rparr>)"

definition sys_late_done :: "'e cb_sys \<Rightarrow> 'e cb_sys" where
  "sys_late_done s =
     s\<lparr>sys_others := sys_others s - 1,
       sys_late := (if cb_state (sys_breaker s) = HalfOpen then sys_late s + 1 else sys_late s)\<rparr>"

inductive cb_step :: "'e cb_sys \<Rightarrow> 'e cb_sys \<Rightarrow> bool" where
  admit: "sys_clock s \<le> now \<Longrightarrow> cb_begin (sys_breaker s) now = (b', None) \<Longrightarrow>
    cb_step s (sys_admit (sys_to s now b'))"
| reject: "sys_clock s \<le> now \<Longrightarrow> cb_begin (sys_breaker s) now = (b', Some e) \<Longrightarrow>
    cb_step s (sys_to s now b')"
| trial_done: "sys_clock s \<le> now \<Longrightarrow> 0 < sys_trials s \<Longrightarrow>
    cb_step s (sys_record (s\<lparr>sys_trials := sys_trials s - 1\<rparr>) now result)"
| other_done: "sys_clock s \<le> now \<Longrightarrow> 0 < sys_others s \<Longrightarrow>
    cb_step s (sys_record (sys_late_done s) now result)"
| observe: "sys_clock s \<le> now \<Longrightarrow> cb_step s (sys_to s now (fst (cb_take_snapshot (sys_breaker s) now)))"
| look: "sys_clock s \<le> now \<Longrightarrow> cb_step s (sys_to s now (fst (cb_getState (sys_breaker s) now)))"
| reset: "sys_clock s \<le> now \<Longrightarrow>
    cb_step s ((sys_to s now (cb_reset (sys_breaker s)))\<lparr>sys_hist := []\<rparr>)"

definition sys_start :: "'e breaker \<Rightarrow> 'e cb_sys" where
  "sys_start b = \<lparr>sys_breaker = b, sys_clock = 0, sys_trials = 0, sys_others = 0, sys_late = 0, sys_hist = []\<rparr>"

definition cb_reachable :: "'e cb_options \<Rightarrow> 'e cb_sys \<Rightarrow> bool" where
  "cb_reachable options s \<longleftrightarrow> (\<exists>b. cb_new options = Inr b \<and> cb_step\<^sup>*\<^sup>* (sys_start b) s)"

definition cb_inv :: "'e cb_sys \<Rightarrow> bool" where
  "cb_inv s \<longleftrightarrow>
     (let b = sys_breaker s in
      rw_ok (cb_window b) (sys_hist s) (sys_clock s) \<and>
      (cb_state b = Open \<longrightarrow> (\<exists>t. cb_openedAt b = Some t \<and> t \<le> sys_clock s)) \<and>
      (cb_state b = HalfOpen \<longrightarrow> sys_trials s \<le> cb_halfOpenInFlight b + sys_late s \<and>
         cb_halfOpenInFlight b \<le> cb_halfOpenMaxCalls b) \<and>
      (cb_state b \<noteq> HalfOpen \<longrightarrow> sys_trials s = 0))"

text \<open>The configuration and the window's shape never change.\<close>

definition cb_config :: "'e breaker \<Rightarrow> rat \<times> nat \<times> int \<times> nat \<times> nat \<times> ('e \<Rightarrow> bool)" where
  "cb_config b = (cb_failureThreshold b, cb_volumeThreshold b, cb_resetTimeoutMs b,
     cb_successesToClose b, cb_halfOpenMaxCalls b, cb_isFailure b)"

named_theorems breaker \<open>definitions of the breaker's operations\<close>

declare cb_maybeHalfOpen_def [breaker] cb_getState_def [breaker] cb_open_def [breaker]
  cb_close_def [breaker] cb_recordSuccess_def [breaker] cb_recordFailure_def [breaker]
  cb_reset_def [breaker] cb_finally_def [breaker] cb_finish_def [breaker]

lemma rw_snapshot_ok: "rw_ok w hist now \<Longrightarrow> rw_ok (fst (rw_snapshot w now)) hist now"
  using rw_rotate_ok by (simp add: rw_snapshot_def Let_def)

lemma maybeHalfOpen_cases:
  "cb_maybeHalfOpen b now = b \<or>
   cb_state b = Open \<and> cb_maybeHalfOpen b now =
     b\<lparr>cb_state := HalfOpen, cb_halfOpenSuccesses := 0, cb_halfOpenInFlight := 0\<rparr>"
  by (auto simp: cb_maybeHalfOpen_def split: circuit_state.splits option.splits)

lemma cb_inv_halfOpen:
  assumes "cb_inv s" and "sys_clock s \<le> now"
  shows "cb_inv (sys_to s now (cb_maybeHalfOpen (sys_breaker s) now))"
  using maybeHalfOpen_cases [of "sys_breaker s" now] assms rw_ok_mono [OF _ assms(2)]
  by (auto simp: cb_inv_def Let_def sys_to_def)

lemma cb_inv_window:
  assumes "cb_inv s" and "rw_ok w (sys_hist s) (sys_clock s)"
  shows "cb_inv (s\<lparr>sys_breaker := (sys_breaker s)\<lparr>cb_window := w\<rparr>\<rparr>)"
  using assms by (simp add: cb_inv_def Let_def)

lemma rw_double_snapshot:
  "rw_ok w hist now \<Longrightarrow> rw_ok (fst (rw_snapshot (fst (rw_snapshot w now)) now)) hist now"
  by (intro rw_snapshot_ok)

lemma cb_finish_state:
  "cb_state (cb_finish b now result) = HalfOpen \<Longrightarrow> cb_state b = HalfOpen"
  by (cases "cb_state b") (auto simp: breaker Let_def split_beta split: if_splits sum.splits)

lemma cb_finish_window:
  assumes "rw_ok (cb_window b) hist now"
  shows "rw_ok (cb_window (cb_finish b now result))
    (if cb_state b = HalfOpen \<and> cb_state (cb_finish b now result) = Closed then []
     else hist @ [(now, result_ok b result)]) now"
proof -
  note rec = rw_record_ok [OF assms]
  note rec' = rec rw_snapshot_ok [OF rec] rw_snapshot_ok [OF rw_snapshot_ok [OF rec]] rw_reset_ok [OF rec]
  show ?thesis
    using rec' by (cases "cb_state b"; cases result)
      (simp_all add: breaker Let_def split_beta result_ok_def)
qed

lemma cb_finish_trials:
  "cb_state b = HalfOpen \<Longrightarrow> cb_state (cb_finish b now result) = HalfOpen \<Longrightarrow>
     cb_halfOpenInFlight (cb_finish b now result) = cb_halfOpenInFlight b - 1 \<and>
     cb_halfOpenMaxCalls (cb_finish b now result) = cb_halfOpenMaxCalls b"
  by (cases result) (auto simp: breaker Let_def split_beta split: if_splits)

lemma cb_finish_opened:
  "cb_state (cb_finish b now result) = Open \<Longrightarrow>
     cb_openedAt (cb_finish b now result) = (if cb_state b = Open then cb_openedAt b else Some now)"
  by (cases "cb_state b"; cases result) (auto simp: breaker Let_def split_beta split: if_splits)

lemma cb_inv_record:
  assumes w: "rw_ok (cb_window (sys_breaker s)) (sys_hist s) now"
    and op: "cb_state (sys_breaker s) = Open \<longrightarrow> (\<exists>t. cb_openedAt (sys_breaker s) = Some t \<and> t \<le> now)"
    and tr: "cb_state (sys_breaker s) = HalfOpen \<longrightarrow>
      sys_trials s \<le> (cb_halfOpenInFlight (sys_breaker s) - 1) + sys_late s \<and>
      cb_halfOpenInFlight (sys_breaker s) \<le> cb_halfOpenMaxCalls (sys_breaker s)"
    and cl: "cb_state (sys_breaker s) \<noteq> HalfOpen \<longrightarrow> sys_trials s = 0"
  shows "cb_inv (sys_record s now result)"
proof -
  let ?b = "sys_breaker s" and ?b' = "cb_finish (sys_breaker s) now result"
  have win: "rw_ok (cb_window ?b') (if cb_state ?b = HalfOpen \<and> cb_state ?b' = Closed then []
     else sys_hist s @ [(now, result_ok ?b result)]) now" by (rule cb_finish_window [OF w])
  have opened: "cb_state ?b' = Open \<Longrightarrow> \<exists>t. cb_openedAt ?b' = Some t \<and> t \<le> now"
    using cb_finish_opened [of ?b now result] op by auto
  have half: "cb_state ?b' = HalfOpen \<Longrightarrow> cb_state ?b = HalfOpen \<and>
      cb_halfOpenInFlight ?b' = cb_halfOpenInFlight ?b - 1 \<and>
      cb_halfOpenMaxCalls ?b' = cb_halfOpenMaxCalls ?b"
    using cb_finish_state [of ?b now result] cb_finish_trials [of ?b now result] by blast
  show ?thesis
    using win opened half tr cl
    by (cases "cb_state ?b"; cases "cb_state ?b'") (simp_all add: cb_inv_def Let_def sys_record_def sys_to_def)
qed

lemma cb_begin_split:
  "cb_begin b now = (b', r) \<Longrightarrow>
     (b' = cb_maybeHalfOpen b now \<and> (r = None \<longrightarrow> cb_state b' = Closed)) \<or>
     (r = None \<and> cb_state (cb_maybeHalfOpen b now) = HalfOpen \<and>
      cb_halfOpenInFlight (cb_maybeHalfOpen b now) < cb_halfOpenMaxCalls (cb_maybeHalfOpen b now) \<and>
      b' = (cb_maybeHalfOpen b now)
        \<lparr>cb_halfOpenInFlight := cb_halfOpenInFlight (cb_maybeHalfOpen b now) + 1\<rparr>)"
  by (cases "cb_state (cb_maybeHalfOpen b now)") (auto simp: cb_begin_def Let_def split: if_splits)

lemma cb_inv_step: "cb_step s s' \<Longrightarrow> cb_inv s \<Longrightarrow> cb_inv s'"
proof (induction rule: cb_step.induct)
  case (admit s now b')
  let ?m = "cb_maybeHalfOpen (sys_breaker s) now"
  have m: "cb_inv (sys_to s now ?m)" by (rule cb_inv_halfOpen) (use admit in simp_all)
  have sb: "sys_breaker (sys_to s now b) = b" for b by (simp add: sys_to_def)
  show ?case
    using cb_begin_split [OF admit(2)]
  proof
    assume "b' = ?m \<and> (None = None \<longrightarrow> cb_state b' = Closed)"
    then have "b' = ?m" "cb_state ?m = Closed" by auto
    then show ?thesis using m by (simp add: sys_admit_def sb cb_inv_def Let_def)
  next
    assume b': "None = None \<and> cb_state ?m = HalfOpen \<and>
      cb_halfOpenInFlight ?m < cb_halfOpenMaxCalls ?m \<and>
      b' = ?m\<lparr>cb_halfOpenInFlight := cb_halfOpenInFlight ?m + 1\<rparr>"
    then have "sys_admit (sys_to s now b') = (sys_to s now ?m)
        \<lparr>sys_breaker := ?m\<lparr>cb_halfOpenInFlight := cb_halfOpenInFlight ?m + 1\<rparr>,
         sys_trials := sys_trials (sys_to s now ?m) + 1\<rparr>"
      by (simp add: sys_admit_def sys_to_def)
    then show ?thesis using m b' by (simp add: cb_inv_def Let_def sb)
  qed
next
  case (reject s now b' e)
  then show ?case using cb_begin_split [OF reject(2)] cb_inv_halfOpen by auto
next
  case (trial_done s now result)
  then show ?case
    using rw_ok_mono [of _ _ _ now] by (intro cb_inv_record) (auto simp: cb_inv_def Let_def)
next
  case (other_done s now result)
  then show ?case
    using rw_ok_mono [of _ _ _ now]
    by (intro cb_inv_record) (auto simp: cb_inv_def Let_def sys_late_done_def)
next
  case (observe s now)
  let ?w = "fst (rw_snapshot (cb_window (sys_breaker s)) now)"
  let ?s = "s\<lparr>sys_breaker := (sys_breaker s)\<lparr>cb_window := ?w\<rparr>, sys_clock := now\<rparr>"
  have "cb_inv ?s"
    using observe rw_snapshot_ok [OF rw_ok_mono [OF _ observe(1)]]
    by (auto simp: cb_inv_def Let_def)
  then have "cb_inv (sys_to ?s now (cb_maybeHalfOpen (sys_breaker ?s) now))"
    by (rule cb_inv_halfOpen) simp
  then show ?case
    by (simp add: cb_take_snapshot_def cb_getState_def Let_def split_beta sys_to_def cong: if_cong)
next
  case (look s now)
  then show ?case using cb_inv_halfOpen by (simp add: cb_getState_def Let_def)
next
  case (reset s now)
  then show ?case
    using rw_reset_ok rw_ok_mono [OF _ reset(1)]
    by (fastforce simp: cb_inv_def Let_def sys_to_def cb_reset_def)
qed

lemma cb_reachable_inv: "cb_reachable options s \<Longrightarrow> cb_inv s"
proof -
  assume "cb_reachable options s"
  then obtain b where b: "cb_new options = Inr b" and steps: "cb_step\<^sup>*\<^sup>* (sys_start b) s"
    by (auto simp: cb_reachable_def)
  obtain w where w: "rw_new (or_else (cbo_windowMs options) 60000) 10 = Inr w" and bw: "cb_window b = w"
      "cb_state b = Closed"
    using b by (auto simp: cb_new_def split: sum.splits)
  have "cb_inv (sys_start b)"
    using rw_new_ok [OF w, of 0] bw by (simp add: cb_inv_def sys_start_def)
  with steps show ?thesis by (induction rule: rtranclp_induct) (auto intro: cb_inv_step)
qed

section \<open>An executable step\<close>

datatype 'e cb_label =
  Start time | TrialDone time "'e + unit" | OtherDone time "'e + unit" | Look time

fun cb_exec :: "'e cb_sys \<Rightarrow> 'e cb_label \<Rightarrow> 'e cb_sys option" where
  "cb_exec s (Start now) =
     (if sys_clock s \<le> now
      then case cb_begin (sys_breaker s) now of
             (b', None) \<Rightarrow> Some (sys_admit (sys_to s now b'))
           | (b', Some e) \<Rightarrow> Some (sys_to s now b')
      else None)"
| "cb_exec s (TrialDone now r) =
     (if sys_clock s \<le> now \<and> 0 < sys_trials s
      then Some (sys_record (s\<lparr>sys_trials := sys_trials s - 1\<rparr>) now r) else None)"
| "cb_exec s (OtherDone now r) =
     (if sys_clock s \<le> now \<and> 0 < sys_others s
      then Some (sys_record (sys_late_done s) now r) else None)"
| "cb_exec s (Look now) =
     (if sys_clock s \<le> now then Some (sys_to s now (fst (cb_getState (sys_breaker s) now))) else None)"

fun cb_execs :: "'e cb_sys \<Rightarrow> 'e cb_label list \<Rightarrow> 'e cb_sys option" where
  "cb_execs s [] = Some s"
| "cb_execs s (l # ls) = (case cb_exec s l of None \<Rightarrow> None | Some s' \<Rightarrow> cb_execs s' ls)"

lemma cb_exec_step: "cb_exec s l = Some s' \<Longrightarrow> cb_step s s'"
  by (cases l) (auto split: if_splits prod.splits option.splits intro: cb_step.intros [simplified])

lemma cb_execs_steps: "cb_execs s ls = Some s' \<Longrightarrow> cb_step\<^sup>*\<^sup>* s s'"
proof (induction ls arbitrary: s)
  case (Cons l ls)
  then show ?case
    by (auto split: option.splits intro: converse_rtranclp_into_rtranclp cb_exec_step)
qed simp

text \<open>A breaker that trips on the first failure and stays open for 10 ms.\<close>

definition demo_options :: "unit cb_options" where
  "demo_options = \<lparr>cbo_name = ''demo'', cbo_failureThreshold = None, cbo_volumeThreshold = Some 1,
     cbo_windowMs = None, cbo_resetTimeoutMs = Some 10, cbo_successesToClose = None,
     cbo_halfOpenMaxCalls = None, cbo_isFailure = None\<rparr>"

definition demo_run :: "unit cb_label list \<Rightarrow> unit cb_sys option" where
  "demo_run ls = (case cb_new demo_options of Inl _ \<Rightarrow> None | Inr b \<Rightarrow> cb_execs (sys_start b) ls)"

lemma demo_reachable: "demo_run ls = Some s \<Longrightarrow> cb_reachable demo_options s"
  by (auto simp: demo_run_def cb_reachable_def split: sum.splits dest: cb_execs_steps)

lemma demo_half_open:
  "(case demo_run [Start 0, OtherDone 0 (Inl ()), Start 10] of None \<Rightarrow> False
    | Some s \<Rightarrow> cb_state (sys_breaker s) = HalfOpen \<and> sys_trials s = 1 \<and> sys_late s = 0 \<and>
        cb_halfOpenMaxCalls (sys_breaker s) = 1)"
  by code_simp

lemma demo_overlap:
  "(case demo_run [Start 0, Start 0, OtherDone 0 (Inl ()), Start 10, OtherDone 10 (Inr ()), Start 10] of
      None \<Rightarrow> False
    | Some s \<Rightarrow> cb_state (sys_breaker s) = HalfOpen \<and> sys_trials s = 2 \<and> sys_others s = 0 \<and>
        cb_halfOpenSuccesses (sys_breaker s) = 1 \<and> cb_halfOpenMaxCalls (sys_breaker s) = 1)"
  by code_simp

text \<open>
  The decrement in \<open>finally\<close> does not ask whether the call was one of the trial calls: a
  call that began while the circuit was closed and ends in the half-open phase frees a trial
  slot, so that two trial calls run at once where one is allowed, and its result counts as a
  trial's success.
\<close>

theorem cb_trial_limit_exceeded:
  "\<exists>s. cb_reachable demo_options s \<and> cb_state (sys_breaker s) = HalfOpen \<and>
     cb_halfOpenMaxCalls (sys_breaker s) = 1 \<and> sys_trials s = 2 \<and>
     cb_halfOpenSuccesses (sys_breaker s) = 1"
  using demo_overlap demo_reachable by (fastforce split: option.splits)

section \<open>Tripping\<close>

lemma cb_finish_closed:
  fixes b :: "'e breaker" and result :: "'e + unit"
  assumes st: "cb_state b = Closed" and w: "rw_ok (cb_window b) hist now"
    and len: "length hist + 1 < 2 ^ 32"
  defines "recent \<equiv> filter (in_window (cb_window b) now) (hist @ [(now, result_ok b result)])"
  shows "cb_state (cb_finish b now result) =
    (if \<not> result_ok b result \<and> cb_volumeThreshold b \<le> length recent \<and>
        cb_failureThreshold b \<le> of_nat (length (filter (Not \<circ> snd) recent)) / of_nat (length recent)
     then Open else Closed)"
proof (cases "result_ok b result")
  case True
  then show ?thesis
    using st by (auto simp: breaker Let_def result_ok_def split: sum.splits)
next
  case False
  then obtain e where e: "result = Inl e" "cb_isFailure b e" by (auto simp: result_ok_def split: sum.splits)
  let ?w = "rw_record (cb_window b) now False" and ?h = "hist @ [(now, False)]"
  have ok: "rw_ok ?w ?h now" by (rule rw_record_ok [OF w])
  have len': "length ?h < 2 ^ 32" using len by simp
  have shape: "in_window ?w now = in_window (cb_window b) now"
    by (simp add: in_window_def rw_record_def Let_def split_beta fun_eq_iff)
  have recent: "recent = filter (in_window ?w now) ?h" using False shape by (simp add: recent_def)
  have parts: "length recent = window_count ?w ?h now True + window_count ?w ?h now False"
    "length (filter (Not \<circ> snd) recent) = window_count ?w ?h now False"
  proof -
    have "window_count ?w ?h now True = length (filter snd recent)"
      "window_count ?w ?h now False = length (filter (Not \<circ> snd) recent)"
      by (simp_all add: window_count_def recent comp_def conj_commute)
    then show "length recent = window_count ?w ?h now True + window_count ?w ?h now False"
      "length (filter (Not \<circ> snd) recent) = window_count ?w ?h now False"
      using sum_length_filter_compl [of snd recent] by (simp_all add: comp_def)
  qed
  have nz: "length recent \<noteq> 0"
  proof -
    have "1 \<le> rw_bucketMs ?w" "0 < length (rw_successes ?w)"
      using ok by (simp_all add: rw_ok_def rw_rep_def Let_def)
    then have "in_window ?w now (now, False)" by (simp add: in_window_def)
    then show ?thesis by (simp add: recent)
  qed
  have "cb_finish b now result = cb_finally (cb_recordFailure b now)"
    using e by (simp add: cb_finish_def)
  also have "cb_state \<dots> = (if cb_volumeThreshold b \<le> sn_total (snd (rw_snapshot ?w now)) \<and>
      cb_failureThreshold b \<le> sn_failureRate (snd (rw_snapshot ?w now)) then Open else Closed)"
    using st by (simp add: breaker Let_def split_beta)
  also have "\<dots> = (if \<not> result_ok b result \<and> cb_volumeThreshold b \<le> length recent \<and>
        cb_failureThreshold b \<le> of_nat (length (filter (Not \<circ> snd) recent)) / of_nat (length recent)
     then Open else Closed)"
    using parts nz False by (simp add: rw_snapshot_exact(1) [OF ok len'] snap_of_def)
  finally show ?thesis .
qed

section \<open>Recovery\<close>

definition trial_success :: "time \<times> time \<Rightarrow> 'e breaker \<Rightarrow> 'e breaker" where
  "trial_success t b = fst (cb_execute b (fst t) (snd t) (Inr ()))"

definition ready :: "'e breaker \<Rightarrow> nat \<Rightarrow> 'e breaker \<Rightarrow> bool" where
  "ready b0 n b \<longleftrightarrow> cb_state b = HalfOpen \<and> cb_halfOpenInFlight b = 0 \<and> cb_halfOpenSuccesses b = n \<and>
     cb_config b = cb_config b0"

lemma ready_begin:
  assumes "ready b0 n b" and "0 < cb_halfOpenMaxCalls b0"
  shows "cb_begin b t = (b\<lparr>cb_halfOpenInFlight := 1\<rparr>, None)"
  using assms by (auto simp: ready_def cb_config_def cb_begin_def cb_maybeHalfOpen_def Let_def split: option.splits)

lemma ready_success:
  assumes "ready b0 n b" and "0 < cb_halfOpenMaxCalls b0"
  shows "if cb_successesToClose b0 \<le> Suc n
    then cb_state (trial_success t b) = Closed \<and> cb_openedAt (trial_success t b) = None
    else ready b0 (Suc n) (trial_success t b)"
  using assms(1) by (auto simp: trial_success_def cb_execute_def ready_begin [OF assms] breaker Let_def
      ready_def cb_config_def)

lemma ready_failure:
  assumes "ready b0 n b" and "0 < cb_halfOpenMaxCalls b0" and "cb_isFailure b0 e"
  shows "cb_state (fst (cb_execute b t u (Inl e))) = Open \<and>
    cb_openedAt (fst (cb_execute b t u (Inl e))) = Some u"
  using assms(1,3) by (auto simp: cb_execute_def ready_begin [OF assms(1,2)] breaker Let_def
      ready_def cb_config_def)

lemma ready_successes:
  "ready b0 n b \<Longrightarrow> 0 < cb_halfOpenMaxCalls b0 \<Longrightarrow> n + length ts < cb_successesToClose b0 \<Longrightarrow>
     ready b0 (n + length ts) (fold trial_success ts b)"
proof (induction ts arbitrary: n b)
  case (Cons t ts)
  have "ready b0 (Suc n) (trial_success t b)"
    using ready_success [OF Cons.prems(1,2), of t] Cons.prems(3) by (simp split: if_splits)
  then show ?case using Cons.IH [of "Suc n" "trial_success t b"] Cons.prems by simp
qed simp

text \<open>From an open circuit whose delay has passed, the first call is a trial.\<close>

lemma open_begin:
  assumes "cb_state b = Open" and "cb_openedAt b = Some t0"
  shows "cb_begin b now =
    (if now < t0 + cb_resetTimeoutMs b
     then (b, Some (CircuitOpenError (cb_name b) (t0 + cb_resetTimeoutMs b - now)))
     else cb_begin (b\<lparr>cb_state := HalfOpen, cb_halfOpenSuccesses := 0, cb_halfOpenInFlight := 0\<rparr>) now)"
  using assms by (auto simp: cb_begin_def cb_maybeHalfOpen_def cb_retryAfterMs_def Let_def)

lemma open_execute:
  assumes "cb_state b = Open" and "cb_openedAt b = Some t0" and "t0 + cb_resetTimeoutMs b \<le> now"
  shows "cb_execute b now u r =
    cb_execute (b\<lparr>cb_state := HalfOpen, cb_halfOpenSuccesses := 0, cb_halfOpenInFlight := 0\<rparr>) now u r"
  using open_begin [OF assms(1,2), of now] assms(3) by (simp add: cb_execute_def)

lemma open_ready: "ready b 0 (b\<lparr>cb_state := HalfOpen, cb_halfOpenSuccesses := 0, cb_halfOpenInFlight := 0\<rparr>)"
  by (simp add: ready_def cb_config_def)

lemma ready_closes:
  assumes "ready b0 0 b" and "0 < cb_halfOpenMaxCalls b0" and "length ts = max 1 (cb_successesToClose b0)"
  shows "cb_state (fold trial_success ts b) = Closed"
proof -
  obtain ts' t where ts: "ts = ts' @ [t]"
    using assms(3) by (metis length_greater_0_conv less_numeral_extra(1) max.strict_coboundedI1 rev_exhaust)
  have "ready b0 (length ts') (fold trial_success ts' b)"
    using ready_successes [OF assms(1,2), of ts'] assms(1,3) ts by (cases ts') auto
  then show ?thesis
    using ready_success [OF _ assms(2), of "length ts'" _ t] assms(3) ts
    by (simp split: if_splits)
qed

section \<open>Pruning the registry\<close>

definition reg_wf :: "'e cb_registry \<Rightarrow> bool" where
  "reg_wf r \<longleftrightarrow> jm_wf (reg_breakers r) \<and> jm_wf (reg_lastUsed r) \<and>
     fst ` set (reg_breakers r) = fst ` set (reg_lastUsed r)"

lemma cb_new_Inr: "\<exists>b. cb_new options = Inr b \<and> cb_name b = cbo_name options \<and> cb_state b = Closed"
  by (simp add: cb_new_def rw_new_def)

lemma reg_new_wf: "reg_wf (reg_new d)"
  by (simp add: reg_wf_def reg_new_def)

lemma reg_get_wf: "reg_wf r \<Longrightarrow> reg_wf (fst (reg_get r now name))"
proof -
  assume wf: "reg_wf r"
  obtain b where "cb_new ((reg_defaults r)\<lparr>cbo_name := name\<rparr>) = Inr b" using cb_new_Inr by blast
  moreover have "name \<in> fst ` set (reg_breakers r)" if "jm_get (reg_breakers r) name = Some b'" for b'
    using that by (metis domI dom_map_of_conv_image_fst)
  ultimately show ?thesis
    using wf by (auto simp: reg_wf_def reg_get_def Let_def jm_keys_set split: option.splits)
qed

text \<open>What pruning leaves of one breaker.\<close>

definition prune_one :: "time \<Rightarrow> time \<Rightarrow> time option \<Rightarrow> 'e breaker option \<Rightarrow> 'e breaker option" where
  "prune_one now cutoff used b =
     (case (used, b) of
        (Some u, Some b0) \<Rightarrow>
          if cutoff \<le> u then Some b0
          else if snd (cb_getState b0 now) = Closed then None
          else Some (fst (cb_getState b0 now))
      | _ \<Rightarrow> b)"

lemma prune_fold:
  "distinct (map fst xs) \<Longrightarrow>
     jm_get (reg_breakers (fst (fold (reg_prune_entry now cutoff) xs (r, n)))) name =
       prune_one now cutoff (map_of xs name) (jm_get (reg_breakers r) name)"
proof (induction xs arbitrary: r n)
  case Nil
  then show ?case by (simp add: prune_one_def)
next
  case (Cons x xs)
  obtain k u where x: "x = (k, u)" by (cases x)
  obtain r' n' where e: "reg_prune_entry now cutoff (k, u) (r, n) = (r', n')"
    by (rule prod.exhaust)
  have r': "jm_get (reg_breakers r') name =
      (if name = k then prune_one now cutoff (Some u) (jm_get (reg_breakers r) name)
       else jm_get (reg_breakers r) name)"
    using e by (auto simp: reg_prune_entry_def prune_one_def Let_def split_beta jm_get_set jm_get_delete
        split: if_splits option.splits)
  have "map_of xs k = None" using Cons.prems by (simp add: x map_of_eq_None_iff)
  then show ?case
    using Cons.IH [of r' n'] Cons.prems r' e
    by (auto simp: x prune_one_def split: option.splits)
qed

section \<open>Properties\<close>

text \<open>
  C4: A closed circuit trips exactly when it should: in every reachable state, the result of
  a call opens it iff the result is a failure, the window then holds at least
  \<open>volumeThreshold\<close> outcomes, and the failures among them reach \<open>failureThreshold\<close>; the
  outcomes are the ones recorded in the last buckets since the window was reset. An
  opened circuit remembers the time.
\<close>

theorem cb_trips_exactly:
  assumes "cb_reachable options s" and "sys_clock s \<le> now" and "length (sys_hist s) + 1 < 2 ^ 32"
    and "cb_state (sys_breaker s) = Closed"
    and "recent = filter (in_window (cb_window (sys_breaker s)) now)
      (sys_hist s @ [(now, result_ok (sys_breaker s) result)])"
  shows "cb_state (cb_finish (sys_breaker s) now result) =
      (if \<not> result_ok (sys_breaker s) result \<and> cb_volumeThreshold (sys_breaker s) \<le> length recent \<and>
          cb_failureThreshold (sys_breaker s) \<le>
            of_nat (length (filter (Not \<circ> snd) recent)) / of_nat (length recent)
       then Open else Closed) \<and>
    (cb_state (cb_finish (sys_breaker s) now result) = Open \<longrightarrow>
      cb_openedAt (cb_finish (sys_breaker s) now result) = Some now)"
proof
  have "rw_ok (cb_window (sys_breaker s)) (sys_hist s) now"
    using cb_reachable_inv [OF assms(1)] rw_ok_mono [OF _ assms(2)] by (simp add: cb_inv_def Let_def)
  then show "cb_state (cb_finish (sys_breaker s) now result) =
      (if \<not> result_ok (sys_breaker s) result \<and> cb_volumeThreshold (sys_breaker s) \<le> length recent \<and>
          cb_failureThreshold (sys_breaker s) \<le>
            of_nat (length (filter (Not \<circ> snd) recent)) / of_nat (length recent)
       then Open else Closed)"
    using cb_finish_closed [OF assms(4) _ assms(3), of now result] assms(5) by simp
  show "cb_state (cb_finish (sys_breaker s) now result) = Open \<longrightarrow>
      cb_openedAt (cb_finish (sys_breaker s) now result) = Some now"
    using cb_finish_opened [of "sys_breaker s" now result] assms(4) by simp
qed

lemma demo_closed:
  "(case demo_run [Start 0] of None \<Rightarrow> False
    | Some s \<Rightarrow> cb_state (sys_breaker s) = Closed \<and> sys_hist s = [] \<and> sys_clock s = 0 \<and>
        \<not> result_ok (sys_breaker s) (Inl ()) \<and> cb_volumeThreshold (sys_breaker s) = 1 \<and>
        cb_failureThreshold (sys_breaker s) = 1 / 2 \<and>
        in_window (cb_window (sys_breaker s)) 0 (0, False))"
  by code_simp

theorem cb_trips_exactly_witness:
  "\<exists>s. cb_reachable demo_options s \<and> cb_state (cb_finish (sys_breaker s) 0 (Inl () :: unit + unit)) = Open"
proof -
  obtain s where s: "demo_run [Start 0] = Some s" "cb_state (sys_breaker s) = Closed" "sys_hist s = []"
    "sys_clock s = 0" "\<not> result_ok (sys_breaker s) (Inl ())" "cb_volumeThreshold (sys_breaker s) = 1"
    "cb_failureThreshold (sys_breaker s) = 1 / 2" "in_window (cb_window (sys_breaker s)) 0 (0, False)"
    using demo_closed by (auto split: option.splits)
  have "cb_state (cb_finish (sys_breaker s) 0 (Inl () :: unit + unit)) = Open"
    using cb_trips_exactly [OF demo_reachable [OF s(1)], of 0 _ "Inl ()"] s by simp
  then show ?thesis using demo_reachable [OF s(1)] by blast
qed

text \<open>
  C5: A half-open circuit lets in only its trial calls: in every reachable state of any
  number of overlapping calls, those admitted in the current half-open phase and still
  running exceed \<open>halfOpenMaxCalls\<close> by at most the number of results that earlier calls
  delivered during the phase, hence not at all when there were none.
\<close>

theorem cb_trial_bound:
  assumes "cb_reachable options s" and "cb_state (sys_breaker s) = HalfOpen"
  shows "sys_trials s \<le> cb_halfOpenMaxCalls (sys_breaker s) + sys_late s"
  using cb_reachable_inv [OF assms(1)] assms(2) by (simp add: cb_inv_def Let_def)

theorem cb_trial_bound_witness:
  "\<exists>s. cb_reachable demo_options s \<and> cb_state (sys_breaker s) = HalfOpen \<and> sys_trials s = 1 \<and>
     sys_trials s \<le> cb_halfOpenMaxCalls (sys_breaker s) + sys_late s"
proof -
  obtain s where s: "demo_run [Start 0, OtherDone 0 (Inl ()), Start 10] = Some s"
    "cb_state (sys_breaker s) = HalfOpen" "sys_trials s = 1"
    using demo_half_open by (auto split: option.splits)
  then show ?thesis using cb_trial_bound [OF demo_reachable [OF s(1)] s(2)] demo_reachable by blast
qed

text \<open>
  An open circuit rejects and recovers: until \<open>resetTimeoutMs\<close> after it opened every
  call is rejected without running the operation, with the exact time left and no change of
  state; from then on, \<open>successesToClose\<close> successful calls one after the other close it, and
  a failure after fewer successes reopens it as of that time.
\<close>

theorem cb_open_rejects_and_recovers:
  fixes s :: "'e cb_sys"
  assumes "cb_reachable options s" and "cb_state (sys_breaker s) = Open"
    and "0 < cb_halfOpenMaxCalls (sys_breaker s)"
  shows "\<exists>t0. cb_openedAt (sys_breaker s) = Some t0 \<and>
    (\<forall>now < t0 + cb_resetTimeoutMs (sys_breaker s).
       cb_begin (sys_breaker s) now = (sys_breaker s, Some (CircuitOpenError (cb_name (sys_breaker s))
         (t0 + cb_resetTimeoutMs (sys_breaker s) - now)))) \<and>
    (\<forall>t ts. t0 + cb_resetTimeoutMs (sys_breaker s) \<le> fst t \<longrightarrow>
       length (t # ts) = max 1 (cb_successesToClose (sys_breaker s)) \<longrightarrow>
       cb_state (fold trial_success (t # ts) (sys_breaker s)) = Closed) \<and>
    (\<forall>t ts u e. t0 + cb_resetTimeoutMs (sys_breaker s) \<le> fst t \<longrightarrow>
       length (t # ts) < cb_successesToClose (sys_breaker s) \<longrightarrow> cb_isFailure (sys_breaker s) e \<longrightarrow>
       (let b = fst (cb_execute (fold trial_success (t # ts) (sys_breaker s)) (fst u) (snd u) (Inl e :: 'e + unit)) in
        cb_state b = Open \<and> cb_openedAt b = Some (snd u)))"
proof -
  let ?b = "sys_breaker s"
  let ?h = "?b\<lparr>cb_state := HalfOpen, cb_halfOpenSuccesses := 0, cb_halfOpenInFlight := 0\<rparr>"
  obtain t0 where t0: "cb_openedAt ?b = Some t0"
    using cb_reachable_inv [OF assms(1)] assms(2) by (auto simp: cb_inv_def Let_def)
  have first: "fold trial_success (t # ts) ?b = fold trial_success (t # ts) ?h"
    if "t0 + cb_resetTimeoutMs ?b \<le> fst t" for t ts
    by (simp add: trial_success_def open_execute [OF assms(2) t0 that])
  have "cb_state (fold trial_success (t # ts) ?b) = Closed"
    if "t0 + cb_resetTimeoutMs ?b \<le> fst t" "length (t # ts) = max 1 (cb_successesToClose ?b)" for t ts
    unfolding first [OF that(1)] by (rule ready_closes [OF open_ready assms(3) that(2)])
  moreover have "cb_state (fst (cb_execute (fold trial_success (t # ts) ?b) u v (Inl e :: 'e + unit))) = Open \<and>
      cb_openedAt (fst (cb_execute (fold trial_success (t # ts) ?b) u v (Inl e :: 'e + unit))) = Some v"
    if "t0 + cb_resetTimeoutMs ?b \<le> fst t" "length (t # ts) < cb_successesToClose ?b" "cb_isFailure ?b e"
    for t ts u v e
    unfolding first [OF that(1)]
    using ready_failure [OF ready_successes [OF open_ready assms(3), of "t # ts"] assms(3) that(3)] that(2)
    by simp
  ultimately show ?thesis
    using t0 open_begin [OF assms(2) t0] by (auto simp: Let_def)
qed

lemma demo_open:
  "(case demo_run [Start 0, OtherDone 0 (Inl ())] of None \<Rightarrow> False
    | Some s \<Rightarrow> cb_state (sys_breaker s) = Open \<and> cb_openedAt (sys_breaker s) = Some 0 \<and>
        cb_resetTimeoutMs (sys_breaker s) = 10 \<and> cb_successesToClose (sys_breaker s) = 2 \<and>
        cb_halfOpenMaxCalls (sys_breaker s) = 1)"
  by code_simp

theorem cb_open_rejects_and_recovers_witness:
  "\<exists>s. cb_reachable demo_options s \<and> cb_state (sys_breaker s) = Open \<and>
     snd (cb_begin (sys_breaker s) 4) = Some (CircuitOpenError (cb_name (sys_breaker s)) 6) \<and>
     cb_state (fold trial_success [(10, 11), (12, 13)] (sys_breaker s)) = Closed"
proof -
  obtain s where s: "demo_run [Start 0, OtherDone 0 (Inl ())] = Some s" "cb_state (sys_breaker s) = Open"
    "cb_openedAt (sys_breaker s) = Some 0" "cb_resetTimeoutMs (sys_breaker s) = 10"
    "cb_successesToClose (sys_breaker s) = 2" "cb_halfOpenMaxCalls (sys_breaker s) = 1"
    using demo_open by (auto split: option.splits)
  note r = demo_reachable [OF s(1)]
  obtain t0 where t0: "cb_openedAt (sys_breaker s) = Some t0"
    "\<forall>now < t0 + cb_resetTimeoutMs (sys_breaker s).
       cb_begin (sys_breaker s) now = (sys_breaker s, Some (CircuitOpenError (cb_name (sys_breaker s))
         (t0 + cb_resetTimeoutMs (sys_breaker s) - now)))"
    "\<forall>t ts. t0 + cb_resetTimeoutMs (sys_breaker s) \<le> fst t \<longrightarrow>
       length (t # ts) = max 1 (cb_successesToClose (sys_breaker s)) \<longrightarrow>
       cb_state (fold trial_success (t # ts) (sys_breaker s)) = Closed"
    using cb_open_rejects_and_recovers [OF r s(2)] s(6) by auto
  have "snd (cb_begin (sys_breaker s) 4) = Some (CircuitOpenError (cb_name (sys_breaker s)) 6)"
    "cb_state (fold trial_success [(10, 11), (12, 13)] (sys_breaker s)) = Closed"
    using t0(2) [rule_format, of 4] t0(3) [rule_format, of "(10, 11)" "[(12, 13)]"] t0(1) s(3-5)
    by simp_all
  then show ?thesis using r s(2) by blast
qed

text \<open>
  Pruning the registry never forgets a circuit that is not closed: it removes exactly the
  breakers unused since the cutoff whose state is then closed, and of the others changes at
  most the pending transition to half-open.
\<close>

theorem registry_prune_exact:
  assumes "reg_wf r"
  shows "jm_get (reg_breakers (fst (reg_prune r now maxIdle))) name =
    (case (jm_get (reg_lastUsed r) name, jm_get (reg_breakers r) name) of
       (Some used, Some b) \<Rightarrow>
         if now - maxIdle \<le> used then Some b
         else if snd (cb_getState b now) = Closed then None
         else Some (fst (cb_getState b now))
     | (_, b) \<Rightarrow> b)"
  using assms prune_fold [of "reg_lastUsed r" now "now - maxIdle" r 0 name]
  by (auto simp: reg_prune_def reg_wf_def jm_wf_def prune_one_def split: option.splits)

theorem registry_prune_exact_witness:
  "jm_get (reg_breakers (fst (reg_prune
     (fst (reg_get (reg_new demo_options) 0 ''host'')) 9 3))) ''host'' = None"
proof -
  have wf: "reg_wf (fst (reg_get (reg_new demo_options) 0 ''host''))"
    by (intro reg_get_wf reg_new_wf)
  obtain b where b: "cb_new (demo_options\<lparr>cbo_name := ''host''\<rparr>) = Inr b" "cb_state b = Closed"
    using cb_new_Inr by blast
  then have "fst (reg_get (reg_new demo_options) 0 ''host'') =
      \<lparr>reg_defaults = demo_options, reg_breakers = [(''host'', b)], reg_lastUsed = [(''host'', 0)]\<rparr>"
    by (simp add: reg_get_def reg_new_def)
  then show ?thesis
    using registry_prune_exact [OF wf, of 9 3 "''host''"] b(2)
    by (simp add: cb_getState_def cb_maybeHalfOpen_def)
qed

end
