(* ===== verification/HealthScoring.thy ===== *)
theory HealthScoring
  imports Prelude
begin

text \<open>
  Health classification, the public status machine and the reliability score of
  \<open>packages/domain/src/health-scoring.ts\<close>, with the weights of
  \<open>packages/config/src/constants.ts\<close>. Latencies, rates and scores are rationals, so
  \<open>Number.isFinite\<close> always holds. The machine is compared with a reading of the whole
  list of observations.
\<close>

datatype health_status = Up | Degraded | Down | Unknown

record probe_result =
  pr_httpStatus :: "int option"
  pr_latencyMs :: "rat option"
  pr_errorCode :: "string option"
  pr_responseBytes :: "nat option"

definition classifyProbe :: "probe_result \<Rightarrow> rat \<Rightarrow> health_status" where
  "classifyProbe r degradedLatencyMs =
     (if pr_errorCode r \<noteq> None then Down
      else case pr_httpStatus r of
             None \<Rightarrow> Down
           | Some status \<Rightarrow>
               if 500 \<le> status then Down
               else if status = 429 then Degraded
               else if 200 \<le> status \<and> status < 500
               then (case pr_latencyMs r of
                       Some l \<Rightarrow> if degradedLatencyMs < l then Degraded else Up
                     | None \<Rightarrow> Up)
               else Down)"

definition isSuccessful :: "health_status \<Rightarrow> bool" where
  "isSuccessful status \<longleftrightarrow> status = Up \<or> status = Degraded"

record health_state =
  hs_status :: health_status
  hs_consecutiveFailures :: nat
  hs_consecutiveSuccesses :: nat

record transition_result = health_state +
  tr_changed :: bool
  tr_incidentOpened :: bool
  tr_incidentResolved :: bool

definition FAILURE_THRESHOLD :: nat where "FAILURE_THRESHOLD = 2"

definition RECOVERY_THRESHOLD :: nat where "RECOVERY_THRESHOLD = 1"

definition transition :: "health_state \<Rightarrow> health_status \<Rightarrow> transition_result" where
  "transition current observed =
     (let previous = hs_status current in
      if isSuccessful observed
      then let consecutiveSuccesses = hs_consecutiveSuccesses current + 1 in
        if previous = Down \<and> consecutiveSuccesses < RECOVERY_THRESHOLD
        then \<lparr>hs_status = Down, hs_consecutiveFailures = hs_consecutiveFailures current,
              hs_consecutiveSuccesses = consecutiveSuccesses,
              tr_changed = False, tr_incidentOpened = False, tr_incidentResolved = False\<rparr>
        else \<lparr>hs_status = observed, hs_consecutiveFailures = 0,
              hs_consecutiveSuccesses = consecutiveSuccesses,
              tr_changed = (previous \<noteq> observed), tr_incidentOpened = False,
              tr_incidentResolved = (previous = Down)\<rparr>
      else let consecutiveFailures = hs_consecutiveFailures current + 1 in
        if consecutiveFailures < FAILURE_THRESHOLD \<and> previous \<noteq> Unknown
        then \<lparr>hs_status = (if previous = Up then Degraded else previous),
              hs_consecutiveFailures = consecutiveFailures, hs_consecutiveSuccesses = 0,
              tr_changed = (previous = Up), tr_incidentOpened = False, tr_incidentResolved = False\<rparr>
        else \<lparr>hs_status = Down, hs_consecutiveFailures = consecutiveFailures,
              hs_consecutiveSuccesses = 0, tr_changed = (previous \<noteq> Down),
              tr_incidentOpened = (previous \<noteq> Down), tr_incidentResolved = False\<rparr>)"

section \<open>Reliability\<close>

record reliability_inputs =
  ri_uptime30d :: "rat option"
  ri_successRate7d :: "rat option"
  ri_avgLatencyMs :: "rat option"
  ri_lastCheckedAt :: "time option"
  ri_recentIncidents :: nat

record reliability_breakdown =
  rb_score :: rat
  rb_uptime30d :: "rat option"
  rb_successRate7d :: "rat option"
  rb_latencyScore :: "rat option"
  rb_freshness :: rat
  rb_incidentPenalty :: rat

definition unit_clamp :: "rat \<Rightarrow> rat" where
  "unit_clamp v = min 1 (max 0 v)"

definition measurementFreshness :: "time option \<Rightarrow> time \<Rightarrow> rat" where
  "measurementFreshness lastCheckedAt now =
     (case lastCheckedAt of
        None \<Rightarrow> 0
      | Some t \<Rightarrow>
          let ageHours = of_int (now - t) / 3600000 in
          if ageHours \<le> 1 then 1 else unit_clamp (1 - ageHours / 24))"

definition W_uptime30d :: rat where "W_uptime30d = 5 / 10"
definition W_successRate7d :: rat where "W_successRate7d = 2 / 10"
definition W_latency :: rat where "W_latency = 15 / 100"
definition W_freshness :: rat where "W_freshness = 1 / 10"
definition W_incidentPenalty :: rat where "W_incidentPenalty = 5 / 100"

definition LATENCY_SCORE_CEILING_MS :: rat where "LATENCY_SCORE_CEILING_MS = 3000"

definition or_neutral :: "rat option \<Rightarrow> rat" where
  "or_neutral x = (case x of Some v \<Rightarrow> v | None \<Rightarrow> 1 / 2)"

definition computeReliability :: "reliability_inputs \<Rightarrow> time \<Rightarrow> reliability_breakdown" where
  "computeReliability inputs now =
     (let latencyScore = (case ri_avgLatencyMs inputs of None \<Rightarrow> None
            | Some l \<Rightarrow> Some (unit_clamp (1 - l / LATENCY_SCORE_CEILING_MS)));
          freshness = measurementFreshness (ri_lastCheckedAt inputs) now;
          incidentPenalty = unit_clamp (of_nat (ri_recentIncidents inputs) * (2 / 10));
          score = W_uptime30d * or_neutral (ri_uptime30d inputs) +
                  W_successRate7d * or_neutral (ri_successRate7d inputs) +
                  W_latency * or_neutral latencyScore +
                  W_freshness * freshness +
                  W_incidentPenalty * (1 - incidentPenalty)
      in \<lparr>rb_score = of_int (js_round (unit_clamp score * 1000)) / 10,
          rb_uptime30d = ri_uptime30d inputs, rb_successRate7d = ri_successRate7d inputs,
          rb_latencyScore = latencyScore, rb_freshness = freshness,
          rb_incidentPenalty = incidentPenalty\<rparr>)"

section \<open>Scheduling\<close>

definition computeCheckPriority :: "rat \<Rightarrow> health_status \<Rightarrow> nat \<Rightarrow> int" where
  "computeCheckPriority popularityScore status consecutiveFailures =
     (let p0 = 100 - js_round (popularityScore / 2);
          p1 = (if status = Down then p0 - 40 else if status = Degraded then p0 - 25
                else if status = Unknown then p0 - 15 else p0);
          p2 = (if 0 < consecutiveFailures \<and> consecutiveFailures \<le> 3 then p1 - 10 else p1)
      in max 1 p2)"

definition computeNextCheckDelay :: "health_status \<Rightarrow> nat \<Rightarrow> int \<Rightarrow> int" where
  "computeNextCheckDelay status consecutiveFailures baseIntervalMs =
     (case status of
        Down \<Rightarrow> js_round (of_int baseIntervalMs * min 8 ((3 / 2) ^ (consecutiveFailures - 2)))
      | Degraded \<Rightarrow> js_round (of_int baseIntervalMs * (3 / 4))
      | Unknown \<Rightarrow> js_round (of_int baseIntervalMs * (1 / 2))
      | Up \<Rightarrow> baseIntervalMs)"

definition percentile :: "rat list \<Rightarrow> rat \<Rightarrow> rat option" where
  "percentile vs p =
     (if vs = [] then None
      else let sorted = sort vs;
               index = min (int (length sorted) - 1)
                         (max 0 (js_ceil (p / 100 * of_nat (length sorted)) - 1))
           in Some (sorted ! nat index))"

section \<open>The machine against the observations\<close>

definition observe :: "health_state \<Rightarrow> health_status \<Rightarrow> health_state \<times> transition_result" where
  "observe s o' = (let t = transition s o' in (health_state.truncate t, t))"

definition never_checked :: health_state where
  "never_checked = \<lparr>hs_status = Unknown, hs_consecutiveFailures = 0, hs_consecutiveSuccesses = 0\<rparr>"

text \<open>Failures at the end of a list of observations (latest first).\<close>

definition trailing_failures :: "health_status list \<Rightarrow> nat" where
  "trailing_failures obs = length (takeWhile (Not \<circ> isSuccessful) obs)"

definition trailing_successes :: "health_status list \<Rightarrow> nat" where
  "trailing_successes obs = length (takeWhile isSuccessful obs)"

text \<open>The public status as a function of the observations, latest first.\<close>

definition status_of :: "health_status list \<Rightarrow> health_status" where
  "status_of obs =
     (if obs = [] then Unknown
      else if isSuccessful (hd obs) then hd obs
      else if FAILURE_THRESHOLD \<le> trailing_failures obs \<or> trailing_failures obs = length obs
      then Down
      else Degraded)"

definition state_of :: "health_status list \<Rightarrow> health_state" where
  "state_of obs = \<lparr>hs_status = status_of obs, hs_consecutiveFailures = trailing_failures obs,
     hs_consecutiveSuccesses = trailing_successes obs\<rparr>"

lemma trailing_Cons:
  "trailing_failures (x # obs) = (if isSuccessful x then 0 else Suc (trailing_failures obs))"
  "trailing_successes (x # obs) = (if isSuccessful x then Suc (trailing_successes obs) else 0)"
  by (simp_all add: trailing_failures_def trailing_successes_def)

lemma trailing_failures_le: "trailing_failures obs \<le> length obs"
  by (simp add: trailing_failures_def length_takeWhile_le)

lemma status_of_Cons:
  "status_of (x # obs) =
     (if isSuccessful x then x
      else if 0 < trailing_failures obs \<or> obs = [] then Down
      else Degraded)"
  using trailing_failures_le [of obs]
  by (auto simp: status_of_def trailing_Cons FAILURE_THRESHOLD_def)

lemma status_of_unknown: "status_of obs = Unknown \<longleftrightarrow> obs = []"
  by (auto simp: status_of_def isSuccessful_def)

lemma trailing_zero: "trailing_failures obs = 0 \<longleftrightarrow> obs = [] \<or> isSuccessful (hd obs)"
  by (cases obs) (auto simp: trailing_failures_def)

lemma transition_state_of:
  "health_state.truncate (transition (state_of obs) x) = state_of (x # obs)"
proof -
  have z: "trailing_failures obs = 0 \<Longrightarrow> obs \<noteq> [] \<Longrightarrow> status_of obs = hd obs \<and> isSuccessful (hd obs)"
    by (simp add: trailing_zero status_of_def)
  show ?thesis
    using z status_of_unknown [of obs]
    by (auto simp: transition_def state_of_def Let_def health_state.truncate_def trailing_Cons
        status_of_Cons RECOVERY_THRESHOLD_def FAILURE_THRESHOLD_def isSuccessful_def)
qed

lemma observe_state_of: "fst (observe (state_of obs) x) = state_of (x # obs)"
  by (simp add: observe_def Let_def transition_state_of)

lemma state_of_Nil: "state_of [] = never_checked"
  by (simp add: state_of_def never_checked_def status_of_def trailing_failures_def trailing_successes_def)

lemma observe_run: "run_after observe (state_of obs) xs = state_of (rev xs @ obs)"
  by (induction xs arbitrary: obs) (simp_all add: observe_state_of)

text \<open>Incidents open and close one after the other.\<close>

fun incidents_alternate :: "bool \<Rightarrow> transition_result list \<Rightarrow> bool" where
  "incidents_alternate is_open [] = True"
| "incidents_alternate is_open (t # ts) =
     ((tr_incidentOpened t \<longrightarrow> \<not> is_open) \<and> (tr_incidentResolved t \<longrightarrow> is_open) \<and>
      \<not> (tr_incidentOpened t \<and> tr_incidentResolved t) \<and>
      incidents_alternate (tr_incidentOpened t \<or> is_open \<and> \<not> tr_incidentResolved t) ts)"

lemma transition_incident:
  "tr_incidentOpened (transition s x) \<longleftrightarrow> hs_status s \<noteq> Down \<and> hs_status (transition s x) = Down"
  "tr_incidentResolved (transition s x) \<longleftrightarrow> hs_status s = Down \<and> hs_status (transition s x) \<noteq> Down"
  "tr_changed (transition s x) \<longleftrightarrow> hs_status s \<noteq> hs_status (transition s x)"
  by (auto simp: transition_def Let_def isSuccessful_def RECOVERY_THRESHOLD_def FAILURE_THRESHOLD_def)

lemma observe_status: "hs_status (fst (observe s x)) = hs_status (transition s x)"
  by (simp add: observe_def Let_def health_state.truncate_def)

lemma incidents_alternate_run:
  "incidents_alternate (hs_status s = Down) (run_replies observe s xs)"
proof (induction xs arbitrary: s)
  case (Cons x xs)
  let ?t = "transition s x" and ?rest = "run_replies observe (fst (observe s x)) xs"
  have "hs_status ?t = Down \<longleftrightarrow> tr_incidentOpened ?t \<or> hs_status s = Down \<and> \<not> tr_incidentResolved ?t"
    by (simp only: transition_incident) blast
  moreover have "incidents_alternate (hs_status ?t = Down) ?rest"
    using Cons [of "fst (observe s x)"] by (simp only: observe_status)
  ultimately have "incidents_alternate
      (tr_incidentOpened ?t \<or> hs_status s = Down \<and> \<not> tr_incidentResolved ?t) ?rest" by simp
  moreover have "tr_incidentOpened ?t \<longrightarrow> hs_status s \<noteq> Down" "tr_incidentResolved ?t \<longrightarrow> hs_status s = Down"
    by (simp_all only: transition_incident) blast+
  moreover have "run_replies observe s (x # xs) = ?t # ?rest" by (simp add: observe_def Let_def)
  ultimately show ?case by (simp only: incidents_alternate.simps) blast
qed simp

text \<open>
  Two transitions the comments of the code do not show: the first failure of an API that
  is up already changes its public status, and an API that is down or unknown becomes
  degraded when it is seen degraded.
\<close>

theorem first_failure_changes_status:
  "hs_status (transition \<lparr>hs_status = Up, hs_consecutiveFailures = 0, hs_consecutiveSuccesses = n\<rparr> Down) = Degraded"
  by (simp add: transition_def Let_def isSuccessful_def FAILURE_THRESHOLD_def)

theorem down_or_unknown_to_degraded:
  "hs_status (transition \<lparr>hs_status = Down, hs_consecutiveFailures = n, hs_consecutiveSuccesses = 0\<rparr> Degraded) = Degraded \<and>
   hs_status (transition never_checked Degraded) = Degraded"
  by (simp add: transition_def Let_def isSuccessful_def RECOVERY_THRESHOLD_def never_checked_def)

section \<open>Scores and schedules\<close>

lemma unit_clamp_bounds: "0 \<le> unit_clamp v" "unit_clamp v \<le> 1"
  by (simp_all add: unit_clamp_def)

lemma unit_clamp_mono: "v \<le> w \<Longrightarrow> unit_clamp v \<le> unit_clamp w"
  by (auto simp: unit_clamp_def)

lemma freshness_bounds: "0 \<le> measurementFreshness t now" "measurementFreshness t now \<le> 1"
  using unit_clamp_bounds by (auto simp: measurementFreshness_def Let_def split: option.splits)

text \<open>A later measurement is fresher.\<close>

definition later :: "time option \<Rightarrow> time option \<Rightarrow> bool" where
  "later t u \<longleftrightarrow> (case (t, u) of (None, _) \<Rightarrow> True | (Some a, Some b) \<Rightarrow> a \<le> b | _ \<Rightarrow> False)"

lemma freshness_mono: "later t u \<Longrightarrow> measurementFreshness t now \<le> measurementFreshness u now"
proof (cases t; cases u)
  fix a b assume l: "later t u" and t: "t = Some a" and u: "u = Some b"
  let ?h = "\<lambda>x. of_int (now - x) / 3600000 :: rat"
  have "?h b \<le> ?h a" using l by (simp add: later_def t u divide_right_mono)
  moreover have "unit_clamp v \<le> 1" for v by (rule unit_clamp_bounds)
  ultimately show "measurementFreshness t now \<le> measurementFreshness u now"
    by (simp add: t u measurementFreshness_def Let_def) (intro impI conjI unit_clamp_mono, simp_all)
qed (use unit_clamp_bounds in \<open>auto simp: later_def measurementFreshness_def Let_def\<close>)

definition at_least :: "rat option \<Rightarrow> rat option \<Rightarrow> bool" where
  "at_least x y \<longleftrightarrow> or_neutral y \<le> or_neutral x"

definition latency_score :: "rat option \<Rightarrow> rat option" where
  "latency_score l = map_option (\<lambda>l. unit_clamp (1 - l / LATENCY_SCORE_CEILING_MS)) l"

definition raw_score :: "reliability_inputs \<Rightarrow> time \<Rightarrow> rat" where
  "raw_score i now =
     W_uptime30d * or_neutral (ri_uptime30d i) + W_successRate7d * or_neutral (ri_successRate7d i) +
     W_latency * or_neutral (latency_score (ri_avgLatencyMs i)) +
     W_freshness * measurementFreshness (ri_lastCheckedAt i) now +
     W_incidentPenalty * (1 - unit_clamp (of_nat (ri_recentIncidents i) * (2 / 10)))"

lemmas weights = W_uptime30d_def W_successRate7d_def W_latency_def W_freshness_def W_incidentPenalty_def

lemma reliability_score:
  "rb_score (computeReliability i now) = of_int (js_round (unit_clamp (raw_score i now) * 1000)) / 10"
  by (simp add: computeReliability_def Let_def raw_score_def latency_score_def map_option_case)

lemma sort_nth_count:
  assumes "i < length (xs :: rat list)"
  shows "Suc i \<le> length (filter (\<lambda>x. x \<le> sort xs ! i) xs)"
    and "length (filter (\<lambda>x. x < sort xs ! i) xs) \<le> i"
proof -
  let ?s = "sort xs" and ?v = "sort xs ! i"
  have len: "length (filter P xs) = length (filter P ?s)" for P
    by (metis mset_filter mset_sort size_mset)
  have i: "i < length ?s" using assms by simp
  have split: "?s = take (Suc i) ?s @ drop (Suc i) ?s" "?s = take i ?s @ drop i ?s" by simp_all
  have lo: "\<forall>x\<in>set (take (Suc i) ?s). x \<le> ?v"
    using i by (auto simp: in_set_conv_nth intro!: sorted_nth_mono)
  have hi: "\<forall>x\<in>set (drop i ?s). \<not> x < ?v"
    using i by (auto simp: in_set_conv_nth not_less intro!: sorted_nth_mono)
  have "length (filter (\<lambda>x. x \<le> ?v) ?s) = length (filter (\<lambda>x. x \<le> ?v) (take (Suc i) ?s)) +
      length (filter (\<lambda>x. x \<le> ?v) (drop (Suc i) ?s))"
    by (subst split(1)) (simp only: filter_append length_append)
  moreover have "filter (\<lambda>x. x \<le> ?v) (take (Suc i) ?s) = take (Suc i) ?s"
    using lo by (simp add: filter_id_conv)
  ultimately have "Suc i \<le> length (filter (\<lambda>x. x \<le> ?v) ?s)" using i by simp
  then show "Suc i \<le> length (filter (\<lambda>x. x \<le> ?v) xs)" by (simp only: len)
  have "length (filter (\<lambda>x. x < ?v) ?s) = length (filter (\<lambda>x. x < ?v) (take i ?s)) +
      length (filter (\<lambda>x. x < ?v) (drop i ?s))"
    by (subst split(2)) (simp only: filter_append length_append)
  moreover have "filter (\<lambda>x. x < ?v) (drop i ?s) = []"
    using hi by (simp add: filter_empty_conv)
  moreover have "length (filter (\<lambda>x. x < ?v) (take i ?s)) \<le> i"
    by (rule order_trans [OF length_filter_le]) simp
  ultimately have "length (filter (\<lambda>x. x < ?v) ?s) \<le> i" by simp
  then show "length (filter (\<lambda>x. x < ?v) xs) \<le> i" by (simp only: len)
qed

section \<open>Properties\<close>

text \<open>
  The incremental machine is the reading of the history: after any observations, the
  public status, and both counters, are the ones computed from the whole list (the last
  observation when it was a success; down after two failures in a row or when no check ever
  succeeded; degraded otherwise), and incidents open and close strictly in turn.
\<close>

theorem health_machine_history:
  "run_after observe never_checked xs = state_of (rev xs) \<and>
   incidents_alternate False (run_replies observe never_checked xs)"
  using observe_run [of "[]" xs] incidents_alternate_run [of never_checked xs]
  by (simp add: state_of_Nil) (simp add: never_checked_def)

text \<open>
  The reliability score is a number between 0 and 100, and never falls when a
  measurement improves (higher uptime and success rate, lower latency, a more recent check,
  fewer incidents; a missing measurement counts as one half).
\<close>

theorem reliability_bounded_monotone:
  assumes "at_least (ri_uptime30d i) (ri_uptime30d j)"
    and "at_least (ri_successRate7d i) (ri_successRate7d j)"
    and "at_least (latency_score (ri_avgLatencyMs i)) (latency_score (ri_avgLatencyMs j))"
    and "later (ri_lastCheckedAt j) (ri_lastCheckedAt i)"
    and "ri_recentIncidents i \<le> ri_recentIncidents j"
  shows "0 \<le> rb_score (computeReliability j now) \<and>
    rb_score (computeReliability j now) \<le> rb_score (computeReliability i now) \<and>
    rb_score (computeReliability i now) \<le> 100"
proof -
  have [simp]: "js_round 0 = 0" "js_round 1000 = 1000"
    using js_round_int [of 0] js_round_int [of 1000] by simp_all
  have range: "0 \<le> js_round (unit_clamp v * 1000)" "js_round (unit_clamp v * 1000) \<le> 1000" for v
    using js_round_mono [of 0 "unit_clamp v * 1000"]
      js_round_mono [of "unit_clamp v * 1000" 1000] unit_clamp_bounds [of v] by simp_all
  have "unit_clamp (of_nat (ri_recentIncidents i) * (2 / 10)) \<le> unit_clamp (of_nat (ri_recentIncidents j) * (2 / 10))"
    using assms(5) by (intro unit_clamp_mono) simp
  then have "raw_score j now \<le> raw_score i now"
    using assms(1-3) freshness_mono [OF assms(4), of now] unfolding raw_score_def at_least_def weights
    by (intro add_mono mult_left_mono diff_left_mono) simp_all
  then have "js_round (unit_clamp (raw_score j now) * 1000) \<le> js_round (unit_clamp (raw_score i now) * 1000)"
    by (intro js_round_mono mult_right_mono unit_clamp_mono) simp_all
  then show ?thesis
    using range [of "raw_score j now"] range [of "raw_score i now"]
    by (simp add: reliability_score)
qed

theorem reliability_bounded_monotone_witness:
  "rb_score (computeReliability \<lparr>ri_uptime30d = Some (9 / 10), ri_successRate7d = None,
      ri_avgLatencyMs = Some 600, ri_lastCheckedAt = Some 0, ri_recentIncidents = 2\<rparr> 7200000) \<le>
   rb_score (computeReliability \<lparr>ri_uptime30d = Some 1, ri_successRate7d = None,
      ri_avgLatencyMs = Some 300, ri_lastCheckedAt = Some 3600000, ri_recentIncidents = 1\<rparr> 7200000)"
  using reliability_bounded_monotone [of
      "\<lparr>ri_uptime30d = Some 1, ri_successRate7d = None,
        ri_avgLatencyMs = Some 300, ri_lastCheckedAt = Some 3600000, ri_recentIncidents = 1\<rparr>"
      "\<lparr>ri_uptime30d = Some (9 / 10), ri_successRate7d = None,
        ri_avgLatencyMs = Some 600, ri_lastCheckedAt = Some 0, ri_recentIncidents = 2\<rparr>" 7200000]
  by (simp add: at_least_def or_neutral_def latency_score_def later_def LATENCY_SCORE_CEILING_MS_def
      unit_clamp_def)

text \<open>
  \<open>percentile\<close> is the nearest-rank quantile: at least p percent of the values are at most
  the result, and fewer than p percent are below it.
\<close>

theorem percentile_nearest_rank:
  assumes "percentile vs p = Some q" and "0 < p" and "p \<le> 100"
  shows "q \<in> set vs \<and>
    p / 100 * of_nat (length vs) \<le> of_nat (length (filter (\<lambda>x. x \<le> q) vs)) \<and>
    of_nat (length (filter (\<lambda>x. x < q) vs)) < p / 100 * of_nat (length vs)"
proof -
  let ?n = "length vs" and ?r = "p / 100 * of_nat (length vs)"
  have n: "0 < ?n" using assms(1) by (auto simp: percentile_def split: if_splits)
  have r: "0 < ?r" "?r \<le> of_nat ?n"
    using n assms(2,3) mult_right_mono [of "p / 100" 1 "of_nat ?n"] by simp_all
  define i where "i = nat (js_ceil ?r - 1)"
  have c: "0 < js_ceil ?r" "js_ceil ?r \<le> int ?n"
    using r by (simp_all add: zero_less_ceiling ceiling_le_iff)
  then have i: "int i = js_ceil ?r - 1" "i < ?n" unfolding i_def by linarith+
  then have "min (int ?n - 1) (max 0 (js_ceil ?r - 1)) = int i" by simp
  then have q: "q = sort vs ! i"
    using assms(1) n by (simp add: percentile_def Let_def split: if_splits)
  have cc: "?r \<le> of_int (js_ceil ?r)" "of_int (js_ceil ?r) - 1 < ?r"
    using ceiling_correct [of ?r] by auto
  have e: "of_int (js_ceil ?r) = (of_nat (Suc i) :: rat)"
    using i(1) by (metis add.commute diff_add_cancel of_int_of_nat_eq of_nat_Suc)
  have b: "?r \<le> of_nat (Suc i)" "of_nat i < ?r"
    using cc(1) cc(2) unfolding e by (simp_all only: of_nat_Suc add_diff_cancel_left')
  note cnt = sort_nth_count [OF i(2), folded q]
  have "of_nat (Suc i) \<le> (of_nat (length (filter (\<lambda>x. x \<le> q) vs)) :: rat)"
    "of_nat (length (filter (\<lambda>x. x < q) vs)) \<le> (of_nat i :: rat)"
    using cnt by (simp_all only: of_nat_le_iff)
  moreover have "q \<in> set vs" using i(2) by (metis q nth_mem set_sort length_sort)
  ultimately show ?thesis using b by (meson order_trans order_le_less_trans)
qed

theorem percentile_nearest_rank_witness:
  "\<exists>q. percentile [30, 10, 20, 40] 95 = Some q \<and> q \<in> set [30, 10, 20, 40] \<and>
     length (filter (\<lambda>x. x < q) [30, 10, 20, 40]) < 4"
proof -
  obtain q where q: "percentile [30, 10, 20, 40] 95 = Some q" by (simp add: percentile_def Let_def)
  show ?thesis
    using percentile_nearest_rank [OF q] q by (intro exI [of _ q]) simp
qed

end
