(* ===== verification/JsString.thy ===== *)
theory JsString
  imports Prelude
begin

text \<open>
  The string operations the components use, on lists of 8-bit characters: \<open>split\<close>,
  \<open>join\<close>, \<open>trim\<close>, \<open>toLowerCase\<close> (of the ASCII letters), \<open>startsWith\<close>, \<open>includes\<close>,
  \<open>replace\<close>, number rendering and parsing. Characters outside Latin-1 are not modelled.
\<close>

abbreviation code :: "char \<Rightarrow> nat" where
  "code c \<equiv> of_char c"

definition is_digit :: "char \<Rightarrow> bool" where
  "is_digit c \<longleftrightarrow> 48 \<le> code c \<and> code c \<le> 57"

definition is_upper :: "char \<Rightarrow> bool" where
  "is_upper c \<longleftrightarrow> 65 \<le> code c \<and> code c \<le> 90"

definition is_lower :: "char \<Rightarrow> bool" where
  "is_lower c \<longleftrightarrow> 97 \<le> code c \<and> code c \<le> 122"

definition is_space :: "char \<Rightarrow> bool" where
  "is_space c \<longleftrightarrow> 9 \<le> code c \<and> code c \<le> 13 \<or> code c = 32 \<or> code c = 160"

definition lower_char :: "char \<Rightarrow> char" where
  "lower_char c = (if is_upper c then char_of (code c + 32) else c)"

definition toLowerCase :: "string \<Rightarrow> string" where
  "toLowerCase s = map lower_char s"

definition trim_start :: "string \<Rightarrow> string" where
  "trim_start s = dropWhile is_space s"

definition trim_end :: "string \<Rightarrow> string" where
  "trim_end s = rev (dropWhile is_space (rev s))"

definition trim :: "string \<Rightarrow> string" where
  "trim s = trim_end (trim_start s)"

fun starts_with :: "string \<Rightarrow> string \<Rightarrow> bool" where
  "starts_with s [] = True"
| "starts_with [] (p # ps) = False"
| "starts_with (c # s) (p # ps) = (c = p \<and> starts_with s ps)"

definition ends_with :: "string \<Rightarrow> string \<Rightarrow> bool" where
  "ends_with s p = starts_with (rev s) (rev p)"

fun contains_text :: "string \<Rightarrow> string \<Rightarrow> bool" where
  "contains_text t [] = (t = [])"
| "contains_text t (c # s) = (starts_with (c # s) t \<or> contains_text t s)"

text \<open>\<open>split\<close> at every occurrence of a character; the empty string gives one empty part.\<close>

fun split_char :: "char \<Rightarrow> string \<Rightarrow> string list" where
  "split_char d [] = [[]]"
| "split_char d (c # s) =
     (if c = d then [] # split_char d s
      else case split_char d s of [] \<Rightarrow> [[c]] | p # ps \<Rightarrow> (c # p) # ps)"

fun join :: "string \<Rightarrow> string list \<Rightarrow> string" where
  "join d [] = []"
| "join d [p] = p"
| "join d (p # q # ps) = p @ d @ join d (q # ps)"

text \<open>The text before and after the first, and the last, occurrence of a character.\<close>

definition cut_before :: "char \<Rightarrow> string \<Rightarrow> string" where
  "cut_before d s = takeWhile (\<lambda>c. c \<noteq> d) s"

definition after_last :: "char \<Rightarrow> string \<Rightarrow> string" where
  "after_last d s = rev (takeWhile (\<lambda>c. c \<noteq> d) (rev s))"

definition upto_last :: "char \<Rightarrow> string \<Rightarrow> string" where
  "upto_last d s = rev (dropWhile (\<lambda>c. c \<noteq> d) (rev s))"

section \<open>Numbers\<close>

definition digit_char :: "nat \<Rightarrow> char" where
  "digit_char d = char_of (if d < 10 then 48 + d else 87 + d)"

fun show_base :: "nat \<Rightarrow> nat \<Rightarrow> string" where
  "show_base b n = (if n < b \<or> b < 2 then [digit_char n] else show_base b (n div b) @ [digit_char (n mod b)])"

declare show_base.simps [simp del]

abbreviation show_nat :: "nat \<Rightarrow> string" where
  "show_nat \<equiv> show_base 10"

definition digit_value :: "char \<Rightarrow> nat" where
  "digit_value c = (if is_digit c then code c - 48 else code c - 87)"

definition read_base :: "nat \<Rightarrow> string \<Rightarrow> nat" where
  "read_base b s = foldl (\<lambda>v c. v * b + digit_value c) 0 s"

abbreviation read_nat :: "string \<Rightarrow> nat" where
  "read_nat \<equiv> read_base 10"

definition is_hex :: "char \<Rightarrow> bool" where
  "is_hex c \<longleftrightarrow> is_digit c \<or> 97 \<le> code c \<and> code c \<le> 102"

definition pad_start :: "nat \<Rightarrow> char \<Rightarrow> string \<Rightarrow> string" where
  "pad_start n c s = replicate (n - length s) c @ s"

section \<open>Lemmas\<close>

lemma starts_with_append: "starts_with s p \<longleftrightarrow> (\<exists>t. s = p @ t)"
  by (induction s p rule: starts_with.induct) auto

lemma split_char_not_Nil [simp]: "split_char d s \<noteq> []"
  by (induction s) (auto split: list.splits)

lemma split_char_none: "d \<notin> set s \<Longrightarrow> split_char d s = [s]"
  by (induction s) auto

lemma split_char_append: "d \<notin> set p \<Longrightarrow> split_char d (p @ d # s) = p # split_char d s"
  by (induction p) auto

lemma split_char_join:
  "ps \<noteq> [] \<Longrightarrow> \<forall>p\<in>set ps. d \<notin> set p \<Longrightarrow> split_char d (join [d] ps) = ps"
  by (induction "[d]" ps rule: join.induct) (auto simp: split_char_none split_char_append)

lemma join_split_char: "join [d] (split_char d s) = s"
proof (induction s)
  case (Cons c s)
  obtain p ps where "split_char d s = p # ps" by (cases "split_char d s") auto
  then show ?case using Cons by (cases ps) auto
qed simp

lemma split_char_parts: "p \<in> set (split_char d s) \<Longrightarrow> d \<notin> set p"
  by (induction s arbitrary: p) (auto split: if_splits list.splits)

lemma join_eq_split: "split_char d s = ps \<Longrightarrow> s = join [d] ps"
  using join_split_char by metis

lemma lower_char_idem [simp]: "lower_char (lower_char c) = lower_char c"
  by (auto simp: lower_char_def is_upper_def)

lemma toLowerCase_idem [simp]: "toLowerCase (toLowerCase s) = toLowerCase s"
  by (simp add: toLowerCase_def)

lemma digit_char_code: "d < 36 \<Longrightarrow> code (digit_char d) = (if d < 10 then 48 + d else 87 + d)"
  by (simp add: digit_char_def)

lemma digit_value_char [simp]: "d < 36 \<Longrightarrow> digit_value (digit_char d) = d"
  by (simp add: digit_value_def is_digit_def digit_char_code)

lemma is_digit_char: "d < 36 \<Longrightarrow> is_digit (digit_char d) \<longleftrightarrow> d < 10"
  by (simp add: is_digit_def digit_char_code)

lemma digit_char_value: "is_digit c \<Longrightarrow> digit_char (digit_value c) = c"
proof -
  assume c: "is_digit c"
  then have "code c - 48 < 10" "48 + (code c - 48) = code c" by (auto simp: is_digit_def)
  then have "digit_char (digit_value c) = char_of (code c)"
    using c by (simp add: digit_value_def digit_char_def)
  then show ?thesis by simp
qed

lemma digit_value_less: "is_digit c \<Longrightarrow> digit_value c < 10"
  by (auto simp: digit_value_def is_digit_def)

lemma hex_value_less: "is_hex c \<Longrightarrow> digit_value c < 16"
  by (auto simp: is_hex_def digit_value_def is_digit_def)

lemma read_base_snoc: "read_base b (s @ [c]) = read_base b s * b + digit_value c"
  by (simp add: read_base_def)

lemma read_base_Nil [simp]: "read_base b [] = 0"
  by (simp add: read_base_def)

lemma show_base_small: "n < b \<Longrightarrow> show_base b n = [digit_char n]"
  by (subst show_base.simps) simp

lemma show_base_big:
  "2 \<le> b \<Longrightarrow> b \<le> n \<Longrightarrow> show_base b n = show_base b (n div b) @ [digit_char (n mod b)]"
  by (subst show_base.simps) simp

lemma show_base_induct [consumes 1, case_names small big]:
  assumes "2 \<le> b" and "\<And>n. n < b \<Longrightarrow> P n"
    and "\<And>n. 2 \<le> b \<Longrightarrow> b \<le> n \<Longrightarrow> P (n div b) \<Longrightarrow> P (n :: nat)"
  shows "P n"
proof (induction n rule: less_induct)
  case (less n)
  show ?case
  proof (cases "n < b")
    case False
    then have "n div b < n" using assms(1) by simp
    then have "P (n div b)" by (rule less)
    then show ?thesis using assms(1,3) False by simp
  qed (use assms(2) in blast)
qed

lemma read_show_base: "2 \<le> b \<Longrightarrow> b \<le> 36 \<Longrightarrow> read_base b (show_base b n) = n"
proof (induction n rule: show_base_induct)
  case (small n)
  then show ?case by (simp add: show_base_small read_base_def)
next
  case (big n)
  then have "n mod b < b" by simp
  then have "n mod b < 36" using big(4) by linarith
  then show ?case using big by (simp add: show_base_big read_base_snoc)
qed

lemma show_nat_inj: "show_nat m = show_nat n \<longleftrightarrow> m = n"
proof
  assume "show_nat m = show_nat n"
  from arg_cong [OF this, of read_nat] show "m = n" by (simp add: read_show_base)
qed simp

lemma show_base_digits:
  "2 \<le> b \<Longrightarrow> c \<in> set (show_base b n) \<Longrightarrow> \<exists>d<b. c = digit_char d"
proof (induction n rule: show_base_induct)
  case (big n)
  then have "c \<in> set (show_base b (n div b)) \<or> c = digit_char (n mod b)" by (auto simp: show_base_big)
  moreover have "n mod b < b" using big by simp
  ultimately show ?case using big by blast
qed (auto simp: show_base_small)

lemma show_base_not_Nil [simp]: "show_base b n \<noteq> []"
  by (subst show_base.simps) simp

lemma show_nat_digits: "c \<in> set (show_nat n) \<Longrightarrow> is_digit c"
  using show_base_digits [of 10 c n] by (auto simp: is_digit_char)

lemma length_show_base: "2 \<le> b \<Longrightarrow> n < b ^ Suc k \<Longrightarrow> length (show_base b n) \<le> Suc k"
proof (induction k arbitrary: n)
  case 0
  then show ?case by (simp add: show_base_small)
next
  case (Suc k)
  show ?case
  proof (cases "n < b")
    case False
    have "n div b < b ^ Suc k"
      using Suc.prems by (simp add: less_mult_imp_div_less mult.commute)
    then show ?thesis
      using Suc.IH [of "n div b"] Suc.prems False by (simp add: show_base_big)
  qed (simp add: show_base_small)
qed

text \<open>A number has no leading zero.\<close>

lemma show_base_hd: "2 \<le> b \<Longrightarrow> b \<le> 36 \<Longrightarrow> 0 < n \<Longrightarrow> hd (show_base b n) \<noteq> digit_char 0"
proof (induction n rule: show_base_induct)
  case (small n)
  then have "n < 36" by linarith
  then have "digit_char n \<noteq> digit_char 0"
    using small by (metis digit_value_char less_numeral_extra(3) zero_less_numeral)
  then show ?case using small by (simp add: show_base_small)
next
  case (big n)
  then have "0 < n div b" by (simp add: div_greater_zero_iff)
  then show ?case using big by (simp add: show_base_big hd_append)
qed

lemma digit_char_0: "digit_char 0 = CHR ''0''"
  by code_simp

lemma show_nat_no_sep: "\<not> is_digit c \<Longrightarrow> c \<notin> set (show_nat n)"
  using show_nat_digits by blast

lemma not_digits [simp]: "\<not> is_digit CHR ''.''" "\<not> is_digit CHR '':''" "\<not> is_digit CHR ''/''"
  by code_simp+

lemma trim_id: "\<forall>c\<in>set s. \<not> is_space c \<Longrightarrow> trim s = s"
proof -
  have d: "dropWhile is_space t = t" if "\<forall>c\<in>set t. \<not> is_space c" for t
    using that by (cases t) auto
  assume "\<forall>c\<in>set s. \<not> is_space c"
  then show ?thesis by (simp add: trim_def trim_start_def trim_end_def d)
qed

lemma toLowerCase_id: "\<forall>c\<in>set s. \<not> is_upper c \<Longrightarrow> toLowerCase s = s"
  by (auto simp: toLowerCase_def lower_char_def intro: map_idI)

lemma cut_before_id: "d \<notin> set s \<Longrightarrow> cut_before d s = s"
  by (auto simp: cut_before_def takeWhile_eq_all_conv)

lemma after_last_append: "d \<notin> set t \<Longrightarrow> after_last d (s @ d # t) = t"
  by (auto simp: after_last_def takeWhile_append)

lemma upto_last_append: "d \<notin> set t \<Longrightarrow> upto_last d (s @ d # t) = s @ [d]"
  by (simp add: upto_last_def dropWhile_append)

lemma read_pad_zero: "read_base b (replicate n CHR ''0'' @ s) = read_base b s"
proof -
  have "digit_value CHR ''0'' = 0" by code_simp
  then have "foldl (\<lambda>v c. v * b + digit_value c) 0 (replicate n CHR ''0'') = 0" by (induction n) auto
  then show ?thesis by (simp add: read_base_def)
qed

end
