(* ===== verification/Ip.thy ===== *)
theory Ip
  imports JsString "HOL-Library.Word"
begin

unbundle bit_operations_syntax

text \<open>
  The IP address classification of \<open>packages/security/src/ip.ts\<close>: the IPv4 parser on
  32-bit words with its block list of CIDR ranges, the IPv6 parser and the classification
  of literal addresses. The block list is compared with a reading of the dotted octets.
\<close>

datatype block_reason =
  Loopback | Private | LinkLocal | CloudMetadata | Multicast | Broadcast | Unspecified
  | Reserved | CarrierNat | Documentation | UniqueLocal | Unparseable

record classification =
  ip_safe :: bool
  ip_reason :: "block_reason option"
  ip_version :: "nat option"

abbreviation unsafe :: "block_reason \<Rightarrow> nat option \<Rightarrow> classification" where
  "unsafe r v \<equiv> \<lparr>ip_safe = False, ip_reason = Some r, ip_version = v\<rparr>"

abbreviation public_ip :: "nat \<Rightarrow> classification" where
  "public_ip v \<equiv> \<lparr>ip_safe = True, ip_reason = None, ip_version = Some v\<rparr>"

section \<open>IPv4\<close>

text \<open>A group of the pattern: one to three digits.\<close>

definition octet_text :: "string \<Rightarrow> bool" where
  "octet_text t \<longleftrightarrow> 1 \<le> length t \<and> length t \<le> 3 \<and> list_all is_digit t"

fun ipv4_octets :: "string list \<Rightarrow> 32 word \<Rightarrow> 32 word option" where
  "ipv4_octets [] v = Some v"
| "ipv4_octets (t # ts) v =
     (if 1 < length t \<and> starts_with t ''0'' then None
      else let octet = read_nat t in
        if 255 < octet then None else ipv4_octets ts (push_bit 8 v OR of_nat octet))"

definition parseIpv4 :: "string \<Rightarrow> 32 word option" where
  "parseIpv4 address =
     (let parts = split_char CHR ''.'' address in
      if length parts = 4 \<and> list_all octet_text parts then ipv4_octets parts 0 else None)"

record range4 =
  r4_reason :: block_reason
  r4_base :: "32 word"
  r4_mask :: "32 word"

definition prefix_mask :: "nat \<Rightarrow> 32 word" where
  "prefix_mask prefix = (if prefix = 0 then 0 else push_bit (32 - prefix) (-1))"

text \<open>None stands for the exception on an invalid literal.\<close>

definition mk_range4 :: "string \<Rightarrow> block_reason \<Rightarrow> range4 option" where
  "mk_range4 cidr reason =
     (case split_char CHR ''/'' cidr of
        addressPart # prefixPart # _ \<Rightarrow>
          (case parseIpv4 addressPart of
             None \<Rightarrow> None
           | Some base \<Rightarrow>
               let mask = prefix_mask (read_nat prefixPart)
               in Some \<lparr>r4_reason = reason, r4_base = base AND mask, r4_mask = mask\<rparr>)
      | _ \<Rightarrow> None)"

definition blocked_cidrs :: "(string \<times> block_reason) list" where
  "blocked_cidrs =
    [(''169.254.169.254/32'', CloudMetadata),
     (''100.100.100.200/32'', CloudMetadata),
     (''255.255.255.255/32'', Broadcast),
     (''0.0.0.0/8'', Unspecified),
     (''10.0.0.0/8'', Private),
     (''100.64.0.0/10'', CarrierNat),
     (''127.0.0.0/8'', Loopback),
     (''169.254.0.0/16'', LinkLocal),
     (''172.16.0.0/12'', Private),
     (''192.0.0.0/24'', Reserved),
     (''192.0.2.0/24'', Documentation),
     (''192.88.99.0/24'', Reserved),
     (''192.168.0.0/16'', Private),
     (''198.18.0.0/15'', Reserved),
     (''198.51.100.0/24'', Documentation),
     (''203.0.113.0/24'', Documentation),
     (''224.0.0.0/4'', Multicast),
     (''240.0.0.0/4'', Reserved)]"

definition BLOCKED_IPV4 :: "range4 list" where
  "BLOCKED_IPV4 = List.map_filter (\<lambda>(cidr, reason). mk_range4 cidr reason) blocked_cidrs"

fun first_range :: "32 word \<Rightarrow> range4 list \<Rightarrow> range4 option" where
  "first_range v [] = None"
| "first_range v (r # rs) = (if (v AND r4_mask r) = r4_base r then Some r else first_range v rs)"

definition classifyIpv4 :: "string \<Rightarrow> classification" where
  "classifyIpv4 address =
     (case parseIpv4 address of
        None \<Rightarrow> unsafe Unparseable None
      | Some v \<Rightarrow>
          (case first_range v BLOCKED_IPV4 of
             Some r \<Rightarrow> unsafe (r4_reason r) (Some 4)
           | None \<Rightarrow> public_ip 4))"

section \<open>IPv6\<close>

fun count_double_colon :: "string \<Rightarrow> nat" where
  "count_double_colon [] = 0"
| "count_double_colon [c] = 0"
| "count_double_colon (c # d # s) =
     (if c = CHR '':'' \<and> d = CHR '':'' then Suc (count_double_colon s)
      else count_double_colon (d # s))"

fun split_double_colon :: "string \<Rightarrow> string \<times> string" where
  "split_double_colon [] = ([], [])"
| "split_double_colon [c] = ([c], [])"
| "split_double_colon (c # d # s) =
     (if c = CHR '':'' \<and> d = CHR '':'' then ([], s)
      else let (l, r) = split_double_colon (d # s) in (c # l, r))"

definition hex_group :: "string \<Rightarrow> bool" where
  "hex_group t \<longleftrightarrow> 1 \<le> length t \<and> length t \<le> 4 \<and> list_all is_hex t"

fun parse_groups :: "string list \<Rightarrow> nat list option" where
  "parse_groups [] = Some []"
| "parse_groups (t # ts) =
     (if hex_group t then map_option ((#) (read_base 16 t)) (parse_groups ts) else None)"

definition hex4 :: "32 word \<Rightarrow> string" where
  "hex4 w = pad_start 4 CHR ''0'' (show_base 16 (unat w))"

text \<open>A trailing dotted quad becomes two groups; None when it is not an IPv4 address.\<close>

definition embed_ipv4 :: "string \<Rightarrow> string option" where
  "embed_ipv4 text =
     (let tail = after_last CHR '':'' text in
      if CHR ''.'' \<in> set tail
      then case parseIpv4 tail of
             None \<Rightarrow> None
           | Some v4 \<Rightarrow>
               Some (upto_last CHR '':'' text @ hex4 (drop_bit 16 v4 AND 0xffff) @ '':'' @
                     hex4 (v4 AND 0xffff))
      else Some text)"

definition colon_parts :: "string \<Rightarrow> string list" where
  "colon_parts s = (if s = [] then [] else split_char CHR '':'' s)"

text \<open>The groups of a text: those before the gap and those after it.\<close>

definition ipv6_parts :: "string \<Rightarrow> (string list \<times> string list) option" where
  "ipv6_parts text =
     (if 1 < count_double_colon text then None
      else if count_double_colon text = 1
      then let (left, right) = split_double_colon text; head = colon_parts left; rear = colon_parts right
        in if 7 < length head + length rear then None else Some (head, rear)
      else let head = split_char CHR '':'' text in
        if length head \<noteq> 8 then None else Some (head, []))"

definition parseIpv6 :: "string \<Rightarrow> nat list option" where
  "parseIpv6 address =
     (let text = cut_before CHR ''%'' (toLowerCase (trim address)) in
      if text = [] then None
      else case embed_ipv4 text of
             None \<Rightarrow> None
           | Some text' \<Rightarrow>
               (case ipv6_parts text' of
                  None \<Rightarrow> None
                | Some (head, rear) \<Rightarrow>
                    (case (parse_groups head, parse_groups rear) of
                       (Some h, Some r) \<Rightarrow>
                         let groups = h @ replicate (8 - (length h + length rear)) 0 @ r
                         in if length groups = 8 then Some groups else None
                     | _ \<Rightarrow> None)))"

definition embedded_text :: "nat \<Rightarrow> nat \<Rightarrow> string" where
  "embedded_text g6 g7 =
     show_nat (drop_bit 8 g6 AND 0xff) @ ''.'' @ show_nat (g6 AND 0xff) @ ''.'' @
     show_nat (drop_bit 8 g7 AND 0xff) @ ''.'' @ show_nat (g7 AND 0xff)"

definition all_zero :: "nat list \<Rightarrow> bool" where
  "all_zero gs \<longleftrightarrow> list_all (\<lambda>g. g = 0) gs"

definition classify_groups :: "nat list \<Rightarrow> classification" where
  "classify_groups groups =
     (let g0 = groups ! 0; g1 = groups ! 1 in
      if all_zero groups then unsafe Unspecified (Some 6)
      else if all_zero (take 7 groups) \<and> groups ! 7 = 1 then unsafe Loopback (Some 6)
      else if all_zero (take 5 groups) \<and> groups ! 5 = 0xffff \<or> all_zero (take 6 groups)
      then let nested = classifyIpv4 (embedded_text (groups ! 6) (groups ! 7))
        in if ip_safe nested then public_ip 6 else nested\<lparr>ip_version := Some 6\<rparr>
      else if (g0 AND 0xffc0) = 0xfe80 then unsafe LinkLocal (Some 6)
      else if (g0 AND 0xfe00) = 0xfc00 then unsafe UniqueLocal (Some 6)
      else if (g0 AND 0xff00) = 0xff00 then unsafe Multicast (Some 6)
      else if g0 = 0x2001 \<and> g1 = 0x0db8 then unsafe Documentation (Some 6)
      else if g0 = 0x0100 \<and> all_zero (take 3 (drop 1 groups)) then unsafe Reserved (Some 6)
      else public_ip 6)"

definition classifyIpv6 :: "string \<Rightarrow> classification" where
  "classifyIpv6 address =
     (case parseIpv6 address of
        None \<Rightarrow> unsafe Unparseable None
      | Some groups \<Rightarrow> classify_groups groups)"

text \<open>\<open>replace(/^\[|\]$/g, '')\<close>: one opening and one closing bracket.\<close>

definition strip_brackets :: "string \<Rightarrow> string" where
  "strip_brackets s =
     (let t = (if starts_with s ''['' then tl s else s)
      in if ends_with t '']'' then butlast t else t)"

definition classifyIp :: "string \<Rightarrow> classification" where
  "classifyIp address =
     (let trimmed = strip_brackets (trim address) in
      if trimmed = [] then unsafe Unparseable None
      else if CHR '':'' \<in> set trimmed then classifyIpv6 trimmed else classifyIpv4 trimmed)"

definition isPublicIp :: "string \<Rightarrow> bool" where
  "isPublicIp address = ip_safe (classifyIp address)"

fun ip_block_message :: "block_reason \<Rightarrow> string" where
  "ip_block_message Loopback = ''resolves to a loopback address''"
| "ip_block_message Private = ''resolves to a private network address''"
| "ip_block_message LinkLocal = ''resolves to a link-local address''"
| "ip_block_message CloudMetadata = ''resolves to a cloud metadata endpoint''"
| "ip_block_message Multicast = ''resolves to a multicast address''"
| "ip_block_message Broadcast = ''resolves to a broadcast address''"
| "ip_block_message Unspecified = ''resolves to an unspecified address''"
| "ip_block_message Reserved = ''resolves to a reserved address range''"
| "ip_block_message CarrierNat = ''resolves to a carrier-grade NAT address''"
| "ip_block_message Documentation = ''resolves to a documentation-only address range''"
| "ip_block_message UniqueLocal = ''resolves to a unique local address''"
| "ip_block_message Unparseable = ''could not be parsed as a valid IP address''"

section \<open>Dotted quads\<close>

definition dotted :: "nat \<Rightarrow> nat \<Rightarrow> nat \<Rightarrow> nat \<Rightarrow> string" where
  "dotted a b c d = join ''.'' (map show_nat [a, b, c, d])"

definition ipv4_number :: "nat \<Rightarrow> nat \<Rightarrow> nat \<Rightarrow> nat \<Rightarrow> nat" where
  "ipv4_number a b c d = ((a * 256 + b) * 256 + c) * 256 + d"

abbreviation octet :: "nat \<Rightarrow> bool" where
  "octet n \<equiv> n < 256"

lemma digits_no_sep: "list_all is_digit t \<Longrightarrow> \<not> is_digit c \<Longrightarrow> c \<notin> set t"
  by (auto simp: list_all_iff)

lemma show_nat_list_all: "list_all is_digit (show_nat n)"
  using show_nat_digits by (auto simp: list_all_iff)

lemma show_octet_text: "octet n \<Longrightarrow> octet_text (show_nat n)"
  using length_show_base [of 10 n 2] show_nat_list_all [of n]
  by (simp add: octet_text_def Suc_leI)

lemma shift_or_octet:
  assumes "octet n"
  shows "push_bit 8 v OR of_nat n = v * 256 + (of_nat n :: 32 word)"
proof -
  have "push_bit 8 v + of_nat n = push_bit 8 v OR (of_nat n :: 32 word)"
  proof (rule disjunctive_add)
    fix k
    have "bit (of_nat n :: 32 word) k \<Longrightarrow> k < 8"
    proof -
      assume "bit (of_nat n :: 32 word) k"
      then have "bit n k" by (simp add: bit_of_nat_iff)
      then have "2 ^ k \<le> n" by (simp add: bit_iff_odd) (metis div_less even_zero not_less)
      then have "(2 :: nat) ^ k < 2 ^ 8" using assms by simp
      then show "k < 8" by (rule power_less_imp_less_exp [rotated]) simp
    qed
    then show "\<not> bit (push_bit 8 v) k \<or> \<not> bit (of_nat n :: 32 word) k"
      by (auto simp: bit_push_bit_iff)
  qed
  then show ?thesis by (simp add: push_bit_eq_mult)
qed

lemma octet_ok: "octet n \<Longrightarrow> \<not> (1 < length (show_nat n) \<and> starts_with (show_nat n) ''0'')"
proof
  assume n: "octet n" and z: "1 < length (show_nat n) \<and> starts_with (show_nat n) ''0''"
  have "0 < n" using z by (cases "n = 0") (simp_all add: show_base_small)
  then have "hd (show_nat n) \<noteq> digit_char 0" by (intro show_base_hd) simp_all
  moreover have "hd (show_nat n) = CHR ''0''" using z by (cases "show_nat n") simp_all
  ultimately show False by (simp add: digit_char_0)
qed

lemma ipv4_octets_Cons:
  "octet n \<Longrightarrow> ipv4_octets (show_nat n # ts) v = ipv4_octets ts (v * 256 + of_nat n)"
  using octet_ok [of n]
  by (simp only: ipv4_octets.simps if_False Let_def) (simp add: read_show_base shift_or_octet)

lemma parse_dotted:
  assumes "octet a" "octet b" "octet c" "octet d"
  shows "parseIpv4 (dotted a b c d) = Some (of_nat (ipv4_number a b c d))"
proof -
  have nd: "\<forall>p\<in>set (map show_nat [a, b, c, d]). CHR ''.'' \<notin> set p"
    by (simp add: show_nat_no_sep)
  have "split_char CHR ''.'' (dotted a b c d) = map show_nat [a, b, c, d]"
    unfolding dotted_def by (rule split_char_join [OF _ nd]) simp
  moreover have "ipv4_octets (map show_nat [a, b, c, d]) 0 = Some (of_nat (ipv4_number a b c d))"
    using assms by (simp only: list.map ipv4_octets_Cons ipv4_octets.simps(1)) (simp add: ipv4_number_def)
  ultimately show ?thesis
    using assms show_octet_text by (simp add: parseIpv4_def Let_def del: ipv4_octets.simps)
qed

lemma ipv4_octets_step:
  assumes "ipv4_octets (t # ts) v = Some w"
  shows "\<not> (1 < length t \<and> starts_with t ''0'')" "octet (read_nat t)"
    "\<exists>v'. ipv4_octets ts v' = Some w"
  using assms by (auto simp: Let_def simp del: push_bit_of_nat split: if_splits)

text \<open>A decimal without leading zero is the rendering of its value.\<close>

lemma show_read_nat:
  "list_all is_digit t \<Longrightarrow> t \<noteq> [] \<Longrightarrow> (1 < length t \<Longrightarrow> hd t \<noteq> CHR ''0'') \<Longrightarrow> show_nat (read_nat t) = t"
proof (induction t rule: rev_induct)
  case (snoc x t)
  have x: "digit_value x < 10" "digit_char (digit_value x) = x"
    using snoc.prems(1) by (simp_all add: digit_value_less digit_char_value)
  show ?case
  proof (cases "t = []")
    case True
    then show ?thesis using x by (simp add: read_base_def show_base_small)
  next
    case False
    then have hd0: "hd t \<noteq> CHR ''0''" using snoc.prems(3) by (simp add: hd_append)
    then have IH: "show_nat (read_nat t) = t" using snoc False by simp
    have "read_nat t \<noteq> 0"
    proof
      assume "read_nat t = 0"
      then have "t = [digit_char 0]" using IH by (simp add: show_base_small)
      then show False using hd0 by (simp add: digit_char_0)
    qed
    then show ?thesis using IH x by (simp add: read_base_snoc show_base_big)
  qed
qed simp

lemma octet_text_canonical:
  assumes "octet_text t" and "\<not> (1 < length t \<and> starts_with t ''0'')"
  shows "t = show_nat (read_nat t)"
proof -
  have "t \<noteq> []" using assms(1) by (auto simp: octet_text_def)
  then show ?thesis
    using assms by (intro show_read_nat [symmetric]) (cases t; auto simp: octet_text_def)+
qed

lemma parse_canonical:
  assumes "parseIpv4 s = Some w"
  obtains a b c d where "octet a" "octet b" "octet c" "octet d" "s = dotted a b c d"
    "w = of_nat (ipv4_number a b c d)"
proof -
  let ?ps = "split_char CHR ''.'' s"
  have ps: "length ?ps = 4" "list_all octet_text ?ps" "ipv4_octets ?ps 0 = Some w"
    using assms by (auto simp: parseIpv4_def Let_def split: if_splits)
  obtain t1 t2 t3 t4 where t: "?ps = [t1, t2, t3, t4]"
    using ps(1) by (auto simp: numeral_eq_Suc length_Suc_conv)
  have o: "octet_text t1" "octet_text t2" "octet_text t3" "octet_text t4" using ps(2) t by simp_all
  have step: "t = show_nat (read_nat t) \<and> octet (read_nat t)"
    if "ipv4_octets (t # ts) v = Some w'" "octet_text t" for t ts v w'
    using ipv4_octets_step(1,2) [OF that(1)] octet_text_canonical [OF that(2)] by blast
  have r1: "ipv4_octets [t1, t2, t3, t4] 0 = Some w" using ps(3) t by simp
  obtain v2 where r2: "ipv4_octets [t2, t3, t4] v2 = Some w" using ipv4_octets_step(3) [OF r1] by blast
  obtain v3 where r3: "ipv4_octets [t3, t4] v3 = Some w" using ipv4_octets_step(3) [OF r2] by blast
  obtain v4 where r4: "ipv4_octets [t4] v4 = Some w" using ipv4_octets_step(3) [OF r3] by blast
  note c = step [OF r1 o(1)] step [OF r2 o(2)] step [OF r3 o(3)] step [OF r4 o(4)]
  have s: "s = dotted (read_nat t1) (read_nat t2) (read_nat t3) (read_nat t4)"
    using join_eq_split [OF t] c by (simp add: dotted_def)
  then have "w = of_nat (ipv4_number (read_nat t1) (read_nat t2) (read_nat t3) (read_nat t4))"
    using parse_dotted c assms by simp
  then show ?thesis using that s c by blast
qed

section \<open>The block list by octets\<close>

text \<open>A range as it is built from its literal, and the addresses it holds.\<close>

definition cidr_range :: "nat \<Rightarrow> nat \<Rightarrow> nat \<Rightarrow> nat \<Rightarrow> nat \<Rightarrow> block_reason \<Rightarrow> range4" where
  "cidr_range a b c d prefix reason =
     \<lparr>r4_reason = reason, r4_base = of_nat (ipv4_number a b c d) AND prefix_mask prefix,
      r4_mask = prefix_mask prefix\<rparr>"

lemma mk_range4_literals:
  "mk_range4 ''169.254.169.254/32'' r = Some (cidr_range 169 254 169 254 32 r)"
  "mk_range4 ''100.100.100.200/32'' r = Some (cidr_range 100 100 100 200 32 r)"
  "mk_range4 ''255.255.255.255/32'' r = Some (cidr_range 255 255 255 255 32 r)"
  "mk_range4 ''0.0.0.0/8'' r = Some (cidr_range 0 0 0 0 8 r)"
  "mk_range4 ''10.0.0.0/8'' r = Some (cidr_range 10 0 0 0 8 r)"
  "mk_range4 ''100.64.0.0/10'' r = Some (cidr_range 100 64 0 0 10 r)"
  "mk_range4 ''127.0.0.0/8'' r = Some (cidr_range 127 0 0 0 8 r)"
  "mk_range4 ''169.254.0.0/16'' r = Some (cidr_range 169 254 0 0 16 r)"
  "mk_range4 ''172.16.0.0/12'' r = Some (cidr_range 172 16 0 0 12 r)"
  "mk_range4 ''192.0.0.0/24'' r = Some (cidr_range 192 0 0 0 24 r)"
  "mk_range4 ''192.0.2.0/24'' r = Some (cidr_range 192 0 2 0 24 r)"
  "mk_range4 ''192.88.99.0/24'' r = Some (cidr_range 192 88 99 0 24 r)"
  "mk_range4 ''192.168.0.0/16'' r = Some (cidr_range 192 168 0 0 16 r)"
  "mk_range4 ''198.18.0.0/15'' r = Some (cidr_range 198 18 0 0 15 r)"
  "mk_range4 ''198.51.100.0/24'' r = Some (cidr_range 198 51 100 0 24 r)"
  "mk_range4 ''203.0.113.0/24'' r = Some (cidr_range 203 0 113 0 24 r)"
  "mk_range4 ''224.0.0.0/4'' r = Some (cidr_range 224 0 0 0 4 r)"
  "mk_range4 ''240.0.0.0/4'' r = Some (cidr_range 240 0 0 0 4 r)"
  by (simp_all add: mk_range4_def parseIpv4_def octet_text_def is_digit_def read_base_def digit_value_def
      cidr_range_def ipv4_number_def Let_def)

lemma BLOCKED_IPV4_ranges:
  "BLOCKED_IPV4 =
    [cidr_range 169 254 169 254 32 CloudMetadata,
     cidr_range 100 100 100 200 32 CloudMetadata,
     cidr_range 255 255 255 255 32 Broadcast,
     cidr_range 0 0 0 0 8 Unspecified,
     cidr_range 10 0 0 0 8 Private,
     cidr_range 100 64 0 0 10 CarrierNat,
     cidr_range 127 0 0 0 8 Loopback,
     cidr_range 169 254 0 0 16 LinkLocal,
     cidr_range 172 16 0 0 12 Private,
     cidr_range 192 0 0 0 24 Reserved,
     cidr_range 192 0 2 0 24 Documentation,
     cidr_range 192 88 99 0 24 Reserved,
     cidr_range 192 168 0 0 16 Private,
     cidr_range 198 18 0 0 15 Reserved,
     cidr_range 198 51 100 0 24 Documentation,
     cidr_range 203 0 113 0 24 Documentation,
     cidr_range 224 0 0 0 4 Multicast,
     cidr_range 240 0 0 0 4 Reserved]"
  by (simp add: BLOCKED_IPV4_def blocked_cidrs_def List.map_filter_def mk_range4_literals)

lemma and_prefix_mask:
  assumes "0 < p" and "p \<le> 32"
  shows "(v AND prefix_mask p) = (w AND prefix_mask p) \<longleftrightarrow>
    unat v div 2 ^ (32 - p) = unat w div 2 ^ (32 - p)"
proof -
  let ?k = "32 - p"
  have m: "u AND prefix_mask p = push_bit ?k (drop_bit ?k u)" for u
    using assms by (intro bit_eqI) (auto simp: prefix_mask_def bit_simps)
  have u: "unat u div 2 ^ ?k = unat (drop_bit ?k u)" for u :: "32 word"
    by (simp only: unat_drop_bit_eq) (simp only: drop_bit_eq_div)
  have "drop_bit ?k u = drop_bit ?k (push_bit ?k (drop_bit ?k u))" for u :: "32 word"
    using assms by (intro bit_eqI) (auto simp: bit_simps dest: bit_imp_le_length)
  then have "push_bit ?k (drop_bit ?k v) = push_bit ?k (drop_bit ?k w) \<longleftrightarrow> drop_bit ?k v = drop_bit ?k w"
    by metis
  then show ?thesis by (simp only: m u word_unat_eq_iff [symmetric])
qed

text \<open>An address of four octets is in a range when it agrees on the prefix.\<close>

definition in_range4 :: "nat \<Rightarrow> range4 \<Rightarrow> bool" where
  "in_range4 n r \<longleftrightarrow> (of_nat n AND r4_mask r) = r4_base r"

lemma ipv4_number_less:
  "octet a \<Longrightarrow> octet b \<Longrightarrow> octet c \<Longrightarrow> octet d \<Longrightarrow> ipv4_number a b c d < 2 ^ 32"
  by (simp add: ipv4_number_def)

lemma in_cidr:
  assumes "0 < p" "p \<le> 32" "octet a" "octet b" "octet c" "octet d" "octet a'" "octet b'" "octet c'" "octet d'"
  shows "in_range4 (ipv4_number a b c d) (cidr_range a' b' c' d' p r) \<longleftrightarrow>
    ipv4_number a b c d div 2 ^ (32 - p) = ipv4_number a' b' c' d' div 2 ^ (32 - p)"
proof -
  have "unat (of_nat (ipv4_number a b c d) :: 32 word) = ipv4_number a b c d"
    "unat (of_nat (ipv4_number a' b' c' d') :: 32 word) = ipv4_number a' b' c' d'"
    using ipv4_number_less assms by (simp_all add: unsigned_of_nat take_bit_nat_eq_self)
  then show ?thesis
    using and_prefix_mask [OF assms(1,2), of "of_nat (ipv4_number a b c d)" "of_nat (ipv4_number a' b' c' d')"]
    by (simp add: in_range4_def cidr_range_def)
qed

lemma div_nat_interval: "0 < m \<Longrightarrow> (n :: nat) div m = k \<longleftrightarrow> k * m \<le> n \<and> n < k * m + m"
proof
  assume m: "0 < m"
  show "k * m \<le> n \<and> n < k * m + m" if "n div m = k"
    using that dividend_less_div_times [OF m, of n] div_times_less_eq_dividend [of n m] by auto
  show "n div m = k" if "k * m \<le> n \<and> n < k * m + m"
    using that by (intro div_nat_eqI) (simp_all add: mult.commute)
qed

lemma mixed_pair:
  assumes "y < m" "y' < (m :: nat)"
  shows "x * m + y = x' * m + y' \<longleftrightarrow> x = x' \<and> y = y'"
proof
  assume e: "x * m + y = x' * m + y'"
  have "x = (x * m + y) div m" "x' = (x' * m + y') div m" using assms by simp_all
  then have "x = x'" using e by simp
  then show "x = x' \<and> y = y'" using e by simp
qed simp

lemmas octet_pair = mixed_pair [where m = 256]

lemma octet_div: "octet y \<Longrightarrow> (x * 256 + y) div 256 = x"
  by simp

lemma number_div:
  assumes "octet a" "octet b" "octet c" "octet d"
  shows "ipv4_number a b c d div 2 ^ 8 = (a * 256 + b) * 256 + c"
    and "ipv4_number a b c d div 2 ^ 16 = a * 256 + b"
    and "ipv4_number a b c d div 2 ^ 24 = a"
proof -
  show 1: "ipv4_number a b c d div 2 ^ 8 = (a * 256 + b) * 256 + c"
    using octet_div [OF assms(4)] by (simp add: ipv4_number_def)
  have "ipv4_number a b c d div 2 ^ 16 = ipv4_number a b c d div 2 ^ 8 div 256"
    by (simp add: div_mult2_eq [symmetric])
  then show 2: "ipv4_number a b c d div 2 ^ 16 = a * 256 + b"
    using octet_div [OF assms(3)] by (simp only: 1)
  have "ipv4_number a b c d div 2 ^ 24 = ipv4_number a b c d div 2 ^ 16 div 256"
    by (simp add: div_mult2_eq [symmetric])
  then show "ipv4_number a b c d div 2 ^ 24 = a"
    using octet_div [OF assms(2)] by (simp only: 2)
qed

text \<open>Prefixes that end inside an octet.\<close>

lemma number_div_part:
  assumes "octet a" "octet b" "octet c" "octet d"
  shows "ipv4_number a b c d div 2 ^ 22 = (a * 256 + b) div 64"
    and "ipv4_number a b c d div 2 ^ 20 = (a * 256 + b) div 16"
    and "ipv4_number a b c d div 2 ^ 17 = (a * 256 + b) div 2"
    and "ipv4_number a b c d div 2 ^ 28 = a div 16"
proof -
  have split: "ipv4_number a b c d div 2 ^ (16 + k) = ipv4_number a b c d div 2 ^ 16 div 2 ^ k"
    "ipv4_number a b c d div 2 ^ (24 + k) = ipv4_number a b c d div 2 ^ 24 div 2 ^ k" for k
    by (simp_all only: div_mult2_eq [symmetric] power_add)
  have "ipv4_number a b c d div 2 ^ (16 + 6) = (a * 256 + b) div 2 ^ 6"
    by (simp only: split(1) number_div(2) [OF assms])
  then show "ipv4_number a b c d div 2 ^ 22 = (a * 256 + b) div 64" by simp
  have "ipv4_number a b c d div 2 ^ (16 + 4) = (a * 256 + b) div 2 ^ 4"
    by (simp only: split(1) number_div(2) [OF assms])
  then show "ipv4_number a b c d div 2 ^ 20 = (a * 256 + b) div 16" by simp
  have "ipv4_number a b c d div 2 ^ (16 + 1) = (a * 256 + b) div 2 ^ 1"
    by (simp only: split(1) number_div(2) [OF assms])
  then show "ipv4_number a b c d div 2 ^ 17 = (a * 256 + b) div 2" by simp
  have "ipv4_number a b c d div 2 ^ (24 + 4) = a div 2 ^ 4"
    by (simp only: split(2) number_div(3) [OF assms])
  then show "ipv4_number a b c d div 2 ^ 28 = a div 16" by simp
qed

text \<open>
  The octet patterns that are not public unicast: this network, private, shared, loopback,
  link-local and metadata, protocol assignments, documentation, 6to4 relay, benchmarking,
  multicast, reserved and broadcast.
\<close>

definition non_public4 :: "nat \<Rightarrow> nat \<Rightarrow> nat \<Rightarrow> nat \<Rightarrow> bool" where
  "non_public4 a b c d \<longleftrightarrow>
     a = 0 \<or> a = 10 \<or> a = 127 \<or> 224 \<le> a \<or>
     a = 100 \<and> 64 \<le> b \<and> b \<le> 127 \<or>
     a = 169 \<and> b = 254 \<or>
     a = 172 \<and> 16 \<le> b \<and> b \<le> 31 \<or>
     a = 192 \<and> b = 0 \<and> (c = 0 \<or> c = 2) \<or>
     a = 192 \<and> b = 88 \<and> c = 99 \<or>
     a = 192 \<and> b = 168 \<or>
     a = 198 \<and> (b = 18 \<or> b = 19) \<or>
     a = 198 \<and> b = 51 \<and> c = 100 \<or>
     a = 203 \<and> b = 0 \<and> c = 113"

text \<open>The ranges by octets: a whole first octet, two octets, three octets, and the partial ones.\<close>

lemma cidr8: "octet a \<Longrightarrow> octet b \<Longrightarrow> octet c \<Longrightarrow> octet d \<Longrightarrow> octet a' \<Longrightarrow>
    in_range4 (ipv4_number a b c d) (cidr_range a' 0 0 0 8 r) \<longleftrightarrow> a = a'"
  using number_div(3) [of a b c d] number_div(3) [of a' 0 0 0] by (subst in_cidr) simp_all

lemma cidr16: "octet a \<Longrightarrow> octet b \<Longrightarrow> octet c \<Longrightarrow> octet d \<Longrightarrow> octet a' \<Longrightarrow> octet b' \<Longrightarrow>
    in_range4 (ipv4_number a b c d) (cidr_range a' b' 0 0 16 r) \<longleftrightarrow> a = a' \<and> b = b'"
  using number_div(2) [of a b c d] number_div(2) [of a' b' 0 0] octet_pair
  by (subst in_cidr) simp_all

lemma cidr24: "octet a \<Longrightarrow> octet b \<Longrightarrow> octet c \<Longrightarrow> octet d \<Longrightarrow> octet a' \<Longrightarrow> octet b' \<Longrightarrow> octet c' \<Longrightarrow>
    in_range4 (ipv4_number a b c d) (cidr_range a' b' c' 0 24 r) \<longleftrightarrow> a = a' \<and> b = b' \<and> c = c'"
  using number_div(1) [of a b c d] number_div(1) [of a' b' c' 0] octet_pair [of b b' a a']
    octet_pair [of c c' "a * 256 + b" "a' * 256 + b'"]
  by (subst in_cidr) simp_all

lemma cidr32: "octet a \<Longrightarrow> octet b \<Longrightarrow> octet c \<Longrightarrow> octet d \<Longrightarrow> octet a' \<Longrightarrow> octet b' \<Longrightarrow> octet c' \<Longrightarrow> octet d' \<Longrightarrow>
    in_range4 (ipv4_number a b c d) (cidr_range a' b' c' d' 32 r) \<longleftrightarrow> a = a' \<and> b = b' \<and> c = c' \<and> d = d'"
  using octet_pair [of b b' a a'] octet_pair [of c c' "a * 256 + b" "a' * 256 + b'"]
    octet_pair [of d d' "(a * 256 + b) * 256 + c" "(a' * 256 + b') * 256 + c'"]
  by (subst in_cidr) (simp_all add: ipv4_number_def)

lemma cidr_partial:
  assumes "octet a" "octet b" "octet c" "octet d"
  shows "in_range4 (ipv4_number a b c d) (cidr_range 100 64 0 0 10 r) \<longleftrightarrow> a = 100 \<and> 64 \<le> b \<and> b \<le> 127"
    and "in_range4 (ipv4_number a b c d) (cidr_range 172 16 0 0 12 r) \<longleftrightarrow> a = 172 \<and> 16 \<le> b \<and> b \<le> 31"
    and "in_range4 (ipv4_number a b c d) (cidr_range 198 18 0 0 15 r) \<longleftrightarrow> a = 198 \<and> (b = 18 \<or> b = 19)"
    and "in_range4 (ipv4_number a b c d) (cidr_range 224 0 0 0 4 r) \<longleftrightarrow> 224 \<le> a \<and> a < 240"
    and "in_range4 (ipv4_number a b c d) (cidr_range 240 0 0 0 4 r) \<longleftrightarrow> 240 \<le> a"
proof -
  note q = number_div_part [OF assms]
  have d: "(a * 256 + b) div 64 = a * 4 + b div 64" "(a * 256 + b) div 16 = a * 16 + b div 16"
    "(a * 256 + b) div 2 = a * 128 + b div 2"
    using div_mult_self1 [of 64 b "a * 4"] div_mult_self1 [of 16 b "a * 16"] div_mult_self1 [of 2 b "a * 128"]
    by (simp_all add: algebra_simps)
  have lt: "b div 64 < 4" "b div 16 < 16" "b div 2 < 128" using assms by simp_all
  have "a * 4 + b div 64 = 401 \<longleftrightarrow> a = 100 \<and> b div 64 = 1" using mixed_pair [OF lt(1), of 1 a 100] by simp
  moreover have "b div 64 = 1 \<longleftrightarrow> 64 \<le> b \<and> b \<le> 127" by (auto simp: div_nat_interval)
  ultimately show "in_range4 (ipv4_number a b c d) (cidr_range 100 64 0 0 10 r) \<longleftrightarrow> a = 100 \<and> 64 \<le> b \<and> b \<le> 127"
    using q(1) number_div_part(1) [of 100 64 0 0] assms d(1) by (subst in_cidr) simp_all
  have "a * 16 + b div 16 = 2753 \<longleftrightarrow> a = 172 \<and> b div 16 = 1" using mixed_pair [OF lt(2), of 1 a 172] by simp
  moreover have "b div 16 = 1 \<longleftrightarrow> 16 \<le> b \<and> b \<le> 31" by (auto simp: div_nat_interval)
  ultimately show "in_range4 (ipv4_number a b c d) (cidr_range 172 16 0 0 12 r) \<longleftrightarrow> a = 172 \<and> 16 \<le> b \<and> b \<le> 31"
    using q(2) number_div_part(2) [of 172 16 0 0] assms d(2) by (subst in_cidr) simp_all
  have "a * 128 + b div 2 = 25353 \<longleftrightarrow> a = 198 \<and> b div 2 = 9" using mixed_pair [OF lt(3), of 9 a 198] by simp
  moreover have "b div 2 = 9 \<longleftrightarrow> b = 18 \<or> b = 19" by (auto simp: div_nat_interval)
  ultimately show "in_range4 (ipv4_number a b c d) (cidr_range 198 18 0 0 15 r) \<longleftrightarrow> a = 198 \<and> (b = 18 \<or> b = 19)"
    using q(3) number_div_part(3) [of 198 18 0 0] assms d(3) by (subst in_cidr) simp_all
  have "a div 16 = 14 \<longleftrightarrow> 224 \<le> a \<and> a < 240" by (auto simp: div_nat_interval)
  then show "in_range4 (ipv4_number a b c d) (cidr_range 224 0 0 0 4 r) \<longleftrightarrow> 224 \<le> a \<and> a < 240"
    using q(4) number_div_part(4) [of 224 0 0 0] assms by (subst in_cidr) simp_all
  have "a div 16 = 15 \<longleftrightarrow> 240 \<le> a \<and> a < 256" by (auto simp: div_nat_interval)
  then show "in_range4 (ipv4_number a b c d) (cidr_range 240 0 0 0 4 r) \<longleftrightarrow> 240 \<le> a"
    using q(4) number_div_part(4) [of 240 0 0 0] assms by (subst in_cidr) simp_all
qed

lemma first_range_None: "first_range v rs = None \<longleftrightarrow> (\<forall>r\<in>set rs. (v AND r4_mask r) \<noteq> r4_base r)"
  by (induction rs) auto

lemma blocked_octets:
  assumes o: "octet a" "octet b" "octet c" "octet d"
  shows "first_range (of_nat (ipv4_number a b c d)) BLOCKED_IPV4 = None \<longleftrightarrow> \<not> non_public4 a b c d"
proof -
  let ?n = "ipv4_number a b c d"
  let ?blocked = "(a = 169 \<and> b = 254 \<and> c = 169 \<and> d = 254) \<or> (a = 100 \<and> b = 100 \<and> c = 100 \<and> d = 200) \<or>
    (a = 255 \<and> b = 255 \<and> c = 255 \<and> d = 255) \<or> a = 0 \<or> a = 10 \<or>
    (a = 100 \<and> 64 \<le> b \<and> b \<le> 127) \<or> a = 127 \<or> (a = 169 \<and> b = 254) \<or>
    (a = 172 \<and> 16 \<le> b \<and> b \<le> 31) \<or> (a = 192 \<and> b = 0 \<and> c = 0) \<or>
    (a = 192 \<and> b = 0 \<and> c = 2) \<or> (a = 192 \<and> b = 88 \<and> c = 99) \<or> (a = 192 \<and> b = 168) \<or>
    (a = 198 \<and> (b = 18 \<or> b = 19)) \<or> (a = 198 \<and> b = 51 \<and> c = 100) \<or>
    (a = 203 \<and> b = 0 \<and> c = 113) \<or> (224 \<le> a \<and> a < 240) \<or> 240 \<le> a"
  have "first_range (of_nat ?n) BLOCKED_IPV4 = None \<longleftrightarrow> list_all (\<lambda>r. \<not> in_range4 ?n r) BLOCKED_IPV4"
    by (simp add: first_range_None in_range4_def list_all_iff)
  also have "\<dots> \<longleftrightarrow> \<not> ?blocked"
    unfolding BLOCKED_IPV4_ranges list.pred_inject
    by (simp only: cidr_partial [OF o] cidr8 [OF o, where a' = 0, simplified] cidr8 [OF o, where a' = 10, simplified]
      cidr8 [OF o, where a' = 127, simplified] cidr16 [OF o, where a' = 169 and b' = 254, simplified]
      cidr16 [OF o, where a' = 192 and b' = 168, simplified]
      cidr24 [OF o, where a' = 192 and b' = 0 and c' = 0, simplified]
      cidr24 [OF o, where a' = 192 and b' = 0 and c' = 2, simplified]
      cidr24 [OF o, where a' = 192 and b' = 88 and c' = 99, simplified]
      cidr24 [OF o, where a' = 198 and b' = 51 and c' = 100, simplified]
      cidr24 [OF o, where a' = 203 and b' = 0 and c' = 113, simplified]
      cidr32 [OF o, where a' = 169 and b' = 254 and c' = 169 and d' = 254, simplified]
      cidr32 [OF o, where a' = 100 and b' = 100 and c' = 100 and d' = 200, simplified]
      cidr32 [OF o, where a' = 255 and b' = 255 and c' = 255 and d' = 255, simplified] list.pred_inject(1) simp_thms de_Morgan_disj)
  also have "?blocked \<longleftrightarrow> non_public4 a b c d"
  proof
    show "?blocked \<Longrightarrow> non_public4 a b c d"
      by (elim disjE) (simp_all add: non_public4_def)
    show "non_public4 a b c d \<Longrightarrow> ?blocked"
      unfolding non_public4_def by (elim disjE conjE) (simp_all, linarith)
  qed
  finally show ?thesis .
qed

section \<open>IPv6 groups\<close>

text \<open>Masking the high bits of a group is rounding it down.\<close>

lemma and_high_bits:
  assumes "g < 2 ^ (k + m)"
  shows "(g AND push_bit k (mask m)) = c * 2 ^ k \<longleftrightarrow> c * 2 ^ k \<le> g \<and> g < c * 2 ^ k + (2 :: nat) ^ k"
proof -
  have "g AND push_bit k (mask m) = push_bit k (take_bit m (drop_bit k g))"
    by (intro bit_eqI) (auto simp: bit_simps)
  also have "take_bit m (drop_bit k g) = g div 2 ^ k"
    using assms by (simp add: drop_bit_eq_div take_bit_nat_eq_self_iff less_mult_imp_div_less power_add mult.commute)
  finally show ?thesis by (simp add: push_bit_eq_mult div_nat_interval)
qed

lemma group_prefixes:
  assumes "g < 65536"
  shows "(g AND 0xffc0) = 0xfe80 \<longleftrightarrow> 0xfe80 \<le> g \<and> g \<le> 0xfebf"
    and "(g AND 0xfe00) = 0xfc00 \<longleftrightarrow> 0xfc00 \<le> g \<and> g \<le> 0xfdff"
    and "(g AND 0xff00) = 0xff00 \<longleftrightarrow> 0xff00 \<le> (g :: nat)"
  using and_high_bits [of g 6 10 1018] and_high_bits [of g 9 7 126] and_high_bits [of g 8 8 255] assms
  by (auto simp: push_bit_eq_mult mask_eq_exp_minus_1)

lemma embedded_octets:
  "g6 < 65536 \<Longrightarrow> g7 < 65536 \<Longrightarrow>
     embedded_text g6 g7 = dotted (g6 div 256) (g6 mod 256) (g7 div 256) (g7 mod 256)"
proof -
  have m: "(n AND 0xff) = n mod 256" for n :: nat
    using take_bit_eq_mask [of 8 n] by (simp add: mask_eq_exp_minus_1 take_bit_eq_mod)
  assume "g6 < 65536" "g7 < 65536"
  then have "g6 div 256 mod 256 = g6 div 256" "g7 div 256 mod 256 = g7 div 256" by simp_all
  then show ?thesis by (simp add: embedded_text_def dotted_def m drop_bit_eq_div)
qed


definition groups_ok :: "nat list \<Rightarrow> bool" where
  "groups_ok gs \<longleftrightarrow> length gs = 8 \<and> list_all (\<lambda>g. g < 65536) gs"



text \<open>
  The group patterns that are not public unicast: an embedded IPv4 address that is not,
  link-local, unique local, multicast, documentation and discard-only.
\<close>

definition non_public6 :: "nat list \<Rightarrow> bool" where
  "non_public6 gs \<longleftrightarrow>
     take 5 gs = [0, 0, 0, 0, 0] \<and> (gs ! 5 = 0 \<or> gs ! 5 = 0xffff) \<and>
       non_public4 (gs ! 6 div 256) (gs ! 6 mod 256) (gs ! 7 div 256) (gs ! 7 mod 256) \<or>
     0xfe80 \<le> gs ! 0 \<and> gs ! 0 \<le> 0xfebf \<or>
     0xfc00 \<le> gs ! 0 \<and> gs ! 0 \<le> 0xfdff \<or>
     0xff00 \<le> gs ! 0 \<or>
     gs ! 0 = 0x2001 \<and> gs ! 1 = 0x0db8 \<or>
     take 4 gs = [0x100, 0, 0, 0]"

lemma classifyIpv4_dotted:
  "octet a \<Longrightarrow> octet b \<Longrightarrow> octet c \<Longrightarrow> octet d \<Longrightarrow>
     ip_safe (classifyIpv4 (dotted a b c d)) \<longleftrightarrow> \<not> non_public4 a b c d"
  using blocked_octets [of a b c d]
  by (cases "first_range (of_nat (ipv4_number a b c d)) BLOCKED_IPV4")
     (simp_all add: classifyIpv4_def parse_dotted)


lemma classify_groups_safe:
  assumes "groups_ok gs"
  shows "ip_safe (classify_groups gs) \<longleftrightarrow> \<not> non_public6 gs"
proof -
  obtain g0 g1 g2 g3 g4 g5 g6 g7 where gs: "gs = [g0, g1, g2, g3, g4, g5, g6, g7]"
  proof -
    have "length gs = 8" using assms by (simp add: groups_ok_def)
    then show ?thesis using that by (auto simp: numeral_eq_Suc length_Suc_conv)
  qed
  have lt: "g0 < 65536" "g5 < 65536" "g6 < 65536" "g7 < 65536" using assms by (simp_all add: groups_ok_def gs)
  have nested: "ip_safe (classifyIpv4 (embedded_text g6 g7)) \<longleftrightarrow>
      \<not> non_public4 (g6 div 256) (g6 mod 256) (g7 div 256) (g7 mod 256)"
    using lt classifyIpv4_dotted by (simp add: embedded_octets)
  have zero: "non_public4 0 b c d" for b c d by (simp add: non_public4_def)
  show ?thesis
  proof (cases "take 5 gs = [0, 0, 0, 0, 0] \<and> (g5 = 0 \<or> g5 = 0xffff)")
    case True
    then have z: "g0 = 0" "g1 = 0" "g2 = 0" "g3 = 0" "g4 = 0" and g5: "g5 = 0 \<or> g5 = 0xffff"
      by (simp_all add: gs)
    have np: "non_public6 gs \<longleftrightarrow> non_public4 (g6 div 256) (g6 mod 256) (g7 div 256) (g7 mod 256)"
      using g5 by (simp add: non_public6_def gs z)
    show ?thesis
      using g5 nested zero unfolding np
      by (cases "g5 = 0 \<and> g6 = 0 \<and> g7 = 0"; cases "g5 = 0 \<and> g6 = 0 \<and> g7 = 1")
         (auto simp: gs z classify_groups_def all_zero_def Let_def)
  next
    case False
    then have z: "\<not> all_zero gs" "\<not> all_zero (take 7 gs)" "\<not> all_zero (take 6 gs)"
      "\<not> (all_zero (take 5 gs) \<and> gs ! 5 = 0xffff)"
      by (auto simp: gs all_zero_def)
    have d: "all_zero (take 3 (drop 1 gs)) \<and> g0 = 0x100 \<longleftrightarrow> take 4 gs = [0x100, 0, 0, 0]"
      by (auto simp: gs all_zero_def)
    have n: "gs ! 0 = g0" "gs ! 1 = g1" "gs ! 5 = g5" by (simp_all add: gs)
    have np: "non_public6 gs \<longleftrightarrow> 0xfe80 \<le> g0 \<and> g0 \<le> 0xfebf \<or> 0xfc00 \<le> g0 \<and> g0 \<le> 0xfdff \<or> 0xff00 \<le> g0 \<or>
        g0 = 0x2001 \<and> g1 = 0x0db8 \<or> all_zero (take 3 (drop 1 gs)) \<and> g0 = 0x100"
      unfolding d non_public6_def n using False by blast
    show ?thesis
      unfolding np classify_groups_def Let_def n(1,2)
      by (simp only: z group_prefixes [OF lt(1)] simp_thms if_False) (simp; blast)
  qed
qed

section \<open>IPv4-mapped texts\<close>

definition plain :: "char \<Rightarrow> bool" where
  "plain c \<longleftrightarrow> is_hex c \<or> c = CHR '':'' \<or> c = CHR ''.''"

lemma plain_text:
  assumes "list_all plain s"
  shows "cut_before CHR ''%'' (toLowerCase (trim s)) = s"
proof -
  have c: "\<not> is_space c \<and> \<not> is_upper c \<and> c \<noteq> CHR ''%''" if "plain c" for c
    using that by (auto simp: plain_def is_hex_def is_digit_def is_space_def is_upper_def)
  have "trim s = s" using assms c by (intro trim_id) (auto simp: list_all_iff)
  moreover have "toLowerCase s = s" using assms c by (intro toLowerCase_id) (auto simp: list_all_iff)
  moreover have "cut_before CHR ''%'' s = s" using assms c by (intro cut_before_id) (auto simp: list_all_iff)
  ultimately show ?thesis by simp
qed

lemma dotted_plain: "list_all plain (dotted a b c d)" and dotted_no_colon: "CHR '':'' \<notin> set (dotted a b c d)"
  using show_nat_list_all [unfolded list_all_iff]
  by (auto simp: dotted_def list_all_iff plain_def is_hex_def show_nat_no_sep)

lemma dotted_dot: "CHR ''.'' \<in> set (dotted a b c d)"
  by (simp add: dotted_def)

lemma digit_char_hex: "d < 16 \<Longrightarrow> is_hex (digit_char d)"
  by (auto simp: is_hex_def is_digit_char digit_char_code)

lemma hex4_group:
  assumes "unat w < 65536"
  shows "hex_group (hex4 w)" and "read_base 16 (hex4 w) = unat w"
proof -
  let ?s = "show_base 16 (unat w)"
  have "length ?s \<le> 4" using length_show_base [of 16 "unat w" 3] assms by simp
  moreover have "list_all is_hex ?s"
    using show_base_digits [of 16 _ "unat w"] digit_char_hex by (fastforce simp: list_all_iff)
  moreover have "is_hex CHR ''0''" by code_simp
  moreover have "1 \<le> length ?s" by (simp add: Suc_leI)
  ultimately show "hex_group (hex4 w)"
    by (auto simp: hex_group_def hex4_def pad_start_def list_all_iff)
  show "read_base 16 (hex4 w) = unat w"
    by (simp add: hex4_def pad_start_def read_pad_zero read_show_base)
qed

lemma hex_group_no_colon: "hex_group t \<Longrightarrow> CHR '':'' \<notin> set t"
  by (auto simp: hex_group_def list_all_iff is_hex_def is_digit_def)

lemma count_colon_free: "CHR '':'' \<notin> set s \<Longrightarrow> count_double_colon s = 0"
  by (induction s rule: count_double_colon.induct) auto

lemma count_colon_one:
  "CHR '':'' \<notin> set s \<Longrightarrow> CHR '':'' \<notin> set t \<Longrightarrow> t \<noteq> [] \<Longrightarrow> count_double_colon (s @ CHR '':'' # t) = 0"
proof (induction s rule: count_double_colon.induct)
  case 1
  then show ?case by (cases t) (auto simp: count_colon_free)
next
  case (2 c)
  then show ?case by (cases t) (auto simp: count_colon_free)
qed auto

lemma mapped_text:
  assumes "octet a" "octet b" "octet c" "octet d"
  shows "parseIpv6 (''::ffff:'' @ dotted a b c d) = Some [0, 0, 0, 0, 0, 0xffff, a * 256 + b, c * 256 + d]"
proof -
  let ?n = "ipv4_number a b c d"
  let ?w = "of_nat ?n :: 32 word"
  let ?h = "hex4 (drop_bit 16 ?w AND 0xffff)" and ?l = "hex4 (?w AND 0xffff)"
  have n: "unat ?w = ?n" using ipv4_number_less [OF assms] by (simp add: unsigned_of_nat take_bit_nat_eq_self)
  have m: "unat (v AND 0xffff) = unat v mod 65536" for v :: "32 word"
    using take_bit_eq_mask [of 16 "unat v"]
    by (simp add: unsigned_and_eq mask_eq_exp_minus_1 take_bit_eq_mod)
  have hi: "unat (drop_bit 16 ?w AND 0xffff) = a * 256 + b"
    using number_div(2) [OF assms] assms by (simp only: m unat_drop_bit_eq n) (simp only: drop_bit_eq_div, simp)
  have lo: "unat (?w AND 0xffff) = c * 256 + d"
  proof -
    have "?n = (c * 256 + d) + (a * 256 + b) * 65536" by (simp add: ipv4_number_def)
    then have "?n mod 65536 = (c * 256 + d) mod 65536" by (simp only: mod_mult_self1)
    then show ?thesis using assms by (simp only: m n) simp
  qed
  have lt: "a * 256 + b < 65536" "c * 256 + d < 65536" using assms by simp_all
  have gh: "hex_group ?h" "read_base 16 ?h = a * 256 + b" and gl: "hex_group ?l" "read_base 16 ?l = c * 256 + d"
    using hex4_group [of "drop_bit 16 ?w AND 0xffff"] hex4_group [of "?w AND 0xffff"] lt hi lo by simp_all
  have ne: "?h \<noteq> []" "?l \<noteq> []" using gh(1) gl(1) by (auto simp: hex_group_def)
  note nc = hex_group_no_colon [OF gh(1)] hex_group_no_colon [OF gl(1)]
  have "list_all plain (''::ffff:'' @ dotted a b c d)"
    using dotted_plain [of a b c d] by (simp add: plain_def is_hex_def is_digit_def)
  note norm = plain_text [OF this]
  have "embed_ipv4 (''::ffff:'' @ dotted a b c d) = Some (''::ffff:'' @ ?h @ '':'' @ ?l)"
    using after_last_append [OF dotted_no_colon, of "''::ffff''" a b c d]
      upto_last_append [OF dotted_no_colon, of "''::ffff''" a b c d] dotted_dot
    by (simp add: embed_ipv4_def parse_dotted [OF assms])
  moreover have "ipv6_parts (''::ffff:'' @ ?h @ '':'' @ ?l) = Some ([], [''ffff'', ?h, ?l])"
  proof -
    have "count_double_colon (?h @ '':'' @ ?l) = 0"
      using count_colon_one [OF nc ne(2)] by simp
    moreover have "count_double_colon (CHR '':'' # ?h @ '':'' @ ?l) = count_double_colon (?h @ '':'' @ ?l)"
      using nc ne by (cases ?h) auto
    ultimately have "count_double_colon (''::ffff:'' @ ?h @ '':'' @ ?l) = 1" by simp
    moreover have "split_double_colon (''::ffff:'' @ ?h @ '':'' @ ?l) = ([], ''ffff:'' @ ?h @ '':'' @ ?l)"
      by simp
    moreover have "colon_parts (''ffff:'' @ ?h @ '':'' @ ?l) = [''ffff'', ?h, ?l]"
      using split_char_append [OF nc(1), of ?l] split_char_none [OF nc(2)] by (simp add: colon_parts_def)
    ultimately show ?thesis by (simp add: ipv6_parts_def colon_parts_def)
  qed
  moreover have "parse_groups [''ffff'', ?h, ?l] = Some [0xffff, a * 256 + b, c * 256 + d]"
    using gh gl by (simp add: hex_group_def [of "''ffff''"] is_hex_def is_digit_def read_base_def [of 16 "''ffff''"] digit_value_def)
  moreover have "replicate 5 (0 :: nat) = [0, 0, 0, 0, 0]" by (simp add: numeral_eq_Suc)
  ultimately show ?thesis
    using norm by (simp add: parseIpv6_def Let_def)
qed

lemma strip_brackets_plain: "hd s \<noteq> CHR ''['' \<Longrightarrow> last s \<noteq> CHR '']'' \<Longrightarrow> s \<noteq> [] \<Longrightarrow> strip_brackets s = s"
proof -
  assume h: "hd s \<noteq> CHR ''[''" and l: "last s \<noteq> CHR '']''" and ne: "s \<noteq> []"
  have "\<not> starts_with s ''[''" using h ne by (cases s) auto
  moreover have "\<not> ends_with s '']''"
    using l ne by (cases s rule: rev_cases) (auto simp: ends_with_def)
  ultimately show ?thesis by (simp add: strip_brackets_def)
qed

text \<open>
  Three kinds of address that are not public unicast and that the classifier calls public:
  the NAT64 form of 127.0.0.1, the 6to4 form of 10.0.0.1 and a site-local address.
\<close>

lemmas parse_literal = parseIpv6_def Let_def trim_def trim_start_def trim_end_def is_space_def
  toLowerCase_def lower_char_def is_upper_def cut_before_def embed_ipv4_def after_last_def
  ipv6_parts_def colon_parts_def hex_group_def is_hex_def is_digit_def read_base_def digit_value_def

lemma zero_groups: "replicate 4 (0 :: nat) = [0, 0, 0, 0]" "replicate 6 (0 :: nat) = [0, 0, 0, 0, 0, 0]"
  by (simp_all add: numeral_eq_Suc)

lemma transition_literals:
  "parseIpv6 ''64:ff9b::7f00:1'' = Some [0x64, 0xff9b, 0, 0, 0, 0, 0x7f00, 1]"
  "parseIpv6 ''2002:a00:1::1'' = Some [0x2002, 0xa00, 1, 0, 0, 0, 0, 1]"
  "parseIpv6 ''fec0::1'' = Some [0xfec0, 0, 0, 0, 0, 0, 0, 1]"
  by (simp_all add: parse_literal zero_groups)

theorem transition_addresses_public:
  "isPublicIp ''64:ff9b::7f00:1'' \<and> isPublicIp ''2002:a00:1::1'' \<and> isPublicIp ''fec0::1''"
proof -
  have "strip_brackets (trim s) = s" if "s \<in> {''64:ff9b::7f00:1'', ''2002:a00:1::1'', ''fec0::1''}" for s
    using that by (auto simp: strip_brackets_def trim_def trim_start_def trim_end_def is_space_def ends_with_def)
  then show ?thesis
    unfolding isPublicIp_def classifyIp_def Let_def
    using transition_literals classify_groups_safe by (simp add: classifyIpv6_def groups_ok_def non_public6_def)
qed

text \<open>A dotted quad and its mapped form go to the classifiers as they are.\<close>

lemma plain_literals:
  "strip_brackets (trim (dotted a b c d)) = dotted a b c d" (is ?d)
  "strip_brackets (trim (''::ffff:'' @ dotted a b c d)) = ''::ffff:'' @ dotted a b c d" (is ?m)
proof -
  let ?x = "dotted a b c d" and ?y = "''::ffff:'' @ dotted a b c d"
  have sp: "\<not> is_space c" if "plain c" for c
    using that by (auto simp: plain_def is_hex_def is_digit_def is_space_def)
  have pl: "list_all plain ?x" "list_all plain ?y"
    using dotted_plain [of a b c d] by (simp_all add: plain_def is_hex_def is_digit_def)
  then have trims: "trim ?x = ?x" "trim ?y = ?y" using sp by (auto intro!: trim_id simp: list_all_iff)
  have ne: "?x \<noteq> []" using dotted_dot by (metis empty_iff list.set(1))
  have "\<not> plain CHR ''[''" "\<not> plain CHR '']''" by code_simp+
  then have "hd ?x \<noteq> CHR ''[''" "last ?x \<noteq> CHR '']''" "hd ?y \<noteq> CHR ''[''" "last ?y \<noteq> CHR '']''"
    using pl ne unfolding list_all_iff by (metis hd_in_set last_in_set append_is_Nil_conv)+
  then show ?d ?m
    using ne by (simp_all only: trims strip_brackets_plain append_is_Nil_conv simp_thms)
qed

lemma isPublicIp_dotted:
  "octet a \<Longrightarrow> octet b \<Longrightarrow> octet c \<Longrightarrow> octet d \<Longrightarrow>
     isPublicIp (dotted a b c d) \<longleftrightarrow> \<not> non_public4 a b c d"
  unfolding isPublicIp_def classifyIp_def Let_def plain_literals
  using dotted_no_colon classifyIpv4_dotted dotted_dot [of a b c d] by force

section \<open>Properties\<close>

text \<open>
  The IPv4 parser accepts exactly the canonical dotted quads (four decimal octets, no
  leading zero, nothing around them) and reads each as its 32-bit number.
\<close>

theorem parseIpv4_canonical:
  "parseIpv4 s = Some w \<longleftrightarrow>
     (\<exists>a b c d. octet a \<and> octet b \<and> octet c \<and> octet d \<and> s = dotted a b c d \<and>
        w = of_nat (ipv4_number a b c d))"
proof
  show "\<exists>a b c d. octet a \<and> octet b \<and> octet c \<and> octet d \<and> s = dotted a b c d \<and>
      w = of_nat (ipv4_number a b c d)" if "parseIpv4 s = Some w"
    using parse_canonical [OF that] by metis
qed (auto simp: parse_dotted)


text \<open>
  An IPv4-mapped IPv6 literal cannot get around the IPv4 block list: \<open>::ffff:a.b.c.d\<close> is
  public iff \<open>a.b.c.d\<close> is.
\<close>

theorem ipv4_mapped_classified:
  assumes "octet a" "octet b" "octet c" "octet d"
  shows "isPublicIp (''::ffff:'' @ dotted a b c d) \<longleftrightarrow> isPublicIp (dotted a b c d)"
proof -
  have g: "groups_ok [0, 0, 0, 0, 0, 0xffff, a * 256 + b, c * 256 + d]"
    using assms by (simp add: groups_ok_def)
  have "isPublicIp (''::ffff:'' @ dotted a b c d) \<longleftrightarrow> \<not> non_public6 [0, 0, 0, 0, 0, 0xffff, a * 256 + b, c * 256 + d]"
    unfolding isPublicIp_def classifyIp_def Let_def plain_literals
    using classify_groups_safe [OF g] mapped_text [OF assms] by (simp add: classifyIpv6_def)
  also have "\<dots> \<longleftrightarrow> \<not> non_public4 a b c d" using assms by (simp add: non_public6_def)
  finally show ?thesis using isPublicIp_dotted [OF assms] by simp
qed

theorem ipv4_mapped_classified_witness:
  "isPublicIp (''::ffff:'' @ dotted 127 0 0 1) \<longleftrightarrow> isPublicIp (dotted 127 0 0 1)"
  by (rule ipv4_mapped_classified) simp_all

end
