(* ===== verification/Ssrf.thy ===== *)
theory Ssrf
  imports Ip
begin

text \<open>
  The SSRF guard of \<open>packages/security/src/ssrf.ts\<close>: URL and DNS policy, the pinned
  lookup and redirect validation. The URL parser of the platform and the DNS resolver
  are parameters: \<open>parse\<close> gives the parts of a URL text or None where the constructor
  throws, \<open>lookup\<close> a list of address records or an error with
  its message, if it has one. Nothing is assumed of either.
\<close>

record ssrf_policy =
  sp_allowHttp :: bool
  sp_hostAllowlist :: "string list"
  sp_maxRedirects :: nat
  sp_extraPorts :: "nat list option"

definition DEFAULT_SSRF_POLICY :: ssrf_policy where
  "DEFAULT_SSRF_POLICY = \<lparr>sp_allowHttp = False, sp_hostAllowlist = [], sp_maxRedirects = 3, sp_extraPorts = None\<rparr>"

datatype ssrf_code =
  INVALID_URL | PROTOCOL_NOT_ALLOWED | CREDENTIALS_IN_URL | PORT_NOT_ALLOWED | HOST_NOT_ALLOWED
  | HOSTNAME_INVALID | DNS_RESOLUTION_FAILED | BLOCKED_ADDRESS

record ssrf_error =
  se_code :: ssrf_code
  se_message :: string
  se_detail :: "string option"

text \<open>The parts of a parsed URL that the code reads; \<open>url_href\<close> is its text.\<close>

record url =
  url_href :: string
  url_protocol :: string
  url_username :: string
  url_password :: string
  url_port :: string
  url_hostname :: string

type_synonym address = "string \<times> nat"

record ssrf_result =
  sr_url :: url
  sr_addresses :: "address list"
  sr_wasLiteralIp :: bool

definition DEFAULT_ALLOWED_PORTS :: "nat list" where
  "DEFAULT_ALLOWED_PORTS = [80, 443, 8080, 8443]"

definition BLOCKED_HOSTNAMES :: "string list" where
  "BLOCKED_HOSTNAMES =
    [''localhost'', ''localhost.localdomain'', ''ip6-localhost'', ''ip6-loopback'', ''metadata'',
     ''metadata.google.internal'', ''metadata.goog'', ''instance-data'', ''instance-data.ec2.internal'']"

definition BLOCKED_HOST_SUFFIXES :: "string list" where
  "BLOCKED_HOST_SUFFIXES =
    [''.localhost'', ''.local'', ''.internal'', ''.intranet'', ''.private'', ''.corp'', ''.home'', ''.lan'']"

definition strip_wildcard :: "string \<Rightarrow> string" where
  "strip_wildcard s = (if starts_with s ''*.'' then drop 2 s else s)"

definition hostMatchesAllowlist :: "string \<Rightarrow> string list \<Rightarrow> bool" where
  "hostMatchesAllowlist hostname allowlist =
     (let host = toLowerCase hostname in
      list_ex (\<lambda>entry. let allowed = strip_wildcard (toLowerCase entry) in
                 host = allowed \<or> ends_with host (''.'' @ allowed)) allowlist)"

definition quoted :: "string \<Rightarrow> string" where
  "quoted s = [CHR 0x22] @ s @ [CHR 0x22]"

definition deny :: "ssrf_code \<Rightarrow> string \<Rightarrow> ssrf_error + 'a" where
  "deny c m = Inl \<lparr>se_code = c, se_message = m, se_detail = None\<rparr>"

definition deny_with :: "ssrf_code \<Rightarrow> string \<Rightarrow> string \<Rightarrow> ssrf_error + 'a" where
  "deny_with c m d = Inl \<lparr>se_code = c, se_message = m, se_detail = Some d\<rparr>"

definition strip_dot :: "string \<Rightarrow> string" where
  "strip_dot s = (if ends_with s ''.'' then butlast s else s)"

definition literal_ip_text :: "string \<Rightarrow> bool" where
  "literal_ip_text hostname \<longleftrightarrow>
     (let body = strip_brackets hostname in
      body \<noteq> [] \<and> list_all (\<lambda>c. is_hex c \<or> c = CHR '':'' \<or> c = CHR ''.'') body) \<and>
     (CHR ''.'' \<in> set hostname \<or> CHR '':'' \<in> set hostname)"

definition url_port_number :: "url \<Rightarrow> nat" where
  "url_port_number u =
     (if url_port u = [] then (if toLowerCase (url_protocol u) = ''https:'' then 443 else 80)
      else read_nat (url_port u))"

text \<open>Steps 2 to 6 of the validation: everything that needs no address.\<close>

definition check_url :: "url \<Rightarrow> ssrf_policy \<Rightarrow> ssrf_error + string" where
  "check_url u policy =
     (let protocol = toLowerCase (url_protocol u); port = url_port_number u;
          hostname = strip_dot (toLowerCase (url_hostname u)) in
      if protocol \<noteq> ''https:'' \<and> protocol \<noteq> ''http:''
      then deny PROTOCOL_NOT_ALLOWED
        (''Protocol '' @ quoted (url_protocol u) @ '' is not allowed. Use https://.'')
      else if protocol = ''http:'' \<and> \<not> sp_allowHttp policy
      then deny PROTOCOL_NOT_ALLOWED ''Plain http:// is disabled. Use https:// instead.''
      else if url_username u \<noteq> [] \<or> url_password u \<noteq> []
      then deny CREDENTIALS_IN_URL
        ''Credentials must not be embedded in the URL. Use the Auth tab instead.''
      else if port \<notin> set (DEFAULT_ALLOWED_PORTS @ (case sp_extraPorts policy of None \<Rightarrow> [] | Some ps \<Rightarrow> ps))
      then deny PORT_NOT_ALLOWED (''Port '' @ show_nat port @ '' is not allowed.'')
      else if hostname = [] \<or> 253 < length hostname
      then deny HOSTNAME_INVALID ''The hostname is missing or too long.''
      else if hostname \<in> set BLOCKED_HOSTNAMES
      then deny HOST_NOT_ALLOWED (''Requests to '' @ quoted hostname @ '' are blocked.'')
      else if list_ex (\<lambda>suffix. ends_with hostname suffix) BLOCKED_HOST_SUFFIXES
      then deny HOST_NOT_ALLOWED (''Internal hostnames like '' @ quoted hostname @ '' are blocked.'')
      else if CHR ''.'' \<notin> set hostname \<and> \<not> literal_ip_text hostname
      then deny HOST_NOT_ALLOWED (quoted hostname @ '' is not a public hostname.'')
      else if sp_hostAllowlist policy \<noteq> [] \<and> \<not> hostMatchesAllowlist hostname (sp_hostAllowlist policy)
      then deny HOST_NOT_ALLOWED (quoted hostname @ '' is not on the configured allowlist.'')
      else Inr hostname)"

definition reason_message :: "classification \<Rightarrow> string" where
  "reason_message c = (case ip_reason c of Some r \<Rightarrow> ip_block_message r | None \<Rightarrow> ''undefined'')"

text \<open>Step 8: every record must be public; the first that is not decides the error.\<close>

fun check_records :: "string \<Rightarrow> address list \<Rightarrow> ssrf_error + address list" where
  "check_records hostname [] = Inr []"
| "check_records hostname ((a, family) # rs) =
     (let c = classifyIp a in
      if \<not> ip_safe c
      then deny_with BLOCKED_ADDRESS (quoted hostname @ '' '' @ reason_message c @ ''.'') a
      else case check_records hostname rs of
             Inl e \<Rightarrow> Inl e
           | Inr as \<Rightarrow> Inr ((a, if family = 6 then 6 else 4) # as))"

definition validateTargetUrl ::
  "(string \<Rightarrow> url option) \<Rightarrow> (string \<Rightarrow> string option + address list) \<Rightarrow> string \<Rightarrow> ssrf_policy \<Rightarrow>
     ssrf_error + ssrf_result" where
  "validateTargetUrl parse lookup rawUrl policy =
     (case parse rawUrl of
        None \<Rightarrow> deny_with INVALID_URL ''The URL could not be parsed.'' (take 200 rawUrl)
      | Some u \<Rightarrow>
          (case check_url u policy of
             Inl e \<Rightarrow> Inl e
           | Inr hostname \<Rightarrow>
               (let bare = strip_brackets hostname; literal = classifyIp bare in
                case ip_version literal of
                  Some version \<Rightarrow>
                    if \<not> ip_safe literal
                    then deny_with BLOCKED_ADDRESS (''The target '' @ reason_message literal @ ''.'') bare
                    else Inr \<lparr>sr_url = u, sr_addresses = [(bare, version)], sr_wasLiteralIp = True\<rparr>
                | None \<Rightarrow>
                    (case lookup hostname of
                       Inl msg \<Rightarrow>
                         Inl \<lparr>se_code = DNS_RESOLUTION_FAILED,
                              se_message = ''Could not resolve '' @ quoted hostname @ ''.'', se_detail = msg\<rparr>
                     | Inr records \<Rightarrow>
                         if records = []
                         then deny DNS_RESOLUTION_FAILED (quoted hostname @ '' did not resolve to any address.'')
                         else case check_records hostname records of
                                Inl e \<Rightarrow> Inl e
                              | Inr addresses \<Rightarrow>
                                  Inr \<lparr>sr_url = u, sr_addresses = addresses, sr_wasLiteralIp = False\<rparr>))))"

section \<open>The pinned lookup\<close>

text \<open>What the callback gets: an error, all addresses, or one.\<close>

datatype lookup_reply = NotFound | All "address list" | One address

definition pinned_addresses :: "address list \<Rightarrow> address list" where
  "pinned_addresses addresses = filter (\<lambda>(a, family). ip_safe (classifyIp a)) addresses"

definition createPinnedLookup :: "address list \<Rightarrow> string \<Rightarrow> bool \<Rightarrow> lookup_reply" where
  "createPinnedLookup addresses hostname wantsAll =
     (case pinned_addresses addresses of
        [] \<Rightarrow> NotFound
      | first # rest \<Rightarrow> if wantsAll then All (first # rest) else One first)"

text \<open>Redirects: \<open>resolve\<close> is the URL constructor with a base; None where it throws.\<close>

definition validateRedirect ::
  "(string \<Rightarrow> url option) \<Rightarrow> (string \<Rightarrow> url \<Rightarrow> url option) \<Rightarrow> (string \<Rightarrow> string option + address list) \<Rightarrow>
     string \<Rightarrow> url \<Rightarrow> ssrf_policy \<Rightarrow> (ssrf_error + ssrf_result) option" where
  "validateRedirect parse resolve lookup location currentUrl policy =
     (case resolve location currentUrl of
        None \<Rightarrow> None
      | Some u \<Rightarrow> Some (validateTargetUrl parse lookup (url_href u) policy))"

section \<open>What validation guarantees\<close>

text \<open>The URL rules, as a property of the parsed URL.\<close>

definition url_permitted :: "url \<Rightarrow> ssrf_policy \<Rightarrow> bool" where
  "url_permitted u policy \<longleftrightarrow>
     (toLowerCase (url_protocol u) = ''https:'' \<or>
      toLowerCase (url_protocol u) = ''http:'' \<and> sp_allowHttp policy) \<and>
     url_username u = [] \<and> url_password u = [] \<and>
     (url_port_number u \<in> set DEFAULT_ALLOWED_PORTS \<or>
      (\<exists>ps. sp_extraPorts policy = Some ps \<and> url_port_number u \<in> set ps)) \<and>
     (let host = strip_dot (toLowerCase (url_hostname u)) in
      host \<noteq> [] \<and> length host \<le> 253 \<and> host \<notin> set BLOCKED_HOSTNAMES \<and>
      (\<forall>suffix\<in>set BLOCKED_HOST_SUFFIXES. \<not> (\<exists>p. host = p @ suffix)) \<and>
      (sp_hostAllowlist policy = [] \<or>
       (\<exists>entry\<in>set (sp_hostAllowlist policy).
          toLowerCase host = strip_wildcard (toLowerCase entry) \<or>
          (\<exists>p. toLowerCase host = p @ ''.'' @ strip_wildcard (toLowerCase entry)))))"

lemma ends_with_append: "ends_with s p \<longleftrightarrow> (\<exists>t. s = t @ p)"
  unfolding ends_with_def starts_with_append by (metis rev_append rev_rev_ident)

lemma check_url_permitted:
  assumes "check_url u policy = Inr h"
  shows "url_permitted u policy" and "h = strip_dot (toLowerCase (url_hostname u))"
  using assms
  by (auto simp: check_url_def Let_def deny_def url_permitted_def list_ex_iff ends_with_append
      hostMatchesAllowlist_def split: if_splits option.splits)

lemma check_records_ok:
  "check_records h rs = Inr as \<Longrightarrow>
     map fst as = map fst rs \<and> (\<forall>a\<in>set as. isPublicIp (fst a) \<and> snd a \<in> {4, 6})"
  by (induction rs arbitrary: as)
     (fastforce simp: Let_def isPublicIp_def deny_with_def split: if_splits sum.splits)+

lemma pinned_all:
  "\<forall>a\<in>set as. isPublicIp (fst a) \<Longrightarrow> pinned_addresses as = as"
  by (auto simp: pinned_addresses_def isPublicIp_def filter_id_conv)

lemma ssrf_validated_safe_lemma:
  assumes "validateTargetUrl parse lookup rawUrl policy = Inr r"
  shows "parse rawUrl = Some (sr_url r) \<and> url_permitted (sr_url r) policy \<and>
    sr_addresses r \<noteq> [] \<and> (\<forall>a\<in>set (sr_addresses r). isPublicIp (fst a)) \<and>
    (let host = strip_dot (toLowerCase (url_hostname (sr_url r))) in
     if sr_wasLiteralIp r then map fst (sr_addresses r) = [strip_brackets host]
     else \<exists>records. lookup host = Inr records \<and> map fst (sr_addresses r) = map fst records)"
proof -
  obtain u h where u: "parse rawUrl = Some u" and c: "check_url u policy = Inr h"
    using assms by (auto simp: validateTargetUrl_def deny_with_def split: option.splits sum.splits)
  note p = check_url_permitted [OF c]
  show ?thesis
  proof (cases "ip_version (classifyIp (strip_brackets h))")
    case None
    then obtain records as where "lookup h = Inr records" "records \<noteq> []" "check_records h records = Inr as"
      "r = \<lparr>sr_url = u, sr_addresses = as, sr_wasLiteralIp = False\<rparr>"
      using assms u c by (auto simp: validateTargetUrl_def Let_def deny_with_def deny_def split: sum.splits if_splits)
    then show ?thesis using p u check_records_ok [of h records as] by auto
  next
    case (Some v)
    then show ?thesis
      using assms u c p by (auto simp: validateTargetUrl_def Let_def deny_with_def isPublicIp_def split: if_splits)
  qed
qed

section \<open>Properties\<close>


definition demo_url :: url where
  "demo_url = \<lparr>url_href = ''https://api.example.com/v1'', url_protocol = ''https:'', url_username = [],
     url_password = [], url_port = [], url_hostname = ''api.example.com''\<rparr>"

lemma demo_check: "check_url demo_url DEFAULT_SSRF_POLICY = Inr ''api.example.com''"
  by code_simp

lemma demo_public: "isPublicIp (dotted 93 184 216 34)"
  by (subst isPublicIp_dotted) (simp_all add: non_public4_def)

lemma demo_version: "ip_version (classifyIp (strip_brackets ''api.example.com'')) = None"
  by (simp add: strip_brackets_def ends_with_def classifyIp_def trim_def trim_start_def trim_end_def
      is_space_def classifyIpv4_def parseIpv4_def)

text \<open>A resolver that answers with one public address, and the validation it leads to.\<close>

definition demo_lookup :: "string \<Rightarrow> string option + address list" where
  "demo_lookup host = Inr [(dotted 93 184 216 34, 4)]"

lemma demo_validated:
  "validateTargetUrl (\<lambda>_. Some demo_url) demo_lookup ''https://api.example.com/v1'' DEFAULT_SSRF_POLICY =
     Inr \<lparr>sr_url = demo_url, sr_addresses = [(dotted 93 184 216 34, 4)], sr_wasLiteralIp = False\<rparr>"
  using demo_check demo_version demo_public
  by (simp add: validateTargetUrl_def demo_lookup_def isPublicIp_def)


text \<open>
  The socket goes only where validation looked: built from a validated target, the
  pinned lookup never fails and answers, for any host name and so for any later DNS answer,
  with the validated addresses and nothing else, all of them public.
\<close>

theorem pinned_lookup_validated:
  assumes "validateTargetUrl parse lookup rawUrl policy = Inr r"
  shows "createPinnedLookup (sr_addresses r) host wantsAll =
      (if wantsAll then All (sr_addresses r) else One (hd (sr_addresses r))) \<and>
    (\<forall>a\<in>set (sr_addresses r). isPublicIp (fst a))"
proof
  note safe = ssrf_validated_safe_lemma [OF assms]
  show "createPinnedLookup (sr_addresses r) host wantsAll =
      (if wantsAll then All (sr_addresses r) else One (hd (sr_addresses r)))"
    using safe pinned_all [of "sr_addresses r"]
    by (cases "sr_addresses r") (simp_all add: createPinnedLookup_def)
  show "\<forall>a\<in>set (sr_addresses r). isPublicIp (fst a)" using safe by blast
qed

theorem pinned_lookup_validated_witness:
  "createPinnedLookup [(dotted 93 184 216 34, 4)] ''evil.example'' False = One (dotted 93 184 216 34, 4)"
  using pinned_lookup_validated [OF demo_validated, of "''evil.example''" False] by simp

end
