(* ===== verification/UnionFind.thy ===== *)
theory UnionFind
  imports Prelude "HOL-Library.Monad_Syntax"
begin

text \<open>
  Disjoint sets with path compression and union by rank, and the duplicate clustering built
  on them (\<open>packages/algorithms/src/union-find.ts\<close>). The loops of \<open>find\<close> are partial
  functions, None when they would not end; the rank invariant shows that they end. A
  structure is related to the pairs united in it by its representative function.
\<close>

record 'k uf =
  uf_parent :: "('k, 'k) jsmap"
  uf_rank :: "('k, nat) jsmap"
  uf_components :: int

definition uf_empty :: "'k uf" where
  "uf_empty = \<lparr>uf_parent = [], uf_rank = [], uf_components = 0\<rparr>"

definition uf_makeSet :: "'k \<Rightarrow> 'k uf \<Rightarrow> 'k uf" where
  "uf_makeSet i u =
     (if jm_has (uf_parent u) i then u
      else \<lparr>uf_parent = jm_set i i (uf_parent u), uf_rank = jm_set i 0 (uf_rank u),
            uf_components = uf_components u + 1\<rparr>)"

definition uf_new :: "'k list \<Rightarrow> 'k uf" where
  "uf_new initial = fold uf_makeSet initial uf_empty"

definition uf_size :: "'k uf \<Rightarrow> nat" where
  "uf_size u = length (uf_parent u)"

partial_function (option) uf_root :: "('k, 'k) jsmap \<Rightarrow> 'k \<Rightarrow> 'k option" where
  "uf_root p top_id =
     (case jm_get p top_id of
        None \<Rightarrow> None
      | Some next \<Rightarrow> if next = top_id then Some top_id else uf_root p next)"

partial_function (option) uf_compress :: "('k, 'k) jsmap \<Rightarrow> 'k \<Rightarrow> 'k \<Rightarrow> ('k, 'k) jsmap option" where
  "uf_compress p top_id current =
     (if current = top_id then Some p
      else case jm_get p current of
             None \<Rightarrow> None
           | Some next \<Rightarrow> uf_compress (jm_set current top_id p) top_id next)"

definition uf_find :: "'k \<Rightarrow> 'k uf \<Rightarrow> ('k uf \<times> 'k) option" where
  "uf_find i u0 =
     (let u = uf_makeSet i u0 in
      do {
        top_id \<leftarrow> uf_root (uf_parent u) i;
        p \<leftarrow> uf_compress (uf_parent u) top_id i;
        Some (u\<lparr>uf_parent := p\<rparr>, top_id)
      })"

definition rank_of :: "'k uf \<Rightarrow> 'k \<Rightarrow> nat" where
  "rank_of u i = (case jm_get (uf_rank u) i of Some r \<Rightarrow> r | None \<Rightarrow> 0)"

definition uf_link :: "'k \<Rightarrow> 'k \<Rightarrow> 'k uf \<Rightarrow> 'k uf" where
  "uf_link rootA rootB u =
     (let rankA = rank_of u rootA; rankB = rank_of u rootB;
          u' = (if rankA < rankB then u\<lparr>uf_parent := jm_set rootA rootB (uf_parent u)\<rparr>
                else if rankB < rankA then u\<lparr>uf_parent := jm_set rootB rootA (uf_parent u)\<rparr>
                else u\<lparr>uf_parent := jm_set rootB rootA (uf_parent u),
                       uf_rank := jm_set rootA (rankA + 1) (uf_rank u)\<rparr>)
      in u'\<lparr>uf_components := uf_components u' - 1\<rparr>)"

definition uf_union :: "'k \<Rightarrow> 'k \<Rightarrow> 'k uf \<Rightarrow> ('k uf \<times> bool) option" where
  "uf_union a b u0 =
     do {
       (u1, rootA) \<leftarrow> uf_find a u0;
       (u2, rootB) \<leftarrow> uf_find b u1;
       Some (if rootA = rootB then (u2, False) else (uf_link rootA rootB u2, True))
     }"

definition uf_connected :: "'k \<Rightarrow> 'k \<Rightarrow> 'k uf \<Rightarrow> ('k uf \<times> bool) option" where
  "uf_connected a b u0 =
     do {
       (u1, rootA) \<leftarrow> uf_find a u0;
       (u2, rootB) \<leftarrow> uf_find b u1;
       Some (u2, rootA = rootB)
     }"

fun uf_groups_loop :: "'k list \<Rightarrow> 'k uf \<Rightarrow> ('k, 'k list) jsmap \<Rightarrow> ('k uf \<times> ('k, 'k list) jsmap) option" where
  "uf_groups_loop [] u out = Some (u, out)"
| "uf_groups_loop (i # ids) u out =
     do {
       (u', top_id) \<leftarrow> uf_find i u;
       uf_groups_loop ids u'
         (case jm_get out top_id of
            Some bucket \<Rightarrow> jm_set top_id (bucket @ [i]) out
          | None \<Rightarrow> jm_set top_id [i] out)
     }"

definition uf_groups :: "'k uf \<Rightarrow> ('k uf \<times> ('k, 'k list) jsmap) option" where
  "uf_groups u = uf_groups_loop (jm_keys (uf_parent u)) u []"

definition uf_duplicateClusters :: "'k uf \<Rightarrow> ('k uf \<times> 'k list list) option" where
  "uf_duplicateClusters u =
     do {
       (u', g) \<leftarrow> uf_groups u;
       Some (u', filter (\<lambda>group. 1 < length group) (map snd g))
     }"

section \<open>Clustering\<close>

definition add_to_block :: "('a \<Rightarrow> 'b) \<Rightarrow> 'a \<Rightarrow> ('b, 'a list) jsmap \<Rightarrow> ('b, 'a list) jsmap" where
  "add_to_block blockingKey item blocks =
     (let key = blockingKey item in
      case jm_get blocks key of
        Some bucket \<Rightarrow> jm_set key (bucket @ [item]) blocks
      | None \<Rightarrow> jm_set key [item] blocks)"

fun pair_inner :: "('a \<Rightarrow> 'k) \<Rightarrow> ('a \<Rightarrow> 'a \<Rightarrow> bool) \<Rightarrow> 'a \<Rightarrow> 'a list \<Rightarrow> 'k uf \<Rightarrow> 'k uf option" where
  "pair_inner identify isSimilar a [] u = Some u"
| "pair_inner identify isSimilar a (b # bs) u =
     (if isSimilar a b
      then do {
        (u', _) \<leftarrow> uf_union (identify a) (identify b) u;
        pair_inner identify isSimilar a bs u'
      }
      else pair_inner identify isSimilar a bs u)"

fun pair_outer :: "('a \<Rightarrow> 'k) \<Rightarrow> ('a \<Rightarrow> 'a \<Rightarrow> bool) \<Rightarrow> 'a list \<Rightarrow> 'k uf \<Rightarrow> 'k uf option" where
  "pair_outer identify isSimilar [] u = Some u"
| "pair_outer identify isSimilar (a # bucket) u =
     do {
       u' \<leftarrow> pair_inner identify isSimilar a bucket u;
       pair_outer identify isSimilar bucket u'
     }"

fun pair_blocks :: "('a \<Rightarrow> 'k) \<Rightarrow> ('a \<Rightarrow> 'a \<Rightarrow> bool) \<Rightarrow> 'a list list \<Rightarrow> 'k uf \<Rightarrow> 'k uf option" where
  "pair_blocks identify isSimilar [] u = Some u"
| "pair_blocks identify isSimilar (bucket # buckets) u =
     do {
       u' \<leftarrow> pair_outer identify isSimilar bucket u;
       pair_blocks identify isSimilar buckets u'
     }"

definition clusterDuplicates ::
  "'a list \<Rightarrow> ('a \<Rightarrow> 'k) \<Rightarrow> ('a \<Rightarrow> 'b) \<Rightarrow> ('a \<Rightarrow> 'a \<Rightarrow> bool) \<Rightarrow> 'k list list option" where
  "clusterDuplicates items identify blockingKey isSimilar =
     do {
       u \<leftarrow> pair_blocks identify isSimilar
             (map snd (fold (add_to_block blockingKey) items []))
             (uf_new (map identify items));
       (_, clusters) \<leftarrow> uf_duplicateClusters u;
       Some clusters
     }"

section \<open>The rank invariant and representatives\<close>

definition uf_dom :: "'k uf \<Rightarrow> 'k set" where
  "uf_dom u = fst ` set (uf_parent u)"

text \<open>A forest: every parent is a node, of higher rank than its children.\<close>

definition forest :: "('k, 'k) jsmap \<Rightarrow> ('k \<Rightarrow> nat) \<Rightarrow> bool" where
  "forest p rk \<longleftrightarrow> jm_wf p \<and>
     (\<forall>x y. jm_get p x = Some y \<longrightarrow> jm_has p y \<and> (x \<noteq> y \<longrightarrow> rk x < rk y))"

definition is_root :: "('k, 'k) jsmap \<Rightarrow> 'k \<Rightarrow> bool" where
  "is_root p r \<longleftrightarrow> jm_get p r = Some r"

lemma jm_has_keys: "jm_has p x \<longleftrightarrow> x \<in> fst ` set p"
  by (simp add: map_of_eq_None_iff)

lemma jm_keys_set_mem: "x \<in> fst ` set m \<Longrightarrow> jm_keys (jm_set x v m) = jm_keys m"
  by (induction m) auto

lemma jm_has_cong: "jm_keys q = jm_keys p \<Longrightarrow> jm_has q z \<longleftrightarrow> jm_has p z"
  by (simp only: jm_has_keys set_map [symmetric])

lemma finite_rank_bound: "\<exists>B. \<forall>x. jm_has p x \<longrightarrow> (rk x :: nat) < B"
proof -
  have "\<forall>x\<in>fst ` set p. rk x < Suc (sum rk (fst ` set p))"
    by (auto intro!: le_imp_less_Suc member_le_sum)
  then show ?thesis by (intro exI [of _ "Suc (sum rk (fst ` set p))"] allI impI) (simp only: jm_has_keys)
qed

text \<open>Induction from a node towards its root.\<close>

lemma forest_induct [consumes 2, case_names root step]:
  assumes "forest p rk" and "jm_has p x"
    and "\<And>x. is_root p x \<Longrightarrow> P x"
    and "\<And>x y. jm_get p x = Some y \<Longrightarrow> x \<noteq> y \<Longrightarrow> jm_has p y \<Longrightarrow> P y \<Longrightarrow> P x"
  shows "P x"
proof -
  obtain B where B: "\<forall>x. jm_has p x \<longrightarrow> rk x < B" using finite_rank_bound [of p rk] by (elim exE)
  show ?thesis
    using assms(2)
  proof (induction "B - rk x" arbitrary: x rule: less_induct)
    case less
    then obtain y where y: "jm_get p x = Some y" by blast
    show ?case
    proof (cases "x = y")
      case True
      then show ?thesis using y assms(3) by (simp add: is_root_def)
    next
      case False
      have y': "jm_has p y" "rk x < rk y" using assms(1) y False by (auto simp: forest_def)
      moreover have "rk y < B" using B y'(1) by blast
      ultimately have "P y" by (intro less) auto
      then show ?thesis using assms(4) [OF y False y'(1)] by blast
    qed
  qed
qed

lemma root_simps:
  "is_root p r \<Longrightarrow> uf_root p r = Some r"
  "jm_get p x = Some y \<Longrightarrow> x \<noteq> y \<Longrightarrow> uf_root p x = uf_root p y"
  by (subst uf_root.simps; auto simp: is_root_def)+

text \<open>\<open>find\<close>'s first loop ends at a root, of higher rank than where it started.\<close>

lemma uf_root_total:
  assumes f: "forest p rk" and x: "jm_has p x"
  shows "\<exists>r. uf_root p x = Some r \<and> is_root p r \<and> (x \<noteq> r \<longrightarrow> rk x < rk r)"
  using f x
proof (induction rule: forest_induct)
  case (root x)
  then show ?case by (simp add: root_simps)
next
  case (step x y)
  then have "rk x < rk y" using f by (auto simp: forest_def)
  then show ?case using step by (auto simp: root_simps(2) intro: less_trans)
qed

text \<open>Pointing a node at its root changes no root.\<close>

lemma forest_set_root:
  assumes f: "forest p rk" and x: "uf_root p x = Some r" "jm_has p x"
  shows "forest (jm_set x r p) rk"
    and "jm_has p y \<Longrightarrow> uf_root (jm_set x r p) y = uf_root p y"
proof -
  have r: "is_root p r" "x \<noteq> r \<longrightarrow> rk x < rk r" using uf_root_total [OF f x(2)] x(1) by auto
  show f': "forest (jm_set x r p) rk"
    using f r x(2) by (auto simp: forest_def jm_get_set is_root_def)
  have r': "is_root (jm_set x r p) r" using r by (simp add: is_root_def jm_get_set)
  show "uf_root (jm_set x r p) y = uf_root p y" if "jm_has p y"
    using f that
  proof (induction rule: forest_induct)
    case (root y)
    then have "is_root (jm_set x r p) y \<and> (x = y \<longrightarrow> r = y)"
      using x(1) root_simps(1) [OF root] by (auto simp: is_root_def jm_get_set)
    then show ?case using root by (simp add: root_simps)
  next
    case (step y z)
    show ?case
    proof (cases "y = x")
      case True
      then have "jm_get (jm_set x r p) y = Some r" by (simp add: jm_get_set)
      moreover have "y \<noteq> r" using True step r by (auto simp: is_root_def)
      ultimately have "uf_root (jm_set x r p) y = Some r"
        using root_simps(1) [OF r'] by (simp add: root_simps(2))
      then show ?thesis using x(1) True by simp
    next
      case False
      then have "jm_get (jm_set x r p) y = Some z" using step by (simp add: jm_get_set)
      then show ?thesis using step by (simp add: root_simps(2))
    qed
  qed
qed

text \<open>The second loop ends, and keeps the forest and every root.\<close>

lemma uf_compress_total:
  assumes "forest p rk" and "uf_root p x = Some r" and "jm_has p x"
  shows "\<exists>p'. uf_compress p r x = Some p' \<and> forest p' rk \<and> jm_keys p' = jm_keys p \<and>
    (\<forall>y. jm_has p y \<longrightarrow> uf_root p' y = uf_root p y)"
proof -
  obtain B where B: "\<forall>x. jm_has p x \<longrightarrow> rk x < B" using finite_rank_bound [of p rk] by (elim exE)
  have "forest q rk \<Longrightarrow> uf_root q x = Some r \<Longrightarrow> jm_has q x \<Longrightarrow> jm_keys q = jm_keys p \<Longrightarrow>
      \<exists>p'. uf_compress q r x = Some p' \<and> forest p' rk \<and> jm_keys p' = jm_keys p \<and>
        (\<forall>y. jm_has q y \<longrightarrow> uf_root p' y = uf_root q y)" for q
  proof (induction "B - rk x" arbitrary: x q rule: less_induct)
    case less
    show ?case
    proof (cases "x = r")
      case True
      then show ?thesis using less.prems by (subst uf_compress.simps) auto
    next
      case False
      obtain y where y: "jm_get q x = Some y" using less.prems(3) by blast
      have has: "jm_has q z \<longleftrightarrow> jm_has p z" for z
        by (rule jm_has_cong [OF less.prems(4)])
      have ne: "x \<noteq> y"
      proof
        assume "x = y"
        then have "uf_root q x = Some x" using y by (simp add: root_simps(1) is_root_def)
        then show False using less.prems(2) False by simp
      qed
      have y': "jm_has q y" "rk x < rk y" using less.prems(1) y ne by (auto simp: forest_def)
      let ?q = "jm_set x r q"
      note s = forest_set_root [OF less.prems(1-3)]
      have "rk y < B" by (rule B [rule_format, OF has [THEN iffD1, OF y'(1)]])
      then have m: "B - rk y < B - rk x" using y'(2) by linarith
      have ry: "uf_root q y = Some r" using less.prems(2) root_simps(2) [OF y ne] by simp
      have keys: "jm_keys ?q = jm_keys q"
        using less.prems(3) unfolding jm_has_keys by (simp add: jm_keys_set_mem)
      have hq: "jm_has ?q z \<longleftrightarrow> jm_has q z" for z using less.prems(3) by (simp add: jm_get_set)
      have "\<exists>p'. uf_compress ?q r y = Some p' \<and> forest p' rk \<and> jm_keys p' = jm_keys p \<and>
          (\<forall>z. jm_has ?q z \<longrightarrow> uf_root p' z = uf_root ?q z)"
        using m s(1) s(2) [OF y'(1)] ry y'(1) hq keys less.prems(4) by (intro less.hyps) simp_all
      then show ?thesis
        using False y hq s(2) by (subst uf_compress.simps) auto
    qed
  qed
  then show ?thesis using assms by blast
qed

section \<open>What the operations promise\<close>

definition uf_rep :: "'k uf \<Rightarrow> 'k \<Rightarrow> 'k" where
  "uf_rep u x = (if jm_has (uf_parent u) x then the (uf_root (uf_parent u) x) else x)"

definition uf_inv :: "'k uf \<Rightarrow> bool" where
  "uf_inv u \<longleftrightarrow> forest (uf_parent u) (rank_of u) \<and>
     uf_components u = int (card {x \<in> uf_dom u. uf_rep u x = x})"

lemma uf_dom_has: "x \<in> uf_dom u \<longleftrightarrow> jm_has (uf_parent u) x"
  by (simp only: uf_dom_def jm_has_keys)

lemma finite_uf_dom [simp]: "finite (uf_dom u)"
  by (simp add: uf_dom_def)

lemma uf_rep_root:
  assumes "forest (uf_parent u) rk"
  shows "x \<in> uf_dom u \<Longrightarrow> uf_root (uf_parent u) x = Some (uf_rep u x)"
    and "x \<in> uf_dom u \<Longrightarrow> is_root (uf_parent u) (uf_rep u x)"
    and "x \<in> uf_dom u \<Longrightarrow> uf_rep u x \<in> uf_dom u"
    and "uf_rep u (uf_rep u x) = uf_rep u x"
    and "is_root (uf_parent u) r \<Longrightarrow> uf_rep u r = r"
proof -
  show 1: "uf_root (uf_parent u) x = Some (uf_rep u x)" if "x \<in> uf_dom u" for x
    using uf_root_total [OF assms] that by (fastforce simp: uf_dom_has uf_rep_def)
  show 2: "is_root (uf_parent u) (uf_rep u x)" if "x \<in> uf_dom u" for x
    using uf_root_total [OF assms] 1 [OF that] that by (fastforce simp: uf_dom_has)
  show 3: "uf_rep u x \<in> uf_dom u" if "x \<in> uf_dom u" for x
    using 2 [OF that] by (simp add: uf_dom_has is_root_def)
  show 5: "uf_rep u r = r" if "is_root (uf_parent u) r" for r
    using root_simps(1) [OF that] by (simp add: uf_rep_def)
  show "uf_rep u (uf_rep u x) = uf_rep u x"
    by (cases "x \<in> uf_dom u") (use 2 5 in \<open>auto simp: uf_rep_def uf_dom_has\<close>)
qed

lemma forest_makeSet:
  assumes f: "forest p rk" and i: "\<not> jm_has p i" and rk': "\<And>x. x \<noteq> i \<Longrightarrow> rk' x = rk x"
  shows "forest (jm_set i i p) rk'" and "jm_has p x \<Longrightarrow> uf_root (jm_set i i p) x = uf_root p x"
proof -
  have get: "jm_get p x = Some y \<Longrightarrow> jm_get (jm_set i i p) x = Some y" for x y
    using i by (auto simp: jm_get_set)
  show "forest (jm_set i i p) rk'"
    unfolding forest_def
  proof (intro conjI allI impI)
    show "jm_wf (jm_set i i p)" using f by (simp add: forest_def)
    fix x y assume xy: "jm_get (jm_set i i p) x = Some y"
    show "jm_has (jm_set i i p) y" using xy f by (auto simp: jm_get_set forest_def split: if_splits)
    assume ne: "x \<noteq> y"
    then have x: "x \<noteq> i" "jm_get p x = Some y" using xy by (auto simp: jm_get_set split: if_splits)
    then have "jm_has p y" "rk x < rk y" using f ne by (auto simp: forest_def)
    moreover have "y \<noteq> i" using calculation(1) i by auto
    ultimately show "rk' x < rk' y" using x(1) by (simp add: rk')
  qed
  show "uf_root (jm_set i i p) x = uf_root p x" if "jm_has p x"
    using f that
  proof (induction rule: forest_induct)
    case (root x)
    then have "is_root (jm_set i i p) x" using get by (simp add: is_root_def)
    then show ?case using root by (simp add: root_simps(1))
  next
    case (step x y)
    then show ?case using root_simps(2) [OF get [OF step(1)] step(2)] root_simps(2) [OF step(1,2)] by simp
  qed
qed

lemma jm_keys_set_new: "\<not> jm_has m k \<Longrightarrow> jm_keys (jm_set k v m) = jm_keys m @ [k]"
  by (simp add: jm_set_new)

lemma uf_makeSet_spec:
  assumes "uf_inv u"
  shows "uf_inv (uf_makeSet i u)" and "uf_rep (uf_makeSet i u) x = uf_rep u x"
    and "uf_dom (uf_makeSet i u) = insert i (uf_dom u)"
proof -
  have f: "forest (uf_parent u) (rank_of u)" using assms by (simp add: uf_inv_def)
  have "uf_inv (uf_makeSet i u) \<and> (\<forall>x. uf_rep (uf_makeSet i u) x = uf_rep u x) \<and>
      uf_dom (uf_makeSet i u) = insert i (uf_dom u)"
  proof (cases "jm_has (uf_parent u) i")
    case True
    then have "uf_makeSet i u = u" unfolding uf_makeSet_def by (rule if_P)
    moreover have "i \<in> uf_dom u" using True by (rule uf_dom_has [THEN iffD2])
    ultimately show ?thesis using assms by (simp add: insert_absorb)
  next
    case False
    let ?v = "uf_makeSet i u"
    have v: "uf_parent ?v = jm_set i i (uf_parent u)" "uf_rank ?v = jm_set i 0 (uf_rank u)"
      "uf_components ?v = uf_components u + 1"
      using False by (simp_all add: uf_makeSet_def)
    have dom: "uf_dom ?v = insert i (uf_dom u)" by (simp add: uf_dom_def v jm_keys_set)
    have i: "i \<notin> uf_dom u" using False by (simp only: uf_dom_has simp_thms)
    have r: "x \<noteq> i \<Longrightarrow> rank_of ?v x = rank_of u x" for x by (simp add: rank_of_def v jm_get_set)
    note fm = forest_makeSet [OF f False, of "rank_of ?v", OF r]
    have f': "forest (uf_parent ?v) (rank_of ?v)" unfolding v(1) by (rule fm(1))
    have rep: "uf_rep ?v x = uf_rep u x" for x
    proof (cases "x = i")
      case True
      then have "uf_rep ?v x = i" "uf_rep u x = i"
        using False root_simps(1) [of "uf_parent ?v" i]
        by (simp_all add: uf_rep_def v jm_get_set is_root_def)
      then show ?thesis by simp
    next
      case nx: False
      show ?thesis
      proof (cases "jm_has (uf_parent u) x")
        case True
        then show ?thesis using fm(2) [OF _ True] nx
          by (simp add: uf_rep_def v jm_get_set)
      qed (use nx in \<open>simp add: uf_rep_def v jm_get_set\<close>)
    qed
    have "uf_rep u i = i" using False by (simp add: uf_rep_def)
    then have "{x \<in> uf_dom ?v. uf_rep ?v x = x} = insert i {x \<in> uf_dom u. uf_rep u x = x}"
      by (auto simp: dom rep)
    then have "uf_inv ?v" using f' assms i by (simp add: uf_inv_def v)
    then show ?thesis using rep dom by blast
  qed
  then show "uf_inv (uf_makeSet i u)" and "uf_rep (uf_makeSet i u) x = uf_rep u x"
    and "uf_dom (uf_makeSet i u) = insert i (uf_dom u)" by blast+
qed

text \<open>\<open>find\<close> returns, returns the representative, and changes none.\<close>

lemma uf_find_spec:
  assumes "uf_inv u"
  shows "\<exists>u'. uf_find i u = Some (u', uf_rep u i) \<and> uf_inv u' \<and> uf_rep u' = uf_rep u \<and>
    uf_dom u' = insert i (uf_dom u) \<and> uf_rank u' = uf_rank (uf_makeSet i u) \<and>
    jm_keys (uf_parent u') = jm_keys (uf_parent (uf_makeSet i u))"
proof -
  let ?v = "uf_makeSet i u"
  note v = uf_makeSet_spec [OF assms, of i]
  have f: "forest (uf_parent ?v) (rank_of ?v)" using v(1) by (simp add: uf_inv_def)
  have i: "i \<in> uf_dom ?v" by (simp add: v(3))
  have r: "uf_root (uf_parent ?v) i = Some (uf_rep u i)" using uf_rep_root(1) [OF f i] by (simp add: v(2))
  obtain p where p: "uf_compress (uf_parent ?v) (uf_rep u i) i = Some p" "forest p (rank_of ?v)"
    "jm_keys p = jm_keys (uf_parent ?v)"
    "\<forall>y. jm_has (uf_parent ?v) y \<longrightarrow> uf_root p y = uf_root (uf_parent ?v) y"
    using uf_compress_total [OF f r i [unfolded uf_dom_has]] by (elim exE conjE)
  let ?w = "?v\<lparr>uf_parent := p\<rparr>"
  have dom: "uf_dom ?w = uf_dom ?v" using p(3) by (simp add: uf_dom_def set_map [symmetric] del: set_map)
  have rep: "uf_rep ?w x = uf_rep ?v x" for x
    using p(4) jm_has_cong [OF p(3), of x] by (auto simp: uf_rep_def simp del: not_None_eq)
  have rank: "rank_of ?w = rank_of ?v" by (simp add: rank_of_def fun_eq_iff)
  have "uf_inv ?w" using v(1) p(2) by (simp add: uf_inv_def dom rep rank)
  moreover have "uf_find i u = Some (?w, uf_rep u i)" using r p(1) by (simp add: uf_find_def)
  ultimately show ?thesis using p(3) dom v rep by (intro exI [of _ ?w]) auto
qed

lemma forest_link:
  assumes f: "forest p rk" and r: "is_root p a" "is_root p b" "a \<noteq> b"
    and rk': "forest (jm_set a b p) rk'"
  shows "jm_has p x \<Longrightarrow> uf_root (jm_set a b p) x = (if uf_root p x = Some a then Some b else uf_root p x)"
proof -
  have b: "is_root (jm_set a b p) b" using r by (simp add: is_root_def jm_get_set)
  have a: "uf_root (jm_set a b p) a = Some b"
    using root_simps(2) [of "jm_set a b p" a b] root_simps(1) [OF b] r(3) by (simp add: jm_get_set)
  show "uf_root (jm_set a b p) x = (if uf_root p x = Some a then Some b else uf_root p x)"
    if "jm_has p x"
    using f that
  proof (induction rule: forest_induct)
    case (root x)
    show ?case
    proof (cases "x = a")
      case False
      then have "is_root (jm_set a b p) x" using root by (simp add: is_root_def jm_get_set)
      then show ?thesis using root False by (simp add: root_simps(1))
    qed (use a root in \<open>simp add: root_simps(1)\<close>)
  next
    case (step x y)
    have "x \<noteq> a" using step r by (auto simp: is_root_def)
    then have "jm_get (jm_set a b p) x = Some y" using step by (simp add: jm_get_set)
    then show ?case using step by (simp add: root_simps(2))
  qed
qed

text \<open>Linking two roots joins their classes: one becomes the representative of both.\<close>

lemma uf_link_spec:
  assumes inv: "uf_inv u" and a: "a \<in> uf_dom u" "uf_rep u a = a" and b: "b \<in> uf_dom u" "uf_rep u b = b"
    and ne: "a \<noteq> b"
  shows "\<exists>c\<in>{a, b}. \<forall>x. uf_rep (uf_link a b u) x = (if uf_rep u x \<in> {a, b} then c else uf_rep u x)"
    and "uf_inv (uf_link a b u)" and "uf_dom (uf_link a b u) = uf_dom u"
proof -
  let ?p = "uf_parent u" and ?u = "uf_link a b u"
  have f: "forest ?p (rank_of u)" using inv by (simp add: uf_inv_def)
  have roots: "is_root ?p a" "is_root ?p b"
    using uf_rep_root(2) [OF f a(1)] uf_rep_root(2) [OF f b(1)] a b by simp_all
  define d e where "d = (if rank_of u a < rank_of u b then a else b)"
    and "e = (if rank_of u a < rank_of u b then b else a)"
  have de: "is_root ?p d" "is_root ?p e" "d \<noteq> e" "{d, e} = {a, b}" "d \<in> uf_dom u" "e \<in> uf_dom u"
    using roots ne a b by (auto simp: d_def e_def)
  have par: "uf_parent ?u = jm_set d e ?p" "uf_components ?u = uf_components u - 1"
    by (auto simp: uf_link_def Let_def d_def e_def)
  have rank: "rank_of ?u x = (if rank_of u a = rank_of u b \<and> x = a then rank_of u a + 1 else rank_of u x)" for x
    by (auto simp: uf_link_def Let_def rank_of_def jm_get_set)
  have lt: "rank_of ?u d < rank_of ?u e" using ne by (auto simp: rank d_def e_def)
  have f': "forest (jm_set d e ?p) (rank_of ?u)"
    unfolding forest_def
  proof (intro conjI allI impI)
    show "jm_wf (jm_set d e ?p)" using f by (simp add: forest_def)
    fix x y assume xy: "jm_get (jm_set d e ?p) x = Some y"
    show "jm_has (jm_set d e ?p) y"
      using xy f de(2) by (auto simp: jm_get_set forest_def is_root_def split: if_splits)
    assume "x \<noteq> y"
    show "rank_of ?u x < rank_of ?u y"
    proof (cases "x = d")
      case True
      then show ?thesis using xy lt by (simp add: jm_get_set)
    next
      case False
      then have y: "jm_get ?p x = Some y" using xy by (simp add: jm_get_set)
      then have "rank_of u x < rank_of u y" using f \<open>x \<noteq> y\<close> by (simp add: forest_def)
      moreover have "x \<noteq> a" using y roots(1) \<open>x \<noteq> y\<close> by (auto simp: is_root_def)
      ultimately show ?thesis by (auto simp: rank)
    qed
  qed
  have rep: "uf_rep ?u x = (if uf_rep u x = d then e else uf_rep u x)" for x
  proof (cases "x \<in> uf_dom u")
    case True
    have "uf_root (jm_set d e ?p) x = (if uf_rep u x = d then Some e else Some (uf_rep u x))"
      using forest_link [OF f de(1-3) f' True [unfolded uf_dom_has]] uf_rep_root(1) [OF f True]
      by (simp del: not_None_eq)
    moreover have "jm_has (jm_set d e ?p) x" using True by (simp add: uf_dom_has jm_get_set)
    ultimately show ?thesis unfolding uf_rep_def [of ?u] par by (simp del: not_None_eq)
  next
    case False
    then have "x \<noteq> d" using de(5) by blast
    then show ?thesis using False by (simp add: uf_rep_def par uf_dom_has jm_get_set)
  qed
  have rep_d: "uf_rep u d = d" "uf_rep u e = e" using a b by (auto simp: d_def e_def)
  have "\<forall>x. uf_rep ?u x = (if uf_rep u x \<in> {d, e} then e else uf_rep u x)" by (simp add: rep)
  moreover have "e \<in> {a, b}" using de(4) by blast
  ultimately show "\<exists>c\<in>{a, b}. \<forall>x. uf_rep ?u x = (if uf_rep u x \<in> {a, b} then c else uf_rep u x)"
    using de(4) by (intro bexI [of _ e]) simp_all
  show dom: "uf_dom ?u = uf_dom u"
    using de(5) by (simp add: uf_dom_def par jm_keys_set insert_absorb)
  have "{x \<in> uf_dom ?u. uf_rep ?u x = x} = {x \<in> uf_dom u. uf_rep u x = x} - {d}"
    using rep_d de(3) by (auto simp: dom rep)
  moreover have "d \<in> {x \<in> uf_dom u. uf_rep u x = x}" using de(5) rep_d by simp
  moreover have "0 < card {x \<in> uf_dom u. uf_rep u x = x}"
    using calculation(2) by (auto simp: card_gt_0_iff)
  ultimately show "uf_inv ?u"
    using f' inv by (simp add: uf_inv_def par of_nat_diff card_Diff_singleton)
qed

text \<open>\<open>union\<close> returns, says whether the classes were different, and joins them.\<close>

lemma uf_union_spec:
  assumes "uf_inv u"
  shows "\<exists>u'. uf_union a b u = Some (u', uf_rep u a \<noteq> uf_rep u b) \<and> uf_inv u' \<and>
    uf_dom u' = insert a (insert b (uf_dom u)) \<and>
    (\<exists>c\<in>{uf_rep u a, uf_rep u b}. \<forall>x. uf_rep u' x =
       (if uf_rep u x \<in> {uf_rep u a, uf_rep u b} then c else uf_rep u x))"
proof -
  obtain u1 where u1: "uf_find a u = Some (u1, uf_rep u a)" "uf_inv u1" "uf_rep u1 = uf_rep u"
    "uf_dom u1 = insert a (uf_dom u)" using uf_find_spec [OF assms, of a] by blast
  obtain u2 where u2: "uf_find b u1 = Some (u2, uf_rep u b)" "uf_inv u2" "uf_rep u2 = uf_rep u"
    "uf_dom u2 = insert b (uf_dom u1)" using uf_find_spec [OF u1(2), of b] u1(3) by auto
  have dom: "uf_dom u2 = insert a (insert b (uf_dom u))" using u1(4) u2(4) by auto
  show ?thesis
  proof (cases "uf_rep u a = uf_rep u b")
    case True
    then have "uf_union a b u = Some (u2, False)" using u1 u2 by (simp add: uf_union_def)
    then show ?thesis using True u2 dom by auto
  next
    case False
    have f: "forest (uf_parent u2) (rank_of u2)" using u2(2) by (simp add: uf_inv_def)
    have m: "uf_rep u a \<in> uf_dom u2" "uf_rep u b \<in> uf_dom u2"
      using uf_rep_root(3) [OF f, of a] uf_rep_root(3) [OF f, of b] dom u2(3) by simp_all
    have fixed: "uf_rep u2 (uf_rep u a) = uf_rep u a" "uf_rep u2 (uf_rep u b) = uf_rep u b"
      using uf_rep_root(4) [OF f] u2(3) by metis+
    note l = uf_link_spec [OF u2(2) m(1) fixed(1) m(2) fixed(2) False]
    have "uf_union a b u = Some (uf_link (uf_rep u a) (uf_rep u b) u2, True)"
      using u1 u2 False by (simp add: uf_union_def)
    then show ?thesis using l False dom u2(3) by auto
  qed
qed

section \<open>The equivalence of the united pairs\<close>

definition equiv_of :: "('k \<times> 'k) set \<Rightarrow> ('k \<times> 'k) set" where
  "equiv_of E = (E \<union> E\<inverse>)\<^sup>*"

definition uf_repr :: "('k \<times> 'k) set \<Rightarrow> 'k set \<Rightarrow> 'k uf \<Rightarrow> bool" where
  "uf_repr E D u \<longleftrightarrow> uf_inv u \<and> uf_dom u = D \<and>
     (\<forall>(a, b)\<in>E. uf_rep u a = uf_rep u b) \<and> (\<forall>x. (x, uf_rep u x) \<in> equiv_of E)"

lemma equiv_of_refl [simp]: "(x, x) \<in> equiv_of E"
  by (simp add: equiv_of_def)

lemma equiv_of_mono: "E \<subseteq> F \<Longrightarrow> (x, y) \<in> equiv_of E \<Longrightarrow> (x, y) \<in> equiv_of F"
  unfolding equiv_of_def by (rule rtrancl_mono [THEN subsetD, rotated]) auto

lemma equiv_of_trans: "(x, y) \<in> equiv_of E \<Longrightarrow> (y, z) \<in> equiv_of E \<Longrightarrow> (x, z) \<in> equiv_of E"
  by (simp add: equiv_of_def)

lemma equiv_of_sym: "(x, y) \<in> equiv_of E \<Longrightarrow> (y, x) \<in> equiv_of E"
  using sym_rtrancl [of "E \<union> E\<inverse>"] by (auto simp: equiv_of_def sym_def sym_Un_converse)

lemma equiv_of_edge: "(x, y) \<in> E \<Longrightarrow> (x, y) \<in> equiv_of E"
  by (auto simp: equiv_of_def)

lemma equiv_of_const:
  assumes "\<And>a b. (a, b) \<in> E \<Longrightarrow> f a = f b" and "(x, y) \<in> equiv_of E"
  shows "f x = f y"
  using assms(2) unfolding equiv_of_def by (induction rule: rtrancl_induct) (auto dest: assms(1))

lemma uf_repr_iff: "uf_repr E D u \<Longrightarrow> uf_rep u x = uf_rep u y \<longleftrightarrow> (x, y) \<in> equiv_of E"
  using equiv_of_const [of E "uf_rep u" x y]
  by (auto simp: uf_repr_def intro: equiv_of_trans equiv_of_sym)
    (metis equiv_of_sym equiv_of_trans)

text \<open>The classes of a set of elements.\<close>

definition classes_of :: "('k \<times> 'k) set \<Rightarrow> 'k set \<Rightarrow> 'k set set" where
  "classes_of E D = (\<lambda>x. {y \<in> D. (x, y) \<in> equiv_of E}) ` D"

lemma uf_repr_components:
  assumes "uf_repr E D u"
  shows "uf_components u = int (card (classes_of E D))"
proof -
  let ?c = "\<lambda>x. {y \<in> D. (x, y) \<in> equiv_of E}" and ?R = "{x \<in> D. uf_rep u x = x}"
  note iff = uf_repr_iff [OF assms]
  have f: "forest (uf_parent u) (rank_of u)" and dom: "uf_dom u = D"
    and n: "uf_components u = int (card ?R)"
    using assms by (auto simp: uf_repr_def uf_inv_def)
  have rep: "uf_rep u x \<in> ?R" if "x \<in> D" for x
    using uf_rep_root(3,4) [OF f] that dom by simp
  have "?c x = ?c (uf_rep u x)" for x
    using uf_rep_root(4) [OF f, of x] by (simp add: iff [symmetric])
  then have "classes_of E D = ?c ` ?R"
    unfolding classes_of_def using rep by (auto simp del: mem_Collect_eq) (blast+)?
  moreover have "inj_on ?c ?R"
  proof (rule inj_onI)
    fix x y assume xy: "x \<in> ?R" "y \<in> ?R" "?c x = ?c y"
    have "y \<in> ?c y" using xy(2) by simp
    then have "y \<in> ?c x" by (simp only: xy(3))
    then have "(x, y) \<in> equiv_of E" by blast
    then show "x = y" using xy(1,2) iff [of x y] by simp
  qed
  ultimately show ?thesis using n by (simp add: card_image)
qed

lemma uf_repr_empty: "uf_repr {} {} uf_empty"
  by (simp add: uf_repr_def uf_inv_def forest_def uf_empty_def uf_dom_def uf_rep_def)

lemma uf_repr_makeSet: "uf_repr E D u \<Longrightarrow> uf_repr E (insert i D) (uf_makeSet i u)"
  by (simp add: uf_repr_def uf_makeSet_spec)

lemma uf_repr_new: "uf_repr {} (set ids) (uf_new ids)"
proof -
  have "uf_repr {} D u \<Longrightarrow> uf_repr {} (D \<union> set ids) (fold uf_makeSet ids u)" for D u
  proof (induction ids arbitrary: D u)
    case (Cons i ids)
    show ?case using Cons.IH [OF uf_repr_makeSet [OF Cons.prems, of i]] by simp
  qed simp
  from this [OF uf_repr_empty] show ?thesis by (simp add: uf_new_def)
qed

lemma uf_repr_find:
  assumes "uf_repr E D u"
  shows "\<exists>u'. uf_find i u = Some (u', uf_rep u i) \<and> uf_repr E (insert i D) u' \<and> uf_rep u' = uf_rep u"
  using assms uf_find_spec [of u i] by (auto simp: uf_repr_def)

lemma uf_repr_connected:
  assumes "uf_repr E D u"
  shows "\<exists>u'. uf_connected a b u = Some (u', (a, b) \<in> equiv_of E) \<and>
    uf_repr E (insert a (insert b D)) u'"
proof -
  obtain u1 where u1: "uf_find a u = Some (u1, uf_rep u a)" "uf_repr E (insert a D) u1"
    "uf_rep u1 = uf_rep u" using uf_repr_find [OF assms, of a] by blast
  obtain u2 where u2: "uf_find b u1 = Some (u2, uf_rep u b)" "uf_repr E (insert b (insert a D)) u2"
    using uf_repr_find [OF u1(2), of b] u1(3) by auto
  show ?thesis using u1 u2 uf_repr_iff [OF assms] by (simp add: uf_connected_def insert_commute)
qed

lemma uf_repr_union:
  assumes r: "uf_repr E D u"
  shows "\<exists>u'. uf_union a b u = Some (u', (a, b) \<notin> equiv_of E) \<and>
    uf_repr (insert (a, b) E) (insert a (insert b D)) u'"
proof -
  have inv: "uf_inv u" and dom: "uf_dom u = D" and edge: "\<And>x y. (x, y) \<in> E \<Longrightarrow> uf_rep u x = uf_rep u y"
    and cls: "\<And>x. (x, uf_rep u x) \<in> equiv_of E" using r by (auto simp: uf_repr_def)
  obtain u' c where u': "uf_union a b u = Some (u', uf_rep u a \<noteq> uf_rep u b)" "uf_inv u'"
    "uf_dom u' = insert a (insert b D)" and c: "c \<in> {uf_rep u a, uf_rep u b}"
    and rep: "\<And>x. uf_rep u' x = (if uf_rep u x \<in> {uf_rep u a, uf_rep u b} then c else uf_rep u x)"
    using uf_union_spec [OF inv, of a b] dom by blast
  let ?F = "insert (a, b) E"
  have F: "(x, uf_rep u x) \<in> equiv_of ?F" for x
    using equiv_of_mono [of E ?F, OF _ cls] by blast
  have ab: "(a, b) \<in> equiv_of ?F" by (rule equiv_of_edge) simp
  have near: "(y, z) \<in> equiv_of ?F" if "y \<in> {uf_rep u a, uf_rep u b}" "z \<in> {uf_rep u a, uf_rep u b}" for y z
  proof -
    have "(a, y) \<in> equiv_of ?F" "(a, z) \<in> equiv_of ?F"
      using that F ab by (auto intro: equiv_of_trans)
    then show ?thesis by (blast intro: equiv_of_trans equiv_of_sym)
  qed
  have "(x, uf_rep u' x) \<in> equiv_of ?F" for x
    using F [of x] near [of "uf_rep u x" c] c by (auto simp: rep intro: equiv_of_trans)
  moreover have "\<forall>(x, y)\<in>?F. uf_rep u' x = uf_rep u' y"
    using edge by (auto simp: rep)
  ultimately have "uf_repr ?F (insert a (insert b D)) u'" using u' by (simp add: uf_repr_def)
  then show ?thesis using u'(1) uf_repr_iff [OF r] by auto
qed

text \<open>Operations in any order.\<close>

datatype 'k uf_op = UMakeSet 'k | UFind 'k | UUnion 'k 'k | UConnected 'k 'k

fun uf_step :: "'k uf_op \<Rightarrow> 'k uf \<Rightarrow> 'k uf option" where
  "uf_step (UMakeSet i) u = Some (uf_makeSet i u)"
| "uf_step (UFind i) u = map_option fst (uf_find i u)"
| "uf_step (UUnion a b) u = map_option fst (uf_union a b u)"
| "uf_step (UConnected a b) u = map_option fst (uf_connected a b u)"

fun uf_steps :: "'k uf_op list \<Rightarrow> 'k uf \<Rightarrow> 'k uf option" where
  "uf_steps [] u = Some u"
| "uf_steps (x # xs) u = (case uf_step x u of None \<Rightarrow> None | Some u' \<Rightarrow> uf_steps xs u')"

fun op_pairs :: "'k uf_op \<Rightarrow> ('k \<times> 'k) set" where
  "op_pairs (UUnion a b) = {(a, b)}"
| "op_pairs _ = {}"

lemma uf_repr_step:
  "uf_repr E D u \<Longrightarrow> \<exists>u'. uf_step x u = Some u' \<and> uf_repr (op_pairs x \<union> E) (set_uf_op x \<union> D) u'"
  using uf_repr_makeSet [of E D u] uf_repr_find [of E D u] uf_repr_union [of E D u] uf_repr_connected [of E D u]
  by (cases x) fastforce+

lemma uf_repr_steps:
  "uf_repr E D u \<Longrightarrow> \<exists>u'. uf_steps xs u = Some u' \<and>
     uf_repr (E \<union> (\<Union>x\<in>set xs. op_pairs x)) (D \<union> (\<Union>x\<in>set xs. set_uf_op x)) u'"
proof (induction xs arbitrary: E D u)
  case (Cons x xs)
  obtain u' where "uf_step x u = Some u'" "uf_repr (op_pairs x \<union> E) (set_uf_op x \<union> D) u'"
    using uf_repr_step [OF Cons.prems] by blast
  then show ?case using Cons.IH [of "op_pairs x \<union> E" "set_uf_op x \<union> D" u'] by (simp add: ac_simps)
qed simp

text \<open>C8: Union-Find answers connectivity. After any sequence of makeSet, find, union and
  connected on a structure built from \<open>initial\<close>, every operation has returned;
  \<open>connected\<close> says exactly whether the two identifiers are linked by a chain of united
  pairs; \<open>union\<close> says whether it joined two classes; and \<open>components\<close> is the number of
  classes among the identifiers seen.\<close>

theorem union_find_correct:
  "\<exists>u. uf_steps xs (uf_new initial) = Some u \<and>
     (let E = \<Union>x\<in>set xs. op_pairs x; D = set initial \<union> (\<Union>x\<in>set xs. set_uf_op x) in
      (\<forall>a b. map_option snd (uf_connected a b u) = Some ((a, b) \<in> equiv_of E)) \<and>
      (\<forall>a b. map_option snd (uf_union a b u) = Some ((a, b) \<notin> equiv_of E)) \<and>
      uf_components u = int (card (classes_of E D)) \<and> uf_size u = card D)"
proof -
  obtain u where u: "uf_steps xs (uf_new initial) = Some u"
    "uf_repr (\<Union>x\<in>set xs. op_pairs x) (set initial \<union> (\<Union>x\<in>set xs. set_uf_op x)) u"
    using uf_repr_steps [OF uf_repr_new, of xs initial] by auto
  have "jm_wf (uf_parent u)" "uf_dom u = set initial \<union> (\<Union>x\<in>set xs. set_uf_op x)"
    using u(2) by (auto simp: uf_repr_def uf_inv_def forest_def)
  then have "uf_size u = card (set initial \<union> (\<Union>x\<in>set xs. set_uf_op x))"
    by (metis distinct_card jm_wf_def length_map set_map uf_dom_def uf_size_def)
  then show ?thesis
    using u uf_repr_connected [OF u(2)] uf_repr_union [OF u(2)] uf_repr_components [OF u(2)]
    by (fastforce simp: Let_def)
qed

section \<open>Buckets and clusters\<close>

lemma add_to_block_get:
  "jm_get (add_to_block f x m) k = (if k = f x
     then Some ((case jm_get m k of Some b \<Rightarrow> b | None \<Rightarrow> []) @ [x]) else jm_get m k)"
  by (auto simp: add_to_block_def Let_def jm_get_set split: option.splits)

lemma add_to_block_wf [simp]: "jm_wf m \<Longrightarrow> jm_wf (add_to_block f x m)"
  by (simp add: add_to_block_def Let_def split: option.splits)

definition bucket_of :: "('a \<Rightarrow> 'b) \<Rightarrow> 'a list \<Rightarrow> 'b \<Rightarrow> 'a list" where
  "bucket_of f xs k = filter (\<lambda>x. f x = k) xs"

lemma fold_blocks:
  "jm_wf (fold (add_to_block f) xs [])"
  "jm_get (fold (add_to_block f) xs []) k = (if bucket_of f xs k = [] then None else Some (bucket_of f xs k))"
  by (induction xs arbitrary: k rule: rev_induct) (auto simp: add_to_block_get bucket_of_def)

text \<open>The buckets are the classes of the key, in order.\<close>

lemma blocks_set:
  "set (fold (add_to_block f) xs []) = (\<lambda>k. (k, bucket_of f xs k)) ` (f ` set xs)"
proof -
  have "(k, b) \<in> set (fold (add_to_block f) xs []) \<longleftrightarrow> k \<in> f ` set xs \<and> b = bucket_of f xs k" for k b
    by (auto simp: jm_get_set_mem [OF fold_blocks(1), symmetric] fold_blocks(2)
        bucket_of_def filter_empty_conv)
  then show ?thesis by auto
qed

lemma uf_groups_loop_fold:
  "uf_repr E D u \<Longrightarrow> set ids \<subseteq> D \<Longrightarrow>
     \<exists>u'. uf_groups_loop ids u out = Some (u', fold (add_to_block (uf_rep u)) ids out) \<and> uf_repr E D u'"
proof (induction ids arbitrary: u out)
  case (Cons i ids)
  obtain u' where u': "uf_find i u = Some (u', uf_rep u i)" "uf_repr E D u'" "uf_rep u' = uf_rep u"
    using uf_repr_find [OF Cons.prems(1), of i] Cons.prems(2) by (auto simp: insert_absorb)
  have "add_to_block (uf_rep u) i out =
      (case jm_get out (uf_rep u i) of Some bucket \<Rightarrow> jm_set (uf_rep u i) (bucket @ [i]) out
       | None \<Rightarrow> jm_set (uf_rep u i) [i] out)"
    by (simp add: add_to_block_def Let_def)
  then show ?case using Cons.IH [OF u'(2)] Cons.prems(2) u' by simp
qed simp

lemma uf_groups_spec:
  assumes "uf_repr E D u"
  shows "\<exists>u'. uf_groups u = Some (u', fold (add_to_block (uf_rep u)) (jm_keys (uf_parent u)) [])"
  using uf_groups_loop_fold [OF assms, of "jm_keys (uf_parent u)" "[]"] assms
  by (auto simp: uf_groups_def uf_repr_def uf_dom_def)

lemma concat_buckets_distinct:
  assumes "distinct xs"
  shows "distinct (concat (map snd (fold (add_to_block f) xs [])))"
proof -
  let ?m = "fold (add_to_block f) xs []"
  have m: "distinct (map fst ?m)" using fold_blocks(1) [of f xs] by (simp add: jm_wf_def)
  have el: "snd p = bucket_of f xs (fst p)" if "p \<in> set ?m" for p
    using that by (auto simp: blocks_set)
  have "map snd ?m = map (bucket_of f xs) (map fst ?m)" using el by simp
  moreover have "distinct (concat (map (bucket_of f xs) ks))" if "distinct ks" for ks
    using that assms by (induction ks) (auto simp: bucket_of_def)
  ultimately show ?thesis using m by (simp only:)
qed

lemma distinct_concat_filter: "distinct (concat xss) \<Longrightarrow> distinct (concat (filter P xss))"
  by (induction xss) auto

text \<open>The duplicate clusters are the classes with more than one member.\<close>

lemma uf_duplicateClusters_spec:
  assumes r: "uf_repr E D u"
  shows "\<exists>u' cs. uf_duplicateClusters u = Some (u', cs) \<and> distinct (concat cs) \<and>
    set ` set cs = {K \<in> classes_of E D. 1 < card K}"
proof -
  let ?ids = "jm_keys (uf_parent u)" and ?f = "uf_rep u"
  let ?m = "fold (add_to_block ?f) ?ids []"
  have ids: "set ?ids = D" "distinct ?ids"
    using r by (auto simp: uf_repr_def uf_dom_def uf_inv_def forest_def jm_wf_def)
  have cls: "classes_of E D = set ` bucket_of ?f ?ids ` ?f ` D"
    by (auto simp: classes_of_def bucket_of_def ids(1) [unfolded set_map] image_image
        uf_repr_iff [OF r] equiv_of_sym intro!: image_cong)
  have buckets: "snd ` set ?m = bucket_of ?f ?ids ` ?f ` D"
    by (simp only: blocks_set image_image snd_conv ids(1))
  have card: "card (set b) = length b" if "b \<in> snd ` set ?m" for b
    using that ids(2) unfolding buckets
    by (auto simp: bucket_of_def simp del: set_filter filter_map intro!: distinct_card)
  have "set ` set (filter (\<lambda>g. 1 < length g) (map snd ?m)) = {K \<in> classes_of E D. 1 < card K}"
  proof -
    have "{K \<in> set ` B. 1 < card K} = set ` {b \<in> B. 1 < length b}"
      if "\<And>b. b \<in> B \<Longrightarrow> card (set b) = length b" for B :: "'a list set"
      using that by auto
    from this [OF card] show ?thesis unfolding cls buckets [symmetric] by auto
  qed
  moreover have "distinct (concat (filter (\<lambda>g. 1 < length g) (map snd ?m)))"
    by (intro distinct_concat_filter concat_buckets_distinct ids(2))
  ultimately show ?thesis
    using uf_groups_spec [OF r] by (auto simp: uf_duplicateClusters_def)
qed

fun pairs_of :: "'a list \<Rightarrow> ('a \<times> 'a) list" where
  "pairs_of [] = []"
| "pairs_of (a # bs) = map (Pair a) bs @ pairs_of bs"

lemma pairs_of_filter: "pairs_of (filter P xs) = filter (\<lambda>(a, b). P a \<and> P b) (pairs_of xs)"
  by (induction xs) (auto simp: filter_map o_def)

text \<open>The edges a list of pairs adds.\<close>

definition edges :: "('a \<Rightarrow> 'k) \<Rightarrow> ('a \<Rightarrow> 'a \<Rightarrow> bool) \<Rightarrow> ('a \<times> 'a) set \<Rightarrow> ('k \<times> 'k) set" where
  "edges identify isSimilar ps = {(identify a, identify b) | a b. (a, b) \<in> ps \<and> isSimilar a b}"

lemma edges_Un: "edges f s (A \<union> B) = edges f s A \<union> edges f s B"
  by (auto simp: edges_def)

lemma pair_inner_repr:
  assumes "uf_repr E D u" and "identify ` set (a # bs) \<subseteq> D"
  shows "\<exists>u'. pair_inner identify isSimilar a bs u = Some u' \<and>
    uf_repr (E \<union> edges identify isSimilar (Pair a ` set bs)) D u'"
  using assms
proof (induction bs arbitrary: E u)
  case Nil
  then show ?case by (simp add: edges_def)
next
  case (Cons b bs)
  let ?F = "if isSimilar a b then insert (identify a, identify b) E else E"
  have "\<exists>u'. pair_inner identify isSimilar a (b # bs) u = pair_inner identify isSimilar a bs u' \<and> uf_repr ?F D u'"
  proof (cases "isSimilar a b")
    case True
    obtain u' c where "uf_union (identify a) (identify b) u = Some (u', c)"
      "uf_repr (insert (identify a, identify b) E) D u'"
      using uf_repr_union [OF Cons.prems(1), of "identify a" "identify b"] Cons.prems(2)
      by (auto simp: insert_absorb)
    then show ?thesis using True by auto
  qed (use Cons.prems in auto)
  then obtain u' where u': "pair_inner identify isSimilar a (b # bs) u = pair_inner identify isSimilar a bs u'"
    "uf_repr ?F D u'" by blast
  have "?F \<union> edges identify isSimilar (Pair a ` set bs) =
      E \<union> edges identify isSimilar (Pair a ` set (b # bs))"
    by (auto simp: edges_def)
  then show ?case using Cons.IH [OF u'(2)] Cons.prems(2) u'(1) by simp
qed

lemma pair_outer_repr:
  assumes "uf_repr E D u" and "identify ` set bucket \<subseteq> D"
  shows "\<exists>u'. pair_outer identify isSimilar bucket u = Some u' \<and>
    uf_repr (E \<union> edges identify isSimilar (set (pairs_of bucket))) D u'"
  using assms
proof (induction bucket arbitrary: E u)
  case Nil
  then show ?case by (simp add: edges_def)
next
  case (Cons a bs)
  obtain u' where u': "pair_inner identify isSimilar a bs u = Some u'"
    "uf_repr (E \<union> edges identify isSimilar (Pair a ` set bs)) D u'"
    using pair_inner_repr [OF Cons.prems] by blast
  show ?case using Cons.IH [OF u'(2)] Cons.prems(2) u'(1) by (simp add: edges_Un Un_assoc)
qed

lemma pair_blocks_repr:
  assumes "uf_repr E D u" and "\<And>b. b \<in> set bs \<Longrightarrow> identify ` set b \<subseteq> D"
  shows "\<exists>u'. pair_blocks identify isSimilar bs u = Some u' \<and>
    uf_repr (E \<union> edges identify isSimilar (\<Union>b\<in>set bs. set (pairs_of b))) D u'"
  using assms
proof (induction bs arbitrary: E u)
  case Nil
  then show ?case by (simp add: edges_def)
next
  case (Cons b bs)
  obtain u' where u': "pair_outer identify isSimilar b u = Some u'"
    "uf_repr (E \<union> edges identify isSimilar (set (pairs_of b))) D u'"
    using pair_outer_repr [OF Cons.prems(1) Cons.prems(2) [OF list.set_intros(1)]] by blast
  show ?case using Cons.IH [OF u'(2)] Cons.prems(2) u'(1) by (simp add: edges_Un Un_assoc)
qed

lemma pairs_of_mem: "(a, b) \<in> set (pairs_of xs) \<Longrightarrow> a \<in> set xs \<and> b \<in> set xs"
  by (induction xs) auto

text \<open>The pairs compared are the pairs of items with the same blocking key.\<close>

lemma block_pairs:
  "(\<Union>b\<in>set (map snd (fold (add_to_block f) items [])). set (pairs_of b)) =
     {(a, b) \<in> set (pairs_of items). f a = f b}"
proof (intro set_eqI iffI)
  fix p assume "p \<in> (\<Union>b\<in>set (map snd (fold (add_to_block f) items [])). set (pairs_of b))"
  then show "p \<in> {(a, b) \<in> set (pairs_of items). f a = f b}"
    by (auto simp: blocks_set bucket_of_def pairs_of_filter)
next
  fix p assume p: "p \<in> {(a, b) \<in> set (pairs_of items). f a = f b}"
  then have "fst p \<in> set items" using pairs_of_mem by fastforce
  moreover have "p \<in> set (pairs_of (bucket_of f items (f (fst p))))"
    using p by (auto simp: bucket_of_def pairs_of_filter)
  ultimately show "p \<in> (\<Union>b\<in>set (map snd (fold (add_to_block f) items [])). set (pairs_of b))"
    by (auto simp: blocks_set)
qed

text \<open>The duplicate clusters are right. clusterDuplicates returns, for any similarity and
  any blocking key, exactly the groups of two or more identifiers connected by a chain of
  similar pairs of items with equal blocking keys; no identifier is in two groups or twice
  in one.\<close>

theorem clusterDuplicates_correct:
  "\<exists>cs. clusterDuplicates items identify blockingKey isSimilar = Some cs \<and> distinct (concat cs) \<and>
     set ` set cs = {K \<in> classes_of
         {(identify a, identify b) | a b. (a, b) \<in> set (pairs_of items) \<and>
            blockingKey a = blockingKey b \<and> isSimilar a b} (identify ` set items). 1 < card K}"
proof -
  let ?bs = "map snd (fold (add_to_block blockingKey) items [])"
  let ?E = "edges identify isSimilar (\<Union>b\<in>set ?bs. set (pairs_of b))"
  have E: "?E = {(identify a, identify b) | a b. (a, b) \<in> set (pairs_of items) \<and>
            blockingKey a = blockingKey b \<and> isSimilar a b}"
    unfolding block_pairs by (auto simp: edges_def)
  have r: "uf_repr {} (identify ` set items) (uf_new (map identify items))"
    using uf_repr_new [of "map identify items"] by simp
  have sub: "identify ` set b \<subseteq> identify ` set items" if "b \<in> set ?bs" for b
    using that by (auto simp: blocks_set bucket_of_def)
  obtain u where u: "pair_blocks identify isSimilar ?bs (uf_new (map identify items)) = Some u"
    "uf_repr ?E (identify ` set items) u"
    using pair_blocks_repr [OF r, of ?bs identify isSimilar] sub by auto
  obtain u' cs where "uf_duplicateClusters u = Some (u', cs)" "distinct (concat cs)"
    "set ` set cs = {K \<in> classes_of ?E (identify ` set items). 1 < card K}"
    using uf_duplicateClusters_spec [OF u(2)] by blast
  then show ?thesis unfolding E using u(1) by (auto simp: clusterDuplicates_def)
qed

end
