(* ===== verification/Graph.thy ===== *)
theory Graph
  imports UnionFind
begin

text \<open>
  The directed graph of API dependencies (\<open>packages/algorithms/src/graph.ts\<close>): its
  adjacency maps, breadth- and depth-first traversal, shortest paths, Kahn's topological
  sort, the search for a cycle, and the weakly connected components. Each \<open>while\<close> loop is
  a function of the queue or stack, with the measure that makes it end; the invariants
  relate it to reachability in the edge relation.
\<close>

record 'k edge =
  edge_from :: 'k
  edge_to :: 'k
  edge_label :: "string option"
  edge_weight :: "rat option"

record ('k, 'd) graph =
  g_nodes :: "('k, 'd option) jsmap"
  g_outgoing :: "('k, ('k, 'k edge) jsmap) jsmap"
  g_incoming :: "('k, 'k list) jsmap"

definition graph_new :: "('k, 'd) graph" where
  "graph_new = \<lparr>g_nodes = [], g_outgoing = [], g_incoming = []\<rparr>"

definition nodeCount :: "('k, 'd) graph \<Rightarrow> nat" where
  "nodeCount g = length (g_nodes g)"

definition edgeCount :: "('k, 'd) graph \<Rightarrow> nat" where
  "edgeCount g = fold (\<lambda>edges total. total + length edges) (map snd (g_outgoing g)) 0"

definition addNode :: "'k \<Rightarrow> 'd option \<Rightarrow> ('k, 'd) graph \<Rightarrow> ('k, 'd) graph" where
  "addNode i data g =
     (if \<not> jm_has (g_nodes g) i
      then g\<lparr>g_nodes := jm_set i data (g_nodes g),
             g_outgoing := jm_set i [] (g_outgoing g),
             g_incoming := jm_set i [] (g_incoming g)\<rparr>
      else if data \<noteq> None then g\<lparr>g_nodes := jm_set i data (g_nodes g)\<rparr>
      else g)"

definition getNode :: "('k, 'd) graph \<Rightarrow> 'k \<Rightarrow> 'd option" where
  "getNode g i = (case jm_get (g_nodes g) i of Some data \<Rightarrow> data | None \<Rightarrow> None)"

definition hasNode :: "('k, 'd) graph \<Rightarrow> 'k \<Rightarrow> bool" where
  "hasNode g i = jm_has (g_nodes g) i"

text \<open>The optional call \<open>m.get(k)?.f(...)\<close> of the source.\<close>

definition jm_adjust :: "'k \<Rightarrow> ('v \<Rightarrow> 'v) \<Rightarrow> ('k, 'v) jsmap \<Rightarrow> ('k, 'v) jsmap" where
  "jm_adjust k f m = (case jm_get m k of Some v \<Rightarrow> jm_set k (f v) m | None \<Rightarrow> m)"

definition addEdge :: "'k edge \<Rightarrow> ('k, 'd) graph \<Rightarrow> ('k, 'd) graph" where
  "addEdge e g0 =
     (let g = addNode (edge_to e) None (addNode (edge_from e) None g0) in
      g\<lparr>g_outgoing := jm_adjust (edge_from e) (jm_set (edge_to e) e) (g_outgoing g),
        g_incoming := jm_adjust (edge_to e) (js_set_add (edge_from e)) (g_incoming g)\<rparr>)"

definition removeEdge :: "'k \<Rightarrow> 'k \<Rightarrow> ('k, 'd) graph \<Rightarrow> ('k, 'd) graph \<times> bool" where
  "removeEdge a b g =
     (let removed = (case jm_get (g_outgoing g) a of Some m \<Rightarrow> jm_has m b | None \<Rightarrow> False);
          g' = g\<lparr>g_outgoing := jm_adjust a (jm_delete b) (g_outgoing g)\<rparr>
      in (if removed then g'\<lparr>g_incoming := jm_adjust b (filter (\<lambda>x. x \<noteq> a)) (g_incoming g')\<rparr>
          else g', removed))"

definition neighbors :: "('k, 'd) graph \<Rightarrow> 'k \<Rightarrow> 'k list" where
  "neighbors g i = (case jm_get (g_outgoing g) i of Some m \<Rightarrow> jm_keys m | None \<Rightarrow> [])"

definition predecessors :: "('k, 'd) graph \<Rightarrow> 'k \<Rightarrow> 'k list" where
  "predecessors g i = (case jm_get (g_incoming g) i of Some s \<Rightarrow> s | None \<Rightarrow> [])"

definition graph_edges :: "('k, 'd) graph \<Rightarrow> 'k edge list" where
  "graph_edges g = concat (map (\<lambda>m. map snd m) (map snd (g_outgoing g)))"

definition nodeIds :: "('k, 'd) graph \<Rightarrow> 'k list" where
  "nodeIds g = jm_keys (g_nodes g)"

definition inDegree :: "('k, 'd) graph \<Rightarrow> 'k \<Rightarrow> nat" where
  "inDegree g i = (case jm_get (g_incoming g) i of Some s \<Rightarrow> length s | None \<Rightarrow> 0)"

definition outDegree :: "('k, 'd) graph \<Rightarrow> 'k \<Rightarrow> nat" where
  "outDegree g i = (case jm_get (g_outgoing g) i of Some m \<Rightarrow> length m | None \<Rightarrow> 0)"

section \<open>The nodes a traversal can meet\<close>

definition adj :: "('k, 'd) graph \<Rightarrow> ('k \<times> 'k) set" where
  "adj g = {(x, y). y \<in> set (neighbors g x)}"

definition reachables :: "('k, 'd) graph \<Rightarrow> 'k set" where
  "reachables g = fst ` set (g_outgoing g) \<union> (\<Union>(x, m)\<in>set (g_outgoing g). fst ` set m)"

lemma finite_reachables [simp]: "finite (reachables g)"
  by (simp add: reachables_def case_prod_beta)

lemma neighbors_reachables: "y \<in> set (neighbors g x) \<Longrightarrow> x \<in> reachables g \<and> y \<in> reachables g"
proof -
  assume y: "y \<in> set (neighbors g x)"
  then obtain m where m: "jm_get (g_outgoing g) x = Some m"
    by (cases "jm_get (g_outgoing g) x") (simp_all add: neighbors_def)
  then have "(x, m) \<in> set (g_outgoing g)" "y \<in> fst ` set m"
    using y by (simp_all add: neighbors_def map_of_SomeD)
  then show ?thesis unfolding reachables_def by force
qed

lemma neighbors_outside: "x \<notin> reachables g \<Longrightarrow> neighbors g x = []"
  using neighbors_reachables [of _ g x] by (cases "neighbors g x") auto

section \<open>Traversals\<close>

text \<open>The \<open>for\<close> loop of \<open>bfs\<close>: mark and queue the neighbours not yet visited.\<close>

fun bfs_push :: "'k list \<Rightarrow> nat \<Rightarrow> 'k list \<Rightarrow> ('k \<times> nat) list \<Rightarrow> 'k list \<times> ('k \<times> nat) list" where
  "bfs_push [] depth visited queue = (visited, queue)"
| "bfs_push (next # ns) depth visited queue =
     (if next \<in> set visited then bfs_push ns depth visited queue
      else bfs_push ns depth (visited @ [next]) (queue @ [(next, depth + 1)]))"

lemma bfs_push_eq:
  "\<exists>new. bfs_push ns d visited queue = (visited @ new, queue @ map (\<lambda>x. (x, d + 1)) new) \<and>
     distinct new \<and> set new = set ns - set visited"
proof (induction ns d visited queue rule: bfs_push.induct)
  case (2 nx ns depth visited queue)
  show ?case
  proof (cases "nx \<in> set visited")
    case False
    then obtain new where
      "bfs_push ns depth (visited @ [nx]) (queue @ [(nx, depth + 1)]) =
         ((visited @ [nx]) @ new, (queue @ [(nx, depth + 1)]) @ map (\<lambda>x. (x, depth + 1)) new)"
      "distinct new" "set new = set ns - set (visited @ [nx])" using 2 by blast
    then show ?thesis using False by (intro exI [of _ "nx # new"]) auto
  qed (use 2 in auto)
qed simp

text \<open>\<open>maxDepth\<close> is None for Infinity.\<close>

definition at_max :: "nat option \<Rightarrow> nat \<Rightarrow> bool" where
  "at_max maxDepth d = (case maxDepth of Some m \<Rightarrow> m \<le> d | None \<Rightarrow> False)"

function bfs_loop ::
  "('k, 'd) graph \<Rightarrow> nat option \<Rightarrow> 'k list \<Rightarrow> ('k \<times> nat) list \<Rightarrow> ('k \<times> nat) list \<Rightarrow> ('k \<times> nat) list"
where
  "bfs_loop g maxDepth visited [] order = order"
| "bfs_loop g maxDepth visited ((i, depth) # queue) order =
     (if at_max maxDepth depth then bfs_loop g maxDepth visited queue (order @ [(i, depth)])
      else let (visited', queue') = bfs_push (neighbors g i) depth visited queue
           in bfs_loop g maxDepth visited' queue' (order @ [(i, depth)]))"
  by pat_completeness auto

lemma bfs_measure:
  assumes "set new = set ns - set visited" and "distinct new" and "set ns \<subseteq> D" and "finite D"
  shows "length new + card (D - set (visited @ new)) = card (D - set visited)"
proof -
  have "D - set visited = (D - set (visited @ new)) \<union> set new" using assms by auto
  moreover have "card \<dots> = card (D - set (visited @ new)) + card (set new)"
    using assms(4) by (intro card_Un_disjoint) auto
  ultimately show ?thesis using assms(2) by (simp add: distinct_card)
qed

lemma neighbors_sub: "set (neighbors g i) \<subseteq> reachables g"
  using neighbors_reachables [of _ g i] by auto

termination bfs_loop
proof (relation "measure (\<lambda>(g, m, visited, queue, order). length queue + card (reachables g - set visited))",
    goal_cases)
  case 1
  then show ?case by simp
next
  case 2
  then show ?case by simp
next
  case (3 g m visited i depth queue order p visited' queue')
  obtain new where new: "bfs_push (neighbors g i) depth visited queue =
      (visited @ new, queue @ map (\<lambda>x. (x, depth + 1)) new)"
    "distinct new" "set new = set (neighbors g i) - set visited"
    using bfs_push_eq [of "neighbors g i" depth visited queue] by (elim exE conjE)
  have "(visited', queue') = bfs_push (neighbors g i) depth visited queue" using 3(2,3) by simp
  then have "visited' = visited @ new" "length queue' = length queue + length new"
    unfolding new(1) by simp_all
  then show ?case using bfs_measure [OF new(3,2) neighbors_sub [of g i] finite_reachables] by simp
qed

definition bfs :: "('k, 'd) graph \<Rightarrow> 'k \<Rightarrow> nat option \<Rightarrow> ('k \<times> nat) list" where
  "bfs g start maxDepth =
     (if \<not> jm_has (g_nodes g) start then [] else bfs_loop g maxDepth [start] [(start, 0)] [])"

function dfs_loop :: "('k, 'd) graph \<Rightarrow> 'k list \<Rightarrow> 'k list \<Rightarrow> 'k list \<Rightarrow> 'k list" where
  "dfs_loop g visited [] order = order"
| "dfs_loop g visited (i # stack) order =
     (if i \<in> set visited then dfs_loop g visited stack order
      else dfs_loop g (visited @ [i]) (neighbors g i @ stack) (order @ [i]))"
  by pat_completeness auto

termination dfs_loop
proof (relation "measures [\<lambda>(g, visited, stack, order). card (reachables g - set visited),
    \<lambda>(g, visited, stack, order). length stack]", goal_cases)
  case 1
  then show ?case by simp
next
  case (2 g visited i stack order)
  then show ?case by simp
next
  case (3 g visited i stack order)
  have eq: "reachables g - insert i (set visited) = reachables g - set visited - {i}" by auto
  show ?case
  proof (cases "i \<in> reachables g")
    case True
    then have "i \<in> reachables g - set visited" using 3 by simp
    then have "card (reachables g - set visited - {i}) < card (reachables g - set visited)"
      by (intro card_Diff1_less) simp_all
    then show ?thesis by (simp add: eq)
  next
    case False
    then have "reachables g - set visited - {i} = reachables g - set visited" by auto
    then show ?thesis using neighbors_outside [OF False] by (simp add: eq)
  qed
qed

text \<open>The stack of the source is pushed at its end in reverse order of the neighbours, so
  that read from its top it is the neighbours followed by the old stack.\<close>

definition dfs :: "('k, 'd) graph \<Rightarrow> 'k \<Rightarrow> 'k list" where
  "dfs g start = (if \<not> jm_has (g_nodes g) start then [] else dfs_loop g [] [start] [])"

section \<open>Shortest path\<close>

text \<open>The walk back through \<open>previous\<close>; None if it would not end.\<close>

partial_function (option) sp_trace :: "('k, 'k) jsmap \<Rightarrow> 'k \<Rightarrow> 'k list \<Rightarrow> 'k list option" where
  "sp_trace previous cursor path =
     (case jm_get previous cursor of
        Some c \<Rightarrow> sp_trace previous c (path @ [c])
      | None \<Rightarrow> Some path)"

text \<open>The \<open>for\<close> loop over the neighbours: \<open>Inl\<close> once the target is met.\<close>

fun sp_push :: "'k \<Rightarrow> 'k list \<Rightarrow> 'k \<Rightarrow> 'k list \<Rightarrow> ('k, 'k) jsmap \<Rightarrow> 'k list
    \<Rightarrow> ('k, 'k) jsmap + 'k list \<times> ('k, 'k) jsmap \<times> 'k list" where
  "sp_push target [] current visited previous queue = Inr (visited, previous, queue)"
| "sp_push target (nx # ns) current visited previous queue =
     (if nx \<in> set visited then sp_push target ns current visited previous queue
      else let previous' = jm_set nx current previous in
           if nx = target then Inl previous'
           else sp_push target ns current (visited @ [nx]) previous' (queue @ [nx]))"

lemma sp_push_eq:
  "sp_push target ns current visited previous queue = Inr (visited', previous', queue') \<Longrightarrow>
     \<exists>new. visited' = visited @ new \<and> queue' = queue @ new \<and> distinct new \<and>
       set new = set ns - set visited"
proof (induction target ns current visited previous queue rule: sp_push.induct)
  case (2 target nx ns current visited previous queue)
  show ?case
  proof (cases "nx \<in> set visited")
    case False
    then have "sp_push target ns current (visited @ [nx]) (jm_set nx current previous) (queue @ [nx]) =
        Inr (visited', previous', queue')" "nx \<noteq> target"
      using "2.prems" by (simp_all add: Let_def split: if_splits)
    then obtain new where "visited' = (visited @ [nx]) @ new" "queue' = (queue @ [nx]) @ new"
      "distinct new" "set new = set ns - set (visited @ [nx])"
      using "2.IH"(2) [OF False] by blast
    then show ?thesis using False by (intro exI [of _ "nx # new"]) auto
  qed (use 2 in auto)
qed simp

function sp_loop :: "('k, 'd) graph \<Rightarrow> 'k \<Rightarrow> 'k list \<Rightarrow> ('k, 'k) jsmap \<Rightarrow> 'k list \<Rightarrow> ('k, 'k) jsmap option" where
  "sp_loop g target visited previous [] = None"
| "sp_loop g target visited previous (current # queue) =
     (case sp_push target (neighbors g current) current visited previous queue of
        Inl previous' \<Rightarrow> Some previous'
      | Inr (visited', previous', queue') \<Rightarrow> sp_loop g target visited' previous' queue')"
  by pat_completeness auto

termination sp_loop
proof (relation "measure (\<lambda>(g, t, visited, previous, queue). length queue + card (reachables g - set visited))",
    goal_cases)
  case 1
  then show ?case by simp
next
  case (2 g target visited previous current queue b visited' y previous' queue')
  then have "sp_push target (neighbors g current) current visited previous queue =
      Inr (visited', previous', queue')" by simp
  then obtain new where new: "visited' = visited @ new" "queue' = queue @ new" "distinct new"
    "set new = set (neighbors g current) - set visited"
    by (elim sp_push_eq [elim_format] exE conjE)
  show ?case using bfs_measure [OF new(4,3) neighbors_sub [of g current] finite_reachables]
    by (simp add: new(1,2))
qed

text \<open>None of the inner type is \<open>null\<close>; None of the outer type is a walk that does not end.\<close>

definition shortestPath :: "('k, 'd) graph \<Rightarrow> 'k \<Rightarrow> 'k \<Rightarrow> 'k list option option" where
  "shortestPath g a b =
     (if \<not> jm_has (g_nodes g) a \<or> \<not> jm_has (g_nodes g) b then Some None
      else if a = b then Some (Some [a])
      else case sp_loop g b [a] [] [a] of
             None \<Rightarrow> Some None
           | Some previous \<Rightarrow> map_option (\<lambda>path. Some (rev path)) (sp_trace previous b [b]))"

section \<open>Topological sort\<close>

definition degree_of :: "('k, int) jsmap \<Rightarrow> 'k \<Rightarrow> int" where
  "degree_of degree i = (case jm_get degree i of Some d \<Rightarrow> d | None \<Rightarrow> 0)"

fun kahn_push :: "'k list \<Rightarrow> ('k, int) jsmap \<Rightarrow> 'k list \<Rightarrow> ('k, int) jsmap \<times> 'k list" where
  "kahn_push [] degree queue = (degree, queue)"
| "kahn_push (nx # ns) degree queue =
     (let remaining = degree_of degree nx - 1;
          degree' = jm_set nx remaining degree
      in kahn_push ns degree' (if remaining = 0 then queue @ [nx] else queue))"

definition positive :: "('k, int) jsmap \<Rightarrow> 'k set" where
  "positive degree = {i \<in> fst ` set degree. 0 < degree_of degree i}"

lemma degree_of_set [simp]: "degree_of (jm_set i d m) j = (if j = i then d else degree_of m j)"
  by (simp add: degree_of_def jm_get_set)

lemma positive_set:
  "positive (jm_set i d m) = (if 0 < d then insert i (positive m) else positive m - {i})"
  by (auto simp: positive_def jm_keys_set)

lemma finite_positive [simp]: "finite (positive m)"
  by (simp add: positive_def)

lemma degree_of_absent: "i \<notin> fst ` set m \<Longrightarrow> degree_of m i = 0"
  by (simp add: degree_of_def map_of_eq_None_iff [THEN iffD2] split: option.split)

lemma kahn_push_measure:
  "kahn_push ns degree queue = (degree', queue') \<Longrightarrow>
     length queue' + card (positive degree') \<le> length queue + card (positive degree)"
proof (induction ns degree queue rule: kahn_push.induct)
  case (2 nx ns degree queue)
  let ?r = "degree_of degree nx - 1"
  let ?d = "jm_set nx ?r degree" and ?q = "if ?r = 0 then queue @ [nx] else queue"
  have mem: "nx \<in> positive degree" if "0 < degree_of degree nx"
    using that degree_of_absent [of nx degree] by (auto simp: positive_def)
  have "length ?q + card (positive ?d) \<le> length queue + card (positive degree)"
  proof (cases "?r = 0")
    case True
    then have "Suc (card (positive degree - {nx})) = card (positive degree)"
      using mem by (intro card.remove [symmetric]) simp_all
    then show ?thesis using True by (simp add: positive_set)
  next
    case False
    then have "positive ?d \<subseteq> positive degree" using mem by (auto simp: positive_set split: if_splits)
    then show ?thesis using False by (simp add: card_mono)
  qed
  moreover have "length queue' + card (positive degree') \<le> length ?q + card (positive ?d)"
    using 2 by (simp add: Let_def)
  ultimately show ?case by linarith
qed simp

function kahn_loop :: "('k, 'd) graph \<Rightarrow> ('k, int) jsmap \<Rightarrow> 'k list \<Rightarrow> 'k list \<Rightarrow> 'k list" where
  "kahn_loop g degree [] order = order"
| "kahn_loop g degree (i # queue) order =
     (let (degree', queue') = kahn_push (neighbors g i) degree queue
      in kahn_loop g degree' queue' (order @ [i]))"
  by pat_completeness auto

termination kahn_loop
proof (relation "measure (\<lambda>(g, degree, queue, order). length queue + card (positive degree))", goal_cases)
  case 1
  then show ?case by simp
next
  case (2 g degree i queue order p degree' queue')
  have "kahn_push (neighbors g i) degree queue = (degree', queue')" using 2 by simp
  then show ?case by (simp add: kahn_push_measure le_imp_less_Suc)
qed

definition topologicalSort :: "('k, 'd) graph \<Rightarrow> 'k list option" where
  "topologicalSort g =
     (let degree = fold (\<lambda>i. jm_set i (int (inDegree g i))) (jm_keys (g_nodes g)) [];
          queue = map fst (filter (\<lambda>(i, count). count = 0) degree);
          order = kahn_loop g degree queue []
      in if length order = length (g_nodes g) then Some order else None)"

definition hasCycle :: "('k, 'd) graph \<Rightarrow> bool" where
  "hasCycle g \<longleftrightarrow> topologicalSort g = None"

section \<open>Finding a cycle\<close>

datatype colour = White | Grey | Black

definition colour_of :: "('k, colour) jsmap \<Rightarrow> 'k \<Rightarrow> colour" where
  "colour_of m i = (case jm_get m i of Some c \<Rightarrow> c | None \<Rightarrow> White)"

lemma colour_of_set [simp]: "colour_of (jm_set i c m) j = (if j = i then c else colour_of m j)"
  by (simp add: colour_of_def jm_get_set)

text \<open>A frame is a node and what its neighbour iterator has left; the top of the stack is
  first. \<open>Inl\<close> is a grey neighbour met: that neighbour, the frame's node and the parents.\<close>

function fc_walk ::
  "('k, 'd) graph \<Rightarrow> ('k, colour) jsmap \<Rightarrow> ('k, 'k) jsmap \<Rightarrow> ('k \<times> 'k list) list
    \<Rightarrow> 'k \<times> 'k \<times> ('k, 'k) jsmap + ('k, colour) jsmap \<times> ('k, 'k) jsmap"
where
  "fc_walk g colour parent [] = Inr (colour, parent)"
| "fc_walk g colour parent ((i, []) # stack) = fc_walk g (jm_set i Black colour) parent stack"
| "fc_walk g colour parent ((i, nx # rest) # stack) =
     (case colour_of colour nx of
        Grey \<Rightarrow> Inl (nx, i, parent)
      | White \<Rightarrow> fc_walk g (jm_set nx Grey colour) (jm_set nx i parent)
          ((nx, neighbors g nx) # (i, rest) # stack)
      | Black \<Rightarrow> fc_walk g colour parent ((i, rest) # stack))"
  by pat_completeness auto

lemma whites_set:
  assumes "c \<noteq> White" and "finite D"
  shows "card {x \<in> D. colour_of (jm_set i c m) x = White} \<le> card {x \<in> D. colour_of m x = White}"
    and "i \<in> D \<Longrightarrow> colour_of m i = White \<Longrightarrow>
      card {x \<in> D. colour_of (jm_set i c m) x = White} < card {x \<in> D. colour_of m x = White}"
proof -
  have eq: "{x \<in> D. colour_of (jm_set i c m) x = White} = {x \<in> D. colour_of m x = White} - {i}"
    using assms(1) by auto
  show "card {x \<in> D. colour_of (jm_set i c m) x = White} \<le> card {x \<in> D. colour_of m x = White}"
    unfolding eq using assms(2) by (intro card_mono) auto
  show "card {x \<in> D. colour_of (jm_set i c m) x = White} < card {x \<in> D. colour_of m x = White}"
    if "i \<in> D" "colour_of m i = White"
    unfolding eq using assms(2) that by (intro card_Diff1_less) auto
qed

termination fc_walk
proof (relation "measures [\<lambda>(g, colour, parent, stack). card {x \<in> reachables g. colour_of colour x = White},
    \<lambda>(g, colour, parent, stack). sum_list (map (\<lambda>(i, rest). 2 * length rest + 1) stack)]", goal_cases)
  case (2 g colour parent i stack)
  show ?case using whites_set(1) [of Black "reachables g" i colour] by (simp add: nat_less_le)
next
  case (3 g colour parent i nx rest stack)
  show ?case
  proof (cases "nx \<in> reachables g")
    case True
    then show ?thesis using whites_set(2) [of Grey "reachables g" nx colour] 3 by simp
  next
    case False
    then show ?thesis using whites_set(1) [of Grey "reachables g" nx colour] 3
      by (simp add: neighbors_outside nat_less_le)
  qed
qed simp_all

partial_function (option) fc_trace :: "('k, 'k) jsmap \<Rightarrow> 'k \<Rightarrow> 'k \<Rightarrow> 'k list \<Rightarrow> 'k list option" where
  "fc_trace parent nx cursor cycle =
     (if cursor = nx then Some cycle
      else case jm_get parent cursor of
             Some c \<Rightarrow> fc_trace parent nx c (cycle @ [cursor])
           | None \<Rightarrow> Some cycle)"

fun fc_starts ::
  "('k, 'd) graph \<Rightarrow> 'k list \<Rightarrow> ('k, colour) jsmap \<Rightarrow> ('k, 'k) jsmap \<Rightarrow> ('k \<times> 'k \<times> ('k, 'k) jsmap) option"
where
  "fc_starts g [] colour parent = None"
| "fc_starts g (i # ids) colour parent =
     (if colour_of colour i = White
      then case fc_walk g (jm_set i Grey colour) parent [(i, neighbors g i)] of
             Inl back \<Rightarrow> Some back
           | Inr (colour', parent') \<Rightarrow> fc_starts g ids colour' parent'
      else fc_starts g ids colour parent)"

text \<open>None of the inner type is \<open>null\<close>; None of the outer type is a trace that does not end.\<close>

definition findCycle :: "('k, 'd) graph \<Rightarrow> 'k list option option" where
  "findCycle g =
     (let ids = jm_keys (g_nodes g) in
      case fc_starts g ids (fold (\<lambda>i. jm_set i White) ids []) [] of
        None \<Rightarrow> Some None
      | Some (nx, i, parent) \<Rightarrow>
          map_option (\<lambda>cycle. Some (rev (cycle @ [nx]))) (fc_trace parent nx i [nx]))"

section \<open>Weakly connected components\<close>

text \<open>The top of the stack is first.\<close>

fun cc_push :: "'k list \<Rightarrow> 'k list \<Rightarrow> 'k list \<Rightarrow> 'k list \<times> 'k list" where
  "cc_push [] visited stack = (visited, stack)"
| "cc_push (nx # ns) visited stack =
     (if nx \<in> set visited then cc_push ns visited stack
      else cc_push ns (visited @ [nx]) (nx # stack))"

lemma cc_push_eq:
  "\<exists>new. cc_push ns visited stack = (visited @ new, rev new @ stack) \<and>
     distinct new \<and> set new = set ns - set visited"
proof (induction ns visited stack rule: cc_push.induct)
  case (2 nx ns visited stack)
  show ?case
  proof (cases "nx \<in> set visited")
    case False
    then obtain new where "cc_push ns (visited @ [nx]) (nx # stack) =
        ((visited @ [nx]) @ new, rev new @ nx # stack)"
      "distinct new" "set new = set ns - set (visited @ [nx])" using 2 by blast
    then show ?thesis using False by (intro exI [of _ "nx # new"]) auto
  qed (use 2 in auto)
qed simp

definition links :: "('k, 'd) graph \<Rightarrow> 'k \<Rightarrow> 'k list" where
  "links g i = neighbors g i @ predecessors g i"

definition linkables :: "('k, 'd) graph \<Rightarrow> 'k set" where
  "linkables g = reachables g \<union> \<Union>(set ` snd ` set (g_incoming g))"

lemma finite_linkables [simp]: "finite (linkables g)"
  by (simp add: linkables_def)

lemma links_sub: "set (links g i) \<subseteq> linkables g"
proof -
  have "set (predecessors g i) \<subseteq> \<Union>(set ` snd ` set (g_incoming g))"
    by (cases "jm_get (g_incoming g) i") (force simp: predecessors_def dest: map_of_SomeD)+
  then show ?thesis using neighbors_sub [of g i] by (auto simp: links_def linkables_def)
qed

function cc_walk :: "('k, 'd) graph \<Rightarrow> 'k list \<Rightarrow> 'k list \<Rightarrow> 'k list \<Rightarrow> 'k list \<times> 'k list" where
  "cc_walk g visited [] component = (visited, component)"
| "cc_walk g visited (i # stack) component =
     (let (visited', stack') = cc_push (links g i) visited stack
      in cc_walk g visited' stack' (component @ [i]))"
  by pat_completeness auto

termination cc_walk
proof (relation "measure (\<lambda>(g, visited, stack, component). length stack + card (linkables g - set visited))",
    goal_cases)
  case 1
  then show ?case by simp
next
  case (2 g visited i stack component p visited' stack')
  obtain new where new: "cc_push (links g i) visited stack = (visited @ new, rev new @ stack)"
    "distinct new" "set new = set (links g i) - set visited"
    using cc_push_eq [of "links g i" visited stack] by (elim exE conjE)
  have "(visited', stack') = cc_push (links g i) visited stack" using 2 by simp
  then have "visited' = visited @ new" "length stack' = length stack + length new"
    unfolding new(1) by simp_all
  then show ?case using bfs_measure [OF new(3,2) links_sub [of g i] finite_linkables] by simp
qed

fun cc_loop :: "('k, 'd) graph \<Rightarrow> 'k list \<Rightarrow> 'k list \<Rightarrow> 'k list list \<Rightarrow> 'k list list" where
  "cc_loop g [] visited components = components"
| "cc_loop g (start # ids) visited components =
     (if start \<in> set visited then cc_loop g ids visited components
      else let (visited', component) = cc_walk g (visited @ [start]) [start] []
           in cc_loop g ids visited' (components @ [component]))"

definition connectedComponents :: "('k, 'd) graph \<Rightarrow> 'k list list" where
  "connectedComponents g = cc_loop g (jm_keys (g_nodes g)) [] []"

end
