(* ===== verification/GraphSearch.thy ===== *)
theory GraphSearch
  imports GraphProps
begin

text \<open>
  Breadth-first search, shortest paths and depth-first search of
  \<open>packages/algorithms/src/graph.ts\<close> are right: one invariant of the queue, shared by \<open>bfs\<close>
  and \<open>shortestPath\<close>, says that the nodes found so far carry their distances.
\<close>

section \<open>Distances\<close>

definition hops :: "('k \<times> 'k) set \<Rightarrow> 'k \<Rightarrow> 'k \<Rightarrow> nat \<Rightarrow> bool" where
  "hops E s x d \<longleftrightarrow> (s, x) \<in> E ^^ d \<and> (\<forall>n. (s, x) \<in> E ^^ n \<longrightarrow> d \<le> n)"

lemma hops_unique: "hops E s x d \<Longrightarrow> hops E s x d' \<Longrightarrow> d = d'"
  by (auto simp: hops_def intro: antisym)

definition bfs_inv ::
  "('k \<times> 'k) set \<Rightarrow> 'k \<Rightarrow> nat option \<Rightarrow> 'k list \<Rightarrow> 'k list \<Rightarrow> ('k \<Rightarrow> nat) \<Rightarrow> bool"
where
  "bfs_inv E s m settled queue dep \<longleftrightarrow>
     distinct (settled @ queue) \<and> s \<in> set (settled @ queue) \<and> dep s = 0 \<and>
     sorted (map dep (settled @ queue)) \<and>
     (\<forall>x\<in>set (settled @ queue). (s, x) \<in> E ^^ dep x \<and> (\<forall>k<dep x. \<not> at_max m k)) \<and>
     (\<forall>x\<in>set settled. \<not> at_max m (dep x) \<longrightarrow>
        (\<forall>y. (x, y) \<in> E \<longrightarrow> y \<in> set (settled @ queue) \<and> dep y \<le> dep x + 1)) \<and>
     (queue \<noteq> [] \<longrightarrow> (\<forall>x\<in>set (settled @ queue). dep x \<le> dep (hd queue) + 1))"

lemma at_max_mono: "k \<le> d \<Longrightarrow> at_max m k \<Longrightarrow> at_max m d"
  by (auto simp: at_max_def split: option.splits)

text \<open>Every node nearer than the queue has been found, with its distance.\<close>

lemma bfs_inv_near:
  assumes inv: "bfs_inv E s m settled queue dep" and q: "\<forall>x\<in>set queue. n \<le> dep x"
    and m: "\<forall>k<n. \<not> at_max m k" and y: "(s, y) \<in> E ^^ n"
  shows "y \<in> set (settled @ queue) \<and> dep y \<le> n"
  using q m y
proof (induction n arbitrary: y)
  case 0
  then show ?case using inv by (auto simp: bfs_inv_def)
next
  case (Suc n)
  then obtain x where x: "(s, x) \<in> E ^^ n" "(x, y) \<in> E" by auto
  have IH: "x \<in> set (settled @ queue)" "dep x \<le> n"
    using Suc.IH [OF _ _ x(1)] Suc.prems(1,2) by fastforce+
  then have "x \<in> set settled" using Suc.prems(1) by fastforce
  moreover have "\<not> at_max m (dep x)" using IH(2) Suc.prems(2) by auto
  ultimately have "y \<in> set (settled @ queue)" "dep y \<le> dep x + 1"
    using inv x(2) unfolding bfs_inv_def by blast+
  then show ?case using IH(2) by simp
qed

lemma bfs_inv_done:
  assumes inv: "bfs_inv E s m settled [] dep"
  shows "x \<in> set settled \<and> dep x = d \<longleftrightarrow> hops E s x d \<and> (\<forall>k<d. \<not> at_max m k)"
proof
  have near: "(s, x) \<in> E ^^ n \<Longrightarrow> \<forall>k<n. \<not> at_max m k \<Longrightarrow> x \<in> set settled \<and> dep x \<le> n" for n
    using bfs_inv_near [OF inv, of n x] by simp
  assume x: "x \<in> set settled \<and> dep x = d"
  then have d: "(s, x) \<in> E ^^ d" "\<forall>k<d. \<not> at_max m k" using inv by (auto simp: bfs_inv_def)
  have "d \<le> n" if "(s, x) \<in> E ^^ n" for n
  proof (rule ccontr)
    assume "\<not> d \<le> n"
    then show False using near [OF that] d(2) x by auto
  qed
  then show "hops E s x d \<and> (\<forall>k<d. \<not> at_max m k)" using d by (simp add: hops_def)
next
  assume d: "hops E s x d \<and> (\<forall>k<d. \<not> at_max m k)"
  then have x: "x \<in> set settled" "dep x \<le> d"
    using bfs_inv_near [OF inv, of d x] by (auto simp: hops_def)
  then have "(s, x) \<in> E ^^ dep x" using inv by (simp add: bfs_inv_def)
  then have "d \<le> dep x" using d by (simp add: hops_def)
  then show "x \<in> set settled \<and> dep x = d" using x by simp
qed

lemma bfs_inv_skip:
  assumes "bfs_inv E s m settled (q # queue) dep" and "at_max m (dep q)"
  shows "bfs_inv E s m (settled @ [q]) queue dep"
proof -
  have "dep x \<le> dep q + 1" if "x \<in> set (settled @ q # queue)" for x
    using assms(1) that by (auto simp: bfs_inv_def)
  moreover have "dep q \<le> dep y" if "y \<in> set queue" for y
    using assms(1) that by (auto simp: bfs_inv_def sorted_append)
  ultimately have "dep x \<le> dep (hd queue) + 1" if "queue \<noteq> []" "x \<in> set (settled @ q # queue)" for x
    using that by (metis add_le_mono1 hd_in_set order_trans)
  then show ?thesis using assms by (auto simp: bfs_inv_def)
qed

lemma sorted_append_const:
  "sorted xs \<Longrightarrow> \<forall>x\<in>set xs. x \<le> (d::nat) \<Longrightarrow> sorted (xs @ replicate n d)"
  by (auto simp: sorted_append sorted_replicate)

text \<open>One turn of the loop: the new neighbours are one hop further than the node at the head.\<close>

lemma bfs_inv_step:
  assumes inv: "bfs_inv E s m settled (q # queue) dep" and q: "\<not> at_max m (dep q)"
    and new: "distinct new" "set new = {y. (q, y) \<in> E} - set (settled @ q # queue)"
    and dep': "dep' = (\<lambda>x. if x \<in> set new then dep q + 1 else dep x)"
  shows "bfs_inv E s m (settled @ [q]) (queue @ new) dep'"
proof -
  let ?L = "settled @ q # queue"
  have old: "dep' x = dep x" if "x \<in> set ?L" for x using that new(2) by (auto simp: dep')
  have le: "dep x \<le> dep q + 1" if "x \<in> set ?L" for x using inv that by (auto simp: bfs_inv_def)
  have qd: "(s, q) \<in> E ^^ dep q" using inv by (auto simp: bfs_inv_def)
  have ge: "dep q \<le> dep y" if "y \<in> set queue" for y
    using inv that by (auto simp: bfs_inv_def sorted_append)
  have maps: "map dep' ?L = map dep ?L" "map dep' new = replicate (length new) (dep q + 1)"
    using old by (auto simp: dep' map_replicate_const [symmetric])
  have sorted: "sorted (map dep' (?L @ new))"
    unfolding map_append [of _ ?L] maps using inv le
    by (intro sorted_append_const) (auto simp: bfs_inv_def)
  have reach: "(s, x) \<in> E ^^ dep' x \<and> (\<forall>k<dep' x. \<not> at_max m k)" if "x \<in> set (?L @ new)" for x
  proof (cases "x \<in> set new")
    case True
    then have "(q, x) \<in> E" using new(2) by auto
    moreover have "\<not> at_max m k" if "k < dep q + 1" for k using q at_max_mono [of k "dep q" m] that by auto
    ultimately show ?thesis using True qd by (auto simp: dep')
  next
    case False
    then have "x \<in> set ?L" using that by auto
    then show ?thesis using inv old by (auto simp: bfs_inv_def)
  qed
  have closed: "y \<in> set (?L @ new) \<and> dep' y \<le> dep' x + 1"
    if "x \<in> set (settled @ [q])" "\<not> at_max m (dep' x)" "(x, y) \<in> E" for x y
  proof (cases "x = q")
    case True
    then show ?thesis using that(3) new(2) old [of q] old [of y] le [of y] by (auto simp: dep')
  next
    case False
    then have x: "x \<in> set settled" "dep' x = dep x" using that(1) old [of x] by auto
    then have "y \<in> set ?L" "dep y \<le> dep x + 1" using inv that(2,3) by (auto simp: bfs_inv_def)
    then show ?thesis using old x by auto
  qed
  have head: "dep' x \<le> dep' (hd (queue @ new)) + 1" if "queue @ new \<noteq> []" "x \<in> set (?L @ new)" for x
  proof -
    have "dep q \<le> dep' (hd (queue @ new))"
    proof (cases queue)
      case Nil
      then have "hd (queue @ new) \<in> set new" using that(1) by simp
      then show ?thesis by (simp add: dep')
    next
      case (Cons y ys)
      then show ?thesis using ge [of y] old [of y] by simp
    qed
    moreover have "dep' x \<le> dep q + 1" using that(2) le [of x] by (auto simp: dep')
    ultimately show ?thesis by linarith
  qed
  have "dep' s = 0" using inv old [of s] by (auto simp: bfs_inv_def)
  moreover have "distinct (?L @ new)" using inv new by (auto simp: bfs_inv_def)
  moreover have "s \<in> set (?L @ new)" using inv by (auto simp: bfs_inv_def)
  ultimately show ?thesis
    using sorted reach closed head unfolding bfs_inv_def by simp
qed

lemma bfs_inv_start: "bfs_inv E s m [] [s] (\<lambda>_. 0)"
  by (simp add: bfs_inv_def)

section \<open>Breadth-first search\<close>

definition with_depth :: "('k \<Rightarrow> nat) \<Rightarrow> 'k list \<Rightarrow> ('k \<times> nat) list" where
  "with_depth dep xs = map (\<lambda>x. (x, dep x)) xs"

lemma with_depth_new:
  assumes "set new \<inter> set xs = {}"
  shows "with_depth (\<lambda>x. if x \<in> set new then d else dep x) xs = with_depth dep xs"
  using assms by (auto simp: with_depth_def)

lemma bfs_loop_inv:
  "bfs_inv (adj g) s m settled queue dep \<Longrightarrow> set visited = set (settled @ queue) \<Longrightarrow>
     \<exists>settled' dep'. bfs_loop g m visited (with_depth dep queue) (with_depth dep settled) =
         with_depth dep' settled' \<and> bfs_inv (adj g) s m settled' [] dep'"
proof (induction g m visited "with_depth dep queue" "with_depth dep settled"
    arbitrary: settled queue dep rule: bfs_loop.induct)
  case (1 g m visited)
  then show ?case by (force simp: with_depth_def)
next
  case (2 g m visited i depth rest)
  obtain qs where q: "queue = i # qs" "depth = dep i" "rest = with_depth dep qs"
    using 2(3) by (cases queue) (auto simp: with_depth_def)
  have settled_i: "with_depth dep settled @ [(i, depth)] = with_depth dep (settled @ [i])"
    by (simp add: with_depth_def q)
  show ?case
  proof (cases "at_max m depth")
    case True
    have "bfs_inv (adj g) s m (settled @ [i]) qs dep"
      using bfs_inv_skip 2(4) True unfolding q(1,2) by metis
    then have "\<exists>settled' dep'. bfs_loop g m visited (with_depth dep qs) (with_depth dep (settled @ [i])) =
        with_depth dep' settled' \<and> bfs_inv (adj g) s m settled' [] dep'"
      using 2(5) q by (intro 2(1) [OF True q(3) settled_i]) simp_all
    then show ?thesis using True q by (simp add: with_depth_def)
  next
    case False
    obtain new where new: "bfs_push (neighbors g i) depth visited rest =
        (visited @ new, rest @ map (\<lambda>x. (x, depth + 1)) new)"
      "distinct new" "set new = set (neighbors g i) - set visited"
      using bfs_push_eq [of "neighbors g i" depth visited rest] by (elim exE conjE)
    define d where "d = (\<lambda>x. if x \<in> set new then dep i + 1 else dep x)"
    have disj: "set new \<inter> set (settled @ [i]) = {}" "set new \<inter> set qs = {}"
      using new(3) 2(5) by (auto simp: q)
    have queue': "rest @ map (\<lambda>x. (x, depth + 1)) new = with_depth d (qs @ new)"
      using with_depth_new [OF disj(2), of "dep i + 1" dep] by (auto simp: d_def q with_depth_def)
    have order': "with_depth dep settled @ [(i, depth)] = with_depth d (settled @ [i])"
      using with_depth_new [OF disj(1), of "dep i + 1" dep] by (simp add: d_def settled_i)
    have "bfs_inv (adj g) s m (settled @ [i]) (qs @ new) d"
      using 2(4,5) False new(2,3) unfolding q
      by (intro bfs_inv_step [where new = new and q = i, OF _ _ _ _ d_def]) (auto simp: adj_def)
    moreover have "set (visited @ new) = set ((settled @ [i]) @ qs @ new)" using 2(5) q by auto
    ultimately have IH: "\<exists>settled' dep'. bfs_loop g m (visited @ new) (with_depth d (qs @ new))
        (with_depth d (settled @ [i])) = with_depth dep' settled' \<and> bfs_inv (adj g) s m settled' [] dep'"
      using new(1) queue' order' False by (intro 2(2)) simp_all
    have "bfs_loop g m visited (with_depth dep queue) (with_depth dep settled) =
        bfs_loop g m (visited @ new) (with_depth d (qs @ new)) (with_depth d (settled @ [i]))"
      using False new(1)
      by (simp add: 2(3) [symmetric] queue' [symmetric] order' [symmetric] del: map_eq_conv)
    then show ?thesis using IH by (simp only:)
  qed
qed

text \<open>Breadth-first search finds every node within \<open>maxDepth\<close> hops of the start, each
  once, with its exact distance, nearest first, and nothing else; from a start that is not
  in the graph it finds nothing.\<close>

theorem bfs_correct:
  "distinct (map fst (bfs g s m)) \<and> sorted (map snd (bfs g s m)) \<and>
     ((x, d) \<in> set (bfs g s m) \<longleftrightarrow> hasNode g s \<and> hops (adj g) s x d \<and> (m = None \<or> d \<le> the m))"
proof (cases "hasNode g s")
  case False
  then show ?thesis by (simp add: bfs_def hasNode_def)
next
  case s: True
  have "with_depth (\<lambda>_. 0) [s] = [(s, 0)]" "with_depth (\<lambda>_. 0) ([]::'a list) = []"
    by (simp_all add: with_depth_def)
  then obtain settled dep where b: "bfs g s m = with_depth dep settled"
    and inv: "bfs_inv (adj g) s m settled [] dep"
    using bfs_loop_inv [OF bfs_inv_start, where visited = "[s]" and g = g and m = m] s by (auto simp: bfs_def hasNode_def)
  have m: "(\<forall>k<d. \<not> at_max m k) \<longleftrightarrow> m = None \<or> d \<le> the m"
    by (cases m) (auto simp: at_max_def not_le not_less dest: spec [of _ "the m"])
  have "distinct settled" "sorted (map dep settled)" using inv by (auto simp: bfs_inv_def)
  moreover have "(x, d) \<in> set (bfs g s m) \<longleftrightarrow> x \<in> set settled \<and> dep x = d"
    by (auto simp: b with_depth_def)
  ultimately show ?thesis
    unfolding bfs_inv_done [OF inv] m using s by (simp add: b with_depth_def o_def)
qed

section \<open>Shortest path\<close>

text \<open>A walk: consecutive nodes are joined by an edge.\<close>

fun walk :: "('k \<times> 'k) set \<Rightarrow> 'k list \<Rightarrow> bool" where
  "walk E [] = False"
| "walk E [x] = True"
| "walk E (x # y # zs) = ((x, y) \<in> E \<and> walk E (y # zs))"

lemma walk_snoc: "walk E (xs @ [x, y]) \<longleftrightarrow> walk E (xs @ [x]) \<and> (x, y) \<in> E"
  by (induction xs rule: induct_list012) auto

definition record_parents :: "'k \<Rightarrow> 'k list \<Rightarrow> ('k, 'k) jsmap \<Rightarrow> ('k, 'k) jsmap" where
  "record_parents c new previous = fold (\<lambda>x. jm_set x c) new previous"

lemma record_parents_get:
  "jm_get (record_parents c new previous) x = (if x \<in> set new then Some c else jm_get previous x)"
  by (induction new arbitrary: previous) (auto simp: record_parents_def jm_get_set)

lemma sp_push_spec:
  "case sp_push t ns c visited previous queue of
     Inl previous' \<Rightarrow> \<exists>new. previous' = record_parents c new previous \<and> t \<in> set new \<and>
       set new \<subseteq> set ns - set visited
   | Inr (visited', previous', queue') \<Rightarrow> \<exists>new. visited' = visited @ new \<and> queue' = queue @ new \<and>
       previous' = record_parents c new previous \<and> distinct new \<and>
       set new = set ns - set visited \<and> t \<notin> set new"
proof (induction t ns c visited previous queue rule: sp_push.induct)
  case (1 t c visited previous queue)
  then show ?case by (simp add: record_parents_def)
next
  case (2 t nx ns c visited previous queue)
  have rp: "record_parents c (nx # new) previous = record_parents c new (jm_set nx c previous)" for new
    by (simp add: record_parents_def)
  consider (old) "nx \<in> set visited" | (found) "nx \<notin> set visited" "nx = t"
    | (new) "nx \<notin> set visited" "nx \<noteq> t" by blast
  then show ?case
  proof cases
    case old
    then show ?thesis using "2.IH"(1) [OF old] by (auto split: sum.splits)
  next
    case found
    then show ?thesis by (auto simp: record_parents_def intro: exI [of _ "[t]"])
  next
    case new
    let ?r = "sp_push t ns c (visited @ [nx]) (jm_set nx c previous) (queue @ [nx])"
    have eq: "sp_push t (nx # ns) c visited previous queue = ?r" using new by simp
    show ?thesis
    proof (cases ?r)
      case (Inl previous')
      then obtain ys where "previous' = record_parents c ys (jm_set nx c previous)" "t \<in> set ys"
        "set ys \<subseteq> set ns - set (visited @ [nx])"
        using "2.IH"(2) [OF new(1) refl new(2)] by auto
      then show ?thesis unfolding eq Inl using new by (auto simp: rp intro!: exI [of _ "nx # ys"])
    next
      case (Inr b)
      obtain visited' previous' queue' where b: "b = (visited', previous', queue')" by (cases b)
      then obtain ys where "visited' = (visited @ [nx]) @ ys" "queue' = (queue @ [nx]) @ ys"
        "previous' = record_parents c ys (jm_set nx c previous)" "distinct ys"
        "set ys = set ns - set (visited @ [nx])" "t \<notin> set ys"
        using "2.IH"(2) [OF new(1) refl new(2)] Inr by auto
      then show ?thesis unfolding eq Inr b using new by (auto simp: rp intro!: exI [of _ "nx # ys"])
    qed
  qed
qed

definition parents_inv ::
  "('k \<times> 'k) set \<Rightarrow> 'k \<Rightarrow> 'k set \<Rightarrow> ('k, 'k) jsmap \<Rightarrow> ('k \<Rightarrow> nat) \<Rightarrow> bool"
where
  "parents_inv E s L previous dep \<longleftrightarrow> s \<in> L \<and> jm_get previous s = None \<and> dep s = 0 \<and>
     (\<forall>x\<in>L - {s}. \<exists>c\<in>L. jm_get previous x = Some c \<and> (c, x) \<in> E \<and> dep x = dep c + 1)"

lemma parents_inv_step:
  assumes "parents_inv E s L previous dep" and "q \<in> L" and "set new \<inter> L = {}"
    and "\<And>x. x \<in> set new \<Longrightarrow> (q, x) \<in> E"
  shows "parents_inv E s (L \<union> set new) (record_parents q new previous)
    (\<lambda>x. if x \<in> set new then dep q + 1 else dep x)"
proof -
  let ?d = "\<lambda>x. if x \<in> set new then dep q + 1 else dep x"
  have old: "x \<in> L \<Longrightarrow> x \<notin> set new" for x using assms(3) by blast
  have step: "\<exists>c\<in>L \<union> set new. jm_get (record_parents q new previous) x = Some c \<and> (c, x) \<in> E \<and> ?d x = ?d c + 1"
    if "x \<in> L \<union> set new - {s}" for x
  proof (cases "x \<in> set new")
    case True
    then show ?thesis using assms(2,4) old [of q] by (intro bexI [of _ q]) (simp_all add: record_parents_get)
  next
    case False
    then have "x \<in> L - {s}" using that by simp
    with assms(1) [unfolded parents_inv_def, THEN conjunct2, THEN conjunct2, THEN conjunct2]
    obtain c where "c \<in> L" "jm_get previous x = Some c" "(c, x) \<in> E" "dep x = dep c + 1"
      by (elim bspec [elim_format] bexE conjE)
    then show ?thesis using False old [of c] by (intro bexI [of _ c]) (simp_all add: record_parents_get)
  qed
  have s: "s \<in> L" "jm_get previous s = None" "dep s = 0" using assms(1) by (simp_all add: parents_inv_def)
  show ?thesis
    unfolding parents_inv_def
  proof (intro conjI ballI)
    show "s \<in> L \<union> set new" "jm_get (record_parents q new previous) s = None" "?d s = 0"
      using s old [OF s(1)] by (simp_all add: record_parents_get)
  qed (rule step)
qed

text \<open>The walk back ends at the start and is a walk of the recorded length.\<close>

lemma sp_trace_spec:
  assumes "parents_inv E s L previous dep"
  shows "x \<in> L \<Longrightarrow> \<exists>q. sp_trace previous x path = Some (path @ rev q) \<and> walk E (q @ [x]) \<and>
    hd (q @ [x]) = s \<and> length q = dep x"
proof (induction "dep x" arbitrary: x path)
  case 0
  have "x = s"
  proof (rule ccontr)
    assume "x \<noteq> s"
    then have "x \<in> L - {s}" using 0 by simp
    then obtain c where "dep x = dep c + 1" using assms unfolding parents_inv_def by blast
    then show False using 0 by simp
  qed
  then show ?case using assms 0 by (subst sp_trace.simps) (auto simp: parents_inv_def)
next
  case (Suc n)
  then have "x \<in> L - {s}" using assms by (auto simp: parents_inv_def)
  then obtain c where c: "c \<in> L" "jm_get previous x = Some c" "(c, x) \<in> E" "dep x = dep c + 1"
    using assms unfolding parents_inv_def by blast
  obtain q where q: "sp_trace previous c (path @ [c]) = Some ((path @ [c]) @ rev q)" "walk E (q @ [c])"
    "hd (q @ [c]) = s" "length q = dep c"
    using Suc.hyps(1) [of c "path @ [c]"] Suc.hyps(2) c by auto
  have "sp_trace previous x path = sp_trace previous c (path @ [c])"
    using c(2) by (subst sp_trace.simps) simp
  then show ?case using q c walk_snoc [of E q c x] by (intro exI [of _ "q @ [c]"]) (auto simp: hd_append)
qed

lemma sp_loop_inv:
  assumes "bfs_inv (adj g) s None settled queue dep" and "set visited = set (settled @ queue)"
    and "parents_inv (adj g) s (set visited) previous dep" and "t \<notin> set visited"
  shows "case sp_loop g t visited previous queue of
      None \<Rightarrow> (\<forall>n. (s, t) \<notin> adj g ^^ n)
    | Some previous' \<Rightarrow> \<exists>L dep'. parents_inv (adj g) s L previous' dep' \<and> t \<in> L \<and> hops (adj g) s t (dep' t)"
  using assms
proof (induction g t visited previous queue arbitrary: settled dep rule: sp_loop.induct)
  case (1 g t visited previous)
  then show ?case using bfs_inv_near [of "adj g" s None settled "[]" dep] by (auto simp: at_max_def)
next
  case (2 g t visited previous q queue)
  have qv: "q \<in> set visited" using 2 by simp
  have spec: "case sp_push t (neighbors g q) q visited previous queue of
      Inl previous' \<Rightarrow> \<exists>new. previous' = record_parents q new previous \<and> t \<in> set new \<and>
        set new \<subseteq> set (neighbors g q) - set visited
    | Inr (visited', previous', queue') \<Rightarrow> \<exists>new. visited' = visited @ new \<and> queue' = queue @ new \<and>
        previous' = record_parents q new previous \<and> distinct new \<and>
        set new = set (neighbors g q) - set visited \<and> t \<notin> set new"
    by (rule sp_push_spec)
  show ?case
  proof (cases "sp_push t (neighbors g q) q visited previous queue")
    case (Inl previous')
    then obtain new where new: "previous' = record_parents q new previous" "t \<in> set new"
      "set new \<subseteq> set (neighbors g q) - set visited" using spec by auto
    let ?d = "\<lambda>x. if x \<in> set new then dep q + 1 else dep x"
    have par: "parents_inv (adj g) s (set visited \<union> set new) previous' ?d"
      unfolding new(1) using 2 qv new(3) by (intro parents_inv_step) (auto simp: adj_def)
    have qd: "(s, q) \<in> adj g ^^ dep q" using "2.prems"(1) by (simp add: bfs_inv_def)
    have ge: "\<forall>x\<in>set (q # queue). dep q \<le> dep x"
      using "2.prems"(1) by (auto simp: bfs_inv_def sorted_append)
    have "dep q + 1 \<le> n" if n: "(s, t) \<in> adj g ^^ n" for n
    proof (rule ccontr)
      assume "\<not> dep q + 1 \<le> n"
      then have "\<forall>x\<in>set (q # queue). n \<le> dep x" using ge by fastforce
      then have "t \<in> set visited"
        using bfs_inv_near [OF "2.prems"(1) _ _ n] "2.prems"(2) by (simp add: at_max_def)
      then show False using "2.prems"(4) by simp
    qed
    moreover have "(s, t) \<in> adj g ^^ (dep q + 1)"
      using qd new(2,3) by (auto simp: adj_def)
    ultimately have "hops (adj g) s t (?d t)" using new(2) by (simp add: hops_def)
    then have "\<exists>L dep'. parents_inv (adj g) s L previous' dep' \<and> t \<in> L \<and> hops (adj g) s t (dep' t)"
      using par new(2) by (intro exI [of _ "set visited \<union> set new"] exI [of _ ?d] conjI) simp_all
    then show ?thesis using Inl by simp
  next
    case (Inr b)
    obtain visited' previous' queue' where b: "b = (visited', previous', queue')" by (cases b)
    obtain new where new: "visited' = visited @ new" "queue' = queue @ new"
      "previous' = record_parents q new previous" "distinct new"
      "set new = set (neighbors g q) - set visited" "t \<notin> set new" using spec Inr b by auto
    define d where "d = (\<lambda>x. if x \<in> set new then dep q + 1 else dep x)"
    have inv': "bfs_inv (adj g) s None (settled @ [q]) queue' d"
      unfolding new(2) using "2.prems"(1,2) new(4,5)
      by (intro bfs_inv_step [where new = new, OF _ _ _ _ d_def]) (auto simp: adj_def at_max_def)
    have vis: "set visited' = set ((settled @ [q]) @ queue')" using "2.prems"(2) by (auto simp: new(1,2))
    have sv: "set visited' = set visited \<union> set new" by (simp add: new(1))
    have disj: "set new \<inter> set visited = {}" and edge: "\<And>x. x \<in> set new \<Longrightarrow> (q, x) \<in> adj g"
      using new(5) by (auto simp: adj_def)
    have par': "parents_inv (adj g) s (set visited') previous' d"
      unfolding new(3) d_def sv by (rule parents_inv_step [OF "2.prems"(3) qv disj edge])
    have "t \<notin> set visited'" using "2.prems"(4) new(6) by (simp add: new(1))
    note IH = "2.IH" [OF Inr b [symmetric] refl inv' vis par' this]
    have "sp_loop g t visited previous (q # queue) = sp_loop g t visited' previous' queue'"
      using Inr b by simp
    then show ?thesis using IH by (simp only:)
  qed
qed

text \<open>\<open>shortestPath\<close> is right and always returns: null exactly when one of the two nodes
  is unknown or the target cannot be reached, and otherwise a walk of edges from the first
  node to the second whose length is the distance between them.\<close>

theorem shortestPath_correct:
  "case shortestPath g a b of
     None \<Rightarrow> False
   | Some None \<Rightarrow> \<not> (hasNode g a \<and> hasNode g b \<and> (a, b) \<in> (adj g)\<^sup>*)
   | Some (Some path) \<Rightarrow> hasNode g a \<and> hasNode g b \<and> walk (adj g) path \<and> hd path = a \<and>
       List.last path = b \<and> hops (adj g) a b (length path - 1)"
proof (cases "hasNode g a \<and> hasNode g b \<and> a \<noteq> b")
  case False
  then show ?thesis by (auto simp: shortestPath_def hasNode_def hops_def)
next
  case True
  have "parents_inv (adj g) a (set [a]) [] (\<lambda>_. 0)" by (simp add: parents_inv_def)
  then have loop: "case sp_loop g b [a] [] [a] of
      None \<Rightarrow> (\<forall>n. (a, b) \<notin> adj g ^^ n)
    | Some previous' \<Rightarrow> \<exists>L dep'. parents_inv (adj g) a L previous' dep' \<and> b \<in> L \<and> hops (adj g) a b (dep' b)"
    using True by (intro sp_loop_inv [OF bfs_inv_start]) auto
  show ?thesis
  proof (cases "sp_loop g b [a] [] [a]")
    case None
    then show ?thesis using loop True by (auto simp: shortestPath_def hasNode_def rtrancl_power)
  next
    case (Some previous)
    then obtain L dep where L: "parents_inv (adj g) a L previous dep" "b \<in> L" "hops (adj g) a b (dep b)"
      using loop by auto
    obtain q where "sp_trace previous b [b] = Some ([b] @ rev q)" "walk (adj g) (q @ [b])"
      "hd (q @ [b]) = a" "length q = dep b" using sp_trace_spec [OF L(1,2)] by blast
    then show ?thesis using Some True L(3) by (auto simp: shortestPath_def hasNode_def)
  qed
qed

section \<open>Depth-first search\<close>

lemma dfs_loop_spec:
  assumes "set visited = set order" and "distinct order"
    and "\<forall>x\<in>set order. \<forall>y. (x, y) \<in> adj g \<longrightarrow> y \<in> set order \<union> set stack"
    and "\<forall>x\<in>set order \<union> set stack. (s, x) \<in> (adj g)\<^sup>*"
  shows "distinct (dfs_loop g visited stack order) \<and> set order \<union> set stack \<subseteq> set (dfs_loop g visited stack order) \<and>
    (\<forall>x\<in>set (dfs_loop g visited stack order). (s, x) \<in> (adj g)\<^sup>* \<and>
       (\<forall>y. (x, y) \<in> adj g \<longrightarrow> y \<in> set (dfs_loop g visited stack order)))"
  using assms
proof (induction g visited stack order rule: dfs_loop.induct)
  case (1 g visited order)
  then show ?case by simp
next
  case (2 g visited i stack order)
  show ?case
  proof (cases "i \<in> set visited")
    case True
    then show ?thesis using 2(1) [OF True] "2.prems" by (simp add: insert_absorb)
  next
    case False
    have "\<forall>x\<in>set (neighbors g i). (s, x) \<in> (adj g)\<^sup>*"
      using "2.prems"(4) by (auto simp: adj_def intro: rtrancl_into_rtrancl)
    then have "distinct (dfs_loop g (visited @ [i]) (neighbors g i @ stack) (order @ [i])) \<and>
      set (order @ [i]) \<union> set (neighbors g i @ stack) \<subseteq> set (dfs_loop g (visited @ [i]) (neighbors g i @ stack) (order @ [i])) \<and>
      (\<forall>x\<in>set (dfs_loop g (visited @ [i]) (neighbors g i @ stack) (order @ [i])). (s, x) \<in> (adj g)\<^sup>* \<and>
       (\<forall>y. (x, y) \<in> adj g \<longrightarrow> y \<in> set (dfs_loop g (visited @ [i]) (neighbors g i @ stack) (order @ [i]))))"
      using False "2.prems" by (intro 2(2)) (auto simp: adj_def)
    then show ?thesis using False by auto
  qed
qed

text \<open>Depth-first search visits exactly what the start reaches, each node once.\<close>

lemma dfs_correct:
  assumes "hasNode g s"
  shows "distinct (dfs g s) \<and> set (dfs g s) = {x. (s, x) \<in> (adj g)\<^sup>*}"
proof -
  have spec: "distinct (dfs g s)" "s \<in> set (dfs g s)" "\<And>x. x \<in> set (dfs g s) \<Longrightarrow> (s, x) \<in> (adj g)\<^sup>*"
    "\<And>x y. x \<in> set (dfs g s) \<Longrightarrow> (x, y) \<in> adj g \<Longrightarrow> y \<in> set (dfs g s)"
    using dfs_loop_spec [of "[]" "[]" g "[s]" s] assms by (auto simp: dfs_def hasNode_def)
  have "x \<in> set (dfs g s)" if "(s, x) \<in> (adj g)\<^sup>*" for x
    using that by (induction rule: rtrancl_induct) (auto intro: spec)
  then show ?thesis using spec by blast
qed

end
