(* ===== verification/GraphOrder.thy ===== *)
theory GraphOrder
  imports GraphSearch
begin

text \<open>
  Orders, cycles and components of the dependency graph
  (\<open>packages/algorithms/src/graph.ts\<close>): Kahn's algorithm returns a dependency order exactly
  for the acyclic graphs, \<open>findCycle\<close> returns a closed walk exactly for the others, and
  \<open>connectedComponents\<close> returns the weakly connected classes.
\<close>

section \<open>Topological sort\<close>

text \<open>No edge leads from a node to itself or to an earlier one.\<close>

fun topo_sorted :: "('k \<times> 'k) set \<Rightarrow> 'k list \<Rightarrow> bool" where
  "topo_sorted E [] = True"
| "topo_sorted E (x # xs) = ((\<forall>y\<in>set (x # xs). (y, x) \<notin> E) \<and> topo_sorted E xs)"

lemma topo_sorted_snoc:
  "topo_sorted E (xs @ [v]) \<longleftrightarrow> topo_sorted E xs \<and> (\<forall>x\<in>set (xs @ [v]). (v, x) \<notin> E)"
  by (induction xs) auto

lemma topo_sorted_append:
  "topo_sorted E xs \<Longrightarrow> \<forall>x\<in>set (xs @ new). \<forall>u. (u, x) \<in> E \<longrightarrow> u \<in> P \<Longrightarrow> set new \<inter> P = {} \<Longrightarrow>
     topo_sorted E (xs @ new)"
proof (induction new rule: rev_induct)
  case (snoc v new)
  then have "topo_sorted E (xs @ new)" by auto
  then show ?case using snoc.prems topo_sorted_snoc [of E "xs @ new" v] by auto
qed simp

definition position :: "'k list \<Rightarrow> 'k \<Rightarrow> nat" where
  "position xs x = length (takeWhile (\<lambda>y. y \<noteq> x) xs)"

lemma topo_sorted_position:
  "topo_sorted E xs \<Longrightarrow> (a, b) \<in> E \<Longrightarrow> a \<in> set xs \<Longrightarrow> b \<in> set xs \<Longrightarrow> position xs a < position xs b"
  by (induction xs) (auto simp: position_def)

lemma topo_sorted_acyclic:
  assumes "topo_sorted E xs" and "\<And>x y. (x, y) \<in> E \<Longrightarrow> x \<in> set xs \<and> y \<in> set xs"
  shows "acyclic E"
proof (rule acyclicI_order)
  fix a b assume "(a, b) \<in> E"
  then show "- int (position xs b) < - int (position xs a)"
    using topo_sorted_position [OF assms(1)] assms(2) by simp
qed

lemma kahn_push_spec:
  "distinct ns \<Longrightarrow> \<exists>degree'. kahn_push ns degree queue =
      (degree', queue @ filter (\<lambda>v. degree_of degree v = 1) ns) \<and>
      (\<forall>v. degree_of degree' v = degree_of degree v - (if v \<in> set ns then 1 else 0))"
proof (induction ns arbitrary: degree queue)
  case (Cons n ns)
  let ?d = "jm_set n (degree_of degree n - 1) degree"
  have "filter (\<lambda>v. degree_of ?d v = 1) ns = filter (\<lambda>v. degree_of degree v = 1) ns"
    using Cons.prems by (intro filter_cong) auto
  moreover obtain degree' where
    "kahn_push ns ?d (if degree_of degree n - 1 = 0 then queue @ [n] else queue) =
      (degree', (if degree_of degree n - 1 = 0 then queue @ [n] else queue) @
         filter (\<lambda>v. degree_of ?d v = 1) ns)"
    "\<forall>v. degree_of degree' v = degree_of ?d v - (if v \<in> set ns then 1 else 0)"
    using Cons.IH [of ?d] Cons.prems by auto
  ultimately show ?case using Cons.prems by (intro exI [of _ degree']) (auto simp: Let_def)
qed simp

definition waits_for :: "('k, 'd) graph \<Rightarrow> 'k list \<Rightarrow> 'k \<Rightarrow> 'k set" where
  "waits_for g order v = {u. (u, v) \<in> adj g \<and> u \<notin> set order}"

definition kahn_inv :: "('k, 'd) graph \<Rightarrow> ('k, int) jsmap \<Rightarrow> 'k list \<Rightarrow> 'k list \<Rightarrow> bool" where
  "kahn_inv g degree queue order \<longleftrightarrow>
     distinct (order @ queue) \<and> topo_sorted (adj g) (order @ queue) \<and>
     (\<forall>v\<in>node_set g. degree_of degree v = int (card (waits_for g order v))) \<and>
     set (order @ queue) = {v \<in> node_set g. waits_for g order v = {}}"

lemma finite_waits_for: "graph_wf g \<Longrightarrow> finite (waits_for g order v)"
  by (rule finite_subset [of _ "node_set g"]) (auto simp: waits_for_def dest: adj_nodes)

lemma kahn_inv_step:
  assumes wf: "graph_wf g" and inv: "kahn_inv g degree (i # queue) order"
    and push: "kahn_push (neighbors g i) degree queue = (degree', queue')"
  shows "kahn_inv g degree' queue' (order @ [i])"
proof -
  let ?new = "filter (\<lambda>v. degree_of degree v = 1) (neighbors g i)"
  have ns: "distinct (neighbors g i)" "\<And>v. v \<in> set (neighbors g i) \<longleftrightarrow> (i, v) \<in> adj g"
    using wf by (auto simp: graph_wf_def adj_def)
  have q': "queue' = queue @ ?new"
    and d': "\<And>v. degree_of degree' v = degree_of degree v - (if (i, v) \<in> adj g then 1 else 0)"
    using kahn_push_spec [OF ns(1), of degree queue] push ns(2) by auto
  have i: "i \<notin> set order" using inv by (auto simp: kahn_inv_def)
  have deg: "\<And>v. v \<in> node_set g \<Longrightarrow> degree_of degree v = int (card (waits_for g order v))"
    and dist: "distinct (order @ i # queue)" and topo: "topo_sorted (adj g) (order @ i # queue)"
    and ready: "set (order @ i # queue) = {v \<in> node_set g. waits_for g order v = {}}"
    using inv by (auto simp: kahn_inv_def)
  have wait': "waits_for g (order @ [i]) v = waits_for g order v - {i}" for v
    by (auto simp: waits_for_def)
  have mem: "i \<in> waits_for g order v \<longleftrightarrow> (i, v) \<in> adj g" for v using i by (simp add: waits_for_def)
  have deg': "degree_of degree' v = int (card (waits_for g (order @ [i]) v))" if "v \<in> node_set g" for v
  proof (cases "(i, v) \<in> adj g")
    case True
    then have "i \<in> waits_for g order v" using mem by simp
    then have "Suc (card (waits_for g order v - {i})) = card (waits_for g order v)"
      by (intro card.remove [symmetric] finite_waits_for wf)
    then show ?thesis using True deg [OF that] by (simp add: d' wait')
  next
    case False
    then show ?thesis using mem deg [OF that] by (simp add: d' wait')
  qed
  have new: "v \<in> set ?new \<longleftrightarrow> v \<in> node_set g \<and> waits_for g order v = {i}" for v
  proof
    assume v: "v \<in> set ?new"
    then have n: "v \<in> node_set g" "i \<in> waits_for g order v" using ns(2) adj_nodes [OF wf] mem by auto
    then have "card (waits_for g order v) = 1" using v deg by simp
    then show "v \<in> node_set g \<and> waits_for g order v = {i}" using n by (auto simp: card_1_singleton_iff)
  next
    assume v: "v \<in> node_set g \<and> waits_for g order v = {i}"
    then have "degree_of degree v = 1" using deg [of v] by simp
    moreover have "i \<in> waits_for g order v" using v by simp
    ultimately show "v \<in> set ?new" using mem ns(2) by simp
  qed
  have ready': "set ((order @ [i]) @ queue') = {v \<in> node_set g. waits_for g (order @ [i]) v = {}}"
  proof (rule set_eqI)
    fix v
    have "v \<in> set ((order @ [i]) @ queue') \<longleftrightarrow> v \<in> set (order @ i # queue) \<or> v \<in> set ?new"
      by (auto simp: q')
    also have "\<dots> \<longleftrightarrow> v \<in> node_set g \<and> (waits_for g order v = {} \<or> waits_for g order v = {i})"
      unfolding ready new by blast
    finally show "v \<in> set ((order @ [i]) @ queue') \<longleftrightarrow>
        v \<in> {v \<in> node_set g. waits_for g (order @ [i]) v = {}}"
      unfolding wait' by blast
  qed
  have "set ?new \<inter> set (order @ i # queue) = {}" unfolding ready using new by auto
  then have dist': "distinct ((order @ [i]) @ queue')" using dist ns(1) by (auto simp: q')
  have "topo_sorted (adj g) ((order @ i # queue) @ ?new)"
  proof (rule topo_sorted_append [OF topo, where P = "set (order @ [i])"])
    have "v \<in> set ((order @ [i]) @ queue') \<Longrightarrow> (u, v) \<in> adj g \<Longrightarrow> u \<in> set (order @ [i])" for u v
      unfolding ready' by (auto simp: waits_for_def)
    then show "\<forall>v\<in>set ((order @ i # queue) @ ?new). \<forall>u. (u, v) \<in> adj g \<longrightarrow> u \<in> set (order @ [i])"
      by (simp add: q')
    show "set ?new \<inter> set (order @ [i]) = {}" using dist' by (auto simp: q')
  qed
  then have "topo_sorted (adj g) ((order @ [i]) @ queue')" by (simp add: q')
  then show ?thesis using dist' deg' ready' unfolding kahn_inv_def by blast
qed

lemma kahn_loop_inv:
  "graph_wf g \<Longrightarrow> kahn_inv g degree queue order \<Longrightarrow>
     \<exists>degree'. kahn_inv g degree' [] (kahn_loop g degree queue order)"
proof (induction g degree queue order rule: kahn_loop.induct)
  case (2 g degree i queue order)
  obtain degree' queue' where p: "kahn_push (neighbors g i) degree queue = (degree', queue')"
    by fastforce
  then show ?case using 2(1) [OF p [symmetric] refl] kahn_inv_step [OF 2(2,3) p] 2(2) by simp
qed auto

lemma fold_set_distinct:
  "distinct ids \<Longrightarrow> fold (\<lambda>i. jm_set i (f i)) ids [] = map (\<lambda>i. (i, f i)) ids"
proof (induction ids rule: rev_induct)
  case (snoc i ids)
  have "jm_get (map (\<lambda>i. (i, f i)) ids) i = None"
    using snoc.prems by (simp add: map_of_eq_None_iff image_image)
  then show ?case using snoc by (simp add: jm_set_new)
qed simp

lemma kahn_done:
  assumes wf: "graph_wf g" and inv: "kahn_inv g degree [] order"
  shows "length order = length (g_nodes g) \<longleftrightarrow> acyclic (adj g)"
    and "length order = length (g_nodes g) \<Longrightarrow> set order = node_set g"
proof -
  have nodes: "distinct (jm_keys (g_nodes g))" using wf by (simp add: graph_wf_def jm_wf_def)
  then have card: "card (node_set g) = length (g_nodes g)"
    unfolding node_set_def by (metis distinct_card length_map)
  have dist: "distinct order" "topo_sorted (adj g) order"
    and ready: "set order = {v \<in> node_set g. waits_for g order v = {}}"
    using inv by (auto simp: kahn_inv_def)
  have full: "length order = length (g_nodes g) \<longleftrightarrow> set order = node_set g"
  proof
    assume "length order = length (g_nodes g)"
    then have "card (set order) = card (node_set g)" using dist card by (simp add: distinct_card)
    then show "set order = node_set g" using ready by (intro card_subset_eq) auto
  next
    assume "set order = node_set g"
    then show "length order = length (g_nodes g)" using dist card by (metis distinct_card)
  qed
  show "length order = length (g_nodes g) \<Longrightarrow> set order = node_set g" using full by blast
  show "length order = length (g_nodes g) \<longleftrightarrow> acyclic (adj g)"
  proof
    assume "length order = length (g_nodes g)"
    then show "acyclic (adj g)"
      using full adj_nodes [OF wf] by (intro topo_sorted_acyclic [OF dist(2)]) simp
  next
    assume acyclic: "acyclic (adj g)"
    have "finite (adj g)"
      by (rule finite_subset [of _ "node_set g \<times> node_set g"]) (auto dest: adj_nodes [OF wf])
    then have "wf (adj g)" using acyclic by (rule finite_acyclic_wf)
    have "v \<in> set order" if "v \<in> node_set g" for v
      using \<open>wf (adj g)\<close> that
    proof (induction v rule: wf_induct_rule)
      case (less v)
      then have "waits_for g order v = {}" using adj_nodes [OF wf] by (auto simp: waits_for_def)
      then show ?case using less.prems unfolding ready by simp
    qed
    then have "set order = node_set g" using ready by blast
    then show "length order = length (g_nodes g)" using full by blast
  qed
qed

lemma topologicalSort_wf:
  assumes wf: "graph_wf g"
  shows "case topologicalSort g of
      Some order \<Rightarrow> acyclic (adj g) \<and> distinct order \<and> set order = node_set g \<and> topo_sorted (adj g) order
    | None \<Rightarrow> \<not> acyclic (adj g)"
proof -
  let ?ids = "jm_keys (g_nodes g)"
  define degree where "degree = fold (\<lambda>i. jm_set i (int (inDegree g i))) ?ids []"
  define queue where "queue = map fst (filter (\<lambda>(i, count). count = 0) degree)"
  have ids: "distinct ?ids" using wf by (simp add: graph_wf_def jm_wf_def)
  have degree: "degree = map (\<lambda>i. (i, int (inDegree g i))) ?ids"
    unfolding degree_def by (rule fold_set_distinct [OF ids])
  have deg: "degree_of degree v = int (card (waits_for g [] v))" if "v \<in> node_set g" for v
  proof -
    have "jm_get degree v = Some (int (inDegree g v))"
      using that by (simp add: degree node_set_def map_of_map_restrict restrict_map_def del: map_map)
    then show ?thesis by (simp add: degree_of_def inDegree_card [OF wf] waits_for_def)
  qed
  have queue: "queue = filter (\<lambda>i. inDegree g i = 0) ?ids"
    by (simp add: queue_def degree filter_map o_def)
  have zero: "inDegree g v = 0 \<longleftrightarrow> waits_for g [] v = {}" for v
    using finite_waits_for [OF wf, of "[]" v] by (simp add: inDegree_card [OF wf] waits_for_def)
  have set_queue: "set queue = {v \<in> node_set g. waits_for g [] v = {}}"
    unfolding queue node_set_def set_filter zero by simp
  have "topo_sorted (adj g) ([] @ queue)"
    using set_queue by (intro topo_sorted_append [where P = "{}"]) (auto simp: waits_for_def)
  then have "kahn_inv g degree queue []"
    using ids deg set_queue by (simp add: kahn_inv_def queue)
  then obtain degree' where inv: "kahn_inv g degree' [] (kahn_loop g degree queue [])"
    using kahn_loop_inv [OF wf] by blast
  have "topologicalSort g = (if length (kahn_loop g degree queue []) = length (g_nodes g)
      then Some (kahn_loop g degree queue []) else None)"
    by (simp add: topologicalSort_def degree_def [symmetric] queue_def [symmetric] Let_def)
  then show ?thesis using kahn_done [OF wf inv] inv by (simp add: kahn_inv_def)
qed

text \<open>C9: Kahn's algorithm is right on every graph the operations build: it returns an order
  of all the nodes in which every dependency points forward when the dependencies are
  acyclic, and null exactly when they contain a cycle.\<close>

theorem topologicalSort_correct:
  "case topologicalSort (graph_run ops) of
     Some order \<Rightarrow> acyclic (fold spec_edges ops {}) \<and> distinct order \<and>
       set order = (\<Union>x\<in>set ops. op_nodes x) \<and> topo_sorted (fold spec_edges ops {}) order
   | None \<Rightarrow> \<not> acyclic (fold spec_edges ops {})"
  using topologicalSort_wf [of "graph_run ops"] graph_run_correct [of ops]
  by (cases "topologicalSort (graph_run ops)") auto

section \<open>Finding a cycle\<close>

text \<open>The ids of the frames, from the top: each is the child of the next.\<close>

fun chained :: "('k \<times> 'k) set \<Rightarrow> ('k, 'k) jsmap \<Rightarrow> 'k list \<Rightarrow> bool" where
  "chained E parent (x # y # zs) = (jm_get parent x = Some y \<and> (y, x) \<in> E \<and> chained E parent (y # zs))"
| "chained E parent _ = True"

text \<open>What each frame's iterator has passed is finished, or is the frame above it.\<close>

fun frames_ok :: "('k, 'd) graph \<Rightarrow> ('k, colour) jsmap \<Rightarrow> 'k option \<Rightarrow> ('k \<times> 'k list) list \<Rightarrow> bool" where
  "frames_ok g colour upper [] = True"
| "frames_ok g colour upper ((i, rest) # stack) =
     ((\<exists>past. neighbors g i = past @ rest \<and> (\<forall>x\<in>set past. colour_of colour x = Black \<or> upper = Some x)) \<and>
      frames_ok g colour (Some i) stack)"

text \<open>The finished nodes only point at finished nodes, down a rank.\<close>

definition ranked :: "('k, 'd) graph \<Rightarrow> 'k set \<Rightarrow> bool" where
  "ranked g B \<longleftrightarrow> (\<exists>f :: 'k \<Rightarrow> nat. \<forall>x\<in>B. \<forall>y\<in>set (neighbors g x). y \<in> B \<and> f y < f x)"

definition blacks :: "('k, colour) jsmap \<Rightarrow> 'k set" where
  "blacks colour = {x. colour_of colour x = Black}"

lemma ranked_insert:
  assumes "ranked g B" and "i \<notin> B" and "set (neighbors g i) \<subseteq> B"
  shows "ranked g (insert i B)"
proof -
  obtain f where f: "\<And>x y. x \<in> B \<Longrightarrow> y \<in> set (neighbors g x) \<Longrightarrow> y \<in> B \<and> f y < (f x :: nat)"
    using assms(1) unfolding ranked_def by blast
  let ?f = "f(i := Suc (sum_list (map f (neighbors g i))))"
  have "f y < Suc (sum_list (map f (neighbors g i)))" if "y \<in> set (neighbors g i)" for y
    using that by (intro le_imp_less_Suc member_le_sum_list) auto
  note small = this
  have "y \<in> insert i B \<and> ?f y < ?f x" if xy: "x \<in> insert i B" "y \<in> set (neighbors g x)" for x y
  proof (cases "x = i")
    case True
    then have "y \<in> B" "f y < ?f i" using xy(2) assms(3) small by auto
    moreover have "y \<noteq> i" using calculation(1) assms(2) by blast
    ultimately show ?thesis using True by simp
  next
    case False
    then have "y \<in> B" "f y < f x" using xy f by blast+
    moreover have "y \<noteq> i" using calculation(1) assms(2) by blast
    ultimately show ?thesis using False by simp
  qed
  then show ?thesis unfolding ranked_def by (intro exI [of _ ?f]) blast
qed

lemma ranked_acyclic:
  assumes "ranked g B" and "\<And>x y. (x, y) \<in> adj g \<Longrightarrow> x \<in> B"
  shows "acyclic (adj g)"
proof -
  obtain f where "\<forall>x\<in>B. \<forall>y\<in>set (neighbors g x). y \<in> B \<and> f y < (f x :: nat)"
    using assms(1) unfolding ranked_def by blast
  then show ?thesis using assms(2) by (intro acyclicI_order [where f = f]) (auto simp: adj_def)
qed

definition fc_inv ::
  "('k, 'd) graph \<Rightarrow> ('k, colour) jsmap \<Rightarrow> ('k, 'k) jsmap \<Rightarrow> ('k \<times> 'k list) list \<Rightarrow> bool"
where
  "fc_inv g colour parent stack \<longleftrightarrow>
     distinct (map fst stack) \<and> (\<forall>x. colour_of colour x = Grey \<longleftrightarrow> x \<in> fst ` set stack) \<and>
     chained (adj g) parent (map fst stack) \<and> frames_ok g colour None stack \<and> ranked g (blacks colour)"

lemma chained_set: "x \<notin> set xs \<Longrightarrow> chained E (jm_set x p parent) xs = chained E parent xs"
  by (induction E parent xs rule: chained.induct) (auto simp: jm_get_set)

lemma chained_Cons:
  "xs \<noteq> [] \<Longrightarrow> chained E parent (x # xs) \<longleftrightarrow>
     jm_get parent x = Some (hd xs) \<and> (hd xs, x) \<in> E \<and> chained E parent xs"
  by (cases xs) auto

lemma chained_tl: "chained E parent (x # xs) \<Longrightarrow> chained E parent xs"
  by (cases xs) auto

lemma frames_ok_mono:
  "frames_ok g colour upper stack \<Longrightarrow>
     (\<And>x. colour_of colour x = Black \<or> upper = Some x \<Longrightarrow> colour_of colour' x = Black \<or> upper' = Some x) \<Longrightarrow>
     (\<And>x. colour_of colour x = Black \<Longrightarrow> colour_of colour' x = Black) \<Longrightarrow>
     frames_ok g colour' upper' stack"
proof (induction stack arbitrary: upper upper')
  case (Cons fr stack)
  obtain i rest where fr: "fr = (i, rest)" by (cases fr)
  have "frames_ok g colour' (Some i) stack"
    using Cons.prems fr by (intro Cons.IH [of "Some i"]) auto
  then show ?case using Cons.prems(1,2) fr by fastforce
qed simp

lemma fc_inv_pop:
  assumes "fc_inv g colour parent ((i, []) # stack)"
  shows "fc_inv g (jm_set i Black colour) parent stack"
proof -
  let ?c = "jm_set i Black colour"
  have i: "colour_of colour i = Grey" "i \<notin> fst ` set stack" using assms by (auto simp: fc_inv_def)
  have "set (neighbors g i) \<subseteq> blacks colour" using assms by (auto simp: fc_inv_def blacks_def)
  then have "ranked g (insert i (blacks colour))"
    using assms i(1) by (intro ranked_insert) (simp_all add: fc_inv_def blacks_def del: not_None_eq, metis colour.distinct(5) i(1))
  moreover have "blacks ?c = insert i (blacks colour)" by (auto simp: blacks_def)
  moreover have "frames_ok g ?c None stack"
  proof (rule frames_ok_mono)
    show "frames_ok g colour (Some i) stack" using assms by (simp add: fc_inv_def)
  qed (simp_all split: if_splits, auto)
  moreover have "\<forall>x. colour_of ?c x = Grey \<longleftrightarrow> x \<in> fst ` set stack"
    using assms i by (auto simp: fc_inv_def)
  ultimately show ?thesis using assms by (auto simp: fc_inv_def intro: chained_tl)
qed

lemma fc_inv_push:
  assumes inv: "fc_inv g colour parent ((i, nx # rest) # stack)" and nx: "colour_of colour nx = White"
  shows "fc_inv g (jm_set nx Grey colour) (jm_set nx i parent) ((nx, neighbors g nx) # (i, rest) # stack)"
proof -
  let ?c = "jm_set nx Grey colour" and ?ids = "i # map fst stack"
  have new: "nx \<notin> set ?ids"
    using inv nx unfolding fc_inv_def by (metis colour.distinct(1) list.simps(9) set_map fst_conv)
  obtain past where past: "neighbors g i = past @ nx # rest" "\<forall>x\<in>set past. colour_of colour x = Black"
    using inv by (auto simp: fc_inv_def)
  have black: "colour_of colour x = Black \<Longrightarrow> colour_of ?c x = Black" for x using nx by auto
  have "frames_ok g ?c (Some i) stack"
  proof (rule frames_ok_mono)
    show "frames_ok g colour (Some i) stack" using inv by (simp add: fc_inv_def)
  qed (use black in blast)+
  then have "frames_ok g ?c None ((nx, neighbors g nx) # (i, rest) # stack)"
    using past black by (auto intro!: exI [of _ "past @ [nx]"])
  moreover have "chained (adj g) (jm_set nx i parent) (nx # ?ids)"
    using inv past(1) chained_set [OF new, of "adj g" i parent]
    by (simp add: chained_Cons fc_inv_def jm_get_set adj_def)
  moreover have "blacks ?c = blacks colour" using nx by (auto simp: blacks_def)
  moreover have "\<forall>x. colour_of ?c x = Grey \<longleftrightarrow> x \<in> insert nx (set ?ids)"
    using inv by (auto simp: fc_inv_def)
  ultimately show ?thesis using inv new by (auto simp: fc_inv_def)
qed

lemma fc_inv_skip:
  "fc_inv g colour parent ((i, nx # rest) # stack) \<Longrightarrow> colour_of colour nx = Black \<Longrightarrow>
     fc_inv g colour parent ((i, rest) # stack)"
  by (force simp: fc_inv_def)

text \<open>A walk either meets a grey node, on the way down to the current one, or finishes
  every node it has opened.\<close>

lemma fc_walk_spec:
  "fc_inv g colour parent stack \<Longrightarrow>
     (case fc_walk g colour parent stack of
        Inl (nx, i, parent') \<Rightarrow> \<exists>ids. chained (adj g) parent' (i # ids) \<and> nx \<in> set (i # ids) \<and>
          distinct (i # ids) \<and> (i, nx) \<in> adj g
      | Inr (colour', parent') \<Rightarrow> fc_inv g colour' parent' [] \<and>
          blacks colour \<union> fst ` set stack \<subseteq> blacks colour')"
proof (induction g colour parent stack rule: fc_walk.induct)
  case (1 g colour parent)
  then show ?case by simp
next
  case (2 g colour parent i stack)
  have "blacks (jm_set i Black colour) = insert i (blacks colour)" by (auto simp: blacks_def)
  then show ?case using 2(1) [OF fc_inv_pop [OF 2(2)]] by (auto split: sum.splits)
next
  case (3 g colour parent i nx rest stack)
  show ?case
  proof (cases "colour_of colour nx")
    case White
    have "blacks (jm_set nx Grey colour) = blacks colour" using White by (auto simp: blacks_def)
    then show ?thesis using 3(1) [OF White fc_inv_push [OF 3(3) White]] White by (auto split: sum.splits)
  next
    case Grey
    have "neighbors g i = past @ nx # rest \<Longrightarrow> (i, nx) \<in> adj g" for past by (simp add: adj_def)
    then have "(i, nx) \<in> adj g" using 3(3) by (auto simp: fc_inv_def)
    moreover have "nx \<in> set (i # map fst stack)"
      using 3(3) Grey unfolding fc_inv_def by (metis fst_conv list.simps(9) set_map)
    moreover have "chained (adj g) parent (i # map fst stack)" "distinct (i # map fst stack)"
      using 3(3) by (auto simp: fc_inv_def)
    moreover have "fc_walk g colour parent ((i, nx # rest) # stack) = Inl (nx, i, parent)"
      using Grey by simp
    ultimately show ?thesis unfolding sum.case prod.case by (simp only: sum.case prod.case) blast
  next
    case Black
    then show ?thesis using 3(2) [OF Black fc_inv_skip [OF 3(3) Black]] by (auto split: sum.splits)
  qed
qed

lemma fc_starts_spec:
  assumes "fc_inv g colour parent []"
  shows "case fc_starts g ids colour parent of
      Some (nx, i, parent') \<Rightarrow> \<exists>ids. chained (adj g) parent' (i # ids) \<and> nx \<in> set (i # ids) \<and>
        distinct (i # ids) \<and> (i, nx) \<in> adj g
    | None \<Rightarrow> \<exists>B. ranked g B \<and> blacks colour \<union> set ids \<subseteq> B"
  using assms
proof (induction ids arbitrary: colour parent)
  case Nil
  then show ?case by (auto simp: fc_inv_def)
next
  case (Cons i ids)
  show ?case
  proof (cases "colour_of colour i = White")
    case True
    have black: "blacks (jm_set i Grey colour) = blacks colour"
      using True by (auto simp: blacks_def)
    then have "fc_inv g (jm_set i Grey colour) parent [(i, neighbors g i)]"
      using Cons.prems by (simp add: fc_inv_def)
    then have walk: "case fc_walk g (jm_set i Grey colour) parent [(i, neighbors g i)] of
        Inl (nx, j, parent') \<Rightarrow> \<exists>ids. chained (adj g) parent' (j # ids) \<and> nx \<in> set (j # ids) \<and>
          distinct (j # ids) \<and> (j, nx) \<in> adj g
      | Inr (colour', parent') \<Rightarrow> fc_inv g colour' parent' [] \<and> insert i (blacks colour) \<subseteq> blacks colour'"
      using fc_walk_spec [of g "jm_set i Grey colour" parent "[(i, neighbors g i)]"] black
      by (simp cong: sum.case_cong)
    show ?thesis
    proof (cases "fc_walk g (jm_set i Grey colour) parent [(i, neighbors g i)]")
      case (Inl a)
      then show ?thesis using walk True by simp
    next
      case (Inr b)
      obtain colour' parent' where b: "b = (colour', parent')" by (cases b)
      then have "fc_inv g colour' parent' []" "insert i (blacks colour) \<subseteq> blacks colour'"
        using walk Inr by simp_all
      then show ?thesis using Cons.IH [of colour' parent'] True Inr b
        by (cases "fc_starts g ids colour' parent'") auto
    qed
  next
    case False
    then have "i \<in> blacks colour"
      using Cons.prems colour.exhaust [of "colour_of colour i"] by (auto simp: fc_inv_def blacks_def)
    then show ?thesis using False Cons.IH [OF Cons.prems]
      by (cases "fc_starts g ids colour parent") auto
  qed
qed

text \<open>Tracing the parents from the frame's node back to the grey neighbour.\<close>

lemma fc_trace_spec:
  "chained E parent (i # ids) \<Longrightarrow> nx \<in> set (i # ids) \<Longrightarrow>
     fc_trace parent nx i cycle = Some (cycle @ takeWhile (\<lambda>x. x \<noteq> nx) (i # ids)) \<and>
     walk E (rev (takeWhile (\<lambda>x. x \<noteq> nx) (i # ids) @ [nx]))"
proof (induction ids arbitrary: i cycle)
  case Nil
  then show ?case by (subst fc_trace.simps) simp
next
  case (Cons j ids)
  show ?case
  proof (cases "i = nx")
    case True
    then show ?thesis by (subst fc_trace.simps) simp
  next
    case False
    have IH: "fc_trace parent nx j (cycle @ [i]) = Some ((cycle @ [i]) @ takeWhile (\<lambda>x. x \<noteq> nx) (j # ids))"
      "walk E (rev (takeWhile (\<lambda>x. x \<noteq> nx) (j # ids) @ [nx]))"
      using Cons.IH [of j "cycle @ [i]"] Cons.prems False by auto
    have trace: "fc_trace parent nx i cycle = fc_trace parent nx j (cycle @ [i])"
      using False Cons.prems(1) by (subst fc_trace.simps) simp
    have "walk E (rev (takeWhile (\<lambda>x. x \<noteq> nx) (j # ids) @ [nx]) @ [i])"
    proof (cases "j = nx")
      case True
      then show ?thesis using Cons.prems(1) by simp
    next
      case jn: False
      have "rev (takeWhile (\<lambda>x. x \<noteq> nx) (j # ids) @ [nx]) =
          rev (takeWhile (\<lambda>x. x \<noteq> nx) ids @ [nx]) @ [j]" using jn by simp
      then show ?thesis
        using IH(2) Cons.prems(1) walk_snoc [of E "rev (takeWhile (\<lambda>x. x \<noteq> nx) ids @ [nx])" j i]
        by (simp del: rev_append)
    qed
    then show ?thesis using IH(1) trace False by simp
  qed
qed

lemma findCycle_wf:
  assumes wf: "graph_wf g"
  shows "case findCycle g of
      None \<Rightarrow> False
    | Some None \<Rightarrow> acyclic (adj g)
    | Some (Some cycle) \<Rightarrow> walk (adj g) cycle \<and> 2 \<le> length cycle \<and> hd cycle = List.last cycle"
proof -
  let ?ids = "jm_keys (g_nodes g)" and ?c = "fold (\<lambda>i. jm_set i White) (jm_keys (g_nodes g)) []"
  have "colour_of (fold (\<lambda>i. jm_set i White) ids m) x = White" if "colour_of m x = White" for ids m x
    using that by (induction ids arbitrary: m) auto
  from this [of "[]"] have white: "colour_of ?c x = White" for x by (simp add: colour_of_def [of "[]"])
  then have "fc_inv g ?c [] []" by (simp add: fc_inv_def blacks_def ranked_def)
  then have spec: "case fc_starts g ?ids ?c [] of
      Some (nx, i, parent') \<Rightarrow> \<exists>ids. chained (adj g) parent' (i # ids) \<and> nx \<in> set (i # ids) \<and>
        distinct (i # ids) \<and> (i, nx) \<in> adj g
    | None \<Rightarrow> \<exists>B. ranked g B \<and> blacks ?c \<union> set ?ids \<subseteq> B" by (rule fc_starts_spec)
  show ?thesis
  proof (cases "fc_starts g ?ids ?c []")
    case None
    then obtain B where B: "ranked g B" "node_set g \<subseteq> B" using spec by (auto simp: node_set_def)
    have "acyclic (adj g)" using B(2) adj_nodes [OF wf] by (intro ranked_acyclic [OF B(1)]) blast
    then show ?thesis using None by (simp add: findCycle_def Let_def)
  next
    case (Some r)
    obtain nx i parent where r: "r = (nx, i, parent)" by (cases r)
    then obtain ids where ids: "chained (adj g) parent (i # ids)" "nx \<in> set (i # ids)" "(i, nx) \<in> adj g"
      using spec Some by auto
    let ?up = "takeWhile (\<lambda>x. x \<noteq> nx) (i # ids)"
    have trace: "fc_trace parent nx i [nx] = Some ([nx] @ ?up)" "walk (adj g) (rev (?up @ [nx]))"
      using fc_trace_spec [OF ids(1,2)] by auto
    have "walk (adj g) (rev (?up @ [nx]) @ [nx])"
    proof (cases "i = nx")
      case True
      then show ?thesis using ids(3) by simp
    next
      case False
      then have "rev (?up @ [nx]) = rev (takeWhile (\<lambda>x. x \<noteq> nx) ids @ [nx]) @ [i]" by simp
      then show ?thesis
        using trace(2) ids(3) walk_snoc [of "adj g" "rev (takeWhile (\<lambda>x. x \<noteq> nx) ids @ [nx])" i nx]
        by (simp del: rev_append)
    qed
    moreover have "findCycle g = Some (Some (rev (([nx] @ ?up) @ [nx])))"
      using Some r trace(1) by (simp add: findCycle_def Let_def)
    ultimately show ?thesis by simp
  qed
qed

text \<open>A closed walk is a cycle.\<close>

lemma walk_trancl: "walk E xs \<Longrightarrow> 2 \<le> length xs \<Longrightarrow> (hd xs, List.last xs) \<in> E\<^sup>+"
proof (induction E xs rule: walk.induct)
  case (3 E x y zs)
  then show ?case by (cases zs) (auto intro: trancl_into_trancl2)
qed auto

text \<open>C10: \<open>findCycle\<close> is right on every graph the operations build, and always returns: the
  list it returns is a closed walk along dependencies, and it returns null exactly when
  there is no cycle, so that it agrees with \<open>hasCycle\<close>.\<close>

theorem findCycle_correct:
  "case findCycle (graph_run ops) of
     None \<Rightarrow> False
   | Some None \<Rightarrow> acyclic (fold spec_edges ops {}) \<and> \<not> hasCycle (graph_run ops)
   | Some (Some cycle) \<Rightarrow> walk (fold spec_edges ops {}) cycle \<and> 2 \<le> length cycle \<and>
       hd cycle = List.last cycle \<and> hasCycle (graph_run ops)"
proof -
  let ?g = "graph_run ops"
  have g: "graph_wf ?g" "adj ?g = fold spec_edges ops {}" using graph_run_correct [of ops] by auto
  have cyc: "hasCycle ?g \<longleftrightarrow> \<not> acyclic (adj ?g)"
    using topologicalSort_wf [OF g(1)] by (cases "topologicalSort ?g") (auto simp: hasCycle_def)
  have "walk (adj ?g) cycle \<Longrightarrow> 2 \<le> length cycle \<Longrightarrow> hd cycle = List.last cycle \<Longrightarrow> \<not> acyclic (adj ?g)"
    for cycle using walk_trancl [of "adj ?g" cycle] by (auto simp: acyclic_def)
  then show ?thesis using findCycle_wf [OF g(1)] unfolding cyc g(2)
    by (cases "findCycle ?g" rule: option.exhaust [case_product option.exhaust]) (auto split: option.splits)
qed

section \<open>Weakly connected components\<close>

lemma links_adj: "graph_wf g \<Longrightarrow> y \<in> set (links g x) \<longleftrightarrow> (x, y) \<in> adj g \<or> (y, x) \<in> adj g"
  by (auto simp: links_def graph_wf_def adj_def)

lemma equiv_of_closed:
  assumes "graph_wf g" and "\<And>x. x \<in> S \<Longrightarrow> set (links g x) \<subseteq> S" and "(x, y) \<in> equiv_of (adj g)"
  shows "x \<in> S \<Longrightarrow> y \<in> S"
  using assms(3) unfolding equiv_of_def
proof (induction rule: rtrancl_induct)
  case (step y z)
  then have "z \<in> set (links g y)" using links_adj [OF assms(1)] by auto
  then show ?case using assms(2) step by blast
qed simp

lemma links_equiv: "graph_wf g \<Longrightarrow> y \<in> set (links g x) \<Longrightarrow> (x, y) \<in> equiv_of (adj g)"
  using links_adj [of g y x] by (auto intro: equiv_of_edge equiv_of_sym)

definition cc_inv :: "('k, 'd) graph \<Rightarrow> 'k set \<Rightarrow> 'k \<Rightarrow> 'k list \<Rightarrow> 'k list \<Rightarrow> 'k list \<Rightarrow> bool" where
  "cc_inv g V start visited stack component \<longleftrightarrow>
     distinct (component @ stack) \<and> set visited = V \<union> set (component @ stack) \<and>
     V \<inter> set (component @ stack) = {} \<and> start \<in> set (component @ stack) \<and>
     (\<forall>x\<in>set (component @ stack). x \<in> node_set g \<and> (start, x) \<in> equiv_of (adj g)) \<and>
     (\<forall>x\<in>set component. set (links g x) \<subseteq> set visited)"

lemma cc_inv_step:
  assumes wf: "graph_wf g" and inv: "cc_inv g V start visited (i # stack) component"
    and push: "cc_push (links g i) visited stack = (visited', stack')"
  shows "cc_inv g V start visited' stack' (component @ [i])"
proof -
  obtain new where new: "visited' = visited @ new" "stack' = rev new @ stack" "distinct new"
    "set new = set (links g i) - set visited"
    using cc_push_eq [of "links g i" visited stack] push by auto
  have i: "(start, i) \<in> equiv_of (adj g)" "i \<in> set visited" using inv by (auto simp: cc_inv_def)
  have "x \<in> node_set g \<and> (start, x) \<in> equiv_of (adj g)" if "x \<in> set new" for x
  proof -
    have l: "x \<in> set (links g i)" using that new(4) by blast
    then show ?thesis
      using links_adj [OF wf, of x i] adj_nodes [OF wf] equiv_of_trans [OF i(1) links_equiv [OF wf l]] by blast
  qed
  moreover have "set (links g i) \<subseteq> set visited'" using new(1,4) by auto
  moreover have "set new \<inter> set visited = {}" using new(4) by blast
  ultimately show ?thesis
    using inv new(3) unfolding cc_inv_def new(1,2)
    by (intro conjI ballI) (simp_all, blast+)
qed

lemma cc_walk_inv:
  "graph_wf g \<Longrightarrow> cc_inv g V start visited stack component \<Longrightarrow>
     \<exists>visited' component'. cc_walk g visited stack component = (visited', component') \<and>
       cc_inv g V start visited' [] component'"
proof (induction g visited stack component rule: cc_walk.induct)
  case (2 g visited i stack component)
  obtain visited' stack' where p: "cc_push (links g i) visited stack = (visited', stack')" by fastforce
  then show ?case using 2(1) [OF p [symmetric] refl] cc_inv_step [OF 2(2,3) p] 2(2) by simp
qed auto

text \<open>A finished component is the class of its start.\<close>

lemma cc_inv_class:
  assumes wf: "graph_wf g" and inv: "cc_inv g V start visited [] component"
    and V: "\<And>x. x \<in> V \<Longrightarrow> set (links g x) \<subseteq> V"
  shows "set component = {y \<in> node_set g. (start, y) \<in> equiv_of (adj g)}"
proof
  show "set component \<subseteq> {y \<in> node_set g. (start, y) \<in> equiv_of (adj g)}"
    using inv by (auto simp: cc_inv_def)
  have closed: "set (links g x) \<subseteq> set component" if x: "x \<in> set component" for x
  proof
    fix y assume y: "y \<in> set (links g x)"
    have "set visited = V \<union> set component" "\<forall>x\<in>set component. set (links g x) \<subseteq> set visited"
      using inv [unfolded cc_inv_def append_Nil2] by blast+
    moreover have "set (links g x) \<subseteq> set visited" using calculation(2) x by (rule bspec)
    ultimately have "y \<in> V \<or> y \<in> set component" using y by blast
    moreover have "x \<in> set (links g y)" using y links_adj [OF wf] by blast
    moreover have "x \<notin> V" using inv x by (auto simp: cc_inv_def)
    ultimately show "y \<in> set component" using V by blast
  qed
  have "start \<in> set component" using inv by (simp add: cc_inv_def)
  then show "{y \<in> node_set g. (start, y) \<in> equiv_of (adj g)} \<subseteq> set component"
    using equiv_of_closed [OF wf closed] by blast
qed

definition component_of :: "('k, 'd) graph \<Rightarrow> 'k \<Rightarrow> 'k set" where
  "component_of g x = {y \<in> node_set g. (x, y) \<in> equiv_of (adj g)}"

lemma component_of_eq: "y \<in> component_of g x \<Longrightarrow> component_of g y = component_of g x"
  by (auto simp: component_of_def intro: equiv_of_trans equiv_of_sym)

lemma component_of_closed:
  assumes "graph_wf g" and "x \<in> component_of g s"
  shows "set (links g x) \<subseteq> component_of g s"
proof
  fix y assume y: "y \<in> set (links g x)"
  then have "y \<in> node_set g" using links_adj [OF assms(1)] adj_nodes [OF assms(1)] by blast
  then show "y \<in> component_of g s"
    using assms(2) links_equiv [OF assms(1) y] by (auto simp: component_of_def intro: equiv_of_trans)
qed

lemma cc_loop_spec:
  assumes wf: "graph_wf g"
  shows "set ids \<subseteq> node_set g \<Longrightarrow> distinct (concat components) \<Longrightarrow>
    set visited = set (concat components) \<Longrightarrow> set ` set components = component_of g ` N \<Longrightarrow>
    distinct (concat (cc_loop g ids visited components)) \<and>
    set ` set (cc_loop g ids visited components) = component_of g ` (N \<union> set ids)"
proof (induction ids arbitrary: visited components N)
  case (Cons i ids)
  have visited: "set visited = \<Union>(component_of g ` N)"
    using Cons.prems(3,4) by (metis set_concat)
  show ?case
  proof (cases "i \<in> set visited")
    case True
    then obtain n where n: "n \<in> N" "i \<in> component_of g n" using visited by auto
    then have "component_of g i \<in> component_of g ` N" by (simp add: component_of_eq [OF n(2)])
    then have "component_of g ` (insert i N) = component_of g ` N" by auto
    then show ?thesis using True Cons.IH [of components visited "insert i N"] Cons.prems by simp
  next
    case False
    have "i \<in> node_set g" using Cons.prems(1) by simp
    then have "cc_inv g (set visited) i (visited @ [i]) [i] []" using False by (simp add: cc_inv_def)
    then obtain visited' component where w: "cc_walk g (visited @ [i]) [i] [] = (visited', component)"
      and inv: "cc_inv g (set visited) i visited' [] component" using cc_walk_inv [OF wf] by blast
    have "set (links g x) \<subseteq> set visited" if "x \<in> set visited" for x
    proof -
      obtain n where "n \<in> N" "x \<in> component_of g n" using \<open>x \<in> set visited\<close> visited by blast
      then show ?thesis using component_of_closed [OF wf, of x n] visited by blast
    qed
    then have comp: "set component = component_of g i"
      using cc_inv_class [OF wf inv] by (simp add: component_of_def)
    have "distinct (concat (components @ [component]))" "set visited' = set (concat (components @ [component]))"
      using inv Cons.prems(2,3) by (auto simp: cc_inv_def)
    then have "distinct (concat (cc_loop g ids visited' (components @ [component]))) \<and>
        set ` set (cc_loop g ids visited' (components @ [component])) = component_of g ` (insert i N \<union> set ids)"
      using Cons.prems comp by (intro Cons.IH) auto
    then show ?thesis using False w by simp
  qed
qed simp

text \<open>The connected components are the weakly connected classes: every node the operations
  added is in exactly one component, listed once, and two nodes share one exactly when a
  chain of dependencies, followed in either direction, joins them.\<close>

theorem connectedComponents_correct:
  "distinct (concat (connectedComponents (graph_run ops))) \<and>
     set ` set (connectedComponents (graph_run ops)) =
       classes_of (fold spec_edges ops {}) (\<Union>x\<in>set ops. op_nodes x)"
proof -
  let ?g = "graph_run ops"
  have g: "graph_wf ?g" "adj ?g = fold spec_edges ops {}" "node_set ?g = (\<Union>x\<in>set ops. op_nodes x)"
    using graph_run_correct [of ops] by auto
  have "classes_of (adj ?g) (node_set ?g) = component_of ?g ` node_set ?g"
    by (simp add: classes_of_def component_of_def)
  then show ?thesis
    using cc_loop_spec [OF g(1), of "jm_keys (g_nodes ?g)" "[]" "[]" "{}"]
    unfolding g(2,3) [symmetric] by (simp add: connectedComponents_def node_set_def)
qed

end
