(* ===== verification/RateLimiter.thy ===== *)
theory RateLimiter
  imports TokenBucket JsString
begin

text \<open>
  The rate limiters of \<open>packages/runtime/src/resilience/rate-limiter.ts\<close>: policies and the
  response headers, the in-process limiter with one token bucket limiter per policy, the Lua
  script of the Redis limiter with its fallback, and the layered limiter. The Lua script is
  a function of what \<open>HMGET\<close> returned; Redis itself, which stores the bucket and runs the
  script, is a parameter of \<open>rrl_check\<close>. Limits, bursts and windows are whole numbers, and
  windows are positive.
\<close>

record policy =
  pol_name :: string
  pol_limit :: nat
  pol_windowSeconds :: nat
  pol_burst :: "nat option"

definition show_int :: "int \<Rightarrow> string" where
  "show_int n = (if n < 0 then CHR ''-'' # show_nat (nat (- n)) else show_nat (nat n))"

fun show_seconds :: "delay \<Rightarrow> string" where
  "show_seconds (Ms n) = show_int (js_ceil (of_int n / 1000))"
| "show_seconds Infinity = ''Infinity''"

definition rateLimitHeaders :: "policy \<Rightarrow> rl_decision \<Rightarrow> time \<Rightarrow> (string \<times> string) list" where
  "rateLimitHeaders policy decision now =
     [(''RateLimit-Limit'', show_nat (pol_limit policy)),
      (''RateLimit-Remaining'', show_int (max 0 (rl_remaining decision))),
      (''RateLimit-Reset'', show_int (js_ceil (max 0 (rl_resetAt decision - of_int now) / 1000))),
      (''RateLimit-Policy'', show_nat (pol_limit policy) @ '';w='' @ show_nat (pol_windowSeconds policy))] @
     (if rl_allowed decision then [] else [(''Retry-After'', show_seconds (rl_retryAfterMs decision))])"

section \<open>In-process limiter\<close>

type_synonym mrl = "(string, tb_limiter) jsmap"

definition pol_capacity :: "policy \<Rightarrow> nat" where
  "pol_capacity policy = (case pol_burst policy of Some b \<Rightarrow> b | None \<Rightarrow> pol_limit policy)"

definition pol_rate :: "policy \<Rightarrow> rat" where
  "pol_rate policy = of_nat (pol_limit policy) / of_nat (pol_windowSeconds policy)"

definition pol_options :: "policy \<Rightarrow> tb_options" where
  "pol_options policy =
     \<lparr>tb_capacity = of_nat (pol_capacity policy), tb_refillPerSecond = pol_rate policy\<rparr>"

definition pol_cacheKey :: "policy \<Rightarrow> string" where
  "pol_cacheKey policy =
     pol_name policy @ '':'' @ show_nat (pol_limit policy) @ '':'' @ show_nat (pol_windowSeconds policy) @
     '':'' @ (case pol_burst policy of Some b \<Rightarrow> show_nat b | None \<Rightarrow> [])"

definition mrl_limiterFor :: "policy \<Rightarrow> mrl \<Rightarrow> js_error + mrl \<times> tb_limiter" where
  "mrl_limiterFor policy limiters =
     (case jm_get limiters (pol_cacheKey policy) of
        Some limiter \<Rightarrow> Inr (limiters, limiter)
      | None \<Rightarrow>
          (case tbl_new (pol_options policy) of
             Inl e \<Rightarrow> Inl e
           | Inr limiter \<Rightarrow> Inr (jm_set (pol_cacheKey policy) limiter limiters, limiter)))"

definition mrl_check :: "string \<Rightarrow> policy \<Rightarrow> rat \<Rightarrow> time \<Rightarrow> mrl \<Rightarrow> js_error + mrl \<times> rl_decision" where
  "mrl_check key policy cost now limiters0 =
     (case mrl_limiterFor policy limiters0 of
        Inl e \<Rightarrow> Inl e
      | Inr (limiters, limiter) \<Rightarrow>
          let (limiter', decision) = tbl_tryConsume limiter key cost now
          in Inr (jm_set (pol_cacheKey policy) limiter' limiters, decision))"

definition mrl_reset :: "string \<Rightarrow> policy \<Rightarrow> mrl \<Rightarrow> js_error + mrl" where
  "mrl_reset key policy limiters0 =
     (case mrl_limiterFor policy limiters0 of
        Inl e \<Rightarrow> Inl e
      | Inr (limiters, limiter) \<Rightarrow> Inr (jm_set (pol_cacheKey policy) (tbl_reset limiter key) limiters))"

definition mrl_prune :: "time \<Rightarrow> mrl \<Rightarrow> mrl \<times> nat" where
  "mrl_prune now limiters =
     (map (\<lambda>(k, l). (k, fst (tbl_prune l now))) limiters,
      fold (\<lambda>(k, l) removed. removed + snd (tbl_prune l now)) limiters 0)"

section \<open>The Lua script and the Redis limiter\<close>

text \<open>What the script is given: the hash of the bucket, None when it has no tokens field.\<close>

record lua_args =
  lua_capacity :: rat
  lua_refill :: rat
  lua_now :: time
  lua_cost :: rat
  lua_ttl :: int

record lua_reply =
  lua_allowed :: nat
  lua_milliTokens :: int
  lua_retryAfter :: int
  lua_resetAt :: int


definition policy_args :: "policy \<Rightarrow> rat \<Rightarrow> time \<Rightarrow> lua_args" where
  "policy_args policy cost now =
     \<lparr>lua_capacity = of_nat (pol_capacity policy), lua_refill = pol_rate policy, lua_now = now,
      lua_cost = cost, lua_ttl = js_ceil (of_nat (pol_windowSeconds policy) * 2)\<rparr>"

definition bucket_key :: "string \<Rightarrow> policy \<Rightarrow> string" where
  "bucket_key key policy = ''rl:'' @ pol_name policy @ '':'' @ key"

definition reply_decision :: "lua_reply \<Rightarrow> rl_decision" where
  "reply_decision r =
     \<lparr>rl_allowed = (lua_allowed r = 1), rl_remaining = js_floor (of_int (lua_milliTokens r) / 1000),
      rl_retryAfterMs = Ms (lua_retryAfter r), rl_resetAt = of_int (lua_resetAt r)\<rparr>"

text \<open>\<open>eval\<close> runs the script in Redis: the new Redis state, and None when the call throws.\<close>

definition rrl_check ::
  "(string \<Rightarrow> lua_args \<Rightarrow> 'r \<Rightarrow> 'r \<times> lua_reply option) \<Rightarrow>
   string \<Rightarrow> policy \<Rightarrow> rat \<Rightarrow> time \<Rightarrow> 'r \<times> mrl \<Rightarrow> js_error + ('r \<times> mrl) \<times> rl_decision"
where
  "rrl_check eval key policy cost now = (\<lambda>(redis, fallback).
     case eval (bucket_key key policy) (policy_args policy cost now) redis of
       (redis', Some reply) \<Rightarrow> Inr ((redis', fallback), reply_decision reply)
     | (redis', None) \<Rightarrow>
         (case mrl_check key policy cost now fallback of
            Inl e \<Rightarrow> Inl e
          | Inr (fallback', decision) \<Rightarrow> Inr ((redis', fallback'), decision)))"

definition rrl_reset ::
  "(string \<Rightarrow> 'r \<Rightarrow> 'r) \<Rightarrow> string \<Rightarrow> policy \<Rightarrow> 'r \<times> mrl \<Rightarrow> js_error + 'r \<times> mrl"
where
  "rrl_reset del key policy = (\<lambda>(redis, fallback).
     case mrl_reset key policy fallback of
       Inl e \<Rightarrow> Inl e
     | Inr fallback' \<Rightarrow> Inr (del (bucket_key key policy) redis, fallback'))"

section \<open>The layered limiter\<close>

definition local_policy :: "policy \<Rightarrow> policy" where
  "local_policy policy =
     policy\<lparr>pol_name := pol_name policy @ '':local'', pol_limit := pol_limit policy * 2,
            pol_burst := Some (pol_capacity policy * 2)\<rparr>"

definition lrl_check ::
  "(string \<Rightarrow> policy \<Rightarrow> rat \<Rightarrow> time \<Rightarrow> 's \<Rightarrow> js_error + 's \<times> rl_decision) \<Rightarrow>
   string \<Rightarrow> policy \<Rightarrow> rat \<Rightarrow> time \<Rightarrow> mrl \<times> 's \<Rightarrow> js_error + (mrl \<times> 's) \<times> rl_decision"
where
  "lrl_check shared_check key policy cost now = (\<lambda>(loc, shared).
     case mrl_check key (local_policy policy) cost now loc of
       Inl e \<Rightarrow> Inl e
     | Inr (loc', localDecision) \<Rightarrow>
         if \<not> rl_allowed localDecision then Inr ((loc', shared), localDecision)
         else (case shared_check key policy cost now shared of
                 Inl e \<Rightarrow> Inl e
               | Inr (shared', decision) \<Rightarrow> Inr ((loc', shared'), decision)))"

definition lrl_reset ::
  "(string \<Rightarrow> policy \<Rightarrow> 's \<Rightarrow> js_error + 's) \<Rightarrow>
   string \<Rightarrow> policy \<Rightarrow> mrl \<times> 's \<Rightarrow> js_error + mrl \<times> 's"
where
  "lrl_reset shared_reset key policy = (\<lambda>(loc, shared).
     case mrl_reset key (policy\<lparr>pol_name := pol_name policy @ '':local''\<rparr>) loc of
       Inl e \<Rightarrow> Inl e
     | Inr loc' \<Rightarrow>
         (case shared_reset key policy shared of
            Inl e \<Rightarrow> Inl e
          | Inr shared' \<Rightarrow> Inr (loc', shared')))"

section \<open>The script is the token bucket\<close>






section \<open>One limiter per policy\<close>

text \<open>The digits at the end of the cache key are the policy's own.\<close>

lemma append_sep_eq:
  "d \<notin> set a \<Longrightarrow> d \<notin> set b \<Longrightarrow> x @ d # a = y @ d # b \<longleftrightarrow> x = y \<and> a = b"
proof (induction x arbitrary: y)
  case Nil
  then show ?case by (cases y) auto
next
  case (Cons c x)
  show ?case
  proof (cases y)
    case Nil
    have "b \<noteq> x @ d # a" using Cons.prems(2) by (metis in_set_conv_decomp)
    then show ?thesis using Nil by simp
  next
    case (Cons c' y')
    then show ?thesis using Cons.IH [of y'] Cons.prems by simp
  qed
qed

lemma pol_cacheKey_inj: "pol_cacheKey p = pol_cacheKey q \<longleftrightarrow> p = q"
proof
  assume eq: "pol_cacheKey p = pol_cacheKey q"
  have colon: "CHR '':'' \<notin> set (show_nat n)" for n by (intro show_nat_no_sep) simp
  have burst: "CHR '':'' \<notin> set (case b of Some b \<Rightarrow> show_nat b | None \<Rightarrow> [])" for b
    using colon by (cases b) auto
  have key: "pol_cacheKey r = ((pol_name r @ CHR '':'' # show_nat (pol_limit r)) @ CHR '':'' #
      show_nat (pol_windowSeconds r)) @ CHR '':'' #
      (case pol_burst r of Some b \<Rightarrow> show_nat b | None \<Rightarrow> [])" for r :: policy
    by (simp add: pol_cacheKey_def)
  have parts: "pol_name p = pol_name q \<and> show_nat (pol_limit p) = show_nat (pol_limit q) \<and>
      show_nat (pol_windowSeconds p) = show_nat (pol_windowSeconds q) \<and>
      (case pol_burst p of Some b \<Rightarrow> show_nat b | None \<Rightarrow> []) =
      (case pol_burst q of Some b \<Rightarrow> show_nat b | None \<Rightarrow> [])"
    using eq unfolding key append_sep_eq [OF burst burst] append_sep_eq [OF colon colon] by blast
  then have "pol_burst p = pol_burst q"
    by (cases "pol_burst p"; cases "pol_burst q") (auto simp: show_nat_inj show_base_not_Nil [THEN not_sym])
  then show "p = q" using parts by (auto simp: show_nat_inj intro: policy.equality)
qed simp

datatype mrl_op = MCheck policy string rat | MReset policy string | MPrune

fun mrl_step :: "mrl \<Rightarrow> time \<Rightarrow> mrl_op \<Rightarrow> mrl" where
  "mrl_step m now (MCheck p k c) = (case mrl_check k p c now m of Inr (m', _) \<Rightarrow> m' | Inl _ \<Rightarrow> m)"
| "mrl_step m now (MReset p k) = (case mrl_reset k p m of Inr m' \<Rightarrow> m' | Inl _ \<Rightarrow> m)"
| "mrl_step m now MPrune = fst (mrl_prune now m)"

text \<open>The answers to the checks of one policy in a run, and what that policy's own bucket
  limiter is asked.\<close>

fun mrl_decisions :: "policy \<Rightarrow> mrl \<Rightarrow> (time \<times> mrl_op) list \<Rightarrow> (js_error + rl_decision) list" where
  "mrl_decisions p m [] = []"
| "mrl_decisions p m ((now, oper) # es) =
     (case oper of
        MCheck q k c \<Rightarrow> if q = p then [map_sum id snd (mrl_check k q c now m)] else []
      | _ \<Rightarrow> []) @ mrl_decisions p (mrl_step m now oper) es"

fun tbl_decisions :: "tb_limiter \<Rightarrow> (time \<times> tb_op) list \<Rightarrow> rl_decision list" where
  "tbl_decisions l [] = []"
| "tbl_decisions l ((now, oper) # es) =
     (case snd (tbl_step l now oper) of Decision d \<Rightarrow> [d] | _ \<Rightarrow> []) @
     tbl_decisions (fst (tbl_step l now oper)) es"

fun op_for :: "policy \<Rightarrow> mrl_op \<Rightarrow> tb_op list" where
  "op_for p (MCheck q k c) = (if q = p then [TryConsume k c] else [])"
| "op_for p (MReset q k) = (if q = p then [Reset k] else [])"
| "op_for p MPrune = [Prune]"

definition ops_for :: "policy \<Rightarrow> (time \<times> mrl_op) list \<Rightarrow> (time \<times> tb_op) list" where
  "ops_for p es = concat (map (\<lambda>(now, oper). map (Pair now) (op_for p oper)) es)"

definition mrl_limiter :: "policy \<Rightarrow> tb_limiter \<Rightarrow> mrl \<Rightarrow> tb_limiter" where
  "mrl_limiter p l0 m = (case jm_get m (pol_cacheKey p) of Some l \<Rightarrow> l | None \<Rightarrow> l0)"

lemma mrl_get: "tbl_new (pol_options p) = Inr l0 \<Longrightarrow> \<exists>m'. mrl_limiterFor p m = Inr (m', mrl_limiter p l0 m) \<and>
    (\<forall>k. k \<noteq> pol_cacheKey p \<longrightarrow> jm_get m' k = jm_get m k)"
  by (auto simp: mrl_limiterFor_def mrl_limiter_def jm_get_set split: option.split)

lemma mrl_limiterFor_frame:
  "mrl_limiterFor q m = Inr (m', l) \<Longrightarrow> k \<noteq> pol_cacheKey q \<Longrightarrow> jm_get m' k = jm_get m k"
  by (auto simp: mrl_limiterFor_def jm_get_set split: option.splits sum.splits)

lemma tbl_prune_new: "tbl_new options = Inr l \<Longrightarrow> fst (tbl_prune l now) = l"
  by (auto simp: tbl_new_def tbl_prune_def split: if_splits)

lemma mrl_prune_get:
  "jm_get (fst (mrl_prune now m)) k = map_option (\<lambda>l. fst (tbl_prune l now)) (jm_get m k)"
  by (induction m) (auto simp: mrl_prune_def)

lemma mrl_step_frame:
  assumes "kk \<noteq> pol_cacheKey q"
  shows "jm_get (mrl_step m now (MCheck q k c)) kk = jm_get m kk"
    and "jm_get (mrl_step m now (MReset q k)) kk = jm_get m kk"
proof -
  consider e where "mrl_limiterFor q m = Inl e" | m' l where "mrl_limiterFor q m = Inr (m', l)"
    by (metis old.sum.exhaust surj_pair)
  then have "jm_get (mrl_step m now (MCheck q k c)) kk = jm_get m kk \<and>
      jm_get (mrl_step m now (MReset q k)) kk = jm_get m kk"
  proof cases
    case 1
    then show ?thesis by (simp add: mrl_check_def mrl_reset_def)
  next
    case 2
    then show ?thesis using mrl_limiterFor_frame [OF 2 assms] assms
      by (simp add: mrl_check_def mrl_reset_def jm_get_set split_beta)
  qed
  then show "jm_get (mrl_step m now (MCheck q k c)) kk = jm_get m kk"
    and "jm_get (mrl_step m now (MReset q k)) kk = jm_get m kk" by blast+
qed

lemma mrl_step_limiter:
  assumes new: "tbl_new (pol_options p) = Inr l0"
  shows "mrl_limiter p l0 (mrl_step m now oper) =
    (case op_for p oper of [] \<Rightarrow> mrl_limiter p l0 m | x # _ \<Rightarrow> fst (tbl_step (mrl_limiter p l0 m) now x))"
proof (cases oper)
  case (MCheck q k c)
  obtain m' where m': "mrl_limiterFor p m = Inr (m', mrl_limiter p l0 m)" using mrl_get [OF new] by blast
  show ?thesis
  proof (cases "q = p")
    case True
    then show ?thesis using m' MCheck
      by (simp add: mrl_check_def mrl_limiter_def jm_get_set split_beta)
  next
    case False
    then have ne: "pol_cacheKey p \<noteq> pol_cacheKey q" by (simp add: pol_cacheKey_inj)
    then show ?thesis using MCheck False
      by (simp add: mrl_limiter_def mrl_step_frame(1) [OF ne] del: mrl_step.simps)
  qed
next
  case (MReset q k)
  obtain m' where m': "mrl_limiterFor p m = Inr (m', mrl_limiter p l0 m)" using mrl_get [OF new] by blast
  show ?thesis
  proof (cases "q = p")
    case True
    then show ?thesis using m' MReset by (simp add: mrl_reset_def mrl_limiter_def jm_get_set)
  next
    case False
    then have ne: "pol_cacheKey p \<noteq> pol_cacheKey q" by (simp add: pol_cacheKey_inj)
    then show ?thesis using MReset False
      by (simp add: mrl_limiter_def mrl_step_frame(2) [OF ne] del: mrl_step.simps)
  qed
next
  case MPrune
  then show ?thesis
    by (simp add: mrl_limiter_def mrl_prune_get tbl_prune_new [OF new] split_beta split: option.split)
qed

text \<open>The in-process limiter keeps policies apart: in any run of checks, resets and prunes
  over any policies, the answers to one policy's checks are exactly those of a token bucket
  limiter of its own, with the policy's burst and rate, that sees that policy's checks and
  resets and the prunes. So the admission bound of the token bucket holds per policy.\<close>

theorem memory_limiter_isolates:
  assumes new: "tbl_new (pol_options p) = Inr l0"
  shows "mrl_decisions p [] es = map Inr (tbl_decisions l0 (ops_for p es))"
proof -
  have "mrl_decisions p m es = map Inr (tbl_decisions (mrl_limiter p l0 m) (ops_for p es))" for m
  proof (induction es arbitrary: m)
    case Nil
    then show ?case by (simp add: ops_for_def)
  next
    case (Cons e es)
    obtain now oper where e: "e = (now, oper)" by (cases e)
    let ?l = "mrl_limiter p l0 m"
    have step: "mrl_limiter p l0 (mrl_step m now oper) =
        (case op_for p oper of [] \<Rightarrow> ?l | x # _ \<Rightarrow> fst (tbl_step ?l now x))"
      by (rule mrl_step_limiter [OF new])
    obtain m' where m': "mrl_limiterFor p m = Inr (m', ?l)" using mrl_get [OF new] by blast
    have ops: "ops_for p ((now, x) # es) = map (Pair now) (op_for p x) @ ops_for p es" for x
      by (simp add: ops_for_def)
    show ?case
    proof (cases oper)
      case (MCheck q k c)
      then show ?thesis
        using Cons.IH [of "mrl_step m now oper"] step m' unfolding e
        by (cases "q = p") (simp_all add: ops mrl_check_def split_beta)
    next
      case (MReset q k)
      then show ?thesis using Cons.IH [of "mrl_step m now oper"] step unfolding e
        by (cases "q = p") (simp_all add: ops)
    next
      case MPrune
      then show ?thesis using Cons.IH [of "mrl_step m now oper"] step unfolding e
        by (simp add: ops split_beta)
    qed
  qed
  then show ?thesis by (simp add: mrl_limiter_def)
qed

theorem memory_limiter_isolates_witness:
  "let p = \<lparr>pol_name = ''a'', pol_limit = 1, pol_windowSeconds = 1, pol_burst = None\<rparr>;
       q = \<lparr>pol_name = ''b'', pol_limit = 5, pol_windowSeconds = 1, pol_burst = None\<rparr>
   in map (map_sum id rl_allowed)
        (mrl_decisions p [] [(0, MCheck p ''k'' 1), (0, MCheck q ''k'' 1), (0, MCheck p ''k'' 1)]) =
      [Inr True, Inr False]"
proof -
  let ?p = "\<lparr>pol_name = ''a'', pol_limit = 1, pol_windowSeconds = 1, pol_burst = None\<rparr>"
  let ?q = "\<lparr>pol_name = ''b'', pol_limit = 5, pol_windowSeconds = 1, pol_burst = None\<rparr>"
  have new: "tbl_new (pol_options ?p) =
      Inr \<lparr>tbl_options = \<lparr>tb_capacity = 1, tb_refillPerSecond = 1\<rparr>, tbl_buckets = []\<rparr>"
    by (simp add: tbl_new_def pol_options_def pol_capacity_def pol_rate_def)
  have ne: "?q \<noteq> ?p" by simp
  show ?thesis
    using memory_limiter_isolates [OF new, of "[(0, MCheck ?p ''k'' 1), (0, MCheck ?q ''k'' 1), (0, MCheck ?p ''k'' 1)]"] ne
    by (simp add: ops_for_def tbl_tryConsume_def tbl_current_def tb_consume_def tb_refill_def Let_def)
qed

section \<open>Reset of the layered limiter\<close>

text \<open>\<open>check\<close> counts under the doubled limit and burst, \<open>reset\<close> names the undoubled ones: the
  bucket that \<open>check\<close> uses in the local tier survives a reset.\<close>

lemma layered_reset_keeps_local:
  assumes "0 < pol_limit p" and "lrl_reset shared_reset k p (loc, s) = Inr (loc', s')"
  shows "jm_get loc' (pol_cacheKey (local_policy p)) = jm_get loc (pol_cacheKey (local_policy p))"
proof -
  let ?q = "p\<lparr>pol_name := pol_name p @ '':local''\<rparr>"
  have "pol_limit (local_policy p) \<noteq> pol_limit ?q" using assms(1) by (simp add: local_policy_def)
  then have "local_policy p \<noteq> ?q" by metis
  then have ne: "pol_cacheKey (local_policy p) \<noteq> pol_cacheKey ?q" using pol_cacheKey_inj by blast
  obtain m l where "mrl_limiterFor ?q loc = Inr (m, l)" "loc' = jm_set (pol_cacheKey ?q) (tbl_reset l k) m"
    using assms(2) by (auto simp: lrl_reset_def mrl_reset_def split: sum.splits)
  then show ?thesis using ne mrl_limiterFor_frame [of ?q loc m l] by (simp add: jm_get_set)
qed

end
