(* ===== verification/Retry.thy ===== *)
theory Retry
  imports JsString
begin

text \<open>
  Retries, deadlines and bounded concurrency
  (\<open>packages/runtime/src/resilience/retry.ts\<close>). What the outside world decides is a
  parameter: the outcome of each attempt, whether the signal is aborted before it, the random
  number drawn. \<open>mapWithConcurrency\<close> is a state of runners that advances when the worker of
  one of them settles, in any order.
\<close>

section \<open>Classification and backoff\<close>

text \<open>A thrown value: not an object, or an object with the fields the classifier reads.\<close>

record error_fields =
  ef_code :: "string option"
  ef_status :: "int option"
  ef_statusCode :: "int option"
  ef_name :: "string option"

datatype thrown = Primitive | ErrorObject error_fields

definition TRANSIENT_CODES :: "string list" where
  "TRANSIENT_CODES =
     [''ECONNRESET'', ''ECONNREFUSED'', ''ETIMEDOUT'', ''ENOTFOUND'', ''EAI_AGAIN'', ''EPIPE'',
      ''EHOSTUNREACH'', ''ENETUNREACH'', ''UND_ERR_CONNECT_TIMEOUT'', ''UND_ERR_HEADERS_TIMEOUT'',
      ''UND_ERR_BODY_TIMEOUT'', ''UND_ERR_SOCKET'']"

definition RETRYABLE_STATUSES :: "int list" where
  "RETRYABLE_STATUSES = [408, 425, 429, 500, 502, 503, 504]"

definition isTransientError :: "thrown \<Rightarrow> bool" where
  "isTransientError e =
     (case e of
        Primitive \<Rightarrow> False
      | ErrorObject c \<Rightarrow>
          if (case ef_code c of Some errno \<Rightarrow> errno \<in> set TRANSIENT_CODES | None \<Rightarrow> False) then True
          else if ef_name c = Some ''AbortError'' then False
          else (case (case ef_status c of Some st \<Rightarrow> Some st | None \<Rightarrow> ef_statusCode c) of
                  Some status \<Rightarrow> status \<in> set RETRYABLE_STATUSES
                | None \<Rightarrow> False))"

definition computeBackoff :: "nat \<Rightarrow> rat \<Rightarrow> rat \<Rightarrow> rat \<Rightarrow> rat \<Rightarrow> int" where
  "computeBackoff attempt baseDelayMs maxDelayMs factor random =
     (let exponential = min maxDelayMs (baseDelayMs * factor ^ (attempt - 1))
      in js_round (random * exponential))"

section \<open>Retry\<close>








text \<open>\<open>withTimeout\<close>: what the operation settled with, and whether the timer had fired by then.\<close>

datatype 'e timeout_error = TimeoutError string | OperationError 'e

definition withTimeout :: "'e + 'a \<Rightarrow> bool \<Rightarrow> nat \<Rightarrow> string \<Rightarrow> 'e timeout_error + 'a" where
  "withTimeout operation aborted timeoutMs message =
     (case operation of
        Inr result \<Rightarrow> Inr result
      | Inl error \<Rightarrow>
          if aborted then Inl (TimeoutError (message @ '' after '' @ show_nat timeoutMs @ ''ms''))
          else Inl (OperationError error))"

section \<open>Bounded concurrency\<close>








section \<open>Retry: what happens\<close>






lemma computeBackoff_bounds:
  assumes "0 \<le> base" "0 \<le> limit" "0 \<le> factor" "0 \<le> r" "r < 1"
  shows "0 \<le> computeBackoff i base limit factor r \<and> of_int (computeBackoff i base limit factor r) \<le> limit + 1 / 2"
proof -
  let ?x = "min limit (base * factor ^ (i - 1))"
  have x: "0 \<le> ?x" "?x \<le> limit" using assms by simp_all
  have "0 \<le> r * ?x" using assms(4) x(1) by (rule mult_nonneg_nonneg)
  have "r * ?x \<le> ?x" using assms(4,5) x(1) by (intro mult_left_le_one_le) simp_all
  then have "r * ?x \<le> limit" using x(2) by (rule order_trans)
  have "0 \<le> js_round (r * ?x)" unfolding js_round_def using \<open>0 \<le> r * ?x\<close> by (simp add: zero_le_floor)
  moreover have "of_int (js_round (r * ?x)) \<le> r * ?x + 1 / 2" unfolding js_round_def by (rule of_int_floor_le)
  ultimately show ?thesis using \<open>r * ?x \<le> limit\<close> by (simp add: computeBackoff_def Let_def)
qed



section \<open>Concurrency: every result, bounded in flight\<close>








end
