(* ===== verification/Lock.thy ===== *)
theory Lock
  imports Prelude
begin

text \<open>
  Leased locks (\<open>packages/runtime/src/resilience/lock.ts\<close>): the in-process provider with its
  map of tokens and expiries, the Redis provider whose scripts compare the token, and the
  clients \<open>withLock\<close> and \<open>withRenewingLock\<close> over the interface of a provider. Tokens are what
  \<open>randomUUID\<close> returns and are given to \<open>acquire\<close>; every operation reads the clock once.
\<close>

record lock_entry =
  lk_token :: string
  lk_expiresAt :: time

type_synonym lock_map = "(string, lock_entry) jsmap"

record lock_handle =
  lh_key :: string
  lh_token :: string

definition lock_key :: "string \<Rightarrow> string" where
  "lock_key key = ''lock:'' @ key"

section \<open>In-process provider\<close>

definition ml_acquire :: "string \<Rightarrow> int \<Rightarrow> string \<Rightarrow> time \<Rightarrow> lock_map \<Rightarrow> lock_map \<times> lock_handle option" where
  "ml_acquire key ttlMs token now locks =
     (let lockKey = lock_key key in
      if (case jm_get locks lockKey of Some existing \<Rightarrow> now < lk_expiresAt existing | None \<Rightarrow> False)
      then (locks, None)
      else (jm_set lockKey \<lparr>lk_token = token, lk_expiresAt = now + ttlMs\<rparr> locks,
            Some \<lparr>lh_key = lockKey, lh_token = token\<rparr>))"

definition ml_extend :: "lock_handle \<Rightarrow> int \<Rightarrow> time \<Rightarrow> lock_map \<Rightarrow> lock_map \<times> bool" where
  "ml_extend h nextTtl now locks =
     (case jm_get locks (lh_key h) of
        None \<Rightarrow> (locks, False)
      | Some current \<Rightarrow>
          if lk_token current \<noteq> lh_token h then (locks, False)
          else (jm_set (lh_key h) (current\<lparr>lk_expiresAt := now + nextTtl\<rparr>) locks, True))"

definition ml_release :: "lock_handle \<Rightarrow> lock_map \<Rightarrow> lock_map" where
  "ml_release h locks =
     (case jm_get locks (lh_key h) of
        None \<Rightarrow> locks
      | Some current \<Rightarrow> if lk_token current = lh_token h then jm_delete (lh_key h) locks else locks)"

definition ml_prune :: "time \<Rightarrow> lock_map \<Rightarrow> lock_map \<times> nat" where
  "ml_prune now locks =
     (let kept = filter (\<lambda>(key, lock). \<not> lk_expiresAt lock \<le> now) locks
      in (kept, length locks - length kept))"

section \<open>Redis provider\<close>

text \<open>The scripts, and what Redis answers: OK, nil, or an integer. \<open>eval\<close> is Redis, None when
  the call throws.\<close>

datatype lock_script = SET_NX_PX string int | RELEASE_SCRIPT string | EXTEND_SCRIPT string int

datatype redis_reply = OK | Nil_Reply | Integer_Reply int

definition rl_setNx ::
  "(lock_script \<Rightarrow> string \<Rightarrow> 'r \<Rightarrow> 'r \<times> redis_reply option) \<Rightarrow>
   string \<Rightarrow> string \<Rightarrow> int \<Rightarrow> 'r \<Rightarrow> 'r \<times> bool option"
where
  "rl_setNx eval key token ttlMs redis =
     (case eval (SET_NX_PX token ttlMs) key redis of
        (redis', Some result) \<Rightarrow> (redis', Some (result = OK))
      | (redis', None) \<Rightarrow> (redis', None))"

definition rl_acquire ::
  "(lock_script \<Rightarrow> string \<Rightarrow> 'r \<Rightarrow> 'r \<times> redis_reply option) \<Rightarrow>
   string \<Rightarrow> int \<Rightarrow> string \<Rightarrow> 'r \<Rightarrow> 'r \<times> lock_handle option"
where
  "rl_acquire eval key ttlMs token redis =
     (case rl_setNx eval (lock_key key) token ttlMs redis of
        (redis', Some True) \<Rightarrow> (redis', Some \<lparr>lh_key = lock_key key, lh_token = token\<rparr>)
      | (redis', _) \<Rightarrow> (redis', None))"

definition rl_extend ::
  "(lock_script \<Rightarrow> string \<Rightarrow> 'r \<Rightarrow> 'r \<times> redis_reply option) \<Rightarrow> lock_handle \<Rightarrow> int \<Rightarrow> 'r \<Rightarrow> 'r \<times> bool"
where
  "rl_extend eval h nextTtl redis =
     (case eval (EXTEND_SCRIPT (lh_token h) nextTtl) (lh_key h) redis of
        (redis', Some extended) \<Rightarrow> (redis', extended = Integer_Reply 1)
      | (redis', None) \<Rightarrow> (redis', False))"

definition rl_release ::
  "(lock_script \<Rightarrow> string \<Rightarrow> 'r \<Rightarrow> 'r \<times> redis_reply option) \<Rightarrow> lock_handle \<Rightarrow> 'r \<Rightarrow> 'r"
where
  "rl_release eval h redis = fst (eval (RELEASE_SCRIPT (lh_token h)) (lh_key h) redis)"

section \<open>Clients of a provider\<close>

text \<open>Errors of the task are the left of the sum; None is the lock held elsewhere.\<close>

definition withLock ::
  "('s \<Rightarrow> 's \<times> 'h option) \<Rightarrow> ('h \<Rightarrow> 's \<Rightarrow> 's) \<Rightarrow> ('h \<Rightarrow> 's \<Rightarrow> 's \<times> ('e + 'a)) \<Rightarrow>
   's \<Rightarrow> 's \<times> ('e + 'a option)"
where
  "withLock acquire release task s0 =
     (case acquire s0 of
        (s1, None) \<Rightarrow> (s1, Inr None)
      | (s1, Some handle) \<Rightarrow>
          let (s2, result) = task handle s1
          in (release handle s2, map_sum id Some result))"

text \<open>The task of \<open>withRenewingLock\<close> is cut at the ticks of the renewal timer: it is the list of
  what it does before each tick, and what it does last. A tick extends the lease.\<close>

definition renewal_period :: "int \<Rightarrow> int" where
  "renewal_period ttlMs = max 1000 (ttlMs div 3)"

fun renewing :: "('s \<Rightarrow> 's) \<Rightarrow> ('s \<Rightarrow> 's) list \<Rightarrow> 's \<Rightarrow> 's" where
  "renewing renew [] s = s"
| "renewing renew (part # parts) s = renewing renew parts (renew (part s))"

definition withRenewingLock ::
  "('s \<Rightarrow> 's \<times> 'h option) \<Rightarrow> ('h \<Rightarrow> 's \<Rightarrow> 's) \<Rightarrow> ('h \<Rightarrow> 's \<Rightarrow> 's) \<Rightarrow>
   ('h \<Rightarrow> ('s \<Rightarrow> 's) list) \<Rightarrow> ('h \<Rightarrow> 's \<Rightarrow> 's \<times> ('e + 'a)) \<Rightarrow> 's \<Rightarrow> 's \<times> ('e + 'a option)"
where
  "withRenewingLock acquire renew release parts final s0 =
     (case acquire s0 of
        (s1, None) \<Rightarrow> (s1, Inr None)
      | (s1, Some handle) \<Rightarrow>
          let (s2, result) = final handle (renewing (renew handle) (parts handle) s1)
          in (release handle s2, map_sum id Some result))"

section \<open>The interface of a provider\<close>

text \<open>\<open>holds s h\<close>: the store still has the lease of handle \<open>h\<close>. A provider grants a lease only
  when nobody holds one on the key, and takes back only the lease of the handle released.\<close>

locale lock_provider =
  fixes acquire :: "string \<Rightarrow> 's \<Rightarrow> 's \<times> lock_handle option"
    and release :: "lock_handle \<Rightarrow> 's \<Rightarrow> 's"
    and holds :: "'s \<Rightarrow> lock_handle \<Rightarrow> bool"
  assumes acquire_holds: "acquire k s = (s', Some h) \<Longrightarrow> lh_key h = lock_key k \<and> holds s' h"
    and acquire_refused: "acquire k s = (s', None) \<Longrightarrow> s' = s"
    and release_gone: "\<not> holds (release h s) h"
    and release_frame: "h' \<noteq> h \<Longrightarrow> holds (release h s) h' \<longleftrightarrow> holds s h'"
begin

text \<open>The lock is given back however the task ends, and the task of one client leaves the
  lease of any other as it was when the task left it.\<close>

lemma withLock_released:
  assumes "acquire k s = (s1, Some h)"
  shows "\<not> holds (fst (withLock (acquire k) release task s)) h"
  using assms release_gone by (simp add: withLock_def split_beta)

lemma withLock_frame:
  assumes "acquire k s = (s1, Some h)" and "h' \<noteq> h"
  shows "holds (fst (withLock (acquire k) release task s)) h' \<longleftrightarrow> holds (fst (task h s1)) h'"
  using assms release_frame by (simp add: withLock_def split_beta)

lemma withLock_skipped:
  assumes "acquire k s = (s1, None)"
  shows "withLock (acquire k) release task s = (s, Inr None)"
  using assms acquire_refused [OF assms] by (simp add: withLock_def)

lemma withRenewingLock_released:
  assumes "acquire k s = (s1, Some h)"
  shows "\<not> holds (fst (withRenewingLock (acquire k) renew release parts final s)) h"
  using assms release_gone by (simp add: withRenewingLock_def split_beta)

end

definition ml_holds :: "lock_map \<Rightarrow> lock_handle \<Rightarrow> bool" where
  "ml_holds locks h \<longleftrightarrow> (case jm_get locks (lh_key h) of Some e \<Rightarrow> lk_token e = lh_token h | None \<Rightarrow> False)"

lemma ml_release_get:
  "jm_get (ml_release h locks) k =
     (if k = lh_key h \<and> ml_holds locks h then None else jm_get locks k)"
  by (auto simp: ml_release_def ml_holds_def jm_get_delete split: option.split)

interpretation ml: lock_provider "\<lambda>k. ml_acquire k ttl token now" ml_release ml_holds
  for ttl token now
proof unfold_locales
  show "ml_acquire k ttl token now s = (s', Some h) \<Longrightarrow> lh_key h = lock_key k \<and> ml_holds s' h" for k s s' h
    by (auto simp: ml_acquire_def ml_holds_def Let_def jm_get_set split: if_splits)
  show "ml_acquire k ttl token now s = (s', None) \<Longrightarrow> s' = s" for k s s'
    by (auto simp: ml_acquire_def Let_def split: if_splits)
  show "\<not> ml_holds (ml_release h s) h" for h s
    by (auto simp: ml_holds_def ml_release_get split: option.splits)
  show "h' \<noteq> h \<Longrightarrow> ml_holds (ml_release h s) h' \<longleftrightarrow> ml_holds s h'" for h h' s
    by (cases h; cases h') (auto simp: ml_holds_def ml_release_get split: option.splits)
qed

section \<open>Mutual exclusion\<close>

text \<open>A run of the provider: time does not go back, and the tokens of acquisitions are fresh.
  The holder of a lease on a key is known by its handle and the time its lease ends.\<close>

datatype lock_op =
    Acquire string int string
  | Extend lock_handle int
  | Release lock_handle
  | PruneLocks

text \<open>The leases as their holders see them: granted by \<open>acquire\<close>, moved by a successful
  \<open>extend\<close>, ended by \<open>release\<close>.\<close>

record lock_world =
  lw_locks :: lock_map
  lw_leases :: "(lock_handle \<times> time) list"
  lw_used :: "string set"

fun lock_step :: "time \<Rightarrow> lock_op \<Rightarrow> lock_world \<Rightarrow> lock_world" where
  "lock_step now (Acquire k ttl token) w =
     (case ml_acquire k ttl token now (lw_locks w) of
        (locks', Some h) \<Rightarrow> \<lparr>lw_locks = locks', lw_leases = (h, now + ttl) # lw_leases w,
                            lw_used = insert token (lw_used w)\<rparr>
      | (locks', None) \<Rightarrow> w\<lparr>lw_locks := locks', lw_used := insert token (lw_used w)\<rparr>)"
| "lock_step now (Extend h ttl) w =
     (case ml_extend h ttl now (lw_locks w) of
        (locks', True) \<Rightarrow> w\<lparr>lw_locks := locks',
             lw_leases := map (\<lambda>(h', t). (h', if h' = h then now + ttl else t)) (lw_leases w)\<rparr>
      | (locks', False) \<Rightarrow> w\<lparr>lw_locks := locks'\<rparr>)"
| "lock_step now (Release h) w =
     w\<lparr>lw_locks := ml_release h (lw_locks w), lw_leases := filter (\<lambda>(h', t). h' \<noteq> h) (lw_leases w)\<rparr>"
| "lock_step now PruneLocks w = w\<lparr>lw_locks := fst (ml_prune now (lw_locks w))\<rparr>"

inductive lock_run :: "time \<Rightarrow> lock_world \<Rightarrow> bool" where
  init: "lock_run now \<lparr>lw_locks = [], lw_leases = [], lw_used = {}\<rparr>"
| step: "lock_run now w \<Longrightarrow> now \<le> now' \<Longrightarrow>
    (case oper of Acquire k ttl token \<Rightarrow> token \<notin> lw_used w | _ \<Rightarrow> True) \<Longrightarrow>
    lock_run now' (lock_step now' oper w)"

definition lock_inv :: "time \<Rightarrow> lock_world \<Rightarrow> bool" where
  "lock_inv now w \<longleftrightarrow> jm_wf (lw_locks w) \<and>
     (\<forall>(h, t)\<in>set (lw_leases w). lh_token h \<in> lw_used w \<and>
        (now < t \<longrightarrow> jm_get (lw_locks w) (lh_key h) = Some \<lparr>lk_token = lh_token h, lk_expiresAt = t\<rparr>)) \<and>
     (\<forall>k e. jm_get (lw_locks w) k = Some e \<longrightarrow> lk_token e \<in> lw_used w)"

lemma ml_prune_get:
  "jm_wf locks \<Longrightarrow> jm_get (fst (ml_prune now locks)) k =
     (case jm_get locks k of None \<Rightarrow> None | Some e \<Rightarrow> if lk_expiresAt e \<le> now then None else Some e)"
  by (auto simp: ml_prune_def Let_def jm_get_filter split: option.split)

lemma lock_inv_step:
  assumes inv: "lock_inv now w" and le: "now \<le> now'"
    and fresh: "case oper of Acquire k ttl token \<Rightarrow> token \<notin> lw_used w | _ \<Rightarrow> True"
  shows "lock_inv now' (lock_step now' oper w)"
proof -
  have wf: "jm_wf (lw_locks w)"
    and live: "\<And>h t. (h, t) \<in> set (lw_leases w) \<Longrightarrow> now' < t \<Longrightarrow>
      jm_get (lw_locks w) (lh_key h) = Some \<lparr>lk_token = lh_token h, lk_expiresAt = t\<rparr>"
    and used: "\<And>h t. (h, t) \<in> set (lw_leases w) \<Longrightarrow> lh_token h \<in> lw_used w"
    and used': "\<And>k e. jm_get (lw_locks w) k = Some e \<Longrightarrow> lk_token e \<in> lw_used w"
    using inv le unfolding lock_inv_def by (blast, fastforce, fastforce, blast)
  show ?thesis
  proof (cases oper)
    case (Acquire k ttl token)
    show ?thesis
    proof (cases "case jm_get (lw_locks w) (lock_key k) of Some e \<Rightarrow> now' < lk_expiresAt e | None \<Rightarrow> False")
      case True
      then show ?thesis using wf live used used'
        by (auto simp: Acquire ml_acquire_def Let_def lock_inv_def)
    next
      case False
      have other: "lh_key h \<noteq> lock_key k" if "(h, t) \<in> set (lw_leases w)" "now' < t" for h t
        using live [OF that] that(2) False by auto
      show ?thesis using False wf live used used' other
        by (auto simp: Acquire ml_acquire_def Let_def lock_inv_def jm_get_set)
    qed
  next
    case (Extend h ttl)
    show ?thesis
    proof (cases "ml_holds (lw_locks w) h")
      case False
      then have "ml_extend h ttl now' (lw_locks w) = (lw_locks w, False)"
        by (auto simp: ml_holds_def ml_extend_def split: option.splits)
      then show ?thesis using wf live used used' by (auto simp: Extend lock_inv_def)
    next
      case True
      then obtain e where e: "jm_get (lw_locks w) (lh_key h) = Some e" "lk_token e = lh_token h"
        by (auto simp: ml_holds_def split: option.splits)
      have other: "lh_key h' \<noteq> lh_key h" if "(h', t) \<in> set (lw_leases w)" "now' < t" "h' \<noteq> h" for h' t
        using live [OF that(1,2)] e that(3) by (cases h; cases h') auto
      have "lk_token e \<in> lw_used w" using e used' by blast
      then show ?thesis using wf live used used' other e
        by (auto simp: Extend lock_inv_def ml_extend_def jm_get_set split: if_splits)
    qed
  next
    case (Release h)
    have other: "\<not> (lh_key h' = lh_key h \<and> ml_holds (lw_locks w) h)"
      if "(h', t) \<in> set (lw_leases w)" "now' < t" "h' \<noteq> h" for h' t
      using live [OF that(1,2)] that(3) by (cases h; cases h') (auto simp: ml_holds_def)
    have "jm_wf (ml_release h (lw_locks w))" using wf by (auto simp: ml_release_def split: option.split)
    then show ?thesis using live used used' other
      by (auto simp: Release lock_inv_def ml_release_get split: if_splits)
  next
    case PruneLocks
    have "jm_wf (fst (ml_prune now' (lw_locks w)))" using wf by (simp add: ml_prune_def Let_def)
    then show ?thesis using live used used'
      by (fastforce simp: PruneLocks lock_inv_def ml_prune_get [OF wf] split: option.splits if_splits)
  qed
qed

lemma lock_run_inv: "lock_run now w \<Longrightarrow> lock_inv now w"
proof (induction rule: lock_run.induct)
  case (init now)
  then show ?case by (simp add: lock_inv_def)
qed (rule lock_inv_step)

text \<open>C14: The lock excludes. In any run of acquisitions with fresh tokens, extensions, releases
  (repeated or late ones included) and prunes, at any time at most one handle has an
  unexpired lease on a key; while a lease is unexpired the store holds it, so that its
  \<open>extend\<close> succeeds and no other \<open>acquire\<close> of the key does; and releasing a handle whose lease
  was lost takes nobody else's lock away.\<close>

theorem lock_mutual_exclusion:
  assumes run: "lock_run now w" and h: "(h, t) \<in> set (lw_leases w)" "now < t"
  shows "((h', t') \<in> set (lw_leases w) \<and> now < t' \<and> lh_key h' = lh_key h \<longrightarrow> h' = h) \<and>
    snd (ml_extend h ttl now (lw_locks w)) \<and>
    (lock_key k = lh_key h \<longrightarrow> snd (ml_acquire k ttl token now (lw_locks w)) = None) \<and>
    (h'' \<noteq> h \<longrightarrow> jm_get (ml_release h'' (lw_locks w)) (lh_key h) = jm_get (lw_locks w) (lh_key h))"
proof -
  have live: "\<And>h t. (h, t) \<in> set (lw_leases w) \<Longrightarrow> now < t \<Longrightarrow>
      jm_get (lw_locks w) (lh_key h) = Some \<lparr>lk_token = lh_token h, lk_expiresAt = t\<rparr>"
    using lock_run_inv [OF run] unfolding lock_inv_def by fastforce
  note e = live [OF h]
  have "(h', t') \<in> set (lw_leases w) \<and> now < t' \<and> lh_key h' = lh_key h \<longrightarrow> h' = h"
    using live [of h' t'] e by (cases h; cases h') auto
  moreover have "snd (ml_extend h ttl now (lw_locks w))" using e by (simp add: ml_extend_def)
  moreover have "lock_key k = lh_key h \<longrightarrow> snd (ml_acquire k ttl token now (lw_locks w)) = None"
    using e h(2) by (simp add: ml_acquire_def Let_def)
  moreover have "h'' \<noteq> h \<longrightarrow> jm_get (ml_release h'' (lw_locks w)) (lh_key h) = jm_get (lw_locks w) (lh_key h)"
    using e by (cases h; cases h'') (auto simp: ml_release_get ml_holds_def)
  ultimately show ?thesis by blast
qed

theorem lock_mutual_exclusion_witness:
  "\<exists>w. lock_run 5 w \<and> snd (ml_acquire ''job'' 10 ''t2'' 5 (lw_locks w)) = None"
proof -
  let ?w0 = "\<lparr>lw_locks = [], lw_leases = [], lw_used = {}\<rparr>"
  let ?w = "lock_step 5 (Acquire ''job'' 10 ''t1'') ?w0"
  have run: "lock_run 5 ?w" by (rule lock_run.step [OF lock_run.init [of 5]]) simp_all
  have lease: "(\<lparr>lh_key = lock_key ''job'', lh_token = ''t1''\<rparr>, 15) \<in> set (lw_leases ?w)"
    by (simp add: ml_acquire_def Let_def)
  show ?thesis
    using lock_mutual_exclusion [OF run lease, of _ _ 10 "''job''" "''t2''"] run
    by (intro exI [of _ ?w]) (simp del: lock_step.simps)
qed

end
