(* ===== verification/CacheStores.thy ===== *)
theory CacheStores
  imports Lru JsString "HOL-Library.Monad_Syntax"
begin

text \<open>
  The cache stores of \<open>packages/runtime/src/cache\<close>: the interface \<open>CacheStore\<close> as a record of
  operations over a state, the null store, the in-process store over the LRU cache of
  \<open>Lru\<close> with its glob patterns, and the Redis store. The Redis client and \<open>JSON\<close> are
  parameters; a Redis call that throws returns None. The locale states what a store
  promises, in terms of what it holds, and is interpreted on the null and in-process stores.
\<close>

record cache_stats =
  cst_name :: string
  cst_hits :: nat
  cst_misses :: nat
  cst_hitRate :: rat
  cst_size :: "nat option"
  cst_errors :: nat

text \<open>\<open>deletePattern\<close> is None when its scan would not end.\<close>

record ('s, 'v) cache_ops =
  co_name :: string
  co_get :: "time \<Rightarrow> string \<Rightarrow> 's \<Rightarrow> 's \<times> 'v option"
  co_set :: "time \<Rightarrow> string \<Rightarrow> 'v \<Rightarrow> int option \<Rightarrow> 's \<Rightarrow> 's"
  co_delete :: "string \<Rightarrow> 's \<Rightarrow> 's"
  co_deletePattern :: "string \<Rightarrow> 's \<Rightarrow> ('s \<times> nat) option"
  co_getMany :: "time \<Rightarrow> string list \<Rightarrow> 's \<Rightarrow> 's \<times> 'v option list"
  co_increment :: "string \<Rightarrow> int \<Rightarrow> int option \<Rightarrow> 's \<Rightarrow> 's \<times> int"
  co_isHealthy :: "'s \<Rightarrow> 's \<times> bool"
  co_stats :: "'s \<Rightarrow> 's \<times> cache_stats"
  co_close :: "'s \<Rightarrow> 's"

definition jitterTtl :: "int \<Rightarrow> rat \<Rightarrow> rat \<Rightarrow> int" where
  "jitterTtl ttlSeconds fraction random =
     (if ttlSeconds \<le> 0 then ttlSeconds
      else let delta = of_int ttlSeconds * fraction
           in max 1 (js_round (of_int ttlSeconds + (random * 2 - 1) * delta)))"

definition null_ops :: "(unit, 'v) cache_ops" where
  "null_ops =
     \<lparr>co_name = ''null'', co_get = (\<lambda>now k s. (s, None)), co_set = (\<lambda>now k v ttl s. s),
      co_delete = (\<lambda>k s. s), co_deletePattern = (\<lambda>p s. Some (s, 0)),
      co_getMany = (\<lambda>now ks s. (s, map (\<lambda>_. None) ks)), co_increment = (\<lambda>k n ttl s. (s, 0)),
      co_isHealthy = (\<lambda>s. (s, True)),
      co_stats = (\<lambda>s. (s, \<lparr>cst_name = ''null'', cst_hits = 0, cst_misses = 0, cst_hitRate = 0,
                           cst_size = Some 0, cst_errors = 0\<rparr>)),
      co_close = (\<lambda>s. s)\<rparr>"

section \<open>Glob patterns\<close>

text \<open>The regular expression a glob becomes: escaped and plain characters stand for
  themselves, \<open>*\<close> and \<open>?\<close> become \<open>.*\<close> and \<open>.\<close>, and the whole is anchored. The dot does not
  match a line terminator.\<close>

datatype glob_atom = Lit char | AnyRun | AnyOne

definition globToRegExp :: "string \<Rightarrow> glob_atom list" where
  "globToRegExp pattern =
     map (\<lambda>c. if c = CHR ''*'' then AnyRun else if c = CHR ''?'' then AnyOne else Lit c) pattern"

definition line_terminator :: "char \<Rightarrow> bool" where
  "line_terminator c \<longleftrightarrow> code c = 10 \<or> code c = 13"

function re_test :: "glob_atom list \<Rightarrow> string \<Rightarrow> bool" where
  "re_test [] s = (s = [])"
| "re_test (Lit c # as) s = (case s of [] \<Rightarrow> False | x # xs \<Rightarrow> x = c \<and> re_test as xs)"
| "re_test (AnyOne # as) s = (case s of [] \<Rightarrow> False | x # xs \<Rightarrow> \<not> line_terminator x \<and> re_test as xs)"
| "re_test (AnyRun # as) s =
     (re_test as s \<or> (case s of [] \<Rightarrow> False | x # xs \<Rightarrow> \<not> line_terminator x \<and> re_test (AnyRun # as) xs))"
  by pat_completeness auto

termination re_test by (relation "measure (\<lambda>(as, s). length as + length s)") auto

definition glob_test :: "string \<Rightarrow> string \<Rightarrow> bool" where
  "glob_test pattern key = re_test (globToRegExp pattern) key"

section \<open>In-process store\<close>

record 'v mem_cache =
  mc_cache :: "(string, 'v) lru"
  mc_defaultTtlMs :: int
  mc_counters :: "(string, int) jsmap"

definition mem_new :: "int option \<Rightarrow> int option \<Rightarrow> js_error + 'v mem_cache" where
  "mem_new maxSize defaultTtlSeconds =
     (let ttlMs = (case defaultTtlSeconds of Some t \<Rightarrow> t | None \<Rightarrow> 300) * 1000 in
      case lru_new (case maxSize of Some n \<Rightarrow> n | None \<Rightarrow> 5000) (Some ttlMs) of
        Inl e \<Rightarrow> Inl e
      | Inr cache \<Rightarrow> Inr \<lparr>mc_cache = cache, mc_defaultTtlMs = ttlMs, mc_counters = []\<rparr>)"

definition mem_get :: "time \<Rightarrow> string \<Rightarrow> 'v mem_cache \<Rightarrow> 'v mem_cache \<times> 'v option" where
  "mem_get now key s = (let (v, c) = lru_get now key (mc_cache s) in (s\<lparr>mc_cache := c\<rparr>, v))"

definition mem_set :: "time \<Rightarrow> string \<Rightarrow> 'v \<Rightarrow> int option \<Rightarrow> 'v mem_cache \<Rightarrow> 'v mem_cache" where
  "mem_set now key v ttlSeconds s =
     (let ttlMs = (case ttlSeconds of
                     Some t \<Rightarrow> if t \<noteq> 0 then t * 1000 else mc_defaultTtlMs s
                   | None \<Rightarrow> mc_defaultTtlMs s)
      in s\<lparr>mc_cache := lru_put now key v (Some ttlMs) (mc_cache s)\<rparr>)"

definition mem_delete :: "string \<Rightarrow> 'v mem_cache \<Rightarrow> 'v mem_cache" where
  "mem_delete key s =
     s\<lparr>mc_cache := snd (lru_delete key (mc_cache s)), mc_counters := jm_delete key (mc_counters s)\<rparr>"

fun delete_matching :: "string \<Rightarrow> string list \<Rightarrow> (string, 'v) lru \<Rightarrow> nat \<Rightarrow> (string, 'v) lru \<times> nat" where
  "delete_matching pattern [] c removed = (c, removed)"
| "delete_matching pattern (k # ks) c removed =
     (if glob_test pattern k then delete_matching pattern ks (snd (lru_delete k c)) (removed + 1)
      else delete_matching pattern ks c removed)"

fun delete_counters :: "string \<Rightarrow> string list \<Rightarrow> (string, int) jsmap \<Rightarrow> nat \<Rightarrow> (string, int) jsmap \<times> nat" where
  "delete_counters pattern [] m removed = (m, removed)"
| "delete_counters pattern (k # ks) m removed =
     (if glob_test pattern k then delete_counters pattern ks (jm_delete k m) (removed + 1)
      else delete_counters pattern ks m removed)"

definition mem_deletePattern :: "string \<Rightarrow> 'v mem_cache \<Rightarrow> ('v mem_cache \<times> nat) option" where
  "mem_deletePattern pattern s =
     (case lru_keys (mc_cache s) of
        None \<Rightarrow> None
      | Some keys \<Rightarrow>
          let (c, removed) = delete_matching pattern keys (mc_cache s) 0;
              (m, removed') = delete_counters pattern (jm_keys (mc_counters s)) (mc_counters s) removed
          in Some (s\<lparr>mc_cache := c, mc_counters := m\<rparr>, removed'))"

fun mem_getMany :: "time \<Rightarrow> string list \<Rightarrow> 'v mem_cache \<Rightarrow> 'v mem_cache \<times> 'v option list" where
  "mem_getMany now [] s = (s, [])"
| "mem_getMany now (k # ks) s =
     (let (s1, v) = mem_get now k s; (s2, vs) = mem_getMany now ks s1 in (s2, v # vs))"

text \<open>The time to live of \<open>increment\<close> is not a parameter of this store's method.\<close>

definition mem_increment :: "string \<Rightarrow> int \<Rightarrow> int option \<Rightarrow> 'v mem_cache \<Rightarrow> 'v mem_cache \<times> int" where
  "mem_increment key amount ttlSeconds s =
     (let new = (case jm_get (mc_counters s) key of Some n \<Rightarrow> n | None \<Rightarrow> 0) + amount
      in (s\<lparr>mc_counters := jm_set key new (mc_counters s)\<rparr>, new))"

definition mem_isHealthy :: "'v mem_cache \<Rightarrow> 'v mem_cache \<times> bool" where
  "mem_isHealthy s = (s, True)"

definition mem_stats :: "'v mem_cache \<Rightarrow> 'v mem_cache \<times> cache_stats" where
  "mem_stats s =
     (let inner = lru_stats_of (mc_cache s)
      in (s, \<lparr>cst_name = ''memory'', cst_hits = st_hits inner, cst_misses = st_misses inner,
              cst_hitRate = st_hit_rate inner, cst_size = Some (st_size inner), cst_errors = 0\<rparr>))"

definition mem_prune :: "time \<Rightarrow> 'v mem_cache \<Rightarrow> 'v mem_cache \<times> nat" where
  "mem_prune now s = (let (n, c) = lru_prune now (mc_cache s) in (s\<lparr>mc_cache := c\<rparr>, n))"

definition mem_close :: "'v mem_cache \<Rightarrow> 'v mem_cache" where
  "mem_close s = s\<lparr>mc_cache := lru_clear (mc_cache s), mc_counters := []\<rparr>"

definition mem_ops :: "('v mem_cache, 'v) cache_ops" where
  "mem_ops =
     \<lparr>co_name = ''memory'', co_get = mem_get, co_set = mem_set, co_delete = mem_delete,
      co_deletePattern = mem_deletePattern, co_getMany = mem_getMany, co_increment = mem_increment,
      co_isHealthy = mem_isHealthy, co_stats = mem_stats, co_close = mem_close\<rparr>"

section \<open>What a store promises\<close>

text \<open>\<open>holds s\<close> is what the store could still answer, expired entries included. Reading can
  only forget; writing a key can only forget others; deleting forgets.\<close>

locale cache_store =
  fixes ops :: "('s, 'v) cache_ops" and ok :: "'s \<Rightarrow> bool" and holds :: "'s \<Rightarrow> string \<Rightarrow> 'v option"
  assumes get_ok: "ok s \<Longrightarrow> ok (fst (co_get ops now k s))"
    and get_reply: "ok s \<Longrightarrow> snd (co_get ops now k s) \<in> {None, holds s k}"
    and get_holds: "ok s \<Longrightarrow> holds (fst (co_get ops now k s)) \<subseteq>\<^sub>m holds s"
    and set_ok: "ok s \<Longrightarrow> ok (co_set ops now k v ttl s)"
    and set_holds: "ok s \<Longrightarrow> holds (co_set ops now k v ttl s) \<subseteq>\<^sub>m (holds s)(k \<mapsto> v)"
    and delete_ok: "ok s \<Longrightarrow> ok (co_delete ops k s)"
    and delete_holds: "ok s \<Longrightarrow> holds (co_delete ops k s) \<subseteq>\<^sub>m (holds s)(k := None)"
    and pattern_ends: "ok s \<Longrightarrow> \<exists>s' n. co_deletePattern ops p s = Some (s', n) \<and> ok s' \<and>
      holds s' \<subseteq>\<^sub>m (holds s) |` {k. \<not> glob_test p k}"
begin

lemma get_after_delete: "ok s \<Longrightarrow> snd (co_get ops now k (co_delete ops k s)) = None"
  using get_reply [OF delete_ok, of s now k k] delete_holds [of s k]
  by (force simp: map_le_def dom_def)

lemma get_after_set:
  assumes "ok s"
  shows "snd (co_get ops now k (co_set ops now' k v ttl s)) \<in> {None, Some v}"
proof -
  have "holds (co_set ops now' k v ttl s) k \<in> {None, Some v}"
    using set_holds [OF assms, of now' k v ttl] by (force simp: map_le_def dom_def)
  then show ?thesis using get_reply [OF set_ok [OF assms], of now k now' k v ttl] by auto
qed

end

interpretation null_store: cache_store null_ops "\<lambda>_. True" "\<lambda>_ _. None"
  by unfold_locales (simp_all add: null_ops_def map_le_def)

definition mem_ok :: "'v mem_cache \<Rightarrow> bool" where
  "mem_ok s \<longleftrightarrow> (\<exists>es. lru_sim (mc_cache s) es) \<and> 0 \<le> lr_max (mc_cache s)"

definition mem_holds :: "'v mem_cache \<Rightarrow> string \<Rightarrow> 'v option" where
  "mem_holds s k =
     map_option (\<lambda>a. ln_value (lr_store (mc_cache s) a)) (jm_get (lr_map (mc_cache s)) k)"

definition es_holds :: "(string, 'v) entries \<Rightarrow> string \<Rightarrow> 'v option" where
  "es_holds es k = map_option fst (map_of es k)"

lemma mem_holds_entries: "lru_sim (mc_cache s) es \<Longrightarrow> mem_holds s = es_holds es"
  by (auto simp: lru_sim_def mem_holds_def es_holds_def map_of_entries fun_eq_iff option.map_comp o_def)

lemma mem_okE:
  assumes "mem_ok s"
  obtains es cap where "lru_sim (mc_cache s) es" "lr_max (mc_cache s) = int cap" "mem_holds s = es_holds es"
  using assms mem_holds_entries nonneg_int_cases unfolding mem_ok_def by metis

lemma es_holds_without: "es_holds (without k es) = (es_holds es)(k := None)"
  by (induction es) (auto simp: es_holds_def without_def fun_eq_iff)

lemma es_holds_butlast: "es_holds (butlast es) \<subseteq>\<^sub>m es_holds es"
  by (induction es) (auto simp: es_holds_def map_le_def dom_def)

lemma es_holds_Cons: "es_holds ((k, v, x) # es) = (es_holds es)(k \<mapsto> v)"
  by (auto simp: es_holds_def)

lemma spec_get_holds:
  "es_holds (snd (spec_get now k es)) \<subseteq>\<^sub>m es_holds es" "fst (spec_get now k es) \<in> {None, es_holds es k}"
proof -
  have "es_holds (snd (spec_get now k es)) = es_holds es \<or>
      es_holds (snd (spec_get now k es)) = (es_holds es)(k := None)"
    by (cases "map_of es k")
      (auto simp: spec_get_def es_holds_Cons es_holds_without fun_upd_idem_iff, auto simp: es_holds_def)
  then show "es_holds (snd (spec_get now k es)) \<subseteq>\<^sub>m es_holds es" by (auto simp: map_le_def split: if_splits)
  show "fst (spec_get now k es) \<in> {None, es_holds es k}"
    by (auto simp: spec_get_def es_holds_def split: option.split)
qed

lemma spec_put_holds: "es_holds (spec_put cap now k v ttl es) \<subseteq>\<^sub>m (es_holds es)(k \<mapsto> v)"
proof -
  have "es_holds (butlast ((k, v, x) # es)) \<subseteq>\<^sub>m (es_holds es)(k \<mapsto> v)" for x
    using es_holds_butlast [of "(k, v, x) # es"] by (simp add: es_holds_Cons)
  then show ?thesis
    by (auto simp: spec_put_def Let_def es_holds_Cons es_holds_without)
qed

lemma lru_max_fixed:
  "lr_max (snd (lru_get now k c)) = lr_max c" "lr_max (lru_put now k v ttl c) = lr_max c"
  "lr_max (snd (lru_delete k c)) = lr_max c"
  by (simp_all add: lru_get_def lru_put_def lru_delete_def Let_def split: option.split)

lemma delete_matching_sim:
  "lru_sim c es \<Longrightarrow> lru_sim (fst (delete_matching p ks c n))
      (filter (\<lambda>e. \<not> (fst e \<in> set ks \<and> glob_test p (fst e))) es) \<and>
    lr_max (fst (delete_matching p ks c n)) = lr_max c"
proof (induction ks arbitrary: c es n)
  case (Cons k ks)
  show ?case
  proof (cases "glob_test p k")
    case True
    have "lru_sim (snd (lru_delete k c)) (without k es)"
      using lru_delete_sim(2) [OF Cons.prems, of k] by (simp add: spec_delete_def)
    moreover have "filter (\<lambda>e. \<not> (fst e \<in> set ks \<and> glob_test p (fst e))) (without k es) =
        filter (\<lambda>e. \<not> (fst e \<in> set (k # ks) \<and> glob_test p (fst e))) es"
      using True by (auto simp: without_def intro!: filter_cong)
    ultimately show ?thesis
      using Cons.IH [of "snd (lru_delete k c)" "without k es" "n + 1"] True by (simp add: lru_max_fixed)
  next
    case False
    then have "filter (\<lambda>e. \<not> (fst e \<in> set ks \<and> glob_test p (fst e))) es =
        filter (\<lambda>e. \<not> (fst e \<in> set (k # ks) \<and> glob_test p (fst e))) es" by (auto intro!: filter_cong)
    then show ?thesis using Cons.IH [OF Cons.prems, of n] False by simp
  qed
qed simp

lemma lru_keys_sim: "lru_sim c es \<Longrightarrow> lru_keys c = Some (map fst es)"
  using walk_keys_dll [of "lr_store c" None]
  by (auto simp: lru_sim_def lru_keys_def lru_rel_def links_def entries_keys)

lemma mem_pattern_ends:
  assumes "mem_ok s"
  shows "\<exists>s' n. mem_deletePattern p s = Some (s', n) \<and> mem_ok s' \<and>
    mem_holds s' \<subseteq>\<^sub>m (mem_holds s) |` {k. \<not> glob_test p k}"
proof -
  obtain es cap where es: "lru_sim (mc_cache s) es" "lr_max (mc_cache s) = int cap" "mem_holds s = es_holds es"
    using mem_okE [OF assms] by blast
  let ?c = "fst (delete_matching p (map fst es) (mc_cache s) 0)"
  let ?es = "filter (\<lambda>e. \<not> glob_test p (fst e)) es"
  let ?m = "delete_counters p (jm_keys (mc_counters s)) (mc_counters s)
      (snd (delete_matching p (map fst es) (mc_cache s) 0))"
  have f: "filter (\<lambda>e. \<not> (fst e \<in> set (map fst es) \<and> glob_test p (fst e))) es = ?es"
    by (auto intro!: filter_cong)
  have c: "lru_sim ?c ?es" "lr_max ?c = lr_max (mc_cache s)"
    using delete_matching_sim [OF es(1), of p "map fst es" 0] unfolding f by blast+
  let ?s = "s\<lparr>mc_cache := ?c, mc_counters := fst ?m\<rparr>"
  have "mem_deletePattern p s = Some (?s, snd ?m)"
    by (simp add: mem_deletePattern_def lru_keys_sim [OF es(1)] split_beta Let_def)
  moreover have "mem_ok ?s" using c es(2) by (auto simp: mem_ok_def)
  moreover have "mem_holds ?s = es_holds ?es" using c(1) by (intro mem_holds_entries) simp
  moreover have "es_holds ?es = (es_holds es) |` {k. \<not> glob_test p k}"
  proof
    fix x
    show "es_holds ?es x = ((es_holds es) |` {k. \<not> glob_test p k}) x"
      by (induction es) (auto simp: es_holds_def restrict_map_def split: if_splits)
  qed
  ultimately show ?thesis using es(3) by (intro exI [of _ ?s] exI [of _ "snd ?m"]) simp
qed

interpretation mem_store: cache_store mem_ops mem_ok mem_holds
proof unfold_locales
  fix s :: "'a mem_cache" and now k v ttl p
  assume ok: "mem_ok s"
  obtain es cap where es: "lru_sim (mc_cache s) es" "lr_max (mc_cache s) = int cap" "mem_holds s = es_holds es"
    using mem_okE [OF ok] by blast
  note sim = lru_get_sim [OF es(1), of now k] lru_put_sim [OF es(1,2), of now k v]
    lru_delete_sim [OF es(1), of k]
  show "mem_ok (fst (co_get mem_ops now k s))"
    using sim(2) es(2) by (auto simp: mem_ops_def mem_get_def mem_ok_def lru_max_fixed split_beta)
  show "snd (co_get mem_ops now k s) \<in> {None, mem_holds s k}"
    using sim(1) spec_get_holds(2) [of now k es] es(3) by (simp add: mem_ops_def mem_get_def split_beta)
  have "lru_sim (mc_cache (fst (mem_get now k s))) (snd (spec_get now k es))"
    using sim(2) by (simp add: mem_get_def split_beta)
  then show "mem_holds (fst (co_get mem_ops now k s)) \<subseteq>\<^sub>m mem_holds s"
    using mem_holds_entries [of "fst (mem_get now k s)"] spec_get_holds(1) [of now k es] es(3)
    by (simp add: mem_ops_def)
  obtain t where "lru_sim (mc_cache (mem_set now k v ttl s)) (spec_put cap now k v t es)"
    using sim(3) by (auto simp: mem_set_def Let_def)
  moreover have "lr_max (mc_cache (mem_set now k v ttl s)) = int cap"
    by (simp add: mem_set_def Let_def lru_max_fixed es(2))
  ultimately show "mem_ok (co_set mem_ops now k v ttl s)"
    "mem_holds (co_set mem_ops now k v ttl s) \<subseteq>\<^sub>m (mem_holds s)(k \<mapsto> v)"
    using mem_holds_entries [of "mem_set now k v ttl s"] spec_put_holds es(3)
    by (auto simp: mem_ops_def mem_ok_def)
  have "lru_sim (mc_cache (mem_delete k s)) (without k es)"
    using sim(5) by (simp add: mem_delete_def spec_delete_def)
  moreover have "lr_max (mc_cache (mem_delete k s)) = int cap"
    by (simp add: mem_delete_def lru_max_fixed es(2))
  ultimately show "mem_ok (co_delete mem_ops k s)" "mem_holds (co_delete mem_ops k s) \<subseteq>\<^sub>m (mem_holds s)(k := None)"
    using mem_holds_entries [of "mem_delete k s"] es_holds_without [of k es] es(3)
    by (auto simp: mem_ops_def mem_ok_def)
  show "\<exists>s' n. co_deletePattern mem_ops p s = Some (s', n) \<and> mem_ok s' \<and>
      mem_holds s' \<subseteq>\<^sub>m (mem_holds s) |` {k. \<not> glob_test p k}"
    using mem_pattern_ends [OF ok] by (simp add: mem_ops_def)
qed

end
