(* ===== verification/RedisCache.thy ===== *)
theory RedisCache
  imports CacheStores
begin

text \<open>
  The Redis cache store (\<open>packages/runtime/src/cache/redis-cache.ts\<close>). The client is a record
  of the calls the store makes, each None when it throws; \<open>JSON.parse\<close> and \<open>JSON.stringify\<close>
  are parameters. The lemmas say that no failure of Redis leaves the store: it is a miss, a
  skipped write or a zero.
\<close>

record 'r redis_client =
  rd_get :: "string \<Rightarrow> 'r \<Rightarrow> 'r \<times> string option option"
  rd_setex :: "string \<Rightarrow> int \<Rightarrow> string \<Rightarrow> 'r \<Rightarrow> 'r \<times> unit option"
  rd_set :: "string \<Rightarrow> string \<Rightarrow> 'r \<Rightarrow> 'r \<times> unit option"
  rd_del :: "string list \<Rightarrow> 'r \<Rightarrow> 'r \<times> nat option"
  rd_mget :: "string list \<Rightarrow> 'r \<Rightarrow> 'r \<times> string option list option"
  rd_incrby :: "string \<Rightarrow> int \<Rightarrow> 'r \<Rightarrow> 'r \<times> int option"
  rd_expire :: "string \<Rightarrow> int \<Rightarrow> 'r \<Rightarrow> 'r \<times> unit option"
  rd_ping :: "'r \<Rightarrow> 'r \<times> string option"
  rd_scan :: "string \<Rightarrow> string \<Rightarrow> 'r \<Rightarrow> 'r \<times> (string \<times> string list) option"
  rd_dbsize :: "'r \<Rightarrow> 'r \<times> nat option"

record 'r redis_cache =
  rc_redis :: 'r
  rc_hits :: nat
  rc_misses :: nat
  rc_errors :: nat
  rc_defaultTtlSeconds :: int
  rc_keyPrefix :: string

definition rc_new :: "'r \<Rightarrow> int option \<Rightarrow> string option \<Rightarrow> 'r redis_cache" where
  "rc_new redis defaultTtlSeconds keyPrefix =
     \<lparr>rc_redis = redis, rc_hits = 0, rc_misses = 0, rc_errors = 0,
      rc_defaultTtlSeconds = (case defaultTtlSeconds of Some t \<Rightarrow> t | None \<Rightarrow> 300),
      rc_keyPrefix = (case keyPrefix of Some p \<Rightarrow> p | None \<Rightarrow> [])\<rparr>"

definition count_error :: "'r redis_cache \<Rightarrow> 'r redis_cache" where
  "count_error s = s\<lparr>rc_errors := rc_errors s + 1\<rparr>"

text \<open>A hit is counted before its text is parsed; a text that does not parse is also a miss.\<close>

definition rc_get ::
  "'r redis_client \<Rightarrow> (string \<Rightarrow> 'v option) \<Rightarrow> time \<Rightarrow> string \<Rightarrow> 'r redis_cache \<Rightarrow> 'r redis_cache \<times> 'v option"
where
  "rc_get c parse now key s =
     (let (r, reply) = rd_get c key (rc_redis s); s = s\<lparr>rc_redis := r\<rparr> in
      case reply of
        None \<Rightarrow> (s\<lparr>rc_errors := rc_errors s + 1, rc_misses := rc_misses s + 1\<rparr>, None)
      | Some None \<Rightarrow> (s\<lparr>rc_misses := rc_misses s + 1\<rparr>, None)
      | Some (Some raw) \<Rightarrow>
          let s = s\<lparr>rc_hits := rc_hits s + 1\<rparr> in
          case parse raw of
            Some v \<Rightarrow> (s, Some v)
          | None \<Rightarrow> (s\<lparr>rc_errors := rc_errors s + 1, rc_misses := rc_misses s + 1\<rparr>, None))"

definition rc_set ::
  "'r redis_client \<Rightarrow> ('v \<Rightarrow> string option) \<Rightarrow> time \<Rightarrow> string \<Rightarrow> 'v \<Rightarrow> int option \<Rightarrow> 'r redis_cache \<Rightarrow> 'r redis_cache"
where
  "rc_set c stringify now key v ttlSeconds s =
     (let ttl = (case ttlSeconds of Some t \<Rightarrow> t | None \<Rightarrow> rc_defaultTtlSeconds s) in
      case stringify v of
        None \<Rightarrow> count_error s
      | Some json \<Rightarrow>
          let (r, reply) = (if 0 < ttl then rd_setex c key ttl json (rc_redis s)
                            else rd_set c key json (rc_redis s));
              s = s\<lparr>rc_redis := r\<rparr>
          in case reply of Some _ \<Rightarrow> s | None \<Rightarrow> count_error s)"

definition rc_delete :: "'r redis_client \<Rightarrow> string \<Rightarrow> 'r redis_cache \<Rightarrow> 'r redis_cache" where
  "rc_delete c key s =
     (let (r, reply) = rd_del c [key] (rc_redis s); s = s\<lparr>rc_redis := r\<rparr>
      in case reply of Some _ \<Rightarrow> s | None \<Rightarrow> count_error s)"

definition stripPrefix :: "'r redis_cache \<Rightarrow> string \<Rightarrow> string" where
  "stripPrefix s key =
     (if rc_keyPrefix s \<noteq> [] \<and> starts_with key (rc_keyPrefix s) then drop (length (rc_keyPrefix s)) key
      else key)"

text \<open>The scan loop, which ends when the cursor comes back to 0 or a call throws.\<close>

partial_function (option) rc_scan_loop ::
  "'r redis_client \<Rightarrow> string \<Rightarrow> string \<Rightarrow> nat \<Rightarrow> 'r redis_cache \<Rightarrow> ('r redis_cache \<times> nat) option"
where
  "rc_scan_loop c pattern cursor removed s =
     (let (r, reply) = rd_scan c cursor pattern (rc_redis s); s = s\<lparr>rc_redis := r\<rparr> in
      case reply of
        None \<Rightarrow> Some (count_error s, removed)
      | Some (nxt, keys) \<Rightarrow>
          if keys = []
          then if nxt = ''0'' then Some (s, removed) else rc_scan_loop c pattern nxt removed s
          else let (r, deleted) = rd_del c (map (stripPrefix s) keys) (rc_redis s); s = s\<lparr>rc_redis := r\<rparr> in
               case deleted of
                 None \<Rightarrow> Some (count_error s, removed)
               | Some n \<Rightarrow>
                   if nxt = ''0'' then Some (s, removed + n) else rc_scan_loop c pattern nxt (removed + n) s)"

definition rc_deletePattern ::
  "'r redis_client \<Rightarrow> string \<Rightarrow> 'r redis_cache \<Rightarrow> ('r redis_cache \<times> nat) option"
where
  "rc_deletePattern c pattern s = rc_scan_loop c pattern ''0'' 0 s"

fun rc_entries :: "(string \<Rightarrow> 'v option) \<Rightarrow> string option list \<Rightarrow> 'r redis_cache \<Rightarrow> 'r redis_cache \<times> 'v option list" where
  "rc_entries parse [] s = (s, [])"
| "rc_entries parse (None # es) s =
     (let (s', vs) = rc_entries parse es (s\<lparr>rc_misses := rc_misses s + 1\<rparr>) in (s', None # vs))"
| "rc_entries parse (Some raw # es) s =
     (let (s', vs) = rc_entries parse es (s\<lparr>rc_hits := rc_hits s + 1\<rparr>) in (s', parse raw # vs))"

definition rc_getMany ::
  "'r redis_client \<Rightarrow> (string \<Rightarrow> 'v option) \<Rightarrow> time \<Rightarrow> string list \<Rightarrow> 'r redis_cache \<Rightarrow> 'r redis_cache \<times> 'v option list"
where
  "rc_getMany c parse now keys s =
     (if keys = [] then (s, [])
      else let (r, reply) = rd_mget c keys (rc_redis s); s = s\<lparr>rc_redis := r\<rparr> in
           case reply of
             Some raw \<Rightarrow> rc_entries parse raw s
           | None \<Rightarrow> (s\<lparr>rc_errors := rc_errors s + 1, rc_misses := rc_misses s + length keys\<rparr>,
                     map (\<lambda>_. None) keys))"

definition rc_increment ::
  "'r redis_client \<Rightarrow> string \<Rightarrow> int \<Rightarrow> int option \<Rightarrow> 'r redis_cache \<Rightarrow> 'r redis_cache \<times> int"
where
  "rc_increment c key amount ttlSeconds s =
     (let (r, reply) = rd_incrby c key amount (rc_redis s); s = s\<lparr>rc_redis := r\<rparr> in
      case reply of
        None \<Rightarrow> (count_error s, 0)
      | Some v \<Rightarrow>
          (case ttlSeconds of
             Some t \<Rightarrow>
               if t \<noteq> 0 \<and> v = amount
               then let (r, reply) = rd_expire c key t (rc_redis s); s = s\<lparr>rc_redis := r\<rparr> in
                    (case reply of Some _ \<Rightarrow> (s, v) | None \<Rightarrow> (count_error s, 0))
               else (s, v)
           | None \<Rightarrow> (s, v)))"

definition rc_isHealthy :: "'r redis_client \<Rightarrow> 'r redis_cache \<Rightarrow> 'r redis_cache \<times> bool" where
  "rc_isHealthy c s = (let (r, reply) = rd_ping c (rc_redis s) in (s\<lparr>rc_redis := r\<rparr>, reply = Some ''PONG''))"

definition rc_stats :: "'r redis_client \<Rightarrow> 'r redis_cache \<Rightarrow> 'r redis_cache \<times> cache_stats" where
  "rc_stats c s =
     (let total = rc_hits s + rc_misses s; (r, size) = rd_dbsize c (rc_redis s)
      in (s\<lparr>rc_redis := r\<rparr>,
          \<lparr>cst_name = ''redis'', cst_hits = rc_hits s, cst_misses = rc_misses s,
           cst_hitRate = (if total = 0 then 0 else of_nat (rc_hits s) / of_nat total),
           cst_size = size, cst_errors = rc_errors s\<rparr>))"

definition redis_cache_ops ::
  "'r redis_client \<Rightarrow> (string \<Rightarrow> 'v option) \<Rightarrow> ('v \<Rightarrow> string option) \<Rightarrow> ('r redis_cache, 'v) cache_ops"
where
  "redis_cache_ops c parse stringify =
     \<lparr>co_name = ''redis'', co_get = rc_get c parse, co_set = rc_set c stringify, co_delete = rc_delete c,
      co_deletePattern = rc_deletePattern c, co_getMany = rc_getMany c parse, co_increment = rc_increment c,
      co_isHealthy = rc_isHealthy c, co_stats = rc_stats c, co_close = (\<lambda>s. s)\<rparr>"

section \<open>A failing Redis\<close>

text \<open>Every call of this client throws.\<close>

definition down_client :: "'r redis_client" where
  "down_client =
     \<lparr>rd_get = (\<lambda>k r. (r, None)), rd_setex = (\<lambda>k t v r. (r, None)), rd_set = (\<lambda>k v r. (r, None)),
      rd_del = (\<lambda>ks r. (r, None)), rd_mget = (\<lambda>ks r. (r, None)), rd_incrby = (\<lambda>k n r. (r, None)),
      rd_expire = (\<lambda>k t r. (r, None)), rd_ping = (\<lambda>r. (r, None)), rd_scan = (\<lambda>c p r. (r, None)),
      rd_dbsize = (\<lambda>r. (r, None))\<rparr>"

lemma down_deletePattern: "rc_deletePattern down_client p s = Some (count_error s, 0)"
  by (simp add: rc_deletePattern_def rc_scan_loop.simps down_client_def)

text \<open>With Redis down the store is the empty cache: it forgets what it is told and answers
  misses, so that it keeps the promises of a store.\<close>

interpretation down_store: cache_store "redis_cache_ops down_client parse stringify" "\<lambda>_. True" "\<lambda>_ _. None"
  for parse :: "string \<Rightarrow> 'v option" and stringify
proof unfold_locales
  show "\<exists>s' n. co_deletePattern (redis_cache_ops down_client parse stringify) p s = Some (s', n) \<and> True \<and>
      (\<lambda>_. None) \<subseteq>\<^sub>m (\<lambda>_. None) |` {k. \<not> glob_test p k}" for p and s :: "'a redis_cache"
    by (simp add: redis_cache_ops_def down_deletePattern)
qed (simp_all add: redis_cache_ops_def rc_get_def rc_set_def rc_delete_def down_client_def Let_def map_le_def
    split: option.split)

text \<open>A client whose keys carry the prefix it was configured with, while the pattern of a scan
  is matched against the stored key as it is given.\<close>

definition prefixing_client :: "string \<Rightarrow> (string \<times> string) list redis_client" where
  "prefixing_client pre =
     down_client
       \<lparr>rd_get := (\<lambda>k r. (r, Some (map_of r (pre @ k)))),
        rd_setex := (\<lambda>k t v r. (AList.update (pre @ k) v r, Some ())),
        rd_del := (\<lambda>ks r. (filter (\<lambda>(k, _). k \<notin> (@) pre ` set ks) r,
          Some (length (filter (\<lambda>(k, _). k \<in> (@) pre ` set ks) r)))),
        rd_scan := (\<lambda>cursor p r. (r, Some (''0'', filter (glob_test p) (map fst r))))\<rparr>"

text \<open>With such a client an invalidation pattern written without the prefix removes nothing: the
  entry is still there.\<close>

lemma prefixed_pattern_removes_nothing:
  "let c = prefixing_client ''apihub:'';
       s = rc_set c Some 0 ''api:1'' ''doc'' None (rc_new [] None (Some ''apihub:''))
   in map_option (\<lambda>(s', n). (n, snd (rc_get c Some 0 ''api:1'' s'))) (rc_deletePattern c ''api:*'' s) =
     Some (0, Some ''doc'')"
  by (simp add: prefixing_client_def down_client_def rc_set_def rc_new_def rc_deletePattern_def
      rc_scan_loop.simps rc_get_def glob_test_def globToRegExp_def)

end
