(* ===== verification/CacheService.thy ===== *)
theory CacheService
  imports RedisCache
begin

text \<open>
  The cache-aside service (\<open>packages/runtime/src/cache/cache-service.ts\<close>) over a store and an
  optional first tier, and its factory. A call is one step, but for \<open>getOrSet\<close>, which is cut
  where it awaits the loader: \<open>csv_begin\<close> looks the key up, joins the load in flight or starts
  one, and \<open>csv_finish\<close> is the rest of a load that settled. The random numbers of the
  jitter and the clock are arguments.
\<close>

type_synonym load_id = nat

record ('s, 't) cache_service =
  cs_store :: 's
  cs_l1 :: "'t option"
  cs_defaultTtl :: int
  cs_jitterFraction :: rat
  cs_enabled :: bool
  cs_inFlight :: "(string, load_id) jsmap"

definition csv_new ::
  "'s \<Rightarrow> 't option \<Rightarrow> int option \<Rightarrow> rat option \<Rightarrow> bool option \<Rightarrow> ('s, 't) cache_service"
where
  "csv_new store l1 defaultTtlSeconds jitterFraction enabled =
     \<lparr>cs_store = store, cs_l1 = l1,
      cs_defaultTtl = (case defaultTtlSeconds of Some t \<Rightarrow> t | None \<Rightarrow> 300),
      cs_jitterFraction = (case jitterFraction of Some f \<Rightarrow> f | None \<Rightarrow> 15 / 100),
      cs_enabled = (case enabled of Some b \<Rightarrow> b | None \<Rightarrow> True), cs_inFlight = []\<rparr>"

definition storeName ::
  "('s, 'v) cache_ops \<Rightarrow> ('t, 'v) cache_ops \<Rightarrow> ('s, 't) cache_service \<Rightarrow> string"
where
  "storeName S L s =
     (if cs_l1 s \<noteq> None then co_name L @ ''+'' @ co_name S else co_name S)"

definition setEnabled :: "bool \<Rightarrow> ('s, 't) cache_service \<Rightarrow> ('s, 't) cache_service" where
  "setEnabled enabled s = s\<lparr>cs_enabled := enabled\<rparr>"

section \<open>Reading and writing\<close>

text \<open>\<open>get\<close> in its two parts: the read through the tiers, which says whether the value is to be
  promoted, and the promotion.\<close>

definition csv_read ::
  "('s, 'v) cache_ops \<Rightarrow> ('t, 'v) cache_ops \<Rightarrow> time \<Rightarrow> string \<Rightarrow>
   ('s, 't) cache_service \<Rightarrow> ('s, 't) cache_service \<times> 'v option \<times> bool"
where
  "csv_read S L now key s =
     (case cs_l1 s of
        None \<Rightarrow> (let (st, shared) = co_get S now key (cs_store s) in (s\<lparr>cs_store := st\<rparr>, shared, False))
      | Some l1 \<Rightarrow>
          let (l1, local) = co_get L now key l1; s = s\<lparr>cs_l1 := Some l1\<rparr> in
          case local of
            Some v \<Rightarrow> (s, Some v, False)
          | None \<Rightarrow> let (st, shared) = co_get S now key (cs_store s)
                    in (s\<lparr>cs_store := st\<rparr>, shared, shared \<noteq> None))"

definition csv_promote ::
  "('t, 'v) cache_ops \<Rightarrow> time \<Rightarrow> string \<Rightarrow> 'v \<Rightarrow> ('s, 't) cache_service \<Rightarrow> ('s, 't) cache_service"
where
  "csv_promote L now key v s =
     s\<lparr>cs_l1 := map_option (co_set L now key v (Some (min (cs_defaultTtl s) 60))) (cs_l1 s)\<rparr>"

definition csv_get ::
  "('s, 'v) cache_ops \<Rightarrow> ('t, 'v) cache_ops \<Rightarrow> time \<Rightarrow> string \<Rightarrow>
   ('s, 't) cache_service \<Rightarrow> ('s, 't) cache_service \<times> 'v option"
where
  "csv_get S L now key s =
     (if \<not> cs_enabled s then (s, None)
      else let (s, r, promote) = csv_read S L now key s in
           case r of
             Some v \<Rightarrow> (if promote then csv_promote L now key v s else s, Some v)
           | None \<Rightarrow> (s, None))"

definition csv_set ::
  "('s, 'v) cache_ops \<Rightarrow> ('t, 'v) cache_ops \<Rightarrow> time \<Rightarrow> rat \<Rightarrow> string \<Rightarrow> 'v \<Rightarrow> int option \<Rightarrow>
   ('s, 't) cache_service \<Rightarrow> ('s, 't) cache_service"
where
  "csv_set S L now random key v ttlSeconds s =
     (if \<not> cs_enabled s then s
      else let ttl = jitterTtl (case ttlSeconds of Some t \<Rightarrow> t | None \<Rightarrow> cs_defaultTtl s)
                       (cs_jitterFraction s) random
           in s\<lparr>cs_store := co_set S now key v (Some ttl) (cs_store s),
                cs_l1 := map_option (co_set L now key v (Some (min ttl 60))) (cs_l1 s)\<rparr>)"

definition csv_delete ::
  "('s, 'v) cache_ops \<Rightarrow> ('t, 'v) cache_ops \<Rightarrow> string \<Rightarrow> ('s, 't) cache_service \<Rightarrow> ('s, 't) cache_service"
where
  "csv_delete S L key s =
     s\<lparr>cs_store := co_delete S key (cs_store s), cs_l1 := map_option (co_delete L key) (cs_l1 s),
       cs_inFlight := jm_delete key (cs_inFlight s)\<rparr>"

text \<open>None when a scan of a store would not end.\<close>

fun csv_invalidate ::
  "('s, 'v) cache_ops \<Rightarrow> ('t, 'v) cache_ops \<Rightarrow> string list \<Rightarrow> nat \<Rightarrow>
   ('s, 't) cache_service \<Rightarrow> (('s, 't) cache_service \<times> nat) option"
where
  "csv_invalidate S L [] removed s = Some (s, removed)"
| "csv_invalidate S L (p # ps) removed s =
     (case co_deletePattern S p (cs_store s) of
        None \<Rightarrow> None
      | Some (st, n) \<Rightarrow>
          (case cs_l1 s of
             None \<Rightarrow> csv_invalidate S L ps (removed + n) (s\<lparr>cs_store := st\<rparr>)
           | Some l1 \<Rightarrow>
               (case co_deletePattern L p l1 of
                  None \<Rightarrow> None
                | Some (l1, _) \<Rightarrow>
                    csv_invalidate S L ps (removed + n) (s\<lparr>cs_store := st, cs_l1 := Some l1\<rparr>))))"

definition csv_getMany ::
  "('s, 'v) cache_ops \<Rightarrow> time \<Rightarrow> string list \<Rightarrow> ('s, 't) cache_service \<Rightarrow>
   ('s, 't) cache_service \<times> 'v option list"
where
  "csv_getMany S now keys s =
     (if \<not> cs_enabled s then (s, map (\<lambda>_. None) keys)
      else let (st, vs) = co_getMany S now keys (cs_store s) in (s\<lparr>cs_store := st\<rparr>, vs))"

definition csv_increment ::
  "('s, 'v) cache_ops \<Rightarrow> string \<Rightarrow> int option \<Rightarrow> int option \<Rightarrow> ('s, 't) cache_service \<Rightarrow>
   ('s, 't) cache_service \<times> int"
where
  "csv_increment S key amount ttlSeconds s =
     (let (st, n) = co_increment S key (case amount of Some a \<Rightarrow> a | None \<Rightarrow> 1) ttlSeconds (cs_store s)
      in (s\<lparr>cs_store := st\<rparr>, n))"

definition csv_isHealthy :: "('s, 'v) cache_ops \<Rightarrow> ('s, 't) cache_service \<Rightarrow> ('s, 't) cache_service \<times> bool" where
  "csv_isHealthy S s = (let (st, b) = co_isHealthy S (cs_store s) in (s\<lparr>cs_store := st\<rparr>, b))"

definition csv_stats :: "('s, 'v) cache_ops \<Rightarrow> ('s, 't) cache_service \<Rightarrow> ('s, 't) cache_service \<times> cache_stats" where
  "csv_stats S s = (let (st, b) = co_stats S (cs_store s) in (s\<lparr>cs_store := st\<rparr>, b))"

definition inFlightCount :: "('s, 't) cache_service \<Rightarrow> nat" where
  "inFlightCount s = length (cs_inFlight s)"

definition csv_close ::
  "('s, 'v) cache_ops \<Rightarrow> ('t, 'v) cache_ops \<Rightarrow> ('s, 't) cache_service \<Rightarrow> ('s, 't) cache_service"
where
  "csv_close S L s = s\<lparr>cs_store := co_close S (cs_store s), cs_l1 := map_option (co_close L) (cs_l1 s)\<rparr>"

section \<open>Single flight\<close>

record load_options =
  go_ttlSeconds :: "int option"
  go_forceRefresh :: bool
  go_cacheEmpty :: bool

text \<open>What a call of \<open>getOrSet\<close> becomes before it first waits for a loader: it runs the loader
  itself (the cache is disabled), it has its answer (None is \<open>undefined\<close>), it waits for the
  load of another call, or it starts a load.\<close>

datatype 'v begun = Uncached | Answered "'v option" | Joined load_id | Started load_id

text \<open>\<open>fresh\<close> names the new load. \<open>settled\<close> says that the loader threw before its first await:
  then the clean-up has run before the load is registered.\<close>

definition csv_begin ::
  "('s, 'v) cache_ops \<Rightarrow> ('t, 'v) cache_ops \<Rightarrow> 'v \<Rightarrow> time \<Rightarrow> string \<Rightarrow> load_options \<Rightarrow> load_id \<Rightarrow> bool \<Rightarrow>
   ('s, 't) cache_service \<Rightarrow> ('s, 't) cache_service \<times> 'v begun"
where
  "csv_begin S L empty_sentinel now key opts fresh settled s =
     (if \<not> cs_enabled s then (s, Uncached)
      else
        let (s, cached) = (if \<not> go_forceRefresh opts then csv_get S L now key s else (s, None)) in
        case cached of
          Some v \<Rightarrow> (s, Answered (if v = empty_sentinel then None else Some v))
        | None \<Rightarrow>
            (case jm_get (cs_inFlight s) key of
               Some existing \<Rightarrow> (s, Joined existing)
             | None \<Rightarrow>
                 let s = (if settled then s\<lparr>cs_inFlight := jm_delete key (cs_inFlight s)\<rparr> else s)
                 in (s\<lparr>cs_inFlight := jm_set key fresh (cs_inFlight s)\<rparr>, Started fresh)))"

text \<open>How a loader ends: with a value, with none (\<open>undefined\<close> or \<open>null\<close>), or with an error.\<close>

datatype 'v loaded = Value 'v | Absent | Threw

definition csv_finish ::
  "('s, 'v) cache_ops \<Rightarrow> ('t, 'v) cache_ops \<Rightarrow> 'v \<Rightarrow> time \<Rightarrow> rat \<Rightarrow> string \<Rightarrow> load_options \<Rightarrow> 'v loaded \<Rightarrow>
   ('s, 't) cache_service \<Rightarrow> ('s, 't) cache_service"
where
  "csv_finish S L empty_sentinel now random key opts outcome s =
     (let s = (case outcome of
                 Value v \<Rightarrow> csv_set S L now random key v (go_ttlSeconds opts) s
               | Absent \<Rightarrow>
                   if go_cacheEmpty opts
                   then csv_set S L now random key empty_sentinel
                          (Some (min (case go_ttlSeconds opts of Some t \<Rightarrow> t | None \<Rightarrow> 60) 60)) s
                   else s
               | Threw \<Rightarrow> s)
      in s\<lparr>cs_inFlight := jm_delete key (cs_inFlight s)\<rparr>)"


section \<open>The factory\<close>

datatype 'a built =
    Memory_and_Redis "('a redis_cache, string mem_cache) cache_service"
  | Memory_Only "(string mem_cache, unit) cache_service"

definition build :: "string \<Rightarrow> rat \<Rightarrow> 'r option \<Rightarrow> js_error + 'r built" where
  "build redis_key_prefix ttl_jitter redis =
     (case redis of
        Some r \<Rightarrow>
          (case mem_new (Some 1000) (Some 30) of
             Inl e \<Rightarrow> Inl e
           | Inr l1 \<Rightarrow> Inr (Memory_and_Redis
               (csv_new (rc_new r (Some 300) (Some (redis_key_prefix @ '':''))) (Some l1) (Some 300)
                  (Some ttl_jitter) None)))
      | None \<Rightarrow>
          (case mem_new (Some 10000) (Some 300) of
             Inl e \<Rightarrow> Inl e
           | Inr store \<Rightarrow> Inr (Memory_Only (csv_new store None (Some 300) (Some ttl_jitter) None))))"

text \<open>The memo of \<open>getCache\<close>: the service, and the number of the construction in flight.\<close>

record 'a cache_memo =
  cm_service :: "'a option"
  cm_building :: "nat option"

datatype 'a got = Ready 'a | Awaits nat

definition getCache :: "nat \<Rightarrow> 'a cache_memo \<Rightarrow> 'a cache_memo \<times> 'a got" where
  "getCache fresh m =
     (case cm_service m of
        Some svc \<Rightarrow> (m, Ready svc)
      | None \<Rightarrow>
          (case cm_building m of
             Some b \<Rightarrow> (m, Awaits b)
           | None \<Rightarrow> (m\<lparr>cm_building := Some fresh\<rparr>, Awaits fresh)))"

definition build_settled :: "'a \<Rightarrow> 'a cache_memo \<Rightarrow> 'a cache_memo" where
  "build_settled built m = m\<lparr>cm_service := Some built, cm_building := None\<rparr>"

definition closeCache :: "'a cache_memo \<Rightarrow> 'a cache_memo" where
  "closeCache m = m\<lparr>cm_service := None, cm_building := None\<rparr>"

definition setCacheService :: "'a option \<Rightarrow> 'a cache_memo \<Rightarrow> 'a cache_memo" where
  "setCacheService nxt m = m\<lparr>cm_service := nxt, cm_building := None\<rparr>"

text \<open>Closing while a construction is in flight does not stop it: it brings a service back.\<close>

lemma closed_cache_comes_back:
  "cm_service (build_settled svc (closeCache (fst (getCache 0 \<lparr>cm_service = None, cm_building = None\<rparr>)))) = Some svc"
  by (simp add: getCache_def build_settled_def)

section \<open>Loads in flight\<close>

text \<open>A configuration: the service, the loads that are running with their keys, and the keys
  deleted so far. Loaders are async functions, so none throws before its first await.\<close>

inductive flights ::
  "('s, 'v) cache_ops \<Rightarrow> ('t, 'v) cache_ops \<Rightarrow> 'v \<Rightarrow>
   ('s, 't) cache_service \<Rightarrow> (load_id \<times> string) set \<Rightarrow> string set \<Rightarrow> bool"
  for S L sentinel
where
  flights_new: "flights S L sentinel (csv_new store l1 d j e) {} {}"
| flights_begin: "flights S L sentinel s running deleted \<Longrightarrow>
    csv_begin S L sentinel now key opts fresh False s = (s', b) \<Longrightarrow> fresh \<notin> fst ` running \<Longrightarrow>
    flights S L sentinel s' (if b = Started fresh then insert (fresh, key) running else running) deleted"
| flights_finish: "flights S L sentinel s running deleted \<Longrightarrow> (i, key) \<in> running \<Longrightarrow>
    flights S L sentinel (csv_finish S L sentinel now random key opts outcome s) (running - {(i, key)}) deleted"
| flights_get: "flights S L sentinel s running deleted \<Longrightarrow>
    flights S L sentinel (fst (csv_get S L now key s)) running deleted"
| flights_set: "flights S L sentinel s running deleted \<Longrightarrow>
    flights S L sentinel (csv_set S L now random key v ttl s) running deleted"
| flights_delete: "flights S L sentinel s running deleted \<Longrightarrow>
    flights S L sentinel (csv_delete S L key s) running (insert key deleted)"
| flights_invalidate: "flights S L sentinel s running deleted \<Longrightarrow>
    csv_invalidate S L ps n s = Some (s', n') \<Longrightarrow> flights S L sentinel s' running deleted"
| flights_enable: "flights S L sentinel s running deleted \<Longrightarrow>
    flights S L sentinel (setEnabled b s) running deleted"

lemma csv_get_inFlight [simp]: "cs_inFlight (fst (csv_get S L now key s)) = cs_inFlight s"
  by (simp add: csv_get_def csv_read_def csv_promote_def split_beta Let_def split: option.split)

lemma csv_set_inFlight [simp]: "cs_inFlight (csv_set S L now random key v ttl s) = cs_inFlight s"
  by (simp add: csv_set_def Let_def)

lemma csv_invalidate_inFlight:
  "csv_invalidate S L ps n s = Some (s', n') \<Longrightarrow> cs_inFlight s' = cs_inFlight s"
  by (induction S L ps n s rule: csv_invalidate.induct) (auto split: option.splits)

lemma csv_finish_inFlight [simp]:
  "cs_inFlight (csv_finish S L e now random key opts outcome s) = jm_delete key (cs_inFlight s)"
  by (cases outcome) (simp_all add: csv_finish_def Let_def)

lemma csv_begin_cases:
  assumes "csv_begin S L e now key opts fresh False s = (s', b)"
  shows "b = Started fresh \<and> cs_inFlight s' = jm_set key fresh (cs_inFlight s) \<and> jm_get (cs_inFlight s) key = None \<or>
    b \<noteq> Started fresh \<and> cs_inFlight s' = cs_inFlight s \<and> (\<forall>i. b = Joined i \<longrightarrow> jm_get (cs_inFlight s) key = Some i)"
proof -
  obtain t c where g: "csv_get S L now key s = (t, c)" by (cases "csv_get S L now key s")
  then have "cs_inFlight t = cs_inFlight s" using csv_get_inFlight [of S L now key s] by simp
  then show ?thesis using assms
    by (cases "go_forceRefresh opts") (auto simp: csv_begin_def g split: option.splits if_splits)
qed

definition flight_ok :: "(string \<Rightarrow> load_id option) \<Rightarrow> (load_id \<times> string) set \<Rightarrow> string set \<Rightarrow> bool" where
  "flight_ok m running deleted \<longleftrightarrow>
     (\<forall>k i. m k = Some i \<longrightarrow> (i, k) \<in> running) \<and>
     (\<forall>i k. (i, k) \<in> running \<longrightarrow> k \<notin> deleted \<longrightarrow> m k = Some i)"

lemma upd_None_eq: "(m(k := None)) k' = Some i \<longleftrightarrow> k' \<noteq> k \<and> m k' = Some i"
  by simp

lemma upd_Some_eq: "(m(k \<mapsto> j)) k' = Some i \<longleftrightarrow> (if k' = k then i = j else m k' = Some i)"
  by auto

lemma flight_ok_start:
  "flight_ok m r d \<Longrightarrow> m k = None \<Longrightarrow> flight_ok (m(k \<mapsto> i)) (insert (i, k) r) d"
  unfolding flight_ok_def upd_Some_eq by (metis insert_iff option.distinct(1) prod.inject)

lemma flight_ok_finish: "flight_ok m r d \<Longrightarrow> (i, k) \<in> r \<Longrightarrow> flight_ok (m(k := None)) (r - {(i, k)}) d"
  unfolding flight_ok_def upd_None_eq by (metis Diff_iff insert_iff option.inject prod.inject empty_iff)

lemma flight_ok_delete: "flight_ok m r d \<Longrightarrow> flight_ok (m(k := None)) r (insert k d)"
  unfolding flight_ok_def upd_None_eq by blast

lemma jm_get_set_fun: "jm_get (jm_set k v m) = (jm_get m)(k \<mapsto> v)"
  by (simp add: update_conv fun_eq_iff)

lemma jm_get_delete_fun: "jm_get (jm_delete k m) = (jm_get m)(k := None)"
  by (simp add: delete_conv fun_eq_iff)

lemma flights_inv:
  assumes "flights S L sentinel s running deleted"
  shows "flight_ok (jm_get (cs_inFlight s)) running deleted"
  using assms
proof (induction rule: flights.induct)
  case (flights_begin s running deleted now key opts fresh s' b)
  from csv_begin_cases [OF flights_begin.hyps(2)] show ?case
    using flight_ok_start [OF flights_begin.IH, of key fresh] flights_begin.IH
    by (elim disjE conjE) (simp_all add: jm_get_set_fun fun_upd_def)
next
  case (flights_finish s running deleted i key now random opts outcome)
  then show ?case using flight_ok_finish [OF flights_finish.IH flights_finish.hyps(2)]
    by (simp add: jm_get_delete_fun fun_upd_def)
next
  case (flights_invalidate s running deleted ps n s' n')
  then show ?case using csv_invalidate_inFlight [OF flights_invalidate.hyps(2)] by simp
next
  case (flights_delete s running deleted key)
  then show ?case using flight_ok_delete [OF flights_delete.IH, of key]
    by (simp add: csv_delete_def jm_get_delete_fun fun_upd_def)
next
  case (flights_new store l1 d j e)
  then show ?case by (simp add: csv_new_def flight_ok_def)
qed (simp_all add: setEnabled_def)

text \<open>C15: In any interleaving of calls, every registered load is one that is still running for
  that key, so no failure is ever sticky; a call that joins a load joins one of its own key; and
  on a key that was never deleted at most one load runs at a time, so a call that finds one
  running never starts a second.\<close>

theorem single_flight:
  assumes "flights S L sentinel s running deleted"
    and "csv_begin S L sentinel now key opts fresh False s = (s', b)"
  shows "(\<forall>k i. jm_get (cs_inFlight s) k = Some i \<longrightarrow> (i, k) \<in> running) \<and>
    (\<forall>i. b = Joined i \<longrightarrow> (i, key) \<in> running) \<and>
    (key \<notin> deleted \<longrightarrow> card {i. (i, key) \<in> running} \<le> 1 \<and>
       ((\<exists>i. (i, key) \<in> running) \<longrightarrow> b \<noteq> Started fresh))"
proof -
  let ?m = "jm_get (cs_inFlight s)"
  have reg: "?m k = Some i \<Longrightarrow> (i, k) \<in> running" and run: "(i, k) \<in> running \<Longrightarrow> k \<notin> deleted \<Longrightarrow> ?m k = Some i"
    for i k using flights_inv [OF assms(1)] unfolding flight_ok_def by blast+
  have "card {i. (i, key) \<in> running} \<le> 1" if "key \<notin> deleted"
  proof -
    have "{i. (i, key) \<in> running} \<subseteq> set_option (?m key)" using run that by auto
    from card_mono [OF _ this] show ?thesis by (cases "?m key") simp_all
  qed
  moreover have "b \<noteq> Started fresh" if "key \<notin> deleted" "(i, key) \<in> running" for i
    using csv_begin_cases [OF assms(2)] run [OF that(2,1)] by (elim disjE conjE) simp_all
  moreover have "(i, key) \<in> running" if "b = Joined i" for i
    using csv_begin_cases [OF assms(2)] reg [of key i] that by (elim disjE conjE) simp_all
  ultimately show ?thesis using reg by blast
qed

lemma single_flight_witness:
  "snd (csv_begin null_ops null_ops ''e'' 5 ''k'' \<lparr>go_ttlSeconds = None, go_forceRefresh = False, go_cacheEmpty = False\<rparr> 1 False
      (fst (csv_begin null_ops null_ops ''e'' 0 ''k'' \<lparr>go_ttlSeconds = None, go_forceRefresh = False, go_cacheEmpty = False\<rparr> 0 False
        (csv_new () None None None None)))) \<noteq> Started 1"
proof -
  let ?o = "\<lparr>go_ttlSeconds = None, go_forceRefresh = False, go_cacheEmpty = False\<rparr> :: load_options"
  let ?s = "csv_new () None None None None :: (unit, unit) cache_service"
  let ?r = "csv_begin null_ops null_ops ''e'' 0 ''k'' ?o 0 False ?s"
  obtain s1 where r: "?r = (s1, Started 0)"
    by (simp add: csv_begin_def csv_new_def csv_get_def csv_read_def null_ops_def)
  obtain s2 b where e: "csv_begin null_ops null_ops ''e'' 5 ''k'' ?o 1 False s1 = (s2, b)"
    by (cases "csv_begin null_ops null_ops ''e'' 5 ''k'' ?o 1 False s1")
  have "flights null_ops null_ops ''e'' s1 (if Started 0 = (Started 0 :: string begun) then {(0, ''k'')} else {}) {}"
    by (rule flights_begin [OF flights_new r]) simp
  then have f: "flights null_ops null_ops ''e'' s1 {(0, ''k'')} {}" by simp
  from single_flight [OF f e] have "b \<noteq> Started 1" by simp
  then show ?thesis unfolding r fst_conv e snd_conv .
qed

text \<open>After a deletion the load that was running removes the registration of the load started
  since: a third call starts a third load while the second still runs.\<close>

lemma delete_breaks_single_flight:
  "let opts = \<lparr>go_ttlSeconds = None, go_forceRefresh = False, go_cacheEmpty = False\<rparr>;
       s0 = csv_new () None None None None :: (unit, unit) cache_service;
       (s1, b1) = csv_begin null_ops null_ops ''e'' 0 ''k'' opts 1 False s0;
       s2 = csv_delete null_ops null_ops ''k'' s1;
       (s3, b3) = csv_begin null_ops null_ops ''e'' 1 ''k'' opts 2 False s2;
       s4 = csv_finish null_ops null_ops ''e'' 2 0 ''k'' opts (Value ''old'') s3;
       (s5, b5) = csv_begin null_ops null_ops ''e'' 3 ''k'' opts 3 False s4
   in b1 = Started 1 \<and> b3 = Started 2 \<and> b5 = Started 3"
  by (simp add: csv_begin_def csv_new_def csv_get_def csv_read_def null_ops_def csv_delete_def csv_finish_def
      csv_set_def)

text \<open>A loader that throws before its first await leaves its load registered: every later call
  that misses joins the failure.\<close>

lemma early_throw_sticks:
  "let opts = \<lparr>go_ttlSeconds = None, go_forceRefresh = False, go_cacheEmpty = False\<rparr>;
       s0 = csv_new () None None None None :: (unit, unit) cache_service;
       (s1, b1) = csv_begin null_ops null_ops ''e'' 0 ''k'' opts 1 True s0
   in snd (csv_begin null_ops null_ops ''e'' now ''k'' opts fresh False s1) = Joined 1"
  by (simp add: csv_begin_def csv_new_def csv_get_def csv_read_def null_ops_def)

end
