(* ===== verification/CacheCoherence.thy ===== *)
theory CacheCoherence
  imports CacheService
begin

text \<open>
  What the cache service answers. The specification is a map: the last write the service
  accepted for each key, without those deleted or invalidated since. A run of calls over two
  stores that keep the promises of \<open>cache_store\<close> answers every read with that write or not
  at all. Interpreted on two in-process stores and on an in-process tier before a Redis that
  is down.
\<close>

datatype 'v cache_call =
    Get time string
  | Put time rat string 'v "int option"
  | Delete string
  | Invalidate "string list"
  | Enable bool
  | Begin time string load_options load_id
  | Finish time rat string load_options "'v loaded"

datatype 'v cache_reply = Done | Found "'v option" | Begun "'v begun"

fun csv_call ::
  "('s, 'v) cache_ops \<Rightarrow> ('t, 'v) cache_ops \<Rightarrow> 'v \<Rightarrow> 'v cache_call \<Rightarrow> ('s, 't) cache_service \<Rightarrow>
   (('s, 't) cache_service \<times> 'v cache_reply) option"
where
  "csv_call S L sentinel (Get now k) s = (let (s, r) = csv_get S L now k s in Some (s, Found r))"
| "csv_call S L sentinel (Put now random k v ttl) s = Some (csv_set S L now random k v ttl s, Done)"
| "csv_call S L sentinel (Delete k) s = Some (csv_delete S L k s, Done)"
| "csv_call S L sentinel (Invalidate ps) s = map_option (\<lambda>(s, _). (s, Done)) (csv_invalidate S L ps 0 s)"
| "csv_call S L sentinel (Enable b) s = Some (setEnabled b s, Done)"
| "csv_call S L sentinel (Begin now k opts fresh) s =
     (let (s, b) = csv_begin S L sentinel now k opts fresh False s in Some (s, Begun b))"
| "csv_call S L sentinel (Finish now random k opts outcome) s =
     Some (csv_finish S L sentinel now random k opts outcome s, Done)"

text \<open>The specification: the last accepted write of each key.\<close>

fun last_write :: "'v \<Rightarrow> bool \<Rightarrow> 'v cache_call \<Rightarrow> (string \<rightharpoonup> 'v) \<Rightarrow> (string \<rightharpoonup> 'v)" where
  "last_write sentinel on (Put now random k v ttl) m = (if on then m(k \<mapsto> v) else m)"
| "last_write sentinel on (Delete k) m = m(k := None)"
| "last_write sentinel on (Invalidate ps) m = m |` {k. \<forall>p\<in>set ps. \<not> glob_test p k}"
| "last_write sentinel on (Finish now random k opts outcome) m =
     (if \<not> on then m
      else case outcome of
             Value v \<Rightarrow> m(k \<mapsto> v)
           | Absent \<Rightarrow> if go_cacheEmpty opts then m(k \<mapsto> sentinel) else m
           | Threw \<Rightarrow> m)"
| "last_write sentinel on call m = m"

fun reply_ok :: "'v \<Rightarrow> 'v cache_call \<Rightarrow> (string \<rightharpoonup> 'v) \<Rightarrow> 'v cache_reply \<Rightarrow> bool" where
  "reply_ok sentinel (Get now k) m (Found r) = (r = None \<or> r = m k)"
| "reply_ok sentinel (Begin now k opts fresh) m (Begun (Answered r)) =
     (case m k of None \<Rightarrow> False | Some v \<Rightarrow> r = (if v = sentinel then None else Some v))"
| "reply_ok sentinel call m reply = True"

fun csv_run ::
  "('s, 'v) cache_ops \<Rightarrow> ('t, 'v) cache_ops \<Rightarrow> 'v \<Rightarrow> 'v cache_call list \<Rightarrow>
   ('s, 't) cache_service \<Rightarrow> (string \<rightharpoonup> 'v) \<Rightarrow> bool option"
where
  "csv_run S L sentinel [] s m = Some True"
| "csv_run S L sentinel (call # calls) s m =
     (case csv_call S L sentinel call s of
        None \<Rightarrow> None
      | Some (s', reply) \<Rightarrow>
          map_option (\<lambda>b. reply_ok sentinel call m reply \<and> b)
            (csv_run S L sentinel calls s' (last_write sentinel (cs_enabled s) call m)))"

lemma restrict_restrict_patterns:
  "(m |` {k. \<not> glob_test p k}) |` {k. \<forall>q\<in>set ps. \<not> glob_test q k} =
     m |` {k. \<forall>q\<in>set (p # ps). \<not> glob_test q k}"
  by (auto simp: restrict_map_def fun_eq_iff)

lemma map_le_upd: "m \<subseteq>\<^sub>m m' \<Longrightarrow> m(k \<mapsto> v) \<subseteq>\<^sub>m m'(k \<mapsto> v)"
  by (auto simp: map_le_def)

lemma map_le_del: "m \<subseteq>\<^sub>m m' \<Longrightarrow> m(k := None) \<subseteq>\<^sub>m m'(k := None)"
  by (auto simp: map_le_def)

lemma map_le_restrict: "m \<subseteq>\<^sub>m m' \<Longrightarrow> m |` A \<subseteq>\<^sub>m m' |` A"
  by (auto simp: map_le_def restrict_map_def split: if_splits)

lemma map_le_promote: "m \<subseteq>\<^sub>m m' \<Longrightarrow> m' k = Some v \<Longrightarrow> m(k \<mapsto> v) \<subseteq>\<^sub>m m'"
  by (auto simp: map_le_def)

lemma map_le_member: "m \<subseteq>\<^sub>m m' \<Longrightarrow> m k = Some v \<Longrightarrow> m' k = Some v"
  by (force simp: map_le_def dom_def)

locale cache_tiers =
  store: cache_store S okS holdsS + l1: cache_store L okL holdsL
  for S :: "('s, 'v) cache_ops" and okS holdsS and L :: "('t, 'v) cache_ops" and okL holdsL
begin

definition tiers_within :: "(string \<rightharpoonup> 'v) \<Rightarrow> ('s, 't) cache_service \<Rightarrow> bool" where
  "tiers_within m s \<longleftrightarrow> okS (cs_store s) \<and> holdsS (cs_store s) \<subseteq>\<^sub>m m \<and>
     pred_option (\<lambda>l. okL l \<and> holdsL l \<subseteq>\<^sub>m m) (cs_l1 s)"

lemma withinE:
  assumes "tiers_within m s"
  obtains "okS (cs_store s)" "holdsS (cs_store s) \<subseteq>\<^sub>m m" "cs_l1 s = None"
  | l where "okS (cs_store s)" "holdsS (cs_store s) \<subseteq>\<^sub>m m" "cs_l1 s = Some l" "okL l" "holdsL l \<subseteq>\<^sub>m m"
  using assms unfolding tiers_within_def by (cases "cs_l1 s") auto

lemma store_get_within:
  assumes "okS st" "holdsS st \<subseteq>\<^sub>m m" "co_get S now k st = (st', r)"
  shows "okS st'" "holdsS st' \<subseteq>\<^sub>m m" "r = None \<or> r = m k"
  using store.get_ok [OF assms(1), of now k] store.get_holds [OF assms(1), of now k]
    store.get_reply [OF assms(1), of now k] assms(2,3) map_le_member [OF assms(2)]
  by (auto intro: map_le_trans) (cases "holdsS st k"; auto)

lemma l1_get_within:
  assumes "okL st" "holdsL st \<subseteq>\<^sub>m m" "co_get L now k st = (st', r)"
  shows "okL st'" "holdsL st' \<subseteq>\<^sub>m m" "r = None \<or> r = m k"
  using l1.get_ok [OF assms(1), of now k] l1.get_holds [OF assms(1), of now k]
    l1.get_reply [OF assms(1), of now k] assms(2,3) map_le_member [OF assms(2)]
  by (auto intro: map_le_trans) (cases "holdsL st k"; auto)

lemma store_set_within:
  "okS st \<Longrightarrow> holdsS st \<subseteq>\<^sub>m m \<Longrightarrow> okS (co_set S now k v ttl st) \<and> holdsS (co_set S now k v ttl st) \<subseteq>\<^sub>m m(k \<mapsto> v)"
  using store.set_ok [of st now k v ttl] map_le_trans [OF store.set_holds map_le_upd, of st m now k v ttl] by simp

lemma l1_set_within:
  "okL st \<Longrightarrow> holdsL st \<subseteq>\<^sub>m m \<Longrightarrow> okL (co_set L now k v ttl st) \<and> holdsL (co_set L now k v ttl st) \<subseteq>\<^sub>m m(k \<mapsto> v)"
  using l1.set_ok [of st now k v ttl] map_le_trans [OF l1.set_holds map_le_upd, of st m now k v ttl] by simp

lemma store_delete_within:
  "okS st \<Longrightarrow> holdsS st \<subseteq>\<^sub>m m \<Longrightarrow> okS (co_delete S k st) \<and> holdsS (co_delete S k st) \<subseteq>\<^sub>m m(k := None)"
  using store.delete_ok [of st k] map_le_trans [OF store.delete_holds map_le_del, of st m k] by simp

lemma l1_delete_within:
  "okL st \<Longrightarrow> holdsL st \<subseteq>\<^sub>m m \<Longrightarrow> okL (co_delete L k st) \<and> holdsL (co_delete L k st) \<subseteq>\<^sub>m m(k := None)"
  using l1.delete_ok [of st k] map_le_trans [OF l1.delete_holds map_le_del, of st m k] by simp

lemma store_pattern_within:
  assumes "okS st" "holdsS st \<subseteq>\<^sub>m m"
  obtains st' n where "co_deletePattern S p st = Some (st', n)" "okS st'" "holdsS st' \<subseteq>\<^sub>m m |` {k. \<not> glob_test p k}"
  using store.pattern_ends [OF assms(1), of p] map_le_trans map_le_restrict [OF assms(2)] by blast

lemma l1_pattern_within:
  assumes "okL st" "holdsL st \<subseteq>\<^sub>m m"
  obtains st' n where "co_deletePattern L p st = Some (st', n)" "okL st'" "holdsL st' \<subseteq>\<^sub>m m |` {k. \<not> glob_test p k}"
  using l1.pattern_ends [OF assms(1), of p] map_le_trans map_le_restrict [OF assms(2)] by blast

lemma set_within: "tiers_within m s \<Longrightarrow> cs_enabled s \<Longrightarrow> tiers_within (m(k \<mapsto> v)) (csv_set S L now random k v ttl s)"
  by (elim withinE) (simp_all add: tiers_within_def csv_set_def Let_def store_set_within l1_set_within)

lemma delete_within: "tiers_within m s \<Longrightarrow> tiers_within (m(k := None)) (csv_delete S L k s)"
  by (elim withinE) (simp_all add: tiers_within_def csv_delete_def store_delete_within l1_delete_within)

lemma get_within:
  assumes "tiers_within m s" and "csv_get S L now k s = (s', r)"
  shows "tiers_within m s' \<and> cs_enabled s' = cs_enabled s \<and> (r = None \<or> r = m k)"
  using assms(1)
proof (rule withinE)
  assume st: "okS (cs_store s)" "holdsS (cs_store s) \<subseteq>\<^sub>m m" and l1: "cs_l1 s = None"
  obtain st' v where g: "co_get S now k (cs_store s) = (st', v)" by (cases "co_get S now k (cs_store s)")
  show ?thesis
    using assms store_get_within [OF st g] l1 g
    by (auto simp: csv_get_def csv_read_def tiers_within_def split: option.splits if_splits)
next
  fix l
  assume st: "okS (cs_store s)" "holdsS (cs_store s) \<subseteq>\<^sub>m m" and l1: "cs_l1 s = Some l" "okL l" "holdsL l \<subseteq>\<^sub>m m"
  obtain st' v where g: "co_get S now k (cs_store s) = (st', v)" by (cases "co_get S now k (cs_store s)")
  obtain l' w where h: "co_get L now k l = (l', w)" by (cases "co_get L now k l")
  note gs = store_get_within [OF st g] and hs = l1_get_within [OF l1(2,3) h]
  show ?thesis
  proof (cases "cs_enabled s")
    case True
    show ?thesis
    proof (cases w)
      case (Some x)
      then show ?thesis using assms(2) True st hs l1(1) h
        by (auto simp: csv_get_def csv_read_def tiers_within_def)
    next
      case None
      show ?thesis
      proof (cases v)
        case (Some y)
        have "holdsL (co_set L now k y (Some (min (cs_defaultTtl s) 60)) l') \<subseteq>\<^sub>m m"
          using l1_set_within [OF hs(1,2), of now k y "Some (min (cs_defaultTtl s) 60)"] gs(3) Some
          by (simp add: map_upd_triv)
        then show ?thesis using assms(2) True gs hs l1(1) h g None Some l1_set_within [OF hs(1,2)]
          by (auto simp: csv_get_def csv_read_def csv_promote_def tiers_within_def)
      next
        case none: None
        then show ?thesis using assms(2) True gs hs l1(1) h g None
          by (auto simp: csv_get_def csv_read_def tiers_within_def)
      qed
    qed
  qed (use assms in \<open>auto simp: csv_get_def\<close>)
qed

lemma invalidate_within:
  "tiers_within m s \<Longrightarrow> \<exists>s' n'. csv_invalidate S L ps n s = Some (s', n') \<and> cs_enabled s' = cs_enabled s \<and>
     tiers_within (m |` {k. \<forall>p\<in>set ps. \<not> glob_test p k}) s'"
proof (induction ps arbitrary: m s n)
  case Nil
  then show ?case by simp
next
  case (Cons p ps)
  let ?m = "m |` {k. \<not> glob_test p k}"
  show ?case using Cons.prems
  proof (rule withinE)
    assume st: "okS (cs_store s)" "holdsS (cs_store s) \<subseteq>\<^sub>m m" and l1: "cs_l1 s = None"
    obtain st' d where d: "co_deletePattern S p (cs_store s) = Some (st', d)" "okS st'" "holdsS st' \<subseteq>\<^sub>m ?m"
      using store_pattern_within [OF st] by blast
    have "tiers_within ?m (s\<lparr>cs_store := st'\<rparr>)" using d l1 by (simp add: tiers_within_def)
    from Cons.IH [OF this, of "n + d"] show ?thesis using d(1) l1
      unfolding restrict_restrict_patterns by simp
  next
    fix l
    assume st: "okS (cs_store s)" "holdsS (cs_store s) \<subseteq>\<^sub>m m" and l1: "cs_l1 s = Some l" "okL l" "holdsL l \<subseteq>\<^sub>m m"
    obtain st' d where d: "co_deletePattern S p (cs_store s) = Some (st', d)" "okS st'" "holdsS st' \<subseteq>\<^sub>m ?m"
      using store_pattern_within [OF st] by blast
    obtain l' e where e: "co_deletePattern L p l = Some (l', e)" "okL l'" "holdsL l' \<subseteq>\<^sub>m ?m"
      using l1_pattern_within [OF l1(2,3)] by blast
    have "tiers_within ?m (s\<lparr>cs_store := st', cs_l1 := Some l'\<rparr>)" using d e by (simp add: tiers_within_def)
    from Cons.IH [OF this, of "n + d"] show ?thesis using d(1) e(1) l1(1)
      unfolding restrict_restrict_patterns by simp
  qed
qed

lemma begin_within:
  assumes "tiers_within m s" and "csv_begin S L sentinel now k opts fresh False s = (s', b)"
  shows "tiers_within m s' \<and> reply_ok sentinel (Begin now k opts fresh) m (Begun b)"
proof -
  obtain t c where g: "csv_get S L now k s = (t, c)" by (cases "csv_get S L now k s")
  have "tiers_within m (t\<lparr>cs_inFlight := f\<rparr>)" for f
    using get_within [OF assms(1) g] by (simp add: tiers_within_def)
  moreover have "tiers_within m (s\<lparr>cs_inFlight := f\<rparr>)" for f
    using assms(1) by (simp add: tiers_within_def)
  ultimately show ?thesis using assms get_within [OF assms(1) g] g
    by (cases "m k"; cases "go_forceRefresh opts") (auto simp: csv_begin_def split: option.splits if_splits)
qed

lemma finish_within:
  assumes "tiers_within m s"
  shows "tiers_within (last_write sentinel (cs_enabled s) (Finish now random k opts outcome) m)
    (csv_finish S L sentinel now random k opts outcome s)"
proof -
  have inFlight: "tiers_within m' (t\<lparr>cs_inFlight := f\<rparr>) = tiers_within m' t" for m' t f
    by (simp add: tiers_within_def)
  have off: "\<not> cs_enabled s \<Longrightarrow> csv_set S L now random k v ttl s = s" for v ttl by (simp add: csv_set_def)
  show ?thesis
    using assms set_within [OF assms] off
    by (cases outcome; cases "cs_enabled s") (simp_all add: csv_finish_def Let_def inFlight)
qed

lemma call_within:
  assumes "tiers_within m s"
  shows "\<exists>s' reply. csv_call S L sentinel call s = Some (s', reply) \<and> reply_ok sentinel call m reply \<and>
    tiers_within (last_write sentinel (cs_enabled s) call m) s'"
proof (cases call)
  case (Get now k)
  obtain t c where g: "csv_get S L now k s = (t, c)" by (cases "csv_get S L now k s")
  then show ?thesis using Get get_within [OF assms g] by simp
next
  case (Put now random k v ttl)
  have "\<not> cs_enabled s \<Longrightarrow> csv_set S L now random k v ttl s = s" by (simp add: csv_set_def)
  then show ?thesis using Put assms set_within [OF assms] by (cases "cs_enabled s") simp_all
next
  case (Delete k)
  then show ?thesis using delete_within [OF assms] by simp
next
  case (Invalidate ps)
  then show ?thesis using invalidate_within [OF assms, of ps 0] by auto
next
  case (Enable b)
  then show ?thesis using assms by (simp add: setEnabled_def tiers_within_def)
next
  case (Begin now k opts fresh)
  obtain t b where g: "csv_begin S L sentinel now k opts fresh False s = (t, b)"
    by (cases "csv_begin S L sentinel now k opts fresh False s")
  then show ?thesis using Begin begin_within [OF assms g] by simp
next
  case (Finish now random k opts outcome)
  then show ?thesis using finish_within [OF assms] by simp
qed

lemma run_coherent: "tiers_within m s \<Longrightarrow> csv_run S L sentinel calls s m = Some True"
proof (induction calls arbitrary: m s)
  case (Cons call calls)
  obtain s' reply where "csv_call S L sentinel call s = Some (s', reply)" "reply_ok sentinel call m reply"
    "tiers_within (last_write sentinel (cs_enabled s) call m) s'"
    using call_within [OF Cons.prems] by blast
  then show ?case using Cons.IH by simp
qed simp

end


interpretation down_tiers: cache_tiers "redis_cache_ops down_client parse stringify" "\<lambda>_. True" "\<lambda>_ _. None"
    mem_ops mem_ok mem_holds for parse and stringify
  by unfold_locales






text \<open>A read is not atomic: when a deletion falls between its two parts, the promotion puts the
  deleted value back into the first tier.\<close>

lemma promotion_after_delete_is_stale:
  assumes "mem_new (Some 2) None = Inr store" and "mem_new (Some 2) None = Inr l1"
    and "s0 = csv_new (mem_set 0 ''a'' ''old'' None store) (Some l1) None None None"
    and "csv_read mem_ops mem_ops 1 ''a'' s0 = (s1, r, promote)"
  shows "r = Some ''old'' \<and> promote \<and>
    snd (csv_get mem_ops mem_ops 3 ''a''
      (csv_promote mem_ops 2 ''a'' ''old'' (csv_delete mem_ops mem_ops ''a'' s1))) = Some ''old''"
  using assms
  by (auto simp: mem_new_def lru_new_def csv_new_def csv_read_def csv_get_def csv_promote_def csv_delete_def
      mem_ops_def mem_get_def mem_set_def mem_delete_def lru_get_def lru_put_def lru_delete_def Let_def
      add_to_front_def expiry_for_def remove_node_def move_to_front_def upd_node_def is_expired_def)

end
