(* ===== verification/MemoryQueue.thy ===== *)
theory MemoryQueue
  imports PQueue JsString
begin

text \<open>
  The in-process job queue (\<open>packages/runtime/src/queue/memory-queue.ts\<close>, with the options and
  the backoff of \<open>queue.ts\<close>) over the stable priority queue of \<open>PQueue\<close>. An operation is one
  step at a clock reading \<open>now\<close>; \<open>run\<close> is cut where it awaits the handler, so the state also
  keeps the jobs whose handler has not settled. Handlers are async functions that do not call
  the queue before their first await. A timer is the time at which it fires.
\<close>

record 'd job =
  jb_jobId :: string
  jb_type :: string
  jb_version :: nat
  jb_data :: 'd
  jb_attempt :: int
  jb_createdAt :: time
  jb_maxAttempts :: int
  jb_backoffMs :: rat
  jb_priority :: rat
  jb_runAt :: time
  jb_lastError :: "string option"

record job_options =
  jo_jobId :: "string option"
  jo_delayMs :: "int option"
  jo_attempts :: "int option"
  jo_backoffMs :: "rat option"
  jo_priority :: "rat option"

record 'd mqueue =
  mq_ready :: "'d job pqueue"
  mq_delayed :: "'d job list"
  mq_failed :: "'d job list"
  mq_known :: "string set"
  mq_handler :: bool
  mq_concurrency :: nat
  mq_active :: nat
  mq_completedCount :: nat
  mq_paused :: bool
  mq_draining :: bool
  mq_timer :: "time option"
  mq_repeaters :: "(string \<times> 'd \<times> int) list"
  mq_running :: "'d job list"

definition mq_new :: "'d mqueue" where
  "mq_new =
     \<lparr>mq_ready = pq_empty, mq_delayed = [], mq_failed = [], mq_known = {}, mq_handler = False,
      mq_concurrency = 1, mq_active = 0, mq_completedCount = 0, mq_paused = False, mq_draining = False,
      mq_timer = None, mq_repeaters = [], mq_running = []\<rparr>"

definition jobBackoff :: "rat \<Rightarrow> int \<Rightarrow> rat \<Rightarrow> int" where
  "jobBackoff random attempt baseMs =
     (let exponential = min 300000 (baseMs * 2 ^ nat (attempt - 1))
      in js_round (exponential / 2 + random * (exponential / 2)))"

section \<open>Scheduling\<close>

definition mq_enqueue_ready :: "'d job \<Rightarrow> 'd mqueue \<Rightarrow> 'd mqueue" where
  "mq_enqueue_ready job q = q\<lparr>mq_ready := pq_enqueue job (jb_priority job) (mq_ready q)\<rparr>"

definition mq_schedule :: "time \<Rightarrow> 'd job \<Rightarrow> 'd mqueue \<Rightarrow> 'd mqueue" where
  "mq_schedule now job q =
     (if now < jb_runAt job then q\<lparr>mq_delayed := mq_delayed q @ [job]\<rparr> else mq_enqueue_ready job q)"

text \<open>The loop of \<open>promoteDelayed\<close> from index \<open>i - 1\<close> down.\<close>

fun mq_promote :: "time \<Rightarrow> nat \<Rightarrow> 'd mqueue \<Rightarrow> 'd mqueue" where
  "mq_promote now 0 q = q"
| "mq_promote now (Suc i) q =
     (let job = mq_delayed q ! i in
      mq_promote now i
        (if jb_runAt job \<le> now
         then mq_enqueue_ready job (q\<lparr>mq_delayed := take i (mq_delayed q) @ drop (Suc i) (mq_delayed q)\<rparr>)
         else q))"

definition mq_promoteDelayed :: "time \<Rightarrow> 'd mqueue \<Rightarrow> 'd mqueue" where
  "mq_promoteDelayed now q = mq_promote now (length (mq_delayed q)) q"

text \<open>The part of \<open>run\<close> before the handler settles.\<close>

definition mq_start :: "'d job \<Rightarrow> 'd mqueue \<Rightarrow> 'd mqueue" where
  "mq_start job q =
     (if \<not> mq_handler q then q
      else q\<lparr>mq_active := mq_active q + 1, mq_running := mq_running q @ [job]\<rparr>)"

lemma mq_start_ready [simp]: "mq_ready (mq_start job q) = mq_ready q"
  by (simp add: mq_start_def)

lemma pq_dequeue_shrinks: "pq_dequeue r = (Some v, r') \<Longrightarrow> pq_size r' < pq_size r"
proof -
  assume d: "pq_dequeue r = (Some v, r')"
  obtain x h where pop: "heap_pop pq_cmp (pq_heap r) = (Some x, h)" and r': "r' = r\<lparr>pq_heap := h\<rparr>"
    using d by (auto simp: pq_dequeue_def split: prod.splits)
  have "size (mset (pq_heap r)) = Suc (size (mset h))" using mset_heap_pop [OF pop] by simp
  then show ?thesis by (simp add: pq_size_def r')
qed

function mq_dispatch :: "'d mqueue \<Rightarrow> 'd mqueue" where
  "mq_dispatch q =
     (if mq_active q < mq_concurrency q \<and> \<not> pq_is_empty (mq_ready q)
      then case pq_dequeue (mq_ready q) of
             (None, r) \<Rightarrow> q\<lparr>mq_ready := r\<rparr>
           | (Some job, r) \<Rightarrow> mq_dispatch (mq_start job (q\<lparr>mq_ready := r\<rparr>))
      else q)"
  by auto

termination mq_dispatch
  by (relation "measure (\<lambda>q. pq_size (mq_ready q))") (auto dest: pq_dequeue_shrinks [OF sym])

declare mq_dispatch.simps [simp del]

definition mq_arm :: "time \<Rightarrow> 'd mqueue \<Rightarrow> 'd mqueue" where
  "mq_arm now q =
     (if mq_delayed q \<noteq> [] \<or> \<not> pq_is_empty (mq_ready q)
      then let nextRunAt = fold min (map jb_runAt (mq_delayed q)) (now + 250);
               wait = max 25 (nextRunAt - now)
           in q\<lparr>mq_timer := Some (now + wait)\<rparr>
      else q\<lparr>mq_timer := None\<rparr>)"

definition mq_tick :: "time \<Rightarrow> 'd mqueue \<Rightarrow> 'd mqueue" where
  "mq_tick now q =
     (if mq_draining q \<or> mq_paused q \<or> \<not> mq_handler q then q
      else mq_arm now (mq_dispatch (mq_promoteDelayed now q)))"

section \<open>Operations\<close>

definition or_else :: "'a option \<Rightarrow> 'a \<Rightarrow> 'a" where
  "or_else x d = (case x of Some v \<Rightarrow> v | None \<Rightarrow> d)"

definition new_job :: "time \<Rightarrow> string \<Rightarrow> string \<Rightarrow> 'd \<Rightarrow> job_options \<Rightarrow> 'd job" where
  "new_job now jobId type data opts =
     \<lparr>jb_jobId = jobId, jb_type = type, jb_version = 1, jb_data = data, jb_attempt = 1, jb_createdAt = now,
      jb_maxAttempts = or_else (jo_attempts opts) 3, jb_backoffMs = or_else (jo_backoffMs opts) 1000,
      jb_priority = or_else (jo_priority opts) 100, jb_runAt = now + or_else (jo_delayMs opts) 0,
      jb_lastError = None\<rparr>"

text \<open>\<open>uuid\<close> is what \<open>randomUUID\<close> returns. An empty explicit id is falsy: it is not looked up.\<close>

definition mq_add ::
  "time \<Rightarrow> string \<Rightarrow> string \<Rightarrow> 'd \<Rightarrow> job_options \<Rightarrow> 'd mqueue \<Rightarrow> 'd mqueue \<times> string"
where
  "mq_add now uuid type data opts q =
     (let jobId = or_else (jo_jobId opts) uuid in
      if jo_jobId opts \<noteq> None \<and> jo_jobId opts \<noteq> Some [] \<and> jobId \<in> mq_known q then (q, jobId)
      else
        let q = q\<lparr>mq_known := insert jobId (mq_known q)\<rparr>;
            job = new_job now jobId type data opts
        in (mq_tick now (mq_schedule now job q), jobId))"

text \<open>The entries of a bulk with the clock and the random id each \<open>add\<close> meets.\<close>

fun mq_addBulk ::
  "(time \<times> string \<times> string \<times> 'd \<times> job_options) list \<Rightarrow> 'd mqueue \<Rightarrow> 'd mqueue \<times> string list"
where
  "mq_addBulk [] q = (q, [])"
| "mq_addBulk ((now, uuid, type, data, opts) # jobs) q =
     (let (q1, i) = mq_add now uuid type data opts q; (q2, is) = mq_addBulk jobs q1 in (q2, i # is))"

definition mq_process :: "time \<Rightarrow> int \<Rightarrow> 'd mqueue \<Rightarrow> 'd mqueue" where
  "mq_process now concurrency q =
     mq_tick now (q\<lparr>mq_handler := True, mq_concurrency := nat (max 1 concurrency)\<rparr>)"

definition repeat_options :: "time \<Rightarrow> string \<Rightarrow> job_options" where
  "repeat_options now type =
     \<lparr>jo_jobId = Some (type @ '':'' @ show_nat (nat now)), jo_delayMs = None, jo_attempts = None,
      jo_backoffMs = None, jo_priority = None\<rparr>"

definition mq_repeater_fires :: "time \<Rightarrow> string \<Rightarrow> string \<Rightarrow> 'd \<Rightarrow> 'd mqueue \<Rightarrow> 'd mqueue" where
  "mq_repeater_fires now uuid type data q = fst (mq_add now uuid type data (repeat_options now type) q)"

definition mq_repeat :: "time \<Rightarrow> string \<Rightarrow> string \<Rightarrow> 'd \<Rightarrow> int \<Rightarrow> bool \<Rightarrow> 'd mqueue \<Rightarrow> 'd mqueue" where
  "mq_repeat now uuid type data everyMs immediate q =
     (let q = (if immediate then mq_repeater_fires now uuid type data q else q)
      in q\<lparr>mq_repeaters := mq_repeaters q @ [(type, data, everyMs)]\<rparr>)"

record queue_stats =
  qs_waiting :: nat
  qs_active :: nat
  qs_completed :: nat
  qs_failed :: nat
  qs_delayed :: nat

definition mq_stats :: "'d mqueue \<Rightarrow> queue_stats" where
  "mq_stats q =
     \<lparr>qs_waiting = pq_size (mq_ready q), qs_active = mq_active q, qs_completed = mq_completedCount q,
      qs_failed = length (mq_failed q), qs_delayed = length (mq_delayed q)\<rparr>"

text \<open>\<open>slice(-limit)\<close>: the last \<open>limit\<close> jobs, all of them for limit 0, all but the first
  \<open>-limit\<close> for a negative one.\<close>

definition mq_failedJobs :: "int \<Rightarrow> 'd mqueue \<Rightarrow> 'd job list" where
  "mq_failedJobs limit q =
     (if 0 < limit then drop (length (mq_failed q) - nat limit) (mq_failed q)
      else drop (nat (- limit)) (mq_failed q))"

definition mq_retryFailed :: "time \<Rightarrow> string \<Rightarrow> 'd mqueue \<Rightarrow> 'd mqueue \<times> bool" where
  "mq_retryFailed now jobId q =
     (let index = length (takeWhile (\<lambda>job. jb_jobId job \<noteq> jobId) (mq_failed q)) in
      if index = length (mq_failed q) then (q, False)
      else
        let job = mq_failed q ! index;
            q = q\<lparr>mq_failed := take index (mq_failed q) @ drop (Suc index) (mq_failed q)\<rparr>
        in (mq_tick now (mq_schedule now (job\<lparr>jb_attempt := 1, jb_runAt := now\<rparr>) q), True))"

definition mq_pause :: "'d mqueue \<Rightarrow> 'd mqueue" where
  "mq_pause q = q\<lparr>mq_paused := True\<rparr>"

definition mq_resume :: "time \<Rightarrow> 'd mqueue \<Rightarrow> 'd mqueue" where
  "mq_resume now q = mq_tick now (q\<lparr>mq_paused := False\<rparr>)"

text \<open>\<open>close\<close> up to its wait for the jobs that run.\<close>

definition mq_close :: "'d mqueue \<Rightarrow> 'd mqueue" where
  "mq_close q = q\<lparr>mq_draining := True, mq_repeaters := [], mq_timer := None\<rparr>"

definition mq_timer_fires :: "time \<Rightarrow> 'd mqueue \<Rightarrow> 'd mqueue" where
  "mq_timer_fires now q = mq_tick now (q\<lparr>mq_timer := None\<rparr>)"

text \<open>The rest of \<open>run\<close>: the handler of \<open>job\<close> succeeded, or failed with a message.\<close>

definition mq_finish :: "time \<Rightarrow> rat \<Rightarrow> 'd job \<Rightarrow> string option \<Rightarrow> 'd mqueue \<Rightarrow> 'd mqueue" where
  "mq_finish now random job failure q =
     (let q = q\<lparr>mq_running := remove1 job (mq_running q)\<rparr>;
          q = (case failure of
                 None \<Rightarrow> q\<lparr>mq_completedCount := mq_completedCount q + 1, mq_known := mq_known q - {jb_jobId job}\<rparr>
               | Some message \<Rightarrow>
                   let job = job\<lparr>jb_lastError := Some message\<rparr> in
                   if jb_attempt job < jb_maxAttempts job
                   then
                     let attempt = jb_attempt job + 1;
                         job = job\<lparr>jb_attempt := attempt,
                                   jb_runAt := now + jobBackoff random attempt (jb_backoffMs job)\<rparr>
                     in q\<lparr>mq_delayed := mq_delayed q @ [job]\<rparr>
                   else q\<lparr>mq_failed := mq_failed q @ [job], mq_known := mq_known q - {jb_jobId job}\<rparr>)
      in mq_tick now (q\<lparr>mq_active := mq_active q - 1\<rparr>))"


section \<open>Where the jobs are\<close>

definition ready_jobs :: "'d mqueue \<Rightarrow> 'd job list" where
  "ready_jobs q = map fst (pq_contents (mq_ready q))"

definition mq_bag :: "'d mqueue \<Rightarrow> 'd job multiset" where
  "mq_bag q = mset (ready_jobs q) + mset (mq_delayed q) + mset (mq_running q) + mset (mq_failed q)"

definition mq_live :: "'d mqueue \<Rightarrow> bool" where
  "mq_live q \<longleftrightarrow> mq_handler q \<and> \<not> mq_paused q \<and> \<not> mq_draining q"

text \<open>Consistent counters, and a live queue that leaves no slot idle and no job without a timer.\<close>

definition mq_consistent :: "'d mqueue \<Rightarrow> bool" where
  "mq_consistent q \<longleftrightarrow> pq_invar (mq_ready q) \<and> mq_active q = length (mq_running q)"

definition mq_awake :: "'d mqueue \<Rightarrow> bool" where
  "mq_awake q \<longleftrightarrow>
     (mq_live q \<longrightarrow>
        (mq_active q < mq_concurrency q \<longrightarrow> ready_jobs q = []) \<and>
        (mq_delayed q \<noteq> [] \<or> ready_jobs q \<noteq> [] \<longrightarrow> mq_timer q \<noteq> None))"

lemma pq_is_empty_contents: "pq_is_empty r \<longleftrightarrow> pq_contents r = []"
  by (simp add: pq_is_empty_def pq_contents_def pq_entries_def)
    (metis mset_sort mset_zero_iff sort_key_simps(1))

lemma ready_empty: "pq_is_empty (mq_ready q) \<longleftrightarrow> ready_jobs q = []"
  by (simp add: ready_jobs_def pq_is_empty_contents)

lemma enqueue_ready_facts:
  assumes "pq_invar (mq_ready q)"
  shows "pq_invar (mq_ready (mq_enqueue_ready job q))"
    "mset (ready_jobs (mq_enqueue_ready job q)) = add_mset job (mset (ready_jobs q))"
proof -
  show "pq_invar (mq_ready (mq_enqueue_ready job q))"
    using pq.invar_enqueue [OF assms] by (simp add: mq_enqueue_ready_def)
  have "image_mset fst (mset (pq_contents (pq_enqueue job (jb_priority job) (mq_ready q)))) =
      image_mset fst (add_mset (job, jb_priority job) (mset (pq_contents (mq_ready q))))"
    by (simp only: pq.mset_enqueue [OF assms])
  then show "mset (ready_jobs (mq_enqueue_ready job q)) = add_mset job (mset (ready_jobs q))"
    by (simp add: ready_jobs_def mq_enqueue_ready_def)
qed

text \<open>Fields an internal step leaves alone.\<close>

definition same_control :: "'d mqueue \<Rightarrow> 'd mqueue \<Rightarrow> bool" where
  "same_control q q' \<longleftrightarrow> mq_handler q' = mq_handler q \<and> mq_paused q' = mq_paused q \<and>
     mq_draining q' = mq_draining q \<and> mq_concurrency q' = mq_concurrency q \<and> mq_failed q' = mq_failed q \<and>
     mq_known q' = mq_known q \<and> mq_completedCount q' = mq_completedCount q \<and> mq_repeaters q' = mq_repeaters q"

lemma same_control_refl [simp]: "same_control q q"
  by (simp add: same_control_def)

lemma same_control_trans: "same_control q q' \<Longrightarrow> same_control q' q'' \<Longrightarrow> same_control q q''"
  by (simp add: same_control_def)

lemma mset_remove_nth: "i < length xs \<Longrightarrow> add_mset (xs ! i) (mset (take i xs @ drop (Suc i) xs)) = mset xs"
  by (metis id_take_nth_drop mset.simps(2) mset_append union_mset_add_mset_right)

lemma mq_promote_facts:
  assumes "pq_invar (mq_ready q)" and "i \<le> length (mq_delayed q)"
  shows "pq_invar (mq_ready (mq_promote now i q)) \<and>
    mset (ready_jobs (mq_promote now i q)) + mset (mq_delayed (mq_promote now i q)) =
      mset (ready_jobs q) + mset (mq_delayed q) \<and>
    same_control q (mq_promote now i q) \<and> mq_active (mq_promote now i q) = mq_active q \<and>
    mq_running (mq_promote now i q) = mq_running q"
  using assms
proof (induction i arbitrary: q)
  case (Suc i)
  let ?job = "mq_delayed q ! i"
  let ?r = "q\<lparr>mq_delayed := take i (mq_delayed q) @ drop (Suc i) (mq_delayed q)\<rparr>"
  let ?q = "if jb_runAt ?job \<le> now then mq_enqueue_ready ?job ?r else q"
  have r: "ready_jobs ?r = ready_jobs q" by (simp add: ready_jobs_def)
  have e: "pq_invar (mq_ready ?q)" "i \<le> length (mq_delayed ?q)"
    using Suc.prems enqueue_ready_facts(1) [of ?r] by (auto simp: mq_enqueue_ready_def)
  have "mset (ready_jobs ?q) + mset (mq_delayed ?q) = mset (ready_jobs q) + mset (mq_delayed q)"
    using enqueue_ready_facts(2) [of ?r ?job] mset_remove_nth [of i "mq_delayed q"] Suc.prems r
    by (simp add: mq_enqueue_ready_def)
  moreover have "same_control q ?q \<and> mq_active ?q = mq_active q \<and> mq_running ?q = mq_running q"
    by (simp add: same_control_def mq_enqueue_ready_def)
  moreover have "mq_promote now (Suc i) q = mq_promote now i ?q" by (simp add: Let_def)
  ultimately show ?case using Suc.IH [OF e] same_control_trans [of q ?q "mq_promote now i ?q"]
    by (simp only: simp_thms)
qed simp

text \<open>The dispatch loop starts the jobs of least priority value, first come first served among
  equal ones, as many as there are free slots.\<close>

lemma mq_dispatch_spec:
  assumes "pq_invar (mq_ready q)" and "mq_handler q"
  defines "k \<equiv> min (mq_concurrency q - mq_active q) (length (ready_jobs q))"
  shows "pq_invar (mq_ready (mq_dispatch q)) \<and> ready_jobs (mq_dispatch q) = drop k (ready_jobs q) \<and>
    mq_running (mq_dispatch q) = mq_running q @ take k (ready_jobs q) \<and>
    mq_active (mq_dispatch q) = mq_active q + k \<and> mq_delayed (mq_dispatch q) = mq_delayed q \<and>
    same_control q (mq_dispatch q)"
  using assms(1,2) unfolding k_def
proof (induction q rule: mq_dispatch.induct)
  case (1 q)
  show ?case
  proof (cases "mq_active q < mq_concurrency q \<and> \<not> pq_is_empty (mq_ready q)")
    case False
    then have "mq_dispatch q = q" by (subst mq_dispatch.simps) (simp only: if_False)
    then show ?thesis using False "1.prems" by (auto simp: ready_empty)
  next
    case True
    obtain job p xs where c: "pq_contents (mq_ready q) = (job, p) # xs"
      using True by (cases "pq_contents (mq_ready q)") (auto simp: pq_is_empty_contents)
    obtain r where d: "pq_dequeue (mq_ready q) = (Some job, r)"
      using pq.dequeue_some [OF "1.prems"(1) c] by (cases "pq_dequeue (mq_ready q)") auto
    let ?q = "mq_start job (q\<lparr>mq_ready := r\<rparr>)"
    have r: "pq_invar r" "pq_contents r = xs"
      using pq.invar_dequeue [OF "1.prems"(1)] pq.contents_dequeue [OF "1.prems"(1)] c d by simp_all
    have q: "mq_ready ?q = r" "ready_jobs ?q = map fst xs" "mq_handler ?q" "mq_active ?q = Suc (mq_active q)"
      "mq_running ?q = mq_running q @ [job]" "mq_delayed ?q = mq_delayed q" "mq_concurrency ?q = mq_concurrency q"
      "same_control q ?q"
      using "1.prems" r by (simp_all add: mq_start_def ready_jobs_def same_control_def)
    have "mq_dispatch q = mq_dispatch ?q" using True d by (simp add: mq_dispatch.simps [of q])
    moreover have "ready_jobs q = job # map fst xs" by (simp add: ready_jobs_def c)
    moreover obtain n where n: "mq_concurrency q - mq_active q = Suc n" "mq_concurrency q - Suc (mq_active q) = n"
      using True by (cases "mq_concurrency q - mq_active q") auto
    moreover note "1.IH" [OF True d [symmetric] refl] q r same_control_trans [of q ?q]
    ultimately show ?thesis by simp
  qed
qed

lemma mq_arm_facts:
  "mq_ready (mq_arm now q) = mq_ready q" "mq_delayed (mq_arm now q) = mq_delayed q"
  "mq_running (mq_arm now q) = mq_running q" "mq_active (mq_arm now q) = mq_active q"
  "same_control q (mq_arm now q)" "ready_jobs (mq_arm now q) = ready_jobs q"
  "mq_delayed q \<noteq> [] \<or> ready_jobs q \<noteq> [] \<Longrightarrow> mq_timer (mq_arm now q) \<noteq> None"
  by (auto simp: mq_arm_def Let_def same_control_def ready_jobs_def ready_empty)

lemma mq_bag_control: "same_control q q' \<Longrightarrow>
    mset (ready_jobs q') + mset (mq_delayed q') + mset (mq_running q') =
      mset (ready_jobs q) + mset (mq_delayed q) + mset (mq_running q) \<Longrightarrow> mq_bag q' = mq_bag q"
  by (simp add: mq_bag_def same_control_def)

lemma mq_tick_facts:
  assumes "mq_consistent q"
  shows "mq_consistent (mq_tick now q)" "mq_bag (mq_tick now q) = mq_bag q" "same_control q (mq_tick now q)"
    "mq_awake (mq_tick now q)" "mq_live q \<Longrightarrow> mq_active (mq_tick now q) \<le> max (mq_active q) (mq_concurrency q)"
proof -
  let ?p = "mq_promoteDelayed now q"
  have p: "pq_invar (mq_ready ?p)" "mset (ready_jobs ?p) + mset (mq_delayed ?p) = mset (ready_jobs q) + mset (mq_delayed q)"
    "same_control q ?p" "mq_active ?p = mq_active q" "mq_running ?p = mq_running q"
    using mq_promote_facts [of q "length (mq_delayed q)" now] assms
    by (simp_all add: mq_promoteDelayed_def mq_consistent_def)
  let ?d = "mq_dispatch ?p" and ?k = "min (mq_concurrency ?p - mq_active ?p) (length (ready_jobs ?p))"
  have goal: "mq_consistent (mq_tick now q) \<and> mq_bag (mq_tick now q) = mq_bag q \<and> same_control q (mq_tick now q) \<and>
      mq_awake (mq_tick now q) \<and> (mq_live q \<longrightarrow> mq_active (mq_tick now q) \<le> max (mq_active q) (mq_concurrency q))"
  proof (cases "mq_live q")
    case True
    then have t: "mq_tick now q = mq_arm now ?d" by (simp add: mq_tick_def mq_live_def)
    have h: "mq_handler ?p" using True p(3) by (simp add: mq_live_def same_control_def)
    note d = mq_dispatch_spec [OF p(1) h]
    have c: "same_control q ?d" using d p(3) same_control_trans by blast
    have "mset (ready_jobs ?d) + mset (mq_running ?d) = mset (ready_jobs ?p) + mset (mq_running ?p)"
      using d by (metis (no_types, lifting) append_take_drop_id mset_append union_ac(1) union_ac(2))
    then have "mset (ready_jobs ?d) + mset (mq_delayed ?d) + mset (mq_running ?d) =
        mset (ready_jobs q) + mset (mq_delayed q) + mset (mq_running q)"
      using p(2,5) d by (simp add: ac_simps)
    then have bag: "mq_bag ?d = mq_bag q" by (rule mq_bag_control [OF c])
    have "mq_bag (mq_arm now ?d) = mq_bag ?d"
      by (rule mq_bag_control) (simp_all add: mq_arm_facts)
    moreover have "mq_consistent (mq_arm now ?d)"
      using d p assms by (simp add: mq_consistent_def mq_arm_facts)
    moreover have "same_control q (mq_arm now ?d)" using c mq_arm_facts(5) same_control_trans by blast
    moreover have "mq_active ?d \<le> max (mq_active q) (mq_concurrency q)"
      using d p(3,4) by (simp add: same_control_def)
    moreover have "mq_active ?d < mq_concurrency ?d \<longrightarrow> ready_jobs ?d = []"
      using d by (simp add: same_control_def)
    ultimately show ?thesis using bag t mq_arm_facts(7) [of ?d now] 
      by (simp add: mq_awake_def mq_arm_facts) (simp add: mq_arm_facts(5) [unfolded same_control_def])
  next
    case False
    then have "mq_tick now q = q" by (auto simp: mq_tick_def mq_live_def)
    then show ?thesis using False assms by (simp add: mq_awake_def)
  qed
  then show "mq_consistent (mq_tick now q)" "mq_bag (mq_tick now q) = mq_bag q" "same_control q (mq_tick now q)"
    "mq_awake (mq_tick now q)" "mq_live q \<Longrightarrow> mq_active (mq_tick now q) \<le> max (mq_active q) (mq_concurrency q)"
    by blast+
qed


section \<open>Runs of the queue\<close>

text \<open>A run, with the ids of the jobs accepted and of those completed so far.\<close>

definition mq_duplicate :: "job_options \<Rightarrow> 'd mqueue \<Rightarrow> bool" where
  "mq_duplicate opts q \<longleftrightarrow>
     (case jo_jobId opts of None \<Rightarrow> False | Some i \<Rightarrow> i \<noteq> [] \<and> i \<in> mq_known q)"

inductive mq_reach :: "'d mqueue \<Rightarrow> string multiset \<Rightarrow> string multiset \<Rightarrow> bool" where
  reach_new: "mq_reach mq_new {#} {#}"
| reach_add: "mq_reach q A C \<Longrightarrow>
    mq_reach (fst (mq_add now uuid type data opts q))
      (if mq_duplicate opts q then A else add_mset (or_else (jo_jobId opts) uuid) A) C"
| reach_process: "mq_reach q A C \<Longrightarrow> mq_reach (mq_process now n q) A C"
| reach_repeat: "mq_reach q A C \<Longrightarrow> mq_reach (mq_repeat now uuid type data everyMs False q) A C"
| reach_retry: "mq_reach q A C \<Longrightarrow> mq_reach (fst (mq_retryFailed now i q)) A C"
| reach_pause: "mq_reach q A C \<Longrightarrow> mq_reach (mq_pause q) A C"
| reach_resume: "mq_reach q A C \<Longrightarrow> mq_reach (mq_resume now q) A C"
| reach_close: "mq_reach q A C \<Longrightarrow> mq_reach (mq_close q) A C"
| reach_timer: "mq_reach q A C \<Longrightarrow> mq_timer q = Some t \<Longrightarrow> t \<le> now \<Longrightarrow> mq_reach (mq_timer_fires now q) A C"
| reach_finish: "mq_reach q A C \<Longrightarrow> job \<in> set (mq_running q) \<Longrightarrow>
    mq_reach (mq_finish now random job failure q) A
      (if failure = None then add_mset (jb_jobId job) C else C)"

text \<open>An attempt counter is between 1 and the limit; a dead letter has used all its attempts.\<close>

definition attempt_ok :: "'d job \<Rightarrow> bool" where
  "attempt_ok job \<longleftrightarrow> 1 \<le> jb_attempt job \<and> jb_attempt job \<le> max 1 (jb_maxAttempts job)"

definition mq_inv :: "'d mqueue \<Rightarrow> string multiset \<Rightarrow> string multiset \<Rightarrow> bool" where
  "mq_inv q A C \<longleftrightarrow> mq_consistent q \<and> mq_awake q \<and> A = C + image_mset jb_jobId (mq_bag q) \<and>
     (\<forall>job\<in>#mq_bag q. attempt_ok job) \<and> (\<forall>job\<in>set (mq_failed q). jb_maxAttempts job \<le> jb_attempt job)"

lemma mq_inv_tick:
  assumes "mq_consistent q" and "A = C + image_mset jb_jobId (mq_bag q)" and "\<forall>job\<in>#mq_bag q. attempt_ok job"
    and "\<forall>job\<in>set (mq_failed q). jb_maxAttempts job \<le> jb_attempt job"
  shows "mq_inv (mq_tick now q) A C"
  using assms mq_tick_facts [OF assms(1), of now] by (simp add: mq_inv_def same_control_def)

lemma mq_schedule_facts:
  assumes "mq_consistent q"
  shows "mq_consistent (mq_schedule now job q)" "mq_bag (mq_schedule now job q) = add_mset job (mq_bag q)"
    "mq_failed (mq_schedule now job q) = mq_failed q"
proof -
  have inv: "pq_invar (mq_ready q)" using assms by (simp add: mq_consistent_def)
  note e = enqueue_ready_facts [OF inv, of job]
  show "mq_consistent (mq_schedule now job q)"
    using assms e(1) by (simp add: mq_schedule_def mq_consistent_def mq_enqueue_ready_def)
  show "mq_bag (mq_schedule now job q) = add_mset job (mq_bag q)"
    using e(2) by (simp add: mq_schedule_def mq_bag_def mq_enqueue_ready_def ready_jobs_def)
  show "mq_failed (mq_schedule now job q) = mq_failed q"
    by (simp add: mq_schedule_def mq_enqueue_ready_def)
qed

lemma mq_update_facts [simp]:
  "mq_bag (q\<lparr>mq_known := k\<rparr>) = mq_bag q" "mq_consistent (q\<lparr>mq_known := k\<rparr>) = mq_consistent q"
  "mq_bag (q\<lparr>mq_handler := b, mq_concurrency := n\<rparr>) = mq_bag q"
  "mq_consistent (q\<lparr>mq_handler := b, mq_concurrency := n\<rparr>) = mq_consistent q"
  "mq_bag (q\<lparr>mq_paused := b\<rparr>) = mq_bag q" "mq_consistent (q\<lparr>mq_paused := b\<rparr>) = mq_consistent q"
  "mq_bag (q\<lparr>mq_timer := t\<rparr>) = mq_bag q" "mq_consistent (q\<lparr>mq_timer := t\<rparr>) = mq_consistent q"
  "mq_bag (q\<lparr>mq_repeaters := rs\<rparr>) = mq_bag q" "mq_consistent (q\<lparr>mq_repeaters := rs\<rparr>) = mq_consistent q"
  by (simp_all add: mq_bag_def ready_jobs_def mq_consistent_def)

lemma mq_inv_add:
  assumes "mq_inv q A C"
  shows "mq_inv (fst (mq_add now uuid type data opts q))
    (if mq_duplicate opts q then A else add_mset (or_else (jo_jobId opts) uuid) A) C"
proof (cases "mq_duplicate opts q")
  case True
  then have "fst (mq_add now uuid type data opts q) = q"
    by (auto simp: mq_duplicate_def mq_add_def or_else_def split: option.splits)
  then show ?thesis using True assms by simp
next
  case False
  let ?i = "or_else (jo_jobId opts) uuid"
  let ?q = "q\<lparr>mq_known := insert ?i (mq_known q)\<rparr>" and ?job = "new_job now ?i type data opts"
  have "fst (mq_add now uuid type data opts q) = mq_tick now (mq_schedule now ?job ?q)"
    using False by (auto simp: mq_duplicate_def mq_add_def or_else_def Let_def split: option.splits)
  moreover have "mq_inv (mq_tick now (mq_schedule now ?job ?q)) (add_mset ?i A) C"
    using assms mq_schedule_facts [of ?q now ?job]
    by (intro mq_inv_tick) (auto simp: mq_inv_def new_job_def attempt_ok_def)
  ultimately show ?thesis using False by simp
qed

lemma mq_inv_retry:
  assumes "mq_inv q A C"
  shows "mq_inv (fst (mq_retryFailed now i q)) A C"
proof -
  let ?n = "length (takeWhile (\<lambda>job. jb_jobId job \<noteq> i) (mq_failed q))"
  show ?thesis
  proof (cases "?n = length (mq_failed q)")
    case False
    then have n: "?n < length (mq_failed q)"
      by (metis le_neq_implies_less length_takeWhile_le)
    let ?job = "mq_failed q ! ?n" and ?rest = "take ?n (mq_failed q) @ drop (Suc ?n) (mq_failed q)"
    let ?q = "q\<lparr>mq_failed := ?rest\<rparr>" and ?new = "(mq_failed q ! ?n)\<lparr>jb_attempt := 1, jb_runAt := now\<rparr>"
    have bag: "mq_bag q = add_mset ?job (mq_bag ?q)"
      using mset_remove_nth [OF n] by (simp add: mq_bag_def ready_jobs_def ac_simps)
    have cons: "mq_consistent ?q" using assms by (simp add: mq_inv_def mq_consistent_def)
    note s = mq_schedule_facts [OF cons, of now ?new]
    have "mq_inv (mq_tick now (mq_schedule now ?new ?q)) A C"
    proof (rule mq_inv_tick [OF s(1)])
      show "A = C + image_mset jb_jobId (mq_bag (mq_schedule now ?new ?q))"
        using assms bag s(2) by (simp add: mq_inv_def)
      show "\<forall>job\<in>#mq_bag (mq_schedule now ?new ?q). attempt_ok job"
        using assms bag s(2) by (simp add: mq_inv_def attempt_ok_def)
      show "\<forall>job\<in>set (mq_failed (mq_schedule now ?new ?q)). jb_maxAttempts job \<le> jb_attempt job"
        using assms s(3) by (auto simp: mq_inv_def dest: in_set_takeD in_set_dropD)
    qed
    then show ?thesis using False by (simp add: mq_retryFailed_def Let_def)
  qed (use assms in \<open>simp add: mq_retryFailed_def\<close>)
qed

lemma mq_inv_finish:
  assumes "mq_inv q A C" and "job \<in> set (mq_running q)"
  shows "mq_inv (mq_finish now random job failure q) A (if failure = None then add_mset (jb_jobId job) C else C)"
proof -
  let ?r = "q\<lparr>mq_running := remove1 job (mq_running q)\<rparr>"
  have bag: "mq_bag q = add_mset job (mq_bag ?r)"
    using assms(2) by (simp add: mq_bag_def ready_jobs_def)
  have cons: "mq_consistent (?r\<lparr>mq_active := mq_active q - 1\<rparr>)"
    using assms by (auto simp: mq_inv_def mq_consistent_def length_remove1)
  have ok: "attempt_ok job" "\<forall>j\<in>#mq_bag ?r. attempt_ok j" "A = C + image_mset jb_jobId (mq_bag q)"
    "\<forall>j\<in>set (mq_failed q). jb_maxAttempts j \<le> jb_attempt j"
    using assms(1) bag by (simp_all add: mq_inv_def)
  show ?thesis
  proof (cases failure)
    case None
    let ?q = "?r\<lparr>mq_completedCount := mq_completedCount q + 1, mq_known := mq_known q - {jb_jobId job},
      mq_active := mq_active q - 1\<rparr>"
    have b: "mq_bag ?q = mq_bag ?r" by (simp add: mq_bag_def ready_jobs_def)
    have "mq_inv (mq_tick now ?q) A (add_mset (jb_jobId job) C)"
      by (rule mq_inv_tick) (use cons ok bag b in \<open>simp_all add: mq_consistent_def\<close>)
    then show ?thesis using None by (simp add: mq_finish_def)
  next
    case (Some message)
    let ?job = "job\<lparr>jb_lastError := Some message\<rparr>"
    show ?thesis
    proof (cases "jb_attempt job < jb_maxAttempts job")
      case True
      let ?new = "?job\<lparr>jb_attempt := jb_attempt job + 1,
        jb_runAt := now + jobBackoff random (jb_attempt job + 1) (jb_backoffMs job)\<rparr>"
      let ?q = "?r\<lparr>mq_delayed := mq_delayed q @ [?new], mq_active := mq_active q - 1\<rparr>"
      have b: "mq_bag ?q = add_mset ?new (mq_bag ?r)" by (simp add: mq_bag_def ready_jobs_def)
      have "attempt_ok ?new" using True ok(1) by (simp add: attempt_ok_def)
      then have "mq_inv (mq_tick now ?q) A C"
        by (intro mq_inv_tick) (use cons ok bag b in \<open>simp_all add: mq_consistent_def\<close>)
      then show ?thesis using Some True by (simp add: mq_finish_def Let_def)
    next
      case False
      let ?q = "?r\<lparr>mq_failed := mq_failed q @ [?job], mq_known := mq_known q - {jb_jobId job},
        mq_active := mq_active q - 1\<rparr>"
      have b: "mq_bag ?q = add_mset ?job (mq_bag ?r)" by (simp add: mq_bag_def ready_jobs_def)
      have "attempt_ok ?job" using ok(1) by (simp add: attempt_ok_def)
      then have "mq_inv (mq_tick now ?q) A C"
        by (intro mq_inv_tick) (use cons ok bag b False in \<open>auto simp: mq_consistent_def\<close>)
      then show ?thesis using Some False by (simp add: mq_finish_def Let_def)
    qed
  qed
qed

lemma mq_inv_new: "mq_inv mq_new {#} {#}"
  by (simp add: mq_inv_def mq_new_def mq_consistent_def mq_awake_def mq_live_def mq_bag_def ready_jobs_def
      pq.invar_empty pq.contents_empty)

lemma mq_reach_inv: "mq_reach q A C \<Longrightarrow> mq_inv q A C"
proof (induction rule: mq_reach.induct)
  case (reach_process q A C now n)
  then show ?case unfolding mq_process_def by (intro mq_inv_tick) (simp_all add: mq_inv_def)
next
  case (reach_resume q A C now)
  then show ?case unfolding mq_resume_def by (intro mq_inv_tick) (simp_all add: mq_inv_def)
next
  case (reach_timer q A C t now)
  then show ?case unfolding mq_timer_fires_def by (intro mq_inv_tick) (simp_all add: mq_inv_def)
next
  case (reach_close q A C)
  then show ?case
    by (simp add: mq_close_def mq_inv_def mq_consistent_def mq_awake_def mq_live_def mq_bag_def ready_jobs_def)
next
  case (reach_pause q A C)
  then show ?case by (simp add: mq_pause_def mq_inv_def mq_awake_def mq_live_def)
next
  case (reach_repeat q A C now uuid type data everyMs)
  then show ?case by (simp add: mq_repeat_def mq_inv_def mq_awake_def mq_live_def ready_jobs_def)
qed (simp_all add: mq_inv_new mq_inv_add mq_inv_retry mq_inv_finish)

text \<open>C17: Whatever is added, retried, paused, resumed, fails or succeeds, and in any order, no
  accepted job is lost or doubled: each is completed, waiting, delayed, running or a dead
  letter. No job is attempted more often than its limit, every dead letter has used all its
  attempts, the active count is the number of running handlers, and a live queue with a free
  slot has no job ready while one with work left has a timer armed.\<close>

theorem memory_queue_keeps_jobs:
  assumes "mq_reach q A C"
  shows "A = C + image_mset jb_jobId
      (mset (map fst (pq_contents (mq_ready q))) + mset (mq_delayed q) + mset (mq_running q) + mset (mq_failed q)) \<and>
    mq_active q = length (mq_running q) \<and>
    (\<forall>job\<in>set (mq_running q). 1 \<le> jb_attempt job \<and> jb_attempt job \<le> max 1 (jb_maxAttempts job)) \<and>
    (\<forall>job\<in>set (mq_failed q). jb_attempt job = max 1 (jb_maxAttempts job)) \<and>
    (mq_handler q \<and> \<not> mq_paused q \<and> \<not> mq_draining q \<longrightarrow>
       (mq_active q < mq_concurrency q \<longrightarrow> pq_is_empty (mq_ready q)) \<and>
       (mq_delayed q \<noteq> [] \<or> \<not> pq_is_empty (mq_ready q) \<longrightarrow> mq_timer q \<noteq> None))"
proof -
  have inv: "mq_inv q A C" using assms by (rule mq_reach_inv)
  have "A = C + image_mset jb_jobId (mq_bag q)" using inv by (simp add: mq_inv_def)
  moreover have "\<forall>job\<in>set (mq_running q). attempt_ok job" "\<forall>job\<in>set (mq_failed q). attempt_ok job"
    using inv by (auto simp: mq_inv_def mq_bag_def)
  ultimately show ?thesis
    using inv unfolding mq_inv_def mq_bag_def ready_jobs_def mq_awake_def mq_live_def mq_consistent_def
      attempt_ok_def pq_is_empty_contents by force
qed


definition plain_options :: "string option \<Rightarrow> int option \<Rightarrow> job_options" where
  "plain_options i delay =
     \<lparr>jo_jobId = i, jo_delayMs = delay, jo_attempts = None, jo_backoffMs = None, jo_priority = None\<rparr>"

lemma memory_queue_keeps_jobs_witness:
  "let q = fst (mq_add 5 ''u'' ''probe'' (7::nat) (plain_options (Some ''a'') None) (mq_process 0 1 mq_new))
   in mq_active q = length (mq_running q) \<and>
     {#''a''#} = image_mset jb_jobId (mset (map fst (pq_contents (mq_ready q))) + mset (mq_delayed q) +
       mset (mq_running q) + mset (mq_failed q))"
proof -
  let ?s = "mq_process 0 1 mq_new :: nat mqueue"
  let ?q = "fst (mq_add 5 ''u'' ''probe'' (7::nat) (plain_options (Some ''a'') None) ?s)"
  have new: "\<not> mq_duplicate (plain_options (Some ''a'') None) ?s"
    by code_simp
  have "mq_reach ?q {#''a''#} {#}"
    using reach_add [OF reach_process [OF reach_new], of 5 "''u''" "''probe''" "7 :: nat"
        "plain_options (Some ''a'') None" 0 1] new
    by (simp add: plain_options_def or_else_def)
  from memory_queue_keeps_jobs [OF this] show ?thesis unfolding Let_def by simp
qed

section \<open>The order jobs start in\<close>

abbreviation prioritised :: "'d job \<Rightarrow> 'd job \<times> rat" where
  "prioritised job \<equiv> (job, jb_priority job)"

lemma mq_promote_order:
  assumes "pq_invar (mq_ready q)" and "i \<le> length (mq_delayed q)"
  shows "pq_contents (mq_ready (mq_promote now i q)) =
      fold insert_after (map prioritised (rev (filter (\<lambda>job. jb_runAt job \<le> now) (take i (mq_delayed q)))))
        (pq_contents (mq_ready q)) \<and>
    mq_delayed (mq_promote now i q) =
      filter (\<lambda>job. now < jb_runAt job) (take i (mq_delayed q)) @ drop i (mq_delayed q)"
  using assms
proof (induction i arbitrary: q)
  case (Suc i)
  let ?job = "mq_delayed q ! i"
  let ?r = "q\<lparr>mq_delayed := take i (mq_delayed q) @ drop (Suc i) (mq_delayed q)\<rparr>"
  have t: "take (Suc i) (mq_delayed q) = take i (mq_delayed q) @ [?job]"
    "drop i (mq_delayed q) = ?job # drop (Suc i) (mq_delayed q)"
    using Suc.prems(2) by (simp_all add: take_Suc_conv_app_nth Cons_nth_drop_Suc)
  have c: "pq_contents (mq_ready (mq_enqueue_ready ?job ?r)) = insert_after (prioritised ?job) (pq_contents (mq_ready q))"
    using pq.contents_enqueue [OF Suc.prems(1)] by (simp add: mq_enqueue_ready_def)
  have e: "pq_invar (mq_ready (mq_enqueue_ready ?job ?r))"
    using enqueue_ready_facts(1) [of ?r] Suc.prems(1) by simp
  have d: "mq_delayed (mq_enqueue_ready ?job ?r) = take i (mq_delayed q) @ drop (Suc i) (mq_delayed q)"
    by (simp add: mq_enqueue_ready_def)
  show ?case
  proof (cases "jb_runAt ?job \<le> now")
    case True
    then show ?thesis
      using Suc.IH [of "mq_enqueue_ready ?job ?r"] e c d t Suc.prems(2) by (simp add: Let_def)
  next
    case False
    then show ?thesis using Suc.IH [of q] t Suc.prems by (simp add: Let_def)
  qed
qed simp

text \<open>A tick of a live queue moves exactly the delayed jobs that are due, the one delayed last
  first, into the queue order (lower priority value first, then first come first served), and
  starts its first jobs, as many as there are free slots; the others stay in that order and
  the jobs not due stay delayed.\<close>

theorem memory_queue_tick_order:
  assumes "mq_reach q A C" and "mq_handler q" and "\<not> mq_paused q" and "\<not> mq_draining q"
  shows "let due = filter (\<lambda>job. jb_runAt job \<le> now) (mq_delayed q);
             order = fold insert_after (map (\<lambda>job. (job, jb_priority job)) (rev due)) (pq_contents (mq_ready q));
             free = mq_concurrency q - mq_active q
    in mq_running (mq_tick now q) = mq_running q @ take free (map fst order) \<and>
       map fst (pq_contents (mq_ready (mq_tick now q))) = drop free (map fst order) \<and>
       mq_delayed (mq_tick now q) = filter (\<lambda>job. now < jb_runAt job) (mq_delayed q)"
proof -
  have inv: "pq_invar (mq_ready q)" using mq_reach_inv [OF assms(1)] by (simp add: mq_inv_def mq_consistent_def)
  let ?p = "mq_promoteDelayed now q"
  note p = mq_promote_facts [OF inv order_refl, of now] and o = mq_promote_order [OF inv order_refl, of now]
  have t: "mq_tick now q = mq_arm now (mq_dispatch ?p)" using assms(2-4) by (simp add: mq_tick_def)
  have "pq_invar (mq_ready ?p)" "mq_handler ?p" using p assms(2) by (simp_all add: mq_promoteDelayed_def same_control_def)
  note d = mq_dispatch_spec [OF this]
  let ?due = "filter (\<lambda>job. jb_runAt job \<le> now) (mq_delayed q)"
  let ?order = "fold insert_after (map (\<lambda>job. (job, jb_priority job)) (rev ?due)) (pq_contents (mq_ready q))"
  let ?free = "mq_concurrency q - mq_active q"
  have cut: "take (min n (length xs)) xs = take n xs" "drop (min n (length xs)) xs = drop n xs"
    for n and xs :: "'a job list" by (cases "n \<le> length xs"; simp)+
  have r: "ready_jobs ?p = map fst ?order" "mq_delayed ?p = filter (\<lambda>job. now < jb_runAt job) (mq_delayed q)"
    using o by (simp_all add: ready_jobs_def mq_promoteDelayed_def)
  have c: "mq_concurrency ?p - mq_active ?p = ?free" "mq_running ?p = mq_running q"
    using p by (simp_all add: mq_promoteDelayed_def same_control_def)
  have "mq_running (mq_tick now q) = mq_running q @ take ?free (map fst ?order)"
    using d unfolding t mq_arm_facts r(1) c cut by blast
  moreover have "ready_jobs (mq_tick now q) = drop ?free (map fst ?order)"
    using d unfolding t mq_arm_facts r(1) c cut by blast
  moreover have "mq_delayed (mq_tick now q) = filter (\<lambda>job. now < jb_runAt job) (mq_delayed q)"
    using d unfolding t mq_arm_facts r(2) by blast
  ultimately show ?thesis unfolding Let_def ready_jobs_def by blast
qed

text \<open>Two delayed jobs of one priority that come due together start in the reverse of the order
  they were added in.\<close>

lemma memory_queue_tick_order_witness:
  "map jb_jobId (mq_running (mq_tick 25
     (fst (mq_add 0 ''u'' ''t'' (2::nat) (plain_options (Some ''b'') (Some 10))
        (fst (mq_add 0 ''u'' ''t'' 1 (plain_options (Some ''a'') (Some 10)) (mq_process 0 2 mq_new))))))) =
     [''b'', ''a'']"
proof -
  let ?s = "mq_process 0 2 mq_new :: nat mqueue"
  let ?t = "fst (mq_add 0 ''u'' ''t'' (1::nat) (plain_options (Some ''a'') (Some 10)) ?s)"
  let ?q = "fst (mq_add 0 ''u'' ''t'' (2::nat) (plain_options (Some ''b'') (Some 10)) ?t)"
  have r: "\<exists>A C. mq_reach ?q A C" by (intro exI) (rule reach_add reach_process reach_new)+
  have live: "mq_handler ?q" "\<not> mq_paused ?q" "\<not> mq_draining ?q" by code_simp+
  let ?order = "fold insert_after (map (\<lambda>job. (job, jb_priority job))
      (rev (filter (\<lambda>job. jb_runAt job \<le> 25) (mq_delayed ?q)))) (pq_contents (mq_ready ?q))"
  have "mq_running (mq_tick 25 ?q) = mq_running ?q @ take (mq_concurrency ?q - mq_active ?q) (map fst ?order)"
    using r live memory_queue_tick_order [of ?q _ _ 25] unfolding Let_def by blast
  moreover have "map jb_jobId (mq_running ?q @ take (mq_concurrency ?q - mq_active ?q) (map fst ?order)) = [''b'', ''a'']"
    by code_simp
  ultimately show ?thesis by simp
qed

lemma jobBackoff_bounds:
  assumes "0 \<le> r" "r < 1" "0 \<le> base"
  shows "js_round (min 300000 (base * 2 ^ nat (n - 1)) / 2) \<le> jobBackoff r n base"
    "jobBackoff r n base \<le> js_round (min 300000 (base * 2 ^ nat (n - 1)))"
proof -
  let ?e = "min 300000 (base * 2 ^ nat (n - 1)) :: rat"
  have e: "0 \<le> ?e" using assms(3) by simp
  have m: "0 \<le> r * (?e / 2)" "r * (?e / 2) \<le> 1 * (?e / 2)"
    using mult_nonneg_nonneg [of r "?e / 2"] mult_right_mono [of r 1 "?e / 2"] assms(1,2) e by linarith+
  show "js_round (?e / 2) \<le> jobBackoff r n base"
    unfolding jobBackoff_def Let_def using m by (intro js_round_mono) linarith
  have "e / 2 + r * (e / 2) \<le> e" if "r * (e / 2) \<le> 1 * (e / 2)" for e :: rat
    using that by (simp add: field_simps)
  from this [OF m(2)] have "?e / 2 + r * (?e / 2) \<le> ?e" .
  then show "jobBackoff r n base \<le> js_round ?e"
    unfolding jobBackoff_def Let_def by (rule js_round_mono)
qed

text \<open>The id of a dead letter is forgotten and is not remembered again when the job is retried:
  adding the same id while the retried job waits queues it a second time.\<close>

lemma retried_job_not_deduplicated:
  "let once = \<lparr>jo_jobId = Some ''a'', jo_delayMs = None, jo_attempts = Some 1, jo_backoffMs = None,
                jo_priority = None\<rparr>;
       q1 = fst (mq_add 0 ''u'' ''t'' (1::nat) once (mq_process 0 1 mq_new));
       q2 = mq_pause (mq_finish 5 0 (hd (mq_running q1)) (Some ''boom'') q1);
       q3 = fst (mq_retryFailed 6 ''a'' q2)
   in map jb_jobId (ready_jobs (fst (mq_add 7 ''u'' ''t'' 1 once q3))) = [''a'', ''a'']"
  by code_simp

end
