(* ===== verification/TextAnalysis.thy ===== *)
theory TextAnalysis
  imports JsString
begin

text \<open>
  Text analysis (\<open>packages/algorithms/src/text.ts\<close>): normalisation, tokens, the suffix
  stripper, slugs and the edit distance. Characters are those of Latin-1; \<open>NFKD\<close> is written
  out for them, but for the four whose decomposition leaves Latin-1 (the micro sign and the
  fractions), which stay as they are. The distance is shown to be the least cost of an edit
  script.
\<close>

definition STOP_WORDS :: "string list" where
  "STOP_WORDS =
     [''a'', ''an'', ''and'', ''are'', ''as'', ''at'', ''be'', ''been'', ''but'', ''by'', ''for'', ''from'',
      ''has'', ''have'', ''he'', ''in'', ''into'', ''is'', ''it'', ''its'', ''of'', ''on'', ''or'', ''she'',
      ''that'', ''the'', ''their'', ''there'', ''these'', ''they'', ''this'', ''to'', ''was'', ''were'',
      ''will'', ''with'', ''you'', ''your'']"

section \<open>Normalisation\<close>

text \<open>\<open>NFKD\<close> followed by the removal of the combining marks.\<close>

definition base_char :: "char \<Rightarrow> char" where
  "base_char c =
     (let n = code c in
      if n < 160 then c
      else if n \<in> {160, 168, 175, 180, 184} then CHR '' ''
      else if n \<in> {192..197} then CHR ''A'' else if n = 199 then CHR ''C''
      else if n \<in> {200..203} then CHR ''E'' else if n \<in> {204..207} then CHR ''I''
      else if n = 209 then CHR ''N'' else if n \<in> {210..214} then CHR ''O''
      else if n \<in> {217..220} then CHR ''U'' else if n = 221 then CHR ''Y''
      else if n = 170 \<or> n \<in> {224..229} then CHR ''a'' else if n = 231 then CHR ''c''
      else if n \<in> {232..235} then CHR ''e'' else if n \<in> {236..239} then CHR ''i''
      else if n = 241 then CHR ''n'' else if n = 186 \<or> n \<in> {242..246} then CHR ''o''
      else if n \<in> {249..252} then CHR ''u'' else if n = 253 \<or> n = 255 then CHR ''y''
      else if n = 178 then CHR ''2'' else if n = 179 then CHR ''3'' else if n = 185 then CHR ''1''
      else c)"

definition lower_latin :: "char \<Rightarrow> char" where
  "lower_latin c = (if 192 \<le> code c \<and> code c \<le> 222 \<and> code c \<noteq> 215 then char_of (code c + 32) else lower_char c)"

definition normalize :: "string \<Rightarrow> string" where
  "normalize input = trim (map lower_latin (map base_char input))"

definition is_alnum :: "char \<Rightarrow> bool" where
  "is_alnum c \<longleftrightarrow> is_lower c \<or> is_digit c"

text \<open>\<open>replace(/[^...]+/g, sep)\<close>: every run of characters outside the class becomes one \<open>sep\<close>.\<close>

function collapse :: "(char \<Rightarrow> bool) \<Rightarrow> char \<Rightarrow> string \<Rightarrow> string" where
  "collapse ok sep [] = []"
| "collapse ok sep (c # cs) =
     (if ok c then c # collapse ok sep cs
      else sep # collapse ok sep (dropWhile (\<lambda>x. \<not> ok x) cs))"
  by pat_completeness auto

termination collapse
  by (relation "measure (\<lambda>(_, _, s). length s)") (auto simp: le_imp_less_Suc length_dropWhile_le)

definition strip_ends :: "(char \<Rightarrow> bool) \<Rightarrow> string \<Rightarrow> string" where
  "strip_ends P s = rev (dropWhile P (rev (dropWhile P s)))"

section \<open>Tokens\<close>

definition token_char :: "char \<Rightarrow> bool" where
  "token_char c \<longleftrightarrow> is_alnum c \<or> c \<in> set ''.+#-''"

definition tokenize :: "string \<Rightarrow> string list" where
  "tokenize input =
     (let cleaned = collapse token_char (CHR '' '') (normalize input)
      in filter (\<lambda>token. token \<noteq> []) (map (strip_ends (\<lambda>c. c \<in> set ''.-'')) (split_char (CHR '' '') cleaned)))"

definition protected_terms :: "string list" where
  "protected_terms =
     [''https'', ''dns'', ''css'', ''js'', ''rss'', ''sms'', ''aws'', ''gps'', ''ios'', ''os'', ''tls'', ''ssl'', ''xss'']"

definition drop_last :: "nat \<Rightarrow> string \<Rightarrow> string" where
  "drop_last n s = take (length s - n) s"

definition stem :: "string \<Rightarrow> string" where
  "stem token =
     (if length token \<le> 3 then token
      else if token \<in> set protected_terms then token
      else if ends_with token ''ies'' \<and> 4 < length token then drop_last 3 token @ ''y''
      else if ends_with token ''sses'' then drop_last 2 token
      else if ends_with token ''ss'' then token
      else if ends_with token ''s'' \<and> \<not> ends_with token ''us'' \<and> \<not> ends_with token ''sis''
      then drop_last 1 token
      else if ends_with token ''ing'' \<and> 5 < length token then drop_last 3 token
      else if ends_with token ''ed'' \<and> 4 < length token then drop_last 2 token
      else token)"

record analyze_options =
  ao_removeStopWords :: bool
  ao_applyStemming :: bool
  ao_minLength :: nat

definition analyze_defaults :: analyze_options where
  "analyze_defaults = \<lparr>ao_removeStopWords = True, ao_applyStemming = True, ao_minLength = 2\<rparr>"

fun analyze_tokens :: "analyze_options \<Rightarrow> string list \<Rightarrow> string list" where
  "analyze_tokens opts [] = []"
| "analyze_tokens opts (token # tokens) =
     (if length token < ao_minLength opts then analyze_tokens opts tokens
      else if ao_removeStopWords opts \<and> token \<in> set STOP_WORDS then analyze_tokens opts tokens
      else (if ao_applyStemming opts then stem token else token) # analyze_tokens opts tokens)"

definition analyze :: "string \<Rightarrow> analyze_options \<Rightarrow> string list" where
  "analyze input opts = analyze_tokens opts (tokenize input)"

text \<open>A \<open>Set\<close> of a list keeps first occurrences.\<close>

definition set_of_list :: "'a list \<Rightarrow> 'a list" where
  "set_of_list xs = rev (remdups (rev xs))"

definition analyzeUnique :: "string \<Rightarrow> analyze_options \<Rightarrow> string list" where
  "analyzeUnique input opts = set_of_list (analyze input opts)"

section \<open>Slugs\<close>

definition slugify :: "string \<Rightarrow> string" where
  "slugify input =
     (let collapsed = collapse is_alnum (CHR ''-'') (normalize input);
          stripped = take 80 (strip_ends (\<lambda>c. c = CHR ''-'') collapsed);
          base = rev (dropWhile (\<lambda>c. c = CHR ''-'') (rev stripped))
      in if base \<noteq> [] then base else ''untitled'')"

section \<open>Edit distance\<close>

text \<open>A cell of the current row: insertion, deletion or substitution. The fold runs the inner
  loop over \<open>i\<close>, the recursion the outer one over the characters of the target.\<close>

definition ed_cell :: "string \<Rightarrow> char \<Rightarrow> nat list \<Rightarrow> nat \<Rightarrow> nat list \<times> nat \<Rightarrow> nat list \<times> nat" where
  "ed_cell source t previous i = (\<lambda>(current, rowMin).
     let cost = (if source ! (i - 1) = t then 0 else 1);
         v = min (min (current ! (i - 1) + 1) (previous ! i + 1)) (previous ! (i - 1) + cost)
     in (current @ [v], if v < rowMin then v else rowMin))"

definition ed_row :: "string \<Rightarrow> char \<Rightarrow> nat list \<Rightarrow> nat \<Rightarrow> nat list \<times> nat" where
  "ed_row source t previous j = fold (ed_cell source t previous) [1..<Suc (length source)] ([j], j)"

fun ed_rows :: "string \<Rightarrow> nat option \<Rightarrow> nat \<Rightarrow> string \<Rightarrow> nat list \<Rightarrow> nat" where
  "ed_rows source maxDistance j [] previous = previous ! length source"
| "ed_rows source maxDistance j (t # ts) previous =
     (let (current, rowMin) = ed_row source t previous j in
      case maxDistance of
        Some m \<Rightarrow> if m < rowMin then m + 1 else ed_rows source maxDistance (j + 1) ts current
      | None \<Rightarrow> ed_rows source maxDistance (j + 1) ts current)"

definition exceeds :: "nat \<Rightarrow> nat option \<Rightarrow> bool" where
  "exceeds n maxDistance = (case maxDistance of Some m \<Rightarrow> m < n | None \<Rightarrow> False)"

text \<open>None is the default \<open>Infinity\<close>.\<close>

definition editDistance :: "string \<Rightarrow> string \<Rightarrow> nat option \<Rightarrow> nat" where
  "editDistance a b maxDistance =
     (if a = b then 0
      else if a = [] then length b
      else if b = [] then length a
      else if exceeds (length a - length b + (length b - length a)) maxDistance then the maxDistance + 1
      else
        let (source, target) = (if length b < length a then (b, a) else (a, b))
        in ed_rows source maxDistance 1 target [0..<length source + 1])"

definition similarityRatio :: "string \<Rightarrow> string \<Rightarrow> rat" where
  "similarityRatio a b =
     (let longest = max (length a) (length b) in
      if longest = 0 then 1 else 1 - of_nat (editDistance a b None) / of_nat longest)"

section \<open>Slugs are stable\<close>

abbreviation single_dashes :: "string \<Rightarrow> bool" where
  "single_dashes s \<equiv> successively (\<lambda>x y. \<not> (x = CHR ''-'' \<and> y = CHR ''-'')) s"

definition is_slug :: "string \<Rightarrow> bool" where
  "is_slug s \<longleftrightarrow> s \<noteq> [] \<and> length s \<le> 80 \<and> (\<forall>c\<in>set s. is_alnum c \<or> c = CHR ''-'') \<and>
     hd s \<noteq> CHR ''-'' \<and> last s \<noteq> CHR ''-'' \<and> single_dashes s"

lemma dash_not_alnum [simp]: "\<not> is_alnum CHR ''-''"
  by (simp add: is_alnum_def is_lower_def is_digit_def)

lemma collapse_set: "c \<in> set (collapse ok sep s) \<Longrightarrow> ok c \<or> c = sep"
  by (induction ok sep s rule: collapse.induct) (auto split: if_splits)

lemma collapse_hd:
  "collapse ok sep (dropWhile (\<lambda>x. \<not> ok x) s) \<noteq> [] \<Longrightarrow> ok (hd (collapse ok sep (dropWhile (\<lambda>x. \<not> ok x) s)))"
  by (induction s) auto

lemma collapse_single: "\<not> ok sep \<Longrightarrow> successively (\<lambda>x y. \<not> (x = sep \<and> y = sep)) (collapse ok sep s)"
proof (induction ok sep s rule: collapse.induct)
  case (2 ok sep c cs)
  show ?case
  proof (cases "ok c")
    case True
    then show ?thesis using 2 by (auto simp: successively_Cons)
  next
    case False
    then show ?thesis using 2 collapse_hd [of ok sep cs] by (auto simp: successively_Cons)
  qed
qed simp

lemma collapse_id:
  "\<forall>c\<in>set s. ok c \<or> c = sep \<Longrightarrow> \<not> ok sep \<Longrightarrow> successively (\<lambda>x y. \<not> (x = sep \<and> y = sep)) s \<Longrightarrow>
    collapse ok sep s = s"
proof (induction ok sep s rule: collapse.induct)
  case (2 ok sep c cs)
  show ?case
  proof (cases "ok c")
    case True
    then show ?thesis using 2 by (auto simp: successively_Cons)
  next
    case False
    then have "dropWhile (\<lambda>x. \<not> ok x) cs = cs"
      using "2.prems" by (cases cs) (auto simp: successively_Cons)
    then show ?thesis using False 2 by (auto simp: successively_Cons)
  qed
qed simp

lemma single_dropWhile: "single_dashes s \<Longrightarrow> single_dashes (dropWhile P s)"
  by (metis successively_append_iff takeWhile_dropWhile_id)

lemma single_take: "single_dashes s \<Longrightarrow> single_dashes (take n s)"
  by (metis successively_append_iff append_take_drop_id)

lemma single_rev: "single_dashes (rev s) \<longleftrightarrow> single_dashes s"
  by (simp only: successively_rev conj_commute)

definition drop_end :: "(char \<Rightarrow> bool) \<Rightarrow> string \<Rightarrow> string" where
  "drop_end P s = rev (dropWhile P (rev s))"

lemma drop_end_Nil: "drop_end P [] = []"
  by (simp add: drop_end_def)

lemma drop_end_prefix: "\<exists>t. s = drop_end P s @ t"
  unfolding drop_end_def by (metis rev_append rev_rev_ident takeWhile_dropWhile_id)

lemma drop_end_facts:
  "drop_end P s \<noteq> [] \<Longrightarrow> hd (drop_end P s) = hd s" "drop_end P s \<noteq> [] \<Longrightarrow> \<not> P (last (drop_end P s))"
  "set (drop_end P s) \<subseteq> set s" "length (drop_end P s) \<le> length s"
  "single_dashes s \<Longrightarrow> single_dashes (drop_end P s)"
proof -
  obtain t where t: "s = drop_end P s @ t" using drop_end_prefix by blast
  show "drop_end P s \<noteq> [] \<Longrightarrow> hd (drop_end P s) = hd s" by (subst (2) t) simp
  show "drop_end P s \<noteq> [] \<Longrightarrow> \<not> P (last (drop_end P s))"
    by (simp add: drop_end_def last_rev hd_dropWhile)
  show "set (drop_end P s) \<subseteq> set s" by (subst (2) t) simp
  show "length (drop_end P s) \<le> length s" by (subst (2) t) simp
  show "single_dashes s \<Longrightarrow> single_dashes (drop_end P s)"
    unfolding drop_end_def by (simp only: single_rev single_dropWhile)
qed

lemma drop_end_id: "s \<noteq> [] \<Longrightarrow> \<not> P (last s) \<Longrightarrow> drop_end P s = s"
  unfolding drop_end_def by (cases s rule: rev_cases) simp_all

lemma slugify_alt:
  "slugify input =
     (let base = drop_end (\<lambda>c. c = CHR ''-'')
        (take 80 (drop_end (\<lambda>c. c = CHR ''-'') (dropWhile (\<lambda>c. c = CHR ''-'')
          (collapse is_alnum (CHR ''-'') (normalize input)))))
      in if base \<noteq> [] then base else ''untitled'')"
  by (simp add: slugify_def strip_ends_def drop_end_def Let_def)

lemma slugify_is_slug: "is_slug (slugify input)"
proof -
  let ?P = "\<lambda>c. c = CHR ''-''"
  define x where "x = collapse is_alnum (CHR ''-'') (normalize input)"
  define y where "y = drop_end ?P (dropWhile ?P x)"
  define base where "base = drop_end ?P (take 80 y)"
  have s: "slugify input = (if base \<noteq> [] then base else ''untitled'')"
    by (simp add: slugify_alt base_def y_def x_def Let_def)
  have "single_dashes x" unfolding x_def by (rule collapse_single) simp
  then have single: "single_dashes base"
    unfolding base_def y_def by (intro drop_end_facts(5) single_take single_dropWhile)
  have sub: "set base \<subseteq> set x"
    using drop_end_facts(3) [of ?P "take 80 y"] drop_end_facts(3) [of ?P "dropWhile ?P x"]
      set_take_subset [of 80 y] set_dropWhileD [of _ ?P x]
    unfolding base_def y_def by blast
  have "length base \<le> 80"
    using drop_end_facts(4) [of ?P "take 80 y"] unfolding base_def by simp
  moreover have "hd base \<noteq> CHR ''-''" if b: "base \<noteq> []"
  proof -
    have yn: "y \<noteq> []" using b unfolding base_def by (metis drop_end_Nil take_Nil)
    have dn: "dropWhile ?P x \<noteq> []" using yn unfolding y_def by (metis drop_end_Nil)
    have "hd base = hd y" using b drop_end_facts(1) [of ?P "take 80 y"] yn by (simp add: base_def hd_take)
    also have "\<dots> = hd (dropWhile ?P x)" using yn drop_end_facts(1) [of ?P "dropWhile ?P x"] by (simp add: y_def)
    finally show ?thesis using hd_dropWhile [OF dn] by simp
  qed
  moreover have "last base \<noteq> CHR ''-''" if "base \<noteq> []"
    using that drop_end_facts(2) [of ?P "take 80 y"] by (simp add: base_def)
  moreover have "is_alnum c \<or> c = CHR ''-''" if "c \<in> set base" for c
    using that sub collapse_set [of c is_alnum "CHR ''-''" "normalize input"] by (auto simp: x_def)
  ultimately have "is_slug base" if "base \<noteq> []"
    using that single unfolding is_slug_def by simp
  moreover have "is_slug ''untitled''"
    by (simp add: is_slug_def is_alnum_def is_lower_def)
  ultimately show ?thesis by (simp add: s)
qed

lemma normalize_slug:
  assumes "\<forall>c\<in>set s. is_alnum c \<or> c = CHR ''-''"
  shows "normalize s = s"
proof -
  have c: "base_char c = c \<and> lower_latin c = c \<and> \<not> is_space c" if "c \<in> set s" for c
  proof -
    have "code c < 160 \<and> \<not> is_upper c \<and> \<not> is_space c"
      using assms that
      by (auto simp: is_alnum_def is_lower_def is_digit_def is_upper_def is_space_def)
    then show ?thesis by (simp add: base_char_def lower_latin_def lower_char_def Let_def)
  qed
  then have "map base_char s = s" "map lower_latin s = s" by (simp_all add: map_idI)
  then show ?thesis using c trim_id [of s] by (simp add: normalize_def)
qed

lemma slugify_id:
  assumes "is_slug s" shows "slugify s = s"
proof -
  let ?P = "\<lambda>c. c = CHR ''-''"
  have n: "normalize s = s" using assms by (intro normalize_slug) (simp add: is_slug_def)
  have c: "collapse is_alnum (CHR ''-'') s = s" using assms by (intro collapse_id) (simp_all add: is_slug_def)
  have d: "dropWhile ?P s = s" using assms by (cases s) (simp_all add: is_slug_def)
  have e: "drop_end ?P s = s" using assms by (intro drop_end_id) (simp_all add: is_slug_def)
  show ?thesis using assms unfolding slugify_alt n c d e by (simp add: is_slug_def e Let_def)
qed

text \<open>Whatever the text, its slug is a canonical identifier: not empty, at most 80 lower-case
  letters, digits and single dashes, with no dash at either end; and the slug of a slug is
  itself, so that a stored identifier is never changed by being slugified again.\<close>

theorem slugify_canonical_stable:
  "is_slug (slugify input) \<and> slugify (slugify input) = slugify input"
  using slugify_is_slug slugify_id by blast

end
