(* ===== verification/Trie.thy ===== *)
theory Trie
  imports JsString
begin

text \<open>
  The autocomplete trie (\<open>packages/algorithms/src/trie.ts\<close>). A node owns its children, so the
  graph of objects is a tree and is modelled as a datatype. Limits are natural numbers.
\<close>

record 'p tentry =
  te_term :: string
  te_score :: rat
  te_payload :: "'p option"

datatype 'p tnode =
  TNode (tn_children: "(char \<times> 'p tnode) list") (tn_terminal: "'p tentry option") (tn_best: "'p tentry list")

definition createNode :: "'p tnode" where
  "createNode = TNode [] None []"

record 'p trie =
  tr_root :: "'p tnode"
  tr_count :: nat
  tr_max :: nat

definition trie_new :: "nat option \<Rightarrow> 'p trie" where
  "trie_new maxSuggestionsPerNode =
     \<lparr>tr_root = createNode, tr_count = 0, tr_max = (case maxSuggestionsPerNode of Some n \<Rightarrow> n | None \<Rightarrow> 10)\<rparr>"

definition trie_key :: "string \<Rightarrow> string" where
  "trie_key term = trim (toLowerCase term)"

text \<open>Insertion into a cached list: an entry of the same term is taken out, then the new entry
  goes before the first one of lower score; the list is cut to its bound.\<close>

definition without_term :: "string \<Rightarrow> 'p tentry list \<Rightarrow> 'p tentry list" where
  "without_term term best =
     takeWhile (\<lambda>e. te_term e \<noteq> term) best @ tl (dropWhile (\<lambda>e. te_term e \<noteq> term) best)"

definition mergeBest :: "nat \<Rightarrow> 'p tentry \<Rightarrow> 'p tentry list \<Rightarrow> 'p tentry list" where
  "mergeBest max_n entry best =
     (let best = without_term (te_term entry) best;
          index = length (takeWhile (\<lambda>e. \<not> te_score e < te_score entry) best)
      in if index < max_n
         then let best = take index best @ entry # drop index best
              in if max_n < length best then butlast best else best
         else best)"

text \<open>The walk down the key, which makes the missing nodes, and the refresh of every node on
  the path.\<close>

fun insert_path :: "nat \<Rightarrow> string \<Rightarrow> 'p tentry \<Rightarrow> 'p tnode \<Rightarrow> 'p tnode" where
  "insert_path n [] entry (TNode cs t best) = TNode cs (Some entry) (mergeBest n entry best)"
| "insert_path n (c # key) entry (TNode cs t best) =
     (let child = (case jm_get cs c of Some child \<Rightarrow> child | None \<Rightarrow> createNode)
      in TNode (jm_set c (insert_path n key entry child) cs) t (mergeBest n entry best))"

fun descend :: "string \<Rightarrow> 'p tnode \<Rightarrow> 'p tnode option" where
  "descend [] node = Some node"
| "descend (c # key) node =
     (case jm_get (tn_children node) c of None \<Rightarrow> None | Some child \<Rightarrow> descend key child)"

definition trie_get :: "string \<Rightarrow> 'p trie \<Rightarrow> 'p tentry option" where
  "trie_get term t = (case descend (trie_key term) (tr_root t) of None \<Rightarrow> None | Some node \<Rightarrow> tn_terminal node)"

definition trie_has :: "string \<Rightarrow> 'p trie \<Rightarrow> bool" where
  "trie_has term t \<longleftrightarrow> trie_get term t \<noteq> None"

definition trie_insert :: "'p tentry \<Rightarrow> 'p trie \<Rightarrow> 'p trie" where
  "trie_insert entry t =
     (let key = trie_key (te_term entry) in
      if key = [] then t
      else
        let fresh = (case descend key (tr_root t) of None \<Rightarrow> True | Some node \<Rightarrow> tn_terminal node = None)
        in t\<lparr>tr_root := insert_path (tr_max t) key entry (tr_root t),
             tr_count := (if fresh then tr_count t + 1 else tr_count t)\<rparr>)"

definition trie_insertAll :: "'p tentry list \<Rightarrow> 'p trie \<Rightarrow> 'p trie" where
  "trie_insertAll entries t = fold trie_insert entries t"

definition trie_suggest :: "string \<Rightarrow> nat \<Rightarrow> 'p trie \<Rightarrow> 'p tentry list" where
  "trie_suggest prefix limit t =
     (let key = trie_key prefix in
      if key = [] then take limit (tn_best (tr_root t))
      else case descend key (tr_root t) of
             Some node \<Rightarrow> take limit (tn_best node)
           | None \<Rightarrow> [])"

text \<open>The depth-first walk; the top of the stack is the last of the list in the code and the
  head here, so the children are pushed in reverse.\<close>

fun tree_size :: "'p tnode \<Rightarrow> nat" where
  "tree_size (TNode cs t best) = Suc (sum_list (map (\<lambda>(c, n). tree_size n) cs))"

function collect_loop :: "nat \<Rightarrow> 'p tnode list \<Rightarrow> 'p tentry list \<Rightarrow> 'p tentry list" where
  "collect_loop limit [] out = out"
| "collect_loop limit (TNode cs t best # stack) out =
     (if limit \<le> length out then out
      else collect_loop limit (rev (map snd cs) @ stack) (case t of Some e \<Rightarrow> out @ [e] | None \<Rightarrow> out))"
  by pat_completeness auto

lemma sum_list_snd: "sum_list (map (f \<circ> snd) cs) = sum_list (map (\<lambda>(c, n). f n) cs)" for f :: "'a \<Rightarrow> nat"
  by (simp add: comp_def case_prod_unfold)

termination collect_loop
  by (relation "measure (\<lambda>(_, stack, _). sum_list (map tree_size stack))")
    (auto simp: rev_map [symmetric] sum_list_rev sum_list_snd)

definition trie_collect :: "string \<Rightarrow> nat \<Rightarrow> 'p trie \<Rightarrow> 'p tentry list" where
  "trie_collect prefix limit t =
     (case descend (trie_key prefix) (tr_root t) of
        None \<Rightarrow> []
      | Some node \<Rightarrow> sort_key (\<lambda>e. - te_score e) (collect_loop limit [node] []))"

definition trie_clear :: "'p trie \<Rightarrow> 'p trie" where
  "trie_clear t = t\<lparr>tr_root := TNode [] None [], tr_count := 0\<rparr>"

section \<open>What a node caches\<close>

text \<open>A node seen from outside: its entry and its cached list; a missing node has neither.\<close>

definition seen :: "string \<Rightarrow> 'p tnode \<Rightarrow> 'p tentry option \<times> 'p tentry list" where
  "seen p node = (case descend p node of None \<Rightarrow> (None, []) | Some n \<Rightarrow> (tn_terminal n, tn_best n))"

lemma seen_create: "seen p createNode = (None, [])"
  by (cases p) (simp_all add: seen_def createNode_def)

lemma seen_child:
  "seen (c # p) (TNode cs t best) = seen p (case jm_get cs c of Some child \<Rightarrow> child | None \<Rightarrow> createNode)"
  by (cases "jm_get cs c") (simp_all add: seen_create, simp_all add: seen_def)

lemma seen_insert:
  "seen p (insert_path n key entry node) =
     (if starts_with key p
      then (if p = key then Some entry else fst (seen p node), mergeBest n entry (snd (seen p node)))
      else seen p node)"
proof (induction key arbitrary: p node)
  case Nil
  then show ?case by (cases node; cases p) (auto simp: seen_def split: option.splits)
next
  case (Cons c key)
  obtain cs t best where node: "node = TNode cs t best" by (cases node)
  let ?child = "case jm_get cs c of Some child \<Rightarrow> child | None \<Rightarrow> createNode"
  show ?case
  proof (cases p)
    case Nil
    then show ?thesis by (simp add: node seen_def Let_def)
  next
    case p: (Cons d q)
    have "seen p (insert_path n (c # key) entry node) =
        seen q (case jm_get (jm_set c (insert_path n key entry ?child) cs) d of Some child \<Rightarrow> child | None \<Rightarrow> createNode)"
      by (simp add: p node seen_child Let_def)
    then show ?thesis
      using Cons.IH [of q ?child] by (auto simp: p node seen_child js_map)
  qed
qed

text \<open>Entries in the order of a cached list: by falling score, first come first.\<close>

definition ranked :: "'p tentry list \<Rightarrow> 'p tentry list" where
  "ranked es = sort_key (\<lambda>e. - te_score e) es"

lemma ranked_snoc:
  "ranked (es @ [e]) =
     takeWhile (\<lambda>x. \<not> te_score x < te_score e) (ranked es) @ e #
     dropWhile (\<lambda>x. \<not> te_score x < te_score e) (ranked es)"
  using sort_key_snoc [of "\<lambda>e. - te_score e" es e] by (simp add: ranked_def not_less)

lemma without_term_id: "\<forall>e\<in>set best. te_term e \<noteq> term \<Longrightarrow> without_term term best = best"
  unfolding without_term_def
  by (subst takeWhile_eq_all_conv [THEN iffD2], blast, subst dropWhile_eq_Nil_conv [THEN iffD2], blast) simp

lemma takeWhile_take: "takeWhile P (take n xs) = take n (takeWhile P xs)"
proof (induction xs arbitrary: n)
  case (Cons x xs)
  then show ?case by (cases n) simp_all
qed simp

lemma mergeBest_take:
  assumes "\<forall>e\<in>set xs. te_term e \<noteq> te_term entry"
  shows "mergeBest n entry (take n xs) =
    take n (takeWhile (\<lambda>x. \<not> te_score x < te_score entry) xs @ entry #
            dropWhile (\<lambda>x. \<not> te_score x < te_score entry) xs)"
proof -
  let ?P = "\<lambda>x. \<not> te_score x < te_score entry"
  define i where "i = length (takeWhile ?P xs)"
  have w: "without_term (te_term entry) (take n xs) = take n xs"
    using assms by (intro without_term_id) (auto dest: in_set_takeD)
  have i: "length (takeWhile ?P (take n xs)) = min i n" by (simp add: takeWhile_take i_def)
  have split: "takeWhile ?P xs = take i xs" "dropWhile ?P xs = drop i xs"
    unfolding i_def by (rule takeWhile_eq_take, rule dropWhile_eq_drop)
  have le: "i \<le> length xs" by (simp add: i_def length_takeWhile_le)
  show ?thesis
  proof (cases "i < n")
    case True
    let ?b = "take i (take n xs) @ entry # drop i (take n xs)"
    have m: "mergeBest n entry (take n xs) = (if n < length ?b then butlast ?b else ?b)"
      using True by (simp add: mergeBest_def w i Let_def min_def)
    have "take n (take i xs @ entry # drop i xs) = take i xs @ entry # take (n - Suc i) (drop i xs)"
      using True le by (simp add: take_Cons')
    moreover have "?b = take i xs @ entry # take (n - i) (drop i xs)"
      using True by (simp add: drop_take)
    moreover have "length ?b = Suc (min n (length xs))"
      using True le by simp
    moreover have "butlast (take i xs @ entry # take (n - i) (drop i xs)) =
        take i xs @ entry # take (n - Suc i) (drop i xs)" if "n \<le> length xs"
    proof -
      have "take (n - i) (drop i xs) \<noteq> []" "n - i - 1 = n - Suc i" using True that by auto
      then show ?thesis using that True by (simp add: butlast_append butlast_take)
    qed
    moreover have "take (n - i) (drop i xs) = take (n - Suc i) (drop i xs)" if "\<not> n \<le> length xs"
      using that by simp
    ultimately show ?thesis unfolding m split by (cases "n \<le> length xs") simp_all
  next
    case False
    then have "mergeBest n entry (take n xs) = take n xs" by (simp add: mergeBest_def w i Let_def)
    moreover have "take n (takeWhile ?P xs) = take n xs" using False by (simp add: split)
    ultimately show ?thesis using False by (simp add: i_def)
  qed
qed


section \<open>Suggestions and lookups\<close>

definition valid_entries :: "'p tentry list \<Rightarrow> 'p tentry list" where
  "valid_entries es = filter (\<lambda>e. trie_key (te_term e) \<noteq> []) es"

definition under :: "string \<Rightarrow> 'p tentry list \<Rightarrow> 'p tentry list" where
  "under p es = filter (\<lambda>e. trie_key (te_term e) \<noteq> [] \<and> starts_with (trie_key (te_term e)) p) es"

lemma set_ranked [simp]: "set (ranked es) = set es"
  by (simp add: ranked_def)

lemma distinct_keys_term:
  assumes "distinct (map (\<lambda>e. trie_key (te_term e)) (es @ [e]))" "x \<in> set es"
  shows "te_term x \<noteq> te_term e"
  using assms by (auto simp: image_iff)

lemma trie_insertAll_snoc: "trie_insertAll (es @ [e]) t = trie_insert e (trie_insertAll es t)"
  by (simp add: trie_insertAll_def)

definition last_entry :: "string \<Rightarrow> 'p tentry list \<Rightarrow> 'p tentry option" where
  "last_entry key es = find (\<lambda>e. trie_key (te_term e) = key) (rev es)"

lemma find_Some_iff_bex: "find P xs \<noteq> None \<longleftrightarrow> (\<exists>x\<in>set xs. P x)"
  by (induction xs) auto

text \<open>After any insertions: the terminal of a key is its last entry, and, when no key comes
  twice, a node caches the best entries under its prefix.\<close>

lemma trie_terminal:
  "key \<noteq> [] \<Longrightarrow> fst (seen key (tr_root (trie_insertAll es (trie_new n)))) = last_entry key es"
proof (induction es rule: rev_induct)
  case Nil
  then show ?case by (simp add: trie_insertAll_def trie_new_def last_entry_def seen_create)
next
  case (snoc e es)
  have self: "starts_with key key" by (simp add: starts_with_append)
  show ?case
    using snoc self
    by (auto simp: trie_insertAll_snoc trie_insert_def Let_def seen_insert last_entry_def)
qed

lemma trie_max: "tr_max (trie_insertAll es t) = tr_max t"
  by (induction es rule: rev_induct) (simp_all add: trie_insertAll_snoc trie_insert_def Let_def, simp add: trie_insertAll_def)

lemma trie_best:
  fixes es :: "'p tentry list"
  assumes "distinct (map (\<lambda>e. trie_key (te_term e)) es)"
  shows "snd (seen p (tr_root (trie_insertAll es (trie_new n)))) =
    take (tr_max (trie_new n :: 'p trie)) (ranked (under p es))"
  using assms
proof (induction es rule: rev_induct)
  case Nil
  then show ?case by (simp add: trie_insertAll_def trie_new_def seen_create under_def ranked_def)
next
  case (snoc e es)
  let ?t = "trie_insertAll es (trie_new n) :: 'p trie" and ?key = "trie_key (te_term e)"
  let ?N = "tr_max (trie_new n :: 'p trie)"
  have ih: "snd (seen p (tr_root ?t)) = take ?N (ranked (under p es))" using snoc by simp
  have N: "tr_max ?t = ?N" by (rule trie_max)
  show ?case
  proof (cases "?key \<noteq> [] \<and> starts_with ?key p")
    case True
    have "\<forall>x\<in>set (ranked (under p es)). te_term x \<noteq> te_term e"
      using distinct_keys_term [OF snoc.prems] by (auto simp: under_def)
    from mergeBest_take [OF this, of ?N]
    have "mergeBest ?N e (take ?N (ranked (under p es))) = take ?N (ranked (under p es @ [e]))"
      by (simp only: ranked_snoc)
    then show ?thesis using True ih N
      by (simp add: trie_insertAll_snoc trie_insert_def Let_def seen_insert under_def)
  next
    case False
    then have "under p (es @ [e]) = under p es" by (auto simp: under_def)
    then show ?thesis using False ih
      by (auto simp: trie_insertAll_snoc trie_insert_def Let_def seen_insert)
  qed
qed

lemma last_entry_None_iff: "last_entry key es = None \<longleftrightarrow> (\<forall>e\<in>set es. trie_key (te_term e) \<noteq> key)"
  using find_Some_iff_bex [of "\<lambda>e. trie_key (te_term e) = key" "rev es"] unfolding last_entry_def by auto

lemma trie_count:
  "tr_count (trie_insertAll es (trie_new n)) = card {trie_key (te_term e) |e. e \<in> set es \<and> trie_key (te_term e) \<noteq> []}"
proof (induction es rule: rev_induct)
  case Nil
  then show ?case by (simp add: trie_insertAll_def trie_new_def)
next
  case (snoc e es)
  let ?t = "trie_insertAll es (trie_new n)" and ?key = "trie_key (te_term e)"
  let ?K = "{trie_key (te_term e) |e. e \<in> set es \<and> trie_key (te_term e) \<noteq> []}"
  have fin: "finite ?K" by simp
  show ?case
  proof (cases "?key = []")
    case True
    then have "{trie_key (te_term x) |x. x \<in> set (es @ [e]) \<and> trie_key (te_term x) \<noteq> []} = ?K" by auto
    then show ?thesis using True snoc by (simp add: trie_insertAll_snoc trie_insert_def)
  next
    case False
    have K: "{trie_key (te_term x) |x. x \<in> set (es @ [e]) \<and> trie_key (te_term x) \<noteq> []} = insert ?key ?K"
      using False by auto
    have "(case descend ?key (tr_root ?t) of None \<Rightarrow> True | Some node \<Rightarrow> tn_terminal node = None) \<longleftrightarrow>
        fst (seen ?key (tr_root ?t)) = None"
      by (simp add: seen_def split: option.split)
    also have "\<dots> \<longleftrightarrow> ?key \<notin> ?K" unfolding trie_terminal [OF False] last_entry_None_iff using False by auto
    finally have fresh: "(case descend ?key (tr_root ?t) of None \<Rightarrow> True | Some node \<Rightarrow> tn_terminal node = None) \<longleftrightarrow>
        ?key \<notin> ?K" .
    show ?thesis unfolding K using fresh False snoc
      by (simp add: trie_insertAll_snoc trie_insert_def Let_def card_insert_if [OF fin] del: Collect_empty_eq)
  qed
qed

text \<open>After any insertions a lookup finds the entry last inserted under that key and the size
  is the number of different keys. When no key was inserted twice, the suggestions for a
  prefix are exactly the best-scoring entries under it, in the order of their scores, first
  inserted first among equals, up to the node's bound and the caller's limit.\<close>

theorem trie_correct:
  fixes es :: "'p tentry list"
  shows "let t = trie_insertAll es (trie_new n); N = (case n of Some k \<Rightarrow> k | None \<Rightarrow> 10)
   in trie_get query t = (if trie_key query = [] then None
        else find (\<lambda>e. trie_key (te_term e) = trie_key query) (rev es)) \<and>
      tr_count t = card {trie_key (te_term e) |e. e \<in> set es \<and> trie_key (te_term e) \<noteq> []} \<and>
      (if distinct (map (\<lambda>e. trie_key (te_term e)) es)
       then trie_suggest prefix limit t =
         take limit (take N (sort_key (\<lambda>e. - te_score e)
           (filter (\<lambda>e. trie_key (te_term e) \<noteq> [] \<and> starts_with (trie_key (te_term e)) (trie_key prefix)) es)))
       else True)"
proof -
  let ?t = "trie_insertAll es (trie_new n) :: 'p trie"
  have get: "trie_get query ?t = fst (seen (trie_key query) (tr_root ?t))" for query
    by (simp add: trie_get_def seen_def split: option.split)
  have root: "fst (seen [] (tr_root ?t)) = None"
    by (induction es rule: rev_induct)
      (auto simp: trie_insertAll_snoc trie_insert_def Let_def seen_insert trie_insertAll_def trie_new_def seen_create)
  have sug: "trie_suggest prefix limit ?t = take limit (snd (seen (trie_key prefix) (tr_root ?t)))"
    by (cases "trie_key prefix") (simp_all add: trie_suggest_def seen_def Let_def split: option.split)
  have "trie_get query ?t = (if trie_key query = [] then None else last_entry (trie_key query) es)"
    using root trie_terminal [of "trie_key query" es n] by (simp add: get)
  moreover have "distinct (map (\<lambda>e. trie_key (te_term e)) es) \<Longrightarrow>
      trie_suggest prefix limit ?t = take limit (take (tr_max (trie_new n :: 'p trie)) (ranked (under (trie_key prefix) es)))"
    using trie_best [of es "trie_key prefix" n] by (simp add: sug)
  ultimately show ?thesis
    using trie_count [of es n] unfolding Let_def last_entry_def ranked_def under_def
    by (simp add: trie_new_def)
qed

text \<open>Re-inserting a term with a lower score moves it down, but the entry it had pushed out of a
  full list does not come back.\<close>

definition te :: "string \<Rightarrow> rat \<Rightarrow> nat tentry" where
  "te term score = \<lparr>te_term = term, te_score = score, te_payload = None\<rparr>"

lemma lower_score_leaves_gap:
  "map te_term (trie_suggest ''a'' 10 (trie_insertAll [te ''ab'' 5, te ''ac'' 4, te ''ab'' 1] (trie_new (Some 1)))) =
     [''ab'']"
  by code_simp

text \<open>Two spellings of one key are one entry for a lookup and two suggestions.\<close>

lemma spellings_both_suggested:
  "let t = trie_insertAll [te ''Api'' 5, te ''api'' 4] (trie_new None)
   in map te_term (trie_suggest ''api'' 10 t) = [''Api'', ''api''] \<and> tr_count t = 1"
  by code_simp

end
