(* ===== verification/Bloom.thy ===== *)
theory Bloom
  imports JsString "HOL-Library.Word" "HOL-Library.Code_Target_Nat"
begin

text \<open>
  The Bloom filter (\<open>packages/algorithms/src/bloom-filter.ts\<close>): its bits are 32-bit words and
  its two hashes are computed on 32-bit words with wrap-around. The sizing formulas are
  stated on real numbers. The main result is that there are no false negatives.
\<close>

unbundle bit_operations_syntax

type_synonym u32 = "32 word"

record bloom =
  bl_bits :: "u32 list"
  bl_bitCount :: nat
  bl_hashCount :: nat
  bl_itemCount :: nat

section \<open>Sizing\<close>

definition bloom_bit_count :: "real \<Rightarrow> real \<Rightarrow> nat" where
  "bloom_bit_count n p = nat \<lceil>(- n * ln p) / (ln 2 * ln 2)\<rceil>"

definition bloom_hash_count :: "nat \<Rightarrow> real \<Rightarrow> nat" where
  "bloom_hash_count bitCount n = nat (max 1 \<lfloor>real bitCount / n * ln 2 + 1 / 2\<rfloor>)"

definition bloom_empty :: "nat \<Rightarrow> nat \<Rightarrow> bloom" where
  "bloom_empty bitCount hashCount =
     \<lparr>bl_bits = replicate ((bitCount + 31) div 32) 0, bl_bitCount = bitCount, bl_hashCount = hashCount,
      bl_itemCount = 0\<rparr>"

definition bloom_new :: "real \<Rightarrow> real option \<Rightarrow> js_error + bloom" where
  "bloom_new expectedItems falsePositiveRate =
     (let n = max 1 expectedItems; p = (case falsePositiveRate of Some p \<Rightarrow> p | None \<Rightarrow> 1 / 100) in
      if p \<le> 0 \<or> 1 \<le> p then Inl RangeError
      else let bitCount = bloom_bit_count n p
           in Inr (bloom_empty bitCount (bloom_hash_count bitCount n)))"

section \<open>Hashing\<close>

fun base_hashes :: "string \<Rightarrow> u32 \<Rightarrow> u32 \<Rightarrow> u32 \<times> u32" where
  "base_hashes [] fnv djb = (fnv, djb OR 1)"
| "base_hashes (c # cs) fnv djb =
     base_hashes cs ((fnv XOR of_nat (code c)) * 0x01000193) ((djb * 33) XOR of_nat (code c))"

definition baseHashes :: "string \<Rightarrow> u32 \<times> u32" where
  "baseHashes s = base_hashes s 0x811c9dc5 5381"

definition combinedHash :: "nat \<Rightarrow> u32 \<Rightarrow> u32 \<Rightarrow> nat \<Rightarrow> nat" where
  "combinedHash bitCount h1 h2 i = unat (h1 + of_nat i * h2 + of_nat i * of_nat i) mod bitCount"

section \<open>Operations\<close>

definition bloom_set_bit :: "nat \<Rightarrow> u32 list \<Rightarrow> u32 list" where
  "bloom_set_bit b bits = bits[b div 32 := bits ! (b div 32) OR push_bit (b mod 32) 1]"

definition bloom_bit :: "nat \<Rightarrow> u32 list \<Rightarrow> bool" where
  "bloom_bit b bits \<longleftrightarrow> bits ! (b div 32) AND push_bit (b mod 32) 1 \<noteq> 0"

definition bloom_add :: "string \<Rightarrow> bloom \<Rightarrow> bloom" where
  "bloom_add s f =
     (let (h1, h2) = baseHashes s
      in f\<lparr>bl_bits := fold (\<lambda>i. bloom_set_bit (combinedHash (bl_bitCount f) h1 h2 i)) [0..<bl_hashCount f] (bl_bits f),
           bl_itemCount := bl_itemCount f + 1\<rparr>)"

definition bloom_has :: "string \<Rightarrow> bloom \<Rightarrow> bool" where
  "bloom_has s f =
     (let (h1, h2) = baseHashes s
      in list_all (\<lambda>i. bloom_bit (combinedHash (bl_bitCount f) h1 h2 i) (bl_bits f)) [0..<bl_hashCount f])"

definition bloom_addAndCheck :: "string \<Rightarrow> bloom \<Rightarrow> bloom \<times> bool" where
  "bloom_addAndCheck s f =
     (let existed = bloom_has s f in (if \<not> existed then bloom_add s f else f, existed))"

definition bloom_clear :: "bloom \<Rightarrow> bloom" where
  "bloom_clear f = f\<lparr>bl_bits := replicate (length (bl_bits f)) 0, bl_itemCount := 0\<rparr>"

definition bloom_estimatedFalsePositiveRate :: "bloom \<Rightarrow> real" where
  "bloom_estimatedFalsePositiveRate f =
     (1 - exp (- real (bl_hashCount f) * real (bl_itemCount f) / real (bl_bitCount f))) ^ bl_hashCount f"

section \<open>No false negatives\<close>

text \<open>The array has a word for every bit index.\<close>

definition bloom_ok :: "bloom \<Rightarrow> bool" where
  "bloom_ok f \<longleftrightarrow> 0 < bl_bitCount f \<and> bl_bitCount f \<le> 32 * length (bl_bits f)"

lemma bloom_bit_iff: "bloom_bit b bits \<longleftrightarrow> bit (bits ! (b div 32)) (b mod 32)"
  for bits :: "u32 list"
  unfolding bloom_bit_def by (rule bit_iff_and_push_bit_not_eq_0 [symmetric])

lemma bloom_set_bit_bit:
  assumes "b div 32 < length bits"
  shows "bloom_bit c (bloom_set_bit b bits) \<longleftrightarrow> c = b \<or> bloom_bit c bits"
proof -
  have "c mod 32 < 32" by simp
  moreover have "c = b \<longleftrightarrow> c div 32 = b div 32 \<and> c mod 32 = b mod 32"
    by (metis div_mod_decomp)
  ultimately show ?thesis using assms
    by (auto simp: bloom_bit_iff bloom_set_bit_def nth_list_update bit_or_iff bit_exp_iff)
qed

lemma length_bloom_set_bit [simp]: "length (bloom_set_bit b bits) = length bits"
  by (simp add: bloom_set_bit_def)

lemma bits_fold:
  assumes "\<forall>i\<in>set is. g i div 32 < length bits"
  shows "length (fold (\<lambda>i. bloom_set_bit (g i)) is bits) = length bits \<and>
    (bloom_bit c (fold (\<lambda>i. bloom_set_bit (g i)) is bits) \<longleftrightarrow> (\<exists>i\<in>set is. c = g i) \<or> bloom_bit c bits)"
  using assms
proof (induction "is" arbitrary: bits)
  case (Cons i "is")
  then show ?case using Cons.IH [of "bloom_set_bit (g i) bits"] bloom_set_bit_bit [of "g i" bits c] by auto
qed simp

lemma combinedHash_less: "bloom_ok f \<Longrightarrow> combinedHash (bl_bitCount f) h1 h2 i div 32 < length (bl_bits f)"
proof -
  assume ok: "bloom_ok f"
  have "combinedHash (bl_bitCount f) h1 h2 i < bl_bitCount f"
    using ok by (simp add: combinedHash_def bloom_ok_def)
  then show ?thesis using ok by (simp add: bloom_ok_def)
qed

text \<open>The bits a value needs.\<close>

definition bloom_bits_of :: "bloom \<Rightarrow> string \<Rightarrow> nat set" where
  "bloom_bits_of f s =
     (let (h1, h2) = baseHashes s in combinedHash (bl_bitCount f) h1 h2 ` {..<bl_hashCount f})"

lemma bloom_has_iff: "bloom_has s f \<longleftrightarrow> (\<forall>b\<in>bloom_bits_of f s. bloom_bit b (bl_bits f))"
  by (auto simp: bloom_has_def bloom_bits_of_def list_all_iff split_beta Let_def)

lemma bloom_add_facts:
  assumes "bloom_ok f"
  shows "bloom_ok (bloom_add s f)" "bloom_bits_of (bloom_add s f) = bloom_bits_of f"
    "bloom_bit b (bl_bits (bloom_add s f)) \<longleftrightarrow> b \<in> bloom_bits_of f s \<or> bloom_bit b (bl_bits f)"
proof -
  obtain h1 h2 where h: "baseHashes s = (h1, h2)" by (cases "baseHashes s")
  let ?g = "combinedHash (bl_bitCount f) h1 h2"
  have "\<forall>i\<in>set [0..<bl_hashCount f]. ?g i div 32 < length (bl_bits f)"
    using combinedHash_less [OF assms] by simp
  note bits_fold [OF this, of b]
  then show "bloom_bit b (bl_bits (bloom_add s f)) \<longleftrightarrow> b \<in> bloom_bits_of f s \<or> bloom_bit b (bl_bits f)"
    "bloom_ok (bloom_add s f)"
    using assms by (auto simp: bloom_add_def h bloom_bits_of_def bloom_ok_def)
  show "bloom_bits_of (bloom_add s f) = bloom_bits_of f"
    by (simp add: bloom_add_def h bloom_bits_of_def fun_eq_iff)
qed

datatype bloom_op = Add string | AddAndCheck string | Clear

fun bloom_step :: "bloom_op \<Rightarrow> bloom \<Rightarrow> bloom" where
  "bloom_step (Add s) f = bloom_add s f"
| "bloom_step (AddAndCheck s) f = fst (bloom_addAndCheck s f)"
| "bloom_step Clear f = bloom_clear f"

text \<open>The values given to the filter since it was last cleared.\<close>

fun bloom_members :: "bloom_op list \<Rightarrow> string set \<Rightarrow> string set" where
  "bloom_members [] A = A"
| "bloom_members (Add s # ops) A = bloom_members ops (insert s A)"
| "bloom_members (AddAndCheck s # ops) A = bloom_members ops (insert s A)"
| "bloom_members (Clear # ops) A = bloom_members ops {}"

lemma bloom_run_members:
  "bloom_ok f \<Longrightarrow> \<forall>s\<in>A. bloom_has s f \<Longrightarrow> bloom_ok (fold bloom_step ops f) \<and>
    (\<forall>s\<in>bloom_members ops A. bloom_has s (fold bloom_step ops f))"
proof (induction ops arbitrary: f A)
  case (Cons op ops)
  have add: "bloom_ok (bloom_add s f) \<and> (\<forall>x\<in>insert s A. bloom_has x (bloom_add s f))" for s
    using bloom_add_facts [OF Cons.prems(1), where s = s] Cons.prems(2) by (auto simp: bloom_has_iff)
  show ?case
  proof (cases op)
    case (Add s)
    then show ?thesis using Cons.IH [of "bloom_add s f" "insert s A"] add by simp
  next
    case (AddAndCheck s)
    have "bloom_ok (fst (bloom_addAndCheck s f)) \<and> (\<forall>x\<in>insert s A. bloom_has x (fst (bloom_addAndCheck s f)))"
      using add [of s] Cons.prems by (auto simp: bloom_addAndCheck_def Let_def)
    then show ?thesis using Cons.IH [of "fst (bloom_addAndCheck s f)" "insert s A"] AddAndCheck by simp
  next
    case Clear
    have "bloom_ok (bloom_clear f)" using Cons.prems(1) by (simp add: bloom_clear_def bloom_ok_def)
    then show ?thesis using Cons.IH [of "bloom_clear f" "{}"] Clear by simp
  qed
qed simp

lemma bloom_new_ok: "bloom_new n p = Inr f \<Longrightarrow> bloom_ok f \<and> 1 \<le> bl_hashCount f"
proof -
  assume new: "bloom_new n p = Inr f"
  let ?n = "max 1 n" and ?p = "case p of Some p \<Rightarrow> p | None \<Rightarrow> 1 / 100"
  have p: "0 < ?p" "?p < 1" and f: "f = bloom_empty (bloom_bit_count ?n ?p) (bloom_hash_count (bloom_bit_count ?n ?p) ?n)"
    using new by (auto simp: bloom_new_def Let_def split: if_splits option.splits)
  have "0 < - (?n * ln ?p) / (ln 2 * ln 2)"
    using p by (intro divide_pos_pos) (simp_all add: mult_pos_neg)
  then have "0 < bloom_bit_count ?n ?p" by (simp add: bloom_bit_count_def)
  then show ?thesis by (auto simp: f bloom_empty_def bloom_ok_def bloom_hash_count_def)
qed

text \<open>The filter has no false negatives: a filter the constructor made, after any additions,
  checked additions and clearings, answers true for every value given to it since it was last
  cleared, whatever its size and with 32-bit wrap-around in every hash.\<close>

theorem bloom_no_false_negatives:
  assumes "bloom_new n p = Inr f"
  shows "\<forall>s\<in>bloom_members ops {}. bloom_has s (fold bloom_step ops f)"
  using bloom_run_members [of f "{}" ops] bloom_new_ok [OF assms] by simp

lemma bloom_no_false_negatives_witness:
  "\<exists>f. bloom_new 100 (Some (1 / 10)) = Inr f \<and>
     bloom_has ''b'' (fold bloom_step [Add ''a'', Clear, AddAndCheck ''b'', Add ''c''] f)"
proof -
  obtain f where f: "bloom_new 100 (Some (1 / 10)) = Inr f" by (simp add: bloom_new_def Let_def)
  show ?thesis using f bloom_no_false_negatives [OF f, of "[Add ''a'', Clear, AddAndCheck ''b'', Add ''c'']"]
    by (intro exI [of _ f]) simp
qed

end
