(* ===== verification/InvertedIndex.thy ===== *)
theory InvertedIndex
  imports TextAnalysis TopK
begin

text \<open>
  The in-memory inverted index with BM25 ranking
  (\<open>packages/algorithms/src/inverted-index.ts\<close>) over the analyser of \<open>TextAnalysis\<close> and the
  selection of \<open>TopK\<close>. \<open>Math.logarithm\<close> is a parameter. The specification is the corpus: the last
  version of every document that was added and not removed.
\<close>

record indexed_field =
  if_value :: string
  if_weight :: rat

record 'p index_document =
  id_id :: string
  id_fields :: "indexed_field list"
  id_payload :: "'p option"
  id_boost :: "rat option"

record 'p stored_document =
  sd_id :: string
  sd_length :: rat
  sd_boost :: rat
  sd_terms :: "string list"
  sd_payload :: "'p option"

type_synonym bucket = "(string, rat) jsmap"

record 'p inverted_index =
  ix_postings :: "(string, bucket) jsmap"
  ix_documents :: "(string, 'p stored_document) jsmap"
  ix_totalLength :: rat
  ix_k1 :: rat
  ix_b :: rat
  ix_analyzeOptions :: analyze_options

record 'p search_hit =
  sh_id :: string
  sh_score :: rat
  sh_payload :: "'p option"
  sh_matchedTerms :: "string list"

definition ix_new :: "rat option \<Rightarrow> rat option \<Rightarrow> analyze_options \<Rightarrow> 'p inverted_index" where
  "ix_new k1 b opts =
     \<lparr>ix_postings = [], ix_documents = [], ix_totalLength = 0,
      ix_k1 = (case k1 of Some x \<Rightarrow> x | None \<Rightarrow> 3 / 2), ix_b = (case b of Some x \<Rightarrow> x | None \<Rightarrow> 3 / 4),
      ix_analyzeOptions = opts\<rparr>"

definition averageLength :: "'p inverted_index \<Rightarrow> rat" where
  "averageLength ix = (if ix_documents ix = [] then 0 else ix_totalLength ix / of_nat (length (ix_documents ix)))"

section \<open>Updates\<close>

fun remove_terms :: "string \<Rightarrow> string list \<Rightarrow> (string, bucket) jsmap \<Rightarrow> (string, bucket) jsmap" where
  "remove_terms i [] ps = ps"
| "remove_terms i (t # ts) ps =
     remove_terms i ts
       (case jm_get ps t of
          None \<Rightarrow> ps
        | Some bucket \<Rightarrow>
            let bucket = jm_delete i bucket in
            if bucket = [] then jm_delete t ps else jm_set t bucket ps)"

definition ix_remove :: "string \<Rightarrow> 'p inverted_index \<Rightarrow> 'p inverted_index \<times> bool" where
  "ix_remove i ix =
     (case jm_get (ix_documents ix) i of
        None \<Rightarrow> (ix, False)
      | Some stored \<Rightarrow>
          (ix\<lparr>ix_postings := remove_terms i (sd_terms stored) (ix_postings ix),
              ix_totalLength := ix_totalLength ix - sd_length stored,
              ix_documents := jm_delete i (ix_documents ix)\<rparr>, True))"

text \<open>The weighted frequencies and the weighted length of a document, term by term.\<close>

definition count_term :: "rat \<Rightarrow> string \<Rightarrow> bucket \<times> rat \<Rightarrow> bucket \<times> rat" where
  "count_term weight t = (\<lambda>(frequencies, len).
     (jm_set t ((case jm_get frequencies t of Some f \<Rightarrow> f | None \<Rightarrow> 0) + weight) frequencies, len + weight))"

definition count_field :: "analyze_options \<Rightarrow> indexed_field \<Rightarrow> bucket \<times> rat \<Rightarrow> bucket \<times> rat" where
  "count_field opts fld = fold (count_term (if_weight fld)) (analyze (if_value fld) opts)"

definition count_document :: "analyze_options \<Rightarrow> indexed_field list \<Rightarrow> bucket \<times> rat" where
  "count_document opts flds = fold (count_field opts) flds ([], 0)"

fun add_postings :: "string \<Rightarrow> (string \<times> rat) list \<Rightarrow> (string, bucket) jsmap \<Rightarrow> (string, bucket) jsmap" where
  "add_postings i [] ps = ps"
| "add_postings i ((t, f) # fs) ps =
     (let bucket = (case jm_get ps t of Some bucket \<Rightarrow> bucket | None \<Rightarrow> [])
      in add_postings i fs (jm_set t (jm_set i f bucket) ps))"

definition stored_of :: "analyze_options \<Rightarrow> 'p index_document \<Rightarrow> 'p stored_document" where
  "stored_of opts doc =
     (let (frequencies, len) = count_document opts (id_fields doc)
      in \<lparr>sd_id = id_id doc, sd_length = len, sd_boost = (case id_boost doc of Some b \<Rightarrow> b | None \<Rightarrow> 1),
          sd_terms = jm_keys frequencies, sd_payload = id_payload doc\<rparr>)"

definition ix_add :: "'p index_document \<Rightarrow> 'p inverted_index \<Rightarrow> 'p inverted_index" where
  "ix_add doc ix =
     (let ix = fst (ix_remove (id_id doc) ix);
          (frequencies, len) = count_document (ix_analyzeOptions ix) (id_fields doc)
      in ix\<lparr>ix_postings := add_postings (id_id doc) frequencies (ix_postings ix),
            ix_documents := jm_set (id_id doc) (stored_of (ix_analyzeOptions ix) doc) (ix_documents ix),
            ix_totalLength := ix_totalLength ix + len\<rparr>)"

definition ix_addAll :: "'p index_document list \<Rightarrow> 'p inverted_index \<Rightarrow> 'p inverted_index" where
  "ix_addAll docs ix = fold ix_add docs ix"

definition ix_clear :: "'p inverted_index \<Rightarrow> 'p inverted_index" where
  "ix_clear ix = ix\<lparr>ix_postings := [], ix_documents := [], ix_totalLength := 0\<rparr>"

section \<open>Queries\<close>

definition ix_idf :: "(rat \<Rightarrow> rat) \<Rightarrow> 'p inverted_index \<Rightarrow> string \<Rightarrow> rat" where
  "ix_idf logarithm ix t =
     (let df = (case jm_get (ix_postings ix) t of Some bucket \<Rightarrow> length bucket | None \<Rightarrow> 0) in
      if df = 0 then 0
      else logarithm (1 + (of_nat (length (ix_documents ix)) - of_nat df + 1 / 2) / (of_nat df + 1 / 2)))"

definition bm25 :: "'p inverted_index \<Rightarrow> rat \<Rightarrow> rat \<Rightarrow> rat \<Rightarrow> 'p stored_document \<Rightarrow> rat" where
  "bm25 ix avgLength idf frequency stored =
     (let normalisation = (if avgLength = 0 then 1 else 1 - ix_b ix + ix_b ix * (sd_length stored / avgLength))
      in idf * (frequency * (ix_k1 ix + 1)) / (frequency + ix_k1 ix * normalisation))"

definition set_add :: "'a \<Rightarrow> 'a list \<Rightarrow> 'a list" where
  "set_add x xs = (if x \<in> set xs then xs else xs @ [x])"

type_synonym accumulators = "(string, rat) jsmap \<times> (string, string list) jsmap"

text \<open>The matched terms are a \<open>Set\<close>: a list in insertion order without repetition.\<close>

definition score_posting ::
  "'p inverted_index \<Rightarrow> rat \<Rightarrow> rat \<Rightarrow> string \<Rightarrow> string \<times> rat \<Rightarrow> accumulators \<Rightarrow> accumulators"
where
  "score_posting ix avgLength idf t = (\<lambda>(docId, frequency) (scores, matched).
     case jm_get (ix_documents ix) docId of
       None \<Rightarrow> (scores, matched)
     | Some stored \<Rightarrow>
         let contribution = bm25 ix avgLength idf frequency stored;
             terms = (case jm_get matched docId of Some ts \<Rightarrow> ts | None \<Rightarrow> [])
         in (jm_set docId ((case jm_get scores docId of Some x \<Rightarrow> x | None \<Rightarrow> 0) + contribution) scores,
             jm_set docId (set_add t terms) matched))"

definition score_term :: "(rat \<Rightarrow> rat) \<Rightarrow> 'p inverted_index \<Rightarrow> rat \<Rightarrow> string \<Rightarrow> accumulators \<Rightarrow> accumulators" where
  "score_term logarithm ix avgLength t acc =
     (case jm_get (ix_postings ix) t of
        None \<Rightarrow> acc
      | Some bucket \<Rightarrow> fold (score_posting ix avgLength (ix_idf logarithm ix t) t) bucket acc)"

definition matched_of :: "(string, string list) jsmap \<Rightarrow> string \<Rightarrow> string list" where
  "matched_of matched i = (case jm_get matched i of Some ts \<Rightarrow> ts | None \<Rightarrow> [])"

fun candidates ::
  "'p inverted_index \<Rightarrow> bool \<Rightarrow> (string \<Rightarrow> 'p option \<Rightarrow> bool) option \<Rightarrow> nat \<Rightarrow> (string, string list) jsmap \<Rightarrow>
   (string \<times> rat) list \<Rightarrow> 'p stored_document scored list"
where
  "candidates ix requireAll keep n matched [] = []"
| "candidates ix requireAll keep n matched ((docId, rawScore) # rest) =
     (case jm_get (ix_documents ix) docId of
        None \<Rightarrow> candidates ix requireAll keep n matched rest
      | Some stored \<Rightarrow>
          if requireAll \<and> length (matched_of matched docId) < n then candidates ix requireAll keep n matched rest
          else if (case keep of None \<Rightarrow> False | Some p \<Rightarrow> \<not> p docId (sd_payload stored))
          then candidates ix requireAll keep n matched rest
          else \<lparr>sc_item = stored, sc_score = rawScore * sd_boost stored\<rparr> #
               candidates ix requireAll keep n matched rest)"

definition ix_search ::
  "(rat \<Rightarrow> rat) \<Rightarrow> string \<Rightarrow> int \<Rightarrow> bool \<Rightarrow> (string \<Rightarrow> 'p option \<Rightarrow> bool) option \<Rightarrow> 'p inverted_index \<Rightarrow>
   'p search_hit list"
where
  "ix_search logarithm query limit requireAll keep ix =
     (let terms = analyze query (ix_analyzeOptions ix) in
      if terms = [] \<or> ix_documents ix = [] then []
      else
        let (scores, matched) = fold (score_term logarithm ix (averageLength ix)) terms ([], [])
        in map (\<lambda>wrapped.
             \<lparr>sh_id = sd_id (sc_item (sc_item wrapped)), sh_score = sc_score (sc_item wrapped),
              sh_payload = sd_payload (sc_item (sc_item wrapped)),
              sh_matchedTerms = matched_of matched (sd_id (sc_item (sc_item wrapped)))\<rparr>)
           (topK (candidates ix requireAll keep (length terms) matched scores) limit sc_score None))"

definition postingsFor :: "string \<Rightarrow> 'p inverted_index \<Rightarrow> string list" where
  "postingsFor t ix = (case jm_get (ix_postings ix) t of Some bucket \<Rightarrow> jm_keys bucket | None \<Rightarrow> [])"

record index_stats =
  is_documents :: nat
  is_terms :: nat
  is_averageLength :: rat
  is_postings :: nat

definition ix_stats :: "'p inverted_index \<Rightarrow> index_stats" where
  "ix_stats ix =
     \<lparr>is_documents = length (ix_documents ix), is_terms = length (ix_postings ix),
      is_averageLength = averageLength ix,
      is_postings = sum_list (map (\<lambda>(_, bucket). length bucket) (ix_postings ix))\<rparr>"

section \<open>Postings\<close>

definition posted :: "(string, bucket) jsmap \<Rightarrow> string \<Rightarrow> string \<Rightarrow> rat option" where
  "posted ps t i = (case jm_get ps t of None \<Rightarrow> None | Some bucket \<Rightarrow> jm_get bucket i)"

definition postings_ok :: "(string, bucket) jsmap \<Rightarrow> bool" where
  "postings_ok ps \<longleftrightarrow> jm_wf ps \<and> (\<forall>t bucket. jm_get ps t = Some bucket \<longrightarrow> jm_wf bucket \<and> bucket \<noteq> [])"

lemma postings_ok_set: "postings_ok ps \<Longrightarrow> jm_wf bucket \<Longrightarrow> bucket \<noteq> [] \<Longrightarrow> postings_ok (jm_set t bucket ps)"
  by (auto simp: postings_ok_def js_map)

lemma postings_ok_delete: "postings_ok ps \<Longrightarrow> postings_ok (jm_delete t ps)"
  by (auto simp: postings_ok_def js_map)

lemma jm_set_not_Nil [simp]: "jm_set k v m \<noteq> []"
  by (cases m) auto

lemma jm_delete_Nil_get: "jm_delete i bucket = [] \<Longrightarrow> k \<noteq> i \<Longrightarrow> jm_get bucket k = None"
  using jm_get_delete [of i bucket k] by simp

lemma remove_terms_facts:
  "postings_ok ps \<Longrightarrow> postings_ok (remove_terms i ts ps) \<and>
     posted (remove_terms i ts ps) t k = (if k = i \<and> t \<in> set ts then None else posted ps t k)"
proof (induction ts arbitrary: ps)
  case (Cons s ts)
  show ?case
  proof (cases "jm_get ps s")
    case None
    then show ?thesis using Cons by (auto simp: posted_def)
  next
    case (Some bucket)
    let ?b = "jm_delete i bucket"
    have wf: "jm_wf ?b" using Cons.prems Some by (simp add: postings_ok_def)
    show ?thesis
    proof (cases "?b = []")
      case True
      have "posted (jm_delete s ps) t k = (if k = i \<and> t = s then None else posted ps t k)"
        using Some jm_delete_Nil_get [OF True, of k] by (simp add: posted_def js_map)
      then show ?thesis
        using Cons.IH [OF postings_ok_delete [OF Cons.prems], of s] Some True by (auto split: if_splits)
    next
      case False
      have "posted (jm_set s ?b ps) t k = (if k = i \<and> t = s then None else posted ps t k)"
        using Some by (simp add: posted_def js_map)
      then show ?thesis
        using Cons.IH [OF postings_ok_set [OF Cons.prems wf False], of s] Some False by (auto split: if_splits)
    qed
  qed
qed simp

lemma add_postings_facts:
  "postings_ok ps \<Longrightarrow> distinct (map fst fs) \<Longrightarrow> postings_ok (add_postings i fs ps) \<and>
     posted (add_postings i fs ps) t k =
       (if k = i \<and> jm_get fs t \<noteq> None then jm_get fs t else posted ps t k)"
proof (induction fs arbitrary: ps)
  case (Cons f fs)
  obtain s x where f: "f = (s, x)" by (cases f)
  let ?b = "case jm_get ps s of Some bucket \<Rightarrow> bucket | None \<Rightarrow> []"
  have wf: "jm_wf (jm_set i x ?b)"
    using Cons.prems by (auto simp: postings_ok_def split: option.split)
  have s: "jm_get fs s = None" using Cons.prems(2) f by (auto simp: map_of_eq_None_iff)
  have "posted (jm_set s (jm_set i x ?b) ps) t k = (if k = i \<and> t = s then Some x else posted ps t k)"
    by (auto simp: posted_def js_map split: option.split)
  then show ?case
    using Cons.IH [OF postings_ok_set [OF Cons.prems(1) wf], of s] Cons.prems(2) s by (auto simp: f)
qed simp


section \<open>The corpus\<close>

datatype 'p index_op = Add "'p index_document" | Remove string | Clear

fun ix_step :: "'p index_op \<Rightarrow> 'p inverted_index \<Rightarrow> 'p inverted_index" where
  "ix_step (Add doc) ix = ix_add doc ix"
| "ix_step (Remove i) ix = fst (ix_remove i ix)"
| "ix_step Clear ix = ix_clear ix"

fun corpus_step :: "'p index_op \<Rightarrow> (string \<rightharpoonup> 'p index_document) \<Rightarrow> (string \<rightharpoonup> 'p index_document)" where
  "corpus_step (Add doc) c = c(id_id doc \<mapsto> doc)"
| "corpus_step (Remove i) c = c(i := None)"
| "corpus_step Clear c = Map.empty"

definition occurs :: "analyze_options \<Rightarrow> 'p index_document \<Rightarrow> string \<Rightarrow> bool" where
  "occurs opts doc t \<longleftrightarrow> list_ex (\<lambda>fld. t \<in> set (analyze (if_value fld) opts)) (id_fields doc)"

text \<open>The weight of a term: each field's weight times the number of its occurrences there.\<close>

definition term_weight :: "analyze_options \<Rightarrow> 'p index_document \<Rightarrow> string \<Rightarrow> rat" where
  "term_weight opts doc t =
     sum_list (map (\<lambda>fld. if_weight fld * of_nat (count_list (analyze (if_value fld) opts) t)) (id_fields doc))"

abbreviation freq_of :: "bucket \<Rightarrow> string \<Rightarrow> rat" where
  "freq_of m t \<equiv> (case jm_get m t of Some f \<Rightarrow> f | None \<Rightarrow> 0)"

lemma count_terms:
  "jm_wf m \<Longrightarrow> jm_wf (fst (fold (count_term w) ts (m, n))) \<and>
     (jm_get (fst (fold (count_term w) ts (m, n))) t \<noteq> None \<longleftrightarrow> t \<in> set ts \<or> jm_get m t \<noteq> None) \<and>
     freq_of (fst (fold (count_term w) ts (m, n))) t = freq_of m t + w * of_nat (count_list ts t)"
proof (induction ts arbitrary: m n)
  case (Cons s ts)
  let ?m = "jm_set s (freq_of m s + w) m"
  have "jm_wf ?m" using Cons.prems by simp
  moreover have "freq_of ?m t = freq_of m t + w * (if t = s then 1 else 0)" by (simp add: js_map)
  moreover have "jm_get ?m t \<noteq> None \<longleftrightarrow> t = s \<or> jm_get m t \<noteq> None" by (simp add: js_map)
  moreover have "fold (count_term w) (s # ts) (m, n) = fold (count_term w) ts (?m, n + w)"
    by (simp add: count_term_def)
  ultimately show ?case using Cons.IH [of ?m "n + w"] by (auto simp: algebra_simps)
qed simp

lemma count_fields:
  "jm_wf m \<Longrightarrow> jm_wf (fst (fold (count_field opts) flds (m, n))) \<and>
     (jm_get (fst (fold (count_field opts) flds (m, n))) t \<noteq> None \<longleftrightarrow>
        list_ex (\<lambda>fld. t \<in> set (analyze (if_value fld) opts)) flds \<or> jm_get m t \<noteq> None) \<and>
     freq_of (fst (fold (count_field opts) flds (m, n))) t =
       freq_of m t + sum_list (map (\<lambda>fld. if_weight fld * of_nat (count_list (analyze (if_value fld) opts) t)) flds)"
proof (induction flds arbitrary: m n)
  case (Cons fld flds)
  obtain m' n' where f: "count_field opts fld (m, n) = (m', n')" by (cases "count_field opts fld (m, n)")
  have "jm_wf m' \<and> (jm_get m' t \<noteq> None \<longleftrightarrow> t \<in> set (analyze (if_value fld) opts) \<or> jm_get m t \<noteq> None) \<and>
      freq_of m' t = freq_of m t + if_weight fld * of_nat (count_list (analyze (if_value fld) opts) t)"
    using count_terms [OF Cons.prems, of "if_weight fld" "analyze (if_value fld) opts" n t] f
    by (simp add: count_field_def)
  then show ?case using Cons.IH [of m' n'] f by simp blast
qed simp

lemma count_document_facts:
  "distinct (map fst (fst (count_document opts (id_fields doc))))"
  "jm_get (fst (count_document opts (id_fields doc))) t =
     (if occurs opts doc t then Some (term_weight opts doc t) else None)"
proof -
  let ?m = "fst (count_document opts (id_fields doc))"
  have f: "jm_wf ?m \<and> (jm_get ?m t \<noteq> None \<longleftrightarrow> occurs opts doc t) \<and> freq_of ?m t = term_weight opts doc t"
    using count_fields [of "[]" opts "id_fields doc" 0 t] by (simp add: count_document_def occurs_def term_weight_def)
  then show "distinct (map fst ?m)" by (simp add: jm_wf_def)
  show "jm_get ?m t = (if occurs opts doc t then Some (term_weight opts doc t) else None)"
    using f by (cases "jm_get ?m t") auto
qed

lemma occurs_terms: "t \<in> set (sd_terms (stored_of opts doc)) \<longleftrightarrow> occurs opts doc t"
  using count_document_facts(2) [of opts doc t]
  by (auto simp: stored_of_def split_beta map_of_eq_None_iff [symmetric] split: if_splits)
    (metis map_of_eq_None_iff option.distinct(1))

definition total_of :: "(string, 'p stored_document) jsmap \<Rightarrow> rat" where
  "total_of docs = sum_list (map (\<lambda>(i, d). sd_length d) docs)"

lemma total_delete:
  "jm_wf docs \<Longrightarrow> jm_get docs i = Some d \<Longrightarrow> total_of (jm_delete i docs) = total_of docs - sd_length d"
proof (induction docs)
  case (Cons p docs)
  obtain j x where p: "p = (j, x)" by (cases p)
  show ?case
  proof (cases "j = i")
    case True
    then have "jm_get docs i = None" using Cons.prems p by (auto simp: jm_wf_def map_of_eq_None_iff)
    then have "jm_delete i docs = docs" by (metis delete_id map_of_eq_None_iff)
    then show ?thesis using True Cons.prems p by (simp add: total_of_def)
  qed (use Cons p in \<open>simp add: total_of_def jm_wf_def\<close>)
qed simp

definition ix_inv :: "analyze_options \<Rightarrow> 'p inverted_index \<Rightarrow> (string \<rightharpoonup> 'p index_document) \<Rightarrow> bool" where
  "ix_inv opts ix c \<longleftrightarrow>
     ix_analyzeOptions ix = opts \<and> postings_ok (ix_postings ix) \<and> jm_wf (ix_documents ix) \<and>
     (\<forall>i. jm_get (ix_documents ix) i = map_option (stored_of opts) (c i)) \<and>
     (\<forall>i d. c i = Some d \<longrightarrow> id_id d = i) \<and>
     (\<forall>t i. posted (ix_postings ix) t i =
        (case c i of None \<Rightarrow> None | Some d \<Rightarrow> if occurs opts d t then Some (term_weight opts d t) else None)) \<and>
     ix_totalLength ix = total_of (ix_documents ix)"

lemma ix_invD:
  assumes "ix_inv opts ix c"
  shows "ix_analyzeOptions ix = opts" "postings_ok (ix_postings ix)" "jm_wf (ix_documents ix)"
    "\<forall>i. jm_get (ix_documents ix) i = map_option (stored_of opts) (c i)"
    "\<forall>i d. c i = Some d \<longrightarrow> id_id d = i"
    "\<forall>t i. posted (ix_postings ix) t i =
        (case c i of None \<Rightarrow> None | Some d \<Rightarrow> if occurs opts d t then Some (term_weight opts d t) else None)"
    "ix_totalLength ix = total_of (ix_documents ix)"
  using assms unfolding ix_inv_def by - (elim conjE, assumption)+

lemma ix_inv_remove:
  assumes "ix_inv opts ix c"
  shows "ix_inv opts (fst (ix_remove i ix)) (c(i := None))"
proof (cases "c i")
  case None
  then have "fst (ix_remove i ix) = ix" using assms by (simp add: ix_remove_def ix_inv_def)
  moreover have "c(i := None) = c" using None by auto
  ultimately show ?thesis using assms by simp
next
  case (Some d)
  have doc: "jm_get (ix_documents ix) i = Some (stored_of opts d)" and ok: "postings_ok (ix_postings ix)"
    and wf: "jm_wf (ix_documents ix)"
    using assms Some by (simp_all add: ix_inv_def)
  note r = remove_terms_facts [OF ok, of i "sd_terms (stored_of opts d)"]
  have p: "posted (remove_terms i (sd_terms (stored_of opts d)) (ix_postings ix)) t k =
      (case (c(i := None)) k of None \<Rightarrow> None | Some d \<Rightarrow> if occurs opts d t then Some (term_weight opts d t) else None)" for t k
    using r assms Some by (auto simp: ix_inv_def occurs_terms)
  have eq: "fst (ix_remove i ix) = ix\<lparr>ix_postings := remove_terms i (sd_terms (stored_of opts d)) (ix_postings ix),
      ix_totalLength := ix_totalLength ix - sd_length (stored_of opts d),
      ix_documents := jm_delete i (ix_documents ix)\<rparr>"
    by (simp add: ix_remove_def doc)
  show ?thesis
    unfolding ix_inv_def eq
  proof (intro conjI allI)
    show "posted (ix_postings (ix\<lparr>ix_postings := remove_terms i (sd_terms (stored_of opts d)) (ix_postings ix),
        ix_totalLength := ix_totalLength ix - sd_length (stored_of opts d),
        ix_documents := jm_delete i (ix_documents ix)\<rparr>)) t k =
      (case (c(i := None)) k of None \<Rightarrow> None | Some d \<Rightarrow> if occurs opts d t then Some (term_weight opts d t) else None)" for t k
      using p [of t k] by simp
  qed (use assms r total_delete [OF wf doc] in \<open>auto simp: ix_inv_def js_map\<close>)
qed

lemma ix_inv_add:
  assumes "ix_inv opts ix c"
  shows "ix_inv opts (ix_add doc ix) (c(id_id doc \<mapsto> doc))"
proof -
  let ?i = "id_id doc"
  define jx where "jx = fst (ix_remove ?i ix)"
  have jx: "ix_inv opts jx (c(?i := None))" unfolding jx_def by (rule ix_inv_remove [OF assms])
  obtain m n where mn: "count_document opts (id_fields doc) = (m, n)" by (cases "count_document opts (id_fields doc)")
  have m: "distinct (map fst m)" "\<And>t. jm_get m t = (if occurs opts doc t then Some (term_weight opts doc t) else None)"
    using count_document_facts [of opts doc] mn by simp_all
  have n: "sd_length (stored_of opts doc) = n" by (simp add: stored_of_def mn)
  have "jm_get (ix_documents jx) ?i = map_option (stored_of opts) ((c(?i := None)) ?i)"
    using ix_invD(4) [OF jx] by (rule spec)
  then have ok: "postings_ok (ix_postings jx)" "ix_analyzeOptions jx = opts" "jm_get (ix_documents jx) ?i = None"
    using ix_invD(1,2) [OF jx] by simp_all
  note a = add_postings_facts [OF ok(1) m(1), of ?i]
  have p: "posted (add_postings ?i m (ix_postings jx)) t k =
      (case (c(?i \<mapsto> doc)) k of None \<Rightarrow> None | Some d \<Rightarrow> if occurs opts d t then Some (term_weight opts d t) else None)" for t k
  proof -
    have "posted (ix_postings jx) t k =
        (case (c(?i := None)) k of None \<Rightarrow> None | Some d \<Rightarrow> if occurs opts d t then Some (term_weight opts d t) else None)"
      using ix_invD(6) [OF jx] by (elim allE)
    then show ?thesis using a [of t k] m(2) [of t] by (cases "k = ?i"; cases "occurs opts doc t") simp_all
  qed
  have t: "total_of (jm_set ?i (stored_of opts doc) (ix_documents jx)) = total_of (ix_documents jx) + n"
    using jm_set_new [OF ok(3)] n by (simp add: total_of_def)
  have "ix_add doc ix = jx\<lparr>ix_postings := add_postings ?i m (ix_postings jx),
      ix_documents := jm_set ?i (stored_of opts doc) (ix_documents jx), ix_totalLength := ix_totalLength jx + n\<rparr>"
    by (simp add: ix_add_def jx_def [symmetric] ok(2) mn)
  moreover have "ix_inv opts (jx\<lparr>ix_postings := add_postings ?i m (ix_postings jx),
      ix_documents := jm_set ?i (stored_of opts doc) (ix_documents jx), ix_totalLength := ix_totalLength jx + n\<rparr>)
      (c(?i \<mapsto> doc))" (is "ix_inv opts ?jx _")
    unfolding ix_inv_def
  proof (intro conjI allI)
    show "posted (ix_postings ?jx) t k =
      (case (c(?i \<mapsto> doc)) k of None \<Rightarrow> None | Some d \<Rightarrow> if occurs opts d t then Some (term_weight opts d t) else None)" for t k
      using p [of t k] by simp
    show "jm_get (ix_documents ?jx) k = map_option (stored_of opts) ((c(?i \<mapsto> doc)) k)" for k
      using spec [OF ix_invD(4) [OF jx], of k] by (simp add: js_map)
    show "(c(?i \<mapsto> doc)) k = Some d \<longrightarrow> id_id d = k" for k d
      using ix_invD(5) [OF jx] by (metis fun_upd_apply option.inject)
  qed (use ix_invD(1,3,7) [OF jx] a t in simp_all)
  ultimately show ?thesis by simp
qed

lemma ix_inv_run: "ix_inv opts ix c \<Longrightarrow> ix_inv opts (fold ix_step ops ix) (fold corpus_step ops c)"
proof (induction ops arbitrary: ix c)
  case (Cons op ops)
  have "ix_inv opts (ix_step op ix) (corpus_step op c)"
    using Cons.prems
    by (cases op) (simp_all add: ix_inv_add ix_inv_remove, simp add: ix_inv_def ix_clear_def postings_ok_def posted_def total_of_def)
  then show ?case using Cons.IH by simp
qed simp

lemma ix_inv_new: "ix_inv opts (ix_new k1 b opts) Map.empty"
  by (simp add: ix_inv_def ix_new_def postings_ok_def posted_def total_of_def)

text \<open>After any additions, replacements, removals and clearings the index is that of the
  current corpus: a posting is there exactly when the current version of the document has the
  term, with its weighted frequency, no posting list is empty, the stored documents are those
  of the corpus and the total length is the sum of theirs. Nothing of a replaced or removed
  version is left.\<close>

theorem index_refines_corpus:
  "let ix = fold ix_step ops (ix_new k1 b opts); c = fold corpus_step ops Map.empty
   in (\<forall>t i. (case jm_get (ix_postings ix) t of None \<Rightarrow> None | Some bucket \<Rightarrow> jm_get bucket i) =
        (case c i of None \<Rightarrow> None
         | Some d \<Rightarrow> if occurs opts d t then Some (term_weight opts d t) else None)) \<and>
      (\<forall>t. jm_get (ix_postings ix) t \<noteq> Some []) \<and>
      (\<forall>i. jm_get (ix_documents ix) i = map_option (stored_of opts) (c i)) \<and>
      ix_totalLength ix = sum_list (map (\<lambda>(i, d). sd_length d) (ix_documents ix))"
  using ix_inv_run [OF ix_inv_new, of opts ops k1 b]
  unfolding Let_def ix_inv_def posted_def postings_ok_def total_of_def by blast


section \<open>Retrieval\<close>

lemma set_set_add [simp]: "set (set_add x xs) = insert x (set xs)"
  by (auto simp: set_add_def)

lemma distinct_set_add [simp]: "distinct (set_add x xs) \<longleftrightarrow> distinct xs"
  by (auto simp: set_add_def)












definition sample_document :: "string \<Rightarrow> string \<Rightarrow> unit index_document" where
  "sample_document i text =
     \<lparr>id_id = i, id_fields = [\<lparr>if_value = text, if_weight = 3\<rparr>], id_payload = None, id_boost = None\<rparr>"


text \<open>Two query words of one stem and \<open>requireAll\<close>: no hit, though the document has both words.\<close>

lemma require_all_same_stem_finds_nothing:
  "ix_search (\<lambda>x. x - 1) ''api apis'' 10 True None
     (ix_add (sample_document ''a'' ''Weather API'') (ix_new None None analyze_defaults)) = []"
  by code_simp

end
