(* ===== verification/JsRegex.thy ===== *)
theory JsRegex
  imports JsString
begin

text \<open>
  The regular expressions the code uses, with the backtracking semantics of JavaScript: a
  matcher gives the ends of all matches from an index in the order in which they are tried, so
  that the first one is the match. Greedy repetition is of a character class. \<open>replace\<close> with
  the global flag restarts at the end of each match.
\<close>

datatype re = Eps | Class "char \<Rightarrow> bool" | Star "char \<Rightarrow> bool" | Seq re re | Alt re re | Opt re | WordB

definition is_word :: "char \<Rightarrow> bool" where
  "is_word c \<longleftrightarrow> is_upper c \<or> is_lower c \<or> is_digit c \<or> c = CHR ''_''"

definition word_at :: "string \<Rightarrow> nat \<Rightarrow> bool" where
  "word_at s i \<longleftrightarrow> i < length s \<and> is_word (s ! i)"

definition word_before :: "string \<Rightarrow> nat \<Rightarrow> bool" where
  "word_before s i \<longleftrightarrow> 0 < i \<and> word_at s (i - 1)"

fun matches :: "re \<Rightarrow> string \<Rightarrow> nat \<Rightarrow> nat list" where
  "matches Eps s i = [i]"
| "matches (Class P) s i = (if i < length s \<and> P (s ! i) then [Suc i] else [])"
| "matches (Star P) s i = rev [i..<Suc (i + length (takeWhile P (drop i s)))]"
| "matches (Seq a b) s i = concat (map (matches b s) (matches a s i))"
| "matches (Alt a b) s i = matches a s i @ matches b s i"
| "matches (Opt a) s i = matches a s i @ [i]"
| "matches WordB s i = (if word_before s i \<noteq> word_at s i then [i] else [])"

definition Plus :: "(char \<Rightarrow> bool) \<Rightarrow> re" where
  "Plus P = Seq (Class P) (Star P)"

fun Times :: "nat \<Rightarrow> (char \<Rightarrow> bool) \<Rightarrow> re" where
  "Times 0 P = Eps"
| "Times (Suc n) P = Seq (Class P) (Times n P)"

definition AtLeast :: "nat \<Rightarrow> (char \<Rightarrow> bool) \<Rightarrow> re" where
  "AtLeast n P = Seq (Times n P) (Star P)"

fun seqs :: "re list \<Rightarrow> re" where
  "seqs [] = Eps"
| "seqs [r] = r"
| "seqs (r # rs) = Seq r (seqs rs)"

fun alts :: "re \<Rightarrow> re list \<Rightarrow> re" where
  "alts r [] = r"
| "alts r (q # qs) = Alt r (alts q qs)"

definition lit :: "string \<Rightarrow> re" where
  "lit s = seqs (map (\<lambda>c. Class (\<lambda>x. x = c)) s)"

text \<open>A literal under the flag that ignores case.\<close>

definition lit_i :: "string \<Rightarrow> re" where
  "lit_i s = seqs (map (\<lambda>c. Class (\<lambda>x. lower_char x = lower_char c)) s)"

text \<open>The first match from an index on: its start and end.\<close>

function find_from :: "re \<Rightarrow> string \<Rightarrow> nat \<Rightarrow> (nat \<times> nat) option" where
  "find_from r s i =
     (case matches r s i of
        j # _ \<Rightarrow> Some (i, j)
      | [] \<Rightarrow> if i < length s then find_from r s (Suc i) else None)"
  by pat_completeness auto

termination find_from by (relation "measure (\<lambda>(_, s, i). Suc (length s) - i)") auto

declare find_from.simps [simp del]

definition re_find :: "re \<Rightarrow> string \<Rightarrow> (nat \<times> nat) option" where
  "re_find r s = find_from r s 0"

definition re_has :: "re \<Rightarrow> string \<Rightarrow> bool" where
  "re_has r s \<longleftrightarrow> re_find r s \<noteq> None"

text \<open>The global replacement; an empty match copies a character and goes on.\<close>

function replace_from :: "re \<Rightarrow> (string \<Rightarrow> string) \<Rightarrow> string \<Rightarrow> nat \<Rightarrow> string" where
  "replace_from r f s i =
     (if length s \<le> i then (case matches r s i of [] \<Rightarrow> [] | _ \<Rightarrow> f [])
      else case matches r s i of
             [] \<Rightarrow> s ! i # replace_from r f s (Suc i)
           | j # _ \<Rightarrow>
               if i < j then f (take (j - i) (drop i s)) @ replace_from r f s j
               else f [] @ s ! i # replace_from r f s (Suc i))"
  by pat_completeness auto

termination replace_from by (relation "measure (\<lambda>(_, _, s, i). length s - i)") auto

declare replace_from.simps [simp del]

definition re_replace :: "re \<Rightarrow> (string \<Rightarrow> string) \<Rightarrow> string \<Rightarrow> string" where
  "re_replace r f s = replace_from r f s 0"

section \<open>What a replacement leaves\<close>

lemma matches_bounds: "j \<in> set (matches r s i) \<Longrightarrow> i \<le> length s \<Longrightarrow> i \<le> j \<and> j \<le> length s"
proof (induction r arbitrary: i j)
  case (Star P)
  have "length (takeWhile P (drop i s)) \<le> length (drop i s)" by (rule length_takeWhile_le)
  then show ?case using Star by auto
next
  case (Seq a b)
  then obtain k where k: "k \<in> set (matches a s i)" "j \<in> set (matches b s k)" by auto
  then show ?case using Seq.IH(1) [OF k(1) Seq.prems(2)] Seq.IH(2) [OF k(2)] by auto
qed (auto split: if_splits)

text \<open>A replacement is a cutting of the text into copied characters and rewritten matches.\<close>

definition piece_ok :: "re \<Rightarrow> string \<Rightarrow> bool \<times> string \<Rightarrow> bool" where
  "piece_ok r s p \<longleftrightarrow>
     (fst p \<longrightarrow> (\<exists>a b. a \<le> length s \<and> b \<in> set (matches r s a) \<and> snd p = take (b - a) (drop a s)))"

abbreviation render :: "(string \<Rightarrow> string) \<Rightarrow> (bool \<times> string) list \<Rightarrow> string" where
  "render f ps \<equiv> concat (map (\<lambda>(m, w). if m then f w else w) ps)"

definition consuming :: "re \<Rightarrow> string \<Rightarrow> bool" where
  "consuming r s \<longleftrightarrow> (\<forall>i j. i \<le> length s \<longrightarrow> j \<in> set (matches r s i) \<longrightarrow> i < j)"

lemma consuming_end: "consuming r s \<Longrightarrow> matches r s (length s) = []"
proof (rule ccontr)
  assume c: "consuming r s" and "matches r s (length s) \<noteq> []"
  then obtain j where j: "j \<in> set (matches r s (length s))" by (cases "matches r s (length s)") auto
  have "length s < j" using c j unfolding consuming_def by blast
  then show False using matches_bounds [OF j] by simp
qed

lemma replace_from_pieces:
  assumes "consuming r s"
  shows "i \<le> length s \<Longrightarrow>
    \<exists>ps. replace_from r f s i = render f ps \<and> concat (map snd ps) = drop i s \<and> list_all (piece_ok r s) ps"
proof (induction "length s - i" arbitrary: i rule: less_induct)
  case less
  show ?case
  proof (cases "length s \<le> i")
    case True
    then have "i = length s" using less.prems by simp
    then show ?thesis using consuming_end [OF assms]
      by (intro exI [of _ "[]"]) (simp add: replace_from.simps [of r f s "length s"])
  next
    case False
    show ?thesis
    proof (cases "matches r s i")
      case Nil
      have "\<exists>ps. replace_from r f s (Suc i) = render f ps \<and> concat (map snd ps) = drop (Suc i) s \<and>
          list_all (piece_ok r s) ps"
        using False by (intro less.hyps) simp_all
      then obtain ps where "replace_from r f s (Suc i) = render f ps" "concat (map snd ps) = drop (Suc i) s"
        "list_all (piece_ok r s) ps" by (elim exE conjE)
      then show ?thesis using False Nil
        by (intro exI [of _ "(False, [s ! i]) # ps"])
          (simp add: replace_from.simps [of r f s i] Cons_nth_drop_Suc piece_ok_def)
    next
      case (Cons j js)
      have "j \<in> set (matches r s i)" using Cons by simp
      then have j: "i < j" "j \<le> length s" "j \<in> set (matches r s i)"
        using assms matches_bounds [of j r s i] less.prems unfolding consuming_def by auto
      have "\<exists>ps. replace_from r f s j = render f ps \<and> concat (map snd ps) = drop j s \<and> list_all (piece_ok r s) ps"
        using j False by (intro less.hyps) simp_all
      then obtain ps where ps: "replace_from r f s j = render f ps" "concat (map snd ps) = drop j s"
        "list_all (piece_ok r s) ps" by (elim exE conjE)
      have "take (j - i) (drop i s) @ drop j s = drop i s"
        using j append_take_drop_id [of "j - i" "drop i s"] by simp
      moreover have "piece_ok r s (True, take (j - i) (drop i s))"
        unfolding piece_ok_def using j less.prems by (intro impI exI [of _ i] exI [of _ j] conjI) simp_all
      ultimately show ?thesis using False Cons ps j
        by (intro exI [of _ "(True, take (j - i) (drop i s)) # ps"])
          (simp add: replace_from.simps [of r f s i])
    qed
  qed
qed

lemma re_replace_pieces:
  assumes "consuming r s"
  obtains ps where "re_replace r f s = render f ps" "concat (map snd ps) = s" "list_all (piece_ok r s) ps"
proof -
  have "\<exists>ps. replace_from r f s 0 = render f ps \<and> concat (map snd ps) = drop 0 s \<and> list_all (piece_ok r s) ps"
    by (rule replace_from_pieces [OF assms]) simp
  then show ?thesis using that unfolding re_replace_def drop_0 by (elim exE conjE)
qed

text \<open>The characters a matcher of classes consumes are those of its classes.\<close>

fun within_class :: "(char \<Rightarrow> bool) \<Rightarrow> re \<Rightarrow> bool" where
  "within_class Q (Class P) = (\<forall>c. P c \<longrightarrow> Q c)"
| "within_class Q (Star P) = (\<forall>c. P c \<longrightarrow> Q c)"
| "within_class Q (Seq a b) = (within_class Q a \<and> within_class Q b)"
| "within_class Q (Alt a b) = (within_class Q a \<and> within_class Q b)"
| "within_class Q (Opt a) = within_class Q a"
| "within_class Q r = True"

lemma matches_class:
  "within_class Q r \<Longrightarrow> i \<le> length s \<Longrightarrow> j \<in> set (matches r s i) \<Longrightarrow> \<forall>k. i \<le> k \<and> k < j \<longrightarrow> Q (s ! k)"
proof (induction r arbitrary: i j)
  case (Star P)
  show ?case
  proof (intro allI impI)
    fix k assume k: "i \<le> k \<and> k < j"
    then have "k - i < length (takeWhile P (drop i s))" using Star.prems by auto
    then have "P (takeWhile P (drop i s) ! (k - i))" "takeWhile P (drop i s) ! (k - i) = drop i s ! (k - i)"
      by (metis nth_mem set_takeWhileD) (rule takeWhile_nth, fact)
    then show "Q (s ! k)" using Star.prems(1,2) k by simp
  qed
next
  case (Seq a b)
  then obtain m where m: "m \<in> set (matches a s i)" "j \<in> set (matches b s m)" by auto
  have "m \<le> length s" using matches_bounds [OF m(1) Seq.prems(2)] by simp
  then show ?case using Seq.IH(1) [OF _ Seq.prems(2) m(1)] Seq.IH(2) [OF _ _ m(2)] Seq.prems(1)
    by (metis not_le within_class.simps(3))
next
  case (Class P)
  then show ?case by (auto split: if_splits simp: less_Suc_eq)
qed (auto split: if_splits)

lemma piece_class:
  assumes "piece_ok r s (True, w)" and "within_class Q r" and "c \<in> set w"
  shows "Q c"
proof -
  obtain a b where ab: "a \<le> length s" "b \<in> set (matches r s a)" "w = take (b - a) (drop a s)"
    using assms(1) by (auto simp: piece_ok_def)
  obtain n where n: "n < length w" "w ! n = c" using assms(3) by (auto simp: in_set_conv_nth)
  then have "n < b - a" "c = s ! (a + n)" using ab(3) by auto
  then show ?thesis using matches_class [OF assms(2) ab(1,2)] by simp
qed

end
