(* ===== verification/QueryParser.thy ===== *)
theory QueryParser
  imports JsRegex TextAnalysis
begin

text \<open>
  Query parsing and highlighting (\<open>apps/api/src/modules/search/query-parser.ts\<close>) over the
  regular expressions of \<open>JsRegex\<close> and the analyser of \<open>TextAnalysis\<close>. The lemmas are the two
  safety promises of the file: what is sent to \<open>to_tsquery\<close> is always a well-formed query of
  plain lexemes, and what is sent to the page holds no markup but the marks.
\<close>

record inferred_filters =
  qi_free :: "bool option"
  qi_noAuth :: "bool option"
  qi_httpsOnly :: "bool option"
  qi_corsRequired :: "bool option"

record parsed_query =
  pq_tsquery :: string
  pq_terms :: "string list"
  pq_cleanedText :: string
  pq_inferred :: inferred_filters

abbreviation space_or_dash :: "char \<Rightarrow> bool" where
  "space_or_dash c \<equiv> is_space c \<or> c = CHR ''-''"

abbreviation api_prefix :: re where
  "api_prefix \<equiv> Opt (Seq (lit_i ''api'') (Opt (Class space_or_dash)))"

definition INTENT_PATTERNS :: "(re \<times> (inferred_filters \<Rightarrow> inferred_filters)) list" where
  "INTENT_PATTERNS =
     [(seqs [WordB, lit_i ''no'', Opt (Class space_or_dash), lit_i ''auth'', Opt (lit_i ''entication''), WordB],
       qi_noAuth_update (\<lambda>_. Some True)),
      (seqs [WordB, lit_i ''without'', Plus is_space,
             Opt (seqs [lit_i ''a'', Opt (lit_i ''n''), Plus is_space]), api_prefix, lit_i ''key'', WordB],
       qi_noAuth_update (\<lambda>_. Some True)),
      (seqs [WordB, lit_i ''no'', Plus is_space, api_prefix, lit_i ''key'', WordB],
       qi_noAuth_update (\<lambda>_. Some True)),
      (seqs [WordB, lit_i ''keyless'', WordB], qi_noAuth_update (\<lambda>_. Some True)),
      (seqs [WordB, lit_i ''free'', WordB], qi_free_update (\<lambda>_. Some True)),
      (seqs [WordB, lit_i ''no'', Plus is_space, lit_i ''cost'', WordB], qi_free_update (\<lambda>_. Some True)),
      (seqs [WordB, lit_i ''https'', Plus is_space, lit_i ''only'', WordB], qi_httpsOnly_update (\<lambda>_. Some True)),
      (seqs [WordB, lit_i ''secure'', Plus is_space, lit_i ''only'', WordB], qi_httpsOnly_update (\<lambda>_. Some True)),
      (seqs [WordB, lit_i ''cors'', Plus is_space,
             Alt (lit_i ''enabled'') (Seq (lit_i ''support'') (Opt (lit_i ''ed''))), WordB],
       qi_corsRequired_update (\<lambda>_. Some True)),
      (seqs [WordB, lit_i ''browser'', Opt (Class space_or_dash), lit_i ''friendly'', WordB],
       qi_corsRequired_update (\<lambda>_. Some True))]"

definition QUERY_NOISE :: "string list" where
  "QUERY_NOISE =
     [''api'', ''apis'', ''endpoint'', ''endpoints'', ''service'', ''services'',
      ''need'', ''want'', ''looking'', ''find'', ''get'', ''give'', ''show'', ''best'', ''good'',
      ''some'', ''any'', ''please'', ''help'', ''me'', ''i'', ''my'']"

definition alnum_any :: "char \<Rightarrow> bool" where
  "alnum_any c \<longleftrightarrow> is_lower c \<or> is_upper c \<or> is_digit c"

definition sanitizeToken :: "string \<Rightarrow> string" where
  "sanitizeToken token = filter alnum_any token"

definition lexemes :: "string list \<Rightarrow> string list" where
  "lexemes terms = filter (\<lambda>token. token \<noteq> []) (map sanitizeToken terms)"

fun strip_intents ::
  "(re \<times> (inferred_filters \<Rightarrow> inferred_filters)) list \<Rightarrow> inferred_filters \<Rightarrow> string \<Rightarrow> inferred_filters \<times> string"
where
  "strip_intents [] inferred text = (inferred, text)"
| "strip_intents ((pattern, apply_to) # ps) inferred text =
     (if re_has pattern text
      then strip_intents ps (apply_to inferred) (re_replace pattern (\<lambda>_. '' '') text)
      else strip_intents ps inferred text)"

definition parseQuery :: "string \<Rightarrow> bool option \<Rightarrow> parsed_query" where
  "parseQuery input prefixMatch =
     (let prefix = (case prefixMatch of Some b \<Rightarrow> b | None \<Rightarrow> True);
          none = \<lparr>qi_free = None, qi_noAuth = None, qi_httpsOnly = None, qi_corsRequired = None\<rparr>;
          (inferred, cleanedText) = strip_intents INTENT_PATTERNS none input;
          analysed = filter (\<lambda>t. t \<notin> set QUERY_NOISE) (analyze cleanedText analyze_defaults);
          terms = (if analysed \<noteq> [] then analysed else analyze cleanedText analyze_defaults);
          tsquery = join '' & '' (map (\<lambda>token. if prefix then token @ '':*'' else token) (lexemes terms))
      in \<lparr>pq_tsquery = tsquery, pq_terms = terms, pq_cleanedText = trim cleanedText, pq_inferred = inferred\<rparr>)"

definition toOrQuery :: "parsed_query \<Rightarrow> string" where
  "toOrQuery parsed = join '' | '' (map (\<lambda>token. token @ '':*'') (lexemes (pq_terms parsed)))"

definition replace_char :: "char \<Rightarrow> string \<Rightarrow> string \<Rightarrow> string" where
  "replace_char c by s = concat (map (\<lambda>x. if x = c then by else [x]) s)"

definition escape_snippet :: "string \<Rightarrow> string" where
  "escape_snippet text =
     replace_char (CHR 0x22) ''&quot;'' (replace_char (CHR ''>'') ''&gt;''
       (replace_char (CHR ''<'') ''&lt;'' (replace_char (CHR ''&'') ''&amp;'' text)))"

text \<open>The matcher \<open>\\b(t1|t2|...)\\w*\<close>, without regard to case; sanitised terms hold no character
  with a meaning in a regular expression.\<close>

definition highlight_matcher :: "string \<Rightarrow> string list \<Rightarrow> re" where
  "highlight_matcher t ts = seqs [WordB, alts (lit_i t) (map lit_i ts), Star is_word]"

definition mark :: "string \<Rightarrow> string" where
  "mark w = ''<mark>'' @ w @ ''</mark>''"

definition highlight :: "string \<Rightarrow> string list \<Rightarrow> nat \<Rightarrow> string option" where
  "highlight text terms maxLength =
     (if text = [] \<or> terms = [] then None
      else
        let escaped = escape_snippet text in
        case filter (\<lambda>term. 2 < length term) (map sanitizeToken terms) of
          [] \<Rightarrow> None
        | t # ts \<Rightarrow>
            let matcher = highlight_matcher t ts;
                firstMatch = re_find matcher escaped;
                snippet =
                  (if maxLength < length escaped
                   then let start = (case firstMatch of Some (i, _) \<Rightarrow> i | None \<Rightarrow> 0) - 60
                        in (if 0 < start then ''...'' else []) @ take maxLength (drop start escaped) @ ''...''
                   else escaped);
                marked = re_replace matcher mark snippet
            in if marked = snippet \<and> firstMatch = None then None else Some marked)"

section \<open>Well-formed queries\<close>

lemma lexemes_safe: "l \<in> set (lexemes terms) \<Longrightarrow> l \<noteq> [] \<and> (\<forall>c\<in>set l. alnum_any c)"
  by (auto simp: lexemes_def sanitizeToken_def)

text \<open>C31: Whatever the user types, the queries sent to the database are lexemes of letters and
  digits, none empty, each with the prefix operator when prefixes are asked for, joined by one
  operator: no character of the input can act as an operator or make the query malformed.\<close>

theorem parseQuery_tsquery_safe:
  "\<exists>ls. pq_tsquery (parseQuery input prefixMatch) =
      join '' & '' (map (\<lambda>l. if prefixMatch = Some False then l else l @ '':*'') ls) \<and>
    toOrQuery (parseQuery input prefixMatch) = join '' | '' (map (\<lambda>l. l @ '':*'') ls) \<and>
    list_all (\<lambda>l. l \<noteq> [] \<and> list_all alnum_any l) ls"
proof (intro exI [of _ "lexemes (pq_terms (parseQuery input prefixMatch))"] conjI)
  let ?ls = "lexemes (pq_terms (parseQuery input prefixMatch))"
  show "list_all (\<lambda>l. l \<noteq> [] \<and> list_all alnum_any l) ?ls"
    using lexemes_safe by (simp add: list_all_iff)
  show "toOrQuery (parseQuery input prefixMatch) = join '' | '' (map (\<lambda>l. l @ '':*'') ?ls)"
    by (simp add: toOrQuery_def)
  show "pq_tsquery (parseQuery input prefixMatch) =
      join '' & '' (map (\<lambda>l. if prefixMatch = Some False then l else l @ '':*'') ?ls)"
  proof (cases prefixMatch)
    case None
    then show ?thesis by (simp add: parseQuery_def Let_def split_beta)
  next
    case (Some b)
    then show ?thesis by (cases b) (simp_all add: parseQuery_def Let_def split_beta)
  qed
qed

section \<open>Safe highlighting\<close>

definition no_markup :: "string \<Rightarrow> bool" where
  "no_markup s \<longleftrightarrow> list_all (\<lambda>c. c \<noteq> CHR ''<'' \<and> c \<noteq> CHR ''>'' \<and> c \<noteq> CHR 0x22) s"


lemma set_replace_char: "x \<in> set (replace_char c by s) \<Longrightarrow> x \<in> set by \<or> x \<in> set s \<and> x \<noteq> c"
  by (induction s) (auto simp: replace_char_def split: if_splits)

lemma escape_no_markup: "no_markup (escape_snippet text)"
  unfolding no_markup_def escape_snippet_def list_all_iff
  by (auto dest!: set_replace_char)

lemma no_markup_append [simp]: "no_markup (s @ t) \<longleftrightarrow> no_markup s \<and> no_markup t"
  by (simp add: no_markup_def)

lemma no_markup_part: "no_markup s \<Longrightarrow> set t \<subseteq> set s \<Longrightarrow> no_markup t"
  by (auto simp: no_markup_def list_all_iff)

lemma lower_alnum: "lower_char x = lower_char c \<Longrightarrow> alnum_any c \<Longrightarrow> is_word x"
proof -
  assume eq: "lower_char x = lower_char c" and c: "alnum_any c"
  have l: "is_lower (lower_char c) \<or> is_digit (lower_char c)"
    using c by (auto simp: alnum_any_def lower_char_def is_upper_def is_lower_def)
  then show ?thesis using eq by (cases "is_upper x") (auto simp: is_word_def lower_char_def)
qed

lemma within_seqs: "(\<forall>r\<in>set rs. within_class Q r) \<Longrightarrow> within_class Q (seqs rs)"
  by (induction rs rule: seqs.induct) auto

lemma within_alts: "within_class Q r \<Longrightarrow> (\<forall>q\<in>set qs. within_class Q q) \<Longrightarrow> within_class Q (alts r qs)"
  by (induction r qs rule: alts.induct) auto

lemma within_lit_i: "\<forall>c\<in>set t. alnum_any c \<Longrightarrow> within_class is_word (lit_i t)"
  unfolding lit_i_def by (rule within_seqs) (auto dest: lower_alnum)

lemma lit_i_consumes: "t \<noteq> [] \<Longrightarrow> j \<in> set (matches (lit_i t) s i) \<Longrightarrow> i < j"
proof (induction t arbitrary: i)
  case (Cons c t)
  show ?case
  proof (cases t)
    case Nil
    then show ?thesis using Cons.prems by (simp add: lit_i_def split: if_splits)
  next
    case (Cons d u)
    then have "lit_i (c # t) = Seq (Class (\<lambda>x. lower_char x = lower_char c)) (lit_i t)" by (simp add: lit_i_def)
    then have "j \<in> set (matches (lit_i t) s (Suc i))" using Cons.prems(2) by (simp split: if_splits)
    from Cons.IH [OF _ this] Cons show ?thesis by simp
  qed
qed simp

lemma alts_consumes:
  "(\<forall>q\<in>set (r # qs). \<forall>i j. j \<in> set (matches q s i) \<longrightarrow> i < j) \<Longrightarrow> j \<in> set (matches (alts r qs) s i) \<Longrightarrow> i < j"
  by (induction r qs rule: alts.induct) auto

lemma highlight_matcher_facts:
  assumes "\<forall>u\<in>set (t # ts). u \<noteq> [] \<and> (\<forall>c\<in>set u. alnum_any c)"
  shows "consuming (highlight_matcher t ts) s" "within_class is_word (highlight_matcher t ts)"
proof -
  show "within_class is_word (highlight_matcher t ts)"
    using assms within_alts [of is_word "lit_i t" "map lit_i ts"] within_lit_i
    by (auto simp: highlight_matcher_def)
  show "consuming (highlight_matcher t ts) s"
    unfolding consuming_def
  proof (intro allI impI)
    fix i j assume i: "i \<le> length s" and j: "j \<in> set (matches (highlight_matcher t ts) s i)"
    then obtain k where k: "k \<in> set (matches (alts (lit_i t) (map lit_i ts)) s i)" "j \<in> set (matches (Star is_word) s k)"
      by (auto simp: highlight_matcher_def split: if_splits)
    have "i < k" by (rule alts_consumes [OF _ k(1)]) (use assms lit_i_consumes in auto)
    moreover have "k \<le> length s" using matches_bounds [OF k(1) i] by simp
    ultimately show "i < j" using matches_bounds [OF k(2)] by simp
  qed
qed

text \<open>Whatever the text and the terms, the highlighted snippet is made of pieces without
  angle brackets and double quotes, the marked ones being word characters only: the mark tags
  are its only markup.\<close>

theorem highlight_no_injection:
  "case highlight text terms maxLength of
     None \<Rightarrow> True
   | Some out \<Rightarrow> \<exists>ps. out = concat (map (\<lambda>(m, w). if m then mark w else w) ps) \<and>
       list_all (\<lambda>(m, w). no_markup w \<and> (if m then list_all is_word w else True)) ps"
proof (cases "highlight text terms maxLength")
  case (Some out)
  let ?e = "escape_snippet text"
  obtain t ts where ts: "filter (\<lambda>term. 2 < length term) (map sanitizeToken terms) = t # ts"
    using Some by (cases "filter (\<lambda>term. 2 < length term) (map sanitizeToken terms)")
      (auto simp: highlight_def Let_def split: if_splits)
  let ?m = "highlight_matcher t ts"
  let ?start = "(case re_find ?m ?e of Some (i, _) \<Rightarrow> i | None \<Rightarrow> 0) - 60"
  let ?s = "if maxLength < length ?e
    then (if 0 < ?start then ''...'' else []) @ take maxLength (drop ?start ?e) @ ''...'' else ?e"
  have out: "out = re_replace ?m mark ?s"
    using Some ts by (simp add: highlight_def Let_def split: if_splits)
  have "\<forall>u\<in>set (t # ts). u \<noteq> [] \<and> (\<forall>c\<in>set u. alnum_any c)"
  proof
    fix u assume "u \<in> set (t # ts)"
    then have "u \<in> set (filter (\<lambda>term. 2 < length term) (map sanitizeToken terms))" by (simp only: ts)
    then show "u \<noteq> [] \<and> (\<forall>c\<in>set u. alnum_any c)" by (auto simp: sanitizeToken_def)
  qed
  note facts = highlight_matcher_facts [OF this]
  have esc: "no_markup ?e" by (rule escape_no_markup)
  have dots: "no_markup ''...''" by (simp add: no_markup_def)
  have snip: "no_markup ?s"
    using esc dots
    by (auto simp: no_markup_def list_all_iff dest: in_set_takeD in_set_dropD)
  obtain ps where ps: "re_replace ?m mark ?s = render mark ps" "concat (map snd ps) = ?s" "list_all (piece_ok ?m ?s) ps"
    by (rule re_replace_pieces [OF facts(1)])
  have "list_all (\<lambda>(m, w). no_markup w \<and> (if m then list_all is_word w else True)) ps"
    unfolding list_all_iff
  proof (intro ballI, clarify)
    fix m w assume p: "(m, w) \<in> set ps"
    have "set w \<subseteq> set ?s" unfolding ps(2) [symmetric] using p by force
    then have "no_markup w" by (rule no_markup_part [OF snip])
    moreover have "list_all is_word w" if m
      using ps(3) p that piece_class [of ?m ?s w is_word] facts(2) by (auto simp: list_all_iff)
    ultimately show "no_markup w \<and> (if m then \<forall>x\<in>set w. is_word x else True)" by (simp add: list_all_iff)
  qed
  moreover have "out = concat (map (\<lambda>(m, w). if m then mark w else w) ps)"
    using out ps(1) by (rule trans)
  ultimately show ?thesis unfolding Some option.case by (intro exI [of _ ps] conjI)
qed simp

text \<open>The matcher runs on the escaped text: a term can match inside a character reference.\<close>

lemma highlight_breaks_entity: "highlight ''AT&T'' [''amp''] 220 = Some ''AT&<mark>amp</mark>;T''"
  by code_simp

end
