(* ===== verification/RegexWindow.thy ===== *)
theory RegexWindow
  imports JsRegex
begin

text \<open>
  Matching as a relation between a pattern, the text before a window, the window and the text
  after it. The matcher of \<^theory_text>\<open>JsRegex\<close> finds exactly these windows, and a global
  replacement by a marker in brackets creates no new window of any pattern that consumes no
  bracket: this is what makes a chain of such replacements complete.
\<close>

definition word_last :: "string \<Rightarrow> bool" where
  "word_last x \<longleftrightarrow> x \<noteq> [] \<and> is_word (List.last x)"

definition word_first :: "string \<Rightarrow> bool" where
  "word_first y \<longleftrightarrow> y \<noteq> [] \<and> is_word (hd y)"

fun win :: "re \<Rightarrow> string \<Rightarrow> string \<Rightarrow> string \<Rightarrow> bool" where
  "win Eps x w y = (w = [])"
| "win (Class P) x w y = (\<exists>c. w = [c] \<and> P c)"
| "win (Star P) x w y = list_all P w"
| "win (Seq a b) x w y = (\<exists>u v. w = u @ v \<and> win a x u (v @ y) \<and> win b (x @ u) v y)"
| "win (Alt a b) x w y = (win a x w y \<or> win b x w y)"
| "win (Opt a) x w y = (win a x w y \<or> w = [])"
| "win WordB x w y = (w = [] \<and> word_last x \<noteq> word_first y)"

section \<open>The matcher finds the windows\<close>

lemma word_last_before: "word_last x = word_before (x @ z) (length x)"
  by (cases x rule: rev_cases) (auto simp: word_last_def word_before_def word_at_def nth_append)

lemma word_first_at: "word_first y = word_at (x @ y) (length x)"
  by (cases y) (auto simp: word_first_def word_at_def)

lemma takeWhile_length_iff:
  "n \<le> length (takeWhile P s) \<longleftrightarrow> n \<le> length s \<and> list_all P (take n s)"
proof (induction s arbitrary: n)
  case (Cons c s)
  then show ?case by (cases n) auto
qed simp

lemma matches_win:
  "j \<in> set (matches r s i) \<longleftrightarrow> i \<le> j \<and> j \<le> length s \<and> win r (take i s) (take (j - i) (drop i s)) (drop j s)"
  if "i \<le> length s"
  using that
proof (induction r arbitrary: i j)
  case (Star P)
  have "j \<in> set (matches (Star P) s i) \<longleftrightarrow> i \<le> j \<and> j - i \<le> length (takeWhile P (drop i s))" by auto
  also have "\<dots> \<longleftrightarrow> i \<le> j \<and> j - i \<le> length s - i \<and> list_all P (take (j - i) (drop i s))"
    by (simp add: takeWhile_length_iff)
  finally show ?case using Star by auto
next
  case (Class P)
  show ?case
  proof (cases "j = Suc i \<and> i < length s")
    case True
    then have "take (j - i) (drop i s) = [s ! i]" by (simp add: take_Suc_conv_app_nth)
    then show ?thesis using True by auto
  next
    case False
    have "\<not> (i \<le> j \<and> j \<le> length s \<and> (\<exists>c. take (j - i) (drop i s) = [c] \<and> P c))"
    proof (intro notI, elim conjE exE)
      fix c assume "i \<le> j" "j \<le> length s" "take (j - i) (drop i s) = [c]"
      from this(3) [THEN arg_cong, of length] this(1,2) have "j = Suc i" by simp
      with \<open>j \<le> length s\<close> False show False by simp
    qed
    then show ?thesis using False by auto
  qed
next
  case (Seq a b)
  have split: "take (j - i) (drop i s) = take (k - i) (drop i s) @ take (j - k) (drop k s)"
    if "i \<le> k" "k \<le> j" for k
    using take_add [of "k - i" "j - k" "drop i s"] that by (simp add: add.commute)
  show ?case
  proof
    assume "j \<in> set (matches (Seq a b) s i)"
    then obtain k where k: "k \<in> set (matches a s i)" "j \<in> set (matches b s k)" by auto
    have a: "i \<le> k" "k \<le> length s" "win a (take i s) (take (k - i) (drop i s)) (drop k s)"
      using Seq.IH(1) [OF Seq.prems] k(1) by auto
    have b: "k \<le> j" "j \<le> length s" "win b (take k s) (take (j - k) (drop k s)) (drop j s)"
      using Seq.IH(2) [OF a(2)] k(2) by auto
    have "drop k s = take (j - k) (drop k s) @ drop j s"
      using append_take_drop_id [of "j - k" "drop k s"] b(1) by simp
    moreover have "take k s = take i s @ take (k - i) (drop i s)"
      using take_add [of i "k - i" s] a(1) by simp
    ultimately have "win (Seq a b) (take i s) (take (j - i) (drop i s)) (drop j s)"
      unfolding win.simps using a b split [OF a(1) b(1)] by metis
    then show "i \<le> j \<and> j \<le> length s \<and> win (Seq a b) (take i s) (take (j - i) (drop i s)) (drop j s)"
      using a b by simp
  next
    assume w: "i \<le> j \<and> j \<le> length s \<and> win (Seq a b) (take i s) (take (j - i) (drop i s)) (drop j s)"
    then obtain u v where uv: "take (j - i) (drop i s) = u @ v" "win a (take i s) u (v @ drop j s)"
      "win b (take i s @ u) v (drop j s)" by auto
    let ?k = "i + length u"
    have ij: "i \<le> j" "j \<le> length s" using w by auto
    have len: "length u + length v = j - i" using ij uv(1) [THEN arg_cong, of length] by simp
    have k: "i \<le> ?k" "?k \<le> j" using len ij by auto
    have u: "u = take (?k - i) (drop i s)"
      using uv(1) split [OF k] ij k len by (simp add: append_eq_append_conv)
    then have v: "v = take (j - ?k) (drop ?k s)" using uv(1) split [OF k] by simp
    have "drop ?k s = v @ drop j s"
      using append_take_drop_id [of "j - ?k" "drop ?k s"] k v by simp
    then have a: "?k \<in> set (matches a s i)"
      using Seq.IH(1) [OF Seq.prems, of ?k] uv(2) u ij k by simp
    have "take ?k s = take i s @ u" using take_add [of i "length u" s] u by simp
    then have "j \<in> set (matches b s ?k)"
      using Seq.IH(2) [of ?k j] uv(3) v ij k by simp
    then show "j \<in> set (matches (Seq a b) s i)" using a by auto
  qed
next
  case WordB
  have "word_last (take i s) = word_before s i" "word_first (drop i s) = word_at s i"
    using word_last_before [of "take i s" "drop i s"] word_first_at [of "drop i s" "take i s"] WordB by auto
  then show ?case using WordB by auto
qed auto

definition unmatched :: "re \<Rightarrow> string \<Rightarrow> bool" where
  "unmatched r s \<longleftrightarrow> (\<forall>i \<le> length s. matches r s i = [])"

lemma unmatched_win: "unmatched r s \<longleftrightarrow> (\<forall>x w y. s = x @ w @ y \<longrightarrow> \<not> win r x w y)"
proof
  assume u: "unmatched r s"
  show "\<forall>x w y. s = x @ w @ y \<longrightarrow> \<not> win r x w y"
  proof (intro allI impI notI)
    fix x w y assume s: "s = x @ w @ y" and "win r x w y"
    then have "length x + length w \<in> set (matches r s (length x))"
      by (subst matches_win) auto
    then show False using u s by (auto simp: unmatched_def)
  qed
next
  assume n: "\<forall>x w y. s = x @ w @ y \<longrightarrow> \<not> win r x w y"
  show "unmatched r s"
    unfolding unmatched_def
  proof (intro allI impI)
    fix i assume i: "i \<le> length s"
    have "j \<notin> set (matches r s i)" for j
    proof
      assume "j \<in> set (matches r s i)"
      then have j: "i \<le> j" "win r (take i s) (take (j - i) (drop i s)) (drop j s)"
        using matches_win [OF i] by auto
      have "s = take i s @ take (j - i) (drop i s) @ drop j s"
        using append_take_drop_id [of "j - i" "drop i s"] append_take_drop_id [of i s] j(1) by simp
      then show False using n j(2) by blast
    qed
    then show "matches r s i = []" by (cases "matches r s i") auto
  qed
qed

lemma find_from_None: "find_from r s i = None \<longleftrightarrow> (\<forall>k. i \<le> k \<and> k \<le> length s \<longrightarrow> matches r s k = [])"
  if "i \<le> length s"
  using that
proof (induction "length s - i" arbitrary: i)
  case 0
  then have "i = length s" by simp
  then show ?case by (subst find_from.simps) (auto split: list.splits)
next
  case (Suc n)
  have "find_from r s (Suc i) = None \<longleftrightarrow> (\<forall>k. Suc i \<le> k \<and> k \<le> length s \<longrightarrow> matches r s k = [])"
    using Suc by (intro Suc.hyps) auto
  moreover have "(\<forall>k. i \<le> k \<and> k \<le> length s \<longrightarrow> matches r s k = []) \<longleftrightarrow>
      matches r s i = [] \<and> (\<forall>k. Suc i \<le> k \<and> k \<le> length s \<longrightarrow> matches r s k = [])"
    using Suc.prems by (metis Suc_leD le_refl not_less_eq_eq order_antisym_conv)
  ultimately show ?case using Suc by (subst find_from.simps) (auto split: list.splits)
qed

lemma re_has_unmatched: "re_has r s \<longleftrightarrow> \<not> unmatched r s"
  by (simp add: re_has_def re_find_def unmatched_def find_from_None)

lemma replace_unmatched: "unmatched r s \<Longrightarrow> re_replace r f s = s"
proof -
  assume u: "unmatched r s"
  have "i \<le> length s \<Longrightarrow> replace_from r f s i = drop i s" for i
  proof (induction "length s - i" arbitrary: i)
    case 0
    then show ?case using u by (simp add: replace_from.simps [of r f s i] unmatched_def)
  next
    case (Suc n)
    have "replace_from r f s (Suc i) = drop (Suc i) s" using Suc by (intro Suc.hyps) auto
    then show ?case using u Suc by (simp add: replace_from.simps [of r f s i] unmatched_def Cons_nth_drop_Suc)
  qed
  then show ?thesis by (simp add: re_replace_def)
qed

section \<open>Windows in another context\<close>

definition boundary :: "string \<Rightarrow> string \<Rightarrow> bool" where
  "boundary x y \<longleftrightarrow> word_last x \<noteq> word_first y"

lemma word_last_append [simp]: "v \<noteq> [] \<Longrightarrow> word_last (u @ v) = word_last v"
  by (simp add: word_last_def)

lemma word_first_append [simp]: "u \<noteq> [] \<Longrightarrow> word_first (u @ v) = word_first u"
  by (simp add: word_first_def)

lemma word_last_Nil [simp]: "\<not> word_last []" and word_first_Nil [simp]: "\<not> word_first []"
  by (simp_all add: word_last_def word_first_def)

lemma win_context:
  "win r x w y \<Longrightarrow>
   (\<And>u v. w = u @ v \<Longrightarrow> boundary (x @ u) (v @ y) \<Longrightarrow> boundary (x' @ u) (v @ y')) \<Longrightarrow> win r x' w y'"
proof (induction r arbitrary: x w y x' y')
  case (Seq a b)
  then obtain u v where uv: "w = u @ v" "win a x u (v @ y)" "win b (x @ u) v y" by auto
  have "win a x' u (v @ y')"
  proof (rule Seq.IH(1) [OF uv(2)])
    fix u1 u2 assume "u = u1 @ u2" and "boundary (x @ u1) (u2 @ v @ y)"
    then show "boundary (x' @ u1) (u2 @ v @ y')" using Seq.prems(2) [of u1 "u2 @ v"] uv(1) by simp
  qed
  moreover have "win b (x' @ u) v y'"
  proof (rule Seq.IH(2) [OF uv(3)])
    fix v1 v2 assume "v = v1 @ v2" and "boundary ((x @ u) @ v1) (v2 @ y)"
    then show "boundary ((x' @ u) @ v1) (v2 @ y')" using Seq.prems(2) [of "u @ v1" v2] uv(1) by simp
  qed
  ultimately show ?case using uv(1) by auto
next
  case (Alt a b)
  show ?case using Alt.prems(1) Alt.IH(1) [OF _ Alt.prems(2)] Alt.IH(2) [OF _ Alt.prems(2)] by auto
next
  case (Opt a)
  show ?case using Opt.prems(1) Opt.IH [OF _ Opt.prems(2)] by auto
next
  case WordB
  then show ?case using WordB.prems(2) [of "[]" "[]"] by (simp add: boundary_def)
qed auto

lemma win_edges:
  assumes "win r x w y" and "w \<noteq> []"
    and "boundary x w \<Longrightarrow> boundary x' w" and "boundary w y \<Longrightarrow> boundary w y'"
  shows "win r x' w y'"
proof (rule win_context [OF assms(1)])
  fix u v assume w: "w = u @ v" and b: "boundary (x @ u) (v @ y)"
  show "boundary (x' @ u) (v @ y')"
    using assms(2-4) w b by (cases "u = []"; cases "v = []") (simp_all add: boundary_def)
qed

text \<open>A character of a class that every window of a pattern contains.\<close>

fun demands :: "(char \<Rightarrow> bool) \<Rightarrow> re \<Rightarrow> bool" where
  "demands Q (Class P) = (\<forall>c. P c \<longrightarrow> Q c)"
| "demands Q (Seq a b) = (demands Q a \<or> demands Q b)"
| "demands Q (Alt a b) = (demands Q a \<and> demands Q b)"
| "demands Q r = False"

lemma win_demands: "win r x w y \<Longrightarrow> demands Q r \<Longrightarrow> \<exists>c\<in>set w. Q c"
proof (induction r arbitrary: x w y)
  case (Seq a b)
  then obtain u v where "w = u @ v" "win a x u (v @ y)" "win b (x @ u) v y" by auto
  then show ?case using Seq.IH Seq.prems(2) by fastforce
qed auto

lemma win_within: "win r x w y \<Longrightarrow> within_class Q r \<Longrightarrow> list_all Q w"
proof (induction r arbitrary: x w y)
  case (Seq a b)
  then obtain u v where "w = u @ v" "win a x u (v @ y)" "win b (x @ u) v y" by auto
  then show ?case using Seq.IH Seq.prems(2) by (auto simp: list_all_append)
qed (auto simp: list_all_iff)

section \<open>Replacement by a bracketed marker\<close>

definition plain :: "char \<Rightarrow> bool" where
  "plain c \<longleftrightarrow> c \<noteq> CHR ''['' \<and> c \<noteq> CHR '']''"

definition bracketed :: "string \<Rightarrow> bool" where
  "bracketed m \<longleftrightarrow> m \<noteq> [] \<and> hd m = CHR ''['' \<and> List.last m = CHR '']''"

text \<open>A match neither starts nor ends inside a word.\<close>

definition clean_start :: "re \<Rightarrow> string \<Rightarrow> bool" where
  "clean_start r s \<longleftrightarrow> (\<forall>i \<le> length s. matches r s i \<noteq> [] \<longrightarrow> word_last (take i s) \<longrightarrow> \<not> word_first (drop i s))"

definition clean_end :: "re \<Rightarrow> string \<Rightarrow> bool" where
  "clean_end r s \<longleftrightarrow>
     (\<forall>i \<le> length s. \<forall>j js. matches r s i = j # js \<longrightarrow> word_first (drop j s) \<longrightarrow> \<not> word_last (take j s))"

lemma replace_from_end: "consuming r s \<Longrightarrow> length s \<le> i \<Longrightarrow> i \<le> length s \<Longrightarrow> replace_from r f s i = []"
  using consuming_end [of r s] by (simp add: replace_from.simps [of r f s i])

lemma replace_from_copy:
  "i < length s \<Longrightarrow> matches r s i = [] \<Longrightarrow> replace_from r f s i = s ! i # replace_from r f s (Suc i)"
  by (simp add: replace_from.simps [of r f s i])

lemma replace_from_match:
  assumes "consuming r s" and "i < length s" and "matches r s i = j # js"
  shows "i < j" "j \<le> length s" "replace_from r f s i = f (take (j - i) (drop i s)) @ replace_from r f s j"
proof -
  have j: "j \<in> set (matches r s i)" using assms(3) by simp
  show "i < j" using assms(1,2) j unfolding consuming_def by (meson less_imp_le)
  then show "replace_from r f s i = f (take (j - i) (drop i s)) @ replace_from r f s j"
    using assms(2,3) by (simp add: replace_from.simps [of r f s i])
  show "j \<le> length s" using matches_bounds [OF j] assms(2) by simp
qed

lemma replace_prefix:
  assumes "consuming r s" and "bracketed m"
  shows "i \<le> length s \<Longrightarrow> replace_from r (\<lambda>_. m) s i = w @ y \<Longrightarrow> list_all plain w \<Longrightarrow>
    i + length w \<le> length s \<and> w = take (length w) (drop i s) \<and> y = replace_from r (\<lambda>_. m) s (i + length w)"
proof (induction w arbitrary: i)
  case (Cons c w)
  have i: "i < length s" using Cons.prems replace_from_end [OF assms(1), of i] by fastforce
  show ?case
  proof (cases "matches r s i")
    case Nil
    have eq: "s ! i # replace_from r (\<lambda>_. m) s (Suc i) = c # w @ y"
      using Cons.prems(2) replace_from_copy [OF i Nil] by simp
    then show ?thesis using Cons.IH [of "Suc i"] Cons.prems(3) i by (simp add: Cons_nth_drop_Suc [symmetric])
  next
    case (Cons j js)
    then have "m @ replace_from r (\<lambda>_. m) s j = c # w @ y"
      using replace_from_match(3) [OF assms(1) i Cons, of "\<lambda>_. m"] \<open>replace_from r (\<lambda>_. m) s i = (c # w) @ y\<close> by simp
    then have "c = hd m" using assms(2) by (cases m) (auto simp: bracketed_def)
    then show ?thesis using assms(2) \<open>list_all plain (c # w)\<close> by (simp add: bracketed_def plain_def)
  qed
qed simp

lemma replace_right_edge:
  assumes "consuming r s" "bracketed m" "clean_start r s" "k \<le> length s"
    and "word_last w = word_last (take k s)" and "boundary w (replace_from r (\<lambda>_. m) s k)"
  shows "boundary w (drop k s)"
proof (cases "k = length s")
  case True
  then show ?thesis using assms(6) replace_from_end [OF assms(1), of k] by simp
next
  case False
  then have k: "k < length s" using assms(4) by simp
  show ?thesis
  proof (cases "matches r s k")
    case Nil
    then show ?thesis using assms(6) k replace_from_copy [OF k Nil, of "\<lambda>_. m"]
      by (simp add: boundary_def word_first_def hd_drop_conv_nth)
  next
    case (Cons j js)
    have "\<not> word_first (m @ replace_from r (\<lambda>_. m) s j)"
      using assms(2) by (cases m) (auto simp: bracketed_def word_first_def is_word_def is_upper_def is_lower_def is_digit_def)
    then have "word_last w"
      using assms(6) replace_from_match(3) [OF assms(1) k Cons, of "\<lambda>_. m"] by (simp add: boundary_def)
    then show ?thesis using assms(3-5) Cons by (auto simp: boundary_def clean_start_def)
  qed
qed

definition left_ok :: "string \<Rightarrow> string \<Rightarrow> nat \<Rightarrow> bool" where
  "left_ok pre s i \<longleftrightarrow> word_last pre = word_last (take i s) \<or>
     \<not> word_last pre \<and> (word_first (drop i s) \<longrightarrow> \<not> word_last (take i s))"

lemma replace_window:
  assumes "consuming r s" "bracketed m" "clean_start r s" "clean_end r s"
    and "within_class plain q" and "demands (\<lambda>c. c \<notin> set m) q"
  shows "i \<le> length s \<Longrightarrow> replace_from r (\<lambda>_. m) s i = x @ w @ y \<Longrightarrow> left_ok pre s i \<Longrightarrow>
    win q (pre @ x) w y \<Longrightarrow>
    \<exists>k n. k + n \<le> length s \<and> matches r s k = [] \<and> win q (take k s) (take n (drop k s)) (drop (k + n) s)"
proof (induction "length s - i" arbitrary: i x pre rule: less_induct)
  case less
  have w: "list_all plain w" by (rule win_within [OF less.prems(4) assms(5)])
  obtain d where d: "d \<in> set w" "d \<notin> set m" using win_demands [OF less.prems(4) assms(6)] by blast
  then have wne: "w \<noteq> []" by auto
  have i: "i < length s" using less.prems wne replace_from_end [OF assms(1), of i "\<lambda>_. m"] by fastforce
  show ?case
  proof (cases "matches r s i")
    case Nil
    show ?thesis
    proof (cases x)
      case xNil: Nil
      let ?n = "length w"
      have p: "i + ?n \<le> length s" "w = take ?n (drop i s)" "y = replace_from r (\<lambda>_. m) s (i + ?n)"
        using replace_prefix [OF assms(1,2) less.prems(1) _ w] less.prems(2) xNil by auto
      have "drop i s \<noteq> []" using i by simp
      then have first: "word_first w = word_first (drop i s)"
        using p(2) wne by (metis append_take_drop_id word_first_append)
      have last: "word_last w = word_last (take (i + ?n) s)"
        using p(2) wne by (metis take_add word_last_append)
      have "win q (take i s) w (drop (i + ?n) s)"
      proof (rule win_edges [OF less.prems(4) wne])
        show "boundary (pre @ x) w \<Longrightarrow> boundary (take i s) w"
          using less.prems(3) first xNil by (auto simp: left_ok_def boundary_def)
        show "boundary w y \<Longrightarrow> boundary w (drop (i + ?n) s)"
          using replace_right_edge [OF assms(1-3) p(1) last] p(3) by simp
      qed
      then show ?thesis using p(1,2) Nil by (intro exI [of _ i] exI [of _ ?n]) simp
    next
      case (Cons c x')
      then have c: "c = s ! i" "replace_from r (\<lambda>_. m) s (Suc i) = x' @ w @ y"
        using less.prems(2) replace_from_copy [OF i Nil, of "\<lambda>_. m"] by auto
      have l: "left_ok (pre @ [c]) s (Suc i)" using c i by (simp add: left_ok_def take_Suc_conv_app_nth)
      show ?thesis
        by (rule less.hyps [of "Suc i" x' "pre @ [c]"]) (use i c l less.prems(4) Cons in simp_all)
    qed
  next
    case (Cons j js)
    have j: "i < j" "j \<le> length s" "replace_from r (\<lambda>_. m) s i = m @ replace_from r (\<lambda>_. m) s j"
      by (rule replace_from_match [OF assms(1) i Cons])+
    have eq: "m @ replace_from r (\<lambda>_. m) s j = x @ w @ y" using j(3) less.prems(2) by simp
    have "\<exists>x'. x = m @ x'"
    proof (rule ccontr)
      assume n: "\<nexists>x'. x = m @ x'"
      then obtain us where us: "m = x @ us" "us @ replace_from r (\<lambda>_. m) s j = w @ y"
        using eq by (auto simp: append_eq_append_conv2)
      have une: "us \<noteq> []" using n us(1) by auto
      then have l: "CHR '']'' \<in> set us" using us(1) assms(2) last_in_set [OF une] by (simp add: bracketed_def)
      from us(2) consider vs where "us = w @ vs" | vs where "w = us @ vs"
        by (auto simp: append_eq_append_conv2)
      then show False
      proof cases
        case 1
        then show False using d us(1) by simp
      next
        case 2
        then show False using l w by (auto simp: list_all_iff plain_def)
      qed
    qed
    then obtain x' where x': "x = m @ x'" by (elim exE)
    have "\<not> word_last m"
      using assms(2) by (simp add: bracketed_def word_last_def is_word_def is_upper_def is_lower_def is_digit_def)
    moreover have "m \<noteq> []" using assms(2) by (simp add: bracketed_def)
    moreover have "word_first (drop j s) \<longrightarrow> \<not> word_last (take j s)"
      using assms(4) less.prems(1) Cons by (simp add: clean_end_def)
    ultimately have l: "left_ok (pre @ m) s j" by (simp add: left_ok_def)
    show ?thesis
      by (rule less.hyps [of j x' "pre @ m"]) (use i j eq x' l less.prems(4) in simp_all)
  qed
qed

lemma replace_removes_all:
  assumes "consuming r s" "bracketed m" "clean_start r s" "clean_end r s"
    and "within_class plain r" and "demands (\<lambda>c. c \<notin> set m) r"
  shows "unmatched r (re_replace r (\<lambda>_. m) s)"
  unfolding unmatched_win re_replace_def
proof (intro allI impI notI)
  fix x w y assume eq: "replace_from r (\<lambda>_. m) s 0 = x @ w @ y" and "win r x w y"
  then obtain k n where k: "k + n \<le> length s" "matches r s k = []"
    "win r (take k s) (take n (drop k s)) (drop (k + n) s)"
    using replace_window [OF assms _ eq, of "[]"] by (auto simp: left_ok_def)
  then have "k + n \<in> set (matches r s k)" by (subst matches_win) auto
  then show False using k(2) by simp
qed

lemma replace_keeps_unmatched:
  assumes "consuming r s" "bracketed m" "clean_start r s" "clean_end r s"
    and "within_class plain q" and "demands (\<lambda>c. c \<notin> set m) q" and "unmatched q s"
  shows "unmatched q (re_replace r (\<lambda>_. m) s)"
  unfolding unmatched_win re_replace_def
proof (intro allI impI notI)
  fix x w y assume eq: "replace_from r (\<lambda>_. m) s 0 = x @ w @ y" and "win q x w y"
  then obtain k n where k: "k + n \<le> length s" "win q (take k s) (take n (drop k s)) (drop (k + n) s)"
    using replace_window [OF assms(1-6) _ eq, of "[]"] by (auto simp: left_ok_def)
  then have "k + n \<in> set (matches q s k)" by (subst matches_win) auto
  then show False using k(1) assms(7) by (auto simp: unmatched_def)
qed

end
