(* ===== verification/WebUrl.thy ===== *)
theory WebUrl
  imports JsString Prelude
begin

text \<open>
  The parts of the platform's URL object that several components read and change. Parsing and
  serialisation are parameters of the definitions that use them; the search parameters are the
  list of decoded pairs with the operations of \<open>URLSearchParams\<close>. The raw query is kept until the
  parameters are changed, as the platform does.
\<close>

record web_url =
  wu_protocol :: string
  wu_username :: string
  wu_password :: string
  wu_hostname :: string
  wu_port :: string
  wu_pathname :: string
  wu_search :: "string option"
  wu_params :: "(string \<times> string) list"
  wu_hash :: string

fun usp_set :: "string \<Rightarrow> string \<Rightarrow> (string \<times> string) list \<Rightarrow> (string \<times> string) list" where
  "usp_set k v [] = [(k, v)]"
| "usp_set k v (p # ps) = (if fst p = k then (k, v) # filter (\<lambda>q. fst q \<noteq> k) ps else p # usp_set k v ps)"

definition usp_delete :: "string \<Rightarrow> (string \<times> string) list \<Rightarrow> (string \<times> string) list" where
  "usp_delete k ps = filter (\<lambda>q. fst q \<noteq> k) ps"

definition param_set :: "string \<Rightarrow> string \<Rightarrow> web_url \<Rightarrow> web_url" where
  "param_set k v u = u\<lparr>wu_params := usp_set k v (wu_params u), wu_search := None\<rparr>"

definition param_delete :: "string \<Rightarrow> web_url \<Rightarrow> web_url" where
  "param_delete k u = u\<lparr>wu_params := usp_delete k (wu_params u), wu_search := None\<rparr>"

definition param_keys :: "web_url \<Rightarrow> string list" where
  "param_keys u = map fst (wu_params u)"

section \<open>Laws\<close>

lemma usp_set_mem: "(k', v') \<in> set (usp_set k v ps) \<longleftrightarrow> (if k' = k then v' = v else (k', v') \<in> set ps)"
  by (induction k v ps rule: usp_set.induct) auto

lemma usp_set_others: "filter (\<lambda>q. P (fst q)) (usp_set k v ps) = filter (\<lambda>q. P (fst q)) ps" if "\<not> P k"
proof -
  have "filter (\<lambda>q. P (fst q)) (filter (\<lambda>q. fst q \<noteq> k) qs) = filter (\<lambda>q. P (fst q)) qs" for qs :: "(string \<times> string) list"
    using that by (simp add: filter_filter cong: filter_cong) (metis (mono_tags, lifting))
  then show ?thesis using that by (induction k v ps rule: usp_set.induct) auto
qed

end
