(* ===== verification/Redaction.thy ===== *)
theory Redaction
  imports RegexWindow WebUrl "HOL-Library.List_Lexorder" "HOL-Library.Char_ord"
begin

text \<open>
  The removal of secrets (\<open>packages/security/src/redaction.ts\<close>): headers by name, URLs by user
  information and parameter name, free text by the shape of the token. The theorem on free text
  rests on the window lemmas: no token of a known shape survives, and none is created.
\<close>

definition REDACTED :: string where
  "REDACTED = ''[REDACTED]''"

definition SENSITIVE_HEADERS :: "string list" where
  "SENSITIVE_HEADERS =
    [''authorization'', ''cookie'', ''set-cookie'', ''proxy-authorization'', ''x-api-key'', ''apikey'',
     ''api-key'', ''x-auth-token'', ''x-access-token'', ''x-csrf-token'', ''x-session-token'',
     ''x-amz-security-token'', ''x-goog-api-key'']"

definition SENSITIVE_QUERY_PARAMS :: "string list" where
  "SENSITIVE_QUERY_PARAMS =
    [''api_key'', ''apikey'', ''access_token'', ''token'', ''key'', ''secret'', ''client_secret'',
     ''password'', ''appid'', ''app_key'']"

section \<open>Headers\<close>

text \<open>A header value: one string or several. None is the value undefined.\<close>

datatype header_value = OneValue string | Values "string list"

definition flat_header :: "header_value \<Rightarrow> string" where
  "flat_header v = (case v of OneValue s \<Rightarrow> s | Values vs \<Rightarrow> join '', '' vs)"

definition redact_header ::
  "string \<times> header_value option \<Rightarrow> (string, string) jsmap \<Rightarrow> (string, string) jsmap"
where
  "redact_header kv out =
     (case snd kv of
        None \<Rightarrow> out
      | Some v \<Rightarrow> jm_set (fst kv)
          (if toLowerCase (fst kv) \<in> set SENSITIVE_HEADERS then REDACTED else flat_header v) out)"

definition redactHeaders :: "(string, header_value option) jsmap \<Rightarrow> (string, string) jsmap" where
  "redactHeaders headers = fold redact_header headers []"

section \<open>URLs\<close>

definition sensitive_param :: "string \<Rightarrow> bool" where
  "sensitive_param key \<longleftrightarrow> toLowerCase key \<in> set SENSITIVE_QUERY_PARAMS"

definition redact_param :: "string \<Rightarrow> web_url \<Rightarrow> web_url" where
  "redact_param key u = (if sensitive_param key then param_set key REDACTED u else u)"

definition without_userinfo :: "web_url \<Rightarrow> web_url" where
  "without_userinfo u =
     (if wu_username u \<noteq> [] \<or> wu_password u \<noteq> [] then u\<lparr>wu_username := [], wu_password := []\<rparr> else u)"

definition redact_parsed :: "web_url \<Rightarrow> web_url" where
  "redact_parsed u = fold redact_param (param_keys (without_userinfo u)) (without_userinfo u)"

text \<open>The fallback for a text that is no URL: the first user information is cut by a pattern.\<close>

definition userinfo_pattern :: re where
  "userinfo_pattern =
     seqs [lit ''//'', Plus (\<lambda>c. c \<noteq> CHR ''@'' \<and> c \<noteq> CHR ''/''), lit ''@'']"

definition cut_userinfo :: "string \<Rightarrow> string" where
  "cut_userinfo s =
     (case re_find userinfo_pattern s of
        None \<Rightarrow> s
      | Some (i, j) \<Rightarrow> take i s @ ''//'' @ drop j s)"

definition redactUrl ::
  "(string \<Rightarrow> web_url option) \<Rightarrow> (web_url \<Rightarrow> string) \<Rightarrow> string \<Rightarrow> string"
where
  "redactUrl parse serialize rawUrl =
     (case parse rawUrl of
        Some u \<Rightarrow> serialize (redact_parsed u)
      | None \<Rightarrow> cut_userinfo rawUrl)"

section \<open>Free text\<close>

definition alnum :: "char \<Rightarrow> bool" where
  "alnum c \<longleftrightarrow> is_upper c \<or> is_lower c \<or> is_digit c"

definition bearer_char :: "char \<Rightarrow> bool" where
  "bearer_char c \<longleftrightarrow> alnum c \<or> c \<in> set ''-._~+/''"

definition jwt_char :: "char \<Rightarrow> bool" where
  "jwt_char c \<longleftrightarrow> alnum c \<or> c \<in> set ''_-''"

definition bearer_pattern :: re where
  "bearer_pattern = seqs [WordB, lit_i ''Bearer'', Plus is_space,
     Seq (AtLeast 20 bearer_char) (Star (\<lambda>c. c = CHR ''=''))]"

definition sk_pattern :: re where
  "sk_pattern = seqs [WordB, lit ''sk-'', AtLeast 16 alnum, WordB]"

definition akia_pattern :: re where
  "akia_pattern = seqs [WordB, lit ''AKIA'', Times 16 (\<lambda>c. is_digit c \<or> is_upper c), WordB]"

definition ghp_pattern :: re where
  "ghp_pattern = seqs [WordB, lit ''ghp_'', AtLeast 30 alnum, WordB]"

definition slack_pattern :: re where
  "slack_pattern = seqs [WordB, lit ''xox'', Class (\<lambda>c. c \<in> set ''baprs''), lit ''-'',
     AtLeast 10 (\<lambda>c. alnum c \<or> c = CHR ''-''), WordB]"

definition jwt_pattern :: re where
  "jwt_pattern = seqs [WordB, lit ''eyJ'', AtLeast 8 jwt_char, lit ''.'', AtLeast 8 jwt_char,
     lit ''.'', AtLeast 8 jwt_char, WordB]"

definition SECRET_PATTERNS :: "re list" where
  "SECRET_PATTERNS =
     [bearer_pattern, sk_pattern, akia_pattern, ghp_pattern, slack_pattern, jwt_pattern]"

definition redactText :: "string \<Rightarrow> string" where
  "redactText s = fold (\<lambda>pattern out. re_replace pattern (\<lambda>_. REDACTED) out) SECRET_PATTERNS s"

definition containsSecret :: "string \<Rightarrow> bool" where
  "containsSecret s = list_ex (\<lambda>pattern. re_has pattern s) SECRET_PATTERNS"

section \<open>The log line of an outbound request\<close>

record request_summary =
  sum_method :: string
  sum_url :: string
  sum_headerNames :: "string list"
  sum_bodySize :: nat

definition summarizeRequestForLog ::
  "(string \<Rightarrow> web_url option) \<Rightarrow> (web_url \<Rightarrow> string) \<Rightarrow> string \<Rightarrow> string \<Rightarrow>
   (string, header_value option) jsmap \<Rightarrow> nat option \<Rightarrow> request_summary"
where
  "summarizeRequestForLog parse serialize method_name raw_url headers bodySize =
     \<lparr>sum_method = method_name, sum_url = redactUrl parse serialize raw_url,
      sum_headerNames = sort (jm_keys headers),
      sum_bodySize = (case bodySize of None \<Rightarrow> 0 | Some n \<Rightarrow> n)\<rparr>"

section \<open>The patterns neither start nor end inside a word\<close>

fun ends_at_boundary :: "re \<Rightarrow> bool" where
  "ends_at_boundary WordB = True"
| "ends_at_boundary (Seq a b) = ends_at_boundary b"
| "ends_at_boundary r = False"

lemma ends_at_boundary_win: "win r x w y \<Longrightarrow> ends_at_boundary r \<Longrightarrow> boundary (x @ w) y"
proof (induction r arbitrary: x w y)
  case (Seq a b)
  then obtain u v where "w = u @ v" "win b (x @ u) v y" by auto
  then show ?case using Seq.IH(2) [of "x @ u" v y] Seq.prems(2) by simp
qed (auto simp: boundary_def)

lemma clean_end_boundary: "ends_at_boundary r \<Longrightarrow> clean_end r s"
  unfolding clean_end_def
proof (intro allI impI)
  fix i j js assume r: "ends_at_boundary r" and i: "i \<le> length s" and m: "matches r s i = j # js"
    and f: "word_first (drop j s)"
  have "j \<in> set (matches r s i)" using m by simp
  then have j: "i \<le> j" "win r (take i s) (take (j - i) (drop i s)) (drop j s)"
    using matches_win [OF i] by auto
  have "take i s @ take (j - i) (drop i s) = take j s" using take_add [of i "j - i" s] j(1) by simp
  then show "\<not> word_last (take j s)" using ends_at_boundary_win [OF j(2) r] f by (simp add: boundary_def)
qed

lemma word_last_take: "i \<le> length s \<Longrightarrow> word_last (take i s) = word_before s i"
  using word_last_before [of "take i s" "drop i s"] by simp

lemma word_first_drop: "i \<le> length s \<Longrightarrow> word_first (drop i s) = word_at s i"
  using word_first_at [of "drop i s" "take i s"] by simp

lemma clean_start_boundary: "clean_start (Seq WordB r) s"
  by (auto simp: clean_start_def word_last_take word_first_drop split: if_splits)

text \<open>The first match of a sequence whose end is a greedy repetition takes all it can.\<close>

lemma concat_map_Cons: "concat (map f xs) = j # js \<Longrightarrow> \<exists>x\<in>set xs. \<exists>ks. f x = j # ks"
  by (induction xs) (auto simp: append_eq_Cons_conv)

lemma matches_Seq_Cons: "matches (Seq a b) s i = j # js \<Longrightarrow> \<exists>k\<in>set (matches a s i). \<exists>ks. matches b s k = j # ks"
  using concat_map_Cons [of "matches b s" "matches a s i"] by simp

lemma matches_Star_first: "\<exists>ks. matches (Star P) s i = (i + length (takeWhile P (drop i s))) # ks"
  by simp

lemma matches_greedy:
  assumes "matches (Seq a (Star P)) s i = j # js"
  obtains k ks where "matches a s i = k # ks" "j = k + length (takeWhile P (drop k s))"
  using assms matches_Star_first [of P s] by (cases "matches a s i") auto

lemma clean_end_greedy:
  assumes word: "\<And>c. is_word c \<Longrightarrow> P c" and other: "\<And>c. E c \<Longrightarrow> \<not> is_word c"
    and first: "matches (Seq (Seq a (Star P)) (Star E)) s k = j # js" and k: "k \<le> length s"
    and f: "word_first (drop j s)"
  shows "\<not> word_last (take j s)"
proof -
  obtain m ms where m: "matches (Seq a (Star P)) s k = m # ms" "j = m + length (takeWhile E (drop m s))"
    using matches_greedy [OF first] by blast
  obtain n ns where n: "matches a s k = n # ns" "m = n + length (takeWhile P (drop n s))"
    using matches_greedy [OF m(1)] by blast
  have "m \<in> set (matches (Seq a (Star P)) s k)" using m(1) by simp
  then have "m \<le> length s" using matches_bounds k by blast
  show ?thesis
  proof (cases "takeWhile E (drop m s)" rule: rev_cases)
    case Nil
    then have "drop j s = dropWhile P (drop n s)"
      using m(2) n(2) by (simp add: dropWhile_eq_drop add.commute)
    then show ?thesis using f word hd_dropWhile [of P "drop n s"] by (auto simp: word_first_def)
  next
    case (snoc e c)
    then have "E c" by (metis in_set_conv_decomp set_takeWhileD)
    have "take j s = take m s @ takeWhile E (drop m s)"
      using m(2) by (simp add: take_add takeWhile_eq_take [symmetric])
    then show ?thesis using snoc other [OF \<open>E c\<close>] by (simp add: word_last_def)
  qed
qed

section \<open>No secret of a known shape survives\<close>

definition token_pattern :: "re \<Rightarrow> bool" where
  "token_pattern r \<longleftrightarrow> (\<forall>s. consuming r s \<and> clean_start r s \<and> clean_end r s) \<and>
     within_class plain r \<and> demands (\<lambda>c. c \<notin> set REDACTED) r"

lemma consuming_demands: "demands Q r \<Longrightarrow> consuming r s"
  unfolding consuming_def
proof (intro allI impI)
  fix i j assume d: "demands Q r" and i: "i \<le> length s" and "j \<in> set (matches r s i)"
  then have "i \<le> j" "win r (take i s) (take (j - i) (drop i s)) (drop j s)" using matches_win [OF i] by auto
  then have "i \<le> j" "take (j - i) (drop i s) \<noteq> []" using win_demands [OF _ d] by fastforce+
  then show "i < j" by auto
qed

lemma within_Times: "(\<And>c. P c \<Longrightarrow> Q c) \<Longrightarrow> within_class Q (Times n P)"
  by (induction n) auto

lemma within_AtLeast: "(\<And>c. P c \<Longrightarrow> Q c) \<Longrightarrow> within_class Q (AtLeast n P)"
  by (simp add: AtLeast_def within_Times)

lemma alnum_plain: "alnum c \<Longrightarrow> plain c"
  by (auto simp: alnum_def plain_def is_upper_def is_lower_def is_digit_def)

lemma token_patternI:
  assumes "r = Seq WordB q" "\<And>s. clean_end r s" "within_class plain r" "demands (\<lambda>c. c \<notin> set REDACTED) r"
  shows "token_pattern r"
  using assms consuming_demands [OF assms(4)] clean_start_boundary by (simp add: token_pattern_def)

lemmas pattern_defs = sk_pattern_def akia_pattern_def ghp_pattern_def slack_pattern_def jwt_pattern_def
  lit_def REDACTED_def

lemma token_sk: "token_pattern sk_pattern"
  by (rule token_patternI, unfold pattern_defs, simp)
    (auto simp: pattern_defs intro!: clean_end_boundary within_AtLeast alnum_plain simp: plain_def)

lemma token_akia: "token_pattern akia_pattern"
  by (rule token_patternI, unfold pattern_defs, simp)
    (auto simp: pattern_defs is_upper_def is_digit_def intro!: clean_end_boundary within_Times simp: plain_def)

lemma token_ghp: "token_pattern ghp_pattern"
  by (rule token_patternI, unfold pattern_defs, simp)
    (auto simp: pattern_defs intro!: clean_end_boundary within_AtLeast alnum_plain simp: plain_def)

lemma slack_char_plain: "alnum c \<or> c = CHR ''-'' \<Longrightarrow> plain c"
  using alnum_plain by (auto simp: plain_def)

lemma token_slack: "token_pattern slack_pattern"
  by (rule token_patternI, unfold pattern_defs, simp)
    (auto simp: pattern_defs intro!: clean_end_boundary within_AtLeast slack_char_plain simp: plain_def)

lemma jwt_char_plain: "jwt_char c \<Longrightarrow> plain c"
  using alnum_plain by (auto simp: jwt_char_def plain_def)

lemma token_jwt: "token_pattern jwt_pattern"
  by (rule token_patternI, unfold pattern_defs, simp)
    (auto simp: pattern_defs intro!: clean_end_boundary within_AtLeast jwt_char_plain simp: plain_def)

lemma bearer_char_plain: "bearer_char c \<Longrightarrow> plain c"
  using alnum_plain by (auto simp: bearer_char_def plain_def)

lemma bearer_clean_end: "clean_end bearer_pattern s"
  unfolding clean_end_def
proof (intro allI impI)
  fix i j js assume i: "i \<le> length s" and m: "matches bearer_pattern s i = j # js" and f: "word_first (drop j s)"
  have m': "matches (Seq WordB (Seq (lit_i ''Bearer'') (Seq (Plus is_space)
      (Seq (AtLeast 20 bearer_char) (Star (\<lambda>c. c = CHR ''='')))))) s i = j # js"
    using m unfolding bearer_pattern_def seqs.simps .
  obtain k1 ks1 where k1: "k1 \<in> set (matches WordB s i)" "matches (Seq (lit_i ''Bearer'') (Seq (Plus is_space)
      (Seq (AtLeast 20 bearer_char) (Star (\<lambda>c. c = CHR ''=''))))) s k1 = j # ks1"
    using matches_Seq_Cons [OF m'] by blast
  obtain k2 ks2 where k2: "k2 \<in> set (matches (lit_i ''Bearer'') s k1)" "matches (Seq (Plus is_space)
      (Seq (AtLeast 20 bearer_char) (Star (\<lambda>c. c = CHR ''='')))) s k2 = j # ks2"
    using matches_Seq_Cons [OF k1(2)] by blast
  obtain k3 ks3 where k3: "k3 \<in> set (matches (Plus is_space) s k2)"
    "matches (Seq (AtLeast 20 bearer_char) (Star (\<lambda>c. c = CHR ''=''))) s k3 = j # ks3"
    using matches_Seq_Cons [OF k2(2)] by blast
  have "k3 \<le> length s" using matches_bounds [OF k1(1) i] matches_bounds [OF k2(1)] matches_bounds [OF k3(1)] by simp
  then show "\<not> word_last (take j s)"
    using k3(2) f unfolding AtLeast_def
    by (intro clean_end_greedy [where P = bearer_char and E = "\<lambda>c. c = CHR ''=''"])
      (auto simp: is_word_def bearer_char_def alnum_def is_upper_def is_lower_def is_digit_def)
qed

lemma bearer_letters:
  "lower_char (CHR ''B'') = CHR ''b'' \<and> lower_char (CHR ''e'') = CHR ''e'' \<and> lower_char (CHR ''a'') = CHR ''a'' \<and>
   lower_char (CHR ''r'') = CHR ''r'' \<and> lower_char (CHR ''['') = CHR ''['' \<and> lower_char (CHR '']'') = CHR '']''"
  by code_simp

lemma token_bearer: "token_pattern bearer_pattern"
proof (rule token_patternI)
  show "bearer_pattern = Seq WordB (seqs [lit_i ''Bearer'', Plus is_space,
     Seq (AtLeast 20 bearer_char) (Star (\<lambda>c. c = CHR ''=''))])"
    by (simp add: bearer_pattern_def)
  show "within_class plain bearer_pattern"
    by (auto simp: bearer_pattern_def lit_i_def Plus_def plain_def is_space_def bearer_letters
        intro!: within_AtLeast bearer_char_plain)
  show "demands (\<lambda>c. c \<notin> set REDACTED) bearer_pattern"
    by (auto simp: bearer_pattern_def Plus_def is_space_def REDACTED_def)
qed (rule bearer_clean_end)

lemma SECRET_PATTERNS_tokens: "pattern \<in> set SECRET_PATTERNS \<Longrightarrow> token_pattern pattern"
  by (auto simp: SECRET_PATTERNS_def token_bearer token_sk token_akia token_ghp token_slack token_jwt)

lemma redact_step:
  assumes "token_pattern r"
  shows "unmatched r (re_replace r (\<lambda>_. REDACTED) s)"
    and "token_pattern q \<Longrightarrow> unmatched q s \<Longrightarrow> unmatched q (re_replace r (\<lambda>_. REDACTED) s)"
proof -
  have "bracketed REDACTED" by (simp add: bracketed_def REDACTED_def)
  then show "unmatched r (re_replace r (\<lambda>_. REDACTED) s)"
    "token_pattern q \<Longrightarrow> unmatched q s \<Longrightarrow> unmatched q (re_replace r (\<lambda>_. REDACTED) s)"
    using assms unfolding token_pattern_def
    by (blast intro: replace_removes_all, blast intro: replace_keeps_unmatched)
qed

lemma redact_fold:
  "\<forall>r\<in>set rs. token_pattern r \<Longrightarrow> \<forall>q\<in>set qs. token_pattern q \<and> unmatched q s \<Longrightarrow>
   \<forall>q\<in>set (qs @ rs). unmatched q (fold (\<lambda>r out. re_replace r (\<lambda>_. REDACTED) out) rs s)"
proof (induction rs arbitrary: s qs)
  case (Cons r rs)
  have "\<forall>q\<in>set (qs @ [r]). token_pattern q \<and> unmatched q (re_replace r (\<lambda>_. REDACTED) s)"
    using Cons.prems redact_step by auto
  from Cons.IH [OF _ this] show ?case using Cons.prems by auto
qed simp

lemma containsSecret_unmatched: "containsSecret s \<longleftrightarrow> (\<exists>r\<in>set SECRET_PATTERNS. \<not> unmatched r s)"
  by (auto simp: containsSecret_def re_has_unmatched list_ex_iff)

lemma redactText_clean: "\<not> containsSecret s \<Longrightarrow> redactText s = s"
proof -
  have "\<forall>r\<in>set rs. unmatched r s \<Longrightarrow> fold (\<lambda>r out. re_replace r (\<lambda>_. REDACTED) out) rs s = s" for rs
    by (induction rs) (simp_all add: replace_unmatched)
  then show "\<not> containsSecret s \<Longrightarrow> redactText s = s"
    by (simp add: redactText_def containsSecret_unmatched)
qed

text \<open>C32: After the redaction no secret of a known shape is left in the text, whatever the
  text was; a text is unchanged exactly when it held none, and redacting twice changes nothing.\<close>

theorem redactText_complete:
  "\<not> containsSecret (redactText s) \<and> (redactText s = s) = (\<not> containsSecret s) \<and>
   redactText (redactText s) = redactText s"
proof -
  have "\<not> containsSecret (redactText s)"
    unfolding containsSecret_unmatched redactText_def
    using redact_fold [of SECRET_PATTERNS "[]" s] SECRET_PATTERNS_tokens by simp
  then show ?thesis using redactText_clean by metis
qed

section \<open>Headers and URLs\<close>

text \<open>Every entry of the result comes from one header, and a sensitive name has no value left.\<close>

lemma redactHeaders_get:
  "jm_get (redactHeaders headers) k =
     (case filter (\<lambda>kv. fst kv = k \<and> snd kv \<noteq> None) headers of
        [] \<Rightarrow> None
      | kvs \<Rightarrow> Some (if toLowerCase k \<in> set SENSITIVE_HEADERS then REDACTED
                 else flat_header (the (snd (List.last kvs)))))"
proof (induction headers rule: rev_induct)
  case (snoc kv headers)
  then show ?case
    by (cases kv; cases "snd kv")
      (auto simp: redactHeaders_def redact_header_def js_map split: list.splits)
qed (simp add: redactHeaders_def)

lemma redact_params:
  "wu_username (fold redact_param ks u) = wu_username u"
  "wu_password (fold redact_param ks u) = wu_password u"
  "filter (\<lambda>q. \<not> sensitive_param (fst q)) (wu_params (fold redact_param ks u)) =
     filter (\<lambda>q. \<not> sensitive_param (fst q)) (wu_params u)"
  by (induction ks arbitrary: u)
    (auto simp: redact_param_def param_set_def usp_set_others [where P = "\<lambda>k. \<not> sensitive_param k"])

lemma redact_params_sensitive:
  "(k, v) \<in> set (wu_params (fold redact_param ks u)) \<Longrightarrow> sensitive_param k \<Longrightarrow>
   v = REDACTED \<or> k \<notin> set ks \<and> (k, v) \<in> set (wu_params u)"
proof (induction ks arbitrary: u)
  case (Cons key ks)
  have "v = REDACTED \<or> k \<notin> set ks \<and> (k, v) \<in> set (wu_params (redact_param key u))"
    by (rule Cons.IH) (use Cons.prems in simp_all)
  moreover have "(k, v) \<in> set (wu_params (redact_param key u)) \<longleftrightarrow>
      (if k = key then v = REDACTED else (k, v) \<in> set (wu_params u))" if "key = k \<or> sensitive_param key"
    using that Cons.prems(2) by (auto simp: redact_param_def param_set_def usp_set_mem)
  moreover have "redact_param key u = u" if "\<not> sensitive_param key" using that by (simp add: redact_param_def)
  ultimately show ?case using Cons.prems(2) by (cases "sensitive_param key") (auto split: if_splits)
qed simp

text \<open>The redacted form of a URL has no user information and no value of a parameter whose
  name is sensitive; the other parameters are kept in their order.\<close>

theorem redactUrl_hides:
  "case parse rawUrl of
     None \<Rightarrow> True
   | Some u \<Rightarrow> \<exists>u'. redactUrl parse serialize rawUrl = serialize u' \<and>
       wu_username u' = [] \<and> wu_password u' = [] \<and>
       list_all (\<lambda>(k, v). if sensitive_param k then v = REDACTED else True) (wu_params u') \<and>
       filter (\<lambda>q. \<not> sensitive_param (fst q)) (wu_params u') =
         filter (\<lambda>q. \<not> sensitive_param (fst q)) (wu_params u)"
proof (cases "parse rawUrl")
  case (Some u)
  have "list_all (\<lambda>(k, v). if sensitive_param k then v = REDACTED else True) (wu_params (redact_parsed u))"
    unfolding list_all_iff
  proof (intro ballI, clarify)
    fix k v assume m: "(k, v) \<in> set (wu_params (redact_parsed u))"
    have keys: "(k, v) \<in> set (wu_params w) \<Longrightarrow> k \<in> set (param_keys w)" for w
      unfolding param_keys_def by force
    show "if sensitive_param k then v = REDACTED else True"
      using redact_params_sensitive [OF m [unfolded redact_parsed_def]] keys by auto
  qed
  moreover have "wu_params (without_userinfo u) = wu_params u" "wu_username (without_userinfo u) = []"
    "wu_password (without_userinfo u) = []" by (auto simp: without_userinfo_def)
  ultimately show ?thesis unfolding Some option.case
    by (intro exI [of _ "redact_parsed u"]) (simp add: redactUrl_def Some redact_parsed_def redact_params)
qed simp

text \<open>The fallback pattern stops at the first at-sign: the rest of a password that contains one stays.\<close>

lemma fallback_leaves_password:
  "redactUrl (\<lambda>_. None) serialize ''http://user:p@ss@ho st/'' = ''http://ss@ho st/''"
proof -
  have "cut_userinfo ''http://user:p@ss@ho st/'' = ''http://ss@ho st/''" by code_simp
  then show ?thesis by (simp add: redactUrl_def)
qed

end
