(* ===== verification/Tokens.thy ===== *)
theory Tokens
  imports JsString
begin

text \<open>
  Session cookies, anti-forgery tokens and fingerprints (\<open>packages/security/src/tokens.ts\<close>).
  The keyed hash of the platform is a parameter in each of its encodings, \<open>random\<close> gives the
  text of a random token. What is used of the hash is its encoding's alphabet, which has no
  full stop, and for the binding to the session that different texts have different hashes.
\<close>

section \<open>Comparison\<close>

text \<open>The UTF-8 bytes of a text, as \<open>Buffer.from\<close> gives them.\<close>

definition utf8_char :: "char \<Rightarrow> nat list" where
  "utf8_char c = (if code c < 128 then [code c] else [192 + code c div 64, 128 + code c mod 64])"

definition utf8 :: "string \<Rightarrow> nat list" where
  "utf8 s = concat (map utf8_char s)"

text \<open>\<open>timingSafeEqual\<close>, which throws on different lengths: the callers compare them first.\<close>

definition buffers_equal :: "nat list \<Rightarrow> nat list \<Rightarrow> bool" where
  "buffers_equal a b \<longleftrightarrow> (if length a \<noteq> length b then False else a = b)"

definition safeEqual :: "string \<Rightarrow> string \<Rightarrow> bool" where
  "safeEqual a b = buffers_equal (utf8 a) (utf8 b)"

section \<open>Session cookies\<close>

definition signSessionId :: "(string \<Rightarrow> string \<Rightarrow> string) \<Rightarrow> string \<Rightarrow> string \<Rightarrow> string" where
  "signSessionId sign sessionId secret = sessionId @ ''.'' @ sign sessionId secret"

text \<open>\<open>lastIndexOf\<close> and the two slices around it; None is the index -1.\<close>

definition last_dot :: "string \<Rightarrow> nat option" where
  "last_dot s = (if CHR ''.'' \<in> set s then Some (length (upto_last (CHR ''.'') s) - 1) else None)"

definition verifySessionCookie ::
  "(string \<Rightarrow> string \<Rightarrow> string) \<Rightarrow> string \<Rightarrow> string \<Rightarrow> string option"
where
  "verifySessionCookie sign cookieValue secret =
     (case last_dot cookieValue of
        None \<Rightarrow> None
      | Some separator \<Rightarrow>
          if separator = 0 then None
          else let sessionId = take separator cookieValue; signature = drop (separator + 1) cookieValue in
            if sessionId = [] \<or> signature = [] then None
            else let expected = sign sessionId secret;
                     providedBuffer = utf8 signature; expectedBuffer = utf8 expected in
              if length providedBuffer \<noteq> length expectedBuffer then None
              else if \<not> buffers_equal providedBuffer expectedBuffer then None
              else Some sessionId)"

definition hashSessionId :: "(string \<Rightarrow> string \<Rightarrow> string) \<Rightarrow> string \<Rightarrow> string \<Rightarrow> string" where
  "hashSessionId hmac_hex sessionId secret = hmac_hex (''session:'' @ sessionId) secret"

section \<open>Anti-forgery tokens\<close>

definition generateCsrfToken ::
  "(string \<Rightarrow> string \<Rightarrow> string) \<Rightarrow> string \<Rightarrow> string \<Rightarrow> string \<Rightarrow> string"
where
  "generateCsrfToken sign nonce sessionId secret =
     nonce @ ''.'' @ sign (sessionId @ '':'' @ nonce) secret"

definition verifyCsrfToken ::
  "(string \<Rightarrow> string \<Rightarrow> string) \<Rightarrow> string \<Rightarrow> string \<Rightarrow> string \<Rightarrow> bool"
where
  "verifyCsrfToken sign token sessionId secret =
     (case last_dot token of
        None \<Rightarrow> False
      | Some separator \<Rightarrow>
          if separator = 0 then False
          else let nonce = take separator token; signature = drop (separator + 1) token;
                   expected = sign (sessionId @ '':'' @ nonce) secret;
                   providedBuffer = utf8 signature; expectedBuffer = utf8 expected in
            if length providedBuffer \<noteq> length expectedBuffer then False
            else buffers_equal providedBuffer expectedBuffer)"

section \<open>Fingerprints and colours\<close>

datatype part = TextPart string | NumberPart nat | MissingPart

definition part_text :: "part \<Rightarrow> string" where
  "part_text p = (case p of TextPart s \<Rightarrow> s | NumberPart n \<Rightarrow> show_nat n | MissingPart \<Rightarrow> [])"

definition fingerprint :: "(string \<Rightarrow> string \<Rightarrow> string) \<Rightarrow> part list \<Rightarrow> string" where
  "fingerprint hmac_hex parts =
     take 32 (hmac_hex (join [CHR 0x00] (map part_text parts)) ''apihub-fingerprint'')"

definition avatarColorFor :: "(string \<Rightarrow> string \<Rightarrow> nat list) \<Rightarrow> string \<Rightarrow> string" where
  "avatarColorFor hmac_bytes seed =
     (let digest = hmac_bytes seed ''apihub-avatar'';
          hue = (digest ! 0 * 256 + digest ! 1) mod 360
      in ''hsl('' @ show_nat hue @ '' 65% 55%)'')"

section \<open>Lemmas\<close>

lemma utf8_char_inj: "utf8_char c @ x = utf8_char d @ y \<Longrightarrow> c = d \<and> x = y"
proof -
  assume eq: "utf8_char c @ x = utf8_char d @ y"
  have "code c = code d"
  proof (cases "code c < 128"; cases "code d < 128")
    assume "\<not> code c < 128" "\<not> code d < 128"
    then have "code c div 64 = code d div 64" "code c mod 64 = code d mod 64"
      using eq by (auto simp: utf8_char_def)
    then show ?thesis by (metis div_mult_mod_eq)
  qed (use eq in \<open>auto simp: utf8_char_def\<close>)
  then show ?thesis using eq by simp
qed

lemma utf8_inj: "utf8 a = utf8 b \<longleftrightarrow> a = b"
proof (induction a arbitrary: b)
  case Nil
  then show ?case by (cases b) (auto simp: utf8_def utf8_char_def)
next
  case (Cons c a)
  show ?case
  proof (cases b)
    case Nil
    then show ?thesis by (auto simp: utf8_def utf8_char_def)
  next
    case (Cons d b')
    then show ?thesis using Cons.IH utf8_char_inj [of c "utf8 a" d "utf8 b'"] by (auto simp: utf8_def)
  qed
qed

lemma compared: "(if length (utf8 a) \<noteq> length (utf8 b) then False else buffers_equal (utf8 a) (utf8 b)) \<longleftrightarrow> a = b"
  by (auto simp: buffers_equal_def utf8_inj)

lemma safeEqual_eq: "safeEqual a b \<longleftrightarrow> a = b"
  by (auto simp: safeEqual_def buffers_equal_def utf8_inj)

lemma last_dot_None: "last_dot s = None \<longleftrightarrow> CHR ''.'' \<notin> set s"
  by (simp add: last_dot_def)

lemma last_dot_append: "CHR ''.'' \<notin> set y \<Longrightarrow> last_dot (x @ ''.'' @ y) = Some (length x)"
proof -
  assume y: "CHR ''.'' \<notin> set y"
  have "dropWhile (\<lambda>c. c \<noteq> CHR ''.'') (rev y @ CHR ''.'' # rev x) = CHR ''.'' # rev x"
    using y by (simp add: dropWhile_append)
  then show ?thesis by (simp add: last_dot_def upto_last_def)
qed

lemma last_dot_Some: "last_dot s = Some i \<Longrightarrow> s = take i s @ ''.'' @ drop (i + 1) s \<and> CHR ''.'' \<notin> set (drop (i + 1) s)"
proof -
  assume i: "last_dot s = Some i"
  then have "CHR ''.'' \<in> set s" by (auto simp: last_dot_def split: if_splits)
  then obtain x y where s: "s = x @ CHR ''.'' # y" "CHR ''.'' \<notin> set y" by (meson split_list_last)
  then have "i = length x" using last_dot_append [of y x] i by simp
  then show ?thesis using s by simp
qed

lemma fingerprint_text_unambiguous:
  assumes "ps \<noteq> []" "qs \<noteq> []" "\<forall>p\<in>set ps. CHR 0x00 \<notin> set (part_text p)" "\<forall>q\<in>set qs. CHR 0x00 \<notin> set (part_text q)"
    and "join [CHR 0x00] (map part_text ps) = join [CHR 0x00] (map part_text qs)"
  shows "map part_text ps = map part_text qs"
proof -
  have "split_char (CHR 0x00) (join [CHR 0x00] (map part_text xs)) = map part_text xs"
    if "xs \<noteq> []" "\<forall>p\<in>set xs. CHR 0x00 \<notin> set (part_text p)" for xs
    by (rule split_char_join) (use that in auto)
  note e = this [OF assms(1,3)] this [OF assms(2,4)]
  show ?thesis using arg_cong [OF assms(5), of "split_char (CHR 0x00)"] unfolding e .
qed

section \<open>What is accepted\<close>

lemma verify_cookie_iff:
  "verifySessionCookie sign cookie secret = Some sid \<longleftrightarrow>
     (\<exists>i. last_dot cookie = Some i \<and> 0 < i \<and> sid = take i cookie \<and>
        drop (i + 1) cookie \<noteq> [] \<and> drop (i + 1) cookie = sign sid secret \<and> sid \<noteq> [])"
proof (cases "last_dot cookie")
  case (Some i)
  then have "verifySessionCookie sign cookie secret =
      (if 0 < i \<and> take i cookie \<noteq> [] \<and> drop (i + 1) cookie \<noteq> [] \<and>
          drop (i + 1) cookie = sign (take i cookie) secret
       then Some (take i cookie) else None)"
    by (simp add: verifySessionCookie_def Let_def buffers_equal_def utf8_inj)
  then show ?thesis using Some by (cases "sid = take i cookie") (auto split: if_splits)
qed (simp add: verifySessionCookie_def)

lemma cookie_iff:
  assumes "\<And>v. CHR ''.'' \<notin> set (sign v secret) \<and> sign v secret \<noteq> []"
  shows "verifySessionCookie sign cookie secret = Some sid \<longleftrightarrow>
    sid \<noteq> [] \<and> cookie = signSessionId sign sid secret"
proof
  assume "verifySessionCookie sign cookie secret = Some sid"
  then obtain i where i: "last_dot cookie = Some i" "sid = take i cookie" "drop (i + 1) cookie = sign sid secret"
    "sid \<noteq> []" unfolding verify_cookie_iff by (elim exE conjE)
  have "cookie = sid @ ''.'' @ sign sid secret"
    using last_dot_Some [OF i(1)] unfolding i(2) [symmetric] i(3) by (rule conjunct1)
  then show "sid \<noteq> [] \<and> cookie = signSessionId sign sid secret"
    using i(4) unfolding signSessionId_def by (intro conjI)
next
  assume c: "sid \<noteq> [] \<and> cookie = signSessionId sign sid secret"
  have "last_dot cookie = Some (length sid)"
    using last_dot_append [of "sign sid secret" sid] assms c by (simp add: signSessionId_def)
  then show "verifySessionCookie sign cookie secret = Some sid"
    unfolding verify_cookie_iff using c assms by (intro exI [of _ "length sid"]) (simp add: signSessionId_def)
qed

text \<open>A cookie is accepted for a session exactly when it is the signed form of a non-empty
  session id: no other text is accepted, and every issued cookie is.\<close>

theorem session_cookie_exact:
  assumes "\<And>v. CHR ''.'' \<notin> set (sign v secret) \<and> sign v secret \<noteq> []"
  shows "verifySessionCookie sign cookie secret = Some sid \<longleftrightarrow>
    sid \<noteq> [] \<and> cookie = signSessionId sign sid secret"
  by (rule cookie_iff) (rule assms)

theorem session_cookie_exact_witness:
  "verifySessionCookie (\<lambda>v k. ''sig'' @ k) ''abc.sigkey'' ''key'' = Some ''abc''"
  using session_cookie_exact [of "\<lambda>v k. ''sig'' @ k" "''key''" "''abc.sigkey''" "''abc''"]
  by (simp add: signSessionId_def)

lemma verify_csrf_iff:
  "verifyCsrfToken sign token sid secret \<longleftrightarrow>
     (\<exists>i. last_dot token = Some i \<and> 0 < i \<and> drop (i + 1) token = sign (sid @ '':'' @ take i token) secret)"
  by (cases "last_dot token") (auto simp: verifyCsrfToken_def Let_def buffers_equal_def utf8_inj)

lemma csrf_token_form:
  assumes "CHR ''.'' \<notin> set sig"
  shows "verifyCsrfToken sign (nonce @ ''.'' @ sig) sid secret \<longleftrightarrow> nonce \<noteq> [] \<and> sig = sign (sid @ '':'' @ nonce) secret"
  unfolding verify_csrf_iff using last_dot_append [OF assms, of nonce] by auto

text \<open>The tokens accepted for a session are exactly those generated for it with a non-empty
  nonce, and a token of one session is accepted for another only if the keyed hash has a
  collision.\<close>

theorem csrf_token_bound:
  assumes "\<And>v. CHR ''.'' \<notin> set (sign v secret)"
  shows "(verifyCsrfToken sign token sid secret \<longleftrightarrow>
      (\<exists>nonce. nonce \<noteq> [] \<and> token = generateCsrfToken sign nonce sid secret)) \<and>
    (verifyCsrfToken sign (generateCsrfToken sign nonce sid secret) sid' secret \<longleftrightarrow>
      nonce \<noteq> [] \<and> sign (sid @ '':'' @ nonce) secret = sign (sid' @ '':'' @ nonce) secret)"
proof (intro conjI iffI)
  assume "verifyCsrfToken sign token sid secret"
  then obtain i where i: "last_dot token = Some i" "0 < i" "drop (i + 1) token = sign (sid @ '':'' @ take i token) secret"
    unfolding verify_csrf_iff by (elim exE conjE)
  have t: "token = take i token @ ''.'' @ sign (sid @ '':'' @ take i token) secret"
    using last_dot_Some [OF i(1)] unfolding i(3) by (rule conjunct1)
  have "token \<noteq> []" using i(1) by (auto simp: last_dot_def)
  then have "take i token \<noteq> []" using i(2) by simp
  then show "\<exists>nonce. nonce \<noteq> [] \<and> token = generateCsrfToken sign nonce sid secret"
    unfolding generateCsrfToken_def using t by (intro exI [of _ "take i token"] conjI)
next
  assume "\<exists>nonce. nonce \<noteq> [] \<and> token = generateCsrfToken sign nonce sid secret"
  then obtain n where n: "n \<noteq> []" "token = generateCsrfToken sign n sid secret" by (elim exE conjE)
  show "verifyCsrfToken sign token sid secret"
    unfolding n(2) generateCsrfToken_def using n(1) csrf_token_form [OF assms] by simp
next
  assume "verifyCsrfToken sign (generateCsrfToken sign nonce sid secret) sid' secret"
  then show "nonce \<noteq> []" "sign (sid @ '':'' @ nonce) secret = sign (sid' @ '':'' @ nonce) secret"
    unfolding generateCsrfToken_def csrf_token_form [OF assms] by simp_all
next
  assume "nonce \<noteq> [] \<and> sign (sid @ '':'' @ nonce) secret = sign (sid' @ '':'' @ nonce) secret"
  then show "verifyCsrfToken sign (generateCsrfToken sign nonce sid secret) sid' secret"
    unfolding generateCsrfToken_def csrf_token_form [OF assms] by simp
qed

theorem csrf_token_bound_witness:
  "verifyCsrfToken (\<lambda>v k. filter (\<lambda>c. c \<noteq> CHR ''.'') (v @ k)) (generateCsrfToken
     (\<lambda>v k. filter (\<lambda>c. c \<noteq> CHR ''.'') (v @ k)) ''n'' ''s1'' ''k'') ''s1'' ''k'' \<and>
   \<not> verifyCsrfToken (\<lambda>v k. filter (\<lambda>c. c \<noteq> CHR ''.'') (v @ k)) (generateCsrfToken
     (\<lambda>v k. filter (\<lambda>c. c \<noteq> CHR ''.'') (v @ k)) ''n'' ''s1'' ''k'') ''s2'' ''k''"
proof -
  let ?sign = "\<lambda>v k. filter (\<lambda>c. c \<noteq> CHR ''.'') (v @ k)"
  have s: "CHR ''.'' \<notin> set (?sign v ''k'')" for v by simp
  show ?thesis
    using csrf_token_bound [of ?sign "''k''" "[]" "''s1''" "''n''" "''s1''", OF s, THEN conjunct2]
      csrf_token_bound [of ?sign "''k''" "[]" "''s1''" "''n''" "''s2''", OF s, THEN conjunct2] by simp
qed

text \<open>
  The two signatures share one key and no prefix tells them apart: an anti-forgery token with the
  session id before it is an accepted cookie, for a session id that holds a colon.
\<close>

lemma csrf_token_is_cookie:
  assumes "\<And>v. CHR ''.'' \<notin> set (sign v secret) \<and> sign v secret \<noteq> []"
  shows "verifySessionCookie sign (sid @ '':'' @ generateCsrfToken sign nonce sid secret) secret = Some (sid @ '':'' @ nonce)"
proof -
  have "last_dot ((sid @ '':'' @ nonce) @ ''.'' @ sign (sid @ '':'' @ nonce) secret) = Some (length (sid @ '':'' @ nonce))"
    using assms by (intro last_dot_append) simp
  then show ?thesis unfolding verify_cookie_iff generateCsrfToken_def
    using assms by (intro exI [of _ "length (sid @ '':'' @ nonce)"]) simp
qed

end
