(* ===== verification/PlaygroundRequest.thy ===== *)
theory PlaygroundRequest
  imports JsString
begin

text \<open>
  The request a user composes in the playground (\<open>packages/contracts/src/playground.ts\<close>), read by
  the executor and by the code generators.
\<close>

record header_pair =
  hp_name :: string
  hp_value :: string
  hp_enabled :: bool

record query_param =
  qp_name :: string
  qp_value :: string
  qp_enabled :: bool

datatype auth_place = InHeader | InQuery

datatype playground_auth =
    NoAuth
  | ApiKeyAuth (auth_key: string) (auth_in: auth_place) (auth_name: string)
  | BearerAuth (auth_token: string)
  | BasicAuth (auth_username: string) (auth_password: string)

record playground_request =
  pr_method :: string
  pr_url :: string
  pr_headers :: "header_pair list"
  pr_queryParams :: "query_param list"
  pr_body :: "string option"
  pr_contentType :: "string option"
  pr_auth :: playground_auth
  pr_timeoutMs :: "nat option"

end
