(* ===== verification/Executor.thy ===== *)
theory Executor
  imports Ssrf Breaker Redaction PlaygroundRequest
begin

text \<open>
  The playground executor (\<open>apps/api/src/modules/playground/executor.ts\<close>): the outbound headers and
  URL, the choice of the decoder, the bounded read, and the loop over redirects through the SSRF
  guard and the circuit breaker of the host. The network, the DNS answers and the clock of each hop
  are parameters; every request handed to the network is kept in a log. Timings, agents being
  closed and log lines are left out.
\<close>

definition FORBIDDEN_PROXY_HEADERS :: "string list" where
  "FORBIDDEN_PROXY_HEADERS =
    [''host'', ''content-length'', ''connection'', ''keep-alive'', ''transfer-encoding'', ''upgrade'',
     ''proxy-authorization'', ''proxy-authenticate'', ''te'', ''trailer'', ''expect'', ''x-forwarded-for'',
     ''x-forwarded-host'', ''x-forwarded-proto'', ''x-real-ip'', ''forwarded'']"

text \<open>Assignment to a property of an object; the one that sets the prototype ignores a string.\<close>

definition prop_set :: "string \<Rightarrow> string \<Rightarrow> (string, string) jsmap \<Rightarrow> (string, string) jsmap" where
  "prop_set k v m = (if k = ''__proto__'' then m else jm_set k v m)"

section \<open>Headers and URL\<close>

definition crlf :: "char \<Rightarrow> bool" where
  "crlf c \<longleftrightarrow> code c = 13 \<or> code c = 10"

definition own_headers :: "(string, string) jsmap" where
  "own_headers =
     [(''user-agent'', ''APIHub-Playground/0.1 (+https://github.com/HrishikeshAtole-24/APIHub)''),
      (''accept'', ''*/*''), (''accept-encoding'', ''gzip, deflate'')]"

definition add_header :: "header_pair \<Rightarrow> (string, string) jsmap \<Rightarrow> (string, string) jsmap" where
  "add_header h headers =
     (let name = toLowerCase (trim (hp_name h)) in
      if \<not> hp_enabled h then headers
      else if name = [] then headers
      else if name \<in> set FORBIDDEN_PROXY_HEADERS then headers
      else prop_set name (take 4096 (filter (\<lambda>c. \<not> crlf c) (hp_value h))) headers)"

definition add_auth ::
  "(string \<Rightarrow> string) \<Rightarrow> playground_auth \<Rightarrow> (string, string) jsmap \<Rightarrow> (string, string) jsmap"
where
  "add_auth base64 auth headers =
     (case auth of
        BearerAuth tok \<Rightarrow> prop_set ''authorization'' (''Bearer '' @ tok) headers
      | BasicAuth user password \<Rightarrow>
          prop_set ''authorization'' (''Basic '' @ base64 (user @ '':'' @ password)) headers
      | ApiKeyAuth key InHeader name \<Rightarrow> prop_set (toLowerCase name) key headers
      | _ \<Rightarrow> headers)"

definition add_content_type :: "playground_request \<Rightarrow> (string, string) jsmap \<Rightarrow> (string, string) jsmap" where
  "add_content_type input headers =
     (case (pr_body input, pr_contentType input) of
        (Some _, Some ct) \<Rightarrow> if ct \<noteq> [] then prop_set ''content-type'' ct headers else headers
      | _ \<Rightarrow> headers)"

definition buildHeaders :: "(string \<Rightarrow> string) \<Rightarrow> playground_request \<Rightarrow> (string, string) jsmap" where
  "buildHeaders base64 input =
     add_content_type input
       (add_auth base64 (pr_auth input) (fold add_header (pr_headers input) own_headers))"

definition apply_param :: "query_param \<Rightarrow> web_url \<Rightarrow> web_url" where
  "apply_param p u =
     (if \<not> qp_enabled p \<or> trim (qp_name p) = [] then u else param_set (qp_name p) (qp_value p) u)"

definition buildUrl ::
  "(string \<Rightarrow> web_url option) \<Rightarrow> (web_url \<Rightarrow> string) \<Rightarrow> playground_request \<Rightarrow> string option"
where
  "buildUrl parse serialize input =
     (case parse (pr_url input) of
        None \<Rightarrow> None
      | Some u0 \<Rightarrow>
          let u = fold apply_param (pr_queryParams input) u0 in
          Some (serialize
            (case pr_auth input of ApiKeyAuth key InQuery name \<Rightarrow> param_set name key u | _ \<Rightarrow> u)))"

section \<open>Reading the response\<close>

datatype codec = Gunzip | Inflate | Brotli | Unchanged

definition decoder_of :: "string option \<Rightarrow> codec" where
  "decoder_of contentEncoding =
     (let encoding = toLowerCase (trim (case contentEncoding of None \<Rightarrow> [] | Some e \<Rightarrow> e)) in
      if encoding = [] \<or> encoding = ''identity'' then Unchanged
      else if encoding = ''gzip'' \<or> encoding = ''x-gzip'' then Gunzip
      else if encoding = ''deflate'' then Inflate
      else if encoding = ''br'' then Brotli
      else Unchanged)"

record 'b bounded_read =
  br_data :: "'b list"
  br_bytes :: nat
  br_truncated :: bool

text \<open>The loop over the chunks: the data kept so far and the bytes seen so far.\<close>

fun read_chunks :: "nat \<Rightarrow> 'b list \<Rightarrow> nat \<Rightarrow> 'b list list \<Rightarrow> 'b bounded_read" where
  "read_chunks maxBytes kept bytes [] = \<lparr>br_data = kept, br_bytes = bytes, br_truncated = False\<rparr>"
| "read_chunks maxBytes kept bytes (buffer # chunks) =
     (let bytes' = bytes + length buffer in
      if maxBytes < bytes'
      then \<lparr>br_data = kept @ take (length buffer - (bytes' - maxBytes)) buffer, br_bytes = bytes',
            br_truncated = True\<rparr>
      else read_chunks maxBytes (kept @ buffer) bytes' chunks)"

definition readBounded :: "'b list list \<Rightarrow> nat \<Rightarrow> 'b bounded_read" where
  "readBounded body maxBytes = read_chunks maxBytes [] 0 body"

definition status_texts :: "(nat \<times> string) list" where
  "status_texts =
    [(200, ''OK''), (201, ''Created''), (202, ''Accepted''), (204, ''No Content''),
     (301, ''Moved Permanently''), (302, ''Found''), (304, ''Not Modified''),
     (307, ''Temporary Redirect''), (308, ''Permanent Redirect''), (400, ''Bad Request''),
     (401, ''Unauthorized''), (403, ''Forbidden''), (404, ''Not Found''),
     (405, ''Method Not Allowed''), (409, ''Conflict''), (410, ''Gone''),
     (418, ''I'' @ [CHR 0x27] @ ''m a teapot''), (422, ''Unprocessable Entity''),
     (429, ''Too Many Requests''), (500, ''Internal Server Error''), (501, ''Not Implemented''),
     (502, ''Bad Gateway''), (503, ''Service Unavailable''), (504, ''Gateway Timeout'')]"

definition statusTextFor :: "nat \<Rightarrow> string" where
  "statusTextFor status = (case map_of status_texts status of Some s \<Rightarrow> s | None \<Rightarrow> [])"

section \<open>One exchange\<close>

text \<open>
  What the code hands to the HTTP client: the options of the request call. No dispatcher is
  passed, so the client's global one makes the connection.
\<close>

datatype dispatcher = GlobalDispatcher | PinnedAgent "address list"

record outbound =
  ob_url :: url
  ob_method :: string
  ob_headers :: "(string, string) jsmap"
  ob_body :: "string option"
  ob_dispatcher :: dispatcher

definition outbound_of :: "(string \<Rightarrow> string) \<Rightarrow> playground_request \<Rightarrow> url \<Rightarrow> outbound" where
  "outbound_of base64 input u =
     \<lparr>ob_url = u, ob_method = pr_method input, ob_headers = buildHeaders base64 input,
      ob_body = (if pr_method input = ''GET'' \<or> pr_method input = ''HEAD'' then None else pr_body input),
      ob_dispatcher = GlobalDispatcher\<rparr>"

record client_error =
  ce_name :: string
  ce_code :: "string option"
  ce_message :: string

text \<open>A body: the chunks that arrive, and the error that ends the stream, if one does.\<close>

type_synonym 'b stream = "'b list list \<times> string option"

record 'b client_response =
  cr_status :: nat
  cr_headers :: "(string, header_value option) jsmap"
  cr_body :: "'b stream"

datatype exec_error =
    InvalidUrl
  | SsrfError ssrf_error
  | BreakerError js_error
  | CircuitOpen string int
  | UpstreamTimeoutError nat
  | UpstreamError string "int option"
  | BodyError string
  | TooManyRedirects string

definition client_failure :: "string \<Rightarrow> nat \<Rightarrow> client_error \<Rightarrow> exec_error" where
  "client_failure host timeoutMs e =
     (if ce_name e = ''TimeoutError'' \<or> ce_name e = ''AbortError'' \<or> ce_code e = Some ''UND_ERR_HEADERS_TIMEOUT''
      then UpstreamTimeoutError timeoutMs
      else UpstreamError (''Could not reach '' @ host @ '': '' @ ce_message e) None)"

text \<open>The classifier of the breakers: the field \<open>upstreamStatus\<close> exists on one kind of error.\<close>

definition upstream_failure :: "exec_error \<Rightarrow> bool" where
  "upstream_failure e = (case e of UpstreamError _ (Some status) \<Rightarrow> 500 \<le> status | _ \<Rightarrow> True)"

definition breaker_defaults :: "exec_error cb_options" where
  "breaker_defaults =
     \<lparr>cbo_name = [], cbo_failureThreshold = Some (6 / 10), cbo_volumeThreshold = Some 5,
      cbo_windowMs = None, cbo_resetTimeoutMs = Some 30000, cbo_successesToClose = None,
      cbo_halfOpenMaxCalls = None, cbo_isFailure = Some upstream_failure\<rparr>"

text \<open>A header of the response that is looked up by name; the first of several.\<close>

definition first_value :: "header_value \<Rightarrow> string" where
  "first_value v = (case v of OneValue s \<Rightarrow> s | Values (s # _) \<Rightarrow> s | Values [] \<Rightarrow> ''undefined'')"

definition response_header :: "'b client_response \<Rightarrow> string \<Rightarrow> header_value option" where
  "response_header r name = (case jm_get (cr_headers r) name of Some (Some v) \<Rightarrow> Some v | _ \<Rightarrow> None)"

definition redirect_location :: "'b client_response \<Rightarrow> string option" where
  "redirect_location r =
     (if 300 \<le> cr_status r \<and> cr_status r < 400
      then case response_header r ''location'' of
             Some v \<Rightarrow> if v = OneValue [] then None else Some (first_value v)
           | None \<Rightarrow> None
      else None)"

definition flat_headers :: "'b client_response \<Rightarrow> (string, string) jsmap" where
  "flat_headers r =
     fold (\<lambda>kv out. case snd kv of None \<Rightarrow> out | Some v \<Rightarrow> jm_set (fst kv) (flat_header v) out)
       (cr_headers r) []"

record 'b execute_result =
  xr_ok :: bool
  xr_status :: nat
  xr_statusText :: string
  xr_headers :: "(string, string) jsmap"
  xr_body :: "'b list"
  xr_truncated :: bool
  xr_bodySizeBytes :: nat
  xr_contentType :: "string option"
  xr_redirects :: "string list"
  xr_finalUrl :: string
  xr_targetHost :: string

section \<open>The loop over the hops\<close>

text \<open>
  The world of an execution: the platform's URL functions, the DNS answer, the network's reply and
  the times at which the breaker is asked and told, by hop, and the decoder of each encoding.
\<close>

record 'b world =
  w_parse :: "string \<Rightarrow> web_url option"
  w_serialize :: "web_url \<Rightarrow> string"
  w_resolve :: "string \<Rightarrow> url \<Rightarrow> web_url option"
  w_base64 :: "string \<Rightarrow> string"
  w_lookup :: "nat \<Rightarrow> string \<Rightarrow> string option + address list"
  w_send :: "nat \<Rightarrow> outbound \<Rightarrow> client_error + 'b client_response"
  w_started :: "nat \<Rightarrow> time"
  w_ended :: "nat \<Rightarrow> time"
  w_decode :: "codec \<Rightarrow> 'b stream \<Rightarrow> 'b stream"

definition guard_url :: "'b world \<Rightarrow> web_url \<Rightarrow> url" where
  "guard_url w u =
     \<lparr>url_href = w_serialize w u, url_protocol = wu_protocol u, url_username = wu_username u,
      url_password = wu_password u, url_port = wu_port u, url_hostname = wu_hostname u\<rparr>"

text \<open>The state that outlives an execution, and the log of what was sent.\<close>

record exec_state =
  xs_breakers :: "exec_error cb_registry"
  xs_sent :: "(ssrf_result \<times> outbound) list"

definition put_breaker :: "string \<Rightarrow> exec_error breaker \<Rightarrow> exec_state \<Rightarrow> exec_state" where
  "put_breaker host b s =
     s\<lparr>xs_breakers := (xs_breakers s)\<lparr>reg_breakers := jm_set host b (reg_breakers (xs_breakers s))\<rparr>\<rparr>"

text \<open>The call through the breaker of the host.\<close>

definition guarded_send ::
  "'b world \<Rightarrow> playground_request \<Rightarrow> nat \<Rightarrow> nat \<Rightarrow> ssrf_result \<Rightarrow> exec_state \<Rightarrow>
   exec_state \<times> (exec_error + 'b client_response)"
where
  "guarded_send w input timeoutMs hop validated s =
     (let host = url_hostname (sr_url validated);
          (reg, found) = reg_get (xs_breakers s) (w_started w hop) host;
          s1 = s\<lparr>xs_breakers := reg\<rparr> in
      case found of
        Inl e \<Rightarrow> (s1, Inl (BreakerError e))
      | Inr b \<Rightarrow>
          (case cb_begin b (w_started w hop) of
             (b', Some (CircuitOpenError n ms)) \<Rightarrow> (put_breaker host b' s1, Inl (CircuitOpen n ms))
           | (b', Some (OperationError e)) \<Rightarrow> (put_breaker host b' s1, Inl e)
           | (b', None) \<Rightarrow>
               (let request = outbound_of (w_base64 w) input (sr_url validated);
                    s2 = s1\<lparr>xs_sent := xs_sent s1 @ [(validated, request)]\<rparr>;
                    result = (case w_send w hop request of
                                Inl e \<Rightarrow> Inl (client_failure host timeoutMs e)
                              | Inr r \<Rightarrow> Inr r)
                in (put_breaker host (cb_finish b' (w_ended w hop) result) s2, result))))"

definition decompressStream :: "'b world \<Rightarrow> 'b client_response \<Rightarrow> 'b stream" where
  "decompressStream w r =
     (case decoder_of (map_option first_value (response_header r ''content-encoding'')) of
        Unchanged \<Rightarrow> cr_body r
      | codec \<Rightarrow> w_decode w codec (cr_body r))"

definition respond ::
  "'b world \<Rightarrow> nat \<Rightarrow> string \<Rightarrow> string list \<Rightarrow> string \<Rightarrow> 'b client_response \<Rightarrow> exec_error + 'b execute_result"
where
  "respond w maxBytes currentUrl redirects host r =
     (let (chunks, broken) = decompressStream w r; body = readBounded chunks maxBytes; headers = flat_headers r in
      case (if br_truncated body then None else broken) of
        Some m \<Rightarrow> Inl (BodyError m)
      | None \<Rightarrow>
          Inr \<lparr>xr_ok = (200 \<le> cr_status r \<and> cr_status r < 300), xr_status = cr_status r,
               xr_statusText = statusTextFor (cr_status r), xr_headers = headers,
               xr_body = br_data body, xr_truncated = br_truncated body,
               xr_bodySizeBytes = br_bytes body, xr_contentType = jm_get headers ''content-type'',
               xr_redirects = redirects, xr_finalUrl = redactUrl (w_parse w) (w_serialize w) currentUrl,
               xr_targetHost = host\<rparr>)"

function execute_hops ::
  "'b world \<Rightarrow> playground_request \<Rightarrow> ssrf_policy \<Rightarrow> nat \<Rightarrow> nat \<Rightarrow> nat \<Rightarrow> string \<Rightarrow> string list \<Rightarrow>
   exec_state \<Rightarrow> exec_state \<times> (exec_error + 'b execute_result)"
where
  "execute_hops w input policy timeoutMs maxBytes hop currentUrl redirects s =
     (if sp_maxRedirects policy < hop
      then (s, Inl (TooManyRedirects
             (''Too many redirects (limit '' @ show_nat (sp_maxRedirects policy) @ '').'')))
      else case validateTargetUrl (map_option (guard_url w) \<circ> w_parse w) (w_lookup w hop) currentUrl policy of
             Inl e \<Rightarrow> (s, Inl (SsrfError e))
           | Inr validated \<Rightarrow>
               (case guarded_send w input timeoutMs hop validated s of
                  (s', Inl e) \<Rightarrow> (s', Inl e)
                | (s', Inr r) \<Rightarrow>
                    (case (if hop < sp_maxRedirects policy then redirect_location r else None) of
                       Some location \<Rightarrow>
                         (case w_resolve w location (sr_url validated) of
                            None \<Rightarrow> (s', Inl InvalidUrl)
                          | Some u \<Rightarrow>
                              execute_hops w input policy timeoutMs maxBytes (hop + 1) (w_serialize w u)
                                (redirects @ [redactUrl (w_parse w) (w_serialize w) (w_serialize w u)]) s')
                     | None \<Rightarrow>
                         (s', respond w maxBytes currentUrl redirects (url_hostname (sr_url validated)) r))))"
  by pat_completeness auto

termination execute_hops
  by (relation "measure (\<lambda>(w, input, policy, timeoutMs, maxBytes, hop, _). Suc (sp_maxRedirects policy) - hop)")
    (auto split: if_splits)

declare execute_hops.simps [simp del]

record playground_config =
  cf_allowHttp :: bool
  cf_hostAllowlist :: "string list"
  cf_maxRedirects :: nat
  cf_timeoutMs :: nat
  cf_maxResponseBytes :: nat

definition buildSsrfPolicy :: "playground_config \<Rightarrow> ssrf_policy" where
  "buildSsrfPolicy config =
     \<lparr>sp_allowHttp = cf_allowHttp config, sp_hostAllowlist = cf_hostAllowlist config,
      sp_maxRedirects = cf_maxRedirects config, sp_extraPorts = None\<rparr>"

definition executePlaygroundRequest ::
  "'b world \<Rightarrow> playground_config \<Rightarrow> playground_request \<Rightarrow> exec_state \<Rightarrow>
   exec_state \<times> (exec_error + 'b execute_result)"
where
  "executePlaygroundRequest w config input s =
     (let timeoutMs = min (case pr_timeoutMs input of Some t \<Rightarrow> t | None \<Rightarrow> cf_timeoutMs config) (cf_timeoutMs config) in
      case buildUrl (w_parse w) (w_serialize w) input of
        None \<Rightarrow> (s, Inl InvalidUrl)
      | Some u \<Rightarrow>
          execute_hops w input (buildSsrfPolicy config) timeoutMs (cf_maxResponseBytes config) 0 u [] s)"

definition playgroundCircuitSnapshots :: "exec_state \<Rightarrow> time \<Rightarrow> exec_state \<times> cb_snapshot list" where
  "playgroundCircuitSnapshots s now =
     (let (reg, snaps) = reg_unhealthy (xs_breakers s) now in (s\<lparr>xs_breakers := reg\<rparr>, snaps))"

section \<open>The bounded read\<close>

lemma read_chunks_exact:
  "length kept = bytes \<Longrightarrow> bytes \<le> maxBytes \<Longrightarrow>
   br_data (read_chunks maxBytes kept bytes chunks) = take maxBytes (kept @ concat chunks) \<and>
   (br_truncated (read_chunks maxBytes kept bytes chunks) \<longleftrightarrow> maxBytes < bytes + length (concat chunks)) \<and>
   (br_truncated (read_chunks maxBytes kept bytes chunks) \<longleftrightarrow> maxBytes < br_bytes (read_chunks maxBytes kept bytes chunks))"
  by (induction maxBytes kept bytes chunks rule: read_chunks.induct) (auto simp: Let_def)

lemma readBounded_exact:
  "br_data (readBounded chunks maxBytes) = take maxBytes (concat chunks)"
  "br_truncated (readBounded chunks maxBytes) \<longleftrightarrow> maxBytes < length (concat chunks)"
  "br_truncated (readBounded chunks maxBytes) \<longleftrightarrow> maxBytes < br_bytes (readBounded chunks maxBytes)"
  using read_chunks_exact [of "[]" 0 maxBytes chunks] by (auto simp: readBounded_def)

section \<open>The headers\<close>

text \<open>The names that the authentication and the content type set.\<close>

definition auth_names :: "playground_request \<Rightarrow> string list" where
  "auth_names input =
     (case pr_auth input of
        NoAuth \<Rightarrow> []
      | ApiKeyAuth _ InHeader name \<Rightarrow> [toLowerCase name]
      | ApiKeyAuth _ InQuery _ \<Rightarrow> []
      | _ \<Rightarrow> [''authorization'']) @ [''content-type'']"

definition user_header_ok :: "string \<times> string \<Rightarrow> bool" where
  "user_header_ok kv \<longleftrightarrow> fst kv \<notin> set FORBIDDEN_PROXY_HEADERS \<and>
     list_all (\<lambda>c. \<not> crlf c) (snd kv) \<and> length (snd kv) \<le> 4096"

lemma prop_set_mem: "kv \<in> set (prop_set k v m) \<Longrightarrow> kv = (k, v) \<or> kv \<in> set m"
  by (induction m) (auto simp: prop_set_def split: if_splits)

lemma own_headers_ok: "kv \<in> set own_headers \<Longrightarrow> user_header_ok kv"
proof -
  have "list_all user_header_ok own_headers" by code_simp
  then show "kv \<in> set own_headers \<Longrightarrow> user_header_ok kv" by (simp add: list_all_iff)
qed

lemma add_header_ok:
  assumes "\<forall>kv\<in>set m. user_header_ok kv" and "kv \<in> set (add_header h m)"
  shows "user_header_ok kv"
proof -
  let ?v = "take 4096 (filter (\<lambda>c. \<not> crlf c) (hp_value h))"
  have "list_all (\<lambda>c. \<not> crlf c) ?v" by (auto simp: list_all_iff dest: in_set_takeD)
  then show ?thesis
    using assms prop_set_mem [of kv "toLowerCase (trim (hp_name h))" ?v m]
    by (auto simp: add_header_def Let_def user_header_ok_def split: if_splits)
qed

lemma fold_add_header_ok:
  "\<forall>kv\<in>set m. user_header_ok kv \<Longrightarrow> \<forall>kv\<in>set (fold add_header hs m). user_header_ok kv"
proof (induction hs arbitrary: m)
  case (Cons h hs)
  then show ?case using add_header_ok [of m _ h] by (metis fold_simps(2))
qed simp

text \<open>Every header the executor sends is one of its own, one the user set, or one that the
  authentication or the content type set; those the user sets are never one of the forbidden
  names, hold no line break and are at most 4096 characters long.\<close>

theorem headers_filtered:
  "list_all (\<lambda>kv. if fst kv \<in> set (auth_names input) then True else user_header_ok kv) (buildHeaders base64 input)"
proof -
  have ok: "\<forall>kv\<in>set (fold add_header (pr_headers input) own_headers). user_header_ok kv"
    using own_headers_ok by (intro fold_add_header_ok) auto
  have "kv \<in> set m \<or> fst kv \<in> set (auth_names input)" if "kv \<in> set (add_auth base64 (pr_auth input) m)" for kv m
    using that by (auto simp: add_auth_def auth_names_def dest!: prop_set_mem
        split: playground_auth.splits auth_place.splits)
  moreover have "kv \<in> set m \<or> fst kv \<in> set (auth_names input)" if "kv \<in> set (add_content_type input m)" for kv m
    using that by (auto simp: add_content_type_def auth_names_def dest!: prop_set_mem
        split: option.splits if_splits)
  ultimately show ?thesis using ok unfolding buildHeaders_def list_all_iff by (metis (no_types, lifting))
qed

text \<open>
  The name of an API key is not checked against the forbidden names, and neither it nor a bearer
  token is stripped of line breaks.
\<close>

lemma api_key_sets_host:
  "jm_get (buildHeaders base64 \<lparr>pr_method = ''GET'', pr_url = ''https://api.example.com/'', pr_headers = [],
      pr_queryParams = [], pr_body = None, pr_contentType = None,
      pr_auth = ApiKeyAuth ''internal.example.com'' InHeader ''Host'', pr_timeoutMs = None\<rparr>) ''host'' =
    Some ''internal.example.com''"
proof -
  have "toLowerCase ''Host'' = ''host''" by code_simp
  then show ?thesis
    by (simp add: buildHeaders_def add_content_type_def add_auth_def own_headers_def prop_set_def)
qed

section \<open>What is sent and what is returned\<close>

definition approved :: "(string \<Rightarrow> string) \<Rightarrow> playground_request \<Rightarrow> ssrf_policy \<Rightarrow> ssrf_result \<times> outbound \<Rightarrow> bool" where
  "approved base64 input policy x \<longleftrightarrow>
     url_permitted (sr_url (fst x)) policy \<and> sr_addresses (fst x) \<noteq> [] \<and>
     list_all (\<lambda>a. isPublicIp (fst a)) (sr_addresses (fst x)) \<and>
     snd x = outbound_of base64 input (sr_url (fst x))"

lemma put_breaker_sent [simp]: "xs_sent (put_breaker h b s) = xs_sent s"
  by (simp add: put_breaker_def)

lemma guarded_send_sent:
  "xs_sent (fst (guarded_send w input t hop v s)) = xs_sent s \<or>
   xs_sent (fst (guarded_send w input t hop v s)) = xs_sent s @ [(v, outbound_of (w_base64 w) input (sr_url v))]"
  by (auto simp: guarded_send_def Let_def split: prod.splits sum.splits option.splits cb_error.splits)

lemma guarded_send_error:
  assumes "snd (guarded_send w input t hop v s) = Inl (TooManyRedirects m)"
  shows "\<exists>b b'. cb_begin b (w_started w hop) = (b', Some (OperationError (TooManyRedirects m)))"
  using assms
  by (auto simp: guarded_send_def Let_def client_failure_def split: prod.splits sum.splits option.splits cb_error.splits if_splits)

lemma cb_begin_error: "cb_begin b now = (b', Some (OperationError e)) \<Longrightarrow> False"
  by (auto simp: cb_begin_def Let_def split: if_splits)

lemma validated_approved:
  "validateTargetUrl parse lookup u policy = Inr v \<Longrightarrow> approved base64 input policy (v, outbound_of base64 input (sr_url v))"
  using ssrf_validated_safe_lemma [of parse lookup u policy v] by (simp add: approved_def list_all_iff)

text \<open>One turn of the loop logs at most one approved request, and ends or goes to the next hop.\<close>

definition logs :: "'b world \<Rightarrow> playground_request \<Rightarrow> ssrf_policy \<Rightarrow> nat \<Rightarrow> exec_state \<Rightarrow> exec_state \<Rightarrow> bool" where
  "logs w input policy n s s' \<longleftrightarrow>
     (\<exists>new. xs_sent s' = xs_sent s @ new \<and> length new \<le> n \<and> list_all (approved (w_base64 w) input policy) new)"

lemma logs_none: "logs w input policy n s s"
  unfolding logs_def by (intro exI [of _ "[]"]) simp

lemma logs_trans: "logs w input policy m s s' \<Longrightarrow> logs w input policy n s' s'' \<Longrightarrow> logs w input policy (m + n) s s''"
  unfolding logs_def
proof (elim exE conjE)
  fix xs ys assume "xs_sent s' = xs_sent s @ xs" "length xs \<le> m" "list_all (approved (w_base64 w) input policy) xs"
    "xs_sent s'' = xs_sent s' @ ys" "length ys \<le> n" "list_all (approved (w_base64 w) input policy) ys"
  then show "\<exists>new. xs_sent s'' = xs_sent s @ new \<and> length new \<le> m + n \<and> list_all (approved (w_base64 w) input policy) new"
    by (intro exI [of _ "xs @ ys"]) simp
qed

definition ends_well :: "'b world \<Rightarrow> nat \<Rightarrow> string list \<Rightarrow> exec_error + 'b execute_result \<Rightarrow> bool" where
  "ends_well w mx rs res \<longleftrightarrow>
     (case res of
        Inl e \<Rightarrow> \<not> (\<exists>m. e = TooManyRedirects m)
      | Inr x \<Rightarrow> \<exists>u host r. respond w mx u rs host r = Inr x)"

lemma respond_error: "respond w mx u rs host r \<noteq> Inl (TooManyRedirects m)"
  by (cases "decompressStream w r") (simp add: respond_def Let_def split: option.splits)

lemma hop_turn:
  assumes "hop \<le> sp_maxRedirects policy"
  obtains (stop) "logs w input policy 1 s (fst (execute_hops w input policy t mx hop u rs s))"
      "ends_well w mx rs (snd (execute_hops w input policy t mx hop u rs s))"
  | (follow) u' x s' where "hop < sp_maxRedirects policy" "logs w input policy 1 s s'"
      "execute_hops w input policy t mx hop u rs s = execute_hops w input policy t mx (hop + 1) u' (rs @ [x]) s'"
proof (cases "validateTargetUrl (map_option (guard_url w) \<circ> w_parse w) (w_lookup w hop) u policy")
  case (Inl e)
  have "execute_hops w input policy t mx hop u rs s = (s, Inl (SsrfError e))"
    using assms Inl by (simp add: execute_hops.simps [of w input policy t mx hop])
  then show ?thesis using stop logs_none [of w input policy 1 s] by (simp add: ends_well_def)
next
  case (Inr v)
  obtain s' out where g: "guarded_send w input t hop v s = (s', out)" by (cases "guarded_send w input t hop v s")
  have "logs w input policy 1 s s'"
    using guarded_send_sent [of w input t hop v s] validated_approved [OF Inr, of "w_base64 w" input] g
    by (auto simp: logs_def)
  note log = this
  show ?thesis
  proof (cases out)
    case e: (Inl e)
    have "\<not> (\<exists>m. e = TooManyRedirects m)"
      using guarded_send_error [of w input t hop v s] cb_begin_error g e by (metis snd_conv)
    then show ?thesis
      using stop log assms Inr g e by (simp add: execute_hops.simps [of w input policy t mx hop] ends_well_def)
  next
    case o: (Inr r)
    show ?thesis
    proof (cases "if hop < sp_maxRedirects policy then redirect_location r else None")
      case None
      have "ends_well w mx rs (respond w mx u rs host r)" for host
        using respond_error [of w mx u rs host r] by (auto simp: ends_well_def split: sum.splits)
      then show ?thesis
        using stop log assms Inr g o None by (simp add: execute_hops.simps [of w input policy t mx hop])
    next
      case (Some location)
      then have lt: "hop < sp_maxRedirects policy" by (simp split: if_splits)
      show ?thesis
      proof (cases "w_resolve w location (sr_url v)")
        case None
        then show ?thesis
          using stop log assms Inr g o Some by (simp add: execute_hops.simps [of w input policy t mx hop] ends_well_def)
      next
        case u': (Some u')
        have "execute_hops w input policy t mx hop u rs s = execute_hops w input policy t mx (hop + 1) (w_serialize w u')
            (rs @ [redactUrl (w_parse w) (w_serialize w) (w_serialize w u')]) s'"
          using assms Inr g o Some u' by (simp add: execute_hops.simps [of w input policy t mx hop])
        then show ?thesis by (rule follow [OF lt log])
      qed
    qed
  qed
qed

lemma execute_hops_run:
  assumes "hop + n = sp_maxRedirects policy"
  shows "logs w input policy (Suc n) s (fst (execute_hops w input policy t mx hop u rs s)) \<and>
    (\<exists>more. length more \<le> n \<and> ends_well w mx (rs @ more) (snd (execute_hops w input policy t mx hop u rs s)))"
  using assms
proof (induction n arbitrary: hop u rs s)
  case 0
  then have h: "hop \<le> sp_maxRedirects policy" "\<not> hop < sp_maxRedirects policy" by simp_all
  show ?case
    by (rule hop_turn [OF h(1), of w input s t mx u rs]) (use h(2) in \<open>auto intro: exI [of _ "[]"]\<close>)
next
  case (Suc n)
  then have h: "hop \<le> sp_maxRedirects policy" by simp
  show ?case
  proof (rule hop_turn [OF h, of w input s t mx u rs])
    assume l: "logs w input policy 1 s (fst (execute_hops w input policy t mx hop u rs s))"
      "ends_well w mx rs (snd (execute_hops w input policy t mx hop u rs s))"
    have "logs w input policy (1 + Suc n) s (fst (execute_hops w input policy t mx hop u rs s))"
      by (rule logs_trans [OF l(1) logs_none])
    then show ?thesis using l(2) by (intro conjI exI [of _ "[]"]) simp_all
  next
    fix u' x s' assume f: "hop < sp_maxRedirects policy" "logs w input policy 1 s s'"
      "execute_hops w input policy t mx hop u rs s = execute_hops w input policy t mx (hop + 1) u' (rs @ [x]) s'"
    have "(hop + 1) + n = sp_maxRedirects policy" using Suc.prems by simp
    from Suc.IH [OF this, of s' u' "rs @ [x]"] obtain more where
      r: "logs w input policy (Suc n) s' (fst (execute_hops w input policy t mx hop u rs s))"
      "length more \<le> n" "ends_well w mx ((rs @ [x]) @ more) (snd (execute_hops w input policy t mx hop u rs s))"
      unfolding f(3) by (elim conjE exE)
    have "logs w input policy (1 + Suc n) s (fst (execute_hops w input policy t mx hop u rs s))"
      by (rule logs_trans [OF f(2) r(1)])
    then show ?thesis using r(2,3) by (intro conjI exI [of _ "x # more"]) simp_all
  qed
qed

text \<open>C33: Whatever the network, the DNS and the URL parser answer, an execution sends at most one
  request more than the redirects allowed, and each goes to a URL that obeys the policy and whose
  addresses, at the time of the check, were all public; it carries the headers of the request and
  a body only if the method has one.\<close>

theorem executor_requests_approved:
  "\<exists>new. xs_sent (fst (executePlaygroundRequest w config input s)) = xs_sent s @ new \<and>
     length new \<le> Suc (cf_maxRedirects config) \<and>
     list_all (\<lambda>x. url_permitted (sr_url (fst x)) (buildSsrfPolicy config) \<and> sr_addresses (fst x) \<noteq> [] \<and>
       list_all (\<lambda>a. isPublicIp (fst a)) (sr_addresses (fst x)) \<and>
       snd x = outbound_of (w_base64 w) input (sr_url (fst x))) new"
proof (cases "buildUrl (w_parse w) (w_serialize w) input")
  case None
  then show ?thesis by (intro exI [of _ "[]"]) (simp add: executePlaygroundRequest_def Let_def)
next
  case (Some u)
  have "0 + cf_maxRedirects config = sp_maxRedirects (buildSsrfPolicy config)" by (simp add: buildSsrfPolicy_def)
  from execute_hops_run [OF this, THEN conjunct1] show ?thesis
    unfolding executePlaygroundRequest_def Let_def Some option.case logs_def approved_def .
qed

text \<open>What an execution returns holds at most the configured number of bytes of the decoded
  body, says truthfully whether it was cut, and lists at most as many redirects as allowed; the
  error for too many redirects is never raised: the last redirect is returned as the answer.\<close>

theorem executor_result_bounded:
  "case snd (executePlaygroundRequest w config input s) of
     Inl e \<Rightarrow> (case e of TooManyRedirects m \<Rightarrow> False | _ \<Rightarrow> True)
   | Inr x \<Rightarrow> \<exists>chunks. xr_body x = take (cf_maxResponseBytes config) (concat chunks) \<and>
       (xr_truncated x \<longleftrightarrow> cf_maxResponseBytes config < length (concat chunks)) \<and>
       length (xr_redirects x) \<le> cf_maxRedirects config"
proof (cases "buildUrl (w_parse w) (w_serialize w) input")
  case None
  then show ?thesis by (simp add: executePlaygroundRequest_def Let_def)
next
  case (Some u)
  let ?t = "min (case pr_timeoutMs input of Some t \<Rightarrow> t | None \<Rightarrow> cf_timeoutMs config) (cf_timeoutMs config)"
  have e: "executePlaygroundRequest w config input s =
      execute_hops w input (buildSsrfPolicy config) ?t (cf_maxResponseBytes config) 0 u [] s"
    by (simp add: executePlaygroundRequest_def Let_def Some)
  have "0 + cf_maxRedirects config = sp_maxRedirects (buildSsrfPolicy config)" by (simp add: buildSsrfPolicy_def)
  from execute_hops_run [OF this, of w input s ?t "cf_maxResponseBytes config" u "[]"] obtain more where
    more: "length more \<le> cf_maxRedirects config"
      "ends_well w (cf_maxResponseBytes config) more (snd (executePlaygroundRequest w config input s))"
    unfolding e append_Nil by (elim conjE exE)
  show ?thesis
  proof (cases "snd (executePlaygroundRequest w config input s)")
    case (Inl err)
    then show ?thesis using more(2) by (auto simp: ends_well_def split: exec_error.splits)
  next
    case (Inr x)
    then obtain v host r where x: "respond w (cf_maxResponseBytes config) v more host r = Inr x"
      using more(2) by (auto simp: ends_well_def)
    have "xr_body x = br_data (readBounded (fst (decompressStream w r)) (cf_maxResponseBytes config)) \<and>
        xr_truncated x = br_truncated (readBounded (fst (decompressStream w r)) (cf_maxResponseBytes config)) \<and>
        xr_redirects x = more"
      using x by (auto simp: respond_def Let_def split: prod.splits option.splits if_splits)
    then show ?thesis unfolding Inr sum.case using more(1)
      by (intro exI [of _ "fst (decompressStream w r)"]) (simp add: readBounded_exact(1,2))
  qed
qed

text \<open>
  The agent with the pinned lookup is built but never passed to the client: every request uses
  the global dispatcher, which resolves the name again after the guard has.
\<close>

lemma executor_does_not_pin:
  "\<exists>new. xs_sent (fst (executePlaygroundRequest w config input s)) = xs_sent s @ new \<and>
     list_all (\<lambda>x. ob_dispatcher (snd x) = GlobalDispatcher) new"
proof (cases "buildUrl (w_parse w) (w_serialize w) input")
  case None
  then show ?thesis by (intro exI [of _ "[]"]) (simp add: executePlaygroundRequest_def Let_def)
next
  case (Some u)
  have "0 + cf_maxRedirects config = sp_maxRedirects (buildSsrfPolicy config)" by (simp add: buildSsrfPolicy_def)
  from execute_hops_run [OF this, THEN conjunct1] obtain new where
    n: "xs_sent (fst (executePlaygroundRequest w config input s)) = xs_sent s @ new"
      "list_all (approved (w_base64 w) input (buildSsrfPolicy config)) new"
    unfolding executePlaygroundRequest_def Let_def Some option.case logs_def by meson
  have "list_all (\<lambda>x. ob_dispatcher (snd x) = GlobalDispatcher) new"
    using n(2) by (auto simp: list_all_iff approved_def outbound_of_def)
  then show ?thesis using n(1) by (intro exI [of _ new] conjI)
qed

end
