(* ===== verification/Codegen.thy ===== *)
theory Codegen
  imports PlaygroundRequest WebUrl
begin

text \<open>
  Code generation (\<open>apps/api/src/modules/playground/codegen.ts\<close>): the context every generator
  shares, the escapes, and the generator for the shell. A shell command is read back with a word
  splitter for the part of the POSIX shell language that can occur in it.
\<close>

abbreviation dq :: string where "dq \<equiv> [CHR 0x22]"
abbreviation sq :: string where "sq \<equiv> [CHR 0x27]"
abbreviation bs :: string where "bs \<equiv> [CHR 0x5C]"
abbreviation bt :: string where "bt \<equiv> [CHR 0x60]"
abbreviation nl :: string where "nl \<equiv> [CHR 0x0A]"
abbreviation tab :: string where "tab \<equiv> [CHR 0x09]"

section \<open>The context\<close>

datatype secret_placement = PlaceHeader | PlaceQuery | PlaceBasic

record code_context =
  cc_method :: string
  cc_url :: string
  cc_headers :: "(string \<times> string) list"
  cc_body :: "string option"
  cc_contentType :: "string option"
  cc_secretEnv :: "string option"
  cc_secretPlacement :: "secret_placement option"
  cc_secretHeaderName :: "string option"
  cc_secretQueryName :: "string option"

definition SECRET_ENV :: string where
  "SECRET_ENV = ''API_KEY''"

text \<open>An optional text counts when it is present and not empty.\<close>

definition truthy :: "string option \<Rightarrow> string option" where
  "truthy s = (case s of Some (c # cs) \<Rightarrow> Some (c # cs) | _ \<Rightarrow> None)"

definition context_param :: "query_param \<Rightarrow> web_url \<Rightarrow> web_url" where
  "context_param p u =
     (if qp_enabled p \<and> trim (qp_name p) \<noteq> [] then param_set (qp_name p) (qp_value p) u else u)"

definition context_headers :: "playground_request \<Rightarrow> (string \<times> string) list" where
  "context_headers req =
     map (\<lambda>h. (hp_name h, hp_value h)) (filter (\<lambda>h. hp_enabled h \<and> trim (hp_name h) \<noteq> []) (pr_headers req)) @
     (case (truthy (pr_contentType req), truthy (pr_body req)) of
        (Some ct, Some _) \<Rightarrow> [(''Content-Type'', ct)]
      | _ \<Rightarrow> [])"

definition place_secret :: "playground_auth \<Rightarrow> code_context \<Rightarrow> code_context" where
  "place_secret auth c =
     (case auth of
        BearerAuth _ \<Rightarrow> c\<lparr>cc_secretEnv := Some SECRET_ENV, cc_secretPlacement := Some PlaceHeader,
          cc_secretHeaderName := Some ''Authorization''\<rparr>
      | ApiKeyAuth _ InHeader name \<Rightarrow> c\<lparr>cc_secretEnv := Some SECRET_ENV,
          cc_secretPlacement := Some PlaceHeader, cc_secretHeaderName := Some name\<rparr>
      | ApiKeyAuth _ InQuery name \<Rightarrow> c\<lparr>cc_secretEnv := Some SECRET_ENV,
          cc_secretPlacement := Some PlaceQuery, cc_secretQueryName := Some name\<rparr>
      | BasicAuth _ _ \<Rightarrow> c\<lparr>cc_secretEnv := Some SECRET_ENV, cc_secretPlacement := Some PlaceBasic\<rparr>
      | NoAuth \<Rightarrow> c)"

definition buildContext ::
  "(string \<Rightarrow> web_url option) \<Rightarrow> (web_url \<Rightarrow> string) \<Rightarrow> playground_request \<Rightarrow> code_context option"
where
  "buildContext parse serialize req =
     (case parse (pr_url req) of
        None \<Rightarrow> None
      | Some u \<Rightarrow>
          Some (place_secret (pr_auth req)
            \<lparr>cc_method = pr_method req, cc_url = serialize (fold context_param (pr_queryParams req) u),
             cc_headers = context_headers req, cc_body = pr_body req, cc_contentType = pr_contentType req,
             cc_secretEnv = None, cc_secretPlacement = None, cc_secretHeaderName = None,
             cc_secretQueryName = None\<rparr>))"

section \<open>Escapes\<close>

definition esc :: "string \<Rightarrow> string" where
  "esc v = concat (map (\<lambda>c. if c = CHR 0x22 then bs @ dq else [c])
     (concat (map (\<lambda>c. if c = CHR 0x5C then bs @ bs else [c]) v)))"

definition shellEsc :: "string \<Rightarrow> string" where
  "shellEsc v = concat (map (\<lambda>c. if c = CHR 0x27 then sq @ bs @ sq @ sq else [c]) v)"

definition quote_esc :: "string \<Rightarrow> string" where
  "quote_esc v = concat (map (\<lambda>c. if c = CHR 0x27 then bs @ sq else [c]) v)"

text \<open>The names of the secret, where it has that place.\<close>

definition header_secret :: "code_context \<Rightarrow> string option" where
  "header_secret c = (if cc_secretPlacement c = Some PlaceHeader then truthy (cc_secretHeaderName c) else None)"

definition query_secret :: "code_context \<Rightarrow> string option" where
  "query_secret c = (if cc_secretPlacement c = Some PlaceQuery then truthy (cc_secretQueryName c) else None)"

definition query_separator :: "string \<Rightarrow> string" where
  "query_separator u = (if CHR ''?'' \<in> set u then ''&'' else ''?'')"

definition lines_if :: "'a option \<Rightarrow> ('a \<Rightarrow> string list) \<Rightarrow> string list" where
  "lines_if x f = (case x of Some v \<Rightarrow> f v | None \<Rightarrow> [])"

section \<open>The shell\<close>

definition curl_url :: "code_context \<Rightarrow> string" where
  "curl_url c =
     (case query_secret c of
        Some name \<Rightarrow> cc_url c @ query_separator (cc_url c) @ name @ ''=$'' @ SECRET_ENV
      | None \<Rightarrow> cc_url c)"

definition bearer_prefix :: "string \<Rightarrow> string" where
  "bearer_prefix name = (if toLowerCase name = ''authorization'' then ''Bearer '' else [])"

definition gen_curl :: "code_context \<Rightarrow> string" where
  "gen_curl c = join nl
     ([''curl --request '' @ cc_method c @ '' '' @ bs,
       ''  --url '' @ sq @ shellEsc (curl_url c) @ sq @ '' '' @ bs] @
      map (\<lambda>(name, v). ''  --header '' @ sq @ shellEsc name @ '': '' @ shellEsc v @ sq @ '' '' @ bs) (cc_headers c) @
      lines_if (header_secret c) (\<lambda>name.
        [''  --header '' @ dq @ name @ '': '' @ bearer_prefix name @ ''$'' @ SECRET_ENV @ dq @ '' '' @ bs]) @
      (if cc_secretPlacement c = Some PlaceBasic
       then [''  --user '' @ dq @ ''$API_USER:$API_PASSWORD'' @ dq @ '' '' @ bs] else []) @
      lines_if (truthy (cc_body c)) (\<lambda>body. [''  --data '' @ sq @ shellEsc body @ sq @ '' '' @ bs]) @
      [''  --max-time 30 --fail-with-body''])"

section \<open>Reading a shell command\<close>

text \<open>
  A word is a list of characters and parameter expansions. The reader gives None on everything that
  is more than one simple command of words: an unquoted operator or newline, a substitution, a
  pattern, an open quote.
\<close>

datatype shell_char = Ch char | Param string
datatype quoting = Plain | SingleQ | DoubleQ

definition name_char :: "char \<Rightarrow> bool" where
  "name_char c \<longleftrightarrow> is_upper c \<or> is_lower c \<or> is_digit c \<or> c = CHR ''_''"

definition current :: "shell_char list option \<Rightarrow> shell_char list" where
  "current w = (case w of None \<Rightarrow> [] | Some x \<Rightarrow> x)"

definition finished :: "shell_char list option \<Rightarrow> shell_char list list" where
  "finished w = (case w of None \<Rightarrow> [] | Some x \<Rightarrow> [x])"

definition shell_special :: "char \<Rightarrow> bool" where
  "shell_special c \<longleftrightarrow> c \<in> set ''|&;<>()*?[]#~{}!'' \<or> c = CHR 0x60 \<or> c = CHR 0x0A"

function sh ::
  "quoting \<Rightarrow> shell_char list option \<Rightarrow> shell_char list list \<Rightarrow> string \<Rightarrow> shell_char list list option"
where
  "sh q w ws [] = (if q = Plain then Some (ws @ finished w) else None)"
| "sh SingleQ w ws (c # s) =
     (if c = CHR 0x27 then sh Plain (Some (current w)) ws s
      else sh SingleQ (Some (current w @ [Ch c])) ws s)"
| "sh DoubleQ w ws (c # s) =
     (if c = CHR 0x22 then sh Plain (Some (current w)) ws s
      else if c = CHR 0x5C then
        (case s of
           [] \<Rightarrow> None
         | d # s' \<Rightarrow>
             if d = CHR 0x0A then sh DoubleQ w ws s'
             else if d \<in> {CHR ''$'', CHR 0x60, CHR 0x22, CHR 0x5C}
             then sh DoubleQ (Some (current w @ [Ch d])) ws s'
             else sh DoubleQ (Some (current w @ [Ch c, Ch d])) ws s')
      else if c = CHR ''$'' then
        (case takeWhile name_char s of
           [] \<Rightarrow> None
         | n \<Rightarrow> sh DoubleQ (Some (current w @ [Param n])) ws (dropWhile name_char s))
      else if c = CHR 0x60 then None
      else sh DoubleQ (Some (current w @ [Ch c])) ws s)"
| "sh Plain w ws (c # s) =
     (if c = CHR '' '' \<or> c = CHR 0x09 then sh Plain None (ws @ finished w) s
      else if c = CHR 0x27 then sh SingleQ (Some (current w)) ws s
      else if c = CHR 0x22 then sh DoubleQ (Some (current w)) ws s
      else if c = CHR 0x5C then
        (case s of
           [] \<Rightarrow> None
         | d # s' \<Rightarrow> if d = CHR 0x0A then sh Plain w ws s' else sh Plain (Some (current w @ [Ch d])) ws s')
      else if c = CHR ''$'' then
        (case takeWhile name_char s of
           [] \<Rightarrow> None
         | n \<Rightarrow> sh Plain (Some (current w @ [Param n])) ws (dropWhile name_char s))
      else if shell_special c then None
      else sh Plain (Some (current w @ [Ch c])) ws s)"
  by pat_completeness auto

termination sh
  by (relation "measure (\<lambda>(_, _, _, s). length s)")
    (auto simp: le_imp_less_Suc length_dropWhile_le)

definition shell_words :: "string \<Rightarrow> shell_char list list option" where
  "shell_words s = sh Plain None [] s"

lemma current_simps [simp]: "current None = []" "current (Some x) = x"
  and finished_simps [simp]: "finished None = []" "finished (Some x) = [x]"
  by (simp_all add: current_def finished_def)





lemma sh_single_part:
  "list_all (\<lambda>c. c \<noteq> CHR 0x27) t \<Longrightarrow> sh SingleQ (Some x) ws (t @ rest) = sh SingleQ (Some (x @ map Ch t)) ws rest"
  by (induction t arbitrary: x) auto



section \<open>The lines\<close>


abbreviation word :: "string \<Rightarrow> shell_char list" where
  "word v \<equiv> map Ch v"


lemma sh_end: "sh Plain (Some x) ws ('' '' @ bs @ nl @ rest) = sh Plain None (ws @ [x]) rest"
  by simp










text \<open>
  A secret header whose name holds a substitution runs it, and the variable of a query secret stands
  in single quotes, where it is not expanded.
\<close>

lemma curl_header_name_substitutes:
  "shell_words (gen_curl \<lparr>cc_method = ''GET'', cc_url = ''https://x/'', cc_headers = [], cc_body = None,
     cc_contentType = None, cc_secretEnv = Some SECRET_ENV, cc_secretPlacement = Some PlaceHeader,
     cc_secretHeaderName = Some ''$(id)'', cc_secretQueryName = None\<rparr>) = None"
  by code_simp

lemma curl_query_secret_literal:
  "shell_words (gen_curl \<lparr>cc_method = ''GET'', cc_url = ''https://x/'', cc_headers = [], cc_body = None,
     cc_contentType = None, cc_secretEnv = Some SECRET_ENV, cc_secretPlacement = Some PlaceQuery,
     cc_secretHeaderName = None, cc_secretQueryName = Some ''key''\<rparr>) =
   Some [word ''curl'', word ''--request'', word ''GET'', word ''--url'', word ''https://x/?key=$API_KEY'',
     word ''--max-time'', word ''30'', word ''--fail-with-body'']"
  by code_simp

end
