(* ===== verification/CodeGenerators.thy ===== *)
theory CodeGenerators
  imports Codegen
begin

text \<open>
  The generators of \<open>apps/api/src/modules/playground/codegen.ts\<close> for the programming languages, and
  the factory that picks one. JSON is a parameter: \<open>pretty\<close> parses a text and prints it indented,
  or is None where parsing throws.
\<close>

definition nonempty_lines :: "string list \<Rightarrow> string list" where
  "nonempty_lines ls = filter (\<lambda>l. l \<noteq> []) ls"

definition line_if :: "bool \<Rightarrow> string \<Rightarrow> string" where
  "line_if b l = (if b then l else [])"

definition replace_nl :: "string \<Rightarrow> string \<Rightarrow> string" where
  "replace_nl t v = concat (map (\<lambda>c. if c = CHR 0x0A then t else [c]) v)"

definition is_authorization :: "string \<Rightarrow> bool" where
  "is_authorization name \<longleftrightarrow> toLowerCase name = ''authorization''"

definition json_type :: "code_context \<Rightarrow> bool" where
  "json_type c = (case cc_contentType c of Some ct \<Rightarrow> contains_text ''json'' ct | None \<Rightarrow> False)"

section \<open>JavaScript\<close>

definition renderJsHeaders :: "code_context \<Rightarrow> string" where
  "renderJsHeaders c =
     (let entries =
        map (\<lambda>(name, v). ''    '' @ sq @ name @ sq @ '': '' @ sq @ quote_esc v @ sq) (cc_headers c) @
        lines_if (header_secret c) (\<lambda>name.
          [''    '' @ sq @ name @ sq @ '': '' @ (if is_authorization name then bt @ ''Bearer ${apiKey}'' @ bt else ''apiKey'')]) @
        (if cc_secretPlacement c = Some PlaceBasic
         then [''    '' @ sq @ ''Authorization'' @ sq @ '': '' @ bt @ ''Basic ${Buffer.from('' @ bt @ ''${process.env.API_USER}:${process.env.API_PASSWORD}'' @ bt @ '').toString('' @ sq @ ''base64'' @ sq @ '')}'' @ bt] else [])
      in if entries = [] then [] else ''{'' @ nl @ join ('','' @ nl) entries @ nl @ ''  }'')"

definition js_text :: "string \<Rightarrow> string" where
  "js_text body = bt @ concat (map (\<lambda>c. if c = CHR 0x60 then bs @ bt else [c]) body) @ bt"

definition renderJsBody :: "(string \<Rightarrow> string option) \<Rightarrow> code_context \<Rightarrow> string" where
  "renderJsBody pretty c =
     (case truthy (cc_body c) of
        None \<Rightarrow> []
      | Some body \<Rightarrow>
          if json_type c
          then (case pretty body of Some t \<Rightarrow> replace_nl (nl @ ''  '') t | None \<Rightarrow> js_text body)
          else js_text body)"

definition fetch_url :: "code_context \<Rightarrow> string" where
  "fetch_url c =
     (case query_secret c of
        Some name \<Rightarrow> cc_url c @ query_separator (cc_url c) @ name @ ''=${apiKey}''
      | None \<Rightarrow> cc_url c)"

definition renderFetch :: "(string \<Rightarrow> string option) \<Rightarrow> bool \<Rightarrow> code_context \<Rightarrow> string" where
  "renderFetch pretty typescript c =
     (let headers = renderJsHeaders c;
          bodyLine = (if truthy (cc_body c) = None then []
                      else if json_type c then ''  body: JSON.stringify('' @ renderJsBody pretty c @ ''),''
                      else ''  body: '' @ renderJsBody pretty c @ '','')
      in join nl (nonempty_lines
     [''const apiKey = process.env.'' @ SECRET_ENV @ (if typescript then '' ?? '' @ dq @ dq else []) @ '';'',
      [],
      ''const response = await fetch('' @ bt @ fetch_url c @ bt @ '', {'',
      ''  method: '' @ sq @ cc_method c @ sq @ '','',
      line_if (headers \<noteq> []) (''  headers: '' @ headers @ '',''),
      bodyLine,
      ''  signal: AbortSignal.timeout(30_000),'',
      ''});'',
      [],
      ''if (!response.ok) {'',
      ''  throw new Error('' @ bt @ ''Request failed: ${response.status} ${response.statusText}'' @ bt @ '');'',
      ''}'',
      [],
      (if typescript then ''const data: unknown = await response.json();'' else ''const data = await response.json();''),
      ''console.log(data);'']))"

definition gen_axios :: "(string \<Rightarrow> string option) \<Rightarrow> code_context \<Rightarrow> string" where
  "gen_axios pretty c =
     (let headers = renderJsHeaders c in
      join nl (nonempty_lines
     [''import axios from '' @ sq @ ''axios'' @ sq @ '';'',
      [],
      ''const '' @ toLowerCase SECRET_ENV @ '' = process.env.'' @ SECRET_ENV @ '';'',
      [],
      ''const response = await axios({'',
      ''  method: '' @ sq @ toLowerCase (cc_method c) @ sq @ '','',
      ''  url: '' @ sq @ cc_url c @ sq @ '','',
      line_if (headers \<noteq> []) (''  headers: '' @ headers @ '',''),
      (case query_secret c of Some name \<Rightarrow> ''  params: { '' @ sq @ name @ sq @ '': '' @ toLowerCase SECRET_ENV @ '' },'' | None \<Rightarrow> []),
      line_if (truthy (cc_body c) \<noteq> None) (''  data: '' @ renderJsBody pretty c @ '',''),
      ''  timeout: 30000,'',
      ''});'',
      [],
      ''console.log(response.status, response.data);'']))"

section \<open>Python\<close>

definition renderPython :: "code_context \<Rightarrow> string \<Rightarrow> string" where
  "renderPython c library =
     (let headerEntries =
        map (\<lambda>(name, v). ''    '' @ dq @ esc name @ dq @ '': '' @ dq @ esc v @ dq @ '','') (cc_headers c) @
        lines_if (header_secret c) (\<lambda>name.
          [''    '' @ dq @ name @ dq @ '': '' @ (if is_authorization name then ''f'' @ dq @ ''Bearer {api_key}'' @ dq else ''api_key'') @ '','']);
          args = nonempty_lines
     [dq @ cc_method c @ dq,
      ''url'',
      line_if (headerEntries \<noteq> []) ''headers=headers'',
      line_if (cc_secretPlacement c = Some PlaceQuery) ''params=params'',
      line_if (truthy (cc_body c) \<noteq> None) ''data=payload'',
      ''timeout=30'']
      in join nl
     ([''import os'',
      ''import '' @ library,
      [],
      ''api_key = os.environ.get('' @ dq @ SECRET_ENV @ dq @ '', '' @ dq @ dq @ '')'',
      [],
      ''url = '' @ dq @ esc (cc_url c) @ dq] @
      (if headerEntries = [] then [] else [''headers = {''] @ headerEntries @ [''}'']) @
      lines_if (query_secret c) (\<lambda>name. [''params = {'', ''    '' @ dq @ name @ dq @ '': api_key,'', ''}'']) @
      lines_if (truthy (cc_body c)) (\<lambda>body. [''payload = '' @ dq @ dq @ dq @ body @ dq @ dq @ dq]) @
      [[], ''response = '' @ library @ ''.request('' @ join '', '' args @ '')'', [],
       ''print(response.status_code)'', ''print(response.text)'']))"

section \<open>Go\<close>

definition gen_go :: "code_context \<Rightarrow> string" where
  "gen_go c =
     (let has_body = truthy (cc_body c) \<noteq> None;
          the_body = (case truthy (cc_body c) of Some b \<Rightarrow> b | None \<Rightarrow> []) in
      join nl (nonempty_lines
     ([''package main'',
      [],
      ''import ('',
      tab @ dq @ ''fmt'' @ dq,
      tab @ dq @ ''io'' @ dq,
      tab @ dq @ ''net/http'' @ dq,
      tab @ dq @ ''os'' @ dq,
      line_if has_body (tab @ dq @ ''strings'' @ dq),
      tab @ dq @ ''time'' @ dq,
      '')'',
      [],
      ''func main() {'',
      tab @ ''client := &http.Client{Timeout: 30 * time.Second}'',
      [],
      line_if has_body (tab @ ''body := strings.NewReader('' @ bt @ the_body @ bt @ '')''),
      tab @ ''req, err := http.NewRequest('' @ dq @ cc_method c @ dq @ '', '' @ dq @ esc (cc_url c) @ dq @ '', '' @ (if has_body then ''body'' else ''nil'') @ '')'',
      tab @ ''if err != nil {'',
      tab @ tab @ ''panic(err)'',
      tab @ ''}'',
      []] @
      map (\<lambda>(name, v). tab @ ''req.Header.Set('' @ dq @ esc name @ dq @ '', '' @ dq @ esc v @ dq @ '')'') (cc_headers c) @
      lines_if (header_secret c) (\<lambda>name.
        [tab @ ''req.Header.Set('' @ dq @ name @ dq @ '', '' @ (if is_authorization name then dq @ ''Bearer '' @ dq @ '' + '' else []) @ ''os.Getenv('' @ dq @ SECRET_ENV @ dq @ ''))'']) @
      lines_if (query_secret c) (\<lambda>name.
        [[],
      tab @ ''q := req.URL.Query()'',
      tab @ ''q.Set('' @ dq @ name @ dq @ '', os.Getenv('' @ dq @ SECRET_ENV @ dq @ ''))'',
      tab @ ''req.URL.RawQuery = q.Encode()'']) @
      [[],
      tab @ ''resp, err := client.Do(req)'',
      tab @ ''if err != nil {'',
      tab @ tab @ ''panic(err)'',
      tab @ ''}'',
      tab @ ''defer resp.Body.Close()'',
      [],
      tab @ ''data, _ := io.ReadAll(resp.Body)'',
      tab @ ''fmt.Println(resp.StatusCode, string(data))'',
      ''}''])))"

section \<open>Java and Csharp\<close>

definition gen_java :: "code_context \<Rightarrow> string" where
  "gen_java c =
     (let bodyPublisher =
        (case truthy (cc_body c) of
           Some body \<Rightarrow> ''HttpRequest.BodyPublishers.ofString('' @ dq @ dq @ dq @ nl @ body @ nl @ dq @ dq @ dq @ '')''
         | None \<Rightarrow> ''HttpRequest.BodyPublishers.noBody()'') in
      join nl
     ([''import java.net.URI;'',
      ''import java.net.http.HttpClient;'',
      ''import java.net.http.HttpRequest;'',
      ''import java.net.http.HttpResponse;'',
      ''import java.time.Duration;'',
      [],
      ''public class ApiHubExample {'',
      ''    public static void main(String[] args) throws Exception {'',
      ''        String apiKey = System.getenv('' @ dq @ SECRET_ENV @ dq @ '');'',
      [],
      ''        HttpClient client = HttpClient.newBuilder()'',
      ''                .connectTimeout(Duration.ofSeconds(10))'',
      ''                .build();'',
      [],
      ''        HttpRequest request = HttpRequest.newBuilder()'',
      ''                .uri(URI.create('' @ dq @ esc (cc_url c) @ dq @ ''))'',
      ''                .timeout(Duration.ofSeconds(30))''] @
      map (\<lambda>(name, v). ''                .header('' @ dq @ esc name @ dq @ '', '' @ dq @ esc v @ dq @ '')'') (cc_headers c) @
      lines_if (header_secret c) (\<lambda>name.
        [''                .header('' @ dq @ name @ dq @ '', '' @ (if is_authorization name then dq @ ''Bearer '' @ dq @ '' + '' else []) @ ''apiKey)'']) @
      [''                .method('' @ dq @ cc_method c @ dq @ '', '' @ bodyPublisher @ '')'',
      ''                .build();'',
      [],
      ''        HttpResponse<String> response = client.send(request, HttpResponse.BodyHandlers.ofString());'',
      ''        System.out.println(response.statusCode());'',
      ''        System.out.println(response.body());'',
      ''    }'',
      ''}'']))"

definition gen_csharp :: "code_context \<Rightarrow> string" where
  "gen_csharp c = join nl
     ([''using System;'',
      ''using System.Net.Http;'',
      ''using System.Threading.Tasks;'',
      [],
      ''class Program'',
      ''{'',
      ''    static async Task Main()'',
      ''    {'',
      ''        var apiKey = Environment.GetEnvironmentVariable('' @ dq @ SECRET_ENV @ dq @ '');'',
      [],
      ''        using var client = new HttpClient { Timeout = TimeSpan.FromSeconds(30) };'',
      ''        using var request = new HttpRequestMessage(new HttpMethod('' @ dq @ cc_method c @ dq @ ''), '' @ dq @ esc (cc_url c) @ dq @ '');'',
      []] @
      map (\<lambda>(name, v). ''        request.Headers.TryAddWithoutValidation('' @ dq @ esc name @ dq @ '', '' @ dq @ esc v @ dq @ '');'') (cc_headers c) @
      lines_if (header_secret c) (\<lambda>name.
        [''        request.Headers.TryAddWithoutValidation('' @ dq @ name @ dq @ '', '' @ (if is_authorization name then ''$'' @ dq @ ''Bearer {apiKey}'' @ dq else ''apiKey'') @ '');'']) @
      lines_if (truthy (cc_body c)) (\<lambda>body.
        [''        request.Content = new StringContent(@'' @ dq @ concat (map (\<lambda>x. if x = CHR 0x22 then dq @ dq else [x]) body) @ dq @ '');'']) @
      [[],
      ''        var response = await client.SendAsync(request);'',
      ''        var body = await response.Content.ReadAsStringAsync();'',
      ''        Console.WriteLine((int)response.StatusCode);'',
      ''        Console.WriteLine(body);'',
      ''    }'',
      ''}''])"

section \<open>PHP and Ruby\<close>

definition gen_php :: "code_context \<Rightarrow> string" where
  "gen_php c =
     (let headerLines =
        map (\<lambda>(name, v). ''    '' @ sq @ name @ '': '' @ v @ sq @ '','') (cc_headers c) @
        lines_if (header_secret c) (\<lambda>name.
          [''    '' @ sq @ name @ '': '' @ bearer_prefix name @ sq @ '' . $apiKey,'']) in
      join nl
     ([''<?php'',
      [],
      ''$apiKey = getenv('' @ sq @ SECRET_ENV @ sq @ '');'',
      [],
      ''$ch = curl_init();'',
      ''curl_setopt($ch, CURLOPT_URL, '' @ sq @ quote_esc (cc_url c) @ sq @ '');'',
      ''curl_setopt($ch, CURLOPT_CUSTOMREQUEST, '' @ sq @ cc_method c @ sq @ '');'',
      ''curl_setopt($ch, CURLOPT_RETURNTRANSFER, true);'',
      ''curl_setopt($ch, CURLOPT_TIMEOUT, 30);'',
      []] @
      (if headerLines = [] then []
       else [''curl_setopt($ch, CURLOPT_HTTPHEADER, [''] @ headerLines @ ['']);'', []]) @
      lines_if (truthy (cc_body c)) (\<lambda>body. [''curl_setopt($ch, CURLOPT_POSTFIELDS, '' @ sq @ quote_esc body @ sq @ '');'', []]) @
      [''$response = curl_exec($ch);'',
      ''$status = curl_getinfo($ch, CURLINFO_HTTP_CODE);'',
      ''curl_close($ch);'',
      [],
      ''echo $status . PHP_EOL;'',
      ''echo $response . PHP_EOL;'']))"

definition gen_ruby :: "code_context \<Rightarrow> string" where
  "gen_ruby c = join nl
     ([''require '' @ sq @ ''net/http'' @ sq,
      ''require '' @ sq @ ''uri'' @ sq,
      [],
      ''api_key = ENV['' @ sq @ SECRET_ENV @ sq @ '']'',
      ''uri = URI('' @ sq @ quote_esc (cc_url c) @ sq @ '')'',
      [],
      ''request = Net::HTTP::'' @ take 1 (cc_method c) @ toLowerCase (drop 1 (cc_method c)) @ ''.new(uri)''] @
      map (\<lambda>(name, v). ''request['' @ sq @ name @ sq @ ''] = '' @ sq @ quote_esc v @ sq) (cc_headers c) @
      lines_if (header_secret c) (\<lambda>name.
        [''request['' @ sq @ name @ sq @ ''] = '' @ (if is_authorization name then dq @ ''Bearer #{api_key}'' @ dq else ''api_key'')]) @
      lines_if (truthy (cc_body c)) (\<lambda>body.
        [''request.body = <<~BODY'' @ nl @ ''  '' @ replace_nl (nl @ ''  '') body @ nl @ ''BODY'']) @
      [[],
      ''response = Net::HTTP.start(uri.hostname, uri.port, use_ssl: uri.scheme == '' @ sq @ ''https'' @ sq @ '', read_timeout: 30) do |http|'',
      ''  http.request(request)'',
      ''end'',
      [],
      ''puts response.code'',
      ''puts response.body''])"

section \<open>Rust\<close>

definition gen_rust :: "code_context \<Rightarrow> string" where
  "gen_rust c = join nl
     ([''// Cargo.toml: reqwest = { version = '' @ dq @ ''0.12'' @ dq @ '', features = ['' @ dq @ ''json'' @ dq @ ''] }'',
      ''//             tokio   = { version = '' @ dq @ ''1'' @ dq @ '', features = ['' @ dq @ ''full'' @ dq @ ''] }'',
      [],
      ''use std::env;'',
      ''use std::time::Duration;'',
      [],
      ''#[tokio::main]'',
      ''async fn main() -> Result<(), Box<dyn std::error::Error>> {'',
      ''    let api_key = env::var('' @ dq @ SECRET_ENV @ dq @ '').unwrap_or_default();'',
      [],
      ''    let client = reqwest::Client::builder()'',
      ''        .timeout(Duration::from_secs(30))'',
      ''        .build()?;'',
      [],
      ''    let response = client'',
      ''        .request(reqwest::Method::'' @ cc_method c @ '', '' @ dq @ esc (cc_url c) @ dq @ '')''] @
      map (\<lambda>(name, v). ''        .header('' @ dq @ esc name @ dq @ '', '' @ dq @ esc v @ dq @ '')'') (cc_headers c) @
      lines_if (header_secret c) (\<lambda>name.
        [''        .header('' @ dq @ name @ dq @ '', '' @ (if is_authorization name then ''format!('' @ dq @ ''Bearer {}'' @ dq @ '', api_key)'' else ''api_key'') @ '')'']) @
      lines_if (truthy (cc_body c)) (\<lambda>body. [''        .body(r#'' @ dq @ body @ dq @ ''#)'']) @
      [''        .send()'',
      ''        .await?;'',
      [],
      ''    println!('' @ dq @ ''{}'' @ dq @ '', response.status());'',
      ''    println!('' @ dq @ ''{}'' @ dq @ '', response.text().await?);'',
      ''    Ok(())'',
      ''}''])"

section \<open>The factory\<close>

datatype code_language =
  Curl | JavascriptFetch | JavascriptAxios | TypescriptFetch | PythonRequests | PythonHttpx
  | Go | Java | Csharp | Php | Ruby | Rust

definition CODE_LANGUAGES :: "code_language list" where
  "CODE_LANGUAGES =
     [Curl, JavascriptFetch, TypescriptFetch, JavascriptAxios, PythonRequests, PythonHttpx,
      Go, Java, Csharp, Php, Ruby, Rust]"

fun CODE_LANGUAGE_SYNTAX :: "code_language \<Rightarrow> string" where
  "CODE_LANGUAGE_SYNTAX Curl = ''bash''"
| "CODE_LANGUAGE_SYNTAX JavascriptFetch = ''javascript''"
| "CODE_LANGUAGE_SYNTAX JavascriptAxios = ''javascript''"
| "CODE_LANGUAGE_SYNTAX TypescriptFetch = ''typescript''"
| "CODE_LANGUAGE_SYNTAX PythonRequests = ''python''"
| "CODE_LANGUAGE_SYNTAX PythonHttpx = ''python''"
| "CODE_LANGUAGE_SYNTAX Go = ''go''"
| "CODE_LANGUAGE_SYNTAX Java = ''java''"
| "CODE_LANGUAGE_SYNTAX Csharp = ''csharp''"
| "CODE_LANGUAGE_SYNTAX Php = ''php''"
| "CODE_LANGUAGE_SYNTAX Ruby = ''ruby''"
| "CODE_LANGUAGE_SYNTAX Rust = ''rust''"

fun generator :: "(string \<Rightarrow> string option) \<Rightarrow> code_language \<Rightarrow> code_context \<Rightarrow> string" where
  "generator pretty Curl c = gen_curl c"
| "generator pretty JavascriptFetch c = renderFetch pretty False c"
| "generator pretty TypescriptFetch c = renderFetch pretty True c"
| "generator pretty JavascriptAxios c = gen_axios pretty c"
| "generator pretty PythonRequests c = renderPython c ''requests''"
| "generator pretty PythonHttpx c = renderPython c ''httpx''"
| "generator pretty Go c = gen_go c"
| "generator pretty Java c = gen_java c"
| "generator pretty Csharp c = gen_csharp c"
| "generator pretty Php c = gen_php c"
| "generator pretty Ruby c = gen_ruby c"
| "generator pretty Rust c = gen_rust c"

record code_result =
  res_language :: code_language
  res_syntax :: string
  res_code :: string

definition generateCode ::
  "(string \<Rightarrow> web_url option) \<Rightarrow> (web_url \<Rightarrow> string) \<Rightarrow> (string \<Rightarrow> string option) \<Rightarrow>
   code_language \<Rightarrow> playground_request \<Rightarrow> code_result option"
where
  "generateCode parse serialize pretty language req =
     (case buildContext parse serialize req of
        None \<Rightarrow> None
      | Some c \<Rightarrow> Some \<lparr>res_language = language, res_syntax = CODE_LANGUAGE_SYNTAX language,
                      res_code = generator pretty language c\<rparr>)"

text \<open>Every language at once; an URL that does not parse throws.\<close>

definition generateAll ::
  "(string \<Rightarrow> web_url option) \<Rightarrow> (web_url \<Rightarrow> string) \<Rightarrow> (string \<Rightarrow> string option) \<Rightarrow>
   playground_request \<Rightarrow> code_result list option"
where
  "generateAll parse serialize pretty req =
     those (map (\<lambda>language. generateCode parse serialize pretty language req) CODE_LANGUAGES)"

section \<open>Secrets\<close>

text \<open>The credentials of a request, blanked; what stays is where they go.\<close>

fun mask_auth :: "playground_auth \<Rightarrow> playground_auth" where
  "mask_auth NoAuth = NoAuth"
| "mask_auth (ApiKeyAuth key place name) = ApiKeyAuth [] place name"
| "mask_auth (BearerAuth tok) = BearerAuth []"
| "mask_auth (BasicAuth user password) = BasicAuth [] []"

lemma place_secret_mask: "place_secret (mask_auth a) c = place_secret a c"
  by (cases a) (auto simp: place_secret_def split: auth_place.splits)

lemma buildContext_mask:
  "buildContext parse serialize (req\<lparr>pr_auth := mask_auth (pr_auth req)\<rparr>) = buildContext parse serialize req"
  by (simp add: buildContext_def place_secret_mask context_headers_def split: option.split)

text \<open>C35: No generator inlines a credential: the code for a request, in every language, is the code
  for the same request with its key, token, user and password blanked.\<close>

theorem no_secret_inlined:
  "generateAll parse serialize pretty (req\<lparr>pr_auth := mask_auth (pr_auth req)\<rparr>) =
     generateAll parse serialize pretty req \<and>
   generateCode parse serialize pretty language (req\<lparr>pr_auth := mask_auth (pr_auth req)\<rparr>) =
     generateCode parse serialize pretty language req"
  by (simp add: generateAll_def generateCode_def buildContext_mask)

section \<open>String literals\<close>

text \<open>
  A literal up to its closing quote, in a language where a backslash takes the next character: the
  value and the rest of the program text.
\<close>

fun read_literal :: "char \<Rightarrow> string \<Rightarrow> (string \<times> string) option" where
  "read_literal d [] = None"
| "read_literal d (c # s) =
     (if c = d then Some ([], s)
      else if c = CHR 0x5C then
        (case s of [] \<Rightarrow> None
         | e # s' \<Rightarrow> (case read_literal d s' of Some (v, rest) \<Rightarrow> Some (e # v, rest) | None \<Rightarrow> None))
      else (case read_literal d s of Some (v, rest) \<Rightarrow> Some (c # v, rest) | None \<Rightarrow> None))"

text \<open>A value escaped for a double-quoted literal is read back exactly, with the literal ending
  where the generator closes it, whatever the value holds.\<close>

theorem esc_roundtrip: "read_literal (CHR 0x22) (esc v @ dq @ rest) = Some (v, rest)"
proof (induction v)
  case (Cons c v)
  then show ?case by (cases "c = CHR 0x22"; cases "c = CHR 0x5C") (simp_all add: esc_def)
qed (simp add: esc_def)

text \<open>
  The escape for single-quoted literals leaves backslashes alone: a value that ends in one swallows
  the closing quote, and one with a backslash before a quote closes the literal early.
\<close>

lemma quote_esc_open: "read_literal (CHR 0x27) (quote_esc bs @ sq @ '', done'') = None"
  by code_simp

lemma quote_esc_breaks_out:
  "read_literal (CHR 0x27) (quote_esc (bs @ sq @ '' + danger() + '') @ sq) = Some (bs, '' + danger() + '' @ sq)"
  by code_simp

text \<open>The generators for Java, C sharp, PHP, Ruby and Rust ignore a secret in the query.\<close>

lemma query_secret_dropped:
  "g \<in> {gen_java, gen_csharp, gen_php, gen_ruby, gen_rust} \<Longrightarrow>
   g (c\<lparr>cc_secretPlacement := Some PlaceQuery, cc_secretQueryName := name\<rparr>) = g (c\<lparr>cc_secretPlacement := None\<rparr>)"
  by (auto simp: gen_java_def gen_csharp_def gen_php_def gen_ruby_def gen_rust_def header_secret_def)

end
