(* ===== verification/Normalizer.thy ===== *)
theory Normalizer
  imports TextAnalysis UnionFind WebUrl
begin

text \<open>
  Normalisation of imported records (\<open>packages/jobs/src/ingestion/normalizer.ts\<close>): the tables for
  authentication and CORS, the canonical URL, the fingerprint, tags and popularity, duplicates, and
  the resolution of slug collisions. The URL functions and the hash are parameters.
\<close>

record source_record =
  rec_name :: string
  rec_description :: string
  rec_url :: string
  rec_category :: string
  rec_auth :: string
  rec_https :: bool
  rec_cors :: string

record normalized_api =
  na_fingerprint :: string
  na_slug :: string
  na_name :: string
  na_provider :: "string option"
  na_description :: string
  na_docsUrl :: string
  na_baseUrl :: "string option"
  na_authType :: string
  na_httpsSupported :: bool
  na_corsStatus :: string
  na_isFree :: bool
  na_hasFreeTier :: bool
  na_categorySlug :: string
  na_categoryName :: string
  na_tags :: "string list"
  na_popularityScore :: nat

section \<open>Tables\<close>

definition normalizeAuthType :: "string \<Rightarrow> string" where
  "normalizeAuthType raw =
     (let v = filter (\<lambda>c. c \<noteq> CHR 0x60 \<and> c \<noteq> CHR ''*'') (toLowerCase (trim raw)) in
      if v = [] \<or> v = ''no'' \<or> v = ''none'' then ''none''
      else if contains_text ''oauth 1'' v \<or> v = ''oauth1'' then ''oauth''
      else if contains_text ''oauth'' v then ''oauth2''
      else if contains_text ''jwt'' v then ''jwt''
      else if contains_text ''bearer'' v then ''bearer''
      else if contains_text ''basic'' v then ''basic''
      else if contains_text ''apikey'' v \<or> contains_text ''api key'' v \<or> contains_text ''key'' v then ''apiKey''
      else if contains_text ''user-agent'' v \<or> contains_text ''token'' v then ''custom''
      else ''unknown'')"

definition normalizeCors :: "string \<Rightarrow> string" where
  "normalizeCors raw =
     (let v = toLowerCase (trim raw) in
      if v = ''yes'' then ''yes'' else if v = ''no'' then ''no'' else ''unknown'')"

section \<open>URLs\<close>

text \<open>The setters of the platform that parse what they are given are parameters.\<close>

record url_platform =
  up_parse :: "string \<Rightarrow> web_url option"
  up_serialize :: "web_url \<Rightarrow> string"
  up_setHostname :: "string \<Rightarrow> web_url \<Rightarrow> web_url"
  up_setPathname :: "string \<Rightarrow> web_url \<Rightarrow> web_url"

definition strip_www :: "string \<Rightarrow> string" where
  "strip_www h = (if starts_with h ''www.'' then drop 4 h else h)"

definition strip_final :: "char \<Rightarrow> string \<Rightarrow> string" where
  "strip_final c h = (if h \<noteq> [] \<and> List.last h = c then butlast h else h)"

definition tracking_param :: "string \<Rightarrow> bool" where
  "tracking_param key \<longleftrightarrow>
     (let k = toLowerCase key in
      starts_with k ''utm_'' \<or> k \<in> {''ref'', ''source'', ''fbclid'', ''gclid''})"

definition drop_default_port :: "web_url \<Rightarrow> web_url" where
  "drop_default_port u =
     (if wu_protocol u = ''https:'' \<and> wu_port u = ''443'' \<or> wu_protocol u = ''http:'' \<and> wu_port u = ''80''
      then u\<lparr>wu_port := []\<rparr> else u)"

definition strip_path :: "url_platform \<Rightarrow> web_url \<Rightarrow> web_url" where
  "strip_path P u =
     (if 1 < length (wu_pathname u)
      then up_setPathname P (rev (dropWhile (\<lambda>c. c = CHR ''/'') (rev (wu_pathname u)))) u else u)"

definition strip_tracking :: "web_url \<Rightarrow> web_url" where
  "strip_tracking u = fold (\<lambda>k u. if tracking_param k then param_delete k u else u) (param_keys u) u"

definition canonicalizeUrl :: "url_platform \<Rightarrow> string \<Rightarrow> string option" where
  "canonicalizeUrl P raw =
     (case up_parse P (trim raw) of
        None \<Rightarrow> None
      | Some u0 \<Rightarrow>
          if wu_protocol u0 \<noteq> ''http:'' \<and> wu_protocol u0 \<noteq> ''https:'' then None
          else
            let u1 = up_setHostname P (strip_final (CHR ''.'') (strip_www (toLowerCase (wu_hostname u0)))) u0;
                u2 = (drop_default_port u1)\<lparr>wu_hash := []\<rparr>
            in Some (up_serialize P (strip_tracking (strip_path P u2))))"

definition hostOf :: "url_platform \<Rightarrow> string \<Rightarrow> string option" where
  "hostOf P u = map_option (\<lambda>w. strip_www (toLowerCase (wu_hostname w))) (up_parse P u)"

section \<open>The record\<close>

definition fingerprintOf :: "(string \<Rightarrow> string) \<Rightarrow> string \<Rightarrow> string \<Rightarrow> string \<Rightarrow> string" where
  "fingerprintOf sha256_hex sourceName canonicalUrl name =
     take 40 (sha256_hex (sourceName @ ''|'' @ canonicalUrl @ ''|'' @ slugify name))"

definition WELL_KNOWN :: "string list" where
  "WELL_KNOWN = [''google.'', ''github.'', ''microsoft.'', ''amazon.'', ''openstreetmap.'', ''wikipedia.'', ''nasa.'']"

definition initialPopularity :: "url_platform \<Rightarrow> source_record \<Rightarrow> string \<Rightarrow> nat" where
  "initialPopularity P r authType =
     (let host = (case hostOf P (rec_url r) of Some h \<Rightarrow> h | None \<Rightarrow> []);
          score = 40 + (if authType = ''none'' then 20 else if authType = ''apiKey'' then 8 else 0) +
            (if rec_https r then 12 else 0) + (if normalizeCors (rec_cors r) = ''yes'' then 10 else 0) +
            (if 40 < length (rec_description r) then 6 else 0) +
            (if list_ex (\<lambda>w. contains_text w host) WELL_KNOWN then 10 else 0)
      in min 100 score)"

definition KEYWORDS :: "string list" where
  "KEYWORDS = [''free'', ''open-source'', ''realtime'', ''json'', ''rest'', ''graphql'', ''webhook'',
     ''machine-learning'', ''ai'', ''geo'', ''crypto'', ''sandbox'']"

text \<open>The first dash becomes a blank, as \<open>replace\<close> with a string does.\<close>

fun undash :: "string \<Rightarrow> string" where
  "undash [] = []"
| "undash (c # s) = (if c = CHR ''-'' then CHR '' '' # s else c # undash s)"

definition deriveTags :: "source_record \<Rightarrow> string \<Rightarrow> string list" where
  "deriveTags r authType =
     (let words = toLowerCase (rec_name r @ '' '' @ rec_description r);
          tags = [slugify (rec_category r)];
          tags = (if authType = ''none'' then js_set_add ''no-key'' tags else tags);
          tags = (if rec_https r then js_set_add ''https'' tags else tags);
          tags = (if normalizeCors (rec_cors r) = ''yes'' then js_set_add ''cors'' tags else tags);
          tags = fold (\<lambda>k ts. if contains_text (undash k) words \<or> contains_text k words then js_set_add k ts else ts)
            KEYWORDS tags
      in take 8 tags)"

text \<open>Runs of white space become one blank.\<close>

fun collapse_spaces :: "string \<Rightarrow> string" where
  "collapse_spaces [] = []"
| "collapse_spaces (c # s) =
     (if is_space c
      then (case s of d # _ \<Rightarrow> if is_space d then collapse_spaces s else CHR '' '' # collapse_spaces s
            | [] \<Rightarrow> [CHR '' ''])
      else c # collapse_spaces s)"

definition normalize_record ::
  "url_platform \<Rightarrow> (string \<Rightarrow> string) \<Rightarrow> source_record \<Rightarrow> string \<Rightarrow> normalized_api option"
where
  "normalize_record P sha256_hex r sourceName =
     (case canonicalizeUrl P (rec_url r) of
        None \<Rightarrow> None
      | Some [] \<Rightarrow> None
      | Some canonicalUrl \<Rightarrow>
          (let name = collapse_spaces (trim (rec_name r)) in
           if name = [] then None
           else
             let authType = normalizeAuthType (rec_auth r) in
             Some \<lparr>na_fingerprint = fingerprintOf sha256_hex sourceName canonicalUrl name,
               na_slug = slugify name, na_name = name, na_provider = hostOf P canonicalUrl,
               na_description = take 500 (trim (rec_description r)), na_docsUrl = canonicalUrl,
               na_baseUrl = None, na_authType = authType, na_httpsSupported = rec_https r,
               na_corsStatus = normalizeCors (rec_cors r), na_isFree = (authType = ''none''),
               na_hasFreeTier = True, na_categorySlug = slugify (rec_category r),
               na_categoryName = rec_category r, na_tags = deriveTags r authType,
               na_popularityScore = initialPopularity P r authType\<rparr>))"

section \<open>Duplicates\<close>

definition blocking_key :: "normalized_api \<Rightarrow> string" where
  "blocking_key a = (case na_provider a of Some p \<Rightarrow> p | None \<Rightarrow> take 1 (na_slug a))"

definition similar_apis :: "normalized_api \<Rightarrow> normalized_api \<Rightarrow> bool" where
  "similar_apis a b =
     (if na_docsUrl a = na_docsUrl b then True
      else na_provider a = na_provider b \<and> 85 / 100 < similarityRatio (na_slug a) (na_slug b))"

definition findDuplicateClusters :: "normalized_api list \<Rightarrow> string list list option" where
  "findDuplicateClusters apis = clusterDuplicates apis na_fingerprint blocking_key similar_apis"

section \<open>Slug collisions\<close>

definition is_taken :: "(string, nat) jsmap \<Rightarrow> (string, string) jsmap \<Rightarrow> string \<Rightarrow> string \<Rightarrow> bool" where
  "is_taken claims reserved slug fingerprint =
     (if jm_has claims slug then True
      else case jm_get reserved slug of None \<Rightarrow> False | Some owner \<Rightarrow> owner \<noteq> fingerprint)"

definition slug_numbers :: "nat list" where
  "slug_numbers = [2..<51]"

definition slug_candidates :: "normalized_api \<Rightarrow> string list" where
  "slug_candidates api =
     (case map_option (\<lambda>p. hd (split_char (CHR ''.'') p)) (na_provider api) of
        Some (c # label) \<Rightarrow>
          if slugify (c # label) \<noteq> na_slug api then [na_slug api @ ''-'' @ slugify (c # label)] else []
      | _ \<Rightarrow> []) @
     map (\<lambda>n. na_slug api @ ''-'' @ show_nat n) slug_numbers"

definition fallback_slug :: "normalized_api \<Rightarrow> string" where
  "fallback_slug api = na_slug api @ ''-'' @ take 6 (na_fingerprint api)"

definition choose_slug :: "(string, nat) jsmap \<Rightarrow> (string, string) jsmap \<Rightarrow> normalized_api \<Rightarrow> string" where
  "choose_slug claims reserved api =
     (if \<not> is_taken claims reserved (na_slug api) (na_fingerprint api) then na_slug api
      else case List.find (\<lambda>s. \<not> is_taken claims reserved s (na_fingerprint api)) (slug_candidates api) of
             Some s \<Rightarrow> s
           | None \<Rightarrow> fallback_slug api)"

fun resolve_from ::
  "(string, nat) jsmap \<Rightarrow> (string, string) jsmap \<Rightarrow> normalized_api list \<Rightarrow> normalized_api list"
where
  "resolve_from claims reserved [] = []"
| "resolve_from claims reserved (api # apis) =
     (let s = choose_slug claims reserved api in
      api\<lparr>na_slug := s\<rparr> # resolve_from (jm_set s 1 claims) reserved apis)"

definition resolveSlugCollisions ::
  "normalized_api list \<Rightarrow> (string, string) jsmap \<Rightarrow> normalized_api list"
where
  "resolveSlugCollisions apis reserved = resolve_from [] reserved apis"

section \<open>Bounds of the derived fields\<close>

lemma deriveTags_bounds: "distinct (deriveTags r authType) \<and> length (deriveTags r authType) \<le> 8"
proof -
  have fold: "distinct ts \<Longrightarrow> distinct (fold (\<lambda>k ts. if Q k then js_set_add k ts else ts) ks ts)" for Q ks and ts :: "string list"
    by (induction ks arbitrary: ts) auto
  show ?thesis unfolding deriveTags_def Let_def by (intro conjI distinct_take fold) simp_all
qed

lemma initialPopularity_bounds: "40 \<le> initialPopularity P r a \<and> initialPopularity P r a \<le> 98"
  by (simp add: initialPopularity_def Let_def)

text \<open>The tracking parameters go, every other parameter is kept, in its order.\<close>

lemma param_delete_others:
  "wu_protocol (param_delete k u) = wu_protocol u" "wu_hash (param_delete k u) = wu_hash u"
  "wu_params (param_delete k u) = filter (\<lambda>q. fst q \<noteq> k) (wu_params u)"
  by (simp_all add: param_delete_def usp_delete_def)

lemma strip_tracking_fold:
  "wu_protocol (fold (\<lambda>k u. if tracking_param k then param_delete k u else u) ks u) = wu_protocol u \<and>
   wu_hash (fold (\<lambda>k u. if tracking_param k then param_delete k u else u) ks u) = wu_hash u \<and>
   wu_params (fold (\<lambda>k u. if tracking_param k then param_delete k u else u) ks u) =
     filter (\<lambda>q. \<not> (tracking_param (fst q) \<and> fst q \<in> set ks)) (wu_params u)"
proof (induction ks arbitrary: u)
  case (Cons k ks)
  then show ?case by (auto simp: param_delete_others intro!: filter_cong)
qed simp

lemma strip_tracking_params:
  "wu_params (strip_tracking u) = filter (\<lambda>q. \<not> tracking_param (fst q)) (wu_params u)"
  "wu_hash (strip_tracking u) = wu_hash u" "wu_protocol (strip_tracking u) = wu_protocol u"
  using strip_tracking_fold [of "param_keys u" u]
  by (auto simp: strip_tracking_def param_keys_def intro!: filter_cong)

section \<open>Slugs are unique\<close>

lemma find_free:
  "choose_slug claims reserved api = s \<Longrightarrow> is_taken claims reserved s (na_fingerprint api) \<Longrightarrow>
   \<forall>c\<in>set (na_slug api # slug_candidates api). is_taken claims reserved c (na_fingerprint api)"
  by (auto simp: choose_slug_def find_None_iff find_Some_iff split: if_splits option.splits)

definition numbered :: "string \<Rightarrow> string list" where
  "numbered b = b # map (\<lambda>n. b @ ''-'' @ show_nat n) slug_numbers"

lemma slug_numbers_facts: "distinct slug_numbers" "length slug_numbers = 49"
  by (simp_all only: slug_numbers_def distinct_upt length_upt)

lemma numbered_facts: "distinct (numbered b)" "length (numbered b) = 50" "x \<in> set (numbered b) \<Longrightarrow> \<exists>t. x = b @ t"
  "set (numbered (na_slug api)) \<subseteq> set (na_slug api # slug_candidates api)"
proof -
  have "inj_on (\<lambda>n. b @ ''-'' @ show_nat n) A" for A by (rule inj_onI) (simp add: show_nat_inj)
  then show "distinct (numbered b)" by (auto simp: numbered_def distinct_map slug_numbers_facts)
qed (auto simp: numbered_def slug_candidates_def slug_numbers_facts)

definition related :: "string \<Rightarrow> string \<Rightarrow> bool" where
  "related b s \<longleftrightarrow> starts_with s b \<or> starts_with b s"

lemma related_extension: "starts_with (s @ t) b \<Longrightarrow> related b s"
  unfolding related_def starts_with_append by (auto simp: append_eq_append_conv2)

lemma crowd:
  assumes "distinct cs" "\<forall>c\<in>set cs. starts_with c b" "set cs \<subseteq> snd ` set ps \<union> set ks"
    and "\<forall>p\<in>set ps. \<exists>t. snd p = fst p @ t"
  shows "length cs \<le> length (filter (related b) (map fst ps)) + length (filter (related b) ks)"
proof -
  let ?A = "snd ` {p \<in> set ps. related b (fst p)}" and ?B = "{k \<in> set ks. related b k}"
  have "c \<in> ?A \<union> ?B" if "c \<in> set cs" for c
  proof -
    have c: "starts_with c b" "c \<in> snd ` set ps \<union> set ks" using assms(2,3) that by auto
    show ?thesis
    proof (cases "c \<in> set ks")
      case True
      then show ?thesis using c(1) by (simp add: related_def)
    next
      case False
      then obtain p where p: "p \<in> set ps" "c = snd p" using c(2) by auto
      then obtain t where t: "snd p = fst p @ t" using assms(4) by auto
      have "related b (fst p)" by (rule related_extension [of _ t]) (use c(1) p t in simp)
      then show ?thesis using p by auto
    qed
  qed
  then have "card (set cs) \<le> card (?A \<union> ?B)" by (intro card_mono) auto
  also have "\<dots> \<le> card ?A + card ?B" by (rule card_Un_le)
  also have "\<dots> \<le> card {p \<in> set ps. related b (fst p)} + card ?B" by (intro add_mono card_image_le) auto
  also have "\<dots> \<le> length (filter (\<lambda>p. related b (fst p)) ps) + length (filter (related b) ks)"
    by (intro add_mono) (metis card_length set_filter)+
  finally show ?thesis using distinct_card [OF assms(1)] by (simp add: filter_map comp_def)
qed

lemma choose_slug_free:
  assumes "fst ` set claims \<subseteq> snd ` set ps" "\<forall>p\<in>set ps. \<exists>t. snd p = fst p @ t"
    and "length (filter (related (na_slug api)) (map fst ps @ jm_keys reserved)) < 50"
  shows "\<not> is_taken claims reserved (choose_slug claims reserved api) (na_fingerprint api)"
proof
  let ?b = "na_slug api"
  assume "is_taken claims reserved (choose_slug claims reserved api) (na_fingerprint api)"
  then have taken: "\<forall>c\<in>set (numbered ?b). is_taken claims reserved c (na_fingerprint api)"
    using find_free [OF refl] numbered_facts(4) by blast
  have "set (numbered ?b) \<subseteq> snd ` set ps \<union> set (jm_keys reserved)"
  proof
    fix c assume "c \<in> set (numbered ?b)"
    then have "is_taken claims reserved c (na_fingerprint api)" using taken by blast
    then have "jm_has claims c \<or> jm_has reserved c" by (auto simp: is_taken_def split: if_splits option.splits)
    then show "c \<in> snd ` set ps \<union> set (jm_keys reserved)" using assms(1) by (auto simp: map_of_eq_None_iff)
  qed
  then have "length (numbered ?b) \<le> length (filter (related ?b) (map fst ps)) + length (filter (related ?b) (jm_keys reserved))"
    by (intro crowd numbered_facts(1)) (use assms(2) numbered_facts(3) in \<open>auto simp: starts_with_append\<close>)
  then show False using assms(3) numbered_facts(2) by simp
qed

lemma candidate_extends: "s \<in> set (slug_candidates api) \<Longrightarrow> \<exists>t. s = na_slug api @ t"
  by (auto simp: slug_candidates_def split: option.splits list.splits if_splits)

lemma choose_slug_extends: "\<exists>t. choose_slug claims reserved api = na_slug api @ t"
proof (cases "List.find (\<lambda>s. \<not> is_taken claims reserved s (na_fingerprint api)) (slug_candidates api)")
  case (Some s)
  then have "s \<in> set (slug_candidates api)" by (auto simp: find_Some_iff)
  from candidate_extends [OF this] Some show ?thesis by (auto simp: choose_slug_def)
qed (auto simp: choose_slug_def fallback_slug_def)

lemma resolve_from_unique:
  assumes "fst ` set claims = snd ` set ps" "\<forall>p\<in>set ps. \<exists>t. snd p = fst p @ t"
    and "\<forall>a\<in>set apis. length (filter (related (na_slug a)) (map fst ps @ map na_slug apis @ jm_keys reserved)) \<le> 50"
  shows "distinct (map na_slug (resolve_from claims reserved apis)) \<and>
    snd ` set ps \<inter> na_slug ` set (resolve_from claims reserved apis) = {} \<and>
    (\<forall>a\<in>set (resolve_from claims reserved apis). jm_get reserved (na_slug a) \<in> {None, Some (na_fingerprint a)})"
  using assms
proof (induction claims reserved apis arbitrary: ps rule: resolve_from.induct)
  case (2 claims reserved api apis)
  let ?s = "choose_slug claims reserved api"
  let ?claims = "jm_set ?s 1 claims" and ?ps = "(na_slug api, ?s) # ps"
  have "related (na_slug api) (na_slug api)" by (simp add: related_def starts_with_append)
  then have "length (filter (related (na_slug api)) (map fst ps @ jm_keys reserved)) < 50"
    using "2.prems"(3) by simp
  then have free: "\<not> is_taken claims reserved ?s (na_fingerprint api)"
    using "2.prems"(1,2) by (intro choose_slug_free) auto
  have new: "?s \<notin> snd ` set ps"
  proof -
    have "\<not> jm_has claims ?s" using free unfolding is_taken_def by presburger
    then show ?thesis using "2.prems"(1) by (simp add: map_of_eq_None_iff)
  qed
  have own: "jm_get reserved ?s \<in> {None, Some (na_fingerprint api)}"
    using free by (auto simp: is_taken_def split: if_splits option.splits)
  have claims: "fst ` set ?claims = snd ` set ?ps" using "2.prems"(1) by (simp add: dom_update)
  have ext: "\<forall>p\<in>set ?ps. \<exists>t. snd p = fst p @ t" using "2.prems"(2) choose_slug_extends by auto
  have count: "\<forall>a\<in>set apis. length (filter (related (na_slug a)) (map fst ?ps @ map na_slug apis @ jm_keys reserved)) \<le> 50"
  proof
    fix a assume "a \<in> set apis"
    then have "length (filter (related (na_slug a)) (map fst ps @ map na_slug (api # apis) @ jm_keys reserved)) \<le> 50"
      using "2.prems"(3) by simp
    then show "length (filter (related (na_slug a)) (map fst ?ps @ map na_slug apis @ jm_keys reserved)) \<le> 50"
      by (simp add: filter_map split: if_splits)
  qed
  note ih = "2.IH" [OF refl claims ext count]
  have out: "resolve_from claims reserved (api # apis) = api\<lparr>na_slug := ?s\<rparr> # resolve_from ?claims reserved apis"
    by (simp add: Let_def)
  show ?case unfolding out using ih new own by auto
qed simp

lemma resolve_from_same: "map (\<lambda>a. a\<lparr>na_slug := []\<rparr>) (resolve_from claims reserved apis) = map (\<lambda>a. a\<lparr>na_slug := []\<rparr>) apis"
  by (induction claims reserved apis rule: resolve_from.induct) (simp_all add: Let_def)

text \<open>C36: Slug collisions are resolved: when at most fifty slugs of the batch and the database compete
  for the names of one API (one slug begins the other), the slugs of the result are distinct, none
  belongs to another API of the database, and nothing but the slugs has changed.\<close>

theorem slugs_resolved:
  assumes "list_all (\<lambda>a. length (filter (related (na_slug a)) (map na_slug apis @ jm_keys reserved)) \<le> 50) apis"
  shows "distinct (map na_slug (resolveSlugCollisions apis reserved)) \<and>
    list_all (\<lambda>a. jm_get reserved (na_slug a) = None \<or> jm_get reserved (na_slug a) = Some (na_fingerprint a))
      (resolveSlugCollisions apis reserved) \<and>
    map (\<lambda>a. a\<lparr>na_slug := []\<rparr>) (resolveSlugCollisions apis reserved) = map (\<lambda>a. a\<lparr>na_slug := []\<rparr>) apis"
  using resolve_from_unique [of "[]" "[]" apis reserved] assms
  by (simp add: resolveSlugCollisions_def resolve_from_same list_all_iff)

definition api_of :: "string \<Rightarrow> string \<Rightarrow> string \<Rightarrow> normalized_api" where
  "api_of fingerprint slug provider =
     \<lparr>na_fingerprint = fingerprint, na_slug = slug, na_name = slug, na_provider = Some provider,
      na_description = [], na_docsUrl = [], na_baseUrl = None, na_authType = ''none'',
      na_httpsSupported = True, na_corsStatus = ''yes'', na_isFree = True, na_hasFreeTier = True,
      na_categorySlug = [], na_categoryName = [], na_tags = [], na_popularityScore = 40\<rparr>"

theorem slugs_resolved_witness:
  "distinct (map na_slug (resolveSlugCollisions
      [api_of ''f1'' ''w'' ''a.c'', api_of ''f2'' ''w'' ''a.c'', api_of ''f3'' ''w-2'' ''b.c''] [(''w'', ''f9''), (''w-a'', ''f2'')]))"
proof -
  let ?apis = "[api_of ''f1'' ''w'' ''a.c'', api_of ''f2'' ''w'' ''a.c'', api_of ''f3'' ''w-2'' ''b.c'']"
  let ?reserved = "[(''w'', ''f9''), (''w-a'', ''f2'')]"
  have "list_all (\<lambda>a. length (filter (related (na_slug a)) (map na_slug ?apis @ jm_keys ?reserved)) \<le> 50) ?apis"
    by code_simp
  from slugs_resolved [OF this] show ?thesis by (elim conjE)
qed

text \<open>The last resort is not checked: when every candidate is taken it is claimed, taken or not.\<close>

lemma fallback_not_checked:
  assumes "list_all (\<lambda>s. is_taken claims reserved s (na_fingerprint api)) (na_slug api # slug_candidates api)"
  shows "choose_slug claims reserved api = fallback_slug api"
proof -
  have "List.find (\<lambda>s. \<not> is_taken claims reserved s (na_fingerprint api)) (slug_candidates api) = None"
    using assms by (simp add: find_None_iff list_all_iff)
  then show ?thesis using assms by (simp add: choose_slug_def)
qed

text \<open>Keywords are looked for inside words: an e-mail service is tagged as artificial intelligence.\<close>

lemma email_tagged_ai:
  "''ai'' \<in> set (deriveTags \<lparr>rec_name = ''Email check'', rec_description = [], rec_url = [], rec_category = ''Email'',
     rec_auth = [], rec_https = False, rec_cors = []\<rparr> ''apiKey'')"
  by code_simp

end
