(* ===== verification/SearchRanking.thy ===== *)
theory SearchRanking
  imports Prelude
begin

text \<open>
  Search ranking (\<open>apps/api/src/modules/search/ranking.ts\<close>): the components of a score, the lexical,
  hybrid and browse strategies. Numbers are exact rationals, so that the code's guard against NaN
  and infinities is the clamp alone; the exponential is a parameter.
\<close>

record lexical_weights =
  lw_textRelevance :: rat
  lw_popularity :: rat
  lw_reliability :: rat
  lw_freshness :: rat
  lw_freeTier :: rat
  lw_documentation :: rat

definition LEXICAL_RANK_WEIGHTS :: lexical_weights where
  "LEXICAL_RANK_WEIGHTS =
     \<lparr>lw_textRelevance = 45 / 100, lw_popularity = 15 / 100, lw_reliability = 15 / 100,
      lw_freshness = 1 / 10, lw_freeTier = 1 / 10, lw_documentation = 5 / 100\<rparr>"

record hybrid_weights =
  hw_lexical :: rat
  hw_semantic :: rat
  hw_reliability :: rat
  hw_popularity :: rat

definition HYBRID_RANK_WEIGHTS :: hybrid_weights where
  "HYBRID_RANK_WEIGHTS =
     \<lparr>hw_lexical = 55 / 100, hw_semantic = 25 / 100, hw_reliability = 1 / 10, hw_popularity = 1 / 10\<rparr>"

definition LATENCY_SCORE_CEILING_MS :: rat where
  "LATENCY_SCORE_CEILING_MS = 3000"

record ranking_candidate =
  rk_id :: string
  rk_textRank :: rat
  rk_popularityScore :: rat
  rk_reliabilityScore :: "rat option"
  rk_latencyMs :: "rat option"
  rk_updatedAt :: time
  rk_isFree :: bool
  rk_hasFreeTier :: bool
  rk_hasDocs :: bool
  rk_hasEndpoints :: bool
  rk_httpsSupported :: bool
  rk_semanticScore :: "rat option"

record ranking_context =
  rx_maxTextRank :: rat
  rx_now :: time

record score_breakdown =
  sb_total :: rat
  sb_textRelevance :: rat
  sb_popularity :: rat
  sb_reliability :: rat
  sb_freshness :: rat
  sb_freeTier :: rat
  sb_documentation :: rat
  sb_semantic :: "rat option"

section \<open>Components\<close>

definition unit :: "rat \<Rightarrow> rat" where
  "unit v = min 1 (max 0 v)"

definition normalizeTextRank :: "rat \<Rightarrow> rat \<Rightarrow> rat" where
  "normalizeTextRank rank maxRank = (if maxRank \<le> 0 then 0 else unit (rank / maxRank))"

definition freshnessScore :: "(rat \<Rightarrow> rat) \<Rightarrow> time \<Rightarrow> time \<Rightarrow> rat" where
  "freshnessScore expo updatedAt now =
     (let ageDays = of_int (now - updatedAt) / 86400000 in
      if ageDays \<le> 0 then 1 else unit (expo (- ageDays / 180)))"

definition latencyScore :: "rat option \<Rightarrow> rat" where
  "latencyScore latencyMs =
     (case latencyMs of None \<Rightarrow> 1 / 2 | Some l \<Rightarrow> unit (1 - l / LATENCY_SCORE_CEILING_MS))"

definition reliabilityScore :: "ranking_candidate \<Rightarrow> rat" where
  "reliabilityScore c =
     (case rk_reliabilityScore c of
        None \<Rightarrow> 1 / 2
      | Some r \<Rightarrow> unit (r / 100) * (8 / 10) + latencyScore (rk_latencyMs c) * (2 / 10))"

definition freeTierScore :: "ranking_candidate \<Rightarrow> rat" where
  "freeTierScore c = (if rk_isFree c then 1 else if rk_hasFreeTier c then 6 / 10 else 1 / 10)"

definition documentationScore :: "ranking_candidate \<Rightarrow> rat" where
  "documentationScore c =
     unit ((if rk_hasDocs c then 6 / 10 else 0) + (if rk_hasEndpoints c then 3 / 10 else 0) +
           (if rk_httpsSupported c then 1 / 10 else 0))"

section \<open>Strategies\<close>

definition lexical_score :: "(rat \<Rightarrow> rat) \<Rightarrow> ranking_candidate \<Rightarrow> ranking_context \<Rightarrow> score_breakdown" where
  "lexical_score expo c x =
     (let weights = LEXICAL_RANK_WEIGHTS;
          textRelevance = normalizeTextRank (rk_textRank c) (rx_maxTextRank x);
          popularity = unit (rk_popularityScore c / 100);
          reliability = reliabilityScore c;
          freshness = freshnessScore expo (rk_updatedAt c) (rx_now x);
          freeTier = freeTierScore c;
          documentation = documentationScore c
      in \<lparr>sb_total = lw_textRelevance weights * textRelevance + lw_popularity weights * popularity +
            lw_reliability weights * reliability + lw_freshness weights * freshness +
            lw_freeTier weights * freeTier + lw_documentation weights * documentation,
          sb_textRelevance = textRelevance, sb_popularity = popularity, sb_reliability = reliability,
          sb_freshness = freshness, sb_freeTier = freeTier, sb_documentation = documentation,
          sb_semantic = None\<rparr>)"

definition hybrid_score :: "(rat \<Rightarrow> rat) \<Rightarrow> ranking_candidate \<Rightarrow> ranking_context \<Rightarrow> score_breakdown" where
  "hybrid_score expo c x =
     (let lexical = lexical_score expo c x;
          semantic = unit (case rk_semanticScore c of Some s \<Rightarrow> s | None \<Rightarrow> 0);
          weights = HYBRID_RANK_WEIGHTS
      in lexical\<lparr>sb_semantic := Some semantic,
           sb_total := hw_lexical weights * sb_total lexical + hw_semantic weights * semantic +
             hw_reliability weights * sb_reliability lexical + hw_popularity weights * sb_popularity lexical\<rparr>)"

definition browse_score :: "(rat \<Rightarrow> rat) \<Rightarrow> ranking_candidate \<Rightarrow> ranking_context \<Rightarrow> score_breakdown" where
  "browse_score expo c x =
     (let popularity = unit (rk_popularityScore c / 100);
          reliability = reliabilityScore c;
          freshness = freshnessScore expo (rk_updatedAt c) (rx_now x);
          freeTier = freeTierScore c;
          documentation = documentationScore c
      in \<lparr>sb_total = popularity * (5 / 10) + reliability * (25 / 100) + freeTier * (15 / 100) + documentation * (1 / 10),
          sb_textRelevance = 0, sb_popularity = popularity, sb_reliability = reliability,
          sb_freshness = freshness, sb_freeTier = freeTier, sb_documentation = documentation,
          sb_semantic = None\<rparr>)"

datatype ranking_mode = Lexical | Hybrid | Browse

definition rankingStrategyFor ::
  "(rat \<Rightarrow> rat) \<Rightarrow> ranking_mode \<Rightarrow> ranking_candidate \<Rightarrow> ranking_context \<Rightarrow> score_breakdown"
where
  "rankingStrategyFor expo mode =
     (case mode of Hybrid \<Rightarrow> hybrid_score expo | Browse \<Rightarrow> browse_score expo | Lexical \<Rightarrow> lexical_score expo)"

section \<open>Scores are in the unit interval and monotone\<close>

definition in_unit :: "rat \<Rightarrow> bool" where
  "in_unit v \<longleftrightarrow> 0 \<le> v \<and> v \<le> 1"

lemma unit_in [simp]: "0 \<le> unit v" "unit v \<le> 1"
  by (simp_all add: unit_def)

lemma in_unit_unit: "in_unit (unit v)"
  by (simp add: in_unit_def)

lemma unit_mono: "v \<le> w \<Longrightarrow> unit v \<le> unit w"
  by (auto simp: unit_def)

lemma component_bounds:
  "in_unit (normalizeTextRank a b)" "in_unit (freshnessScore expo t n)" "in_unit (latencyScore l)"
  "in_unit (reliabilityScore c)" "in_unit (freeTierScore c)" "in_unit (documentationScore c)"
proof -
  show l: "in_unit (latencyScore l)" for l by (simp add: in_unit_def latencyScore_def split: option.split)
  have "in_unit (u * (8 / 10) + v * (2 / 10))" if "in_unit u" "in_unit v" for u v
    using that by (simp add: in_unit_def)
  from this [OF _ l] show "in_unit (reliabilityScore c)"
    by (auto simp: reliabilityScore_def in_unit_def split: option.split)
qed (simp_all add: in_unit_def normalizeTextRank_def freshnessScore_def freeTierScore_def documentationScore_def Let_def)

definition breakdown_in_unit :: "score_breakdown \<Rightarrow> bool" where
  "breakdown_in_unit b \<longleftrightarrow> in_unit (sb_total b) \<and> in_unit (sb_textRelevance b) \<and> in_unit (sb_popularity b) \<and>
     in_unit (sb_reliability b) \<and> in_unit (sb_freshness b) \<and> in_unit (sb_freeTier b) \<and>
     in_unit (sb_documentation b) \<and> (case sb_semantic b of None \<Rightarrow> True | Some s \<Rightarrow> in_unit s)"

lemma lexical_total:
  "in_unit a \<Longrightarrow> in_unit b \<Longrightarrow> in_unit c \<Longrightarrow> in_unit d \<Longrightarrow> in_unit e \<Longrightarrow> in_unit f \<Longrightarrow>
   in_unit (45 / 100 * a + 15 / 100 * b + 15 / 100 * c + 1 / 10 * d + 1 / 10 * e + 5 / 100 * f)"
  by (simp add: in_unit_def)

lemma lexical_in_unit: "breakdown_in_unit (lexical_score expo c x)"
  unfolding breakdown_in_unit_def lexical_score_def Let_def LEXICAL_RANK_WEIGHTS_def
    score_breakdown.simps lexical_weights.simps option.case
  by (intro conjI lexical_total component_bounds in_unit_unit TrueI)

text \<open>Every component of a score and its total are between 0 and 1, for every strategy and every
  candidate, also where a raw rank, popularity, latency or similarity is out of its range.\<close>

theorem ranking_in_unit: "breakdown_in_unit (rankingStrategyFor expo mode c x)"
proof (cases mode)
  case Lexical
  then show ?thesis using lexical_in_unit by (simp add: rankingStrategyFor_def)
next
  case Hybrid
  have "in_unit (55 / 100 * a + 25 / 100 * b + 1 / 10 * r + 1 / 10 * p)"
    if "in_unit a" "in_unit b" "in_unit r" "in_unit p" for a b r p
    using that by (simp add: in_unit_def)
  then show ?thesis using lexical_in_unit [of expo c x] Hybrid
    by (simp add: rankingStrategyFor_def hybrid_score_def Let_def breakdown_in_unit_def HYBRID_RANK_WEIGHTS_def
        in_unit_def [of "unit _"])
next
  case Browse
  have "in_unit (p * (5 / 10) + r * (25 / 100) + f * (15 / 100) + d * (1 / 10))"
    if "in_unit p" "in_unit r" "in_unit f" "in_unit d" for p r f d
    using that by (simp add: in_unit_def)
  then show ?thesis using component_bounds Browse
    by (simp add: rankingStrategyFor_def browse_score_def Let_def breakdown_in_unit_def in_unit_def [of "unit _"]
        in_unit_def [of 0])
qed

text \<open>One candidate is at least as good as another in every respect the ranking looks at.\<close>

fun both_le :: "rat option \<Rightarrow> rat option \<Rightarrow> bool" where
  "both_le None None = True"
| "both_le (Some x) (Some y) = (x \<le> y)"
| "both_le _ _ = False"

definition dominated :: "ranking_candidate \<Rightarrow> ranking_candidate \<Rightarrow> bool" where
  "dominated a b \<longleftrightarrow> rk_textRank a \<le> rk_textRank b \<and> rk_popularityScore a \<le> rk_popularityScore b \<and>
     both_le (rk_reliabilityScore a) (rk_reliabilityScore b) \<and> both_le (rk_latencyMs b) (rk_latencyMs a) \<and>
     rk_updatedAt a \<le> rk_updatedAt b \<and> rk_isFree a \<le> rk_isFree b \<and> rk_hasFreeTier a \<le> rk_hasFreeTier b \<and>
     rk_hasDocs a \<le> rk_hasDocs b \<and> rk_hasEndpoints a \<le> rk_hasEndpoints b \<and>
     rk_httpsSupported a \<le> rk_httpsSupported b \<and> both_le (rk_semanticScore a) (rk_semanticScore b)"

lemma both_leE: "both_le u v \<Longrightarrow> u = None \<and> v = None \<or> (\<exists>x y. u = Some x \<and> v = Some y \<and> x \<le> y)"
  by (cases u; cases v) auto

lemma normalizeTextRank_mono: "a \<le> b \<Longrightarrow> normalizeTextRank a m \<le> normalizeTextRank b m"
  by (simp add: normalizeTextRank_def unit_mono divide_right_mono)

lemma freshnessScore_mono:
  assumes "\<And>u v. u \<le> v \<Longrightarrow> expo u \<le> expo v" and "s \<le> t"
  shows "freshnessScore expo s now \<le> freshnessScore expo t now"
proof -
  have "(of_int (now - t) :: rat) / 86400000 \<le> of_int (now - s) / 86400000"
    using assms(2) by (intro divide_right_mono) simp_all
  then show ?thesis
    by (auto simp: freshnessScore_def Let_def intro!: unit_mono assms(1) divide_right_mono)
qed

lemma reliabilityScore_mono: "dominated a b \<Longrightarrow> reliabilityScore a \<le> reliabilityScore b"
proof -
  assume d: "dominated a b"
  have l: "latencyScore (rk_latencyMs a) \<le> latencyScore (rk_latencyMs b)"
    using d both_leE [of "rk_latencyMs b" "rk_latencyMs a"]
    by (auto simp: dominated_def latencyScore_def LATENCY_SCORE_CEILING_MS_def intro!: unit_mono)
  have "both_le (rk_reliabilityScore a) (rk_reliabilityScore b)" using d by (simp add: dominated_def)
  from both_leE [OF this] show ?thesis
  proof
    assume "\<exists>x y. rk_reliabilityScore a = Some x \<and> rk_reliabilityScore b = Some y \<and> x \<le> y"
    then obtain x y where r: "rk_reliabilityScore a = Some x" "rk_reliabilityScore b = Some y" "x \<le> y" by auto
    then have "unit (x / 100) \<le> unit (y / 100)" by (intro unit_mono) simp
    then show ?thesis using l r by (simp add: reliabilityScore_def)
  qed (simp add: reliabilityScore_def)
qed

lemma other_components_mono:
  assumes "dominated a b"
  shows "unit (rk_popularityScore a / 100) \<le> unit (rk_popularityScore b / 100)"
    and "freeTierScore a \<le> freeTierScore b" and "documentationScore a \<le> documentationScore b"
    and "unit (case rk_semanticScore a of Some s \<Rightarrow> s | None \<Rightarrow> 0) \<le> unit (case rk_semanticScore b of Some s \<Rightarrow> s | None \<Rightarrow> 0)"
proof -
  show "unit (rk_popularityScore a / 100) \<le> unit (rk_popularityScore b / 100)"
    using assms by (intro unit_mono) (simp add: dominated_def)
  show "freeTierScore a \<le> freeTierScore b" using assms by (auto simp: dominated_def freeTierScore_def)
  show "documentationScore a \<le> documentationScore b"
    using assms unfolding documentationScore_def by (intro unit_mono) (auto simp: dominated_def)
  have "both_le (rk_semanticScore a) (rk_semanticScore b)" using assms by (simp add: dominated_def)
  from both_leE [OF this]
  show "unit (case rk_semanticScore a of Some s \<Rightarrow> s | None \<Rightarrow> 0) \<le> unit (case rk_semanticScore b of Some s \<Rightarrow> s | None \<Rightarrow> 0)"
    by (intro unit_mono) auto
qed

lemma lexical_mono:
  assumes "\<And>u v. u \<le> v \<Longrightarrow> expo u \<le> expo v" and "dominated a b"
  shows "sb_total (lexical_score expo a x) \<le> sb_total (lexical_score expo b x)"
proof -
  have "normalizeTextRank (rk_textRank a) (rx_maxTextRank x) \<le> normalizeTextRank (rk_textRank b) (rx_maxTextRank x)"
    "freshnessScore expo (rk_updatedAt a) (rx_now x) \<le> freshnessScore expo (rk_updatedAt b) (rx_now x)"
    using assms by (auto simp: dominated_def intro: normalizeTextRank_mono freshnessScore_mono)
  then show ?thesis
    using reliabilityScore_mono [OF assms(2)] other_components_mono [OF assms(2)]
    unfolding lexical_score_def Let_def LEXICAL_RANK_WEIGHTS_def score_breakdown.simps lexical_weights.simps
    by (intro add_mono mult_left_mono) simp_all
qed

text \<open>A candidate that is at least as good as another in every respect never scores lower, under any
  strategy, if the exponential is monotone.\<close>

theorem ranking_monotone:
  assumes "\<And>u v. u \<le> v \<Longrightarrow> expo u \<le> expo v" and "dominated a b"
  shows "sb_total (rankingStrategyFor expo mode a x) \<le> sb_total (rankingStrategyFor expo mode b x)"
proof -
  have l: "sb_total (lexical_score expo a x) \<le> sb_total (lexical_score expo b x)"
    by (rule lexical_mono [OF assms])
  show ?thesis
  proof (cases mode)
    case Hybrid
    have "sb_reliability (lexical_score expo c x) = reliabilityScore c"
      "sb_popularity (lexical_score expo c x) = unit (rk_popularityScore c / 100)" for c
      by (simp_all add: lexical_score_def Let_def)
    then show ?thesis
      using l reliabilityScore_mono [OF assms(2)] other_components_mono [OF assms(2)] Hybrid
      by (simp add: rankingStrategyFor_def hybrid_score_def Let_def HYBRID_RANK_WEIGHTS_def)
  next
    case Browse
    then show ?thesis
      using reliabilityScore_mono [OF assms(2)] other_components_mono [OF assms(2)]
      by (simp add: rankingStrategyFor_def browse_score_def Let_def)
  qed (use l in \<open>simp add: rankingStrategyFor_def\<close>)
qed

definition plain_candidate :: "rat \<Rightarrow> rat option \<Rightarrow> ranking_candidate" where
  "plain_candidate rank reliability =
     \<lparr>rk_id = ''a'', rk_textRank = rank, rk_popularityScore = 40, rk_reliabilityScore = reliability,
      rk_latencyMs = Some 300, rk_updatedAt = 0, rk_isFree = True, rk_hasFreeTier = True, rk_hasDocs = True,
      rk_hasEndpoints = False, rk_httpsSupported = True, rk_semanticScore = None\<rparr>"

theorem ranking_monotone_witness:
  "sb_total (rankingStrategyFor (\<lambda>u. 1 + u / 10) Hybrid (plain_candidate (1 / 10) (Some 50)) \<lparr>rx_maxTextRank = 1, rx_now = 86400000\<rparr>)
   \<le> sb_total (rankingStrategyFor (\<lambda>u. 1 + u / 10) Hybrid (plain_candidate (1 / 5) (Some 90)) \<lparr>rx_maxTextRank = 1, rx_now = 86400000\<rparr>)"
  by (rule ranking_monotone) (simp_all add: dominated_def plain_candidate_def)

end
