(* ===== verification/Metrics.thy ===== *)
theory Metrics
  imports JsString Prelude
begin

text \<open>
  Metrics (\<open>packages/runtime/src/metrics.ts\<close>): histograms with fixed buckets, and the registry of
  counters, gauges and histograms with its text exposition. Observations are exact rationals;
  rendering of numbers and the locale's comparison of label names are parameters.
\<close>

section \<open>Histograms\<close>

definition DEFAULT_BUCKETS :: "rat list" where
  "DEFAULT_BUCKETS = [5, 10, 25, 50, 100, 200, 300, 500, 1000, 2000, 5000, 10000]"

record histogram =
  hg_bounds :: "rat list"
  hg_counts :: "nat list"
  hg_sum :: rat
  hg_total :: nat
  hg_minValue :: "rat option"
  hg_maxValue :: "rat option"

record histogram_snapshot =
  hs_count :: nat
  hs_sum :: rat
  hs_min :: "rat option"
  hs_max :: "rat option"
  hs_mean :: "rat option"
  hs_p50 :: "rat option"
  hs_p95 :: "rat option"
  hs_p99 :: "rat option"
  hs_buckets :: "(rat \<times> nat) list"

definition histogram_new :: "rat list \<Rightarrow> histogram" where
  "histogram_new buckets =
     \<lparr>hg_bounds = sort buckets, hg_counts = replicate (length buckets + 1) 0, hg_sum = 0, hg_total = 0,
      hg_minValue = None, hg_maxValue = None\<rparr>"

text \<open>The scan for the first bound that is not below the value; the last slot is for the rest.\<close>

fun bucket_index :: "rat \<Rightarrow> nat \<Rightarrow> rat list \<Rightarrow> nat" where
  "bucket_index v i [] = i"
| "bucket_index v i (b # bs) = (if v \<le> b then i else bucket_index v (Suc i) bs)"

definition observe_value :: "histogram \<Rightarrow> rat \<Rightarrow> histogram" where
  "observe_value h v =
     (let index = bucket_index v 0 (hg_bounds h) in
      h\<lparr>hg_sum := hg_sum h + v, hg_total := hg_total h + 1,
        hg_minValue := Some (case hg_minValue h of None \<Rightarrow> v | Some m \<Rightarrow> min m v),
        hg_maxValue := Some (case hg_maxValue h of None \<Rightarrow> v | Some m \<Rightarrow> max m v),
        hg_counts := (hg_counts h)[index := hg_counts h ! index + 1]\<rparr>)"

fun quantile_loop :: "rat \<Rightarrow> nat \<Rightarrow> rat list \<Rightarrow> nat list \<Rightarrow> rat option \<Rightarrow> rat option" where
  "quantile_loop target cumulative bounds [] maxValue = maxValue"
| "quantile_loop target cumulative bounds (c # counts) maxValue =
     (let cumulative' = cumulative + c in
      if target \<le> of_nat cumulative'
      then (case bounds of b # _ \<Rightarrow> Some b | [] \<Rightarrow> Some (case maxValue of Some m \<Rightarrow> m | None \<Rightarrow> 0))
      else quantile_loop target cumulative' (tl bounds) counts maxValue)"

definition quantile :: "histogram \<Rightarrow> rat \<Rightarrow> rat option" where
  "quantile h q =
     (if hg_total h = 0 then None
      else quantile_loop (q * of_nat (hg_total h)) 0 (hg_bounds h) (hg_counts h) (hg_maxValue h))"

fun cumulate :: "nat \<Rightarrow> rat list \<Rightarrow> nat list \<Rightarrow> (rat \<times> nat) list" where
  "cumulate acc (le # bounds) (c # counts) = (le, acc + c) # cumulate (acc + c) bounds counts"
| "cumulate acc _ _ = []"

definition histogram_snapshot_of :: "histogram \<Rightarrow> histogram_snapshot" where
  "histogram_snapshot_of h =
     \<lparr>hs_count = hg_total h, hs_sum = hg_sum h, hs_min = hg_minValue h, hs_max = hg_maxValue h,
      hs_mean = (if hg_total h = 0 then None else Some (hg_sum h / of_nat (hg_total h))),
      hs_p50 = quantile h (1 / 2), hs_p95 = quantile h (95 / 100), hs_p99 = quantile h (99 / 100),
      hs_buckets = cumulate 0 (hg_bounds h) (hg_counts h)\<rparr>"

definition histogram_reset :: "histogram \<Rightarrow> histogram" where
  "histogram_reset h =
     h\<lparr>hg_counts := replicate (length (hg_counts h)) 0, hg_sum := 0, hg_total := 0,
       hg_minValue := None, hg_maxValue := None\<rparr>"

section \<open>The registry\<close>

record metrics_registry =
  mr_counters :: "(string, rat) jsmap"
  mr_gauges :: "(string, rat) jsmap"
  mr_histograms :: "(string, histogram) jsmap"
  mr_startedAt :: time

definition registry_new :: "time \<Rightarrow> metrics_registry" where
  "registry_new now = \<lparr>mr_counters = [], mr_gauges = [], mr_histograms = [], mr_startedAt = now\<rparr>"

text \<open>The entries of the labels object, undefined values as None.\<close>

type_synonym labels = "(string \<times> string option) list"

definition render_label :: "string \<times> string option \<Rightarrow> string" where
  "render_label lv =
     fst lv @ ''='' @ [CHR 0x22] @ filter (\<lambda>c. c \<noteq> CHR 0x22) (case snd lv of Some v \<Rightarrow> v | None \<Rightarrow> []) @ [CHR 0x22]"

definition series_key :: "(string \<Rightarrow> string \<Rightarrow> bool) \<Rightarrow> string \<Rightarrow> labels option \<Rightarrow> string" where
  "series_key locale_le name labels =
     (case labels of
        None \<Rightarrow> name
      | Some ls \<Rightarrow>
          if ls = [] then name
          else name @ ''{'' @
            join '','' (map render_label (sort_by (\<lambda>a b. locale_le (fst a) (fst b)) (filter (\<lambda>l. snd l \<noteq> None) ls))) @ ''}'')"

definition metric_increment ::
  "(string \<Rightarrow> string \<Rightarrow> bool) \<Rightarrow> metrics_registry \<Rightarrow> string \<Rightarrow> rat \<Rightarrow> labels option \<Rightarrow> metrics_registry"
where
  "metric_increment le r name amount labels =
     (let k = series_key le name labels in
      r\<lparr>mr_counters := jm_set k ((case jm_get (mr_counters r) k of Some v \<Rightarrow> v | None \<Rightarrow> 0) + amount) (mr_counters r)\<rparr>)"

definition metric_gauge ::
  "(string \<Rightarrow> string \<Rightarrow> bool) \<Rightarrow> metrics_registry \<Rightarrow> string \<Rightarrow> rat \<Rightarrow> labels option \<Rightarrow> metrics_registry"
where
  "metric_gauge le r name v labels = r\<lparr>mr_gauges := jm_set (series_key le name labels) v (mr_gauges r)\<rparr>"

definition metric_observe ::
  "(string \<Rightarrow> string \<Rightarrow> bool) \<Rightarrow> metrics_registry \<Rightarrow> string \<Rightarrow> rat \<Rightarrow> labels option \<Rightarrow> metrics_registry"
where
  "metric_observe le r name v labels =
     (let k = series_key le name labels;
          h = (case jm_get (mr_histograms r) k of Some h \<Rightarrow> h | None \<Rightarrow> histogram_new DEFAULT_BUCKETS)
      in r\<lparr>mr_histograms := jm_set k (observe_value h v) (mr_histograms r)\<rparr>)"

text \<open>The labels of a timed operation: a spread with the outcome added. The operation's result and the
  time it took are given.\<close>

definition metric_time ::
  "(string \<Rightarrow> string \<Rightarrow> bool) \<Rightarrow> metrics_registry \<Rightarrow> string \<Rightarrow> 'e + 'a \<Rightarrow> rat \<Rightarrow> labels option \<Rightarrow>
   metrics_registry \<times> ('e + 'a)"
where
  "metric_time le r name result elapsed labels =
     (let outcome = (case result of Inr _ \<Rightarrow> ''success'' | Inl _ \<Rightarrow> ''error'');
          ls = (case labels of Some l \<Rightarrow> l | None \<Rightarrow> [])
      in (metric_observe le r name elapsed (Some (jm_set ''outcome'' (Some outcome) ls)), result))"

definition getCounter :: "(string \<Rightarrow> string \<Rightarrow> bool) \<Rightarrow> metrics_registry \<Rightarrow> string \<Rightarrow> labels option \<Rightarrow> rat" where
  "getCounter le r name labels =
     (case jm_get (mr_counters r) (series_key le name labels) of Some v \<Rightarrow> v | None \<Rightarrow> 0)"

definition getHistogram ::
  "(string \<Rightarrow> string \<Rightarrow> bool) \<Rightarrow> metrics_registry \<Rightarrow> string \<Rightarrow> labels option \<Rightarrow> histogram_snapshot option"
where
  "getHistogram le r name labels =
     map_option histogram_snapshot_of (jm_get (mr_histograms r) (series_key le name labels))"

definition uptimeSeconds :: "metrics_registry \<Rightarrow> time \<Rightarrow> rat" where
  "uptimeSeconds r now = of_int (now - mr_startedAt r) / 1000"

record registry_snapshot =
  rs_uptimeSeconds :: rat
  rs_counters :: "(string, rat) jsmap"
  rs_gauges :: "(string, rat) jsmap"
  rs_histograms :: "(string, histogram_snapshot) jsmap"

definition registry_snapshot_of :: "metrics_registry \<Rightarrow> time \<Rightarrow> registry_snapshot" where
  "registry_snapshot_of r now =
     \<lparr>rs_uptimeSeconds = uptimeSeconds r now, rs_counters = mr_counters r, rs_gauges = mr_gauges r,
      rs_histograms = map (\<lambda>(k, h). (k, histogram_snapshot_of h)) (mr_histograms r)\<rparr>"

definition baseName :: "string \<Rightarrow> string" where
  "baseName key = (if CHR ''{'' \<in> set key then cut_before (CHR ''{'') key else key)"

definition counter_lines :: "(rat \<Rightarrow> string) \<Rightarrow> string \<Rightarrow> string \<times> rat \<Rightarrow> string list" where
  "counter_lines num kind kv =
     [''# TYPE '' @ baseName (fst kv) @ '' '' @ kind, fst kv @ '' '' @ num (snd kv)]"

definition histogram_lines :: "(rat \<Rightarrow> string) \<Rightarrow> string \<times> histogram \<Rightarrow> string list" where
  "histogram_lines num kh =
     (let snapshot = histogram_snapshot_of (snd kh); base = baseName (fst kh);
          labelPart = drop (length base) (fst kh);
          le = (\<lambda>b. ''le='' @ [CHR 0x22] @ num b @ [CHR 0x22] @ ''}'')
      in [''# TYPE '' @ base @ '' histogram''] @
        map (\<lambda>(b, n). base @ ''_bucket'' @
               (if labelPart \<noteq> [] then butlast labelPart @ '','' @ le b else ''{'' @ le b) @ '' '' @ num (of_nat n))
          (hs_buckets snapshot) @
        [base @ ''_sum'' @ labelPart @ '' '' @ num (hs_sum snapshot),
         base @ ''_count'' @ labelPart @ '' '' @ num (of_nat (hs_count snapshot))])"

definition toPrometheus :: "(rat \<Rightarrow> string) \<Rightarrow> metrics_registry \<Rightarrow> string" where
  "toPrometheus num r =
     join [CHR 0x0A]
       (concat (map (counter_lines num ''counter'') (mr_counters r)) @
        concat (map (counter_lines num ''gauge'') (mr_gauges r)) @
        concat (map (histogram_lines num) (mr_histograms r))) @ [CHR 0x0A]"

definition registry_reset :: "metrics_registry \<Rightarrow> metrics_registry" where
  "registry_reset r = r\<lparr>mr_counters := [], mr_gauges := [], mr_histograms := []\<rparr>"

text \<open>One tick of the sampler of the event loop's lag: the new gauge and the time of the tick.\<close>

definition loop_lag_tick ::
  "(string \<Rightarrow> string \<Rightarrow> bool) \<Rightarrow> metrics_registry \<Rightarrow> rat \<Rightarrow> rat \<Rightarrow> rat \<Rightarrow> metrics_registry \<times> rat"
where
  "loop_lag_tick le r previous now intervalMs =
     (metric_gauge le r ''event_loop_lag_ms'' (max 0 (now - previous - intervalMs)) None, now)"

definition eventLoopLagMs :: "metrics_registry \<Rightarrow> rat" where
  "eventLoopLagMs r = (case jm_get (mr_gauges r) ''event_loop_lag_ms'' of Some v \<Rightarrow> v | None \<Rightarrow> 0)"

section \<open>A histogram counts exactly\<close>

definition observed :: "rat list \<Rightarrow> rat list \<Rightarrow> histogram" where
  "observed buckets vs = foldl observe_value (histogram_new buckets) vs"

lemma observed_Nil [simp]: "observed buckets [] = histogram_new buckets"
  by (simp add: observed_def)

lemma observed_snoc [simp]: "observed buckets (vs @ [v]) = observe_value (observed buckets vs) v"
  by (simp add: observed_def)

lemma bucket_index_takeWhile: "bucket_index v i bs = i + length (takeWhile (\<lambda>b. b < v) bs)"
  by (induction v i bs rule: bucket_index.induct) auto

abbreviation slot :: "rat list \<Rightarrow> rat \<Rightarrow> nat" where
  "slot bs v \<equiv> length (takeWhile (\<lambda>b. b < v) bs)"

lemma slot_le: "slot bs v \<le> length bs"
  by (rule length_takeWhile_le)

lemma slot_bound: "sorted bs \<Longrightarrow> i < length bs \<Longrightarrow> slot bs v \<le> i \<longleftrightarrow> v \<le> bs ! i"
proof (induction bs arbitrary: i)
  case (Cons b bs)
  show ?case
  proof (cases "b < v")
    case True
    then show ?thesis using Cons by (cases i) auto
  next
    case False
    then have "v \<le> (b # bs) ! i" using Cons.prems nth_mem by (cases i) fastforce+
    then show ?thesis using False by simp
  qed
qed simp

lemma observed_state:
  "hg_bounds (observed buckets vs) = sort buckets \<and>
   hg_total (observed buckets vs) = length vs \<and> hg_sum (observed buckets vs) = sum_list vs \<and>
   hg_minValue (observed buckets vs) = (if vs = [] then None else Some (Min (set vs))) \<and>
   hg_maxValue (observed buckets vs) = (if vs = [] then None else Some (Max (set vs))) \<and>
   hg_counts (observed buckets vs) =
     map (\<lambda>i. length (filter (\<lambda>v. slot (sort buckets) v = i) vs)) [0..<length buckets + 1]"
proof (induction vs rule: rev_induct)
  case Nil
  show ?case by (simp add: histogram_new_def map_replicate_const)
next
  case (snoc v vs)
  let ?s = "slot (sort buckets) v"
  have s: "?s < length buckets + 1" using slot_le [where bs = "sort buckets" and v = v] by simp
  have "(map (\<lambda>i. length (filter (\<lambda>v. slot (sort buckets) v = i) vs)) [0..<length buckets + 1])
      [?s := map (\<lambda>i. length (filter (\<lambda>v. slot (sort buckets) v = i) vs)) [0..<length buckets + 1] ! ?s + 1] =
    map (\<lambda>i. length (filter (\<lambda>v. slot (sort buckets) v = i) (vs @ [v]))) [0..<length buckets + 1]"
    by (rule nth_equalityI) (use s in \<open>auto simp: nth_list_update simp del: upt_Suc\<close>)
  then show ?case using snoc
    by (auto simp: observe_value_def Let_def bucket_index_takeWhile min.commute max.commute simp del: upt_Suc)
qed

lemma count_upto:
  "sum_list (take (Suc i) (map (\<lambda>i. length (filter (\<lambda>v. f v = i) vs)) [0..<n])) = length (filter (\<lambda>v. f v \<le> i) vs)"
  if "i < n" for f :: "'a \<Rightarrow> nat"
  using that
proof (induction i)
  case 0
  then show ?case by (simp add: take_Suc_conv_app_nth del: upt_Suc)
next
  case (Suc i)
  have "length (filter (\<lambda>v. f v \<le> Suc i) vs) = length (filter (\<lambda>v. f v \<le> i) vs) + length (filter (\<lambda>v. f v = Suc i) vs)"
    by (induction vs) auto
  then show ?case using Suc by (simp add: take_Suc_conv_app_nth del: upt_Suc)
qed

lemma cumulate_nth:
  "length counts = length bounds + k \<Longrightarrow>
   cumulate acc bounds counts = map (\<lambda>i. (bounds ! i, acc + sum_list (take (Suc i) counts))) [0..<length bounds]"
proof (induction acc bounds counts rule: cumulate.induct)
  case (1 acc le bounds c counts)
  then have "cumulate (acc + c) bounds counts =
      map (\<lambda>i. (bounds ! i, acc + c + sum_list (take (Suc i) counts))) [0..<length bounds]" by simp
  then show ?case by (simp add: map_upt_Suc add.assoc del: upt_Suc)
qed auto

lemma cumulate_observed:
  "cumulate 0 (sort buckets) (hg_counts (observed buckets vs)) =
     map (\<lambda>b. (b, length (filter (\<lambda>v. v \<le> b) vs))) (sort buckets)"
proof (rule nth_equalityI)
  let ?bs = "sort buckets"
  have len: "length (hg_counts (observed buckets vs)) = length ?bs + 1" by (simp add: observed_state del: upt_Suc)
  show "length (cumulate 0 ?bs (hg_counts (observed buckets vs))) = length (map (\<lambda>b. (b, length (filter (\<lambda>v. v \<le> b) vs))) ?bs)"
    by (simp add: cumulate_nth [OF len] del: upt_Suc)
  fix i assume "i < length (cumulate 0 ?bs (hg_counts (observed buckets vs)))"
  then have i: "i < length ?bs" by (simp add: cumulate_nth [OF len])
  have "sum_list (take (Suc i) (hg_counts (observed buckets vs))) = length (filter (\<lambda>v. slot ?bs v \<le> i) vs)"
    using observed_state [of buckets vs] count_upto [of i "length buckets + 1" "slot ?bs" vs] i
    by (simp del: upt_Suc)
  also have "filter (\<lambda>v. slot ?bs v \<le> i) vs = filter (\<lambda>v. v \<le> ?bs ! i) vs"
    using slot_bound [of ?bs i] i by (intro filter_cong) simp_all
  finally show "cumulate 0 ?bs (hg_counts (observed buckets vs)) ! i =
      map (\<lambda>b. (b, length (filter (\<lambda>v. v \<le> b) vs))) ?bs ! i"
    using i by (simp add: cumulate_nth [OF len] del: upt_Suc)
qed

text \<open>The loop of the quantile finds the first bound whose cumulative count reaches the target.\<close>

lemma quantile_loop_find:
  "length counts = length bounds + 1 \<Longrightarrow>
   quantile_loop target acc bounds counts (Some m) =
     Some (case List.find (\<lambda>(b, n). target \<le> of_nat n) (cumulate acc bounds counts) of Some (b, n) \<Rightarrow> b | None \<Rightarrow> m)"
proof (induction target acc bounds counts "Some m" rule: quantile_loop.induct)
  case (2 target acc bounds c counts)
  then show ?case by (cases bounds) (auto simp: Let_def)
qed simp

lemma quantile_observed:
  "quantile (observed buckets vs) q =
     (if vs = [] then None
      else Some (case List.find (\<lambda>b. q * of_nat (length vs) \<le> of_nat (length (filter (\<lambda>v. v \<le> b) vs))) (sort buckets) of
                   Some b \<Rightarrow> b | None \<Rightarrow> Max (set vs)))"
proof (cases "vs = []")
  case True
  then show ?thesis by (simp add: quantile_def histogram_new_def)
next
  case False
  have find: "List.find Q (map g xs) = map_option g (List.find (Q \<circ> g) xs)" for Q :: "'b \<Rightarrow> bool" and g :: "'a \<Rightarrow> 'b" and xs
    by (induction xs) auto
  have "quantile (observed buckets vs) q = Some (case List.find (\<lambda>(b, n). q * of_nat (length vs) \<le> of_nat n)
      (cumulate 0 (sort buckets) (hg_counts (observed buckets vs))) of Some (b, n) \<Rightarrow> b | None \<Rightarrow> Max (set vs))"
    using quantile_loop_find [of "hg_counts (observed buckets vs)" "sort buckets" "q * of_nat (length vs)" 0 "Max (set vs)"]
      observed_state [of buckets vs] False
    by (simp add: quantile_def del: upt_Suc)
  then have "quantile (observed buckets vs) q = Some (case List.find
      (\<lambda>b. q * of_nat (length vs) \<le> of_nat (length (filter (\<lambda>v. v \<le> b) vs))) (sort buckets) of
        Some b \<Rightarrow> b | None \<Rightarrow> Max (set vs))"
    unfolding cumulate_observed find
    by (cases "List.find (\<lambda>b. q * of_nat (length vs) \<le> of_nat (length (filter (\<lambda>v. v \<le> b) vs))) (sort buckets)")
      (simp_all add: comp_def)
  then show ?thesis using False by simp
qed

text \<open>The share of the observations up to each bound.\<close>

definition counts_upto :: "rat list \<Rightarrow> rat list \<Rightarrow> (rat \<times> nat) list" where
  "counts_upto buckets vs = map (\<lambda>b. (b, length (filter (\<lambda>v. v \<le> b) vs))) (sort buckets)"

definition bound_of_share :: "rat list \<Rightarrow> rat list \<Rightarrow> rat \<Rightarrow> rat option" where
  "bound_of_share buckets vs q =
     (if vs = [] then None
      else Some (case List.find (\<lambda>b. q * of_nat (length vs) \<le> of_nat (length (filter (\<lambda>v. v \<le> b) vs))) (sort buckets) of
                   Some b \<Rightarrow> b | None \<Rightarrow> Max (set vs)))"

text \<open>Whatever was observed and whatever the buckets, a snapshot is exact: count, sum, least and
  greatest value, the number of observations up to each bound; and a quantile is the first bound up
  to which at least that share of the observations lies, or the greatest value.\<close>

theorem histogram_exact:
  "histogram_snapshot_of (observed buckets vs) =
     \<lparr>hs_count = length vs, hs_sum = sum_list vs,
      hs_min = (if vs = [] then None else Some (Min (set vs))),
      hs_max = (if vs = [] then None else Some (Max (set vs))),
      hs_mean = (if vs = [] then None else Some (sum_list vs / of_nat (length vs))),
      hs_p50 = bound_of_share buckets vs (1 / 2), hs_p95 = bound_of_share buckets vs (95 / 100),
      hs_p99 = bound_of_share buckets vs (99 / 100), hs_buckets = counts_upto buckets vs\<rparr>"
proof -
  have q: "quantile (observed buckets vs) q = bound_of_share buckets vs q" for q
    unfolding bound_of_share_def by (rule quantile_observed)
  have c: "cumulate 0 (hg_bounds (observed buckets vs)) (hg_counts (observed buckets vs)) = counts_upto buckets vs"
    using cumulate_observed [of buckets vs] observed_state [of buckets vs] unfolding counts_upto_def by (simp only:)
  have "hg_total (observed buckets vs) = length vs" "hg_sum (observed buckets vs) = sum_list vs"
    "hg_minValue (observed buckets vs) = (if vs = [] then None else Some (Min (set vs)))"
    "hg_maxValue (observed buckets vs) = (if vs = [] then None else Some (Max (set vs)))"
    using observed_state [of buckets vs] by (simp_all only:)
  then show ?thesis
    unfolding histogram_snapshot_of_def q c by (simp only: length_0_conv)
qed

text \<open>
  The exposition has no bucket for infinity, which the format requires, and a TYPE line for each
  series of a name with labels; a line break in a label's value is not escaped.
\<close>

lemma exposition_ends_at_last_bound:
  "map fst (hs_buckets (histogram_snapshot_of (observed buckets vs))) = sort buckets"
  using cumulate_observed [of buckets vs] observed_state [of buckets vs]
  by (simp add: histogram_snapshot_of_def comp_def del: upt_Suc)

lemma label_breaks_line:
  "toPrometheus (\<lambda>_. ''1'') (metric_increment (\<lambda>_ _. True) (registry_new 0) ''hits'' 1
      (Some [(''path'', Some (''/a'' @ [CHR 0x0A] @ ''forged_total 9''))])) =
   join [CHR 0x0A] [''# TYPE hits counter'', ''hits{path='' @ [CHR 0x22] @ ''/a'',
     ''forged_total 9'' @ [CHR 0x22] @ ''} 1''] @ [CHR 0x0A]"
  by code_simp

end
