(* ===== verification/HttpProbe.thy ===== *)
theory HttpProbe
  imports Ssrf HealthScoring
begin

text \<open>
  The health probe (\<open>packages/jobs/src/probe/http-probe.ts\<close>): the classes of transport errors and
  one probe through the guard of \<open>Ssrf\<close>. The HTTP client, the URL parser and the resolver are
  parameters; a response body is the sizes of the chunks that arrive before it ends or fails (the code
  treats both alike). The clock is read at the start and where a latency is taken.
\<close>

record probe_target =
  pt_apiId :: string
  pt_slug :: string
  pt_url :: string

text \<open>What the body of the try block throws: an error of the guard, or one of the client with the
  fields the code reads.\<close>

record transport_error =
  te_code :: "string option"
  te_name :: "string option"
  te_message :: "string option"

datatype probe_thrown = GuardError ssrf_error | TransportError transport_error

definition or_empty :: "string option \<Rightarrow> string" where
  "or_empty x = (case x of Some s \<Rightarrow> s | None \<Rightarrow> [])"

definition classifyError :: "probe_thrown \<Rightarrow> string" where
  "classifyError e =
     (case e of
        GuardError s \<Rightarrow> (if se_code s = DNS_RESOLUTION_FAILED then ''DNS_FAILURE'' else ''BLOCKED_ADDRESS'')
      | TransportError t \<Rightarrow>
          (let kind = or_empty (te_code t); name = or_empty (te_name t);
               message = toLowerCase (or_empty (te_message t))
           in if name = ''TimeoutError'' \<or> name = ''AbortError'' \<or> kind = ''UND_ERR_HEADERS_TIMEOUT'' then ''TIMEOUT''
              else if kind = ''ETIMEDOUT'' \<or> kind = ''UND_ERR_CONNECT_TIMEOUT'' then ''TIMEOUT''
              else if kind = ''ENOTFOUND'' \<or> kind = ''EAI_AGAIN'' then ''DNS_FAILURE''
              else if kind = ''ECONNREFUSED'' then ''CONNECTION_REFUSED''
              else if kind = ''ECONNRESET'' \<or> kind = ''EPIPE'' then ''RESET''
              else if starts_with kind ''ERR_TLS'' \<or> kind = ''CERT_HAS_EXPIRED'' \<or> contains_text message ''certificate''
              then ''TLS_ERROR''
              else if starts_with kind ''UND_ERR'' then ''PROTOCOL_ERROR''
              else ''UNKNOWN''))"

text \<open>What the client is called with: the agent is built on the pinned lookup of the validated
  addresses, and the call carries no instruction to follow redirects.\<close>

record probe_call =
  pc_url :: url
  pc_method :: string
  pc_headers :: "(string \<times> string) list"
  pc_timeoutMs :: nat
  pc_connectTimeoutMs :: nat
  pc_lookup :: "string \<Rightarrow> bool \<Rightarrow> lookup_reply"

record probe_response =
  po_statusCode :: int
  po_body :: "nat list"

record probe_world =
  pw_parse :: "string \<Rightarrow> url option"
  pw_lookup :: "string \<Rightarrow> string option + address list"
  pw_send :: "probe_call \<Rightarrow> transport_error + probe_response"

record probe_config =
  pf_timeoutMs :: nat
  pf_userAgent :: string

definition probe_policy :: ssrf_policy where
  "probe_policy = \<lparr>sp_allowHttp = True, sp_hostAllowlist = [], sp_maxRedirects = 2, sp_extraPorts = None\<rparr>"

definition probe_call_of :: "probe_config \<Rightarrow> ssrf_result \<Rightarrow> probe_call" where
  "probe_call_of cfg validated =
     \<lparr>pc_url = sr_url validated, pc_method = ''GET'',
      pc_headers = [(''user-agent'', pf_userAgent cfg), (''accept'', ''*/*'')],
      pc_timeoutMs = pf_timeoutMs cfg, pc_connectTimeoutMs = min (pf_timeoutMs cfg) 5000,
      pc_lookup = createPinnedLookup (sr_addresses validated)\<rparr>"

text \<open>The loop that reads a bounded prefix of the body.\<close>

fun read_prefix :: "nat \<Rightarrow> nat list \<Rightarrow> nat" where
  "read_prefix bytes [] = bytes"
| "read_prefix bytes (n # ns) =
     (if 65536 < bytes + n then bytes + n else read_prefix (bytes + n) ns)"

text \<open>The guard, then the call; the second part of the result is the calls made.\<close>

definition probe_attempt ::
  "probe_world \<Rightarrow> probe_config \<Rightarrow> probe_target \<Rightarrow> (probe_thrown + probe_response) \<times> probe_call list"
where
  "probe_attempt w cfg target =
     (case validateTargetUrl (pw_parse w) (pw_lookup w) (pt_url target) probe_policy of
        Inl e \<Rightarrow> (Inl (GuardError e), [])
      | Inr validated \<Rightarrow>
          (let call = probe_call_of cfg validated in
           case pw_send w call of
             Inl e \<Rightarrow> (Inl (TransportError e), [call])
           | Inr response \<Rightarrow> (Inr response, [call])))"

text \<open>\<open>elapsed\<close> is the time from the start to the response or the error.\<close>

definition probe :: "probe_world \<Rightarrow> probe_config \<Rightarrow> probe_target \<Rightarrow> rat \<Rightarrow> probe_result" where
  "probe w cfg target elapsed =
     (case fst (probe_attempt w cfg target) of
        Inr response \<Rightarrow>
          \<lparr>pr_httpStatus = Some (po_statusCode response), pr_latencyMs = Some (of_int (js_round elapsed)),
           pr_errorCode = None, pr_responseBytes = Some (read_prefix 0 (po_body response))\<rparr>
      | Inl e \<Rightarrow>
          \<lparr>pr_httpStatus = None, pr_latencyMs = Some (of_int (js_round elapsed)),
           pr_errorCode = Some (classifyError e), pr_responseBytes = None\<rparr>)"

section \<open>What a probe may do\<close>

definition PROBE_ERROR_CODES :: "string list" where
  "PROBE_ERROR_CODES = [''BLOCKED_ADDRESS'', ''DNS_FAILURE'', ''CONNECTION_REFUSED'', ''TLS_ERROR'', ''TIMEOUT'',
     ''RESET'', ''PROTOCOL_ERROR'', ''UNKNOWN'']"

lemma classifyError_code: "classifyError e \<in> set PROBE_ERROR_CODES"
  by (simp add: classifyError_def PROBE_ERROR_CODES_def Let_def split: probe_thrown.split)

text \<open>At most one chunk is read past the bound.\<close>

lemma read_prefix_bound:
  "bytes \<le> 65536 \<Longrightarrow> \<forall>n\<in>set ns. n \<le> m \<Longrightarrow> read_prefix bytes ns \<le> 65536 + m"
  by (induction bytes ns rule: read_prefix.induct) (auto simp: le_Suc_eq)

lemma read_prefix_small: "bytes + sum_list ns \<le> 65536 \<Longrightarrow> read_prefix bytes ns = bytes + sum_list ns"
  by (induction bytes ns rule: read_prefix.induct) auto

definition only_public :: "lookup_reply \<Rightarrow> bool" where
  "only_public r = (case r of NotFound \<Rightarrow> False | All as \<Rightarrow> as \<noteq> [] \<and> list_all (\<lambda>a. isPublicIp (fst a)) as
     | One a \<Rightarrow> isPublicIp (fst a))"

lemma pinned_only_public:
  assumes "as \<noteq> []" and "\<forall>a\<in>set as. isPublicIp (fst a)"
  shows "only_public (createPinnedLookup as host wantsAll)"
  using assms pinned_all [OF assms(2)]
  by (cases as) (auto simp: createPinnedLookup_def only_public_def list_all_iff)

definition safe_call :: "probe_world \<Rightarrow> probe_target \<Rightarrow> probe_call \<Rightarrow> bool" where
  "safe_call w target c \<longleftrightarrow>
     pw_parse w (pt_url target) = Some (pc_url c) \<and> url_permitted (pc_url c) probe_policy \<and>
     pc_method c = ''GET'' \<and> (\<forall>host wantsAll. only_public (pc_lookup c host wantsAll))"

lemma probe_attempt_safe: "list_all (safe_call w target) (snd (probe_attempt w cfg target))"
proof (cases "validateTargetUrl (pw_parse w) (pw_lookup w) (pt_url target) probe_policy")
  case (Inr r)
  note safe = ssrf_validated_safe_lemma [OF Inr]
  have "safe_call w target (probe_call_of cfg r)"
    using safe pinned_only_public [of "sr_addresses r"] by (simp add: safe_call_def probe_call_of_def)
  then show ?thesis using Inr by (simp add: probe_attempt_def Let_def split: sum.split)
qed (simp add: probe_attempt_def)

text \<open>A probe makes at most one request; whatever the catalogue, the resolver and the server answer,
  that request is a GET of the target's own URL, permitted by the policy, and the agent that carries it
  can only connect to public addresses. The probe always gives a result: a status with the bytes read,
  or one of the eight error codes.\<close>

theorem probe_guarded:
  "list_all (safe_call w target) (snd (probe_attempt w cfg target)) \<and>
   length (snd (probe_attempt w cfg target)) \<le> 1 \<and>
   (case probe w cfg target elapsed of r \<Rightarrow>
      (case pr_errorCode r of
         None \<Rightarrow> pr_httpStatus r \<noteq> None \<and> pr_responseBytes r \<noteq> None
       | Some c \<Rightarrow> c \<in> set PROBE_ERROR_CODES \<and> pr_httpStatus r = None \<and> pr_responseBytes r = None))"
  using probe_attempt_safe [of w target cfg] classifyError_code
  by (simp add: probe_def probe_attempt_def Let_def split: sum.split)

end
