(* ===== verification/HealthJobs.thy ===== *)
theory HealthJobs
  imports HttpProbe PQueue "HOL-Library.Option_ord" "HOL-Library.Sublist"
begin

text \<open>
  Health monitoring (\<open>packages/jobs/src/jobs/health.ts\<close>) over the tables of
  \<open>packages/database/src/schema/health.ts\<close>. A table is the list of its rows and a query what SQL says of
  it; where a query leaves the row open (\<open>LIMIT 1\<close> with no order) a number given to the step picks it.
  Recording one probe is cut at each of its awaits, so that the probes of a sweep interleave: the
  system of the sweep starts, claims targets in order up to the concurrency, advances any running
  probe by one statement, or loses it to a database error.
\<close>

section \<open>Tables\<close>

record api_row =
  ap_id :: string
  ap_slug :: string
  ap_docsUrl :: "string option"
  ap_baseUrl :: "string option"
  ap_active :: bool
  ap_popularityScore :: rat

record health_check =
  hc_id :: string
  hc_apiId :: string
  hc_status :: health_status
  hc_httpStatus :: "int option"
  hc_latencyMs :: "rat option"
  hc_errorCode :: "string option"
  hc_responseBytes :: "nat option"
  hc_checkedAt :: time

record health_latest =
  hl_status :: health_status
  hl_httpStatus :: "int option"
  hl_latencyMs :: "rat option"
  hl_errorCode :: "string option"
  hl_consecutiveFailures :: nat
  hl_consecutiveSuccesses :: nat
  hl_uptime30d :: "rat option"
  hl_successRate7d :: "rat option"
  hl_reliabilityScore :: "rat option"
  hl_lastCheckedAt :: "time option"
  hl_nextCheckAt :: "time option"
  hl_checkPriority :: int
  hl_updatedAt :: time

record incident =
  in_id :: string
  in_apiId :: string
  in_status :: health_status
  in_errorCode :: "string option"
  in_checksAffected :: nat
  in_startedAt :: time
  in_resolvedAt :: "time option"
  in_durationMs :: "int option"

record health_daily =
  dy_totalChecks :: nat
  dy_successfulChecks :: nat
  dy_uptime :: rat
  dy_avgLatencyMs :: "rat option"
  dy_p95LatencyMs :: "rat option"
  dy_incidents :: nat
  dy_updatedAt :: time

record health_db =
  hd_apis :: "api_row list"
  hd_checks :: "health_check list"
  hd_latest :: "(string, health_latest) jsmap"
  hd_incidents :: "incident list"
  hd_daily :: "(string \<times> string, health_daily) jsmap"

record health_config =
  hf_degradedLatencyMs :: rat
  hf_scheduleIntervalMs :: int
  hf_probeConcurrency :: nat
  hf_retentionDays :: nat

definition DAY_MS :: int where
  "DAY_MS = 86400000"

section \<open>Selecting what is due\<close>

definition is_due :: "health_db \<Rightarrow> time \<Rightarrow> api_row \<Rightarrow> bool" where
  "is_due db now a \<longleftrightarrow> ap_active a \<and>
     (case jm_get (hd_latest db) (ap_id a) of
        None \<Rightarrow> True
      | Some l \<Rightarrow> (case hl_nextCheckAt l of None \<Rightarrow> True | Some t \<Rightarrow> t \<le> now))"

definition row_priority :: "health_db \<Rightarrow> api_row \<Rightarrow> int option" where
  "row_priority db a = map_option hl_checkPriority (jm_get (hd_latest db) (ap_id a))"

text \<open>The query: due rows in the order of their priority, those that have none first.\<close>

definition due_rows :: "health_db \<Rightarrow> time \<Rightarrow> nat \<Rightarrow> api_row list" where
  "due_rows db now limit = take limit (sort_key (row_priority db) (filter (is_due db now) (hd_apis db)))"

definition target_url :: "api_row \<Rightarrow> string option" where
  "target_url a = (case ap_baseUrl a of Some u \<Rightarrow> Some u | None \<Rightarrow> ap_docsUrl a)"

definition queue_priority :: "health_db \<Rightarrow> api_row \<Rightarrow> int" where
  "queue_priority db a =
     (case row_priority db a of
        Some p \<Rightarrow> p
      | None \<Rightarrow> computeCheckPriority (ap_popularityScore a)
          (case jm_get (hd_latest db) (ap_id a) of Some l \<Rightarrow> hl_status l | None \<Rightarrow> Unknown)
          (case jm_get (hd_latest db) (ap_id a) of Some l \<Rightarrow> hl_consecutiveFailures l | None \<Rightarrow> 0))"

definition enqueue_target :: "health_db \<Rightarrow> api_row \<Rightarrow> probe_target pqueue \<Rightarrow> probe_target pqueue" where
  "enqueue_target db a q =
     (case target_url a of
        None \<Rightarrow> q
      | Some u \<Rightarrow>
          if u = [] then q
          else pq_enqueue \<lparr>pt_apiId = ap_id a, pt_slug = ap_slug a, pt_url = u\<rparr> (of_int (queue_priority db a)) q)"

definition selectDueTargets :: "health_db \<Rightarrow> nat \<Rightarrow> time \<Rightarrow> probe_target list" where
  "selectDueTargets db limit now =
     fst (pq_dequeue_batch limit (fold (enqueue_target db) (due_rows db now limit) pq_empty))"

section \<open>Recording one probe\<close>

text \<open>The statement a running call waits on.\<close>

datatype probe_pc = ReadLatest | InsertCheck | ReadUptime | ReadWeek | CountIncidents | UpsertLatest
  | OpenIncident | FindIncident | ResolveIncident string time | Recorded

datatype health_event =
    IncidentOpened string string "string option"
  | IncidentResolved string string int
  | HealthChecked string health_status health_status "rat option"

record probe_job =
  pj_target :: probe_target
  pj_result :: probe_result
  pj_observed :: health_status
  pj_pc :: probe_pc
  pj_current :: health_state
  pj_next :: transition_result
  pj_now :: time
  pj_uptimeRow :: "nat \<times> nat \<times> rat option"
  pj_weekRow :: "nat \<times> nat"
  pj_incidentCount :: nat
  pj_events :: "health_event list"

text \<open>From the result of the probe to the first statement.\<close>

definition job_begin :: "health_config \<Rightarrow> probe_target \<Rightarrow> probe_result \<Rightarrow> probe_job" where
  "job_begin cfg target result =
     (let observed = classifyProbe result (hf_degradedLatencyMs cfg) in
      \<lparr>pj_target = target, pj_result = result, pj_observed = observed, pj_pc = ReadLatest,
       pj_current = never_checked, pj_next = transition never_checked observed, pj_now = 0,
       pj_uptimeRow = (0, 0, None), pj_weekRow = (0, 0), pj_incidentCount = 0, pj_events = []\<rparr>)"

definition average :: "rat list \<Rightarrow> rat option" where
  "average vs = (if vs = [] then None else Some (sum_list vs / of_nat (length vs)))"

definition checks_since :: "health_db \<Rightarrow> string \<Rightarrow> time \<Rightarrow> health_check list" where
  "checks_since db a t = filter (\<lambda>c. hc_apiId c = a \<and> t \<le> hc_checkedAt c) (hd_checks db)"

definition successful_of :: "health_check list \<Rightarrow> nat" where
  "successful_of cs = length (filter (\<lambda>c. isSuccessful (hc_status c)) cs)"

definition rate_of :: "nat \<Rightarrow> nat \<Rightarrow> rat option" where
  "rate_of checks ok = (if 0 < checks then Some (of_nat ok / of_nat checks) else None)"

definition state_of_row :: "health_latest option \<Rightarrow> health_state" where
  "state_of_row existing =
     (case existing of
        None \<Rightarrow> never_checked
      | Some r \<Rightarrow> \<lparr>hs_status = hl_status r, hs_consecutiveFailures = hl_consecutiveFailures r,
          hs_consecutiveSuccesses = hl_consecutiveSuccesses r\<rparr>)"

text \<open>The insert with its update on conflict: the priority is not among the columns, so a new row gets
  the default of the schema and an old one keeps its own.\<close>

definition latest_of_job :: "health_config \<Rightarrow> time \<Rightarrow> probe_job \<Rightarrow> health_latest option \<Rightarrow> health_latest" where
  "latest_of_job cfg clock j old =
     (let next = pj_next j; result = pj_result j;
          (checks, ok, avgLatency) = pj_uptimeRow j;
          uptime30d = rate_of checks ok;
          successRate7d = rate_of (fst (pj_weekRow j)) (snd (pj_weekRow j));
          reliability = computeReliability
            \<lparr>ri_uptime30d = uptime30d, ri_successRate7d = successRate7d, ri_avgLatencyMs = avgLatency,
             ri_lastCheckedAt = Some (pj_now j), ri_recentIncidents = pj_incidentCount j\<rparr> clock
      in \<lparr>hl_status = hs_status next, hl_httpStatus = pr_httpStatus result, hl_latencyMs = pr_latencyMs result,
          hl_errorCode = pr_errorCode result, hl_consecutiveFailures = hs_consecutiveFailures next,
          hl_consecutiveSuccesses = hs_consecutiveSuccesses next, hl_uptime30d = uptime30d,
          hl_successRate7d = successRate7d, hl_reliabilityScore = Some (rb_score reliability),
          hl_lastCheckedAt = Some (pj_now j),
          hl_nextCheckAt = Some (clock + computeNextCheckDelay (hs_status next) (hs_consecutiveFailures next)
            (hf_scheduleIntervalMs cfg)),
          hl_checkPriority = (case old of Some r \<Rightarrow> hl_checkPriority r | None \<Rightarrow> 100),
          hl_updatedAt = pj_now j\<rparr>)"

text \<open>After the last statement: the event for a changed status.\<close>

definition job_finish :: "probe_job \<Rightarrow> probe_job" where
  "job_finish j =
     j\<lparr>pj_pc := Recorded,
       pj_events := pj_events j @
         (if tr_changed (pj_next j)
          then [HealthChecked (pt_apiId (pj_target j)) (hs_status (pj_next j)) (hs_status (pj_current j))
                  (pr_latencyMs (pj_result j))]
          else [])\<rparr>"

definition after_opening :: "probe_job \<Rightarrow> probe_job" where
  "after_opening j = (if tr_incidentResolved (pj_next j) then j\<lparr>pj_pc := FindIncident\<rparr> else job_finish j)"

definition after_upsert :: "probe_job \<Rightarrow> probe_job" where
  "after_upsert j = (if tr_incidentOpened (pj_next j) then j\<lparr>pj_pc := OpenIncident\<rparr> else after_opening j)"

definition open_incidents :: "health_db \<Rightarrow> string \<Rightarrow> incident list" where
  "open_incidents db a = filter (\<lambda>i. in_apiId i = a \<and> in_resolvedAt i = None) (hd_incidents db)"

definition resolve_incident :: "string \<Rightarrow> time \<Rightarrow> int \<Rightarrow> incident list \<Rightarrow> incident list" where
  "resolve_incident i now duration =
     map (\<lambda>r. if in_id r = i then r\<lparr>in_resolvedAt := Some now, in_durationMs := Some duration\<rparr> else r)"

text \<open>One statement of the call, at a time, with the identifier that is drawn and the row that is picked.\<close>

definition job_step ::
  "health_config \<Rightarrow> time \<Rightarrow> string \<Rightarrow> nat \<Rightarrow> probe_job \<Rightarrow> health_db \<Rightarrow> health_db \<times> probe_job"
where
  "job_step cfg clock newId pick j db =
     (let a = pt_apiId (pj_target j); next = pj_next j; result = pj_result j; now = pj_now j in
      case pj_pc j of
        ReadLatest \<Rightarrow>
          (let current = state_of_row (jm_get (hd_latest db) a) in
           (db, j\<lparr>pj_current := current, pj_next := transition current (pj_observed j), pj_now := clock,
                 pj_pc := InsertCheck\<rparr>))
      | InsertCheck \<Rightarrow>
          (db\<lparr>hd_checks := hd_checks db @
             [\<lparr>hc_id = newId, hc_apiId = a, hc_status = pj_observed j, hc_httpStatus = pr_httpStatus result,
               hc_latencyMs = pr_latencyMs result, hc_errorCode = pr_errorCode result,
               hc_responseBytes = pr_responseBytes result, hc_checkedAt = now\<rparr>]\<rparr>,
           j\<lparr>pj_pc := ReadUptime\<rparr>)
      | ReadUptime \<Rightarrow>
          (let rows = checks_since db a (clock - 30 * DAY_MS) in
           (db, j\<lparr>pj_uptimeRow := (length rows, successful_of rows, average (List.map_filter hc_latencyMs rows)),
                 pj_pc := ReadWeek\<rparr>))
      | ReadWeek \<Rightarrow>
          (let rows = checks_since db a (clock - 7 * DAY_MS) in
           (db, j\<lparr>pj_weekRow := (length rows, successful_of rows), pj_pc := CountIncidents\<rparr>))
      | CountIncidents \<Rightarrow>
          (db, j\<lparr>pj_incidentCount := length (filter (\<lambda>i. in_apiId i = a \<and> clock - 7 * DAY_MS \<le> in_startedAt i)
                  (hd_incidents db)), pj_pc := UpsertLatest\<rparr>)
      | UpsertLatest \<Rightarrow>
          (db\<lparr>hd_latest := jm_set a (latest_of_job cfg clock j (jm_get (hd_latest db) a)) (hd_latest db)\<rparr>,
           after_upsert j)
      | OpenIncident \<Rightarrow>
          (db\<lparr>hd_incidents := hd_incidents db @
             [\<lparr>in_id = newId, in_apiId = a, in_status = hs_status next, in_errorCode = pr_errorCode result,
               in_checksAffected = hs_consecutiveFailures next, in_startedAt = now, in_resolvedAt = None,
               in_durationMs = None\<rparr>]\<rparr>,
           after_opening (j\<lparr>pj_events := pj_events j @ [IncidentOpened a newId (pr_errorCode result)]\<rparr>))
      | FindIncident \<Rightarrow>
          (let rows = open_incidents db a in
           if rows = [] then (db, job_finish j)
           else let r = rows ! (pick mod length rows) in
             (db, j\<lparr>pj_pc := ResolveIncident (in_id r) (in_startedAt r)\<rparr>))
      | ResolveIncident i startedAt \<Rightarrow>
          (db\<lparr>hd_incidents := resolve_incident i now (now - startedAt) (hd_incidents db)\<rparr>,
           job_finish (j\<lparr>pj_events := pj_events j @ [IncidentResolved a i (now - startedAt)]\<rparr>))
      | Recorded \<Rightarrow> (db, j))"

text \<open>The whole call with nothing in between; its statements are numbered, the clock, the identifiers
  and the picks given per statement. Nine statements always suffice.\<close>

fun job_run ::
  "nat \<Rightarrow> health_config \<Rightarrow> (nat \<Rightarrow> time) \<Rightarrow> (nat \<Rightarrow> string) \<Rightarrow> (nat \<Rightarrow> nat) \<Rightarrow> probe_job \<Rightarrow> health_db \<Rightarrow>
     health_db \<times> probe_job"
where
  "job_run 0 cfg clocks ids picks j db = (db, j)"
| "job_run (Suc n) cfg clocks ids picks j db =
     (case job_step cfg (clocks n) (ids n) (picks n) j db of
        (db', j') \<Rightarrow> job_run n cfg clocks ids picks j' db')"

definition probeAndRecord ::
  "health_config \<Rightarrow> (nat \<Rightarrow> time) \<Rightarrow> (nat \<Rightarrow> string) \<Rightarrow> (nat \<Rightarrow> nat) \<Rightarrow> probe_target \<Rightarrow> probe_result \<Rightarrow> health_db \<Rightarrow>
     health_db \<times> probe_job"
where
  "probeAndRecord cfg clocks ids picks target result db =
     job_run 9 cfg clocks ids picks (job_begin cfg target result) db"

section \<open>Sweeps\<close>

text \<open>
  What \<open>runHealthSweep\<close> holds while it runs: the targets nobody has claimed, the calls under way by
  their API, the counters of its answer. \<open>ss_running\<close> is the lock of \<open>withLock\<close>, held while its lease lasts.
\<close>

record sweep_state =
  ss_db :: health_db
  ss_running :: bool
  ss_queue :: "probe_target list"
  ss_jobs :: "(string, probe_job) jsmap"
  ss_probed :: nat
  ss_failed :: nat
  ss_events :: "health_event list"

definition seed_latest :: "string \<Rightarrow> time \<Rightarrow> int \<Rightarrow> health_latest" where
  "seed_latest a firstCheck priority =
     \<lparr>hl_status = Unknown, hl_httpStatus = None, hl_latencyMs = None, hl_errorCode = None,
      hl_consecutiveFailures = 0, hl_consecutiveSuccesses = 0, hl_uptime30d = None, hl_successRate7d = None,
      hl_reliabilityScore = None, hl_lastCheckedAt = None, hl_nextCheckAt = Some firstCheck,
      hl_checkPriority = priority, hl_updatedAt = firstCheck\<rparr>"

text \<open>Retention: the checks before the cutoff go.\<close>

definition pruneOldChecks :: "health_config \<Rightarrow> time \<Rightarrow> health_db \<Rightarrow> health_db \<times> nat" where
  "pruneOldChecks cfg now db =
     (let cutoff = now - int (hf_retentionDays cfg) * DAY_MS;
          (old, kept) = partition (\<lambda>c. hc_checkedAt c < cutoff) (hd_checks db)
      in (db\<lparr>hd_checks := kept\<rparr>, length old))"

text \<open>The daily roll-up: one row per API that has checks in the day, from the raw rows.\<close>

definition day_checks :: "health_db \<Rightarrow> time \<Rightarrow> health_check list" where
  "day_checks db start = filter (\<lambda>c. start \<le> hc_checkedAt c \<and> hc_checkedAt c < start + DAY_MS) (hd_checks db)"

definition daily_of :: "health_db \<Rightarrow> time \<Rightarrow> time \<Rightarrow> string \<Rightarrow> health_daily" where
  "daily_of db start now a =
     (let rows = filter (\<lambda>c. hc_apiId c = a) (day_checks db start);
          latencies = List.map_filter hc_latencyMs rows
      in \<lparr>dy_totalChecks = length rows, dy_successfulChecks = successful_of rows,
          dy_uptime = (if 0 < length rows then of_nat (successful_of rows) / of_nat (length rows) else 0),
          dy_avgLatencyMs = average latencies, dy_p95LatencyMs = percentile latencies 95,
          dy_incidents = length (filter (\<lambda>i. in_apiId i = a \<and> start \<le> in_startedAt i \<and>
            in_startedAt i < start + DAY_MS) (hd_incidents db)),
          dy_updatedAt = now\<rparr>)"

text \<open>\<open>day\<close> is the text of the day and \<open>start\<close> its first instant.\<close>

definition aggregateDaily :: "string \<Rightarrow> time \<Rightarrow> time \<Rightarrow> health_db \<Rightarrow> health_db \<times> nat" where
  "aggregateDaily day start now db =
     (let ids = remdups (map hc_apiId (day_checks db start)) in
      (db\<lparr>hd_daily := fold (\<lambda>a. jm_set (a, day) (daily_of db start now a)) ids (hd_daily db)\<rparr>, length ids))"

datatype sweep_event =
    StartSweep nat time
  | Claim probe_result
  | Turn string time string nat
  | Lose string
  | EndSweep
  | Seed api_row time int
  | PruneChecks time
  | Aggregate string time time

definition sweep_idle :: "health_db \<Rightarrow> sweep_state" where
  "sweep_idle db = \<lparr>ss_db = db, ss_running = False, ss_queue = [], ss_jobs = [], ss_probed = 0, ss_failed = 0, ss_events = []\<rparr>"

text \<open>
  None where an event cannot happen: a sweep starts when none is running, workers claim targets while
  fewer than the concurrency are busy, a drawn identifier is new, an API is seeded once.
\<close>

fun sweep_step :: "health_config \<Rightarrow> sweep_event \<Rightarrow> sweep_state \<Rightarrow> sweep_state option" where
  "sweep_step cfg (StartSweep batchSize now) s =
     (if ss_running s then None
      else let targets = selectDueTargets (ss_db s) batchSize now in
        Some (s\<lparr>ss_running := True, ss_queue := targets, ss_probed := length targets, ss_failed := 0\<rparr>))"
| "sweep_step cfg (Claim result) s =
     (case ss_queue s of
        [] \<Rightarrow> None
      | t # ts \<Rightarrow>
          if length (ss_jobs s) < hf_probeConcurrency cfg
          then Some (s\<lparr>ss_queue := ts, ss_jobs := jm_set (pt_apiId t) (job_begin cfg t result) (ss_jobs s)\<rparr>)
          else None)"
| "sweep_step cfg (Turn a clock newId pick) s =
     (case jm_get (ss_jobs s) a of
        None \<Rightarrow> None
      | Some j \<Rightarrow>
          if newId \<in> in_id ` set (hd_incidents (ss_db s)) then None
          else (case job_step cfg clock newId pick j (ss_db s) of
                  (db, j') \<Rightarrow>
                    if pj_pc j' = Recorded
                    then Some (s\<lparr>ss_db := db, ss_jobs := jm_delete a (ss_jobs s), ss_events := ss_events s @ pj_events j'\<rparr>)
                    else Some (s\<lparr>ss_db := db, ss_jobs := jm_set a j' (ss_jobs s)\<rparr>)))"
| "sweep_step cfg (Lose a) s =
     (case jm_get (ss_jobs s) a of
        None \<Rightarrow> None
      | Some j \<Rightarrow> Some (s\<lparr>ss_jobs := jm_delete a (ss_jobs s), ss_failed := ss_failed s + 1,
                        ss_events := ss_events s @ pj_events j\<rparr>))"
| "sweep_step cfg EndSweep s =
     (if ss_running s \<and> ss_queue s = [] \<and> ss_jobs s = [] then Some (s\<lparr>ss_running := False\<rparr>) else None)"
| "sweep_step cfg (Seed row firstCheck priority) s =
     (if ap_id row \<in> ap_id ` set (hd_apis (ss_db s)) \<or> jm_get (hd_latest (ss_db s)) (ap_id row) \<noteq> None then None
      else Some (s\<lparr>ss_db := (ss_db s)\<lparr>hd_apis := hd_apis (ss_db s) @ [row],
             hd_latest := jm_set (ap_id row) (seed_latest (ap_id row) firstCheck priority) (hd_latest (ss_db s))\<rparr>\<rparr>))"
| "sweep_step cfg (PruneChecks now) s = Some (s\<lparr>ss_db := fst (pruneOldChecks cfg now (ss_db s))\<rparr>)"
| "sweep_step cfg (Aggregate day start now) s = Some (s\<lparr>ss_db := fst (aggregateDaily day start now (ss_db s))\<rparr>)"

text \<open>A call is torn when it is lost between the row of the latest status and its incident.\<close>

definition tears :: "sweep_state \<Rightarrow> sweep_event \<Rightarrow> bool" where
  "tears s e =
     (case e of
        Lose a \<Rightarrow>
          (case jm_get (ss_jobs s) a of
             None \<Rightarrow> False
           | Some j \<Rightarrow> (case pj_pc j of OpenIncident \<Rightarrow> True | FindIncident \<Rightarrow> True | ResolveIncident _ _ \<Rightarrow> True | _ \<Rightarrow> False))
      | _ \<Rightarrow> False)"

definition no_rows :: health_db where
  "no_rows = \<lparr>hd_apis = [], hd_checks = [], hd_latest = [], hd_incidents = [], hd_daily = []\<rparr>"

text \<open>States the sweeps reach from empty tables without tearing a call, with the events so far.\<close>

inductive sweeps :: "health_config \<Rightarrow> sweep_event list \<Rightarrow> sweep_state \<Rightarrow> bool" for cfg where
  sweeps_new: "sweeps cfg [] (sweep_idle no_rows)"
| sweeps_step: "sweeps cfg (es @ [e]) s'"
    if "sweeps cfg es s" and "\<not> tears s e" and "sweep_step cfg e s = Some s'"

end
