(* ===== verification/HealthIncidents.thy ===== *)
theory HealthIncidents
  imports HealthJobs
begin

text \<open>
  What the sweeps of \<open>HealthJobs\<close> keep, in every interleaving of their calls: for each API, the row of
  the latest status is the reading of its recorded checks, and there is one open incident exactly while
  that status is down.
\<close>

section \<open>The rows of one API\<close>

definition row_state :: "health_db \<Rightarrow> string \<Rightarrow> health_state" where
  "row_state db a = state_of_row (jm_get (hd_latest db) a)"

definition statuses :: "health_db \<Rightarrow> string \<Rightarrow> health_status list" where
  "statuses db a = map hc_status (filter (\<lambda>c. hc_apiId c = a) (hd_checks db))"

definition open_ids :: "health_db \<Rightarrow> string \<Rightarrow> string list" where
  "open_ids db a = map in_id (open_incidents db a)"

definition history_ok :: "bool \<Rightarrow> health_db \<Rightarrow> string \<Rightarrow> bool" where
  "history_ok pruned db a \<longleftrightarrow> pruned \<or> row_state db a = state_of (rev (statuses db a))"

definition counted :: "health_db \<Rightarrow> string \<Rightarrow> bool" where
  "counted db a \<longleftrightarrow> length (open_ids db a) = (if hs_status (row_state db a) = Down then 1 else 0)"

definition computed :: "health_db \<Rightarrow> string \<Rightarrow> probe_job \<Rightarrow> bool" where
  "computed db a j \<longleftrightarrow> pj_current j = row_state db a \<and> pj_next j = transition (pj_current j) (pj_observed j)"

text \<open>The check is in its table and the row of the status is still the old one.\<close>

definition recorded :: "bool \<Rightarrow> health_db \<Rightarrow> string \<Rightarrow> probe_job \<Rightarrow> bool" where
  "recorded pruned db a j \<longleftrightarrow>
     pruned \<or> (\<exists>h. statuses db a = h @ [pj_observed j] \<and> row_state db a = state_of (rev h))"

definition call_ok :: "bool \<Rightarrow> health_db \<Rightarrow> string \<Rightarrow> probe_job \<Rightarrow> bool" where
  "call_ok pruned db a j \<longleftrightarrow> pt_apiId (pj_target j) = a \<and>
     (case pj_pc j of
        ReadLatest \<Rightarrow> counted db a \<and> history_ok pruned db a
      | InsertCheck \<Rightarrow> counted db a \<and> history_ok pruned db a \<and> computed db a j
      | OpenIncident \<Rightarrow> history_ok pruned db a \<and> hs_status (row_state db a) = Down \<and> open_ids db a = [] \<and>
          \<not> tr_incidentResolved (pj_next j)
      | FindIncident \<Rightarrow> history_ok pruned db a \<and> hs_status (row_state db a) \<noteq> Down \<and> length (open_ids db a) = 1
      | ResolveIncident i t \<Rightarrow> history_ok pruned db a \<and> hs_status (row_state db a) \<noteq> Down \<and> open_ids db a = [i]
      | Recorded \<Rightarrow> False
      | _ \<Rightarrow> counted db a \<and> recorded pruned db a j \<and> computed db a j)"

definition settled :: "bool \<Rightarrow> health_db \<Rightarrow> string \<Rightarrow> bool" where
  "settled pruned db a \<longleftrightarrow> counted db a \<and> history_ok pruned db a"

definition api_ok :: "bool \<Rightarrow> health_db \<Rightarrow> string \<Rightarrow> probe_job option \<Rightarrow> bool" where
  "api_ok pruned db a call = (case call of None \<Rightarrow> settled pruned db a | Some j \<Rightarrow> call_ok pruned db a j)"

lemmas api_defs = row_state_def statuses_def open_ids_def open_incidents_def

text \<open>All of it is read off three projections.\<close>

lemma api_ok_cong:
  assumes "row_state db' a = row_state db a" and "open_ids db' a = open_ids db a"
    and "statuses db' a = statuses db a \<or> pruned"
  shows "api_ok pruned db' a call \<longleftrightarrow> api_ok pruned db a call"
proof -
  have "counted db' a = counted db a" "history_ok pruned db' a = history_ok pruned db a"
    "recorded pruned db' a j = recorded pruned db a j" "computed db' a j = computed db a j" for j
    using assms by (cases pruned; simp add: counted_def history_ok_def recorded_def computed_def)+
  then show ?thesis
    unfolding api_ok_def settled_def call_ok_def assms(1,2) by (simp split: option.split probe_pc.split)
qed

lemma api_ok_weaken: "api_ok pruned db a call \<Longrightarrow> api_ok True db a call"
  by (auto simp: api_ok_def settled_def call_ok_def history_ok_def recorded_def split: option.splits probe_pc.splits)

section \<open>One statement\<close>

lemma row_after_upsert: "state_of_row (Some (latest_of_job cfg clock j old)) = health_state.truncate (pj_next j)"
  by (simp add: state_of_row_def latest_of_job_def Let_def health_state.truncate_def split_beta)

lemma finish_simps [simp]:
  "pj_pc (job_finish j) = Recorded" "pj_target (job_finish j) = pj_target j" "pj_next (job_finish j) = pj_next j"
  by (simp_all add: job_finish_def)

lemma resolve_keeps [simp]: "map in_id (resolve_incident i now d rows) = map in_id rows"
  by (simp add: resolve_incident_def)

lemma open_after_resolve:
  "filter (\<lambda>r. in_apiId r = a \<and> in_resolvedAt r = None) (resolve_incident i now d rows) =
   filter (\<lambda>r. in_id r \<noteq> i) (filter (\<lambda>r. in_apiId r = a \<and> in_resolvedAt r = None) rows)"
  by (induction rows) (auto simp: resolve_incident_def)

text \<open>A statement of one API's call leaves the rows of the others alone, the resolution because the
  incident it found is its own.\<close>

lemma job_step_frame:
  assumes "job_step cfg clock newId pick j db = (db', j')" and "b \<noteq> pt_apiId (pj_target j)"
    and "\<And>i t. pj_pc j = ResolveIncident i t \<Longrightarrow> i \<notin> set (open_ids db b)"
  shows "row_state db' b = row_state db b \<and> open_ids db' b = open_ids db b \<and> statuses db' b = statuses db b"
proof (cases "pj_pc j")
  case (ResolveIncident i t)
  then have "i \<notin> set (open_ids db b)" by (rule assms(3))
  then have "filter (\<lambda>r. in_id r \<noteq> i) (open_incidents db b) = open_incidents db b"
    by (auto simp: open_ids_def filter_id_conv)
  then show ?thesis
    using assms(1) ResolveIncident open_after_resolve [of b i "pj_now j" "pj_now j - t" "hd_incidents db"]
    by (auto simp: job_step_def Let_def api_defs)
qed (use assms(1,2) in \<open>auto simp: job_step_def Let_def api_defs jm_get_set split: if_splits\<close>)

lemma job_step_target: "job_step cfg clock newId pick j db = (db', j') \<Longrightarrow> pj_target j' = pj_target j"
  by (auto simp: job_step_def Let_def after_upsert_def after_opening_def split: probe_pc.splits if_splits)

lemma truncate_status: "hs_status (health_state.truncate t) = hs_status t"
  by (simp add: health_state.truncate_def)

lemma after_upsert_ok:
  assumes "tr_incidentOpened (pj_next j) \<Longrightarrow> pj_pc j' = OpenIncident \<Longrightarrow> P"
    and "\<not> tr_incidentOpened (pj_next j) \<Longrightarrow> tr_incidentResolved (pj_next j) \<Longrightarrow> pj_pc j' = FindIncident \<Longrightarrow> P"
    and "\<not> tr_incidentOpened (pj_next j) \<Longrightarrow> \<not> tr_incidentResolved (pj_next j) \<Longrightarrow> pj_pc j' = Recorded \<Longrightarrow> P"
    and "j' = after_upsert j"
  shows P
  using assms by (auto simp: after_upsert_def after_opening_def split: if_splits)

text \<open>What the upsert does to the call and the row of its API.\<close>

lemma upsert_ok:
  assumes ok: "call_ok pruned db a j" and pc: "pj_pc j = UpsertLatest"
    and db': "db' = db\<lparr>hd_latest := jm_set a (latest_of_job cfg clock j (jm_get (hd_latest db) a)) (hd_latest db)\<rparr>"
  shows "api_ok pruned db' a (if pj_pc (after_upsert j) = Recorded then None else Some (after_upsert j))"
proof -
  have c: "counted db a" "recorded pruned db a j" "computed db a j" and t: "pt_apiId (pj_target j) = a"
    using ok pc by (simp_all add: call_ok_def)
  have row: "row_state db' a = health_state.truncate (pj_next j)"
    using row_after_upsert by (simp add: row_state_def db' jm_get_set)
  have keep: "open_ids db' a = open_ids db a" "statuses db' a = statuses db a"
    by (simp_all add: db' api_defs)
  have nx: "pj_next j = transition (row_state db a) (pj_observed j)" using c(3) by (simp add: computed_def)
  have h: "history_ok pruned db' a"
    using c(2) by (auto simp: recorded_def history_ok_def row keep nx transition_state_of)
  have st: "hs_status (row_state db' a) = hs_status (pj_next j)" by (simp only: row truncate_status)
  have n: "length (open_ids db' a) = (if hs_status (row_state db a) = Down then 1 else 0)"
    using c(1) by (simp add: counted_def keep)
  have tgt: "pj_target (after_upsert j) = pj_target j" "pj_next (after_upsert j) = pj_next j"
    by (simp_all add: after_upsert_def after_opening_def)
  note tr = transition_incident [of "row_state db a" "pj_observed j", folded nx]
  show ?thesis
  proof (rule after_upsert_ok [of j "after_upsert j"])
    assume "tr_incidentOpened (pj_next j)" and p: "pj_pc (after_upsert j) = OpenIncident"
    then have "hs_status (row_state db a) \<noteq> Down" "hs_status (pj_next j) = Down" "\<not> tr_incidentResolved (pj_next j)"
      using tr by blast+
    then show ?thesis using p h n st t tgt by (simp add: api_ok_def call_ok_def)
  next
    assume "tr_incidentResolved (pj_next j)" and p: "pj_pc (after_upsert j) = FindIncident"
    then have "hs_status (row_state db a) = Down" "hs_status (pj_next j) \<noteq> Down" using tr by blast+
    then show ?thesis using p h n st t tgt by (simp add: api_ok_def call_ok_def)
  next
    assume "\<not> tr_incidentOpened (pj_next j)" "\<not> tr_incidentResolved (pj_next j)"
      and p: "pj_pc (after_upsert j) = Recorded"
    then have "hs_status (row_state db a) = Down \<longleftrightarrow> hs_status (pj_next j) = Down" using tr by blast
    then show ?thesis using p h n st by (simp add: api_ok_def settled_def counted_def)
  qed simp
qed

lemma job_step_ok:
  assumes ok: "call_ok pruned db a j" and st: "job_step cfg clock newId pick j db = (db', j')"
  shows "api_ok pruned db' a (if pj_pc j' = Recorded then None else Some j')"
proof -
  have t: "pt_apiId (pj_target j) = a" using ok by (simp add: call_ok_def)
  have t': "pt_apiId (pj_target j') = a" using t job_step_target [OF st] by simp
  show ?thesis
  proof (cases "pj_pc j")
    case ReadLatest
    then show ?thesis
      using ok st t by (auto simp: job_step_def Let_def api_ok_def call_ok_def computed_def row_state_def)
  next
    case InsertCheck
    have "row_state db' a = row_state db a" "open_ids db' a = open_ids db a"
      "statuses db' a = statuses db a @ [pj_observed j]" "j' = j\<lparr>pj_pc := ReadUptime\<rparr>"
      using InsertCheck st t by (auto simp: job_step_def Let_def api_defs)
    then show ?thesis
      using ok InsertCheck by (auto simp: api_ok_def call_ok_def counted_def computed_def history_ok_def recorded_def)
  next
    case ReadUptime
    then show ?thesis
      using ok st t by (auto simp: job_step_def Let_def api_ok_def call_ok_def computed_def recorded_def)
  next
    case ReadWeek
    then show ?thesis
      using ok st t by (auto simp: job_step_def Let_def api_ok_def call_ok_def computed_def recorded_def)
  next
    case CountIncidents
    then show ?thesis
      using ok st t by (auto simp: job_step_def Let_def api_ok_def call_ok_def computed_def recorded_def)
  next
    case UpsertLatest
    then show ?thesis using upsert_ok [OF ok UpsertLatest] st t by (auto simp: job_step_def Let_def)
  next
    case OpenIncident
    have n: "\<not> tr_incidentResolved (pj_next j)" "open_ids db a = []" "hs_status (row_state db a) = Down"
      "history_ok pruned db a"
      using ok OpenIncident by (simp_all add: call_ok_def)
    then have "pj_pc j' = Recorded" using OpenIncident st by (auto simp: job_step_def Let_def after_opening_def)
    moreover have "row_state db' a = row_state db a" "statuses db' a = statuses db a" "open_ids db' a = open_ids db a @ [newId]"
      using OpenIncident st t by (auto simp: job_step_def Let_def api_defs)
    ultimately show ?thesis using n by (simp add: api_ok_def settled_def counted_def history_ok_def)
  next
    case FindIncident
    then have "length (open_incidents db a) = 1" using ok by (simp add: call_ok_def open_ids_def)
    then obtain r where r: "open_incidents db a = [r]" by (auto simp: length_Suc_conv)
    then show ?thesis
      using ok FindIncident st t by (auto simp: job_step_def Let_def api_ok_def call_ok_def open_ids_def)
  next
    case (ResolveIncident i u)
    have "open_ids db a = [i]" "hs_status (row_state db a) \<noteq> Down" "history_ok pruned db a"
      using ok ResolveIncident by (simp_all add: call_ok_def)
    moreover have "row_state db' a = row_state db a" "statuses db' a = statuses db a" "pj_pc j' = Recorded"
      using ResolveIncident st t by (auto simp: job_step_def Let_def api_defs)
    moreover have "open_ids db' a = filter (\<lambda>x. x \<noteq> i) (open_ids db a)"
      using ResolveIncident st t open_after_resolve [of a i "pj_now j" "pj_now j - u" "hd_incidents db"]
      by (auto simp: job_step_def Let_def open_ids_def open_incidents_def filter_map comp_def)
    ultimately show ?thesis by (simp add: api_ok_def settled_def counted_def history_ok_def)
  next
    case Recorded
    then show ?thesis using ok by (simp add: call_ok_def)
  qed
qed

lemma job_step_incident_ids:
  assumes "job_step cfg clock newId pick j db = (db', j')"
    and "newId \<notin> in_id ` set (hd_incidents db)" and "distinct (map in_id (hd_incidents db))"
  shows "distinct (map in_id (hd_incidents db'))"
  using assms by (auto simp: job_step_def Let_def split: probe_pc.splits if_splits)

lemma job_step_apis: "job_step cfg clock newId pick j db = (db', j') \<Longrightarrow> hd_apis db' = hd_apis db"
  by (auto simp: job_step_def Let_def split: probe_pc.splits if_splits)

section \<open>What a sweep is given\<close>

definition due_pairs :: "health_db \<Rightarrow> api_row list \<Rightarrow> (probe_target \<times> rat) list" where
  "due_pairs db rows =
     map (\<lambda>a. (\<lparr>pt_apiId = ap_id a, pt_slug = ap_slug a, pt_url = the (target_url a)\<rparr>, of_int (queue_priority db a)))
       (filter (\<lambda>a. target_url a \<noteq> None \<and> target_url a \<noteq> Some []) rows)"

lemma fold_enqueue_targets:
  "fold (enqueue_target db) rows q = fold (\<lambda>(v, p). pq_enqueue v p) (due_pairs db rows) q"
  by (induction rows arbitrary: q) (auto simp: enqueue_target_def due_pairs_def split: option.split)

lemma selectDueTargets_sorted:
  "selectDueTargets db limit now = map fst (sort_key snd (due_pairs db (due_rows db now limit)))"
proof -
  let ?ps = "due_pairs db (due_rows db now limit)"
  have "length ?ps \<le> length (due_rows db now limit)" by (simp add: due_pairs_def)
  also have "\<dots> \<le> limit" by (simp add: due_rows_def)
  finally have "take limit (sort_key snd ?ps) = sort_key snd ?ps" by simp
  then show ?thesis
    unfolding selectDueTargets_def fold_enqueue_targets
    using pq_dequeue_batch_contents [OF pq.invar_enqueue_all, of limit ?ps] pq.contents_enqueue_all [of ?ps]
    by (simp add: pq.enqueue_all_def)
qed

lemma selectDueTargets_rows:
  "mset (map pt_apiId (selectDueTargets db limit now)) \<subseteq># mset (map ap_id (hd_apis db))"
proof -
  have "mset (map pt_apiId (selectDueTargets db limit now)) =
      mset (map ap_id (filter (\<lambda>a. target_url a \<noteq> None \<and> target_url a \<noteq> Some []) (due_rows db now limit)))"
    by (simp add: selectDueTargets_sorted due_pairs_def image_mset.compositionality comp_def)
  also have "\<dots> \<subseteq># mset (map ap_id (due_rows db now limit))" by (simp add: image_mset_subseteq_mono multiset_filter_subset)
  also have "\<dots> \<subseteq># mset (map ap_id (sort_key (row_priority db) (filter (is_due db now) (hd_apis db))))"
    unfolding due_rows_def by (metis append_take_drop_id map_append mset_append mset_subset_eq_add_left)
  also have "\<dots> \<subseteq># mset (map ap_id (hd_apis db))" by (simp add: image_mset_subseteq_mono multiset_filter_subset)
  finally show ?thesis .
qed

lemma distinct_sub: "mset xs \<subseteq># mset ys \<Longrightarrow> distinct ys \<Longrightarrow> distinct xs"
  by (metis distinct_append mset_append mset_eq_imp_distinct_iff mset_subset_eq_exists_conv ex_mset)

section \<open>The system\<close>

text \<open>Retention and a lost call leave the checks and the row of the status apart.\<close>

definition drops :: "sweep_event \<Rightarrow> bool" where
  "drops e = (case e of PruneChecks _ \<Rightarrow> True | Lose _ \<Rightarrow> True | _ \<Rightarrow> False)"

definition sweep_inv :: "bool \<Rightarrow> sweep_state \<Rightarrow> bool" where
  "sweep_inv pruned s \<longleftrightarrow>
     distinct (map ap_id (hd_apis (ss_db s))) \<and> distinct (map in_id (hd_incidents (ss_db s))) \<and>
     distinct (map pt_apiId (ss_queue s) @ jm_keys (ss_jobs s)) \<and>
     (\<not> ss_running s \<longrightarrow> ss_queue s = [] \<and> ss_jobs s = []) \<and>
     (\<forall>a. api_ok pruned (ss_db s) a (jm_get (ss_jobs s) a))"

lemma in_jobs: "jm_get m a = Some j \<Longrightarrow> a \<in> set (map fst m)"
  using map_of_SomeD by force

lemma keys_kept:
  assumes "distinct (qs @ jm_keys m)" and "jm_get m a = Some v"
  shows "distinct (qs @ jm_keys (jm_set a w m))" and "distinct (qs @ jm_keys (jm_delete a m))"
proof -
  have "jm_keys (jm_set a w m) = jm_keys m" using in_jobs [OF assms(2)] by (simp only: update_keys if_True)
  then show "distinct (qs @ jm_keys (jm_set a w m))" using assms(1) by (simp only:)
  have "distinct (qs @ removeAll a (jm_keys m))" using assms(1) by (auto simp: distinct_removeAll)
  then show "distinct (qs @ jm_keys (jm_delete a m))" by (simp only: delete_keys)
qed

lemma sweep_inv_weaken: "sweep_inv pruned s \<Longrightarrow> sweep_inv True s"
  unfolding sweep_inv_def using api_ok_weaken by blast

text \<open>Changes of the tables that no API sees.\<close>

lemma sweep_inv_db:
  assumes "sweep_inv pruned s" and "hd_incidents db = hd_incidents (ss_db s)"
    and "distinct (map ap_id (hd_apis db))"
    and "\<And>a. row_state db a = row_state (ss_db s) a"
    and "\<And>a. statuses db a = statuses (ss_db s) a \<or> pruned"
  shows "sweep_inv pruned (s\<lparr>ss_db := db\<rparr>)"
proof -
  have "open_ids db a = open_ids (ss_db s) a" for a using assms(2) by (simp add: open_ids_def open_incidents_def)
  then have "api_ok pruned db a call = api_ok pruned (ss_db s) a call" for a call
    by (rule api_ok_cong [OF assms(4) _ assms(5)])
  then show ?thesis using assms(1,2,3) by (simp add: sweep_inv_def)
qed

lemma turn_inv:
  assumes inv: "sweep_inv pruned s" and j: "jm_get (ss_jobs s) a = Some j"
    and fresh: "newId \<notin> in_id ` set (hd_incidents (ss_db s))"
    and st: "job_step cfg clock newId pick j (ss_db s) = (db', j')"
    and jobs: "jobs = (if pj_pc j' = Recorded then jm_delete a (ss_jobs s) else jm_set a j' (ss_jobs s))"
  shows "sweep_inv pruned (s\<lparr>ss_db := db', ss_jobs := jobs, ss_events := evs\<rparr>)"
proof -
  have call: "call_ok pruned (ss_db s) a j" using inv j by (auto simp: sweep_inv_def api_ok_def dest: spec [of _ a])
  then have t: "pt_apiId (pj_target j) = a" by (simp add: call_ok_def)
  have dist: "distinct (map in_id (hd_incidents (ss_db s)))" using inv by (simp add: sweep_inv_def)
  have keys: "distinct (map pt_apiId (ss_queue s) @ jm_keys jobs)"
  proof -
    have "distinct (map pt_apiId (ss_queue s) @ jm_keys (ss_jobs s))" using inv unfolding sweep_inv_def by blast
    from keys_kept [OF this j] show ?thesis unfolding jobs by simp
  qed
  have got: "jm_get jobs b = (if b = a then (if pj_pc j' = Recorded then None else Some j') else jm_get (ss_jobs s) b)" for b
    by (simp add: jobs js_map)
  have "api_ok pruned db' b (jm_get jobs b)" for b
  proof (cases "b = a")
    case True
    then show ?thesis using job_step_ok [OF call st] by (simp add: got)
  next
    case False
    have "i \<notin> set (open_ids (ss_db s) b)" if "pj_pc j = ResolveIncident i u" for i u
    proof -
      have "i \<in> set (open_ids (ss_db s) a)" using call that by (simp add: call_ok_def)
      then show ?thesis using dist False
        by (auto simp: open_ids_def open_incidents_def distinct_map inj_on_def)
    qed
    then have "row_state db' b = row_state (ss_db s) b \<and> open_ids db' b = open_ids (ss_db s) b \<and>
        statuses db' b = statuses (ss_db s) b"
      using job_step_frame [OF st] False t by blast
    then have "api_ok pruned db' b call = api_ok pruned (ss_db s) b call" for call
      by (intro api_ok_cong) simp_all
    then show ?thesis using inv False by (simp add: got sweep_inv_def)
  qed
  then show ?thesis
    using inv keys job_step_apis [OF st] job_step_incident_ids [OF st fresh dist] in_jobs [OF j]
    by (auto simp: sweep_inv_def)
qed

lemma sweep_inv_step:
  assumes inv: "sweep_inv pruned s" and tear: "\<not> tears s e" and st: "sweep_step cfg e s = Some s'"
  shows "sweep_inv (pruned \<or> drops e) s'"
proof (cases e)
  case (StartSweep batchSize now)
  then have s': "\<not> ss_running s" "s' = s\<lparr>ss_running := True, ss_queue := selectDueTargets (ss_db s) batchSize now,
      ss_probed := length (selectDueTargets (ss_db s) batchSize now), ss_failed := 0\<rparr>"
    using st by (auto simp: Let_def split: if_splits)
  moreover have "distinct (map pt_apiId (selectDueTargets (ss_db s) batchSize now))"
    using distinct_sub [OF selectDueTargets_rows] inv by (simp add: sweep_inv_def)
  moreover have "ss_jobs s = []" using inv s'(1) by (simp add: sweep_inv_def)
  ultimately show ?thesis using inv StartSweep by (simp add: sweep_inv_def drops_def)
next
  case (Claim result)
  then obtain t ts where q: "ss_queue s = t # ts"
    and s': "s' = s\<lparr>ss_queue := ts, ss_jobs := jm_set (pt_apiId t) (job_begin cfg t result) (ss_jobs s)\<rparr>"
    using st by (auto split: list.splits if_splits)
  have new: "jm_get (ss_jobs s) (pt_apiId t) = None"
    using inv q in_jobs [of "ss_jobs s" "pt_apiId t"] by (cases "jm_get (ss_jobs s) (pt_apiId t)") (auto simp: sweep_inv_def)
  have "api_ok pruned (ss_db s) (pt_apiId t) None" using inv new by (metis sweep_inv_def)
  then have "api_ok pruned (ss_db s) (pt_apiId t) (Some (job_begin cfg t result))"
    by (simp add: api_ok_def settled_def call_ok_def job_begin_def Let_def)
  then have "api_ok pruned (ss_db s) a (jm_get (jm_set (pt_apiId t) (job_begin cfg t result) (ss_jobs s)) a)" for a
    using inv by (simp add: jm_get_set sweep_inv_def)
  then show ?thesis
    using inv q Claim new by (auto simp: sweep_inv_def s' drops_def jm_set_new)
next
  case (Turn a clock newId pick)
  then obtain j db' j' where j: "jm_get (ss_jobs s) a = Some j" "newId \<notin> in_id ` set (hd_incidents (ss_db s))"
    "job_step cfg clock newId pick j (ss_db s) = (db', j')"
    using st by (auto split: option.splits if_splits prod.splits)
  have "s' = s\<lparr>ss_db := db', ss_jobs := (if pj_pc j' = Recorded then jm_delete a (ss_jobs s) else jm_set a j' (ss_jobs s)),
      ss_events := (if pj_pc j' = Recorded then ss_events s @ pj_events j' else ss_events s)\<rparr>"
    using st j Turn by (auto split: if_splits)
  then show ?thesis using turn_inv [OF inv j(1,2,3) refl] Turn by (simp add: drops_def)
next
  case (Lose a)
  then obtain j where j: "jm_get (ss_jobs s) a = Some j"
    and s': "s' = s\<lparr>ss_jobs := jm_delete a (ss_jobs s), ss_failed := ss_failed s + 1, ss_events := ss_events s @ pj_events j\<rparr>"
    using st by (auto split: option.splits)
  have "call_ok True (ss_db s) a j"
    using sweep_inv_weaken [OF inv] j by (auto simp: sweep_inv_def api_ok_def dest: spec [of _ a])
  then have "api_ok True (ss_db s) a None"
    using tear j Lose by (cases "pj_pc j") (auto simp: api_ok_def call_ok_def settled_def tears_def history_ok_def)
  then have all: "\<forall>b. api_ok True (ss_db s) b (jm_get (jm_delete a (ss_jobs s)) b)"
    using sweep_inv_weaken [OF inv] by (simp add: jm_get_delete sweep_inv_def)
  have d: "distinct (map pt_apiId (ss_queue s) @ jm_keys (ss_jobs s))" using inv unfolding sweep_inv_def by blast
  have "ss_jobs s \<noteq> []" using j by auto
  then have run: "ss_running s" using inv unfolding sweep_inv_def by blast
  have rows: "distinct (map ap_id (hd_apis (ss_db s)))" "distinct (map in_id (hd_incidents (ss_db s)))"
    using inv unfolding sweep_inv_def by blast+
  have e: "ss_db s' = ss_db s" "ss_queue s' = ss_queue s" "ss_running s' = ss_running s" "ss_jobs s' = jm_delete a (ss_jobs s)"
    by (simp_all add: s')
  have "sweep_inv True s'"
    unfolding sweep_inv_def e by (intro conjI rows all keys_kept(2) [OF d j]) (simp add: run)
  then show ?thesis using Lose by (simp add: drops_def)
next
  case EndSweep
  then have s': "s' = s\<lparr>ss_running := False\<rparr>" and e: "ss_queue s = []" "ss_jobs s = []"
    using st by (simp_all split: if_splits)
  then show ?thesis using inv EndSweep by (simp add: sweep_inv_def drops_def)
next
  case (Seed row firstCheck priority)
  define db where "db = (ss_db s)\<lparr>hd_apis := hd_apis (ss_db s) @ [row],
    hd_latest := jm_set (ap_id row) (seed_latest (ap_id row) firstCheck priority) (hd_latest (ss_db s))\<rparr>"
  have s': "s' = s\<lparr>ss_db := db\<rparr>" "ap_id row \<notin> ap_id ` set (hd_apis (ss_db s))"
    "jm_get (hd_latest (ss_db s)) (ap_id row) = None"
    using st Seed by (auto simp: db_def split: if_splits)
  have "sweep_inv pruned (s\<lparr>ss_db := db\<rparr>)"
  proof (rule sweep_inv_db [OF inv])
    show "row_state db a = row_state (ss_db s) a" for a
      using s'(3) by (simp add: row_state_def db_def jm_get_set state_of_row_def seed_latest_def never_checked_def)
  qed (use inv s'(2) in \<open>simp_all add: db_def sweep_inv_def statuses_def\<close>)
  then show ?thesis using Seed by (simp add: s' drops_def)
next
  case (PruneChecks now)
  then have s': "s' = s\<lparr>ss_db := fst (pruneOldChecks cfg now (ss_db s))\<rparr>" using st by simp
  have "sweep_inv True (s\<lparr>ss_db := fst (pruneOldChecks cfg now (ss_db s))\<rparr>)"
    by (rule sweep_inv_db [OF sweep_inv_weaken [OF inv]])
      (use inv in \<open>simp_all add: pruneOldChecks_def Let_def row_state_def sweep_inv_def\<close>)
  then show ?thesis using PruneChecks by (simp add: s' drops_def)
next
  case (Aggregate day start now)
  then have s': "s' = s\<lparr>ss_db := fst (aggregateDaily day start now (ss_db s))\<rparr>" using st by simp
  have "sweep_inv pruned (s\<lparr>ss_db := fst (aggregateDaily day start now (ss_db s))\<rparr>)"
    by (rule sweep_inv_db [OF inv])
      (use inv in \<open>simp_all add: aggregateDaily_def Let_def row_state_def statuses_def sweep_inv_def\<close>)
  then show ?thesis using Aggregate by (simp add: s' drops_def)
qed

lemma sweeps_inv: "sweeps cfg es s \<Longrightarrow> sweep_inv (list_ex drops es) s"
proof (induction rule: sweeps.induct)
  case sweeps_new
  have "api_ok False no_rows a None" for a
    by (simp add: api_ok_def settled_def counted_def history_ok_def api_defs no_rows_def state_of_row_def
        never_checked_def state_of_Nil)
  then show ?case by (simp add: sweep_inv_def sweep_idle_def) (simp add: no_rows_def)
next
  case (sweeps_step es s e s')
  then show ?case using sweep_inv_step [of "list_ex drops es" s e cfg s'] by simp
qed

text \<open>At most as many calls as the concurrency, never two for one API.\<close>

lemma sweep_step_busy:
  "sweep_step cfg e s = Some s' \<Longrightarrow> length (ss_jobs s) \<le> hf_probeConcurrency cfg \<Longrightarrow>
   length (ss_jobs s') \<le> hf_probeConcurrency cfg"
  by (cases e) (auto simp: Let_def length_jm_set length_delete_le [THEN order_trans]
      split: if_splits option.splits list.splits prod.splits)

lemma sweeps_exclusive:
  assumes "sweeps cfg es s"
  shows "distinct (map pt_apiId (ss_queue s) @ jm_keys (ss_jobs s)) \<and> length (ss_jobs s) \<le> hf_probeConcurrency cfg"
proof -
  have "length (ss_jobs s) \<le> hf_probeConcurrency cfg"
    using assms by (induction rule: sweeps.induct) (auto simp: sweep_idle_def intro: sweep_step_busy)
  then show ?thesis using sweeps_inv [OF assms] unfolding sweep_inv_def by blast
qed

section \<open>Every call ends\<close>

definition statements_left :: "probe_pc \<Rightarrow> nat" where
  "statements_left p = (case p of ReadLatest \<Rightarrow> 9 | InsertCheck \<Rightarrow> 8 | ReadUptime \<Rightarrow> 7 | ReadWeek \<Rightarrow> 6 | CountIncidents \<Rightarrow> 5
     | UpsertLatest \<Rightarrow> 4 | OpenIncident \<Rightarrow> 3 | FindIncident \<Rightarrow> 2 | ResolveIncident _ _ \<Rightarrow> 1 | Recorded \<Rightarrow> 0)"

lemma job_step_progress:
  "job_step cfg clock newId pick j db = (db', j') \<Longrightarrow> statements_left (pj_pc j') \<le> statements_left (pj_pc j) - 1"
  by (cases "pj_pc j") (auto simp: job_step_def Let_def statements_left_def after_upsert_def after_opening_def split: if_splits)

lemma job_run_ends: "statements_left (pj_pc j) \<le> n \<Longrightarrow> pj_pc (snd (job_run n cfg clocks ids picks j db)) = Recorded"
proof (induction n arbitrary: j db)
  case 0
  then show ?case by (cases "pj_pc j") (simp_all add: statements_left_def)
next
  case (Suc n)
  obtain db' j' where st: "job_step cfg (clocks n) (ids n) (picks n) j db = (db', j')" by (cases "job_step cfg (clocks n) (ids n) (picks n) j db")
  then show ?case using Suc job_step_progress [OF st] by simp
qed

lemma probeAndRecord_ends: "pj_pc (snd (probeAndRecord cfg clocks ids picks target result db)) = Recorded"
  unfolding probeAndRecord_def by (rule job_run_ends) (simp add: job_begin_def Let_def statements_left_def)

section \<open>Properties\<close>




definition demo_config :: health_config where
  "demo_config = \<lparr>hf_degradedLatencyMs = 1500, hf_scheduleIntervalMs = 300000, hf_probeConcurrency = 2, hf_retentionDays = 90\<rparr>"


definition no_answer :: probe_result where
  "no_answer = \<lparr>pr_httpStatus = None, pr_latencyMs = Some 20, pr_errorCode = Some ''TIMEOUT'', pr_responseBytes = None\<rparr>"

definition answer :: probe_result where
  "answer = \<lparr>pr_httpStatus = Some 200, pr_latencyMs = Some 20, pr_errorCode = None, pr_responseBytes = Some 5\<rparr>"






text \<open>The daily roll-up writes exactly the APIs that have checks in the day, each from its raw rows, and
  leaves every other row alone; run again over the same checks it changes nothing.\<close>

theorem daily_rollup_exact:
  "jm_get (hd_daily (fst (aggregateDaily day start now db))) (a, d) =
     (if d = day \<and> a \<in> hc_apiId ` set (day_checks db start) then Some (daily_of db start now a)
      else jm_get (hd_daily db) (a, d)) \<and>
   jm_get (hd_daily (fst (aggregateDaily day start now (fst (aggregateDaily day start now db))))) (a, d) =
     jm_get (hd_daily (fst (aggregateDaily day start now db))) (a, d)"
proof -
  have "jm_get (fold (\<lambda>x. jm_set (x, day) (f x)) xs m) (a, d) =
      (if d = day \<and> a \<in> set xs then Some (f a) else jm_get m (a, d))" for f :: "string \<Rightarrow> health_daily" and xs m
    by (induction xs arbitrary: m) (auto simp: jm_get_set)
  then have once: "jm_get (hd_daily (fst (aggregateDaily day start now e))) (a, d) =
      (if d = day \<and> a \<in> hc_apiId ` set (day_checks e start) then Some (daily_of e start now a)
       else jm_get (hd_daily e) (a, d))" for e
    by (simp add: aggregateDaily_def Let_def)
  have "day_checks (fst (aggregateDaily day start now db)) start = day_checks db start"
    "daily_of (fst (aggregateDaily day start now db)) start now a = daily_of db start now a"
    by (simp_all add: aggregateDaily_def Let_def day_checks_def daily_of_def)
  then show ?thesis unfolding once by simp
qed

section \<open>What the code does not keep\<close>

text \<open>
  No statement changes the priority of a row, so a failing API is re-checked no sooner than its popularity
  at import says; a priority computed from the status is only used for an API without a row.
\<close>

lemma priority_never_updated:
  assumes "jm_get (hd_latest db) a = Some r" and "job_step cfg clock newId pick j db = (db', j')"
  shows "\<exists>r'. jm_get (hd_latest db') a = Some r' \<and> hl_checkPriority r' = hl_checkPriority r"
  using assms by (cases "pj_pc j")
    (auto simp: job_step_def Let_def jm_get_set latest_of_job_def split_beta split: if_splits)

text \<open>Two calls for one API at once, which two processes or an expired lease allow: both open an incident,
  the recovery closes one of them, and the other stays open while the API is up.\<close>

fun two_calls :: "nat \<Rightarrow> health_db \<Rightarrow> probe_job \<Rightarrow> probe_job \<Rightarrow> health_db" where
  "two_calls 0 db j k = db"
| "two_calls (Suc n) db j k =
     (case job_step demo_config 10 ''x'' 0 j db of
        (db1, j1) \<Rightarrow> (case job_step demo_config 10 ''y'' 0 k db1 of (db2, k1) \<Rightarrow> two_calls n db2 j1 k1))"

definition two_incidents :: health_db where
  "two_incidents = (let t = \<lparr>pt_apiId = ''a'', pt_slug = ''a'', pt_url = ''https://docs.example.com''\<rparr>;
     j = job_begin demo_config t no_answer in two_calls 9 no_rows j j)"

lemma overlapping_calls_leave_incident:
  "map in_id (open_incidents two_incidents ''a'') = [''x'', ''y''] \<and>
   (let db = fst (probeAndRecord demo_config (\<lambda>_. 20) (\<lambda>_. ''z'') (\<lambda>_. 0)
       \<lparr>pt_apiId = ''a'', pt_slug = ''a'', pt_url = ''https://docs.example.com''\<rparr> answer two_incidents) in
    hs_status (row_state db ''a'') = Up \<and> map in_id (open_incidents db ''a'') = [''y''])"
  by code_simp

text \<open>A call lost between the status row and the incident leaves an API down with no incident, and later
  failures open none.\<close>

lemma torn_call_loses_incident:
  "(let j = job_begin demo_config \<lparr>pt_apiId = ''a'', pt_slug = ''a'', pt_url = ''u''\<rparr> no_answer;
        db = fst (job_run 6 demo_config (\<lambda>_. 10) (\<lambda>_. ''x'') (\<lambda>_. 0) j no_rows);
        db' = fst (probeAndRecord demo_config (\<lambda>_. 20) (\<lambda>_. ''y'') (\<lambda>_. 0)
          \<lparr>pt_apiId = ''a'', pt_slug = ''a'', pt_url = ''u''\<rparr> no_answer db) in
    hs_status (row_state db ''a'') = Down \<and> hs_status (row_state db' ''a'') = Down \<and> hd_incidents db' = [])"
  by code_simp

end
