(* ===== verification/Catalog.thy ===== *)
theory Catalog
  imports JsString HealthScoring
begin

text \<open>
  The catalogue's rows and what the public sees of them: the mappers
  (\<open>apps/api/src/modules/catalog/mappers.ts\<close>), the filter specifications
  (\<open>specifications.ts\<close>) as predicates on a row, with the one that is written as raw SQL text also as
  that text, and the cache key of a query (\<open>hashQuery\<close> of \<open>service.ts\<close>).
\<close>

section \<open>Rows and summaries\<close>

text \<open>A row of the query that joins an API with its latest health.\<close>

record api_row_with_health =
  aw_id :: string
  aw_slug :: string
  aw_name :: string
  aw_provider :: "string option"
  aw_description :: string
  aw_docsUrl :: "string option"
  aw_baseUrl :: "string option"
  aw_authType :: string
  aw_httpsSupported :: bool
  aw_corsStatus :: string
  aw_isFree :: bool
  aw_hasFreeTier :: bool
  aw_status :: string
  aw_popularityScore :: rat
  aw_tags :: "string list option"
  aw_updatedAt :: time
  aw_createdAt :: time
  aw_healthStatus :: "string option"
  aw_healthLatency :: "int option"
  aw_healthUptime30d :: "rat option"
  aw_healthReliability :: "rat option"
  aw_healthCheckedAt :: "time option"
  aw_healthFailures :: "nat option"

record api_aggregates =
  aa_averageRating :: "rat option"
  aa_reviewCount :: nat
  aa_favoriteCount :: nat

record category_ref =
  cf_id :: string
  cf_slug :: string
  cf_name :: string

record health_summary =
  hm_status :: health_status
  hm_latencyMs :: "int option"
  hm_uptime30d :: "rat option"
  hm_reliabilityScore :: "rat option"
  hm_lastCheckedAt :: "string option"
  hm_consecutiveFailures :: nat

record api_summary =
  as_id :: string
  as_slug :: string
  as_name :: string
  as_provider :: "string option"
  as_description :: string
  as_categories :: "category_ref list"
  as_authType :: string
  as_httpsSupported :: bool
  as_corsStatus :: string
  as_isFree :: bool
  as_hasFreeTier :: bool
  as_docsUrl :: "string option"
  as_baseUrl :: "string option"
  as_status :: string
  as_popularityScore :: rat
  as_health :: health_summary
  as_averageRating :: "rat option"
  as_reviewCount :: nat
  as_favoriteCount :: nat
  as_tags :: "string list"
  as_updatedAt :: string

definition VALID_AUTH_TYPES :: "string list" where
  "VALID_AUTH_TYPES =
     [''none'', ''apiKey'', ''bearer'', ''basic'', ''oauth'', ''oauth2'', ''jwt'', ''custom'', ''unknown'']"

definition toAuthType :: "string \<Rightarrow> string" where
  "toAuthType value = (if value \<in> set VALID_AUTH_TYPES then value else ''unknown'')"

definition toCorsStatus :: "string \<Rightarrow> string" where
  "toCorsStatus value = (if value = ''yes'' \<or> value = ''no'' then value else ''unknown'')"

definition toHealthStatus :: "string option \<Rightarrow> health_status" where
  "toHealthStatus value =
     (if value = Some ''up'' then Up else if value = Some ''degraded'' then Degraded
      else if value = Some ''down'' then Down else Unknown)"

text \<open>\<open>stamp\<close> is the text of a time.\<close>

definition toHealthSummary :: "(time \<Rightarrow> string) \<Rightarrow> api_row_with_health \<Rightarrow> health_summary" where
  "toHealthSummary stamp row =
     \<lparr>hm_status = toHealthStatus (aw_healthStatus row), hm_latencyMs = aw_healthLatency row,
      hm_uptime30d = aw_healthUptime30d row, hm_reliabilityScore = aw_healthReliability row,
      hm_lastCheckedAt = map_option stamp (aw_healthCheckedAt row),
      hm_consecutiveFailures = (case aw_healthFailures row of Some n \<Rightarrow> n | None \<Rightarrow> 0)\<rparr>"

definition toApiSummary ::
  "(time \<Rightarrow> string) \<Rightarrow> api_row_with_health \<Rightarrow> category_ref list \<Rightarrow> api_aggregates option \<Rightarrow> api_summary"
where
  "toApiSummary stamp row cats aggregates =
     \<lparr>as_id = aw_id row, as_slug = aw_slug row, as_name = aw_name row, as_provider = aw_provider row,
      as_description = aw_description row, as_categories = cats, as_authType = toAuthType (aw_authType row),
      as_httpsSupported = aw_httpsSupported row, as_corsStatus = toCorsStatus (aw_corsStatus row),
      as_isFree = aw_isFree row, as_hasFreeTier = aw_hasFreeTier row, as_docsUrl = aw_docsUrl row,
      as_baseUrl = aw_baseUrl row, as_status = aw_status row, as_popularityScore = aw_popularityScore row,
      as_health = toHealthSummary stamp row,
      as_averageRating = (case aggregates of Some a \<Rightarrow> aa_averageRating a | None \<Rightarrow> None),
      as_reviewCount = (case aggregates of Some a \<Rightarrow> aa_reviewCount a | None \<Rightarrow> 0),
      as_favoriteCount = (case aggregates of Some a \<Rightarrow> aa_favoriteCount a | None \<Rightarrow> 0),
      as_tags = (case aw_tags row of Some ts \<Rightarrow> ts | None \<Rightarrow> []), as_updatedAt = stamp (aw_updatedAt row)\<rparr>"

text \<open>The detail view: endpoints, authentication schemes and provenance beside the summary.\<close>

record endpoint_parameter =
  en_name :: string
  en_in :: string
  en_required :: bool
  en_description :: "string option"
  en_example :: "string option"

record endpoint_row =
  ep_id :: string
  ep_method :: string
  ep_path :: string
  ep_summary :: "string option"
  ep_parameters :: "endpoint_parameter list option"
  ep_sampleResponse :: "string option"

record api_endpoint =
  ae_id :: string
  ae_method :: string
  ae_path :: string
  ae_summary :: "string option"
  ae_parameters :: "endpoint_parameter list"
  ae_sampleResponse :: "string option"

definition toApiEndpoint :: "endpoint_row \<Rightarrow> api_endpoint" where
  "toApiEndpoint row =
     \<lparr>ae_id = ep_id row, ae_method = ep_method row, ae_path = ep_path row, ae_summary = ep_summary row,
      ae_parameters = (case ep_parameters row of Some ps \<Rightarrow> ps | None \<Rightarrow> []),
      ae_sampleResponse = ep_sampleResponse row\<rparr>"

record auth_scheme =
  au_id :: string
  au_type :: string
  au_location :: string
  au_parameterName :: "string option"
  au_notes :: "string option"
  au_signupUrl :: "string option"

definition toApiAuthScheme :: "auth_scheme \<Rightarrow> auth_scheme" where
  "toApiAuthScheme row = row\<lparr>au_type := toAuthType (au_type row)\<rparr>"

record rate_limit_note =
  rn_requests :: "int option"
  rn_window :: "string option"
  rn_notes :: "string option"

record detail_columns =
  dc_longDescription :: "string option"
  dc_rateLimit :: "rate_limit_note option"
  dc_sourceName :: "string option"
  dc_sourceUrl :: "string option"
  dc_sourceRevision :: "string option"
  dc_sourceLicense :: "string option"
  dc_transformVersion :: "string option"
  dc_importedAt :: "time option"
  dc_createdAt :: time

record api_provenance =
  pv_sourceName :: string
  pv_sourceUrl :: "string option"
  pv_sourceRevision :: "string option"
  pv_importedAt :: "string option"
  pv_transformVersion :: "string option"
  pv_license :: "string option"

record api_detail = api_summary +
  ad_longDescription :: "string option"
  ad_endpoints :: "api_endpoint list"
  ad_authSchemes :: "auth_scheme list"
  ad_provenance :: api_provenance
  ad_rateLimit :: "rate_limit_note option"
  ad_alternatives :: "(string \<times> string \<times> string \<times> string) list"
  ad_createdAt :: string

definition toApiDetail ::
  "(time \<Rightarrow> string) \<Rightarrow> api_summary \<Rightarrow> detail_columns \<Rightarrow> endpoint_row list \<Rightarrow> auth_scheme list \<Rightarrow>
     (string \<times> string \<times> string \<times> string) list \<Rightarrow> api_detail"
where
  "toApiDetail stamp summary row endpoints authSchemes alternatives =
     api_summary.extend summary (api_detail.fields
       (dc_longDescription row) (map toApiEndpoint endpoints) (map toApiAuthScheme authSchemes)
       \<lparr>pv_sourceName = (case dc_sourceName row of Some n \<Rightarrow> n | None \<Rightarrow> ''unknown''),
        pv_sourceUrl = dc_sourceUrl row, pv_sourceRevision = dc_sourceRevision row,
        pv_importedAt = map_option stamp (dc_importedAt row), pv_transformVersion = dc_transformVersion row,
        pv_license = dc_sourceLicense row\<rparr>
       (dc_rateLimit row) alternatives (stamp (dc_createdAt row)))"

section \<open>Specifications\<close>

text \<open>A specification is a predicate on a row, with the categories of the API, or none where it produces
  no SQL.\<close>

record catalog_row =
  ct_row :: api_row_with_health
  ct_categories :: "category_ref list"

type_synonym filter_spec = "(catalog_row \<Rightarrow> bool) option"

definition ActiveSpecification :: filter_spec where
  "ActiveSpecification = Some (\<lambda>r. aw_status (ct_row r) = ''active'')"

definition FreeSpecification :: filter_spec where
  "FreeSpecification = Some (\<lambda>r. aw_isFree (ct_row r))"

definition HttpsSpecification :: filter_spec where
  "HttpsSpecification = Some (\<lambda>r. aw_httpsSupported (ct_row r))"

definition CorsSpecification :: filter_spec where
  "CorsSpecification = Some (\<lambda>r. aw_corsStatus (ct_row r) = ''yes'')"

definition authTypeSpecification :: "string \<Rightarrow> filter_spec" where
  "authTypeSpecification authType =
     Some (\<lambda>r. if authType = ''none''
       then aw_authType (ct_row r) = ''none'' \<or> aw_isFree (ct_row r) \<and> aw_authType (ct_row r) = ''unknown''
       else aw_authType (ct_row r) = authType)"

definition healthStatusSpecification :: "string \<Rightarrow> filter_spec" where
  "healthStatusSpecification status = Some (\<lambda>r. aw_healthStatus (ct_row r) = Some status)"

definition categorySpecification :: "string \<Rightarrow> filter_spec" where
  "categorySpecification categoryId = Some (\<lambda>r. categoryId \<in> cf_id ` set (ct_categories r))"

definition categorySlugSpecification :: "string \<Rightarrow> filter_spec" where
  "categorySlugSpecification slug = Some (\<lambda>r. slug \<in> cf_slug ` set (ct_categories r))"

definition tagsSpecification :: "string list \<Rightarrow> filter_spec" where
  "tagsSpecification tags =
     (if tags = [] then None
      else Some (\<lambda>r. list_ex (\<lambda>t. t \<in> set (case aw_tags (ct_row r) of Some ts \<Rightarrow> ts | None \<Rightarrow> [])) tags))"

definition idsSpecification :: "string list \<Rightarrow> filter_spec" where
  "idsSpecification ids = Some (\<lambda>r. aw_id (ct_row r) \<in> set ids)"

definition slugsSpecification :: "string list \<Rightarrow> filter_spec" where
  "slugsSpecification slugs = Some (\<lambda>r. aw_slug (ct_row r) \<in> set slugs)"

definition minReliabilitySpecification :: "rat \<Rightarrow> filter_spec" where
  "minReliabilitySpecification least =
     Some (\<lambda>r. case aw_healthReliability (ct_row r) of Some v \<Rightarrow> least \<le> v | None \<Rightarrow> False)"

text \<open>None where no specification has a predicate.\<close>

definition all_specs :: "filter_spec list \<Rightarrow> filter_spec" where
  "all_specs specs =
     (let clauses = List.map_filter id specs in
      if clauses = [] then None else Some (\<lambda>r. list_all (\<lambda>c. c r) clauses))"

record list_query =
  lq_page :: nat
  lq_pageSize :: nat
  lq_category :: "string option"
  lq_categoryId :: "string option"
  lq_auth :: "string option"
  lq_https :: "bool option"
  lq_cors :: "bool option"
  lq_free :: "bool option"
  lq_status :: "string option"
  lq_minRating :: "rat option"
  lq_tags :: "string list option"
  lq_sort :: string

definition given :: "string option \<Rightarrow> bool" where
  "given x \<longleftrightarrow> x \<noteq> None \<and> x \<noteq> Some []"

definition specificationsFor :: "list_query \<Rightarrow> filter_spec list" where
  "specificationsFor query =
     [ActiveSpecification] @
     (if lq_free query = Some True then [FreeSpecification] else []) @
     (if lq_https query = Some True then [HttpsSpecification] else []) @
     (if lq_cors query = Some True then [CorsSpecification] else []) @
     (if given (lq_auth query) \<and> lq_auth query \<noteq> Some ''any'' then [authTypeSpecification (the (lq_auth query))] else []) @
     (if given (lq_status query) then [healthStatusSpecification (the (lq_status query))] else []) @
     (if given (lq_categoryId query) then [categorySpecification (the (lq_categoryId query))]
      else if given (lq_category query) then [categorySlugSpecification (the (lq_category query))] else []) @
     (case lq_tags query of Some (t # ts) \<Rightarrow> [tagsSpecification (t # ts)] | _ \<Rightarrow> [])"

section \<open>The array of tags as SQL text\<close>

abbreviation sql_quote :: char where
  "sql_quote \<equiv> CHR 0x27"

definition sql_string :: "string \<Rightarrow> string" where
  "sql_string t = [sql_quote] @ concat (map (\<lambda>c. if c = sql_quote then [sql_quote, sql_quote] else [c]) t) @ [sql_quote]"

definition tags_literal :: "string list \<Rightarrow> string" where
  "tags_literal tags = ''ARRAY['' @ join '','' (map sql_string tags) @ '']''"

text \<open>How the database reads it: a quoted string ends at a quote that is not doubled (a backslash means
  itself, as the standard setting has it).\<close>

fun read_sql_string :: "string \<Rightarrow> (string \<times> string) option" where
  "read_sql_string [] = None"
| "read_sql_string (c # s) =
     (if c = sql_quote
      then (case s of
              d # rest \<Rightarrow> if d = sql_quote then map_option (\<lambda>(t, u). (sql_quote # t, u)) (read_sql_string rest) else Some ([], s)
            | [] \<Rightarrow> Some ([], s))
      else map_option (\<lambda>(t, u). (c # t, u)) (read_sql_string s))"

fun read_sql_list :: "nat \<Rightarrow> string \<Rightarrow> (string list \<times> string) option" where
  "read_sql_list 0 s = None"
| "read_sql_list (Suc fuel) s =
     (case s of
        c # rest \<Rightarrow>
          if c = sql_quote
          then (case read_sql_string rest of
                  Some (t, d # u) \<Rightarrow>
                    if d = CHR '','' then map_option (\<lambda>(ts, v). (t # ts, v)) (read_sql_list fuel u)
                    else if d = CHR '']'' then Some ([t], u) else None
                | _ \<Rightarrow> None)
          else None
      | [] \<Rightarrow> None)"

definition read_sql_array :: "string \<Rightarrow> (string list \<times> string) option" where
  "read_sql_array s = (if starts_with s ''ARRAY['' then read_sql_list (length s) (drop 6 s) else None)"

section \<open>The cache key of a query\<close>

text \<open>The values of a query's entries; a number is its text.\<close>

datatype query_value = Undefined | Null | Text string | Number string | Boolean bool | Texts "string list"

definition query_empty :: "query_value \<Rightarrow> bool" where
  "query_empty v \<longleftrightarrow> v = Undefined \<or> v = Null \<or> v = Text []"

text \<open>The default order of \<open>sort\<close>, by code units.\<close>

fun text_le :: "string \<Rightarrow> string \<Rightarrow> bool" where
  "text_le [] t = True"
| "text_le (c # s) [] = False"
| "text_le (c # s) (d # t) = (code c < code d \<or> c = d \<and> text_le s t)"

definition value_text :: "query_value \<Rightarrow> string" where
  "value_text v =
     (case v of
        Text t \<Rightarrow> t | Number t \<Rightarrow> t | Boolean b \<Rightarrow> (if b then ''true'' else ''false'')
      | Texts ts \<Rightarrow> join ''|'' (sort_by text_le ts) | Undefined \<Rightarrow> ''undefined'' | Null \<Rightarrow> ''null'')"

definition query_text :: "(string \<Rightarrow> string \<Rightarrow> bool) \<Rightarrow> (string \<times> query_value) list \<Rightarrow> string" where
  "query_text locale_le query =
     join ''&'' (map (\<lambda>(k, v). k @ ''='' @ value_text v)
       (sort_by (\<lambda>a b. locale_le (fst a) (fst b)) (filter (\<lambda>(k, v). \<not> query_empty v) query)))"

definition hashQuery :: "(string \<Rightarrow> string) \<Rightarrow> (string \<Rightarrow> string \<Rightarrow> bool) \<Rightarrow> (string \<times> query_value) list \<Rightarrow> string" where
  "hashQuery sha1 locale_le query = take 16 (sha1 (query_text locale_le query))"

section \<open>Tags read back\<close>

abbreviation doubled :: "string \<Rightarrow> string" where
  "doubled t \<equiv> concat (map (\<lambda>c. if c = sql_quote then [sql_quote, sql_quote] else [c]) t)"

lemma read_sql_string_doubled:
  "d \<noteq> sql_quote \<Longrightarrow> read_sql_string (doubled t @ sql_quote # d # rest) = Some (t, d # rest)"
  by (induction t) simp_all

lemma read_sql_list_tags:
  "length ts < fuel \<Longrightarrow>
   read_sql_list fuel (join '','' (map sql_string (t # ts)) @ '']'' @ rest) = Some (t # ts, rest)"
proof (induction ts arbitrary: t fuel)
  case Nil
  then show ?case by (cases fuel) (simp_all add: sql_string_def read_sql_string_doubled)
next
  case (Cons u us)
  then obtain n where n: "fuel = Suc n" "length us < n" by (cases fuel) auto
  have "read_sql_list n (join '','' (map sql_string (u # us)) @ '']'' @ rest) = Some (u # us, rest)"
    by (rule Cons.IH [OF n(2)])
  then show ?case
    by (simp add: n(1) sql_string_def [of t] read_sql_string_doubled)
qed

lemma length_join_tags: "length ts < length (join '','' (map sql_string (t # ts)) @ s)"
proof (induction ts arbitrary: t)
  case (Cons u us)
  have "length us < length (join '','' (map sql_string (u # us)) @ s)" by (rule Cons.IH)
  then show ?case by simp
qed (simp add: sql_string_def)

text \<open>Whatever the tags of a query hold, quotes included, the SQL text built for them is read back as
  exactly those tags, with nothing left inside or outside the array.\<close>

theorem tags_literal_roundtrip: "read_sql_array (tags_literal (t # ts) @ rest) = Some (t # ts, rest)"
proof -
  let ?s = "join '','' (map sql_string (t # ts)) @ '']'' @ rest"
  have l: "tags_literal (t # ts) @ rest = ''ARRAY['' @ ?s" by (simp add: tags_literal_def)
  have "read_sql_list (length (''ARRAY['' @ ?s)) ?s = Some (t # ts, rest)"
    by (rule read_sql_list_tags) (use length_join_tags [of ts t "'']'' @ rest"] in simp)
  then show ?thesis unfolding l read_sql_array_def by (simp add: starts_with_append)
qed

section \<open>Cache keys\<close>

text \<open>The key of a query depends only on its filters: any order of the entries, and any entries with no
  value beside them, give the same key, if the locale's comparison orders the names.\<close>

theorem hashQuery_stable:
  assumes "\<And>a b. locale_le a b \<or> locale_le b a" and "\<And>a b c. locale_le a b \<Longrightarrow> locale_le b c \<Longrightarrow> locale_le a c"
    and "\<And>a b. locale_le a b \<Longrightarrow> locale_le b a \<Longrightarrow> a = b"
    and "distinct (map fst (filter (\<lambda>(k, v). \<not> query_empty v) q))"
    and "mset (filter (\<lambda>(k, v). \<not> query_empty v) q) = mset (filter (\<lambda>(k, v). \<not> query_empty v) q')"
  shows "hashQuery sha1 locale_le q = hashQuery sha1 locale_le q'"
proof -
  let ?le = "\<lambda>a b :: string \<times> query_value. locale_le (fst a) (fst b)"
  let ?f = "filter (\<lambda>(k, v). \<not> query_empty v)"
  have sorted: "sorted_wrt ?le (sort_by ?le xs)" for xs
    by (rule sorted_sort_by) (use assms(1,2) in blast)+
  have "a = b" if "a \<in> set (sort_by ?le (?f q))" "b \<in> set (sort_by ?le (?f q))" "?le a b" "?le b a" for a b
  proof -
    have "set (sort_by ?le (?f q)) = set (?f q)" by (metis mset_sort_by set_mset_mset)
    then have "a \<in> set (?f q)" "b \<in> set (?f q)" using that(1,2) by blast+
    moreover have "fst a = fst b" using that(3,4) assms(3) by blast
    ultimately show "a = b" using assms(4) by (metis distinct_map inj_onD)
  qed
  then have "sort_by ?le (?f q) = sort_by ?le (?f q')"
    by (intro sorted_wrt_unique [OF _ sorted sorted]) (use assms(5) in simp_all)
  then show ?thesis unfolding hashQuery_def query_text_def by simp
qed

lemma text_le_order:
  "text_le s t \<or> text_le t s" "text_le s t \<Longrightarrow> text_le t u \<Longrightarrow> text_le s u" "text_le s t \<Longrightarrow> text_le t s \<Longrightarrow> s = t"
proof -
  have "code c < code d \<or> code d < code c \<or> c = d" for c d :: char
    by (metis nat_neq_iff of_char_eq_iff)
  then show "text_le s t \<or> text_le t s" by (induction s t rule: text_le.induct) (simp, simp, force)
  show "text_le s t \<Longrightarrow> text_le t u \<Longrightarrow> text_le s u"
  proof (induction s t arbitrary: u rule: text_le.induct)
    case (3 c s d t)
    then show ?case by (cases u) auto
  qed (auto split: list.splits)
  show "text_le s t \<Longrightarrow> text_le t s \<Longrightarrow> s = t"
  proof (induction s t rule: text_le.induct)
    case (1 t)
    then show ?case by (cases t) simp_all
  qed auto
qed

theorem hashQuery_stable_witness:
  "hashQuery id text_le [(''page'', Number ''1''), (''free'', Boolean True), (''q'', Undefined)] =
   hashQuery id text_le [(''category'', Text []), (''free'', Boolean True), (''page'', Number ''1'')]"
  by (rule hashQuery_stable [OF text_le_order]) (simp_all add: query_empty_def)

text \<open>The text is not unambiguous: a value that holds the separators gives the key of other filters.\<close>

lemma hashQuery_collides:
  "hashQuery sha1 text_le [(''category'', Text ''weather&free=true'')] =
   hashQuery sha1 text_le [(''category'', Text ''weather''), (''free'', Boolean True)]"
  "hashQuery sha1 text_le [(''tags'', Texts [''a|b''])] = hashQuery sha1 text_le [(''tags'', Texts [''a'', ''b''])]"
proof -
  have "query_text text_le [(''category'', Text ''weather&free=true'')] =
      query_text text_le [(''category'', Text ''weather''), (''free'', Boolean True)]"
    "query_text text_le [(''tags'', Texts [''a|b''])] = query_text text_le [(''tags'', Texts [''a'', ''b''])]"
    by code_simp+
  then show "hashQuery sha1 text_le [(''category'', Text ''weather&free=true'')] =
      hashQuery sha1 text_le [(''category'', Text ''weather''), (''free'', Boolean True)]"
    "hashQuery sha1 text_le [(''tags'', Texts [''a|b''])] = hashQuery sha1 text_le [(''tags'', Texts [''a'', ''b''])]"
    by (simp_all only: hashQuery_def)
qed

text \<open>No specification looks at the rating a query asks for.\<close>

lemma minRating_ignored: "specificationsFor (query\<lparr>lq_minRating := r\<rparr>) = specificationsFor query"
  by (simp add: specificationsFor_def)

end
