(* ===== verification/CatalogRepository.thy ===== *)
theory CatalogRepository
  imports Catalog
begin

text \<open>
  The catalogue repository (\<open>apps/api/src/modules/catalog/repository.ts\<close>) over its tables as lists of
  rows: a query is what SQL says of it, rows of one API come at most once, and where a query leaves an
  order open it is that of the table. The batched hydration is compared with reading each API on its own.
\<close>

section \<open>Tables\<close>

record category_row =
  cr_id :: string
  cr_slug :: string
  cr_name :: string
  cr_description :: "string option"
  cr_icon :: "string option"
  cr_apiCount :: nat

record review_row =
  rv_apiId :: string
  rv_ratingOverall :: rat
  rv_moderationStatus :: string

text \<open>\<open>cb_rows\<close> is the table of APIs joined with their latest health; the rest is by API.\<close>

record catalog_db =
  cb_rows :: "api_row_with_health list"
  cb_details :: "(string, detail_columns) jsmap"
  cb_categories :: "category_row list"
  cb_apiCategories :: "(string \<times> string) list"
  cb_reviews :: "review_row list"
  cb_favorites :: "(string \<times> string) list"
  cb_endpoints :: "(string \<times> nat \<times> endpoint_row) list"
  cb_authSchemes :: "(string \<times> auth_scheme) list"
  cb_views :: "((string \<times> string), nat) jsmap"
  cb_ingestionFinished :: "time option list"

section \<open>Hydration\<close>

text \<open>The join of links and categories, for a set of APIs.\<close>

definition category_rows :: "catalog_db \<Rightarrow> string list \<Rightarrow> (string \<times> category_ref) list" where
  "category_rows db ids =
     concat (map (\<lambda>(a, c). map (\<lambda>r. (a, \<lparr>cf_id = cr_id r, cf_slug = cr_slug r, cf_name = cr_name r\<rparr>))
         (filter (\<lambda>r. cr_id r = c) (cb_categories db)))
       (filter (\<lambda>(a, c). a \<in> set ids) (cb_apiCategories db)))"

text \<open>The groups of the published reviews, and of the favourites.\<close>

definition rating_rows :: "catalog_db \<Rightarrow> string list \<Rightarrow> (string \<times> rat option \<times> nat) list" where
  "rating_rows db ids =
     (let rows = filter (\<lambda>r. rv_apiId r \<in> set ids \<and> rv_moderationStatus r = ''published'') (cb_reviews db) in
      map (\<lambda>a. let rs = map rv_ratingOverall (filter (\<lambda>r. rv_apiId r = a) rows)
               in (a, Some (sum_list rs / of_nat (length rs)), length rs))
        (remdups (map rv_apiId rows)))"

definition favorite_rows :: "catalog_db \<Rightarrow> string list \<Rightarrow> (string \<times> nat) list" where
  "favorite_rows db ids =
     (let rows = filter (\<lambda>(u, a). a \<in> set ids) (cb_favorites db) in
      map (\<lambda>a. (a, length (filter (\<lambda>(u, b). b = a) rows))) (remdups (map snd rows)))"

definition push_category :: "string \<times> category_ref \<Rightarrow> (string, category_ref list) jsmap \<Rightarrow> (string, category_ref list) jsmap" where
  "push_category row m =
     jm_set (fst row) ((case jm_get m (fst row) of Some b \<Rightarrow> b | None \<Rightarrow> []) @ [snd row]) m"

definition put_rating :: "string \<times> rat option \<times> nat \<Rightarrow> (string, api_aggregates) jsmap \<Rightarrow> (string, api_aggregates) jsmap" where
  "put_rating row m =
     jm_set (fst row) \<lparr>aa_averageRating = fst (snd row), aa_reviewCount = snd (snd row), aa_favoriteCount = 0\<rparr> m"

definition put_favorites :: "string \<times> nat \<Rightarrow> (string, api_aggregates) jsmap \<Rightarrow> (string, api_aggregates) jsmap" where
  "put_favorites row m =
     (let existing = (case jm_get m (fst row) of Some a \<Rightarrow> a
            | None \<Rightarrow> \<lparr>aa_averageRating = None, aa_reviewCount = 0, aa_favoriteCount = 0\<rparr>)
      in jm_set (fst row) (existing\<lparr>aa_favoriteCount := snd row\<rparr>) m)"

definition hydrate :: "(time \<Rightarrow> string) \<Rightarrow> catalog_db \<Rightarrow> api_row_with_health list \<Rightarrow> api_summary list" where
  "hydrate stamp db rows =
     (if rows = [] then []
      else
        let ids = map aw_id rows;
            categoryMap = fold push_category (category_rows db ids) [];
            aggregates = fold put_favorites (favorite_rows db ids) (fold put_rating (rating_rows db ids) [])
        in map (\<lambda>row. toApiSummary stamp row (case jm_get categoryMap (aw_id row) of Some cs \<Rightarrow> cs | None \<Rightarrow> [])
                  (jm_get aggregates (aw_id row))) rows)"

section \<open>Queries\<close>

definition joined :: "catalog_db \<Rightarrow> api_row_with_health \<Rightarrow> catalog_row" where
  "joined db row = \<lparr>ct_row = row, ct_categories = map snd (category_rows db [aw_id row])\<rparr>"

definition selected :: "catalog_db \<Rightarrow> filter_spec \<Rightarrow> api_row_with_health list" where
  "selected db cond = filter (\<lambda>row. case cond of None \<Rightarrow> True | Some p \<Rightarrow> p (joined db row)) (cb_rows db)"




definition findManyByIds :: "(time \<Rightarrow> string) \<Rightarrow> catalog_db \<Rightarrow> string list \<Rightarrow> api_summary list" where
  "findManyByIds stamp db ids =
     (if ids = [] then []
      else
        let hydrated = hydrate stamp db (filter (\<lambda>row. aw_id row \<in> set ids) (cb_rows db));
            byId = fold (\<lambda>item. jm_set (as_id item) item) hydrated []
        in List.map_filter (jm_get byId) ids)"

definition findManyBySlugs :: "(time \<Rightarrow> string) \<Rightarrow> catalog_db \<Rightarrow> string list \<Rightarrow> api_summary list" where
  "findManyBySlugs stamp db slugs =
     (if slugs = [] then []
      else
        let hydrated = hydrate stamp db (filter (\<lambda>row. aw_slug row \<in> set slugs) (cb_rows db));
            bySlug = fold (\<lambda>item. jm_set (as_slug item) item) hydrated []
        in List.map_filter (jm_get bySlug) slugs)"

definition shares_category :: "catalog_db \<Rightarrow> string \<Rightarrow> string \<Rightarrow> bool" where
  "shares_category db x y \<longleftrightarrow>
     list_ex (\<lambda>(a, c). a = x \<and> list_ex (\<lambda>(b, d). b = y \<and> d = c) (cb_apiCategories db)) (cb_apiCategories db)"

definition findAlternatives :: "catalog_db \<Rightarrow> string \<Rightarrow> nat \<Rightarrow> (string \<times> string \<times> string \<times> string) list" where
  "findAlternatives db apiId limit =
     map (\<lambda>r. (aw_id r, aw_slug r, aw_name r, aw_description r))
       (take limit (sort_by (\<lambda>a b. aw_popularityScore b \<le> aw_popularityScore a)
         (filter (\<lambda>r. aw_status r = ''active'' \<and> aw_id r \<noteq> apiId \<and> shares_category db (aw_id r) apiId) (cb_rows db))))"

definition findBySlug :: "(time \<Rightarrow> string) \<Rightarrow> catalog_db \<Rightarrow> string \<Rightarrow> api_detail option" where
  "findBySlug stamp db slug =
     (case filter (\<lambda>r. aw_slug r = slug) (cb_rows db) of
        [] \<Rightarrow> None
      | row # _ \<Rightarrow>
          (case (hydrate stamp db [row], jm_get (cb_details db) (aw_id row)) of
             (summary # _, Some cols) \<Rightarrow>
               Some (toApiDetail stamp summary cols
                 (map (snd \<circ> snd) (sort_key (fst \<circ> snd) (filter (\<lambda>e. fst e = aw_id row) (cb_endpoints db))))
                 (map snd (filter (\<lambda>e. fst e = aw_id row) (cb_authSchemes db)))
                 (findAlternatives db (aw_id row) 4))
           | _ \<Rightarrow> None))"

definition listCategories :: "(string \<Rightarrow> string \<Rightarrow> bool) \<Rightarrow> catalog_db \<Rightarrow> category_row list" where
  "listCategories collate db =
     sort_by (\<lambda>a b. cr_apiCount b \<le> cr_apiCount a \<and> (cr_apiCount a \<le> cr_apiCount b \<longrightarrow> collate (cr_name a) (cr_name b)))
       (filter (\<lambda>c. 0 < cr_apiCount c) (cb_categories db))"

definition findCategoryBySlug :: "catalog_db \<Rightarrow> string \<Rightarrow> category_row option" where
  "findCategoryBySlug db slug = List.find (\<lambda>c. cr_slug c = slug) (cb_categories db)"

text \<open>The groups of a column with their sizes.\<close>

definition groups_of :: "('r \<Rightarrow> string) \<Rightarrow> 'r list \<Rightarrow> (string \<times> nat) list" where
  "groups_of f rows = map (\<lambda>v. (v, length (filter (\<lambda>r. f r = v) rows))) (remdups (map f rows))"

record facet_counts =
  fc_auth :: "(string \<times> nat) list"
  fc_health :: "(string \<times> nat) list"
  fc_features :: "(string \<times> nat) list"

definition facets :: "catalog_db \<Rightarrow> list_query \<Rightarrow> facet_counts" where
  "facets db query =
     (let rows = selected db (all_specs (specificationsFor (query\<lparr>lq_auth := None, lq_status := None\<rparr>))) in
      \<lparr>fc_auth = sort_by (\<lambda>a b. snd b \<le> snd a) (groups_of aw_authType rows),
       fc_health = groups_of (\<lambda>r. case aw_healthStatus r of Some s \<Rightarrow> s | None \<Rightarrow> ''unknown'') rows,
       fc_features =
         [(''free'', length (filter aw_isFree rows)), (''https'', length (filter aw_httpsSupported rows)),
          (''cors'', length (filter (\<lambda>r. aw_corsStatus r = ''yes'') rows))]\<rparr>)"

record platform_stats =
  ps_totalApis :: nat
  ps_totalCategories :: nat
  ps_freeApis :: nat
  ps_noAuthApis :: nat
  ps_httpsApis :: nat
  ps_monitoredApis :: nat
  ps_healthyApis :: nat
  ps_averageLatencyMs :: "int option"
  ps_lastIngestionAt :: "string option"

text \<open>The last ingestion: finish times in the order of the query, a missing one first, as a descending
  order puts it.\<close>

definition platformStats :: "(time \<Rightarrow> string) \<Rightarrow> catalog_db \<Rightarrow> platform_stats" where
  "platformStats stamp db =
     (let live = filter (\<lambda>r. aw_status r = ''active'') (cb_rows db);
          watched = filter (\<lambda>r. aw_healthStatus r \<noteq> None) (cb_rows db);
          latencies = List.map_filter aw_healthLatency watched
      in \<lparr>ps_totalApis = length live, ps_totalCategories = length (cb_categories db),
          ps_freeApis = length (filter aw_isFree live),
          ps_noAuthApis = length (filter (\<lambda>r. aw_authType r = ''none'') live),
          ps_httpsApis = length (filter aw_httpsSupported live),
          ps_monitoredApis = length watched,
          ps_healthyApis = length (filter (\<lambda>r. aw_healthStatus r = Some ''up'') watched),
          ps_averageLatencyMs =
            (if latencies = [] then None
             else Some (js_round (of_int (sum_list latencies) / of_nat (length latencies)))),
          ps_lastIngestionAt =
            (case sort_by (\<lambda>a b. case (a, b) of (None, _) \<Rightarrow> True | (Some _, None) \<Rightarrow> False | (Some u, Some v) \<Rightarrow> v \<le> u)
                   (cb_ingestionFinished db) of
               Some t # _ \<Rightarrow> Some (stamp t) | _ \<Rightarrow> None)\<rparr>)"

definition recordView :: "string \<Rightarrow> string \<Rightarrow> catalog_db \<Rightarrow> catalog_db" where
  "recordView day apiId db =
     db\<lparr>cb_views := jm_set (day, apiId)
       (case jm_get (cb_views db) (day, apiId) of None \<Rightarrow> 1 | Some n \<Rightarrow> n + 1) (cb_views db)\<rparr>"

section \<open>Batched hydration reads each API on its own\<close>

definition published_ratings :: "catalog_db \<Rightarrow> string \<Rightarrow> rat list" where
  "published_ratings db a =
     map rv_ratingOverall (filter (\<lambda>r. rv_apiId r = a \<and> rv_moderationStatus r = ''published'') (cb_reviews db))"

definition hydrate_alone :: "(time \<Rightarrow> string) \<Rightarrow> catalog_db \<Rightarrow> api_row_with_health \<Rightarrow> api_summary" where
  "hydrate_alone stamp db row =
     (let ratings = published_ratings db (aw_id row) in
      toApiSummary stamp row (map snd (category_rows db [aw_id row]))
        (Some \<lparr>aa_averageRating = (if ratings = [] then None else Some (sum_list ratings / of_nat (length ratings))),
               aa_reviewCount = length ratings,
               aa_favoriteCount = length (filter (\<lambda>(u, b). b = aw_id row) (cb_favorites db))\<rparr>))"

lemma fold_push_category:
  "jm_get (fold push_category rows m) a =
     (if filter (\<lambda>r. fst r = a) rows = [] then jm_get m a
      else Some ((case jm_get m a of Some b \<Rightarrow> b | None \<Rightarrow> []) @ map snd (filter (\<lambda>r. fst r = a) rows)))"
  by (induction rows arbitrary: m) (auto simp: push_category_def jm_get_set split: option.split)

lemma category_rows_of:
  "a \<in> set ids \<Longrightarrow> filter (\<lambda>r. fst r = a) (category_rows db ids) = category_rows db [a]"
proof -
  assume a: "a \<in> set ids"
  have "filter (\<lambda>r. fst r = a) (concat (map f (filter P xs))) = concat (map f (filter (\<lambda>(b, c). b = a) xs))"
    if "\<And>b c r. r \<in> set (f (b, c)) \<Longrightarrow> fst r = b" and "\<And>c. P (a, c)"
    for f :: "string \<times> string \<Rightarrow> (string \<times> category_ref) list" and P xs
  proof (induction xs)
    case (Cons x xs)
    obtain b c where x: "x = (b, c)" by (cases x)
    have "filter (\<lambda>r. fst r = a) (f (b, c)) = (if b = a then f (b, c) else [])"
      using that(1) by (auto simp: filter_id_conv filter_empty_conv)
    then show ?case using Cons that(2) by (auto simp: x)
  qed simp
  then have "filter (\<lambda>r. fst r = a) (category_rows db ids) =
      concat (map (\<lambda>(a, c). map (\<lambda>r. (a, \<lparr>cf_id = cr_id r, cf_slug = cr_slug r, cf_name = cr_name r\<rparr>))
        (filter (\<lambda>r. cr_id r = c) (cb_categories db))) (filter (\<lambda>(b, c). b = a) (cb_apiCategories db)))"
    unfolding category_rows_def by this (use a in auto)
  moreover have "(\<lambda>(b, c). b \<in> set [a]) = (\<lambda>(b :: string, c :: string). b = a)" by (simp add: fun_eq_iff)
  ultimately show ?thesis unfolding category_rows_def [of db "[a]"] by (simp only:)
qed

text \<open>A map built from one row per key.\<close>

lemma fold_set_rows:
  assumes "distinct (map fst rows)" and "\<And>r m. f r m = jm_set (fst r) (g r (jm_get m (fst r))) m"
  shows "jm_get (fold f rows m) a = (case map_of rows a of None \<Rightarrow> jm_get m a | Some v \<Rightarrow> Some (g (a, v) (jm_get m a)))"
  using assms(1)
proof (induction rows arbitrary: m)
  case (Cons r rows)
  obtain k v where r: "r = (k, v)" by (cases r)
  have "map_of rows k = None" using Cons.prems by (auto simp: r map_of_eq_None_iff)
  then show ?case using Cons by (auto simp: r assms(2) jm_get_set split: option.split)
qed simp

lemma map_of_remdups: "map_of (map (\<lambda>a. (a, h a)) (remdups xs)) a = (if a \<in> set xs then Some (h a) else None)"
  by (simp add: map_of_map_restrict)

lemma rating_rows_get:
  assumes "a \<in> set ids"
  shows "map_of (rating_rows db ids) a =
    (let rs = published_ratings db a in if rs = [] then None else Some (Some (sum_list rs / of_nat (length rs)), length rs))"
proof -
  let ?rows = "filter (\<lambda>r. rv_apiId r \<in> set ids \<and> rv_moderationStatus r = ''published'') (cb_reviews db)"
  have "filter (\<lambda>r. rv_apiId r = a) ?rows = filter (\<lambda>r. rv_apiId r = a \<and> rv_moderationStatus r = ''published'') (cb_reviews db)"
    using assms by (auto intro: filter_cong)
  moreover have "a \<in> set (map rv_apiId ?rows) \<longleftrightarrow> published_ratings db a \<noteq> []"
    using assms by (auto simp: published_ratings_def filter_empty_conv)
  ultimately show ?thesis
    unfolding rating_rows_def Let_def map_of_remdups by (auto simp: published_ratings_def)
qed

lemma favorite_rows_get:
  assumes "a \<in> set ids"
  shows "map_of (favorite_rows db ids) a =
    (let n = length (filter (\<lambda>(u, b). b = a) (cb_favorites db)) in if n = 0 then None else Some n)"
proof -
  let ?rows = "filter (\<lambda>(u, b). b \<in> set ids) (cb_favorites db)"
  have "filter (\<lambda>(u, b). b = a) ?rows = filter (\<lambda>(u, b). b = a) (cb_favorites db)"
    using assms by (auto intro: filter_cong)
  moreover have "a \<in> set (map snd ?rows) \<longleftrightarrow> filter (\<lambda>(u, b). b = a) (cb_favorites db) \<noteq> []"
    using assms by (force simp: filter_empty_conv)
  ultimately show ?thesis unfolding favorite_rows_def Let_def map_of_remdups by auto
qed

lemma distinct_groups: "distinct (map fst (rating_rows db ids))" "distinct (map fst (favorite_rows db ids))"
  by (simp_all add: rating_rows_def favorite_rows_def Let_def comp_def)

lemma hydrate_batched: "hydrate stamp db rows = map (hydrate_alone stamp db) rows"
proof (cases "rows = []")
  case False
  let ?ids = "map aw_id rows"
  have "toApiSummary stamp row
      (case jm_get (fold push_category (category_rows db ?ids) []) (aw_id row) of Some cs \<Rightarrow> cs | None \<Rightarrow> [])
      (jm_get (fold put_favorites (favorite_rows db ?ids) (fold put_rating (rating_rows db ?ids) [])) (aw_id row)) =
    hydrate_alone stamp db row" if "row \<in> set rows" for row
  proof -
    have a: "aw_id row \<in> set ?ids" using that by simp
    have c: "(case jm_get (fold push_category (category_rows db ?ids) []) (aw_id row) of Some cs \<Rightarrow> cs | None \<Rightarrow> []) =
        map snd (category_rows db [aw_id row])"
      unfolding fold_push_category category_rows_of [OF a] by simp
    have r: "jm_get (fold put_rating (rating_rows db ?ids) []) b =
        (case map_of (rating_rows db ?ids) b of None \<Rightarrow> None
         | Some v \<Rightarrow> Some \<lparr>aa_averageRating = fst v, aa_reviewCount = snd v, aa_favoriteCount = 0\<rparr>)" for b
      by (subst fold_set_rows [OF distinct_groups(1), where
          g = "\<lambda>r _. \<lparr>aa_averageRating = fst (snd r), aa_reviewCount = snd (snd r), aa_favoriteCount = 0\<rparr>"])
        (simp_all add: put_rating_def split: option.split)
    have f: "jm_get (fold put_favorites (favorite_rows db ?ids) m) b =
        (case map_of (favorite_rows db ?ids) b of None \<Rightarrow> jm_get m b
         | Some n \<Rightarrow> Some ((case jm_get m b of Some e \<Rightarrow> e
             | None \<Rightarrow> \<lparr>aa_averageRating = None, aa_reviewCount = 0, aa_favoriteCount = 0\<rparr>)\<lparr>aa_favoriteCount := n\<rparr>))" for m b
      by (subst fold_set_rows [OF distinct_groups(2), where
          g = "\<lambda>r old. (case old of Some e \<Rightarrow> e | None \<Rightarrow> \<lparr>aa_averageRating = None, aa_reviewCount = 0, aa_favoriteCount = 0\<rparr>)\<lparr>aa_favoriteCount := snd r\<rparr>"])
        (simp_all add: put_favorites_def Let_def split: option.split)
    show ?thesis
      unfolding c f r rating_rows_get [OF a] favorite_rows_get [OF a] hydrate_alone_def Let_def
      by (simp add: toApiSummary_def)
  qed
  then show ?thesis using False by (simp add: hydrate_def Let_def)
qed (simp add: hydrate_def)

section \<open>What a listing holds\<close>









lemma find_none: "k \<notin> f ` set xs \<Longrightarrow> List.find (\<lambda>i. f i = k) xs = None"
  by (induction xs) auto

lemma fold_by_id:
  "distinct (map f items) \<Longrightarrow> jm_get (fold (\<lambda>item. jm_set (f item) item) items m) k =
     (case List.find (\<lambda>i. f i = k) items of None \<Rightarrow> jm_get m k | Some i \<Rightarrow> Some i)"
proof (induction items arbitrary: m)
  case (Cons x xs)
  have "List.find (\<lambda>i. f i = f x) xs = None" using Cons.prems by (intro find_none) simp
  then show ?case using Cons by (auto simp: jm_get_set split: option.split)
qed simp

lemma find_summary:
  "(\<And>r. key (g r) = f r) \<Longrightarrow> List.find (\<lambda>i. key i = k) (map g rows) = map_option g (List.find (\<lambda>r. f r = k) rows)"
  by (induction rows) auto

lemma find_wanted:
  "i \<in> set ids \<Longrightarrow> List.find (\<lambda>r. f r = i) (filter (\<lambda>row. f row \<in> set ids) rows) = List.find (\<lambda>r. f r = i) rows"
  by (induction rows) auto

lemma findManyByIds_find:
  assumes "distinct (map aw_id (cb_rows db))"
  shows "findManyByIds stamp db ids =
    List.map_filter (\<lambda>i. map_option (hydrate_alone stamp db) (List.find (\<lambda>r. aw_id r = i) (cb_rows db))) ids"
proof (cases "ids = []")
  case False
  let ?rows = "filter (\<lambda>row. aw_id row \<in> set ids) (cb_rows db)"
  have key: "as_id (hydrate_alone stamp db r) = aw_id r" for r by (simp add: hydrate_alone_def Let_def toApiSummary_def)
  have "distinct (map as_id (map (hydrate_alone stamp db) ?rows))"
    using assms by (simp add: comp_def key distinct_map_filter)
  moreover have "List.find (\<lambda>r. aw_id r = i) ?rows = List.find (\<lambda>r. aw_id r = i) (cb_rows db)" if "i \<in> set ids" for i
    using that by (rule find_wanted)
  ultimately show ?thesis
    using False unfolding findManyByIds_def Let_def hydrate_batched
    by (auto simp: fold_by_id find_summary [where key = as_id, OF key] map_filter_def
        intro!: arg_cong [where f = concat] map_cong filter_cong split: option.split)
qed (simp add: findManyByIds_def map_filter_simps)

text \<open>Looking up a list of identifiers answers in the order of the list, each with its own summary, and
  leaves out exactly the ones the table does not have.\<close>

theorem findManyByIds_ordered:
  assumes "distinct (map aw_id (cb_rows db))"
  shows "findManyByIds stamp db ids =
    List.map_filter (\<lambda>i. map_option (hydrate_alone stamp db) (List.find (\<lambda>r. aw_id r = i) (cb_rows db))) ids"
  by (rule findManyByIds_find [OF assms])

definition demo_row :: "string \<Rightarrow> string \<Rightarrow> api_row_with_health" where
  "demo_row a status =
     \<lparr>aw_id = a, aw_slug = a, aw_name = a, aw_provider = None, aw_description = [], aw_docsUrl = None,
      aw_baseUrl = None, aw_authType = ''none'', aw_httpsSupported = True, aw_corsStatus = ''yes'', aw_isFree = True,
      aw_hasFreeTier = True, aw_status = status, aw_popularityScore = 50, aw_tags = None, aw_updatedAt = 0,
      aw_createdAt = 0, aw_healthStatus = None, aw_healthLatency = None, aw_healthUptime30d = None,
      aw_healthReliability = None, aw_healthCheckedAt = None, aw_healthFailures = None\<rparr>"

definition demo_db :: catalog_db where
  "demo_db =
     \<lparr>cb_rows = [demo_row ''a'' ''active'', demo_row ''b'' ''rejected''],
      cb_details = [(''b'', \<lparr>dc_longDescription = None, dc_rateLimit = None, dc_sourceName = None, dc_sourceUrl = None,
        dc_sourceRevision = None, dc_sourceLicense = None, dc_transformVersion = None, dc_importedAt = None, dc_createdAt = 0\<rparr>)],
      cb_categories = [], cb_apiCategories = [], cb_reviews = [\<lparr>rv_apiId = ''a'', rv_ratingOverall = 4, rv_moderationStatus = ''published''\<rparr>],
      cb_favorites = [], cb_endpoints = [], cb_authSchemes = [], cb_views = [], cb_ingestionFinished = []\<rparr>"

theorem findManyByIds_ordered_witness:
  "map (\<lambda>i. (as_id i, as_reviewCount i)) (findManyByIds (\<lambda>_. []) demo_db [''b'', ''x'', ''a'']) = [(''b'', 0), (''a'', 1)]"
proof -
  have d: "distinct (map aw_id (cb_rows demo_db))" by code_simp
  show ?thesis unfolding findManyByIds_ordered [OF d] by code_simp
qed

text \<open>The lookups do not ask for an active API: the detail page of a rejected one is served, and so is its
  summary by identifier or slug, while no listing shows it.\<close>

lemma rejected_api_served:
  "map_option as_status (map_option api_summary.truncate (findBySlug (\<lambda>_. []) demo_db ''b'')) = Some ''rejected''"
  "map as_status (findManyBySlugs (\<lambda>_. []) demo_db [''b'']) = [''rejected'']"
  by code_simp+

text \<open>The counts of the features do count under the features that are already chosen.\<close>

lemma features_count_themselves:
  "fc_features (facets (demo_db\<lparr>cb_rows := [demo_row ''a'' ''active'', (demo_row ''b'' ''active'')\<lparr>aw_isFree := False\<rparr>]\<rparr>)
     \<lparr>lq_page = 1, lq_pageSize = 24, lq_category = None, lq_categoryId = None, lq_auth = None, lq_https = None,
      lq_cors = None, lq_free = Some True, lq_status = None, lq_minRating = None, lq_tags = None, lq_sort = ''popularity''\<rparr>) =
   [(''free'', 1), (''https'', 1), (''cors'', 1)]"
  by code_simp

end
