(* ===== verification/SearchService.thy ===== *)
theory SearchService
  imports SearchRanking QueryParser TopK CatalogRepository
begin

text \<open>
  Search: the candidate queries (\<open>apps/api/src/modules/search/repository.ts\<close>) over the tables of
  \<open>CatalogRepository\<close>, and the pipeline that parses, retrieves, broadens, ranks, pages and corrects
  (\<open>service.ts\<close>). The database's text search (match and rank) and the exponential are parameters; the
  cache is what a lookup of its key gives.
\<close>

section \<open>Retrieval\<close>

definition CANDIDATE_LIMIT :: nat where
  "CANDIDATE_LIMIT = 400"

record search_candidate = ranking_candidate +
  cn_name :: string
  cn_description :: string

definition ranked_part :: "search_candidate \<Rightarrow> ranking_candidate" where
  "ranked_part c = ranking_candidate.truncate c"

definition toCandidate :: "catalog_db \<Rightarrow> (api_row_with_health \<Rightarrow> rat) \<Rightarrow> api_row_with_health \<Rightarrow> search_candidate" where
  "toCandidate db rank row =
     \<lparr>rk_id = aw_id row, rk_textRank = rank row, rk_popularityScore = aw_popularityScore row,
      rk_reliabilityScore = aw_healthReliability row,
      rk_latencyMs = map_option of_int (aw_healthLatency row), rk_updatedAt = aw_updatedAt row,
      rk_isFree = aw_isFree row, rk_hasFreeTier = aw_hasFreeTier row,
      rk_hasDocs = (aw_docsUrl row \<noteq> None \<and> aw_docsUrl row \<noteq> Some []),
      rk_hasEndpoints = list_ex (\<lambda>e. fst e = aw_id row) (cb_endpoints db),
      rk_httpsSupported = aw_httpsSupported row, rk_semanticScore = None,
      cn_name = aw_name row, cn_description = aw_description row\<rparr>"

text \<open>The database's text search: does a row match a query, and its rank.\<close>

record text_search =
  ts_matches :: "string \<Rightarrow> api_row_with_health \<Rightarrow> bool"
  ts_rank :: "string \<Rightarrow> api_row_with_health \<Rightarrow> rat"

definition textSearchSpecification :: "text_search \<Rightarrow> string \<Rightarrow> filter_spec" where
  "textSearchSpecification fts tsquery =
     (if tsquery = [] then None else Some (\<lambda>r. ts_matches fts tsquery (ct_row r)))"

text \<open>The filters are handed on as those of a list query.\<close>

type_synonym candidate_filters = list_query

definition findCandidates ::
  "text_search \<Rightarrow> catalog_db \<Rightarrow> string \<Rightarrow> candidate_filters \<Rightarrow> nat \<Rightarrow> search_candidate list"
where
  "findCandidates fts db tsquery filters limit =
     map (toCandidate db (ts_rank fts tsquery))
       (take limit (sort_by (\<lambda>a b. ts_rank fts tsquery b \<le> ts_rank fts tsquery a)
         (selected db (all_specs (specificationsFor filters @ [textSearchSpecification fts tsquery])))))"

definition by_popularity :: "api_row_with_health list \<Rightarrow> api_row_with_health list" where
  "by_popularity = sort_by (\<lambda>a b. aw_popularityScore b \<le> aw_popularityScore a)"

definition findBrowseCandidates :: "catalog_db \<Rightarrow> candidate_filters \<Rightarrow> nat \<Rightarrow> search_candidate list" where
  "findBrowseCandidates db filters limit =
     map (toCandidate db (\<lambda>_. 0)) (take limit (by_popularity (selected db (all_specs (specificationsFor filters)))))"

text \<open>The pattern language of LIKE, with its escape; ILIKE is it on lower case.\<close>

fun like :: "string \<Rightarrow> string \<Rightarrow> bool" where
  "like [] s = (s = [])"
| "like (p # ps) s =
     (if p = CHR ''%'' then list_ex (\<lambda>k. like ps (drop k s)) [0..<Suc (length s)]
      else if p = CHR ''_'' then s \<noteq> [] \<and> like ps (tl s)
      else if p = CHR 0x5C then (case ps of [] \<Rightarrow> False | q # qs \<Rightarrow> s \<noteq> [] \<and> hd s = q \<and> like qs (tl s))
      else s \<noteq> [] \<and> hd s = p \<and> like ps (tl s))"

definition ilike :: "string option \<Rightarrow> string \<Rightarrow> bool" where
  "ilike column pattern = (case column of None \<Rightarrow> False | Some s \<Rightarrow> like (toLowerCase pattern) (toLowerCase s))"

definition findFuzzyCandidates :: "catalog_db \<Rightarrow> string list \<Rightarrow> candidate_filters \<Rightarrow> nat \<Rightarrow> search_candidate list" where
  "findFuzzyCandidates db terms filters limit =
     (case filter (\<lambda>term. 3 \<le> length term) terms of
        [] \<Rightarrow> []
      | long \<Rightarrow>
          map (toCandidate db (\<lambda>_. 5 / 100))
            (take limit (by_popularity (filter (\<lambda>row.
               list_ex (\<lambda>term. ilike (Some (aw_name row)) (''%'' @ term @ ''%'') \<or>
                               ilike (aw_provider row) (''%'' @ term @ ''%'')) long)
               (selected db (all_specs (specificationsFor filters)))))))"

record suggestion =
  sg_text :: string
  sg_type :: string
  sg_slug :: string
  sg_hint :: "string option"

definition suggest_rows :: "catalog_db \<Rightarrow> string \<Rightarrow> nat \<Rightarrow> suggestion list" where
  "suggest_rows db prefix limit =
     (let pattern = prefix @ ''%''; containsPattern = ''%'' @ prefix @ ''%'';
          apiRows = take limit (sort_by (\<lambda>a b.
              let pa = ilike (Some (aw_name a)) pattern; pb = ilike (Some (aw_name b)) pattern in
              (pb \<longrightarrow> pa) \<and> (pa = pb \<longrightarrow> aw_popularityScore b \<le> aw_popularityScore a))
            (filter (\<lambda>r. aw_status r = ''active'' \<and>
               (ilike (Some (aw_name r)) pattern \<or> ilike (Some (aw_name r)) containsPattern)) (cb_rows db)));
          categoryRows = take 3 (sort_by (\<lambda>a b. cr_apiCount b \<le> cr_apiCount a)
            (filter (\<lambda>c. ilike (Some (cr_name c)) containsPattern) (cb_categories db)))
      in map (\<lambda>r. \<lparr>sg_text = aw_name r, sg_type = ''api'', sg_slug = aw_slug r, sg_hint = aw_provider r\<rparr>) apiRows @
         map (\<lambda>c. \<lparr>sg_text = cr_name c, sg_type = ''category'', sg_slug = cr_slug c, sg_hint = Some ''Category''\<rparr>) categoryRows)"

definition namesForSpellCheck :: "catalog_db \<Rightarrow> nat \<Rightarrow> string list" where
  "namesForSpellCheck db limit =
     map aw_name (take limit (by_popularity (filter (\<lambda>r. aw_status r = ''active'') (cb_rows db))))"

text \<open>The counters of search terms, by day.\<close>

definition recordSearch :: "string \<Rightarrow> string \<Rightarrow> nat \<Rightarrow> ((string \<times> string), nat \<times> nat) jsmap \<Rightarrow> ((string \<times> string), nat \<times> nat) jsmap" where
  "recordSearch day term resultCount m =
     (let normalised = take 100 (toLowerCase (trim term)); zero = (if resultCount = 0 then 1 else 0) in
      if normalised = [] then m
      else jm_set (day, normalised)
        (case jm_get m (day, normalised) of None \<Rightarrow> (1, zero) | Some (n, z) \<Rightarrow> (n + 1, z + zero)) m)"

section \<open>The pipeline\<close>

definition BROADEN_THRESHOLD :: nat where
  "BROADEN_THRESHOLD = 5"

record search_query =
  sr_q :: string
  sr_mode :: ranking_mode
  sr_list :: list_query

text \<open>What the user set wins over what the text implies.\<close>

definition or_else :: "'a option \<Rightarrow> 'a option \<Rightarrow> 'a option" where
  "or_else x y = (case x of Some v \<Rightarrow> Some v | None \<Rightarrow> y)"

definition search_filters :: "search_query \<Rightarrow> parsed_query \<Rightarrow> candidate_filters" where
  "search_filters query parsed =
     (let l = sr_list query; inferred = pq_inferred parsed in
      \<lparr>lq_page = lq_page l, lq_pageSize = lq_pageSize l, lq_category = lq_category l, lq_categoryId = None,
       lq_auth = or_else (lq_auth l) (if qi_noAuth inferred = Some True then Some ''none'' else None),
       lq_https = or_else (lq_https l) (qi_httpsOnly inferred), lq_cors = or_else (lq_cors l) (qi_corsRequired inferred),
       lq_free = or_else (lq_free l) (qi_free inferred), lq_status = lq_status l, lq_minRating = None,
       lq_tags = lq_tags l, lq_sort = lq_sort l\<rparr>)"

definition retrieve :: "text_search \<Rightarrow> catalog_db \<Rightarrow> parsed_query \<Rightarrow> candidate_filters \<Rightarrow> search_candidate list \<times> bool" where
  "retrieve fts db parsed filters =
     (if pq_tsquery parsed \<noteq> []
      then
        let first = findCandidates fts db (pq_tsquery parsed) filters CANDIDATE_LIMIT;
            broad = (if length first < BROADEN_THRESHOLD \<and> 1 < length (pq_terms parsed)
              then (let orQuery = toOrQuery parsed in
                    if orQuery \<noteq> [] then findCandidates fts db orQuery filters CANDIDATE_LIMIT else first)
              else first)
        in if broad = []
           then (let fuzzy = findFuzzyCandidates db (pq_terms parsed) filters 50 in (fuzzy, fuzzy \<noteq> []))
           else (broad, False)
      else (findBrowseCandidates db filters CANDIDATE_LIMIT, False))"

definition max_text_rank :: "search_candidate list \<Rightarrow> rat" where
  "max_text_rank cs = fold (\<lambda>c m. max m (rk_textRank c)) cs 0"

definition breakdowns_of ::
  "(rat \<Rightarrow> rat) \<Rightarrow> ranking_mode \<Rightarrow> time \<Rightarrow> search_candidate list \<Rightarrow> (string, score_breakdown) jsmap"
where
  "breakdowns_of expo mode now cs =
     fold (\<lambda>c. jm_set (rk_id c) (rankingStrategyFor expo mode (ranked_part c)
       \<lparr>rx_maxTextRank = max_text_rank cs, rx_now = now\<rparr>)) cs []"

definition total_of :: "(string, score_breakdown) jsmap \<Rightarrow> search_candidate \<Rightarrow> rat" where
  "total_of bs c = (case jm_get bs (rk_id c) of Some b \<Rightarrow> sb_total b | None \<Rightarrow> 0)"

text \<open>The window over the pages up to this one, and the page of it.\<close>

definition ranked_page :: "nat \<Rightarrow> nat \<Rightarrow> ('a \<Rightarrow> rat) \<Rightarrow> 'a list \<Rightarrow> 'a scored list" where
  "ranked_page page pageSize score_of cs =
     take pageSize (drop ((page - 1) * pageSize)
       (topK cs (int (min (page * pageSize) CANDIDATE_LIMIT)) score_of None))"

definition to_fixed :: "nat \<Rightarrow> rat \<Rightarrow> rat" where
  "to_fixed digits x = of_int (js_round (x * 10 ^ digits)) / 10 ^ digits"

record search_hit =
  sh_api :: api_summary
  sh_score :: rat
  sh_breakdown :: "score_breakdown option"
  sh_matchedTerms :: "string list"
  sh_highlights :: "(string option \<times> string option) option"

definition hit_of ::
  "parsed_query \<Rightarrow> (string, score_breakdown) jsmap \<Rightarrow> (string, api_summary) jsmap \<Rightarrow> search_candidate scored \<Rightarrow> search_hit option"
where
  "hit_of parsed bs summaryById entry =
     (case jm_get summaryById (rk_id (sc_item entry)) of
        None \<Rightarrow> None
      | Some api \<Rightarrow>
          (let nameHighlight = highlight (cn_name (sc_item entry)) (pq_terms parsed) 120;
               descriptionHighlight = highlight (cn_description (sc_item entry)) (pq_terms parsed) 220
           in Some \<lparr>sh_api = api, sh_score = to_fixed 4 (sc_score entry), sh_breakdown = jm_get bs (rk_id (sc_item entry)),
                sh_matchedTerms = pq_terms parsed,
                sh_highlights = (if (nameHighlight \<noteq> None \<and> nameHighlight \<noteq> Some []) \<or>
                    (descriptionHighlight \<noteq> None \<and> descriptionHighlight \<noteq> Some [])
                  then Some (nameHighlight, descriptionHighlight) else None)\<rparr>))"

text \<open>The name most like the query, the first of equals.\<close>

definition better_name :: "string \<Rightarrow> string \<Rightarrow> (string \<times> rat) option \<Rightarrow> (string \<times> rat) option" where
  "better_name target name best =
     (let score = similarityRatio target (toLowerCase name) in
      case best of None \<Rightarrow> Some (name, score) | Some (n, s) \<Rightarrow> if s < score then Some (name, score) else Some (n, s))"

definition suggestCorrection :: "string list \<Rightarrow> string \<Rightarrow> string list \<Rightarrow> string option" where
  "suggestCorrection names original terms =
     (if terms = [] \<or> length original < 3 then None
      else
        let target = toLowerCase (trim original) in
        case fold (better_name target) names None of
          None \<Rightarrow> None
        | Some (name, score) \<Rightarrow> if 6 / 10 \<le> score \<and> toLowerCase name \<noteq> target then Some name else None)"

record search_result =
  se_hits :: "search_hit list"
  se_didYouMean :: "string option"
  se_tookMs :: rat
  se_mode :: ranking_mode

text \<open>\<open>names\<close> is the cached or fresh list of names.\<close>

definition execute_search ::
  "text_search \<Rightarrow> (rat \<Rightarrow> rat) \<Rightarrow> (time \<Rightarrow> string) \<Rightarrow> catalog_db \<Rightarrow> string list \<Rightarrow> time \<Rightarrow> rat \<Rightarrow> search_query \<Rightarrow> search_result \<times> nat"
where
  "execute_search fts expo stamp db names now elapsed query =
     (let parsed = parseQuery (sr_q query) None;
          filters = search_filters query parsed;
          (candidates, usedFallback) = retrieve fts db parsed filters;
          found = length candidates;
          mode = (if pq_tsquery parsed = [] then Browse else sr_mode query);
          bs = breakdowns_of expo mode now candidates;
          page = ranked_page (lq_page (sr_list query)) (lq_pageSize (sr_list query)) (total_of bs) candidates;
          summaries = findManyByIds stamp db (map (\<lambda>e. rk_id (sc_item e)) page);
          summaryById = fold (\<lambda>s. jm_set (as_id s) s) summaries [];
          hits = List.map_filter (hit_of parsed bs summaryById) page;
          didYouMean = (if found < BROADEN_THRESHOLD then suggestCorrection names (sr_q query) (pq_terms parsed) else None)
      in (\<lparr>se_hits = hits, se_didYouMean = didYouMean, se_tookMs = of_int (js_round (elapsed * 100)) / 100,
           se_mode = (if usedFallback then Lexical else if mode = Browse then Lexical else mode)\<rparr>, found))"

record pagination_meta =
  pm_page :: nat
  pm_pageSize :: nat
  pm_total :: nat
  pm_totalPages :: nat
  pm_hasNext :: bool
  pm_hasPrevious :: bool

definition buildPaginationMeta :: "nat \<Rightarrow> nat \<Rightarrow> nat \<Rightarrow> pagination_meta" where
  "buildPaginationMeta page pageSize found =
     (let totalPages = (if 0 < pageSize then nat (js_ceil (of_nat found / of_nat pageSize)) else 0) in
      \<lparr>pm_page = page, pm_pageSize = pageSize, pm_total = found, pm_totalPages = totalPages,
       pm_hasNext = (page < totalPages), pm_hasPrevious = (1 < page)\<rparr>)"

text \<open>\<open>lookup\<close> is what the cache holds; the entries of the query are its fields as the hash sees them.\<close>

definition search ::
  "(string \<Rightarrow> (search_result \<times> nat) option) \<Rightarrow> (string \<Rightarrow> string) \<Rightarrow> (string \<Rightarrow> string \<Rightarrow> bool) \<Rightarrow> (string \<times> query_value) list \<Rightarrow>
     text_search \<Rightarrow> (rat \<Rightarrow> rat) \<Rightarrow> (time \<Rightarrow> string) \<Rightarrow> catalog_db \<Rightarrow> string list \<Rightarrow> time \<Rightarrow> rat \<Rightarrow> search_query \<Rightarrow>
     search_result \<times> pagination_meta \<times> bool"
where
  "search lookup sha1 locale_le entries fts expo stamp db names now elapsed query =
     (let key = ''search:'' @ hashQuery sha1 locale_le entries;
          hit = lookup key;
          payload = (case hit of Some p \<Rightarrow> p | None \<Rightarrow> execute_search fts expo stamp db names now elapsed query)
      in (fst payload,
          buildPaginationMeta (lq_page (sr_list query)) (lq_pageSize (sr_list query)) (snd payload), hit \<noteq> None))"

definition suggest :: "(string \<Rightarrow> suggestion list option) \<Rightarrow> catalog_db \<Rightarrow> string \<Rightarrow> nat \<Rightarrow> suggestion list" where
  "suggest lookup db prefix limit =
     (let normalised = toLowerCase (trim prefix) in
      if normalised = [] then []
      else case lookup (''suggest:'' @ normalised @ '':'' @ show_nat limit) of
             Some rows \<Rightarrow> rows | None \<Rightarrow> suggest_rows db normalised limit)"

definition related :: "(time \<Rightarrow> string) \<Rightarrow> catalog_db \<Rightarrow> string \<Rightarrow> nat \<Rightarrow> api_summary list" where
  "related stamp db apiId limit = findManyByIds stamp db (map fst (findAlternatives db apiId limit))"

section \<open>Pages\<close>

abbreviation score_desc :: "'a scored \<Rightarrow> 'a scored \<Rightarrow> bool" where
  "score_desc a b \<equiv> sc_score b \<le> sc_score a"

lemma sorted_score_desc: "sorted_wrt score_desc (sort_by score_desc xs)"
  by (rule sorted_sort_by) auto

text \<open>With distinct scores the bounded heap gives the first entries of the full ranking.\<close>

lemma topK_distinct:
  assumes "distinct (map score_of items)"
  shows "topK items (int k) score_of None = take k (sort_by score_desc (map (score_entry score_of) items))"
proof -
  let ?E = "map (score_entry score_of) items" and ?T = "topK items (int k) score_of None"
  obtain rest where "selects (topk_cmp None) k (mset ?E) (mset ?T) rest"
    using topK_selects(1) [where tie = None and k = "int k" and score_of = score_of and items = items] by (auto simp: tie_ok_def)
  then have sel: "mset ?E = mset ?T + rest" "size (mset ?T) \<le> k" "rest = {#} \<or> size (mset ?T) = k"
    "\<forall>r\<in>#rest. \<forall>x\<in>#mset ?T. topk_cmp None r x \<le> 0"
    unfolding selects_def by blast+
  obtain rs where rs: "mset rs = rest" using ex_mset by blast
  let ?R = "sort_by score_desc rs"
  have R: "mset ?R = rest" using rs by simp
  have "sorted_wrt score_desc ?T"
    using topK_selects(2) [where tie = None and k = "int k" and score_of = score_of and items = items]
    by (auto simp: tie_ok_def topk_cmp_def elim!: sorted_wrt_mono_rel [rotated] split: if_splits)
  moreover have "score_desc x r" if "x \<in> set ?T" "r \<in> set ?R" for x r
  proof -
    have "r \<in># rest" using that(2) R by (metis set_mset_mset)
    then have "topk_cmp None r x \<le> 0" using sel(4) that(1) by simp
    then show ?thesis by (simp add: topk_cmp_def split: if_splits)
  qed
  ultimately have sorted: "sorted_wrt score_desc (?T @ ?R)"
    using sorted_score_desc [of rs] by (simp add: sorted_wrt_append)
  have same: "mset (?T @ ?R) = mset (sort_by score_desc ?E)" using sel(1) R by simp
  have "a = b" if "a \<in> set (?T @ ?R)" "b \<in> set (?T @ ?R)" "score_desc a b" "score_desc b a" for a b
  proof -
    note ab = that
    have "set (?T @ ?R) = set ?E" using same by (metis mset_sort_by set_mset_mset)
    then obtain x y where "x \<in> set items" "y \<in> set items" "a = score_entry score_of x" "b = score_entry score_of y"
      using ab(1,2) by auto
    moreover have "sc_score a = sc_score b" using ab(3,4) by simp
    ultimately show ?thesis using assms by (auto simp: score_entry_def distinct_map dest: inj_onD)
  qed
  then have "?T @ ?R = sort_by score_desc ?E"
    by (intro sorted_wrt_unique [OF same sorted sorted_score_desc])
  then have "take k (sort_by score_desc ?E) = take k (?T @ ?R)" by simp
  also have "\<dots> = ?T"
  proof (cases "rest = {#}")
    case True
    then have "?R = []" using R by (metis mset_zero_iff)
    then show ?thesis using sel(2) by simp
  next
    case False
    then show ?thesis using sel(3) by simp
  qed
  finally show ?thesis by simp
qed

lemma retrieve_bounded: "length (fst (retrieve fts db parsed filters)) \<le> CANDIDATE_LIMIT"
  by (auto simp: retrieve_def Let_def findCandidates_def findBrowseCandidates_def findFuzzyCandidates_def
      CANDIDATE_LIMIT_def split: list.split)

lemma ranked_page_slice:
  assumes "distinct (map score_of cs)" and "length cs \<le> CANDIDATE_LIMIT" and "0 < page"
  shows "ranked_page page pageSize score_of cs =
    take pageSize (drop ((page - 1) * pageSize) (sort_by score_desc (map (score_entry score_of) cs)))"
proof -
  let ?S = "sort_by score_desc (map (score_entry score_of) cs)"
  have len: "length ?S \<le> CANDIDATE_LIMIT"
    using assms(2) by (metis length_map mset_sort_by size_mset)
  have "take (min (page * pageSize) CANDIDATE_LIMIT) ?S = take (page * pageSize) ?S"
    using len by (simp add: min_def)
  moreover have "page * pageSize = (page - 1) * pageSize + pageSize"
    using assms(3) by (cases page) simp_all
  ultimately show ?thesis
    by (simp add: ranked_page_def topK_distinct [OF assms(1)] drop_take)
qed

text \<open>When no two candidates score the same, the pages of a search are consecutive slices of one ranking:
  the first n pages together are its best candidates in order, none twice and none left out.\<close>

theorem search_pages_partition:
  assumes "distinct (map score_of cs)" and "length cs \<le> CANDIDATE_LIMIT"
  shows "concat (map (\<lambda>page. ranked_page page pageSize score_of cs) [1..<Suc n]) =
    take (n * pageSize) (sort_by score_desc (map (score_entry score_of) cs))"
proof (induction n)
  case (Suc n)
  have "take (Suc n * pageSize) xs = take (n * pageSize) xs @ take pageSize (drop (n * pageSize) xs)" for xs :: "'a scored list"
    by (simp add: take_add [symmetric] add.commute)
  then show ?case
    using Suc ranked_page_slice [OF assms, of "Suc n" pageSize] by simp
qed simp

theorem search_pages_partition_witness:
  "map sc_item (concat (map (\<lambda>page. ranked_page page 2 (\<lambda>x :: nat. of_nat (x mod 7)) [3, 8, 13, 5, 9]) [1..<Suc 2])) = [13, 5, 3, 9]"
proof -
  have d: "distinct (map (\<lambda>x :: nat. of_nat (x mod 7) :: rat) [3, 8, 13, 5, 9])" by simp
  have l: "length [3, 8, 13, 5, 9 :: nat] \<le> CANDIDATE_LIMIT" by (simp add: CANDIDATE_LIMIT_def)
  show ?thesis
    unfolding search_pages_partition [OF d l] by (simp add: sort_by_def score_entry_def)
qed

text \<open>With equal scores they are not: the heap keeps and orders equals by chance of the window, so the
  second page repeats the candidate of the first and the other one is on neither.\<close>

lemma equal_scores_repeat:
  "map sc_item (ranked_page 1 1 (\<lambda>_. 1) [''a'', ''b'']) = [''a''] \<and> map sc_item (ranked_page 2 1 (\<lambda>_. 1) [''a'', ''b'']) = [''a'']"
  by code_simp

section \<open>Corrections and patterns\<close>

lemma best_name:
  "fold (better_name target) names best = Some (n, s) \<Longrightarrow>
   (\<And>m t. best = Some (m, t) \<Longrightarrow> t = similarityRatio target (toLowerCase m)) \<Longrightarrow>
   s = similarityRatio target (toLowerCase n) \<and> (n \<in> set names \<or> map_option fst best = Some n) \<and>
   (\<forall>m\<in>set names. similarityRatio target (toLowerCase m) \<le> s) \<and> (case best of Some (_, t) \<Rightarrow> t \<le> s | None \<Rightarrow> True)"
proof (induction names arbitrary: best)
  case (Cons x xs)
  let ?b = "better_name target x best"
  have "t = similarityRatio target (toLowerCase m)" if "?b = Some (m, t)" for m t
    using that Cons.prems(2) by (auto simp: better_name_def Let_def split: option.splits if_splits)
  note IH = Cons.IH [of ?b, OF _ this]
  have "fold (better_name target) xs ?b = Some (n, s)" using Cons.prems(1) by simp
  note IH [OF this]
  then show ?case
    by (auto simp: better_name_def Let_def split: option.splits if_splits)
qed auto

text \<open>A correction is one of the names, none of which is more like the query, at least three fifths like it,
  and not the query itself.\<close>

lemma suggestCorrection_best:
  assumes "suggestCorrection names original terms = Some name"
  shows "name \<in> set names \<and> 6 / 10 \<le> similarityRatio (toLowerCase (trim original)) (toLowerCase name) \<and>
    (\<forall>m\<in>set names. similarityRatio (toLowerCase (trim original)) (toLowerCase m) \<le>
       similarityRatio (toLowerCase (trim original)) (toLowerCase name)) \<and>
    toLowerCase name \<noteq> toLowerCase (trim original)"
proof -
  obtain s where "fold (better_name (toLowerCase (trim original))) names None = Some (name, s)"
    "6 / 10 \<le> s" "toLowerCase name \<noteq> toLowerCase (trim original)"
    using assms by (auto simp: suggestCorrection_def Let_def split: if_splits option.splits)
  then show ?thesis using best_name [of "toLowerCase (trim original)" names None name s] by auto
qed

text \<open>The prefix of a suggestion is a pattern: a percent sign suggests everything.\<close>

lemma percent_suggests_all:
  "map sg_text (suggest (\<lambda>_. None) demo_db ''%'' 8) = [''a'']"
  by code_simp

end
