(* ===== verification/Recommendations.thy ===== *)
theory Recommendations
  imports SearchService
begin

text \<open>
  Recommendations and comparison (\<open>apps/api/src/modules/recommendations/service.ts\<close>) over the search
  and catalogue repositories. The text of a number with a fixed count of digits is a parameter; minus
  infinity, the score of nothing, is None.
\<close>

section \<open>Intent\<close>

definition CATEGORY_HINTS :: "(string \<times> string list) list" where
  "CATEGORY_HINTS =
     [(''weather'', [''weather'', ''forecast'', ''climate'', ''temperature'', ''rain'']),
      (''finance'', [''payment'', ''stripe'', ''invoice'', ''banking'', ''stock'', ''currency'', ''exchange'', ''crypto'']),
      (''geocoding'', [''map'', ''maps'', ''geocode'', ''location'', ''address'', ''places'', ''route'']),
      (''news'', [''news'', ''article'', ''headline'', ''press'', ''journalism'']),
      (''email'', [''email'', ''smtp'', ''mail'', ''newsletter'', ''transactional'']),
      (''sms'', [''sms'', ''text message'', ''twilio'', ''otp'']),
      (''authentication'', [''auth'', ''login'', ''oauth'', ''identity'', ''sso'']),
      (''images'', [''image'', ''photo'', ''picture'', ''thumbnail'', ''avatar'']),
      (''video'', [''video'', ''stream'', ''youtube'', ''media'']),
      (''music'', [''music'', ''song'', ''audio'', ''spotify'', ''track'']),
      (''sports'', [''sport'', ''football'', ''cricket'', ''nba'', ''score'', ''match'']),
      (''government'', [''government'', ''gst'', ''tax'', ''public record'', ''census'']),
      (''health'', [''health'', ''medical'', ''covid'', ''fitness'', ''nutrition'']),
      (''transport'', [''flight'', ''train'', ''transit'', ''airline'', ''travel'', ''hotel'']),
      (''jobs'', [''job'', ''career'', ''recruit'', ''vacancy'', ''hiring'']),
      (''ecommerce'', [''ecommerce'', ''shop'', ''product'', ''cart'', ''order'', ''shipping'']),
      (''security'', [''security'', ''breach'', ''vulnerability'', ''malware'', ''threat'']),
      (''science'', [''science'', ''space'', ''nasa'', ''astronomy'', ''physics'']),
      (''animals'', [''animal'', ''dog'', ''cat'', ''pet'', ''wildlife'']),
      (''food'', [''food'', ''recipe'', ''restaurant'', ''nutrition'', ''meal''])]"

definition inferCategories :: "string \<Rightarrow> string list" where
  "inferCategories text =
     map fst (filter (\<lambda>(category, keywords). list_ex (\<lambda>keyword. contains_text keyword (toLowerCase text)) keywords)
       CATEGORY_HINTS)"

section \<open>Reasons and caveats\<close>

definition AUTH_TYPE_LABELS :: "(string, string) jsmap" where
  "AUTH_TYPE_LABELS =
     [(''none'', ''No auth''), (''apiKey'', ''API key''), (''bearer'', ''Bearer token''), (''basic'', ''Basic auth''),
      (''oauth'', ''OAuth 1.0''), (''oauth2'', ''OAuth 2.0''), (''jwt'', ''JWT''), (''custom'', ''Custom''), (''unknown'', ''Unknown'')]"

definition auth_label :: "string \<Rightarrow> string" where
  "auth_label t = (case jm_get AUTH_TYPE_LABELS t of Some l \<Rightarrow> l | None \<Rightarrow> ''undefined'')"

definition show_int :: "int \<Rightarrow> string" where
  "show_int n = (if n < 0 then ''-'' @ show_nat (nat (- n)) else show_nat (nat n))"

definition buildReasons :: "(nat \<Rightarrow> rat \<Rightarrow> string) \<Rightarrow> api_summary \<Rightarrow> string list" where
  "buildReasons fixed api =
     take 5
       ((if as_isFree api then [''Free to use with no credential required'']
         else if as_hasFreeTier api then [''Offers a free tier''] else []) @
        (if as_authType api = ''none'' then [''No authentication needed to get started'']
         else [''Authentication: '' @ auth_label (as_authType api)]) @
        (if as_httpsSupported api then [''Served over HTTPS''] else []) @
        (if as_corsStatus api = ''yes'' then [''CORS enabled, so it works directly from a browser''] else []) @
        (if hm_status (as_health api) = Up
         then [''Currently operational'' @ (case hm_latencyMs (as_health api) of
                 Some l \<Rightarrow> if l = 0 then [] else '' ('' @ show_int l @ ''ms)'' | None \<Rightarrow> [])]
         else []) @
        (case hm_uptime30d (as_health api) of
           Some u \<Rightarrow> if 99 / 100 \<le> u then [fixed 1 (u * 100) @ ''% uptime over 30 days''] else []
         | None \<Rightarrow> []) @
        (case as_averageRating api of
           Some r \<Rightarrow> if 3 \<le> as_reviewCount api
             then [''Rated '' @ fixed 1 r @ ''/5 by '' @ show_nat (as_reviewCount api) @ '' developers''] else []
         | None \<Rightarrow> []) @
        (if given (as_docsUrl api) then [''Documentation available''] else []))"

definition all_caveats :: "api_summary \<Rightarrow> string list" where
  "all_caveats api =
     (if \<not> as_isFree api \<and> \<not> as_hasFreeTier api then [''No documented free tier''] else []) @
     (if as_authType api = ''oauth2'' \<or> as_authType api = ''oauth''
      then [''Requires an OAuth flow, which adds integration work''] else []) @
     (if as_authType api = ''apiKey'' then [''Requires signing up for an API key''] else []) @
     (if \<not> as_httpsSupported api then [''Does not support HTTPS''] else []) @
     (if as_corsStatus api = ''no'' then [''No CORS support, so browser calls need a server-side proxy''] else []) @
     (case hm_status (as_health api) of
        Down \<Rightarrow> [''Currently failing health checks''] | Degraded \<Rightarrow> [''Currently responding slowly'']
      | Unknown \<Rightarrow> [''Not yet monitored by APIHub''] | Up \<Rightarrow> []) @
     (if given (as_docsUrl api) then [] else [''No documentation link on record''])"

definition buildCaveats :: "api_summary \<Rightarrow> string list" where
  "buildCaveats api = take 4 (all_caveats api)"

section \<open>Recommending\<close>









section \<open>Comparing\<close>

datatype cell = CellText string | CellNumber rat | CellBool bool | CellNull

datatype row_kind = BooleanRow | TextRow | ScoreRow | LatencyRow | RatingRow

record compare_row =
  cw_key :: string
  cw_label :: string
  cw_kind :: row_kind
  cw_values :: "cell list"
  cw_bestIndex :: "nat option"

definition healthRank :: "health_status \<Rightarrow> rat" where
  "healthRank s = (case s of Up \<Rightarrow> 3 | Degraded \<Rightarrow> 2 | Unknown \<Rightarrow> 1 | Down \<Rightarrow> 0)"

text \<open>The scan keeps the best index and score; None is minus infinity.\<close>

fun best_scan :: "('a \<Rightarrow> rat option) \<Rightarrow> 'a list \<Rightarrow> nat \<Rightarrow> nat option \<times> rat option \<Rightarrow> nat option \<times> rat option" where
  "best_scan score [] i best = best"
| "best_scan score (x # xs) i best =
     best_scan score xs (Suc i)
       (case (score x, snd best) of
          (None, _) \<Rightarrow> best
        | (Some v, None) \<Rightarrow> (Some i, Some v)
        | (Some v, Some b) \<Rightarrow> if b < v then (Some i, Some v) else best)"

definition bestBy :: "'a list \<Rightarrow> ('a \<Rightarrow> rat option) \<Rightarrow> nat option" where
  "bestBy items score =
     (case best_scan score items 0 (None, None) of (i, None) \<Rightarrow> None | (i, Some _) \<Rightarrow> i)"

fun index_where :: "('a \<Rightarrow> bool) \<Rightarrow> 'a list \<Rightarrow> nat option" where
  "index_where p [] = None"
| "index_where p (x # xs) = (if p x then Some 0 else map_option Suc (index_where p xs))"

definition booleanRow :: "string \<Rightarrow> string \<Rightarrow> api_summary list \<Rightarrow> (api_summary \<Rightarrow> bool) \<Rightarrow> compare_row" where
  "booleanRow k l apis p =
     \<lparr>cw_key = k, cw_label = l, cw_kind = BooleanRow, cw_values = map (\<lambda>a. CellBool (p a)) apis,
      cw_bestIndex = index_where p apis\<rparr>"

definition number_cell :: "rat option \<Rightarrow> cell" where
  "number_cell x = (case x of Some v \<Rightarrow> CellNumber v | None \<Rightarrow> CellNull)"

definition or_minus_one :: "rat option \<Rightarrow> rat option" where
  "or_minus_one x = Some (case x of Some v \<Rightarrow> v | None \<Rightarrow> - 1)"

definition health_text :: "health_status \<Rightarrow> string" where
  "health_text s = (case s of Up \<Rightarrow> ''up'' | Degraded \<Rightarrow> ''degraded'' | Down \<Rightarrow> ''down'' | Unknown \<Rightarrow> ''unknown'')"

definition compare_rows :: "api_summary list \<Rightarrow> compare_row list" where
  "compare_rows apis =
     [booleanRow ''free'' ''Free to use'' apis as_isFree,
      booleanRow ''freeTier'' ''Free tier'' apis as_hasFreeTier,
      \<lparr>cw_key = ''auth'', cw_label = ''Authentication'', cw_kind = TextRow,
       cw_values = map (\<lambda>a. CellText (auth_label (as_authType a))) apis,
       cw_bestIndex = bestBy apis (\<lambda>a. Some (if as_authType a = ''none'' then 1 else 0))\<rparr>,
      booleanRow ''https'' ''HTTPS'' apis as_httpsSupported,
      booleanRow ''cors'' ''CORS'' apis (\<lambda>a. as_corsStatus a = ''yes''),
      \<lparr>cw_key = ''status'', cw_label = ''Current status'', cw_kind = TextRow,
       cw_values = map (\<lambda>a. CellText (health_text (hm_status (as_health a)))) apis,
       cw_bestIndex = bestBy apis (\<lambda>a. Some (healthRank (hm_status (as_health a))))\<rparr>,
      \<lparr>cw_key = ''latency'', cw_label = ''Latency'', cw_kind = LatencyRow,
       cw_values = map (\<lambda>a. number_cell (map_option of_int (hm_latencyMs (as_health a)))) apis,
       cw_bestIndex = bestBy apis (\<lambda>a. map_option (\<lambda>l. - of_int l) (hm_latencyMs (as_health a)))\<rparr>,
      \<lparr>cw_key = ''uptime'', cw_label = ''Uptime (30d)'', cw_kind = ScoreRow,
       cw_values = map (\<lambda>a. number_cell (map_option (\<lambda>u. u * 100) (hm_uptime30d (as_health a)))) apis,
       cw_bestIndex = bestBy apis (\<lambda>a. or_minus_one (hm_uptime30d (as_health a)))\<rparr>,
      \<lparr>cw_key = ''reliability'', cw_label = ''Reliability score'', cw_kind = ScoreRow,
       cw_values = map (\<lambda>a. number_cell (hm_reliabilityScore (as_health a))) apis,
       cw_bestIndex = bestBy apis (\<lambda>a. or_minus_one (hm_reliabilityScore (as_health a)))\<rparr>,
      \<lparr>cw_key = ''rating'', cw_label = ''Developer rating'', cw_kind = RatingRow,
       cw_values = map (\<lambda>a. number_cell (as_averageRating a)) apis,
       cw_bestIndex = bestBy apis (\<lambda>a. or_minus_one (as_averageRating a))\<rparr>,
      \<lparr>cw_key = ''reviews'', cw_label = ''Reviews'', cw_kind = ScoreRow,
       cw_values = map (\<lambda>a. CellNumber (of_nat (as_reviewCount a))) apis,
       cw_bestIndex = bestBy apis (\<lambda>a. Some (of_nat (as_reviewCount a)))\<rparr>,
      booleanRow ''docs'' ''Documentation'' apis (\<lambda>a. given (as_docsUrl a))]"

definition or_value :: "rat \<Rightarrow> rat option \<Rightarrow> rat" where
  "or_value d x = (case x of Some v \<Rightarrow> v | None \<Rightarrow> d)"

definition comparisonScore :: "api_summary \<Rightarrow> rat" where
  "comparisonScore api =
     (if as_isFree api then 2 / 10 else if as_hasFreeTier api then 12 / 100 else 0) +
     (if as_authType api = ''none'' then 15 / 100 else if as_authType api = ''apiKey'' then 8 / 100 else 3 / 100) +
     (if as_httpsSupported api then 1 / 10 else 0) +
     (if as_corsStatus api = ''yes'' then 8 / 100 else 0) +
     or_value 50 (hm_reliabilityScore (as_health api)) / 100 * (2 / 10) +
     or_value (1 / 2) (hm_uptime30d (as_health api)) * (12 / 100) +
     or_value 3 (as_averageRating api) / 5 * (1 / 10) +
     (if given (as_docsUrl api) then 5 / 100 else 0)"

record compare_result =
  cp_apis :: "api_summary list"
  cp_rows :: "compare_row list"
  cp_winnerIndex :: "nat option"
  cp_reasons :: "string list"
  cp_scores :: "rat list"

text \<open>The left is the error for too few APIs, with the slugs it names.\<close>

definition compare :: "(time \<Rightarrow> string) \<Rightarrow> (nat \<Rightarrow> rat \<Rightarrow> string) \<Rightarrow> catalog_db \<Rightarrow> string list \<Rightarrow> string + compare_result" where
  "compare stamp fixed db slugs =
     (let apis = findManyBySlugs stamp db slugs in
      if length apis < 2 then Inl (join '', '' slugs)
      else
        let scores = map comparisonScore apis;
            winnerIndex = index_where (\<lambda>s. s = Max (set scores)) scores
        in Inr \<lparr>cp_apis = apis, cp_rows = compare_rows apis, cp_winnerIndex = winnerIndex,
             cp_reasons = (case winnerIndex of Some i \<Rightarrow> buildReasons fixed (apis ! i) | None \<Rightarrow> []),
             cp_scores = map (to_fixed 3) scores\<rparr>)"

section \<open>Recommendations respect their request\<close>

lemma set_sort_by [simp]: "set (sort_by le xs) = set xs"
  by (metis mset_sort_by set_mset_mset)





















section \<open>The verdict of a comparison\<close>

text \<open>The scan finds the first of the greatest scores.\<close>

definition first_best :: "('a \<Rightarrow> rat option) \<Rightarrow> 'a list \<Rightarrow> nat option \<Rightarrow> bool" where
  "first_best score xs best \<longleftrightarrow>
     (case best of
        None \<Rightarrow> \<forall>x\<in>set xs. score x = None
      | Some i \<Rightarrow> i < length xs \<and> (\<exists>v. score (xs ! i) = Some v \<and>
          (\<forall>x\<in>set xs. \<forall>w. score x = Some w \<longrightarrow> w \<le> v) \<and> (\<forall>x\<in>set (take i xs). \<forall>w. score x = Some w \<longrightarrow> w < v)))"

definition scanned :: "('a \<Rightarrow> rat option) \<Rightarrow> 'a list \<Rightarrow> nat option \<times> rat option \<Rightarrow> bool" where
  "scanned score ys best =
     (case best of
        (None, None) \<Rightarrow> \<forall>y\<in>set ys. score y = None
      | (Some k, Some b) \<Rightarrow> k < length ys \<and> score (ys ! k) = Some b \<and>
          (\<forall>y\<in>set ys. \<forall>w. score y = Some w \<longrightarrow> w \<le> b) \<and> (\<forall>y\<in>set (take k ys). \<forall>w. score y = Some w \<longrightarrow> w < b)
      | _ \<Rightarrow> False)"

lemma scanned_step:
  assumes "scanned score ys best"
  shows "scanned score (ys @ [x])
    (case (score x, snd best) of (None, _) \<Rightarrow> best | (Some v, None) \<Rightarrow> (Some (length ys), Some v)
     | (Some v, Some b) \<Rightarrow> if b < v then (Some (length ys), Some v) else best)"
proof (cases best)
  case (Pair i u)
  show ?thesis
  proof (cases "i = None \<and> u = None")
    case True
    then show ?thesis using assms by (cases "score x") (auto simp: Pair scanned_def)
  next
    case False
    then obtain k b where kb: "i = Some k" "u = Some b" "k < length ys" "score (ys ! k) = Some b"
      "\<forall>y\<in>set ys. \<forall>w. score y = Some w \<longrightarrow> w \<le> b" "\<forall>y\<in>set (take k ys). \<forall>w. score y = Some w \<longrightarrow> w < b"
      using assms by (auto simp: Pair scanned_def split: option.splits)
    show ?thesis
    proof (cases "score x")
      case None
      then show ?thesis using kb by (simp add: Pair scanned_def nth_append)
    next
      case (Some v)
      have "\<forall>y\<in>set ys. \<forall>w. score y = Some w \<longrightarrow> w < v" if "b < v"
        using kb(5) that by (meson le_less_trans)
      then show ?thesis using kb Some by (auto simp: Pair scanned_def nth_append less_imp_le)
    qed
  qed
qed

lemma best_scan_first: "scanned score ys best \<Longrightarrow> scanned score (ys @ xs) (best_scan score xs (length ys) best)"
proof (induction xs arbitrary: ys best)
  case (Cons x xs)
  from Cons.IH [OF scanned_step [OF Cons.prems, of x]] show ?case by simp
qed simp

lemma bestBy_first: "first_best score xs (bestBy xs score)"
  using best_scan_first [of score "[]" "(None, None)" xs]
  by (auto simp: bestBy_def first_best_def scanned_def split: option.splits prod.splits)

lemma index_where_Some: "index_where p xs = Some i \<longleftrightarrow> i < length xs \<and> p (xs ! i) \<and> (\<forall>x\<in>set (take i xs). \<not> p x)"
proof (induction xs arbitrary: i)
  case (Cons x xs)
  then show ?case by (cases i) auto
qed simp

lemma index_where_None: "index_where p xs = None \<longleftrightarrow> (\<forall>x\<in>set xs. \<not> p x)"
  by (induction xs) auto

text \<open>A comparison needs two APIs. Its winner is the first with the greatest score, its reasons are the
  winner's, and every row has one value for each API.\<close>

theorem compare_verdict:
  "(case compare stamp fixed db slugs of
      Inl _ \<Rightarrow> length (findManyBySlugs stamp db slugs) < 2
    | Inr r \<Rightarrow> cp_apis r = findManyBySlugs stamp db slugs \<and> 2 \<le> length (cp_apis r) \<and>
        (case cp_winnerIndex r of
           None \<Rightarrow> False
         | Some i \<Rightarrow> i < length (cp_apis r) \<and>
             list_all (\<lambda>a. comparisonScore a \<le> comparisonScore (cp_apis r ! i)) (cp_apis r) \<and>
             list_all (\<lambda>a. comparisonScore a < comparisonScore (cp_apis r ! i)) (take i (cp_apis r)) \<and>
             cp_reasons r = buildReasons fixed (cp_apis r ! i)) \<and>
        list_all (\<lambda>row. length (cw_values row) = length (cp_apis r)) (cp_rows r))"
proof (cases "length (findManyBySlugs stamp db slugs) < 2")
  case False
  let ?apis = "findManyBySlugs stamp db slugs"
  let ?scores = "map comparisonScore ?apis"
  let ?w = "index_where (\<lambda>s. s = Max (set ?scores)) ?scores"
  have ne: "set ?scores \<noteq> {}" using False by auto
  then have "Max (set ?scores) \<in> set ?scores" by (intro Max_in) simp_all
  then have "?w \<noteq> None" unfolding index_where_None by blast
  then obtain i where i: "?w = Some i" by blast
  then have w: "i < length ?apis" "comparisonScore (?apis ! i) = Max (set ?scores)"
    "\<forall>s\<in>set (take i ?scores). s \<noteq> Max (set ?scores)"
    unfolding index_where_Some by auto
  have le: "comparisonScore a \<le> Max (set ?scores)" if "a \<in> set ?apis" for a
    using that by (intro Max_ge) simp_all
  have "comparisonScore a < Max (set ?scores)" if "a \<in> set (take i ?apis)" for a
  proof -
    have "comparisonScore a \<in> set (take i ?scores)" using that by (simp add: take_map)
    then have "comparisonScore a \<noteq> Max (set ?scores)" using w(3) by blast
    moreover have "comparisonScore a \<le> Max (set ?scores)"
      using that by (intro le) (rule in_set_takeD)
    ultimately show ?thesis by simp
  qed
  then have lists: "list_all (\<lambda>a. comparisonScore a \<le> comparisonScore (?apis ! i)) ?apis"
    "list_all (\<lambda>a. comparisonScore a < comparisonScore (?apis ! i)) (take i ?apis)"
    using le by (simp_all add: list_all_iff w(2))
  have rows: "list_all (\<lambda>row. length (cw_values row) = length ?apis) (compare_rows ?apis)"
    by (simp add: compare_rows_def booleanRow_def)
  show ?thesis
    using False lists rows w(1) unfolding compare_def Let_def i by simp
qed (simp add: compare_def)

section \<open>What the comments promise and the code does not\<close>

text \<open>Where no API has a value, the first one is still called the best of the row.\<close>

lemma best_without_values:
  "bestBy [x, y] (\<lambda>a. or_minus_one (f a)) = Some 0" if "f x = None" "f y = None"
  using that by (simp add: bestBy_def or_minus_one_def)

text \<open>The caveats are cut after four: an API with four others does not say that it is failing.\<close>

lemma failing_not_told:
  assumes "\<not> as_isFree api" "\<not> as_hasFreeTier api" "as_authType api = ''apiKey''" "\<not> as_httpsSupported api"
    "as_corsStatus api = ''no''" "hm_status (as_health api) = Down"
  shows "''Currently failing health checks'' \<in> set (all_caveats api)"
    and "''Currently failing health checks'' \<notin> set (buildCaveats api)"
  using assms by (simp_all add: all_caveats_def buildCaveats_def)

text \<open>Keywords are found inside words.\<close>

lemma roadmap_is_geocoding: "''geocoding'' \<in> set (inferCategories ''product roadmap'')"
  by code_simp

end
