(* ===== verification/AppErrors.thy ===== *)
theory AppErrors
  imports JsString "HOL-Library.Sublist"
begin

text \<open>
  The errors of the HTTP service (\<open>apps/api/src/shared/errors.ts\<close>), how any thrown value becomes one of them
  (\<open>app/plugins/error-handler.ts\<close>) and the response that is sent (\<open>errorEnvelope\<close> of \<open>app/envelope.ts\<close>).
\<close>

section \<open>Application errors\<close>

record error_detail =
  dt_path :: string
  dt_message :: string

record app_error =
  er_code :: string
  er_statusCode :: int
  er_message :: string
  er_details :: "error_detail list option"
  er_retryAfter :: "int option"

definition app_error_of :: "string \<Rightarrow> int \<Rightarrow> string \<Rightarrow> app_error" where
  "app_error_of c status message =
     \<lparr>er_code = c, er_statusCode = status, er_message = message, er_details = None, er_retryAfter = None\<rparr>"

definition isClientError :: "app_error \<Rightarrow> bool" where
  "isClientError e \<longleftrightarrow> 400 \<le> er_statusCode e \<and> er_statusCode e < 500"

definition ValidationError :: "string \<Rightarrow> error_detail list option \<Rightarrow> app_error" where
  "ValidationError message details = (app_error_of ''VALIDATION_FAILED'' 400 message)\<lparr>er_details := details\<rparr>"

definition UnauthorizedError :: "string option \<Rightarrow> app_error" where
  "UnauthorizedError message =
     app_error_of ''UNAUTHORIZED'' 401 (case message of Some m \<Rightarrow> m | None \<Rightarrow> ''Authentication required.'')"

definition ForbiddenError :: "string option \<Rightarrow> app_error" where
  "ForbiddenError message = app_error_of ''FORBIDDEN'' 403
     (case message of Some m \<Rightarrow> m | None \<Rightarrow> ''You do not have permission to perform this action.'')"

definition NotFoundError :: "string \<Rightarrow> app_error" where
  "NotFoundError resource = app_error_of ''NOT_FOUND'' 404 (resource @ '' was not found.'')"

definition ApiNotFoundError :: "string option \<Rightarrow> app_error" where
  "ApiNotFoundError slug = app_error_of ''API_NOT_FOUND'' 404
     ((if slug \<noteq> None \<and> slug \<noteq> Some [] then ''API '' @ [CHR 0x22] @ the slug @ [CHR 0x22] else ''API'') @ '' was not found.'')"

definition ConflictError :: "string option \<Rightarrow> app_error" where
  "ConflictError message =
     app_error_of ''CONFLICT'' 409 (case message of Some m \<Rightarrow> m | None \<Rightarrow> ''That resource already exists.'')"

definition RateLimitError :: "int \<Rightarrow> app_error" where
  "RateLimitError retryAfterSeconds =
     (app_error_of ''RATE_LIMITED'' 429 ''Too many requests. Please slow down.'')\<lparr>er_retryAfter := Some retryAfterSeconds\<rparr>"

definition PayloadTooLargeError :: app_error where
  "PayloadTooLargeError = app_error_of ''PAYLOAD_TOO_LARGE'' 413 ''The request payload is too large.''"

definition BlockedTargetError :: "string \<Rightarrow> app_error" where
  "BlockedTargetError message = app_error_of ''BLOCKED_TARGET'' 400 message"

definition UpstreamTimeoutError :: "nat \<Rightarrow> app_error" where
  "UpstreamTimeoutError timeoutMs = app_error_of ''UPSTREAM_TIMEOUT'' 504
     (''The upstream API did not respond within '' @ show_nat timeoutMs @ ''ms.'')"

definition UpstreamError :: "string \<Rightarrow> app_error" where
  "UpstreamError message = app_error_of ''UPSTREAM_ERROR'' 502 message"

definition CircuitOpenAppError :: "string \<Rightarrow> int \<Rightarrow> app_error" where
  "CircuitOpenAppError host retryAfterSeconds =
     (app_error_of ''CIRCUIT_OPEN'' 503 (host @ '' is currently failing and has been temporarily suspended.''))
       \<lparr>er_retryAfter := Some retryAfterSeconds\<rparr>"

definition ServiceUnavailableError :: "string \<Rightarrow> int \<Rightarrow> app_error" where
  "ServiceUnavailableError message retryAfterSeconds =
     (app_error_of ''SERVICE_UNAVAILABLE'' 503 message)\<lparr>er_retryAfter := Some retryAfterSeconds\<rparr>"

section \<open>Database errors\<close>

definition friendlyUniqueMessage :: "string \<Rightarrow> string" where
  "friendlyUniqueMessage detail =
     (if contains_text ''email'' detail then ''An account with that email already exists.''
      else if contains_text ''slug'' detail then ''That name is already taken.''
      else if contains_text ''reviews_user_api'' detail then ''You have already reviewed this API.''
      else if contains_text ''favorites'' detail then ''That API is already in your favorites.''
      else ''That resource already exists.'')"

definition translateDatabaseError :: "string option \<Rightarrow> string option \<Rightarrow> app_error option" where
  "translateDatabaseError c detail =
     (let detail' = (case detail of Some d \<Rightarrow> d | None \<Rightarrow> []) in
      if c = Some ''23505'' then Some (ConflictError (Some (friendlyUniqueMessage detail')))
      else if c = Some ''23503'' then Some (ValidationError ''A referenced record does not exist.'' None)
      else if c = Some ''23514'' then Some (ValidationError ''A value violates a database constraint.'' None)
      else if c = Some ''22001'' then Some (ValidationError ''A submitted value is too long.'' None)
      else if c = Some ''40001'' then Some (ServiceUnavailableError ''Conflicting concurrent update; please retry.'' 1)
      else if c = Some ''57014'' then Some (ServiceUnavailableError ''The query took too long and was cancelled.'' 30)
      else if c = Some ''ECONNREFUSED'' \<or> c = Some ''ETIMEDOUT''
        then Some (ServiceUnavailableError ''The database is unreachable.'' 30)
      else None)"

section \<open>Anything thrown\<close>

datatype path_part = Key string | Index nat

record zod_issue =
  zi_path :: "path_part list"
  zi_message :: string

record framework_issue =
  fi_instancePath :: string
  fi_schemaPath :: string
  fi_message :: "string option"

text \<open>What the handler reads of an error that is not of the service's own classes; an absent property is
  None. \<open>oe_stack\<close> stands for all it does not read.\<close>

record other_error =
  oe_code :: "string option"
  oe_detail :: "string option"
  oe_validation :: "framework_issue list option"
  oe_statusCode :: "int option"
  oe_message :: string
  oe_stack :: string

datatype thrown =
    ThrownApp app_error
  | ThrownZod "zod_issue list"
  | ThrownSsrf string
  | ThrownCircuit string rat
  | ThrownOther other_error

definition zodToDetails :: "zod_issue list \<Rightarrow> error_detail list" where
  "zodToDetails issues = map (\<lambda>issue.
     let path = join ''.'' (map (\<lambda>p. case p of Key k \<Rightarrow> k | Index n \<Rightarrow> show_nat n) (zi_path issue)) in
     \<lparr>dt_path = (if path = [] then ''(root)'' else path), dt_message = zi_message issue\<rparr>) issues"

definition without_slash :: "string \<Rightarrow> string" where
  "without_slash s = (if starts_with s ''/'' then tl s else s)"

definition framework_details :: "framework_issue list \<Rightarrow> error_detail list" where
  "framework_details issues = map (\<lambda>issue.
     \<lparr>dt_path = without_slash (if fi_instancePath issue \<noteq> [] then fi_instancePath issue
        else if fi_schemaPath issue \<noteq> [] then fi_schemaPath issue else ''(root)''),
      dt_message = (case fi_message issue of Some m \<Rightarrow> m | None \<Rightarrow> ''invalid'')\<rparr>) issues"

definition normalize_other :: "other_error \<Rightarrow> app_error" where
  "normalize_other e =
     (case translateDatabaseError (oe_code e) (oe_detail e) of
        Some translated \<Rightarrow> translated
      | None \<Rightarrow>
          (case oe_validation e of
             Some issues \<Rightarrow> ValidationError ''Request validation failed'' (Some (framework_details issues))
           | None \<Rightarrow>
               if oe_code e = Some ''FST_ERR_CTP_BODY_TOO_LARGE''
                 then app_error_of ''PAYLOAD_TOO_LARGE'' 413 ''The request payload is too large.''
               else if oe_code e = Some ''FST_ERR_CTP_INVALID_MEDIA_TYPE''
                 then app_error_of ''VALIDATION_FAILED'' 415 ''Unsupported content type.''
               else if oe_code e = Some ''FST_ERR_CTP_EMPTY_JSON_BODY''
                 then ValidationError ''A JSON body is required.'' None
               else (case oe_statusCode e of
                       Some status \<Rightarrow>
                         if status < 500
                         then app_error_of ''VALIDATION_FAILED'' status
                           (if oe_message e = [] then ''Request could not be processed.'' else oe_message e)
                         else app_error_of ''INTERNAL_ERROR'' 500 ''An unexpected error occurred. Please try again.''
                     | None \<Rightarrow> app_error_of ''INTERNAL_ERROR'' 500 ''An unexpected error occurred. Please try again.'')))"

definition normalizeError :: "thrown \<Rightarrow> app_error" where
  "normalizeError t =
     (case t of
        ThrownApp e \<Rightarrow> e
      | ThrownZod issues \<Rightarrow> ValidationError ''Request validation failed'' (Some (zodToDetails issues))
      | ThrownSsrf message \<Rightarrow> BlockedTargetError message
      | ThrownCircuit name retryAfterMs \<Rightarrow> CircuitOpenAppError name (js_ceil (retryAfterMs / 1000))
      | ThrownOther e \<Rightarrow> normalize_other e)"

section \<open>The response\<close>

record error_envelope =
  ee_code :: string
  ee_message :: string
  ee_requestId :: string
  ee_details :: "error_detail list option"
  ee_retryAfter :: "int option"

definition errorEnvelope :: "string \<Rightarrow> app_error \<Rightarrow> error_envelope" where
  "errorEnvelope requestId e =
     \<lparr>ee_code = er_code e, ee_message = er_message e, ee_requestId = requestId,
      ee_details = (case er_details e of Some (d # ds) \<Rightarrow> Some (d # ds) | _ \<Rightarrow> None), ee_retryAfter = er_retryAfter e\<rparr>"

record error_reply =
  ey_status :: int
  ey_retryAfter :: "int option"
  ey_body :: error_envelope

definition handle_error :: "string \<Rightarrow> thrown \<Rightarrow> error_reply" where
  "handle_error requestId error =
     (let appError = normalizeError error in
      \<lparr>ey_status = er_statusCode appError, ey_retryAfter = er_retryAfter appError,
       ey_body = errorEnvelope requestId appError\<rparr>)"

definition handle_not_found :: "string \<Rightarrow> string \<Rightarrow> string \<Rightarrow> error_reply" where
  "handle_not_found requestId verb url =
     \<lparr>ey_status = 404, ey_retryAfter = None,
      ey_body = errorEnvelope requestId
        (app_error_of ''NOT_FOUND'' 404 (''Route '' @ verb @ '' '' @ url @ '' does not exist.''))\<rparr>"

section \<open>Nothing internal leaves the process\<close>

text \<open>What of a foreign error can show: its class, the name it carries of a known constraint, and its own
  message only where it has a status below 500.\<close>

definition tells :: "other_error \<Rightarrow> bool" where
  "tells e \<longleftrightarrow> (case oe_statusCode e of Some s \<Rightarrow> s < 500 | None \<Rightarrow> False)"

definition named_in :: "string \<Rightarrow> string" where
  "named_in detail =
     (if contains_text ''email'' detail then ''email'' else if contains_text ''slug'' detail then ''slug''
      else if contains_text ''reviews_user_api'' detail then ''reviews_user_api''
      else if contains_text ''favorites'' detail then ''favorites'' else [])"

definition public_part :: "other_error \<Rightarrow> other_error" where
  "public_part e = e\<lparr>oe_detail := map_option named_in (oe_detail e),
     oe_message := (if tells e then oe_message e else []), oe_stack := []\<rparr>"

lemmas app_error_defs = app_error_of_def ValidationError_def UnauthorizedError_def ForbiddenError_def NotFoundError_def
  ApiNotFoundError_def ConflictError_def RateLimitError_def PayloadTooLargeError_def BlockedTargetError_def
  UpstreamTimeoutError_def UpstreamError_def CircuitOpenAppError_def ServiceUnavailableError_def

lemma named_contains:
  "contains_text ''email'' (named_in d) \<longleftrightarrow> contains_text ''email'' d"
  "contains_text ''slug'' (named_in d) \<longleftrightarrow> \<not> contains_text ''email'' d \<and> contains_text ''slug'' d"
  "contains_text ''reviews_user_api'' (named_in d) \<longleftrightarrow>
     \<not> contains_text ''email'' d \<and> \<not> contains_text ''slug'' d \<and> contains_text ''reviews_user_api'' d"
  "contains_text ''favorites'' (named_in d) \<longleftrightarrow> \<not> contains_text ''email'' d \<and> \<not> contains_text ''slug'' d \<and>
     \<not> contains_text ''reviews_user_api'' d \<and> contains_text ''favorites'' d"
proof -
  have e: "contains_text ''email'' ''email'' \<and> \<not> contains_text ''slug'' ''email'' \<and>
      \<not> contains_text ''reviews_user_api'' ''email'' \<and> \<not> contains_text ''favorites'' ''email''"
    "\<not> contains_text ''email'' ''slug'' \<and> contains_text ''slug'' ''slug'' \<and>
      \<not> contains_text ''reviews_user_api'' ''slug'' \<and> \<not> contains_text ''favorites'' ''slug''"
    "\<not> contains_text ''email'' ''reviews_user_api'' \<and> \<not> contains_text ''slug'' ''reviews_user_api'' \<and>
      contains_text ''reviews_user_api'' ''reviews_user_api'' \<and> \<not> contains_text ''favorites'' ''reviews_user_api''"
    "\<not> contains_text ''email'' ''favorites'' \<and> \<not> contains_text ''slug'' ''favorites'' \<and>
      \<not> contains_text ''reviews_user_api'' ''favorites'' \<and> contains_text ''favorites'' ''favorites''"
    "\<not> contains_text ''email'' [] \<and> \<not> contains_text ''slug'' [] \<and>
      \<not> contains_text ''reviews_user_api'' [] \<and> \<not> contains_text ''favorites'' []"
    by code_simp+
  show "contains_text ''email'' (named_in d) \<longleftrightarrow> contains_text ''email'' d"
    "contains_text ''slug'' (named_in d) \<longleftrightarrow> \<not> contains_text ''email'' d \<and> contains_text ''slug'' d"
    "contains_text ''reviews_user_api'' (named_in d) \<longleftrightarrow>
       \<not> contains_text ''email'' d \<and> \<not> contains_text ''slug'' d \<and> contains_text ''reviews_user_api'' d"
    "contains_text ''favorites'' (named_in d) \<longleftrightarrow> \<not> contains_text ''email'' d \<and> \<not> contains_text ''slug'' d \<and>
       \<not> contains_text ''reviews_user_api'' d \<and> contains_text ''favorites'' d"
    unfolding named_in_def using e by presburger+
qed

lemma friendly_named: "friendlyUniqueMessage (named_in d) = friendlyUniqueMessage d"
  unfolding friendlyUniqueMessage_def named_contains by presburger

lemma named_in_Nil: "named_in [] = []"
  unfolding named_in_def by code_simp

lemma translate_named: "translateDatabaseError c (map_option named_in d) = translateDatabaseError c d"
  unfolding translateDatabaseError_def Let_def by (cases d) (simp_all only: option.map option.case friendly_named)

lemma normalize_public: "normalize_other (public_part e) = normalize_other e"
proof -
  have f: "oe_code (public_part e) = oe_code e" "oe_detail (public_part e) = map_option named_in (oe_detail e)"
    "oe_validation (public_part e) = oe_validation e" "oe_statusCode (public_part e) = oe_statusCode e"
    by (simp_all add: public_part_def)
  show ?thesis
  proof (cases "oe_statusCode e")
    case None
    then show ?thesis unfolding normalize_other_def f translate_named by (simp only: option.case)
  next
    case (Some s)
    have m: "s < 500 \<Longrightarrow> oe_message (public_part e) = oe_message e"
      by (simp add: public_part_def tells_def Some)
    show ?thesis
    proof (cases "s < 500")
      case True
      show ?thesis unfolding normalize_other_def f translate_named m [OF True] by (rule refl)
    next
      case False
      then show ?thesis unfolding normalize_other_def f translate_named Some by (simp only: option.case if_False)
    qed
  qed
qed

text \<open>The statuses.\<close>

lemma first_of_seven:
  "(if a1 then Some x1 else if a2 then Some x2 else if a3 then Some x3 else if a4 then Some x4
    else if a5 then Some x5 else if a6 then Some x6 else if a7 then Some x7 else None) = Some e \<Longrightarrow>
   e = x1 \<or> e = x2 \<or> e = x3 \<or> e = x4 \<or> e = x5 \<or> e = x6 \<or> e = x7"
  by (simp split: if_split_asm)

lemma translate_status:
  assumes "translateDatabaseError c d = Some e"
  shows "er_statusCode e \<in> {400, 409, 503}"
  using first_of_seven [OF assms [unfolded translateDatabaseError_def Let_def]]
  by (elim disjE) (simp_all add: app_error_defs)

text \<open>C26: The reply to an error that is not one of the service's own shows nothing of it beyond its class:
  it is the reply to the error without its stack, without the driver's detail but the name of a known
  constraint, and without its message unless it has a status below 500. Unless the error sets the status
  itself, that is one of six.\<close>

theorem internal_text_hidden:
  "handle_error requestId (ThrownOther e) = handle_error requestId (ThrownOther (public_part e)) \<and>
   (ey_status (handle_error requestId (ThrownOther e)) \<in> {400, 409, 413, 415, 500, 503} \<or>
    oe_statusCode e = Some (ey_status (handle_error requestId (ThrownOther e))))"
proof
  show "handle_error requestId (ThrownOther e) = handle_error requestId (ThrownOther (public_part e))"
    unfolding handle_error_def normalizeError_def by (simp only: thrown.case normalize_public)
  show "ey_status (handle_error requestId (ThrownOther e)) \<in> {400, 409, 413, 415, 500, 503} \<or>
    oe_statusCode e = Some (ey_status (handle_error requestId (ThrownOther e)))"
  proof (cases "translateDatabaseError (oe_code e) (oe_detail e)")
    case (Some t)
    then show ?thesis using translate_status [OF Some]
      by (auto simp: handle_error_def normalizeError_def normalize_other_def Let_def)
  next
    case None
    then show ?thesis
      by (simp add: handle_error_def normalizeError_def normalize_other_def Let_def app_error_defs split: option.split)
  qed
qed

text \<open>The message of a violated constraint is chosen by a word anywhere in the driver's detail, which quotes
  the values: the name of a collection decides it.\<close>

lemma unique_message_misled:
  "friendlyUniqueMessage ''Key (user_id, slug)=(usr_1, email-tools) already exists.'' =
     ''An account with that email already exists.''"
  by code_simp

text \<open>An error with the status of a success is answered as one.\<close>

lemma failure_sent_as_success:
  "ey_status (handle_error requestId (ThrownOther
     \<lparr>oe_code = None, oe_detail = None, oe_validation = None, oe_statusCode = Some 200, oe_message = m, oe_stack = s\<rparr>)) = 200"
  by (simp add: handle_error_def normalizeError_def normalize_other_def translateDatabaseError_def app_error_of_def Let_def)

end
