(* ===== verification/Accounts.thy ===== *)
theory Accounts
  imports Tokens AppErrors
begin

text \<open>
  Accounts: password hashing (\<open>packages/security/src/password.ts\<close>), the authentication service
  (\<open>apps/api/src/modules/auth/service.ts\<close>) over the tables of users and sessions, and the guards of the
  routes (\<open>app/plugins/auth.ts\<close>). The hash functions and the random values are arguments.
\<close>

section \<open>Passwords\<close>

text \<open>\<open>argon2id\<close> makes the encoded hash of a password and a salt; verifying one may throw, which is None.\<close>

record argon =
  ar_hash :: "string \<Rightarrow> string \<Rightarrow> string"
  ar_verify :: "string \<Rightarrow> string \<Rightarrow> bool option"

definition hashPassword :: "argon \<Rightarrow> string \<Rightarrow> string \<Rightarrow> string option" where
  "hashPassword argon password salt = (if password = [] then None else Some (ar_hash argon password salt))"

definition verifyPassword :: "argon \<Rightarrow> string \<Rightarrow> string \<Rightarrow> bool" where
  "verifyPassword argon password storedHash =
     (if storedHash = [] \<or> \<not> starts_with storedHash ''$argon2'' then False
      else (case ar_verify argon password storedHash of Some ok \<Rightarrow> ok | None \<Rightarrow> False))"

text \<open>The pattern for the parameters: a number up to the text that must follow it.\<close>

definition number_until :: "string \<Rightarrow> string \<Rightarrow> (nat \<times> string) option" where
  "number_until stop s =
     (let digits = takeWhile is_digit s; rest = dropWhile is_digit s in
      if digits \<noteq> [] \<and> starts_with rest stop then Some (read_nat digits, drop (length stop) rest) else None)"

definition params_here :: "string \<Rightarrow> (nat \<times> nat \<times> nat) option" where
  "params_here s =
     (if \<not> starts_with s ''$argon2id$v=19$m='' then None
      else (case number_until '',t='' (drop 17 s) of
              None \<Rightarrow> None
            | Some (m, s1) \<Rightarrow>
                (case number_until '',p='' s1 of
                   None \<Rightarrow> None
                 | Some (t, s2) \<Rightarrow>
                     (case number_until ''$'' s2 of None \<Rightarrow> None | Some (p, _) \<Rightarrow> Some (m, t, p)))))"

fun params_in :: "string \<Rightarrow> (nat \<times> nat \<times> nat) option" where
  "params_in [] = None"
| "params_in (c # s) = (case params_here (c # s) of Some x \<Rightarrow> Some x | None \<Rightarrow> params_in s)"

definition needsRehash :: "string \<Rightarrow> bool" where
  "needsRehash storedHash =
     (case params_in storedHash of
        None \<Rightarrow> True
      | Some (memory, iterations, parallelism) \<Rightarrow> memory < 19456 \<or> iterations < 2 \<or> parallelism < 1)"

text \<open>The decoy of the module, computed at its first use.\<close>

definition getDecoyHash :: "argon \<Rightarrow> string \<Rightarrow> string \<Rightarrow> string option \<Rightarrow> string option" where
  "getDecoyHash argon random salt decoy = (case decoy of Some d \<Rightarrow> Some d | None \<Rightarrow> hashPassword argon random salt)"

definition fakeVerify :: "argon \<Rightarrow> string \<Rightarrow> string \<Rightarrow> string option \<Rightarrow> string option \<times> bool" where
  "fakeVerify argon random salt decoy = (getDecoyHash argon random salt decoy, False)"

section \<open>Tables\<close>

record user_row =
  us_id :: string
  us_email :: string
  us_name :: string
  us_passwordHash :: "string option"
  us_role :: string
  us_avatarColor :: string
  us_deactivatedAt :: "time option"
  us_lastLoginAt :: "time option"
  us_createdAt :: time
  us_updatedAt :: time

record session_row =
  se_userId :: string
  se_expiresAt :: time
  se_ipAddress :: "string option"
  se_userAgent :: "string option"
  se_createdAt :: time
  se_lastSeenAt :: time

text \<open>Both tables by their primary key, in the order of insertion, and the decoy of the password module.\<close>

record auth_db =
  db_users :: "(string, user_row) jsmap"
  db_sessions :: "(string, session_row) jsmap"
  db_decoy :: "string option"

definition auth_empty :: auth_db where
  "auth_empty = \<lparr>db_users = [], db_sessions = [], db_decoy = None\<rparr>"

record public_user =
  pu_id :: string
  pu_email :: string
  pu_name :: string
  pu_role :: string
  pu_avatarColor :: string
  pu_createdAt :: time

definition toPublicUser :: "user_row \<Rightarrow> public_user" where
  "toPublicUser row =
     \<lparr>pu_id = us_id row, pu_email = us_email row, pu_name = us_name row, pu_role = us_role row,
      pu_avatarColor = us_avatarColor row, pu_createdAt = us_createdAt row\<rparr>"

text \<open>The platform and the configuration: hashes, the secret, the life of a session.\<close>

record auth_platform =
  pf_argon :: argon
  pf_sign :: "string \<Rightarrow> string \<Rightarrow> string"
  pf_hmac_hex :: "string \<Rightarrow> string \<Rightarrow> string"
  pf_hmac_bytes :: "string \<Rightarrow> string \<Rightarrow> nat list"
  pf_secret :: string
  pf_ttlSeconds :: int

text \<open>What a request brings to the service beside its credentials, and the random values it draws.\<close>

record client_info =
  ci_ipAddress :: "string option"
  ci_userAgent :: "string option"

record draws =
  dr_sessionId :: string
  dr_userId :: string
  dr_salt :: string
  dr_decoy :: string

text \<open>What the database throws, and a plain error.\<close>

definition thrown_error :: "string option \<Rightarrow> string \<Rightarrow> thrown" where
  "thrown_error c message = ThrownOther
     \<lparr>oe_code = c, oe_detail = None, oe_validation = None, oe_statusCode = None, oe_message = message, oe_stack = []\<rparr>"

definition email_taken :: thrown where
  "email_taken = ThrownApp (ConflictError (Some ''An account with that email already exists.''))"

definition incorrect_login :: thrown where
  "incorrect_login = ThrownApp (UnauthorizedError (Some ''Incorrect email or password.''))"

definition deactivated_login :: thrown where
  "deactivated_login = ThrownApp (UnauthorizedError (Some ''This account has been deactivated.''))"

definition empty_password :: thrown where
  "empty_password = thrown_error None ''Password must not be empty''"

definition duplicate_key :: thrown where
  "duplicate_key = thrown_error (Some ''23505'') ''duplicate key value violates unique constraint''"

definition find_email :: "string \<Rightarrow> (string, user_row) jsmap \<Rightarrow> user_row option" where
  "find_email email users = List.find (\<lambda>u. us_email u = email) (map snd users)"

definition update_user :: "string \<Rightarrow> (user_row \<Rightarrow> user_row) \<Rightarrow> auth_db \<Rightarrow> auth_db" where
  "update_user i f db = db\<lparr>db_users := map (\<lambda>(k, u). (k, if k = i then f u else u)) (db_users db)\<rparr>"

section \<open>The service\<close>

record new_session =
  ns_user :: public_user
  ns_cookie :: string
  ns_expiresAt :: time

definition stored_id :: "auth_platform \<Rightarrow> string \<Rightarrow> string" where
  "stored_id pf sid = hashSessionId (pf_hmac_hex pf) sid (pf_secret pf)"

definition cookie_of :: "auth_platform \<Rightarrow> string \<Rightarrow> string" where
  "cookie_of pf sid = signSessionId (pf_sign pf) sid (pf_secret pf)"

definition createSession ::
  "auth_platform \<Rightarrow> time \<Rightarrow> user_row \<Rightarrow> client_info \<Rightarrow> string \<Rightarrow> auth_db \<Rightarrow> (thrown + new_session) \<times> auth_db"
where
  "createSession pf now user client sessionId db =
     (let storedId = stored_id pf sessionId; expiresAt = now + pf_ttlSeconds pf * 1000 in
      if jm_has (db_sessions db) storedId then (Inl duplicate_key, db)
      else (Inr \<lparr>ns_user = toPublicUser user, ns_cookie = cookie_of pf sessionId, ns_expiresAt = expiresAt\<rparr>,
        db\<lparr>db_sessions := jm_set storedId
             \<lparr>se_userId = us_id user, se_expiresAt = expiresAt, se_ipAddress = ci_ipAddress client,
              se_userAgent = map_option (take 200) (ci_userAgent client), se_createdAt = now, se_lastSeenAt = now\<rparr>
             (db_sessions db)\<rparr>))"

definition register ::
  "auth_platform \<Rightarrow> time \<Rightarrow> string \<Rightarrow> string \<Rightarrow> string \<Rightarrow> client_info \<Rightarrow> draws \<Rightarrow> auth_db \<Rightarrow>
     (thrown + new_session) \<times> auth_db"
where
  "register pf now email name password client d db =
     (let email = toLowerCase (trim email) in
      if find_email email (db_users db) \<noteq> None
      then (Inl email_taken, db)
      else (case hashPassword (pf_argon pf) password (dr_salt d) of
        None \<Rightarrow> (Inl empty_password, db)
      | Some passwordHash \<Rightarrow>
          if jm_has (db_users db) (dr_userId d) then (Inl duplicate_key, db)
          else
            let created = \<lparr>us_id = dr_userId d, us_email = email, us_name = trim name, us_passwordHash = Some passwordHash,
                  us_role = ''user'', us_avatarColor = avatarColorFor (pf_hmac_bytes pf) (dr_userId d),
                  us_deactivatedAt = None, us_lastLoginAt = None, us_createdAt = now, us_updatedAt = now\<rparr>
            in createSession pf now created client (dr_sessionId d)
                 (db\<lparr>db_users := jm_set (dr_userId d) created (db_users db)\<rparr>)))"

definition login ::
  "auth_platform \<Rightarrow> time \<Rightarrow> string \<Rightarrow> string \<Rightarrow> client_info \<Rightarrow> draws \<Rightarrow> auth_db \<Rightarrow> (thrown + new_session) \<times> auth_db"
where
  "login pf now email password client d db =
     (let email = toLowerCase (trim email);
          decoyed = db\<lparr>db_decoy := fst (fakeVerify (pf_argon pf) (dr_decoy d) (dr_salt d) (db_decoy db))\<rparr>;
          incorrect = Inl incorrect_login in
      case find_email email (db_users db) of
        None \<Rightarrow> (incorrect, decoyed)
      | Some user \<Rightarrow>
          (case us_passwordHash user of
             None \<Rightarrow> (incorrect, decoyed)
           | Some stored \<Rightarrow>
               if stored = [] then (incorrect, decoyed)
               else if us_deactivatedAt user \<noteq> None
               then (Inl deactivated_login, decoyed)
               else if \<not> verifyPassword (pf_argon pf) password stored then (incorrect, db)
               else
                 (case (if needsRehash stored then map_option Some (hashPassword (pf_argon pf) password (dr_salt d)) else Some None) of
                    None \<Rightarrow> (Inl empty_password, db)
                  | Some upgrade \<Rightarrow>
                      let db1 = (case upgrade of None \<Rightarrow> db
                            | Some h \<Rightarrow> update_user (us_id user) (\<lambda>u. u\<lparr>us_passwordHash := Some h, us_updatedAt := now\<rparr>) db);
                          db2 = update_user (us_id user) (\<lambda>u. u\<lparr>us_lastLoginAt := Some now\<rparr>) db1
                      in createSession pf now user client (dr_sessionId d) db2)))"

record session_context =
  sx_user :: public_user
  sx_sessionId :: string
  sx_expiresAt :: time

definition resolveSession :: "auth_platform \<Rightarrow> time \<Rightarrow> string option \<Rightarrow> auth_db \<Rightarrow> session_context option \<times> auth_db" where
  "resolveSession pf now cookieValue db =
     (case cookieValue of
        None \<Rightarrow> (None, db)
      | Some cookie \<Rightarrow>
          if cookie = [] then (None, db)
          else (case verifySessionCookie (pf_sign pf) cookie (pf_secret pf) of
            None \<Rightarrow> (None, db)
          | Some sessionId \<Rightarrow>
              let storedId = stored_id pf sessionId in
              (case jm_get (db_sessions db) storedId of
                 None \<Rightarrow> (None, db)
               | Some row \<Rightarrow>
                   (case jm_get (db_users db) (se_userId row) of
                      None \<Rightarrow> (None, db)
                    | Some user \<Rightarrow>
                        if \<not> now < se_expiresAt row \<or> us_deactivatedAt user \<noteq> None then (None, db)
                        else
                          (Some \<lparr>sx_user = toPublicUser user, sx_sessionId = sessionId, sx_expiresAt = se_expiresAt row\<rparr>,
                           if 60000 < now - se_lastSeenAt row
                           then db\<lparr>db_sessions := jm_set storedId (row\<lparr>se_lastSeenAt := now\<rparr>) (db_sessions db)\<rparr>
                           else db)))))"

definition logout :: "auth_platform \<Rightarrow> string option \<Rightarrow> auth_db \<Rightarrow> auth_db" where
  "logout pf cookieValue db =
     (case cookieValue of
        None \<Rightarrow> db
      | Some cookie \<Rightarrow>
          if cookie = [] then db
          else (case verifySessionCookie (pf_sign pf) cookie (pf_secret pf) of
            None \<Rightarrow> db
          | Some sessionId \<Rightarrow> db\<lparr>db_sessions := jm_delete (stored_id pf sessionId) (db_sessions db)\<rparr>))"

definition delete_sessions :: "(session_row \<Rightarrow> bool) \<Rightarrow> auth_db \<Rightarrow> nat \<times> auth_db" where
  "delete_sessions p db =
     (length (filter (\<lambda>(k, row). p row) (db_sessions db)),
      db\<lparr>db_sessions := filter (\<lambda>(k, row). \<not> p row) (db_sessions db)\<rparr>)"

definition logoutAll :: "string \<Rightarrow> auth_db \<Rightarrow> nat \<times> auth_db" where
  "logoutAll userId = delete_sessions (\<lambda>row. se_userId row = userId)"

definition purgeExpiredSessions :: "time \<Rightarrow> auth_db \<Rightarrow> nat \<times> auth_db" where
  "purgeExpiredSessions now = delete_sessions (\<lambda>row. se_expiresAt row < now)"

section \<open>The guards of a route\<close>

definition role_rank :: "string \<Rightarrow> nat option" where
  "role_rank role =
     (if role = ''user'' then Some 1 else if role = ''moderator'' then Some 2 else if role = ''admin'' then Some 3 else None)"

text \<open>An unknown role has rank 0, and an unknown requirement is above all ranks.\<close>

definition hasRole :: "public_user option \<Rightarrow> string \<Rightarrow> bool" where
  "hasRole user required =
     (case user of
        None \<Rightarrow> False
      | Some u \<Rightarrow>
          (case role_rank required of
             None \<Rightarrow> False
           | Some r \<Rightarrow> r \<le> (case role_rank (pu_role u) of Some n \<Rightarrow> n | None \<Rightarrow> 0)))"

record guarded_request =
  gr_method :: string
  gr_cookie :: "string option"
  gr_csrf :: "string option"
  gr_user :: "public_user option"
  gr_sessionId :: "string option"

definition populate :: "auth_platform \<Rightarrow> time \<Rightarrow> guarded_request \<Rightarrow> auth_db \<Rightarrow> guarded_request \<times> auth_db" where
  "populate pf now request db =
     (case resolveSession pf now (gr_cookie request) db of
        (None, db') \<Rightarrow> (request, db')
      | (Some session, db') \<Rightarrow>
          (request\<lparr>gr_user := Some (sx_user session), gr_sessionId := Some (sx_sessionId session)\<rparr>, db'))"

text \<open>A guard throws or lets the request pass; \<open>toUpperCase\<close> is taken of the three exempt methods.\<close>

definition requireAuth :: "guarded_request \<Rightarrow> thrown option" where
  "requireAuth request = (if gr_user request = None then Some (ThrownApp (UnauthorizedError None)) else None)"

definition requireRole :: "string \<Rightarrow> guarded_request \<Rightarrow> thrown option" where
  "requireRole role request =
     (if gr_user request = None then Some (ThrownApp (UnauthorizedError None))
      else if \<not> hasRole (gr_user request) role
      then Some (ThrownApp (ForbiddenError (Some (''This action requires the '' @ [CHR 0x22] @ role @ [CHR 0x22] @ '' role.''))))
      else None)"

definition safe_method :: "string \<Rightarrow> bool" where
  "safe_method m \<longleftrightarrow> toLowerCase m \<in> {''get'', ''head'', ''options''}"

definition requireCsrf :: "auth_platform \<Rightarrow> guarded_request \<Rightarrow> thrown option" where
  "requireCsrf pf request =
     (if safe_method (gr_method request) then None
      else (case gr_sessionId request of
              None \<Rightarrow> None
            | Some sessionId \<Rightarrow>
                if sessionId = [] then None
                else (case gr_csrf request of
                  None \<Rightarrow> Some (ThrownApp (ForbiddenError (Some ''Missing or invalid CSRF token.'')))
                | Some token \<Rightarrow>
                    if verifyCsrfToken (pf_sign pf) token sessionId (pf_secret pf) then None
                    else Some (ThrownApp (ForbiddenError (Some ''Missing or invalid CSRF token.''))))))"

text \<open>The guards run in order until one throws.\<close>

fun run_guards :: "(guarded_request \<Rightarrow> thrown option) list \<Rightarrow> guarded_request \<Rightarrow> thrown option" where
  "run_guards [] request = None"
| "run_guards (g # gs) request = (case g request of Some t \<Rightarrow> Some t | None \<Rightarrow> run_guards gs request)"

text \<open>The guards of every route that writes; \<open>limit\<close> is the rate limiter's.\<close>

definition write_guard :: "auth_platform \<Rightarrow> (guarded_request \<Rightarrow> thrown option) \<Rightarrow> (guarded_request \<Rightarrow> thrown option) list" where
  "write_guard pf limit = [requireAuth, requireCsrf pf, limit]"

end
