(* ===== verification/Sanitize.thy ===== *)
theory Sanitize
  imports TextAnalysis WebUrl
begin

text \<open>
  Output sanitisation (\<open>packages/security/src/sanitize.ts\<close>). Of the characters the code removes, the model
  has the controls; the zero-width and direction characters are outside Latin-1. URL parsing and JSON
  conversion are parameters. Beside the functions stand the readers of their output: of entities as a
  browser has it, and of the body of a JSON string.
\<close>

section \<open>The functions\<close>

definition HTML_ESCAPES :: "(char \<times> string) list" where
  "HTML_ESCAPES =
     [(CHR ''&'', ''&amp;''), (CHR ''<'', ''&lt;''), (CHR ''>'', ''&gt;''), (CHR 0x22, ''&quot;''), (CHR 0x27, ''&#39;''),
      (CHR ''/'', ''&#47;'')]"

definition escapeHtml :: "string \<Rightarrow> string" where
  "escapeHtml input = concat (map (\<lambda>c. case map_of HTML_ESCAPES c of Some e \<Rightarrow> e | None \<Rightarrow> [c]) input)"

definition is_control :: "char \<Rightarrow> bool" where
  "is_control c \<longleftrightarrow> code c \<le> 8 \<or> code c = 11 \<or> code c = 12 \<or> 14 \<le> code c \<and> code c \<le> 31 \<or> 127 \<le> code c \<and> code c \<le> 159"

definition stripInvisibleCharacters :: "string \<Rightarrow> string" where
  "stripInvisibleCharacters input = filter (\<lambda>c. \<not> is_control c) input"

fun unify_lines :: "string \<Rightarrow> string" where
  "unify_lines (c # d # s) =
     (if c = CHR 0x0D \<and> d = CHR 0x0A then CHR 0x0A # unify_lines s else c # unify_lines (d # s))"
| "unify_lines s = s"

text \<open>\<open>replace\<close> of every run of at least so many characters of a class.\<close>

function replace_runs :: "(char \<Rightarrow> bool) \<Rightarrow> nat \<Rightarrow> string \<Rightarrow> string \<Rightarrow> string" where
  "replace_runs p least r [] = []"
| "replace_runs p least r (c # s) =
     (if p c
      then let run = c # takeWhile p s in
        (if least \<le> length run then r else run) @ replace_runs p least r (dropWhile p s)
      else c # replace_runs p least r s)"
  by pat_completeness auto

termination replace_runs
  by (relation "measure (\<lambda>(_, _, _, s). length s)") (auto simp: le_imp_less_Suc length_dropWhile_le)

definition newline :: "char \<Rightarrow> bool" where
  "newline c \<longleftrightarrow> c = CHR 0x0A"

definition blank :: "char \<Rightarrow> bool" where
  "blank c \<longleftrightarrow> c = CHR '' '' \<or> c = CHR 0x09"

definition sanitizeUserText :: "string \<Rightarrow> nat \<Rightarrow> string" where
  "sanitizeUserText input maxLength =
     take maxLength (trim (replace_runs blank 2 '' ''
       (replace_runs newline 3 [CHR 0x0A, CHR 0x0A] (unify_lines (stripInvisibleCharacters input)))))"

definition sanitizeUrl :: "(string \<Rightarrow> web_url option) \<Rightarrow> (web_url \<Rightarrow> string) \<Rightarrow> string option \<Rightarrow> string option" where
  "sanitizeUrl parse serialise input =
     (case input of
        None \<Rightarrow> None
      | Some text \<Rightarrow>
          if text = [] then None
          else (case parse (trim text) of
            None \<Rightarrow> None
          | Some url \<Rightarrow>
              if wu_protocol url \<noteq> ''http:'' \<and> wu_protocol url \<noteq> ''https:'' then None
              else Some (serialise (url\<lparr>wu_username := [], wu_password := []\<rparr>))))"

definition escape_json_char :: "char \<Rightarrow> string" where
  "escape_json_char c =
     (if c = CHR ''<'' then [CHR 0x5C] @ ''u003c'' else if c = CHR ''>'' then [CHR 0x5C] @ ''u003e''
      else if c = CHR ''&'' then [CHR 0x5C] @ ''u0026'' else [c])"

definition escapeJsonForHtml :: "('v \<Rightarrow> string) \<Rightarrow> 'v \<Rightarrow> string" where
  "escapeJsonForHtml stringify value = concat (map escape_json_char (stringify value))"

definition isRenderableAsHtml :: "string option \<Rightarrow> bool" where
  "isRenderableAsHtml contentType =
     (case contentType of
        None \<Rightarrow> False
      | Some ct \<Rightarrow>
          ct \<noteq> [] \<and>
          (let type = toLowerCase (trim (hd (split_char (CHR '';'') ct))) in
           type = ''text/html'' \<or> type = ''application/xhtml+xml'' \<or> type = ''image/svg+xml''))"

definition file_char :: "char \<Rightarrow> bool" where
  "file_char c \<longleftrightarrow> is_lower c \<or> is_upper c \<or> is_digit c \<or> c = CHR ''.'' \<or> c = CHR ''_'' \<or> c = CHR ''-''"

definition safeFilename :: "string \<Rightarrow> string option \<Rightarrow> string" where
  "safeFilename input fallback =
     (let cleaned = take 100 (strip_ends (\<lambda>c. c = CHR ''-'' \<or> c = CHR ''.'')
            (collapse file_char (CHR ''-'') (stripInvisibleCharacters input))) in
      if 0 < length cleaned then cleaned else (case fallback of Some f \<Rightarrow> f | None \<Rightarrow> ''apihub-export''))"

section \<open>Entities read back\<close>

text \<open>The text of a document: an entity of the six is its character, any other character itself.\<close>

fun read_entity :: "(char \<times> string) list \<Rightarrow> string \<Rightarrow> (char \<times> nat) option" where
  "read_entity [] s = None"
| "read_entity ((c, e) # es) s = (if starts_with s e then Some (c, length e) else read_entity es s)"

function read_html :: "string \<Rightarrow> string" where
  "read_html [] = []"
| "read_html (c # s) = (case read_entity HTML_ESCAPES (c # s) of Some (d, n) \<Rightarrow> d # read_html (drop (n - 1) s) | None \<Rightarrow> c # read_html s)"
  by pat_completeness auto

termination read_html
  by (relation "measure length") auto

lemma escape_char_read: "read_html ((case map_of HTML_ESCAPES c of Some e \<Rightarrow> e | None \<Rightarrow> [c]) @ s) = c # read_html s"
  by (auto simp: HTML_ESCAPES_def split: if_splits)

lemma escape_char_safe: "d \<in> set (case map_of HTML_ESCAPES c of Some e \<Rightarrow> e | None \<Rightarrow> [c]) \<Longrightarrow> d \<notin> {CHR ''<'', CHR ''>'', CHR 0x22, CHR 0x27, CHR ''/''}"
  by (auto simp: HTML_ESCAPES_def split: if_splits)

text \<open>Escaped text has no character that opens or closes a tag, an attribute or a script, and a browser
  reads the original text back from it.\<close>

theorem escape_html_roundtrip:
  "read_html (escapeHtml s) = s \<and>
   list_all (\<lambda>c. c \<notin> {CHR ''<'', CHR ''>'', CHR 0x22, CHR 0x27, CHR ''/''}) (escapeHtml s)"
proof
  show "read_html (escapeHtml s) = s"
    by (induction s) (simp_all add: escapeHtml_def escape_char_read)
  show "list_all (\<lambda>c. c \<notin> {CHR ''<'', CHR ''>'', CHR 0x22, CHR 0x27, CHR ''/''}) (escapeHtml s)"
    unfolding list_all_iff escapeHtml_def using escape_char_safe by fastforce
qed

section \<open>Stored text\<close>

text \<open>Does a text have this many characters of a class in a row?\<close>

fun has_run :: "(char \<Rightarrow> bool) \<Rightarrow> nat \<Rightarrow> string \<Rightarrow> bool" where
  "has_run p n [] = (n = 0)"
| "has_run p n (c # s) = (n \<le> length (takeWhile p (c # s)) \<or> has_run p n s)"

lemma has_run_iff: "has_run p n s \<longleftrightarrow> (\<exists>xs ys zs. s = xs @ ys @ zs \<and> length ys = n \<and> list_all p ys)"
proof
  show "has_run p n s \<Longrightarrow> \<exists>xs ys zs. s = xs @ ys @ zs \<and> length ys = n \<and> list_all p ys"
  proof (induction p n s rule: has_run.induct)
    case (2 p n c s)
    show ?case
    proof (cases "n \<le> length (takeWhile p (c # s))")
      case True
      have "list_all p (take n (takeWhile p (c # s)))" by (auto simp: list_all_iff dest!: in_set_takeD set_takeWhileD)
      moreover have "c # s = [] @ take n (takeWhile p (c # s)) @ drop n (takeWhile p (c # s)) @ dropWhile p (c # s)"
        by (metis append_Nil append_assoc append_take_drop_id takeWhile_dropWhile_id)
      ultimately show ?thesis using True by (metis length_take min.absorb2)
    next
      case False
      then obtain xs ys zs where "s = xs @ ys @ zs" "length ys = n" "list_all p ys" using 2 by auto
      then show ?thesis by (intro exI [of _ "c # xs"] exI [of _ ys] exI [of _ zs]) simp
    qed
  qed simp
next
  assume "\<exists>xs ys zs. s = xs @ ys @ zs \<and> length ys = n \<and> list_all p ys"
  then obtain xs ys zs where "s = xs @ ys @ zs" "length ys = n" "list_all p ys" by blast
  then show "has_run p n s"
  proof (induction xs arbitrary: s)
    case Nil
    have "takeWhile p (ys @ zs) = ys @ takeWhile p zs" using Nil(3) by (simp add: list_all_iff)
    then have "n \<le> length (takeWhile p s)" using Nil by simp
    then show ?case by (cases s) simp_all
  qed simp
qed

lemma has_run_part: "has_run p n s \<Longrightarrow> has_run p n (xs @ s @ zs)"
  unfolding has_run_iff by (metis append.assoc)

text \<open>After the replacement no run of the class is that long, and none of another class grows.\<close>

lemma takeWhile_dropWhile_stop: "takeWhile p (dropWhile p s) = []"
  by (induction s) auto

lemma takeWhile_replace_runs: "takeWhile p (replace_runs p n r (dropWhile p s)) = []"
proof (cases "dropWhile p s")
  case Nil
  then show ?thesis unfolding Nil by simp
next
  case (Cons c t)
  then have "\<not> p c" by (simp add: dropWhile_eq_Cons_conv)
  then show ?thesis unfolding Cons by simp
qed

lemma has_run_append_stop:
  "list_all p xs \<Longrightarrow> length xs < n \<Longrightarrow> takeWhile p ys = [] \<Longrightarrow> has_run p n (xs @ ys) = has_run p n ys"
  by (induction xs) (auto simp: takeWhile_append2 list_all_iff)

lemma replace_runs_short:
  assumes "list_all p r" "length r < n"
  shows "\<not> has_run p n (replace_runs p n r s)"
  using assms
proof (induction p n r s rule: replace_runs.induct)
  case (2 p n r c s)
  let ?run = "c # takeWhile p s"
  show ?case
  proof (cases "p c")
    case True
    have "has_run p n ((if n \<le> length ?run then r else ?run) @ replace_runs p n r (dropWhile p s)) =
        has_run p n (replace_runs p n r (dropWhile p s))"
      by (rule has_run_append_stop)
        (use True 2(3,4) in \<open>auto simp: list_all_iff takeWhile_replace_runs dest: set_takeWhileD\<close>)
    then show ?thesis using 2 True by (simp add: Let_def)
  next
    case False
    then show ?thesis using 2 by auto
  qed
qed auto

lemma has_run_skip: "list_all (\<lambda>c. \<not> q c) xs \<Longrightarrow> 0 < n \<Longrightarrow> has_run q n (xs @ ys) = has_run q n ys"
  by (induction xs) auto

lemma run_outside:
  assumes "\<And>c. p c \<Longrightarrow> \<not> q c" "r \<noteq> []" "list_all p r" "p c"
  shows "list_all (\<lambda>c. \<not> q c) (if m \<le> length (c # takeWhile p s) then r else c # takeWhile p s)"
    and "(if m \<le> length (c # takeWhile p s) then r else c # takeWhile p s) \<noteq> []"
  using assms by (auto simp: list_all_iff dest: set_takeWhileD)

lemma replace_runs_takeWhile:
  assumes "\<And>c. p c \<Longrightarrow> \<not> q c" "r \<noteq> []" "list_all p r"
  shows "takeWhile q (replace_runs p m r s) = takeWhile q s"
  using assms
proof (induction p m r s rule: replace_runs.induct)
  case (2 p m r c s)
  show ?case
  proof (cases "p c")
    case True
    let ?run = "if m \<le> length (c # takeWhile p s) then r else c # takeWhile p s"
    have "list_all (\<lambda>c. \<not> q c) ?run" "?run \<noteq> []" using run_outside [of p q r c m s] 2(3-) True by blast+
    then have "takeWhile q (?run @ replace_runs p m r (dropWhile p s)) = []"
      by (cases ?run) auto
    then show ?thesis using True 2(3) by (simp add: Let_def)
  next
    case False
    then show ?thesis using 2 by simp
  qed
qed simp

lemma replace_runs_keeps:
  assumes "\<And>c. p c \<Longrightarrow> \<not> q c" "r \<noteq> []" "list_all p r" "\<not> has_run q n s" "0 < n"
  shows "\<not> has_run q n (replace_runs p m r s)"
  using assms
proof (induction p m r s rule: replace_runs.induct)
  case (2 p m r c s)
  show ?case
  proof (cases "p c")
    case True
    let ?run = "if m \<le> length (c # takeWhile p s) then r else c # takeWhile p s"
    have "list_all (\<lambda>c. \<not> q c) ?run" using run_outside(1) [of p q r c m s] 2(3-5) True by blast
    then have "has_run q n (?run @ replace_runs p m r (dropWhile p s)) = has_run q n (replace_runs p m r (dropWhile p s))"
      using 2(7) by (rule has_run_skip)
    moreover have "\<not> has_run q n (dropWhile p s)"
      using 2(6) has_run_part [of q n "dropWhile p s" "c # takeWhile p s" "[]"] by auto
    ultimately show ?thesis using 2(1) [OF True refl 2(3-5) _ 2(7)] True by (simp add: Let_def)
  next
    case False
    have "takeWhile q (replace_runs p m r s) = takeWhile q s"
      by (rule replace_runs_takeWhile) (use 2(3-5) in auto)
    then show ?thesis using 2 False by auto
  qed
qed simp

section \<open>Shapes\<close>

lemma trim_part: "\<exists>xs zs. s = xs @ trim s @ zs"
proof -
  have "s = takeWhile is_space s @ trim_start s" by (simp add: trim_start_def)
  moreover have "trim_start s = trim s @ rev (takeWhile is_space (rev (trim_start s)))"
    unfolding trim_def trim_end_def by (metis rev_append rev_rev_ident takeWhile_dropWhile_id)
  ultimately show ?thesis by metis
qed

lemma sanitize_part: "\<exists>xs zs. s = xs @ take n (trim s) @ zs"
  using trim_part [of s] append_take_drop_id [of n "trim s"] by (metis append.assoc)

lemma unify_lines_set: "set (unify_lines s) \<subseteq> insert (CHR 0x0A) (set s)"
  by (induction s rule: unify_lines.induct) auto

lemma replace_runs_set: "set (replace_runs p m r s) \<subseteq> set r \<union> set s"
  by (induction p m r s rule: replace_runs.induct) (auto simp: Let_def dest: set_takeWhileD set_dropWhileD)

text \<open>C30: Whatever is submitted, the stored text is no longer than the limit, holds no control character but
  tabs and line ends, no three line feeds and no two blanks in a row, and does not start with a space.\<close>

theorem sanitized_text_clean:
  "length (sanitizeUserText s n) \<le> n \<and> list_all (\<lambda>c. \<not> is_control c) (sanitizeUserText s n) \<and>
   \<not> has_run newline 3 (sanitizeUserText s n) \<and> \<not> has_run blank 2 (sanitizeUserText s n) \<and>
   takeWhile is_space (sanitizeUserText s n) = []"
proof -
  define a where "a = unify_lines (stripInvisibleCharacters s)"
  define b where "b = replace_runs newline 3 [CHR 0x0A, CHR 0x0A] a"
  define c where "c = replace_runs blank 2 '' '' b"
  have t: "sanitizeUserText s n = take n (trim c)" by (simp add: sanitizeUserText_def a_def b_def c_def)
  have "set a \<subseteq> insert (CHR 0x0A) (set (stripInvisibleCharacters s))" unfolding a_def by (rule unify_lines_set)
  moreover have "set c \<subseteq> insert (CHR '' '') (insert (CHR 0x0A) (set a))"
    using replace_runs_set [of blank 2 "'' ''" b] replace_runs_set [of newline 3 "[CHR 0x0A, CHR 0x0A]" a]
    unfolding b_def [symmetric] c_def [symmetric] by auto
  ultimately have "x = CHR '' '' \<or> x = CHR 0x0A \<or> x \<in> set (stripInvisibleCharacters s)" if "x \<in> set c" for x
    using that by blast
  then have clean: "\<not> is_control x" if "x \<in> set c" for x
    using that by (auto simp: stripInvisibleCharacters_def) (fastforce simp: is_control_def)+
  have run3: "\<not> has_run newline 3 b" unfolding b_def by (rule replace_runs_short) (simp_all add: newline_def)
  have runs: "\<not> has_run newline 3 c"
    unfolding c_def by (rule replace_runs_keeps [OF _ _ _ run3]) (auto simp: newline_def blank_def)
  have runs2: "\<not> has_run blank 2 c"
    unfolding c_def by (rule replace_runs_short) (simp_all add: blank_def)
  obtain xs zs where part: "c = xs @ take n (trim c) @ zs" using sanitize_part by blast
  have "takeWhile is_space (trim c) = []"
  proof -
    have "takeWhile is_space (trim_start c) = []"
      unfolding trim_start_def by (rule takeWhile_dropWhile_stop)
    moreover obtain ys where "trim_start c = trim c @ ys"
      unfolding trim_def trim_end_def by (metis rev_append rev_rev_ident takeWhile_dropWhile_id)
    ultimately show ?thesis by (cases "trim c") (auto split: if_splits)
  qed
  then have "takeWhile is_space (take n (trim c)) = []" by (cases "trim c"; cases n) (auto split: if_splits)
  moreover have "set (take n (trim c)) \<subseteq> set c" using arg_cong [OF part, of set] by auto
  moreover have "\<not> has_run newline 3 (take n (trim c))" "\<not> has_run blank 2 (take n (trim c))"
    using runs runs2 has_run_part part by metis+
  ultimately show ?thesis unfolding t using clean by (auto simp: list_all_iff)
qed

section \<open>JSON in a page\<close>

text \<open>The body of a JSON string as the reader of the language has it.\<close>

definition hex4 :: "string \<Rightarrow> nat option" where
  "hex4 s = (if length s = 4 \<and> list_all is_hex s then Some (read_base 16 s) else None)"

definition json_escapes :: "(char \<times> char) list" where
  "json_escapes = [(CHR 0x22, CHR 0x22), (CHR 0x5C, CHR 0x5C), (CHR ''/'', CHR ''/''), (CHR ''b'', CHR 0x08),
     (CHR ''f'', CHR 0x0C), (CHR ''n'', CHR 0x0A), (CHR ''r'', CHR 0x0D), (CHR ''t'', CHR 0x09)]"

function read_json :: "string \<Rightarrow> string option" where
  "read_json [] = Some []"
| "read_json (c # s) =
     (if c = CHR 0x5C
      then (case s of
              [] \<Rightarrow> None
            | d # t \<Rightarrow>
                if d = CHR ''u''
                then (case hex4 (take 4 t) of
                        Some n \<Rightarrow> if n < 256 then map_option ((#) (char_of n)) (read_json (drop 4 t)) else None
                      | None \<Rightarrow> None)
                else (case map_of json_escapes d of Some e \<Rightarrow> map_option ((#) e) (read_json t) | None \<Rightarrow> None))
      else if c = CHR 0x22 \<or> code c < 32 then None
      else map_option ((#) c) (read_json s))"
  by pat_completeness auto

termination read_json
  by (relation "measure length") auto

abbreviation json_safe :: "string \<Rightarrow> string" where
  "json_safe s \<equiv> concat (map escape_json_char s)"

lemma escape_json_char_same: "c \<notin> {CHR ''<'', CHR ''>'', CHR ''&''} \<Longrightarrow> escape_json_char c = [c]"
  by (auto simp: escape_json_char_def)

lemma json_safe_same: "set s \<inter> {CHR ''<'', CHR ''>'', CHR ''&''} = {} \<Longrightarrow> json_safe s = s"
  by (induction s) (auto simp: escape_json_char_same)

lemma read_escaped_char:
  assumes "c \<in> {CHR ''<'', CHR ''>'', CHR ''&''}"
  shows "read_json (escape_json_char c @ s) = map_option ((#) c) (read_json s)"
proof -
  have h: "hex4 ''003c'' = Some 60" "hex4 ''003e'' = Some 62" "hex4 ''0026'' = Some 38"
    by code_simp+
  have ch: "(char_of (60 :: nat) :: char) = CHR ''<''" "(char_of (62 :: nat) :: char) = CHR ''>''" "(char_of (38 :: nat) :: char) = CHR ''&''"
    by code_simp+
  show ?thesis using assms by (auto simp: escape_json_char_def h ch)
qed

lemma hex4_chars: "hex4 s = Some n \<Longrightarrow> set s \<inter> {CHR ''<'', CHR ''>'', CHR ''&''} = {}"
  by (auto simp: hex4_def list_all_iff is_hex_def is_digit_def split: if_splits)

lemma json_safe_read: "read_json s = Some t \<Longrightarrow> read_json (json_safe s) = Some t"
proof (induction s arbitrary: t rule: read_json.induct)
  case (2 c s)
  show ?case
  proof (cases "c = CHR 0x5C")
    case False
    then obtain u where u: "read_json s = Some u" "t = c # u" "c \<noteq> CHR 0x22" "\<not> code c < 32"
      using "2.prems" by (auto split: if_splits)
    then have IH: "read_json (json_safe s) = Some u" using "2.IH"(3) [OF False] by blast
    show ?thesis
    proof (cases "c \<in> {CHR ''<'', CHR ''>'', CHR ''&''}")
      case True
      then show ?thesis using read_escaped_char [OF True, of "json_safe s"] IH u by simp
    next
      case not: False
      then show ?thesis using False IH u by (simp add: escape_json_char_same)
    qed
  next
    case True
    then obtain d v where s: "s = d # v" using "2.prems" by (cases s) auto
    show ?thesis
    proof (cases "d = CHR ''u''")
      case d: True
      then obtain n u where n: "hex4 (take 4 v) = Some n" "n < 256" "read_json (drop 4 v) = Some u" "t = char_of n # u"
        using "2.prems" True s by (auto split: option.splits if_splits)
      then have IH: "read_json (json_safe (drop 4 v)) = Some u" using "2.IH"(1) [OF True s d n(1,2)] by blast
      have "json_safe v = json_safe (take 4 v) @ json_safe (drop 4 v)"
        by (metis append_take_drop_id concat_append map_append)
      then have v: "json_safe v = take 4 v @ json_safe (drop 4 v)" using json_safe_same [OF hex4_chars [OF n(1)]] by simp
      have "length (take 4 v) = 4" using n(1) by (auto simp: hex4_def split: if_splits)
      then have "take 4 (json_safe v) = take 4 v" "drop 4 (json_safe v) = json_safe (drop 4 v)"
        unfolding v by simp_all
      moreover have "escape_json_char c = [c]" "escape_json_char d = [d]"
        unfolding True d by (simp_all add: escape_json_char_same)
      ultimately show ?thesis using True s d n IH by simp
    next
      case d: False
      then obtain e u where e: "map_of json_escapes d = Some e" "read_json v = Some u" "t = e # u"
        using "2.prems" True s by (auto split: option.splits)
      then have IH: "read_json (json_safe v) = Some u" using "2.IH"(2) [OF True s d e(1)] by blast
      have "escape_json_char d = [d]" using e(1) by (auto simp: json_escapes_def escape_json_char_def split: if_splits)
      moreover have "escape_json_char c = [c]" unfolding True by (simp add: escape_json_char_same)
      ultimately show ?thesis using True s d e IH by simp
    qed
  qed
qed simp

text \<open>Text embedded in a page has no character that could close its script or start an entity, and a
  string of it that the reader accepts is read as before.\<close>

theorem embedded_json_inert:
  assumes "stringify value = [CHR 0x22] @ body @ [CHR 0x22]" and "read_json body = Some t"
  shows "list_all (\<lambda>c. c \<notin> {CHR ''<'', CHR ''>'', CHR ''&''}) (escapeJsonForHtml stringify value) \<and>
    (\<exists>body'. escapeJsonForHtml stringify value = [CHR 0x22] @ body' @ [CHR 0x22] \<and> read_json body' = Some t)"
proof
  show "list_all (\<lambda>c. c \<notin> {CHR ''<'', CHR ''>'', CHR ''&''}) (escapeJsonForHtml stringify value)"
    by (auto simp: escapeJsonForHtml_def list_all_iff escape_json_char_def split: if_splits)
  have "escapeJsonForHtml stringify value = [CHR 0x22] @ json_safe body @ [CHR 0x22]"
    by (simp add: escapeJsonForHtml_def assms(1) escape_json_char_def)
  then show "\<exists>body'. escapeJsonForHtml stringify value = [CHR 0x22] @ body' @ [CHR 0x22] \<and> read_json body' = Some t"
    using json_safe_read [OF assms(2)] by blast
qed

theorem embedded_json_inert_witness:
  "\<exists>body'. escapeJsonForHtml (\<lambda>_ :: nat. [CHR 0x22] @ ''</script>'' @ [CHR 0x22]) 0 = [CHR 0x22] @ body' @ [CHR 0x22] \<and>
     read_json body' = Some ''</script>''"
proof -
  have "read_json ''</script>'' = Some ''</script>''" by code_simp
  from embedded_json_inert [of "\<lambda>_ :: nat. [CHR 0x22] @ ''</script>'' @ [CHR 0x22]" 0, OF refl this]
  show ?thesis by (rule conjunct2)
qed

section \<open>File names\<close>

lemma takeWhile_Nil_prefix: "takeWhile p zs = [] \<Longrightarrow> xs @ ys = zs \<Longrightarrow> takeWhile p xs = []"
  by (cases xs) (auto split: if_splits)

lemma rev_dropWhile_part: "rev (dropWhile p (rev xs)) @ rev (takeWhile p (rev xs)) = xs"
  by (simp add: rev_append [symmetric] del: rev_append)

lemma safe_filename: "list_all file_char (safeFilename s None) \<and> safeFilename s None \<noteq> [] \<and> length (safeFilename s None) \<le> 100 \<and>
   takeWhile (\<lambda>c. c = CHR ''-'' \<or> c = CHR ''.'') (safeFilename s None) = []"
proof -
  let ?e = "\<lambda>c. c = CHR ''-'' \<or> c = CHR ''.''"
  define a where "a = collapse file_char (CHR ''-'') (stripInvisibleCharacters s)"
  have fb: "list_all file_char ''apihub-export''" by code_simp
  have "c \<in> set a \<Longrightarrow> file_char c" for c
    unfolding a_def using collapse_set [of c file_char "CHR ''-''"] by (auto simp: file_char_def)
  then have all: "list_all file_char (take n (strip_ends ?e a))" for n
    by (auto simp: list_all_iff strip_ends_def dest!: in_set_takeD set_dropWhileD)
  have "strip_ends ?e a @ rev (takeWhile ?e (rev (dropWhile ?e a))) = dropWhile ?e a"
    unfolding strip_ends_def by (rule rev_dropWhile_part)
  then have "takeWhile ?e (strip_ends ?e a) = []" by (rule takeWhile_Nil_prefix [OF takeWhile_dropWhile_stop])
  then have "takeWhile ?e (take n (strip_ends ?e a)) = []" for n
    by (cases "strip_ends ?e a"; cases n) (auto split: if_splits)
  moreover define w where "w = take 100 (strip_ends ?e a)"
  ultimately have w: "takeWhile ?e w = []" "list_all file_char w" "length w \<le> 100" using all by simp_all
  have d: "takeWhile ?e ''apihub-export'' = [] \<and> length ''apihub-export'' \<le> 100" by simp
  have eq: "safeFilename s None = (if w = [] then ''apihub-export'' else w)"
    unfolding safeFilename_def a_def [symmetric] Let_def w_def by simp
  show ?thesis
  proof (cases "w = []")
    case True
    then show ?thesis unfolding eq using fb d by simp
  next
    case False
    then show ?thesis unfolding eq using w by simp
  qed
qed

text \<open>The soft hyphen, which is invisible, is kept.\<close>

lemma soft_hyphen_kept: "stripInvisibleCharacters [CHR ''a'', CHR 0xAD, CHR ''b''] = [CHR ''a'', CHR 0xAD, CHR ''b'']"
  by code_simp

text \<open>Cleaning stored text again may change it: a carriage return before another line end survives once.\<close>

lemma sanitize_not_idempotent:
  "sanitizeUserText (sanitizeUserText [CHR ''a'', CHR 0x0D, CHR 0x0D, CHR 0x0A, CHR ''b''] 9) 9 \<noteq>
   sanitizeUserText [CHR ''a'', CHR 0x0D, CHR 0x0D, CHR 0x0A, CHR ''b''] 9"
  by code_simp

end
