(* ===== verification/Reviews.thy ===== *)
theory Reviews
  imports Sanitize AppErrors
begin

text \<open>
  Reviews (\<open>apps/api/src/modules/reviews/service.ts\<close>) over the tables of reviews and votes. A table is a map by
  its key, a statement is one step, and the constraints of the schema (\<open>packages/database/src/schema/users.ts\<close>)
  are part of the statements: one review of an API by a user, one vote on a review by a user, and deleting a
  review deletes its votes. Calls are cut between their statements, so that the invariant holds whatever
  other calls run in between.
\<close>

section \<open>Tables\<close>

record stored_review =
  sv_userId :: string
  sv_apiId :: string
  sv_ratingOverall :: nat
  sv_ratingReliability :: "nat option"
  sv_ratingDocumentation :: "nat option"
  sv_ratingDeveloperExperience :: "nat option"
  sv_ratingFreeTier :: "nat option"
  sv_title :: "string option"
  sv_body :: "string option"
  sv_helpfulCount :: nat
  sv_moderationStatus :: string
  sv_createdAt :: time
  sv_updatedAt :: time

record author =
  at_id :: string
  at_name :: string
  at_avatarColor :: string

record review_db =
  rd_apis :: "string list"
  rd_users :: "author list"
  rd_reviews :: "(string, stored_review) jsmap"
  rd_votes :: "(string \<times> string) list"

record ratings =
  rg_overall :: nat
  rg_reliability :: "nat option"
  rg_documentation :: "nat option"
  rg_developerExperience :: "nat option"
  rg_freeTier :: "nat option"

record create_review =
  wi_ratings :: ratings
  wi_title :: "string option"
  wi_body :: "string option"

record review =
  rw_id :: string
  rw_apiId :: string
  rw_author :: author
  rw_ratings :: ratings
  rw_title :: "string option"
  rw_body :: "string option"
  rw_helpfulCount :: nat
  rw_isOwn :: bool
  rw_createdAt :: time
  rw_updatedAt :: time

definition toReview :: "string \<Rightarrow> stored_review \<Rightarrow> author \<Rightarrow> string option \<Rightarrow> review" where
  "toReview i row user viewerId =
     \<lparr>rw_id = i, rw_apiId = sv_apiId row, rw_author = user,
      rw_ratings = \<lparr>rg_overall = sv_ratingOverall row, rg_reliability = sv_ratingReliability row,
        rg_documentation = sv_ratingDocumentation row, rg_developerExperience = sv_ratingDeveloperExperience row,
        rg_freeTier = sv_ratingFreeTier row\<rparr>,
      rw_title = sv_title row, rw_body = sv_body row, rw_helpfulCount = sv_helpfulCount row,
      rw_isOwn = (viewerId = Some (sv_userId row)), rw_createdAt = sv_createdAt row, rw_updatedAt = sv_updatedAt row\<rparr>"

definition find_author :: "review_db \<Rightarrow> string \<Rightarrow> author option" where
  "find_author db userId = List.find (\<lambda>u. at_id u = userId) (rd_users db)"

text \<open>The text of a title or a body, cleaned as it is written; the empty text is stored as none.\<close>

definition cleaned :: "nat \<Rightarrow> string option \<Rightarrow> string option" where
  "cleaned n t = (case t of Some s \<Rightarrow> (if s = [] then None else Some (sanitizeUserText s n)) | None \<Rightarrow> None)"

section \<open>Reading\<close>

definition published :: "review_db \<Rightarrow> string \<Rightarrow> (string \<times> stored_review) list" where
  "published db apiId = filter (\<lambda>(i, r). sv_apiId r = apiId \<and> sv_moderationStatus r = ''published'') (rd_reviews db)"

definition listForApi :: "review_db \<Rightarrow> string \<Rightarrow> string option \<Rightarrow> nat \<Rightarrow> nat \<Rightarrow> review list \<times> nat" where
  "listForApi db apiId viewerId page pageSize =
     (let joined = List.map_filter (\<lambda>(i, r). map_option (\<lambda>u. (i, r, u)) (find_author db (sv_userId r))) (published db apiId);
          ordered = sort_by (\<lambda>(_, a, _) (_, b, _). sv_helpfulCount b < sv_helpfulCount a \<or>
            sv_helpfulCount a = sv_helpfulCount b \<and> sv_createdAt b \<le> sv_createdAt a) joined
      in (map (\<lambda>(i, r, u). toReview i r u viewerId) (take pageSize (drop ((page - 1) * pageSize) ordered)),
          length (published db apiId)))"

text \<open>\<open>avg\<close> of the values that are present, none for no value.\<close>

definition average_of :: "nat list \<Rightarrow> rat option" where
  "average_of xs = (if xs = [] then None else Some (of_nat (sum_list xs) / of_nat (length xs)))"

record review_summary =
  sy_average :: rat
  sy_count :: nat
  sy_distribution :: "nat list"
  sy_reliability :: "rat option"
  sy_documentation :: "rat option"
  sy_developerExperience :: "rat option"
  sy_freeTier :: "rat option"

definition summaryForApi :: "review_db \<Rightarrow> string \<Rightarrow> review_summary" where
  "summaryForApi db apiId =
     (let rows = map snd (published db apiId) in
      \<lparr>sy_average = (case average_of (map sv_ratingOverall rows) of Some a \<Rightarrow> a | None \<Rightarrow> 0),
       sy_count = length rows,
       sy_distribution = map (\<lambda>star. length (filter (\<lambda>r. sv_ratingOverall r = star) rows)) [1, 2, 3, 4, 5],
       sy_reliability = average_of (List.map_filter sv_ratingReliability rows),
       sy_documentation = average_of (List.map_filter sv_ratingDocumentation rows),
       sy_developerExperience = average_of (List.map_filter sv_ratingDeveloperExperience rows),
       sy_freeTier = average_of (List.map_filter sv_ratingFreeTier rows)\<rparr>)"

section \<open>Writing, statement by statement\<close>

definition create_check :: "review_db \<Rightarrow> string \<Rightarrow> string \<Rightarrow> app_error option" where
  "create_check db apiId userId =
     (if apiId \<notin> set (rd_apis db) then Some (NotFoundError ''API'')
      else if list_ex (\<lambda>(i, r). sv_apiId r = apiId \<and> sv_userId r = userId) (rd_reviews db)
      then Some (ConflictError (Some ''You have already reviewed this API. Edit your existing review.''))
      else None)"

definition new_review :: "time \<Rightarrow> string \<Rightarrow> string \<Rightarrow> create_review \<Rightarrow> stored_review" where
  "new_review now apiId userId input =
     (let rs = wi_ratings input in
      \<lparr>sv_userId = userId, sv_apiId = apiId, sv_ratingOverall = rg_overall rs, sv_ratingReliability = rg_reliability rs,
       sv_ratingDocumentation = rg_documentation rs, sv_ratingDeveloperExperience = rg_developerExperience rs,
       sv_ratingFreeTier = rg_freeTier rs, sv_title = cleaned 120 (wi_title input), sv_body = cleaned 4000 (wi_body input),
       sv_helpfulCount = 0, sv_moderationStatus = ''published'', sv_createdAt = now, sv_updatedAt = now\<rparr>)"

text \<open>What the database throws for a constraint that the statement violates.\<close>

definition violation :: "string \<Rightarrow> string \<Rightarrow> thrown" where
  "violation c detail = ThrownOther
     \<lparr>oe_code = Some c, oe_detail = Some detail, oe_validation = None, oe_statusCode = None, oe_message = [], oe_stack = []\<rparr>"

definition create_insert :: "time \<Rightarrow> string \<Rightarrow> string \<Rightarrow> string \<Rightarrow> create_review \<Rightarrow> review_db \<Rightarrow> thrown + review_db" where
  "create_insert now i apiId userId input db =
     (if apiId \<notin> set (rd_apis db) \<or> find_author db userId = None then Inl (violation ''23503'' [])
      else if jm_has (rd_reviews db) i \<or> list_ex (\<lambda>(_, r). sv_apiId r = apiId \<and> sv_userId r = userId) (rd_reviews db)
      then Inl (violation ''23505'' ''Key (user_id, api_id)=... already exists.'')
      else Inr (db\<lparr>rd_reviews := rd_reviews db @ [(i, new_review now apiId userId input)]\<rparr>))"

text \<open>The call with no other in between: the check, the insert and the author for the answer.\<close>

definition create :: "time \<Rightarrow> string \<Rightarrow> string \<Rightarrow> string \<Rightarrow> create_review \<Rightarrow> review_db \<Rightarrow> (thrown + review) \<times> review_db" where
  "create now i apiId userId input db =
     (case create_check db apiId userId of
        Some e \<Rightarrow> (Inl (ThrownApp e), db)
      | None \<Rightarrow>
          (case create_insert now i apiId userId input db of
             Inl t \<Rightarrow> (Inl t, db)
           | Inr db' \<Rightarrow>
               (case find_author db' userId of
                  Some u \<Rightarrow> (Inr (toReview i (new_review now apiId userId input) u (Some userId)), db')
                | None \<Rightarrow> (Inl (violation [] []), db'))))"

definition requireOwn :: "review_db \<Rightarrow> string \<Rightarrow> string \<Rightarrow> app_error + stored_review" where
  "requireOwn db reviewId userId =
     (case jm_get (rd_reviews db) reviewId of
        None \<Rightarrow> Inl (NotFoundError ''Review'')
      | Some row \<Rightarrow>
          if sv_userId row \<noteq> userId then Inl (ForbiddenError (Some ''You can only edit your own reviews.'')) else Inr row)"

definition edited :: "time \<Rightarrow> create_review \<Rightarrow> stored_review \<Rightarrow> stored_review" where
  "edited now input row =
     (let rs = wi_ratings input in
      row\<lparr>sv_ratingOverall := rg_overall rs, sv_ratingReliability := rg_reliability rs,
        sv_ratingDocumentation := rg_documentation rs, sv_ratingDeveloperExperience := rg_developerExperience rs,
        sv_ratingFreeTier := rg_freeTier rs, sv_title := cleaned 120 (wi_title input),
        sv_body := cleaned 4000 (wi_body input), sv_updatedAt := now\<rparr>)"

definition change_review :: "string \<Rightarrow> (stored_review \<Rightarrow> stored_review) \<Rightarrow> review_db \<Rightarrow> review_db" where
  "change_review i f db = db\<lparr>rd_reviews := map (\<lambda>(k, r). (k, if k = i then f r else r)) (rd_reviews db)\<rparr>"

definition update_own :: "time \<Rightarrow> string \<Rightarrow> string \<Rightarrow> create_review \<Rightarrow> review_db \<Rightarrow> (app_error + string) \<times> review_db" where
  "update_own now reviewId userId input db =
     (case requireOwn db reviewId userId of
        Inl e \<Rightarrow> (Inl e, db)
      | Inr existing \<Rightarrow> (Inr (sv_apiId existing), change_review reviewId (edited now input) db))"

definition remove_check :: "review_db \<Rightarrow> string \<Rightarrow> string \<Rightarrow> bool \<Rightarrow> app_error + string" where
  "remove_check db reviewId userId isModerator =
     (case jm_get (rd_reviews db) reviewId of
        None \<Rightarrow> Inl (NotFoundError ''Review'')
      | Some row \<Rightarrow>
          if sv_userId row \<noteq> userId \<and> \<not> isModerator
          then Inl (ForbiddenError (Some ''You can only delete your own reviews.'')) else Inr (sv_apiId row))"

definition delete_review :: "string \<Rightarrow> review_db \<Rightarrow> review_db" where
  "delete_review i db =
     db\<lparr>rd_reviews := jm_delete i (rd_reviews db), rd_votes := filter (\<lambda>(r, u). r \<noteq> i) (rd_votes db)\<rparr>"

definition remove_review :: "string \<Rightarrow> string \<Rightarrow> bool \<Rightarrow> review_db \<Rightarrow> (app_error + string) \<times> review_db" where
  "remove_review reviewId userId isModerator db =
     (case remove_check db reviewId userId isModerator of
        Inl e \<Rightarrow> (Inl e, db)
      | Inr apiId \<Rightarrow> (Inr apiId, delete_review reviewId db))"

text \<open>A vote: the insert, which says whether it added a row, and the count, added to or only read.\<close>

definition vote_insert :: "string \<Rightarrow> string \<Rightarrow> review_db \<Rightarrow> (thrown + bool) \<times> review_db" where
  "vote_insert reviewId userId db =
     (if \<not> jm_has (rd_reviews db) reviewId then (Inl (violation ''23503'' []), db)
      else if (reviewId, userId) \<in> set (rd_votes db) then (Inr False, db)
      else (Inr True, db\<lparr>rd_votes := rd_votes db @ [(reviewId, userId)]\<rparr>))"

definition helpful_of :: "string \<Rightarrow> review_db \<Rightarrow> nat" where
  "helpful_of reviewId db = (case jm_get (rd_reviews db) reviewId of Some r \<Rightarrow> sv_helpfulCount r | None \<Rightarrow> 0)"

definition vote_count :: "string \<Rightarrow> review_db \<Rightarrow> nat \<times> review_db" where
  "vote_count reviewId db =
     (let db' = change_review reviewId (\<lambda>r. r\<lparr>sv_helpfulCount := sv_helpfulCount r + 1\<rparr>) db in (helpful_of reviewId db', db'))"

definition vote :: "string \<Rightarrow> string \<Rightarrow> review_db \<Rightarrow> (thrown + nat) \<times> review_db" where
  "vote reviewId userId db =
     (case vote_insert reviewId userId db of
        (Inl t, db') \<Rightarrow> (Inl t, db')
      | (Inr False, db') \<Rightarrow> (Inr (helpful_of reviewId db'), db')
      | (Inr True, db') \<Rightarrow> (let (n, db'') = vote_count reviewId db' in (Inr n, db'')))"

section \<open>Calls in flight\<close>

text \<open>The tables, the votes whose row is in but not yet counted, and the ids drawn so far: an id is never
  drawn twice.\<close>

record review_system =
  ry_db :: review_db
  ry_counting :: "string list"
  ry_drawn :: "string list"

text \<open>The statements of any number of calls, in any order: a check made earlier may be out of date by the time
  its statement runs. Moderation, new users and new APIs come from elsewhere.\<close>

datatype review_event =
    InsertReview time string string string create_review
  | EditReview time string create_review
  | DeleteReview string
  | InsertVote string string
  | CountVote string
  | Moderate string string
  | SetWorld "string list" "author list"

fun review_event_step :: "review_event \<Rightarrow> review_system \<Rightarrow> review_system" where
  "review_event_step (InsertReview now i apiId userId input) s =
     (if i \<in> set (ry_drawn s) then s
      else (case create_insert now i apiId userId input (ry_db s) of
              Inl _ \<Rightarrow> s\<lparr>ry_drawn := i # ry_drawn s\<rparr>
            | Inr db \<Rightarrow> s\<lparr>ry_db := db, ry_drawn := i # ry_drawn s\<rparr>))"
| "review_event_step (EditReview now i input) s = s\<lparr>ry_db := change_review i (edited now input) (ry_db s)\<rparr>"
| "review_event_step (DeleteReview i) s = s\<lparr>ry_db := delete_review i (ry_db s)\<rparr>"
| "review_event_step (InsertVote i userId) s =
     (case vote_insert i userId (ry_db s) of
        (Inr True, db) \<Rightarrow> s\<lparr>ry_db := db, ry_counting := i # ry_counting s\<rparr>
      | _ \<Rightarrow> s)"
| "review_event_step (CountVote i) s =
     (if i \<in> set (ry_counting s) then s\<lparr>ry_db := snd (vote_count i (ry_db s)), ry_counting := remove1 i (ry_counting s)\<rparr> else s)"
| "review_event_step (Moderate i status) s = s\<lparr>ry_db := change_review i (\<lambda>r. r\<lparr>sv_moderationStatus := status\<rparr>) (ry_db s)\<rparr>"
| "review_event_step (SetWorld apis users) s = s\<lparr>ry_db := (ry_db s)\<lparr>rd_apis := apis, rd_users := users\<rparr>\<rparr>"

definition reviews_start :: review_system where
  "reviews_start = \<lparr>ry_db = \<lparr>rd_apis = [], rd_users = [], rd_reviews = [], rd_votes = []\<rparr>, ry_counting = [], ry_drawn = []\<rparr>"

definition votes_of :: "review_db \<Rightarrow> string \<Rightarrow> nat" where
  "votes_of db i = length (filter (\<lambda>v. fst v = i) (rd_votes db))"

text \<open>One review of an API by a user, one vote on a review by a user, every vote on a stored review, and every
  count short of the votes by those still being counted.\<close>

definition reviews_ok :: "review_system \<Rightarrow> bool" where
  "reviews_ok s \<longleftrightarrow>
     distinct (map (\<lambda>(i, r). (sv_userId r, sv_apiId r)) (rd_reviews (ry_db s))) \<and> distinct (rd_votes (ry_db s)) \<and>
     list_all (\<lambda>v. jm_has (rd_reviews (ry_db s)) (fst v)) (rd_votes (ry_db s)) \<and>
     list_all (\<lambda>(i, r). sv_helpfulCount r + count_list (ry_counting s) i = votes_of (ry_db s) i) (rd_reviews (ry_db s))"

definition reviews_inv :: "review_system \<Rightarrow> bool" where
  "reviews_inv s \<longleftrightarrow> reviews_ok s \<and> jm_wf (rd_reviews (ry_db s)) \<and>
     fst ` set (rd_reviews (ry_db s)) \<subseteq> set (ry_drawn s) \<and> set (ry_counting s) \<subseteq> set (ry_drawn s)"

lemma change_keys [simp]: "map fst (rd_reviews (change_review i f db)) = map fst (rd_reviews db)"
  by (auto simp: change_review_def split: prod.splits)

lemma change_get: "jm_get (rd_reviews (change_review i f db)) k = map_option (\<lambda>r. if k = i then f r else r) (jm_get (rd_reviews db) k)"
  by (simp add: change_review_def jm_get_map_at)

text \<open>A change that keeps owner, API and count keeps the invariant.\<close>

lemma change_owners:
  assumes "\<And>r. (sv_userId (f r), sv_apiId (f r)) = (sv_userId r, sv_apiId r)"
  shows "map (\<lambda>(i, r). (sv_userId r, sv_apiId r)) (rd_reviews (change_review i f db)) =
    map (\<lambda>(i, r). (sv_userId r, sv_apiId r)) (rd_reviews db)"
  using assms by (auto simp: change_review_def split: prod.splits)

lemma change_inv:
  assumes inv: "reviews_inv s" and f: "\<And>r. (sv_userId (f r), sv_apiId (f r), sv_helpfulCount (f r)) = (sv_userId r, sv_apiId r, sv_helpfulCount r)"
  shows "reviews_inv (s\<lparr>ry_db := change_review i f (ry_db s)\<rparr>)"
proof -
  have "fst ` set (rd_reviews (change_review i f (ry_db s))) = fst ` set (rd_reviews (ry_db s))"
    using arg_cong [OF change_keys, of set] by (metis set_map)
  moreover have "map (\<lambda>(i, r). (sv_userId r, sv_apiId r)) (rd_reviews (change_review i f (ry_db s))) =
      map (\<lambda>(i, r). (sv_userId r, sv_apiId r)) (rd_reviews (ry_db s))"
    by (rule change_owners) (use f in auto)
  moreover have "rd_votes (change_review i f (ry_db s)) = rd_votes (ry_db s)" by (simp add: change_review_def)
  moreover have "list_all (\<lambda>(k, r). sv_helpfulCount r + count_list (ry_counting s) k = votes_of (ry_db s) k) (rd_reviews (change_review i f (ry_db s)))"
    using inv f by (auto simp: reviews_inv_def reviews_ok_def change_review_def list_all_iff)
  moreover have "jm_has (rd_reviews (change_review i f (ry_db s))) k \<longleftrightarrow> jm_has (rd_reviews (ry_db s)) k" for k
    by (simp add: change_get)
  moreover define s' where "s' = s\<lparr>ry_db := change_review i f (ry_db s)\<rparr>"
  then have "ry_db s' = change_review i f (ry_db s)" "ry_counting s' = ry_counting s" "ry_drawn s' = ry_drawn s" by simp_all
  ultimately show ?thesis
    using inv unfolding reviews_inv_def reviews_ok_def votes_of_def jm_wf_def s'_def [symmetric] by (simp only: change_keys)
qed

lemma insert_inv:
  assumes inv: "reviews_inv s" and i: "i \<notin> set (ry_drawn s)" and db: "create_insert now i apiId userId input (ry_db s) = Inr db"
  shows "reviews_inv (s\<lparr>ry_db := db, ry_drawn := i # ry_drawn s\<rparr>)"
proof -
  have db': "db = (ry_db s)\<lparr>rd_reviews := rd_reviews (ry_db s) @ [(i, new_review now apiId userId input)]\<rparr>"
    and new: "jm_get (rd_reviews (ry_db s)) i = None" "\<not> list_ex (\<lambda>(_, r). sv_apiId r = apiId \<and> sv_userId r = userId) (rd_reviews (ry_db s))"
    using db by (auto simp: create_insert_def split: if_splits)
  have own: "sv_userId (new_review now apiId userId input) = userId" "sv_apiId (new_review now apiId userId input) = apiId"
    "sv_helpfulCount (new_review now apiId userId input) = 0"
    by (simp_all add: new_review_def Let_def)
  have "votes_of (ry_db s) i = 0" "count_list (ry_counting s) i = 0"
    using inv new(1) i by (auto simp: reviews_inv_def reviews_ok_def votes_of_def list_all_iff filter_empty_conv count_list_0_iff)
  then show ?thesis
    using inv new i unfolding db'
    by (auto simp: reviews_inv_def reviews_ok_def jm_wf_def own votes_of_def list_all_iff list_ex_iff map_add_def map_of_eq_None_iff
        split: option.split)
qed

lemma distinct_map_delete: "distinct (map f m) \<Longrightarrow> distinct (map f (jm_delete k m))"
  by (simp add: AList.delete_eq distinct_map_filter)

lemma delete_inv:
  assumes inv: "reviews_inv s"
  shows "reviews_inv (s\<lparr>ry_db := delete_review i (ry_db s)\<rparr>)"
proof -
  let ?db = "ry_db s"
  have "fst ` set (jm_delete i (rd_reviews ?db)) \<subseteq> fst ` set (rd_reviews ?db)" by (auto simp: AList.delete_eq)
  moreover have "list_all (\<lambda>v. jm_has (jm_delete i (rd_reviews ?db)) (fst v)) (filter (\<lambda>(r, u). r \<noteq> i) (rd_votes ?db))"
    using inv by (auto simp: reviews_inv_def reviews_ok_def list_all_iff jm_get_delete)
  moreover have "list_all (\<lambda>(k, r). sv_helpfulCount r + count_list (ry_counting s) k =
      length (filter (\<lambda>v. fst v = k) (filter (\<lambda>(r, u). r \<noteq> i) (rd_votes ?db)))) (jm_delete i (rd_reviews ?db))"
  proof -
    have "filter (\<lambda>v. fst v = k) (filter (\<lambda>(r, u). r \<noteq> i) vs) = filter (\<lambda>v. fst v = k) vs" if "k \<noteq> i" for k and vs :: "(string \<times> string) list"
      using that by (induction vs) auto
    then show ?thesis using inv by (auto simp: reviews_inv_def reviews_ok_def votes_of_def list_all_iff AList.delete_eq)
  qed
  ultimately show ?thesis
    using inv by (auto simp: reviews_inv_def reviews_ok_def delete_review_def votes_of_def distinct_map_delete jm_wf_def distinct_delete)
qed

lemma vote_insert_inv:
  assumes inv: "reviews_inv s" and v: "vote_insert i userId (ry_db s) = (Inr True, db)"
  shows "reviews_inv (s\<lparr>ry_db := db, ry_counting := i # ry_counting s\<rparr>)"
proof -
  have db: "db = (ry_db s)\<lparr>rd_votes := rd_votes (ry_db s) @ [(i, userId)]\<rparr>"
    and i: "jm_has (rd_reviews (ry_db s)) i" "(i, userId) \<notin> set (rd_votes (ry_db s))"
    using v by (auto simp: vote_insert_def split: if_splits)
  have "i \<in> fst ` set (rd_reviews (ry_db s))" using i(1) by (auto dest: map_of_SomeD intro: rev_image_eqI)
  then have "i \<in> set (ry_drawn s)" using inv by (auto simp: reviews_inv_def)
  moreover have "list_all (\<lambda>(k, r). sv_helpfulCount r + count_list (i # ry_counting s) k = votes_of db k) (rd_reviews (ry_db s))"
    using inv by (auto simp: reviews_inv_def reviews_ok_def list_all_iff votes_of_def db)
  ultimately show ?thesis using inv i unfolding db
    by (simp add: reviews_inv_def reviews_ok_def)
qed

lemma vote_count_inv:
  assumes inv: "reviews_inv s" and i: "i \<in> set (ry_counting s)"
  shows "reviews_inv (s\<lparr>ry_db := snd (vote_count i (ry_db s)), ry_counting := remove1 i (ry_counting s)\<rparr>)"
proof -
  let ?f = "\<lambda>r. r\<lparr>sv_helpfulCount := sv_helpfulCount r + 1\<rparr>"
  let ?db = "change_review i ?f (ry_db s)"
  have keys: "fst ` set (rd_reviews ?db) = fst ` set (rd_reviews (ry_db s))"
    using arg_cong [OF change_keys, of set] by (metis set_map)
  have own: "map (\<lambda>(i, r). (sv_userId r, sv_apiId r)) (rd_reviews ?db) = map (\<lambda>(i, r). (sv_userId r, sv_apiId r)) (rd_reviews (ry_db s))"
    by (rule change_owners) simp
  have votes: "rd_votes ?db = rd_votes (ry_db s)" by (simp add: change_review_def)
  have has: "jm_has (rd_reviews ?db) k \<longleftrightarrow> jm_has (rd_reviews (ry_db s)) k" for k by (simp add: change_get)
  have count: "count_list (remove1 i xs) k + (if k = i then 1 else 0) = count_list xs k" if "i \<in> set xs" for k xs
    using that by (induction xs) auto
  have "list_all (\<lambda>(k, r). sv_helpfulCount r + count_list (remove1 i (ry_counting s)) k = votes_of ?db k) (rd_reviews ?db)"
    using inv count [OF i]
    by (fastforce simp: reviews_inv_def reviews_ok_def list_all_iff votes_of_def votes change_review_def split: if_splits)
  moreover have "set (remove1 i (ry_counting s)) \<subseteq> set (ry_drawn s)"
    using inv set_remove1_subset [of i "ry_counting s"] by (auto simp: reviews_inv_def)
  moreover define s' where "s' = s\<lparr>ry_db := ?db, ry_counting := remove1 i (ry_counting s)\<rparr>"
  then have "ry_db s' = ?db" "ry_counting s' = remove1 i (ry_counting s)" "ry_drawn s' = ry_drawn s" by simp_all
  ultimately have "reviews_inv s'"
    using inv unfolding reviews_inv_def reviews_ok_def jm_wf_def by (simp only: change_keys keys own votes has)
  then show ?thesis by (simp add: s'_def vote_count_def Let_def)
qed

lemma review_step_inv: "reviews_inv s \<Longrightarrow> reviews_inv (review_event_step e s)"
proof (induction e s rule: review_event_step.induct)
  case (1 now i apiId userId input s)
  show ?case
  proof (cases "i \<in> set (ry_drawn s)")
    case False
    then show ?thesis using 1 insert_inv [OF 1 False]
      by (cases "create_insert now i apiId userId input (ry_db s)") (auto simp: reviews_inv_def reviews_ok_def)
  qed (use 1 in simp)
next
  case (2 now i input s)
  then show ?case by (simp add: change_inv edited_def Let_def)
next
  case (3 i s)
  then show ?case by (simp add: delete_inv)
next
  case (4 i userId s)
  obtain r db where v: "vote_insert i userId (ry_db s) = (r, db)" by (cases "vote_insert i userId (ry_db s)")
  show ?case
  proof (cases "r = Inr True")
    case True
    then show ?thesis using vote_insert_inv [OF 4] v by simp
  qed (use 4 v in \<open>auto split: sum.split bool.split\<close>)
next
  case (5 i s)
  then show ?case using vote_count_inv by simp
next
  case (6 i status s)
  then show ?case by (simp add: change_inv)
next
  case (7 apis users s)
  then show ?case by (simp add: reviews_inv_def reviews_ok_def votes_of_def)
qed

text \<open>C27: However the statements of concurrent calls interleave, a user has at most one review of an API and one
  vote on a review, no vote outlives its review, and the helpful count of every review is the number of its
  votes less those whose call has not counted yet, so with no call in flight it is exact.\<close>

theorem reviews_consistent: "reviews_ok (fold review_event_step events reviews_start)"
proof -
  have "reviews_inv (fold review_event_step events s)" if "reviews_inv s" for s
    using that by (induction events arbitrary: s) (auto intro: review_step_inv)
  moreover have "reviews_inv reviews_start" by (simp add: reviews_inv_def reviews_ok_def reviews_start_def)
  ultimately show ?thesis by (simp add: reviews_inv_def)
qed

section \<open>Who may write\<close>

text \<open>An edit changes exactly the review that the caller wrote, and nothing otherwise; a removal takes
  exactly the review of the caller, or any for a moderator. Owner, API, votes and moderation of the edited
  review stay, and no other review changes.\<close>

lemma edit_own:
  "update_own now i userId input db =
     (case jm_get (rd_reviews db) i of
        None \<Rightarrow> (Inl (NotFoundError ''Review''), db)
      | Some row \<Rightarrow>
          if sv_userId row = userId then (Inr (sv_apiId row), change_review i (edited now input) db)
          else (Inl (ForbiddenError (Some ''You can only edit your own reviews.'')), db))"
  by (simp add: update_own_def requireOwn_def split: option.split)

section \<open>Summaries\<close>

lemma distribution_sum:
  assumes "list_all (\<lambda>r. 1 \<le> f r \<and> f r \<le> (5 :: nat)) rows"
  shows "sum_list (map (\<lambda>star. length (filter (\<lambda>r. f r = star) rows)) [1, 2, 3, 4, 5]) = length rows"
    and "sum_list (map (\<lambda>star. star * length (filter (\<lambda>r. f r = star) rows)) [1, 2, 3, 4, 5]) = sum_list (map f rows)"
proof -
  have "n = 1 \<or> n = 2 \<or> n = 3 \<or> n = 4 \<or> n = 5" if "1 \<le> n" "n \<le> 5" for n :: nat using that by linarith
  then show "sum_list (map (\<lambda>star. length (filter (\<lambda>r. f r = star) rows)) [1, 2, 3, 4, 5]) = length rows"
    "sum_list (map (\<lambda>star. star * length (filter (\<lambda>r. f r = star) rows)) [1, 2, 3, 4, 5]) = sum_list (map f rows)"
    using assms by (induction rows) auto
qed

text \<open>For ratings of one to five stars the histogram counts every published review once, and the average is
  the mean of the histogram.\<close>

theorem review_summary_exact:
  assumes "list_all (\<lambda>(i, r). 1 \<le> sv_ratingOverall r \<and> sv_ratingOverall r \<le> 5) (rd_reviews db)"
  shows "(let y = summaryForApi db apiId in
    sum_list (sy_distribution y) = sy_count y \<and>
    sy_average y * of_nat (sy_count y) = of_nat (sum_list (map2 (*) [1, 2, 3, 4, 5] (sy_distribution y))))"
proof -
  define rows where "rows = map snd (published db apiId)"
  have "list_all (\<lambda>r. 1 \<le> sv_ratingOverall r \<and> sv_ratingOverall r \<le> 5) rows"
    using assms unfolding rows_def published_def by (force simp: list_all_iff)
  note d = distribution_sum [OF this]
  have "(case average_of (map sv_ratingOverall rows) of Some a \<Rightarrow> a | None \<Rightarrow> 0) * of_nat (length rows) =
      (of_nat (sum_list (map sv_ratingOverall rows)) :: rat)"
    by (simp add: average_of_def)
  then show ?thesis using d unfolding summaryForApi_def Let_def rows_def [symmetric] by simp
qed

definition demo_reviews :: review_db where
  "demo_reviews = ry_db (fold review_event_step
     [SetWorld [''api''] [\<lparr>at_id = ''u'', at_name = ''U'', at_avatarColor = []\<rparr>, \<lparr>at_id = ''v'', at_name = ''V'', at_avatarColor = []\<rparr>],
      InsertReview 0 ''r1'' ''api'' ''u'' \<lparr>wi_ratings = \<lparr>rg_overall = 5, rg_reliability = None, rg_documentation = None,
        rg_developerExperience = None, rg_freeTier = None\<rparr>, wi_title = None, wi_body = None\<rparr>,
      InsertReview 0 ''r2'' ''api'' ''v'' \<lparr>wi_ratings = \<lparr>rg_overall = 2, rg_reliability = None, rg_documentation = None,
        rg_developerExperience = None, rg_freeTier = None\<rparr>, wi_title = None, wi_body = None\<rparr>] reviews_start)"

theorem review_summary_exact_witness:
  "sy_average (summaryForApi demo_reviews ''api'') * of_nat (sy_count (summaryForApi demo_reviews ''api'')) = 7"
proof -
  have "list_all (\<lambda>(i, r). 1 \<le> sv_ratingOverall r \<and> sv_ratingOverall r \<le> 5) (rd_reviews demo_reviews)" by code_simp
  from review_summary_exact [OF this, of "''api''"]
  have "sy_average (summaryForApi demo_reviews ''api'') * of_nat (sy_count (summaryForApi demo_reviews ''api'')) =
      of_nat (sum_list (map2 (*) [1, 2, 3, 4, 5] (sy_distribution (summaryForApi demo_reviews ''api''))))"
    unfolding Let_def by (rule conjunct2)
  also have "sum_list (map2 (*) [1, 2, 3, 4, 5] (sy_distribution (summaryForApi demo_reviews ''api''))) = 7" by code_simp
  finally show ?thesis by simp
qed

end
