(* ===== verification/Collections.thy ===== *)
theory Collections
  imports Sanitize AppErrors CatalogRepository
begin

text \<open>
  Collections and favourites (\<open>apps/api/src/modules/users/collection-service.ts\<close>, \<open>favorite-service.ts\<close>) over
  their tables, with the keys and unique indexes of \<open>packages/database/src/schema/users.ts\<close>. A statement is one
  step; the calls that write are cut between them.
\<close>

section \<open>Tables\<close>

record collection_row =
  cl_userId :: string
  cl_slug :: string
  cl_name :: string
  cl_description :: "string option"
  cl_isPublic :: bool
  cl_itemCount :: nat
  cl_createdAt :: time
  cl_updatedAt :: time

text \<open>Items by collection and API, each with its position and note.\<close>

record user_db =
  ud_collections :: "(string, collection_row) jsmap"
  ud_items :: "(string \<times> string, nat \<times> string option) jsmap"
  ud_favorites :: "((string \<times> string) \<times> time) list"

record collection_view =
  cv_id :: string
  cv_slug :: string
  cv_name :: string
  cv_description :: "string option"
  cv_isPublic :: bool
  cv_itemCount :: nat
  cv_createdAt :: time
  cv_updatedAt :: time

definition toCollection :: "string \<Rightarrow> collection_row \<Rightarrow> collection_view" where
  "toCollection i row =
     \<lparr>cv_id = i, cv_slug = cl_slug row, cv_name = cl_name row, cv_description = cl_description row,
      cv_isPublic = cl_isPublic row, cv_itemCount = cl_itemCount row, cv_createdAt = cl_createdAt row,
      cv_updatedAt = cl_updatedAt row\<rparr>"

definition listForUser :: "user_db \<Rightarrow> string \<Rightarrow> collection_view list" where
  "listForUser db userId =
     map (\<lambda>(i, row). toCollection i row)
       (sort_by (\<lambda>(_, a) (_, b). cl_updatedAt b \<le> cl_updatedAt a) (filter (\<lambda>(i, row). cl_userId row = userId) (ud_collections db)))"

section \<open>Creating\<close>

definition taken_slugs :: "user_db \<Rightarrow> string \<Rightarrow> string list" where
  "taken_slugs db userId = map (\<lambda>(i, row). cl_slug row) (filter (\<lambda>(i, row). cl_userId row = userId) (ud_collections db))"

definition uniqueSlug :: "time \<Rightarrow> user_db \<Rightarrow> string \<Rightarrow> string \<Rightarrow> string" where
  "uniqueSlug now db userId base =
     (let taken = taken_slugs db userId in
      if base \<notin> set taken then base
      else (case List.find (\<lambda>candidate. candidate \<notin> set taken) (map (\<lambda>suffix. base @ ''-'' @ show_nat suffix) [2..<1000]) of
              Some candidate \<Rightarrow> candidate
            | None \<Rightarrow> base @ ''-'' @ show_nat (nat now)))"

definition maybe_clean :: "nat \<Rightarrow> string option \<Rightarrow> string option" where
  "maybe_clean n t = (case t of Some s \<Rightarrow> (if s = [] then None else Some (sanitizeUserText s n)) | None \<Rightarrow> None)"

definition key_taken :: thrown where
  "key_taken = ThrownOther \<lparr>oe_code = Some ''23505'', oe_detail = Some ''Key (user_id, slug)=... already exists.'',
     oe_validation = None, oe_statusCode = None, oe_message = [], oe_stack = []\<rparr>"

text \<open>The insert, with the primary key and the index on user and slug.\<close>

definition insert_collection :: "string \<Rightarrow> collection_row \<Rightarrow> user_db \<Rightarrow> thrown + user_db" where
  "insert_collection i row db =
     (if jm_has (ud_collections db) i \<or> cl_slug row \<in> set (taken_slugs db (cl_userId row)) then Inl key_taken
      else Inr (db\<lparr>ud_collections := ud_collections db @ [(i, row)]\<rparr>))"

definition new_collection :: "time \<Rightarrow> string \<Rightarrow> string \<Rightarrow> string \<Rightarrow> string option \<Rightarrow> bool \<Rightarrow> collection_row" where
  "new_collection now userId slug name description isPublic =
     \<lparr>cl_userId = userId, cl_slug = slug, cl_name = name, cl_description = maybe_clean 500 description,
      cl_isPublic = isPublic, cl_itemCount = 0, cl_createdAt = now, cl_updatedAt = now\<rparr>"

definition create_collection ::
  "time \<Rightarrow> string \<Rightarrow> string \<Rightarrow> string \<Rightarrow> string option \<Rightarrow> bool \<Rightarrow> user_db \<Rightarrow> (thrown + collection_view) \<times> user_db"
where
  "create_collection now i userId rawName description isPublic db =
     (let name = sanitizeUserText rawName 80 in
      if name = [] then (Inl (ThrownApp (ConflictError (Some ''A collection needs a name.''))), db)
      else
        let slug = uniqueSlug now db userId (slugify name);
            row = new_collection now userId slug name description isPublic
        in (case insert_collection i row db of
              Inl t \<Rightarrow> (Inl t, db)
            | Inr db' \<Rightarrow> (Inr (toCollection i row), db')))"

section \<open>Reading one\<close>



section \<open>Changing one\<close>

definition assertOwner :: "user_db \<Rightarrow> string \<Rightarrow> string \<Rightarrow> app_error option" where
  "assertOwner db i userId =
     (case jm_get (ud_collections db) i of
        None \<Rightarrow> Some (NotFoundError ''Collection'')
      | Some row \<Rightarrow>
          if cl_userId row \<noteq> userId then Some (ForbiddenError (Some ''This collection belongs to someone else.'')) else None)"

record collection_patch =
  ct_name :: "string option"
  ct_description :: "string option"
  ct_isPublic :: "bool option"

definition patched :: "time \<Rightarrow> collection_patch \<Rightarrow> collection_row \<Rightarrow> collection_row" where
  "patched now patch row =
     row\<lparr>cl_updatedAt := now,
       cl_name := (case ct_name patch of Some n \<Rightarrow> sanitizeUserText n 80 | None \<Rightarrow> cl_name row),
       cl_description := (case ct_description patch of
         Some d \<Rightarrow> (if d = [] then None else Some (sanitizeUserText d 500)) | None \<Rightarrow> cl_description row),
       cl_isPublic := (case ct_isPublic patch of Some b \<Rightarrow> b | None \<Rightarrow> cl_isPublic row)\<rparr>"

definition change_collection :: "string \<Rightarrow> (collection_row \<Rightarrow> collection_row) \<Rightarrow> user_db \<Rightarrow> user_db" where
  "change_collection i f db = db\<lparr>ud_collections := map (\<lambda>(k, r). (k, if k = i then f r else r)) (ud_collections db)\<rparr>"

definition update_collection :: "time \<Rightarrow> string \<Rightarrow> string \<Rightarrow> collection_patch \<Rightarrow> user_db \<Rightarrow> (app_error + collection_view) \<times> user_db" where
  "update_collection now i userId patch db =
     (case assertOwner db i userId of
        Some e \<Rightarrow> (Inl e, db)
      | None \<Rightarrow>
          let db' = change_collection i (patched now patch) db in
          (case jm_get (ud_collections db') i of
             None \<Rightarrow> (Inl (NotFoundError ''Collection''), db')
           | Some row \<Rightarrow> (Inr (toCollection i row), db')))"

text \<open>Deleting a collection deletes its items.\<close>

definition delete_collection :: "string \<Rightarrow> user_db \<Rightarrow> user_db" where
  "delete_collection i db =
     db\<lparr>ud_collections := jm_delete i (ud_collections db), ud_items := filter (\<lambda>((c, a), _). c \<noteq> i) (ud_items db)\<rparr>"

definition remove_collection :: "string \<Rightarrow> string \<Rightarrow> user_db \<Rightarrow> app_error option \<times> user_db" where
  "remove_collection i userId db =
     (case assertOwner db i userId of Some e \<Rightarrow> (Some e, db) | None \<Rightarrow> (None, delete_collection i db))"

text \<open>Adding an item: the greatest position, the insert, which does nothing if the API is there, and the count.\<close>

definition next_position :: "user_db \<Rightarrow> string \<Rightarrow> nat" where
  "next_position db i =
     (case map (\<lambda>(_, (p, _)). p) (filter (\<lambda>((c, a), _). c = i) (ud_items db)) of
        [] \<Rightarrow> 0
      | p # ps \<Rightarrow> fold max ps p + 1)"

definition insert_item :: "string \<Rightarrow> string \<Rightarrow> nat \<Rightarrow> string option \<Rightarrow> user_db \<Rightarrow> thrown + user_db" where
  "insert_item i apiId position note db =
     (if \<not> jm_has (ud_collections db) i then Inl key_taken
      else if jm_has (ud_items db) (i, apiId) then Inr db
      else Inr (db\<lparr>ud_items := ud_items db @ [((i, apiId), (position, maybe_clean 500 note))]\<rparr>))"

definition delete_item :: "string \<Rightarrow> string \<Rightarrow> user_db \<Rightarrow> user_db" where
  "delete_item i apiId db = db\<lparr>ud_items := jm_delete (i, apiId) (ud_items db)\<rparr>"

definition count_items :: "user_db \<Rightarrow> string \<Rightarrow> nat" where
  "count_items db i = length (filter (\<lambda>((c, a), _). c = i) (ud_items db))"

definition refreshCount :: "time \<Rightarrow> string \<Rightarrow> user_db \<Rightarrow> user_db" where
  "refreshCount now i db = change_collection i (\<lambda>r. r\<lparr>cl_itemCount := count_items db i, cl_updatedAt := now\<rparr>) db"

definition addItem :: "time \<Rightarrow> string \<Rightarrow> string \<Rightarrow> string \<Rightarrow> string option \<Rightarrow> user_db \<Rightarrow> thrown option \<times> user_db" where
  "addItem now i userId apiId note db =
     (case assertOwner db i userId of
        Some e \<Rightarrow> (Some (ThrownApp e), db)
      | None \<Rightarrow>
          (case insert_item i apiId (next_position db i) note db of
             Inl t \<Rightarrow> (Some t, db)
           | Inr db' \<Rightarrow> (None, refreshCount now i db')))"

definition removeItem :: "time \<Rightarrow> string \<Rightarrow> string \<Rightarrow> string \<Rightarrow> user_db \<Rightarrow> app_error option \<times> user_db" where
  "removeItem now i userId apiId db =
     (case assertOwner db i userId of
        Some e \<Rightarrow> (Some e, db)
      | None \<Rightarrow> (None, refreshCount now i (delete_item i apiId db)))"

section \<open>Favourites\<close>

definition list_favorites :: "(time \<Rightarrow> string) \<Rightarrow> catalog_db \<Rightarrow> user_db \<Rightarrow> string \<Rightarrow> api_summary list" where
  "list_favorites stamp catalog db userId =
     findManyByIds stamp catalog (map (\<lambda>((u, a), t). a)
       (sort_by (\<lambda>(_, s) (_, t). t \<le> s) (filter (\<lambda>((u, a), t). u = userId) (ud_favorites db))))"

definition add_favorite :: "time \<Rightarrow> string list \<Rightarrow> string \<Rightarrow> string \<Rightarrow> user_db \<Rightarrow> app_error option \<times> user_db" where
  "add_favorite now apis userId apiId db =
     (if apiId \<notin> set apis then (Some (ApiNotFoundError (Some apiId)), db)
      else (None, if jm_has (ud_favorites db) (userId, apiId) then db
        else db\<lparr>ud_favorites := ud_favorites db @ [((userId, apiId), now)]\<rparr>))"

definition remove_favorite :: "string \<Rightarrow> string \<Rightarrow> user_db \<Rightarrow> user_db" where
  "remove_favorite userId apiId db = db\<lparr>ud_favorites := jm_delete (userId, apiId) (ud_favorites db)\<rparr>"

definition isFavorited :: "user_db \<Rightarrow> string \<Rightarrow> string \<Rightarrow> bool" where
  "isFavorited db userId apiId = jm_has (ud_favorites db) (userId, apiId)"

definition whichAreFavorited :: "user_db \<Rightarrow> string \<Rightarrow> string list \<Rightarrow> string set" where
  "whichAreFavorited db userId apiIds =
     (if apiIds = [] then {} else set (map (\<lambda>((u, a), t). a) (filter (\<lambda>((u, a), t). u = userId \<and> a \<in> set apiIds) (ud_favorites db))))"

section \<open>Who sees and changes what\<close>




section \<open>The calls in flight\<close>

text \<open>The tables and the collections whose count a call has still to refresh.\<close>

record user_system =
  uy_db :: user_db
  uy_stale :: "string list"

datatype user_event =
    CreateCollection time string string string "string option" bool string
  | PatchCollection time string collection_patch
  | DropCollection string
  | InsertItem string string nat "string option"
  | DropItem string string
  | Refresh time string
  | Favorite time "string list" string string
  | Unfavorite string string

fun user_event_step :: "user_event \<Rightarrow> user_system \<Rightarrow> user_system" where
  "user_event_step (CreateCollection now i userId name description isPublic slug) s =
     (case insert_collection i (new_collection now userId slug name description isPublic) (uy_db s) of
        Inl _ \<Rightarrow> s | Inr db \<Rightarrow> s\<lparr>uy_db := db\<rparr>)"
| "user_event_step (PatchCollection now i patch) s = s\<lparr>uy_db := change_collection i (patched now patch) (uy_db s)\<rparr>"
| "user_event_step (DropCollection i) s = s\<lparr>uy_db := delete_collection i (uy_db s)\<rparr>"
| "user_event_step (InsertItem i apiId position note) s =
     (case insert_item i apiId position note (uy_db s) of
        Inl _ \<Rightarrow> s | Inr db \<Rightarrow> s\<lparr>uy_db := db, uy_stale := i # uy_stale s\<rparr>)"
| "user_event_step (DropItem i apiId) s = s\<lparr>uy_db := delete_item i apiId (uy_db s), uy_stale := i # uy_stale s\<rparr>"
| "user_event_step (Refresh now i) s =
     (if i \<in> set (uy_stale s) then s\<lparr>uy_db := refreshCount now i (uy_db s), uy_stale := remove1 i (uy_stale s)\<rparr> else s)"
| "user_event_step (Favorite now apis userId apiId) s = s\<lparr>uy_db := snd (add_favorite now apis userId apiId (uy_db s))\<rparr>"
| "user_event_step (Unfavorite userId apiId) s = s\<lparr>uy_db := remove_favorite userId apiId (uy_db s)\<rparr>"

definition users_start :: user_system where
  "users_start = \<lparr>uy_db = \<lparr>ud_collections = [], ud_items = [], ud_favorites = []\<rparr>, uy_stale = []\<rparr>"

text \<open>Keys and slugs unique, items of stored collections, and every count exact unless it is still to be
  refreshed.\<close>

definition slug_keys :: "user_db \<Rightarrow> (string \<times> string) list" where
  "slug_keys db = map (\<lambda>(i, r). (cl_userId r, cl_slug r)) (ud_collections db)"

definition users_ok :: "user_system \<Rightarrow> bool" where
  "users_ok s \<longleftrightarrow>
     jm_wf (ud_collections (uy_db s)) \<and> jm_wf (ud_items (uy_db s)) \<and> jm_wf (ud_favorites (uy_db s)) \<and>
     distinct (slug_keys (uy_db s)) \<and>
     list_all (\<lambda>((c, a), _). jm_has (ud_collections (uy_db s)) c) (ud_items (uy_db s)) \<and>
     list_all (\<lambda>(i, r). cl_itemCount r = count_items (uy_db s) i \<or> i \<in> set (uy_stale s)) (ud_collections (uy_db s))"

lemma collection_keys [simp]: "map fst (ud_collections (change_collection i f db)) = map fst (ud_collections db)"
  by (auto simp: change_collection_def split: prod.splits)

lemma collection_others [simp]: "ud_items (change_collection i f db) = ud_items db" "ud_favorites (change_collection i f db) = ud_favorites db"
  by (simp_all add: change_collection_def)

lemma collection_get: "jm_get (ud_collections (change_collection i f db)) k = map_option (\<lambda>r. if k = i then f r else r) (jm_get (ud_collections db) k)"
  by (simp add: change_collection_def jm_get_map_at)

lemma change_slugs:
  assumes "\<And>r. (cl_userId (f r), cl_slug (f r)) = (cl_userId r, cl_slug r)"
  shows "slug_keys (change_collection i f db) = slug_keys db"
  using assms by (auto simp: change_collection_def slug_keys_def split: prod.splits)

lemma change_collection_ok:
  assumes ok: "users_ok s" and f: "\<And>r. (cl_userId (f r), cl_slug (f r)) = (cl_userId r, cl_slug r)"
    and stale: "set (uy_stale s) \<subseteq> insert i (set xs)"
    and count: "\<And>r. (i, r) \<in> set (ud_collections (uy_db s)) \<Longrightarrow> cl_itemCount (f r) = count_items (uy_db s) i \<or> i \<in> set xs"
  shows "users_ok (s\<lparr>uy_db := change_collection i f (uy_db s), uy_stale := xs\<rparr>)"
proof -
  have "jm_has (ud_collections (change_collection i f (uy_db s))) k \<longleftrightarrow> jm_has (ud_collections (uy_db s)) k" for k
    by (simp add: collection_get)
  moreover have "list_all (\<lambda>(k, r). cl_itemCount r = count_items (uy_db s) k \<or> k \<in> set xs) (ud_collections (change_collection i f (uy_db s)))"
    using ok stale count by (fastforce simp: users_ok_def change_collection_def list_all_iff split: if_splits)
  moreover have "count_items (change_collection i f (uy_db s)) k = count_items (uy_db s) k" for k by (simp add: count_items_def)
  moreover define s' where "s' = s\<lparr>uy_db := change_collection i f (uy_db s), uy_stale := xs\<rparr>"
  then have "uy_db s' = change_collection i f (uy_db s)" "uy_stale s' = xs" by simp_all
  ultimately show ?thesis
    using ok unfolding users_ok_def s'_def [symmetric] jm_wf_def
    by (simp only: collection_keys collection_others change_slugs [OF f])
qed

lemma no_items:
  assumes "users_ok s" "jm_get (ud_collections (uy_db s)) i = None"
  shows "count_items (uy_db s) i = 0"
proof -
  have "c \<noteq> i" if "((c, a), v) \<in> set (ud_items (uy_db s))" for c a v
    using assms that by (fastforce simp: users_ok_def list_all_iff)
  then show ?thesis by (auto simp: count_items_def filter_empty_conv)
qed

lemma create_ok:
  assumes ok: "users_ok s" and row: "cl_itemCount row = 0" and ins: "insert_collection i row (uy_db s) = Inr db"
  shows "users_ok (s\<lparr>uy_db := db\<rparr>)"
proof -
  have db: "db = (uy_db s)\<lparr>ud_collections := ud_collections (uy_db s) @ [(i, row)]\<rparr>"
    and new: "jm_get (ud_collections (uy_db s)) i = None" "cl_slug row \<notin> set (taken_slugs (uy_db s) (cl_userId row))"
    using ins by (auto simp: insert_collection_def split: if_splits)
  have "(cl_userId row, cl_slug row) \<notin> set (slug_keys (uy_db s))"
    using new(2) by (force simp: taken_slugs_def slug_keys_def)
  moreover have "jm_has (ud_collections db) c" if "jm_has (ud_collections (uy_db s)) c" for c
    using that by (auto simp: db map_add_def split: option.split)
  ultimately show ?thesis
    using ok new(1) no_items [OF ok new(1)] row
    by (auto simp: users_ok_def db slug_keys_def jm_wf_def map_of_eq_None_iff count_items_def list_all_iff)
qed

lemma drop_collection_ok:
  assumes ok: "users_ok s"
  shows "users_ok (s\<lparr>uy_db := delete_collection i (uy_db s)\<rparr>)"
proof -
  let ?db = "uy_db s"
  have count: "filter (\<lambda>((c, a), _). c = k) (filter (\<lambda>((c, a), _). c \<noteq> i) xs) = filter (\<lambda>((c, a), _). c = k) xs"
    if "k \<noteq> i" for k and xs :: "((string \<times> string) \<times> nat \<times> string option) list"
    using that by (induction xs) auto
  have "distinct (slug_keys (delete_collection i ?db))"
    using ok by (simp add: users_ok_def slug_keys_def delete_collection_def AList.delete_eq distinct_map_filter)
  moreover have "list_all (\<lambda>((c, a), _). jm_has (ud_collections (delete_collection i ?db)) c) (ud_items (delete_collection i ?db))"
    using ok by (auto simp: users_ok_def delete_collection_def list_all_iff jm_get_delete)
  moreover have "list_all (\<lambda>(k, r). cl_itemCount r = count_items (delete_collection i ?db) k \<or> k \<in> set (uy_stale s))
      (ud_collections (delete_collection i ?db))"
    using ok count by (fastforce simp: users_ok_def delete_collection_def list_all_iff count_items_def AList.delete_eq)
  ultimately show ?thesis using ok by (simp add: users_ok_def delete_collection_def)
qed

text \<open>A change of the items of one collection leaves the counts of the others.\<close>

lemma items_ok:
  assumes ok: "users_ok s" and wf: "jm_wf items" and own: "\<And>c a v. ((c, a), v) \<in> set items \<Longrightarrow> jm_has (ud_collections (uy_db s)) c"
    and others: "\<And>k. k \<noteq> i \<Longrightarrow> filter (\<lambda>((c, a), _). c = k) items = filter (\<lambda>((c, a), _). c = k) (ud_items (uy_db s))"
  shows "users_ok (s\<lparr>uy_db := (uy_db s)\<lparr>ud_items := items\<rparr>, uy_stale := i # uy_stale s\<rparr>)"
proof -
  have "list_all (\<lambda>((c, a), _). jm_has (ud_collections (uy_db s)) c) items" using own by (auto simp: list_all_iff)
  moreover have "list_all (\<lambda>(k, r). cl_itemCount r = length (filter (\<lambda>((c, a), _). c = k) items) \<or> k \<in> set (i # uy_stale s))
      (ud_collections (uy_db s))"
    unfolding list_all_iff
  proof (clarify)
    fix k r assume k: "(k, r) \<in> set (ud_collections (uy_db s))"
      "\<not> k \<in> set (i # uy_stale s)"
    then have "cl_itemCount r = count_items (uy_db s) k" using ok by (auto simp: users_ok_def list_all_iff)
    then show "cl_itemCount r = length (filter (\<lambda>((c, a), _). c = k) items)"
      using others [of k] k(2) by (simp add: count_items_def)
  qed
  ultimately show ?thesis using ok wf by (simp add: users_ok_def slug_keys_def count_items_def)
qed

lemma insert_item_ok:
  assumes ok: "users_ok s" and ins: "insert_item i apiId position note (uy_db s) = Inr db"
  shows "users_ok (s\<lparr>uy_db := db, uy_stale := i # uy_stale s\<rparr>)"
proof (cases "jm_has (ud_items (uy_db s)) (i, apiId)")
  case True
  then have "db = uy_db s" using ins by (auto simp: insert_item_def split: if_splits)
  moreover have "ud_items (uy_db s) = ud_items (uy_db s)" ..
  ultimately show ?thesis
    using items_ok [OF ok, of "ud_items (uy_db s)" i] ok by (fastforce simp: users_ok_def list_all_iff)
next
  case False
  then have db: "db = (uy_db s)\<lparr>ud_items := ud_items (uy_db s) @ [((i, apiId), (position, maybe_clean 500 note))]\<rparr>"
    and c: "jm_has (ud_collections (uy_db s)) i"
    using ins by (auto simp: insert_item_def split: if_splits)
  show ?thesis unfolding db
  proof (rule items_ok [OF ok])
    show "jm_wf (ud_items (uy_db s) @ [((i, apiId), (position, maybe_clean 500 note))])"
      using ok False by (auto simp: users_ok_def jm_wf_def map_of_eq_None_iff)
    show "jm_has (ud_collections (uy_db s)) c'" if "((c', a), v) \<in> set (ud_items (uy_db s) @ [((i, apiId), (position, maybe_clean 500 note))])" for c' a v
      using that ok c by (fastforce simp: users_ok_def list_all_iff)
  qed simp
qed

lemma drop_item_ok:
  assumes ok: "users_ok s"
  shows "users_ok (s\<lparr>uy_db := delete_item i apiId (uy_db s), uy_stale := i # uy_stale s\<rparr>)"
  unfolding delete_item_def
proof (rule items_ok [OF ok])
  show "jm_wf (jm_delete (i, apiId) (ud_items (uy_db s)))" using ok by (simp add: users_ok_def)
  show "jm_has (ud_collections (uy_db s)) c" if "((c, a), v) \<in> set (jm_delete (i, apiId) (ud_items (uy_db s)))" for c a v
    using that ok by (fastforce simp: users_ok_def list_all_iff AList.delete_eq)
  show "filter (\<lambda>((c, a), _). c = k) (jm_delete (i, apiId) (ud_items (uy_db s))) = filter (\<lambda>((c, a), _). c = k) (ud_items (uy_db s))"
    if "k \<noteq> i" for k
    using that unfolding AList.delete_eq by (induction "ud_items (uy_db s)" arbitrary: s) (auto simp: filter_filter intro!: filter_cong)
qed

lemma user_step_ok: "users_ok s \<Longrightarrow> users_ok (user_event_step e s)"
proof (induction e s rule: user_event_step.induct)
  case (1 now i userId name description isPublic slug s)
  then show ?case using create_ok [OF 1, of "new_collection now userId slug name description isPublic" i]
    by (cases "insert_collection i (new_collection now userId slug name description isPublic) (uy_db s)") (simp_all add: new_collection_def)
next
  case (2 now i patch s)
  have "users_ok (s\<lparr>uy_db := change_collection i (patched now patch) (uy_db s), uy_stale := uy_stale s\<rparr>)"
    using 2 by (intro change_collection_ok) (auto simp: patched_def users_ok_def list_all_iff)
  then show ?case by simp
next
  case (3 i s)
  then show ?case by (simp add: drop_collection_ok)
next
  case (4 i apiId position remark s)
  then show ?case using insert_item_ok [OF 4] by (cases "insert_item i apiId position remark (uy_db s)") simp_all
next
  case (5 i apiId s)
  then show ?case by (simp add: drop_item_ok)
next
  case (6 now i s)
  show ?case
  proof (cases "i \<in> set (uy_stale s)")
    case True
    have "set (uy_stale s) \<subseteq> insert i (set (remove1 i (uy_stale s)))" by (metis in_set_remove1 insert_iff subsetI)
    then show ?thesis using True 6 by (simp add: refreshCount_def change_collection_ok)
  qed (use 6 in simp)
next
  case (7 now apis userId apiId s)
  then show ?case by (auto simp: add_favorite_def users_ok_def slug_keys_def count_items_def jm_wf_def map_of_eq_None_iff)
next
  case (8 userId apiId s)
  then show ?case by (simp add: remove_favorite_def users_ok_def slug_keys_def count_items_def)
qed

text \<open>C29: However the statements of concurrent calls interleave, no user has two collections with one slug, an API
  is in a collection and among the favourites of a user at most once, no item outlives its collection, and the
  item count of every collection is exact unless a call has still to refresh it.\<close>

theorem collections_consistent: "users_ok (fold user_event_step events users_start)"
proof -
  have "users_ok (fold user_event_step events s)" if "users_ok s" for s
    using that by (induction events arbitrary: s) (auto intro: user_step_ok)
  moreover have "users_ok users_start" by (simp add: users_ok_def users_start_def slug_keys_def)
  ultimately show ?thesis by blast
qed


definition demo_collections :: user_db where
  "demo_collections = uy_db (fold user_event_step
     [CreateCollection 0 ''c'' ''u'' ''Weather'' None False ''weather'', InsertItem ''c'' ''a'' 0 None, Refresh 1 ''c''] users_start)"


section \<open>What the update forgets\<close>

text \<open>Creating checks that the cleaned name is not empty; updating does not.\<close>

lemma update_empties_name:
  "map_option cl_name (jm_get (ud_collections (snd (update_collection 2 ''c'' ''u''
     \<lparr>ct_name = Some '' '', ct_description = None, ct_isPublic = None\<rparr> demo_collections))) ''c'') = Some []"
  by code_simp

text \<open>Two calls that add at the same time read the same greatest position: both items get it.\<close>

lemma positions_collide:
  "(let db = demo_collections; p = next_position db ''c''; q = next_position db ''c'' in
    case insert_item ''c'' ''x'' p None db of Inl _ \<Rightarrow> False | Inr db1 \<Rightarrow>
      (case insert_item ''c'' ''y'' q None db1 of Inl _ \<Rightarrow> False | Inr db2 \<Rightarrow>
         map_option fst (jm_get (ud_items db2) (''c'', ''x'')) = map_option fst (jm_get (ud_items db2) (''c'', ''y''))))"
  by code_simp

end
