(* ===== verification/SourceParser.thy ===== *)
theory SourceParser
  imports Normalizer
begin

text \<open>
  The adapter that reads the upstream catalogue from its tables
  (\<open>packages/jobs/src/ingestion/source-adapter.ts\<close>). The messages of the schema library are a parameter.
  Each of the adapter's regular expressions is deterministic on the lines it is applied to and is written out
  as the reader it amounts to.
\<close>

section \<open>Lines and cells\<close>

text \<open>Splitting at a line feed with an optional carriage return before it.\<close>

definition drop_return :: "string \<Rightarrow> string" where
  "drop_return s = (if s \<noteq> [] \<and> last s = CHR 0x0D then butlast s else s)"

definition split_lines :: "string \<Rightarrow> string list" where
  "split_lines raw = (let ps = split_char (CHR 0x0A) raw in map drop_return (butlast ps) @ [last ps])"

text \<open>Splitting at the bars that no backslash precedes.\<close>

fun split_bars :: "char \<Rightarrow> string \<Rightarrow> string list" where
  "split_bars prev [] = [[]]"
| "split_bars prev (c # s) =
     (let ps = split_bars c s in
      if c = CHR ''|'' \<and> prev \<noteq> CHR 0x5C then [] # ps else (c # hd ps) # tl ps)"

fun unescape_bars :: "string \<Rightarrow> string" where
  "unescape_bars (c # d # s) =
     (if c = CHR 0x5C \<and> d = CHR ''|'' then CHR ''|'' # unescape_bars s else c # unescape_bars (d # s))"
| "unescape_bars s = s"

definition strip_first_bar :: "string \<Rightarrow> string" where
  "strip_first_bar s = (case s of c # t \<Rightarrow> if c = CHR ''|'' then t else s | [] \<Rightarrow> [])"

definition strip_last_bar :: "string \<Rightarrow> string" where
  "strip_last_bar s = strip_final (CHR ''|'') s"

definition splitRow :: "string \<Rightarrow> string list" where
  "splitRow line =
     map (\<lambda>cell. unescape_bars (trim cell)) (split_bars (CHR 0x00) (strip_last_bar (strip_first_bar (trim line))))"

text \<open>The pattern of a link at the start of a text: the words up to the bracket, the address up to a blank or
  parenthesis, an optional quoted title.\<close>

definition link_title :: "string \<Rightarrow> bool" where
  "link_title s \<longleftrightarrow>
     starts_with s '')'' \<or>
     (case dropWhile is_space s of
        q # t \<Rightarrow> s \<noteq> q # t \<and> q = CHR 0x22 \<and> starts_with (dropWhile (\<lambda>c. c \<noteq> CHR 0x22) t) (CHR 0x22 # '')'')
      | [] \<Rightarrow> False)"

definition link_at :: "string \<Rightarrow> (string \<times> string) option" where
  "link_at s =
     (case s of
        c # t \<Rightarrow>
          if c \<noteq> CHR ''['' then None
          else
            let label = takeWhile (\<lambda>c. c \<noteq> CHR '']'') t; rest = dropWhile (\<lambda>c. c \<noteq> CHR '']'') t in
            if label = [] \<or> \<not> starts_with rest ''](''  then None
            else
              let stop = (\<lambda>c. c = CHR '')'' \<or> is_space c);
                  href = takeWhile (\<lambda>c. \<not> stop c) (drop 2 rest); tail = dropWhile (\<lambda>c. \<not> stop c) (drop 2 rest) in
              if href = [] \<or> \<not> link_title tail then None else Some (label, href)
      | [] \<Rightarrow> None)"

fun find_link :: "string \<Rightarrow> (string \<times> string) option" where
  "find_link [] = None"
| "find_link (c # s) = (case link_at (c # s) of Some l \<Rightarrow> Some l | None \<Rightarrow> find_link s)"

definition parseMarkdownLink :: "string \<Rightarrow> string \<times> string option" where
  "parseMarkdownLink cell =
     (case find_link cell of
        Some (label, href) \<Rightarrow> (label, Some href)
      | None \<Rightarrow> (trim (filter (\<lambda>c. c \<noteq> CHR ''['' \<and> c \<noteq> CHR '']'') cell), None))"

text \<open>A cell of a separator: dashes, at least two, between optional colons.\<close>

definition separator_cell :: "string \<Rightarrow> bool" where
  "separator_cell cell \<longleftrightarrow>
     (let c = trim cell; c = (if starts_with c '':'' then tl c else c); c = strip_final (CHR '':'') c in
      2 \<le> length c \<and> list_all (\<lambda>x. x = CHR ''-'') c)"

definition isSeparatorRow :: "string \<Rightarrow> bool" where
  "isSeparatorRow line \<longleftrightarrow>
     (let parts = split_char (CHR ''|'') (strip_first_bar (trim line));
          cells = (if 2 \<le> length parts \<and> last parts = [] then butlast parts else parts) in
      list_all separator_cell cells)"

section \<open>Headings and rows\<close>

text \<open>A heading of level three and its text; a point of the pattern matches no carriage return.\<close>

definition heading_of :: "string \<Rightarrow> string option" where
  "heading_of trimmed =
     (if starts_with trimmed ''###'' then
        (let rest = drop 3 trimmed; body = dropWhile is_space rest in
         if body = rest \<or> body = [] \<or> CHR 0x0D \<in> set body then None else Some body)
      else None)"

definition top_heading :: "string \<Rightarrow> bool" where
  "top_heading trimmed \<longleftrightarrow>
     (case trimmed of
        c # d # s \<Rightarrow> c = CHR ''#'' \<and> (is_space d \<or> d = CHR ''#'' \<and> (case s of e # _ \<Rightarrow> is_space e | [] \<Rightarrow> False))
      | _ \<Rightarrow> False)"

definition plain :: "string \<Rightarrow> string" where
  "plain s = trim (filter (\<lambda>c. c \<noteq> CHR ''*'' \<and> c \<noteq> CHR ''_'' \<and> c \<noteq> CHR 0x60) s)"

definition plain_auth :: "string \<Rightarrow> string" where
  "plain_auth s = trim (filter (\<lambda>c. c \<noteq> CHR ''*'' \<and> c \<noteq> CHR 0x60) s)"

text \<open>The schema of a record.\<close>

definition valid_record :: "source_record \<Rightarrow> bool" where
  "valid_record r \<longleftrightarrow> rec_name r \<noteq> [] \<and> length (rec_name r) \<le> 200 \<and> rec_url r \<noteq> [] \<and> rec_category r \<noteq> []"

type_synonym parse_failure = "string \<times> string"

definition row_record :: "string \<Rightarrow> string list \<Rightarrow> string \<Rightarrow> string \<Rightarrow> source_record" where
  "row_record category cells label href =
     \<lparr>rec_name = label, rec_description = plain (cells ! 1), rec_url = href, rec_category = category,
      rec_auth = plain_auth (cells ! 2), rec_https = (toLowerCase (trim (cells ! 3)) = ''yes''),
      rec_cors = toLowerCase (trim (cells ! 4))\<rparr>"

definition parse_row :: "(source_record \<Rightarrow> string) \<Rightarrow> string \<Rightarrow> string \<Rightarrow> parse_failure + source_record" where
  "parse_row issues category trimmed =
     (let cells = splitRow trimmed in
      if length cells < 5 then Inl (take 120 trimmed, ''expected 5 columns, got '' @ show_nat (length cells))
      else case parseMarkdownLink (cells ! 0) of
        (_, None) \<Rightarrow> Inl (take 120 trimmed, ''no documentation URL'')
      | (label, Some href) \<Rightarrow>
          let r = row_record category cells label href in
          if valid_record r then Inr r else Inl (take 120 trimmed, issues r))"

record parser_state =
  ps_category :: "string option"
  ps_inTable :: bool
  ps_records :: "source_record list"
  ps_failures :: "parse_failure list"

definition parse_line :: "(source_record \<Rightarrow> string) \<Rightarrow> string \<Rightarrow> parser_state \<Rightarrow> parser_state" where
  "parse_line issues line s =
     (let trimmed = trim line in
      case heading_of trimmed of
        Some h \<Rightarrow> s\<lparr>ps_category := Some (plain h), ps_inTable := False\<rparr>
      | None \<Rightarrow>
          if top_heading trimmed then s\<lparr>ps_category := None, ps_inTable := False\<rparr>
          else if isSeparatorRow trimmed then s\<lparr>ps_inTable := True\<rparr>
          else case ps_category s of
            None \<Rightarrow> s
          | Some category \<Rightarrow>
              if \<not> starts_with trimmed ''|'' \<or> \<not> ps_inTable s then s
              else case parse_row issues category trimmed of
                Inl f \<Rightarrow> s\<lparr>ps_failures := ps_failures s @ [f]\<rparr>
              | Inr r \<Rightarrow> s\<lparr>ps_records := ps_records s @ [r]\<rparr>)"

definition parser_start :: parser_state where
  "parser_start = \<lparr>ps_category = None, ps_inTable = False, ps_records = [], ps_failures = []\<rparr>"

definition parse_source :: "(source_record \<Rightarrow> string) \<Rightarrow> string \<Rightarrow> source_record list \<times> parse_failure list" where
  "parse_source issues raw =
     (let s = fold (parse_line issues) (split_lines raw) parser_start in (ps_records s, ps_failures s))"

section \<open>What the parser lets through\<close>

lemma parse_line_valid:
  assumes "list_all valid_record (ps_records s)"
  shows "list_all valid_record (ps_records (parse_line issues line s))"
proof -
  have "valid_record r" if "parse_row issues category trimmed = Inr r" for category trimmed r
    using that by (auto simp: parse_row_def Let_def split: if_splits prod.splits option.splits)
  then show ?thesis using assms
    by (auto simp: parse_line_def Let_def split: option.splits sum.splits)
qed

lemma parse_source_valid: "list_all valid_record (fst (parse_source issues raw))"
proof -
  have "list_all valid_record (ps_records (fold (parse_line issues) ls s))" if "list_all valid_record (ps_records s)" for ls s
    using that by (induction ls arbitrary: s) (auto intro: parse_line_valid)
  then show ?thesis by (simp add: parse_source_def parser_start_def Let_def)
qed

lemma length_trim: "length (trim s) \<le> length s"
proof -
  have "length (dropWhile is_space (rev (dropWhile is_space s))) \<le> length (dropWhile is_space s)"
    using length_dropWhile_le [of is_space "rev (dropWhile is_space s)"] by simp
  then show ?thesis using length_dropWhile_le [of is_space s] by (simp add: trim_def trim_start_def trim_end_def)
qed

lemma length_collapse: "length (collapse_spaces s) \<le> length s"
proof (induction s)
  case (Cons c s)
  have "collapse_spaces (c # s) \<in> {collapse_spaces s, CHR '' '' # collapse_spaces s, [CHR '' ''], c # collapse_spaces s}"
    unfolding collapse_spaces.simps(2) [of c s] by (simp only: split: if_split list.split) simp
  then show ?case using Cons by auto
qed simp

text \<open>The contract of a normalised record: the enumerations, the slugs, and the bounds of the columns.\<close>

definition AUTH_TYPES :: "string list" where
  "AUTH_TYPES = [''none'', ''apiKey'', ''bearer'', ''basic'', ''oauth'', ''oauth2'', ''jwt'', ''custom'', ''unknown'']"

definition typed_api :: "normalized_api \<Rightarrow> bool" where
  "typed_api a \<longleftrightarrow> na_authType a \<in> set AUTH_TYPES \<and> na_corsStatus a \<in> set [''yes'', ''no'', ''unknown''] \<and>
     is_slug (na_slug a) \<and> is_slug (na_categorySlug a) \<and> na_name a \<noteq> [] \<and> length (na_name a) \<le> 200 \<and>
     length (na_description a) \<le> 500 \<and> na_docsUrl a \<noteq> [] \<and> distinct (na_tags a) \<and> length (na_tags a) \<le> 8 \<and>
     na_popularityScore a \<le> 100 \<and> na_isFree a = (na_authType a = ''none'')"

lemma if_member: "a \<in> A \<Longrightarrow> b \<in> A \<Longrightarrow> (if c then a else b) \<in> A"
  by simp

lemma normalizeAuthType_enum: "normalizeAuthType raw \<in> set AUTH_TYPES"
  unfolding normalizeAuthType_def Let_def AUTH_TYPES_def by (intro if_member) simp_all

lemma normalizeCors_enum: "normalizeCors raw \<in> set [''yes'', ''no'', ''unknown'']"
  unfolding normalizeCors_def Let_def by (simp only: split: if_split) simp

lemma normalize_typed:
  assumes "valid_record r" and "normalize_record P sha256_hex r sourceName = Some a"
  shows "typed_api a"
proof -
  define name where "name = collapse_spaces (trim (rec_name r))"
  define authType where "authType = normalizeAuthType (rec_auth r)"
  obtain url where url: "canonicalizeUrl P (rec_url r) = Some url" "url \<noteq> []" and name: "name \<noteq> []"
    and a: "a = \<lparr>na_fingerprint = fingerprintOf sha256_hex sourceName url name,
               na_slug = slugify name, na_name = name, na_provider = hostOf P url,
               na_description = take 500 (trim (rec_description r)), na_docsUrl = url,
               na_baseUrl = None, na_authType = authType, na_httpsSupported = rec_https r,
               na_corsStatus = normalizeCors (rec_cors r), na_isFree = (authType = ''none''),
               na_hasFreeTier = True, na_categorySlug = slugify (rec_category r),
               na_categoryName = rec_category r, na_tags = deriveTags r authType,
               na_popularityScore = initialPopularity P r authType\<rparr>"
    using assms(2) by (auto simp: normalize_record_def Let_def name_def authType_def split: option.splits list.splits if_splits)
  have "length name \<le> 200"
    using length_collapse [of "trim (rec_name r)"] length_trim [of "rec_name r"] assms(1) by (simp add: name_def valid_record_def)
  moreover have "authType \<in> set AUTH_TYPES" unfolding authType_def by (rule normalizeAuthType_enum)
  moreover have "initialPopularity P r authType \<le> 100" using initialPopularity_bounds [of P r authType] by linarith
  ultimately show ?thesis unfolding typed_api_def a
    using url(2) name deriveTags_bounds [of r authType] normalizeCors_enum [of "rec_cors r"]
    by (simp add: slugify_is_slug del: set_simps list.set)
qed

text \<open>C23: Every record that the importer keeps of a source, whatever the source holds, has the type the
  catalogue promises: an authentication and a CORS value of the enumerations, canonical slugs, a name of at most
  200 characters, a description of at most 500, at most eight distinct tags, a popularity of at most 100, and it
  is free exactly if it needs no credential.\<close>

theorem imported_records_typed:
  "list_all (\<lambda>r. case normalize_record P sha256_hex r sourceName of None \<Rightarrow> True | Some a \<Rightarrow> typed_api a)
     (fst (parse_source issues raw))"
  using parse_source_valid [of issues raw] normalize_typed by (fastforce simp: list_all_iff split: option.split)

section \<open>Printing a catalogue and reading it\<close>








































end
