(* ===== verification/Persist.thy ===== *)
theory Persist
  imports Normalizer
begin

text \<open>
  Identifiers (\<open>packages/database/src/schema/ids.ts\<close>) and the batched persistence of an import
  (\<open>packages/jobs/src/jobs/persist.ts\<close>) over the tables it writes (\<open>schema/catalog.ts\<close>, \<open>schema/health.ts\<close>).
  A statement writes all its rows or none; \<open>refuse\<close> says which statements the driver refuses on its own
  account, by their label and number. The digest and the random spread of first probes are parameters.
\<close>

section \<open>Identifiers\<close>

definition ALPHABET :: string where
  "ALPHABET = ''0123456789ABCDEFGHJKMNPQRSTVWXYZ''"

definition ID_PREFIXES :: "(string \<times> string) list" where
  "ID_PREFIXES =
     [(''user'', ''usr''), (''session'', ''ses''), (''api'', ''api''), (''category'', ''cat''), (''endpoint'', ''ep''),
      (''authScheme'', ''aus''), (''source'', ''src''), (''ingestionRun'', ''ing''), (''healthCheck'', ''hc''),
      (''incident'', ''inc''), (''collection'', ''col''), (''review'', ''rev''), (''audit'', ''aud''), (''search'', ''sq'')]"

definition id_text :: "string \<Rightarrow> nat list \<Rightarrow> string" where
  "id_text kind bytes =
     (case jm_get ID_PREFIXES kind of Some prefix \<Rightarrow> prefix | None \<Rightarrow> ''undefined'') @ ''_'' @
     toLowerCase (map (\<lambda>b. ALPHABET ! (b mod length ALPHABET)) bytes)"

text \<open>Of \<open>newId\<close> the random bytes are an argument, of \<open>deterministicId\<close> the digest.\<close>

definition newId :: "string \<Rightarrow> nat list \<Rightarrow> string" where
  "newId kind randomBytes = id_text kind randomBytes"

definition deterministicId :: "(string \<Rightarrow> nat list) \<Rightarrow> string \<Rightarrow> string \<Rightarrow> string" where
  "deterministicId sha256 kind fingerprint = id_text kind (take 22 (sha256 (kind @ '':'' @ fingerprint)))"

definition isId :: "string \<Rightarrow> string \<Rightarrow> bool" where
  "isId v kind \<longleftrightarrow>
     (let prefix = (case jm_get ID_PREFIXES kind of Some p \<Rightarrow> p | None \<Rightarrow> ''undefined'') in
      starts_with v (prefix @ ''_'') \<and> length prefix + 1 < length v)"

section \<open>Tables\<close>

record table_category =
  tc_slug :: string
  tc_name :: string
  tc_description :: string
  tc_icon :: string
  tc_apiCount :: nat

record table_api =
  ta_slug :: string
  ta_name :: string
  ta_provider :: "string option"
  ta_description :: string
  ta_docsUrl :: string
  ta_baseUrl :: "string option"
  ta_authType :: string
  ta_httpsSupported :: bool
  ta_corsStatus :: string
  ta_isFree :: bool
  ta_hasFreeTier :: bool
  ta_status :: string
  ta_popularityScore :: nat
  ta_tags :: "string list"
  ta_sourceId :: string
  ta_sourceRecordId :: string
  ta_sourceRevision :: string
  ta_fingerprint :: string
  ta_importedAt :: time
  ta_createdAt :: time
  ta_updatedAt :: time

record table_auth =
  th_apiId :: string
  th_type :: string
  th_location :: string
  th_parameterName :: "string option"
  th_notes :: string
  th_signupUrl :: "string option"

record table_endpoint =
  te_apiId :: string
  te_method :: string
  te_path :: string
  te_summary :: string
  te_position :: nat
  te_isProbeTarget :: bool

record table_health =
  tl_status :: string
  tl_nextCheckAt :: time
  tl_checkPriority :: int

text \<open>Every table by its primary key.\<close>

record import_db =
  im_categories :: "(string, table_category) jsmap"
  im_apis :: "(string, table_api) jsmap"
  im_links :: "(string \<times> string, bool) jsmap"
  im_auth :: "(string, table_auth) jsmap"
  im_endpoints :: "(string, table_endpoint) jsmap"
  im_health :: "(string, table_health) jsmap"

section \<open>Errors of the driver\<close>

record db_fields =
  df_code :: "string option"
  df_constraint :: "string option"
  df_detail :: "string option"

record db_error = db_fields +
  de_message :: string
  de_cause :: "db_fields option"

text \<open>An absent field and an empty one are the same to the code.\<close>

definition told :: "string \<Rightarrow> string option \<Rightarrow> string" where
  "told name v = (case v of Some s \<Rightarrow> if s = [] then [] else name @ ''='' @ s | None \<Rightarrow> [])"

definition fields_told :: "db_fields \<Rightarrow> string list" where
  "fields_told f = filter (\<lambda>s. s \<noteq> [])
     [told ''code'' (df_code f), told ''constraint'' (df_constraint f), told ''detail'' (df_detail f)]"

definition describeDbError :: "db_error \<Rightarrow> string" where
  "describeDbError e =
     (let candidates = db_fields.truncate e # (case de_cause e of Some c \<Rightarrow> [c] | None \<Rightarrow> []) in
      case List.find (\<lambda>f. fields_told f \<noteq> []) candidates of
        Some f \<Rightarrow> take 300 (join '' '' (fields_told f))
      | None \<Rightarrow> take 300 (de_message e))"

definition constraint_error :: "string \<Rightarrow> string \<Rightarrow> db_error" where
  "constraint_error c name = \<lparr>df_code = Some c, df_constraint = Some name, df_detail = None, de_message = [], de_cause = None\<rparr>"

definition unique_error :: "string \<Rightarrow> db_error" where
  "unique_error = constraint_error ''23505''"

definition foreign_error :: "string \<Rightarrow> db_error" where
  "foreign_error = constraint_error ''23503''"

text \<open>A command that would update one row twice.\<close>

definition twice_error :: db_error where
  "twice_error = constraint_error ''21000'' []"

section \<open>Statements\<close>

text \<open>The upsert on the fingerprint: a row with the fingerprint takes the listed columns, otherwise the row is
  inserted under its id unless the id or the slug is there already. \<open>touched\<close> holds the ids this command wrote.\<close>

definition merged :: "time \<Rightarrow> table_api \<Rightarrow> table_api \<Rightarrow> table_api" where
  "merged now row old = old\<lparr>ta_name := ta_name row, ta_description := ta_description row, ta_docsUrl := ta_docsUrl row,
     ta_authType := ta_authType row, ta_httpsSupported := ta_httpsSupported row, ta_corsStatus := ta_corsStatus row,
     ta_isFree := ta_isFree row, ta_tags := ta_tags row, ta_sourceRevision := ta_sourceRevision row,
     ta_importedAt := ta_importedAt row, ta_updatedAt := now\<rparr>"

fun upsert_rows ::
  "time \<Rightarrow> string list \<Rightarrow> (string \<times> table_api) list \<Rightarrow> (string, table_api) jsmap \<Rightarrow> db_error + (string, table_api) jsmap"
where
  "upsert_rows now touched [] t = Inr t"
| "upsert_rows now touched ((i, row) # rows) t =
     (case List.find (\<lambda>(j, r). ta_fingerprint r = ta_fingerprint row) t of
        Some (j, old) \<Rightarrow>
          if j \<in> set touched then Inl twice_error
          else upsert_rows now (j # touched) rows (map (\<lambda>(k, r). (k, if k = j then merged now row r else r)) t)
      | None \<Rightarrow>
          if jm_has t i then Inl (unique_error ''apis_pkey'')
          else if list_ex (\<lambda>(j, r). ta_slug r = ta_slug row) t then Inl (unique_error ''apis_slug_idx'')
          else upsert_rows now (i # touched) rows (t @ [(i, row)]))"

text \<open>An insert that does nothing on a conflict: rows whose key is there, or that are \<open>taken\<close>, are left out, and
  a row without its parents fails the command.\<close>

fun insert_new ::
  "('k \<times> 'v \<Rightarrow> ('k, 'v) jsmap \<Rightarrow> bool) \<Rightarrow> ('k \<times> 'v \<Rightarrow> bool) \<Rightarrow> ('k \<times> 'v) list \<Rightarrow> ('k, 'v) jsmap \<Rightarrow> db_error + ('k, 'v) jsmap"
where
  "insert_new taken ok [] t = Inr t"
| "insert_new taken ok (row # rows) t =
     (if jm_has t (fst row) \<or> taken row t then insert_new taken ok rows t
      else if \<not> ok row then Inl (foreign_error ''api_id'')
      else insert_new taken ok rows (t @ [row]))"

definition none_taken :: "'k \<times> 'v \<Rightarrow> ('k, 'v) jsmap \<Rightarrow> bool" where
  "none_taken row t = False"

definition write_apis :: "time \<Rightarrow> (string \<times> table_api) list \<Rightarrow> import_db \<Rightarrow> db_error + import_db" where
  "write_apis now batch db = map_sum id (\<lambda>t. db\<lparr>im_apis := t\<rparr>) (upsert_rows now [] batch (im_apis db))"

definition write_categories :: "(string \<times> table_category) list \<Rightarrow> import_db \<Rightarrow> db_error + import_db" where
  "write_categories batch db = map_sum id (\<lambda>t. db\<lparr>im_categories := t\<rparr>)
     (insert_new (\<lambda>(_, c) t. list_ex (\<lambda>(_, d). tc_slug d = tc_slug c) t) (\<lambda>_. True) batch (im_categories db))"

definition write_links :: "((string \<times> string) \<times> bool) list \<Rightarrow> import_db \<Rightarrow> db_error + import_db" where
  "write_links batch db = map_sum id (\<lambda>t. db\<lparr>im_links := t\<rparr>)
     (insert_new none_taken (\<lambda>((a, c), _). jm_has (im_apis db) a \<and> jm_has (im_categories db) c) batch (im_links db))"

definition write_auth :: "(string \<times> table_auth) list \<Rightarrow> import_db \<Rightarrow> db_error + import_db" where
  "write_auth batch db = map_sum id (\<lambda>t. db\<lparr>im_auth := t\<rparr>)
     (insert_new none_taken (\<lambda>(_, r). jm_has (im_apis db) (th_apiId r)) batch (im_auth db))"

definition write_endpoints :: "(string \<times> table_endpoint) list \<Rightarrow> import_db \<Rightarrow> db_error + import_db" where
  "write_endpoints batch db = map_sum id (\<lambda>t. db\<lparr>im_endpoints := t\<rparr>)
     (insert_new none_taken (\<lambda>(_, r). jm_has (im_apis db) (te_apiId r)) batch (im_endpoints db))"

definition write_health :: "(string \<times> table_health) list \<Rightarrow> import_db \<Rightarrow> db_error + import_db" where
  "write_health batch db = map_sum id (\<lambda>t. db\<lparr>im_health := t\<rparr>)
     (insert_new none_taken (\<lambda>(a, _). jm_has (im_apis db) a) batch (im_health db))"

section \<open>Chunks\<close>

definition CHUNK_SIZE :: nat where
  "CHUNK_SIZE = 200"

function chunk :: "nat \<Rightarrow> 'a list \<Rightarrow> 'a list list" where
  "chunk n items = (if n = 0 \<or> items = [] then [] else take n items # chunk n (drop n items))"
  by pat_completeness auto

termination chunk
  by (relation "measure (\<lambda>(_, xs). length xs)") auto

declare chunk.simps [simp del]

record failure =
  fl_record :: string
  fl_reason :: string

record persist_result =
  pr_created :: nat
  pr_updated :: nat
  pr_failed :: nat
  pr_failures :: "failure list"

type_synonym refusals = "string \<Rightarrow> nat \<Rightarrow> db_error option"

definition chunk_failed :: "string \<Rightarrow> nat \<Rightarrow> nat \<Rightarrow> nat \<Rightarrow> db_error \<Rightarrow> persist_result \<Rightarrow> persist_result" where
  "chunk_failed label index batches rows e result = result\<lparr>pr_failed := pr_failed result + rows,
     pr_failures := (if length (pr_failures result) < 50
       then pr_failures result @ [\<lparr>fl_record = label @ '' chunk '' @ show_nat (index + 1) @ ''/'' @ show_nat batches @
              '' ('' @ show_nat rows @ '' rows)'', fl_reason = describeDbError e\<rparr>]
       else pr_failures result)\<rparr>"

fun write_batches ::
  "refusals \<Rightarrow> string \<Rightarrow> nat \<Rightarrow> nat \<Rightarrow> ('r list \<Rightarrow> import_db \<Rightarrow> db_error + import_db) \<Rightarrow> 'r list list \<Rightarrow>
   import_db \<times> persist_result \<Rightarrow> import_db \<times> persist_result"
where
  "write_batches refuse label n index write [] s = s"
| "write_batches refuse label n index write (batch # batches) (db, result) =
     write_batches refuse label n (index + 1) write batches
       (case (case refuse label index of Some e \<Rightarrow> Inl e | None \<Rightarrow> write batch db) of
          Inl e \<Rightarrow> (db, chunk_failed label index n (length batch) e result)
        | Inr db' \<Rightarrow> (db', result))"

definition writeChunks ::
  "refusals \<Rightarrow> string \<Rightarrow> 'r list \<Rightarrow> ('r list \<Rightarrow> import_db \<Rightarrow> db_error + import_db) \<Rightarrow>
   import_db \<times> persist_result \<Rightarrow> import_db \<times> persist_result"
where
  "writeChunks refuse label rows write s =
     (let batches = chunk CHUNK_SIZE rows in write_batches refuse label (length batches) 0 write batches s)"

section \<open>The rows of a batch\<close>

record persist_input =
  pi_apis :: "normalized_api list"
  pi_categoryIds :: "(string, string) jsmap"
  pi_sourceId :: string
  pi_revision :: string
  pi_now :: time

definition api_row :: "(string \<Rightarrow> nat list) \<Rightarrow> persist_input \<Rightarrow> normalized_api \<Rightarrow> string \<times> table_api" where
  "api_row sha input a =
     (deterministicId sha ''api'' (na_fingerprint a),
      \<lparr>ta_slug = na_slug a, ta_name = na_name a, ta_provider = na_provider a, ta_description = na_description a,
       ta_docsUrl = na_docsUrl a, ta_baseUrl = na_baseUrl a, ta_authType = na_authType a,
       ta_httpsSupported = na_httpsSupported a, ta_corsStatus = na_corsStatus a, ta_isFree = na_isFree a,
       ta_hasFreeTier = na_hasFreeTier a, ta_status = ''active'', ta_popularityScore = na_popularityScore a,
       ta_tags = na_tags a, ta_sourceId = pi_sourceId input, ta_sourceRecordId = na_slug a,
       ta_sourceRevision = pi_revision input, ta_fingerprint = na_fingerprint a, ta_importedAt = pi_now input,
       ta_createdAt = pi_now input, ta_updatedAt = pi_now input\<rparr>)"

definition link_rows :: "(string \<Rightarrow> nat list) \<Rightarrow> persist_input \<Rightarrow> ((string \<times> string) \<times> bool) list" where
  "link_rows sha input = List.map_filter (\<lambda>a. case jm_get (pi_categoryIds input) (na_categorySlug a) of
       None \<Rightarrow> None
     | Some c \<Rightarrow> if c = [] then None else Some ((deterministicId sha ''api'' (na_fingerprint a), c), True)) (pi_apis input)"

definition auth_row :: "(string \<Rightarrow> nat list) \<Rightarrow> normalized_api \<Rightarrow> string \<times> table_auth" where
  "auth_row sha a =
     (deterministicId sha ''authScheme'' (na_fingerprint a),
      \<lparr>th_apiId = deterministicId sha ''api'' (na_fingerprint a), th_type = na_authType a,
       th_location = (if na_authType a = ''none'' then ''none'' else ''header''),
       th_parameterName = (if na_authType a = ''apiKey'' then Some ''X-API-Key'' else None),
       th_notes = (if na_authType a = ''none'' then ''No credential required.''
          else ''See '' @ na_docsUrl a @ '' for credential setup.''),
       th_signupUrl = (if na_authType a = ''none'' then None else Some (na_docsUrl a))\<rparr>)"

definition endpoint_row :: "(string \<Rightarrow> nat list) \<Rightarrow> normalized_api \<Rightarrow> string \<times> table_endpoint" where
  "endpoint_row sha a =
     (deterministicId sha ''endpoint'' (na_fingerprint a),
      \<lparr>te_apiId = deterministicId sha ''api'' (na_fingerprint a), te_method = ''GET'', te_path = ''/'',
       te_summary = ''Documentation endpoint'', te_position = 0, te_isProbeTarget = True\<rparr>)"

definition health_row :: "(string \<Rightarrow> nat list) \<Rightarrow> (string \<Rightarrow> rat) \<Rightarrow> time \<Rightarrow> normalized_api \<Rightarrow> string \<times> table_health" where
  "health_row sha spread now a =
     (deterministicId sha ''api'' (na_fingerprint a),
      \<lparr>tl_status = ''unknown'', tl_nextCheckAt = now + js_floor (spread (na_fingerprint a) * 300000),
       tl_checkPriority = 100 - js_round (of_nat (na_popularityScore a) / 2)\<rparr>)"

section \<open>Persisting\<close>

definition known_before :: "import_db \<Rightarrow> normalized_api \<Rightarrow> bool" where
  "known_before db a \<longleftrightarrow> list_ex (\<lambda>(_, r). ta_fingerprint r = na_fingerprint a) (im_apis db)"

definition persistApis ::
  "(string \<Rightarrow> nat list) \<Rightarrow> (string \<Rightarrow> rat) \<Rightarrow> refusals \<Rightarrow> persist_input \<Rightarrow> import_db \<Rightarrow> db_error + (import_db \<times> persist_result)"
where
  "persistApis sha spread refuse input db =
     (if pi_apis input = [] then Inr (db, \<lparr>pr_created = 0, pr_updated = 0, pr_failed = 0, pr_failures = []\<rparr>)
      else case refuse ''fingerprints'' 0 of
        Some e \<Rightarrow> Inl e
      | None \<Rightarrow>
          let now = pi_now input; apis = pi_apis input;
              result = \<lparr>pr_created = length (filter (\<lambda>a. \<not> known_before db a) apis),
                pr_updated = length (filter (known_before db) apis), pr_failed = 0, pr_failures = []\<rparr>;
              s1 = writeChunks refuse ''apis'' (map (api_row sha input) apis) (write_apis now) (db, result);
              s2 = writeChunks refuse ''categories'' (link_rows sha input) write_links s1;
              s3 = writeChunks refuse ''auth schemes'' (map (auth_row sha) apis) write_auth s2;
              s4 = writeChunks refuse ''endpoints'' (map (endpoint_row sha) apis) write_endpoints s3
          in Inr (writeChunks refuse ''health rows'' (map (health_row sha spread now) apis) write_health s4))"

text \<open>The categories a batch refers to, each once, and their ids.\<close>

fun category_rows ::
  "(string \<Rightarrow> nat list) \<Rightarrow> (string \<Rightarrow> string) \<Rightarrow> normalized_api list \<Rightarrow> (string, string) jsmap \<Rightarrow>
   (string \<times> table_category) list \<times> (string, string) jsmap"
where
  "category_rows sha iconFor [] ids = ([], ids)"
| "category_rows sha iconFor (a # apis) ids =
     (if jm_has ids (na_categorySlug a) then category_rows sha iconFor apis ids
      else let i = deterministicId sha ''category'' (na_categorySlug a);
               (rows, ids') = category_rows sha iconFor apis (jm_set (na_categorySlug a) i ids)
           in ((i, \<lparr>tc_slug = na_categorySlug a, tc_name = na_categoryName a,
                  tc_description = ''APIs in the '' @ na_categoryName a @ '' category'',
                  tc_icon = iconFor (na_categorySlug a), tc_apiCount = 0\<rparr>) # rows, ids'))"

fun write_all ::
  "refusals \<Rightarrow> nat \<Rightarrow> (string \<times> table_category) list list \<Rightarrow> import_db \<Rightarrow> import_db \<times> db_error option"
where
  "write_all refuse index [] db = (db, None)"
| "write_all refuse index (batch # batches) db =
     (case (case refuse ''category rows'' index of Some e \<Rightarrow> Inl e | None \<Rightarrow> write_categories batch db) of
        Inl e \<Rightarrow> (db, Some e)
      | Inr db' \<Rightarrow> write_all refuse (index + 1) batches db')"

text \<open>A chunk that fails here ends the import: the chunks before it stay.\<close>

definition persistCategories ::
  "(string \<Rightarrow> nat list) \<Rightarrow> refusals \<Rightarrow> (string \<Rightarrow> string) \<Rightarrow> normalized_api list \<Rightarrow> import_db \<Rightarrow>
   import_db \<times> (db_error + (string, string) jsmap)"
where
  "persistCategories sha refuse iconFor apis db =
     (let (rows, ids) = category_rows sha iconFor apis [];
          (db', failed) = write_all refuse 0 (chunk CHUNK_SIZE rows) db
      in (db', case failed of Some e \<Rightarrow> Inl e | None \<Rightarrow> Inr ids))"

end
