(* ===== verification/PersistProps.thy ===== *)
theory PersistProps
  imports Persist
begin

text \<open>
  What the batched persistence guarantees: the tables stay consistent whatever is refused, an import of which
  nothing failed is complete, and importing the same records again changes nothing but their time stamps.
\<close>

section \<open>Chunks\<close>

lemma chunk_concat: "0 < n \<Longrightarrow> concat (chunk n xs) = xs"
proof (induction n xs rule: chunk.induct)
  case (1 n xs)
  then show ?case by (subst chunk.simps) simp
qed

lemma chunk_parts: "b \<in> set (chunk n xs) \<Longrightarrow> b \<noteq> [] \<and> set b \<subseteq> set xs \<and> length b \<le> n"
proof (induction n xs rule: chunk.induct)
  case (1 n xs)
  show ?case
  proof (cases "n = 0 \<or> xs = []")
    case True
    then show ?thesis using "1.prems" by (subst (asm) chunk.simps) simp
  next
    case False
    then have "b = take n xs \<or> b \<in> set (chunk n (drop n xs))" using "1.prems" by (subst (asm) chunk.simps) auto
    then show ?thesis using "1.IH" [OF False] False set_take_subset [of n xs] set_drop_subset [of n xs] by auto
  qed
qed

lemmas CHUNK = chunk_concat [of CHUNK_SIZE, unfolded CHUNK_SIZE_def, simplified, folded CHUNK_SIZE_def]

text \<open>An invariant of every batch holds at the end, and what every batch does to its rows holds of all rows if
  no batch failed.\<close>

lemma write_batches_inv:
  assumes "I db" and "\<And>b db db'. b \<in> set bs \<Longrightarrow> I db \<Longrightarrow> write b db = Inr db' \<Longrightarrow> I db'"
  shows "I (fst (write_batches refuse label n k write bs (db, res)))"
  using assms
proof (induction bs arbitrary: db res k)
  case (Cons b bs)
  show ?case
  proof (cases "case refuse label k of Some e \<Rightarrow> Inl e | None \<Rightarrow> write b db")
    case (Inl e)
    then show ?thesis by simp (rule Cons.IH, use Cons.prems in auto)
  next
    case (Inr db')
    then have "write b db = Inr db'" by (auto split: option.splits)
    then have "I db'" using Cons.prems(2) [of b db db', OF list.set_intros(1) Cons.prems(1)] by blast
    with Inr show ?thesis by simp (rule Cons.IH, use Cons.prems in auto)
  qed
qed simp

lemma write_batches_failed: "pr_failed res \<le> pr_failed (snd (write_batches refuse label n k write bs (db, res)))"
proof (induction bs arbitrary: db res k)
  case (Cons b bs)
  show ?case
  proof (cases "case refuse label k of Some e \<Rightarrow> Inl e | None \<Rightarrow> write b db")
    case (Inl e)
    have "pr_failed res \<le> pr_failed (chunk_failed label k n (length b) e res)" by (simp add: chunk_failed_def)
    also have "\<dots> \<le> pr_failed (snd (write_batches refuse label n (k + 1) write bs (db, chunk_failed label k n (length b) e res)))"
      by (rule Cons.IH)
    finally show ?thesis using Inl by simp
  next
    case (Inr db')
    then show ?thesis using Cons.IH by simp
  qed
qed simp

lemma write_batches_counts:
  "pr_created (snd (write_batches refuse label n k write bs (db, res))) = pr_created res \<and>
   pr_updated (snd (write_batches refuse label n k write bs (db, res))) = pr_updated res"
proof (induction bs arbitrary: db res k)
  case (Cons b bs)
  then show ?case
    by (cases "case refuse label k of Some e \<Rightarrow> Inl e | None \<Rightarrow> write b db") (simp_all add: chunk_failed_def)
qed simp

lemma write_batches_all:
  assumes "I db" and "pr_failed (snd (write_batches refuse label n k write bs (db, res))) = pr_failed res"
    and "\<And>b. b \<in> set bs \<Longrightarrow> b \<noteq> []" and "distinct (concat bs)"
    and "\<And>b db db'. b \<in> set bs \<Longrightarrow> I db \<Longrightarrow> write b db = Inr db' \<Longrightarrow> I db' \<and> (\<forall>row\<in>set b. P row db')"
    and "\<And>b db db' row. b \<in> set bs \<Longrightarrow> I db \<Longrightarrow> write b db = Inr db' \<Longrightarrow> row \<in> R \<Longrightarrow> row \<notin> set b \<Longrightarrow> P row db \<Longrightarrow> P row db'"
    and "set (concat bs) \<union> set done' \<subseteq> R" and "set done' \<inter> set (concat bs) = {}" and "\<forall>row\<in>set done'. P row db"
  shows "\<forall>row\<in>set done' \<union> set (concat bs). P row (fst (write_batches refuse label n k write bs (db, res)))"
  using assms
proof (induction bs arbitrary: db res k done')
  case (Cons b bs)
  note step = Cons.prems(5) [OF list.set_intros(1)] and kept = Cons.prems(6) [OF list.set_intros(1)]
  show ?case
  proof (cases "case refuse label k of Some e \<Rightarrow> Inl e | None \<Rightarrow> write b db")
    case (Inl e)
    have "pr_failed res < pr_failed (chunk_failed label k n (length b) e res)"
      using Cons.prems(3) [of b] by (simp add: chunk_failed_def)
    also have "\<dots> \<le> pr_failed (snd (write_batches refuse label n (k + 1) write bs (db, chunk_failed label k n (length b) e res)))"
      by (rule write_batches_failed)
    finally show ?thesis using Cons.prems(2) Inl by simp
  next
    case (Inr db')
    then have w: "write b db = Inr db'" by (auto split: option.splits)
    have next_: "write_batches refuse label n k write (b # bs) (db, res) = write_batches refuse label n (k + 1) write bs (db', res)"
      using Inr by simp
    have all: "\<forall>row\<in>set (done' @ b). P row db'"
    proof
      fix row assume "row \<in> set (done' @ b)"
      then consider "row \<in> set b" | "row \<in> set done'" "row \<notin> set b" "row \<in> R" using Cons.prems(7) by auto
      then show "P row db'"
        by cases (use step [OF Cons.prems(1) w] kept [OF Cons.prems(1) w] Cons.prems(9) in blast)+
    qed
    have "\<forall>row\<in>set (done' @ b) \<union> set (concat bs). P row (fst (write_batches refuse label n (k + 1) write bs (db', res)))"
    proof (rule Cons.IH)
      show "I db'" using step [OF Cons.prems(1) w] by blast
      show "pr_failed (snd (write_batches refuse label n (k + 1) write bs (db', res))) = pr_failed res"
        using Cons.prems(2) unfolding next_ .
      show "\<forall>row\<in>set (done' @ b). P row db'" by (rule all)
      show "set (done' @ b) \<inter> set (concat bs) = {}" using Cons.prems(4,8) by auto
      show "I y \<and> (\<forall>row\<in>set c. P row y)" if "c \<in> set bs" "I x" "write c x = Inr y" for c x y
        by (rule Cons.prems(5) [OF _ that(2,3)]) (simp add: that)
      show "P row y" if "c \<in> set bs" "I x" "write c x = Inr y" "row \<in> R" "row \<notin> set c" "P row x" for c x y row
        by (rule Cons.prems(6) [OF _ that(2-6)]) (simp add: that)
      show "c \<noteq> []" if "c \<in> set bs" for c by (rule Cons.prems(3)) (simp add: that)
    qed (use Cons.prems(4,7) in auto)
    then show ?thesis unfolding next_ by auto
  qed
qed simp

text \<open>Where no statement is refused and every write of a batch succeeds, the batches are one after the other.\<close>

lemma write_batches_same:
  assumes "\<And>b. b \<in> set bs \<Longrightarrow> write b db = Inr db" and "\<And>j. refuse label j = None"
  shows "write_batches refuse label n k write bs (db, res) = (db, res)"
  using assms by (induction bs arbitrary: k) auto

section \<open>The upsert\<close>

text \<open>The table of APIs: distinct ids, slugs and fingerprints, and every id derived from the fingerprint.\<close>

definition apis_ok :: "(string \<Rightarrow> nat list) \<Rightarrow> (string, table_api) jsmap \<Rightarrow> bool" where
  "apis_ok sha t \<longleftrightarrow> jm_wf t \<and> distinct (map (\<lambda>(i, r). ta_slug r) t) \<and> distinct (map (\<lambda>(i, r). ta_fingerprint r) t) \<and>
     list_all (\<lambda>(i, r). i = deterministicId sha ''api'' (ta_fingerprint r)) t"

definition derived :: "(string \<Rightarrow> nat list) \<Rightarrow> (string \<times> table_api) list \<Rightarrow> bool" where
  "derived sha rows \<longleftrightarrow> list_all (\<lambda>(i, r). i = deterministicId sha ''api'' (ta_fingerprint r)) rows"

lemma merged_keeps: "ta_slug (merged now row old) = ta_slug old" "ta_fingerprint (merged now row old) = ta_fingerprint old"
  by (simp_all add: merged_def)

definition put_at :: "string \<Rightarrow> ('r \<Rightarrow> 'r) \<Rightarrow> (string, 'r) jsmap \<Rightarrow> (string, 'r) jsmap" where
  "put_at j f t = map (\<lambda>(k, r). (k, if k = j then f r else r)) t"

lemma put_at_facts:
  "map fst (put_at j f t) = map fst t" "jm_get (put_at j f t) k = map_option (\<lambda>r. if k = j then f r else r) (jm_get t k)"
  by (simp_all add: put_at_def js_map comp_def split_beta)

lemma put_at_ok: "apis_ok sha t \<Longrightarrow> apis_ok sha (put_at j (merged now row) t)"
proof -
  have "map (\<lambda>(i, r). ta_slug r) (put_at j (merged now row) t) = map (\<lambda>(i, r). ta_slug r) t"
    "map (\<lambda>(i, r). ta_fingerprint r) (put_at j (merged now row) t) = map (\<lambda>(i, r). ta_fingerprint r) t"
    by (auto simp: put_at_def merged_keeps)
  moreover have "list_all (\<lambda>(i, r). i = deterministicId sha ''api'' (ta_fingerprint r)) t \<Longrightarrow>
      list_all (\<lambda>(i, r). i = deterministicId sha ''api'' (ta_fingerprint r)) (put_at j (merged now row) t)"
    by (auto simp: put_at_def merged_keeps list_all_iff)
  ultimately show "apis_ok sha t \<Longrightarrow> ?thesis" by (simp add: apis_ok_def jm_wf_def put_at_facts)
qed

lemma find_row:
  assumes "List.find (\<lambda>(j, r). ta_fingerprint r = f) t = Some (j, old)" and "jm_wf t"
  shows "jm_get t j = Some old" "ta_fingerprint old = f"
  using assms by (auto simp: find_Some_iff jm_wf_def) (metis nth_mem)

lemma append_row_ok:
  assumes "apis_ok sha t" and "List.find (\<lambda>(j, r). ta_fingerprint r = ta_fingerprint row) t = None"
    and "\<not> jm_has t i" and "\<not> list_ex (\<lambda>(j, r). ta_slug r = ta_slug row) t" and "i = deterministicId sha ''api'' (ta_fingerprint row)"
  shows "apis_ok sha (t @ [(i, row)])"
  using assms by (force simp: apis_ok_def jm_wf_def find_None_iff list_ex_iff map_of_eq_None_iff)

lemma upsert_step:
  assumes "apis_ok sha t" and "derived sha ((i, row) # rows)" and "upsert_rows now touched ((i, row) # rows) t = Inr t'"
  shows "\<exists>u. apis_ok sha u \<and> upsert_rows now (i # touched) rows u = Inr t' \<and> (\<forall>k. k \<noteq> i \<longrightarrow> jm_get u k = jm_get t k) \<and>
    (case jm_get t i of
       Some old \<Rightarrow> i \<notin> set touched \<and> jm_get u i = Some (merged now row old) \<and> ta_fingerprint old = ta_fingerprint row
     | None \<Rightarrow> jm_get u i = Some row)"
proof (cases "List.find (\<lambda>(j, r). ta_fingerprint r = ta_fingerprint row) t")
  case None
  then have new: "\<not> jm_has t i" "\<not> list_ex (\<lambda>(j, r). ta_slug r = ta_slug row) t"
    "upsert_rows now (i # touched) rows (t @ [(i, row)]) = Inr t'"
    using assms(3) by (auto split: if_splits)
  have "apis_ok sha (t @ [(i, row)])"
    by (rule append_row_ok [OF assms(1) None new(1,2)]) (use assms(2) in \<open>simp add: derived_def\<close>)
  moreover have "jm_get (t @ [(i, row)]) i = Some row" "\<forall>k. k \<noteq> i \<longrightarrow> jm_get (t @ [(i, row)]) k = jm_get t k"
    using new(1) by (auto simp: map_add_def split: option.split)
  ultimately show ?thesis using new(1,3) by (intro exI [of _ "t @ [(i, row)]"]) auto
next
  case (Some p)
  obtain j old where p: "p = (j, old)" by (cases p)
  have wf: "jm_wf t" using assms(1) by (simp add: apis_ok_def)
  note row = find_row [OF Some [unfolded p] wf]
  have "(j, old) \<in> set t" using row(1) wf by (simp add: jm_get_set_mem)
  then have "j = deterministicId sha ''api'' (ta_fingerprint old)" using assms(1) by (auto simp: apis_ok_def list_all_iff)
  moreover have "i = deterministicId sha ''api'' (ta_fingerprint row)" using assms(2) by (simp add: derived_def)
  ultimately have ji: "j = i" using row(2) by simp
  have up: "i \<notin> set touched" "upsert_rows now (i # touched) rows (put_at i (merged now row) t) = Inr t'"
    using assms(3) Some p ji by (auto simp: put_at_def split: if_splits)
  have "jm_get (put_at i (merged now row) t) i = Some (merged now row old)"
    "\<forall>k. k \<noteq> i \<longrightarrow> jm_get (put_at i (merged now row) t) k = jm_get t k"
    using row(1) ji by (simp_all add: put_at_facts option.map_ident)
  then show ?thesis using up row ji put_at_ok [OF assms(1)] by (intro exI [of _ "put_at i (merged now row) t"]) simp
qed

text \<open>Across a whole command: the table stays in order, keys are only added, rows of other APIs and rows already
  touched stay as they are, and every row of the command is there.\<close>

definition columns :: "table_api \<Rightarrow> table_api \<Rightarrow> bool" where
  "columns row r \<longleftrightarrow> ta_name r = ta_name row \<and> ta_description r = ta_description row \<and> ta_docsUrl r = ta_docsUrl row \<and>
     ta_authType r = ta_authType row \<and> ta_httpsSupported r = ta_httpsSupported row \<and> ta_corsStatus r = ta_corsStatus row \<and>
     ta_isFree r = ta_isFree row \<and> ta_tags r = ta_tags row \<and> ta_fingerprint r = ta_fingerprint row"

lemma columns_facts: "columns row row" "ta_fingerprint old = ta_fingerprint row \<Longrightarrow> columns row (merged now row old)"
  by (simp_all add: columns_def merged_def)

lemma upsert_rows_ok:
  assumes "apis_ok sha t" and "derived sha rows" and "upsert_rows now touched rows t = Inr t'" and "\<forall>k\<in>set touched. jm_has t k"
  shows "apis_ok sha t' \<and> (\<forall>k. jm_has t k \<longrightarrow> jm_has t' k) \<and>
    (\<forall>k. k \<in> set touched \<or> k \<notin> fst ` set rows \<longrightarrow> jm_get t' k = jm_get t k) \<and>
    list_all (\<lambda>(i, row). \<exists>r. jm_get t' i = Some r \<and> columns row r) rows"
  using assms
proof (induction rows arbitrary: touched t)
  case (Cons p rows)
  obtain i row where p: "p = (i, row)" by (cases p)
  obtain u where u: "apis_ok sha u" "upsert_rows now (i # touched) rows u = Inr t'" "\<forall>k. k \<noteq> i \<longrightarrow> jm_get u k = jm_get t k"
    and i: "case jm_get t i of
       Some old \<Rightarrow> i \<notin> set touched \<and> jm_get u i = Some (merged now row old) \<and> ta_fingerprint old = ta_fingerprint row
     | None \<Rightarrow> jm_get u i = Some row"
    using upsert_step [OF Cons.prems(1-3) [unfolded p]] by blast
  have derived: "derived sha rows" using Cons.prems(2) by (simp add: derived_def)
  obtain r where r: "jm_get u i = Some r" "columns row r" using i columns_facts by (cases "jm_get t i") auto
  have untouched: "i \<notin> set touched" using i Cons.prems(4) by (auto split: option.splits)
  have "\<forall>k\<in>set (i # touched). jm_has u k" using r(1) u(3) Cons.prems(4) untouched by auto
  from Cons.IH [OF u(1) derived u(2) this] have IH: "apis_ok sha t'" "\<And>k. jm_has u k \<Longrightarrow> jm_has t' k"
    "\<And>k. k \<in> set (i # touched) \<or> k \<notin> fst ` set rows \<Longrightarrow> jm_get t' k = jm_get u k"
    "list_all (\<lambda>(i, row). \<exists>r. jm_get t' i = Some r \<and> columns row r) rows" by blast+
  have "jm_get t' i = Some r" using IH(3) [of i] r(1) by simp
  moreover have "jm_has t' k" if "jm_has t k" for k
    using IH(2) [of k] that u(3) r(1) by (cases "k = i") auto
  moreover have "jm_get t' k = jm_get t k" if "k \<in> set touched \<or> k \<notin> fst ` set (p # rows)" for k
  proof -
    have "k \<noteq> i" using that untouched p by auto
    then show ?thesis using IH(3) [of k] that u(3) by auto
  qed
  ultimately show ?case using IH(1,4) r(2) by (auto simp: p)
qed simp

text \<open>A command whose rows are all there already writes the revision and the time stamps only.\<close>

definition restamp :: "string \<Rightarrow> time \<Rightarrow> table_api \<Rightarrow> table_api" where
  "restamp rv now r = r\<lparr>ta_sourceRevision := rv, ta_importedAt := now, ta_updatedAt := now\<rparr>"

lemma find_unique_row: "x \<in> set t \<Longrightarrow> P x \<Longrightarrow> \<forall>y\<in>set t. P y \<longrightarrow> y = x \<Longrightarrow> List.find P t = Some x"
proof (induction t)
  case (Cons y t)
  show ?case
  proof (cases "P y")
    case True
    then have "y = x" using bspec [OF Cons.prems(3) list.set_intros(1)] by blast
    then show ?thesis by (simp only: List.find.simps Cons.prems(2) if_True)
  next
    case False
    then have mem: "x \<in> set t" using Cons.prems(1,2) by (metis set_ConsD)
    have "\<forall>y\<in>set t. P y \<longrightarrow> y = x" using Cons.prems(3) by (metis list.set_intros(2))
    then have "List.find P t = Some x" by (rule Cons.IH [OF mem Cons.prems(2)])
    then show ?thesis by (simp only: List.find.simps False if_False)
  qed
qed simp

lemma find_fingerprint:
  assumes "apis_ok sha t" and "jm_get t i = Some r"
  shows "List.find (\<lambda>(j, r'). ta_fingerprint r' = ta_fingerprint r) t = Some (i, r)"
proof (rule find_unique_row)
  have wf: "jm_wf t" using assms(1) by (simp add: apis_ok_def)
  show mem: "(i, r) \<in> set t" using assms(2) wf by (simp add: jm_get_set_mem)
  have inj: "inj_on (\<lambda>(i, r). ta_fingerprint r) (set t)" using assms(1) by (simp add: apis_ok_def distinct_map)
  show "\<forall>y\<in>set t. (case y of (j, r') \<Rightarrow> ta_fingerprint r' = ta_fingerprint r) \<longrightarrow> y = (i, r)"
  proof (intro ballI impI)
    fix y assume "y \<in> set t" "case y of (j, r') \<Rightarrow> ta_fingerprint r' = ta_fingerprint r"
    then show "y = (i, r)" by (intro inj_onD [OF inj _ _ mem]) (auto split: prod.splits)
  qed
qed simp

lemma merged_columns: "columns row r \<Longrightarrow> ta_sourceRevision row = rv \<Longrightarrow> ta_importedAt row = now \<Longrightarrow> merged now row r = restamp rv now r"
  by (rule table_api.equality) (simp_all add: columns_def merged_def restamp_def)

definition restamp_at :: "string \<Rightarrow> time \<Rightarrow> string set \<Rightarrow> (string, table_api) jsmap \<Rightarrow> (string, table_api) jsmap" where
  "restamp_at rv now ids t = map (\<lambda>(k, r). (k, if k \<in> ids then restamp rv now r else r)) t"

lemma restamp_at_get: "jm_get (restamp_at rv now ids t) k = map_option (\<lambda>r. if k \<in> ids then restamp rv now r else r) (jm_get t k)"
  by (induction t) (auto simp: restamp_at_def)

lemma restamp_at_ok: "apis_ok sha t \<Longrightarrow> apis_ok sha (restamp_at rv now ids t)"
proof -
  have "map (\<lambda>(i, r). ta_slug r) (restamp_at rv now ids t) = map (\<lambda>(i, r). ta_slug r) t"
    "map (\<lambda>(i, r). ta_fingerprint r) (restamp_at rv now ids t) = map (\<lambda>(i, r). ta_fingerprint r) t"
    "map fst (restamp_at rv now ids t) = map fst t"
    by (auto simp: restamp_at_def restamp_def)
  moreover have "list_all (\<lambda>(i, r). i = deterministicId sha ''api'' (ta_fingerprint r)) t \<Longrightarrow>
      list_all (\<lambda>(i, r). i = deterministicId sha ''api'' (ta_fingerprint r)) (restamp_at rv now ids t)"
    by (auto simp: restamp_at_def restamp_def list_all_iff)
  ultimately show "apis_ok sha t \<Longrightarrow> ?thesis" by (simp add: apis_ok_def jm_wf_def)
qed

lemma upsert_again:
  assumes "apis_ok sha t" and "distinct (map fst rows)" and "set touched \<inter> fst ` set rows = {}"
    and "list_all (\<lambda>(i, row). \<exists>r. jm_get t i = Some r \<and> columns row r) rows"
    and "list_all (\<lambda>(i, row). ta_sourceRevision row = rv \<and> ta_importedAt row = now) rows"
  shows "upsert_rows now touched rows t = Inr (restamp_at rv now (fst ` set rows) t)"
  using assms
proof (induction rows arbitrary: touched t)
  case Nil
  then show ?case by (simp add: restamp_at_def split_beta)
next
  case (Cons p rows)
  obtain i row where p: "p = (i, row)" by (cases p)
  obtain r where r: "jm_get t i = Some r" "columns row r" using Cons.prems(4) p by auto
  have stamp: "ta_sourceRevision row = rv" "ta_importedAt row = now" using Cons.prems(5) p by auto
  have fp: "ta_fingerprint row = ta_fingerprint r" using r(2) by (simp add: columns_def)
  let ?u = "restamp_at rv now {i} t"
  have put: "map (\<lambda>(k, r). (k, if k = i then merged now row r else r)) t = ?u"
  proof -
    have "jm_wf t" using Cons.prems(1) by (simp add: apis_ok_def)
    then have "r' = r" if "(i, r') \<in> set t" for r' using r(1) that jm_get_set_mem [of t i r'] by auto
    then show ?thesis using merged_columns [OF r(2) stamp] by (auto simp: restamp_at_def)
  qed
  have other: "i \<notin> fst ` set rows" "i \<notin> set touched" using Cons.prems(2,3) p by auto
  have "upsert_rows now (i # touched) rows ?u = Inr (restamp_at rv now (fst ` set rows) ?u)"
  proof (rule Cons.IH)
    show "apis_ok sha ?u" by (rule restamp_at_ok) (rule Cons.prems(1))
    show "list_all (\<lambda>(i, row). \<exists>r. jm_get ?u i = Some r \<and> columns row r) rows"
      unfolding list_all_iff
    proof (intro ballI, clarify)
      fix i' row' assume mem: "(i', row') \<in> set rows"
      then obtain r' where "jm_get t i' = Some r'" "columns row' r'" using Cons.prems(4) by (auto simp: list_all_iff)
      moreover have "i' \<noteq> i" using mem other(1) by force
      ultimately show "\<exists>r. jm_get ?u i' = Some r \<and> columns row' r" by (simp add: restamp_at_get)
    qed
  qed (use Cons.prems(2,3,5) p in auto)
  moreover have "restamp_at rv now (fst ` set rows) ?u = restamp_at rv now (fst ` set (p # rows)) t"
    using other(1) by (auto simp: restamp_at_def p)
  ultimately show ?case
    using find_fingerprint [OF Cons.prems(1) r(1)] other(2) put by (simp add: p fp del: set_map)
qed

section \<open>Inserts that do nothing on a conflict\<close>

lemma insert_new_ok:
  assumes "insert_new taken ok rows t = Inr t'" and "jm_wf t"
  shows "jm_wf t' \<and> (\<forall>k v. jm_get t k = Some v \<longrightarrow> jm_get t' k = Some v) \<and>
    (\<forall>p\<in>set t'. p \<in> set t \<or> p \<in> set rows \<and> ok p)"
  using assms
proof (induction rows arbitrary: t)
  case (Cons row rows)
  show ?case
  proof (cases "jm_has t (fst row) \<or> taken row t")
    case True
    then show ?thesis using Cons by auto
  next
    case False
    then have ok: "ok row" and rest: "insert_new taken ok rows (t @ [row]) = Inr t'" using Cons.prems(1) by (auto split: if_splits)
    have "jm_wf (t @ [row])" using Cons.prems(2) False by (auto simp: jm_wf_def map_of_eq_None_iff)
    from Cons.IH [OF rest this] show ?thesis using ok by (auto simp: map_add_def)
  qed
qed simp

lemma none_is_taken: "\<not> none_taken row t"
  by (simp add: none_taken_def)

lemma insert_new_keys:
  assumes "insert_new none_taken ok rows t = Inr t'" and "jm_wf t"
  shows "list_all (\<lambda>row. jm_has t' (fst row)) rows"
  using assms
proof (induction rows arbitrary: t)
  case (Cons row rows)
  show ?case
  proof (cases "jm_has t (fst row)")
    case True
    then have "insert_new none_taken ok rows t = Inr t'" using Cons.prems(1) by simp
    then show ?thesis using Cons insert_new_ok [of none_taken ok rows t t'] True by auto
  next
    case False
    then have rest: "insert_new none_taken ok rows (t @ [row]) = Inr t'"
      using Cons.prems(1) none_is_taken [of row t] by (simp split: if_splits)
    have wf: "jm_wf (t @ [row])" using Cons.prems(2) False by (auto simp: jm_wf_def map_of_eq_None_iff)
    have "jm_get (t @ [row]) (fst row) = Some (snd row)" using False by (cases row) (auto simp: map_add_def)
    then have "jm_get t' (fst row) = Some (snd row)" using insert_new_ok [OF rest wf] by blast
    then show ?thesis using Cons.IH [OF rest wf] by simp
  qed
qed simp

lemma insert_new_again: "list_all (\<lambda>row. jm_has t (fst row)) rows \<Longrightarrow> insert_new taken ok rows t = Inr t"
  by (induction rows) auto

lemma insert_new_slugs:
  assumes "insert_new (\<lambda>(_, c) t. list_ex (\<lambda>(_, d). tc_slug d = tc_slug c) t) ok rows t = Inr t'"
    and "distinct (map (\<lambda>(i, c). tc_slug c) t)"
  shows "distinct (map (\<lambda>(i, c). tc_slug c) t')"
  using assms
proof (induction rows arbitrary: t)
  case (Cons row rows)
  obtain i c where row: "row = (i, c)" by (cases row)
  show ?case
  proof (cases "jm_has t i \<or> list_ex (\<lambda>(_, d). tc_slug d = tc_slug c) t")
    case True
    then show ?thesis using Cons by (auto simp: row)
  next
    case False
    then have rest: "insert_new (\<lambda>(_, c) t. list_ex (\<lambda>(_, d). tc_slug d = tc_slug c) t) ok rows (t @ [row]) = Inr t'"
      using Cons.prems(1) by (auto simp: row split: if_splits)
    have "distinct (map (\<lambda>(i, c). tc_slug c) (t @ [row]))" using Cons.prems(2) False by (auto simp: row list_ex_iff)
    from Cons.IH [OF rest this] show ?thesis .
  qed
qed simp

section \<open>The tables stay consistent\<close>

definition categories_ok :: "(string \<Rightarrow> nat list) \<Rightarrow> (string, table_category) jsmap \<Rightarrow> bool" where
  "categories_ok sha t \<longleftrightarrow> jm_wf t \<and> distinct (map (\<lambda>(i, c). tc_slug c) t) \<and>
     (\<forall>(i, c)\<in>set t. i = deterministicId sha ''category'' (tc_slug c))"

text \<open>Keys and slugs are unique, ids derived, and no row refers to an API or a category that is not there.\<close>

definition tables_ok :: "(string \<Rightarrow> nat list) \<Rightarrow> import_db \<Rightarrow> bool" where
  "tables_ok sha db \<longleftrightarrow> apis_ok sha (im_apis db) \<and> categories_ok sha (im_categories db) \<and>
     jm_wf (im_links db) \<and> (\<forall>((a, c), _)\<in>set (im_links db). jm_has (im_apis db) a \<and> jm_has (im_categories db) c) \<and>
     jm_wf (im_auth db) \<and> (\<forall>(_, r)\<in>set (im_auth db). jm_has (im_apis db) (th_apiId r)) \<and>
     jm_wf (im_endpoints db) \<and> (\<forall>(_, r)\<in>set (im_endpoints db). jm_has (im_apis db) (te_apiId r)) \<and>
     jm_wf (im_health db) \<and> (\<forall>(a, _)\<in>set (im_health db). jm_has (im_apis db) a)"

lemma write_apis_ok:
  assumes "tables_ok sha db" and "derived sha b" and "write_apis now b db = Inr db'"
  shows "tables_ok sha db' \<and> (\<exists>t. upsert_rows now [] b (im_apis db) = Inr t \<and> db' = db\<lparr>im_apis := t\<rparr>)"
proof -
  obtain t where t: "upsert_rows now [] b (im_apis db) = Inr t" "db' = db\<lparr>im_apis := t\<rparr>"
    using assms(3) by (cases "upsert_rows now [] b (im_apis db)") (auto simp: write_apis_def)
  have "apis_ok sha t" "\<And>k. jm_has (im_apis db) k \<Longrightarrow> jm_has t k"
    using upsert_rows_ok [OF _ assms(2) t(1)] assms(1) by (auto simp: tables_ok_def)
  then show ?thesis using assms(1) t by (fastforce simp: tables_ok_def)
qed

lemma write_links_ok:
  assumes "tables_ok sha db" and "write_links b db = Inr db'"
  shows "tables_ok sha db' \<and> (\<exists>t. insert_new none_taken (\<lambda>((a, c), _). jm_has (im_apis db) a \<and> jm_has (im_categories db) c) b (im_links db) = Inr t \<and>
    db' = db\<lparr>im_links := t\<rparr>)"
proof -
  let ?ok = "\<lambda>((a, c), _). jm_has (im_apis db) a \<and> jm_has (im_categories db) c"
  obtain t where t: "insert_new none_taken ?ok b (im_links db) = Inr t" "db' = db\<lparr>im_links := t\<rparr>"
    using assms(2) by (cases "insert_new none_taken ?ok b (im_links db)") (auto simp: write_links_def)
  show ?thesis using insert_new_ok [OF t(1)] t assms(1) by (fastforce simp: tables_ok_def)
qed

lemma write_auth_ok:
  assumes "tables_ok sha db" and "write_auth b db = Inr db'"
  shows "tables_ok sha db' \<and> (\<exists>t. insert_new none_taken (\<lambda>(_, r). jm_has (im_apis db) (th_apiId r)) b (im_auth db) = Inr t \<and> db' = db\<lparr>im_auth := t\<rparr>)"
proof -
  let ?ok = "\<lambda>(_, r). jm_has (im_apis db) (th_apiId r)"
  obtain t where t: "insert_new none_taken ?ok b (im_auth db) = Inr t" "db' = db\<lparr>im_auth := t\<rparr>"
    using assms(2) by (cases "insert_new none_taken ?ok b (im_auth db)") (auto simp: write_auth_def)
  show ?thesis using insert_new_ok [OF t(1)] t assms(1) by (fastforce simp: tables_ok_def)
qed

lemma write_endpoints_ok:
  assumes "tables_ok sha db" and "write_endpoints b db = Inr db'"
  shows "tables_ok sha db' \<and> (\<exists>t. insert_new none_taken (\<lambda>(_, r). jm_has (im_apis db) (te_apiId r)) b (im_endpoints db) = Inr t \<and> db' = db\<lparr>im_endpoints := t\<rparr>)"
proof -
  let ?ok = "\<lambda>(_, r). jm_has (im_apis db) (te_apiId r)"
  obtain t where t: "insert_new none_taken ?ok b (im_endpoints db) = Inr t" "db' = db\<lparr>im_endpoints := t\<rparr>"
    using assms(2) by (cases "insert_new none_taken ?ok b (im_endpoints db)") (auto simp: write_endpoints_def)
  show ?thesis using insert_new_ok [OF t(1)] t assms(1) by (fastforce simp: tables_ok_def)
qed

lemma write_health_ok:
  assumes "tables_ok sha db" and "write_health b db = Inr db'"
  shows "tables_ok sha db' \<and> (\<exists>t. insert_new none_taken (\<lambda>(a, _). jm_has (im_apis db) a) b (im_health db) = Inr t \<and> db' = db\<lparr>im_health := t\<rparr>)"
proof -
  let ?ok = "\<lambda>(a, _). jm_has (im_apis db) a"
  obtain t where t: "insert_new none_taken ?ok b (im_health db) = Inr t" "db' = db\<lparr>im_health := t\<rparr>"
    using assms(2) by (cases "insert_new none_taken ?ok b (im_health db)") (auto simp: write_health_def)
  show ?thesis using insert_new_ok [OF t(1)] t assms(1) by (fastforce simp: tables_ok_def)
qed

lemma write_categories_ok:
  assumes "tables_ok sha db" and "\<forall>(i, c)\<in>set b. i = deterministicId sha ''category'' (tc_slug c)" and "write_categories b db = Inr db'"
  shows "tables_ok sha db' \<and> im_apis db' = im_apis db"
proof -
  let ?taken = "\<lambda>(_, c) t. list_ex (\<lambda>(_, d). tc_slug d = tc_slug c) t"
  obtain t where t: "insert_new ?taken (\<lambda>_. True) b (im_categories db) = Inr t" "db' = db\<lparr>im_categories := t\<rparr>"
    using assms(3) by (cases "insert_new ?taken (\<lambda>_. True) b (im_categories db)") (auto simp: write_categories_def)
  have old: "jm_wf (im_categories db)" "distinct (map (\<lambda>(i, c). tc_slug c) (im_categories db))"
    "\<forall>(i, c)\<in>set (im_categories db). i = deterministicId sha ''category'' (tc_slug c)"
    using assms(1) by (simp_all add: tables_ok_def categories_ok_def)
  note new = insert_new_ok [OF t(1) old(1)]
  have "categories_ok sha t"
    unfolding categories_ok_def using new insert_new_slugs [OF t(1) old(2)] old(3) assms(2) by blast
  moreover have "jm_has t k" if "jm_has (im_categories db) k" for k using new that by auto
  ultimately show ?thesis using assms(1) t(2) by (fastforce simp: tables_ok_def)
qed

section \<open>Batches of rows\<close>

lemma ball_subset: "\<forall>x\<in>B. P x \<Longrightarrow> A \<subseteq> B \<Longrightarrow> \<forall>x\<in>A. P x"
  by blast

lemma derived_rows: "derived sha (map (api_row sha input) apis)"
  by (auto simp: derived_def api_row_def list_all_iff)

lemma derived_batch: "b \<in> set (chunk CHUNK_SIZE (map (api_row sha input) apis)) \<Longrightarrow> derived sha b"
  using derived_rows [of sha input apis] unfolding derived_def list_all_iff
  by (elim ball_subset) (use chunk_parts in blast)

lemma writeChunks_inv:
  assumes "I (fst s)" and "\<And>b db db'. b \<in> set (chunk CHUNK_SIZE rows) \<Longrightarrow> I db \<Longrightarrow> write b db = Inr db' \<Longrightarrow> I db'"
  shows "I (fst (writeChunks refuse label rows write s))"
proof -
  obtain db res where s: "s = (db, res)" by (cases s)
  show ?thesis unfolding s writeChunks_def Let_def
    by (rule write_batches_inv [where I = I]) (use assms s in auto)
qed

lemma writeChunks_failed: "pr_failed (snd s) \<le> pr_failed (snd (writeChunks refuse label rows write s))"
  by (cases s) (simp add: writeChunks_def Let_def write_batches_failed)

lemma writeChunks_counts:
  "pr_created (snd (writeChunks refuse label rows write s)) = pr_created (snd s)"
  "pr_updated (snd (writeChunks refuse label rows write s)) = pr_updated (snd s)"
  by (cases s, simp add: writeChunks_def Let_def write_batches_counts)+

lemma writeChunks_all:
  assumes "I (fst s)" and "pr_failed (snd (writeChunks refuse label rows write s)) = pr_failed (snd s)" and "distinct rows"
    and "\<And>b db db'. b \<in> set (chunk CHUNK_SIZE rows) \<Longrightarrow> I db \<Longrightarrow> write b db = Inr db' \<Longrightarrow> I db' \<and> (\<forall>row\<in>set b. P row db')"
    and "\<And>b db db' row. b \<in> set (chunk CHUNK_SIZE rows) \<Longrightarrow> I db \<Longrightarrow> write b db = Inr db' \<Longrightarrow> row \<in> set rows \<Longrightarrow> row \<notin> set b \<Longrightarrow>
      P row db \<Longrightarrow> P row db'"
  shows "\<forall>row\<in>set rows. P row (fst (writeChunks refuse label rows write s))"
proof -
  obtain db res where s: "s = (db, res)" by (cases s)
  have "\<forall>row\<in>set [] \<union> set (concat (chunk CHUNK_SIZE rows)). P row (fst (write_batches refuse label
      (length (chunk CHUNK_SIZE rows)) 0 write (chunk CHUNK_SIZE rows) (db, res)))"
  proof (rule write_batches_all)
    show "I db" using assms(1) s by simp
    show "b \<noteq> []" if "b \<in> set (chunk CHUNK_SIZE rows)" for b using chunk_parts [OF that] by blast
    show "I db' \<and> (\<forall>row\<in>set b. P row db')" if "b \<in> set (chunk CHUNK_SIZE rows)" "I db" "write b db = Inr db'" for b db db'
      by (rule assms(4) [OF that])
    show "P row db'" if "b \<in> set (chunk CHUNK_SIZE rows)" "I db" "write b db = Inr db'" "row \<in> set rows" "row \<notin> set b" "P row db"
      for b db db' row by (rule assms(5) [OF that])
  qed (use assms(2,3) in \<open>simp_all add: s writeChunks_def Let_def CHUNK\<close>)
  then show ?thesis by (simp add: s writeChunks_def Let_def CHUNK)
qed

section \<open>A whole import\<close>

text \<open>The five groups of batches, named once for the proofs.\<close>

definition stage1 where "stage1 sha refuse input s =
  writeChunks refuse ''apis'' (map (api_row sha input) (pi_apis input)) (write_apis (pi_now input)) s"
definition stage2 where "stage2 sha refuse input s = writeChunks refuse ''categories'' (link_rows sha input) write_links s"
definition stage3 where "stage3 sha refuse input s = writeChunks refuse ''auth schemes'' (map (auth_row sha) (pi_apis input)) write_auth s"
definition stage4 where "stage4 sha refuse input s = writeChunks refuse ''endpoints'' (map (endpoint_row sha) (pi_apis input)) write_endpoints s"
definition stage5 where "stage5 sha spread refuse input s =
  writeChunks refuse ''health rows'' (map (health_row sha spread (pi_now input)) (pi_apis input)) write_health s"

definition counted :: "import_db \<Rightarrow> normalized_api list \<Rightarrow> persist_result" where
  "counted db apis = \<lparr>pr_created = length (filter (\<lambda>a. \<not> known_before db a) apis),
     pr_updated = length (filter (known_before db) apis), pr_failed = 0, pr_failures = []\<rparr>"

lemma persistApis_stages:
  "persistApis sha spread refuse input db =
     (if pi_apis input = [] then Inr (db, counted db [])
      else case refuse ''fingerprints'' 0 of Some e \<Rightarrow> Inl e
      | None \<Rightarrow> Inr (stage5 sha spread refuse input (stage4 sha refuse input (stage3 sha refuse input
           (stage2 sha refuse input (stage1 sha refuse input (db, counted db (pi_apis input))))))))"
  by (simp add: persistApis_def stage1_def stage2_def stage3_def stage4_def stage5_def counted_def Let_def split: option.split)

lemmas stage_defs = stage1_def stage2_def stage3_def stage4_def stage5_def

lemma stage_ok:
  assumes "tables_ok sha (fst s)"
  shows "tables_ok sha (fst (stage1 sha refuse input s))" "tables_ok sha (fst (stage2 sha refuse input s))"
    "tables_ok sha (fst (stage3 sha refuse input s))" "tables_ok sha (fst (stage4 sha refuse input s))"
    "tables_ok sha (fst (stage5 sha spread refuse input s))"
proof -
  note inv = writeChunks_inv [where I = "tables_ok sha", OF assms]
  show "tables_ok sha (fst (stage1 sha refuse input s))" unfolding stage1_def
    by (rule inv) (use write_apis_ok derived_batch in blast)
  show "tables_ok sha (fst (stage2 sha refuse input s))" unfolding stage2_def
    by (rule inv) (use write_links_ok in blast)
  show "tables_ok sha (fst (stage3 sha refuse input s))" unfolding stage3_def
    by (rule inv) (use write_auth_ok in blast)
  show "tables_ok sha (fst (stage4 sha refuse input s))" unfolding stage4_def
    by (rule inv) (use write_endpoints_ok in blast)
  show "tables_ok sha (fst (stage5 sha spread refuse input s))" unfolding stage5_def
    by (rule inv) (use write_health_ok in blast)
qed

lemma persist_keeps:
  assumes "tables_ok sha db" and "persistApis sha spread refuse input db = Inr (db', res)"
  shows "tables_ok sha db'"
proof (cases "pi_apis input = []")
  case True
  then show ?thesis using assms by (simp add: persistApis_stages)
next
  case False
  let ?s = "stage4 sha refuse input (stage3 sha refuse input (stage2 sha refuse input
    (stage1 sha refuse input (db, counted db (pi_apis input)))))"
  have "tables_ok sha (fst ?s)" by (intro stage_ok(1-4)) (simp add: assms(1))
  moreover have "(db', res) = stage5 sha spread refuse input ?s"
    using assms(2) False by (simp add: persistApis_stages split: option.splits)
  ultimately show ?thesis by (metis fst_conv stage_ok(5))
qed

text \<open>Later stages leave what earlier ones wrote.\<close>

lemma writeChunks_frame:
  assumes "\<And>b db db'. write b db = Inr db' \<Longrightarrow> part db' = part db"
  shows "part (fst (writeChunks refuse label rows write s)) = part (fst s)"
  by (rule writeChunks_inv [where I = "\<lambda>db. part db = part (fst s)"]) (simp_all add: assms)

lemma write_frames:
  "write_links b1 db = Inr db' \<Longrightarrow> im_apis db' = im_apis db"
  "write_auth b2 db = Inr db' \<Longrightarrow> im_apis db' = im_apis db" "write_auth b2 db = Inr db' \<Longrightarrow> im_links db' = im_links db"
  "write_endpoints b3 db = Inr db' \<Longrightarrow> im_apis db' = im_apis db" "write_endpoints b3 db = Inr db' \<Longrightarrow> im_links db' = im_links db"
  "write_endpoints b3 db = Inr db' \<Longrightarrow> im_auth db' = im_auth db"
  "write_health b4 db = Inr db' \<Longrightarrow> im_apis db' = im_apis db" "write_health b4 db = Inr db' \<Longrightarrow> im_links db' = im_links db"
  "write_health b4 db = Inr db' \<Longrightarrow> im_auth db' = im_auth db" "write_health b4 db = Inr db' \<Longrightarrow> im_endpoints db' = im_endpoints db"
  unfolding write_links_def write_auth_def write_endpoints_def write_health_def map_sum_def
  by (auto split: sum.splits)

lemma stage_frames:
  "im_apis (fst (stage2 sha refuse input s)) = im_apis (fst s)"
  "im_apis (fst (stage3 sha refuse input s)) = im_apis (fst s)" "im_links (fst (stage3 sha refuse input s)) = im_links (fst s)"
  "im_apis (fst (stage4 sha refuse input s)) = im_apis (fst s)" "im_links (fst (stage4 sha refuse input s)) = im_links (fst s)"
  "im_auth (fst (stage4 sha refuse input s)) = im_auth (fst s)"
  "im_apis (fst (stage5 sha spread refuse input s)) = im_apis (fst s)" "im_links (fst (stage5 sha spread refuse input s)) = im_links (fst s)"
  "im_auth (fst (stage5 sha spread refuse input s)) = im_auth (fst s)" "im_endpoints (fst (stage5 sha spread refuse input s)) = im_endpoints (fst s)"
  unfolding stage_defs by (rule writeChunks_frame, erule write_frames)+

lemma stage_failed:
  "pr_failed (snd s) \<le> pr_failed (snd (stage1 sha refuse input s))" "pr_failed (snd s) \<le> pr_failed (snd (stage2 sha refuse input s))"
  "pr_failed (snd s) \<le> pr_failed (snd (stage3 sha refuse input s))" "pr_failed (snd s) \<le> pr_failed (snd (stage4 sha refuse input s))"
  "pr_failed (snd s) \<le> pr_failed (snd (stage5 sha spread refuse input s))"
  unfolding stage_defs by (rule writeChunks_failed)+

lemma write_batches_mono:
  assumes "I db" and "pr_failed (snd (write_batches refuse label n k write bs (db, res))) = pr_failed res"
    and "\<And>b. b \<in> set bs \<Longrightarrow> b \<noteq> []"
    and "\<And>b db db'. b \<in> set bs \<Longrightarrow> I db \<Longrightarrow> write b db = Inr db' \<Longrightarrow> I db' \<and> (\<forall>row\<in>set b. P row db') \<and> (\<forall>row. P row db \<longrightarrow> P row db')"
  shows "\<forall>row\<in>set (concat bs). P row (fst (write_batches refuse label n k write bs (db, res)))"
  using assms
proof (induction bs arbitrary: db res k)
  case (Cons b bs)
  have step: "I y \<and> (\<forall>row\<in>set c. P row y) \<and> (\<forall>row. P row x \<longrightarrow> P row y)" if "c \<in> set (b # bs)" "I x" "write c x = Inr y" for c x y
    by (rule Cons.prems(4) [OF that])
  show ?case
  proof (cases "case refuse label k of Some e \<Rightarrow> Inl e | None \<Rightarrow> write b db")
    case (Inl e)
    have "pr_failed res < pr_failed (chunk_failed label k n (length b) e res)"
      using Cons.prems(3) [of b] by (simp add: chunk_failed_def)
    also have "\<dots> \<le> pr_failed (snd (write_batches refuse label n (k + 1) write bs (db, chunk_failed label k n (length b) e res)))"
      by (rule write_batches_failed)
    finally show ?thesis using Cons.prems(2) Inl by simp
  next
    case (Inr db')
    then have w: "write b db = Inr db'" by (auto split: option.splits)
    have next_: "write_batches refuse label n k write (b # bs) (db, res) = write_batches refuse label n (k + 1) write bs (db', res)"
      using Inr by simp
    have db': "I db'" "\<forall>row\<in>set b. P row db'" using step [OF _ Cons.prems(1) w] by auto
    have "P row (fst (write_batches refuse label n (k + 1) write bs (db', res)))" if "P row db'" for row
    proof -
      have "I (fst (write_batches refuse label n (k + 1) write bs (db', res))) \<and>
          P row (fst (write_batches refuse label n (k + 1) write bs (db', res)))"
      proof (rule write_batches_inv [where I = "\<lambda>db. I db \<and> P row db"])
        show "I y \<and> P row y" if "c \<in> set bs" "I x \<and> P row x" "write c x = Inr y" for c x y
          using step [OF _ _ that(3)] that(1,2) by simp
      qed (simp add: db'(1) that)
      then show ?thesis ..
    qed
    moreover have "\<forall>row\<in>set (concat bs). P row (fst (write_batches refuse label n (k + 1) write bs (db', res)))"
    proof (rule Cons.IH [OF db'(1)])
      show "pr_failed (snd (write_batches refuse label n (k + 1) write bs (db', res))) = pr_failed res"
        using Cons.prems(2) unfolding next_ .
      show "c \<noteq> []" if "c \<in> set bs" for c by (rule Cons.prems(3)) (simp add: that)
      show "I y \<and> (\<forall>row\<in>set c. P row y) \<and> (\<forall>row. P row x \<longrightarrow> P row y)" if "c \<in> set bs" "I x" "write c x = Inr y" for c x y
        by (rule step) (simp_all add: that)
    qed
    ultimately show ?thesis unfolding next_ using db'(2) by auto
  qed
qed simp

lemma writeChunks_mono:
  assumes "I (fst s)" and "pr_failed (snd (writeChunks refuse label rows write s)) = pr_failed (snd s)"
    and "\<And>b db db'. I db \<Longrightarrow> write b db = Inr db' \<Longrightarrow> I db' \<and> (\<forall>row\<in>set b. P row db') \<and> (\<forall>row. P row db \<longrightarrow> P row db')"
  shows "\<forall>row\<in>set rows. P row (fst (writeChunks refuse label rows write s))"
proof -
  obtain db res where s: "s = (db, res)" by (cases s)
  have "\<forall>row\<in>set (concat (chunk CHUNK_SIZE rows)). P row (fst (write_batches refuse label
      (length (chunk CHUNK_SIZE rows)) 0 write (chunk CHUNK_SIZE rows) (db, res)))"
  proof (rule write_batches_mono [where I = I])
    show "b \<noteq> []" if "b \<in> set (chunk CHUNK_SIZE rows)" for b using chunk_parts [OF that] by blast
  qed (use assms in \<open>simp_all add: s writeChunks_def Let_def\<close>)
  then show ?thesis by (simp add: s writeChunks_def Let_def CHUNK)
qed

text \<open>What an import that lost nothing has put there for one record.\<close>

definition complete :: "(string \<Rightarrow> nat list) \<Rightarrow> persist_input \<Rightarrow> import_db \<Rightarrow> normalized_api \<Rightarrow> bool" where
  "complete sha input db a \<longleftrightarrow>
     (let i = deterministicId sha ''api'' (na_fingerprint a) in
      (\<exists>r. jm_get (im_apis db) i = Some r \<and> columns (snd (api_row sha input a)) r) \<and>
      (case jm_get (pi_categoryIds input) (na_categorySlug a) of Some c \<Rightarrow> c \<noteq> [] \<longrightarrow> jm_has (im_links db) (i, c) | None \<Rightarrow> True) \<and>
      jm_has (im_auth db) (deterministicId sha ''authScheme'' (na_fingerprint a)) \<and>
      jm_has (im_endpoints db) (deterministicId sha ''endpoint'' (na_fingerprint a)) \<and> jm_has (im_health db) i)"

lemma stage1_rows:
  assumes "tables_ok sha (fst s)" and "pr_failed (snd (stage1 sha refuse input s)) = pr_failed (snd s)"
    and "distinct (map (fst \<circ> api_row sha input) (pi_apis input))"
  shows "\<forall>row\<in>set (map (api_row sha input) (pi_apis input)).
    \<exists>r. jm_get (im_apis (fst (stage1 sha refuse input s))) (fst row) = Some r \<and> columns (snd row) r"
  unfolding stage1_def
proof (rule writeChunks_all [where I = "tables_ok sha"])
  let ?rows = "map (api_row sha input) (pi_apis input)"
  have keys: "inj_on fst (set ?rows)" using assms(3) by (auto simp: distinct_map comp_inj_on_iff inj_on_def)
  show "distinct ?rows" using assms(3) by (metis distinct_map map_map)
  show "tables_ok sha (fst s)" by (rule assms(1))
  show "pr_failed (snd (writeChunks refuse ''apis'' ?rows (write_apis (pi_now input)) s)) = pr_failed (snd s)"
    using assms(2) by (simp add: stage1_def)
  fix b db db' assume b: "b \<in> set (chunk CHUNK_SIZE ?rows)" "tables_ok sha db" "write_apis (pi_now input) b db = Inr db'"
  note w = write_apis_ok [OF b(2) derived_batch [OF b(1)] b(3)]
  then obtain t where t: "upsert_rows (pi_now input) [] b (im_apis db) = Inr t" "db' = db\<lparr>im_apis := t\<rparr>" by blast
  have "apis_ok sha (im_apis db)" using b(2) by (simp add: tables_ok_def)
  from upsert_rows_ok [OF this derived_batch [OF b(1)] t(1)]
  have u: "\<And>k. k \<notin> fst ` set b \<Longrightarrow> jm_get t k = jm_get (im_apis db) k"
    "list_all (\<lambda>(i, row). \<exists>r. jm_get t i = Some r \<and> columns row r) b" by auto
  show "tables_ok sha db' \<and> (\<forall>row\<in>set b. \<exists>r. jm_get (im_apis db') (fst row) = Some r \<and> columns (snd row) r)"
    using w u(2) by (auto simp: t(2) list_all_iff)
  show "\<exists>r. jm_get (im_apis db') (fst row) = Some r \<and> columns (snd row) r"
    if "row \<in> set ?rows" "row \<notin> set b" "\<exists>r. jm_get (im_apis db) (fst row) = Some r \<and> columns (snd row) r" for row
  proof -
    have "fst row \<notin> fst ` set b"
    proof
      assume "fst row \<in> fst ` set b"
      then obtain row' where row': "row' \<in> set b" "fst row = fst row'" by auto
      moreover have "row' \<in> set ?rows" using chunk_parts [OF b(1)] row'(1) by blast
      ultimately show False using inj_onD [OF keys row'(2) that(1)] that(2) by blast
    qed
    then show ?thesis using u(1) that(3) by (simp add: t(2))
  qed
qed

lemma insert_stage:
  assumes "insert_new none_taken ok b t = Inr t'" and "jm_wf t"
  shows "(\<forall>row\<in>set b. jm_has t' (fst row)) \<and> (\<forall>row. jm_has t (fst row) \<longrightarrow> jm_has t' (fst row))"
  using insert_new_keys [OF assms] insert_new_ok [OF assms] by (auto simp: list_all_iff)

lemma stage2_rows:
  assumes "tables_ok sha (fst s)" and "pr_failed (snd (stage2 sha refuse input s)) = pr_failed (snd s)"
  shows "\<forall>row\<in>set (link_rows sha input). jm_has (im_links (fst (stage2 sha refuse input s))) (fst row)"
  unfolding stage2_def
proof (rule writeChunks_mono [where I = "tables_ok sha", OF assms(1) assms(2) [unfolded stage2_def]])
  fix b db db' assume w: "tables_ok sha db" "write_links b db = Inr db'"
  from write_links_ok [OF this] obtain ok t where t: "tables_ok sha db'" "insert_new none_taken ok b (im_links db) = Inr t" "im_links db' = t"
    by fastforce
  show "tables_ok sha db' \<and> (\<forall>row\<in>set b. jm_has (im_links db') (fst row)) \<and> (\<forall>row. jm_has (im_links db) (fst row) \<longrightarrow> jm_has (im_links db') (fst row))"
    using insert_stage [OF t(2)] t w(1) by (simp add: tables_ok_def)
qed

lemma stage3_rows:
  assumes "tables_ok sha (fst s)" and "pr_failed (snd (stage3 sha refuse input s)) = pr_failed (snd s)"
  shows "\<forall>row\<in>set (map (auth_row sha) (pi_apis input)). jm_has (im_auth (fst (stage3 sha refuse input s))) (fst row)"
  unfolding stage3_def
proof (rule writeChunks_mono [where I = "tables_ok sha", OF assms(1) assms(2) [unfolded stage3_def]])
  fix b db db' assume w: "tables_ok sha db" "write_auth b db = Inr db'"
  from write_auth_ok [OF this] obtain ok t where t: "tables_ok sha db'" "insert_new none_taken ok b (im_auth db) = Inr t" "im_auth db' = t"
    by fastforce
  show "tables_ok sha db' \<and> (\<forall>row\<in>set b. jm_has (im_auth db') (fst row)) \<and> (\<forall>row. jm_has (im_auth db) (fst row) \<longrightarrow> jm_has (im_auth db') (fst row))"
    using insert_stage [OF t(2)] t w(1) by (simp add: tables_ok_def)
qed

lemma stage4_rows:
  assumes "tables_ok sha (fst s)" and "pr_failed (snd (stage4 sha refuse input s)) = pr_failed (snd s)"
  shows "\<forall>row\<in>set (map (endpoint_row sha) (pi_apis input)). jm_has (im_endpoints (fst (stage4 sha refuse input s))) (fst row)"
  unfolding stage4_def
proof (rule writeChunks_mono [where I = "tables_ok sha", OF assms(1) assms(2) [unfolded stage4_def]])
  fix b db db' assume w: "tables_ok sha db" "write_endpoints b db = Inr db'"
  from write_endpoints_ok [OF this] obtain ok t where t: "tables_ok sha db'" "insert_new none_taken ok b (im_endpoints db) = Inr t" "im_endpoints db' = t"
    by fastforce
  show "tables_ok sha db' \<and> (\<forall>row\<in>set b. jm_has (im_endpoints db') (fst row)) \<and> (\<forall>row. jm_has (im_endpoints db) (fst row) \<longrightarrow> jm_has (im_endpoints db') (fst row))"
    using insert_stage [OF t(2)] t w(1) by (simp add: tables_ok_def)
qed

lemma stage5_rows:
  assumes "tables_ok sha (fst s)" and "pr_failed (snd (stage5 sha spread refuse input s)) = pr_failed (snd s)"
  shows "\<forall>row\<in>set (map (health_row sha spread (pi_now input)) (pi_apis input)). jm_has (im_health (fst (stage5 sha spread refuse input s))) (fst row)"
  unfolding stage5_def
proof (rule writeChunks_mono [where I = "tables_ok sha", OF assms(1) assms(2) [unfolded stage5_def]])
  fix b db db' assume w: "tables_ok sha db" "write_health b db = Inr db'"
  from write_health_ok [OF this] obtain ok t where t: "tables_ok sha db'" "insert_new none_taken ok b (im_health db) = Inr t" "im_health db' = t"
    by fastforce
  show "tables_ok sha db' \<and> (\<forall>row\<in>set b. jm_has (im_health db') (fst row)) \<and> (\<forall>row. jm_has (im_health db) (fst row) \<longrightarrow> jm_has (im_health db') (fst row))"
    using insert_stage [OF t(2)] t w(1) by (simp add: tables_ok_def)
qed

lemma link_row_mem:
  "a \<in> set (pi_apis input) \<Longrightarrow> jm_get (pi_categoryIds input) (na_categorySlug a) = Some c \<Longrightarrow> c \<noteq> [] \<Longrightarrow>
     ((deterministicId sha ''api'' (na_fingerprint a), c), True) \<in> set (link_rows sha input)"
  by (force simp: link_rows_def List.map_filter_def)

lemma persist_complete:
  assumes "tables_ok sha db" and "persistApis sha spread refuse input db = Inr (db', res)" and "pr_failed res = 0"
    and "distinct (map (fst \<circ> api_row sha input) (pi_apis input))"
  shows "tables_ok sha db' \<and> list_all (complete sha input db') (pi_apis input)"
proof (cases "pi_apis input = []")
  case True
  then show ?thesis using assms by (simp add: persistApis_stages)
next
  case False
  define s1 where "s1 = stage1 sha refuse input (db, counted db (pi_apis input))"
  define s2 where "s2 = stage2 sha refuse input s1"
  define s3 where "s3 = stage3 sha refuse input s2"
  define s4 where "s4 = stage4 sha refuse input s3"
  define s5 where "s5 = stage5 sha spread refuse input s4"
  have out: "(db', res) = s5"
    using assms(2) False by (simp add: persistApis_stages s1_def s2_def s3_def s4_def s5_def split: option.splits)
  have ok: "tables_ok sha (fst s1)" "tables_ok sha (fst s2)" "tables_ok sha (fst s3)" "tables_ok sha (fst s4)"
    unfolding s1_def s2_def s3_def s4_def by (intro stage_ok(1-4); simp add: assms(1))+
  have "pr_failed (snd s5) = 0" using assms(3) out by (metis snd_conv)
  moreover have "pr_failed (snd s1) \<le> pr_failed (snd s2)" "pr_failed (snd s2) \<le> pr_failed (snd s3)" "pr_failed (snd s3) \<le> pr_failed (snd s4)"
    "pr_failed (snd s4) \<le> pr_failed (snd s5)"
    unfolding s5_def s4_def s3_def s2_def by (rule stage_failed)+
  ultimately have zero: "pr_failed (snd s1) = 0" "pr_failed (snd s2) = 0" "pr_failed (snd s3) = 0" "pr_failed (snd s4) = 0" "pr_failed (snd s5) = 0"
    by simp_all
  have f: "im_apis db' = im_apis (fst s1)" "im_links db' = im_links (fst s2)" "im_auth db' = im_auth (fst s3)"
    "im_endpoints db' = im_endpoints (fst s4)" "im_health db' = im_health (fst s5)"
    unfolding fst_conv [of db' res, symmetric, unfolded out] s5_def s4_def s3_def s2_def by (simp_all add: stage_frames)
  have r1: "\<forall>row\<in>set (map (api_row sha input) (pi_apis input)). \<exists>r. jm_get (im_apis db') (fst row) = Some r \<and> columns (snd row) r"
    unfolding f s1_def by (rule stage1_rows) (use assms zero(1) in \<open>simp_all add: counted_def s1_def\<close>)
  have r2: "\<forall>row\<in>set (link_rows sha input). jm_has (im_links db') (fst row)"
    unfolding f s2_def by (rule stage2_rows [OF ok(1)]) (use zero in \<open>simp add: s2_def\<close>)
  have r3: "\<forall>row\<in>set (map (auth_row sha) (pi_apis input)). jm_has (im_auth db') (fst row)"
    unfolding f s3_def by (rule stage3_rows [OF ok(2)]) (use zero in \<open>simp add: s3_def\<close>)
  have r4: "\<forall>row\<in>set (map (endpoint_row sha) (pi_apis input)). jm_has (im_endpoints db') (fst row)"
    unfolding f s4_def by (rule stage4_rows [OF ok(3)]) (use zero in \<open>simp add: s4_def\<close>)
  have r5: "\<forall>row\<in>set (map (health_row sha spread (pi_now input)) (pi_apis input)). jm_has (im_health db') (fst row)"
    unfolding f s5_def by (rule stage5_rows [OF ok(4)]) (use zero in \<open>simp add: s5_def\<close>)
  have "complete sha input db' a" if a: "a \<in> set (pi_apis input)" for a
  proof -
    let ?i = "deterministicId sha ''api'' (na_fingerprint a)"
    have "\<exists>r. jm_get (im_apis db') ?i = Some r \<and> columns (snd (api_row sha input a)) r"
      using r1 a by (force simp: api_row_def)
    moreover have "jm_has (im_links db') (?i, c)" if "jm_get (pi_categoryIds input) (na_categorySlug a) = Some c" "c \<noteq> []" for c
      using bspec [OF r2 link_row_mem [OF a that]] by simp
    moreover have "jm_has (im_auth db') (deterministicId sha ''authScheme'' (na_fingerprint a))"
      using r3 a by (force simp: auth_row_def)
    moreover have "jm_has (im_endpoints db') (deterministicId sha ''endpoint'' (na_fingerprint a))"
      using r4 a by (force simp: endpoint_row_def)
    moreover have "jm_has (im_health db') ?i" using r5 a by (force simp: health_row_def)
    ultimately show ?thesis by (simp add: complete_def Let_def split: option.split)
  qed
  then show ?thesis using persist_keeps [OF assms(1,2)] by (simp add: list_all_iff)
qed

section \<open>Importing again\<close>

lemma restamp_twice: "restamp_at rv now B (restamp_at rv now A t) = restamp_at rv now (A \<union> B) t"
  by (auto simp: restamp_at_def restamp_def)

lemma write_batches_restamp:
  assumes "apis_ok sha (im_apis db)" and "distinct (map fst (concat bs))"
    and "list_all (\<lambda>(i, row). (\<exists>r. jm_get (im_apis db) i = Some r \<and> columns row r) \<and>
      ta_sourceRevision row = rv \<and> ta_importedAt row = now) (concat bs)"
    and "\<And>j. refuse label j = None"
  shows "write_batches refuse label n k (write_apis now) bs (db, res) =
    (db\<lparr>im_apis := restamp_at rv now (fst ` set (concat bs)) (im_apis db)\<rparr>, res)"
  using assms
proof (induction bs arbitrary: db k)
  case Nil
  then show ?case by (simp add: restamp_at_def split_beta)
next
  case (Cons b bs)
  let ?t = "restamp_at rv now (fst ` set b) (im_apis db)" and ?db = "db\<lparr>im_apis := restamp_at rv now (fst ` set b) (im_apis db)\<rparr>"
  have "upsert_rows now [] b (im_apis db) = Inr ?t"
  proof (rule upsert_again [OF Cons.prems(1)])
    have b: "(\<exists>r. jm_get (im_apis db) i = Some r \<and> columns row r) \<and> ta_sourceRevision row = rv \<and> ta_importedAt row = now"
      if "(i, row) \<in> set b" for i row
      using bspec [OF Cons.prems(3) [unfolded list_all_iff], of "(i, row)"] that by simp
    show "list_all (\<lambda>(i, row). \<exists>r. jm_get (im_apis db) i = Some r \<and> columns row r) b"
      unfolding list_all_iff using b by blast
    show "list_all (\<lambda>(i, row). ta_sourceRevision row = rv \<and> ta_importedAt row = now) b"
      unfolding list_all_iff using b by blast
  qed (use Cons.prems(2) in auto)
  then have w: "write_apis now b db = Inr ?db" by (simp add: write_apis_def)
  have "write_batches refuse label n (Suc k) (write_apis now) bs (?db, res) =
    (?db\<lparr>im_apis := restamp_at rv now (fst ` set (concat bs)) (im_apis ?db)\<rparr>, res)"
  proof (rule Cons.IH)
    show "apis_ok sha (im_apis ?db)" using restamp_at_ok [OF Cons.prems(1)] by simp
    show "list_all (\<lambda>(i, row). (\<exists>r. jm_get (im_apis ?db) i = Some r \<and> columns row r) \<and>
      ta_sourceRevision row = rv \<and> ta_importedAt row = now) (concat bs)"
      unfolding list_all_iff
    proof (intro ballI, clarify)
      fix i row assume mem: "(i, row) \<in> set (concat bs)"
      then obtain r where r: "jm_get (im_apis db) i = Some r" "columns row r" "ta_sourceRevision row = rv" "ta_importedAt row = now"
        using bspec [OF Cons.prems(3) [unfolded list_all_iff], of "(i, row)"] by auto
      have "columns row (restamp rv now r)" using r(2) by (simp add: columns_def restamp_def)
      then show "(\<exists>r. jm_get (im_apis ?db) i = Some r \<and> columns row r) \<and> ta_sourceRevision row = rv \<and> ta_importedAt row = now"
        using r by (simp add: restamp_at_get)
    qed
  qed (use Cons.prems(2,4) in auto)
  then show ?case using w Cons.prems(4) by (simp add: restamp_twice Un_commute image_Un)
qed

lemma writeChunks_same:
  assumes "\<And>b. set b \<subseteq> set rows \<Longrightarrow> write b (fst s) = Inr (fst s)" and "\<And>l j. refuse l j = None"
  shows "writeChunks refuse label rows write s = s"
proof -
  obtain db res where s: "s = (db, res)" by (cases s)
  show ?thesis unfolding s writeChunks_def Let_def
  proof (rule write_batches_same)
    fix b assume "b \<in> set (chunk CHUNK_SIZE rows)"
    then have "set b \<subseteq> set rows" using chunk_parts by blast
    then show "write b db = Inr db" using assms(1) s by simp
  qed (rule assms(2))
qed

definition unslug :: "normalized_api \<Rightarrow> normalized_api" where
  "unslug a = a\<lparr>na_slug := []\<rparr>"

lemma unslug_rows: "auth_row sha (unslug a) = auth_row sha a" "endpoint_row sha (unslug a) = endpoint_row sha a"
  "fst (api_row sha input (unslug a)) = fst (api_row sha input a)" "na_fingerprint (unslug a) = na_fingerprint a"
  "complete sha input db (unslug a) = complete sha input db a"
  by (simp_all add: unslug_def auth_row_def endpoint_row_def api_row_def complete_def columns_def Let_def)

lemma unslug_all:
  assumes "map unslug xs = map unslug ys" and "\<And>a. f (unslug a) = f a"
  shows "map f xs = map f ys"
  using arg_cong [OF assms(1), of "map f"] by (simp add: assms(2) comp_def)

lemma complete_input: "pi_categoryIds input' = pi_categoryIds input \<Longrightarrow> complete sha input' db a = complete sha input db a"
  by (simp add: complete_def api_row_def columns_def Let_def)

lemma complete_known:
  assumes "apis_ok sha (im_apis db)" and "complete sha input db a"
  shows "known_before db a"
proof -
  obtain r where "jm_get (im_apis db) (deterministicId sha ''api'' (na_fingerprint a)) = Some r" "ta_fingerprint r = na_fingerprint a"
    using assms(2) by (auto simp: complete_def Let_def columns_def api_row_def)
  then show ?thesis using map_of_SomeD by (force simp: known_before_def list_ex_iff)
qed

lemma persist_again:
  assumes "tables_ok sha db" and "list_all (complete sha input db) (pi_apis input)" and "\<And>l j. refuse l j = None"
    and "distinct (map (fst \<circ> api_row sha input) (pi_apis input))"
  shows "persistApis sha spread refuse input db =
    Inr (db\<lparr>im_apis := restamp_at (pi_revision input) (pi_now input) (set (map (fst \<circ> api_row sha input) (pi_apis input))) (im_apis db)\<rparr>,
         \<lparr>pr_created = 0, pr_updated = length (pi_apis input), pr_failed = 0, pr_failures = []\<rparr>)"
proof -
  let ?rows = "map (api_row sha input) (pi_apis input)" and ?apis = "pi_apis input"
  define db1 where "db1 = db\<lparr>im_apis := restamp_at (pi_revision input) (pi_now input) (fst ` set ?rows) (im_apis db)\<rparr>"
  have ok: "apis_ok sha (im_apis db)" using assms(1) by (simp add: tables_ok_def)
  have comp: "complete sha input db a" if "a \<in> set ?apis" for a using assms(2) that by (simp add: list_all_iff)
  have "filter (known_before db) ?apis = ?apis" using complete_known [OF ok comp] by simp
  moreover have "filter (\<lambda>a. \<not> known_before db a) ?apis = []" using complete_known [OF ok comp] by (simp add: filter_empty_conv)
  ultimately have counted: "counted db ?apis = \<lparr>pr_created = 0, pr_updated = length ?apis, pr_failed = 0, pr_failures = []\<rparr>"
    by (simp add: counted_def)
  have s1: "stage1 sha refuse input (db, res) = (db1, res)" for res
  proof -
    have "list_all (\<lambda>(i, row). (\<exists>r. jm_get (im_apis db) i = Some r \<and> columns row r) \<and>
      ta_sourceRevision row = pi_revision input \<and> ta_importedAt row = pi_now input) ?rows"
      using comp by (auto simp: list_all_iff complete_def Let_def api_row_def)
    then show ?thesis unfolding stage1_def writeChunks_def Let_def db1_def
      using write_batches_restamp [OF ok, of "chunk CHUNK_SIZE ?rows"] assms(3,4) by (simp add: CHUNK)
  qed
  have keys: "im_links db1 = im_links db" "im_auth db1 = im_auth db" "im_endpoints db1 = im_endpoints db" "im_health db1 = im_health db"
    by (simp_all add: db1_def)
  have there: "jm_has (im_auth db1) (fst (auth_row sha a))" "jm_has (im_endpoints db1) (fst (endpoint_row sha a))"
    "jm_has (im_health db1) (fst (health_row sha spread (pi_now input) a))" if "a \<in> set ?apis" for a
    using comp [OF that] by (simp_all add: keys complete_def Let_def auth_row_def endpoint_row_def health_row_def)
  have s2: "stage2 sha refuse input (db1, res) = (db1, res)" for res unfolding stage2_def
  proof (rule writeChunks_same [OF _ assms(3)])
    fix b assume b: "set b \<subseteq> set (link_rows sha input)"
    have "jm_has (im_links db) (fst row)" if "row \<in> set (link_rows sha input)" for row
      using that comp by (fastforce simp: link_rows_def List.map_filter_def complete_def Let_def split: option.splits if_splits)
    then have "list_all (\<lambda>row. jm_has (im_links db1) (fst row)) b" using b keys by (auto simp: list_all_iff)
    from insert_new_again [OF this] show "write_links b (fst (db1, res)) = Inr (fst (db1, res))" by (simp add: write_links_def)
  qed
  have s3: "stage3 sha refuse input (db1, res) = (db1, res)" for res unfolding stage3_def
  proof (rule writeChunks_same [OF _ assms(3)])
    fix b assume b: "set b \<subseteq> set (map (auth_row sha) ?apis)"
    have "list_all (\<lambda>row. jm_has (im_auth db1) (fst row)) b"
      unfolding list_all_iff
    proof
      fix row assume "row \<in> set b"
      then obtain a where "a \<in> set ?apis" "row = auth_row sha a" using b by auto
      then show "jm_has (im_auth db1) (fst row)" using there by simp
    qed
    from insert_new_again [OF this] show "write_auth b (fst (db1, res)) = Inr (fst (db1, res))" by (simp add: write_auth_def)
  qed
  have s4: "stage4 sha refuse input (db1, res) = (db1, res)" for res unfolding stage4_def
  proof (rule writeChunks_same [OF _ assms(3)])
    fix b assume b: "set b \<subseteq> set (map (endpoint_row sha) ?apis)"
    have "list_all (\<lambda>row. jm_has (im_endpoints db1) (fst row)) b"
      unfolding list_all_iff
    proof
      fix row assume "row \<in> set b"
      then obtain a where "a \<in> set ?apis" "row = endpoint_row sha a" using b by auto
      then show "jm_has (im_endpoints db1) (fst row)" using there by simp
    qed
    from insert_new_again [OF this] show "write_endpoints b (fst (db1, res)) = Inr (fst (db1, res))" by (simp add: write_endpoints_def)
  qed
  have s5: "stage5 sha spread refuse input (db1, res) = (db1, res)" for res unfolding stage5_def
  proof (rule writeChunks_same [OF _ assms(3)])
    fix b assume b: "set b \<subseteq> set (map (health_row sha spread (pi_now input)) ?apis)"
    have "list_all (\<lambda>row. jm_has (im_health db1) (fst row)) b"
      unfolding list_all_iff
    proof
      fix row assume "row \<in> set b"
      then obtain a where "a \<in> set ?apis" "row = health_row sha spread (pi_now input) a" using b by auto
      then show "jm_has (im_health db1) (fst row)" using there by simp
    qed
    from insert_new_again [OF this] show "write_health b (fst (db1, res)) = Inr (fst (db1, res))" by (simp add: write_health_def)
  qed
  show ?thesis
  proof (cases "?apis = []")
    case True
    then show ?thesis by (simp add: persistApis_stages counted_def restamp_at_def split_beta)
  next
    case False
    then show ?thesis unfolding persistApis_stages s1 s2 s3 s4 s5 counted by (simp add: assms(3) db1_def image_comp)
  qed
qed

end
