(* ===== verification/Ingestion.thy ===== *)
theory Ingestion
  imports SourceParser PersistProps Ssrf Lock
begin

text \<open>
  The ingestion job (\<open>packages/jobs/src/jobs/ingestion.ts\<close>): fetching the source through the guard, the pipeline
  from its text to the tables, the record of the run, and the lock around it. The platform (URL functions, hashes,
  HTTP client, messages of the schema library) is a record of parameters, a statement the driver refuses is given
  by its label. The clock is read once per run.
\<close>

section \<open>Runs\<close>

record counters =
  ct_fetched :: nat
  ct_created :: nat
  ct_updated :: nat
  ct_skipped :: nat
  ct_failed :: nat
  ct_clusters :: nat

definition no_counters :: counters where
  "no_counters = \<lparr>ct_fetched = 0, ct_created = 0, ct_updated = 0, ct_skipped = 0, ct_failed = 0, ct_clusters = 0\<rparr>"

record run_row =
  rn_sourceId :: string
  rn_sourceName :: string
  rn_sourceUrl :: string
  rn_status :: string
  rn_sourceRevision :: "string option"
  rn_startedAt :: time
  rn_finishedAt :: "time option"
  rn_durationMs :: "int option"
  rn_errorMessage :: "string option"
  rn_failures :: "failure list"
  rn_counters :: counters

record source_row =
  so_name :: string
  so_url :: string
  so_license :: string
  so_transformVersion :: string

record ingest_db =
  ig_sources :: "(string, source_row) jsmap"
  ig_runs :: "(string, run_row) jsmap"
  ig_tables :: import_db

record outcome =
  oc_runId :: string
  oc_status :: string
  oc_counters :: counters

definition CATEGORY_ICONS :: "(string \<times> string) list" where
  "CATEGORY_ICONS =
     [(''animals'', ''paw-print''), (''anime'', ''sparkles''), (''anti-malware'', ''shield''),
      (''art-design'', ''palette''), (''authentication'', ''key-round''), (''blockchain'', ''boxes''),
      (''books'', ''book-open''), (''business'', ''briefcase''), (''calendar'', ''calendar''),
      (''cloud-storage-file-sharing'', ''cloud''), (''continuous-integration'', ''git-branch''),
      (''cryptocurrency'', ''bitcoin''), (''currency'', ''banknote''), (''data-validation'', ''check-circle''),
      (''development'', ''code''), (''dictionaries'', ''book-a''), (''documents-productivity'', ''file-text''),
      (''email'', ''mail''), (''entertainment'', ''clapperboard''), (''environment'', ''leaf''),
      (''events'', ''ticket''), (''finance'', ''trending-up''), (''food-drink'', ''utensils''),
      (''games-comics'', ''gamepad-2''), (''geocoding'', ''map-pin''), (''government'', ''landmark''),
      (''health'', ''heart-pulse''), (''jobs'', ''briefcase''), (''machine-learning'', ''brain''),
      (''music'', ''music''), (''news'', ''newspaper''), (''open-data'', ''database''),
      (''open-source-projects'', ''git-fork''), (''patent'', ''scroll-text''), (''personality'', ''user''),
      (''phone'', ''phone''), (''photography'', ''camera''), (''science-math'', ''flask-conical''),
      (''security'', ''shield-check''), (''shopping'', ''shopping-cart''), (''social'', ''users''),
      (''sports-fitness'', ''dumbbell''), (''test-data'', ''flask-round''), (''text-analysis'', ''file-search''),
      (''tracking'', ''radar''), (''transportation'', ''train-front''), (''url-shorteners'', ''link''),
      (''vehicle'', ''car''), (''video'', ''video''), (''weather'', ''cloud-sun'')]"

definition icon_for :: "string \<Rightarrow> string" where
  "icon_for slug = (case jm_get CATEGORY_ICONS slug of Some icon \<Rightarrow> icon | None \<Rightarrow> ''boxes'')"

section \<open>Fetching\<close>

record ingest_world =
  iw_parse :: "string \<Rightarrow> url option"
  iw_lookup :: "string \<Rightarrow> string option + address list"
  iw_send :: "url \<Rightarrow> string + (nat \<times> string)"
  iw_urls :: url_platform
  iw_hex :: "string \<Rightarrow> string"
  iw_digest :: "string \<Rightarrow> nat list"
  iw_issues :: "source_record \<Rightarrow> string"
  iw_spread :: "string \<Rightarrow> rat"

definition source_policy :: ssrf_policy where
  "source_policy = \<lparr>sp_allowHttp = False, sp_hostAllowlist = [], sp_maxRedirects = 3, sp_extraPorts = None\<rparr>"

text \<open>The text of the source, or the message of what was thrown.\<close>

definition fetchSource :: "ingest_world \<Rightarrow> string \<Rightarrow> string + string" where
  "fetchSource w sourceUrl =
     (case validateTargetUrl (iw_parse w) (iw_lookup w) sourceUrl source_policy of
        Inl e \<Rightarrow> Inl (se_message e)
      | Inr validated \<Rightarrow>
          (case iw_send w (sr_url validated) of
             Inl message \<Rightarrow> Inl message
           | Inr (status, body) \<Rightarrow>
               if status < 200 \<or> 300 \<le> status then Inl (''Source returned HTTP '' @ show_nat status) else Inr body))"

section \<open>From the text to the batch\<close>

definition failure_of :: "parse_failure \<Rightarrow> failure" where
  "failure_of f = \<lparr>fl_record = fst f, fl_reason = snd f\<rparr>"

record batch =
  bt_apis :: "normalized_api list"
  bt_failed :: nat
  bt_failures :: "failure list"

definition adapter_name :: string where
  "adapter_name = ''public-apis''"

text \<open>Records that cannot be made canonical are dropped and noted, up to fifty failures in all.\<close>

definition keep_record :: "ingest_world \<Rightarrow> string \<Rightarrow> source_record \<Rightarrow> batch \<Rightarrow> batch" where
  "keep_record w name r b =
     (case normalize_record (iw_urls w) (iw_hex w) r name of
        Some api \<Rightarrow> b\<lparr>bt_apis := bt_apis b @ [api]\<rparr>
      | None \<Rightarrow> b\<lparr>bt_failed := bt_failed b + 1,
          bt_failures := (if length (bt_failures b) < 50
            then bt_failures b @ [\<lparr>fl_record = rec_name r, fl_reason = ''could not canonicalise URL''\<rparr>] else bt_failures b)\<rparr>)"

definition read_source :: "ingest_world \<Rightarrow> string \<Rightarrow> nat \<times> batch" where
  "read_source w raw =
     (let (records, parse_failures) = parse_source (iw_issues w) raw;
          start = \<lparr>bt_apis = [], bt_failed = length parse_failures, bt_failures = map failure_of (take 50 parse_failures)\<rparr>
      in (length records, fold (keep_record w adapter_name) records start))"

text \<open>The first record of every fingerprint, and how many were skipped.\<close>

definition by_fingerprint :: "normalized_api list \<Rightarrow> (string, normalized_api) jsmap \<times> nat" where
  "by_fingerprint apis = fold (\<lambda>api (m, skipped).
     if jm_has m (na_fingerprint api) then (m, skipped + 1) else (jm_set (na_fingerprint api) api m, skipped)) apis ([], 0)"

definition reserved_slugs :: "import_db \<Rightarrow> (string, string) jsmap" where
  "reserved_slugs t = fold (\<lambda>(_, r) m. jm_set (ta_slug r) (ta_fingerprint r) m) (im_apis t) []"

section \<open>The run\<close>

definition source_id :: "ingest_world \<Rightarrow> string" where
  "source_id w = deterministicId (iw_digest w) ''source'' adapter_name"

definition finish_run ::
  "refusals \<Rightarrow> string \<Rightarrow> string \<Rightarrow> counters \<Rightarrow> time \<Rightarrow> time \<Rightarrow> string \<Rightarrow> failure list \<Rightarrow> ingest_db \<Rightarrow> db_error + ingest_db"
where
  "finish_run refuse runId status c startedAt now revision failures db =
     (case refuse ''finish'' 0 of
        Some e \<Rightarrow> Inl e
      | None \<Rightarrow> Inr (db\<lparr>ig_runs := map (\<lambda>(i, r). (i, if i = runId
          then r\<lparr>rn_status := status, rn_sourceRevision := Some revision, rn_finishedAt := Some now,
                 rn_durationMs := Some (now - startedAt), rn_failures := failures, rn_counters := c\<rparr> else r)) (ig_runs db)\<rparr>))"

definition fail_run ::
  "refusals \<Rightarrow> string \<Rightarrow> string \<Rightarrow> counters \<Rightarrow> time \<Rightarrow> time \<Rightarrow> ingest_db \<Rightarrow> ingest_db \<times> (db_error + outcome)"
where
  "fail_run refuse runId message c startedAt now db =
     (case refuse ''failed'' 0 of
        Some e \<Rightarrow> (db, Inl e)
      | None \<Rightarrow>
          (db\<lparr>ig_runs := map (\<lambda>(i, r). (i, if i = runId
             then r\<lparr>rn_status := ''failed'', rn_errorMessage := Some (take 500 message), rn_finishedAt := Some now,
                    rn_durationMs := Some (now - startedAt), rn_counters := c\<rparr> else r)) (ig_runs db)\<rparr>,
           Inr \<lparr>oc_runId = runId, oc_status = ''failed'', oc_counters = c\<rparr>))"

text \<open>The end of a run that was not thrown out: its row, or the failure of writing it.\<close>

definition conclude ::
  "refusals \<Rightarrow> string \<Rightarrow> string \<Rightarrow> counters \<Rightarrow> time \<Rightarrow> time \<Rightarrow> string \<Rightarrow> failure list \<Rightarrow> ingest_db \<Rightarrow> ingest_db \<times> (db_error + outcome)"
where
  "conclude refuse runId status c startedAt now revision failures db =
     (case finish_run refuse runId status c startedAt now revision failures db of
        Inl e \<Rightarrow> fail_run refuse runId (de_message e) c startedAt now db
      | Inr db' \<Rightarrow> (db', Inr \<lparr>oc_runId = runId, oc_status = status, oc_counters = c\<rparr>))"

text \<open>The run that finished last among those that succeeded; a missing time sorts last.\<close>

definition later :: "run_row \<Rightarrow> run_row \<Rightarrow> bool" where
  "later a b \<longleftrightarrow> (case rn_finishedAt b of None \<Rightarrow> True | Some y \<Rightarrow> (case rn_finishedAt a of None \<Rightarrow> False | Some x \<Rightarrow> y \<le> x))"

definition previous_revision :: "ingest_db \<Rightarrow> string option" where
  "previous_revision db =
     (case sort_by later (filter (\<lambda>r. rn_status r = ''succeeded'') (map snd (ig_runs db))) of
        [] \<Rightarrow> None
      | r # _ \<Rightarrow> rn_sourceRevision r)"

definition refresh_counts :: "import_db \<Rightarrow> import_db" where
  "refresh_counts t = t\<lparr>im_categories := map (\<lambda>(i, c). (i, c\<lparr>tc_apiCount := length (filter (\<lambda>((a, k), _). k = i \<and>
     (case jm_get (im_apis t) a of Some r \<Rightarrow> ta_status r = ''active'' | None \<Rightarrow> False)) (im_links t))\<rparr>)) (im_categories t)\<rparr>"

record ingest_input =
  in_force :: bool
  in_dryRun :: bool
  in_sourceUrl :: string

text \<open>Writing the batch: categories, APIs, counts, and the status of the run.\<close>

definition write_batch ::
  "ingest_world \<Rightarrow> refusals \<Rightarrow> string \<Rightarrow> string \<Rightarrow> time \<Rightarrow> counters \<Rightarrow> failure list \<Rightarrow> normalized_api list \<Rightarrow> ingest_db \<Rightarrow>
   ingest_db \<times> (db_error + outcome)"
where
  "write_batch w refuse runId revision now c failures unique db =
     (case persistCategories (iw_digest w) refuse icon_for unique (ig_tables db) of
        (t1, Inl e) \<Rightarrow> fail_run refuse runId (de_message e) c now now (db\<lparr>ig_tables := t1\<rparr>)
      | (t1, Inr categoryIds) \<Rightarrow>
          (case persistApis (iw_digest w) (iw_spread w) refuse
                 \<lparr>pi_apis = unique, pi_categoryIds = categoryIds, pi_sourceId = source_id w, pi_revision = revision, pi_now = now\<rparr> t1 of
             Inl e \<Rightarrow> fail_run refuse runId (de_message e) c now now (db\<lparr>ig_tables := t1\<rparr>)
           | Inr (t2, persisted) \<Rightarrow>
               let c = c\<lparr>ct_created := pr_created persisted, ct_updated := pr_updated persisted,
                         ct_failed := ct_failed c + pr_failed persisted\<rparr>;
                   failures = failures @ take (50 - length failures) (pr_failures persisted)
               in (case refuse ''counts'' 0 of
                     Some e \<Rightarrow> fail_run refuse runId (de_message e) c now now (db\<lparr>ig_tables := t2\<rparr>)
                   | None \<Rightarrow>
                       let status = (if ct_fetched c < ct_failed c * 10 then ''partial'' else ''succeeded'')
                       in conclude refuse runId status c now now revision failures (db\<lparr>ig_tables := refresh_counts t2\<rparr>))))"

text \<open>After the source was fetched: an unchanged revision ends the run, unless forced.\<close>

definition import_text ::
  "ingest_world \<Rightarrow> refusals \<Rightarrow> string \<Rightarrow> time \<Rightarrow> ingest_input \<Rightarrow> string \<Rightarrow> ingest_db \<Rightarrow> ingest_db \<times> (db_error + outcome)"
where
  "import_text w refuse runId now input raw db =
     (let revision = take 16 (iw_hex w raw) in
      case refuse ''previous'' 0 of
        Some e \<Rightarrow> fail_run refuse runId (de_message e) no_counters now now db
      | None \<Rightarrow>
          if \<not> in_force input \<and> previous_revision db = Some revision
          then conclude refuse runId ''succeeded'' no_counters now now revision [] db
          else
            let (fetched, b) = read_source w raw;
                (m, skipped) = by_fingerprint (bt_apis b);
                c = no_counters\<lparr>ct_fetched := fetched, ct_failed := bt_failed b, ct_skipped := skipped\<rparr>
            in (case refuse ''slugs'' 0 of
                  Some e \<Rightarrow> fail_run refuse runId (de_message e) c now now db
                | None \<Rightarrow>
                    let unique = resolveSlugCollisions (map snd m) (reserved_slugs (ig_tables db));
                        c = c\<lparr>ct_clusters := (case findDuplicateClusters unique of Some cs \<Rightarrow> length cs | None \<Rightarrow> 0)\<rparr>
                    in if in_dryRun input then conclude refuse runId ''succeeded'' c now now revision (bt_failures b) db
                       else write_batch w refuse runId revision now c (bt_failures b) unique db))"

definition execute ::
  "ingest_world \<Rightarrow> refusals \<Rightarrow> nat list \<Rightarrow> time \<Rightarrow> ingest_input \<Rightarrow> ingest_db \<Rightarrow> ingest_db \<times> (db_error + outcome)"
where
  "execute w refuse randomBytes now input db =
     (let runId = newId ''ingestionRun'' randomBytes; sourceId = source_id w in
      case refuse ''source'' 0 of
        Some e \<Rightarrow> (db, Inl e)
      | None \<Rightarrow>
          let db1 = db\<lparr>ig_sources := (case jm_get (ig_sources db) sourceId of
                Some s \<Rightarrow> jm_set sourceId (s\<lparr>so_url := in_sourceUrl input\<rparr>) (ig_sources db)
              | None \<Rightarrow> jm_set sourceId \<lparr>so_name = adapter_name, so_url = in_sourceUrl input, so_license = ''MIT'',
                    so_transformVersion = ''1''\<rparr> (ig_sources db))\<rparr>
          in if jm_has (ig_runs db1) runId then (db1, Inl (unique_error ''ingestion_runs_pkey''))
             else case refuse ''run'' 0 of
               Some e \<Rightarrow> (db1, Inl e)
             | None \<Rightarrow>
                 let db2 = db1\<lparr>ig_runs := ig_runs db1 @ [(runId, \<lparr>rn_sourceId = sourceId, rn_sourceName = adapter_name, rn_sourceUrl = in_sourceUrl input,
                       rn_status = ''running'', rn_sourceRevision = None, rn_startedAt = now, rn_finishedAt = None, rn_durationMs = None,
                       rn_errorMessage = None, rn_failures = [], rn_counters = no_counters\<rparr>)]\<rparr>
                 in (case fetchSource w (in_sourceUrl input) of
                       Inl message \<Rightarrow> fail_run refuse runId message no_counters now now db2
                     | Inr raw \<Rightarrow> import_text w refuse runId now input raw db2))"

text \<open>The lock around the run; the run is the last part of the locked task, and ticks may come before it.\<close>

definition skipped_outcome :: outcome where
  "skipped_outcome = \<lparr>oc_runId = ''skipped'', oc_status = ''skipped'', oc_counters = no_counters\<rparr>"

definition runIngestion ::
  "('s \<Rightarrow> 's \<times> 'h option) \<Rightarrow> ('h \<Rightarrow> 's \<Rightarrow> 's) \<Rightarrow> ('h \<Rightarrow> 's \<Rightarrow> 's) \<Rightarrow> ('h \<Rightarrow> ('s \<Rightarrow> 's) list) \<Rightarrow>
   ('s \<Rightarrow> 's \<times> (db_error + outcome)) \<Rightarrow> 's \<Rightarrow> 's \<times> (db_error + outcome)"
where
  "runIngestion acquire renew release parts task s =
     (let (s', result) = withRenewingLock acquire renew release parts (\<lambda>h. task) s in
      (s', case result of Inl e \<Rightarrow> Inl e | Inr None \<Rightarrow> Inr skipped_outcome | Inr (Some outcome) \<Rightarrow> Inr outcome))"

end
