(* ===== verification/IngestionProps.thy ===== *)
theory IngestionProps
  imports Ingestion
begin

text \<open>
  What the ingestion guarantees: over any sequence of runs the tables and the record of the runs stay consistent,
  whatever the driver refuses; importing the same text again changes nothing but the time stamps; an unchanged
  source is not imported, not even after a dry run.
\<close>

section \<open>The batch\<close>

lemma by_fingerprint_fold:
  "jm_wf (fst (fold (\<lambda>api (m, skipped).
     if jm_has m (na_fingerprint api) then (m, skipped + 1) else (jm_set (na_fingerprint api) api m, skipped)) apis (m, n :: nat))) \<and>
   (\<forall>(f, a)\<in>set (fst (fold (\<lambda>api (m, skipped).
     if jm_has m (na_fingerprint api) then (m, skipped + 1) else (jm_set (na_fingerprint api) api m, skipped)) apis (m, n))). f = na_fingerprint a)"
  if "jm_wf m" "\<forall>(f, a)\<in>set m. f = na_fingerprint a"
  using that
proof (induction apis arbitrary: m n)
  case (Cons api apis)
  show ?case
  proof (cases "jm_has m (na_fingerprint api)")
    case True
    then show ?thesis using Cons by auto
  next
    case False
    have "jm_wf (jm_set (na_fingerprint api) api m)" using Cons.prems(1) by simp
    moreover have "\<forall>(f, a)\<in>set (jm_set (na_fingerprint api) api m). f = na_fingerprint a"
      using Cons.prems(2) False by (simp add: jm_set_new)
    ultimately show ?thesis using Cons.IH False by simp
  qed
qed simp

lemma by_fingerprint_keys: "map na_fingerprint (map snd (fst (by_fingerprint apis))) = map fst (fst (by_fingerprint apis))"
  "distinct (map na_fingerprint (map snd (fst (by_fingerprint apis))))"
proof -
  have b: "jm_wf (fst (by_fingerprint apis))" "\<forall>(f, a)\<in>set (fst (by_fingerprint apis)). f = na_fingerprint a"
    using by_fingerprint_fold [of "[]" apis 0] by (simp_all add: by_fingerprint_def)
  then show keys: "map na_fingerprint (map snd (fst (by_fingerprint apis))) = map fst (fst (by_fingerprint apis))" by auto
  show "distinct (map na_fingerprint (map snd (fst (by_fingerprint apis))))" unfolding keys using b(1) by (simp add: jm_wf_def)
qed

section \<open>Categories\<close>

definition category_derived :: "(string \<Rightarrow> nat list) \<Rightarrow> (string \<times> table_category) list \<Rightarrow> bool" where
  "category_derived sha rows \<longleftrightarrow> (\<forall>(i, c)\<in>set rows. i = deterministicId sha ''category'' (tc_slug c))"

lemma category_rows_derived: "category_derived sha (fst (category_rows sha iconFor apis ids))"
  by (induction sha iconFor apis ids rule: category_rows.induct) (auto simp: category_derived_def Let_def split: prod.splits)

lemma write_all_ok:
  assumes "tables_ok sha db" and "\<forall>b\<in>set bs. category_derived sha b"
  shows "tables_ok sha (fst (write_all refuse k bs db)) \<and> im_apis (fst (write_all refuse k bs db)) = im_apis db"
  using assms
proof (induction bs arbitrary: db k)
  case (Cons b bs)
  show ?case
  proof (cases "case refuse ''category rows'' k of Some e \<Rightarrow> Inl e | None \<Rightarrow> write_categories b db")
    case (Inl e)
    then show ?thesis using Cons.prems by simp
  next
    case (Inr db')
    then have w: "write_categories b db = Inr db'" by (auto split: option.splits)
    have "\<forall>(i, c)\<in>set b. i = deterministicId sha ''category'' (tc_slug c)" using Cons.prems(2) by (simp add: category_derived_def)
    from write_categories_ok [OF Cons.prems(1) this w] have "tables_ok sha db'" "im_apis db' = im_apis db" by blast+
    then show ?thesis using Cons.IH [of db' "k + 1"] Cons.prems(2) Inr by simp
  qed
qed simp

lemma category_batches: "b \<in> set (chunk CHUNK_SIZE (fst (category_rows sha iconFor apis ids))) \<Longrightarrow> category_derived sha b"
  using chunk_parts [of b] category_rows_derived [of sha iconFor apis ids] unfolding category_derived_def by blast

lemma persistCategories_ok:
  assumes "tables_ok sha db"
  shows "tables_ok sha (fst (persistCategories sha refuse iconFor apis db))"
  using write_all_ok [OF assms, of "chunk CHUNK_SIZE (fst (category_rows sha iconFor apis []))" refuse 0] category_batches
  by (auto simp: persistCategories_def Let_def split: prod.splits)

lemma refresh_counts_ok:
  assumes "tables_ok sha t"
  shows "tables_ok sha (refresh_counts t)"
proof -
  have "map fst (im_categories (refresh_counts t)) = map fst (im_categories t)"
    "map (\<lambda>(i, c). tc_slug c) (im_categories (refresh_counts t)) = map (\<lambda>(i, c). tc_slug c) (im_categories t)"
    by (auto simp: refresh_counts_def)
  moreover have "jm_has (im_categories (refresh_counts t)) k = jm_has (im_categories t) k" for k
    using calculation(1) by (metis map_of_eq_None_iff set_map)
  moreover have "(\<forall>(i, c)\<in>set (im_categories (refresh_counts t)). i = deterministicId sha ''category'' (tc_slug c)) \<longleftrightarrow>
    (\<forall>(i, c)\<in>set (im_categories t). i = deterministicId sha ''category'' (tc_slug c))"
    by (auto simp: refresh_counts_def)
  ultimately have "categories_ok sha (im_categories (refresh_counts t)) = categories_ok sha (im_categories t)"
    by (simp add: categories_ok_def jm_wf_def)
  then show ?thesis using assms \<open>\<And>k. jm_has (im_categories (refresh_counts t)) k = _\<close>
    by (simp add: tables_ok_def) (simp add: refresh_counts_def)
qed

section \<open>Every run keeps the tables and the record of runs\<close>

definition run_ok :: "run_row \<Rightarrow> bool" where
  "run_ok r \<longleftrightarrow> (rn_status r = ''running'') = (rn_finishedAt r = None) \<and>
     (rn_status r = ''succeeded'' \<or> rn_status r = ''partial'' \<longrightarrow> rn_sourceRevision r \<noteq> None)"

definition ingest_ok :: "(string \<Rightarrow> nat list) \<Rightarrow> ingest_db \<Rightarrow> bool" where
  "ingest_ok sha db \<longleftrightarrow> tables_ok sha (ig_tables db) \<and> jm_wf (ig_sources db) \<and> jm_wf (ig_runs db) \<and> (\<forall>(i, r)\<in>set (ig_runs db). run_ok r)"

lemma put_run_ok:
  assumes "ingest_ok sha db" and "\<And>r. run_ok r \<Longrightarrow> run_ok (f r)"
  shows "ingest_ok sha (db\<lparr>ig_runs := put_at runId f (ig_runs db)\<rparr>)"
proof -
  have "run_ok r" if "(i, r) \<in> set (put_at runId f (ig_runs db))" for i r
    using that assms by (auto simp: put_at_def ingest_ok_def split: if_splits)
  then show ?thesis using assms(1) by (auto simp: ingest_ok_def jm_wf_def put_at_facts)
qed

lemma finish_run_ok:
  assumes "ingest_ok sha db" and "status \<noteq> ''running''" and "finish_run refuse runId status c startedAt now revision failures db = Inr db'"
  shows "ingest_ok sha db' \<and> ig_tables db' = ig_tables db"
  using put_run_ok [OF assms(1), of "\<lambda>r. r\<lparr>rn_status := status, rn_sourceRevision := Some revision, rn_finishedAt := Some now,
      rn_durationMs := Some (now - startedAt), rn_failures := failures, rn_counters := c\<rparr>" runId] assms(2,3)
  by (auto simp: finish_run_def put_at_def run_ok_def split: option.splits)

lemma fail_run_ok:
  assumes "ingest_ok sha db"
  shows "ingest_ok sha (fst (fail_run refuse runId message c startedAt now db))"
  using put_run_ok [OF assms, of "\<lambda>r. r\<lparr>rn_status := ''failed'', rn_errorMessage := Some (take 500 message), rn_finishedAt := Some now,
      rn_durationMs := Some (now - startedAt), rn_counters := c\<rparr>" runId] assms
  by (auto simp: fail_run_def put_at_def run_ok_def split: option.splits)

lemma conclude_ok:
  assumes "ingest_ok sha db" and "status \<noteq> ''running''"
  shows "ingest_ok sha (fst (conclude refuse runId status c startedAt now revision failures db))"
  using finish_run_ok [OF assms] fail_run_ok [OF assms(1)]
  by (auto simp: conclude_def split: sum.split)

lemma put_tables: "ingest_ok sha db \<Longrightarrow> tables_ok sha t \<Longrightarrow> ingest_ok sha (db\<lparr>ig_tables := t\<rparr>)"
  by (simp add: ingest_ok_def)

lemma write_batch_ok:
  assumes "ingest_ok (iw_digest w) db"
  shows "ingest_ok (iw_digest w) (fst (write_batch w refuse runId revision now c failures unique db))"
proof -
  let ?sha = "iw_digest w"
  obtain t1 r where t1: "persistCategories ?sha refuse icon_for unique (ig_tables db) = (t1, r)" by (cases "persistCategories ?sha refuse icon_for unique (ig_tables db)")
  have ok1: "tables_ok ?sha t1"
    using persistCategories_ok [of ?sha "ig_tables db" refuse icon_for unique] assms t1 by (simp add: ingest_ok_def)
  show ?thesis
  proof (cases r)
    case (Inl e)
    then show ?thesis using fail_run_ok [OF put_tables [OF assms ok1]] t1 by (simp add: write_batch_def)
  next
    case (Inr ids)
    let ?input = "\<lparr>pi_apis = unique, pi_categoryIds = ids, pi_sourceId = source_id w, pi_revision = revision, pi_now = now\<rparr>"
    show ?thesis
    proof (cases "persistApis ?sha (iw_spread w) refuse ?input t1")
      case (Inl e)
      then show ?thesis using fail_run_ok [OF put_tables [OF assms ok1]] t1 Inr by (simp add: write_batch_def)
    next
      case (Inr q)
      obtain t2 persisted where q: "q = (t2, persisted)" by (cases q)
      have ok2: "tables_ok ?sha t2" using persist_keeps [OF ok1 Inr [unfolded q]] .
      note ok3 = put_tables [OF assms ok2] put_tables [OF assms refresh_counts_ok [OF ok2]]
      show ?thesis using fail_run_ok [OF ok3(1)] conclude_ok [OF ok3(2)] t1 \<open>r = Inr ids\<close> Inr q
        by (simp add: write_batch_def Let_def split: option.split)
    qed
  qed
qed

lemma import_text_ok:
  assumes "ingest_ok (iw_digest w) db"
  shows "ingest_ok (iw_digest w) (fst (import_text w refuse runId now input raw db))"
  using fail_run_ok [OF assms] conclude_ok [OF assms] write_batch_ok [OF assms]
  by (simp add: import_text_def Let_def split_beta split: option.split)

lemma execute_ok:
  assumes "ingest_ok (iw_digest w) db"
  shows "ingest_ok (iw_digest w) (fst (execute w refuse randomBytes now input db))"
proof -
  define db1 where "db1 = db\<lparr>ig_sources := (case jm_get (ig_sources db) (source_id w) of
      Some s \<Rightarrow> jm_set (source_id w) (s\<lparr>so_url := in_sourceUrl input\<rparr>) (ig_sources db)
    | None \<Rightarrow> jm_set (source_id w) \<lparr>so_name = adapter_name, so_url = in_sourceUrl input, so_license = ''MIT'',
          so_transformVersion = ''1''\<rparr> (ig_sources db))\<rparr>"
  define db2 where "db2 = db1\<lparr>ig_runs := ig_runs db1 @ [(newId ''ingestionRun'' randomBytes,
      \<lparr>rn_sourceId = source_id w, rn_sourceName = adapter_name, rn_sourceUrl = in_sourceUrl input, rn_status = ''running'', rn_sourceRevision = None,
       rn_startedAt = now, rn_finishedAt = None, rn_durationMs = None, rn_errorMessage = None, rn_failures = [], rn_counters = no_counters\<rparr>)]\<rparr>"
  have ok1: "ingest_ok (iw_digest w) db1" using assms by (simp add: db1_def ingest_ok_def split: option.split)
  have "jm_get (ig_runs db1) (newId ''ingestionRun'' randomBytes) = None \<Longrightarrow> ingest_ok (iw_digest w) db2"
    using ok1 by (auto simp: db2_def ingest_ok_def jm_wf_def map_of_eq_None_iff run_ok_def)
  then show ?thesis using assms ok1 fail_run_ok import_text_ok
    by (auto simp: execute_def Let_def db1_def [symmetric] db2_def [symmetric] split: option.split sum.split)
qed

section \<open>Importing the same text again\<close>

lemma write_batch_success:
  assumes "write_batch w refuse runId revision now c failures unique db = (db1, Inr out)" and "oc_status out \<noteq> ''failed''"
  shows "\<exists>t1 ids t2 res. persistCategories (iw_digest w) refuse icon_for unique (ig_tables db) = (t1, Inr ids) \<and>
    persistApis (iw_digest w) (iw_spread w) refuse
      \<lparr>pi_apis = unique, pi_categoryIds = ids, pi_sourceId = source_id w, pi_revision = revision, pi_now = now\<rparr> t1 = Inr (t2, res) \<and>
    ig_tables db1 = refresh_counts t2 \<and> ct_failed (oc_counters out) = ct_failed c + pr_failed res \<and>
    ct_created (oc_counters out) = pr_created res \<and> ct_updated (oc_counters out) = pr_updated res"
proof -
  have fail: False if "fail_run refuse runId m c' now now d = (db1, Inr out)" for m c' d
    using that assms(2) by (auto simp: fail_run_def split: option.splits)
  obtain t1 r where t1: "persistCategories (iw_digest w) refuse icon_for unique (ig_tables db) = (t1, r)"
    by (cases "persistCategories (iw_digest w) refuse icon_for unique (ig_tables db)")
  obtain ids where r: "r = Inr ids"
    using assms(1) t1 fail by (cases r) (auto simp: write_batch_def)
  let ?input = "\<lparr>pi_apis = unique, pi_categoryIds = ids, pi_sourceId = source_id w, pi_revision = revision, pi_now = now\<rparr>"
  obtain t2 res where q: "persistApis (iw_digest w) (iw_spread w) refuse ?input t1 = Inr (t2, res)"
    using assms(1) t1 r fail by (cases "persistApis (iw_digest w) (iw_spread w) refuse ?input t1") (auto simp: write_batch_def)
  define c' where "c' = c\<lparr>ct_created := pr_created res, ct_updated := pr_updated res, ct_failed := ct_failed c + pr_failed res\<rparr>"
  define status where "status = (if ct_fetched c' < ct_failed c' * 10 then ''partial'' else ''succeeded'')"
  define failures' where "failures' = failures @ take (50 - length failures) (pr_failures res)"
  have counts: "refuse ''counts'' 0 = None" and
    done': "conclude refuse runId status c' now now revision failures' (db\<lparr>ig_tables := refresh_counts t2\<rparr>) = (db1, Inr out)"
    using assms(1) t1 r q fail
    by (auto simp: write_batch_def Let_def c'_def [symmetric] status_def [symmetric] failures'_def [symmetric] split: option.splits)
  have "ig_tables db1 = refresh_counts t2 \<and> oc_counters out = c'"
    using done' fail by (auto simp: conclude_def finish_run_def split: option.splits)
  then show ?thesis using t1 r q by (auto simp: c'_def)
qed

lemma category_rows_unslug:
  "map unslug xs = map unslug ys \<Longrightarrow> category_rows sha f xs ids = category_rows sha f ys ids"
proof (induction xs arbitrary: ys ids)
  case (Cons x xs)
  then obtain y ys' where ys: "ys = y # ys'" "unslug x = unslug y" "map unslug xs = map unslug ys'" by (cases ys) auto
  have "na_categorySlug (unslug x) = na_categorySlug (unslug y)" "na_categoryName (unslug x) = na_categoryName (unslug y)"
    by (simp_all add: ys(2))
  then have "na_categorySlug x = na_categorySlug y" "na_categoryName x = na_categoryName y" by (simp_all add: unslug_def)
  then show ?case using Cons.IH [OF ys(3)] by (simp add: ys(1))
qed simp

text \<open>A category row is settled when its id or its slug is in the table.\<close>

definition settled :: "(string, table_category) jsmap \<Rightarrow> string \<times> table_category \<Rightarrow> bool" where
  "settled t row \<longleftrightarrow> jm_has t (fst row) \<or> list_ex (\<lambda>(_, d). tc_slug d = tc_slug (snd row)) t"

abbreviation slug_taken :: "string \<times> table_category \<Rightarrow> (string, table_category) jsmap \<Rightarrow> bool" where
  "slug_taken \<equiv> \<lambda>(_, c) t. list_ex (\<lambda>(_, d). tc_slug d = tc_slug c) t"

lemma insert_settled:
  assumes "insert_new slug_taken ok rows t = Inr t'"
  shows "(\<forall>row\<in>set rows. settled t' row) \<and> (\<forall>row. settled t row \<longrightarrow> settled t' row)"
  using assms
proof (induction rows arbitrary: t)
  case (Cons row rows)
  show ?case
  proof (cases "jm_has t (fst row) \<or> slug_taken row t")
    case True
    then have "insert_new slug_taken ok rows t = Inr t'" using Cons.prems by simp
    moreover have "settled t row" using True by (auto simp: settled_def split_beta)
    ultimately show ?thesis using Cons.IH [of t] by (cases row) auto
  next
    case False
    then have rest: "insert_new slug_taken ok rows (t @ [row]) = Inr t'" using Cons.prems by (simp split: if_splits)
    have "settled (t @ [row]) row'" if "settled t row' \<or> row' = row" for row'
      using that by (auto simp: settled_def split_beta)
    then show ?thesis using Cons.IH [OF rest] by (cases row) auto
  qed
qed simp

lemma insert_settled_again: "\<forall>row\<in>set rows. settled t row \<Longrightarrow> insert_new slug_taken ok rows t = Inr t"
  by (induction rows) (auto simp: settled_def split_beta)

lemma write_all_settled:
  assumes "write_all refuse k bs db = (db', None)"
  shows "(\<forall>row\<in>set (concat bs). settled (im_categories db') row) \<and>
    (\<forall>row. settled (im_categories db) row \<longrightarrow> settled (im_categories db') row)"
  using assms
proof (induction bs arbitrary: db k)
  case (Cons b bs)
  then obtain d where d: "write_categories b db = Inr d" "write_all refuse (k + 1) bs d = (db', None)"
    by (auto split: sum.splits option.splits)
  have "(\<forall>row\<in>set b. settled (im_categories d) row) \<and> (\<forall>row. settled (im_categories db) row \<longrightarrow> settled (im_categories d) row)"
    using d(1) insert_settled [of "\<lambda>_. True" b "im_categories db"]
    by (cases "insert_new slug_taken (\<lambda>_. True) b (im_categories db)") (auto simp: write_categories_def)
  then show ?case using Cons.IH [OF d(2)] by auto
qed simp

lemma write_all_again:
  assumes "\<forall>row\<in>set (concat bs). settled (im_categories db) row" and "\<And>l j. refuse l j = None"
  shows "write_all refuse k bs db = (db, None)"
  using assms by (induction bs arbitrary: k) (auto simp: write_categories_def insert_settled_again)

lemma write_frames_categories:
  "write_apis now b1 db = Inr db' \<Longrightarrow> im_categories db' = im_categories db" "write_links b2 db = Inr db' \<Longrightarrow> im_categories db' = im_categories db"
  "write_auth b3 db = Inr db' \<Longrightarrow> im_categories db' = im_categories db" "write_endpoints b4 db = Inr db' \<Longrightarrow> im_categories db' = im_categories db"
  "write_health b5 db = Inr db' \<Longrightarrow> im_categories db' = im_categories db"
  unfolding write_apis_def write_links_def write_auth_def write_endpoints_def write_health_def map_sum_def
  by (auto split: sum.splits)

lemma stage_categories:
  "im_categories (fst (stage1 sha refuse input s)) = im_categories (fst s)"
  "im_categories (fst (stage2 sha refuse input s)) = im_categories (fst s)"
  "im_categories (fst (stage3 sha refuse input s)) = im_categories (fst s)"
  "im_categories (fst (stage4 sha refuse input s)) = im_categories (fst s)"
  "im_categories (fst (stage5 sha spread refuse input s)) = im_categories (fst s)"
  unfolding stage_defs by (rule writeChunks_frame, erule write_frames_categories)+

lemma persist_categories_kept:
  assumes "persistApis sha spread refuse input db = Inr (db', res)"
  shows "im_categories db' = im_categories db"
proof (cases "pi_apis input = []")
  case True
  then show ?thesis using assms by (simp add: persistApis_stages)
next
  case False
  then have "(db', res) = stage5 sha spread refuse input (stage4 sha refuse input (stage3 sha refuse input
      (stage2 sha refuse input (stage1 sha refuse input (db, counted db (pi_apis input))))))"
    using assms by (simp add: persistApis_stages split: option.splits)
  then show ?thesis by (metis fst_conv stage_categories)
qed

lemma refresh_settled: "settled (im_categories (refresh_counts t)) row = settled (im_categories t) row"
proof -
  have "map fst (im_categories (refresh_counts t)) = map fst (im_categories t)" by (auto simp: refresh_counts_def)
  then have "jm_has (im_categories (refresh_counts t)) k = jm_has (im_categories t) k" for k by (metis map_of_eq_None_iff set_map)
  moreover have "list_ex (\<lambda>(_, d). tc_slug d = s) (im_categories (refresh_counts t)) = list_ex (\<lambda>(_, d). tc_slug d = s) (im_categories t)" for s
  proof -
    have slugs: "list_ex (\<lambda>(_, d). tc_slug d = s) t \<longleftrightarrow> s \<in> set (map (\<lambda>(i, c). tc_slug c) t)" for t :: "(string, table_category) jsmap"
      by (auto simp: list_ex_iff)
    have "map (\<lambda>(i, c). tc_slug c) (im_categories (refresh_counts t)) = map (\<lambda>(i, c). tc_slug c) (im_categories t)"
      by (auto simp: refresh_counts_def)
    then show ?thesis unfolding slugs by simp
  qed
  ultimately show ?thesis by (simp add: settled_def)
qed

lemma refresh_complete: "complete sha input (refresh_counts t) a = complete sha input t a"
proof -
  have "im_apis (refresh_counts t) = im_apis t" "im_links (refresh_counts t) = im_links t" "im_auth (refresh_counts t) = im_auth t"
    "im_endpoints (refresh_counts t) = im_endpoints t" "im_health (refresh_counts t) = im_health t"
    by (simp_all add: refresh_counts_def)
  then show ?thesis by (simp only: complete_def)
qed

lemma refresh_restamp: "refresh_counts ((refresh_counts t)\<lparr>im_apis := restamp_at rv now ids (im_apis (refresh_counts t))\<rparr>) =
    (refresh_counts t)\<lparr>im_apis := restamp_at rv now ids (im_apis (refresh_counts t))\<rparr>"
proof -
  have active: "(case jm_get (restamp_at rv now ids (im_apis t)) a of Some r \<Rightarrow> ta_status r = ''active'' | None \<Rightarrow> False) =
      (case jm_get (im_apis t) a of Some r \<Rightarrow> ta_status r = ''active'' | None \<Rightarrow> False)" for a
    by (cases "jm_get (im_apis t) a") (simp_all add: restamp_at_get restamp_def)
  show ?thesis by (simp add: refresh_counts_def active comp_def split_beta)
qed

lemma list_all_map_eq:
  assumes "map P xs = map P ys" and "list_all P ys"
  shows "list_all P xs"
proof -
  have "list_all P zs \<longleftrightarrow> (\<forall>b\<in>set (map P zs). b)" for zs by (simp add: list_all_iff)
  then show ?thesis using assms by metis
qed

text \<open>The write of a batch again, on the tables it left.\<close>

lemma write_batch_again:
  assumes "tables_ok (iw_digest w) (ig_tables db)"
    and "distinct (map (\<lambda>a. deterministicId (iw_digest w) ''api'' (na_fingerprint a)) unique)"
    and "write_batch w refuse runId revision now c failures unique db = (db1, Inr out)"
    and "oc_status out \<noteq> ''failed''" and "ct_failed (oc_counters out) = ct_failed c"
    and "map unslug unique' = map unslug unique" and "\<And>l j. refuse' l j = None"
    and "ig_tables db1' = ig_tables db1"
  shows "ig_tables (fst (write_batch w refuse' runId' revision' now' c' failures' unique' db1')) = (ig_tables db1)\<lparr>im_apis :=
      restamp_at revision' now' (set (map (\<lambda>a. deterministicId (iw_digest w) ''api'' (na_fingerprint a)) unique)) (im_apis (ig_tables db1))\<rparr> \<and>
    (\<exists>again. snd (write_batch w refuse' runId' revision' now' c' failures' unique' db1') = Inr again \<and>
       ct_created (oc_counters again) = 0 \<and> ct_updated (oc_counters again) = length unique \<and> ct_failed (oc_counters again) = ct_failed c')"
proof -
  let ?sha = "iw_digest w" and ?T = "ig_tables db1"
  obtain t1 ids t2 res where
    t1: "persistCategories ?sha refuse icon_for unique (ig_tables db) = (t1, Inr ids)" and
    t2: "persistApis ?sha (iw_spread w) refuse
      \<lparr>pi_apis = unique, pi_categoryIds = ids, pi_sourceId = source_id w, pi_revision = revision, pi_now = now\<rparr> t1 = Inr (t2, res)" and
    T: "?T = refresh_counts t2" and res: "pr_failed res = 0"
    using write_batch_success [OF assms(3,4)] assms(5) by auto
  let ?input = "\<lparr>pi_apis = unique, pi_categoryIds = ids, pi_sourceId = source_id w, pi_revision = revision, pi_now = now\<rparr>"
  let ?input' = "\<lparr>pi_apis = unique', pi_categoryIds = ids, pi_sourceId = source_id w, pi_revision = revision', pi_now = now'\<rparr>"
  let ?ids = "set (map (\<lambda>a. deterministicId ?sha ''api'' (na_fingerprint a)) unique)"
  have key: "fst \<circ> api_row ?sha input = (\<lambda>a. deterministicId ?sha ''api'' (na_fingerprint a))" for input
    by (simp add: fun_eq_iff api_row_def)
  have ok1: "tables_ok ?sha t1" using persistCategories_ok [OF assms(1), of refuse icon_for unique] t1 by simp
  have full: "tables_ok ?sha t2" "list_all (complete ?sha ?input t2) unique"
    using persist_complete [OF ok1 t2 res] assms(2) by (simp_all add: key)
  have okT: "tables_ok ?sha ?T" unfolding T by (rule refresh_counts_ok) (rule full(1))
  obtain rows where rows: "category_rows ?sha icon_for unique [] = (rows, ids)"
    and w1: "write_all refuse 0 (chunk CHUNK_SIZE rows) (ig_tables db) = (t1, None)"
    using t1 by (auto simp: persistCategories_def Let_def split: prod.splits option.splits)
  have "\<forall>row\<in>set (concat (chunk CHUNK_SIZE rows)). settled (im_categories ?T) row"
    using write_all_settled [OF w1] persist_categories_kept [OF t2] unfolding T refresh_settled by simp
  then have w2: "write_all refuse' 0 (chunk CHUNK_SIZE rows) ?T = (?T, None)" by (rule write_all_again) (rule assms(7))
  have c2: "persistCategories ?sha refuse' icon_for unique' ?T = (?T, Inr ids)"
    using rows category_rows_unslug [OF assms(6), of ?sha icon_for "[]"] w2 by (simp add: persistCategories_def)
  have keys: "map (\<lambda>a. deterministicId ?sha ''api'' (na_fingerprint a)) unique' = map (\<lambda>a. deterministicId ?sha ''api'' (na_fingerprint a)) unique"
    by (rule unslug_all [OF assms(6)]) (simp add: unslug_rows)
  have "map (complete ?sha ?input' ?T) unique' = map (complete ?sha ?input' ?T) unique"
    by (rule unslug_all [OF assms(6)]) (simp add: unslug_rows)
  moreover have "complete ?sha ?input' ?T = complete ?sha ?input t2"
  proof (rule ext)
    fix a show "complete ?sha ?input' ?T a = complete ?sha ?input t2 a"
      using complete_input [of ?input' ?input ?sha t2 a] by (simp add: T refresh_complete)
  qed
  ultimately have "list_all (complete ?sha ?input' ?T) unique'"
    using full(2) by (intro list_all_map_eq [of _ unique' unique]) (simp_all only:)
  then have p2: "persistApis ?sha (iw_spread w) refuse' ?input' ?T =
    Inr (?T\<lparr>im_apis := restamp_at revision' now' ?ids (im_apis ?T)\<rparr>,
      \<lparr>pr_created = 0, pr_updated = length unique', pr_failed = 0, pr_failures = []\<rparr>)"
    using persist_again [of ?sha ?T ?input' refuse' "iw_spread w"] okT assms(2,7) keys by (simp add: key)
  have "length unique' = length unique" using arg_cong [OF assms(6), of length] by simp
  then show ?thesis
    unfolding write_batch_def Let_def assms(8) c2 using p2
    by (simp add: assms(7) conclude_def finish_run_def refresh_restamp [where t = t2, folded T])
qed

section \<open>The properties\<close>

record ingest_op =
  ip_world :: ingest_world
  ip_refuse :: refusals
  ip_random :: "nat list"
  ip_now :: time
  ip_input :: ingest_input

definition ingest_start :: ingest_db where
  "ingest_start = \<lparr>ig_sources = [], ig_runs = [], ig_tables =
     \<lparr>im_categories = [], im_apis = [], im_links = [], im_auth = [], im_endpoints = [], im_health = []\<rparr>\<rparr>"

definition ingest_step :: "(string \<Rightarrow> nat list) \<Rightarrow> ingest_op \<Rightarrow> ingest_db \<Rightarrow> ingest_db" where
  "ingest_step sha256 r db =
     fst (execute ((ip_world r)\<lparr>iw_digest := sha256\<rparr>) (ip_refuse r) (ip_random r) (ip_now r) (ip_input r) db)"

text \<open>C22: Over any sequence of runs, of any sources at any time and whatever the driver refuses, slugs and
  fingerprints stay unique, every id is the one derived from its fingerprint or slug, no link, credential, endpoint
  or health row refers to an API or category that is not there, and every run is running exactly while it has no
  end and names its revision when it ended well.\<close>

theorem ingestion_consistent: "ingest_ok sha256 (fold (ingest_step sha256) ops ingest_start)"
proof -
  have "ingest_ok sha256 (fold (ingest_step sha256) ops db)" if "ingest_ok sha256 db" for db
    using that
  proof (induction ops arbitrary: db)
    case (Cons r ops)
    have "ingest_ok sha256 (ingest_step sha256 r db)"
      using execute_ok [of "(ip_world r)\<lparr>iw_digest := sha256\<rparr>" db] Cons.prems by (simp add: ingest_step_def)
    then show ?case using Cons.IH by simp
  qed simp
  moreover have "ingest_ok sha256 ingest_start"
    by (simp add: ingest_start_def ingest_ok_def tables_ok_def apis_ok_def categories_ok_def)
  ultimately show ?thesis .
qed

text \<open>The records of a text, the first of each fingerprint.\<close>

definition batch_of :: "ingest_world \<Rightarrow> string \<Rightarrow> normalized_api list" where
  "batch_of w raw = map snd (fst (by_fingerprint (bt_apis (snd (read_source w raw)))))"

definition derived_ids :: "ingest_world \<Rightarrow> string \<Rightarrow> string list" where
  "derived_ids w raw = map (\<lambda>a. deterministicId (iw_digest w) ''api'' (na_fingerprint a)) (batch_of w raw)"

lemma resolve_unslug: "map unslug (resolveSlugCollisions apis reserved) = map unslug apis"
proof -
  have u: "unslug = (\<lambda>a. a\<lparr>na_slug := []\<rparr>)" by (simp add: fun_eq_iff unslug_def)
  show ?thesis unfolding resolveSlugCollisions_def u by (rule resolve_from_same)
qed

lemma import_text_writes:
  assumes "in_force input" and "\<not> in_dryRun input" and "refuse ''previous'' 0 = None" and "refuse ''slugs'' 0 = None"
  shows "\<exists>c. import_text w refuse runId now input raw db =
    write_batch w refuse runId (take 16 (iw_hex w raw)) now c (bt_failures (snd (read_source w raw)))
      (resolveSlugCollisions (batch_of w raw) (reserved_slugs (ig_tables db))) db \<and> ct_failed c = bt_failed (snd (read_source w raw))"
  using assms by (simp add: import_text_def batch_of_def Let_def split_beta) (rule exI, rule conjI, rule refl, simp)

text \<open>C21: Importing the same text again, after an import that lost nothing, creates nothing: it updates every
  record of the text, and the tables stay as they are but for the revision and the time stamps of those records,
  even though the slugs are resolved anew. The derived ids of the text do not collide.\<close>

theorem reimport_changes_nothing:
  assumes "tables_ok (iw_digest w) (ig_tables db)" and "distinct (derived_ids w raw)"
    and "in_force input" and "\<not> in_dryRun input" and "in_force input'" and "\<not> in_dryRun input'"
    and "import_text w refuse runId now input raw db = (db1, Inr out)" and "oc_status out \<noteq> ''failed''"
    and "ct_failed (oc_counters out) = bt_failed (snd (read_source w raw))" and "\<And>l j. refuse' l j = None"
  shows "ig_tables (fst (import_text w refuse' runId' now' input' raw db1)) = (ig_tables db1)\<lparr>im_apis :=
      restamp_at (take 16 (iw_hex w raw)) now' (set (derived_ids w raw)) (im_apis (ig_tables db1))\<rparr> \<and>
    (\<exists>again. snd (import_text w refuse' runId' now' input' raw db1) = Inr again \<and> ct_created (oc_counters again) = 0 \<and>
       ct_updated (oc_counters again) = length (batch_of w raw) \<and> ct_failed (oc_counters again) = ct_failed (oc_counters out))"
proof -
  have not_failed: False if "fail_run refuse runId m c now now db = (db1, Inr out)" for m c
    using that assms(8) by (auto simp: fail_run_def split: option.splits)
  have r: "refuse ''previous'' 0 = None" "refuse ''slugs'' 0 = None"
    using assms(3,7) not_failed by (auto simp: import_text_def Let_def split_beta split: option.splits)
  let ?u = "resolveSlugCollisions (batch_of w raw) (reserved_slugs (ig_tables db))"
  let ?u' = "resolveSlugCollisions (batch_of w raw) (reserved_slugs (ig_tables db1))"
  obtain c where c: "ct_failed c = bt_failed (snd (read_source w raw))" "write_batch w refuse runId (take 16 (iw_hex w raw)) now c
      (bt_failures (snd (read_source w raw))) ?u db = (db1, Inr out)"
    using import_text_writes [where refuse = refuse and db = db and w = w and raw = raw and runId = runId and now = now, OF assms(3,4) r] assms(7) by auto
  obtain c' where c': "ct_failed c' = bt_failed (snd (read_source w raw))"
    "import_text w refuse' runId' now' input' raw db1 = write_batch w refuse' runId' (take 16 (iw_hex w raw)) now' c'
      (bt_failures (snd (read_source w raw))) ?u' db1"
    using import_text_writes [where refuse = refuse' and db = db1 and w = w and raw = raw and runId = runId' and now = now', OF assms(5,6)] assms(10) by auto
  have same: "map unslug ?u' = map unslug ?u" by (simp add: resolve_unslug)
  have ids: "map (\<lambda>a. deterministicId (iw_digest w) ''api'' (na_fingerprint a)) ?u = derived_ids w raw"
    unfolding derived_ids_def by (rule unslug_all [OF resolve_unslug]) (simp add: unslug_rows)
  have len: "length ?u = length (batch_of w raw)" using arg_cong [OF resolve_unslug, of length] by simp
  show ?thesis
    using write_batch_again [where refuse' = refuse' and c' = c' and runId' = runId' and now' = now' and
        revision' = "take 16 (iw_hex w raw)" and failures' = "bt_failures (snd (read_source w raw))", OF assms(1) _ c(2) assms(8) _ same assms(10) refl] assms(2,9) c(1)
    unfolding ids len c'(2) c'(1) by simp
qed

definition demo_world :: ingest_world where
  "demo_world = \<lparr>iw_parse = (\<lambda>_. None), iw_lookup = (\<lambda>_. Inr []), iw_send = (\<lambda>_. Inl []),
     iw_urls = \<lparr>up_parse = (\<lambda>s. Some \<lparr>wu_protocol = ''https:'', wu_username = [], wu_password = [], wu_hostname = s, wu_port = [],
         wu_pathname = ''/'', wu_search = None, wu_params = [], wu_hash = []\<rparr>),
       up_serialize = wu_hostname, up_setHostname = (\<lambda>h u. u\<lparr>wu_hostname := h\<rparr>), up_setPathname = (\<lambda>_ u. u)\<rparr>,
     iw_hex = (\<lambda>s. s), iw_digest = (\<lambda>s. map of_char (take 1 (rev s))), iw_issues = (\<lambda>_. []), iw_spread = (\<lambda>_. 0)\<rparr>"

definition demo_text :: string where
  "demo_text = ''### A'' @ [CHR 0x0A] @ ''|--'' @ [CHR 0x0A] @ ''|[a](b)|c|d|e|f''"

definition demo_forced :: ingest_input where
  "demo_forced = \<lparr>in_force = True, in_dryRun = False, in_sourceUrl = []\<rparr>"

theorem reimport_changes_nothing_witness:
  "case snd (import_text demo_world (\<lambda>_ _. None) ''r'' 9 demo_forced demo_text
      (fst (import_text demo_world (\<lambda>_ _. None) ''q'' 5 demo_forced demo_text ingest_start))) of
     Inr again \<Rightarrow> ct_created (oc_counters again) = 0 \<and> ct_updated (oc_counters again) = 1 | Inl _ \<Rightarrow> False"
proof -
  define first where "first = import_text demo_world (\<lambda>_ _. None) ''q'' 5 demo_forced demo_text ingest_start"
  have ok: "tables_ok (iw_digest demo_world) (ig_tables ingest_start)"
    by (simp add: ingest_start_def tables_ok_def apis_ok_def categories_ok_def)
  have ids: "distinct (derived_ids demo_world demo_text)" "length (batch_of demo_world demo_text) = 1"
    "bt_failed (snd (read_source demo_world demo_text)) = 0" by code_simp+
  have run: "case snd first of Inr out \<Rightarrow> oc_status out = ''succeeded'' \<and> ct_failed (oc_counters out) = 0 | Inl _ \<Rightarrow> False"
    unfolding first_def by code_simp
  then obtain out where out: "snd first = Inr out" "oc_status out \<noteq> ''failed''" "ct_failed (oc_counters out) = 0"
    by (cases "snd first") auto
  have flags: "in_force demo_forced" "\<not> in_dryRun demo_forced" by (simp_all add: demo_forced_def)
  have "import_text demo_world (\<lambda>_ _. None) ''q'' 5 demo_forced demo_text ingest_start = (fst first, Inr out)"
    using out(1) unfolding first_def by (metis prod.collapse)
  from reimport_changes_nothing [where refuse' = "\<lambda>_ _. None" and runId' = "''r''" and now' = 9,
      OF ok ids(1) flags flags this out(2)] out(3) ids(2,3)
  show ?thesis unfolding first_def [symmetric] by (auto simp: split: sum.split)
qed

section \<open>An unchanged source\<close>

lemma unchanged_source_skipped:
  assumes "previous_revision db = Some (take 16 (iw_hex w raw))" and "\<not> in_force input"
  shows "ig_tables (fst (import_text w refuse runId now input raw db)) = ig_tables db"
  using assms
  by (auto simp: import_text_def Let_def conclude_def fail_run_def finish_run_def split: option.split)

text \<open>A dry run ends as a success with the revision of the text, so the first real run after it takes the
  source for unchanged and writes nothing.\<close>

lemma dry_run_blocks_import:
  assumes "ig_runs db = [(runId, r)]" and "in_dryRun input" and "in_force input" and "\<And>l j. refuse l j = None" and "\<not> in_force input'"
  shows "let db1 = fst (import_text w refuse runId now input raw db) in
    ig_tables db1 = ig_tables db \<and> ig_tables (fst (import_text w refuse' runId' now' input' raw db1)) = ig_tables db"
proof -
  have "ig_tables (fst (import_text w refuse runId now input raw db)) = ig_tables db \<and>
    previous_revision (fst (import_text w refuse runId now input raw db)) = Some (take 16 (iw_hex w raw))"
    using assms(1-4) by (simp add: import_text_def Let_def split_beta conclude_def finish_run_def previous_revision_def sort_by_def)
  then show ?thesis using unchanged_source_skipped [OF _ assms(5)] by (simp add: Let_def)
qed

end
