(* ===== verification/EventBus.thy ===== *)
theory EventBus
  imports CacheStores
begin

text \<open>
  The event bus (\<open>packages/runtime/src/events.ts\<close>) and what the catalogue subscribes to it
  (\<open>modules/catalog/service.ts\<close>). The arrays of subscriptions are objects: a walk over one sees
  what its own handlers add to or remove from it. A handler is a name; what it does before it first
  waits (calls on the bus, a throw) and how the promise it returns ends is a parameter. Several
  instances of the program with the server between them are a state that advances step by step, so
  that publications, deliveries and subscriptions interleave freely. Logging is not modelled.
\<close>

section \<open>Subscriptions\<close>

text \<open>The number stands for the identity of the subscription object.\<close>

record 'h subscription =
  sb_id :: nat
  sb_handler :: 'h
  sb_label :: string

record ('e, 'h) event_bus =
  eb_subscribers :: "('e, nat) jsmap"
  eb_arrays :: "'h subscription list list"
  eb_next :: nat
  eb_publish :: bool

definition bus_new :: "('e, 'h) event_bus" where
  "bus_new = \<lparr>eb_subscribers = [], eb_arrays = [], eb_next = 0, eb_publish = False\<rparr>"

definition listeners :: "'e \<Rightarrow> ('e, 'h) event_bus \<Rightarrow> 'h subscription list" where
  "listeners e b = (case jm_get (eb_subscribers b) e of None \<Rightarrow> [] | Some r \<Rightarrow> eb_arrays b ! r)"

definition listenerCount :: "'e \<Rightarrow> ('e, 'h) event_bus \<Rightarrow> nat" where
  "listenerCount e b =
     (case jm_get (eb_subscribers b) e of None \<Rightarrow> 0 | Some r \<Rightarrow> length (eb_arrays b ! r))"

definition bus_on :: "'e \<Rightarrow> 'h \<Rightarrow> string \<Rightarrow> ('e, 'h) event_bus \<Rightarrow> ('e, 'h) event_bus \<times> nat" where
  "bus_on e h label b =
     (let subscription = \<lparr>sb_id = eb_next b, sb_handler = h, sb_label = label\<rparr>;
          (r, arrays) =
            (case jm_get (eb_subscribers b) e of
               Some r \<Rightarrow> (r, eb_arrays b)
             | None \<Rightarrow> (length (eb_arrays b), eb_arrays b @ [[]]))
      in (b\<lparr>eb_arrays := arrays[r := arrays ! r @ [subscription]],
            eb_subscribers := jm_set e r (eb_subscribers b), eb_next := Suc (eb_next b)\<rparr>,
          eb_next b))"

text \<open>The function \<open>on\<close> returns: \<open>indexOf\<close> by identity, then \<open>splice\<close>.\<close>

primrec splice_id :: "nat \<Rightarrow> 'h subscription list \<Rightarrow> 'h subscription list" where
  "splice_id i [] = []"
| "splice_id i (s # ss) = (if sb_id s = i then ss else s # splice_id i ss)"

definition bus_unsubscribe :: "'e \<Rightarrow> nat \<Rightarrow> ('e, 'h) event_bus \<Rightarrow> ('e, 'h) event_bus" where
  "bus_unsubscribe e i b =
     (case jm_get (eb_subscribers b) e of
        None \<Rightarrow> b
      | Some r \<Rightarrow> b\<lparr>eb_arrays := (eb_arrays b)[r := splice_id i (eb_arrays b ! r)]\<rparr>)"

definition bus_clear :: "('e, 'h) event_bus \<Rightarrow> ('e, 'h) event_bus" where
  "bus_clear b = b\<lparr>eb_subscribers := []\<rparr>"

section \<open>Handlers and delivery in the process\<close>

datatype ('e, 'h) bus_action = Subscribe 'e 'h string | Unsubscribe 'e nat | ClearAll

fun bus_act :: "('e, 'h) bus_action \<Rightarrow> ('e, 'h) event_bus \<Rightarrow> ('e, 'h) event_bus" where
  "bus_act (Subscribe e h label) b = fst (bus_on e h label b)"
| "bus_act (Unsubscribe e i) b = bus_unsubscribe e i b"
| "bus_act ClearAll b = bus_clear b"

datatype handler_end = Threw | Rejected | Fulfilled

record ('e, 'h) reaction =
  rc_actions :: "('e, 'h) bus_action list"
  rc_end :: handler_end

text \<open>
  \<open>list.map\<close> over the array itself: the length is read once, an index that has gone is skipped.
  When the callback is not an async function, a throw leaves the walk; the last component says so.
\<close>

primrec map_handlers ::
  "('h \<Rightarrow> 'p \<Rightarrow> ('e, 'h) reaction) \<Rightarrow> bool \<Rightarrow> 'p \<Rightarrow> nat \<Rightarrow> nat \<Rightarrow> nat \<Rightarrow> ('e, 'h) event_bus
     \<Rightarrow> ('e, 'h) event_bus \<times> ('h subscription \<times> handler_end) list \<times> bool" where
  "map_handlers react guarded p r 0 i b = (b, [], False)"
| "map_handlers react guarded p r (Suc k) i b =
     (if length (eb_arrays b ! r) \<le> i then map_handlers react guarded p r k (Suc i) b
      else let s = eb_arrays b ! r ! i; x = react (sb_handler s) p;
               b1 = fold bus_act (rc_actions x) b
           in if rc_end x = Threw \<and> \<not> guarded then (b1, [(s, Threw)], True)
              else let (b2, log, escaped) = map_handlers react guarded p r k (Suc i) b1
                   in (b2, (s, rc_end x) # log, escaped))"

text \<open>\<open>emit\<close> up to its first await, with the number of failures it counts when all have settled.\<close>

definition emit_handlers ::
  "('h \<Rightarrow> 'p \<Rightarrow> ('e, 'h) reaction) \<Rightarrow> 'e \<Rightarrow> 'p \<Rightarrow> ('e, 'h) event_bus
     \<Rightarrow> ('e, 'h) event_bus \<times> ('h subscription \<times> handler_end) list \<times> nat" where
  "emit_handlers react e p b =
     (case jm_get (eb_subscribers b) e of
        None \<Rightarrow> (b, [], 0)
      | Some r \<Rightarrow>
          let (b', log, escaped) = map_handlers react True p r (length (eb_arrays b ! r)) 0 b
          in (b', log, length (filter (\<lambda>x. snd x \<noteq> Fulfilled) log)))"

text \<open>Its second half, which runs once every handler has settled.\<close>

definition emit_publish :: "('e \<times> 'p \<Rightarrow> 'm) \<Rightarrow> 'e \<Rightarrow> 'p \<Rightarrow> ('e, 'h) event_bus \<Rightarrow> 'm option" where
  "emit_publish stringify e p b = (if eb_publish b then Some (stringify (e, p)) else None)"

definition emitLocal ::
  "('h \<Rightarrow> 'p \<Rightarrow> ('e, 'h) reaction) \<Rightarrow> 'e \<Rightarrow> 'p \<Rightarrow> ('e, 'h) event_bus
     \<Rightarrow> ('e, 'h) event_bus \<times> ('h subscription \<times> handler_end) list \<times> bool" where
  "emitLocal react e p b =
     (case jm_get (eb_subscribers b) e of
        None \<Rightarrow> (b, [], False)
      | Some r \<Rightarrow> map_handlers react False p r (length (eb_arrays b ! r)) 0 b)"

text \<open>The message handler of the subscriber connection; a malformed message is only logged.\<close>

definition on_message ::
  "('m \<Rightarrow> ('e \<times> 'p) option) \<Rightarrow> ('h \<Rightarrow> 'p \<Rightarrow> ('e, 'h) reaction) \<Rightarrow> 'm \<Rightarrow> ('e, 'h) event_bus
     \<Rightarrow> ('e, 'h) event_bus \<times> ('e \<times> 'p \<times> 'h subscription) list \<times> bool" where
  "on_message parse react m b =
     (case parse m of
        None \<Rightarrow> (b, [], False)
      | Some (e, p) \<Rightarrow>
          let (b', log, escaped) = emitLocal react e p b
          in (b', map (\<lambda>x. (e, p, fst x)) log, escaped))"

datatype connect_answer = NoRedis | SubscribeFails | SubscribeOk

text \<open>The second component is the value returned, the third whether a connection now listens.\<close>

fun connectCrossInstance :: "connect_answer \<Rightarrow> ('e, 'h) event_bus \<Rightarrow> ('e, 'h) event_bus \<times> bool \<times> bool" where
  "connectCrossInstance NoRedis b = (b, False, False)"
| "connectCrossInstance SubscribeFails b = (b\<lparr>eb_publish := True\<rparr>, False, False)"
| "connectCrossInstance SubscribeOk b = (b\<lparr>eb_publish := True\<rparr>, True, True)"

section \<open>Several instances\<close>

text \<open>
  An instance has its bus, the number of its subscriber connections, the messages the server
  has for them, and its history: the events it emitted, the handlers called, and whether an unhandled
  rejection has occurred. Emissions whose handlers have not all settled wait with their instance.
\<close>

record ('e, 'p, 'h, 'm) bus_instance =
  in_bus :: "('e, 'h) event_bus"
  in_connections :: nat
  in_inbox :: "'m list"
  in_emitted :: "('e \<times> 'p) list"
  in_calls :: "('e \<times> 'p \<times> 'h subscription) list"
  in_unhandled :: bool

record ('e, 'p, 'h, 'm) network =
  nw_instances :: "('e, 'p, 'h, 'm) bus_instance list"
  nw_waiting :: "(nat \<times> 'e \<times> 'p) list"
  nw_published :: "'m list"

datatype ('e, 'p, 'h, 'm) bus_step =
    On nat 'e 'h string
  | Off nat 'e nat
  | Emit nat 'e 'p
  | Settled nat bool
  | Deliver nat nat
  | Foreign 'm
  | Connect nat connect_answer

definition drop_at :: "nat \<Rightarrow> 'a list \<Rightarrow> 'a list" where
  "drop_at k xs = take k xs @ drop (Suc k) xs"

definition at_instance ::
  "nat \<Rightarrow> (('e, 'p, 'h, 'm) bus_instance \<Rightarrow> ('e, 'p, 'h, 'm) bus_instance) \<Rightarrow> ('e, 'p, 'h, 'm) network
     \<Rightarrow> ('e, 'p, 'h, 'm) network" where
  "at_instance j f w =
     (if j < length (nw_instances w)
      then w\<lparr>nw_instances := (nw_instances w)[j := f (nw_instances w ! j)]\<rparr> else w)"

text \<open>The server hands a message to every connection that listens on the channel.\<close>

definition broadcast :: "'m \<Rightarrow> ('e, 'p, 'h, 'm) network \<Rightarrow> ('e, 'p, 'h, 'm) network" where
  "broadcast m w =
     w\<lparr>nw_instances := map (\<lambda>x. x\<lparr>in_inbox := in_inbox x @ replicate (in_connections x) m\<rparr>) (nw_instances w),
       nw_published := nw_published w @ [m]\<rparr>"

definition start_emit ::
  "('h \<Rightarrow> 'p \<Rightarrow> ('e, 'h) reaction) \<Rightarrow> 'e \<Rightarrow> 'p \<Rightarrow> ('e, 'p, 'h, 'm) bus_instance \<Rightarrow> ('e, 'p, 'h, 'm) bus_instance" where
  "start_emit react e p x =
     (let (b, log, failures) = emit_handlers react e p (in_bus x)
      in x\<lparr>in_bus := b, in_emitted := in_emitted x @ [(e, p)],
           in_calls := in_calls x @ map (\<lambda>c. (e, p, fst c)) log\<rparr>)"

definition receive ::
  "('m \<Rightarrow> ('e \<times> 'p) option) \<Rightarrow> ('h \<Rightarrow> 'p \<Rightarrow> ('e, 'h) reaction) \<Rightarrow> nat
     \<Rightarrow> ('e, 'p, 'h, 'm) bus_instance \<Rightarrow> ('e, 'p, 'h, 'm) bus_instance" where
  "receive parse react k x =
     (if k < length (in_inbox x) then
        let (b, calls, escaped) = on_message parse react (in_inbox x ! k) (in_bus x)
        in x\<lparr>in_bus := b, in_inbox := drop_at k (in_inbox x), in_calls := in_calls x @ calls,
             in_unhandled := (in_unhandled x \<or> escaped)\<rparr>
      else x)"

definition connect_instance :: "connect_answer \<Rightarrow> ('e, 'p, 'h, 'm) bus_instance \<Rightarrow> ('e, 'p, 'h, 'm) bus_instance" where
  "connect_instance a x =
     (let (b, returned, listens) = connectCrossInstance a (in_bus x)
      in x\<lparr>in_bus := b, in_connections := in_connections x + (if listens then 1 else 0)\<rparr>)"

text \<open>The answer of the server to a publication: accepted, or refused, which is only logged.\<close>

definition settle ::
  "('e \<times> 'p \<Rightarrow> 'm) \<Rightarrow> nat \<Rightarrow> bool \<Rightarrow> ('e, 'p, 'h, 'm) network \<Rightarrow> ('e, 'p, 'h, 'm) network" where
  "settle stringify k accepted w =
     (if k < length (nw_waiting w) then
        let (i, e, p) = nw_waiting w ! k; w' = w\<lparr>nw_waiting := drop_at k (nw_waiting w)\<rparr>
        in case emit_publish stringify e p (in_bus (nw_instances w ! i)) of
             Some m \<Rightarrow> if accepted then broadcast m w' else w'
           | None \<Rightarrow> w'
      else w)"

fun bus_network_step ::
  "('e \<times> 'p \<Rightarrow> 'm) \<Rightarrow> ('m \<Rightarrow> ('e \<times> 'p) option) \<Rightarrow> ('h \<Rightarrow> 'p \<Rightarrow> ('e, 'h) reaction)
     \<Rightarrow> ('e, 'p, 'h, 'm) bus_step \<Rightarrow> ('e, 'p, 'h, 'm) network \<Rightarrow> ('e, 'p, 'h, 'm) network" where
  "bus_network_step stringify parse react (On j e h label) w =
     at_instance j (\<lambda>x. x\<lparr>in_bus := fst (bus_on e h label (in_bus x))\<rparr>) w"
| "bus_network_step stringify parse react (Off j e i) w =
     at_instance j (\<lambda>x. x\<lparr>in_bus := bus_unsubscribe e i (in_bus x)\<rparr>) w"
| "bus_network_step stringify parse react (Emit j e p) w =
     (if j < length (nw_instances w)
      then (at_instance j (start_emit react e p) w)\<lparr>nw_waiting := nw_waiting w @ [(j, e, p)]\<rparr> else w)"
| "bus_network_step stringify parse react (Settled k accepted) w = settle stringify k accepted w"
| "bus_network_step stringify parse react (Deliver j k) w = at_instance j (receive parse react k) w"
| "bus_network_step stringify parse react (Foreign m) w = broadcast m w"
| "bus_network_step stringify parse react (Connect j a) w = at_instance j (connect_instance a) w"

section \<open>What the catalogue subscribes to\<close>

text \<open>The events the catalogue or its callers name; the handlers are those of its service.\<close>

datatype event_name =
    ApiCreated | ApiUpdated | ApiDeleted | ApiStatusChanged | HealthChecked | HealthIncidentOpened
  | HealthIncidentResolved | IngestionCompleted | SearchReindexRequested | ReviewCreated | ReviewDeleted
  | UserRegistered | FavoriteAdded | FavoriteRemoved | PlaygroundExecuted

datatype cache_handler = InvalidateApi | InvalidateCatalog | InvalidateRatings

definition subscribeToEvents :: "(event_name, cache_handler) event_bus \<Rightarrow> (event_name, cache_handler) event_bus" where
  "subscribeToEvents b =
     fold (\<lambda>(e, h) b. fst (bus_on e h ''catalog-cache'' b))
       [(ApiUpdated, InvalidateApi), (ApiCreated, InvalidateApi), (ApiDeleted, InvalidateApi),
        (ApiStatusChanged, InvalidateApi), (IngestionCompleted, InvalidateCatalog),
        (ReviewCreated, InvalidateRatings)] b"

fun invalidated :: "cache_handler \<Rightarrow> string \<Rightarrow> string list" where
  "invalidated InvalidateApi slug = [''api:detail:'' @ slug, ''api:list:*'', ''search:*'', ''stats:platform'']"
| "invalidated InvalidateCatalog slug = [''api:*'', ''search:*'', ''categories:all'', ''stats:platform'']"
| "invalidated InvalidateRatings slug = [''api:detail:*'', ''api:list:*'']"

section \<open>The arrays of subscriptions\<close>

definition bus_ok :: "('e, 'h) event_bus \<Rightarrow> bool" where
  "bus_ok b \<longleftrightarrow>
     jm_wf (eb_subscribers b) \<and> distinct (map snd (eb_subscribers b)) \<and>
     (\<forall>r \<in> snd ` set (eb_subscribers b). r < length (eb_arrays b)) \<and>
     (\<forall>xs \<in> set (eb_arrays b). distinct (map sb_id xs) \<and> (\<forall>s \<in> set xs. sb_id s < eb_next b))"

lemma bus_new_ok: "bus_ok bus_new"
  by (simp add: bus_ok_def bus_new_def)

lemma ref_in_range: "bus_ok b \<Longrightarrow> jm_get (eb_subscribers b) e = Some r \<Longrightarrow> r < length (eb_arrays b)"
  by (force simp: bus_ok_def dest: map_of_SomeD)

lemma refs_differ:
  assumes "bus_ok b" "jm_get (eb_subscribers b) e = Some r" "jm_get (eb_subscribers b) e' = Some r"
  shows "e = e'"
proof -
  have "inj_on snd (set (eb_subscribers b))"
    using assms(1) by (simp add: bus_ok_def distinct_map)
  then show ?thesis
    using inj_onD [of snd "set (eb_subscribers b)" "(e, r)" "(e', r)"] assms(2,3) by (auto dest: map_of_SomeD)
qed

lemma array_ok:
  "bus_ok b \<Longrightarrow> r < length (eb_arrays b) \<Longrightarrow>
     distinct (map sb_id (eb_arrays b ! r)) \<and> (\<forall>s \<in> set (eb_arrays b ! r). sb_id s < eb_next b)"
  using nth_mem [of r "eb_arrays b"] unfolding bus_ok_def by blast

lemma listeners_ok:
  "bus_ok b \<Longrightarrow> distinct (map sb_id (listeners e b)) \<and> (\<forall>s \<in> set (listeners e b). sb_id s < eb_next b)"
  by (auto simp: listeners_def split: option.splits dest: ref_in_range array_ok)

lemma jm_set_present: "jm_get m k = Some v \<Longrightarrow> jm_set k v m = m"
  by (induction m) (auto split: if_splits)

lemma splice_id_filter: "distinct (map sb_id xs) \<Longrightarrow> splice_id i xs = filter (\<lambda>s. sb_id s \<noteq> i) xs"
proof (induction xs)
  case (Cons x xs)
  have "filter (\<lambda>s. sb_id s \<noteq> sb_id x) xs = xs"
    using Cons.prems by (fastforce simp: filter_id_conv image_iff)
  with Cons show ?case by auto
qed simp

text \<open>What \<open>on\<close> makes of the object, for an event without and with an array.\<close>

lemma bus_on_new:
  "jm_get (eb_subscribers b) e = None \<Longrightarrow> fst (bus_on e h label b) =
     b\<lparr>eb_arrays := eb_arrays b @ [[\<lparr>sb_id = eb_next b, sb_handler = h, sb_label = label\<rparr>]],
       eb_subscribers := eb_subscribers b @ [(e, length (eb_arrays b))], eb_next := Suc (eb_next b)\<rparr>"
  by (simp add: bus_on_def jm_set_new)

lemma bus_on_old:
  "jm_get (eb_subscribers b) e = Some r \<Longrightarrow> fst (bus_on e h label b) =
     b\<lparr>eb_arrays := (eb_arrays b)[r := eb_arrays b ! r @ [\<lparr>sb_id = eb_next b, sb_handler = h, sb_label = label\<rparr>]],
       eb_next := Suc (eb_next b)\<rparr>"
  by (cases b) (simp add: bus_on_def jm_set_present)

lemma arrays_kept:
  assumes "\<forall>xs \<in> set arrays. distinct (map sb_id xs) \<and> (\<forall>s \<in> set xs. sb_id s < n)"
    and "distinct (map sb_id ys)" "\<forall>s \<in> set ys. sb_id s < m" "n \<le> m"
  shows "\<forall>xs \<in> set (arrays[r := ys]). distinct (map sb_id xs) \<and> (\<forall>s \<in> set xs. sb_id s < m)"
proof
  fix xs assume "xs \<in> set (arrays[r := ys])"
  then consider "xs = ys" | "xs \<in> set arrays"
    using set_update_subset_insert [of arrays r ys] by blast
  then show "distinct (map sb_id xs) \<and> (\<forall>s \<in> set xs. sb_id s < m)"
    using assms by cases (auto intro: less_le_trans)
qed

lemma bus_on_ok: "bus_ok b \<Longrightarrow> bus_ok (fst (bus_on e h label b))"
proof (cases "jm_get (eb_subscribers b) e")
  case None
  assume ok: "bus_ok b"
  have "length (eb_arrays b) \<notin> snd ` set (eb_subscribers b)" "e \<notin> fst ` set (eb_subscribers b)"
    using ok None by (auto simp: bus_ok_def map_of_eq_None_iff)
  then show ?thesis
    using ok by (auto simp: bus_on_new [OF None] bus_ok_def jm_wf_def less_Suc_eq)
next
  case (Some r)
  assume ok: "bus_ok b"
  have r: "r < length (eb_arrays b)"
    by (rule ref_in_range [OF ok Some])
  have "\<forall>xs \<in> set ((eb_arrays b)[r := eb_arrays b ! r @ [\<lparr>sb_id = eb_next b, sb_handler = h, sb_label = label\<rparr>]]).
      distinct (map sb_id xs) \<and> (\<forall>s \<in> set xs. sb_id s < Suc (eb_next b))"
    using ok array_ok [OF ok r] by (intro arrays_kept [where n = "eb_next b"]) (auto simp: bus_ok_def)
  then show ?thesis
    using ok by (simp add: bus_on_old [OF Some] bus_ok_def)
qed

lemma bus_unsubscribe_ok: "bus_ok b \<Longrightarrow> bus_ok (bus_unsubscribe e i b)"
proof (cases "jm_get (eb_subscribers b) e")
  case (Some r)
  assume ok: "bus_ok b"
  have r: "r < length (eb_arrays b)"
    by (rule ref_in_range [OF ok Some])
  have "\<forall>xs \<in> set ((eb_arrays b)[r := splice_id i (eb_arrays b ! r)]).
      distinct (map sb_id xs) \<and> (\<forall>s \<in> set xs. sb_id s < eb_next b)"
    using ok array_ok [OF ok r] by (intro arrays_kept [where n = "eb_next b"]) (auto simp: bus_ok_def splice_id_filter distinct_map_filter)
  then show ?thesis
    using ok Some by (simp add: bus_unsubscribe_def bus_ok_def)
qed (simp add: bus_unsubscribe_def)

lemma bus_clear_ok: "bus_ok b \<Longrightarrow> bus_ok (bus_clear b)"
  by (simp add: bus_ok_def bus_clear_def)

lemma bus_act_ok: "bus_ok b \<Longrightarrow> bus_ok (bus_act a b)"
  by (cases a) (simp_all add: bus_on_ok bus_unsubscribe_ok bus_clear_ok)

lemma bus_acts_ok: "bus_ok b \<Longrightarrow> bus_ok (fold bus_act acts b)"
  by (induction acts arbitrary: b) (simp_all add: bus_act_ok)

lemma map_handlers_ok: "bus_ok b \<Longrightarrow> bus_ok (fst (map_handlers react guarded p r k i b))"
  by (induction k arbitrary: i b) (simp_all add: Let_def split_beta bus_acts_ok)

section \<open>Subscribing and unsubscribing\<close>

lemma listeners_on:
  assumes ok: "bus_ok b"
  shows "listeners e' (fst (bus_on e h label b)) =
    (if e' = e then listeners e b @ [\<lparr>sb_id = eb_next b, sb_handler = h, sb_label = label\<rparr>] else listeners e' b)"
proof (cases "jm_get (eb_subscribers b) e")
  case None
  have notin: "\<And>e'. e' \<noteq> e \<Longrightarrow> jm_get (eb_subscribers b @ [(e, length (eb_arrays b))]) e' = jm_get (eb_subscribers b) e'"
    by (simp add: map_add_def split: option.splits)
  have own: "jm_get (eb_subscribers b @ [(e, length (eb_arrays b))]) e = Some (length (eb_arrays b))"
    using None by (simp add: map_add_def)
  show ?thesis
    using ref_in_range [OF ok, of e'] None notin own
    by (cases "e' = e") (simp_all add: listeners_def bus_on_new [OF None] nth_append split: option.splits)
next
  case (Some r)
  have r: "r < length (eb_arrays b)"
    by (rule ref_in_range [OF ok Some])
  show ?thesis
  proof (cases "e' = e")
    case False
    then have "jm_get (eb_subscribers b) e' \<noteq> Some r"
      using refs_differ [OF ok Some, of e'] by auto
    with False show ?thesis
      by (cases "jm_get (eb_subscribers b) e'") (simp_all add: listeners_def bus_on_old [OF Some])
  qed (simp add: listeners_def bus_on_old [OF Some] Some r)
qed

lemma listeners_unsubscribe:
  assumes ok: "bus_ok b"
  shows "listeners e' (bus_unsubscribe e i b) =
    (if e' = e then filter (\<lambda>s. sb_id s \<noteq> i) (listeners e b) else listeners e' b)"
proof (cases "jm_get (eb_subscribers b) e")
  case (Some r)
  have r: "r < length (eb_arrays b)"
    by (rule ref_in_range [OF ok Some])
  show ?thesis
  proof (cases "e' = e")
    case False
    then have "jm_get (eb_subscribers b) e' \<noteq> Some r"
      using refs_differ [OF ok Some, of e'] by auto
    with False Some show ?thesis
      by (cases "jm_get (eb_subscribers b) e'") (simp_all add: listeners_def bus_unsubscribe_def)
  qed (use array_ok [OF ok r] in \<open>simp add: listeners_def bus_unsubscribe_def Some r splice_id_filter\<close>)
qed (auto simp: listeners_def bus_unsubscribe_def)

lemma listenerCount_listeners: "listenerCount e b = length (listeners e b)"
  by (simp add: listenerCount_def listeners_def split: option.splits)

lemma unsubscribe_undoes:
  assumes ok: "bus_ok b" and on: "bus_on e h label b = (b', i)"
  shows "listeners e' (bus_unsubscribe e i b') = listeners e' b"
proof -
  have b': "b' = fst (bus_on e h label b)" and i: "i = eb_next b"
    using on by (auto simp: bus_on_def Let_def split: option.splits)
  have "filter (\<lambda>s. sb_id s \<noteq> eb_next b) (listeners e b) = listeners e b"
    using listeners_ok [OF ok, of e] by (auto simp: filter_id_conv)
  then show ?thesis
    by (simp add: b' i listeners_unsubscribe [OF bus_on_ok [OF ok]] listeners_on [OF ok])
qed

section \<open>Delivery in the process\<close>

text \<open>Handlers that leave the subscriptions alone; the quiet ones do not throw at once either.\<close>

definition leaves_bus :: "('h \<Rightarrow> 'p \<Rightarrow> ('e, 'h) reaction) \<Rightarrow> bool" where
  "leaves_bus react \<longleftrightarrow> (\<forall>h p. rc_actions (react h p) = [])"

definition quiet :: "('h \<Rightarrow> 'p \<Rightarrow> ('e, 'h) reaction) \<Rightarrow> bool" where
  "quiet react \<longleftrightarrow> (\<forall>h p. rc_actions (react h p) = [] \<and> rc_end (react h p) \<noteq> Threw)"

lemma map_handlers_passive:
  assumes "leaves_bus react"
  shows "i + k = length (eb_arrays b ! r) \<Longrightarrow>
    map_handlers react True p r k i b =
      (b, map (\<lambda>s. (s, rc_end (react (sb_handler s) p))) (drop i (eb_arrays b ! r)), False)"
proof (induction k arbitrary: i)
  case (Suc k)
  then have i: "i < length (eb_arrays b ! r)" and k: "Suc i + k = length (eb_arrays b ! r)" by simp_all
  show ?case
    using Suc.IH [OF k] i assms by (simp add: leaves_bus_def Cons_nth_drop_Suc [symmetric] Let_def)
qed simp

text \<open>
  Every subscriber is called, in the order of subscription, whatever the others do, and the failures
  are counted.
\<close>

lemma emit_isolates:
  assumes "leaves_bus react"
  shows "emit_handlers react e p b =
    (b, map (\<lambda>s. (s, rc_end (react (sb_handler s) p))) (listeners e b),
     length (filter (\<lambda>s. rc_end (react (sb_handler s) p) \<noteq> Fulfilled) (listeners e b)))"
  using map_handlers_passive [OF assms, where i = 0]
  by (auto simp: emit_handlers_def listeners_def filter_map o_def split: option.splits)

text \<open>A message from the server does not: the first handler that throws ends the walk.\<close>

lemma map_handlers_until:
  assumes "leaves_bus react"
  shows "i + k = length (eb_arrays b ! r) \<Longrightarrow>
    (let xs = drop i (eb_arrays b ! r); calm = (\<lambda>s. rc_end (react (sb_handler s) p) \<noteq> Threw) in
     fst (map_handlers react False p r k i b) = b \<and>
     map fst (fst (snd (map_handlers react False p r k i b))) = takeWhile calm xs @ take 1 (dropWhile calm xs) \<and>
     snd (snd (map_handlers react False p r k i b)) = (\<not> list_all calm xs))"
proof (induction k arbitrary: i)
  case (Suc k)
  then have i: "i < length (eb_arrays b ! r)" and k: "Suc i + k = length (eb_arrays b ! r)" by simp_all
  show ?case
    using Suc.IH [OF k] i assms
    by (simp add: leaves_bus_def Cons_nth_drop_Suc [symmetric] Let_def split_beta)
qed simp

lemma emitLocal_until:
  assumes "leaves_bus react"
  shows "fst (emitLocal react e p b) = b \<and>
    map fst (fst (snd (emitLocal react e p b))) =
      takeWhile (\<lambda>s. rc_end (react (sb_handler s) p) \<noteq> Threw) (listeners e b) @
      take 1 (dropWhile (\<lambda>s. rc_end (react (sb_handler s) p) \<noteq> Threw) (listeners e b)) \<and>
    snd (snd (emitLocal react e p b)) =
      (\<not> list_all (\<lambda>s. rc_end (react (sb_handler s) p) \<noteq> Threw) (listeners e b))"
  using map_handlers_until [OF assms, where i = 0 and b = b and p = p]
  by (cases "jm_get (eb_subscribers b) e") (simp_all add: emitLocal_def listeners_def Let_def)

lemma emitLocal_quiet:
  assumes "quiet react"
  shows "fst (emitLocal react e p b) = b \<and> map fst (fst (snd (emitLocal react e p b))) = listeners e b \<and>
    \<not> snd (snd (emitLocal react e p b))"
proof -
  have "leaves_bus react" and calm: "\<And>h. rc_end (react h p) \<noteq> Threw"
    using assms by (simp_all add: quiet_def leaves_bus_def)
  with emitLocal_until [OF \<open>leaves_bus react\<close>, of e p b] calm show ?thesis
    by (simp add: list_all_iff takeWhile_eq_all_conv [THEN iffD2] dropWhile_eq_Nil_conv [THEN iffD2])
qed

section \<open>Delivery between instances\<close>

text \<open>The schedules of the theorem: emissions, settled handlers with an answer, deliveries.\<close>

fun is_traffic :: "('e, 'p, 'h, 'm) bus_step \<Rightarrow> bool" where
  "is_traffic (Emit j e p) = True"
| "is_traffic (Settled k accepted) = accepted"
| "is_traffic (Deliver j k) = True"
| "is_traffic _ = False"

text \<open>Instances with their subscriptions and connections made, and nothing sent yet.\<close>

definition network_ready :: "('e, 'p, 'h, 'm) network \<Rightarrow> bool" where
  "network_ready w \<longleftrightarrow> nw_waiting w = [] \<and> nw_published w = [] \<and>
     list_all (\<lambda>x. bus_ok (in_bus x) \<and> eb_publish (in_bus x) \<and> in_inbox x = [] \<and> in_emitted x = [] \<and> in_calls x = [])
       (nw_instances w)"

definition emitted_total :: "('e, 'p, 'h, 'm) network \<Rightarrow> 'e \<times> 'p \<Rightarrow> nat" where
  "emitted_total w ep = (\<Sum>x\<leftarrow>nw_instances w. count_list (in_emitted x) ep)"

definition waiting_count :: "('e, 'p, 'h, 'm) network \<Rightarrow> 'e \<times> 'p \<Rightarrow> nat" where
  "waiting_count w ep = count_list (map snd (nw_waiting w)) ep"

text \<open>What every instance keeps while traffic runs.\<close>

definition instance_ok ::
  "('e \<times> 'p \<Rightarrow> 'm) \<Rightarrow> 'm list \<Rightarrow> ('e, 'p, 'h, 'm) bus_instance \<Rightarrow> bool" where
  "instance_ok stringify published x \<longleftrightarrow>
     bus_ok (in_bus x) \<and> eb_publish (in_bus x) \<and> set (in_inbox x) \<subseteq> range stringify \<and>
     (\<forall>e p. \<forall>s \<in> set (listeners e (in_bus x)).
        count_list (in_calls x) (e, p, s) + count_list (in_inbox x) (stringify (e, p)) =
        count_list (in_emitted x) (e, p) + in_connections x * count_list published (stringify (e, p)))"

definition network_ok :: "('e \<times> 'p \<Rightarrow> 'm) \<Rightarrow> ('e, 'p, 'h, 'm) network \<Rightarrow> bool" where
  "network_ok stringify w \<longleftrightarrow>
     (\<forall>x \<in> set (nw_instances w). instance_ok stringify (nw_published w) x) \<and>
     (\<forall>(j, e, p) \<in> set (nw_waiting w). j < length (nw_instances w)) \<and>
     (\<forall>ep. count_list (nw_published w) (stringify ep) + waiting_count w ep = emitted_total w ep)"

lemma count_list_pairs:
  "distinct xs \<Longrightarrow> count_list (map (\<lambda>s. (e, p, s)) xs) (e', p', s) = (if e' = e \<and> p' = p \<and> s \<in> set xs then 1 else 0)"
  by (induction xs) auto

lemma count_list_replicate: "count_list (replicate n m) m' = (if m = m' then n else 0)"
  by (induction n) auto

lemma count_drop_at: "k < length xs \<Longrightarrow> count_list (drop_at k xs) y + (if xs ! k = y then 1 else 0) = count_list xs y"
proof -
  assume k: "k < length xs"
  have "xs = take k xs @ xs ! k # drop (Suc k) xs"
    using k by (rule id_take_nth_drop)
  then have "count_list xs y = count_list (take k xs @ xs ! k # drop (Suc k) xs) y" by simp
  then show ?thesis by (simp add: drop_at_def)
qed

lemma set_drop_at: "set (drop_at k xs) \<subseteq> set xs"
  by (auto simp: drop_at_def dest: in_set_takeD in_set_dropD)

lemma length_drop_at: "k < length xs \<Longrightarrow> length (drop_at k xs) = length xs - 1"
  by (simp add: drop_at_def min_def)

lemma map_drop_at: "map f (drop_at k xs) = drop_at k (map f xs)"
  by (simp add: drop_at_def take_map drop_map)

lemma distinct_listeners: "bus_ok b \<Longrightarrow> distinct (listeners e b)"
  using listeners_ok [of b e] by (simp add: distinct_map)

lemma quiet_leaves: "quiet react \<Longrightarrow> leaves_bus react"
  by (simp add: quiet_def leaves_bus_def)

text \<open>An emission and a delivery at one instance.\<close>

lemma start_emit_eq:
  "quiet react \<Longrightarrow> start_emit react e p x =
     x\<lparr>in_emitted := in_emitted x @ [(e, p)], in_calls := in_calls x @ map (\<lambda>s. (e, p, s)) (listeners e (in_bus x))\<rparr>"
  by (cases x) (simp add: start_emit_def emit_isolates [OF quiet_leaves] o_def)

lemma receive_eq:
  assumes "quiet react" and "k < length (in_inbox x)" and "parse (in_inbox x ! k) = Some (e, p)"
  shows "receive parse react k x =
    x\<lparr>in_inbox := drop_at k (in_inbox x), in_calls := in_calls x @ map (\<lambda>s. (e, p, s)) (listeners e (in_bus x))\<rparr>"
proof -
  obtain b log escaped where l: "emitLocal react e p (in_bus x) = (b, log, escaped)"
    by (metis prod_cases3)
  have "b = in_bus x" and logged: "map fst log = listeners e (in_bus x)" and "\<not> escaped"
    using emitLocal_quiet [OF assms(1), of e p "in_bus x"] by (simp_all add: l)
  then have "emitLocal react e p (in_bus x) = (in_bus x, log, False)"
    using l by simp
  moreover have "map (\<lambda>c. (e, p, fst c)) log = map (\<lambda>s. (e, p, s)) (listeners e (in_bus x))"
    by (simp add: logged [symmetric])
  ultimately show ?thesis
    using assms(2,3) by (cases x) (simp add: receive_def on_message_def)
qed

lemma start_emit_ok:
  assumes "quiet react" "instance_ok stringify published x"
  shows "instance_ok stringify published (start_emit react e p x)"
  using assms(2) distinct_listeners [of "in_bus x"]
  by (auto simp: start_emit_eq [OF assms(1)] instance_ok_def count_list_pairs)

lemma receive_ok:
  assumes "quiet react" "\<And>ep. parse (stringify ep) = Some ep" "instance_ok stringify published x"
  shows "instance_ok stringify published (receive parse react k x)"
proof (cases "k < length (in_inbox x)")
  case True
  then have "in_inbox x ! k \<in> range stringify"
    using assms(3) by (auto simp: instance_ok_def)
  then obtain e p where m: "in_inbox x ! k = stringify (e, p)" by auto
  have inj: "stringify ep = stringify ep' \<longleftrightarrow> ep = ep'" for ep ep'
    using assms(2) by (metis option.inject)
  have parsed: "parse (in_inbox x ! k) = Some (e, p)" by (simp add: m assms(2))
  have subs: "bus_ok (in_bus x)"
    using assms(3) by (simp add: instance_ok_def)
  have dropped: "count_list (drop_at k (in_inbox x)) (stringify ep) + (if (e, p) = ep then 1 else 0) =
      count_list (in_inbox x) (stringify ep)" for ep
    using count_drop_at [OF True, of "stringify ep"] by (simp add: m inj)
  have moved: "count_list (in_calls x @ map (\<lambda>s. (e, p, s)) (listeners e (in_bus x))) (e', p', s) +
      count_list (drop_at k (in_inbox x)) (stringify (e', p')) =
      count_list (in_calls x) (e', p', s) + count_list (in_inbox x) (stringify (e', p'))"
    if "s \<in> set (listeners e' (in_bus x))" for e' p' s
    using dropped [of "(e', p')"] distinct_listeners [OF subs, of e] that
    by (auto simp: count_list_pairs split: if_splits)
  have "set (drop_at k (in_inbox x)) \<subseteq> range stringify"
    using assms(3) set_drop_at [of k "in_inbox x"] by (auto simp: instance_ok_def)
  then show ?thesis
    using assms(3) moved
    by (simp add: receive_eq [where x = x and parse = parse and k = k and e = e and p = p, OF assms(1) True parsed]
        instance_ok_def del: count_list_append)
qed (use assms(3) in \<open>simp add: receive_def\<close>)

lemma broadcast_ok:
  assumes "instance_ok stringify published x"
  shows "instance_ok stringify (published @ [stringify ep])
    (x\<lparr>in_inbox := in_inbox x @ replicate (in_connections x) (stringify ep)\<rparr>)"
  using assms by (auto simp: instance_ok_def count_list_replicate)

text \<open>Each step of the traffic keeps the network.\<close>

lemma at_instance_instances:
  "nw_instances (at_instance j f w) =
     (if j < length (nw_instances w) then (nw_instances w)[j := f (nw_instances w ! j)] else nw_instances w)"
  and at_instance_rest [simp]: "nw_waiting (at_instance j f w) = nw_waiting w"
    "nw_published (at_instance j f w) = nw_published w"
    "length (nw_instances (at_instance j f w)) = length (nw_instances w)"
  by (simp_all add: at_instance_def)

lemma at_instance_all:
  assumes "\<forall>x \<in> set (nw_instances w). P x" "\<And>x. P x \<Longrightarrow> P (f x)"
  shows "\<forall>x \<in> set (nw_instances (at_instance j f w)). P x"
  using assms by (auto simp: at_instance_instances dest!: set_update_subset_insert [THEN subsetD])

lemma sum_list_map_update:
  fixes f :: "'a \<Rightarrow> nat"
  shows "k < length xs \<Longrightarrow> (\<Sum>x\<leftarrow>xs[k := y]. f x) + f (xs ! k) = (\<Sum>x\<leftarrow>xs. f x) + f y"
  by (induction xs arbitrary: k) (auto split: nat.splits)

lemma emitted_total_at:
  assumes "j < length (nw_instances w)"
  shows "emitted_total (at_instance j f w) ep + count_list (in_emitted (nw_instances w ! j)) ep =
    emitted_total w ep + count_list (in_emitted (f (nw_instances w ! j))) ep"
  using sum_list_map_update [OF assms, of "\<lambda>x. count_list (in_emitted x) ep" "f (nw_instances w ! j)"]
  by (simp add: emitted_total_def at_instance_instances assms)

lemma traffic_step_ok:
  assumes quiet: "quiet react" and law: "\<And>ep. parse (stringify ep) = Some ep"
    and ok: "network_ok stringify w" and traffic: "is_traffic st"
  shows "network_ok stringify (bus_network_step stringify parse react st w)"
proof (cases st)
  case (Emit j e p)
  show ?thesis
  proof (cases "j < length (nw_instances w)")
    case True
    let ?w = "at_instance j (start_emit react e p) w"
    have inst: "\<forall>x \<in> set (nw_instances ?w). instance_ok stringify (nw_published w) x"
      using ok start_emit_ok [OF quiet] by (intro at_instance_all) (auto simp: network_ok_def)
    have total: "emitted_total ?w ep = emitted_total w ep + (if ep = (e, p) then 1 else 0)" for ep
      using emitted_total_at [OF True, of "start_emit react e p" ep] by (auto simp: start_emit_eq [OF quiet])
    have total': "emitted_total (?w\<lparr>nw_waiting := ws\<rparr>) ep = emitted_total ?w ep" for ws ep
      by (simp add: emitted_total_def)
    show ?thesis
      using ok inst True unfolding network_ok_def
      by (auto simp: Emit total total' waiting_count_def)
  qed (use ok in \<open>simp add: Emit\<close>)
next
  case (Deliver j k)
  have received: "instance_ok stringify (nw_published w) (receive parse react k x)"
    if "instance_ok stringify (nw_published w) x" for x
    by (rule receive_ok [where parse = parse, OF quiet law that])
  have inst: "\<forall>x \<in> set (nw_instances (at_instance j (receive parse react k) w)). instance_ok stringify (nw_published w) x"
    using ok received by (intro at_instance_all) (auto simp: network_ok_def)
  have same: "in_emitted (receive parse react k x) = in_emitted x" for x
    by (simp add: receive_def split_beta Let_def)
  have "emitted_total (at_instance j (receive parse react k) w) ep = emitted_total w ep" for ep
    using emitted_total_at [of j w "receive parse react k" ep]
    by (cases "j < length (nw_instances w)") (simp_all add: same at_instance_def)
  with ok inst show ?thesis
    by (simp add: network_ok_def Deliver waiting_count_def)
next
  case (Settled k accepted)
  show ?thesis
  proof (cases "k < length (nw_waiting w)")
    case True
    obtain j e p where ws: "nw_waiting w ! k = (j, e, p)" by (metis prod_cases3)
    let ?m = "stringify (e, p)"
    have j: "j < length (nw_instances w)"
      using ok True nth_mem [OF True] by (auto simp: network_ok_def ws)
    then have publishes: "eb_publish (in_bus (nw_instances w ! j))"
      using ok by (simp add: network_ok_def instance_ok_def)
    have inj: "stringify ep = stringify ep' \<longleftrightarrow> ep = ep'" for ep ep'
      using law by (metis option.inject)
    have step: "bus_network_step stringify parse react st w = broadcast ?m (w\<lparr>nw_waiting := drop_at k (nw_waiting w)\<rparr>)"
      using True traffic publishes by (simp add: Settled settle_def ws emit_publish_def)
    have fewer: "count_list (map snd (drop_at k (nw_waiting w))) ep + (if (e, p) = ep then 1 else 0) =
        count_list (map snd (nw_waiting w)) ep" for ep
      using count_drop_at [of k "map snd (nw_waiting w)" ep] True by (simp add: map_drop_at ws)
    have total: "emitted_total (broadcast ?m (w\<lparr>nw_waiting := q\<rparr>)) ep = emitted_total w ep" for q ep
      by (simp add: emitted_total_def broadcast_def o_def)
    have kept: "count_list (nw_published w) (stringify ep) + count_list (map snd (nw_waiting w)) ep = emitted_total w ep" for ep
      using ok unfolding network_ok_def waiting_count_def by blast
    have "count_list (nw_published w @ [?m]) (stringify ep) + count_list (map snd (drop_at k (nw_waiting w))) ep =
        emitted_total w ep" for ep
      using kept [of ep] fewer [of ep] by (auto simp: inj split: if_splits)
    moreover have "\<forall>x \<in> set (nw_instances w). instance_ok stringify (nw_published w @ [?m])
        (x\<lparr>in_inbox := in_inbox x @ replicate (in_connections x) ?m\<rparr>)"
      using ok by (auto simp: network_ok_def intro!: broadcast_ok)
    moreover have "\<forall>(j, e, p) \<in> set (drop_at k (nw_waiting w)). j < length (nw_instances w)"
      using ok set_drop_at [of k "nw_waiting w"] by (auto simp: network_ok_def)
    ultimately show ?thesis
      by (simp add: step network_ok_def total waiting_count_def del: count_list_append) (simp add: broadcast_def)
  qed (use ok in \<open>simp add: Settled settle_def\<close>)
qed (use traffic in simp_all)

lemma traffic_ok:
  "quiet react \<Longrightarrow> (\<And>ep. parse (stringify ep) = Some ep) \<Longrightarrow> network_ok stringify w \<Longrightarrow> list_all is_traffic steps \<Longrightarrow>
     network_ok stringify (fold (bus_network_step stringify parse react) steps w)"
proof (induction steps arbitrary: w)
  case (Cons st steps)
  then show ?case by (simp add: traffic_step_ok [of react parse stringify])
qed simp

lemma ready_ok: "network_ready w \<Longrightarrow> network_ok stringify w"
proof -
  assume ready: "network_ready w"
  then have "(\<Sum>x\<leftarrow>nw_instances w. count_list (in_emitted x) ep) = 0" for ep
    by (auto simp: network_ready_def list_all_iff sum_list_eq_0_iff)
  with ready show ?thesis
    by (auto simp: network_ready_def network_ok_def instance_ok_def emitted_total_def waiting_count_def list_all_iff)
qed

text \<open>What traffic leaves alone, and the events a schedule emits at an instance.\<close>

fun emissions :: "nat \<Rightarrow> ('e, 'p, 'h, 'm) bus_step list \<Rightarrow> ('e \<times> 'p) list" where
  "emissions j [] = []"
| "emissions j (Emit i e p # steps) = (if i = j then (e, p) # emissions j steps else emissions j steps)"
| "emissions j (_ # steps) = emissions j steps"

definition kept_from :: "('e, 'p, 'h, 'm) network \<Rightarrow> ('e, 'p, 'h, 'm) bus_step list \<Rightarrow> ('e, 'p, 'h, 'm) network \<Rightarrow> bool" where
  "kept_from w steps w' \<longleftrightarrow> length (nw_instances w') = length (nw_instances w) \<and>
     (\<forall>j < length (nw_instances w).
        in_bus (nw_instances w' ! j) = in_bus (nw_instances w ! j) \<and>
        in_connections (nw_instances w' ! j) = in_connections (nw_instances w ! j) \<and>
        in_emitted (nw_instances w' ! j) = in_emitted (nw_instances w ! j) @ emissions j steps)"

lemma receive_keeps:
  assumes "quiet react"
  shows "in_bus (receive parse react k x) = in_bus x \<and> in_connections (receive parse react k x) = in_connections x \<and>
    in_emitted (receive parse react k x) = in_emitted x"
  using emitLocal_quiet [OF assms] by (auto simp: receive_def on_message_def split_beta Let_def split: option.split)

lemma settle_instances:
  "nw_instances (settle stringify k accepted w) = nw_instances w \<or>
   (\<exists>m. nw_instances (settle stringify k accepted w) =
     map (\<lambda>x. x\<lparr>in_inbox := in_inbox x @ replicate (in_connections x) m\<rparr>) (nw_instances w))"
  by (auto simp: settle_def broadcast_def Let_def split: prod.splits option.splits)

lemma kept_step:
  assumes "quiet react" "is_traffic st"
  shows "kept_from w [st] (bus_network_step stringify parse react st w)"
proof (cases st)
  case (Settled k accepted)
  show ?thesis
    using settle_instances [of stringify k accepted w] by (auto simp: kept_from_def Settled)
qed (use assms(2) in \<open>auto simp: kept_from_def at_instance_instances nth_list_update
      start_emit_eq [OF assms(1)] receive_keeps [OF assms(1)]\<close>)

lemma emissions_Cons: "emissions j (st # steps) = emissions j [st] @ emissions j steps"
  by (cases st) simp_all

lemma kept_run:
  assumes "quiet react"
  shows "list_all is_traffic steps \<Longrightarrow> kept_from w steps (fold (bus_network_step stringify parse react) steps w)"
proof (induction steps arbitrary: w)
  case (Cons st steps)
  have "kept_from w [st] (bus_network_step stringify parse react st w)"
    using Cons.prems by (intro kept_step [OF assms]) simp
  moreover have "kept_from (bus_network_step stringify parse react st w) steps
      (fold (bus_network_step stringify parse react) (st # steps) w)"
    using Cons by simp
  ultimately show ?case
    unfolding kept_from_def emissions_Cons [of _ st steps] by simp
qed (simp add: kept_from_def)

section \<open>Draining\<close>

text \<open>
  Every waiting emission settles, then each instance is handed what the server may hold for it. A
  delivery when nothing is held does nothing.
\<close>

definition inbox_length :: "nat \<Rightarrow> ('e, 'p, 'h, 'm) network \<Rightarrow> nat" where
  "inbox_length j w = length (in_inbox (nw_instances w ! j))"

definition drain :: "('e, 'p, 'h, 'm) network \<Rightarrow> ('e, 'p, 'h, 'm) bus_step list" where
  "drain w =
     replicate (length (nw_waiting w)) (Settled 0 True) @
     concat (map (\<lambda>j. replicate (inbox_length j w + in_connections (nw_instances w ! j) * length (nw_waiting w)) (Deliver j 0))
       [0..<length (nw_instances w)])"

lemma drain_traffic: "list_all is_traffic (drain w)"
  by (auto simp: drain_def list_all_iff)

lemma settles_drain:
  "let w' = fold (bus_network_step stringify parse react) (replicate n (Settled 0 True)) w in
     length (nw_waiting w') = length (nw_waiting w) - n \<and> length (nw_instances w') = length (nw_instances w) \<and>
     (\<forall>j < length (nw_instances w). inbox_length j w' \<le> inbox_length j w + in_connections (nw_instances w ! j) * n)"
proof (induction n arbitrary: w)
  case (Suc n)
  let ?w = "settle stringify 0 True w"
  have "length (nw_waiting ?w) = length (nw_waiting w) - 1"
    by (auto simp: settle_def broadcast_def Let_def length_drop_at split: prod.splits option.splits)
  moreover have "length (nw_instances ?w) = length (nw_instances w) \<and>
      (\<forall>j < length (nw_instances w). in_connections (nw_instances ?w ! j) = in_connections (nw_instances w ! j) \<and>
         inbox_length j ?w \<le> inbox_length j w + in_connections (nw_instances w ! j))"
    using settle_instances [of stringify 0 True w] by (auto simp: inbox_length_def)
  ultimately show ?case
    using Suc.IH [of ?w] by (fastforce simp: Let_def)
qed simp

lemma delivers_drain:
  "let w' = fold (bus_network_step stringify parse react) (replicate n (Deliver j 0)) w in
     nw_waiting w' = nw_waiting w \<and> length (nw_instances w') = length (nw_instances w) \<and>
     (\<forall>i < length (nw_instances w). inbox_length i w' = (if i = j then inbox_length i w - n else inbox_length i w))"
proof (induction n arbitrary: w)
  case (Suc n)
  let ?w = "at_instance j (receive parse react 0) w"
  have "length (in_inbox (receive parse react 0 x)) = length (in_inbox x) - 1" for x
    by (auto simp: receive_def split_beta Let_def length_drop_at)
  then have "\<forall>i < length (nw_instances w). inbox_length i ?w = (if i = j then inbox_length i w - 1 else inbox_length i w)"
    by (auto simp: at_instance_instances inbox_length_def nth_list_update)
  then show ?case
    using Suc.IH [of ?w] by (simp add: Let_def)
qed simp

lemma deliveries_drain:
  "let w' = fold (bus_network_step stringify parse react) (concat (map (\<lambda>j. replicate (f j) (Deliver j 0)) js)) w in
     nw_waiting w' = nw_waiting w \<and> length (nw_instances w') = length (nw_instances w) \<and>
     (\<forall>i < length (nw_instances w). inbox_length i w' \<le> inbox_length i w \<and>
        (i \<in> set js \<longrightarrow> inbox_length i w' \<le> inbox_length i w - f i))"
proof (induction js arbitrary: w)
  case (Cons j js)
  let ?w = "fold (bus_network_step stringify parse react) (replicate (f j) (Deliver j 0)) w"
  have first: "nw_waiting ?w = nw_waiting w" "length (nw_instances ?w) = length (nw_instances w)"
    "\<And>i. i < length (nw_instances w) \<Longrightarrow> inbox_length i ?w = (if i = j then inbox_length i w - f j else inbox_length i w)"
    using delivers_drain [of stringify parse react "f j" j w] by (simp_all add: Let_def)
  let ?w' = "fold (bus_network_step stringify parse react) (concat (map (\<lambda>j. replicate (f j) (Deliver j 0)) js)) ?w"
  have others: "nw_waiting ?w' = nw_waiting w" "length (nw_instances ?w') = length (nw_instances w)"
    "\<And>i. i < length (nw_instances w) \<Longrightarrow> inbox_length i ?w' \<le> inbox_length i ?w"
    "\<And>i. i < length (nw_instances w) \<Longrightarrow> i \<in> set js \<Longrightarrow> inbox_length i ?w' \<le> inbox_length i ?w - f i"
    using Cons.IH [of ?w] first(1,2) by (simp_all add: Let_def)
  have "inbox_length i ?w' \<le> inbox_length i w \<and> (i \<in> set (j # js) \<longrightarrow> inbox_length i ?w' \<le> inbox_length i w - f i)"
    if "i < length (nw_instances w)" for i
    using first(3) [OF that] others(3,4) [OF that] by (cases "i = j") (auto split: if_splits)
  then show ?case
    using others(1,2) by (simp add: Let_def)
qed simp

lemma drained:
  "let w' = fold (bus_network_step stringify parse react) (drain w) w in
     nw_waiting w' = [] \<and> (\<forall>j < length (nw_instances w). in_inbox (nw_instances w' ! j) = [])"
proof -
  let ?step = "bus_network_step stringify parse react"
  let ?f = "\<lambda>j. inbox_length j w + in_connections (nw_instances w ! j) * length (nw_waiting w)"
  let ?w = "fold ?step (replicate (length (nw_waiting w)) (Settled 0 True)) w"
  let ?w' = "fold ?step (concat (map (\<lambda>j. replicate (?f j) (Deliver j 0)) [0..<length (nw_instances w)])) ?w"
  have one: "nw_waiting ?w = []" "length (nw_instances ?w) = length (nw_instances w)"
    "\<And>j. j < length (nw_instances w) \<Longrightarrow> inbox_length j ?w \<le> ?f j"
    using settles_drain [of stringify parse react "length (nw_waiting w)" w] by (simp_all add: Let_def)
  have two: "nw_waiting ?w' = nw_waiting ?w"
    "\<And>j. j < length (nw_instances w) \<Longrightarrow> inbox_length j ?w' \<le> inbox_length j ?w - ?f j"
    using deliveries_drain [of stringify parse react ?f "[0..<length (nw_instances w)]" ?w] one(2)
    by (simp_all add: Let_def)
  have "inbox_length j ?w' = 0" if "j < length (nw_instances w)" for j
    using one(3) [OF that] two(2) [OF that] by simp
  then show ?thesis
    using one(1) two(1) by (simp add: drain_def Let_def inbox_length_def)
qed

section \<open>Main results\<close>

lemma emitted_by_schedule:
  assumes "network_ready w0" "kept_from w0 steps w"
  shows "emitted_total w ep = (\<Sum>i < length (nw_instances w0). count_list (emissions i steps) ep)"
proof -
  have "emitted_total w ep = (\<Sum>i < length (nw_instances w). count_list (in_emitted (nw_instances w ! i)) ep)"
    by (simp add: emitted_total_def sum_list_sum_nth atLeast0LessThan)
  also have "\<dots> = (\<Sum>i < length (nw_instances w0). count_list (emissions i steps) ep)"
    using assms by (intro sum.cong) (auto simp: kept_from_def network_ready_def list_all_iff)
  finally show ?thesis .
qed

lemma emissions_append: "emissions j (xs @ ys) = emissions j xs @ emissions j ys"
  by (induction j xs rule: emissions.induct) simp_all

lemma emissions_none:
  "list_all (\<lambda>st. case st of Emit i e p \<Rightarrow> False | _ \<Rightarrow> True) steps \<Longrightarrow> emissions j steps = []"
  by (induction j steps rule: emissions.induct) simp_all

lemma emissions_drain: "emissions j (drain w) = []"
  unfolding drain_def by (rule emissions_none) (auto simp: list_all_iff)

text \<open>
  C37: Several instances exchange events in any order: emissions, handlers that settle, messages
  delivered. Subscriptions and connections are those made before, the handlers leave them alone and do
  not throw before their first await, the server accepts what is published, and a message is read back as
  it was written. Then, at every moment, each handler subscribed to an event at an
  instance has been called once for every emission there, and for each connection of the instance once for every
  published emission of any instance, the instance's own included, except for what still waits; and once
  the waiting emissions settle and the messages held are delivered, nothing waits and the count is exact.
\<close>

theorem events_reach_every_subscriber:
  assumes quiet: "quiet react" and law: "\<And>ep. parse (stringify ep) = Some ep"
    and ready: "network_ready w0" and traffic: "list_all is_traffic steps"
    and j: "j < length (nw_instances w0)" and s: "s \<in> set (listeners e (in_bus (nw_instances w0 ! j)))"
  shows "let run = fold (bus_network_step stringify parse react); w = run steps w0; w' = run (drain w) w;
             due = count_list (emissions j steps) (e, p) + in_connections (nw_instances w0 ! j) *
               (\<Sum>i < length (nw_instances w0). count_list (emissions i steps) (e, p))
         in count_list (in_calls (nw_instances w ! j)) (e, p, s) +
              count_list (in_inbox (nw_instances w ! j)) (stringify (e, p)) +
              in_connections (nw_instances w0 ! j) * count_list (map snd (nw_waiting w)) (e, p) = due \<and>
            nw_waiting w' = [] \<and> in_inbox (nw_instances w' ! j) = [] \<and>
            count_list (in_calls (nw_instances w' ! j)) (e, p, s) = due"
proof -
  let ?run = "fold (bus_network_step stringify parse react)"
  let ?due = "\<lambda>steps. count_list (emissions j steps) (e, p) + in_connections (nw_instances w0 ! j) *
    (\<Sum>i < length (nw_instances w0). count_list (emissions i steps) (e, p))"
  have count: "count_list (in_calls (nw_instances (?run steps w0) ! j)) (e, p, s) +
      count_list (in_inbox (nw_instances (?run steps w0) ! j)) (stringify (e, p)) +
      in_connections (nw_instances w0 ! j) * count_list (map snd (nw_waiting (?run steps w0))) (e, p) = ?due steps"
    if "list_all is_traffic steps" for steps
  proof -
    let ?w = "?run steps w0"
    let ?x = "nw_instances ?w ! j"
    have ok: "network_ok stringify ?w"
      by (rule traffic_ok [OF quiet law ready_ok [OF ready] that])
    have kept: "kept_from w0 steps ?w"
      by (rule kept_run [OF quiet that])
    have fixed: "in_bus ?x = in_bus (nw_instances w0 ! j)" "in_connections ?x = in_connections (nw_instances w0 ! j)"
      "in_emitted ?x = emissions j steps"
      using kept j ready by (auto simp: kept_from_def network_ready_def list_all_iff)
    have "?x \<in> set (nw_instances ?w)"
      using kept j by (simp add: kept_from_def)
    then have "instance_ok stringify (nw_published ?w) ?x"
      using ok by (simp add: network_ok_def)
    then have here: "count_list (in_calls ?x) (e, p, s) + count_list (in_inbox ?x) (stringify (e, p)) =
        count_list (emissions j steps) (e, p) + in_connections (nw_instances w0 ! j) * count_list (nw_published ?w) (stringify (e, p))"
      using s unfolding instance_ok_def fixed by blast
    have sent: "count_list (nw_published ?w) (stringify (e, p)) + count_list (map snd (nw_waiting ?w)) (e, p) =
        (\<Sum>i < length (nw_instances w0). count_list (emissions i steps) (e, p))"
      using ok emitted_by_schedule [OF ready kept, of "(e, p)"] unfolding network_ok_def waiting_count_def by metis
    show ?thesis
      using here by (simp add: sent [symmetric] add_mult_distrib2)
  qed
  let ?w = "?run steps w0"
  let ?w' = "?run (drain ?w) ?w"
  have n: "length (nw_instances ?w) = length (nw_instances w0)"
    using kept_run [OF quiet traffic, of w0 stringify parse] by (simp add: kept_from_def)
  have empty: "nw_waiting ?w' = []" "in_inbox (nw_instances ?w' ! j) = []"
    using drained [of stringify parse react ?w] j by (simp_all add: Let_def n)
  have "list_all is_traffic (steps @ drain ?w)"
    using traffic drain_traffic by simp
  from count [OF this] have "count_list (in_calls (nw_instances ?w' ! j)) (e, p, s) = ?due steps"
    using empty by (simp add: emissions_append emissions_drain)
  then show ?thesis
    using count [OF traffic] empty by (simp add: Let_def)
qed

definition demo_instance :: "(nat, nat, nat, nat \<times> nat) bus_instance" where
  "demo_instance =
     \<lparr>in_bus = fst (connectCrossInstance SubscribeOk (fst (bus_on 7 0 ''demo'' bus_new))), in_connections = 1,
      in_inbox = [], in_emitted = [], in_calls = [], in_unhandled = False\<rparr>"

definition demo_bus_network :: "(nat, nat, nat, nat \<times> nat) network" where
  "demo_bus_network = \<lparr>nw_instances = [demo_instance, demo_instance], nw_waiting = [], nw_published = []\<rparr>"

definition no_reaction :: "nat \<Rightarrow> nat \<Rightarrow> (nat, nat) reaction" where
  "no_reaction h p = \<lparr>rc_actions = [], rc_end = Fulfilled\<rparr>"

lemma demo_listeners: "listeners 7 (in_bus demo_instance) = [\<lparr>sb_id = 0, sb_handler = 0, sb_label = ''demo''\<rparr>]"
  by (simp add: demo_instance_def bus_on_def bus_new_def listeners_def)

lemma demo_ready: "network_ready demo_bus_network"
  by (simp add: network_ready_def demo_bus_network_def demo_instance_def bus_on_def bus_new_def bus_ok_def jm_wf_def)

text \<open>The instance that emits hears its own event from the server as well: its handler runs twice.\<close>

theorem events_reach_every_subscriber_witness:
  "let run = fold (bus_network_step (\<lambda>m. m) Some no_reaction);
       w = run [Emit 0 7 1, Settled 0 True, Deliver 1 0] demo_bus_network; w' = run (drain w) w
   in count_list (in_calls (nw_instances w' ! 0)) (7, 1, \<lparr>sb_id = 0, sb_handler = 0, sb_label = ''demo''\<rparr>) = 2 \<and>
      count_list (in_calls (nw_instances w' ! 1)) (7, 1, \<lparr>sb_id = 0, sb_handler = 0, sb_label = ''demo''\<rparr>) = 1"
proof -
  have steps: "list_all is_traffic [Emit 0 7 1, Settled 0 True, Deliver 1 0 :: (nat, nat, nat, nat \<times> nat) bus_step]"
    by simp
  have q: "quiet no_reaction" by (simp add: quiet_def no_reaction_def)
  have at: "nw_instances demo_bus_network ! 0 = demo_instance" "nw_instances demo_bus_network ! 1 = demo_instance"
    "length (nw_instances demo_bus_network) = 2" "in_connections demo_instance = 1"
    by (simp_all add: demo_bus_network_def demo_instance_def)
  note reach = events_reach_every_subscriber [OF q _ demo_ready steps, where parse = Some and stringify = "\<lambda>m. m" and e = 7 and p = 1
      and s = "\<lparr>sb_id = 0, sb_handler = 0, sb_label = ''demo''\<rparr>"]
  show ?thesis
    using reach [of 0] reach [of 1]
    by (simp add: Let_def at demo_listeners lessThan_Suc numeral_2_eq_2 at(2) [unfolded One_nat_def] at(3) [unfolded numeral_2_eq_2])
qed

text \<open>
  A handler that throws before its first await stops a message from the server: the handlers after
  it are not called and the rejection is unhandled. An emission in the process reaches them all.
\<close>

lemma message_throw_stops_delivery:
  "let react = (\<lambda>h p. \<lparr>rc_actions = [], rc_end = (if h = (0::nat) then Threw else Fulfilled)\<rparr>);
       b = fst (bus_on () 1 ''second'' (fst (bus_on () 0 ''first'' bus_new)))
   in map (sb_handler \<circ> fst) (fst (snd (emitLocal react () () b))) = [0] \<and> snd (snd (emitLocal react () () b)) \<and>
      map (sb_handler \<circ> fst) (fst (snd (emit_handlers react () () b))) = [0, 1]"
  by (simp add: bus_on_def bus_new_def emitLocal_def emit_handlers_def numeral_2_eq_2 Let_def)

text \<open>A handler that ends its own subscription hides the next one from the emission under way.\<close>

lemma unsubscribing_skips_next:
  "let react = (\<lambda>h p. \<lparr>rc_actions = (if h = (0::nat) then [Unsubscribe () 0] else []), rc_end = Fulfilled\<rparr>);
       b = fst (bus_on () 1 ''second'' (fst (bus_on () 0 ''first'' bus_new)))
   in map (sb_handler \<circ> fst) (fst (snd (emit_handlers react () () b))) = [0]"
  by (simp add: bus_on_def bus_new_def emit_handlers_def bus_unsubscribe_def numeral_2_eq_2 Let_def)

section \<open>The catalogue's caches\<close>

lemma catalogue_listens:
  "listeners e (subscribeToEvents bus_new) \<noteq> [] \<longleftrightarrow>
     e \<in> {ApiCreated, ApiUpdated, ApiDeleted, ApiStatusChanged, IngestionCompleted, ReviewCreated}"
  by (cases e) (simp_all add: subscribeToEvents_def bus_on_def bus_new_def listeners_def)

text \<open>Nothing reacts to a deleted review, although the ratings the caches hold change with it.\<close>

lemma deleted_review_unnoticed:
  "fst (snd (emit_handlers react ReviewDeleted p (subscribeToEvents bus_new))) = []"
  by (simp add: subscribeToEvents_def bus_on_def bus_new_def emit_handlers_def)

text \<open>What each reaction to a change drops of the keys the catalogue caches.\<close>

lemma api_change_drops:
  "list_all (\<lambda>key. list_ex (\<lambda>pattern. glob_test pattern key) (invalidated InvalidateApi ''a-b''))
     [''api:detail:a-b'', ''api:list:k'', ''search:k'', ''stats:platform'']"
  by code_simp

end
