(* ===== verification/VectorMath.thy ===== *)
theory VectorMath
  imports Prelude
begin

text \<open>
  Vector arithmetic (\<open>packages/algorithms/src/vector.ts\<close>): dense and sparse similarity, overlap of
  sets, and the weights of terms in a corpus. Numbers are real, square roots and logarithms exact. A
  set is a list of distinct values and a map an association list, in insertion order. The results:
  similarities lie within their bounds, the sparse similarity is the dense one over the terms, and
  weights are positive.
\<close>

section \<open>Dense vectors\<close>

primrec sum_squares :: "real \<Rightarrow> real list \<Rightarrow> real" where
  "sum_squares total_so_far [] = total_so_far"
| "sum_squares total_so_far (x # v) = sum_squares (total_so_far + x * x) v"

definition magnitude :: "real list \<Rightarrow> real" where
  "magnitude v = sqrt (sum_squares 0 v)"

fun dot_loop :: "real \<Rightarrow> real list \<Rightarrow> real list \<Rightarrow> real" where
  "dot_loop acc (x # a) (y # b) = dot_loop (acc + x * y) a b"
| "dot_loop acc _ _ = acc"

definition dot_product :: "real list \<Rightarrow> real list \<Rightarrow> js_error + real" where
  "dot_product a b = (if length a \<noteq> length b then Inl RangeError else Inr (dot_loop 0 a b))"

definition cosineSimilarity :: "real list \<Rightarrow> real list \<Rightarrow> js_error + real" where
  "cosineSimilarity a b =
     (let denominator = magnitude a * magnitude b
      in if denominator = 0 then Inr 0
         else (case dot_product a b of Inl e \<Rightarrow> Inl e | Inr d \<Rightarrow> Inr (d / denominator)))"

definition cosineSimilarityNormalized :: "real list \<Rightarrow> real list \<Rightarrow> js_error + real" where
  "cosineSimilarityNormalized a b = dot_product a b"

definition normalizeVector :: "real list \<Rightarrow> real list" where
  "normalizeVector v = (let norm = magnitude v in if norm = 0 then v else map (\<lambda>x. x / norm) v)"

fun distance_loop :: "real \<Rightarrow> real list \<Rightarrow> real list \<Rightarrow> real" where
  "distance_loop acc (x # a) (y # b) = distance_loop (acc + (x - y) * (x - y)) a b"
| "distance_loop acc _ _ = acc"

definition euclideanDistance :: "real list \<Rightarrow> real list \<Rightarrow> js_error + real" where
  "euclideanDistance a b = (if length a \<noteq> length b then Inl RangeError else Inr (sqrt (distance_loop 0 a b)))"

section \<open>Sets\<close>

definition jaccardSimilarity :: "'a list \<Rightarrow> 'a list \<Rightarrow> real" where
  "jaccardSimilarity a b =
     (if length a = 0 \<and> length b = 0 then 1
      else let (smaller, larger) = (if length a \<le> length b then (a, b) else (b, a));
               intersection = fold (\<lambda>x n. if x \<in> set larger then n + 1 else n) smaller 0;
               union = length a + length b - intersection
           in if union = 0 then 0 else real intersection / real union)"

section \<open>Sparse vectors\<close>

type_synonym sparse_vector = "(string, real) jsmap"

definition sparseCosineSimilarity :: "sparse_vector \<Rightarrow> sparse_vector \<Rightarrow> real" where
  "sparseCosineSimilarity a b =
     (if length a = 0 \<or> length b = 0 then 0
      else let (smaller, larger) = (if length a \<le> length b then (a, b) else (b, a));
               product = fold (\<lambda>(t, w) acc. case jm_get larger t of Some other \<Rightarrow> acc + w * other | None \<Rightarrow> acc) smaller 0
           in if product = 0 then 0
              else let normA = sum_squares 0 (map snd a); normB = sum_squares 0 (map snd b);
                       denominator = sqrt normA * sqrt normB
                   in if denominator = 0 then 0 else product / denominator)"

definition bump :: "string \<Rightarrow> (string, nat) jsmap \<Rightarrow> (string, nat) jsmap" where
  "bump t m = jm_set t ((case jm_get m t of Some n \<Rightarrow> n | None \<Rightarrow> 0) + 1) m"

text \<open>\<open>new Set(terms)\<close> in insertion order.\<close>

definition term_set :: "string list \<Rightarrow> string list" where
  "term_set terms = fold js_set_add terms []"

definition documentFrequency :: "(string, string list) jsmap \<Rightarrow> (string, nat) jsmap" where
  "documentFrequency documents = fold (\<lambda>(i, terms) df. fold bump (term_set terms) df) documents []"

definition idf_of :: "nat \<Rightarrow> nat \<Rightarrow> real" where
  "idf_of total_documents df = ln (real total_documents / (1 + real df)) + 1"

definition inverse_frequencies :: "(string, string list) jsmap \<Rightarrow> (string, real) jsmap" where
  "inverse_frequencies documents =
     fold (\<lambda>(t, df) idf. jm_set t (idf_of (length documents) df) idf) (documentFrequency documents) []"

definition term_vector :: "(string, real) jsmap \<Rightarrow> string list \<Rightarrow> sparse_vector" where
  "term_vector idf terms =
     (let counts = fold bump terms []; len = (if length terms = 0 then 1 else length terms)
      in fold (\<lambda>(t, n) v. jm_set t (real n / real len * (case jm_get idf t of Some w \<Rightarrow> w | None \<Rightarrow> 1)) v) counts [])"

definition buildTfIdfVectors ::
  "(string, string list) jsmap \<Rightarrow> (string, sparse_vector) jsmap \<times> (string, real) jsmap" where
  "buildTfIdfVectors documents =
     (let idf = inverse_frequencies documents
      in (fold (\<lambda>(i, terms) vs. jm_set i (term_vector idf terms) vs) documents [], idf))"

section \<open>Sums\<close>

text \<open>The loops as sums over the coordinates.\<close>

lemma sum_squares_acc: "sum_squares acc v = acc + (\<Sum>x\<leftarrow>v. x * x)"
  by (induction v arbitrary: acc) simp_all

lemma dot_loop_acc: "dot_loop acc a b = acc + (\<Sum>(x, y)\<leftarrow>zip a b. x * y)"
  by (induction acc a b rule: dot_loop.induct) simp_all

lemma distance_loop_acc: "distance_loop acc a b = acc + (\<Sum>(x, y)\<leftarrow>zip a b. (x - y) * (x - y))"
  by (induction acc a b rule: distance_loop.induct) simp_all

lemma squares_nonneg: "0 \<le> (\<Sum>x\<leftarrow>(v :: real list). x * x)"
  by (intro sum_list_nonneg) auto

lemma magnitude_nonneg: "0 \<le> magnitude v"
  by (simp add: magnitude_def sum_squares_acc squares_nonneg)

lemma magnitude_square: "magnitude v * magnitude v = (\<Sum>x\<leftarrow>v. x * x)"
  by (simp add: magnitude_def sum_squares_acc squares_nonneg)

text \<open>The inequality of Cauchy and Schwarz, by induction on the coordinates.\<close>

lemma cauchy_step:
  fixes p a b x y :: real
  assumes "p * p \<le> a * b" "0 \<le> a" "0 \<le> b"
  shows "(x * y + p) * (x * y + p) \<le> (x * x + a) * (y * y + b)"
proof -
  have "\<bar>p\<bar> \<le> sqrt a * sqrt b"
    using real_sqrt_le_mono [OF assms(1)] by (simp add: real_sqrt_mult)
  then have "2 * \<bar>x * y\<bar> * \<bar>p\<bar> \<le> 2 * \<bar>x * y\<bar> * (sqrt a * sqrt b)"
    by (intro mult_left_mono) simp_all
  also have "\<dots> = 2 * (\<bar>x\<bar> * sqrt b) * (\<bar>y\<bar> * sqrt a)"
    by (simp add: abs_mult)
  also have "\<dots> \<le> (\<bar>x\<bar> * sqrt b) * (\<bar>x\<bar> * sqrt b) + (\<bar>y\<bar> * sqrt a) * (\<bar>y\<bar> * sqrt a)"
    using sum_squares_bound [of "\<bar>x\<bar> * sqrt b" "\<bar>y\<bar> * sqrt a"] by (simp add: power2_eq_square)
  also have "\<dots> = (\<bar>x\<bar> * \<bar>x\<bar>) * (sqrt b * sqrt b) + (\<bar>y\<bar> * \<bar>y\<bar>) * (sqrt a * sqrt a)"
    by (simp only: mult.assoc mult.left_commute mult.commute)
  also have "\<dots> = x * x * b + y * y * a"
    using assms(2,3) by simp
  finally have "2 * (x * y) * p \<le> x * x * b + y * y * a"
    using abs_ge_self [of "2 * (x * y) * p"] by (simp add: abs_mult)
  then show ?thesis
    using assms(1) by (simp add: algebra_simps)
qed

lemma cauchy_schwarz:
  fixes a b :: "real list"
  shows "length a = length b \<Longrightarrow>
    (\<Sum>(x, y)\<leftarrow>zip a b. x * y) * (\<Sum>(x, y)\<leftarrow>zip a b. x * y) \<le> (\<Sum>x\<leftarrow>a. x * x) * (\<Sum>y\<leftarrow>b. y * y)"
  by (induction a b rule: list_induct2) (simp_all add: cauchy_step squares_nonneg)

lemma dot_bound:
  assumes "length a = length b"
  shows "\<bar>dot_loop 0 a b\<bar> \<le> magnitude a * magnitude b"
proof (rule power2_le_imp_le)
  show "\<bar>dot_loop 0 a b\<bar>\<^sup>2 \<le> (magnitude a * magnitude b)\<^sup>2"
    using cauchy_schwarz [OF assms]
    by (simp add: dot_loop_acc power2_eq_square mult.assoc mult.left_commute [of "magnitude b"] magnitude_square)
       (simp add: mult.assoc [symmetric] magnitude_square)
qed (simp add: magnitude_nonneg)

lemma ratio_within:
  fixes x d :: real
  shows "\<bar>x\<bar> \<le> d \<Longrightarrow> -1 \<le> x / d \<and> x / d \<le> 1"
  by (cases "d = 0") (auto simp: field_simps abs_le_iff)

section \<open>Dense similarity\<close>

theorem cosine_bounds:
  "length a = length b \<Longrightarrow> \<exists>c. cosineSimilarity a b = Inr c \<and> -1 \<le> c \<and> c \<le> 1"
  using ratio_within [OF dot_bound] by (auto simp: cosineSimilarity_def dot_product_def Let_def)

lemma cosine_mismatch:
  "length a \<noteq> length b \<Longrightarrow> cosineSimilarity a b = (if magnitude a * magnitude b = 0 then Inr 0 else Inl RangeError)"
  by (simp add: cosineSimilarity_def dot_product_def)

lemma dot_same: "dot_loop 0 v v = magnitude v * magnitude v"
  unfolding magnitude_square dot_loop_acc by (induction v) simp_all

lemma dot_commute: "dot_loop acc a b = dot_loop acc b a"
  by (induction acc a b rule: dot_loop.induct) (simp_all add: mult.commute)

lemma cosine_symmetric: "cosineSimilarity a b = cosineSimilarity b a"
  using dot_commute [of 0 a b] by (auto simp: cosineSimilarity_def dot_product_def mult.commute Let_def)

lemma cosine_self: "magnitude v \<noteq> 0 \<Longrightarrow> cosineSimilarity v v = Inr 1"
  by (simp add: cosineSimilarity_def dot_product_def dot_same)

lemma squares_scaled: "sum_list (map ((\<lambda>x. x * x) \<circ> (\<lambda>x. x / n)) v) = (\<Sum>x\<leftarrow>v. x * x) / (n * (n :: real))"
  by (induction v) (simp_all add: add_divide_distrib)

lemma normalized_length [simp]: "length (normalizeVector v) = length v"
  by (simp add: normalizeVector_def Let_def)

text \<open>A normalised vector has length one, or is the zero vector unchanged.\<close>

lemma normalized_unit: "magnitude (normalizeVector v) = (if magnitude v = 0 then 0 else 1)"
proof (cases "magnitude v = 0")
  case False
  have "(\<Sum>x\<leftarrow>v. x * x) \<noteq> 0"
    using magnitude_square [of v] False by auto
  then have "magnitude (normalizeVector v) * magnitude (normalizeVector v) = 1"
    using False by (simp add: normalizeVector_def magnitude_square squares_scaled)
  then show ?thesis
    using False magnitude_nonneg [of "normalizeVector v"] by (simp add: square_eq_1_iff)
qed (simp add: normalizeVector_def)

lemma dot_scaled:
  "(\<Sum>(x, y)\<leftarrow>zip (map (\<lambda>x. x / m) a) (map (\<lambda>y. y / n) b). x * y) = (\<Sum>(x, y)\<leftarrow>zip a b. x * y) / (m * (n :: real))"
  by (induction a b rule: list_induct2') (simp_all add: add_divide_distrib)

text \<open>On normalised vectors the short form is the similarity of the original ones.\<close>

theorem normalized_cosine:
  assumes "length a = length b" "magnitude a \<noteq> 0" "magnitude b \<noteq> 0"
  shows "cosineSimilarityNormalized (normalizeVector a) (normalizeVector b) = cosineSimilarity a b"
  using assms by (simp add: cosineSimilarityNormalized_def cosineSimilarity_def dot_product_def normalizeVector_def
      dot_loop_acc dot_scaled)

lemma distance_self: "euclideanDistance v v = Inr 0"
proof -
  have "(\<Sum>(x, y)\<leftarrow>zip v v. (x - y) * (x - y)) = 0"
    by (induction v) simp_all
  then show ?thesis by (simp add: euclideanDistance_def distance_loop_acc)
qed

text \<open>The law of cosines ties the distance to the dot product.\<close>

lemma distance_by_dot:
  assumes "length a = length b"
  shows "\<exists>d. euclideanDistance a b = Inr d \<and> 0 \<le> d \<and>
    d * d = magnitude a * magnitude a + magnitude b * magnitude b - 2 * dot_loop 0 a b"
proof -
  have "(\<Sum>(x, y)\<leftarrow>zip a b. (x - y) * (x - y)) = (\<Sum>x\<leftarrow>a. x * x) + (\<Sum>y\<leftarrow>b. y * y) - 2 * (\<Sum>(x, y)\<leftarrow>zip a b. x * y)"
    using assms by (induction a b rule: list_induct2) (simp_all add: algebra_simps)
  moreover have "0 \<le> (\<Sum>(x, y)\<leftarrow>zip a b. (x - y) * (x - y))"
    by (intro sum_list_nonneg) auto
  ultimately show ?thesis
    using assms by (simp add: euclideanDistance_def distance_loop_acc dot_loop_acc magnitude_square)
qed

section \<open>Sets and sparse vectors\<close>

lemma fold_count: "fold (\<lambda>x n. if P x then n + 1 else n) xs k = k + length (filter P xs)"
  by (induction xs arbitrary: k) simp_all

lemma length_common:
  assumes "distinct a" "distinct b"
  shows "length (filter (\<lambda>x. x \<in> set b) a) = card (set a \<inter> set b)"
  using assms by (simp add: distinct_card [symmetric] Int_def)

theorem jaccard_exact:
  assumes "distinct a" "distinct b"
  shows "jaccardSimilarity a b =
    (if set a \<union> set b = {} then 1 else real (card (set a \<inter> set b)) / real (card (set a \<union> set b)))"
proof -
  have lengths: "length a = card (set a)" "length b = card (set b)"
    using assms by (simp_all add: distinct_card)
  have union: "card (set a) + card (set b) - card (set a \<inter> set b) = card (set a \<union> set b)"
    using card_Un_Int [of "set a" "set b"] by simp
  have "fold (\<lambda>x n. if x \<in> set b then n + 1 else n) a 0 = card (set a \<inter> set b)"
    "fold (\<lambda>x n. if x \<in> set a then n + 1 else n) b 0 = card (set a \<inter> set b)"
    using length_common [OF assms] length_common [OF assms(2,1)] by (simp_all add: fold_count Int_commute)
  moreover have "card (set a \<union> set b) = 0 \<longleftrightarrow> a = [] \<and> b = []"
    by (metis List.finite_set Un_empty card_0_eq set_empty2 set_append)
  ultimately show ?thesis
    using union by (auto simp: jaccardSimilarity_def Let_def lengths)
qed

lemma jaccard_bounds: "distinct a \<Longrightarrow> distinct b \<Longrightarrow> 0 \<le> jaccardSimilarity a b \<and> jaccardSimilarity a b \<le> 1"
  by (auto simp: jaccard_exact divide_le_eq_1 card_gt_0_iff intro!: card_mono)

definition weight_in :: "sparse_vector \<Rightarrow> string \<Rightarrow> real" where
  "weight_in v t = (case jm_get v t of Some w \<Rightarrow> w | None \<Rightarrow> 0)"

lemma sum_entries:
  fixes g :: "string \<Rightarrow> real \<Rightarrow> real"
  assumes "jm_wf v" "fst ` set v \<subseteq> set ts" "distinct ts" "\<And>t. g t 0 = 0"
  shows "(\<Sum>(t, w)\<leftarrow>v. g t w) = (\<Sum>t\<leftarrow>ts. g t (weight_in v t))"
proof -
  have "(\<Sum>(t, w)\<leftarrow>v. g t w) = (\<Sum>t\<leftarrow>map fst v. g t (weight_in v t))"
    using assms(1) by (auto simp: o_def weight_in_def jm_wf_def intro!: arg_cong [where f = sum_list])
  also have "\<dots> = (\<Sum>t \<in> fst ` set v. g t (weight_in v t))"
    using assms(1) sum_list_distinct_conv_sum_set [of "map fst v" "\<lambda>t. g t (weight_in v t)"] by (simp add: jm_wf_def)
  also have "\<dots> = (\<Sum>t \<in> set ts. g t (weight_in v t))"
  proof (rule sum.mono_neutral_left)
    show "\<forall>t \<in> set ts - fst ` set v. g t (weight_in v t) = 0"
      using assms(4) by (auto simp: weight_in_def dest: weak_map_of_SomeI split: option.splits)
         (metis image_eqI fst_conv map_of_SomeD)
  qed (use assms(2) in auto)
  also have "\<dots> = (\<Sum>t\<leftarrow>ts. g t (weight_in v t))"
    using assms(3) by (simp add: sum_list_distinct_conv_sum_set)
  finally show ?thesis .
qed

lemma fold_product:
  "fold (\<lambda>(t, w) acc. case jm_get larger t of Some other \<Rightarrow> acc + w * other | None \<Rightarrow> acc) v acc =
     acc + (\<Sum>(t, w)\<leftarrow>v. w * weight_in larger t)"
  by (induction v arbitrary: acc) (auto simp: weight_in_def split: option.splits)

text \<open>The sparse similarity is the dense one of the weights over any list of terms that has them all.\<close>

theorem sparse_cosine_dense:
  assumes "jm_wf a" "jm_wf b" "fst ` set a \<union> fst ` set b \<subseteq> set ts" "distinct ts"
  shows "cosineSimilarity (map (weight_in a) ts) (map (weight_in b) ts) = Inr (sparseCosineSimilarity a b)"
proof -
  have subs: "fst ` set a \<subseteq> set ts" "fst ` set b \<subseteq> set ts"
    using assms(3) by auto
  have norm: "sum_squares 0 (map snd v) = sum_squares 0 (map (weight_in v) ts)" if "jm_wf v" "fst ` set v \<subseteq> set ts" for v
    using sum_entries [OF that assms(4), of "\<lambda>t w. w * w"] by (simp add: sum_squares_acc o_def case_prod_unfold)
  have zip: "(\<Sum>(x, y)\<leftarrow>zip (map f xs) (map g xs). x * y) = (\<Sum>t\<leftarrow>xs. f t * g t :: real)" for f g and xs :: "string list"
    by (induction xs) simp_all
  have "dot_loop 0 (map (weight_in a) ts) (map (weight_in b) ts) = (\<Sum>(t, w)\<leftarrow>a. w * weight_in b t)"
    using sum_entries [OF assms(1) subs(1) assms(4), of "\<lambda>t w. w * weight_in b t"] by (simp add: dot_loop_acc zip)
  moreover have "dot_loop 0 (map (weight_in a) ts) (map (weight_in b) ts) = (\<Sum>(t, w)\<leftarrow>b. w * weight_in a t)"
    using sum_entries [OF assms(2) subs(2) assms(4), of "\<lambda>t w. w * weight_in a t"] by (simp add: dot_loop_acc zip mult.commute)
  moreover have "weight_in [] = (\<lambda>t. 0)"
    by (simp add: weight_in_def fun_eq_iff)
  ultimately show ?thesis
    by (auto simp: cosineSimilarity_def dot_product_def sparseCosineSimilarity_def magnitude_def fold_product Let_def
        norm [OF assms(1) subs(1)] norm [OF assms(2) subs(2)])
qed

section \<open>Weights of terms\<close>

lemma get_fold_bump:
  "jm_get (fold bump ts m) t =
     (if t \<in> set ts then Some ((case jm_get m t of Some n \<Rightarrow> n | None \<Rightarrow> 0) + count_list ts t) else jm_get m t)"
  by (induction ts arbitrary: m) (auto simp: bump_def jm_get_set count_notin split: option.splits)

lemma term_set_facts: "set (term_set ts) = set ts \<and> distinct (term_set ts)"
proof -
  have "set (fold js_set_add ts s) = set s \<union> set ts" "distinct s \<Longrightarrow> distinct (fold js_set_add ts s)" for s
    by (induction ts arbitrary: s) auto
  then show ?thesis by (simp add: term_set_def)
qed

lemma count_distinct: "distinct xs \<Longrightarrow> count_list xs x = (if x \<in> set xs then 1 else 0)"
  by (induction xs) auto

lemma bump_wf: "jm_wf m \<Longrightarrow> jm_wf (fold bump ts m)"
  by (induction ts arbitrary: m) (simp_all add: bump_def)

text \<open>The document frequency of a term is the number of documents that contain it.\<close>

lemma frequency_exact:
  "jm_get (documentFrequency documents) t =
     (let n = length (filter (\<lambda>d. t \<in> set (snd d)) documents) in if n = 0 then None else Some n)"
proof -
  let ?add = "\<lambda>(i, terms). fold bump (term_set terms)"
  have "jm_get (fold ?add documents df) t =
      (let n = length (filter (\<lambda>d. t \<in> set (snd d)) documents)
       in if n = 0 then jm_get df t else Some ((case jm_get df t of Some k \<Rightarrow> k | None \<Rightarrow> 0) + n))" for df
  proof (induction documents arbitrary: df)
    case (Cons d documents)
    have "jm_get (?add d df) t =
        (if t \<in> set (snd d) then Some ((case jm_get df t of Some k \<Rightarrow> k | None \<Rightarrow> 0) + 1) else jm_get df t)"
      using term_set_facts [of "snd d"] by (simp add: split_beta get_fold_bump count_distinct)
    with Cons.IH [of "?add d df"] show ?case
      by (simp add: Let_def)
  qed simp
  from this [of "[]"] show ?thesis
    by (simp add: documentFrequency_def case_prod_unfold Let_def)
qed

lemma frequency_wf: "jm_wf (documentFrequency documents)"
proof -
  have "jm_wf df \<Longrightarrow> jm_wf (fold (\<lambda>(i, terms). fold bump (term_set terms)) documents df)" for df
    by (induction documents arbitrary: df) (simp_all add: split_beta bump_wf)
  then show ?thesis by (simp add: documentFrequency_def case_prod_unfold)
qed

lemma get_fold_set:
  "jm_wf xs \<Longrightarrow> jm_get (fold (\<lambda>(k, v) m. jm_set k (f k v) m) xs m) t =
     (case jm_get xs t of Some v \<Rightarrow> Some (f t v) | None \<Rightarrow> jm_get m t)"
proof (induction xs arbitrary: m)
  case (Cons x xs)
  have wf: "jm_wf xs" and new: "jm_get xs (fst x) = None"
    using Cons.prems by (simp_all add: jm_wf_def map_of_eq_None_iff)
  show ?case
    using Cons.IH [OF wf] new by (cases x) (auto simp: jm_get_set split: option.splits)
qed simp

lemma idf_positive: "0 < df \<Longrightarrow> df \<le> n \<Longrightarrow> 0 < idf_of n df"
proof -
  assume df: "0 < df" "df \<le> n"
  have "ln (1 / 2) \<le> ln (real n / (1 + real df))"
    using df by (subst ln_le_cancel_iff) (simp_all add: field_simps)
  moreover have "ln (1 / 2 :: real) = - ln 2"
    by (simp add: ln_div)
  ultimately show ?thesis
    using ln_2_less_1 by (simp add: idf_of_def)
qed

text \<open>
  The vectors of a corpus: each document has its own, which weighs each of its terms, and no others, by
  the share of the term in the document and by the number of documents that have it; weights are positive.
\<close>

theorem tfidf_weights:
  assumes "jm_wf documents" "jm_get documents i = Some terms"
  shows "\<exists>v. jm_get (fst (buildTfIdfVectors documents)) i = Some v \<and>
    (\<forall>t. jm_get v t =
       (if t \<in> set terms
        then Some (real (count_list terms t) / real (length terms) *
          idf_of (length documents) (length (filter (\<lambda>d. t \<in> set (snd d)) documents)))
        else None)) \<and>
    list_all (\<lambda>(t, w). 0 < w) v"
proof -
  let ?n = "\<lambda>t. length (filter (\<lambda>d. t \<in> set (snd d)) documents)"
  let ?idf = "inverse_frequencies documents"
  let ?v = "term_vector ?idf terms"
  have there: "(i, terms) \<in> set documents"
    using assms(2) by (rule map_of_SomeD)
  have pos: "0 < ?n t" if "t \<in> set terms" for t
    using there that by (force simp: length_greater_0_conv filter_empty_conv)
  have idf: "jm_get ?idf t = Some (idf_of (length documents) (?n t))" if "t \<in> set terms" for t
    using pos [OF that] by (simp add: inverse_frequencies_def get_fold_set [OF frequency_wf] frequency_exact Let_def)
  have some: "jm_get (fst (buildTfIdfVectors documents)) i = Some ?v"
    using get_fold_set [OF assms(1), of "\<lambda>i terms. term_vector ?idf terms" "[]" i] assms(2)
    by (simp add: buildTfIdfVectors_def Let_def)
  have counts_wf: "jm_wf (fold bump terms [])"
    by (simp add: bump_wf)
  have get: "jm_get ?v t = (if t \<in> set terms
      then Some (real (count_list terms t) / real (length terms) * idf_of (length documents) (?n t)) else None)" for t
    using idf [of t] by (auto simp: term_vector_def Let_def get_fold_set [OF counts_wf] get_fold_bump)
  have wf: "jm_wf (fold (\<lambda>(k, v) m. jm_set k (f k v) m) xs m)" if "jm_wf m" for f :: "string \<Rightarrow> nat \<Rightarrow> real" and xs m
    using that by (induction xs arbitrary: m) (simp_all add: split_beta)
  have "jm_wf ?v"
    unfolding term_vector_def Let_def by (rule wf) simp
  then have "0 < w" if "(t, w) \<in> set ?v" for t w
  proof -
    have "jm_get ?v t = Some w"
      using that \<open>jm_wf ?v\<close> by (simp add: jm_wf_def)
    then have t: "t \<in> set terms"
      and w: "w = real (count_list terms t) / real (length terms) * idf_of (length documents) (?n t)"
      by (auto simp: get split: if_splits)
    have "0 < idf_of (length documents) (?n t)"
      by (intro idf_positive pos [OF t]) simp
    moreover have "0 < count_list terms t"
      using t count_list_0_iff [of terms t] by simp
    ultimately show ?thesis
      using t by (auto simp: w intro!: mult_pos_pos divide_pos_pos)
  qed
  then show ?thesis
    using some get by (auto simp: list_all_iff)
qed

end
