(* ===== verification/HealthPages.thy ===== *)
theory HealthPages
  imports HealthJobs
begin

text \<open>
  The pages about health (\<open>modules/health/repository.ts\<close> and \<open>service.ts\<close>): the report of one API
  and the board of all, read from the rows the health jobs write. Each query is a function of the
  tables at its own moment. The database orders rows with equal keys as it likes; here they keep the order of
  the table. The cache in front of both pages, the display name they copy from the API, and the text of time
  stamps are not modelled; the text
  of a day and its order are parameters.
\<close>

section \<open>Queries for one API\<close>

definition latestFor :: "health_db \<Rightarrow> string \<Rightarrow> health_latest option" where
  "latestFor db a = jm_get (hd_latest db) a"

record check_view =
  cv_id :: string
  cv_apiId :: string
  cv_status :: health_status
  cv_httpStatus :: "int option"
  cv_latencyMs :: "rat option"
  cv_errorCode :: "string option"
  cv_checkedAt :: time

definition newest_first :: "health_check \<Rightarrow> health_check \<Rightarrow> bool" where
  "newest_first c d \<longleftrightarrow> hc_checkedAt d \<le> hc_checkedAt c"

definition check_view_of :: "health_check \<Rightarrow> check_view" where
  "check_view_of c =
     \<lparr>cv_id = hc_id c, cv_apiId = hc_apiId c, cv_status = hc_status c, cv_httpStatus = hc_httpStatus c,
      cv_latencyMs = hc_latencyMs c, cv_errorCode = hc_errorCode c, cv_checkedAt = hc_checkedAt c\<rparr>"

definition recentChecks :: "health_db \<Rightarrow> string \<Rightarrow> nat \<Rightarrow> check_view list" where
  "recentChecks db a limit =
     map check_view_of (take limit (sort_by newest_first (filter (\<lambda>c. hc_apiId c = a) (hd_checks db))))"

record daily_view =
  dv_date :: string
  dv_totalChecks :: nat
  dv_successfulChecks :: nat
  dv_uptime :: rat
  dv_avgLatencyMs :: "rat option"
  dv_p95LatencyMs :: "rat option"
  dv_incidents :: nat

definition daily_view_of :: "(string \<times> string) \<times> health_daily \<Rightarrow> daily_view" where
  "daily_view_of r =
     \<lparr>dv_date = snd (fst r), dv_totalChecks = dy_totalChecks (snd r), dv_successfulChecks = dy_successfulChecks (snd r),
      dv_uptime = dy_uptime (snd r), dv_avgLatencyMs = dy_avgLatencyMs (snd r), dv_p95LatencyMs = dy_p95LatencyMs (snd r),
      dv_incidents = dy_incidents (snd r)\<rparr>"

definition dailyHistory ::
  "(time \<Rightarrow> string) \<Rightarrow> (string \<Rightarrow> string \<Rightarrow> bool) \<Rightarrow> time \<Rightarrow> health_db \<Rightarrow> string \<Rightarrow> nat \<Rightarrow> daily_view list" where
  "dailyHistory day_text day_le now db a days =
     (let since = day_text (now - int days * DAY_MS) in
      map daily_view_of (sort_by (\<lambda>r q. day_le (snd (fst r)) (snd (fst q)))
        (filter (\<lambda>r. fst (fst r) = a \<and> day_le since (snd (fst r))) (hd_daily db))))"

record incident_view =
  iv_id :: string
  iv_apiId :: string
  iv_status :: health_status
  iv_startedAt :: time
  iv_resolvedAt :: "time option"
  iv_durationMs :: "int option"
  iv_errorCode :: "string option"
  iv_checksAffected :: nat

definition latest_incident_first :: "incident \<Rightarrow> incident \<Rightarrow> bool" where
  "latest_incident_first i j \<longleftrightarrow> in_startedAt j \<le> in_startedAt i"

definition incident_view_of :: "incident \<Rightarrow> incident_view" where
  "incident_view_of i =
     \<lparr>iv_id = in_id i, iv_apiId = in_apiId i, iv_status = in_status i, iv_startedAt = in_startedAt i,
      iv_resolvedAt = in_resolvedAt i, iv_durationMs = in_durationMs i, iv_errorCode = in_errorCode i,
      iv_checksAffected = in_checksAffected i\<rparr>"

definition incidentsFor :: "health_db \<Rightarrow> string \<Rightarrow> nat \<Rightarrow> incident_view list" where
  "incidentsFor db a limit =
     map incident_view_of (take limit (sort_by latest_incident_first (filter (\<lambda>i. in_apiId i = a) (hd_incidents db))))"

definition recentIncidentCount :: "time \<Rightarrow> health_db \<Rightarrow> string \<Rightarrow> nat \<Rightarrow> nat" where
  "recentIncidentCount now db a days =
     length (filter (\<lambda>i. in_apiId i = a \<and> now - int days * DAY_MS \<le> in_startedAt i) (hd_incidents db))"

section \<open>The report\<close>

record current_health =
  cu_status :: health_status
  cu_latencyMs :: "rat option"
  cu_httpStatus :: "int option"
  cu_lastCheckedAt :: "time option"
  cu_consecutiveFailures :: nat

record health_report =
  hr_apiId :: string
  hr_current :: current_health
  hr_reliability :: reliability_breakdown
  hr_history :: "daily_view list"
  hr_recentChecks :: "check_view list"
  hr_incidents :: "incident_view list"

definition emptyReport :: "string \<Rightarrow> health_report" where
  "emptyReport a =
     \<lparr>hr_apiId = a,
      hr_current = \<lparr>cu_status = Unknown, cu_latencyMs = None, cu_httpStatus = None, cu_lastCheckedAt = None,
        cu_consecutiveFailures = 0\<rparr>,
      hr_reliability = \<lparr>rb_score = 0, rb_uptime30d = None, rb_successRate7d = None, rb_latencyScore = None,
        rb_freshness = 0, rb_incidentPenalty = 0\<rparr>,
      hr_history = [], hr_recentChecks = [], hr_incidents = []\<rparr>"

text \<open>
  The tables are read five times: for the latest row, then in one batch for history, checks, incidents
  and their count; probes may write in between.
\<close>

definition report ::
  "(time \<Rightarrow> string) \<Rightarrow> (string \<Rightarrow> string \<Rightarrow> bool) \<Rightarrow> time \<Rightarrow> health_db
     \<Rightarrow> health_db \<times> health_db \<times> health_db \<times> health_db \<Rightarrow> string \<Rightarrow> nat \<Rightarrow> health_report" where
  "report day_text day_le now db reads a days =
     (case latestFor db a of
        None \<Rightarrow> emptyReport a
      | Some latest \<Rightarrow>
          let (db1, db2, db3, db4) = reads;
              history = dailyHistory day_text day_le now db1 a days;
              checks = recentChecks db2 a 30;
              incidents = incidentsFor db3 a 10;
              incidentCount = recentIncidentCount now db4 a 7;
              reliability = computeReliability
                \<lparr>ri_uptime30d = hl_uptime30d latest, ri_successRate7d = hl_successRate7d latest,
                 ri_avgLatencyMs = hl_latencyMs latest, ri_lastCheckedAt = hl_lastCheckedAt latest,
                 ri_recentIncidents = incidentCount\<rparr> now
          in \<lparr>hr_apiId = a,
              hr_current = \<lparr>cu_status = hl_status latest, cu_latencyMs = hl_latencyMs latest,
                cu_httpStatus = hl_httpStatus latest, cu_lastCheckedAt = hl_lastCheckedAt latest,
                cu_consecutiveFailures = hl_consecutiveFailures latest\<rparr>,
              hr_reliability = reliability, hr_history = history, hr_recentChecks = rev checks,
              hr_incidents = incidents\<rparr>)"

text \<open>The error is that of a missing resource.\<close>

datatype health_error = HealthDataNotFound

definition requireMonitored :: "health_db \<Rightarrow> string \<Rightarrow> health_error + unit" where
  "requireMonitored db a = (case latestFor db a of None \<Rightarrow> Inl HealthDataNotFound | Some _ \<Rightarrow> Inr ())"

section \<open>The board\<close>

record board_entry =
  be_apiId :: string
  be_slug :: string
  be_status :: health_status
  be_latencyMs :: "rat option"
  be_uptime30d :: "rat option"
  be_reliabilityScore :: "rat option"
  be_lastCheckedAt :: "time option"
  be_sparkline :: "rat list"

fun status_rank :: "health_status \<Rightarrow> nat" where
  "status_rank Down = 0"
| "status_rank Degraded = 1"
| "status_rank Unknown = 2"
| "status_rank Up = 3"

definition board_join :: "health_db \<Rightarrow> health_status option \<Rightarrow> (api_row \<times> health_latest) list" where
  "board_join db status =
     filter (\<lambda>(r, l). ap_active r \<and> (case status of Some st \<Rightarrow> hl_status l = st | None \<Rightarrow> True))
       (concat (map (\<lambda>(i, l). map (\<lambda>r. (r, l)) (filter (\<lambda>r. ap_id r = i) (hd_apis db))) (hd_latest db)))"

definition board_before :: "api_row \<times> health_latest \<Rightarrow> api_row \<times> health_latest \<Rightarrow> bool" where
  "board_before x y \<longleftrightarrow>
     status_rank (hl_status (snd x)) < status_rank (hl_status (snd y)) \<or>
     status_rank (hl_status (snd x)) = status_rank (hl_status (snd y)) \<and>
     ap_popularityScore (fst y) \<le> ap_popularityScore (fst x)"

definition board_rows :: "health_db \<Rightarrow> nat \<Rightarrow> health_status option \<Rightarrow> (api_row \<times> health_latest) list" where
  "board_rows db limit status = take limit (sort_by board_before (board_join db status))"

text \<open>
  The window query: rows ranked within their API, the newest first, cut, and given back oldest first.
\<close>

definition spark_rows :: "health_db \<Rightarrow> string list \<Rightarrow> nat \<Rightarrow> (string \<times> rat option) list" where
  "spark_rows db ids points =
     concat (map (\<lambda>i. map (\<lambda>c. (i, hc_latencyMs c))
         (rev (take points (sort_by newest_first (filter (\<lambda>c. hc_apiId c = i) (hd_checks db)))))) (remdups ids))"

definition sparklinesFor :: "health_db \<Rightarrow> string list \<Rightarrow> nat \<Rightarrow> (string, rat list) jsmap" where
  "sparklinesFor db ids points =
     (if ids = [] then []
      else fold (\<lambda>(i, latency) m.
             case latency of
               None \<Rightarrow> m
             | Some l \<Rightarrow> jm_set i ((case jm_get m i of Some series \<Rightarrow> series | None \<Rightarrow> []) @ [l]) m)
           (spark_rows db ids points) [])"

text \<open>The rows and the sparklines are two statements.\<close>

definition board :: "health_db \<Rightarrow> health_db \<Rightarrow> nat \<Rightarrow> health_status option \<Rightarrow> board_entry list" where
  "board db db' limit status =
     (let rows = board_rows db limit status in
      if rows = [] then []
      else let sparklines = sparklinesFor db' (map (\<lambda>r. ap_id (fst r)) rows) 20
           in map (\<lambda>(r, l).
                \<lparr>be_apiId = ap_id r, be_slug = ap_slug r, be_status = hl_status l, be_latencyMs = hl_latencyMs l,
                 be_uptime30d = hl_uptime30d l, be_reliabilityScore = hl_reliabilityScore l,
                 be_lastCheckedAt = hl_lastCheckedAt l,
                 be_sparkline = (case jm_get sparklines (ap_id r) of Some s \<Rightarrow> s | None \<Rightarrow> [])\<rparr>) rows)"

record health_summary =
  sm_total :: nat
  sm_up :: nat
  sm_degraded :: nat
  sm_down :: nat
  sm_unknown :: nat
  sm_avgLatencyMs :: "int option"
  sm_overallUptime :: "rat option"

definition with_status :: "health_db \<Rightarrow> health_status \<Rightarrow> nat" where
  "with_status db st = length (filter (\<lambda>(i, l). hl_status l = st) (hd_latest db))"

definition summary :: "health_db \<Rightarrow> health_summary" where
  "summary db =
     \<lparr>sm_total = length (hd_latest db), sm_up = with_status db Up, sm_degraded = with_status db Degraded,
      sm_down = with_status db Down, sm_unknown = with_status db Unknown,
      sm_avgLatencyMs = map_option js_round (average (List.map_filter (\<lambda>(i, l). hl_latencyMs l) (hd_latest db))),
      sm_overallUptime = average (List.map_filter (\<lambda>(i, l). hl_uptime30d l) (hd_latest db))\<rparr>"

definition openIncidents :: "health_db \<Rightarrow> nat \<Rightarrow> (incident_view \<times> string) list" where
  "openIncidents db limit =
     map (\<lambda>(i, r). ((incident_view_of i)\<lparr>iv_resolvedAt := None, iv_durationMs := None\<rparr>, ap_slug r))
       (take limit (sort_by (\<lambda>x y. latest_incident_first (fst x) (fst y))
         (filter (\<lambda>(i, r). in_resolvedAt i = None)
           (concat (map (\<lambda>i. map (\<lambda>r. (i, r)) (filter (\<lambda>r. ap_id r = in_apiId i) (hd_apis db))) (hd_incidents db))))))"

section \<open>The report shows what was recorded\<close>

lemma newest_sorted: "sorted_wrt newest_first (sort_by newest_first cs)"
  by (rule sorted_sort_by) (auto simp: newest_first_def)

lemma set_sorted_rows: "set (sort_by le xs) = set xs"
  by (rule mset_eq_setD) simp

lemma recent_checks_newest: "sorted_wrt (\<lambda>c d. cv_checkedAt d \<le> cv_checkedAt c) (recentChecks db a limit)"
proof -
  have "sorted_wrt (\<lambda>c d. hc_checkedAt d \<le> hc_checkedAt c) (sort_by newest_first (filter (\<lambda>c. hc_apiId c = a) (hd_checks db)))"
    by (rule sorted_wrt_mono_rel [OF _ newest_sorted]) (simp add: newest_first_def)
  then show ?thesis
    by (simp add: recentChecks_def sorted_wrt_map check_view_of_def sorted_wrt_take)
qed

lemma sorted_split:
  assumes "sorted_wrt R xs" "x \<in> set (take n xs)" "y \<in> set (drop n xs)"
  shows "R x y"
proof -
  have "sorted_wrt R (take n xs @ drop n xs)"
    using assms(1) by simp
  then show ?thesis
    using assms(2,3) unfolding sorted_wrt_append by blast
qed

text \<open>No check that was left out is newer than one that is shown.\<close>

lemma recent_checks_best:
  assumes "v \<in> set (recentChecks db a limit)" "c \<in> set (hd_checks db)" "hc_apiId c = a"
    "check_view_of c \<notin> set (recentChecks db a limit)"
  shows "hc_checkedAt c \<le> cv_checkedAt v"
proof -
  let ?s = "sort_by newest_first (filter (\<lambda>c. hc_apiId c = a) (hd_checks db))"
  have "c \<in> set ?s"
    using assms(2,3) by (simp add: set_sorted_rows)
  moreover have "set ?s = set (take limit ?s) \<union> set (drop limit ?s)"
    by (metis append_take_drop_id set_append)
  moreover have "c \<notin> set (take limit ?s)"
    using assms(4) by (auto simp: recentChecks_def)
  ultimately have rest: "c \<in> set (drop limit ?s)" by blast
  obtain d where d: "d \<in> set (take limit ?s)" "v = check_view_of d"
    using assms(1) by (auto simp: recentChecks_def)
  have "newest_first d c"
    by (rule sorted_split [OF newest_sorted d(1) rest])
  then show ?thesis
    by (simp add: d(2) newest_first_def check_view_of_def)
qed

text \<open>An API that was never probed has an unknown status and no error; the others show their own rows only.\<close>

theorem report_shows_own_rows:
  "let r = report day_text day_le now db reads a days in
     hr_apiId r = a \<and>
     (latestFor db a = None \<longrightarrow> r = emptyReport a) \<and>
     (\<forall>c \<in> set (hr_recentChecks r). cv_apiId c = a) \<and> (\<forall>i \<in> set (hr_incidents r). iv_apiId i = a) \<and>
     length (hr_recentChecks r) \<le> 30 \<and> length (hr_incidents r) \<le> 10 \<and>
     sorted_wrt (\<lambda>c d. cv_checkedAt c \<le> cv_checkedAt d) (hr_recentChecks r)"
proof (cases "latestFor db a")
  case (Some latest)
  obtain db1 db2 db3 db4 where reads: "reads = (db1, db2, db3, db4)" by (metis prod_cases4)
  have "\<forall>c \<in> set (recentChecks db2 a 30). cv_apiId c = a" "\<forall>i \<in> set (incidentsFor db3 a 10). iv_apiId i = a"
    by (auto simp: recentChecks_def incidentsFor_def check_view_of_def incident_view_of_def set_sorted_rows
        dest!: in_set_takeD)
  moreover have "length (recentChecks db2 a 30) \<le> 30" "length (incidentsFor db3 a 10) \<le> 10"
    by (simp_all add: recentChecks_def incidentsFor_def)
  ultimately show ?thesis
    using recent_checks_newest [of db2 a 30] Some by (simp add: report_def reads Let_def sorted_wrt_rev)
qed (simp add: report_def emptyReport_def Let_def)

section \<open>The board shows the broken first\<close>

lemma set_board_join:
  "(r, l) \<in> set (board_join db status) \<longleftrightarrow>
     r \<in> set (hd_apis db) \<and> (ap_id r, l) \<in> set (hd_latest db) \<and> ap_active r \<and> (case status of Some st \<Rightarrow> hl_status l = st | None \<Rightarrow> True)"
  by (cases status) (auto simp: board_join_def)

lemma board_sorted: "sorted_wrt board_before (board_rows db limit status)"
  unfolding board_rows_def
  by (intro sorted_wrt_take sorted_sort_by) (auto simp: board_before_def)

lemma board_rows_shown:
  "\<exists>f. board db db' limit status = map f (board_rows db limit status) \<and>
     (\<forall>r l. be_apiId (f (r, l)) = ap_id r \<and> be_slug (f (r, l)) = ap_slug r \<and> be_status (f (r, l)) = hl_status l)"
  by (rule exI [where x = "\<lambda>(r, l). \<lparr>be_apiId = ap_id r, be_slug = ap_slug r, be_status = hl_status l,
        be_latencyMs = hl_latencyMs l, be_uptime30d = hl_uptime30d l, be_reliabilityScore = hl_reliabilityScore l,
        be_lastCheckedAt = hl_lastCheckedAt l,
        be_sparkline = (case jm_get (sparklinesFor db' (map (\<lambda>r. ap_id (fst r)) (board_rows db limit status)) 20) (ap_id r) of
          Some s \<Rightarrow> s | None \<Rightarrow> [])\<rparr>"])
     (simp add: board_def Let_def)

theorem board_broken_first:
  "sorted_wrt (\<lambda>x y. status_rank (be_status x) \<le> status_rank (be_status y)) (board db db' limit status) \<and>
   length (board db db' limit status) = min limit (length (board_join db status)) \<and>
   (\<forall>e \<in> set (board db db' limit status). \<exists>r l. (r, l) \<in> set (board_join db status) \<and>
      be_apiId e = ap_id r \<and> be_slug e = ap_slug r \<and> be_status e = hl_status l)"
proof -
  have len: "length (sort_by board_before (board_join db status)) = length (board_join db status)"
    by (metis mset_sort_by size_mset)
  have "sorted_wrt (\<lambda>x y. status_rank (hl_status (snd x)) \<le> status_rank (hl_status (snd y))) (board_rows db limit status)"
    by (rule sorted_wrt_mono_rel [OF _ board_sorted]) (auto simp: board_before_def)
  moreover have "set (board_rows db limit status) \<subseteq> set (board_join db status)"
    by (auto simp: board_rows_def set_sorted_rows dest!: in_set_takeD)
  moreover obtain f where f: "board db db' limit status = map f (board_rows db limit status)"
    "\<And>x. be_apiId (f x) = ap_id (fst x) \<and> be_slug (f x) = ap_slug (fst x) \<and> be_status (f x) = hl_status (snd x)"
    using board_rows_shown [of db db' limit status] by (metis prod.collapse)
  moreover have "length (board_rows db limit status) = min limit (length (board_join db status))"
    by (simp add: board_rows_def len min.commute)
  moreover have "\<exists>r l. (r, l) \<in> set (board_join db status) \<and>
      be_apiId e = ap_id r \<and> be_slug e = ap_slug r \<and> be_status e = hl_status l"
    if "e \<in> set (board db db' limit status)" for e
  proof -
    obtain x where "x \<in> set (board_rows db limit status)" "e = f x"
      using \<open>e \<in> _\<close> by (auto simp: f(1))
    then have "(fst x, snd x) \<in> set (board_join db status)"
      using \<open>set (board_rows db limit status) \<subseteq> _\<close> by auto
    with \<open>e = f x\<close> f(2) show ?thesis by blast
  qed
  ultimately show ?thesis
    by (simp add: sorted_wrt_map)
qed

text \<open>The series of an API: the latencies among its newest probes, oldest first.\<close>

definition spark_of :: "health_db \<Rightarrow> nat \<Rightarrow> string \<Rightarrow> rat list" where
  "spark_of db points i =
     List.map_filter hc_latencyMs (rev (take points (sort_by newest_first (filter (\<lambda>c. hc_apiId c = i) (hd_checks db)))))"

definition push_latency :: "string \<times> rat option \<Rightarrow> (string, rat list) jsmap \<Rightarrow> (string, rat list) jsmap" where
  "push_latency = (\<lambda>(i, latency) m. case latency of None \<Rightarrow> m
     | Some l \<Rightarrow> jm_set i ((case jm_get m i of Some series \<Rightarrow> series | None \<Rightarrow> []) @ [l]) m)"

definition series_in :: "(string, rat list) jsmap \<Rightarrow> string \<Rightarrow> rat list" where
  "series_in m i = (case jm_get m i of Some series \<Rightarrow> series | None \<Rightarrow> [])"

lemma series_push: "series_in (fold push_latency rows m) i = series_in m i @ List.map_filter snd (filter (\<lambda>r. fst r = i) rows)"
  by (induction rows arbitrary: m)
     (auto simp: push_latency_def series_in_def jm_get_set map_filter_simps split: option.splits)

lemma filter_tagged: "filter (\<lambda>r. fst r = i) (map (\<lambda>c. (j, f c)) cs) = (if j = i then map (\<lambda>c. (j, f c)) cs else [])"
  by (induction cs) simp_all

lemma concat_if: "distinct ids \<Longrightarrow> concat (map (\<lambda>j. if j = i then f j else []) ids) = (if i \<in> set ids then f i else [])"
  by (induction ids) auto

theorem sparkline_exact: "i \<in> set ids \<Longrightarrow> series_in (sparklinesFor db ids points) i = spark_of db points i"
proof -
  assume i: "i \<in> set ids"
  then have "ids \<noteq> []" by auto
  then have "sparklinesFor db ids points = fold push_latency (spark_rows db ids points) []"
    by (simp add: sparklinesFor_def push_latency_def)
  moreover have "filter (\<lambda>r. fst r = i) (spark_rows db ids points) =
      map (\<lambda>c. (i, hc_latencyMs c)) (rev (take points (sort_by newest_first (filter (\<lambda>c. hc_apiId c = i) (hd_checks db)))))"
    using i by (simp add: spark_rows_def filter_concat o_def filter_tagged concat_if)
  ultimately show ?thesis
    by (simp add: series_push spark_of_def) (simp add: series_in_def map_filter_def o_def filter_map)
qed

section \<open>The summary counts each API once\<close>

theorem summary_partitions:
  "sm_up (summary db) + sm_degraded (summary db) + sm_down (summary db) + sm_unknown (summary db) = sm_total (summary db)"
proof -
  have "length (filter (\<lambda>(i, l). hl_status l = Up) ls) + length (filter (\<lambda>(i, l). hl_status l = Degraded) ls) +
      length (filter (\<lambda>(i, l). hl_status l = Down) ls) + length (filter (\<lambda>(i, l). hl_status l = Unknown) ls) = length ls"
    for ls :: "(string \<times> health_latest) list"
  proof (induction ls)
    case (Cons x ls)
    then show ?case by (cases x; cases "hl_status (snd x)") auto
  qed simp
  then show ?thesis by (simp add: summary_def with_status_def)
qed

end
