(* ===== verification/Administration.thy ===== *)
theory Administration
  imports AppErrors Ingestion Metrics MemoryQueue CacheStores
begin

text \<open>
  The service of the operators (\<open>modules/admin/service.ts\<close>): readiness, process metrics, control of
  imports, moderation with its audit log, and usage. The database's ping, the memory figures and the
  answers of cache and queues are arguments. A change of status is cut at its statements, so that
  moderators interleave and the driver may refuse any of them. Time stamps stay numbers.
\<close>

section \<open>Readiness\<close>

datatype check_status = CheckOk | CheckDegraded | CheckError

record readiness_check =
  rk_name :: string
  rk_status :: check_status
  rk_latencyMs :: "rat option"
  rk_message :: string

record healthz_report =
  hz_status :: check_status
  hz_version :: string
  hz_checks :: "readiness_check list"

definition two_places :: "rat \<Rightarrow> rat" where
  "two_places x = of_int (js_round (x * 100)) / 100"

text \<open>A ping that fails gives its message, none when what is thrown is not an error.\<close>

definition database_check :: "string \<Rightarrow> string option + rat \<Rightarrow> readiness_check" where
  "database_check driver ping =
     (case ping of
        Inr latencyMs \<Rightarrow>
          \<lparr>rk_name = ''database'', rk_status = (if latencyMs < 1000 then CheckOk else CheckDegraded),
           rk_latencyMs = Some (two_places latencyMs), rk_message = ''driver='' @ driver\<rparr>
      | Inl message \<Rightarrow>
          \<lparr>rk_name = ''database'', rk_status = CheckError, rk_latencyMs = None,
           rk_message = (case message of Some m \<Rightarrow> m | None \<Rightarrow> ''unreachable'')\<rparr>)"

definition cache_check :: "string \<Rightarrow> bool option \<Rightarrow> readiness_check" where
  "cache_check store_name healthy =
     (case healthy of
        Some h \<Rightarrow> \<lparr>rk_name = ''cache'', rk_status = (if h then CheckOk else CheckDegraded), rk_latencyMs = None,
          rk_message = store_name\<rparr>
      | None \<Rightarrow> \<lparr>rk_name = ''cache'', rk_status = CheckDegraded, rk_latencyMs = None, rk_message = ''unreachable''\<rparr>)"

definition healthz ::
  "string option \<Rightarrow> string \<Rightarrow> string option + rat \<Rightarrow> string \<Rightarrow> bool option \<Rightarrow> healthz_report" where
  "healthz version driver ping store_name healthy =
     (let checks = [database_check driver ping, cache_check store_name healthy];
          hasError = list_ex (\<lambda>c. rk_status c = CheckError) checks;
          hasDegraded = list_ex (\<lambda>c. rk_status c = CheckDegraded) checks
      in \<lparr>hz_status = (if hasError then CheckError else if hasDegraded then CheckDegraded else CheckOk),
          hz_version = (case version of Some v \<Rightarrow> v | None \<Rightarrow> ''0.1.0''), hz_checks = checks\<rparr>)"

section \<open>Process metrics\<close>

record ops_http =
  oh_total :: rat
  oh_errors :: rat
  oh_p50Ms :: "rat option"
  oh_p95Ms :: "rat option"

record ops_metrics =
  om_uptimeSeconds :: int
  om_databaseDriver :: string
  om_cacheDriver :: string
  om_queueDriver :: string
  om_databaseReachable :: bool
  om_databaseLatencyMs :: "rat option"
  om_cacheReachable :: bool
  om_cacheHitRate :: "rat option"
  om_cacheSize :: "nat option"
  om_queues :: "(string \<times> queue_stats) list"
  om_eventLoopLagMs :: rat
  om_heapUsedMb :: rat
  om_heapTotalMb :: rat
  om_rssMb :: rat
  om_http :: ops_http

definition megabytes :: "rat \<Rightarrow> rat" where
  "megabytes bytes = of_int (js_round (bytes / 1024 / 1024 * 10)) / 10"

definition series_total :: "string \<Rightarrow> (string, rat) jsmap \<Rightarrow> rat" where
  "series_total name counters = fold (\<lambda>(k, v) total_so_far. total_so_far + v) (filter (\<lambda>(k, v). starts_with k name) counters) 0"

definition worst_of :: "(histogram_snapshot \<Rightarrow> rat option) \<Rightarrow> (string \<times> histogram_snapshot) list \<Rightarrow> rat option" where
  "worst_of f hs =
     fold (\<lambda>(k, h) worst. case f h of None \<Rightarrow> worst | Some q \<Rightarrow> Some (max (case worst of Some w \<Rightarrow> w | None \<Rightarrow> 0) q)) hs None"

definition opsMetrics ::
  "registry_snapshot \<Rightarrow> string \<Rightarrow> rat option \<Rightarrow> string \<Rightarrow> cache_stats option \<Rightarrow> (string \<times> queue_stats) list option
     \<Rightarrow> rat \<Rightarrow> rat \<times> rat \<times> rat \<Rightarrow> ops_metrics" where
  "opsMetrics snapshot driver ping store_name cacheStats queueStats lag memory =
     (let queues = (case queueStats of Some qs \<Rightarrow> qs | None \<Rightarrow> []);
          httpHistogram = filter (\<lambda>(k, h). starts_with k ''http_request_duration_ms'') (rs_histograms snapshot);
          (heapUsed, heapTotal, rss) = memory
      in \<lparr>om_uptimeSeconds = js_round (rs_uptimeSeconds snapshot), om_databaseDriver = driver,
          om_cacheDriver = store_name, om_queueDriver = (if queues \<noteq> [] then ''active'' else ''idle''),
          om_databaseReachable = (ping \<noteq> None), om_databaseLatencyMs = map_option two_places ping,
          om_cacheReachable = (cacheStats \<noteq> None), om_cacheHitRate = map_option cst_hitRate cacheStats,
          om_cacheSize = (case cacheStats of Some c \<Rightarrow> cst_size c | None \<Rightarrow> None), om_queues = queues,
          om_eventLoopLagMs = two_places lag, om_heapUsedMb = megabytes heapUsed,
          om_heapTotalMb = megabytes heapTotal, om_rssMb = megabytes rss,
          om_http = \<lparr>oh_total = series_total ''http_requests_total'' (rs_counters snapshot),
            oh_errors = series_total ''http_errors_total'' (rs_counters snapshot),
            oh_p50Ms = worst_of hs_p50 httpHistogram, oh_p95Ms = worst_of hs_p95 httpHistogram\<rparr>\<rparr>)"

section \<open>Imports\<close>

record run_view =
  rv_id :: string
  rv_sourceName :: string
  rv_sourceUrl :: string
  rv_sourceRevision :: "string option"
  rv_status :: string
  rv_counters :: counters
  rv_errorMessage :: "string option"
  rv_startedAt :: time
  rv_finishedAt :: "time option"
  rv_durationMs :: "int option"

definition toIngestionRun :: "string \<times> run_row \<Rightarrow> run_view" where
  "toIngestionRun = (\<lambda>(i, r).
     \<lparr>rv_id = i, rv_sourceName = rn_sourceName r, rv_sourceUrl = rn_sourceUrl r,
      rv_sourceRevision = rn_sourceRevision r, rv_status = rn_status r, rv_counters = rn_counters r,
      rv_errorMessage = rn_errorMessage r, rv_startedAt = rn_startedAt r, rv_finishedAt = rn_finishedAt r,
      rv_durationMs = rn_durationMs r\<rparr>)"

definition listIngestionRuns :: "ingest_db \<Rightarrow> nat \<Rightarrow> run_view list" where
  "listIngestionRuns db limit =
     map toIngestionRun (take limit (sort_by (\<lambda>x y. rn_startedAt (snd y) \<le> rn_startedAt (snd x)) (ig_runs db)))"

record trigger_input =
  ti_force :: bool
  ti_dryRun :: bool
  ti_sourceUrl :: "string option"

definition triggerIngestion ::
  "time \<Rightarrow> string \<Rightarrow> trigger_input \<Rightarrow> trigger_input mqueue \<Rightarrow> trigger_input mqueue \<times> string" where
  "triggerIngestion now uuid input q =
     mq_add now uuid ''ingestion.import'' input
       \<lparr>jo_jobId = None, jo_delayMs = None, jo_attempts = Some 2, jo_backoffMs = Some 5000, jo_priority = None\<rparr> q"

definition triggerReindex :: "time \<Rightarrow> string \<Rightarrow> string mqueue \<Rightarrow> string mqueue \<times> string" where
  "triggerReindex now uuid q =
     mq_add now uuid ''search.reindex'' ''manual''
       \<lparr>jo_jobId = None, jo_delayMs = None, jo_attempts = Some 2, jo_backoffMs = None, jo_priority = None\<rparr> q"

section \<open>Moderation\<close>

record admin_api =
  dm_id :: string
  dm_slug :: string
  dm_status :: string
  dm_updatedAt :: time

record audit_entry =
  ae_actorId :: "string option"
  ae_actorEmail :: "string option"
  ae_action :: string
  ae_entityType :: string
  ae_entityId :: "string option"
  ae_metadata :: "(string \<times> string option) list option"
  ae_ipAddress :: "string option"
  ae_userAgent :: "string option"

record audit_row =
  ar_id :: string
  ar_entry :: audit_entry
  ar_createdAt :: time

record admin_db =
  da_apis :: "admin_api list"
  da_audit :: "audit_row list"

definition audit :: "time \<Rightarrow> string \<Rightarrow> audit_entry \<Rightarrow> admin_db \<Rightarrow> admin_db" where
  "audit now i entry db =
     db\<lparr>da_audit := da_audit db @ [\<lparr>ar_id = i,
       ar_entry = entry\<lparr>ae_userAgent := map_option (take 200) (ae_userAgent entry)\<rparr>, ar_createdAt = now\<rparr>]\<rparr>"

definition listAuditLogs :: "admin_db \<Rightarrow> nat \<Rightarrow> audit_row list" where
  "listAuditLogs db limit = take limit (sort_by (\<lambda>x y. ar_createdAt y \<le> ar_createdAt x) (da_audit db))"

text \<open>A call of \<open>updateApiStatus\<close> after its first statement.\<close>

record status_change =
  sg_apiId :: string
  sg_slug :: string
  sg_from :: string
  sg_to :: string
  sg_actor :: "string \<times> string"
  sg_reason :: "string option"

definition status_check ::
  "string \<Rightarrow> string \<Rightarrow> string \<times> string \<Rightarrow> string option \<Rightarrow> admin_db \<Rightarrow> app_error + status_change" where
  "status_check slug status actor reason db =
     (case List.find (\<lambda>a. dm_slug a = slug) (da_apis db) of
        None \<Rightarrow> Inl (NotFoundError ''API'')
      | Some a \<Rightarrow> Inr \<lparr>sg_apiId = dm_id a, sg_slug = slug, sg_from = dm_status a, sg_to = status,
          sg_actor = actor, sg_reason = reason\<rparr>)"

definition status_update :: "time \<Rightarrow> status_change \<Rightarrow> admin_db \<Rightarrow> admin_db" where
  "status_update now c db =
     db\<lparr>da_apis := map (\<lambda>a. if dm_id a = sg_apiId c then a\<lparr>dm_status := sg_to c, dm_updatedAt := now\<rparr> else a) (da_apis db)\<rparr>"

definition audit_of_change :: "status_change \<Rightarrow> audit_entry" where
  "audit_of_change c =
     \<lparr>ae_actorId = Some (fst (sg_actor c)), ae_actorEmail = Some (snd (sg_actor c)),
      ae_action = ''api.status_changed'', ae_entityType = ''api'', ae_entityId = Some (sg_apiId c),
      ae_metadata = Some [(''from'', Some (sg_from c)), (''to'', Some (sg_to c)), (''reason'', sg_reason c)],
      ae_ipAddress = None, ae_userAgent = None\<rparr>"

text \<open>A call on its own; each of the two writes may be refused, which ends it.\<close>

datatype change_end = ChangeFailed app_error | ChangeRefused | ChangeDone status_change

definition updateApiStatus ::
  "time \<Rightarrow> string \<Rightarrow> string \<Rightarrow> string \<Rightarrow> string \<times> string \<Rightarrow> string option \<Rightarrow> bool \<times> bool \<Rightarrow> admin_db
     \<Rightarrow> admin_db \<times> change_end" where
  "updateApiStatus now i slug status actor reason refused db =
     (case status_check slug status actor reason db of
        Inl e \<Rightarrow> (db, ChangeFailed e)
      | Inr c \<Rightarrow>
          if fst refused then (db, ChangeRefused)
          else let db1 = status_update now c db in
            if snd refused then (db1, ChangeRefused)
            else (audit now i (audit_of_change c) db1, ChangeDone c))"

text \<open>
  Any number of calls: those that have read, those whose update is in, and the history of the updates,
  of the audits refused, and of the events published.
\<close>

record moderation =
  md_db :: admin_db
  md_checked :: "status_change list"
  md_updated :: "status_change list"
  md_changes :: "status_change list"
  md_unaudited :: "status_change list"
  md_events :: "status_change list"

datatype moderation_event =
    CheckStatus string string "string \<times> string" "string option"
  | UpdateStatus nat time bool
  | WriteAudit nat time string bool
  | AddApi admin_api

definition without :: "nat \<Rightarrow> 'a list \<Rightarrow> 'a list" where
  "without k xs = take k xs @ drop (Suc k) xs"

fun moderation_step :: "moderation_event \<Rightarrow> moderation \<Rightarrow> moderation" where
  "moderation_step (CheckStatus slug status actor reason) m =
     (case status_check slug status actor reason (md_db m) of
        Inl e \<Rightarrow> m
      | Inr c \<Rightarrow> m\<lparr>md_checked := md_checked m @ [c]\<rparr>)"
| "moderation_step (UpdateStatus k now refused) m =
     (if k < length (md_checked m) then
        let c = md_checked m ! k; m1 = m\<lparr>md_checked := without k (md_checked m)\<rparr> in
        if refused then m1
        else m1\<lparr>md_db := status_update now c (md_db m), md_updated := md_updated m @ [c], md_changes := md_changes m @ [c]\<rparr>
      else m)"
| "moderation_step (WriteAudit k now i refused) m =
     (if k < length (md_updated m) then
        let c = md_updated m ! k; m1 = m\<lparr>md_updated := without k (md_updated m)\<rparr> in
        if refused then m1\<lparr>md_unaudited := md_unaudited m @ [c]\<rparr>
        else m1\<lparr>md_db := audit now i (audit_of_change c) (md_db m), md_events := md_events m @ [c]\<rparr>
      else m)"
| "moderation_step (AddApi a) m = m\<lparr>md_db := (md_db m)\<lparr>da_apis := da_apis (md_db m) @ [a]\<rparr>\<rparr>"

definition moderation_start :: moderation where
  "moderation_start = \<lparr>md_db = \<lparr>da_apis = [], da_audit = []\<rparr>, md_checked = [], md_updated = [], md_changes = [],
     md_unaudited = [], md_events = []\<rparr>"

section \<open>Usage\<close>

record usage_db =
  us_searches :: "((string \<times> string) \<times> nat) list"
  us_views :: "((string \<times> string) \<times> nat) list"
  us_apis :: "(string \<times> string \<times> string) list"
  us_playgroundRuns :: nat

text \<open>Rows are keyed by day and term, and by day and API. Groups in the order they are met.\<close>

definition group_sum :: "('k \<times> nat) list \<Rightarrow> ('k, nat) jsmap" where
  "group_sum rows = fold (\<lambda>(k, n) m. jm_set k ((case jm_get m k of Some s \<Rightarrow> s | None \<Rightarrow> 0) + n) m) rows []"

definition top_groups :: "nat \<Rightarrow> ('k, nat) jsmap \<Rightarrow> ('k \<times> nat) list" where
  "top_groups limit groups = take limit (sort_by (\<lambda>x y. snd y \<le> snd x) groups)"

record analytics_overview =
  an_topSearches :: "(string \<times> nat) list"
  an_topApis :: "((string \<times> string) \<times> nat) list"
  an_playgroundRuns :: nat
  an_searchesTotal :: nat
  an_activity :: "(string \<times> nat \<times> nat) list"

definition since_rows :: "(string \<Rightarrow> string \<Rightarrow> bool) \<Rightarrow> string \<Rightarrow> ((string \<times> string) \<times> nat) list \<Rightarrow> ((string \<times> string) \<times> nat) list" where
  "since_rows day_le since rows = filter (\<lambda>((day, k), n). day_le since day) rows"

definition analytics ::
  "(time \<Rightarrow> string) \<Rightarrow> (string \<Rightarrow> string \<Rightarrow> bool) \<Rightarrow> time \<Rightarrow> nat \<Rightarrow> usage_db \<Rightarrow> analytics_overview" where
  "analytics day_text day_le now days db =
     (let since = day_text (now - int days * 86400000);
          searches = since_rows day_le since (us_searches db);
          views = since_rows day_le since (us_views db)
      in \<lparr>an_topSearches = top_groups 10 (group_sum (map (\<lambda>((day, t), n). (t, n)) searches)),
          an_topApis = top_groups 10 (group_sum (concat (map (\<lambda>((day, a), n).
            map (\<lambda>(i, slug, name). ((slug, name), n)) (filter (\<lambda>(i, slug, name). i = a) (us_apis db))) views))),
          an_playgroundRuns = us_playgroundRuns db,
          an_searchesTotal = sum_list (map snd searches),
          an_activity = map (\<lambda>(day, n). (day, 0, n))
            (sort_by (\<lambda>x y. day_le (fst x) (fst y)) (group_sum (map (\<lambda>((day, a), n). (day, n)) views)))\<rparr>)"

section \<open>Readiness follows the hard dependency\<close>

text \<open>
  The service is in error exactly when the database cannot be reached, and the cache alone can only
  degrade it.
\<close>

theorem readiness_exact:
  "hz_status (healthz version driver ping store_name healthy) =
     (case ping of
        Inl _ \<Rightarrow> CheckError
      | Inr latencyMs \<Rightarrow> if latencyMs < 1000 \<and> healthy = Some True then CheckOk else CheckDegraded)"
  by (auto simp: healthz_def database_check_def cache_check_def split: sum.split option.split bool.split)

text \<open>The worst quantile is one of the series and bounds them all, for series that are not negative.\<close>

lemma worst_fold:
  fixes w :: "rat option"
  assumes "list_all (\<lambda>(k, h). case f h of None \<Rightarrow> True | Some q \<Rightarrow> 0 \<le> q) hs" "case w of None \<Rightarrow> True | Some x \<Rightarrow> 0 \<le> x"
  shows "fold (\<lambda>(k, h) worst. case f h of None \<Rightarrow> worst | Some q \<Rightarrow> Some (max (case worst of Some w \<Rightarrow> w | None \<Rightarrow> 0) q)) hs w =
    (case (case w of None \<Rightarrow> [] | Some x \<Rightarrow> [x]) @ List.map_filter (f \<circ> snd) hs of [] \<Rightarrow> None | x # xs \<Rightarrow> Some (fold max xs x))"
  using assms
proof (induction hs arbitrary: w)
  case Nil
  then show ?case by (cases w) (simp_all add: map_filter_simps)
next
  case (Cons p hs)
  obtain k h where p: "p = (k, h)" by (cases p)
  show ?case
  proof (cases "f h")
    case None
    then show ?thesis using Cons by (simp add: p map_filter_simps)
  next
    case (Some q)
    let ?w = "Some (max (case w of Some w \<Rightarrow> w | None \<Rightarrow> 0) q)"
    have "case ?w of None \<Rightarrow> True | Some x \<Rightarrow> 0 \<le> x"
      using Cons.prems Some by (cases w) (auto simp: p max_def)
    with Cons show ?thesis
      using Some by (cases w) (auto simp: p map_filter_simps max_def max.commute)
  qed
qed

lemma worst_bounds:
  assumes "list_all (\<lambda>(k, h). case f h of None \<Rightarrow> True | Some q \<Rightarrow> 0 \<le> q) hs"
  shows "(case worst_of f hs of
      None \<Rightarrow> List.map_filter (f \<circ> snd) hs = []
    | Some w \<Rightarrow> w \<in> set (List.map_filter (f \<circ> snd) hs) \<and> (\<forall>q \<in> set (List.map_filter (f \<circ> snd) hs). q \<le> w))"
proof -
  have "fold max xs x \<in> set (x # xs) \<and> (\<forall>q \<in> set (x # xs). q \<le> fold max xs x)" for x :: rat and xs
    by (metis List.finite_set Max.set_eq_fold Max_ge Max_in list.distinct(1) set_empty2)
  then show ?thesis
    using worst_fold [OF assms, of None] by (auto simp: worst_of_def split: list.split)
qed

section \<open>Moderation leaves a trace\<close>

lemma unknown_slug_changes_nothing:
  "\<forall>a \<in> set (da_apis db). dm_slug a \<noteq> slug \<Longrightarrow>
     updateApiStatus now i slug status actor reason refused db = (db, ChangeFailed (NotFoundError ''API''))"
  by (auto simp: updateApiStatus_def status_check_def find_Some_iff split: option.split)

lemma audit_entry_kept: "(audit_of_change c)\<lparr>ae_userAgent := map_option (take 200) (ae_userAgent (audit_of_change c))\<rparr> = audit_of_change c"
  by (simp add: audit_of_change_def)

lemma update_recorded:
  assumes "updateApiStatus now i slug status actor reason refused db = (db', ChangeDone c)"
  shows "\<exists>r. da_audit db' = da_audit db @ [r] \<and> ar_entry r = audit_of_change c \<and> sg_to c = status \<and>
    (\<forall>a \<in> set (da_apis db'). dm_id a = sg_apiId c \<longrightarrow> dm_status a = status)"
  using assms
  by (auto simp: updateApiStatus_def status_check_def status_update_def audit_def audit_entry_kept Let_def
      split: option.splits if_splits)

lemma mset_without: "k < length xs \<Longrightarrow> add_mset (xs ! k) (mset (without k xs)) = mset xs"
proof -
  assume k: "k < length xs"
  have "mset xs = mset (take k xs @ xs ! k # drop (Suc k) xs)"
    using id_take_nth_drop [OF k] by simp
  then show ?thesis by (simp add: without_def)
qed

definition moderation_ok :: "moderation \<Rightarrow> bool" where
  "moderation_ok m \<longleftrightarrow>
     mset (md_changes m) = mset (md_events m) + mset (md_updated m) + mset (md_unaudited m) \<and>
     map ar_entry (da_audit (md_db m)) = map audit_of_change (md_events m)"

lemma moderation_step_ok: "moderation_ok m \<Longrightarrow> moderation_ok (moderation_step st m)"
proof (induction st m rule: moderation_step.induct)
  case (3 k now i refused m)
  show ?case
  proof (cases "k < length (md_updated m)")
    case True
    then show ?thesis
      using 3 mset_without [OF True]
      by (auto simp: moderation_ok_def Let_def audit_def audit_entry_kept)
  qed (use 3 in simp)
qed (auto simp: moderation_ok_def Let_def status_update_def split: sum.split)

text \<open>
  However the statements of moderators interleave and whichever are refused: the log holds, in order,
  one entry for each event published, and every status that was changed has its entry, except those whose
  audit is still to be written or was refused.
\<close>

theorem moderation_audited:
  "let m = fold moderation_step steps moderation_start in
     map ar_entry (da_audit (md_db m)) = map audit_of_change (md_events m) \<and>
     mset (md_changes m) = mset (md_events m) + mset (md_updated m) + mset (md_unaudited m)"
proof -
  have "moderation_ok (fold moderation_step steps m)" if "moderation_ok m" for m
    using that by (induction steps arbitrary: m) (simp_all add: moderation_step_ok)
  from this [of moderation_start] show ?thesis
    by (simp add: moderation_ok_def moderation_start_def Let_def)
qed

lemma audit_append_only: "\<exists>xs. da_audit (md_db (moderation_step st m)) = da_audit (md_db m) @ xs"
  by (induction st m rule: moderation_step.induct) (auto simp: audit_def status_update_def Let_def split: sum.split)

text \<open>The update and its audit are two statements: a refused audit leaves a change that nothing records or announces.\<close>

lemma refused_audit_leaves_change:
  "let db = \<lparr>da_apis = [\<lparr>dm_id = ''1'', dm_slug = ''a'', dm_status = ''active'', dm_updatedAt = 0\<rparr>], da_audit = []\<rparr>;
       r = updateApiStatus 5 ''x'' ''a'' ''removed'' (''u'', ''m'') None (False, True) db
   in map dm_status (da_apis (fst r)) = [''removed''] \<and> da_audit (fst r) = [] \<and> snd r = ChangeRefused"
  by (simp add: updateApiStatus_def status_check_def status_update_def)

section \<open>Usage adds up\<close>

lemma group_sum_get:
  "jm_get (group_sum rows) k = (if k \<in> fst ` set rows then Some (sum_list (map snd (filter (\<lambda>r. fst r = k) rows))) else None)"
proof -
  have "jm_get (fold (\<lambda>(k, n) m. jm_set k ((case jm_get m k of Some s \<Rightarrow> s | None \<Rightarrow> 0) + n) m) rows m) k =
      (if k \<in> fst ` set rows then Some ((case jm_get m k of Some s \<Rightarrow> s | None \<Rightarrow> 0) + sum_list (map snd (filter (\<lambda>r. fst r = k) rows)))
       else jm_get m k)" for m :: "('a, nat) jsmap"
  proof (induction rows arbitrary: m)
    case (Cons r rows)
    show ?case
      by (cases r) (force simp: Cons.IH jm_get_set split: option.split)
  qed simp
  then show ?thesis by (simp add: group_sum_def)
qed

lemma sum_jm_set:
  "sum_list (map snd (jm_set k (v :: nat) m)) + (case jm_get m k of Some s \<Rightarrow> s | None \<Rightarrow> 0) = sum_list (map snd m) + v"
  by (induction m) auto

lemma group_sum_total: "sum_list (map snd (group_sum rows)) = sum_list (map snd rows)"
proof -
  have "sum_list (map snd (fold (\<lambda>(k, n) m. jm_set k ((case jm_get m k of Some s \<Rightarrow> s | None \<Rightarrow> 0) + n) m) rows m)) =
      sum_list (map snd m) + sum_list (map snd rows)" for m :: "('a, nat) jsmap"
  proof (induction rows arbitrary: m)
    case (Cons r rows)
    obtain k n where r: "r = (k, n)" by (cases r)
    have "sum_list (map snd (jm_set k ((case jm_get m k of Some s \<Rightarrow> s | None \<Rightarrow> 0) + n) m)) = sum_list (map snd m) + n"
      using sum_jm_set [of k "(case jm_get m k of Some s \<Rightarrow> s | None \<Rightarrow> 0) + n" m] by simp
    then show ?case by (simp add: r Cons.IH)
  qed simp
  then show ?thesis by (simp add: group_sum_def)
qed

lemma sum_list_sorted_by: "sum_list (map f (sort_by le xs)) = sum_list (map (f :: 'a \<Rightarrow> nat) xs)"
  by (metis mset_map mset_sort_by sum_mset_sum_list)

text \<open>
  The activity of the days adds up to the views of the period, and its searches, which the total counts, are
  always nought.
\<close>

theorem activity_adds_up:
  "let a = analytics day_text day_le now days db;
       since = day_text (now - int days * 86400000)
   in sum_list (map (\<lambda>(day, s, v). v) (an_activity a)) = sum_list (map snd (since_rows day_le since (us_views db))) \<and>
      an_searchesTotal a = sum_list (map snd (since_rows day_le since (us_searches db))) \<and>
      list_all (\<lambda>(day, s, v). s = 0) (an_activity a)"
proof -
  let ?views = "since_rows day_le (day_text (now - int days * 86400000)) (us_views db)"
  let ?groups = "group_sum (map (\<lambda>((day, a), n). (day, n)) ?views)"
  have "sum_list (map snd (sort_by (\<lambda>x y. day_le (fst x) (fst y)) ?groups)) = sum_list (map snd ?groups)"
    by (rule sum_list_sorted_by)
  also have "\<dots> = sum_list (map snd ?views)"
    by (simp add: group_sum_total o_def case_prod_unfold)
  finally show ?thesis
    unfolding Let_def analytics_def by (simp add: o_def split_beta list_all_iff)
qed

end
