(* ===== verification/Spec2Isabelle.thy ===== *)
theory Spec2Isabelle
  imports PQueue TopK Lru TokenBucket SlidingWindow RollingWindow Breaker HealthScoring
    JsString Ip Ssrf UnionFind GraphOrder RateLimiter Retry Lock CacheCoherence MemoryQueue
    EditDistance Trie Bloom InvertedIndex QueryParser Redaction Tokens Executor CodeGenerators Normalizer SearchRanking Metrics
    HttpProbe HealthJobs HealthIncidents Catalog CatalogRepository SearchService Recommendations AppErrors AccountSessions
    Sanitize Reviews Collections IngestionProps EventBus VectorMath HealthPages Administration
begin

text \<open>
  \<^bold>\<open>APIHub: the verification library.\<close>

  APIHub is a catalogue of public web APIs: a monorepo of TypeScript packages, an HTTP service, a
  worker and a web front end. This development models the packages that carry its own logic and
  proves what makes them correct. The parts and how they meet:

  \<^item> \<open>packages/algorithms\<close>: data structures. \<open>Heap\<close> and \<open>PQueue\<close> (\<open>binary-heap.ts\<close>), \<open>TopK\<close>
    (\<open>top-k.ts\<close>, on the heap), \<open>Lru\<close> (\<open>lru-cache.ts\<close>), \<open>TokenBucket\<close> (\<open>token-bucket.ts\<close>),
    \<open>SlidingWindow\<close> and \<open>RollingWindow\<close> (\<open>sliding-window.ts\<close>), \<open>UnionFind\<close> (\<open>union-find.ts\<close>),
    \<open>Graph\<close>, \<open>GraphProps\<close>, \<open>GraphSearch\<close>, \<open>GraphOrder\<close> (\<open>graph.ts\<close>), \<open>TextAnalysis\<close> and
    \<open>EditDistance\<close> (\<open>text.ts\<close>), \<open>Trie\<close> (\<open>trie.ts\<close>, with \<open>TopK\<close> as its contract for the best
    suggestions), \<open>Bloom\<close> (\<open>bloom-filter.ts\<close>), \<open>InvertedIndex\<close> (\<open>inverted-index.ts\<close>, on
    \<open>TextAnalysis\<close> and \<open>TopK\<close>), \<open>VectorMath\<close> (\<open>vector.ts\<close>: similarities and weights of terms).
  \<^item> \<open>packages/runtime\<close>: resilience and infrastructure. \<open>Breaker\<close> (\<open>circuit-breaker.ts\<close>, on the
    rolling window), \<open>RateLimiter\<close> (\<open>rate-limiter.ts\<close>, on the token bucket), \<open>Retry\<close>
    (\<open>retry.ts\<close>), \<open>Lock\<close> (\<open>lock.ts\<close>), \<open>CacheStores\<close> (\<open>cache-store.ts\<close>, \<open>memory-cache.ts\<close>, on the
    LRU cache), \<open>RedisCache\<close> (\<open>redis-cache.ts\<close>), \<open>CacheService\<close> and \<open>CacheCoherence\<close>
    (\<open>cache-service.ts\<close>, \<open>factory.ts\<close>, on two stores), \<open>MemoryQueue\<close> (\<open>memory-queue.ts\<close>, on the
    priority queue), \<open>Metrics\<close> (\<open>metrics.ts\<close>), \<open>EventBus\<close> (\<open>events.ts\<close>: subscriptions, and delivery in the
    process and between instances; with it what the catalogue subscribes to).
  \<^item> \<open>packages/domain\<close>: \<open>HealthScoring\<close> (\<open>health-scoring.ts\<close>).
  \<^item> \<open>packages/security\<close>: \<open>Ip\<close> (\<open>ip.ts\<close>), \<open>Ssrf\<close> (\<open>ssrf.ts\<close>, on \<open>Ip\<close>), \<open>Redaction\<close>
    (\<open>redaction.ts\<close>), \<open>Tokens\<close> (\<open>tokens.ts\<close>), \<open>Sanitize\<close> (\<open>sanitize.ts\<close>: text,
    embedded JSON and escaped output).
  \<^item> \<open>packages/jobs\<close>: \<open>SourceParser\<close> (\<open>ingestion/source-adapter.ts\<close>: the rows of the source document),
    \<open>Normalizer\<close> (\<open>ingestion/normalizer.ts\<close>: imported records and their slugs), \<open>Persist\<close> and
    \<open>PersistProps\<close> (\<open>jobs/persist.ts\<close> and the identifiers of \<open>packages/database/src/schema/ids.ts\<close>:
    the batched statements), \<open>Ingestion\<close> and \<open>IngestionProps\<close> (\<open>jobs/ingestion.ts\<close>: the whole import, on
    the three others, \<open>Ssrf\<close> and \<open>Lock\<close>),
    \<open>HttpProbe\<close> (\<open>probe/http-probe.ts\<close>, on \<open>Ssrf\<close>), \<open>HealthJobs\<close> and \<open>HealthIncidents\<close>
    (\<open>jobs/health.ts\<close>, on \<open>HealthScoring\<close> and \<open>Retry\<close>: due targets, probes recorded statement by
    statement, sweeps that overlap, incidents, retention and daily roll-up).
  \<^item> \<open>apps/api/src/modules/catalog\<close>: \<open>Catalog\<close> (\<open>mappers.ts\<close>, \<open>specifications.ts\<close>, the cache key of
    \<open>service.ts\<close>) and \<open>CatalogRepository\<close> (\<open>repository.ts\<close>, its queries over tables that are lists of
    rows).
  \<^item> \<open>apps/api/src/modules/search\<close>: \<open>SearchRanking\<close> (\<open>ranking.ts\<close>) and \<open>SearchService\<close>
    (\<open>repository.ts\<close>, \<open>service.ts\<close>: candidates, broadening, ranking with \<open>TopK\<close>, pages, corrections),
    on the catalogue and \<open>QueryParser\<close>; \<open>Recommendations\<close> (\<open>modules/recommendations/service.ts\<close>) on both.
  \<^item> Accounts and what users own: \<open>Accounts\<close> and \<open>AccountSessions\<close> (\<open>modules/auth/service.ts\<close>,
    \<open>app/plugins/auth.ts\<close>, \<open>packages/security/src/password.ts\<close>: registration, login, sessions, roles and
    the guards of routes, on \<open>Tokens\<close>), \<open>Reviews\<close> (\<open>modules/reviews/service.ts\<close>), \<open>Collections\<close>
    (\<open>modules/users\<close>: collections and favourites). \<open>AppErrors\<close> has the errors they raise and the response
    each becomes (\<open>shared/errors.ts\<close>, \<open>app/plugins/error-handler.ts\<close>, \<open>app/envelope.ts\<close>).
  \<^item> Pages for operators: \<open>HealthPages\<close> (\<open>modules/health\<close>, on the tables of \<open>HealthJobs\<close>), \<open>Administration\<close>
    (\<open>modules/admin/service.ts\<close>: readiness, metrics, moderation with its audit log, usage; on \<open>Ingestion\<close>,
    \<open>Metrics\<close> and \<open>MemoryQueue\<close>).
  \<^item> The rest of \<open>apps/api\<close>: \<open>QueryParser\<close> (\<open>modules/search/query-parser.ts\<close>, on \<open>TextAnalysis\<close>), \<open>Executor\<close>
    (\<open>modules/playground/executor.ts\<close>, on \<open>Ssrf\<close>, \<open>Breaker\<close> and \<open>Redaction\<close>), \<open>Codegen\<close> and
    \<open>CodeGenerators\<close> (\<open>modules/playground/codegen.ts\<close>); \<open>PlaygroundRequest\<close> is the request both read
    (\<open>packages/contracts/src/playground.ts\<close>).
  \<^item> Shared: \<open>Prelude\<close> (insertion-ordered maps, rounding, runs of operations and simulations),
    \<open>JsString\<close> (the string functions of the language), \<open>JsRegex\<close> and \<open>RegexWindow\<close> (its regular
    expressions with their backtracking order, and what a global replacement leaves), \<open>WebUrl\<close>
    (the URL object and its parameters).

  \<^bold>\<open>How the code is modelled.\<close> A class is a record of its fields and each method a function from the
  state and the arguments to the new state and the result; errors are values of a sum or option
  type. A map of the language is an association list in insertion order. Object graphs that the
  code links by reference (the list of the LRU cache, the breaker shared by its callers) are an
  explicit store. The clock is an argument, read once per operation. An asynchronous method is cut
  at each await, and the calls in flight are part of the state of a step relation or of a run of
  events, so that the theorems hold for every interleaving. A double is an exact rational where the
  code only adds, multiplies and compares, a real number where it takes roots and logarithms of a
  filter's size or of vectors, integers of a fixed width are machine words, and strings
  are lists of the 256 characters of Latin-1, with case mapping of the ASCII letters.

  \<^bold>\<open>Parameters.\<close> The platform and third-party services are arguments of the definitions: the URL
  parser and serialiser, the DNS resolver, the Redis client, JSON conversion, logarithm and
  exponential, random numbers, the keyed hash, the handler of a job and the operations that are
  retried or guarded. Laws about them appear as hypotheses only where a theorem says so.

  \<^bold>\<open>What the lemmas show.\<close> Each theory proves the invariant of its state, the effect of every
  operation, and one or a few theorems over whole runs: refinement of an abstract object (recency
  list, multiset of jobs, corpus of documents, expected cache contents), exactness of a decision
  (the breaker trips, the address is blocked, the secret is removed), bounds (admitted requests,
  trial calls, retries) and termination (every loop is a total function; searches of a graph and
  retries return). Interfaces are locales interpreted on the code's own stores and structures: the
  comparison of the heap, the contract of the priority queue, the store a cache tier provides.

  For the parts that write to the database, a statement either takes effect as a whole or is refused
  by the driver, and the statements of different calls interleave: ratings and vote counts agree with
  the rows they summarise, only the owner changes a review or a collection, accounts and sessions
  refine a map of live sessions, an import leaves keys and references consistent whatever is refused,
  importing the same document again changes nothing but the time stamps, and the audit log has one entry
  for every change of status announced. Between instances, every subscriber is called for every published event.

  \<^bold>\<open>Bounds.\<close> No definition of the code uses fuel (only the reader of SQL arrays in
  \<open>Catalog\<close> does, and the length of its input is enough). Loops over data recurse on it or on a measure (the rest of a
  list, the nodes not visited, the attempts left). Walks along references (the list of the LRU
  cache, parents in the union-find forest, the path back in a graph search, the scan cursor of
  Redis) are partial functions, whose result None is not returning: that they return in every
  reachable state is part of the theorems, except for the Redis cursor, which the server decides.

  \<^bold>\<open>Tables.\<close> Where a component's logic lies in its queries, a table is a list of rows or a map by its
  key, a query a function on it, and a statement the unit of interleaving. Text search, collation and
  the rank the database gives are parameters.

  \<^bold>\<open>Not modelled.\<close> Start-up, shutdown and wiring of the web framework, its rate-limit and request-context
  hooks; the routes, which validate with a third-party schema library and call the services; table
  definitions, migrations and seeds; configuration and contracts (schemas of that library); logging;
  BullMQ and the Redis connection; the playground's history, which only stores and lists runs; the
  popularity and search-index jobs (one SQL statement each); the job scheduler (timers around the
  modelled queue and locks); constant security headers; the user interface. Timers and abort signals count only by their effect.
  Characters outside Latin-1 and rounding of doubles are outside the model.
\<close>

end
